(* ===== verification/Kgl_Prelude.thy ===== *)
theory Kgl_Prelude
  imports Main "HOL-Library.Word"
begin

text \<open>
  Shared vocabulary of the development: the pieces of the C library the sources
  under \<^verbatim>\<open>src/\<close> call (character classes, \<^verbatim>\<open>strchr\<close>, \<^verbatim>\<open>atoi\<close>,
  \<^verbatim>\<open>strcasecmp\<close>, \<^verbatim>\<open>strncasecmp\<close>), the width of a C \<^verbatim>\<open>int\<close>, lists cut
  at a separator, and the named collections the component theories add their rewrite rules to.

  A C string is a \<open>string\<close> without the terminating NUL. Code that writes a NUL into a
  buffer to end a token is modelled by the token itself, so \<open>cut_at\<close> is
  \<^verbatim>\<open>strchr\<close> followed by the store of the NUL.
\<close>

named_theorems cstr_simps \<open>rewrite rules for C strings\<close>
named_theorems frame_simps \<open>fields an operation leaves alone\<close>
named_theorems invar_intros \<open>operations preserve their component's invariant\<close>

section \<open>Machine integers\<close>

type_synonym u8 = "8 word"
type_synonym u16 = "16 word"
type_synonym u32 = "32 word"

abbreviation (input) INT_MAX :: int where
  "INT_MAX \<equiv> 2147483647"

abbreviation (input) INT_MIN :: int where
  "INT_MIN \<equiv> - 2147483648"

definition in_int32 :: "int \<Rightarrow> bool" where
  "in_int32 x \<longleftrightarrow> INT_MIN \<le> x \<and> x \<le> INT_MAX"

definition to_int32 :: "int \<Rightarrow> int" where
  "to_int32 x = (x + 2147483648) mod 4294967296 - 2147483648"

section \<open>Characters\<close>

definition is_space :: "char \<Rightarrow> bool" where
  "is_space c \<longleftrightarrow> c \<in> set [CHR '' '', CHR 0x09, CHR 0x0A, CHR 0x0B, CHR 0x0C, CHR 0x0D]"

definition char_code :: "char \<Rightarrow> int" where
  "char_code c = int (of_char c)"

definition is_digit :: "char \<Rightarrow> bool" where
  "is_digit c \<longleftrightarrow> 48 \<le> char_code c \<and> char_code c \<le> 57"

definition to_lower :: "char \<Rightarrow> char" where
  "to_lower c = (if 65 \<le> char_code c \<and> char_code c \<le> 90 then char_of (of_char c + 32 :: nat) else c)"

section \<open>C strings\<close>

text \<open>\<open>cut_at c s\<close>: the text before the first \<open>c\<close>, and the text after it when there is one.\<close>

fun cut_at :: "char \<Rightarrow> string \<Rightarrow> string \<times> string option" where
  "cut_at c [] = ([], None)"
| "cut_at c (x # xs) =
     (if x = c then ([], Some xs)
      else (case cut_at c xs of (a, b) \<Rightarrow> (x # a, b)))"

fun split_on :: "char \<Rightarrow> string \<Rightarrow> string list" where
  "split_on c [] = [[]]"
| "split_on c (x # xs) =
     (if x = c then [] # split_on c xs
      else (case split_on c xs of [] \<Rightarrow> [[x]] | y # ys \<Rightarrow> (x # y) # ys))"

fun digits_val :: "int \<Rightarrow> string \<Rightarrow> int" where
  "digits_val acc [] = acc"
| "digits_val acc (c # cs) =
     (if is_digit c then digits_val (acc * 10 + (char_code c - 48)) cs else acc)"

definition clamp64 :: "int \<Rightarrow> int" where
  "clamp64 x = max (- 9223372036854775808) (min 9223372036854775807 x)"

text \<open>\<^verbatim>\<open>atoi\<close> is \<^verbatim>\<open>(int) strtol (s, NULL, 10)\<close>: a saturating 64 bit value, cut to 32 bits.\<close>

definition strtol10 :: "string \<Rightarrow> int" where
  "strtol10 s =
     (case dropWhile is_space s of
        [] \<Rightarrow> 0
      | c # cs \<Rightarrow>
          (if c = CHR ''-'' then clamp64 (- digits_val 0 cs)
           else if c = CHR ''+'' then clamp64 (digits_val 0 cs)
           else clamp64 (digits_val 0 (c # cs))))"

definition atoi :: "string \<Rightarrow> int" where
  "atoi s = to_int32 (strtol10 s)"

text \<open>Decimal output of an unsigned value, as the stream operators print it.\<close>

fun dec :: "nat \<Rightarrow> string" where
  "dec n = (if n < 10 then [char_of (48 + n)] else dec (n div 10) @ [char_of (48 + n mod 10)])"

declare dec.simps [simp del]

definition strcase_eq :: "string \<Rightarrow> string \<Rightarrow> bool" where
  "strcase_eq a b \<longleftrightarrow> map to_lower a = map to_lower b"

section \<open>Generic lemmas\<close>

lemma to_int32_range: "in_int32 (to_int32 x)"
  unfolding in_int32_def to_int32_def
  by (smt (verit, ccfv_SIG) Euclidean_Rings.pos_mod_bound Euclidean_Rings.pos_mod_sign)

lemma to_int32_id: "in_int32 x \<Longrightarrow> to_int32 x = x"
  by (simp add: in_int32_def to_int32_def)

lemma atoi_range: "in_int32 (atoi s)"
  by (simp add: atoi_def to_int32_range)

lemma split_on_not_Nil [simp]: "split_on c s \<noteq> []"
  by (induction s) (auto split: list.splits)

lemma cut_at_None:
  "c \<notin> set s \<Longrightarrow> cut_at c s = (s, None)"
  by (induction s) auto

lemma cut_at_fst: "fst (cut_at c s) = takeWhile (\<lambda>x. x \<noteq> c) s"
  by (induction s) (auto split: prod.splits)

lemma cut_at_snd:
  "snd (cut_at c s) = (if c \<in> set s then Some (tl (dropWhile (\<lambda>x. x \<noteq> c) s)) else None)"
  by (induction s) (auto split: prod.splits)

lemma cut_at_Some_length:
  "cut_at c s = (a, Some b) \<Longrightarrow> length b < length s"
  by (induction s arbitrary: a) (auto split: prod.splits if_splits)

lemma cut_at_Some_append:
  "cut_at c s = (a, Some b) \<Longrightarrow> s = a @ c # b \<and> c \<notin> set a"
  by (induction s arbitrary: a) (auto split: prod.splits if_splits)

lemma cut_at_append: "c \<notin> set a \<Longrightarrow> cut_at c (a @ c # b) = (a, Some b)"
  by (induction a) auto

lemma cut_at_None_eq:
  "cut_at c s = (a, None) \<Longrightarrow> s = a \<and> c \<notin> set a"
  by (induction s arbitrary: a) (auto split: prod.splits if_splits)

text \<open>Cutting off one token at a time is \<open>split_on\<close>.\<close>

lemma split_on_cut_at:
  "split_on c s = (case cut_at c s of (a, None) \<Rightarrow> [a] | (a, Some b) \<Rightarrow> a # split_on c b)"
  by (induction s) (auto split: prod.splits option.splits list.splits)

lemma split_on_append_sep:
  "c \<notin> set a \<Longrightarrow> split_on c (a @ c # b) = a # split_on c b"
  by (induction a) auto

lemma split_on_no_sep: "c \<notin> set a \<Longrightarrow> split_on c a = [a]"
  by (induction a) auto

lemma split_on_parts: "t \<in> set (split_on c s) \<Longrightarrow> c \<notin> set t"
  by (induction s arbitrary: t) (auto split: if_splits list.splits)

lemmas cut_at_simps = cut_at_fst cut_at_snd cut_at_None
declare cut_at_simps [cstr_simps]

lemma is_digit_not_space: "is_digit c \<Longrightarrow> \<not> is_space c"
  by (auto simp: is_digit_def is_space_def char_code_def)

section \<open>Decimal numbers\<close>

lemma char_code_digit: "n < 10 \<Longrightarrow> char_code (char_of (48 + n :: nat)) = 48 + int n"
  by (simp add: char_code_def of_char_of take_bit_eq_mod)

lemma is_digit_digit [simp]: "n < 10 \<Longrightarrow> is_digit (char_of (48 + n :: nat))"
  by (simp add: is_digit_def char_code_digit)

lemma dec_digits: "c \<in> set (dec n) \<Longrightarrow> is_digit c"
proof (induction n rule: dec.induct)
  case (1 n)
  then show ?case by (auto simp: dec.simps [of n] split: if_splits)
qed

lemma dec_not_Nil [simp]: "dec n \<noteq> []"
  by (subst dec.simps) simp

lemma digits_val_append:
  "\<forall>c \<in> set xs. is_digit c \<Longrightarrow> digits_val acc (xs @ ys) = digits_val (digits_val acc xs) ys"
  by (induction xs arbitrary: acc) auto

lemma digits_val_dec: "digits_val 0 (dec n) = int n"
proof (induction n rule: dec.induct)
  case (1 n)
  show ?case
  proof (cases "n < 10")
    case True
    then show ?thesis by (simp add: dec.simps [of n] char_code_digit)
  next
    case False
    with 1 have "digits_val 0 (dec (n div 10)) = int (n div 10)" by simp
    with False show ?thesis
      by (simp add: dec.simps [of n] digits_val_append dec_digits char_code_digit zdiv_int zmod_int)
  qed
qed

lemma digits_val_stop:
  "(case r of [] \<Rightarrow> True | c # _ \<Rightarrow> \<not> is_digit c) \<Longrightarrow> digits_val acc r = acc"
  by (cases r) auto

lemma is_digit_not_sign: "is_digit c \<Longrightarrow> c \<noteq> CHR ''-'' \<and> c \<noteq> CHR ''+''"
  by (auto simp: is_digit_def char_code_def)

lemma atoi_dec:
  assumes "n \<le> 2147483647" and "case r of [] \<Rightarrow> True | c # _ \<Rightarrow> \<not> is_digit c"
  shows "atoi (dec n @ r) = int n"
proof -
  obtain d ds where d: "dec n = d # ds" by (cases "dec n") auto
  have dd: "is_digit d" using dec_digits [of d n] d by simp
  have "digits_val 0 (dec n @ r) = int n"
    using assms(2) by (simp add: digits_val_append dec_digits digits_val_dec digits_val_stop)
  with d dd assms(1) show ?thesis
    by (simp add: atoi_def strtol10_def is_digit_not_space is_digit_not_sign clamp64_def
        to_int32_id in_int32_def)
qed

lemma atoi_dec_Nil: "n \<le> 2147483647 \<Longrightarrow> atoi (dec n) = int n"
  using atoi_dec [of n "[]"] by simp

lemma not_in_dec: "\<not> is_digit c \<Longrightarrow> c \<notin> set (dec n)"
  using dec_digits by blast

end
