(* ===== verification/Time_Match.thy ===== *)
theory Time_Match
  imports Kgl_Prelude
begin

text \<open>
  The cron style time matcher of \<^verbatim>\<open>src/KTimeMatch.cpp\<close>: five tables of flags filled from a
  textual model by \<^verbatim>\<open>KTimeMatch::set\<close>, and \<^verbatim>\<open>KTimeMatch::check\<close>, which a
  timer calls and which walks over the minutes since its last call. \<^verbatim>\<open>localtime_r\<close>
  depends on the time zone of the machine and is an argument of the definitions. A store outside
  a table and an overflow of a C \<^verbatim>\<open>int\<close> are errors of the model.
\<close>

section \<open>State\<close>

datatype ub = SignedOverflow | OutOfBounds

record time_match =
  tmin :: "bool list"
  thour :: "bool list"
  tday :: "bool list"
  tmonth :: "bool list"
  tweek :: "bool list"
  topen :: bool
  lastCheck :: int

record ctm =
  tm_min :: nat
  tm_hour :: nat
  tm_mday :: nat
  tm_mon :: nat
  tm_wday :: nat

definition init_match :: time_match where
  "init_match =
     \<lparr>tmin = replicate 60 False, thour = replicate 24 False, tday = replicate 32 False,
      tmonth = replicate 13 False, tweek = replicate 8 False, topen = False, lastCheck = 0\<rparr>"

section \<open>Parsing a time model\<close>

text \<open>The innermost loop of \<^verbatim>\<open>setItem\<close>, after the step was raised to at least 1.\<close>

function fill_item :: "int \<Rightarrow> int \<Rightarrow> int \<Rightarrow> bool list \<Rightarrow> ub + bool list" where
  "fill_item i mx step item =
     (let st = (if step < 1 then 1 else step) in
      if mx < i then Inr item
      else if i < 0 \<or> int (length item) \<le> i then Inl OutOfBounds
      else if \<not> in_int32 (i + st) then Inl SignedOverflow
      else fill_item (i + st) mx step (item[nat i := True]))"
  by pat_completeness auto
termination
  by (relation "measure (\<lambda>(i, mx, step, item). nat (mx - i + 1))") auto

declare fill_item.simps [simp del]

text \<open>The bounds of one list element; \<open>None\<close> is the \<^verbatim>\<open>return false\<close>.\<close>

definition item_bounds :: "string \<Rightarrow> int \<Rightarrow> int \<Rightarrow> (int \<times> int) option" where
  "item_bounds hot low hight =
     (case hot of
        [] \<Rightarrow> None
      | c # _ \<Rightarrow>
          (if c = CHR ''*'' then Some (low, hight)
           else if \<not> is_digit c then None
           else
             (let mn = atoi hot;
                  mx = (case snd (cut_at CHR ''-'' hot) of None \<Rightarrow> mn | Some r \<Rightarrow> atoi r)
              in Some (if mn < low then low else mn, if hight < mx then hight else mx))))"

function setItem :: "string option \<Rightarrow> bool list \<Rightarrow> int \<Rightarrow> int \<Rightarrow> ub + (bool list \<times> bool)" where
  "setItem hot item low hight =
     (case hot of
        None \<Rightarrow> Inr (item, True)
      | Some h \<Rightarrow>
          (if h = [] then Inr (item, True)
           else
             (let cur = fst (cut_at CHR '','' h);
                  next_list = snd (cut_at CHR '','' h);
                  body = fst (cut_at CHR ''/'' cur);
                  step = (case snd (cut_at CHR ''/'' cur) of None \<Rightarrow> 1 | Some s \<Rightarrow> atoi s)
              in case item_bounds body low hight of
                   None \<Rightarrow> Inr (item, False)
                 | Some (mn, mx) \<Rightarrow>
                     (case fill_item mn mx step item of
                        Inl e \<Rightarrow> Inl e
                      | Inr item' \<Rightarrow> setItem next_list item' low hight))))"
  by pat_completeness auto
termination
proof (relation "measure (\<lambda>(hot, _). case hot of None \<Rightarrow> 0 | Some h \<Rightarrow> Suc (length h))", goal_cases)
  case 1
  then show ?case by simp
next
  case (2 hot item low hight h)
  then show ?case
    using cut_at_Some_length [of "CHR '',''" h "fst (cut_at CHR '','' h)"]
    by (cases "snd (cut_at CHR '','' h)") (auto simp: prod_eq_iff)
qed

declare setItem.simps [simp del]

text \<open>The \<^verbatim>\<open>switch\<close> over the position of a field; the result of \<open>setItem\<close> is ignored.\<close>

definition set_field :: "nat \<Rightarrow> string \<Rightarrow> time_match \<Rightarrow> ub + time_match" where
  "set_field i hot t =
     (if i = 0 then
        (case setItem (Some hot) (tmin t) 0 59 of Inl e \<Rightarrow> Inl e | Inr (a, _) \<Rightarrow> Inr (t\<lparr>tmin := a\<rparr>))
      else if i = 1 then
        (case setItem (Some hot) (thour t) 0 23 of Inl e \<Rightarrow> Inl e | Inr (a, _) \<Rightarrow> Inr (t\<lparr>thour := a\<rparr>))
      else if i = 2 then
        (case setItem (Some hot) (tday t) 1 31 of Inl e \<Rightarrow> Inl e | Inr (a, _) \<Rightarrow> Inr (t\<lparr>tday := a\<rparr>))
      else if i = 3 then
        (case setItem (Some hot) (tmonth t) 1 12 of Inl e \<Rightarrow> Inl e | Inr (a, _) \<Rightarrow> Inr (t\<lparr>tmonth := a\<rparr>))
      else if i = 4 then
        (case setItem (Some hot) (tweek t) 0 7 of Inl e \<Rightarrow> Inl e | Inr (a, _) \<Rightarrow> Inr (t\<lparr>tweek := a\<rparr>))
      else Inr t)"

fun set_fields :: "nat \<Rightarrow> nat \<Rightarrow> string \<Rightarrow> time_match \<Rightarrow> ub + time_match" where
  "set_fields 0 i hot t = Inr t"
| "set_fields (Suc n) i hot t =
     (let h = dropWhile is_space hot;
          word = takeWhile (\<lambda>c. \<not> is_space c) h;
          next_item = tl (dropWhile (\<lambda>c. \<not> is_space c) h)
      in if h = [] then Inr t
         else case set_field i word t of
                Inl e \<Rightarrow> Inl e
              | Inr t' \<Rightarrow> if next_item = [] then Inr t' else set_fields n (Suc i) next_item t')"

definition fold_sunday :: "time_match \<Rightarrow> time_match" where
  "fold_sunday t =
     (if tweek t ! 7 \<or> tweek t ! 0 then t\<lparr>tweek := (tweek t)[0 := True, 7 := True]\<rparr> else t)"

definition set_match :: "string option \<Rightarrow> ub + (time_match \<times> bool)" where
  "set_match time_model =
     (if time_model = None \<or> time_model = Some [] then Inr (init_match\<lparr>topen := True\<rparr>, True)
      else case set_fields 5 0 (the time_model) init_match of
             Inl e \<Rightarrow> Inl e
           | Inr t \<Rightarrow> Inr (fold_sunday t, True))"

section \<open>Checking the clock\<close>

text \<open>A chain of table reads joined by \<^verbatim>\<open>&&\<close>.\<close>

fun all_set :: "(bool list \<times> nat) list \<Rightarrow> ub + bool" where
  "all_set [] = Inr True"
| "all_set ((a, i) # r) =
     (if length a \<le> i then Inl OutOfBounds
      else if a ! i then all_set r else Inr False)"

definition checkTime :: "(int \<Rightarrow> ctm) \<Rightarrow> int \<Rightarrow> time_match \<Rightarrow> ub + (time_match \<times> bool)" where
  "checkTime localtime now_tm t =
     (let t' = t\<lparr>lastCheck := now_tm\<rparr>; c = localtime now_tm in
      if topen t then Inr (t', True)
      else case all_set [(tmin t, tm_min c), (thour t, tm_hour c), (tday t, tm_mday c),
                         (tmonth t, tm_mon c + 1), (tweek t, tm_wday c)] of
             Inl e \<Rightarrow> Inl e
           | Inr b \<Rightarrow> Inr (t', b))"

function check_loop :: "(int \<Rightarrow> ctm) \<Rightarrow> int \<Rightarrow> int \<Rightarrow> time_match \<Rightarrow> ub + (time_match \<times> bool)" where
  "check_loop localtime i now_tm t =
     (if i \<le> now_tm then
        (case checkTime localtime i t of
           Inl e \<Rightarrow> Inl e
         | Inr (t', b) \<Rightarrow> if b then Inr (t', True) else check_loop localtime (i + 60) now_tm t')
      else Inr (t, False))"
  by pat_completeness auto
termination
  by (relation "measure (\<lambda>(localtime, i, now_tm, t). nat (now_tm - i + 1))") auto

declare check_loop.simps [simp del]

definition check :: "(int \<Rightarrow> ctm) \<Rightarrow> int \<Rightarrow> time_match \<Rightarrow> ub + (time_match \<times> bool)" where
  "check localtime now_tm t =
     (if now_tm - lastCheck t < 60 then Inr (t, False)
      else if lastCheck t = 0 then checkTime localtime now_tm t
      else check_loop localtime (lastCheck t + 60) now_tm t)"

section \<open>What a time model denotes\<close>

text \<open>
  Reference semantics of one table: a list element is \<^verbatim>\<open>*/s\<close> or \<^verbatim>\<open>a-b/s\<close>
  and denotes an arithmetic progression inside the bounds of the table.
\<close>

datatype cron_item = Every nat | Span nat nat nat

fun print_item :: "cron_item \<Rightarrow> string" where
  "print_item (Every s) = ''*/'' @ dec s"
| "print_item (Span a b s) = dec a @ ''-'' @ dec b @ ''/'' @ dec s"

fun print_items :: "cron_item list \<Rightarrow> string" where
  "print_items [] = []"
| "print_items [c] = print_item c"
| "print_items (c # cs) = print_item c @ '','' @ print_items cs"

fun item_step :: "cron_item \<Rightarrow> nat" where
  "item_step (Every s) = s"
| "item_step (Span a b s) = s"

fun item_lo :: "int \<Rightarrow> cron_item \<Rightarrow> int" where
  "item_lo low (Every s) = low"
| "item_lo low (Span a b s) = max low (int a)"

fun item_hi :: "int \<Rightarrow> cron_item \<Rightarrow> int" where
  "item_hi hight (Every s) = hight"
| "item_hi hight (Span a b s) = min hight (int b)"

definition denotes :: "int \<Rightarrow> int \<Rightarrow> cron_item \<Rightarrow> int set" where
  "denotes low hight c =
     {j. item_lo low c \<le> j \<and> j \<le> item_hi hight c \<and> int (item_step c) dvd (j - item_lo low c)}"

fun item_ok :: "cron_item \<Rightarrow> bool" where
  "item_ok (Every s) \<longleftrightarrow> 1 \<le> s \<and> s \<le> 2147000000"
| "item_ok (Span a b s) \<longleftrightarrow> a \<le> 2147483647 \<and> b \<le> 2147483647 \<and> 1 \<le> s \<and> s \<le> 2147000000"

section \<open>Filling one table\<close>

lemma fill_item_length:
  "fill_item i mx step item = Inr item' \<Longrightarrow> length item' = length item"
proof (induction i mx step item rule: fill_item.induct)
  case (1 i mx step item)
  then show ?case
    by (auto simp: fill_item.simps [of i mx step item] Let_def split: if_splits)
qed

lemma fill_item_in_bounds:
  "0 \<le> i \<Longrightarrow> mx < int (length item) \<Longrightarrow> fill_item i mx step item \<noteq> Inl OutOfBounds"
proof (induction i mx step item rule: fill_item.induct)
  case (1 i mx step item)
  then show ?case
    by (subst fill_item.simps) (auto simp: Let_def)
qed

lemma progression_step:
  assumes "0 < (s::int)" and "i \<le> m"
  shows "(i \<le> j \<and> j \<le> m \<and> s dvd (j - i)) \<longleftrightarrow> (j = i \<or> (i + s \<le> j \<and> j \<le> m \<and> s dvd (j - (i + s))))"
proof -
  have eq: "s dvd (j - (i + s)) \<longleftrightarrow> s dvd (j - i)"
    using dvd_add_triv_right_iff [of s "j - (i + s)"] by simp
  have far: "i < j \<Longrightarrow> s dvd (j - i) \<Longrightarrow> i + s \<le> j"
    using zdvd_imp_le [of s "j - i"] by simp
  show ?thesis
  proof (cases "i < j")
    case True
    with far assms show ?thesis unfolding eq by (cases "s dvd (j - i)") auto
  next
    case False
    then show ?thesis unfolding eq using assms by auto
  qed
qed

lemma fill_item_spec:
  assumes "0 < step" and "0 \<le> i" and "mx < int (length item)" and "mx + step \<le> 2147483647"
  shows "\<exists>item'. fill_item i mx step item = Inr item' \<and>
     (\<forall>j < length item. item' ! j \<longleftrightarrow>
        item ! j \<or> (i \<le> int j \<and> int j \<le> mx \<and> step dvd (int j - i)))"
  using assms
proof (induction i mx step item rule: fill_item.induct)
  case (1 i mx step item)
  show ?case
  proof (cases "mx < i")
    case True
    then show ?thesis by (subst fill_item.simps) (auto simp: Let_def)
  next
    case False
    let ?it = "item[nat i := True]"
    have unf: "fill_item i mx step item = fill_item (i + step) mx step ?it"
      using False "1.prems" by (subst fill_item.simps) (auto simp: Let_def in_int32_def)
    obtain item' where r: "fill_item (i + step) mx step ?it = Inr item'"
      and m: "\<forall>j < length item. item' ! j \<longleftrightarrow>
        ?it ! j \<or> (i + step \<le> int j \<and> int j \<le> mx \<and> step dvd (int j - (i + step)))"
      using "1.IH" [OF refl] False "1.prems" by (auto simp: in_int32_def)
    have "item' ! j \<longleftrightarrow> item ! j \<or> (i \<le> int j \<and> int j \<le> mx \<and> step dvd (int j - i))"
      if "j < length item" for j
    proof -
      have "?it ! j \<longleftrightarrow> item ! j \<or> int j = i"
        using that "1.prems"(2) by (cases "j = nat i") auto
      moreover have "i \<le> int j \<and> int j \<le> mx \<and> step dvd (int j - i) \<longleftrightarrow>
          int j = i \<or> i + step \<le> int j \<and> int j \<le> mx \<and> step dvd (int j - (i + step))"
        using progression_step [of step i mx "int j"] False "1.prems"(1) by simp
      ultimately show ?thesis using m [rule_format, OF that] by blast
    qed
    with r unf show ?thesis by auto
  qed
qed

lemma setItem_unfold:
  "h \<noteq> [] \<Longrightarrow> setItem (Some h) item low hight =
     (let cur = fst (cut_at CHR '','' h);
          next_list = snd (cut_at CHR '','' h);
          body = fst (cut_at CHR ''/'' cur);
          step = (case snd (cut_at CHR ''/'' cur) of None \<Rightarrow> 1 | Some s \<Rightarrow> atoi s)
      in case item_bounds body low hight of
           None \<Rightarrow> Inr (item, False)
         | Some (mn, mx) \<Rightarrow>
             (case fill_item mn mx step item of
                Inl e \<Rightarrow> Inl e
              | Inr item' \<Rightarrow> setItem next_list item' low hight))"
  by (subst setItem.simps) simp

lemma setItem_empty [simp]:
  "setItem None item low hight = Inr (item, True)"
  "setItem (Some []) item low hight = Inr (item, True)"
  by (subst setItem.simps; simp)+

lemma item_bounds_range:
  "item_bounds hot low hight = Some (mn, mx) \<Longrightarrow> low \<le> hight \<Longrightarrow> low \<le> mn \<and> mx \<le> hight"
  by (auto simp: item_bounds_def Let_def split: list.splits if_splits)

text \<open>Whatever the text, no store leaves the table and the table keeps its size.\<close>

lemma setItem_safe:
  "0 \<le> low \<Longrightarrow> low \<le> hight \<Longrightarrow> hight < int (length item) \<Longrightarrow>
   (case setItem hot item low hight of
      Inl e \<Rightarrow> e = SignedOverflow
    | Inr (item', b) \<Rightarrow> length item' = length item)"
proof (induction hot item low hight rule: setItem.induct)
  case (1 hot item low hight)
  show ?case
  proof (cases "\<exists>h. hot = Some h \<and> h \<noteq> []")
    case False
    then show ?thesis by (cases hot) auto
  next
    case True
    then obtain h where h: "hot = Some h" "h \<noteq> []" by blast
    let ?cur = "fst (cut_at CHR '','' h)"
    let ?body = "fst (cut_at CHR ''/'' ?cur)"
    let ?step = "case snd (cut_at CHR ''/'' ?cur) of None \<Rightarrow> 1 | Some s \<Rightarrow> atoi s"
    show ?thesis
    proof (cases "item_bounds ?body low hight")
      case None
      with h show ?thesis by (simp add: setItem_unfold)
    next
      case (Some p)
      then obtain mn mx where p: "item_bounds ?body low hight = Some (mn, mx)" by (cases p) auto
      note r = item_bounds_range [OF p "1.prems"(2)]
      show ?thesis
      proof (cases "fill_item mn mx ?step item")
        case (Inl e)
        moreover have "e \<noteq> OutOfBounds"
          using fill_item_in_bounds [of mn mx item ?step] r "1.prems" Inl by auto
        ultimately show ?thesis using h p by (cases e) (simp_all add: setItem_unfold)
      next
        case (Inr item')
        with "1.IH" [OF h refl refl refl refl p refl Inr] "1.prems" h p
        show ?thesis by (simp add: setItem_unfold fill_item_length [OF Inr] split: sum.splits prod.splits)
      qed
    qed
  qed
qed

section \<open>Parsing what was printed\<close>

lemma digit_simps [simp]:
  "\<not> is_digit CHR '',''" "\<not> is_digit CHR ''/''" "\<not> is_digit CHR ''-''" "\<not> is_digit CHR ''*''"
  by (simp_all add: is_digit_def char_code_def)

lemma print_item_no_comma: "CHR '','' \<notin> set (print_item c)"
  by (cases c) (auto simp: not_in_dec)

lemma print_item_not_Nil [simp]: "print_item c \<noteq> []"
  by (cases c) auto

lemma cut_print_items:
  "cut_at CHR '','' (print_items (c # cs)) =
     (print_item c, if cs = [] then None else Some (print_items cs))"
  by (cases cs) (simp_all add: cut_at_None cut_at_append print_item_no_comma)

definition print_body :: "cron_item \<Rightarrow> string" where
  "print_body c = (case c of Every s \<Rightarrow> ''*'' | Span a b s \<Rightarrow> dec a @ ''-'' @ dec b)"

lemma cut_print_item:
  "cut_at CHR ''/'' (print_item c) = (print_body c, Some (dec (item_step c)))"
proof (cases c)
  case (Span a b s)
  then show ?thesis
    using cut_at_append [of "CHR ''/''" "dec a @ CHR ''-'' # dec b" "dec s"]
    by (simp add: print_body_def not_in_dec)
qed (simp add: print_body_def)

lemma item_bounds_print:
  assumes "item_ok c" and "low \<le> hight"
  shows "item_bounds (print_body c) low hight = Some (item_lo low c, item_hi hight c)"
proof (cases c)
  case (Span a b s)
  obtain d ds where d: "dec a = d # ds" by (cases "dec a") auto
  have dd: "is_digit d" using dec_digits [of d a] d by simp
  have cut: "cut_at CHR ''-'' (dec a @ CHR ''-'' # dec b) = (dec a, Some (dec b))"
    by (simp add: cut_at_append not_in_dec)
  have a: "atoi (dec a @ CHR ''-'' # dec b) = int a" and b: "atoi (dec b) = int b"
    using Span assms atoi_dec [of a "CHR ''-'' # dec b"] by (simp_all add: atoi_dec_Nil)
  have ne: "d \<noteq> CHR ''*''" using dd by auto
  show ?thesis
    using Span d dd ne cut a b by (simp add: print_body_def item_bounds_def Let_def max_def min_def)
qed (simp add: print_body_def item_bounds_def)

lemma item_ok_step: "item_ok c \<Longrightarrow> 1 \<le> item_step c \<and> item_step c \<le> 2147000000"
  by (cases c) auto

lemma item_lo_ge: "low \<le> item_lo low c"
  by (cases c) auto

lemma item_hi_le: "item_hi hight c \<le> hight"
  by (cases c) auto

lemma setItem_print:
  assumes "list_all item_ok cs" and "0 \<le> low" and "low \<le> hight"
    and "hight < int (length item)" and "hight \<le> 1000"
  shows "\<exists>item'. setItem (Some (print_items cs)) item low hight = Inr (item', True) \<and>
     length item' = length item \<and>
     (\<forall>j < length item. item' ! j \<longleftrightarrow> item ! j \<or> (\<exists>c \<in> set cs. int j \<in> denotes low hight c))"
  using assms
proof (induction cs arbitrary: item)
  case Nil
  then show ?case by simp
next
  case (Cons c cs)
  let ?lo = "item_lo low c" and ?hi = "item_hi hight c" and ?s = "int (item_step c)"
  have ok: "item_ok c" using Cons.prems by simp
  have step: "atoi (dec (item_step c)) = ?s"
    using item_ok_step [OF ok] by (intro atoi_dec_Nil) simp
  have lo: "0 \<le> ?lo" and hi: "?hi < int (length item)"
    using item_lo_ge [of low c] item_hi_le [of hight c] Cons.prems by simp_all
  obtain it where it: "fill_item ?lo ?hi ?s item = Inr it"
    and itj: "\<forall>j < length item. it ! j \<longleftrightarrow>
        item ! j \<or> (?lo \<le> int j \<and> int j \<le> ?hi \<and> ?s dvd (int j - ?lo))"
    using fill_item_spec [of ?s ?lo ?hi item] lo hi item_ok_step [OF ok]
      item_hi_le [of hight c] Cons.prems(5) by auto
  have len: "length it = length item" using fill_item_length [OF it] .
  have ne: "print_items (c # cs) \<noteq> []" by (cases cs) auto
  have unf: "setItem (Some (print_items (c # cs))) item low hight =
      setItem (if cs = [] then None else Some (print_items cs)) it low hight"
    unfolding setItem_unfold [OF ne]
    by (simp add: cut_print_items cut_print_item item_bounds_print [OF ok Cons.prems(3)] step it)
  have den: "it ! j \<longleftrightarrow> item ! j \<or> int j \<in> denotes low hight c" if "j < length item" for j
    using itj that by (simp add: denotes_def)
  show ?case
  proof (cases "cs = []")
    case True
    with unf den len show ?thesis by auto
  next
    case False
    obtain item' where "setItem (Some (print_items cs)) it low hight = Inr (item', True)"
      and "length item' = length it"
      and "\<forall>j < length it. item' ! j \<longleftrightarrow> it ! j \<or> (\<exists>c \<in> set cs. int j \<in> denotes low hight c)"
      using Cons.IH [of it] Cons.prems len by auto
    with False unf den len show ?thesis by auto
  qed
qed

section \<open>The matcher as a whole\<close>

definition match_wf :: "time_match \<Rightarrow> bool" where
  "match_wf t \<longleftrightarrow> length (tmin t) = 60 \<and> length (thour t) = 24 \<and> length (tday t) = 32 \<and>
     length (tmonth t) = 13 \<and> length (tweek t) = 8"

definition ctm_ok :: "ctm \<Rightarrow> bool" where
  "ctm_ok c \<longleftrightarrow> tm_min c < 60 \<and> tm_hour c < 24 \<and> tm_mday c < 32 \<and> tm_mon c < 12 \<and> tm_wday c < 7"

text \<open>The clock reading \<open>c\<close> lies in the set of minutes the tables select.\<close>

definition selects :: "time_match \<Rightarrow> ctm \<Rightarrow> bool" where
  "selects t c \<longleftrightarrow> topen t \<or>
     (tmin t ! tm_min c \<and> thour t ! tm_hour c \<and> tday t ! tm_mday c \<and>
      tmonth t ! (tm_mon c + 1) \<and> tweek t ! tm_wday c)"

lemma match_wf_init [simp]: "match_wf init_match"
  by (simp add: match_wf_def init_match_def)

lemma set_field_wf:
  assumes wf: "match_wf t" and r: "set_field i hot t = r"
  shows "case r of Inl e \<Rightarrow> e = SignedOverflow
     | Inr t' \<Rightarrow> match_wf t' \<and> topen t' = topen t \<and> lastCheck t' = lastCheck t"
proof -
  note defs = set_field_def match_wf_def
  consider "i = 0" | "i = 1" | "i = 2" | "i = 3" | "i = 4" | "4 < i" by linarith
  then show ?thesis
  proof cases
    case 1
    then show ?thesis using wf r setItem_safe [of 0 59 "tmin t" "Some hot"]
      by (auto simp: defs split: sum.splits)
  next
    case 2
    then show ?thesis using wf r setItem_safe [of 0 23 "thour t" "Some hot"]
      by (auto simp: defs split: sum.splits)
  next
    case 3
    then show ?thesis using wf r setItem_safe [of 1 31 "tday t" "Some hot"]
      by (auto simp: defs split: sum.splits)
  next
    case 4
    then show ?thesis using wf r setItem_safe [of 1 12 "tmonth t" "Some hot"]
      by (auto simp: defs split: sum.splits)
  next
    case 5
    then show ?thesis using wf r setItem_safe [of 0 7 "tweek t" "Some hot"]
      by (auto simp: defs split: sum.splits)
  next
    case 6
    then show ?thesis using wf r by (auto simp: defs)
  qed
qed

lemma set_fields_wf:
  "match_wf t \<Longrightarrow> (case set_fields n i hot t of Inl e \<Rightarrow> e = SignedOverflow
     | Inr t' \<Rightarrow> match_wf t' \<and> topen t' = topen t \<and> lastCheck t' = lastCheck t)"
proof (induction n arbitrary: i hot t)
  case 0
  then show ?case by simp
next
  case (Suc n)
  let ?h = "dropWhile is_space hot"
  let ?w = "takeWhile (\<lambda>c. \<not> is_space c) ?h"
  show ?case
  proof (cases "set_field i ?w t")
    case (Inl e)
    then show ?thesis using set_field_wf [OF Suc.prems Inl] Suc.prems by (simp add: Let_def)
  next
    case (Inr t')
    then have wf: "match_wf t'" and same: "topen t' = topen t \<and> lastCheck t' = lastCheck t"
      using set_field_wf [OF Suc.prems Inr] by simp_all
    let ?r = "tl (dropWhile (\<lambda>c. \<not> is_space c) ?h)"
    show ?thesis
      using Suc.IH [OF wf, of "Suc i" ?r] Suc.prems Inr wf same
      by (cases "?h = []"; cases "?r = []") (auto simp: Let_def split: sum.splits)
  qed
qed

lemma fold_sunday_wf:
  "match_wf t \<Longrightarrow> match_wf (fold_sunday t) \<and> (tweek (fold_sunday t) ! 0 \<longleftrightarrow> tweek (fold_sunday t) ! 7)"
  by (auto simp: fold_sunday_def match_wf_def)

lemma fold_sunday_frame [frame_simps]:
  "tmin (fold_sunday t) = tmin t" "thour (fold_sunday t) = thour t" "tday (fold_sunday t) = tday t"
  "tmonth (fold_sunday t) = tmonth t" "topen (fold_sunday t) = topen t"
  "lastCheck (fold_sunday t) = lastCheck t"
  by (simp_all add: fold_sunday_def)

lemma fold_sunday_week:
  "match_wf t \<Longrightarrow> j < 8 \<Longrightarrow>
     tweek (fold_sunday t) ! j \<longleftrightarrow> tweek t ! j \<or> ((j = 0 \<or> j = 7) \<and> (tweek t ! 0 \<or> tweek t ! 7))"
  by (auto simp: fold_sunday_def match_wf_def nth_list_update)

text \<open>
  Whatever text is configured, \<^verbatim>\<open>KTimeMatch::set\<close> writes inside its tables: the only
  failure the model has is an overflow of the loop counter. When it returns, it returns true, the tables
  have their declared sizes, the last check is reset and Sunday is recorded as both day 0 and day 7.
\<close>

theorem set_match_safe:
  "case set_match m of
     Inl e \<Rightarrow> e = SignedOverflow
   | Inr (t, ok) \<Rightarrow> ok \<and> match_wf t \<and> lastCheck t = 0 \<and> (tweek t ! 0 \<longleftrightarrow> tweek t ! 7)"
proof (cases "m = None \<or> m = Some []")
  case True
  then show ?thesis
    by (auto simp: set_match_def match_wf_def init_match_def)
next
  case False
  have "case set_fields 5 0 (the m) init_match of Inl e \<Rightarrow> e = SignedOverflow
      | Inr t' \<Rightarrow> match_wf t' \<and> topen t' = topen init_match \<and> lastCheck t' = lastCheck init_match"
    by (rule set_fields_wf) simp
  then show ?thesis
    using False by (auto simp: set_match_def fold_sunday_wf frame_simps init_match_def split: sum.splits)
qed

lemma dec_no_space: "x \<in> set (dec n) \<Longrightarrow> \<not> is_space x"
  by (blast dest: dec_digits is_digit_not_space)

lemma sep_no_space:
  "\<not> is_space CHR '',''" "\<not> is_space CHR ''/''" "\<not> is_space CHR ''-''" "\<not> is_space CHR ''*''"
  by (simp_all add: is_space_def)

lemma print_item_no_space: "x \<in> set (print_item c) \<Longrightarrow> \<not> is_space x"
  by (cases c) (auto dest: dec_no_space simp: sep_no_space)

lemma is_space_print_items: "x \<in> set (print_items cs) \<Longrightarrow> \<not> is_space x"
  by (induction cs rule: print_items.induct) (auto dest: print_item_no_space simp: sep_no_space)

lemma dropWhile_no_space:
  "\<forall>c \<in> set a. \<not> is_space c \<Longrightarrow> a \<noteq> [] \<Longrightarrow> dropWhile is_space (a @ b) = a @ b"
  by (cases a) auto

lemma print_items_not_Nil: "cs \<noteq> [] \<Longrightarrow> print_items cs \<noteq> []"
  by (cases cs rule: print_items.cases) auto

lemma set_fields_word:
  assumes "\<forall>c \<in> set w. \<not> is_space c" and "w \<noteq> []" and "r \<noteq> []"
  shows "set_fields (Suc n) i (w @ CHR '' '' # r) t =
     (case set_field i w t of Inl e \<Rightarrow> Inl e | Inr t' \<Rightarrow> set_fields n (Suc i) r t')"
proof -
  have sp: "is_space CHR '' ''" by (simp add: is_space_def)
  have d: "dropWhile is_space (w @ CHR '' '' # r) = w @ CHR '' '' # r"
    using assms by (intro dropWhile_no_space) auto
  have tk: "takeWhile (\<lambda>c. \<not> is_space c) (w @ CHR '' '' # r) = w"
    using assms(1) sp by (simp add: takeWhile_append2)
  have dr: "dropWhile (\<lambda>c. \<not> is_space c) (w @ CHR '' '' # r) = CHR '' '' # r"
    using assms(1) sp by (simp add: dropWhile_append2)
  show ?thesis unfolding set_fields.simps Let_def d tk dr using assms(3)
    by (simp split: sum.splits)
qed

lemma set_fields_last:
  assumes "\<forall>c \<in> set w. \<not> is_space c" and "w \<noteq> []"
  shows "set_fields (Suc n) i w t = set_field i w t"
proof -
  have d: "dropWhile is_space w = w"
    using assms dropWhile_no_space [of w "[]"] by simp
  have tk: "takeWhile (\<lambda>c. \<not> is_space c) w = w" using assms(1) by simp
  have dr: "dropWhile (\<lambda>c. \<not> is_space c) w = []" using assms(1) by simp
  show ?thesis unfolding set_fields.simps Let_def d tk dr using assms(2) by (simp split: sum.splits)
qed

lemma set_fields_items:
  assumes "cs \<noteq> []"
  shows "r \<noteq> [] \<Longrightarrow> set_fields (Suc n) i (print_items cs @ CHR '' '' # r) t =
      (case set_field i (print_items cs) t of Inl e \<Rightarrow> Inl e | Inr t' \<Rightarrow> set_fields n (Suc i) r t')"
    and "set_fields (Suc n) i (print_items cs) t = set_field i (print_items cs) t"
  using assms is_space_print_items print_items_not_Nil
  by (simp_all add: set_fields_word set_fields_last del: set_fields.simps)

definition in_field :: "cron_item list \<Rightarrow> int \<Rightarrow> int \<Rightarrow> nat \<Rightarrow> bool" where
  "in_field f low hight j \<longleftrightarrow> (\<exists>c \<in> set f. int j \<in> denotes low hight c)"

lemma setItem_field:
  assumes "list_all item_ok cs" and "0 \<le> low" and "low \<le> hight" and "hight < int n" and "hight \<le> 1000"
    and "length item = n"
  obtains a where "setItem (Some (print_items cs)) item low hight = Inr (a, True)" and "length a = n"
    and "\<And>j. j < n \<Longrightarrow> a ! j \<longleftrightarrow> item ! j \<or> in_field cs low hight j"
  using setItem_print [of cs low hight item] assms by (auto simp: in_field_def)

definition print_model :: "cron_item list list \<Rightarrow> string" where
  "print_model fs = print_items (fs ! 0) @ '' '' @ print_items (fs ! 1) @ '' '' @
     print_items (fs ! 2) @ '' '' @ print_items (fs ! 3) @ '' '' @ print_items (fs ! 4)"

definition model_ok :: "cron_item list list \<Rightarrow> bool" where
  "model_ok fs \<longleftrightarrow> length fs = 5 \<and> list_all (\<lambda>f. f \<noteq> [] \<and> list_all item_ok f) fs"

lemma model_ok_nth:
  "model_ok fs \<Longrightarrow> i < 5 \<Longrightarrow> fs ! i \<noteq> [] \<and> list_all item_ok (fs ! i)"
  by (simp add: model_ok_def list_all_length)

lemma nth_replicate_False: "j < n \<Longrightarrow> \<not> replicate n False ! j"
  by simp

lemma set_fields_model:
  assumes ok: "model_ok fs"
  shows "\<exists>t. set_fields 5 0 (print_model fs) init_match = Inr t \<and> match_wf t \<and> \<not> topen t \<and>
     (\<forall>j < 60. tmin t ! j \<longleftrightarrow> in_field (fs ! 0) 0 59 j) \<and>
     (\<forall>j < 24. thour t ! j \<longleftrightarrow> in_field (fs ! 1) 0 23 j) \<and>
     (\<forall>j < 32. tday t ! j \<longleftrightarrow> in_field (fs ! 2) 1 31 j) \<and>
     (\<forall>j < 13. tmonth t ! j \<longleftrightarrow> in_field (fs ! 3) 1 12 j) \<and>
     (\<forall>j < 8. tweek t ! j \<longleftrightarrow> in_field (fs ! 4) 0 7 j)"
proof -
  let ?p = "\<lambda>i. print_items (fs ! i)"
  have it: "fs ! i \<noteq> []" "list_all item_ok (fs ! i)" if "i < 5" for i
    using model_ok_nth [OF ok that] by simp_all
  obtain a0 where a0: "setItem (Some (?p 0)) (replicate 60 False) 0 59 = Inr (a0, True)" "length a0 = 60"
      "\<And>j. j < 60 \<Longrightarrow> a0 ! j \<longleftrightarrow> replicate 60 False ! j \<or> in_field (fs ! 0) 0 59 j"
    by (rule setItem_field [OF it(2) [of 0], of 0 59 60 "replicate 60 False"]) auto
  obtain a1 where a1: "setItem (Some (?p 1)) (replicate 24 False) 0 23 = Inr (a1, True)" "length a1 = 24"
      "\<And>j. j < 24 \<Longrightarrow> a1 ! j \<longleftrightarrow> replicate 24 False ! j \<or> in_field (fs ! 1) 0 23 j"
    by (rule setItem_field [OF it(2) [of 1], of 0 23 24 "replicate 24 False"]) auto
  obtain a2 where a2: "setItem (Some (?p 2)) (replicate 32 False) 1 31 = Inr (a2, True)" "length a2 = 32"
      "\<And>j. j < 32 \<Longrightarrow> a2 ! j \<longleftrightarrow> replicate 32 False ! j \<or> in_field (fs ! 2) 1 31 j"
    by (rule setItem_field [OF it(2) [of 2], of 1 31 32 "replicate 32 False"]) auto
  obtain a3 where a3: "setItem (Some (?p 3)) (replicate 13 False) 1 12 = Inr (a3, True)" "length a3 = 13"
      "\<And>j. j < 13 \<Longrightarrow> a3 ! j \<longleftrightarrow> replicate 13 False ! j \<or> in_field (fs ! 3) 1 12 j"
    by (rule setItem_field [OF it(2) [of 3], of 1 12 13 "replicate 13 False"]) auto
  obtain a4 where a4: "setItem (Some (?p 4)) (replicate 8 False) 0 7 = Inr (a4, True)" "length a4 = 8"
      "\<And>j. j < 8 \<Longrightarrow> a4 ! j \<longleftrightarrow> replicate 8 False ! j \<or> in_field (fs ! 4) 0 7 j"
    by (rule setItem_field [OF it(2) [of 4], of 0 7 8 "replicate 8 False"]) auto
  have five: "(5::nat) = Suc (Suc (Suc (Suc (Suc 0))))" by simp
  have "set_fields 5 0 (print_model fs) init_match =
      Inr (init_match\<lparr>tmin := a0, thour := a1, tday := a2, tmonth := a3, tweek := a4\<rparr>)"
    unfolding five print_model_def
    by (simp add: set_fields_items it(1) print_items_not_Nil set_field_def init_match_def
        a0(1) a1(1) [simplified] a2(1) a3(1) a4(1) del: set_fields.simps)
  then show ?thesis
    using a0(2,3) a1(2,3) a2(2,3) a3(2,3) a4(2,3) by (simp add: match_wf_def init_match_def)
qed



section \<open>The walk over the clock\<close>

lemma checkTime_total:
  assumes "match_wf t" and "ctm_ok (lt now)"
  shows "checkTime lt now t = Inr (t\<lparr>lastCheck := now\<rparr>, selects t (lt now))"
  using assms by (simp add: checkTime_def Let_def match_wf_def ctm_ok_def selects_def)

lemma lastCheck_irrelevant [simp]:
  "match_wf (t\<lparr>lastCheck := x\<rparr>) = match_wf t" "selects (t\<lparr>lastCheck := x\<rparr>) c = selects t c"
  by (simp_all add: match_wf_def selects_def)

lemma check_loop_spec:
  assumes "match_wf t" and "\<And>x. ctm_ok (lt x)"
  shows "\<exists>x b. check_loop lt i now t = Inr (t\<lparr>lastCheck := x\<rparr>, b) \<and>
     (if b then \<exists>k. x = i + 60 * int k \<and> x \<le> now \<and> selects t (lt x) \<and>
                  (\<forall>k' < k. \<not> selects t (lt (i + 60 * int k')))
      else (now < i \<longrightarrow> x = lastCheck t) \<and> (i \<le> now \<longrightarrow> x \<le> now \<and> now < x + 60) \<and>
           (\<forall>k. i + 60 * int k \<le> now \<longrightarrow> \<not> selects t (lt (i + 60 * int k))))"
  using assms
proof (induction lt i now t rule: check_loop.induct)
  case (1 lt i now t)
  have step: "checkTime lt i t = Inr (t\<lparr>lastCheck := i\<rparr>, selects t (lt i))"
    using "1.prems" by (simp add: checkTime_total)
  consider "now < i" | "i \<le> now" "selects t (lt i)" | "i \<le> now" "\<not> selects t (lt i)" by linarith
  then show ?case
  proof cases
    case 1
    then show ?thesis by (intro exI [of _ "lastCheck t"] exI [of _ False]) (simp add: check_loop.simps)
  next
    case 2
    then show ?thesis using step
      by (intro exI [of _ i] exI [of _ True]) (auto simp: check_loop.simps [of lt i] intro!: exI [of _ 0])
  next
    case 3
    have unf: "check_loop lt i now t = check_loop lt (i + 60) now (t\<lparr>lastCheck := i\<rparr>)"
      using 3 step by (subst check_loop.simps) simp
    have wf: "match_wf (t\<lparr>lastCheck := i\<rparr>)" using "1.prems"(1) by simp
    note ih = "1.IH" [OF 3(1) step refl 3(2) wf "1.prems"(2), unfolded lastCheck_irrelevant]
    obtain x b where r0: "check_loop lt (i + 60) now (t\<lparr>lastCheck := i\<rparr>) = Inr (t\<lparr>lastCheck := i, lastCheck := x\<rparr>, b)"
      and spec: "if b then \<exists>k. x = i + 60 + 60 * int k \<and> x \<le> now \<and> selects t (lt x) \<and>
                  (\<forall>k' < k. \<not> selects t (lt (i + 60 + 60 * int k')))
      else (now < i + 60 \<longrightarrow> x = lastCheck (t\<lparr>lastCheck := i\<rparr>)) \<and> (i + 60 \<le> now \<longrightarrow> x \<le> now \<and> now < x + 60) \<and>
           (\<forall>k. i + 60 + 60 * int k \<le> now \<longrightarrow> \<not> selects t (lt (i + 60 + 60 * int k)))"
      using ih by blast
    have r: "check_loop lt (i + 60) now (t\<lparr>lastCheck := i\<rparr>) = Inr (t\<lparr>lastCheck := x\<rparr>, b)"
      using r0 by simp
    have shift: "i + 60 * int (Suc k) = i + 60 + 60 * int k" for k by simp
    have all: "P (i + 60 * int k)" if "P i" and "\<And>k. P (i + 60 + 60 * int k)" for P k
      using that(1) that(2) [of "k - 1"] by (cases k) (simp_all add: algebra_simps)
    show ?thesis
    proof (cases b)
      case True
      with spec obtain k where k: "x = i + 60 * int (Suc k)" "x \<le> now" "selects t (lt x)"
          "\<forall>k' < k. \<not> selects t (lt (i + 60 * int (Suc k')))"
        unfolding shift by auto
      have "\<not> selects t (lt (i + 60 * int k'))" if "k' < Suc k" for k'
        using k(4) [rule_format, of "k' - 1"] 3(2) that by (cases k') simp_all
      with k(1-3) have "\<exists>k. x = i + 60 * int k \<and> x \<le> now \<and> selects t (lt x) \<and>
          (\<forall>k' < k. \<not> selects t (lt (i + 60 * int k')))" by blast
      with True show ?thesis unfolding unf r by (intro exI [of _ x] exI [of _ b]) simp
    next
      case False
      with spec 3 have "i + 60 * int k \<le> now \<longrightarrow> \<not> selects t (lt (i + 60 * int k))" for k
        by (intro all [where P = "\<lambda>y. y \<le> now \<longrightarrow> \<not> selects t (lt y)"]) auto
      with spec 3 False show ?thesis unfolding unf r
        by (intro exI [of _ x] exI [of _ b]) auto
    qed
  qed
qed

text \<open>
  After a first check, \<^verbatim>\<open>KTimeMatch::check\<close> probes the instants one minute apart since the
  last one: it answers true at the first instant the tables select and remembers that instant,
  so the later ones are probed by the next call; it answers false only when no instant is
  selected, and then it has moved on to the last probe before now.
\<close>

theorem check_spec:
  assumes "match_wf t" and "\<And>x. ctm_ok (lt x)" and "lastCheck t \<noteq> 0" and "60 \<le> now - lastCheck t"
  shows "\<exists>t' b. check lt now t = Inr (t', b) \<and> t' = t\<lparr>lastCheck := lastCheck t'\<rparr> \<and>
     lastCheck t < lastCheck t' \<and> lastCheck t' \<le> now \<and>
     (b \<longleftrightarrow> (\<exists>k \<ge> 1. lastCheck t + 60 * int k \<le> now \<and> selects t (lt (lastCheck t + 60 * int k)))) \<and>
     (b \<longrightarrow> selects t (lt (lastCheck t'))) \<and>
     (\<forall>k \<ge> 1. lastCheck t + 60 * int k < lastCheck t' \<longrightarrow> \<not> selects t (lt (lastCheck t + 60 * int k))) \<and>
     (\<not> b \<longrightarrow> now < lastCheck t' + 60)"
proof -
  let ?i = "lastCheck t + 60"
  obtain x b where r: "check_loop lt ?i now t = Inr (t\<lparr>lastCheck := x\<rparr>, b)"
    and spec: "if b then \<exists>k. x = ?i + 60 * int k \<and> x \<le> now \<and> selects t (lt x) \<and>
                  (\<forall>k' < k. \<not> selects t (lt (?i + 60 * int k')))
      else (now < ?i \<longrightarrow> x = lastCheck t) \<and> (?i \<le> now \<longrightarrow> x \<le> now \<and> now < x + 60) \<and>
           (\<forall>k. ?i + 60 * int k \<le> now \<longrightarrow> \<not> selects t (lt (?i + 60 * int k)))"
    using check_loop_spec [where lt = lt, OF assms(1,2)] by blast
  have res: "check lt now t = Inr (t\<lparr>lastCheck := x\<rparr>, b)"
    using assms(3,4) r by (simp add: check_def)
  have earlier: "\<exists>j. lastCheck t + 60 * int k = ?i + 60 * int j \<and> k = Suc j" if "1 \<le> k" for k
    using that by (intro exI [of _ "k - 1"]) (auto simp: of_nat_diff)
  show ?thesis
  proof (cases b)
    case True
    with spec obtain k where k: "x = ?i + 60 * int k" "x \<le> now" "selects t (lt x)"
        "\<forall>k' < k. \<not> selects t (lt (?i + 60 * int k'))"
      by auto
    have "\<exists>m \<ge> 1. lastCheck t + 60 * int m \<le> now \<and> selects t (lt (lastCheck t + 60 * int m))"
      using k by (intro exI [of _ "Suc k"]) (simp add: algebra_simps)
    moreover have "\<not> selects t (lt (lastCheck t + 60 * int m))"
      if "1 \<le> m" "lastCheck t + 60 * int m < x" for m
      using earlier [OF that(1)] that(2) k(1,4) by (auto simp: add.assoc)
    ultimately show ?thesis using res True k assms(4) by (intro exI [of _ "t\<lparr>lastCheck := x\<rparr>"] exI [of _ b]) auto
  next
    case False
    with spec assms(4) have x: "x \<le> now" "now < x + 60"
      and no: "\<And>k. ?i + 60 * int k \<le> now \<Longrightarrow> \<not> selects t (lt (?i + 60 * int k))" by auto
    have "\<not> selects t (lt (lastCheck t + 60 * int m))" if "1 \<le> m" "lastCheck t + 60 * int m \<le> now" for m
      using earlier [OF that(1)] that(2) no by (metis)
    then show ?thesis using res False x assms(4)
      by (intro exI [of _ "t\<lparr>lastCheck := x\<rparr>"] exI [of _ b]) auto
  qed
qed

theorem check_spec_witness:
  "\<exists>t'. check (\<lambda>x. \<lparr>tm_min = nat (x div 60 mod 60), tm_hour = 0, tm_mday = 1, tm_mon = 0, tm_wday = 0\<rparr>)
      1000 (init_match\<lparr>topen := True, lastCheck := 60\<rparr>) = Inr (t', True)"
proof -
  let ?lt = "\<lambda>x. \<lparr>tm_min = nat (x div 60 mod 60), tm_hour = 0, tm_mday = 1, tm_mon = 0, tm_wday = 0\<rparr>"
  let ?t = "init_match\<lparr>topen := True, lastCheck := 60\<rparr>"
  have "match_wf ?t" by (simp add: match_wf_def init_match_def)
  moreover have "ctm_ok (?lt x)" for x by (simp add: ctm_ok_def)
  ultimately have "\<exists>t' b. check ?lt 1000 ?t = Inr (t', b) \<and>
      (b \<longleftrightarrow> (\<exists>k \<ge> 1. lastCheck ?t + 60 * int k \<le> 1000 \<and> selects ?t (?lt (lastCheck ?t + 60 * int k))))"
    using check_spec [of ?t ?lt 1000] by auto
  moreover have "\<exists>k \<ge> 1. lastCheck ?t + 60 * int k \<le> 1000 \<and> selects ?t (?lt (lastCheck ?t + 60 * int k))"
    by (intro exI [of _ 1]) (simp add: selects_def)
  ultimately show ?thesis by auto
qed

text \<open>
  A step near the largest \<^verbatim>\<open>int\<close> makes the counter of the fill loop overflow, because the
  step is only bounded from below: the time model \<^verbatim>\<open>* * 1-31/2147483647\<close> has undefined
  behaviour in C++.
\<close>

theorem set_match_step_overflow:
  "set_match (Some ''* * 1-31/2147483647'') = Inl SignedOverflow"
  by code_simp

end
