(* ===== verification/Path_Name.thy ===== *)
theory Path_Name
  imports Kgl_Prelude
begin

text \<open>
  File names and command lines: \<^verbatim>\<open>src/KFileName.cpp\<close>, \<^verbatim>\<open>include/KFileName.h\<close> and
  the splitters of \<^verbatim>\<open>src/utils.cpp\<close>. \<open>tripDir3\<close> rewrites a request path in place and
  is what keeps \<^verbatim>\<open>..\<close> out of file names; \<open>setName\<close> walks down a path below the
  document root and refuses symbolic links. \<^verbatim>\<open>lstat\<close> and \<^verbatim>\<open>stat\<close> are
  arguments of the definitions. The build modelled is the Unix one, where the separator of the
  file system is the slash.
\<close>

section \<open>Splitting\<close>

text \<open>\<^verbatim>\<open>my_strtok\<close>: the token and the text after the separator it was cut at.\<close>

definition my_strtok :: "string option \<Rightarrow> char \<Rightarrow> (string \<times> string option) option" where
  "my_strtok str split =
     (case str of
        None \<Rightarrow> None
      | Some s \<Rightarrow> if s = [] then None else Some (cut_at split s))"

function strtok_loop :: "string option \<Rightarrow> char \<Rightarrow> string list" where
  "strtok_loop str split =
     (case my_strtok str split of
        None \<Rightarrow> []
      | Some (msg, ptr) \<Rightarrow> msg # strtok_loop ptr split)"
  by pat_completeness auto
termination
proof (relation "measure (\<lambda>(str, _). case str of None \<Rightarrow> 0 | Some h \<Rightarrow> Suc (length h))", goal_cases)
  case (2 str split msg ptr)
  then show ?case
    using cut_at_Some_length [of split] by (cases ptr) (auto simp: my_strtok_def split: option.splits if_splits)
qed simp

declare strtok_loop.simps [simp del]

definition explode :: "string \<Rightarrow> char \<Rightarrow> int \<Rightarrow> string list" where
  "explode str split limit =
     (if 0 < limit then take (nat limit) (strtok_loop (Some str) split)
      else strtok_loop (Some str) split)"

text \<open>
  The body of a quoted word of a command line. \<open>out\<close> holds the bytes already written back over
  the buffer; at the closing quote the word is \<open>out\<close>. Without a closing quote nothing is
  terminated, so the word runs on into the bytes that were not overwritten.
\<close>

fun quoted_word :: "char \<Rightarrow> bool \<Rightarrow> string \<Rightarrow> string \<Rightarrow> string \<times> string option" where
  "quoted_word q slash out [] = (out, None)"
| "quoted_word q slash out (c # hot) =
     (if \<not> slash then
        (if c = q then (out, Some hot)
         else if c = CHR 0x5C then quoted_word q True out hot
         else quoted_word q False (out @ [c]) hot)
      else
        (if c = CHR 0x5C \<or> c = q then quoted_word q False (out @ [c]) hot
         else quoted_word q False (out @ [CHR 0x5C, c]) hot))"

lemma quoted_word_length:
  "quoted_word q sl out s = (w, Some r) \<Longrightarrow> length r < length s"
  by (induction q sl out s arbitrary: w rule: quoted_word.induct) (auto split: if_splits)

function explode_cmd :: "string \<Rightarrow> string list" where
  "explode_cmd buf =
     (case dropWhile is_space buf of
        [] \<Rightarrow> []
      | c # hot \<Rightarrow>
          (if c = CHR 0x27 \<or> c = CHR 0x22 then
             (case quoted_word c False [] hot of
                (out, None) \<Rightarrow> [out @ drop (length out) hot]
              | (out, Some rest) \<Rightarrow> out # explode_cmd rest)
           else
             (let word = takeWhile (\<lambda>x. \<not> is_space x) (c # hot);
                  rest = dropWhile (\<lambda>x. \<not> is_space x) (c # hot)
              in if rest = [] then [word] else word # explode_cmd (tl rest))))"
  by pat_completeness auto
termination
proof (relation "measure length", goal_cases)
  case (2 buf c hot out opt rest)
  then have "length rest < length hot" using quoted_word_length by metis
  moreover have "length (c # hot) \<le> length buf" using 2(1) by (metis length_dropWhile_le)
  ultimately show ?case by simp
next
  case (3 buf c hot word rest)
  have "length rest \<le> length (c # hot)" using 3(4) by (metis length_dropWhile_le)
  moreover have "length (c # hot) \<le> length buf" using 3(1) by (metis length_dropWhile_le)
  ultimately show ?case using 3 by (cases rest) auto
qed simp

declare explode_cmd.simps [simp del]

section \<open>Normalising a path\<close>

definition is_sep :: "char \<Rightarrow> bool" where
  "is_sep c \<longleftrightarrow> c = CHR ''/'' \<or> c = CHR 0x5C"

text \<open>The scan back over the output to the separator before the last component.\<close>

fun back_to :: "char \<Rightarrow> string \<Rightarrow> nat \<Rightarrow> nat" where
  "back_to sc path 0 = 0"
| "back_to sc path (Suc k) = (if path ! Suc k = sc then Suc k else back_to sc path k)"

definition drop_last_dir :: "char \<Rightarrow> string \<Rightarrow> string" where
  "drop_last_dir sc path = (if path = [] then [] else take (back_to sc path (length path - 1)) path)"

lemma trip_rest_shorter:
  assumes "hot \<noteq> []" and "hot1 = (if is_sep (hd hot) then dropWhile is_sep hot else hot)" and "hot1 \<noteq> []"
  shows "length (dropWhile (\<lambda>c. \<not> is_sep c) hot1) < length hot"
proof -
  have h: "\<not> is_sep (hd hot1)" using assms hd_dropWhile [of is_sep hot] by (cases "is_sep (hd hot)") (auto simp: dropWhile_eq_Nil_conv)
  have "length (dropWhile (\<lambda>c. \<not> is_sep c) hot1) < length hot1"
    using h assms(3) by (cases hot1) (auto simp: le_imp_less_Suc length_dropWhile_le)
  also have "length hot1 \<le> length hot" using assms(2) by (auto simp: length_dropWhile_le)
  finally show ?thesis .
qed

text \<open>
  \<^verbatim>\<open>tripDir3\<close> rewrites the buffer in place: \<open>out\<close> is the buffer below \<^verbatim>\<open>src\<close>
  and \<open>hot\<close> the text still to be read. The write position never passes the read position.
\<close>

function trip_loop :: "char \<Rightarrow> string \<Rightarrow> string \<Rightarrow> string" where
  "trip_loop sc out hot =
     (if hot = [] then out
      else
        (let out1 = (if is_sep (hd hot) then out @ [sc] else out);
             hot1 = (if is_sep (hd hot) then dropWhile is_sep hot else hot)
         in if hot1 = [] then out1
            else
              (let comp = takeWhile (\<lambda>c. \<not> is_sep c) hot1;
                   rest = dropWhile (\<lambda>c. \<not> is_sep c) hot1
               in if comp = ''.'' then trip_loop sc (butlast out1) rest
                  else if comp = ''..'' then trip_loop sc (drop_last_dir sc (butlast out1)) rest
                  else trip_loop sc (out1 @ comp) rest)))"
  by pat_completeness auto

termination
  by (relation "measure (\<lambda>(sc, out, hot). length hot)") (use trip_rest_shorter in auto)

declare trip_loop.simps [simp del]

definition tripDir3 :: "string \<Rightarrow> char \<Rightarrow> string" where
  "tripDir3 path split_char = trip_loop split_char [] path"

definition tripDir2 :: "string option \<Rightarrow> char \<Rightarrow> string option" where
  "tripDir2 dir split_char = map_option (\<lambda>d. tripDir3 d split_char) dir"

text \<open>\<^verbatim>\<open>tripDir\<close>: the variant on a string object, which fails when the path climbs too high.\<close>

fun trip_stack :: "string list \<Rightarrow> string list \<Rightarrow> string list option" where
  "trip_stack real_dir [] = Some real_dir"
| "trip_stack real_dir (d # dirs) =
     (if d = [] then trip_stack real_dir dirs
      else if d = ''.'' then trip_stack real_dir dirs
      else if d = ''..'' then
        (if real_dir = [] then None else trip_stack (butlast real_dir) dirs)
      else trip_stack (real_dir @ [d]) dirs)"

fun join_dirs :: "string list \<Rightarrow> string" where
  "join_dirs [] = []"
| "join_dirs [d] = d"
| "join_dirs (d # ds) = d @ ''/'' @ join_dirs ds"

definition tripDir :: "string \<Rightarrow> string \<times> bool" where
  "tripDir dir =
     (case trip_stack [] (strtok_loop (Some (map (\<lambda>c. if c = CHR 0x5C then CHR ''/'' else c) dir)) CHR ''/'') of
        None \<Rightarrow> ([], False)
      | Some ds \<Rightarrow> (join_dirs ds, True))"

definition concatDir :: "string option \<Rightarrow> string option \<Rightarrow> string option" where
  "concatDir docRoot file =
     (case docRoot of
        None \<Rightarrow> None
      | Some d \<Rightarrow>
          (case tripDir2 file CHR ''/'' of
             None \<Rightarrow> None
           | Some p \<Rightarrow>
               Some (d @ (if d = [] \<or> last d \<noteq> CHR ''/'' then ''/'' else []) @
                     (if p \<noteq> [] \<and> hd p = CHR ''/'' then tl p else p))))"

definition makeExt :: "string option \<Rightarrow> string option" where
  "makeExt nm =
     (case nm of
        None \<Rightarrow> None
      | Some s \<Rightarrow>
          (if CHR ''.'' \<notin> set s then None
           else
             (let p = rev (takeWhile (\<lambda>c. c \<noteq> CHR ''.'') (rev s))
              in if CHR ''/'' \<in> set p then None else Some p)))"

section \<open>A file below the document root\<close>

datatype CheckLinkState = CheckLinkFailed | CheckLinkContinue | CheckLinkIsFile

record fstat =
  is_lnk :: bool
  is_reg :: bool
  is_dir :: bool
  st_uid :: int
  other_exec :: bool
  st_mtime :: int

record fs_ops =
  lstat_of :: "string \<Rightarrow> fstat option"
  stat_of :: "string \<Rightarrow> fstat option"

record follow_flags =
  FOLLOW_LINK_ALL :: bool
  FOLLOW_LINK_OWN :: bool
  FOLLOW_PATH_INFO :: bool

record kfilename =
  fname :: "string option"
  fext :: "string option"
  findex :: "string option"
  fbuf :: "fstat option"
  prev_dir :: bool
  linkChecked :: bool
  pathInfoLength :: nat

definition new_filename :: kfilename where
  "new_filename = \<lparr>fname = None, fext = None, findex = None, fbuf = None, prev_dir = False,
     linkChecked = False, pathInfoLength = 0\<rparr>"

definition getExt :: "kfilename \<Rightarrow> kfilename \<times> string option" where
  "getExt f = (case fext f of
       Some e \<Rightarrow> (f, Some e)
     | None \<Rightarrow> (f\<lparr>fext := makeExt (fname f)\<rparr>, makeExt (fname f)))"

definition setIndex :: "string \<Rightarrow> kfilename \<Rightarrow> kfilename" where
  "setIndex i f = f\<lparr>findex := Some i\<rparr>"

definition isDirectory :: "kfilename \<Rightarrow> bool" where
  "isDirectory f = (prev_dir f \<or> (case fbuf f of None \<Rightarrow> False | Some b \<Rightarrow> is_dir b))"

definition canExecute :: "kfilename \<Rightarrow> bool" where
  "canExecute f = (case fbuf f of None \<Rightarrow> False | Some b \<Rightarrow> other_exec b)"

definition getLastModified :: "kfilename \<Rightarrow> int option" where
  "getLastModified f = map_option st_mtime (fbuf f)"

definition getFileInfo :: "fs_ops \<Rightarrow> kfilename \<Rightarrow> kfilename \<times> bool" where
  "getFileInfo fs f =
     (case fname f of
        None \<Rightarrow> (f, False)
      | Some n \<Rightarrow>
          (if n = [] then (f, False)
           else if is_sep (last n) then (f\<lparr>prev_dir := True\<rparr>, True)
           else case stat_of fs n of
                  None \<Rightarrow> (f, False)
                | Some b \<Rightarrow> (f\<lparr>fbuf := Some b\<rparr>, True)))"

definition setName1 :: "fs_ops \<Rightarrow> string \<Rightarrow> kfilename \<Rightarrow> kfilename \<times> bool" where
  "setName1 fs path f = getFileInfo fs (f\<lparr>fname := Some path\<rparr>)"

definition checkLink :: "fs_ops \<Rightarrow> follow_flags \<Rightarrow> string \<Rightarrow> kfilename \<Rightarrow> kfilename \<times> CheckLinkState" where
  "checkLink fs fl path f =
     (case lstat_of fs path of
        None \<Rightarrow> (f, CheckLinkFailed)
      | Some b \<Rightarrow>
          (let f' = f\<lparr>fbuf := Some b\<rparr> in
           if is_lnk b then
             (if FOLLOW_LINK_ALL fl then (f', CheckLinkContinue)
              else if \<not> FOLLOW_LINK_OWN fl then (f', CheckLinkFailed)
              else case stat_of fs path of
                     None \<Rightarrow> (f', CheckLinkFailed)
                   | Some b2 \<Rightarrow>
                       (if st_uid b \<noteq> st_uid b2 then (f', CheckLinkFailed)
                        else (f'\<lparr>fbuf := Some b2\<rparr>, CheckLinkContinue)))
           else if FOLLOW_PATH_INFO fl \<and> is_reg b then (f', CheckLinkIsFile)
           else (f', CheckLinkContinue)))"

text \<open>
  The loop of \<^verbatim>\<open>setName (docRoot, triped_path, follow_link)\<close>. \<open>path\<close> is the name built so
  far, \<open>src\<close> the rest of the request path and \<open>off\<close> its offset; the result carries the
  \<open>src\<close> and \<open>off\<close> the loop stopped at.
\<close>

function link_loop ::
  "fs_ops \<Rightarrow> follow_flags \<Rightarrow> string \<Rightarrow> string \<Rightarrow> nat \<Rightarrow> kfilename \<Rightarrow>
   kfilename \<times> CheckLinkState \<times> string \<times> string \<times> nat" where
  "link_loop fs fl path src off f =
     (case cut_at CHR ''/'' src of
        (a, None) \<Rightarrow>
          (if a = [] then (f\<lparr>prev_dir := True\<rparr>, CheckLinkContinue, path, src, off)
           else (case checkLink fs fl (path @ ''/'' @ a) f of
                   (f', r) \<Rightarrow> (f', r, path @ ''/'' @ a, src, off)))
      | (a, Some b) \<Rightarrow>
          (case checkLink fs fl (path @ ''/'' @ a) f of
             (f', r) \<Rightarrow>
               if r \<noteq> CheckLinkContinue then (f', r, path @ ''/'' @ a, src, off)
               else link_loop fs fl (path @ ''/'' @ a) b (off + length a + 1) f'))"
  by pat_completeness auto
termination
  by (relation "measure (\<lambda>(fs, fl, path, src, off, f). length src)") (auto dest: cut_at_Some_length [OF sym])

declare link_loop.simps [simp del]

definition setName :: "fs_ops \<Rightarrow> string option \<Rightarrow> string option \<Rightarrow> follow_flags \<Rightarrow> kfilename \<Rightarrow>
    kfilename \<times> bool" where
  "setName fs docRoot triped_path fl f0 =
     (let f = f0\<lparr>fname := None\<rparr> in
      case (docRoot, triped_path) of
        (Some d, Some p) \<Rightarrow>
          (if d = [] then (f, False)
           else if FOLLOW_LINK_ALL fl then
             getFileInfo fs (f\<lparr>fname :=
               Some (d @ (if last d \<noteq> CHR ''/'' then ''/'' else []) @
                     (if p \<noteq> [] \<and> hd p = CHR ''/'' then tl p else p))\<rparr>)
           else
             (case link_loop fs fl (if last d = CHR ''/'' then butlast d else d)
                     (if p \<noteq> [] \<and> hd p = CHR ''/'' then tl p else p)
                     (if p \<noteq> [] \<and> hd p = CHR ''/'' then 1 else 0)
                     (f\<lparr>linkChecked := True\<rparr>) of
                (f', result, path, src, off) \<Rightarrow>
                  (let f1 = f'\<lparr>fname := Some path\<rparr>;
                       f2 = (if result = CheckLinkIsFile \<and> CHR ''/'' \<in> set src
                             then f1\<lparr>pathInfoLength := off + length (fst (cut_at CHR ''/'' src))\<rparr> else f1)
                   in if result = CheckLinkContinue \<or> result = CheckLinkIsFile then (f2, True)
                      else (f2\<lparr>fext := makeExt triped_path\<rparr>, False))))
      | _ \<Rightarrow> (f, False))"

section \<open>Reference: resolving the components of a path\<close>

definition segs :: "string \<Rightarrow> string list" where
  "segs p = split_on CHR ''/'' (map (\<lambda>c. if is_sep c then CHR ''/'' else c) p)"

fun resolve :: "string list \<Rightarrow> string list \<Rightarrow> string list" where
  "resolve st [] = st"
| "resolve st (c # cs) =
     (if c = [] \<or> c = ''.'' then resolve st cs
      else if c = ''..'' then resolve (butlast st) cs
      else resolve (st @ [c]) cs)"

definition render :: "char \<Rightarrow> string list \<Rightarrow> string" where
  "render sc st = concat (map (\<lambda>c. sc # c) st)"

definition comp_ok :: "string \<Rightarrow> bool" where
  "comp_ok c \<longleftrightarrow> c \<noteq> [] \<and> c \<noteq> ''.'' \<and> c \<noteq> ''..'' \<and> (\<forall>x \<in> set c. \<not> is_sep x)"

section \<open>Path normalisation is resolution\<close>

lemma render_simps [simp]:
  "render sc [] = []" "render sc (st @ [c]) = render sc st @ sc # c"
  by (simp_all add: render_def)

lemma render_last_not_sep:
  "\<forall>c \<in> set st. comp_ok c \<Longrightarrow> render sc st \<noteq> [] \<Longrightarrow> \<not> is_sep (last (render sc st))"
  by (cases st rule: rev_cases) (auto simp: comp_ok_def last_append)

lemma back_to_le: "back_to sc path k \<le> k"
  by (induction k) auto

lemma back_to_skip:
  "(\<forall>i. n < i \<and> i \<le> n + k \<longrightarrow> path ! i \<noteq> sc) \<Longrightarrow> (n = 0 \<or> path ! n = sc) \<Longrightarrow>
   back_to sc path (n + k) = n"
proof (induction k)
  case 0
  then show ?case by (cases n) auto
next
  case (Suc k)
  then have "path ! Suc (n + k) \<noteq> sc" by simp
  with Suc show ?case by auto
qed

lemma drop_last_dir_sep:
  assumes "sc \<notin> set c" and "c \<noteq> []"
  shows "drop_last_dir sc (p @ sc # c) = p"
proof -
  have "(p @ sc # c) ! i \<noteq> sc" if "length p < i" and "i \<le> length p + length c" for i
    using that assms(1) nth_mem [of "i - Suc (length p)" c] by (auto simp: nth_append nth_Cons')
  then have "back_to sc (p @ sc # c) (length p + length c) = length p"
    by (intro back_to_skip) auto
  then show ?thesis by (simp add: drop_last_dir_def)
qed

lemma drop_last_dir_first:
  assumes "sc \<notin> set c"
  shows "drop_last_dir sc c = []"
proof (cases "c = []")
  case False
  have "c ! i \<noteq> sc" if "0 < i" and "i \<le> 0 + (length c - 1)" for i
    using that assms False nth_mem [of i c] by (cases c) auto
  then have "back_to sc c (0 + (length c - 1)) = 0"
    by (intro back_to_skip) auto
  with False show ?thesis by (simp add: drop_last_dir_def)
qed (simp add: drop_last_dir_def)

text \<open>One round of the loop, at a separator: it consumes one component.\<close>

lemma trip_loop_round:
  assumes "is_sep s" and "hot1 = dropWhile is_sep hot" and "hot1 \<noteq> []"
  shows "trip_loop sc out (s # hot) =
    (let comp = takeWhile (\<lambda>c. \<not> is_sep c) hot1; rest = dropWhile (\<lambda>c. \<not> is_sep c) hot1 in
     if comp = ''.'' then trip_loop sc out rest
     else if comp = ''..'' then trip_loop sc (drop_last_dir sc out) rest
     else trip_loop sc (out @ sc # comp) rest)"
proof -
  have d: "dropWhile is_sep (s # hot) = hot1" using assms by simp
  show ?thesis
    using assms(1,3)
    by (subst trip_loop.simps)
       (simp only: Let_def list.sel d if_True if_False list.simps butlast_snoc append_assoc
         append_Cons append_Nil simp_thms)
qed

lemma trip_loop_only_seps:
  "is_sep s \<Longrightarrow> dropWhile is_sep hot = [] \<Longrightarrow> trip_loop sc out (s # hot) = out @ [sc]"
  by (subst trip_loop.simps) (simp add: Let_def)

lemma trip_loop_Nil [simp]: "trip_loop sc out [] = out"
  by (subst trip_loop.simps) simp

lemma segs_Nil [simp]: "segs [] = [[]]"
  by (simp add: segs_def)

lemma segs_sep: "is_sep s \<Longrightarrow> segs (s # p) = [] # segs p"
  by (simp add: segs_def)

lemma is_sep_slash [simp]: "is_sep CHR ''/''"
  by (simp add: is_sep_def)

lemma no_sep_map:
  "\<forall>x \<in> set c. \<not> is_sep x \<Longrightarrow>
     map (\<lambda>c. if is_sep c then CHR ''/'' else c) c = c \<and> CHR ''/'' \<notin> set c"
  by (induction c) auto

lemma segs_comp:
  assumes "\<forall>x \<in> set c. \<not> is_sep x" and "r = [] \<or> is_sep (hd r)"
  shows "segs (c @ r) = c # tl (segs r) \<and> hd (segs r) = []"
  using no_sep_map [OF assms(1)] assms(2)
  by (cases r) (simp_all add: segs_def split_on_no_sep split_on_append_sep)

lemma resolve_skip_empty: "resolve st (segs p) = resolve st (tl (segs p))" if "hd (segs p) = []"
  using that by (cases "segs p") (auto simp: segs_def)

lemma resolve_segs_seps: "resolve st (segs p) = resolve st (segs (dropWhile is_sep p))"
  by (induction p) (auto simp: segs_sep)

lemma last_dropWhile: "dropWhile P xs \<noteq> [] \<Longrightarrow> last (dropWhile P xs) = last xs"
  by (induction xs) (auto split: if_splits)

lemma comp_cases:
  "c \<noteq> [] \<Longrightarrow> \<forall>x \<in> set c. \<not> is_sep x \<Longrightarrow> c = ''.'' \<or> c = ''..'' \<or> (comp_ok c \<and> c \<noteq> ''.'' \<and> c \<noteq> ''..'')"
  by (auto simp: comp_ok_def)

lemma last_comp_rest:
  assumes "c \<noteq> []" and "\<forall>x \<in> set c. \<not> is_sep x"
  shows "is_sep (last (a @ c @ r)) \<longleftrightarrow> r \<noteq> [] \<and> is_sep (last r)"
  using assms last_in_set [of c] by (cases "r = []") auto

lemma takeWhile_sep_comp:
  assumes "hot1 = dropWhile is_sep p" and "hot1 \<noteq> []"
  shows "takeWhile (\<lambda>c. \<not> is_sep c) hot1 \<noteq> []" and "\<forall>x \<in> set (takeWhile (\<lambda>c. \<not> is_sep c) hot1). \<not> is_sep x"
proof -
  have "\<not> is_sep (hd hot1)" using assms hd_dropWhile [of is_sep p] by (auto simp: dropWhile_eq_Nil_conv)
  with assms(2) show "takeWhile (\<lambda>c. \<not> is_sep c) hot1 \<noteq> []" by (cases hot1) auto
qed (auto dest: set_takeWhileD)

lemma rest_at_sep:
  "dropWhile (\<lambda>c. \<not> is_sep c) h = [] \<or> is_sep (hd (dropWhile (\<lambda>c. \<not> is_sep c) h))"
  using hd_dropWhile [of "\<lambda>c. \<not> is_sep c" h] by blast

lemma drop_last_dir_render:
  assumes "is_sep sc" and "\<forall>c \<in> set st. comp_ok c"
  shows "drop_last_dir sc (render sc st) = render sc (butlast st)"
proof (cases st rule: rev_cases)
  case (snoc ys y)
  with assms have "sc \<notin> set y" and "y \<noteq> []" by (auto simp: comp_ok_def)
  with snoc show ?thesis by (simp add: drop_last_dir_sep)
qed (simp add: drop_last_dir_def)

text \<open>What the loop consumes at a separator: either nothing but separators, or one component.\<close>

lemma trip_round_cases:
  assumes "is_sep s"
  obtains (seps) "\<forall>x \<in> set p. is_sep x" and "\<And>out. trip_loop sc out (s # p) = out @ [sc]"
  | (comp) c r where "c \<noteq> []" and "\<forall>x \<in> set c. \<not> is_sep x" and "r = [] \<or> is_sep (hd r)"
      and "length r < length (s # p)" and "dropWhile is_sep p = c @ r"
      and "is_sep (last (s # p)) \<longleftrightarrow> r \<noteq> [] \<and> is_sep (last r)"
      and "\<And>out. trip_loop sc out (s # p) =
         (if c = ''.'' then trip_loop sc out r
          else if c = ''..'' then trip_loop sc (drop_last_dir sc out) r
          else trip_loop sc (out @ sc # c) r)"
proof (cases "dropWhile is_sep p = []")
  case True
  then show ?thesis using seps trip_loop_only_seps [OF assms True] by (simp add: dropWhile_eq_Nil_conv)
next
  case False
  let ?h = "dropWhile is_sep p"
  let ?c = "takeWhile (\<lambda>c. \<not> is_sep c) ?h" and ?r = "dropWhile (\<lambda>c. \<not> is_sep c) ?h"
  have c: "?c \<noteq> []" "\<forall>x \<in> set ?c. \<not> is_sep x" using takeWhile_sep_comp [OF refl False] .
  have "length ?r < length (s # p)"
    using length_dropWhile_le [of "\<lambda>c. \<not> is_sep c" ?h] length_dropWhile_le [of is_sep p] by simp
  moreover have "is_sep (last (s # p)) \<longleftrightarrow> ?r \<noteq> [] \<and> is_sep (last ?r)"
    using last_comp_rest [OF c, of "s # takeWhile is_sep p" ?r] by simp
  moreover have "?h = ?c @ ?r" by simp
  ultimately show ?thesis
    using comp [OF c rest_at_sep] trip_loop_round [OF assms refl False, unfolded Let_def] by metis
qed

lemma trip_loop_resolve:
  assumes "is_sep sc" and "\<forall>c \<in> set st. comp_ok c" and "hot = [] \<or> is_sep (hd hot)"
  shows "trip_loop sc (render sc st) hot =
     render sc (resolve st (segs hot)) @ (if hot \<noteq> [] \<and> is_sep (last hot) then [sc] else [])"
  using assms(2,3)
proof (induction "length hot" arbitrary: st hot rule: less_induct)
  case less
  show ?case
  proof (cases hot)
    case Nil
    then show ?thesis by simp
  next
    case (Cons s p)
    with less.prems have s: "is_sep s" by simp
    show ?thesis
    proof (cases rule: trip_round_cases [OF s, of p sc, case_names seps comp])
      case seps
      have "is_sep (last (s # p))" using seps(1) s last_in_set [of "s # p"] by auto
      moreover have "dropWhile is_sep p = []" using seps(1) by (simp add: dropWhile_eq_Nil_conv)
      then have "resolve st (segs (s # p)) = st"
        using resolve_segs_seps [of st p] by (simp only: segs_sep [OF s]) simp
      ultimately show ?thesis using Cons seps(2) by simp
    next
      case (comp c r)
      have res: "resolve st (segs hot) = resolve st (c # segs r)"
        using segs_comp [OF comp(2,3)] resolve_segs_seps [of st p] comp(5) Cons
        by (cases "segs r") (auto simp: segs_sep [OF s])
      have short: "length r < length hot" using comp(4) Cons by simp
      note ih = less.hyps [OF short _ comp(3)]
      consider "c = ''.''" | "c = ''..''" | "comp_ok c" "c \<noteq> ''.''" "c \<noteq> ''..''"
        using comp_cases [OF comp(1,2)] by blast
      then show ?thesis
      proof cases
        case 1
        then show ?thesis using ih [OF less.prems(1)] res Cons comp(6) by (simp add: comp(7))
      next
        case 2
        have b: "\<forall>c \<in> set (butlast st). comp_ok c" using less.prems(1) by (auto dest: in_set_butlastD)
        show ?thesis using ih [OF b] 2 res Cons comp(6)
          by (simp add: comp(7) drop_last_dir_render [OF assms(1) less.prems(1)])
      next
        case 3
        then have b: "\<forall>c \<in> set (st @ [c]). comp_ok c" using less.prems(1) by simp
        show ?thesis using ih [OF b] 3 res Cons comp(1,6) by (simp add: comp(7))
      qed
    qed
  qed
qed



section \<open>No dot components survive\<close>

text \<open>
  For any path, absolute or not: the output is the rendering of good components, without its
  leading separator while the first component of a relative path is still there.
\<close>

definition shape :: "char \<Rightarrow> string \<Rightarrow> string list \<Rightarrow> bool" where
  "shape sc out st \<longleftrightarrow> (\<forall>c \<in> set st. comp_ok c) \<and>
     (out = render sc st \<or> (st \<noteq> [] \<and> sc # out = render sc st))"

lemma shape_push:
  "shape sc out st \<Longrightarrow> comp_ok c \<Longrightarrow> shape sc (out @ sc # c) (st @ [c])"
  by (auto simp: shape_def)

lemma shape_pop:
  assumes sc: "is_sep sc" and sh: "shape sc out st"
  shows "shape sc (drop_last_dir sc out) (butlast st)"
proof -
  have ok: "\<forall>c \<in> set (butlast st). comp_ok c" using sh by (auto simp: shape_def dest: in_set_butlastD)
  consider "out = render sc st" | "st \<noteq> []" "sc # out = render sc st" using sh by (auto simp: shape_def)
  then show ?thesis
  proof cases
    case 1
    then show ?thesis using drop_last_dir_render [OF sc, of st] sh ok by (simp add: shape_def)
  next
    case 2
    then obtain ys y where st: "st = ys @ [y]" by (cases st rule: rev_cases) auto
    with sh sc have y: "sc \<notin> set y" "y \<noteq> []" by (auto simp: shape_def comp_ok_def)
    show ?thesis
    proof (cases ys)
      case Nil
      with 2 st have "out = y" by (simp add: render_def)
      with y Nil st show ?thesis by (simp add: shape_def drop_last_dir_first)
    next
      case (Cons z zs)
      with 2 st have "out = tl (render sc ys) @ sc # y" and "sc # tl (render sc ys) = render sc ys"
        by (auto simp: render_def)
      with y ok st Cons show ?thesis by (auto simp: shape_def drop_last_dir_sep)
    qed
  qed
qed

lemma trip_loop_shape:
  assumes "is_sep sc" and "shape sc out st" and "hot = [] \<or> is_sep (hd hot)"
  shows "\<exists>out' st'. shape sc out' st' \<and> (trip_loop sc out hot = out' \<or> trip_loop sc out hot = out' @ [sc])"
  using assms(2,3)
proof (induction "length hot" arbitrary: out st hot rule: less_induct)
  case less
  show ?case
  proof (cases hot)
    case Nil
    then show ?thesis using less.prems by auto
  next
    case (Cons s p)
    with less.prems have s: "is_sep s" by simp
    show ?thesis
    proof (cases rule: trip_round_cases [OF s, of p sc, case_names seps comp])
      case seps
      then show ?thesis using less.prems(1) Cons by auto
    next
      case (comp c r)
      have short: "length r < length hot" using comp(4) Cons by simp
      note ih = less.hyps [OF short _ comp(3)]
      consider "c = ''.''" | "c = ''..''" | "comp_ok c" "c \<noteq> ''.''" "c \<noteq> ''..''"
        using comp_cases [OF comp(1,2)] by blast
      then show ?thesis
      proof cases
        case 1
        then show ?thesis using ih [OF less.prems(1)] Cons by (simp add: comp(7))
      next
        case 2
        then show ?thesis using ih [OF shape_pop [OF assms(1) less.prems(1)]] Cons by (simp add: comp(7))
      next
        case 3
        then show ?thesis using ih [OF shape_push [OF less.prems(1) 3(1)]] Cons by (simp add: comp(7))
      qed
    qed
  qed
qed

lemma trip_loop_start_relative:
  assumes "hot \<noteq> []" and "\<not> is_sep (hd hot)"
  shows "trip_loop sc [] hot =
    (let comp = takeWhile (\<lambda>c. \<not> is_sep c) hot; rest = dropWhile (\<lambda>c. \<not> is_sep c) hot in
     if comp = ''.'' \<or> comp = ''..'' then trip_loop sc [] rest else trip_loop sc comp rest)"
  using assms by (subst trip_loop.simps) (simp add: Let_def drop_last_dir_def del: takeWhile_eq_Nil_iff)

lemma tripDir3_shape:
  assumes "is_sep sc"
  shows "\<exists>out st. shape sc out st \<and> (tripDir3 p sc = out \<or> tripDir3 p sc = out @ [sc])"
proof (cases "p = [] \<or> is_sep (hd p)")
  case True
  moreover have "shape sc [] []" by (simp add: shape_def)
  ultimately show ?thesis unfolding tripDir3_def using trip_loop_shape [OF assms] by blast
next
  case False
  let ?c = "takeWhile (\<lambda>c. \<not> is_sep c) p" and ?r = "dropWhile (\<lambda>c. \<not> is_sep c) p"
  have c: "?c \<noteq> []" "\<forall>x \<in> set ?c. \<not> is_sep x"
    using False by (cases p) (auto dest: set_takeWhileD)
  have start: "tripDir3 p sc =
      (if ?c = ''.'' \<or> ?c = ''..'' then trip_loop sc [] ?r else trip_loop sc ?c ?r)"
    unfolding tripDir3_def using trip_loop_start_relative [of p sc] False by (simp add: Let_def)
  show ?thesis
  proof (cases "?c = ''.'' \<or> ?c = ''..''")
    case True
    have "shape sc [] []" by (simp add: shape_def)
    with True show ?thesis unfolding start using trip_loop_shape [OF assms _ rest_at_sep] by auto
  next
    case no: False
    have "shape sc ?c [?c]" using no c by (auto simp: shape_def comp_ok_def render_def)
    with no show ?thesis unfolding start using trip_loop_shape [OF assms _ rest_at_sep] by auto
  qed
qed

lemma split_on_snoc_sep: "split_on c (a @ [c]) = split_on c a @ [[]]"
  by (induction a) (auto split: list.splits simp: append_eq_Cons_conv)

lemma split_on_render:
  "\<forall>c \<in> set st. sc \<notin> set c \<Longrightarrow> split_on sc (render sc st) = [] # st"
proof (induction st)
  case (Cons c cs)
  have "render sc (c # cs) = sc # c @ render sc cs" by (simp add: render_def)
  moreover have "split_on sc (c @ render sc cs) = c # cs"
  proof (cases cs)
    case Nil
    then show ?thesis using Cons.prems by (simp add: split_on_no_sep)
  next
    case (Cons d ds)
    then have "render sc cs = sc # d @ render sc ds" by (simp add: render_def)
    then show ?thesis using Cons.IH Cons.prems \<open>cs = d # ds\<close> by (simp add: split_on_append_sep)
  qed
  ultimately show ?case by simp
qed simp

lemma shape_comps:
  assumes "is_sep sc" and "shape sc out st" and "c \<in> set (split_on sc out)"
  shows "c = [] \<or> c \<in> set st"
proof -
  have no: "\<forall>c \<in> set st. sc \<notin> set c" using assms(1,2) by (auto simp: shape_def comp_ok_def)
  from assms(2) consider "out = render sc st" | "sc # out = render sc st" by (auto simp: shape_def)
  then show ?thesis
  proof cases
    case 1
    then show ?thesis using split_on_render [OF no] assms(3) by auto
  next
    case 2
    then have "split_on sc (sc # out) = [] # st" using split_on_render [OF no] by simp
    then show ?thesis using assms(3) by simp
  qed
qed

text \<open>
  Whatever the request path is, absolute or relative, with slashes or backslashes, no
  component of what \<open>tripDir3\<close> leaves behind is \<^verbatim>\<open>.\<close> or \<^verbatim>\<open>..\<close>
  or still contains a separator of either kind.
\<close>

theorem tripDir3_no_dots:
  assumes "is_sep sc" and "c \<in> set (split_on sc (tripDir3 p sc))"
  shows "c \<noteq> ''.'' \<and> c \<noteq> ''..'' \<and> (\<forall>x \<in> set c. \<not> is_sep x)"
proof -
  obtain out st where sh: "shape sc out st"
    and eq: "tripDir3 p sc = out \<or> tripDir3 p sc = out @ [sc]"
    using tripDir3_shape [OF assms(1)] by blast
  have "c = [] \<or> c \<in> set (split_on sc out)"
    using eq assms(2) by (auto simp: split_on_snoc_sep)
  with shape_comps [OF assms(1) sh] have "c = [] \<or> c \<in> set st" by blast
  with sh have "c = [] \<or> comp_ok c" unfolding shape_def by blast
  then show ?thesis by (cases "c = []") (simp_all add: comp_ok_def)
qed

theorem tripDir3_no_dots_witness:
  "''b'' \<in> set (split_on CHR ''/'' (tripDir3 ''/a/../../b'' CHR ''/'')) \<and> \<not> is_sep CHR ''b''"
proof -
  have e: "tripDir3 ''/a/../../b'' CHR ''/'' = ''/b''" by code_simp
  then have m: "''b'' \<in> set (split_on CHR ''/'' (tripDir3 ''/a/../../b'' CHR ''/''))" by simp
  show ?thesis using m tripDir3_no_dots [OF is_sep_slash m] by simp
qed

text \<open>
  \<^verbatim>\<open>concatDir\<close> only goes down from the directory it is given: the result is that
  directory, a slash, and components none of which is \<^verbatim>\<open>.\<close> or \<^verbatim>\<open>..\<close>.
\<close>

theorem concatDir_below:
  assumes "concatDir (Some d) (Some file) = Some n"
  shows "\<exists>sub. n = d @ (if d = [] \<or> last d \<noteq> CHR ''/'' then ''/'' else []) @ sub \<and>
     (\<forall>c \<in> set (split_on CHR ''/'' sub). c \<noteq> ''.'' \<and> c \<noteq> ''..'')"
proof -
  let ?p = "tripDir3 file CHR ''/''"
  have all: "\<forall>c \<in> set (split_on CHR ''/'' ?p). c \<noteq> ''.'' \<and> c \<noteq> ''..''"
    using tripDir3_shape [of "CHR ''/''" "file"] shape_comps [of "CHR ''/''"]
    by (fastforce simp: split_on_snoc_sep shape_def comp_ok_def)
  have "set (split_on CHR ''/'' (tl ?p)) \<subseteq> set (split_on CHR ''/'' ?p)" if "?p \<noteq> []" "hd ?p = CHR ''/''"
    using that by (cases ?p) auto
  with all have "\<forall>c \<in> set (split_on CHR ''/'' (if ?p \<noteq> [] \<and> hd ?p = CHR ''/'' then tl ?p else ?p)).
      c \<noteq> ''.'' \<and> c \<noteq> ''..''" by auto
  with assms show ?thesis by (auto simp: concatDir_def tripDir2_def)
qed

theorem concatDir_below_witness:
  "concatDir (Some ''/home'') (Some ''../x'') = Some ''/home/x'' \<and>
   (\<exists>sub. ''/home/x'' = ''/home'' @ ''/'' @ sub \<and>
     (\<forall>c \<in> set (split_on CHR ''/'' sub). c \<noteq> ''.'' \<and> c \<noteq> ''..''))"
proof -
  have e: "concatDir (Some ''/home'') (Some ''../x'') = Some ''/home/x''" by code_simp
  show ?thesis using e concatDir_below [OF e] by simp
qed

section \<open>Symbolic links\<close>

fun prefixes_from :: "string \<Rightarrow> string list \<Rightarrow> string list" where
  "prefixes_from root [] = []"
| "prefixes_from root (a # as) = (root @ ''/'' @ a) # prefixes_from (root @ ''/'' @ a) as"

definition link_ok :: "fs_ops \<Rightarrow> follow_flags \<Rightarrow> string \<Rightarrow> bool" where
  "link_ok fs fl q \<longleftrightarrow> (\<exists>b. lstat_of fs q = Some b \<and>
     (is_lnk b \<longrightarrow> FOLLOW_LINK_OWN fl \<and> (\<exists>b2. stat_of fs q = Some b2 \<and> st_uid b2 = st_uid b)))"

lemma checkLink_ok:
  "checkLink fs fl q f = (f', r) \<Longrightarrow> r \<noteq> CheckLinkFailed \<Longrightarrow> \<not> FOLLOW_LINK_ALL fl \<Longrightarrow> link_ok fs fl q"
  by (auto simp: checkLink_def link_ok_def Let_def split: option.splits if_splits)

lemma checkLink_linkChecked [frame_simps]:
  "checkLink fs fl q f = (f', r) \<Longrightarrow> linkChecked f' = linkChecked f"
  by (auto simp: checkLink_def Let_def split: option.splits if_splits)

lemma link_loop_linkChecked:
  "link_loop fs fl path src off f = (f', r, n, src', off') \<Longrightarrow> linkChecked f' = linkChecked f"
proof (induction fs fl path src off f rule: link_loop.induct)
  case (1 fs fl path src off f)
  then show ?case
    by (auto simp: link_loop.simps [of fs fl path src off f] frame_simps
        split: prod.splits option.splits if_splits)
qed

lemma link_loop_ok:
  assumes "link_loop fs fl path src off f = (f', r, n, src', off')"
    and "r \<noteq> CheckLinkFailed" and "\<not> FOLLOW_LINK_ALL fl"
  shows "\<exists>as rest. split_on CHR ''/'' src = as @ rest \<and> n = path @ render CHR ''/'' as \<and>
     (\<forall>q \<in> set (prefixes_from path as). link_ok fs fl q)"
  using assms
proof (induction fs fl path src off f arbitrary: f' r n src' off' rule: link_loop.induct)
  case (1 fs fl path src off f)
  note step = "1.prems"(1) [unfolded link_loop.simps [of fs fl path src off f]]
  obtain a ob where cut: "cut_at CHR ''/'' src = (a, ob)" by (cases "cut_at CHR ''/'' src")
  obtain f1 r1 where chk: "checkLink fs fl (path @ ''/'' @ a) f = (f1, r1)"
    by (cases "checkLink fs fl (path @ ''/'' @ a) f")
  have spl: "split_on CHR ''/'' src = (case ob of None \<Rightarrow> [a] | Some b \<Rightarrow> a # split_on CHR ''/'' b)"
    using split_on_cut_at [of "CHR ''/''" src] cut by (simp split: option.splits)
  have one: "\<exists>as rest. split_on CHR ''/'' src = as @ rest \<and> path @ ''/'' @ a = path @ render CHR ''/'' as \<and>
      (\<forall>q \<in> set (prefixes_from path as). link_ok fs fl q)" if "link_ok fs fl (path @ ''/'' @ a)"
    using spl that
    by (intro exI [where x = "[a]"] exI [where x = "case ob of None \<Rightarrow> [] | Some b \<Rightarrow> split_on CHR ''/'' b"])
       (simp add: render_def split: option.splits)
  show ?case
  proof (cases ob)
    case None
    show ?thesis
    proof (cases "a = []")
      case True
      then have "n = path @ render CHR ''/'' []" using step cut None by simp
      then show ?thesis by fastforce
    next
      case False
      then have n: "n = path @ ''/'' @ a" and "r1 = r" using step cut None chk by auto
      with one checkLink_ok [OF chk _ "1.prems"(3)] "1.prems"(2) show ?thesis unfolding n by blast
    qed
  next
    case (Some b)
    show ?thesis
    proof (cases "r1 = CheckLinkContinue")
      case False
      then have n: "n = path @ ''/'' @ a" and "r1 = r" using step cut Some chk by auto
      with one checkLink_ok [OF chk _ "1.prems"(3)] "1.prems"(2) show ?thesis unfolding n by blast
    next
      case True
      then have rec: "link_loop fs fl (path @ ''/'' @ a) b (off + length a + 1) f1 = (f', r, n, src', off')"
        using step cut Some chk by simp
      obtain as rest where ih: "split_on CHR ''/'' b = as @ rest" "n = (path @ ''/'' @ a) @ render CHR ''/'' as"
          "\<forall>q \<in> set (prefixes_from (path @ ''/'' @ a) as). link_ok fs fl q"
        using "1.IH" [OF cut [symmetric] Some chk [symmetric]] True rec "1.prems"(2,3) by auto
      have "link_ok fs fl (path @ ''/'' @ a)" using checkLink_ok [OF chk _ "1.prems"(3)] True by simp
      with ih spl Some show ?thesis
        by (intro exI [of _ "a # as"] exI [of _ rest]) (simp add: render_def)
    qed
  qed
qed

text \<open>
  C12. Unless every link is to be followed, a name \<^verbatim>\<open>setName\<close> accepts was checked at every
  directory on the way down: the name is the document root followed by leading components of the
  request path, each prefix exists, and a prefix that is a symbolic link is only accepted when links
  of the same owner may be followed and the owners agree.
\<close>

theorem setName_links_checked:
  assumes "setName fs (Some d) (Some p) fl f = (f', True)" and "\<not> FOLLOW_LINK_ALL fl"
  shows "\<exists>root as. fname f' = Some (root @ render CHR ''/'' as) \<and> linkChecked f' \<and>
     root = (if last d = CHR ''/'' then butlast d else d) \<and>
     (\<exists>rest. split_on CHR ''/'' (if p \<noteq> [] \<and> hd p = CHR ''/'' then tl p else p) = as @ rest) \<and>
     (\<forall>q \<in> set (prefixes_from root as). link_ok fs fl q)"
proof -
  let ?root = "if last d = CHR ''/'' then butlast d else d"
  let ?src = "if p \<noteq> [] \<and> hd p = CHR ''/'' then tl p else p"
  let ?off = "if p \<noteq> [] \<and> hd p = CHR ''/'' then 1 else 0"
  let ?f = "f\<lparr>fname := None, linkChecked := True\<rparr>"
  obtain f1 r n src off where loop: "link_loop fs fl ?root ?src ?off ?f = (f1, r, n, src, off)"
    by (metis prod_cases5)
  have d: "d \<noteq> []" using assms by (auto simp: setName_def split: if_splits)
  have r: "r \<noteq> CheckLinkFailed" and n: "fname f' = Some n" and lc: "linkChecked f' = linkChecked f1"
    using assms d loop by (auto simp: setName_def Let_def split: if_splits prod.splits)
  have "linkChecked f1" using link_loop_linkChecked [OF loop] by simp
  with link_loop_ok [OF loop r assms(2)] n lc show ?thesis by auto
qed

definition demo_fs :: fs_ops where
  "demo_fs = (let st = \<lparr>is_lnk = False, is_reg = False, is_dir = True, st_uid = 0, other_exec = True, st_mtime = 0\<rparr>
     in \<lparr>lstat_of = \<lambda>_. Some st, stat_of = \<lambda>_. Some st\<rparr>)"

definition demo_flags :: follow_flags where
  "demo_flags = \<lparr>FOLLOW_LINK_ALL = False, FOLLOW_LINK_OWN = False, FOLLOW_PATH_INFO = False\<rparr>"

theorem setName_links_checked_witness:
  "\<exists>f' as. setName demo_fs (Some ''/www'') (Some ''/a/b'') demo_flags new_filename = (f', True) \<and>
     fname f' = Some (''/www'' @ render CHR ''/'' as)"
proof -
  have "snd (setName demo_fs (Some ''/www'') (Some ''/a/b'') demo_flags new_filename) = True"
    by code_simp
  then obtain f' where e: "setName demo_fs (Some ''/www'') (Some ''/a/b'') demo_flags new_filename = (f', True)"
    by (metis prod.collapse)
  have "\<not> FOLLOW_LINK_ALL demo_flags" by (simp add: demo_flags_def)
  from setName_links_checked [OF e this] e show ?thesis by auto
qed

section \<open>Command lines\<close>

definition quote_arg :: "string \<Rightarrow> string" where
  "quote_arg w = [CHR 0x22] @
     concat (map (\<lambda>c. if c = CHR 0x22 \<or> c = CHR 0x5C then [CHR 0x5C, c] else [c]) w) @ [CHR 0x22]"

lemma quoted_word_escape:
  "quoted_word CHR 0x22 False out
     (concat (map (\<lambda>c. if c = CHR 0x22 \<or> c = CHR 0x5C then [CHR 0x5C, c] else [c]) w) @ CHR 0x22 # r) =
   (out @ w, Some r)"
  by (induction w arbitrary: out) auto

lemma explode_cmd_space [simp]: "is_space c \<Longrightarrow> explode_cmd (c # s) = explode_cmd s"
  by (subst (1 2) explode_cmd.simps) simp

lemma explode_cmd_quoted: "explode_cmd (quote_arg w @ r) = w # explode_cmd r"
proof -
  have "\<not> is_space CHR 0x22" by (simp add: is_space_def)
  then show ?thesis
    using quoted_word_escape [of "[]" w r] by (subst explode_cmd.simps) (simp add: quote_arg_def)
qed

text \<open>
  \<^verbatim>\<open>explode_cmd\<close> gives back the arguments of a command line in which each argument is
  put in double quotes with its quotes and backslashes escaped, whatever bytes they hold.
\<close>

theorem explode_cmd_quote_roundtrip:
  "explode_cmd (concat (map (\<lambda>w. quote_arg w @ '' '') args)) = args"
proof (induction args)
  case Nil
  then show ?case by (simp add: explode_cmd.simps)
next
  case (Cons a args)
  have "is_space CHR '' ''" by (simp add: is_space_def)
  with Cons show ?case by (simp add: explode_cmd_quoted)
qed

end
