(* ===== verification/Ordered_Map.thy ===== *)
theory Ordered_Map
  imports Kgl_Prelude "HOL-Library.List_Lexorder" "HOL-Library.Char_ord" "HOL-Library.Product_Lexorder"
begin

text \<open>
  \<^verbatim>\<open>std::map\<close> as the sources use it: a container ordered by its keys, with
  \<^verbatim>\<open>find\<close>, \<^verbatim>\<open>insert\<close> or \<^verbatim>\<open>emplace\<close> (which keep an entry that is
  already there), \<^verbatim>\<open>erase\<close> and iteration in key order. The interface is the locale
  \<open>std_map\<close>; \<open>om_find\<close>, \<open>om_insert\<close>, \<open>om_erase\<close> and \<open>om_assign\<close> are the
  operations the component theories use.
\<close>

definition om_find :: "('k \<times> 'v) list \<Rightarrow> 'k \<Rightarrow> 'v option" where
  "om_find m k = map_of m k"

fun om_insert :: "'k::linorder \<Rightarrow> 'v \<Rightarrow> ('k \<times> 'v) list \<Rightarrow> ('k \<times> 'v) list" where
  "om_insert k v [] = [(k, v)]"
| "om_insert k v ((a, b) # r) =
     (if k < a then (k, v) # (a, b) # r
      else if k = a then (a, b) # r
      else (a, b) # om_insert k v r)"

definition om_erase :: "'k \<Rightarrow> ('k \<times> 'v) list \<Rightarrow> ('k \<times> 'v) list" where
  "om_erase k m = filter (\<lambda>p. fst p \<noteq> k) m"

text \<open>\<^verbatim>\<open>(*it).second = v\<close> through an iterator found for \<open>k\<close>.\<close>

definition om_assign :: "'k \<Rightarrow> 'v \<Rightarrow> ('k \<times> 'v) list \<Rightarrow> ('k \<times> 'v) list" where
  "om_assign k v m = map (\<lambda>(a, b). if a = k then (a, v) else (a, b)) m"

definition om_wf :: "('k::linorder \<times> 'v) list \<Rightarrow> bool" where
  "om_wf m \<longleftrightarrow> sorted_wrt (<) (map fst m)"

section \<open>The interface\<close>

locale std_map =
  fixes find :: "'m \<Rightarrow> 'k \<Rightarrow> 'v option"
    and emplace :: "'k \<Rightarrow> 'v \<Rightarrow> 'm \<Rightarrow> 'm"
    and erase :: "'k \<Rightarrow> 'm \<Rightarrow> 'm"
    and assign :: "'k \<Rightarrow> 'v \<Rightarrow> 'm \<Rightarrow> 'm"
    and wf :: "'m \<Rightarrow> bool"
  assumes find_emplace:
      "wf m \<Longrightarrow> find (emplace k v m) k' =
         (if k' = k then Some (case find m k of None \<Rightarrow> v | Some x \<Rightarrow> x) else find m k')"
    and find_erase: "wf m \<Longrightarrow> find (erase k m) k' = (if k' = k then None else find m k')"
    and find_assign:
      "wf m \<Longrightarrow> find (assign k v m) k' =
         (if k' = k then map_option (\<lambda>_. v) (find m k) else find m k')"
    and wf_emplace: "wf m \<Longrightarrow> wf (emplace k v m)"
    and wf_erase: "wf m \<Longrightarrow> wf (erase k m)"
    and wf_assign: "wf m \<Longrightarrow> wf (assign k v m)"
begin

lemmas map_laws = find_emplace find_erase find_assign wf_emplace wf_erase wf_assign

lemma emplace_new: "wf m \<Longrightarrow> find m k = None \<Longrightarrow> find (emplace k v m) = (find m)(k \<mapsto> v)"
  by (auto simp: find_emplace fun_eq_iff)

lemma emplace_keeps: "wf m \<Longrightarrow> find m k = Some x \<Longrightarrow> find (emplace k v m) = find m"
  by (auto simp: find_emplace fun_eq_iff)

lemma erase_emplace: "wf m \<Longrightarrow> find m k = None \<Longrightarrow> find (erase k (emplace k v m)) = find m"
  by (auto simp: find_emplace find_erase wf_emplace fun_eq_iff)

lemma put_then_find:
  "wf m \<Longrightarrow> find (assign k v (emplace k w m)) k' = (if k' = k then Some v else find m k')"
  by (simp add: find_assign find_emplace wf_emplace)

end

section \<open>The ordered list implements it\<close>

lemma om_find_simps [simp]:
  "om_find [] k = None"
  "om_find ((a, b) # r) k = (if k = a then Some b else om_find r k)"
  by (auto simp: om_find_def)

lemma om_wf_simps [simp]:
  "om_wf []"
  "om_wf ((a, b) # r) \<longleftrightarrow> (\<forall>p \<in> set r. a < fst p) \<and> om_wf r"
  by (auto simp: om_wf_def)

lemma om_insert_set: "set (om_insert k v m) \<subseteq> insert (k, v) (set m)"
  by (induction m) (auto split: if_splits)

lemma om_find_None_iff: "om_find m k = None \<longleftrightarrow> k \<notin> fst ` set m"
  by (simp add: om_find_def map_of_eq_None_iff)

lemma om_find_Some_mem: "om_find m k = Some v \<Longrightarrow> (k, v) \<in> set m"
  by (simp add: om_find_def map_of_SomeD)

lemma om_wf_distinct: "om_wf m \<Longrightarrow> distinct (map fst m)"
  unfolding om_wf_def by (metis strict_sorted_iff)

lemma om_find_mem: "om_wf m \<Longrightarrow> (k, v) \<in> set m \<Longrightarrow> om_find m k = Some v"
  by (simp add: om_find_def om_wf_distinct)

interpretation om: std_map om_find om_insert om_erase om_assign om_wf
proof unfold_locales
  fix m :: "('k::linorder \<times> 'v) list" and k v k'
  assume wf: "om_wf m"
  show "om_find (om_insert k v m) k' =
      (if k' = k then Some (case om_find m k of None \<Rightarrow> v | Some x \<Rightarrow> x) else om_find m k')"
    using wf
  proof (induction m)
    case (Cons p r)
    obtain a b where p: "p = (a, b)" by (cases p)
    have "k < a \<Longrightarrow> om_find r k = None"
      using Cons.prems p by (auto simp: om_find_None_iff)
    with Cons p show ?case by auto
  qed simp
  show "om_find (om_erase k m) k' = (if k' = k then None else om_find m k')"
    by (induction m) (auto simp: om_erase_def)
  show "om_find (om_assign k v m) k' = (if k' = k then map_option (\<lambda>_. v) (om_find m k) else om_find m k')"
    by (induction m) (auto simp: om_assign_def)
  show "om_wf (om_insert k v m)"
    using wf
  proof (induction m)
    case (Cons p r)
    obtain a b where p: "p = (a, b)" by (cases p)
    have "q \<in> set (om_insert k v r) \<Longrightarrow> q = (k, v) \<or> q \<in> set r" for q
      using om_insert_set [of k v r] by blast
    with Cons p show ?case by (fastforce intro: less_trans simp: not_less)
  qed simp
  show "om_wf (om_erase k m)"
    using wf by (simp add: om_wf_def om_erase_def sorted_wrt_map sorted_wrt_filter)
  have "map fst (om_assign k v m) = map fst m"
    by (auto simp: om_assign_def)
  then show "om_wf (om_assign k v m)"
    using wf by (simp add: om_wf_def)
qed

end
