(* ===== verification/Access_Chain.thy ===== *)
theory Access_Chain
  imports Ordered_Map
begin

text \<open>
  Access control: chains of ACLs and marks (\<^verbatim>\<open>include/KChain.h\<close>,
  \<^verbatim>\<open>src/KChain.cpp\<close>), tables of chains that may jump to other tables
  (\<^verbatim>\<open>src/KTable.cpp\<close>) and the decision of an access object (\<^verbatim>\<open>src/KAccess.cpp\<close>).

  The ACL and mark modules are virtual functions with many implementations, so a chain holds
  them as functions on a state \<open>'s\<close> that stands for the request, the cached object and
  whatever else a module may change; \<open>'f\<close> is the type of fetch sources. Tables live in a
  heap indexed by identifiers, because chains of different tables refer to each other, in a
  cycle if the configuration says so.
\<close>

unbundle bit_operations_syntax

section \<open>Data\<close>

datatype jump_type =
    JUMP_DENY | JUMP_ALLOW | JUMP_CONTINUE | JUMP_TABLE | JUMP_SERVER | JUMP_WBACK
  | JUMP_PROXY | JUMP_RETURN | JUMP_DROP | JUMP_SKIP | JUMP_VHS | JUMP_CGI | JUMP_API
  | JUMP_CMD | JUMP_DSO | JUMP_FCGI

datatype jump_ref = JTable nat | JServer string | JWback string

definition REQ_FINISHED :: u32 where "REQ_FINISHED = push_bit 31 1"
definition REQ_DEFERRED :: u32 where "REQ_DEFERRED = push_bit 30 1"
definition REQ_TRUE :: u32 where "REQ_TRUE = 1"
definition REQ_FALSE :: u32 where "REQ_FALSE = 0"

record 's acl_ptr =
  acl_match :: "'s \<Rightarrow> 's \<times> bool"
  acl_revers :: bool
  acl_or :: bool

record ('s, 'f) mark_ptr =
  mark_process :: "'s \<Rightarrow> 'f option \<Rightarrow> jump_type \<Rightarrow> 's \<times> 'f option \<times> u32"
  mark_revers :: bool
  mark_or :: bool

record ('s, 'f) chain =
  hit_count :: u32
  cjump_type :: jump_type
  skip_to :: int
  cjump :: "jump_ref option"
  cname :: string
  acls :: "'s acl_ptr list"
  marks :: "('s, 'f) mark_ptr list"

type_synonym file_key = "nat \<times> string"

record ('s, 'f) ktable =
  tname :: string
  chains :: "(file_key \<times> ('s, 'f) chain list) list"

text \<open>\<^verbatim>\<open>KChain::KChain\<close>.\<close>

definition new_chain :: "('s, 'f) chain" where
  "new_chain = \<lparr>hit_count = 0, cjump_type = JUMP_CONTINUE, skip_to = -1, cjump = None, cname = [],
     acls = [], marks = []\<rparr>"

definition chain_clear :: "('s, 'f) chain \<Rightarrow> ('s, 'f) chain" where
  "chain_clear c = c\<lparr>cjump := None, acls := [], marks := []\<rparr>"

section \<open>Matching one chain\<close>

fun acl_loop :: "'s acl_ptr list \<Rightarrow> bool \<Rightarrow> bool \<Rightarrow> 's \<Rightarrow> 's \<times> bool" where
  "acl_loop [] result last_or s = (s, result)"
| "acl_loop (a # as) result last_or s =
     (if result \<and> last_or then acl_loop as result (acl_or a) s
      else
        (case acl_match a s of
           (s', m) \<Rightarrow>
             (let result' = (m \<noteq> acl_revers a) in
              if \<not> result' \<and> \<not> acl_or a then (s', False)
              else acl_loop as result' (acl_or a) s')))"

text \<open>
  The loop over the marks. \<open>Inl r\<close>: the function returns \<open>r\<close> from inside the loop, counting a hit.
  \<open>Inr (result, deferred)\<close>: the loop was left or broken off.
\<close>

fun mark_loop ::
  "jump_type \<Rightarrow> ('s, 'f) mark_ptr list \<Rightarrow> bool \<Rightarrow> bool \<Rightarrow> bool \<Rightarrow> 's \<Rightarrow> 'f option \<Rightarrow>
   's \<times> 'f option \<times> (u32 + bool \<times> bool)" where
  "mark_loop jt [] result deferred last_or s fo = (s, fo, Inr (result, deferred))"
| "mark_loop jt (m # ms) result deferred last_or s fo =
     (if result \<and> last_or then mark_loop jt ms result deferred (mark_or m) s fo
      else
        (case mark_process m s fo jt of
           (s', fo', r) \<Rightarrow>
             (if r AND REQ_FINISHED \<noteq> 0 then (s', fo', Inl r)
              else
                (let deferred' = (deferred \<or> r AND REQ_DEFERRED \<noteq> 0);
                     r' = (if r AND REQ_DEFERRED \<noteq> 0 then r AND NOT REQ_DEFERRED else r);
                     result' = ((r' \<noteq> 0) \<noteq> mark_revers m)
                 in if \<not> result' \<and> \<not> mark_or m then (s', fo', Inr (False, deferred'))
                    else if fo' \<noteq> None then (s', fo', Inl REQ_TRUE)
                    else mark_loop jt ms result' deferred' (mark_or m) s' fo'))))"

definition chain_match ::
  "('s, 'f) chain \<Rightarrow> 's \<Rightarrow> 'f option \<Rightarrow> ('s, 'f) chain \<times> 's \<times> 'f option \<times> u32" where
  "chain_match c s fo =
     (case acl_loop (acls c) True False s of
        (s1, ok) \<Rightarrow>
          (if \<not> ok then (c, s1, fo, REQ_FALSE)
           else
             (case mark_loop (cjump_type c) (marks c) True False False s1 fo of
                (s2, fo2, Inl r) \<Rightarrow> (c\<lparr>hit_count := hit_count c + 1\<rparr>, s2, fo2, r)
              | (s2, fo2, Inr (result, deferred)) \<Rightarrow>
                  (if result \<and> \<not> deferred then c\<lparr>hit_count := hit_count c + 1\<rparr> else c, s2, fo2,
                   if result \<and> deferred then REQ_TRUE OR REQ_DEFERRED
                   else if result then REQ_TRUE else REQ_FALSE))))"

section \<open>Matching a table\<close>

record ('s, 'f) mstate =
  req :: 's
  fo :: "'f option"
  checked_table :: u32
  jump :: "jump_ref option"
  tabs :: "nat \<Rightarrow> ('s, 'f) ktable option"

definition nth_chain :: "('s, 'f) ktable \<Rightarrow> file_key \<Rightarrow> nat \<Rightarrow> ('s, 'f) chain option" where
  "nth_chain t key i =
     (case om_find (chains t) key of
        None \<Rightarrow> None
      | Some vec \<Rightarrow> if i < length vec then Some (vec ! i) else None)"

definition put_chain :: "file_key \<Rightarrow> nat \<Rightarrow> ('s, 'f) chain \<Rightarrow> ('s, 'f) ktable \<Rightarrow> ('s, 'f) ktable" where
  "put_chain key i c t =
     (case om_find (chains t) key of
        None \<Rightarrow> t
      | Some vec \<Rightarrow> t\<lparr>chains := om_assign key (vec[i := c]) (chains t)\<rparr>)"

text \<open>
  The loop over the chains of one configuration file. \<open>rec\<close> is the call of
  \<^verbatim>\<open>KTable::match\<close> on another table. The result \<open>Some j\<close> is a \<^verbatim>\<open>return j\<close>; the outer
  \<open>None\<close> is a call that did not come back, a table that is not in the heap, or a
  \<^verbatim>\<open>static_cast\<close> to a table of something else.
\<close>

function vec_loop ::
  "(nat \<Rightarrow> ('s, 'f) mstate \<Rightarrow> (('s, 'f) mstate \<times> jump_type) option) \<Rightarrow>
   nat \<Rightarrow> file_key \<Rightarrow> nat \<Rightarrow> nat \<Rightarrow> ('s, 'f) mstate \<Rightarrow> (('s, 'f) mstate \<times> jump_type option) option" where
  "vec_loop rec tid key n i st =
     (if n \<le> i then Some (st, None)
      else
        (case Option.bind (tabs st tid) (\<lambda>t. nth_chain t key i) of
           None \<Rightarrow> None
         | Some c \<Rightarrow>
             (case chain_match c (req st) (fo st) of
                (c', s', fo', r) \<Rightarrow>
                  (let st1 = st\<lparr>req := s', fo := fo',
                         tabs := (tabs st)(tid := map_option (put_chain key i c') (tabs st tid))\<rparr>
                   in
                   if r AND REQ_DEFERRED \<noteq> 0 then vec_loop rec tid key n (Suc i) st1
                   else if fo' \<noteq> None then Some (st1, Some (cjump_type c))
                   else if r = 0 then vec_loop rec tid key n (Suc i) st1
                   else if r AND REQ_FINISHED \<noteq> 0 then Some (st1, Some JUMP_DENY)
                   else
                     (case cjump_type c of
                        JUMP_CONTINUE \<Rightarrow> vec_loop rec tid key n (Suc i) st1
                      | JUMP_SKIP \<Rightarrow>
                          vec_loop rec tid key n (Suc (if int i < skip_to c then nat (skip_to c) else i)) st1
                      | JUMP_TABLE \<Rightarrow>
                          (case cjump c of
                             Some (JTable t) \<Rightarrow>
                               (let st2 = st1\<lparr>checked_table := checked_table st1 + 1\<rparr> in
                                if 32 < checked_table st2 then Some (st2, Some JUMP_DENY)
                                else
                                  (case rec t st2 of
                                     None \<Rightarrow> None
                                   | Some (st3, j) \<Rightarrow>
                                       if j \<noteq> JUMP_CONTINUE then Some (st3, Some j)
                                       else vec_loop rec tid key n (Suc i) st3))
                           | None \<Rightarrow> Some (st1, Some JUMP_DENY)
                           | _ \<Rightarrow> None)
                      | j \<Rightarrow> Some (st1\<lparr>jump := cjump c\<rparr>, Some j))))))"
  by pat_completeness auto
termination
  by (relation "measure (\<lambda>(rec, tid, key, n, i, st). n - i)") auto

declare vec_loop.simps [simp del]

fun files_loop ::
  "(nat \<Rightarrow> ('s, 'f) mstate \<Rightarrow> (('s, 'f) mstate \<times> jump_type) option) \<Rightarrow>
   nat \<Rightarrow> (file_key \<times> nat) list \<Rightarrow> ('s, 'f) mstate \<Rightarrow> (('s, 'f) mstate \<times> jump_type) option" where
  "files_loop rec tid [] st = Some (st, JUMP_CONTINUE)"
| "files_loop rec tid ((key, n) # keys) st =
     (case vec_loop rec tid key n 0 st of
        None \<Rightarrow> None
      | Some (st', Some j) \<Rightarrow> Some (st', j)
      | Some (st', None) \<Rightarrow> files_loop rec tid keys st')"

fun table_match :: "nat \<Rightarrow> nat \<Rightarrow> ('s, 'f) mstate \<Rightarrow> (('s, 'f) mstate \<times> jump_type) option" where
  "table_match 0 tid st = None"
| "table_match (Suc fuel) tid st =
     (case tabs st tid of
        None \<Rightarrow> None
      | Some t \<Rightarrow>
          files_loop (table_match fuel) tid (map (\<lambda>(key, vec). (key, length vec)) (chains t)) st)"

text \<open>
  Every nested call is preceded by a step of \<open>checked_table\<close>, which is checked against 32, so a
  call from \<open>checked_table = 0\<close> nests at most 32 levels: 33 units of fuel are enough.
\<close>

definition MATCH_FUEL :: nat where "MATCH_FUEL = 33"

section \<open>The tables of a configuration\<close>

text \<open>
  \<^verbatim>\<open>on_file_event\<close>: a configuration file reports that its chains \<open>from .. old_to - 1\<close>
  were replaced by the bodies \<open>from .. new_to - 1\<close> of the new document; \<open>parse i\<close> stands for
  \<^verbatim>\<open>parse_chain (get_body (i))\<close>. \<open>None\<close> is an insertion or erasure outside the vector.
\<close>

fun insert_loop :: "(nat \<Rightarrow> 'c) \<Rightarrow> nat \<Rightarrow> nat \<Rightarrow> nat \<Rightarrow> 'c list \<Rightarrow> 'c list option" where
  "insert_loop parse old_count index 0 vec = Some vec"
| "insert_loop parse old_count index (Suc n) vec =
     (if length vec < index + old_count then None
      else insert_loop parse old_count (Suc index) n
             (take (index + old_count) vec @ parse index # drop (index + old_count) vec))"

fun erase_loop :: "nat \<Rightarrow> nat \<Rightarrow> 'c list \<Rightarrow> 'c list option" where
  "erase_loop from 0 vec = Some vec"
| "erase_loop from (Suc n) vec =
     (if length vec \<le> from then None
      else erase_loop from n (take from vec @ drop (Suc from) vec))"

definition on_file_event :: "(nat \<Rightarrow> 'c) \<Rightarrow> nat \<Rightarrow> nat \<Rightarrow> nat \<Rightarrow> 'c list \<Rightarrow> 'c list option" where
  "on_file_event parse from old_to new_to vec =
     (let old_count = old_to - from in
      Option.bind (insert_loop parse old_count from (new_to - from) vec)
        (erase_loop from (old_to - from)))"

definition table_on_config_event ::
  "bool \<Rightarrow> file_key \<Rightarrow> (nat \<Rightarrow> ('s, 'f) chain) \<Rightarrow> nat \<Rightarrow> nat \<Rightarrow> nat \<Rightarrow> ('s, 'f) ktable \<Rightarrow>
   (('s, 'f) ktable \<times> bool) option" where
  "table_on_config_event is_chain key parse from old_to new_to t =
     (if \<not> is_chain then Some (t, False)
      else
        (let m = om_insert key [] (chains t) in
         case om_find m key of
           None \<Rightarrow> None
         | Some vec \<Rightarrow>
             (case on_file_event parse from old_to new_to vec of
                None \<Rightarrow> None
              | Some vec' \<Rightarrow>
                  Some (t\<lparr>chains := if vec' = [] then om_erase key m else om_assign key vec' m\<rparr>, True))))"

definition find_chain :: "('s, 'f) ktable \<Rightarrow> string \<Rightarrow> nat \<Rightarrow> nat \<Rightarrow> ('s, 'f) chain option" where
  "find_chain t file index i =
     (case om_find (chains t) (index, file) of
        None \<Rightarrow> None
      | Some vec \<Rightarrow> if length vec \<le> i then None else Some (vec ! i))"

section \<open>An access object\<close>

record ('s, 'f) kaccess =
  is_response :: bool
  global_flag :: bool
  default_jump_type :: jump_type
  default_jump :: "jump_ref option"
  begin_tab :: "nat option"
  post_map :: "nat option"
  tables :: "(string \<times> nat) list"

text \<open>How fetch sources are made; this is code of the upstream modules.\<close>

record ('s, 'f) source_ops =
  make_server :: "string \<Rightarrow> 's \<Rightarrow> 's \<times> 'f"
  make_wback :: "string \<Rightarrow> 's \<Rightarrow> 'f option \<Rightarrow> 's \<times> 'f option"
  make_proxy :: "'s \<Rightarrow> 's \<times> 'f"
  before_cache :: "'f \<Rightarrow> bool"

text \<open>The final \<^verbatim>\<open>switch\<close> of \<^verbatim>\<open>KAccess::check\<close>; \<open>None\<close> is a server
  jump without a server, or a \<^verbatim>\<open>static_cast\<close> to the wrong class.\<close>

definition take_jump ::
  "('s, 'f) source_ops \<Rightarrow> jump_type \<Rightarrow> jump_ref option \<Rightarrow> ('s, 'f) mstate \<Rightarrow> (('s, 'f) mstate \<times> jump_type) option" where
  "take_jump ops jt jr st =
     (case jt of
        JUMP_SERVER \<Rightarrow>
          (case jr of
             Some (JServer nm) \<Rightarrow>
               (case make_server ops nm (req st) of
                  (s', f) \<Rightarrow> Some (st\<lparr>req := s', fo := Some f\<rparr>, JUMP_ALLOW))
           | _ \<Rightarrow> None)
      | JUMP_WBACK \<Rightarrow>
          (case jr of
             Some (JWback nm) \<Rightarrow>
               (case make_wback ops nm (req st) (fo st) of
                  (s', f) \<Rightarrow> Some (st\<lparr>req := s', fo := f\<rparr>, JUMP_DENY))
           | None \<Rightarrow> Some (st, JUMP_DENY)
           | _ \<Rightarrow> None)
      | JUMP_PROXY \<Rightarrow>
          (case make_proxy ops (req st) of
             (s', f) \<Rightarrow> Some (st\<lparr>req := s', fo := Some f\<rparr>, JUMP_ALLOW))
      | _ \<Rightarrow> Some (st, jt))"

definition access_check ::
  "nat \<Rightarrow> ('s, 'f) source_ops \<Rightarrow> ('s, 'f) kaccess \<Rightarrow> ('s, 'f) mstate \<Rightarrow> (('s, 'f) mstate \<times> jump_type) option" where
  "access_check fuel ops a st0 =
     (let st = st0\<lparr>checked_table := 0, jump := default_jump a\<rparr> in
      case begin_tab a of
        None \<Rightarrow> take_jump ops (default_jump_type a) (default_jump a) st
      | Some b \<Rightarrow>
          (case table_match fuel b st of
             None \<Rightarrow> None
           | Some (st1, j) \<Rightarrow>
               (case fo st1 of
                  Some f \<Rightarrow> Some (st1, if before_cache ops f then JUMP_DENY else JUMP_ALLOW)
                | None \<Rightarrow>
                    (if j = JUMP_RETURN \<or> j = JUMP_CONTINUE
                     then take_jump ops (default_jump_type a) (default_jump a) st1
                     else take_jump ops j (jump st1) st1))))"

definition check_post_map ::
  "nat \<Rightarrow> ('s, 'f) kaccess \<Rightarrow> ('s, 'f) mstate \<Rightarrow> (('s, 'f) mstate \<times> jump_type) option" where
  "check_post_map fuel a st0 =
     (case post_map a of
        None \<Rightarrow> Some (st0, JUMP_ALLOW)
      | Some p \<Rightarrow>
          (case table_match fuel p (st0\<lparr>checked_table := 0, jump := None\<rparr>) of
             None \<Rightarrow> None
           | Some (st1, j) \<Rightarrow> Some (st1, if j = JUMP_RETURN then default_jump_type a else j)))"

section \<open>Actions as text\<close>

definition strncase_prefix :: "string \<Rightarrow> string \<Rightarrow> bool" where
  "strncase_prefix pre s \<longleftrightarrow> map to_lower (take (length pre) s) = map to_lower pre"

text \<open>\<^verbatim>\<open>strtoul (s, &end, 10)\<close> with the whole text consumed.\<close>

definition strtoul_all :: "string \<Rightarrow> nat option" where
  "strtoul_all s =
     (let t = dropWhile is_space s;
          neg = (t \<noteq> [] \<and> hd t = CHR ''-'');
          u = (if t \<noteq> [] \<and> (hd t = CHR ''-'' \<or> hd t = CHR ''+'') then tl t else t)
      in if u = [] \<or> \<not> list_all is_digit u then None
         else
           (let v = nat (digits_val 0 u) in
            if 18446744073709551615 < v then Some 18446744073709551615
            else if neg then Some ((18446744073709551616 - v) mod 18446744073709551616)
            else Some v))"

definition parseChainAction :: "bool \<Rightarrow> string \<Rightarrow> (jump_type \<times> string) option" where
  "parseChainAction is_global action =
     (if strcase_eq action ''deny'' then Some (JUMP_DENY, [])
      else if strcase_eq action ''drop'' then Some (JUMP_DROP, [])
      else if strcase_eq action ''allow'' then Some (JUMP_ALLOW, [])
      else if strcase_eq action ''continue'' then Some (JUMP_CONTINUE, [])
      else if strcase_eq action ''return'' \<or> strcase_eq action ''default'' then Some (JUMP_RETURN, [])
      else if strncase_prefix ''table:'' action \<and> 6 < length action then Some (JUMP_TABLE, drop 6 action)
      else if strncase_prefix ''tablechain:'' action then
        (let nm = rev (takeWhile (\<lambda>c. c \<noteq> CHR '':'') (rev action)) in
         if length action - length nm - 1 \<le> 10 \<or> nm = [] then None
         else case strtoul_all nm of
                None \<Rightarrow> None
              | Some target \<Rightarrow> if 2147483647 < target then None else Some (JUMP_SKIP, nm))
      else if strncase_prefix ''wback:'' action \<and> 6 < length action then Some (JUMP_WBACK, drop 6 action)
      else if strcase_eq action ''proxy'' then Some (JUMP_PROXY, [])
      else if strncase_prefix ''server:'' action \<and> 7 < length action then Some (JUMP_SERVER, drop 7 action)
      else if is_global then
        (if strcase_eq action ''vhs'' then Some (JUMP_VHS, [])
         else if strncase_prefix ''cgi:'' action \<and> 4 < length action then Some (JUMP_CGI, drop 4 action)
         else if strncase_prefix ''api:'' action \<and> 4 < length action then Some (JUMP_API, drop 4 action)
         else if strncase_prefix ''cmd:'' action \<and> 4 < length action then Some (JUMP_CMD, drop 4 action)
         else if strncase_prefix ''dso:'' action \<and> 4 < length action then Some (JUMP_DSO, drop 4 action)
         else None)
      else None)"

definition buildChainAction :: "jump_type \<Rightarrow> string option \<Rightarrow> string" where
  "buildChainAction jt jname =
     (case jt of
        JUMP_DROP \<Rightarrow> ''drop''
      | JUMP_DENY \<Rightarrow> ''deny''
      | JUMP_ALLOW \<Rightarrow> ''allow''
      | JUMP_CONTINUE \<Rightarrow> ''continue''
      | JUMP_RETURN \<Rightarrow> ''return''
      | JUMP_PROXY \<Rightarrow> ''proxy''
      | JUMP_SERVER \<Rightarrow> ''server:'' @ (case jname of None \<Rightarrow> [] | Some n \<Rightarrow> n)
      | JUMP_WBACK \<Rightarrow> ''wback:'' @ (case jname of None \<Rightarrow> [] | Some n \<Rightarrow> n)
      | JUMP_TABLE \<Rightarrow> ''table:'' @ (case jname of None \<Rightarrow> [] | Some n \<Rightarrow> n)
      | _ \<Rightarrow> [])"

section \<open>Administration of tables\<close>

definition validate_table_name :: "string \<Rightarrow> bool" where
  "validate_table_name nm \<longleftrightarrow> 2 \<le> length nm \<and> length nm \<le> 16 \<and> CHR ''/'' \<notin> set nm \<and> CHR ''#'' \<notin> set nm"

definition has_table :: "('s, 'f) kaccess \<Rightarrow> string \<Rightarrow> bool" where
  "has_table a nm \<longleftrightarrow> om_find (tables a) nm \<noteq> None"

definition can_create_table :: "('s, 'f) kaccess \<Rightarrow> string \<Rightarrow> bool" where
  "can_create_table a nm \<longleftrightarrow> validate_table_name nm \<and> om_find (tables a) nm = None"

definition can_rename_table :: "('s, 'f) kaccess \<Rightarrow> string \<Rightarrow> string \<Rightarrow> bool" where
  "can_rename_table a src dst \<longleftrightarrow>
     validate_table_name dst \<and>
     \<not> (src = [] \<or> src = ''BEGIN'' \<or> (is_response a \<and> src = ''POSTMAP'')) \<and>
     om_find (tables a) src \<noteq> None \<and> om_find (tables a) dst = None"

definition get_table :: "string \<Rightarrow> bool \<Rightarrow> nat \<Rightarrow> ('s, 'f) kaccess \<Rightarrow> (nat \<Rightarrow> ('s, 'f) ktable option) \<Rightarrow>
    ('s, 'f) kaccess \<times> (nat \<Rightarrow> ('s, 'f) ktable option) \<times> nat option" where
  "get_table nm always_new new_id a hp =
     (case om_find (tables a) nm of
        Some tid \<Rightarrow> (a, hp, Some tid)
      | None \<Rightarrow>
          (if \<not> always_new then (a, hp, None)
           else (a\<lparr>tables := om_insert nm new_id (tables a)\<rparr>,
                 hp(new_id \<mapsto> \<lparr>tname = nm, chains = []\<rparr>), Some new_id)))"

text \<open>All chains of a table with their position.\<close>

definition chain_positions :: "('s, 'f) ktable \<Rightarrow> ((file_key \<times> nat) \<times> ('s, 'f) chain) list" where
  "chain_positions t =
     concat (map (\<lambda>(key, vec). map (\<lambda>i. ((key, i), vec ! i)) [0..<length vec]) (chains t))"

definition prepare_chain_name ::
  "('s, 'f) kaccess \<Rightarrow> (nat \<Rightarrow> ('s, 'f) ktable option) \<Rightarrow> string \<Rightarrow> string \<Rightarrow> nat \<Rightarrow> nat \<Rightarrow> bool \<Rightarrow> string \<Rightarrow>
   string \<times> bool" where
  "prepare_chain_name a hp table_name file index i name_provided nm =
     (case Option.bind (om_find (tables a) table_name) hp of
        None \<Rightarrow> (nm, False)
      | Some t \<Rightarrow>
          (case find_chain t file index i of
             None \<Rightarrow> (nm, False)
           | Some current \<Rightarrow>
               (let nm' = (if \<not> name_provided \<and> cname current \<noteq> [] then cname current else nm) in
                if nm' = [] then (nm', True)
                else (nm', list_all (\<lambda>(pos, c). pos = ((index, file), i) \<or> cname c \<noteq> nm') (chain_positions t)))))"

definition find_chain_location ::
  "('s, 'f) kaccess \<Rightarrow> (nat \<Rightarrow> ('s, 'f) ktable option) \<Rightarrow> string \<Rightarrow> string option \<Rightarrow> (file_key \<times> nat) option" where
  "find_chain_location a hp table_name chain_name =
     (case Option.bind (om_find (tables a) table_name) hp of
        None \<Rightarrow> None
      | Some t \<Rightarrow>
          map_option fst (find (\<lambda>(pos, c). chain_name = None \<or> chain_name = Some (cname c)) (chain_positions t)))"

definition references_table :: "('s, 'f) kaccess \<Rightarrow> (nat \<Rightarrow> ('s, 'f) ktable option) \<Rightarrow> nat \<Rightarrow> bool" where
  "references_table a hp target \<longleftrightarrow>
     default_jump a = Some (JTable target) \<or>
     list_ex (\<lambda>(nm, tid). case hp tid of
         None \<Rightarrow> False
       | Some t \<Rightarrow> list_ex (\<lambda>(pos, c). cjump c = Some (JTable target)) (chain_positions t)) (tables a)"

section \<open>ACL groups\<close>

text \<open>
  An ACL with the \<^verbatim>\<open>OR NEXT\<close> flag shares a group with its successor.
\<close>

fun or_groups :: "'s acl_ptr list \<Rightarrow> 's acl_ptr list list" where
  "or_groups [] = []"
| "or_groups (a # as) =
     (if acl_or a \<and> as \<noteq> []
      then (case or_groups as of [] \<Rightarrow> [[a]] | g # gs \<Rightarrow> (a # g) # gs)
      else [a] # or_groups as)"

definition acl_holds :: "'s \<Rightarrow> 's acl_ptr \<Rightarrow> bool" where
  "acl_holds s a \<longleftrightarrow> snd (acl_match a s) \<noteq> acl_revers a"

definition acl_pure :: "'s \<Rightarrow> 's acl_ptr \<Rightarrow> bool" where
  "acl_pure s a \<longleftrightarrow> fst (acl_match a s) = s"

lemma or_groups_Nil_iff [simp]: "or_groups as = [] \<longleftrightarrow> as = []"
  by (cases as) (auto split: list.splits)

lemma acl_loop_groups:
  "list_all (acl_pure s) as \<Longrightarrow>
   acl_loop as result last_or s =
     (s, if as = [] then result
         else if last_or then
           (if result then (case or_groups as of g # gs \<Rightarrow> list_all (list_ex (acl_holds s)) gs)
            else list_all (list_ex (acl_holds s)) (or_groups as))
         else list_all (list_ex (acl_holds s)) (or_groups as))"
proof (induction as arbitrary: result last_or)
  case (Cons a as)
  obtain m where m: "acl_match a s = (s, m)"
    using Cons.prems by (auto simp: acl_pure_def) (metis prod.collapse)
  have h: "acl_holds s a \<longleftrightarrow> m \<noteq> acl_revers a" by (simp add: acl_holds_def m)
  have pure: "list_all (acl_pure s) as" using Cons.prems by simp
  show ?case
  proof (cases "or_groups as")
    case Nil
    then show ?thesis by (simp add: m h Let_def)
  next
    case (Cons g gs)
    then have ne: "as \<noteq> []" by auto
    have IH: "acl_loop as result' last_or' s =
        (s, if last_or' \<and> result' then list_all (list_ex (acl_holds s)) gs
            else list_ex (acl_holds s) g \<and> list_all (list_ex (acl_holds s)) gs)" for result' last_or'
      using Cons.IH [OF pure] ne Cons by simp
    show ?thesis
      using ne Cons by (simp add: m h Let_def IH)
  qed
qed simp

text \<open>
  A chain whose ACLs only look at the request decides them as a conjunction of
  disjunctions: an ACL flagged \<^verbatim>\<open>OR NEXT\<close> is one alternative with its successors up to the
  first ACL without the flag, \<^verbatim>\<open>NOT\<close> reverses an ACL, and the chain goes on to its marks
  exactly when every group has an alternative that holds. Otherwise nothing is changed, no hit
  is counted and the result is false.
\<close>

theorem chain_match_acl_groups:
  assumes "list_all (acl_pure s) (acls c)"
  shows "chain_match c s fo0 =
    (if list_all (list_ex (acl_holds s)) (or_groups (acls c))
     then map_prod (\<lambda>d. d\<lparr>acls := acls c\<rparr>) id (chain_match (c\<lparr>acls := []\<rparr>) s fo0)
     else (c, s, fo0, REQ_FALSE))"
  using acl_loop_groups [OF assms, of True False]
  by (cases "acls c") (auto simp: chain_match_def split: prod.splits sum.splits)

definition even_acl :: "bool \<Rightarrow> bool \<Rightarrow> nat acl_ptr" where
  "even_acl neg orn = \<lparr>acl_match = (\<lambda>s. (s, even s)), acl_revers = neg, acl_or = orn\<rparr>"

theorem chain_match_acl_groups_witness:
  "list_all (acl_pure 3) (acls (new_chain\<lparr>acls := [even_acl False True, even_acl True False]\<rparr>)) \<and>
   chain_match (new_chain\<lparr>acls := [even_acl False True, even_acl True False]\<rparr>) 3 (None :: unit option) =
     (new_chain\<lparr>hit_count := 1, acls := [even_acl False True, even_acl True False]\<rparr>, 3, None, REQ_TRUE)"
  using chain_match_acl_groups
    [of 3 "new_chain\<lparr>acls := [even_acl False True, even_acl True False]\<rparr>" "None :: unit option"]
  by (simp add: even_acl_def acl_pure_def acl_holds_def new_chain_def chain_match_def)

section \<open>Termination and results of table matching\<close>

text \<open>
  What a chain's jump must be for its jump type; \<open>KAccess::setChainAction\<close> establishes it. A
  closed heap has the target of every table jump.
\<close>

fun jump_ok :: "(nat \<Rightarrow> bool) \<Rightarrow> jump_type \<Rightarrow> jump_ref option \<Rightarrow> bool" where
  "jump_ok present JUMP_TABLE (Some (JTable t)) = present t"
| "jump_ok present JUMP_TABLE None = True"
| "jump_ok present JUMP_TABLE _ = False"
| "jump_ok present JUMP_SERVER (Some (JServer n)) = True"
| "jump_ok present JUMP_SERVER _ = False"
| "jump_ok present JUMP_WBACK (Some (JTable t)) = False"
| "jump_ok present JUMP_WBACK (Some (JServer n)) = False"
| "jump_ok present JUMP_WBACK _ = True"
| "jump_ok present _ _ = True"

definition table_ok :: "(nat \<Rightarrow> bool) \<Rightarrow> ('s, 'f) ktable \<Rightarrow> bool" where
  "table_ok present t \<longleftrightarrow> om_wf (chains t) \<and>
     list_all (\<lambda>(key, vec). list_all (\<lambda>c. jump_ok present (cjump_type c) (cjump c)) vec) (chains t)"

definition tabs_ok :: "(nat \<Rightarrow> ('s, 'f) ktable option) \<Rightarrow> bool" where
  "tabs_ok hp \<longleftrightarrow> (\<forall>tid t. hp tid = Some t \<longrightarrow> table_ok (\<lambda>i. hp i \<noteq> None) t)"

text \<open>The heap without its hit counters.\<close>

definition no_hits :: "('s, 'f) ktable \<Rightarrow> ('s, 'f) ktable" where
  "no_hits t = t\<lparr>chains := map (\<lambda>(key, vec). (key, map (\<lambda>c. c\<lparr>hit_count := 0\<rparr>) vec)) (chains t)\<rparr>"

definition heap_shape :: "(nat \<Rightarrow> ('s, 'f) ktable option) \<Rightarrow> nat \<Rightarrow> ('s, 'f) ktable option" where
  "heap_shape hp i = map_option no_hits (hp i)"

lemma heap_shape_present: "heap_shape hp = heap_shape hp' \<Longrightarrow> hp i = None \<longleftrightarrow> hp' i = None"
  by (auto simp: heap_shape_def fun_eq_iff) (metis option.map_disc_iff)+

lemma table_ok_no_hits: "table_ok P (no_hits t) \<longleftrightarrow> table_ok P t"
proof -
  have "map fst (chains (no_hits t)) = map fst (chains t)" by (auto simp: no_hits_def)
  then have "om_wf (chains (no_hits t)) \<longleftrightarrow> om_wf (chains t)" by (simp add: om_wf_def)
  then show ?thesis
    by (simp add: table_ok_def no_hits_def list_all_length case_prod_unfold)
qed

lemma tabs_ok_shape:
  assumes "heap_shape hp = heap_shape hp'" "tabs_ok hp"
  shows "tabs_ok hp'"
  unfolding tabs_ok_def
proof (intro allI impI)
  fix tid t' assume t': "hp' tid = Some t'"
  then obtain t where t: "hp tid = Some t" and e: "no_hits t = no_hits t'"
    using assms(1) by (auto simp: heap_shape_def fun_eq_iff) (metis map_option_eq_Some)
  have "table_ok (\<lambda>i. hp i \<noteq> None) t" using assms(2) t by (simp add: tabs_ok_def)
  then have "table_ok (\<lambda>i. hp' i \<noteq> None) t"
    using heap_shape_present [OF assms(1)] by simp
  then show "table_ok (\<lambda>i. hp' i \<noteq> None) t'"
    using e table_ok_no_hits by metis
qed

lemma chain_match_chain:
  "chain_match c s f = (c', s', f', r) \<Longrightarrow> c'\<lparr>hit_count := 0\<rparr> = c\<lparr>hit_count := 0\<rparr>"
  by (auto simp: chain_match_def split: prod.splits sum.splits if_splits)

lemma put_chain_shape:
  assumes "c'\<lparr>hit_count := 0\<rparr> = c\<lparr>hit_count := 0\<rparr>" "nth_chain t key i = Some c" "om_wf (chains t)"
  shows "no_hits (put_chain key i c' t) = no_hits t"
proof -
  obtain vec where vec: "om_find (chains t) key = Some vec" "i < length vec" "vec ! i = c"
    using assms(2) by (auto simp: nth_chain_def split: option.splits if_splits)
  have upd: "map (hit_count_update (\<lambda>_. 0)) (vec[i := c']) = map (hit_count_update (\<lambda>_. 0)) vec"
    using vec assms(1) by (metis list_update_id map_update)
  have "map (\<lambda>(k, v). (k, map (hit_count_update (\<lambda>_. 0)) v)) (om_assign key (vec[i := c']) (chains t)) =
        map (\<lambda>(k, v). (k, map (hit_count_update (\<lambda>_. 0)) v)) (chains t)"
    using assms(3) om_find_mem vec(1) upd
    by (fastforce simp: om_assign_def)
  then show ?thesis by (simp add: put_chain_def no_hits_def vec)
qed

definition chain_len :: "(nat \<Rightarrow> ('s, 'f) ktable option) \<Rightarrow> nat \<Rightarrow> file_key \<Rightarrow> nat option" where
  "chain_len hp tid key = Option.bind (hp tid) (\<lambda>t. map_option length (om_find (chains t) key))"

lemma chain_len_shape:
  assumes "heap_shape hp = heap_shape hp'"
  shows "chain_len hp tid key = chain_len hp' tid key"
proof -
  have len: "map_option length (om_find (chains t) key) = map_option length (om_find (chains (no_hits t)) key)"
    for t :: "('a, 'b) ktable"
    by (simp add: no_hits_def om_find_def map_of_map option.map_comp comp_def)
  have "chain_len h tid key = Option.bind (heap_shape h tid) (\<lambda>t. map_option length (om_find (chains t) key))"
    for h :: "nat \<Rightarrow> ('a, 'b) ktable option"
    by (cases "h tid") (simp_all add: chain_len_def heap_shape_def len [symmetric])
  then show ?thesis using assms by simp
qed

text \<open>What a completed part of the search leaves behind; \<open>jo = None\<close> when it goes on.\<close>

definition run_ok :: "('s, 'f) mstate \<Rightarrow> ('s, 'f) mstate \<Rightarrow> jump_type option \<Rightarrow> bool" where
  "run_ok st st' jo \<longleftrightarrow>
     heap_shape (tabs st') = heap_shape (tabs st) \<and>
     unat (checked_table st) \<le> unat (checked_table st') \<and> unat (checked_table st') \<le> 33 \<and>
     (unat (checked_table st') = 33 \<longrightarrow> jo = Some JUMP_DENY) \<and>
     (fo st' = None \<longrightarrow> jo \<noteq> Some JUMP_TABLE \<and> jo \<noteq> Some JUMP_SKIP \<and>
        (\<forall>j. jo = Some j \<longrightarrow> j \<noteq> JUMP_CONTINUE \<longrightarrow> j \<noteq> JUMP_DENY \<longrightarrow> jump_ok (\<lambda>_. True) j (jump st')))"

lemma run_ok_trans:
  "run_ok st st1 None \<Longrightarrow> run_ok st1 st2 jo \<Longrightarrow> run_ok st st2 jo"
  by (auto simp: run_ok_def)

lemma jump_ok_mono: "jump_ok P j r \<Longrightarrow> jump_ok (\<lambda>_. True) j r"
  by (induction P j r rule: jump_ok.induct) auto

lemma unat_ct_inc: "unat (w :: u32) \<le> 32 \<Longrightarrow> unat (w + 1) = Suc (unat w)"
  by (simp add: unat_word_ariths)

lemma nth_chain_ok:
  assumes "tabs_ok hp" "chain_len hp tid key = Some n" "i < n"
  obtains t c where "hp tid = Some t" "nth_chain t key i = Some c" "om_wf (chains t)"
    "jump_ok (\<lambda>i. hp i \<noteq> None) (cjump_type c) (cjump c)"
proof -
  obtain t vec where t: "hp tid = Some t" and vec: "om_find (chains t) key = Some vec" "length vec = n"
    using assms(2) by (auto simp: chain_len_def bind_eq_Some_conv)
  have ok: "table_ok (\<lambda>i. hp i \<noteq> None) t" using assms(1) t by (simp add: tabs_ok_def)
  have "(key, vec) \<in> set (chains t)" by (rule om_find_Some_mem [OF vec(1)])
  then have "jump_ok (\<lambda>i. hp i \<noteq> None) (cjump_type (vec ! i)) (cjump (vec ! i))"
    using ok vec assms(3) by (fastforce simp: table_ok_def list_all_iff)
  then show ?thesis
    using that [of t "vec ! i"] t vec assms(3) ok by (simp add: nth_chain_def table_ok_def)
qed

text \<open>The \<^verbatim>\<open>switch\<close> of the loop, after a chain has matched.\<close>

definition take_chain_jump ::
  "(nat \<Rightarrow> ('s, 'f) mstate \<Rightarrow> (('s, 'f) mstate \<times> jump_type) option) \<Rightarrow>
   nat \<Rightarrow> file_key \<Rightarrow> nat \<Rightarrow> nat \<Rightarrow> ('s, 'f) chain \<Rightarrow> ('s, 'f) mstate \<Rightarrow> (('s, 'f) mstate \<times> jump_type option) option" where
  "take_chain_jump rec tid key n i c st1 =
     (if cjump_type c = JUMP_CONTINUE then vec_loop rec tid key n (Suc i) st1
      else if cjump_type c = JUMP_SKIP
      then vec_loop rec tid key n (Suc (if int i < skip_to c then nat (skip_to c) else i)) st1
      else if cjump_type c = JUMP_TABLE then
        (case cjump c of
           Some (JTable t) \<Rightarrow>
             (let st2 = st1\<lparr>checked_table := checked_table st1 + 1\<rparr> in
              if 32 < checked_table st2 then Some (st2, Some JUMP_DENY)
              else
                (case rec t st2 of
                   None \<Rightarrow> None
                 | Some (st3, j) \<Rightarrow>
                     if j \<noteq> JUMP_CONTINUE then Some (st3, Some j)
                     else vec_loop rec tid key n (Suc i) st3))
         | None \<Rightarrow> Some (st1, Some JUMP_DENY)
         | _ \<Rightarrow> None)
      else Some (st1\<lparr>jump := cjump c\<rparr>, Some (cjump_type c)))"

text \<open>With \<open>fuel\<close> levels left, the call \<open>rec\<close> returns.\<close>

definition runs :: "nat \<Rightarrow> (nat \<Rightarrow> ('s, 'f) mstate \<Rightarrow> (('s, 'f) mstate \<times> jump_type) option) \<Rightarrow> bool" where
  "runs fuel rec \<longleftrightarrow> (\<forall>t st. tabs_ok (tabs st) \<longrightarrow> tabs st t \<noteq> None \<longrightarrow> unat (checked_table st) \<le> 32 \<longrightarrow>
      33 \<le> fuel + unat (checked_table st) \<longrightarrow> (\<exists>st' j. rec t st = Some (st', j) \<and> run_ok st st' (Some j)))"

lemma take_chain_jump_runs:
  fixes rec :: "nat \<Rightarrow> ('s, 'f) mstate \<Rightarrow> (('s, 'f) mstate \<times> jump_type) option"
  assumes rec: "runs fuel rec"
    and again: "\<And>st2 k. run_ok st1 st2 None \<Longrightarrow> i \<le> k \<Longrightarrow>
      \<exists>st' jo. vec_loop rec tid key n (Suc k) st2 = Some (st', jo) \<and> run_ok st1 st' jo"
    and jok: "jump_ok (\<lambda>i. tabs st1 i \<noteq> None) (cjump_type c) (cjump c)"
    and ok: "tabs_ok (tabs st1)" and ct: "unat (checked_table st1) \<le> 32" "33 \<le> Suc fuel + unat (checked_table st1)"
  shows "\<exists>st' jo. take_chain_jump rec tid key n i c st1 = Some (st', jo) \<and> run_ok st1 st' jo"
proof (cases "\<exists>t'. cjump_type c = JUMP_TABLE \<and> cjump c = Some (JTable t')")
  case True
  then obtain t' where t': "cjump_type c = JUMP_TABLE" "cjump c = Some (JTable t')" by auto
  define st2 where "st2 = st1\<lparr>checked_table := checked_table st1 + 1\<rparr>"
  have c2: "unat (checked_table st2) = Suc (unat (checked_table st1))"
    using unat_ct_inc ct(1) by (simp add: st2_def)
  have big: "32 < checked_table st2 \<longleftrightarrow> 32 < unat (checked_table st2)"
    by (simp add: word_less_nat_alt)
  have sh2: "tabs st2 = tabs st1" by (simp add: st2_def)
  show ?thesis
  proof (cases "32 < unat (checked_table st2)")
    case deny: True
    then have "run_ok st1 st2 (Some JUMP_DENY)"
      using c2 sh2 ct(1) by (auto simp: run_ok_def)
    then show ?thesis using t' deny big
      by (simp add: take_chain_jump_def st2_def [symmetric] Let_def)
  next
    case nested: False
    then obtain st3 j where r: "rec t' st2 = Some (st3, j)" and ok3: "run_ok st2 st3 (Some j)"
      using rec [unfolded runs_def, rule_format, of st2 t'] c2 ct(2) ok sh2 jok t' by auto
    have "run_ok st1 st3 (Some j)" "j = JUMP_CONTINUE \<Longrightarrow> run_ok st1 st3 None"
      using ok3 sh2 c2 by (auto simp: run_ok_def)
    then show ?thesis using t' nested big r again [of st3 i]
      by (simp add: take_chain_jump_def st2_def [symmetric] Let_def)
  qed
next
  case other: False
  have self: "run_ok st1 st1 None" "run_ok st1 st1 (Some JUMP_DENY)" using ct(1) by (simp_all add: run_ok_def)
  have none: "cjump c = None" if "cjump_type c = JUMP_TABLE"
    using that other jok by (cases "cjump c" rule: option.exhaust; cases "the (cjump c)") auto
  have "run_ok st1 (st1\<lparr>jump := cjump c\<rparr>) (Some (cjump_type c))"
    if "cjump_type c \<noteq> JUMP_CONTINUE" "cjump_type c \<noteq> JUMP_SKIP" "cjump_type c \<noteq> JUMP_TABLE"
    using that ct(1) jump_ok_mono [OF jok] by (auto simp: run_ok_def)
  then show ?thesis
    using none self(2) again [OF self(1), of i] again [OF self(1), of "nat (skip_to c)"]
    by (auto simp: take_chain_jump_def)
qed

lemma vec_loop_step:
  assumes "\<not> n \<le> i" "tabs st tid = Some t" "nth_chain t key i = Some c"
    and "chain_match c (req st) (fo st) = (c', s', f', r)"
    and "st1 = st\<lparr>req := s', fo := f', tabs := (tabs st)(tid \<mapsto> put_chain key i c' t)\<rparr>"
  shows "vec_loop rec tid key n i st =
      (if r AND REQ_DEFERRED \<noteq> 0 \<or> f' = None \<and> r = 0 then vec_loop rec tid key n (Suc i) st1
       else if f' \<noteq> None then Some (st1, Some (cjump_type c))
       else if r AND REQ_FINISHED \<noteq> 0 then Some (st1, Some JUMP_DENY)
       else take_chain_jump rec tid key n i c st1)"
  using assms
  by (cases "cjump_type c") (auto simp: vec_loop.simps [of rec tid key n i st] take_chain_jump_def Let_def)

lemma vec_loop_runs:
  fixes rec :: "nat \<Rightarrow> ('s, 'f) mstate \<Rightarrow> (('s, 'f) mstate \<times> jump_type) option"
  assumes rec: "runs fuel rec"
  shows "tabs_ok (tabs st) \<Longrightarrow> chain_len (tabs st) tid key = Some n \<Longrightarrow> unat (checked_table st) \<le> 32 \<Longrightarrow>
      33 \<le> Suc fuel + unat (checked_table st) \<Longrightarrow>
      \<exists>st' jo. vec_loop rec tid key n i st = Some (st', jo) \<and> run_ok st st' jo"
proof (induction "n - i" arbitrary: i st rule: less_induct)
  case less
  show ?case
  proof (cases "n \<le> i")
    case True
    then show ?thesis using less.prems by (simp add: vec_loop.simps [of rec tid key n i st] run_ok_def)
  next
    case False
    then obtain t c where t: "tabs st tid = Some t" and c: "nth_chain t key i = Some c"
      and wf: "om_wf (chains t)" and jok: "jump_ok (\<lambda>i. tabs st i \<noteq> None) (cjump_type c) (cjump c)"
      using nth_chain_ok less.prems by (metis not_le_imp_less)
    obtain c' s' f' r where m: "chain_match c (req st) (fo st) = (c', s', f', r)"
      by (metis prod_cases4)
    define st1 where "st1 = st\<lparr>req := s', fo := f', tabs := (tabs st)(tid \<mapsto> put_chain key i c' t)\<rparr>"
    have sh: "heap_shape (tabs st1) = heap_shape (tabs st)"
      using put_chain_shape [OF chain_match_chain [OF m] c wf]
      by (auto simp: heap_shape_def st1_def t fun_eq_iff)
    have st1: "checked_table st1 = checked_table st" "fo st1 = f'" "tabs_ok (tabs st1)"
      using tabs_ok_shape [OF sh [symmetric] less.prems(1)] by (simp_all add: st1_def)
    have again: "\<exists>st' jo. vec_loop rec tid key n (Suc k) st2 = Some (st', jo) \<and> run_ok st1 st' jo"
      if st2: "run_ok st1 st2 None" and k: "i \<le> k" for st2 k
    proof -
      have sh2: "heap_shape (tabs st2) = heap_shape (tabs st)"
        and c2: "unat (checked_table st) \<le> unat (checked_table st2)" "unat (checked_table st2) \<le> 32"
        using st2 sh st1 by (auto simp: run_ok_def)
      have "\<exists>st' jo. vec_loop rec tid key n (Suc k) st2 = Some (st', jo) \<and> run_ok st2 st' jo"
        using less.hyps [of "Suc k" st2] False k tabs_ok_shape [OF sh2 [symmetric] less.prems(1)]
          chain_len_shape [OF sh2] c2 less.prems by simp
      then show ?thesis using run_ok_trans [OF st2] by blast
    qed
    have jok1: "jump_ok (\<lambda>i. tabs st1 i \<noteq> None) (cjump_type c) (cjump c)"
      using jok heap_shape_present [OF sh] by simp
    have here: "run_ok st st1 None" "run_ok st1 st1 None" "f' \<noteq> None \<or> j = JUMP_DENY \<Longrightarrow> run_ok st st1 (Some j)" for j
      using sh st1 less.prems(3) by (auto simp: run_ok_def)
    show ?thesis
      using again [OF here(2), of i] here(3) run_ok_trans [OF here(1)]
        take_chain_jump_runs [OF rec again jok1 st1(3)] less.prems st1
        vec_loop_step [OF False t c m st1_def, of rec]
      by (smt (verit) le_refl)
  qed
qed

lemma files_loop_runs:
  fixes rec :: "nat \<Rightarrow> ('s, 'f) mstate \<Rightarrow> (('s, 'f) mstate \<times> jump_type) option"
  assumes rec: "runs fuel rec"
  shows "tabs_ok (tabs st) \<Longrightarrow> \<forall>(key, n) \<in> set keys. chain_len (tabs st) tid key = Some n \<Longrightarrow>
      unat (checked_table st) \<le> 32 \<Longrightarrow> 33 \<le> Suc fuel + unat (checked_table st) \<Longrightarrow>
      \<exists>st' j. files_loop rec tid keys st = Some (st', j) \<and> run_ok st st' (Some j)"
proof (induction keys arbitrary: st)
  case Nil
  then show ?case by (simp add: run_ok_def)
next
  case (Cons kn keys)
  obtain key n where kn: "kn = (key, n)" by (cases kn)
  have len: "chain_len (tabs st) tid key = Some n" using Cons.prems(2) kn by simp
  obtain st1 jo where v: "vec_loop rec tid key n 0 st = Some (st1, jo)" and ok: "run_ok st st1 jo"
    using vec_loop_runs [OF rec Cons.prems(1) len Cons.prems(3,4)] by blast
  show ?case
  proof (cases jo)
    case (Some j)
    then show ?thesis using v ok kn by simp
  next
    case None
    have sh: "heap_shape (tabs st1) = heap_shape (tabs st)" using ok by (simp add: run_ok_def)
    have "tabs_ok (tabs st1)" using tabs_ok_shape sh Cons.prems(1) by metis
    moreover have "\<forall>(key, n) \<in> set keys. chain_len (tabs st1) tid key = Some n"
      using Cons.prems(2) chain_len_shape [OF sh] by simp
    moreover have "unat (checked_table st1) \<le> 32" "33 \<le> Suc fuel + unat (checked_table st1)"
      using ok None Cons.prems(4) by (auto simp: run_ok_def)
    ultimately obtain st2 j where "files_loop rec tid keys st1 = Some (st2, j)" "run_ok st1 st2 (Some j)"
      using Cons.IH by blast
    then show ?thesis using v kn None ok run_ok_trans by fastforce
  qed
qed

lemma table_match_runs_fuel: "runs fuel (table_match fuel :: nat \<Rightarrow> ('s, 'f) mstate \<Rightarrow> _)"
proof (induction fuel)
  case (Suc fuel)
  show ?case
    unfolding runs_def
  proof (intro allI impI)
    fix tid :: nat and st :: "('s, 'f) mstate"
    assume *: "tabs_ok (tabs st)" "tabs st tid \<noteq> None" "unat (checked_table st) \<le> 32"
      "33 \<le> Suc fuel + unat (checked_table st)"
    obtain t where t: "tabs st tid = Some t" using *(2) by auto
    then have "om_wf (chains t)" using *(1) by (simp add: tabs_ok_def table_ok_def)
    then have "\<forall>(key, n) \<in> set (map (\<lambda>(key, vec). (key, length vec)) (chains t)). chain_len (tabs st) tid key = Some n"
      using om_find_mem by (fastforce simp: chain_len_def t)
    then show "\<exists>st' j. table_match (Suc fuel) tid st = Some (st', j) \<and> run_ok st st' (Some j)"
      using files_loop_runs [OF Suc.IH *(1) _ *(3,4)] t by simp
  qed
qed (simp add: runs_def)

lemmas table_match_runs = table_match_runs_fuel [unfolded runs_def, rule_format]


definition self_jump :: "(nat, nat) ktable" where
  "self_jump = \<lparr>tname = ''BEGIN'',
     chains = [((0, ''main''), [new_chain\<lparr>cjump_type := JUMP_TABLE, cjump := Some (JTable 0)\<rparr>])]\<rparr>"

definition self_jump_state :: "(nat, nat) mstate" where
  "self_jump_state = \<lparr>req = 0, fo = None, checked_table = 0, jump = None, tabs = [0 \<mapsto> self_jump]\<rparr>"

lemma self_jump_ok: "tabs_ok (tabs self_jump_state)" "tabs self_jump_state 0 \<noteq> None" "checked_table self_jump_state = 0"
  by (auto simp: self_jump_state_def self_jump_def tabs_ok_def table_ok_def new_chain_def split: if_splits)


lemma take_jump_decides:
  assumes "j \<noteq> JUMP_DENY \<longrightarrow> jump_ok (\<lambda>_. True) j jr" "j \<notin> {JUMP_CONTINUE, JUMP_RETURN, JUMP_SKIP, JUMP_TABLE}"
  shows "\<exists>st' j'. take_jump ops j jr st = Some (st', j') \<and>
     j' \<notin> {JUMP_CONTINUE, JUMP_RETURN, JUMP_SKIP, JUMP_TABLE, JUMP_SERVER, JUMP_WBACK, JUMP_PROXY}"
  using assms by (cases j; cases jr; cases "the jr") (auto simp: take_jump_def split: prod.splits)


definition deny_all :: "(nat, nat) kaccess" where
  "deny_all = \<lparr>is_response = False, global_flag = True, default_jump_type = JUMP_ALLOW, default_jump = None,
     begin_tab = Some 0, post_map = None, tables = [(''BEGIN'', 0)]\<rparr>"

definition no_sources :: "(nat, nat) source_ops" where
  "no_sources = \<lparr>make_server = (\<lambda>n s. (s, 0)), make_wback = (\<lambda>n s f. (s, f)), make_proxy = (\<lambda>s. (s, 0)),
     before_cache = (\<lambda>f. False)\<rparr>"


section \<open>Configuration changes\<close>

lemma insert_loop_eq:
  "index + old_count \<le> length vec \<Longrightarrow>
   insert_loop parse old_count index n vec =
     Some (take (index + old_count) vec @ map parse [index..<index + n] @ drop (index + old_count) vec)"
proof (induction n arbitrary: index vec)
  case (Suc n)
  let ?k = "index + old_count"
  let ?vec = "take ?k vec @ parse index # drop ?k vec"
  have len: "Suc index + old_count \<le> length ?vec" using Suc.prems by simp
  have "take (Suc ?k) ?vec = take ?k vec @ [parse index]" "drop (Suc ?k) ?vec = drop ?k vec"
    using Suc.prems by simp_all
  moreover have "[index..<index + Suc n] = index # [Suc index..<Suc index + n]"
    by (simp add: upt_conv_Cons del: upt_Suc)
  ultimately show ?case using Suc.IH [OF len] Suc.prems by (simp del: upt_Suc)
qed simp

lemma erase_loop_eq:
  "from + n \<le> length vec \<Longrightarrow> erase_loop from n vec = Some (take from vec @ drop (from + n) vec)"
proof (induction n arbitrary: vec)
  case (Suc n)
  let ?vec = "take from vec @ drop (Suc from) vec"
  have "from + n \<le> length ?vec" using Suc.prems by simp
  then have "erase_loop from n ?vec = Some (take from ?vec @ drop (from + n) ?vec)" by (rule Suc.IH)
  then show ?case using Suc.prems by (simp add: add.commute)
qed simp

text \<open>
  A configuration event that reports the chains \<open>from .. old_to - 1\<close> of a file as replaced
  by the bodies \<open>from .. new_to - 1\<close> of the new document replaces exactly these chains: what
  stood before \<open>from\<close> and from \<open>old_to\<close> on stays in place and in order. No insertion and no
  erasure leaves the vector.
\<close>

theorem on_file_event_replaces:
  assumes "from \<le> old_to" and "old_to \<le> length vec" and "from \<le> new_to"
  shows "on_file_event parse from old_to new_to vec =
    Some (take from vec @ map parse [from..<new_to] @ drop old_to vec)"
  using assms by (simp add: on_file_event_def insert_loop_eq erase_loop_eq)

theorem on_file_event_replaces_witness:
  "on_file_event (\<lambda>i. 100 + i) 1 3 4 [0, 1, 2, 3, 4 :: nat] = Some [0, 101, 102, 103, 3, 4]"
  using on_file_event_replaces [of 1 3 "[0, 1, 2, 3, 4 :: nat]" 4 "\<lambda>i. 100 + i"]
  by (simp add: upt_rec)

section \<open>Actions and names\<close>

lemma to_lower_letters:
  "to_lower CHR ''a'' = CHR ''a''" "to_lower CHR ''b'' = CHR ''b''" "to_lower CHR ''c'' = CHR ''c''"
  "to_lower CHR ''d'' = CHR ''d''" "to_lower CHR ''e'' = CHR ''e''" "to_lower CHR ''f'' = CHR ''f''"
  "to_lower CHR ''h'' = CHR ''h''" "to_lower CHR ''i'' = CHR ''i''" "to_lower CHR ''k'' = CHR ''k''"
  "to_lower CHR ''l'' = CHR ''l''" "to_lower CHR ''n'' = CHR ''n''" "to_lower CHR ''o'' = CHR ''o''"
  "to_lower CHR ''p'' = CHR ''p''" "to_lower CHR ''r'' = CHR ''r''" "to_lower CHR ''s'' = CHR ''s''"
  "to_lower CHR ''t'' = CHR ''t''" "to_lower CHR ''u'' = CHR ''u''" "to_lower CHR ''v'' = CHR ''v''"
  "to_lower CHR ''w'' = CHR ''w''" "to_lower CHR ''x'' = CHR ''x''" "to_lower CHR ''y'' = CHR ''y''"
  "to_lower CHR '':'' = CHR '':''"
  by (simp_all add: to_lower_def char_code_def)

text \<open>
  The text of an action reads back as the action: for every action without a target, and for
  a server, write back or table jump to a target with a name, parsing what
  \<^verbatim>\<open>buildChainAction\<close> wrote gives the jump type and the target's name again.
\<close>

theorem chain_action_roundtrip:
  assumes "nm = [] \<and> jt \<in> {JUMP_DROP, JUMP_DENY, JUMP_ALLOW, JUMP_CONTINUE, JUMP_RETURN, JUMP_PROXY} \<or>
    nm \<noteq> [] \<and> jt \<in> {JUMP_SERVER, JUMP_WBACK, JUMP_TABLE}"
  shows "parseChainAction g (buildChainAction jt (if nm = [] then None else Some nm)) = Some (jt, nm)"
  using assms
  by (elim disjE conjE insertE emptyE)
    (simp_all add: parseChainAction_def buildChainAction_def strcase_eq_def strncase_prefix_def to_lower_letters)

theorem chain_action_roundtrip_witness:
  "parseChainAction False (buildChainAction JUMP_SERVER (Some ''php'')) = Some (JUMP_SERVER, ''php'')"
  using chain_action_roundtrip [of "''php''" JUMP_SERVER False] by simp

lemma chain_positions_iff:
  assumes "om_wf (chains t)"
  shows "((key, i), c) \<in> set (chain_positions t) \<longleftrightarrow> nth_chain t key i = Some c"
proof
  assume "((key, i), c) \<in> set (chain_positions t)"
  then obtain vec where "(key, vec) \<in> set (chains t)" "i < length vec" "c = vec ! i"
    by (auto simp: chain_positions_def)
  then show "nth_chain t key i = Some c" using om_find_mem [OF assms] by (simp add: nth_chain_def)
next
  assume "nth_chain t key i = Some c"
  then obtain vec where "om_find (chains t) key = Some vec" "i < length vec" "c = vec ! i"
    by (auto simp: nth_chain_def split: option.splits if_splits)
  moreover from this have "(key, vec) \<in> set (chains t)" by (simp add: om_find_Some_mem)
  ultimately show "((key, i), c) \<in> set (chain_positions t)"
    unfolding chain_positions_def set_concat set_map
    by (intro UN_I [of "map (\<lambda>i. ((key, i), vec ! i)) [0..<length vec]"]) auto
qed

lemma nth_chain_put_chain:
  assumes "nth_chain t key i = Some c" "om_wf (chains t)"
  shows "nth_chain (put_chain key i c' t) k j = (if k = key \<and> j = i then Some c' else nth_chain t k j)"
  using assms
  by (auto simp: nth_chain_def put_chain_def om.find_assign nth_list_update split: option.splits if_splits)

lemma put_chain_wf: "om_wf (chains t) \<Longrightarrow> om_wf (chains (put_chain key i c t))"
  by (simp add: put_chain_def om.wf_assign split: option.split)

definition names_unique :: "('s, 'f) ktable \<Rightarrow> bool" where
  "names_unique t \<longleftrightarrow> (\<forall>k i k' i' c d. nth_chain t k i = Some c \<longrightarrow> nth_chain t k' i' = Some d \<longrightarrow>
     cname c = cname d \<longrightarrow> cname c \<noteq> [] \<longrightarrow> (k, i) = (k', i'))"

lemma prepare_chain_name_accepts:
  assumes "prepare_chain_name a hp table_name file index i given nm = (nm', True)"
    and "om_find (tables a) table_name = Some tid" and "hp tid = Some t" and "om_wf (chains t)"
  obtains c where "nth_chain t (index, file) i = Some c"
    and "\<And>k j d. nth_chain t k j = Some d \<Longrightarrow> nm' \<noteq> [] \<Longrightarrow> (k, j) \<noteq> ((index, file), i) \<Longrightarrow> cname d \<noteq> nm'"
proof -
  obtain c where c: "find_chain t file index i = Some c"
    and all: "nm' \<noteq> [] \<Longrightarrow> list_all (\<lambda>(pos, c). pos = ((index, file), i) \<or> cname c \<noteq> nm') (chain_positions t)"
    using assms(1-3) by (auto simp: prepare_chain_name_def Let_def split: option.splits if_splits)
  have "nth_chain t (index, file) i = Some c"
    using c by (auto simp: find_chain_def nth_chain_def split: option.splits if_splits)
  moreover have "cname d \<noteq> nm'"
    if "nth_chain t k j = Some d" "nm' \<noteq> []" "(k, j) \<noteq> ((index, file), i)" for k j d
    using all [OF that(2)] that(1,3) chain_positions_iff [OF assms(4), of k j d]
    by (auto simp: list_all_iff)
  ultimately show ?thesis using that by blast
qed

text \<open>
  A rule that is given the name \<^verbatim>\<open>prepare_chain_name\<close> accepted keeps the names of its table
  unambiguous: if no two rules share a name before, none do afterwards, and looking the name up
  finds the rule that was edited.
\<close>

theorem prepare_chain_name_unique:
  assumes "prepare_chain_name a hp table_name file index i given nm = (nm', True)"
    and "om_find (tables a) table_name = Some tid" and "hp tid = Some t" and "om_wf (chains t)"
    and "names_unique t" and "find_chain t file index i = Some c"
  shows "names_unique (put_chain (index, file) i (c\<lparr>cname := nm'\<rparr>) t) \<and>
    (nm' \<noteq> [] \<longrightarrow>
       find_chain_location a (hp(tid \<mapsto> put_chain (index, file) i (c\<lparr>cname := nm'\<rparr>) t)) table_name (Some nm') =
         Some ((index, file), i))"
proof -
  let ?t = "put_chain (index, file) i (c\<lparr>cname := nm'\<rparr>) t"
  obtain c0 where c0: "nth_chain t (index, file) i = Some c0"
    and other: "\<And>k j d. nth_chain t k j = Some d \<Longrightarrow> nm' \<noteq> [] \<Longrightarrow> (k, j) \<noteq> ((index, file), i) \<Longrightarrow> cname d \<noteq> nm'"
    using prepare_chain_name_accepts [OF assms(1-4)] by blast
  note put = nth_chain_put_chain [OF c0 assms(4)]
  have uniq: "names_unique ?t"
    using assms(5) other unfolding names_unique_def put
    by (auto split: if_splits) blast+
  have "find_chain_location a (hp(tid \<mapsto> ?t)) table_name (Some nm') = Some ((index, file), i)" if ne: "nm' \<noteq> []"
  proof -
    have mem: "(((index, file), i), c\<lparr>cname := nm'\<rparr>) \<in> set (chain_positions ?t)"
      by (simp add: chain_positions_iff put_chain_wf assms(4) put)
    have only: "pos = ((index, file), i)" if "(pos, d) \<in> set (chain_positions ?t)" "cname d = nm'" for pos d
      using that other ne by (cases pos) (auto simp: chain_positions_iff put_chain_wf assms(4) put split: if_splits)
    have "find (\<lambda>(pos, c). cname c = nm') (chain_positions ?t) \<noteq> None"
      unfolding find_None_iff not_not
      by (rule exI [of _ "(((index, file), i), c\<lparr>cname := nm'\<rparr>)"]) (simp add: mem)
    then obtain pd where pd: "find (\<lambda>(pos, c). cname c = nm') (chain_positions ?t) = Some pd"
      by blast
    then have "pd \<in> set (chain_positions ?t)" "cname (snd pd) = nm'"
      unfolding find_Some_iff case_prod_unfold by (metis nth_mem)+
    then have "fst pd = ((index, file), i)" using only [of "fst pd" "snd pd"] by simp
    then show ?thesis using pd assms(2)
      by (simp add: find_chain_location_def eq_commute [of nm'])
  qed
  with uniq show ?thesis by blast
qed

definition one_rule :: "(nat, nat) ktable" where
  "one_rule = \<lparr>tname = ''BEGIN'', chains = [((0, ''main''), [new_chain, new_chain\<lparr>cname := ''b''\<rparr>])]\<rparr>"

lemma one_rule_chains:
  "nth_chain one_rule k i =
     (if k = (0, ''main'') \<and> i = 0 then Some new_chain
      else if k = (0, ''main'') \<and> i = 1 then Some (new_chain\<lparr>cname := ''b''\<rparr>) else None)"
  by (auto simp: nth_chain_def one_rule_def less_Suc_eq)

theorem prepare_chain_name_unique_witness:
  "names_unique (put_chain (0, ''main'') 0 (new_chain\<lparr>cname := ''a''\<rparr>) one_rule) \<and>
   find_chain_location deny_all [0 \<mapsto> put_chain (0, ''main'') 0 (new_chain\<lparr>cname := ''a''\<rparr>) one_rule]
     ''BEGIN'' (Some ''a'') = Some ((0, ''main''), 0)"
proof -
  have "prepare_chain_name deny_all [0 \<mapsto> one_rule] ''BEGIN'' ''main'' 0 0 True ''a'' = (''a'', True)"
    "om_find (tables deny_all) ''BEGIN'' = Some 0" "[0 \<mapsto> one_rule] 0 = Some one_rule"
    "om_wf (chains one_rule)" "find_chain one_rule ''main'' 0 0 = Some new_chain"
    by (simp_all add: deny_all_def prepare_chain_name_def find_chain_def one_rule_def new_chain_def
        chain_positions_def)
  moreover have "names_unique one_rule"
    by (auto simp: names_unique_def one_rule_chains new_chain_def split: if_splits)
  ultimately show ?thesis
    using prepare_chain_name_unique [of deny_all "[0 \<mapsto> one_rule]" "''BEGIN''" "''main''" 0 0 True "''a''" "''a''" 0
        one_rule new_chain] by simp
qed

end
