(* ===== verification/Byte_Stream.thy ===== *)
theory Byte_Stream
  imports Kgl_Prelude
begin

text \<open>
  Byte streams and the byte order of the network. The protocol writers and readers of the sources
  are templates over a client class or call a virtual \<^verbatim>\<open>KWStream\<close>; its implementations are
  code of other modules, so they are the record \<open>client_ops\<close> here, and what the protocol code
  relies on is the locale \<open>byte_client\<close>: a successful \<^verbatim>\<open>write_all\<close> sends all bytes, a
  \<^verbatim>\<open>read_all\<close> of bytes that have arrived delivers them in order, and one of more bytes than
  will ever arrive fails. \<open>pipe_ops\<close> is an implementation over two byte lists with a limit
  after which writing fails.
\<close>

unbundle bit_operations_syntax

section \<open>Network byte order\<close>

definition be16 :: "u16 \<Rightarrow> u8 list" where
  "be16 w = [ucast (drop_bit 8 w), ucast w]"

definition be32 :: "u32 \<Rightarrow> u8 list" where
  "be32 w = [ucast (drop_bit 24 w), ucast (drop_bit 16 w), ucast (drop_bit 8 w), ucast w]"

definition of_be16 :: "u8 \<Rightarrow> u8 \<Rightarrow> u16" where
  "of_be16 a b = push_bit 8 (ucast a) OR ucast b"

definition of_be32 :: "u8 \<Rightarrow> u8 \<Rightarrow> u8 \<Rightarrow> u8 \<Rightarrow> u32" where
  "of_be32 a b c d = push_bit 24 (ucast a) OR push_bit 16 (ucast b) OR push_bit 8 (ucast c) OR ucast d"

lemma length_be [simp]: "length (be16 w) = 2" "length (be32 v) = 4"
  by (simp_all add: be16_def be32_def)

lemma of_be16_be16: "of_be16 (ucast (drop_bit 8 w)) (ucast w) = w"
  unfolding of_be16_def
  by (rule bit_word_eqI) (auto simp: bit_simps)

lemma of_be32_be32:
  "of_be32 (ucast (drop_bit 24 w)) (ucast (drop_bit 16 w)) (ucast (drop_bit 8 w)) (ucast w) = w"
  unfolding of_be32_def
  apply (rule bit_word_eqI)
  subgoal for n by (cases "n < 8"; cases "n < 16"; cases "n < 24") (auto simp: bit_simps)
  done

section \<open>Clients\<close>

record 'c client_ops =
  write_all :: "u8 list \<Rightarrow> 'c \<Rightarrow> 'c \<times> bool"
  read_all :: "nat \<Rightarrow> 'c \<Rightarrow> 'c \<times> u8 list option"

locale byte_client =
  fixes ops :: "'c client_ops"
    and sent :: "'c \<Rightarrow> u8 list"
    and pending :: "'c \<Rightarrow> u8 list"
  assumes write_ok: "write_all ops bs c = (c', True) \<Longrightarrow> sent c' = sent c @ bs \<and> pending c' = pending c"
    and read_ok: "n \<le> length (pending c) \<Longrightarrow>
      \<exists>c'. read_all ops n c = (c', Some (take n (pending c))) \<and> pending c' = drop n (pending c) \<and> sent c' = sent c"
    and read_short: "length (pending c) < n \<Longrightarrow> snd (read_all ops n c) = None"
begin

lemma read_append:
  assumes "pending c = bs @ r" "n = length bs"
  obtains c' where "read_all ops n c = (c', Some bs)" "pending c' = r" "sent c' = sent c"
  using read_ok [of n c] assms by auto

lemma read_cases:
  "(\<exists>c'. read_all ops n c = (c', Some (take n (pending c))) \<and> pending c' = drop n (pending c) \<and>
      sent c' = sent c \<and> n \<le> length (pending c)) \<or>
   (\<exists>c'. read_all ops n c = (c', None) \<and> length (pending c) < n)"
  using read_ok [of n c] read_short [of c n]
  by (cases "n \<le> length (pending c)") (auto, metis prod.collapse not_le_imp_less)

end

record pipe =
  incoming :: "u8 list"
  outgoing :: "u8 list"
  room :: nat

definition pipe_write :: "u8 list \<Rightarrow> pipe \<Rightarrow> pipe \<times> bool" where
  "pipe_write bs p =
     (if length bs \<le> room p then (p\<lparr>outgoing := outgoing p @ bs, room := room p - length bs\<rparr>, True)
      else (p\<lparr>outgoing := outgoing p @ take (room p) bs, room := 0\<rparr>, False))"

definition pipe_read :: "nat \<Rightarrow> pipe \<Rightarrow> pipe \<times> u8 list option" where
  "pipe_read n p =
     (if n \<le> length (incoming p) then (p\<lparr>incoming := drop n (incoming p)\<rparr>, Some (take n (incoming p)))
      else (p\<lparr>incoming := []\<rparr>, None))"

definition pipe_ops :: "pipe client_ops" where
  "pipe_ops = \<lparr>write_all = pipe_write, read_all = pipe_read\<rparr>"

interpretation pipe: byte_client pipe_ops outgoing incoming
  by unfold_locales (auto simp: pipe_ops_def pipe_write_def pipe_read_def split: if_splits)

end
