(* ===== verification/Fastcgi_Stream.thy ===== *)
theory Fastcgi_Stream
  imports Byte_Stream
begin

text \<open>
  The FastCGI stream of \<^verbatim>\<open>include/KFastcgiUtils.h\<close> with the start records of
  \<^verbatim>\<open>src/KFastcgiUtils.cpp\<close> and the header variables of \<^verbatim>\<open>src/KEnvInterface.cpp\<close>:
  environment variables are encoded as name-value pairs and sent in \<^verbatim>\<open>FCGI_PARAMS\<close> records,
  a body is cut into records, and the reader puts both together again. The client class of the
  template and the receiver of the variables are parameters.
\<close>

unbundle bit_operations_syntax

section \<open>Records\<close>

definition FCGI_BEGIN_REQUEST :: u8 where "FCGI_BEGIN_REQUEST = 1"
definition FCGI_ABORT_REQUEST :: u8 where "FCGI_ABORT_REQUEST = 2"
definition FCGI_END_REQUEST :: u8 where "FCGI_END_REQUEST = 3"
definition FCGI_PARAMS :: u8 where "FCGI_PARAMS = 4"
definition FCGI_STDIN :: u8 where "FCGI_STDIN = 5"
definition FCGI_STDOUT :: u8 where "FCGI_STDOUT = 6"

lemmas fcgi_type_defs = FCGI_BEGIN_REQUEST_def FCGI_ABORT_REQUEST_def FCGI_END_REQUEST_def
  FCGI_PARAMS_def FCGI_STDIN_def FCGI_STDOUT_def

record 'c fcgi =
  client :: 'c
  buff :: "u8 list"
  data_type :: u8
  data_empty_length :: bool
  extended :: bool
  readBuf :: "u8 list option"
  readLeft :: int

definition new_fcgi :: "'c \<Rightarrow> u8 \<Rightarrow> bool \<Rightarrow> 'c fcgi" where
  "new_fcgi c ty ext =
     \<lparr>client = c, buff = [], data_type = ty, data_empty_length = False, extended = ext, readBuf = None, readLeft = 0\<rparr>"

text \<open>The bytes of \<^verbatim>\<open>FCGI_Header\<close>: version, type, request id, content length, padding, reserved.\<close>

definition header_bytes :: "u8 \<Rightarrow> u16 \<Rightarrow> u8 list" where
  "header_bytes ty len = [1, ty, 0, 1] @ be16 len @ [0, 0]"

definition start_record :: "bool \<Rightarrow> u8 list" where
  "start_record keepAlive = header_bytes FCGI_BEGIN_REQUEST 8 @ [0, 1, if keepAlive then 1 else 0, 0, 0, 0, 0, 0]"

definition client_write :: "'c client_ops \<Rightarrow> u8 list \<Rightarrow> 'c fcgi \<Rightarrow> 'c fcgi \<times> bool" where
  "client_write ops bs st = (case write_all ops bs (client st) of (c, ok) \<Rightarrow> (st\<lparr>client := c\<rparr>, ok))"

definition beginRequest :: "'c client_ops \<Rightarrow> bool \<Rightarrow> 'c fcgi \<Rightarrow> 'c fcgi \<times> bool" where
  "beginRequest ops keepAlive st =
     (if extended st then (st, True) else client_write ops (start_record keepAlive) st)"

definition sendRecordHeader :: "'c client_ops \<Rightarrow> u8 \<Rightarrow> u16 \<Rightarrow> 'c fcgi \<Rightarrow> 'c fcgi \<times> bool" where
  "sendRecordHeader ops ty len st = client_write ops (header_bytes ty len) st"

section \<open>Sending environment variables\<close>

definition addLen :: "nat \<Rightarrow> u8 list" where
  "addLen len = (if 127 < len then be32 (of_nat len OR 0x80000000) else [of_nat len])"

text \<open>The segments of the buffer are written one after the other; they are one list here.\<close>

definition sendParams :: "'c client_ops \<Rightarrow> 'c fcgi \<Rightarrow> 'c fcgi \<times> bool" where
  "sendParams ops st =
     (if buff st = [] then (st, True)
      else
        (case sendRecordHeader ops FCGI_PARAMS (of_nat (length (buff st))) st of
           (st1, ok1) \<Rightarrow>
             (if \<not> ok1 then (st1, False)
              else
                (case client_write ops (buff st1) st1 of
                   (st2, ok2) \<Rightarrow> if ok2 then (st2\<lparr>buff := []\<rparr>, True) else (st2, False)))))"

definition add_env :: "'c client_ops \<Rightarrow> u8 list \<Rightarrow> u8 list \<Rightarrow> 'c fcgi \<Rightarrow> 'c fcgi \<times> bool" where
  "add_env ops attr val st =
     (if attr = [] \<or> 65535 < length attr \<or> 65535 < length val then (st, False)
      else
        (let encoded_len = length attr + length val + (if 127 < length attr then 4 else 1) +
               (if 127 < length val then 4 else 1)
         in if 65535 < encoded_len then (st, False)
            else
              (case (if 65535 - encoded_len < length (buff st) then sendParams ops st else (st, True)) of
                 (st1, ok) \<Rightarrow>
                   (if \<not> ok then (st1, False)
                    else (st1\<lparr>buff := buff st1 @ addLen (length attr) @ addLen (length val) @ attr @ val\<rparr>, True)))))"

definition addEnvEnd :: "'c client_ops \<Rightarrow> 'c fcgi \<Rightarrow> 'c fcgi \<times> bool" where
  "addEnvEnd ops st =
     (case sendParams ops st of
        (st1, ok) \<Rightarrow> if \<not> ok then (st1, False) else sendRecordHeader ops FCGI_PARAMS 0 st1)"

section \<open>Header variables\<close>

definition HTTP_prefix :: "u8 list" where
  "HTTP_prefix = [0x48, 0x54, 0x54, 0x50, 0x5F]"

text \<open>\<open>upper\<close> stands for \<^verbatim>\<open>kgl_toupper\<close> of the HTTP library.\<close>

definition http_env_name :: "(u8 \<Rightarrow> u8) \<Rightarrow> u8 list \<Rightarrow> u8 list" where
  "http_env_name upper attr = HTTP_prefix @ map (\<lambda>c. if c = 0x2D then 0x5F else upper c) attr"

text \<open>
  \<^verbatim>\<open>KEnvInterface::add_http_header\<close> and its override; \<open>is_attr\<close> stands for the comparison of
  header names of the HTTP library.
\<close>

definition CONTENT_TYPE :: "u8 list" where
  "CONTENT_TYPE = [0x43, 0x4F, 0x4E, 0x54, 0x45, 0x4E, 0x54, 0x5F, 0x54, 0x59, 0x50, 0x45]"

definition CONTENT_LENGTH :: "u8 list" where
  "CONTENT_LENGTH = [0x43, 0x4F, 0x4E, 0x54, 0x45, 0x4E, 0x54, 0x5F, 0x4C, 0x45, 0x4E, 0x47, 0x54, 0x48]"

definition add_http_header ::
  "(u8 \<Rightarrow> u8) \<Rightarrow> (u8 list \<Rightarrow> string \<Rightarrow> bool) \<Rightarrow> 'c client_ops \<Rightarrow> u8 list \<Rightarrow> u8 list \<Rightarrow> 'c fcgi \<Rightarrow> 'c fcgi \<times> bool" where
  "add_http_header upper is_attr ops attr val st =
     (if extended st then add_env ops (HTTP_prefix @ attr) val st
      else if is_attr attr ''Content-Type'' then add_env ops CONTENT_TYPE val st
      else if is_attr attr ''Content-Length'' then add_env ops CONTENT_LENGTH val st
      else add_env ops (http_env_name upper attr) val st)"

section \<open>Sending a body\<close>

function write_chunks :: "'c client_ops \<Rightarrow> u8 \<Rightarrow> u8 list \<Rightarrow> 'c fcgi \<Rightarrow> 'c fcgi \<times> bool" where
  "write_chunks ops ty bs st =
     (if bs = [] then (st, True)
      else
        (let this_send = min (length bs) 32767 in
         case sendRecordHeader ops ty (of_nat this_send) st of
           (st1, ok1) \<Rightarrow>
             (if \<not> ok1 then (st1, False)
              else
                (case client_write ops (take this_send bs) st1 of
                   (st2, ok2) \<Rightarrow>
                     if \<not> ok2 then (st2, False) else write_chunks ops ty (drop this_send bs) st2))))"
  by pat_completeness auto
termination
  by (relation "measure (\<lambda>(ops, ty, bs, st). length bs)") auto

declare write_chunks.simps [simp del]

definition write_data :: "'c client_ops \<Rightarrow> u8 \<Rightarrow> u8 list \<Rightarrow> 'c fcgi \<Rightarrow> 'c fcgi \<times> bool" where
  "write_data ops ty bs st = (if bs = [] then sendRecordHeader ops ty 0 st else write_chunks ops ty bs st)"

definition write_end :: "'c client_ops \<Rightarrow> bool \<Rightarrow> 'c fcgi \<Rightarrow> 'c fcgi \<times> bool" where
  "write_end ops close st =
     (case write_data ops (data_type st) [] st of
        (st1, ok) \<Rightarrow>
          (if \<not> ok then (st1, False)
           else sendRecordHeader ops (if close then FCGI_ABORT_REQUEST else FCGI_END_REQUEST) 0 st1))"

section \<open>Receiving environment variables\<close>

abbreviation UINT_MAX :: u32 where "UINT_MAX \<equiv> 0xFFFFFFFF"

definition readLen :: "'c client_ops \<Rightarrow> int \<Rightarrow> 'c \<Rightarrow> 'c \<times> int \<times> u32" where
  "readLen ops content_len c =
     (if content_len < 1 then (c, content_len, UINT_MAX)
      else
        (case read_all ops 1 c of
           (c1, None) \<Rightarrow> (c1, content_len, UINT_MAX)
         | (c1, Some b) \<Rightarrow>
             (if b ! 0 AND 0x80 \<noteq> 0 then
                (if content_len - 1 < 3 then (c1, content_len - 1, UINT_MAX)
                 else
                   (case read_all ops 3 c1 of
                      (c2, None) \<Rightarrow> (c2, content_len - 1, UINT_MAX)
                    | (c2, Some t) \<Rightarrow> (c2, content_len - 4, of_be32 (b ! 0 AND 0x7F) (t ! 0) (t ! 1) (t ! 2))))
              else (c1, content_len - 1, ucast (b ! 0)))))"

lemma readLen_le: "readLen ops cl c = (c', cl', n) \<Longrightarrow> cl' \<le> cl"
  by (auto simp: readLen_def split: if_splits prod.splits option.splits)

lemma param_step_less:
  assumes "(c1, cl1, n) = readLen ops cl c" "(c2, cl2, v) = readLen ops (cl1 - uint n) c1" "n \<noteq> 0"
  shows "cl2 - uint v < cl"
proof -
  have "cl1 \<le> cl" "cl2 \<le> cl1 - uint n"
    using readLen_le assms(1,2) by (metis, metis)
  moreover have "0 < uint n" using assms(3) by (simp add: word_neq_0_conv word_less_def)
  ultimately show ?thesis using uint_ge_0 [of v] by linarith
qed

record 'e env_ops =
  env_add :: "u8 list \<Rightarrow> u8 list \<Rightarrow> 'e \<Rightarrow> 'e \<times> bool"
  env_header :: "u8 list \<Rightarrow> u8 list \<Rightarrow> 'e \<Rightarrow> 'e \<times> bool"
  env_end :: "'e \<Rightarrow> 'e \<times> bool"

definition deliver :: "'e env_ops \<Rightarrow> u8 list \<Rightarrow> u8 list \<Rightarrow> 'e \<Rightarrow> 'e \<times> bool" where
  "deliver env nam val e =
     (if 5 < length nam \<and> take 5 nam = HTTP_prefix then env_header env (drop 5 nam) val e
      else env_add env nam val e)"

function readParamsPackage ::
  "'c client_ops \<Rightarrow> 'e env_ops \<Rightarrow> int \<Rightarrow> 'c \<Rightarrow> 'e \<Rightarrow> 'c \<times> 'e \<times> bool" where
  "readParamsPackage ops env content_len c e =
     (if content_len \<le> 0 then (c, e, True)
      else
        (case readLen ops content_len c of
           (c1, cl1, name_len) \<Rightarrow>
             (if name_len = 0 \<or> name_len = UINT_MAX then (c1, e, False)
              else if cl1 < int (unat name_len) then (c1, e, False)
              else
                (case readLen ops (cl1 - int (unat name_len)) c1 of
                   (c2, cl2, value_len) \<Rightarrow>
                     (if value_len = UINT_MAX \<or> cl2 < int (unat value_len) then (c2, e, False)
                      else
                        (case read_all ops (unat name_len) c2 of
                           (c3, None) \<Rightarrow> (c3, e, False)
                         | (c3, Some nam) \<Rightarrow>
                             (case (if 0 < value_len then read_all ops (unat value_len) c3 else (c3, Some [])) of
                                (c4, None) \<Rightarrow> (c4, e, False)
                              | (c4, Some val) \<Rightarrow>
                                  (case deliver env nam val e of
                                     (e1, ok) \<Rightarrow>
                                       (if \<not> ok then (c4, e1, False)
                                        else readParamsPackage ops env (cl2 - int (unat value_len)) c4 e1))))))))) "
  by pat_completeness auto
termination
  by (relation "measure (\<lambda>(ops, env, content_len, c, e). nat content_len)") (auto intro: param_step_less)

declare readParamsPackage.simps [simp del]

definition recvPaddingData :: "'c client_ops \<Rightarrow> u8 \<Rightarrow> 'c \<Rightarrow> 'c \<times> bool" where
  "recvPaddingData ops pad c =
     (if pad = 0 then (c, True)
      else (case read_all ops (unat pad) c of (c1, r) \<Rightarrow> (c1, r \<noteq> None)))"

text \<open>
  The loop over the records of the environment; it ends with the stream, which the fuel stands
  for: \<open>None\<close> means that the fuel was used up.
\<close>

fun readParams :: "nat \<Rightarrow> 'c client_ops \<Rightarrow> 'e env_ops \<Rightarrow> 'c \<Rightarrow> 'e \<Rightarrow> ('c \<times> 'e \<times> bool) option" where
  "readParams 0 ops env c e = None"
| "readParams (Suc fuel) ops env c e =
     (case read_all ops 8 c of
        (c1, None) \<Rightarrow> Some (c1, e, False)
      | (c1, Some h) \<Rightarrow>
          (if h ! 0 \<noteq> 1 \<or> h ! 2 \<noteq> 0 \<or> h ! 3 \<noteq> 1 \<or> h ! 1 \<noteq> FCGI_PARAMS then Some (c1, e, False)
           else
             (let content_len = int (unat (of_be16 (h ! 4) (h ! 5))) in
              if content_len \<le> 0 then
                (case recvPaddingData ops (h ! 6) c1 of
                   (c2, ok) \<Rightarrow>
                     (if \<not> ok then Some (c2, e, False)
                      else (case env_end env e of (e1, r) \<Rightarrow> Some (c2, e1, r))))
              else
                (case readParamsPackage ops env content_len c1 e of
                   (c2, e1, ok) \<Rightarrow>
                     (if \<not> ok then Some (c2, e1, False)
                      else
                        (case recvPaddingData ops (h ! 6) c2 of
                           (c3, ok3) \<Rightarrow>
                             if \<not> ok3 then Some (c3, e1, False) else readParams fuel ops env c3 e1))))))"

section \<open>Parsing variables in memory\<close>

definition parse_len :: "u8 list \<Rightarrow> (nat \<times> u8 list) option" where
  "parse_len bs =
     (if length bs < 1 then None
      else if bs ! 0 AND 0x80 \<noteq> 0 then
        (if length bs < 4 then None
         else Some (unat (of_be32 (bs ! 0 AND 0x7F) (bs ! 1) (bs ! 2) (bs ! 3)), drop 4 bs))
      else Some (unat (bs ! 0), drop 1 bs))"

lemma parse_len_shorter: "parse_len bs = Some (n, r) \<Longrightarrow> length r < length bs"
  by (auto simp: parse_len_def split: if_splits)

function parse_param :: "'e env_ops \<Rightarrow> u8 list \<Rightarrow> 'e \<Rightarrow> 'e \<times> bool" where
  "parse_param env bs e =
     (if bs = [] then (e, True)
      else
        (case parse_len bs of
           None \<Rightarrow> (e, False)
         | Some (name_len, r1) \<Rightarrow>
             (case parse_len r1 of
                None \<Rightarrow> (e, False)
              | Some (value_len, r2) \<Rightarrow>
                  (if length r2 < name_len \<or> length r2 - name_len < value_len then (e, False)
                   else
                     (case env_add env (take name_len r2) (take value_len (drop name_len r2)) e of
                        (e1, ok) \<Rightarrow>
                          if \<not> ok then (e1, False)
                          else parse_param env (drop (name_len + value_len) r2) e1)))))"
  by pat_completeness auto
termination
  by (relation "measure (\<lambda>(env, bs, e). length bs)") (auto dest!: parse_len_shorter)

declare parse_param.simps [simp del]

section \<open>Receiving a body\<close>

text \<open>
  \<^verbatim>\<open>read_package\<close>: one record of any type. The result is the header, the content when there
  is some, and whether the call succeeded.
\<close>

definition read_package :: "'c client_ops \<Rightarrow> 'c fcgi \<Rightarrow> 'c fcgi \<times> u8 list option \<times> u8 list option \<times> bool" where
  "read_package ops st =
     (case read_all ops 8 (client st) of
        (c1, None) \<Rightarrow> (st\<lparr>client := c1\<rparr>, None, None, False)
      | (c1, Some h) \<Rightarrow>
          (let len = unat (of_be16 (h ! 4) (h ! 5)) in
           case (if 0 < len then read_all ops len c1 else (c1, Some [])) of
             (c2, None) \<Rightarrow> (st\<lparr>client := c2\<rparr>, Some h, None, False)
           | (c2, Some b) \<Rightarrow>
               (let empty = (len = 0 \<and> (h ! 1 = FCGI_STDOUT \<or> h ! 1 = FCGI_STDIN)) in
                case recvPaddingData ops (h ! 6) c2 of
                  (c3, ok) \<Rightarrow>
                    (st\<lparr>client := c3, data_empty_length := data_empty_length st \<or> empty\<rparr>, Some h,
                     if ok \<and> 0 < len then Some b else None, ok))))"

text \<open>
  \<^verbatim>\<open>read (char **, int &)\<close>: the next data record; others are skipped. The result is the
  buffer, the length as it is left in the reference parameter, and whether the call succeeded.
\<close>

fun read_data :: "nat \<Rightarrow> 'c client_ops \<Rightarrow> int \<Rightarrow> 'c fcgi \<Rightarrow> ('c fcgi \<times> u8 list option \<times> int \<times> bool) option" where
  "read_data 0 ops len0 st = None"
| "read_data (Suc fuel) ops len0 st =
     (if data_empty_length st then Some (st, None, 0, True)
      else
        (case read_all ops 8 (client st) of
           (c1, None) \<Rightarrow> Some (st\<lparr>client := c1\<rparr>, None, len0, False)
         | (c1, Some h) \<Rightarrow>
             (let len = unat (of_be16 (h ! 4) (h ! 5)) in
              if h ! 1 = FCGI_STDOUT \<or> h ! 1 = FCGI_STDIN then
                (if len = 0 then
                   (case recvPaddingData ops (h ! 6) c1 of
                      (c2, ok) \<Rightarrow> Some (st\<lparr>client := c2, data_empty_length := True\<rparr>, None, 0, ok))
                 else
                   (case read_all ops len c1 of
                      (c2, None) \<Rightarrow> Some (st\<lparr>client := c2\<rparr>, None, int len, False)
                    | (c2, Some b) \<Rightarrow>
                        (case recvPaddingData ops (h ! 6) c2 of
                           (c3, ok) \<Rightarrow> Some (st\<lparr>client := c3\<rparr>, if ok then Some b else None, int len, ok))))
              else
                (case (if 0 < len then read_all ops len c1 else (c1, Some [])) of
                   (c2, None) \<Rightarrow> Some (st\<lparr>client := c2\<rparr>, None, int len, False)
                 | (c2, Some b) \<Rightarrow>
                     (case recvPaddingData ops (h ! 6) c2 of
                        (c3, ok) \<Rightarrow>
                          (if \<not> ok then Some (st\<lparr>client := c3\<rparr>, None, int len, False)
                           else if h ! 1 = FCGI_END_REQUEST then Some (st\<lparr>client := c3\<rparr>, None, int len, True)
                           else if h ! 1 = FCGI_ABORT_REQUEST then Some (st\<lparr>client := c3\<rparr>, None, int len, False)
                           else read_data fuel ops (int len) (st\<lparr>client := c3\<rparr>)))))))"

definition push_read_data :: "u8 list \<Rightarrow> 'c fcgi \<Rightarrow> 'c fcgi" where
  "push_read_data bs st =
     (if bs = [] then st
      else
        (case readBuf st of
           Some r \<Rightarrow>
             (if 0 < readLeft st
              then st\<lparr>readBuf := Some (take (nat (readLeft st)) r @ bs), readLeft := readLeft st + int (length bs)\<rparr>
              else st\<lparr>readBuf := Some bs, readLeft := int (length bs)\<rparr>)
         | None \<Rightarrow> st\<lparr>readBuf := Some bs, readLeft := int (length bs)\<rparr>))"

text \<open>\<^verbatim>\<open>int read (char *, int)\<close>: the bytes copied and the return value.\<close>

fun read_turns :: "nat \<Rightarrow> nat \<Rightarrow> 'c client_ops \<Rightarrow> nat \<Rightarrow> 'c fcgi \<Rightarrow> ('c fcgi \<times> u8 list \<times> int) option" where
  "read_turns 0 fuel ops len st = Some (st, [], -1)"
| "read_turns (Suc turns) fuel ops len st =
     (if readBuf st \<noteq> None \<and> 0 < readLeft st then
        (let n = min len (nat (readLeft st)); r = the (readBuf st) in
         Some (st\<lparr>readBuf := Some (drop n r), readLeft := readLeft st - int n\<rparr>, take n r, int n))
      else
        (case read_data fuel ops (readLeft st) (st\<lparr>readBuf := None\<rparr>) of
           None \<Rightarrow> None
         | Some (st1, b, l, ok) \<Rightarrow>
             (let st2 = st1\<lparr>readBuf := b, readLeft := l\<rparr> in
              if \<not> ok then Some (st2, [], -1)
              else if l \<le> 0 then Some (st2, [], 0)
              else read_turns turns fuel ops len st2)))"

definition fcgi_read :: "nat \<Rightarrow> 'c client_ops \<Rightarrow> int \<Rightarrow> 'c fcgi \<Rightarrow> ('c fcgi \<times> u8 list \<times> int) option" where
  "fcgi_read fuel ops len st =
     (if len < 0 then Some (st, [], -1)
      else if len = 0 then Some (st, [], 0)
      else read_turns 2 fuel ops (nat len) st)"

section \<open>Lengths on the wire\<close>

lemma not_bit_31: "unat (w :: u32) < 2147483648 \<Longrightarrow> \<not> bit w 31"
proof -
  assume "unat w < 2147483648"
  then have "\<not> bit (unat w) 31" by (simp add: bit_nat_def)
  then show ?thesis by (simp add: bit_unsigned_iff)
qed

lemma long_len_flag: "(ucast (drop_bit 24 ((w :: u32) OR 0x80000000)) :: u8) AND 0x80 \<noteq> 0"
proof
  assume z: "(ucast (drop_bit 24 (w OR 0x80000000)) :: u8) AND 0x80 = 0"
  have "bit ((ucast (drop_bit 24 (w OR 0x80000000)) :: u8) AND 0x80) 7"
    by (simp add: bit_simps)
  then show False using z by simp
qed

lemma bit_len_flag: "bit (0x80000000 :: u32) n \<longleftrightarrow> n = 31"
proof -
  have "(0x80000000 :: u32) = push_bit 31 1" by simp
  then have "bit (0x80000000 :: u32) n = bit (push_bit 31 (1::u32)) n" by (rule arg_cong)
  also have "\<dots> \<longleftrightarrow> n = 31" unfolding bit_push_bit_iff bit_1_iff by auto
  finally show ?thesis .
qed

lemma bit_7F: "bit (0x7F :: u8) n \<longleftrightarrow> n < 7"
proof -
  have "bit (0x7F :: u8) n = bit (mask 7 :: u8) n" by (rule arg_cong [where f = "\<lambda>w. bit w n"]) (simp add: mask_eq_exp_minus_1)
  also have "\<dots> \<longleftrightarrow> n < 7" unfolding bit_mask_iff by auto
  finally show ?thesis .
qed

lemma short_len_flag: "n \<le> 127 \<Longrightarrow> (of_nat n :: u8) AND 0x80 = 0"
proof -
  assume n: "n \<le> 127"
  have b: "bit (0x80 :: u8) i \<longleftrightarrow> i = 7" for i
  proof -
    have "bit (0x80 :: u8) i = bit (push_bit 7 (1::u8)) i" by (rule arg_cong [where f = "\<lambda>w. bit w i"]) simp
    also have "\<dots> \<longleftrightarrow> i = 7" unfolding bit_push_bit_iff bit_1_iff by auto
    finally show ?thesis .
  qed
  have "\<not> bit n 7" using n by (simp add: bit_nat_def)
  then show ?thesis by (intro bit_word_eqI) (unfold bit_and_iff b, auto simp: bit_of_nat_iff)
qed

lemma long_len_value:
  assumes "unat (w :: u32) < 2147483648" and v: "v = w OR 0x80000000"
  shows "of_be32 (ucast (drop_bit 24 v) AND 0x7F) (ucast (drop_bit 16 v)) (ucast (drop_bit 8 v)) (ucast v) = w"
proof -
  have bv: "bit v n \<longleftrightarrow> bit w n \<or> n = 31" for n
    unfolding v bit_or_iff bit_len_flag ..
  define m :: u8 where "m = 0x7F"
  have bm: "bit m n \<longleftrightarrow> n < 7" for n unfolding m_def by (rule bit_7F)
  show ?thesis
    unfolding of_be32_def m_def [symmetric]
    apply (rule bit_word_eqI)
    subgoal for n
      using not_bit_31 [OF assms(1)]
      by (cases "n < 8"; cases "n < 16"; cases "n < 24"; cases "n = 31")
        (auto simp: bit_simps bm bv)
    done
qed

lemma addLen_long:
  assumes "127 < n" "n < 2147483648" "v = (of_nat n :: u32) OR 0x80000000"
  shows "addLen n = [ucast (drop_bit 24 v), ucast (drop_bit 16 v), ucast (drop_bit 8 v), ucast v]"
    and "of_be32 (ucast (drop_bit 24 v) AND 0x7F) (ucast (drop_bit 16 v)) (ucast (drop_bit 8 v)) (ucast v) = of_nat n"
    and "(ucast (drop_bit 24 v) :: u8) AND 0x80 \<noteq> 0"
proof -
  have "unat (of_nat n :: u32) < 2147483648" using assms(2) by (simp add: unat_of_nat)
  then show "of_be32 (ucast (drop_bit 24 v) AND 0x7F) (ucast (drop_bit 16 v)) (ucast (drop_bit 8 v)) (ucast v) = of_nat n"
    using long_len_value assms(3) by blast
  show "(ucast (drop_bit 24 v) :: u8) AND 0x80 \<noteq> 0" unfolding assms(3) by (rule long_len_flag)
  show "addLen n = [ucast (drop_bit 24 v), ucast (drop_bit 16 v), ucast (drop_bit 8 v), ucast v]"
    using assms(1,3) by (simp add: addLen_def be32_def)
qed

lemma length_addLen [simp]: "length (addLen n) = (if 127 < n then 4 else 1)"
  by (simp add: addLen_def)

lemma unat_of_nat_u32: "n < 2147483648 \<Longrightarrow> unat (of_nat n :: u32) = n"
  by (simp add: unat_of_nat)

lemma unat_UINT_MAX: "\<not> unat UINT_MAX < 2147483648"
  by simp

lemma unat_of_nat_u8: "n \<le> 127 \<Longrightarrow> unat (of_nat n :: u8) = n"
  by (simp add: unat_of_nat)

lemma ucast_of_nat_small: "n \<le> 127 \<Longrightarrow> (ucast (of_nat n :: u8) :: u32) = of_nat n"
  by (simp add: unsigned_of_nat take_bit_nat_eq_self)

lemma parse_len_addLen:
  assumes "n < 2147483648"
  shows "parse_len (addLen n @ r) = Some (n, r)"
proof (cases "127 < n")
  case True
  show ?thesis
    unfolding addLen_long(1) [OF True assms refl]
    using addLen_long(2,3) [OF True assms refl]
    by (simp add: parse_len_def unat_of_nat_u32 [OF assms])
next
  case False
  then show ?thesis using short_len_flag [of n] by (simp add: parse_len_def addLen_def unat_of_nat_u8)
qed

definition encode_pair :: "u8 list \<times> u8 list \<Rightarrow> u8 list" where
  "encode_pair nv = addLen (length (fst nv)) @ addLen (length (snd nv)) @ fst nv @ snd nv"

definition pair_ok :: "u8 list \<times> u8 list \<Rightarrow> bool" where
  "pair_ok nv \<longleftrightarrow> fst nv \<noteq> [] \<and> length (encode_pair nv) \<le> 65535"

text \<open>All variables handed to the receiver, in order, while it accepts them.\<close>

fun deliver_all :: "'e env_ops \<Rightarrow> (u8 list \<times> u8 list) list \<Rightarrow> 'e \<Rightarrow> 'e \<times> bool" where
  "deliver_all env [] e = (e, True)"
| "deliver_all env (nv # nvs) e =
     (case deliver env (fst nv) (snd nv) e of (e1, ok) \<Rightarrow> if ok then deliver_all env nvs e1 else (e1, False))"

lemma readParamsPackage_step:
  assumes "0 < cl" "readLen ops cl c = (c1, cl1, nl)" "nl \<noteq> 0" "nl \<noteq> UINT_MAX" "\<not> cl1 < int (unat nl)"
    and "readLen ops (cl1 - int (unat nl)) c1 = (c2, cl2, vl)" "vl \<noteq> UINT_MAX" "\<not> cl2 < int (unat vl)"
    and "read_all ops (unat nl) c2 = (c3, Some nam)"
    and "(if 0 < vl then read_all ops (unat vl) c3 else (c3, Some [])) = (c4, Some val)"
  shows "readParamsPackage ops env cl c e =
    (case deliver env nam val e of
       (e1, ok) \<Rightarrow> if ok then readParamsPackage ops env (cl2 - int (unat vl)) c4 e1 else (c4, e1, False))"
proof -
  have "\<not> cl \<le> 0" "\<not> (nl = 0 \<or> nl = UINT_MAX)" "\<not> (vl = UINT_MAX \<or> cl2 < int (unat vl))"
    using assms by simp_all
  then show ?thesis
    by (cases "deliver env nam val e")
      (simp only: readParamsPackage.simps [of ops env cl c e] assms(2,5,6,9,10) if_False not_True_eq_False
        not_False_eq_True prod.case option.case if_not_P split: if_split, blast)
qed

context byte_client
begin

lemma readLen_addLen:
  assumes "pending c = addLen n @ r" "n < 2147483648" "int (length (addLen n)) \<le> cl"
  obtains c' where "readLen ops cl c = (c', cl - int (length (addLen n)), of_nat n)" "pending c' = r"
proof (cases "127 < n")
  case True
  note long = addLen_long [OF True assms(2) refl]
  let ?v = "(of_nat n :: u32) OR 0x80000000"
  obtain c1 where c1: "read_all ops 1 c = (c1, Some [ucast (drop_bit 24 ?v)])"
    "pending c1 = [ucast (drop_bit 16 ?v), ucast (drop_bit 8 ?v), ucast ?v] @ r"
    using read_append [of c "[ucast (drop_bit 24 ?v)]" _ 1] assms(1) long(1) by auto
  obtain c2 where c2: "read_all ops 3 c1 = (c2, Some [ucast (drop_bit 16 ?v), ucast (drop_bit 8 ?v), ucast ?v])" "pending c2 = r"
    using read_append [OF c1(2), of 3] by auto
  show ?thesis
    using that [of c2] c1 c2 assms(3) True long(2,3)
    by (simp add: readLen_def)
next
  case False
  obtain c1 where "read_all ops 1 c = (c1, Some [of_nat n])" "pending c1 = r"
    using read_append [of c "[of_nat n]" r 1] assms(1) False by (auto simp: addLen_def)
  then show ?thesis
    using that [of c1] assms(3) False short_len_flag [of n] ucast_of_nat_small [of n] by (simp add: readLen_def)
qed


lemma readParamsPackage_pair:
  assumes "pending c = encode_pair nv @ r" "pair_ok nv" "int (length (encode_pair nv)) \<le> cl"
  obtains c' where "readParamsPackage ops env cl c e =
      (case deliver env (fst nv) (snd nv) e of
         (e1, ok) \<Rightarrow> if ok then readParamsPackage ops env (cl - int (length (encode_pair nv))) c' e1 else (c', e1, False))"
    and "pending c' = r"
proof -
  obtain n v where nv: "nv = (n, v)" by (cases nv)
  have len: "n \<noteq> []" "length n < 2147483648" "length v < 2147483648"
    using assms(2) by (auto simp: nv pair_ok_def encode_pair_def split: if_splits)
  have cl: "int (length (addLen (length n))) + int (length (addLen (length v))) + int (length n) + int (length v) \<le> cl"
    using assms(3) by (simp add: nv encode_pair_def)
  obtain c1 where c1: "readLen ops cl c = (c1, cl - int (length (addLen (length n))), of_nat (length n))"
    "pending c1 = addLen (length v) @ n @ v @ r"
    using readLen_addLen [of c "length n" "addLen (length v) @ n @ v @ r" cl] assms(1) len cl
    by (auto simp: nv encode_pair_def)
  let ?cl = "cl - int (length (addLen (length n))) - int (length n)"
  obtain c2 where c2: "readLen ops ?cl c1 = (c2, ?cl - int (length (addLen (length v))), of_nat (length v))"
    "pending c2 = n @ v @ r"
    using readLen_addLen [OF c1(2) len(3), of ?cl] cl by auto
  obtain c3 where c3: "read_all ops (length n) c2 = (c3, Some n)" "pending c3 = v @ r"
    using read_append [OF c2(2) refl] by blast
  obtain c4 where c4: "(if 0 < length v then read_all ops (length v) c3 else (c3, Some [])) = (c4, Some v)" "pending c4 = r"
  proof (cases "v = []")
    case True
    then show ?thesis using that [of c3] c3(2) by simp
  next
    case False
    obtain d where "read_all ops (length v) c3 = (d, Some v)" "pending d = r"
      using read_append [OF c3(2) refl] by blast
    then show ?thesis using that [of d] False by simp
  qed
  have un: "unat (of_nat (length n) :: u32) = length n" "unat (of_nat (length v) :: u32) = length v"
    using unat_of_nat_u32 len by blast+
  have z: "(of_nat (length n) :: u32) \<noteq> 0" "(of_nat (length n) :: u32) \<noteq> UINT_MAX" "(of_nat (length v) :: u32) \<noteq> UINT_MAX"
    using un len by (metis length_0_conv unat_0, metis un(1) len(2) unat_UINT_MAX, metis un(2) len(3) unat_UINT_MAX)
  have pos: "0 < (of_nat (length v) :: u32) \<longleftrightarrow> 0 < length v"
    using un(2) by (metis unat_gt_0 word_neq_0_conv)
  have "readParamsPackage ops env cl c e =
      (case deliver env n v e of
         (e1, ok) \<Rightarrow> if ok then readParamsPackage ops env (?cl - int (length (addLen (length v))) - int (length v)) c4 e1
           else (c4, e1, False))"
  proof (rule readParamsPackage_step [where nl = "of_nat (length n)" and vl = "of_nat (length v)", unfolded un])
    show "0 < cl" using cl len(1) by (cases n) auto
    show "\<not> cl - int (length (addLen (length n))) < int (length n)" using cl by (simp del: length_addLen)
    show "\<not> ?cl - int (length (addLen (length v))) < int (length v)" using cl by (simp del: length_addLen)
    show "(if 0 < (of_nat (length v) :: u32) then read_all ops (length v) c3 else (c3, Some [])) = (c4, Some v)"
      using c4(1) pos by simp
  qed (fact c1(1) c2(1) c3(1) z)+
  moreover have "?cl - int (length (addLen (length v))) - int (length v) = cl - int (length (encode_pair nv))"
    by (simp add: nv encode_pair_def)
  ultimately show ?thesis using that [of c4] c4(2) unfolding nv fst_conv snd_conv by metis
qed

lemma readParamsPackage_all:
  assumes "pending c = concat (map encode_pair nvs) @ r" "list_all pair_ok nvs" "deliver_all env nvs e = (e', True)"
  obtains c' where "readParamsPackage ops env (int (length (concat (map encode_pair nvs)))) c e = (c', e', True)"
    and "pending c' = r"
  using assms
proof (induction nvs arbitrary: c e thesis)
  case Nil
  then show ?case by (simp add: readParamsPackage.simps)
next
  case (Cons nv nvs)
  let ?cl = "int (length (concat (map encode_pair (nv # nvs))))"
  have pend: "pending c = encode_pair nv @ concat (map encode_pair nvs) @ r" using Cons.prems(2) by simp
  obtain e1 where d: "deliver env (fst nv) (snd nv) e = (e1, True)" "deliver_all env nvs e1 = (e', True)"
    using Cons.prems(4) by (auto split: prod.splits if_splits)
  obtain c1 where c1: "readParamsPackage ops env ?cl c e =
      readParamsPackage ops env (?cl - int (length (encode_pair nv))) c1 e1"
    "pending c1 = concat (map encode_pair nvs) @ r"
    using readParamsPackage_pair [OF pend, of ?cl env e] Cons.prems(3) d(1) by auto
  obtain c2 where "readParamsPackage ops env (int (length (concat (map encode_pair nvs)))) c1 e1 = (c2, e', True)"
    "pending c2 = r"
    using Cons.IH [OF _ c1(2) _ d(2)] Cons.prems(3) by auto
  then show ?case using Cons.prems(1) [of c2] c1(1) by simp
qed

end

section \<open>Environment variables reach the other side\<close>

lemma deliver_all_append:
  "deliver_all env (xs @ ys) e =
     (case deliver_all env xs e of (e1, ok) \<Rightarrow> if ok then deliver_all env ys e1 else (e1, False))"
  by (induction xs arbitrary: e) (auto split: prod.splits)

definition params_body :: "(u8 list \<times> u8 list) list \<Rightarrow> u8 list" where
  "params_body g = concat (map encode_pair g)"

definition param_record :: "(u8 list \<times> u8 list) list \<Rightarrow> u8 list" where
  "param_record g = header_bytes FCGI_PARAMS (of_nat (length (params_body g))) @ params_body g"

definition group_ok :: "(u8 list \<times> u8 list) list \<Rightarrow> bool" where
  "group_ok g \<longleftrightarrow> g \<noteq> [] \<and> list_all pair_ok g \<and> length (params_body g) \<le> 65535"

definition sending :: "('c \<Rightarrow> u8 list) \<Rightarrow> u8 list \<Rightarrow> (u8 list \<times> u8 list) list \<Rightarrow> 'c fcgi \<Rightarrow> bool" where
  "sending sent s0 nvs st \<longleftrightarrow> (\<exists>gs g. nvs = concat gs @ g \<and> list_all group_ok gs \<and> list_all pair_ok g \<and>
     length (params_body g) \<le> 65535 \<and> buff st = params_body g \<and>
     sent (client st) = s0 @ concat (map param_record gs))"

lemma params_body_simps [simp]:
  "params_body [] = []" "params_body (g @ h) = params_body g @ params_body h" "params_body [nv] = encode_pair nv"
  by (simp_all add: params_body_def)

lemma encode_pair_not_Nil [simp]: "encode_pair nv \<noteq> []"
  by (auto simp: encode_pair_def addLen_def be32_def)

lemma params_body_Nil_iff [simp]: "params_body g = [] \<longleftrightarrow> g = []"
  by (cases g) (auto simp: params_body_def)

lemma header_bytes_nth [simp]:
  "length (header_bytes ty len) = 8" "header_bytes ty len ! 0 = 1" "header_bytes ty len ! Suc 0 = ty"
  "header_bytes ty len ! 2 = 0" "header_bytes ty len ! 3 = 1"
  "of_be16 (header_bytes ty len ! 4) (header_bytes ty len ! 5) = len" "header_bytes ty len ! 6 = 0"
  using of_be16_be16 [of len] by (simp_all add: header_bytes_def be16_def nth_Cons')

lemma unat_of_nat_u16: "n \<le> 65535 \<Longrightarrow> unat (of_nat n :: u16) = n"
  by (simp add: unat_of_nat)

context byte_client
begin

lemma readParams_all:
  assumes "pending c = concat (map param_record gs) @ header_bytes FCGI_PARAMS 0 @ r" "list_all group_ok gs"
    and "deliver_all env (concat gs) e = (e1, True)" "env_end env e1 = (e2, ok)" "length gs < fuel"
  obtains c' where "readParams fuel ops env c e = Some (c', e2, ok)" "pending c' = r"
  using assms
proof (induction gs arbitrary: c e fuel thesis)
  case Nil
  obtain k where k: "fuel = Suc k" using Nil.prems(6) by (cases fuel) auto
  obtain c1 where "read_all ops 8 c = (c1, Some (header_bytes FCGI_PARAMS 0))" "pending c1 = r"
    using read_append [of c "header_bytes FCGI_PARAMS 0" r 8] Nil.prems(2) by auto
  then show ?case using Nil.prems k by (simp add: recvPaddingData_def)
next
  case (Cons g gs)
  obtain k where k: "fuel = Suc k" "length gs < k" using Cons.prems(6) by (cases fuel) auto
  let ?h = "header_bytes FCGI_PARAMS (of_nat (length (params_body g)))"
  let ?r = "concat (map param_record gs) @ header_bytes FCGI_PARAMS 0 @ r"
  have g: "list_all pair_ok g" "length (params_body g) \<le> 65535" "0 < length (params_body g)"
    using Cons.prems(3) by (auto simp: group_ok_def)
  obtain e0 where d: "deliver_all env g e = (e0, True)" "deliver_all env (concat gs) e0 = (e1, True)"
    using deliver_all_append [of env g "concat gs" e] Cons.prems(4) by (auto split: prod.splits if_splits)
  obtain c1 where c1: "read_all ops 8 c = (c1, Some ?h)" "pending c1 = params_body g @ ?r"
    using read_append [of c ?h "params_body g @ ?r" 8] Cons.prems(2) param_record_def [of g] by auto
  obtain c2 where c2: "readParamsPackage ops env (int (length (params_body g))) c1 e = (c2, e0, True)" "pending c2 = ?r"
    using readParamsPackage_all [of c1 g ?r env e e0] c1(2) g(1) d(1) unfolding params_body_def by auto
  obtain c3 where "readParams k ops env c2 e0 = Some (c3, e2, ok)" "pending c3 = r"
    using Cons.IH [OF _ c2(2) _ d(2) Cons.prems(5) k(2)] Cons.prems(3) by auto
  then show ?case
    using Cons.prems(1) [of c3] c1(1) c2(1) g(2,3) k(1)
    by (simp add: unat_of_nat_u16 recvPaddingData_def Let_def)
qed

lemma client_write_ok:
  "client_write ops bs st = (st', True) \<Longrightarrow> \<exists>c. st' = st\<lparr>client := c\<rparr> \<and> sent c = sent (client st) @ bs"
  by (auto simp: client_write_def split: prod.splits dest: write_ok)

lemma sendParams_ok:
  assumes "sendParams ops st = (st', True)"
  shows "\<exists>c. st' = st\<lparr>client := c, buff := []\<rparr> \<and>
    sent c = sent (client st) @
      (if buff st = [] then [] else header_bytes FCGI_PARAMS (of_nat (length (buff st))) @ buff st)"
proof (cases "buff st = []")
  case True
  then show ?thesis using assms by (intro exI [of _ "client st"]) (simp add: sendParams_def)
next
  case False
  then obtain st1 st2 where 1: "client_write ops (header_bytes FCGI_PARAMS (of_nat (length (buff st)))) st = (st1, True)"
    and 2: "client_write ops (buff st1) st1 = (st2, True)" "st' = st2\<lparr>buff := []\<rparr>"
    using assms by (auto simp: sendParams_def sendRecordHeader_def split: prod.splits if_splits)
  show ?thesis using client_write_ok [OF 1] client_write_ok [OF 2(1)] 2(2) False by auto
qed

lemma sendParams_sending:
  assumes "sending sent s0 nvs st" "sendParams ops st = (st', True)"
  shows "\<exists>gs. nvs = concat gs \<and> list_all group_ok gs \<and> buff st' = [] \<and>
    sent (client st') = s0 @ concat (map param_record gs)"
proof -
  obtain gs g where gs: "nvs = concat gs @ g" "list_all group_ok gs" "list_all pair_ok g"
    "length (params_body g) \<le> 65535" "buff st = params_body g" "sent (client st) = s0 @ concat (map param_record gs)"
    using assms(1) by (auto simp: sending_def)
  show ?thesis
  proof (cases "g = []")
    case True
    then show ?thesis using gs sendParams_ok [OF assms(2)] by auto
  next
    case False
    then show ?thesis using gs sendParams_ok [OF assms(2)]
      by (intro exI [of _ "gs @ [g]"]) (auto simp: group_ok_def param_record_def)
  qed
qed

lemma add_env_sending:
  assumes "sending sent s0 nvs st" "add_env ops n v st = (st', True)"
  shows "sending sent s0 (nvs @ [(n, v)]) st'"
proof -
  let ?enc = "encode_pair (n, v)"
  define el where "el = length n + length v + (if 127 < length n then 4 else 1) + (if 127 < length v then 4 else 1)"
  have len: "length ?enc = el" by (simp add: encode_pair_def el_def)
  have n: "n \<noteq> []" "el \<le> 65535" using assms(2) by (auto simp: add_env_def Let_def el_def split: if_splits)
  then have ok: "pair_ok (n, v)" using len by (simp add: pair_ok_def)
  show ?thesis
  proof (cases "65535 - el < length (buff st)")
    case True
    then obtain st1 where st1: "sendParams ops st = (st1, True)" "st' = st1\<lparr>buff := buff st1 @ ?enc\<rparr>"
      using assms(2) n by (auto simp: add_env_def Let_def el_def encode_pair_def split: prod.splits if_splits)
    obtain gs where "nvs = concat gs" "list_all group_ok gs" "buff st1 = []"
      "sent (client st1) = s0 @ concat (map param_record gs)"
      using sendParams_sending [OF assms(1) st1(1)] by blast
    then show ?thesis using st1(2) ok len n(2)
      unfolding sending_def by (intro exI [of _ gs] exI [of _ "[(n, v)]"]) simp
  next
    case False
    then have st': "st' = st\<lparr>buff := buff st @ ?enc\<rparr>"
      using assms(2) n by (auto simp: add_env_def Let_def el_def encode_pair_def split: prod.splits if_splits)
    obtain gs g where "nvs = concat gs @ g" "list_all group_ok gs" "list_all pair_ok g"
      "buff st = params_body g" "sent (client st) = s0 @ concat (map param_record gs)"
      using assms(1) by (auto simp: sending_def)
    then show ?thesis using st' ok len False n(2)
      unfolding sending_def by (intro exI [of _ gs] exI [of _ "g @ [(n, v)]"]) auto
  qed
qed

end

text \<open>What the callers do: one \<^verbatim>\<open>add_env\<close> after the other, until one fails.\<close>

fun add_envs :: "'c client_ops \<Rightarrow> (u8 list \<times> u8 list) list \<Rightarrow> 'c fcgi \<Rightarrow> 'c fcgi \<times> bool" where
  "add_envs ops [] st = (st, True)"
| "add_envs ops (nv # nvs) st =
     (case add_env ops (fst nv) (snd nv) st of (st1, ok) \<Rightarrow> if ok then add_envs ops nvs st1 else (st1, False))"

context byte_client
begin

lemma add_envs_sending:
  "sending sent s0 done_nvs st \<Longrightarrow> add_envs ops nvs st = (st', True) \<Longrightarrow> sending sent s0 (done_nvs @ nvs) st'"
proof (induction nvs arbitrary: st done_nvs)
  case (Cons nv nvs)
  obtain st1 where st1: "add_env ops (fst nv) (snd nv) st = (st1, True)" "add_envs ops nvs st1 = (st', True)"
    using Cons.prems(2) by (auto split: prod.splits if_splits)
  have "sending sent s0 (done_nvs @ [nv]) st1"
    using add_env_sending [OF Cons.prems(1) st1(1)] by simp
  from Cons.IH [OF this st1(2)] show ?case by simp
qed simp

lemma params_wire:
  assumes "buff st = []" "add_envs ops nvs st = (st1, True)" "addEnvEnd ops st1 = (st2, True)"
  obtains gs where "nvs = concat gs" "list_all group_ok gs"
    "sent (client st2) = sent (client st) @ concat (map param_record gs) @ header_bytes FCGI_PARAMS 0"
proof -
  have "sending sent (sent (client st)) [] st"
    unfolding sending_def using assms(1) by (intro exI [of _ "[]"]) simp
  then have s1: "sending sent (sent (client st)) nvs st1"
    using add_envs_sending [OF _ assms(2)] by fastforce
  obtain st3 where st3: "sendParams ops st1 = (st3, True)" "client_write ops (header_bytes FCGI_PARAMS 0) st3 = (st2, True)"
    using assms(3) by (auto simp: addEnvEnd_def sendRecordHeader_def split: prod.splits if_splits)
  show ?thesis
    using sendParams_sending [OF s1 st3(1)] client_write_ok [OF st3(2)] that by auto
qed

end

text \<open>
  C19. The environment of a request arrives unchanged: when a sender has added the variables
  \<open>nvs\<close> and ended them without an error, a reader on the other end of the connection hands the
  same variables in the same order to its receiver, however they were spread over records, and
  leaves exactly what was sent after them. The number of bytes is enough fuel.
\<close>

theorem fcgi_params_roundtrip:
  assumes "byte_client ops sent pending" and "byte_client ops' sent' pending'"
    and "buff st = []" and "add_envs ops nvs st = (st1, True)" and "addEnvEnd ops st1 = (st2, True)"
    and "sent (client st2) = sent (client st) @ wire" and "pending' c = wire @ r"
    and "deliver_all env nvs e = (e1, True)" and "env_end env e1 = (e2, ok)"
  shows "\<exists>c'. readParams (Suc (length wire)) ops' env c e = Some (c', e2, ok) \<and> pending' c' = r"
proof -
  obtain gs where gs: "nvs = concat gs" "list_all group_ok gs"
    "wire = concat (map param_record gs) @ header_bytes FCGI_PARAMS 0"
    using byte_client.params_wire [OF assms(1,3-5)] assms(6) by auto
  have "length gs \<le> length (concat (map param_record gs))"
    by (induction gs) (auto simp: param_record_def)
  then have "length gs < Suc (length wire)" using gs(3) by simp
  then show ?thesis
    using byte_client.readParams_all [OF assms(2) _ gs(2), of c r env e e1 e2 ok "Suc (length wire)"] assms(7-9) gs(1,3)
    by auto
qed

text \<open>A receiver that keeps what it is given.\<close>

definition collect :: "(u8 list \<times> u8 list) list env_ops" where
  "collect = \<lparr>env_add = (\<lambda>n v e. (e @ [(n, v)], True)), env_header = (\<lambda>n v e. (e @ [(n, v)], True)), env_end = (\<lambda>e. (e, True))\<rparr>"

definition empty_pipe :: "pipe fcgi" where
  "empty_pipe = new_fcgi \<lparr>incoming = [], outgoing = [], room = 1000\<rparr> FCGI_STDIN False"

theorem fcgi_params_roundtrip_witness:
  "\<exists>wire c'. outgoing (client (fst (addEnvEnd pipe_ops (fst (add_envs pipe_ops [([65], [66, 67]), ([68], [])] empty_pipe))))) = wire \<and>
     readParams (Suc (length wire)) pipe_ops collect \<lparr>incoming = wire @ [7], outgoing = [], room = 0\<rparr> [] =
       Some (c', [([65], [66, 67]), ([68], [])], True) \<and> incoming c' = [7]"
proof -
  let ?nvs = "[([65], [66, 67]), ([68], [])] :: (u8 list \<times> u8 list) list"
  obtain st1 where 1: "add_envs pipe_ops ?nvs empty_pipe = (st1, True)"
    by (simp add: add_env_def empty_pipe_def new_fcgi_def)
  have 2: "st1 = fst (add_envs pipe_ops ?nvs empty_pipe)" using 1 by simp
  obtain st2 where 3: "addEnvEnd pipe_ops st1 = (st2, True)"
    unfolding 2 by (simp add: add_env_def empty_pipe_def new_fcgi_def addEnvEnd_def sendParams_def
        sendRecordHeader_def client_write_def pipe_ops_def pipe_write_def addLen_def header_bytes_def be16_def)
  have "deliver_all collect ?nvs [] = (?nvs, True)" "env_end collect ?nvs = (?nvs, True)"
    by (simp_all add: deliver_def collect_def)
  with fcgi_params_roundtrip [OF pipe.byte_client_axioms pipe.byte_client_axioms _ 1 3, of "outgoing (client st2)"
      "\<lparr>incoming = outgoing (client st2) @ [7], outgoing = [], room = 0\<rparr>" "[7]" collect "[]" ?nvs ?nvs True]
  have "\<exists>c'. readParams (Suc (length (outgoing (client st2)))) pipe_ops collect
      \<lparr>incoming = outgoing (client st2) @ [7], outgoing = [], room = 0\<rparr> [] = Some (c', ?nvs, True) \<and> incoming c' = [7]"
    by (simp add: empty_pipe_def new_fcgi_def)
  then show ?thesis using 1 3 by auto
qed

section \<open>A body arrives in one piece\<close>

definition data_record :: "u8 \<Rightarrow> u8 list \<Rightarrow> u8 list" where
  "data_record ty bs = header_bytes ty (of_nat (length bs)) @ bs"

definition chunk_ok :: "u8 list \<Rightarrow> bool" where
  "chunk_ok bs \<longleftrightarrow> bs \<noteq> [] \<and> length bs \<le> 65535"

context byte_client
begin

lemma write_chunks_ok:
  "write_chunks ops ty bs st = (st', True) \<Longrightarrow>
   \<exists>cs. bs = concat cs \<and> list_all chunk_ok cs \<and>
     (\<exists>c. st' = st\<lparr>client := c\<rparr> \<and> sent c = sent (client st) @ concat (map (data_record ty) cs))"
proof (induction "length bs" arbitrary: bs st rule: less_induct)
  case less
  show ?case
  proof (cases "bs = []")
    case True
    then have "st' = st" using less.prems by (simp add: write_chunks.simps [of ops ty "[]" st])
    with True show ?thesis by (intro exI [of _ "[]"] conjI exI [of _ "client st"]) simp_all
  next
    case False
    define n where "n = min (length bs) 32767"
    obtain st1 st2 where 1: "client_write ops (header_bytes ty (of_nat n)) st = (st1, True)"
      and 2: "client_write ops (take n bs) st1 = (st2, True)" and 3: "write_chunks ops ty (drop n bs) st2 = (st', True)"
      using less.prems False
      by (auto simp: write_chunks.simps [of ops ty bs st] Let_def n_def sendRecordHeader_def split: prod.splits if_splits)
    have n: "0 < n" "n \<le> length bs" "n \<le> 65535" using False by (auto simp: n_def)
    obtain cs c where cs: "drop n bs = concat cs" "list_all chunk_ok cs" "st' = st2\<lparr>client := c\<rparr>"
      "sent c = sent (client st2) @ concat (map (data_record ty) cs)"
      using less.hyps [OF _ 3] n by (metis diff_less length_drop less_le_trans)
    have "bs = concat (take n bs # cs)" using cs(1) append_take_drop_id [of n bs] by simp
    moreover have "list_all chunk_ok (take n bs # cs)" using cs(2) n False by (simp add: chunk_ok_def)
    moreover have "st' = st\<lparr>client := c\<rparr>" "sent c = sent (client st) @ concat (map (data_record ty) (take n bs # cs))"
      using client_write_ok [OF 1] client_write_ok [OF 2] cs(3,4) n(2) by (auto simp: data_record_def min_absorb2)
    ultimately show ?thesis by blast
  qed
qed

lemma body_wire:
  assumes "write_data ops ty bs st = (st1, True)" "bs \<noteq> []" "data_type st = ty" "write_end ops False st1 = (st2, True)"
  obtains cs where "bs = concat cs" "list_all chunk_ok cs"
    "sent (client st2) = sent (client st) @ concat (map (data_record ty) cs) @ header_bytes ty 0 @ header_bytes FCGI_END_REQUEST 0"
proof -
  have "write_chunks ops ty bs st = (st1, True)" using assms(1,2) by (simp add: write_data_def)
  then obtain cs c where cs: "bs = concat cs" "list_all chunk_ok cs" "st1 = st\<lparr>client := c\<rparr>"
    "sent c = sent (client st) @ concat (map (data_record ty) cs)"
    using write_chunks_ok by blast
  obtain st3 where 1: "client_write ops (header_bytes ty 0) st1 = (st3, True)"
    and 2: "client_write ops (header_bytes FCGI_END_REQUEST 0) st3 = (st2, True)"
    using assms(3,4) cs(3)
    by (auto simp: write_end_def write_data_def sendRecordHeader_def split: prod.splits if_splits)
  show ?thesis using that [OF cs(1,2)] client_write_ok [OF 1] client_write_ok [OF 2] cs(3,4) by auto
qed

text \<open>One record is read whole; the empty record ends the data.\<close>

lemma read_data_record:
  assumes "pending (client st) = data_record ty bs @ r" "chunk_ok bs" "ty = FCGI_STDIN \<or> ty = FCGI_STDOUT"
    "\<not> data_empty_length st"
  obtains c where "read_data (Suc k) ops l st = Some (st\<lparr>client := c\<rparr>, Some bs, int (length bs), True)" "pending c = r"
proof -
  let ?h = "header_bytes ty (of_nat (length bs))"
  have len: "length bs \<le> 65535" "0 < length bs" using assms(2) by (auto simp: chunk_ok_def)
  obtain c1 where c1: "read_all ops 8 (client st) = (c1, Some ?h)" "pending c1 = bs @ r"
    using read_append [of "client st" ?h "bs @ r" 8] assms(1) by (auto simp: data_record_def)
  obtain c2 where c2: "read_all ops (length bs) c1 = (c2, Some bs)" "pending c2 = r"
    using read_append [OF c1(2) refl] by blast
  show ?thesis
    using that [of c2] c1(1) c2 len assms(3,4)
    by (auto simp: unat_of_nat_u16 recvPaddingData_def Let_def)
qed

lemma read_data_end:
  assumes "pending (client st) = header_bytes ty 0 @ r" "ty = FCGI_STDIN \<or> ty = FCGI_STDOUT" "\<not> data_empty_length st"
  obtains c where "read_data (Suc k) ops l st = Some (st\<lparr>client := c, data_empty_length := True\<rparr>, None, 0, True)" "pending c = r"
proof -
  obtain c1 where "read_all ops 8 (client st) = (c1, Some (header_bytes ty 0))" "pending c1 = r"
    using read_append [of "client st" "header_bytes ty 0" r 8] assms(1) by auto
  then show ?thesis using that [of c1] assms(2,3) by (auto simp: recvPaddingData_def)
qed

end

text \<open>
  The reader's state while a body comes in: \<open>rb\<close> is buffered, \<open>cs\<close> are the records to come.
\<close>

definition receiving :: "('c \<Rightarrow> u8 list) \<Rightarrow> u8 \<Rightarrow> u8 list \<Rightarrow> u8 list list \<Rightarrow> u8 list \<Rightarrow> 'c fcgi \<Rightarrow> bool" where
  "receiving pending ty rb cs r st \<longleftrightarrow>
     (rb = [] \<and> readLeft st \<le> 0 \<or> readBuf st = Some rb \<and> readLeft st = int (length rb)) \<and>
     \<not> data_empty_length st \<and> list_all chunk_ok cs \<and>
     pending (client st) = concat (map (data_record ty) cs) @ header_bytes ty 0 @ r"

text \<open>What a caller does: read into a buffer of \<open>len\<close> bytes until nothing or an error comes back.\<close>

fun drain :: "nat \<Rightarrow> 'c client_ops \<Rightarrow> int \<Rightarrow> 'c fcgi \<Rightarrow> ('c fcgi \<times> u8 list \<times> int) option" where
  "drain 0 ops len st = None"
| "drain (Suc fuel) ops len st =
     (case fcgi_read 1 ops len st of
        None \<Rightarrow> None
      | Some (st1, bs, n) \<Rightarrow>
          (if n \<le> 0 then Some (st1, bs, n)
           else (case drain fuel ops len st1 of
                   None \<Rightarrow> None
                 | Some (st2, bs2, m) \<Rightarrow> Some (st2, bs @ bs2, m))))"

lemma read_turns_fetch:
  assumes "readLeft st \<le> 0" "read_data k ops (readLeft st) (st\<lparr>readBuf := None\<rparr>) = Some (st1, b, l, True)"
  shows "read_turns (Suc t) k ops len st =
    (if l \<le> 0 then Some (st1\<lparr>readBuf := b, readLeft := l\<rparr>, [], 0) else read_turns t k ops len (st1\<lparr>readBuf := b, readLeft := l\<rparr>))"
  using assms by (simp add: Let_def)

declare read_turns.simps(2) [simp del] read_data.simps(2) [simp del]

context byte_client
begin

lemma read_turns_buffered:
  assumes "receiving pending ty rb cs r st" "rb \<noteq> []" "0 < len"
  shows "\<exists>st' n. read_turns (Suc t) k ops len st = Some (st', take n rb, int n) \<and> 0 < n \<and> n \<le> length rb \<and>
    receiving pending ty (drop n rb) cs r st'"
proof -
  have "readBuf st = Some rb" "readLeft st = int (length rb)" "0 < length rb"
    using assms(1,2) by (auto simp: receiving_def)
  then show ?thesis
    using assms(1,3) by (intro exI [of _ "st\<lparr>readBuf := Some (drop (min len (length rb)) rb),
        readLeft := readLeft st - int (min len (length rb))\<rparr>"] exI [of _ "min len (length rb)"])
      (auto simp: receiving_def min_def read_turns.simps(2))
qed

lemma fcgi_read_step:
  assumes "receiving pending ty rb cs r st" "ty = FCGI_STDIN \<or> ty = FCGI_STDOUT" "0 < len" "rb @ concat cs \<noteq> []"
  obtains st' n rb' cs' where "fcgi_read 1 ops len st = Some (st', take n (rb @ concat cs), int n)" "0 < n"
    "rb' @ concat cs' = drop n (rb @ concat cs)" "receiving pending ty rb' cs' r st'"
proof (cases "rb = []")
  case False
  obtain st' n where "read_turns (Suc 1) 1 ops (nat len) st = Some (st', take n rb, int n)" "0 < n" "n \<le> length rb"
    "receiving pending ty (drop n rb) cs r st'"
    using read_turns_buffered [OF assms(1) False, of "nat len" 1 1] assms(3) by auto
  then show ?thesis using that [of st' n "drop n rb" cs] assms(3) by (simp add: fcgi_read_def numeral_2_eq_2)
next
  case True
  then obtain b cs' where cs: "cs = b # cs'" using assms(4) by (cases cs) auto
  have inv: "readLeft st \<le> 0" "\<not> data_empty_length (st\<lparr>readBuf := None\<rparr>)" "chunk_ok b" "list_all chunk_ok cs'"
    "pending (client (st\<lparr>readBuf := None\<rparr>)) = data_record ty b @ concat (map (data_record ty) cs') @ header_bytes ty 0 @ r"
    using assms(1) True cs by (auto simp: receiving_def)
  obtain c where c: "read_data (Suc 0) ops (readLeft st) (st\<lparr>readBuf := None\<rparr>) =
      Some (st\<lparr>readBuf := None, client := c\<rparr>, Some b, int (length b), True)"
    "pending c = concat (map (data_record ty) cs') @ header_bytes ty 0 @ r"
    using read_data_record [OF inv(5,3) assms(2) inv(2)] by blast
  define st2 where "st2 = st\<lparr>client := c, readBuf := Some b, readLeft := int (length b)\<rparr>"
  have rec: "receiving pending ty b cs' r st2" "b \<noteq> []"
    using inv c(2) by (auto simp: receiving_def st2_def chunk_ok_def)
  obtain st' n where "read_turns (Suc 0) 1 ops (nat len) st2 = Some (st', take n b, int n)" "0 < n" "n \<le> length b"
    "receiving pending ty (drop n b) cs' r st'"
    using read_turns_buffered [OF rec, of "nat len" 0 1] assms(3) by auto
  then show ?thesis
    using that [of st' n "drop n b" cs'] assms(3) True cs inv(1) rec(2) read_turns_fetch [OF inv(1) c(1), of 1 "nat len"]
    by (simp add: fcgi_read_def numeral_2_eq_2 st2_def)
qed

lemma drain_all:
  assumes "receiving pending ty rb cs r st" "ty = FCGI_STDIN \<or> ty = FCGI_STDOUT" "0 < len" "length (rb @ concat cs) < fuel"
  shows "\<exists>st'. drain fuel ops len st = Some (st', rb @ concat cs, 0) \<and> data_empty_length st' \<and> pending (client st') = r"
  using assms
proof (induction fuel arbitrary: rb cs st)
  case (Suc fuel)
  show ?case
  proof (cases "rb @ concat cs = []")
    case True
    then have "cs = []" using Suc.prems(1) by (cases cs) (auto simp: receiving_def chunk_ok_def)
    then have inv: "readLeft st \<le> 0" "\<not> data_empty_length (st\<lparr>readBuf := None\<rparr>)"
      "pending (client (st\<lparr>readBuf := None\<rparr>)) = header_bytes ty 0 @ r"
      using Suc.prems(1) True by (auto simp: receiving_def)
    obtain c where "read_data (Suc 0) ops (readLeft st) (st\<lparr>readBuf := None\<rparr>) =
        Some (st\<lparr>readBuf := None, client := c, data_empty_length := True\<rparr>, None, 0, True)" "pending c = r"
      using read_data_end [OF inv(3) Suc.prems(2) inv(2)] by blast
    then show ?thesis using True inv(1) Suc.prems(3) by (simp add: fcgi_read_def numeral_2_eq_2 read_turns_fetch)
  next
    case False
    obtain st1 n rb' cs' where 1: "fcgi_read 1 ops len st = Some (st1, take n (rb @ concat cs), int n)" "0 < n"
      "rb' @ concat cs' = drop n (rb @ concat cs)" "receiving pending ty rb' cs' r st1"
      using fcgi_read_step [OF Suc.prems(1-3) False] by blast
    have "length (rb' @ concat cs') < fuel" using 1(2,3) Suc.prems(4) False by (cases fuel) auto
    then obtain st2 where "drain fuel ops len st1 = Some (st2, rb' @ concat cs', 0)" "data_empty_length st2"
      "pending (client st2) = r"
      using Suc.IH [OF 1(4) Suc.prems(2,3)] by blast
    then have "drain (Suc fuel) ops len st = Some (st2, take n (rb @ concat cs) @ drop n (rb @ concat cs), 0)"
      using 1 by (simp del: take_append drop_append)
    then show ?thesis using \<open>data_empty_length st2\<close> \<open>pending (client st2) = r\<close> by (simp del: take_append drop_append drain.simps)
  qed
qed simp

end

text \<open>
  A body that was written in one call and ended is read back byte for byte, whatever the size
  of the reader's buffer: reading until nothing comes gives the body, the end of the data is
  reported as 0 and remembered, and the record that ends the request is what is left.
\<close>

theorem fcgi_body_roundtrip:
  assumes "byte_client ops sent pending" and "byte_client ops' sent' pending'"
    and "ty = FCGI_STDIN \<or> ty = FCGI_STDOUT" and "bs \<noteq> []" and "data_type st = ty"
    and "write_data ops ty bs st = (st1, True)" and "write_end ops False st1 = (st2, True)"
    and "sent (client st2) = sent (client st) @ wire"
    and "rd = new_fcgi c ty' ext" and "pending' c = wire @ r" and "0 < len"
  shows "\<exists>rd'. drain (Suc (length bs)) ops' len rd = Some (rd', bs, 0) \<and> data_empty_length rd' \<and>
    pending' (client rd') = header_bytes FCGI_END_REQUEST 0 @ r"
proof -
  obtain cs where cs: "bs = concat cs" "list_all chunk_ok cs"
    "wire = concat (map (data_record ty) cs) @ header_bytes ty 0 @ header_bytes FCGI_END_REQUEST 0"
    using byte_client.body_wire [OF assms(1,6,4,5,7)] assms(8) by auto
  have "receiving pending' ty [] cs (header_bytes FCGI_END_REQUEST 0 @ r) rd"
    using cs(2,3) assms(9,10) by (simp add: receiving_def new_fcgi_def)
  from byte_client.drain_all [OF assms(2) this assms(3,11), of "Suc (length bs)"] cs(1) show ?thesis
    by simp
qed

theorem fcgi_body_roundtrip_witness:
  "\<exists>wire rd'. outgoing (client (fst (write_end pipe_ops False (fst (write_data pipe_ops FCGI_STDIN [1, 2, 3] empty_pipe))))) = wire \<and>
     drain 4 pipe_ops 2 (new_fcgi \<lparr>incoming = wire, outgoing = [], room = 0\<rparr> FCGI_STDOUT True) = Some (rd', [1, 2, 3], 0)"
proof -
  obtain st1 where 1: "write_data pipe_ops FCGI_STDIN [1, 2, 3] empty_pipe = (st1, True)"
    by (simp add: write_data_def write_chunks.simps empty_pipe_def new_fcgi_def sendRecordHeader_def client_write_def
        pipe_ops_def pipe_write_def header_bytes_def)
  have e: "st1 = fst (write_data pipe_ops FCGI_STDIN [1, 2, 3] empty_pipe)" using 1 by simp
  obtain st2 where 2: "write_end pipe_ops False st1 = (st2, True)"
    unfolding e by (simp add: write_data_def write_end_def write_chunks.simps empty_pipe_def new_fcgi_def sendRecordHeader_def
        client_write_def pipe_ops_def pipe_write_def header_bytes_def)
  have 3: "data_type empty_pipe = FCGI_STDIN" "outgoing (client empty_pipe) = []" by (simp_all add: empty_pipe_def new_fcgi_def)
  have "\<exists>rd'. drain (Suc (length [1, 2, 3 :: u8])) pipe_ops 2
      (new_fcgi \<lparr>incoming = outgoing (client st2), outgoing = [], room = 0\<rparr> FCGI_STDOUT True) = Some (rd', [1, 2, 3], 0)"
    using fcgi_body_roundtrip [OF pipe.byte_client_axioms pipe.byte_client_axioms _ _ 3(1) 1 2, of "outgoing (client st2)"
        _ "\<lparr>incoming = outgoing (client st2), outgoing = [], room = 0\<rparr>" FCGI_STDOUT True "[]" 2] 3(2)
    by auto
  then show ?thesis using 1 2 by (simp del: drain.simps add: eval_nat_numeral)
qed

fun add_all :: "'e env_ops \<Rightarrow> (u8 list \<times> u8 list) list \<Rightarrow> 'e \<Rightarrow> 'e \<times> bool" where
  "add_all env [] e = (e, True)"
| "add_all env (nv # nvs) e =
     (case env_add env (fst nv) (snd nv) e of (e1, ok) \<Rightarrow> if ok then add_all env nvs e1 else (e1, False))"

text \<open>
  The in-memory parser agrees with the encoder: the encoded variables are handed to the
  receiver one by one, in order, up to the first one it refuses, and the answer says whether
  all were taken.
\<close>

theorem parse_param_encoded:
  assumes "list_all (\<lambda>nv. length (fst nv) < 2147483648 \<and> length (snd nv) < 2147483648) nvs"
  shows "parse_param env (params_body nvs) e = add_all env nvs e"
  using assms
proof (induction nvs arbitrary: e)
  case Nil
  then show ?case by (simp add: parse_param.simps)
next
  case (Cons nv nvs)
  have e: "params_body (nv # nvs) = addLen (length (fst nv)) @ addLen (length (snd nv)) @ fst nv @ snd nv @ params_body nvs"
    by (simp add: params_body_def encode_pair_def)
  have ne: "addLen (length (fst nv)) \<noteq> []" by (simp add: addLen_def be32_def)
  show ?case
    using Cons ne
    by (subst parse_param.simps) (simp add: e parse_len_addLen split: prod.split)
qed

theorem parse_param_encoded_witness:
  "parse_param collect (params_body [([65], [66]), ([67], [])]) [] = ([([65], [66]), ([67], [])], True)"
  using parse_param_encoded [of "[([65], [66]), ([67], [])]" collect "[]"] by (simp add: collect_def)

end
