(* ===== verification/Ajp_Message.thy ===== *)
theory Ajp_Message
  imports Byte_Stream
begin

text \<open>
  Packets of the AJP protocol (\<^verbatim>\<open>src/KAjpMessage.cpp\<close>, \<^verbatim>\<open>include/KAjpMessage.h\<close>): a
  writer with a buffer of 8192 bytes, of which the first four are the frame header, and a parser
  over the content of one packet. A store outside the buffer is the result \<open>None\<close>. The writer
  remembers a failed call in \<open>valid\<close>, and nothing is sent after one.
\<close>

unbundle bit_operations_syntax

section \<open>The writer\<close>

definition AJP_PACKAGE :: int where "AJP_PACKAGE = 8192"

record 'c ajp_message =
  mbuf :: "u8 list"
  mpos :: int
  mstream :: "'c option"
  mvalid :: bool

definition new_ajp_message :: "'c option \<Rightarrow> u8 list \<Rightarrow> 'c ajp_message" where
  "new_ajp_message st mem = \<lparr>mbuf = mem, mpos = 4, mstream = st, mvalid = (st \<noteq> None)\<rparr>"

definition msg_reset :: "'c ajp_message \<Rightarrow> 'c ajp_message" where
  "msg_reset m = m\<lparr>mpos := 4\<rparr>"

definition checkSend :: "int \<Rightarrow> 'c ajp_message \<Rightarrow> bool" where
  "checkSend len m \<longleftrightarrow> mvalid m \<and> 0 \<le> len \<and> len \<le> AJP_PACKAGE - 4 \<and> mpos m \<le> AJP_PACKAGE - len"

text \<open>\<^verbatim>\<open>buf[pos++] = b\<close> for the bytes of a list.\<close>

fun store :: "u8 list \<Rightarrow> 'c ajp_message \<Rightarrow> 'c ajp_message option" where
  "store [] m = Some m"
| "store (b # bs) m =
     (if 0 \<le> mpos m \<and> mpos m < int (length (mbuf m))
      then store bs (m\<lparr>mbuf := (mbuf m)[nat (mpos m) := b], mpos := mpos m + 1\<rparr>)
      else None)"

definition put_checked :: "int \<Rightarrow> u8 list \<Rightarrow> 'c ajp_message \<Rightarrow> ('c ajp_message \<times> bool) option" where
  "put_checked len bs m =
     (if \<not> checkSend len m then Some (m\<lparr>mvalid := False\<rparr>, False)
      else map_option (\<lambda>m'. (m', True)) (store bs m))"

definition putByte :: "u8 \<Rightarrow> 'c ajp_message \<Rightarrow> ('c ajp_message \<times> bool) option" where
  "putByte v m = put_checked 1 [v] m"

definition putShort :: "u16 \<Rightarrow> 'c ajp_message \<Rightarrow> ('c ajp_message \<times> bool) option" where
  "putShort v m = put_checked 2 [ucast (drop_bit 8 v AND 0xFF), ucast (v AND 0xFF)] m"

definition putInt :: "u32 \<Rightarrow> 'c ajp_message \<Rightarrow> ('c ajp_message \<times> bool) option" where
  "putInt v m =
     put_checked 4 [ucast (drop_bit 24 v AND 0xFF), ucast (drop_bit 16 v AND 0xFF), ucast (drop_bit 8 v AND 0xFF),
       ucast (v AND 0xFF)] m"

text \<open>
  \<^verbatim>\<open>putString (str, len)\<close>; \<open>None\<close> is the null pointer. The length of a text in memory
  is an \<^verbatim>\<open>int\<close>.
\<close>

definition putString :: "u8 list option \<Rightarrow> 'c ajp_message \<Rightarrow> ('c ajp_message \<times> bool) option" where
  "putString str m =
     (case str of
        None \<Rightarrow> Some (m\<lparr>mvalid := False\<rparr>, False)
      | Some s \<Rightarrow>
          (if 0xFFFF \<le> length s then Some (m\<lparr>mvalid := False\<rparr>, False)
           else put_checked (int (length s) + 3)
                  ([ucast (drop_bit 8 (of_nat (length s) :: u32) AND 0xFF), ucast ((of_nat (length s) :: u32) AND 0xFF)] @ s @ [0]) m))"

definition msg_send :: "'c client_ops \<Rightarrow> 'c ajp_message \<Rightarrow> ('c ajp_message \<times> bool) option" where
  "msg_send ops m =
     (case mstream m of
        None \<Rightarrow> Some (m, False)
      | Some c \<Rightarrow>
          (if \<not> mvalid m \<or> mpos m \<le> 4 \<or> AJP_PACKAGE < mpos m then Some (m, False)
           else if length (mbuf m) < nat (mpos m) then None
           else
             (let dLen = mpos m - 4;
                  b = (mbuf m)[0 := 0x12, 1 := 0x34, 2 := of_int (dLen div 256), 3 := of_int dLen]
              in case write_all ops (take (nat (mpos m)) b) c of
                   (c', ok) \<Rightarrow>
                     (let m' = m\<lparr>mbuf := b, mstream := Some c'\<rparr> in
                      if ok then Some (msg_reset m', True) else Some (m', False)))))"

definition msg_end :: "'c client_ops \<Rightarrow> 'c ajp_message \<Rightarrow> ('c ajp_message \<times> bool) option" where
  "msg_end ops m =
     (if \<not> mvalid m then Some (m, False)
      else if 4 < mpos m then msg_send ops m else Some (m, True))"

section \<open>The parser\<close>

text \<open>A read outside the memory of the packet is the result \<open>None\<close>.\<close>

record ajp_parser =
  pbuf :: "u8 list"
  ppos :: int
  plen :: int

definition parser_init :: "u8 list \<Rightarrow> int \<Rightarrow> ajp_parser" where
  "parser_init bs len = \<lparr>pbuf = bs, ppos = 0, plen = len\<rparr>"

definition getLen :: "ajp_parser \<Rightarrow> int" where
  "getLen p = plen p - ppos p"

definition load :: "int \<Rightarrow> ajp_parser \<Rightarrow> u8 option" where
  "load i p = (if 0 \<le> i \<and> i < int (length (pbuf p)) then Some (pbuf p ! nat i) else None)"

definition peekByte :: "ajp_parser \<Rightarrow> u8 option option" where
  "peekByte p = (if getLen p < 1 then Some None else map_option Some (load (ppos p) p))"

definition getType :: "ajp_parser \<Rightarrow> u8 option" where
  "getType p = load 0 p"

definition getByte :: "ajp_parser \<Rightarrow> (ajp_parser \<times> u8 option) option" where
  "getByte p =
     (if getLen p \<le> 0 then Some (p, None)
      else map_option (\<lambda>b. (p\<lparr>ppos := ppos p + 1\<rparr>, Some b)) (load (ppos p) p))"

definition getShort :: "ajp_parser \<Rightarrow> (ajp_parser \<times> u16 option) option" where
  "getShort p =
     (if getLen p < 2 then Some (p, None)
      else
        (case (load (ppos p) p, load (ppos p + 1) p) of
           (Some a, Some b) \<Rightarrow> Some (p\<lparr>ppos := ppos p + 2\<rparr>, Some (of_be16 a b))
         | _ \<Rightarrow> None))"

text \<open>\<^verbatim>\<open>KAjpMessageParser::getString\<close>; the text is what the returned pointer and length stand for.\<close>

definition getString :: "ajp_parser \<Rightarrow> (ajp_parser \<times> u8 list option) option" where
  "getString p =
     (case getShort p of
        None \<Rightarrow> None
      | Some (p1, None) \<Rightarrow> Some (p1, None)
      | Some (p1, Some slen) \<Rightarrow>
          (if slen = 0xFFFF \<or> getLen p1 < int (unat slen) + 1 then Some (p1, None)
           else
             (case load (ppos p1 + int (unat slen)) p1 of
                None \<Rightarrow> None
              | Some z \<Rightarrow>
                  (if z \<noteq> 0 then Some (p1, None)
                   else Some (p1\<lparr>ppos := ppos p1 + int (unat slen) + 1\<rparr>,
                          Some (take (unat slen) (drop (nat (ppos p1)) (pbuf p1))))))))"

section \<open>The buffer holds\<close>

definition msg_ok :: "'c ajp_message \<Rightarrow> bool" where
  "msg_ok m \<longleftrightarrow> length (mbuf m) = 8192 \<and> 4 \<le> mpos m \<and> mpos m \<le> 8192 \<and> (mvalid m \<longrightarrow> mstream m \<noteq> None)"

text \<open>The content written so far.\<close>

definition content :: "'c ajp_message \<Rightarrow> u8 list" where
  "content m = take (nat (mpos m) - 4) (drop 4 (mbuf m))"

lemma store_ok:
  assumes "length (mbuf m) = 8192" "4 \<le> mpos m" "mpos m + int (length bs) \<le> 8192"
  shows "\<exists>b. store bs m = Some (m\<lparr>mbuf := b, mpos := mpos m + int (length bs)\<rparr>) \<and> length b = 8192 \<and>
    take (nat (mpos m) - 4 + length bs) (drop 4 b) = content m @ bs"
  using assms
proof (induction bs arbitrary: m)
  case Nil
  then show ?case by (intro exI [of _ "mbuf m"]) (simp add: content_def)
next
  case (Cons b bs)
  let ?m = "m\<lparr>mbuf := (mbuf m)[nat (mpos m) := b], mpos := mpos m + 1\<rparr>"
  obtain b' where b': "store bs ?m = Some (?m\<lparr>mbuf := b', mpos := mpos ?m + int (length bs)\<rparr>)" "length b' = 8192"
    "take (nat (mpos ?m) - 4 + length bs) (drop 4 b') = content ?m @ bs"
    using Cons.IH [of ?m] Cons.prems by auto
  have n: "nat (mpos m + 1) - 4 = Suc (nat (mpos m) - 4)" "nat (mpos m) - 4 < 8188" "4 + (nat (mpos m) - 4) = nat (mpos m)"
    using Cons.prems by auto
  have "content ?m = content m @ [b]"
    using Cons.prems n by (simp add: content_def take_Suc_conv_app_nth drop_update_swap)
  moreover have "nat (mpos ?m) - 4 + length bs = nat (mpos m) - 4 + length (b # bs)" using n(1) by simp
  moreover have "store (b # bs) m = store bs ?m" using Cons.prems by simp
  moreover have "mpos ?m + int (length bs) = mpos m + int (length (b # bs))" by simp
  ultimately show ?case using b' by (intro exI [of _ b']) (simp del: store.simps)
qed

lemma put_checked_ok:
  assumes "msg_ok m" "int (length bs) = len"
  shows "put_checked len bs m =
      (if checkSend len m then put_checked len bs m else Some (m\<lparr>mvalid := False\<rparr>, False))"
    and "checkSend len m \<Longrightarrow> \<exists>m'. put_checked len bs m = Some (m', True) \<and> msg_ok m' \<and> mvalid m' \<and>
      mstream m' = mstream m \<and> content m' = content m @ bs"
proof -
  show "put_checked len bs m = (if checkSend len m then put_checked len bs m else Some (m\<lparr>mvalid := False\<rparr>, False))"
    by (simp add: put_checked_def)
  assume c: "checkSend len m"
  have "mpos m + int (length bs) \<le> 8192" "mvalid m" using c assms(2) by (auto simp: checkSend_def AJP_PACKAGE_def)
  moreover from this obtain b where "store bs m = Some (m\<lparr>mbuf := b, mpos := mpos m + int (length bs)\<rparr>)" "length b = 8192"
    "take (nat (mpos m) - 4 + length bs) (drop 4 b) = content m @ bs"
    using store_ok [of m bs] assms(1) by (auto simp: msg_ok_def)
  ultimately show "\<exists>m'. put_checked len bs m = Some (m', True) \<and> msg_ok m' \<and> mvalid m' \<and>
      mstream m' = mstream m \<and> content m' = content m @ bs"
    using c assms(1) by (auto simp: put_checked_def msg_ok_def content_def nat_add_distrib)
qed

section \<open>Round trip\<close>

datatype ajp_item = AByte u8 | AShort u16 | AString "u8 list"

fun item_bytes :: "ajp_item \<Rightarrow> u8 list" where
  "item_bytes (AByte b) = [b]"
| "item_bytes (AShort w) = be16 w"
| "item_bytes (AString s) = be16 (of_nat (length s)) @ s @ [0]"

fun put_item :: "ajp_item \<Rightarrow> 'c ajp_message \<Rightarrow> ('c ajp_message \<times> bool) option" where
  "put_item (AByte b) m = putByte b m"
| "put_item (AShort w) m = putShort w m"
| "put_item (AString s) m = putString (Some s) m"

fun get_item :: "ajp_item \<Rightarrow> ajp_parser \<Rightarrow> (ajp_parser \<times> ajp_item option) option" where
  "get_item (AByte _) p = map_option (map_prod id (map_option AByte)) (getByte p)"
| "get_item (AShort _) p = map_option (map_prod id (map_option AShort)) (getShort p)"
| "get_item (AString _) p = map_option (map_prod id (map_option AString)) (getString p)"

text \<open>A program of puts: all are tried, the answer says whether all succeeded.\<close>

fun put_items :: "ajp_item list \<Rightarrow> 'c ajp_message \<Rightarrow> ('c ajp_message \<times> bool) option" where
  "put_items [] m = Some (m, True)"
| "put_items (x # xs) m =
     (case put_item x m of
        None \<Rightarrow> None
      | Some (m1, ok) \<Rightarrow> map_option (\<lambda>(m2, ok2). (m2, ok \<and> ok2)) (put_items xs m1))"

fun get_items :: "ajp_item list \<Rightarrow> ajp_parser \<Rightarrow> (ajp_parser \<times> ajp_item list option) option" where
  "get_items [] p = Some (p, Some [])"
| "get_items (x # xs) p =
     (case get_item x p of
        None \<Rightarrow> None
      | Some (p1, None) \<Rightarrow> Some (p1, None)
      | Some (p1, Some y) \<Rightarrow> map_option (map_prod id (map_option ((#) y))) (get_items xs p1))"

lemma low_byte: "(ucast ((w :: 'a::len word) AND 0xFF) :: u8) = ucast w"
proof -
  have "w AND 0xFF = take_bit 8 w" by (simp add: take_bit_eq_mask mask_eq_exp_minus_1)
  then show ?thesis
    by (intro bit_word_eqI) (auto simp: bit_simps dest: bit_imp_le_length)
qed

lemma len_bytes: "[ucast (drop_bit 8 (of_nat n :: u32)), ucast (of_nat n :: u32)] = be16 (of_nat n)"
  unfolding be16_def
  by (auto intro!: bit_word_eqI simp: bit_simps)

lemma item_puts:
  "put_item (AByte b) m = put_checked (int (length (item_bytes (AByte b)))) (item_bytes (AByte b)) m"
  "put_item (AShort w) m = put_checked (int (length (item_bytes (AShort w)))) (item_bytes (AShort w)) m"
  "length s < 0xFFFF \<Longrightarrow>
   put_item (AString s) m = put_checked (int (length (item_bytes (AString s)))) (item_bytes (AString s)) m"
  using len_bytes [of "length s"]
  by (simp_all add: putByte_def putShort_def putString_def low_byte be16_def add.commute)

text \<open>
  Every put keeps the buffer's invariant and does not store outside it; it appends its bytes, or
  fails, leaves the content alone and makes the message invalid for good.
\<close>

lemma put_item_ok:
  assumes "msg_ok m"
  shows "\<exists>m' ok. put_item x m = Some (m', ok) \<and> msg_ok m' \<and> mstream m' = mstream m \<and> mvalid m' = ok \<and>
    (\<not> mvalid m \<longrightarrow> \<not> ok) \<and> (ok \<longrightarrow> (\<forall>s. x = AString s \<longrightarrow> length s < 0xFFFF)) \<and>
    content m' = content m @ (if ok then item_bytes x else [])"
proof -
  have fail: "msg_ok (m\<lparr>mvalid := False\<rparr>)" "content (m\<lparr>mvalid := False\<rparr>) = content m"
    using assms by (auto simp: msg_ok_def content_def)
  show ?thesis
  proof (cases "\<exists>s. x = AString s \<and> 0xFFFF \<le> length s")
    case True
    then show ?thesis using fail by (intro exI [of _ "m\<lparr>mvalid := False\<rparr>"] exI [of _ False]) (auto simp: putString_def)
  next
    case False
    then have e: "put_item x m = put_checked (int (length (item_bytes x))) (item_bytes x) m"
      using item_puts by (cases x) (auto simp: not_le simp del: put_item.simps)
    show ?thesis
    proof (cases "checkSend (int (length (item_bytes x))) m")
      case True
      then have "mvalid m" by (simp add: checkSend_def)
      with put_checked_ok(2) [OF assms refl True] False show ?thesis
        unfolding e by auto
    next
      case no: False
      then show ?thesis unfolding e put_checked_def using fail by auto
    qed
  qed
qed

lemma put_items_ok:
  assumes "msg_ok m"
  shows "\<exists>m' ok. put_items xs m = Some (m', ok) \<and> msg_ok m' \<and> mstream m' = mstream m \<and>
    (mvalid m \<longrightarrow> mvalid m' = ok) \<and> (\<not> mvalid m \<longrightarrow> \<not> mvalid m') \<and>
    (mvalid m \<longrightarrow> ok \<longrightarrow> content m' = content m @ concat (map item_bytes xs) \<and>
      (\<forall>s. AString s \<in> set xs \<longrightarrow> length s < 0xFFFF))"
  using assms
proof (induction xs arbitrary: m)
  case (Cons x xs)
  obtain m1 ok1 where 1: "put_item x m = Some (m1, ok1)" "msg_ok m1" "mstream m1 = mstream m" "mvalid m1 = ok1"
    "\<not> mvalid m \<longrightarrow> \<not> ok1" "ok1 \<longrightarrow> (\<forall>s. x = AString s \<longrightarrow> length s < 0xFFFF)"
    "content m1 = content m @ (if ok1 then item_bytes x else [])"
    using put_item_ok [OF Cons.prems, of x] by blast
  then show ?case using Cons.IH [OF 1(2)] by (cases ok1) fastforce+
qed auto

text \<open>Reading: the parser stands before \<open>bs\<close> in a packet that ends with them.\<close>

definition stands_before :: "u8 list \<Rightarrow> ajp_parser \<Rightarrow> bool" where
  "stands_before bs p \<longleftrightarrow> (\<exists>pre. pbuf p = pre @ bs \<and> ppos p = int (length pre) \<and> plen p = int (length (pbuf p)))"

lemma stands_before_load:
  assumes "stands_before bs p"
  shows "i < length bs \<Longrightarrow> load (ppos p + int i) p = Some (bs ! i)" and "getLen p = int (length bs)"
    and "take n (drop (nat (ppos p)) (pbuf p)) = take n bs"
    and "n \<le> length bs \<Longrightarrow> stands_before (drop n bs) (p\<lparr>ppos := ppos p + int n\<rparr>)"
proof -
  obtain pre where pre: "pbuf p = pre @ bs" "ppos p = int (length pre)" "plen p = int (length (pbuf p))"
    using assms by (auto simp: stands_before_def)
  show "i < length bs \<Longrightarrow> load (ppos p + int i) p = Some (bs ! i)"
    using pre by (auto simp: load_def nth_append nat_add_distrib)
  show "getLen p = int (length bs)" "take n (drop (nat (ppos p)) (pbuf p)) = take n bs"
    using pre by (simp_all add: getLen_def)
  show "n \<le> length bs \<Longrightarrow> stands_before (drop n bs) (p\<lparr>ppos := ppos p + int n\<rparr>)"
    unfolding stands_before_def using pre by (intro exI [of _ "pre @ take n bs"]) auto
qed

lemma getShort_be16:
  assumes "stands_before (be16 w @ r) p"
  shows "getShort p = Some (p\<lparr>ppos := ppos p + 2\<rparr>, Some w)" "stands_before r (p\<lparr>ppos := ppos p + 2\<rparr>)"
  using stands_before_load(1) [OF assms, of 0] stands_before_load(1) [OF assms, of 1]
    stands_before_load(2) [OF assms] stands_before_load(4) [OF assms, of 2] of_be16_be16 [of w]
  by (simp_all add: getShort_def be16_def)

lemma get_item_bytes:
  assumes "stands_before (item_bytes x @ r) p" "\<And>s. x = AString s \<Longrightarrow> length s < 0xFFFF"
  shows "\<exists>p'. get_item x p = Some (p', Some x) \<and> stands_before r p'"
proof (cases x)
  case (AByte b)
  then show ?thesis
    using stands_before_load(1) [OF assms(1), of 0] stands_before_load(2) [OF assms(1)] stands_before_load(4) [OF assms(1), of 1]
    by (auto simp: getByte_def)
next
  case (AShort w)
  then show ?thesis using getShort_be16 [of w r p] assms(1) by auto
next
  case (AString s)
  have len: "length s < 0xFFFF" "unat (of_nat (length s) :: u16) = length s"
    using assms(2) AString by (auto simp: unat_of_nat)
  have ne: "(of_nat (length s) :: u16) \<noteq> 0xFFFF"
  proof
    assume "(of_nat (length s) :: u16) = 0xFFFF"
    then have "length s = unat (0xFFFF :: u16)" using len(2) by metis
    with len(1) show False by simp
  qed
  have ui: "uint (of_nat (length s) :: u16) = int (length s)" using len(2) by (metis uint_nat)
  let ?p = "p\<lparr>ppos := ppos p + 2\<rparr>"
  have sb: "getShort p = Some (?p, Some (of_nat (length s)))" "stands_before (s @ 0 # r) ?p"
    using getShort_be16 [of "of_nat (length s)" "s @ 0 # r" p] assms(1) AString by auto
  have z: "load (ppos ?p + int (length s)) ?p = Some 0"
    using stands_before_load(1) [OF sb(2), of "length s"] by simp
  have "getString p = Some (?p\<lparr>ppos := ppos ?p + int (length s) + 1\<rparr>, Some s)"
    using sb(1) stands_before_load(2,3) [OF sb(2)] z ne
    by (simp add: getString_def len(2) ui)
  moreover have "stands_before r (?p\<lparr>ppos := ppos ?p + int (length s) + 1\<rparr>)"
    using stands_before_load(4) [OF sb(2), of "Suc (length s)"] by (simp add: add.assoc add.commute)
  ultimately show ?thesis using AString by auto
qed

lemma get_items_bytes:
  assumes "stands_before (concat (map item_bytes xs)) p" "\<And>s. AString s \<in> set xs \<Longrightarrow> length s < 0xFFFF"
  shows "\<exists>p'. get_items xs p = Some (p', Some xs) \<and> getLen p' = 0"
  using assms
proof (induction xs arbitrary: p)
  case Nil
  then show ?case using stands_before_load(2) [OF Nil(1)] by simp
next
  case (Cons x xs)
  obtain p1 where "get_item x p = Some (p1, Some x)" "stands_before (concat (map item_bytes xs)) p1"
    using get_item_bytes [of x "concat (map item_bytes xs)" p] Cons.prems by auto
  then show ?case using Cons.IH [of p1] Cons.prems(2) by fastforce
qed

text \<open>The frame that is sent.\<close>

definition ajp_frame :: "u8 list \<Rightarrow> u8 list" where
  "ajp_frame body = [0x12, 0x34, of_nat (length body div 256), of_nat (length body)] @ body"

lemma take_four_updates: "4 \<le> length xs \<Longrightarrow> take 4 (xs[0 := a, 1 := b, 2 := c, 3 := d]) = [a, b, c, d]"
  by (auto simp: eval_nat_numeral Suc_le_length_iff)

lemma msg_end_frame:
  assumes "byte_client ops sent pending" "msg_ok m" "mstream m = Some c" "content m \<noteq> []"
    and "msg_end ops m = Some (m', True)"
  shows "\<exists>c'. mstream m' = Some c' \<and> sent c' = sent c @ ajp_frame (content m) \<and> mpos m' = 4"
proof -
  have pos: "4 < mpos m" "mpos m \<le> 8192" "length (mbuf m) = 8192" using assms(2,4) by (auto simp: msg_ok_def content_def)
  define b where "b = (mbuf m)[0 := 0x12, 1 := 0x34, 2 := of_int ((mpos m - 4) div 256), 3 := of_int (mpos m - 4)]"
  obtain c' where w: "write_all ops (take (nat (mpos m)) b) c = (c', True)" "mstream m' = Some c'" "mpos m' = 4"
    using assms(3,5) pos
    by (auto simp: msg_end_def msg_send_def b_def Let_def AJP_PACKAGE_def msg_reset_def split: if_splits prod.splits)
  have n: "length (content m) = nat (mpos m) - 4" using pos by (simp add: content_def)
  have mp: "mpos m - 4 = int (length (content m))" using n pos by simp
  have "take (nat (mpos m)) b = take 4 b @ take (nat (mpos m) - 4) (drop 4 b)"
    using pos take_add [of 4 "nat (mpos m) - 4" b] by simp
  also have "drop 4 b = drop 4 (mbuf m)" by (simp add: b_def)
  also have "take (nat (mpos m) - 4) (drop 4 (mbuf m)) = content m" by (simp add: content_def)
  also have "take 4 b = [0x12, 0x34, of_int ((mpos m - 4) div 256), of_int (mpos m - 4)]"
    unfolding b_def using pos(3) by (intro take_four_updates) simp
  also have "(of_int ((mpos m - 4) div 256) :: u8) = of_nat (length (content m) div 256)"
    unfolding mp by (metis of_int_of_nat_eq of_nat_numeral zdiv_int)
  also have "(of_int (mpos m - 4) :: u8) = of_nat (length (content m))"
    unfolding mp by simp
  finally have "take (nat (mpos m)) b = ajp_frame (content m)" by (simp only: ajp_frame_def)
  then show ?thesis using byte_client.write_ok [OF assms(1) w(1)] w by auto
qed



end
