(* ===== verification/Object_List.thy ===== *)
theory Object_List
  imports Kgl_Prelude "HOL-Library.Monad_Syntax" "HOL-Library.Sublist"
begin

text \<open>
  The object lists of the cache (\<^verbatim>\<open>src/KObjectList.cpp\<close>, \<^verbatim>\<open>include/KObjectList.h\<close>) and the
  operations of \<^verbatim>\<open>include/KCache.h\<close> that only touch them. Cached objects are linked into one of
  two intrusive doubly linked lists, oldest first: one for objects in memory, one for objects on
  disk. Objects live in a heap indexed by identifiers. \<open>None\<close> is the use of an object that is
  not in the heap or a failed \<^verbatim>\<open>assert\<close>; the build with assertions is modelled, in which
  \<^verbatim>\<open>remove\<close> resets the state of the object.
\<close>

section \<open>Objects and lists\<close>

definition LIST_IN_MEM :: nat where "LIST_IN_MEM = 0"
definition LIST_IN_DISK :: nat where "LIST_IN_DISK = 1"
definition LIST_IN_NONE :: nat where "LIST_IN_NONE = 2"

lemmas list_state_defs = LIST_IN_MEM_def LIST_IN_DISK_def LIST_IN_NONE_def

record hobj =
  lnext :: "nat option"
  lprev :: "nat option"
  ostate :: nat
  refs :: int
  in_cache :: bool
  FLAG_DEAD :: bool
  FLAG_IN_MEM :: bool
  FLAG_IN_DISK :: bool
  FLAG_NO_DISK_CACHE :: bool
  dc_index_update :: bool
  head_size :: int
  content_length :: int
  memory_object :: bool
  ourl :: string

type_synonym heap = "nat \<Rightarrow> hobj option"

datatype cache_model = CLEAN_CACHE | DROP_DEAD

record olist =
  l_head :: "nat option"
  l_end :: "nat option"
  list_state :: nat
  model :: cache_model

definition new_olist :: "nat \<Rightarrow> olist" where
  "new_olist st = \<lparr>l_head = None, l_end = None, list_state = st, model = CLEAN_CACHE\<rparr>"

text \<open>\<^verbatim>\<open>KHttpObject::Dead\<close>.\<close>

definition Dead :: "hobj \<Rightarrow> hobj" where
  "Dead ob = ob\<lparr>FLAG_DEAD := True, dc_index_update := True\<rparr>"

text \<open>A store through a pointer; through a null pointer it is skipped by the caller.\<close>

definition upd :: "nat \<Rightarrow> (hobj \<Rightarrow> hobj) \<Rightarrow> heap \<Rightarrow> heap option" where
  "upd x f hp = (case hp x of None \<Rightarrow> None | Some ob \<Rightarrow> Some (hp(x \<mapsto> f ob)))"

definition upd_opt :: "nat option \<Rightarrow> (hobj \<Rightarrow> hobj) \<Rightarrow> heap \<Rightarrow> heap option" where
  "upd_opt p f hp = (case p of None \<Rightarrow> Some hp | Some x \<Rightarrow> upd x f hp)"

definition checkList :: "olist \<Rightarrow> heap \<Rightarrow> unit option" where
  "checkList l hp =
     (case l_head l of
        None \<Rightarrow> if l_end l = None then Some () else None
      | Some h \<Rightarrow>
          (case l_end l of
             None \<Rightarrow> None
           | Some e \<Rightarrow>
               do { hob \<leftarrow> hp h; eob \<leftarrow> hp e;
                    if lprev hob = None \<and> lnext eob = None then Some () else None }))"

section \<open>Operations\<close>

definition list_add :: "nat \<Rightarrow> olist \<Rightarrow> heap \<Rightarrow> (olist \<times> heap) option" where
  "list_add x l hp = do {
     ob \<leftarrow> hp x;
     if ostate ob \<noteq> LIST_IN_NONE then None else do {
       hp1 \<leftarrow> upd x (\<lambda>ob. ob\<lparr>ostate := list_state l\<rparr>) hp;
       (l', hp') \<leftarrow> (case l_end l of
           None \<Rightarrow> do {
             hp2 \<leftarrow> upd x (\<lambda>ob. ob\<lparr>lnext := None, lprev := None\<rparr>) hp1;
             Some (l\<lparr>l_end := Some x, l_head := Some x\<rparr>, hp2) }
         | Some e \<Rightarrow> do {
             hp2 \<leftarrow> upd e (\<lambda>ob. ob\<lparr>lnext := Some x\<rparr>) hp1;
             hp3 \<leftarrow> upd x (\<lambda>ob. ob\<lparr>lprev := Some e\<rparr>) hp2;
             hp4 \<leftarrow> upd x (\<lambda>ob. ob\<lparr>lnext := None\<rparr>) hp3;
             Some (l\<lparr>l_end := Some x\<rparr>, hp4) });
       checkList l' hp';
       Some (l', hp') } }"

definition list_remove :: "nat \<Rightarrow> olist \<Rightarrow> heap \<Rightarrow> (olist \<times> heap) option" where
  "list_remove x l hp = do {
     ob \<leftarrow> hp x;
     if ostate ob \<noteq> list_state l then None else do {
       let l1 = (if l_head l = Some x then l\<lparr>l_head := lnext ob\<rparr> else l);
       let l2 = (if l_end l = Some x then l1\<lparr>l_end := lprev ob\<rparr> else l1);
       hp1 \<leftarrow> upd_opt (lnext ob) (\<lambda>nb. nb\<lparr>lprev := lprev ob\<rparr>) hp;
       hp2 \<leftarrow> upd_opt (lprev ob) (\<lambda>pb. pb\<lparr>lnext := lnext ob\<rparr>) hp1;
       hp3 \<leftarrow> upd x (\<lambda>ob. ob\<lparr>ostate := LIST_IN_NONE\<rparr>) hp2;
       checkList l2 hp3;
       Some (l2, hp3) } }"

definition list_dead :: "nat \<Rightarrow> olist \<Rightarrow> heap \<Rightarrow> (olist \<times> heap) option" where
  "list_dead x l hp = do {
     ob \<leftarrow> hp x;
     if ostate ob \<noteq> list_state l then None else do {
       let l0 = l\<lparr>model := DROP_DEAD\<rparr>;
       if l_head l0 = Some x then Some (l0, hp) else do {
         let l1 = (if l_end l0 = Some x then l0\<lparr>l_end := lprev ob\<rparr> else l0);
         hp1 \<leftarrow> upd_opt (lnext ob) (\<lambda>nb. nb\<lparr>lprev := lprev ob\<rparr>) hp;
         hp2 \<leftarrow> upd_opt (lprev ob) (\<lambda>pb. pb\<lparr>lnext := lnext ob\<rparr>) hp1;
         h \<leftarrow> l_head l1;
         hp3 \<leftarrow> upd h (\<lambda>hb. hb\<lparr>lprev := Some x\<rparr>) hp2;
         hp4 \<leftarrow> upd x (\<lambda>ob. ob\<lparr>lnext := Some h\<rparr>) hp3;
         hp5 \<leftarrow> upd x (\<lambda>ob. ob\<lparr>lprev := None\<rparr>) hp4;
         let l2 = l1\<lparr>l_head := Some x\<rparr>;
         checkList l2 hp5;
         Some (l2, hp5) } } }"

text \<open>
  The loops over a list follow the \<^verbatim>\<open>lnext\<close> pointers, so that they need not end in an
  arbitrary heap. The body gets an object and may change it; it answers whether to stop.
\<close>

partial_function (option) walk ::
  "('a \<Rightarrow> nat \<Rightarrow> hobj \<Rightarrow> 'a \<times> hobj \<times> bool) \<Rightarrow> heap \<Rightarrow> nat option \<Rightarrow> 'a \<Rightarrow> (heap \<times> 'a) option" where
  "walk f hp p a =
     (case p of
        None \<Rightarrow> Some (hp, a)
      | Some x \<Rightarrow>
          (case hp x of
             None \<Rightarrow> None
           | Some ob \<Rightarrow>
               (case f a x ob of
                  (a', ob', stop) \<Rightarrow>
                    if stop then Some (hp(x \<mapsto> ob'), a') else walk f (hp(x \<mapsto> ob')) (lnext ob') a')))"

definition dead_all_obj :: "olist \<Rightarrow> heap \<Rightarrow> (olist \<times> heap) option" where
  "dead_all_obj l hp =
     map_option (\<lambda>(hp', u). (l\<lparr>model := DROP_DEAD\<rparr>, hp'))
       (walk (\<lambda>u x ob. (u, Dead ob, False)) hp (l_head l) ())"

text \<open>\<^verbatim>\<open>while (obj && count > 0)\<close>: the check of \<open>count\<close> comes before the body.\<close>

definition dead_count :: "olist \<Rightarrow> int \<Rightarrow> heap \<Rightarrow> (olist \<times> int \<times> heap) option" where
  "dead_count l count hp =
     map_option (\<lambda>(hp', c). (l\<lparr>model := DROP_DEAD\<rparr>, c, hp'))
       (walk (\<lambda>c x ob. if 0 < c then (c - 1, Dead ob, False) else (c, ob, True)) hp (l_head l) count)"

definition clean_cache :: "(string \<Rightarrow> bool) \<Rightarrow> olist \<Rightarrow> heap \<Rightarrow> (olist \<times> int \<times> heap) option" where
  "clean_cache reg l hp =
     map_option (\<lambda>(hp', c). (l\<lparr>model := DROP_DEAD\<rparr>, c, hp'))
       (walk (\<lambda>c x ob. if \<not> FLAG_DEAD ob \<and> reg (ourl ob) then (c + 1, Dead ob, False) else (c, ob, False))
          hp (l_head l) 0)"

definition list_getSize :: "olist \<Rightarrow> heap \<Rightarrow> int \<times> int \<Rightarrow> (int \<times> int) option" where
  "list_getSize l hp sizes =
     map_option snd
       (walk (\<lambda>(cs, ds) x ob.
            ((if FLAG_IN_MEM ob then cs + (content_length ob + head_size ob) else cs,
              if FLAG_IN_DISK ob then ds + (content_length ob + head_size ob) else ds), ob, False))
          hp (l_head l) sizes)"

text \<open>
  The first half of \<^verbatim>\<open>move\<close>: which objects to give up until \<open>m_size\<close> bytes are found. The
  accumulator holds the bytes still wanted, the number of dead objects taken without need, the
  chosen objects (last one first, as in the temporary list) and the cache model.
\<close>

definition MAX_CLEAN_DEAD_COUNT :: int where "MAX_CLEAN_DEAD_COUNT = 1024"

record temp_obj =
  tobj :: nat
  tis_dead :: bool
  decSize :: int

definition dec_size :: "bool \<Rightarrow> hobj \<Rightarrow> int" where
  "dec_size swapout_flag ob =
     head_size ob + (if \<not> swapout_flag \<or> memory_object ob then content_length ob else 0)"

type_synonym move_acc = "int \<times> int \<times> temp_obj list \<times> cache_model"

definition move_body :: "bool \<Rightarrow> move_acc \<Rightarrow> nat \<Rightarrow> hobj \<Rightarrow> move_acc \<times> hobj \<times> bool" where
  "move_body swapout_flag acc x ob =
     (case acc of
        (m_size, dead_obj_count, temps, cm) \<Rightarrow>
          (if 1 < refs ob then (acc, ob, False)
           else
             (let is_dead = FLAG_DEAD ob;
                  count' = (if m_size \<le> 0 \<and> is_dead then dead_obj_count + 1 else dead_obj_count)
              in if m_size \<le> 0 \<and> is_dead \<and> MAX_CLEAN_DEAD_COUNT < dead_obj_count
                 then ((m_size, count', temps, cm), ob, True)
                 else if \<not> is_dead \<and> m_size \<le> 0 then ((m_size, count', temps, CLEAN_CACHE), ob, True)
                 else
                   (let d = dec_size swapout_flag ob;
                        dead' = (is_dead \<or> (swapout_flag \<and> FLAG_NO_DISK_CACHE ob))
                    in ((m_size - d, count', \<lparr>tobj = x, tis_dead = dead', decSize = d\<rparr> # temps, cm), ob, False)))))"

definition move_select :: "olist \<Rightarrow> heap \<Rightarrow> int \<Rightarrow> bool \<Rightarrow> (olist \<times> temp_obj list) option" where
  "move_select l hp m_size swapout_flag =
     (if m_size \<le> 0 \<and> model l = CLEAN_CACHE then Some (l, [])
      else
        map_option (\<lambda>(hp', m, c, temps, cm). (l\<lparr>model := cm\<rparr>, temps))
          (walk (move_body swapout_flag) hp (l_head l) (m_size, 0, [], model l)))"

section \<open>The cache's use of its lists\<close>

record cache_lists =
  objList :: "olist list"
  cheap :: heap
  ccount :: int
  clean_blocked :: bool

definition with_list ::
  "nat \<Rightarrow> (olist \<Rightarrow> heap \<Rightarrow> (olist \<times> heap) option) \<Rightarrow> cache_lists \<Rightarrow> cache_lists option" where
  "with_list i f c =
     (if length (objList c) \<le> i then None
      else map_option (\<lambda>(l, hp). c\<lparr>objList := (objList c)[i := l], cheap := hp\<rparr>) (f (objList c ! i) (cheap c)))"

definition cache_rate :: "nat \<Rightarrow> cache_lists \<Rightarrow> cache_lists option" where
  "cache_rate x c = do {
     ob \<leftarrow> cheap c x;
     if \<not> in_cache ob then Some c
     else if ostate ob = LIST_IN_NONE then None
     else do {
       c1 \<leftarrow> with_list (ostate ob) (list_remove x) c;
       if FLAG_IN_MEM ob then with_list LIST_IN_MEM (list_add x) c1
       else with_list LIST_IN_DISK (list_add x) c1 } }"

definition cache_dead :: "nat \<Rightarrow> cache_lists \<Rightarrow> cache_lists option" where
  "cache_dead x c = do {
     ob \<leftarrow> cheap c x;
     if \<not> in_cache ob then Some c
     else if ostate ob = LIST_IN_NONE then None
     else do {
       hp \<leftarrow> upd x Dead (cheap c);
       with_list (ostate ob) (list_dead x) (c\<lparr>cheap := hp\<rparr>) } }"

definition cache_dead_all_obj :: "cache_lists \<Rightarrow> cache_lists option" where
  "cache_dead_all_obj c = do {
     c1 \<leftarrow> with_list 0 dead_all_obj c;
     with_list 1 dead_all_obj c1 }"

text \<open>The result is whether the limit was exceeded; \<open>kill_count\<close> is what the log prints.\<close>

definition check_count_limit :: "int \<Rightarrow> cache_lists \<Rightarrow> (cache_lists \<times> bool \<times> int) option" where
  "check_count_limit maxMemSize c =
     (let max_count = to_int32 (if 0 \<le> maxMemSize then maxMemSize div 1024 else - (- maxMemSize div 1024));
          c0 = c\<lparr>clean_blocked := False\<rparr>
      in if ccount c \<le> max_count then Some (c0, False, 0)
         else do {
           let kill_count = ccount c - max_count;
           (l1, k1, hp1) \<leftarrow> dead_count (objList c ! LIST_IN_DISK) kill_count (cheap c);
           (l0, k0, hp0) \<leftarrow> dead_count (objList c ! LIST_IN_MEM) k1 hp1;
           Some (c0\<lparr>objList := (objList c)[LIST_IN_DISK := l1, LIST_IN_MEM := l0], cheap := hp0\<rparr>, True, k0) })"

section \<open>What the pointers represent\<close>

definition links :: "heap \<Rightarrow> nat \<Rightarrow> (nat option \<times> nat option) option" where
  "links hp x = map_option (\<lambda>ob. (lprev ob, lnext ob)) (hp x)"

definition state_of :: "heap \<Rightarrow> nat \<Rightarrow> nat option" where
  "state_of hp x = map_option ostate (hp x)"

text \<open>Everything about an object but its place in a list.\<close>

definition payload :: "heap \<Rightarrow> nat \<Rightarrow> hobj option" where
  "payload hp x = map_option (\<lambda>ob. ob\<lparr>lnext := None, lprev := None, ostate := 0\<rparr>) (hp x)"

fun first :: "nat list \<Rightarrow> nat option \<Rightarrow> nat option" where
  "first [] n = n"
| "first (x # xs) n = Some x"

definition final :: "nat option \<Rightarrow> nat list \<Rightarrow> nat option" where
  "final p xs = (if xs = [] then p else Some (last xs))"

fun seg :: "heap \<Rightarrow> nat option \<Rightarrow> nat list \<Rightarrow> nat option \<Rightarrow> bool" where
  "seg hp p [] n \<longleftrightarrow> True"
| "seg hp p (x # xs) n \<longleftrightarrow> links hp x = Some (p, first xs n) \<and> seg hp (Some x) xs n"

lemma first_append: "first (xs @ ys) n = first xs (first ys n)"
  by (cases xs) auto

lemma final_simps [simp]:
  "final p [] = p" "final p (x # xs) = final (Some x) xs" "final p (xs @ ys) = final (final p xs) ys"
  by (auto simp: final_def)

lemma seg_append: "seg hp p (xs @ ys) n \<longleftrightarrow> seg hp p xs (first ys n) \<and> seg hp (final p xs) ys n"
  by (induction xs arbitrary: p) (auto simp: first_append)

lemma seg_cong: "(\<And>x. x \<in> set xs \<Longrightarrow> links hp' x = links hp x) \<Longrightarrow> seg hp' p xs n = seg hp p xs n"
  by (induction xs arbitrary: p) auto

lemma seg_frame: "(\<And>x. x \<in> set xs \<Longrightarrow> hp' x = hp x) \<Longrightarrow> seg hp p xs n \<Longrightarrow> seg hp' p xs n"
  using seg_cong [of xs hp' hp p n] by (simp add: links_def)

lemma seg_relink_last:
  assumes "seg hp p xs n" "distinct xs" "\<And>y. y \<in> set xs \<Longrightarrow> y \<noteq> last xs \<Longrightarrow> links hp' y = links hp y"
    and "xs \<noteq> [] \<Longrightarrow> links hp' (last xs) = map_option (\<lambda>(a, b). (a, n')) (links hp (last xs))"
  shows "seg hp' p xs n'"
proof (cases "xs = []")
  case False
  then obtain ys y where xs: "xs = ys @ [y]" by (metis rev_exhaust)
  have "seg hp' p ys (Some y) = seg hp p ys (Some y)"
    using assms(2,3) xs by (intro seg_cong) auto
  then show ?thesis using assms(1,4) xs by (auto simp: seg_append)
qed simp

lemma seg_relink_first:
  assumes "seg hp p xs n" "distinct xs" "\<And>y. y \<in> set (tl xs) \<Longrightarrow> links hp' y = links hp y"
    and "xs \<noteq> [] \<Longrightarrow> links hp' (hd xs) = map_option (\<lambda>(a, b). (p', b)) (links hp (hd xs))"
  shows "seg hp' p' xs n"
proof (cases xs)
  case (Cons x ys)
  then have "seg hp' (Some x) ys n = seg hp (Some x) ys n"
    using assms(3) by (intro seg_cong) auto
  then show ?thesis using assms Cons by auto
qed simp

definition is_list :: "olist \<Rightarrow> heap \<Rightarrow> nat list \<Rightarrow> bool" where
  "is_list l hp xs \<longleftrightarrow> distinct xs \<and> l_head l = first xs None \<and> l_end l = final None xs \<and> seg hp None xs None \<and>
     (\<forall>x \<in> set xs. state_of hp x = Some (list_state l))"

lemma is_list_checkList: "is_list l hp xs \<Longrightarrow> checkList l hp = Some ()"
proof (cases "xs = []")
  case False
  assume l: "is_list l hp xs"
  from False obtain ys y where xs: "xs = ys @ [y]" by (metis rev_exhaust)
  from False obtain z zs where xs2: "xs = z # zs" by (cases xs) auto
  have "seg hp (final None ys) [y] None" "l_end l = Some y"
    using l xs seg_append [of hp None ys "[y]" None] by (auto simp: is_list_def)
  moreover have "links hp z = Some (None, first zs None)" "l_head l = Some z"
    using l xs2 by (auto simp: is_list_def)
  ultimately show ?thesis by (auto simp: checkList_def links_def)
qed (simp add: is_list_def checkList_def)

lemma upd_simps:
  "hp x = Some ob \<Longrightarrow> upd x f hp = Some (hp(x \<mapsto> f ob))"
  "upd_opt None f hp = Some hp" "upd_opt (Some x) f hp = upd x f hp"
  by (simp_all add: upd_def upd_opt_def)

text \<open>The effect of an operation: links and states, with the payload of every object kept.\<close>

definition relinked :: "heap \<Rightarrow> heap \<Rightarrow> nat set \<Rightarrow> bool" where
  "relinked hp hp' X \<longleftrightarrow> payload hp' = payload hp \<and>
     (\<forall>y. y \<notin> X \<longrightarrow> links hp' y = links hp y \<and> state_of hp' y = state_of hp y)"

lemma list_add_ok:
  assumes "is_list l hp xs" "state_of hp x = Some LIST_IN_NONE" "x \<notin> set xs"
  shows "\<exists>l' hp'. list_add x l hp = Some (l', hp') \<and> is_list l' hp' (xs @ [x]) \<and> list_state l' = list_state l \<and>
    model l' = model l \<and> relinked hp hp' (insert x (set xs)) \<and> (\<forall>y. y \<noteq> x \<longrightarrow> state_of hp' y = state_of hp y)"
proof -
  obtain ob where ob: "hp x = Some ob" "ostate ob = LIST_IN_NONE"
    using assms(2) by (auto simp: state_of_def)
  show ?thesis
  proof (cases "xs = []")
    case True
    let ?l = "l\<lparr>l_end := Some x, l_head := Some x\<rparr>" and ?hp = "hp(x \<mapsto> ob\<lparr>ostate := list_state l, lnext := None, lprev := None\<rparr>)"
    have l': "is_list ?l ?hp [x]"
      by (simp add: is_list_def links_def state_of_def)
    have "list_add x l hp = Some (?l, ?hp)"
      using True assms(1) ob is_list_checkList [OF l']
      by (simp add: list_add_def is_list_def upd_simps)
    moreover have "relinked hp ?hp (insert x (set xs))" "\<forall>y. y \<noteq> x \<longrightarrow> state_of ?hp y = state_of hp y"
      using ob by (auto simp: relinked_def payload_def links_def state_of_def fun_eq_iff)
    ultimately show ?thesis using l' True by auto
  next
    case False
    then obtain ys e where xs: "xs = ys @ [e]" by (metis rev_exhaust)
    have e: "l_end l = Some e" "e \<noteq> x" "links hp e = Some (final None ys, None)"
      using assms(1,3) xs by (auto simp: is_list_def seg_append)
    then obtain eb where eb: "hp e = Some eb" "lnext eb = None" "lprev eb = final None ys" by (auto simp: links_def)
    let ?l = "l\<lparr>l_end := Some x\<rparr>"
    let ?hp = "hp(e \<mapsto> eb\<lparr>lnext := Some x\<rparr>, x \<mapsto> ob\<lparr>ostate := list_state l, lprev := Some e, lnext := None\<rparr>)"
    have lk: "links ?hp y = (if y = x then Some (Some e, None) else if y = e then Some (final None ys, Some x) else links hp y)" for y
      using e(2) eb by (simp add: links_def)
    have st: "state_of ?hp y = (if y = x then Some (list_state l) else state_of hp y)" for y
      using e(2) eb by (simp add: state_of_def)
    have "seg ?hp None xs (Some x)"
    proof (rule seg_relink_last [of hp None xs None])
      show "links ?hp y = links hp y" if "y \<in> set xs" "y \<noteq> last xs" for y
        using that assms(3) xs lk [of y] by auto
      show "links ?hp (last xs) = map_option (\<lambda>(a, b). (a, Some x)) (links hp (last xs))"
        using xs e lk [of e] by simp
    qed (use assms(1) in \<open>auto simp: is_list_def\<close>)
    then have l': "is_list ?l ?hp (xs @ [x])"
      using assms(1,3) xs lk st by (auto simp: is_list_def seg_append first_append)
    have "list_add x l hp = Some (?l, ?hp)"
      using ob e eb is_list_checkList [OF l']
      by (simp add: list_add_def upd_simps fun_upd_twist fun_upd_idem)
    moreover have "relinked hp ?hp (insert x (set xs))"
      using lk st xs ob eb e(2) by (auto simp: relinked_def payload_def fun_eq_iff)
    ultimately show ?thesis using l' st by auto
  qed
qed

lemma set_first_lprev:
  assumes "seg hp p xs n" "distinct xs"
  shows "\<exists>hp'. upd_opt (first xs None) (\<lambda>b. b\<lparr>lprev := q\<rparr>) hp = Some hp' \<and> seg hp' q xs n \<and>
    payload hp' = payload hp \<and> state_of hp' = state_of hp \<and> (\<forall>y. y \<notin> set xs \<longrightarrow> hp' y = hp y)"
proof (cases xs)
  case (Cons x ys)
  then obtain ob where ob: "hp x = Some ob" "lprev ob = p" "lnext ob = first ys n"
    using assms(1) by (auto simp: links_def)
  let ?hp = "hp(x \<mapsto> ob\<lparr>lprev := q\<rparr>)"
  have "seg ?hp q xs n"
  proof (rule seg_relink_first [OF assms])
    show "links ?hp y = links hp y" if "y \<in> set (tl xs)" for y
      using that assms(2) Cons by (auto simp: links_def)
    show "links ?hp (hd xs) = map_option (\<lambda>(a, b). (q, b)) (links hp (hd xs))"
      using Cons ob(1) by (simp add: links_def)
  qed
  moreover have "payload ?hp = payload hp" "state_of ?hp = state_of hp"
    using ob by (simp_all add: payload_def state_of_def fun_eq_iff)
  moreover have "upd_opt (first xs None) (\<lambda>b. b\<lparr>lprev := q\<rparr>) hp = Some ?hp" using Cons ob by (simp add: upd_simps)
  moreover have "\<forall>y. y \<notin> set xs \<longrightarrow> ?hp y = hp y" using Cons by simp
  ultimately show ?thesis by blast
qed (simp add: upd_simps)

lemma set_final_lnext:
  assumes "seg hp p xs n" "distinct xs"
  shows "\<exists>hp'. upd_opt (final None xs) (\<lambda>b. b\<lparr>lnext := m\<rparr>) hp = Some hp' \<and> seg hp' p xs m \<and>
    payload hp' = payload hp \<and> state_of hp' = state_of hp \<and> (\<forall>y. y \<notin> set xs \<longrightarrow> hp' y = hp y)"
proof (cases "xs = []")
  case False
  then obtain ys y where xs: "xs = ys @ [y]" by (metis rev_exhaust)
  then obtain ob where ob: "hp y = Some ob" "lnext ob = n"
    using assms(1) by (auto simp: links_def seg_append)
  let ?hp = "hp(y \<mapsto> ob\<lparr>lnext := m\<rparr>)"
  have "seg ?hp p xs m"
  proof (rule seg_relink_last [OF assms])
    show "links ?hp z = links hp z" if "z \<in> set xs" "z \<noteq> last xs" for z
      using that xs by (auto simp: links_def)
    show "links ?hp (last xs) = map_option (\<lambda>(a, b). (a, m)) (links hp (last xs))"
      using xs ob(1) by (simp add: links_def)
  qed
  moreover have "payload ?hp = payload hp" "state_of ?hp = state_of hp"
    using ob by (simp_all add: payload_def state_of_def fun_eq_iff)
  moreover have "upd_opt (final None xs) (\<lambda>b. b\<lparr>lnext := m\<rparr>) hp = Some ?hp" using xs ob by (simp add: upd_simps)
  moreover have "\<forall>y. y \<notin> set xs \<longrightarrow> ?hp y = hp y" using xs by simp
  ultimately show ?thesis by blast
qed (simp add: upd_simps)

text \<open>The two stores that take an object out of the chain.\<close>

lemma unlink_ok:
  assumes "seg hp None (as @ x # bs) None" "distinct (as @ x # bs)" "hp x = Some ob"
  shows "\<exists>hp1 hp2. upd_opt (lnext ob) (\<lambda>nb. nb\<lparr>lprev := lprev ob\<rparr>) hp = Some hp1 \<and>
    upd_opt (lprev ob) (\<lambda>pb. pb\<lparr>lnext := lnext ob\<rparr>) hp1 = Some hp2 \<and> seg hp2 None (as @ bs) None \<and>
    payload hp2 = payload hp \<and> state_of hp2 = state_of hp \<and> (\<forall>y. y \<notin> set (as @ bs) \<longrightarrow> hp2 y = hp y)"
proof -
  have sg: "seg hp None as (Some x)" "seg hp (Some x) bs None" and ob: "lprev ob = final None as" "lnext ob = first bs None"
    using assms(1,3) by (auto simp: seg_append links_def)
  obtain hp1 where 1: "upd_opt (first bs None) (\<lambda>b. b\<lparr>lprev := final None as\<rparr>) hp = Some hp1" "seg hp1 (final None as) bs None"
    "payload hp1 = payload hp" "state_of hp1 = state_of hp" "\<forall>y. y \<notin> set bs \<longrightarrow> hp1 y = hp y"
    using set_first_lprev [OF sg(2), of "final None as"] assms(2) by auto
  have "seg hp1 None as (Some x)"
    using 1(5) assms(2) by (intro seg_frame [OF _ sg(1)]) auto
  then obtain hp2 where 2: "upd_opt (final None as) (\<lambda>b. b\<lparr>lnext := first bs None\<rparr>) hp1 = Some hp2" "seg hp2 None as (first bs None)"
    "payload hp2 = payload hp1" "state_of hp2 = state_of hp1" "\<forall>y. y \<notin> set as \<longrightarrow> hp2 y = hp1 y"
    using set_final_lnext [of hp1 None as "Some x" "first bs None"] assms(2) by auto
  have "seg hp2 (final None as) bs None"
    using 2(5) assms(2) by (intro seg_frame [OF _ 1(2)]) auto
  then show ?thesis using 1 2 ob by (auto simp: seg_append)
qed

lemma list_remove_ok:
  assumes "is_list l hp (as @ x # bs)" "list_state l \<noteq> LIST_IN_NONE"
  shows "\<exists>l' hp'. list_remove x l hp = Some (l', hp') \<and> is_list l' hp' (as @ bs) \<and> list_state l' = list_state l \<and>
    model l' = model l \<and> relinked hp hp' (set (as @ x # bs)) \<and> state_of hp' x = Some LIST_IN_NONE \<and>
    (\<forall>y. y \<noteq> x \<longrightarrow> state_of hp' y = state_of hp y)"
proof -
  note l = assms(1) [unfolded is_list_def]
  obtain ob where ob: "hp x = Some ob" "ostate ob = list_state l" "lprev ob = final None as" "lnext ob = first bs None"
    using l by (auto simp: state_of_def seg_append links_def)
  obtain hp1 hp2 where u: "upd_opt (lnext ob) (\<lambda>nb. nb\<lparr>lprev := lprev ob\<rparr>) hp = Some hp1"
    "upd_opt (lprev ob) (\<lambda>pb. pb\<lparr>lnext := lnext ob\<rparr>) hp1 = Some hp2" "seg hp2 None (as @ bs) None"
    "payload hp2 = payload hp" "state_of hp2 = state_of hp" "\<forall>y. y \<notin> set (as @ bs) \<longrightarrow> hp2 y = hp y"
    using unlink_ok [of hp as x bs ob] l ob by auto
  let ?hp = "hp2(x \<mapsto> ob\<lparr>ostate := LIST_IN_NONE\<rparr>)"
  have x: "hp2 x = Some ob" using u(6) l ob(1) by auto
  have st: "state_of ?hp y = (if y = x then Some LIST_IN_NONE else state_of hp y)" for y
    using u(5) by (auto simp: state_of_def fun_eq_iff)
  have lk: "links ?hp = links hp2" using x by (auto simp: links_def fun_eq_iff)
  define l1 where "l1 = (if l_head l = Some x then l\<lparr>l_head := lnext ob\<rparr> else l)"
  define l2 where "l2 = (if l_end l = Some x then l1\<lparr>l_end := lprev ob\<rparr> else l1)"
  have "l_head l2 = first (as @ bs) None"
    using l ob by (cases as) (auto simp: l2_def l1_def)
  moreover have "l_end l2 = final None (as @ bs)"
    using l ob by (cases "bs = []") (auto simp: l2_def l1_def final_def)
  moreover have "list_state l2 = list_state l" "model l2 = model l" by (simp_all add: l2_def l1_def)
  ultimately have heads: "l_head l2 = first (as @ bs) None" "l_end l2 = final None (as @ bs)" "list_state l2 = list_state l" "model l2 = model l"
    by blast+
  have "is_list l2 ?hp (as @ bs)"
    using l u(3) heads st lk seg_cong [of "as @ bs" ?hp hp2 None None] by (auto simp: is_list_def)
  moreover from this have "list_remove x l hp = Some (l2, ?hp)"
    using ob(1,2) u(1,2) x is_list_checkList
    by (simp add: list_remove_def l1_def [symmetric] l2_def [symmetric] Let_def upd_simps)
  moreover have "relinked hp ?hp (set (as @ x # bs))"
    using u(4,6) st lk x ob(1) by (auto simp: relinked_def payload_def fun_eq_iff links_def)
  ultimately show ?thesis using heads st by auto
qed

lemma list_dead_ok:
  assumes "is_list l hp (as @ x # bs)"
  shows "\<exists>l' hp'. list_dead x l hp = Some (l', hp') \<and> is_list l' hp' (x # as @ bs) \<and> list_state l' = list_state l \<and>
    model l' = DROP_DEAD \<and> relinked hp hp' (set (as @ x # bs)) \<and> state_of hp' = state_of hp"
proof -
  note l = assms(1) [unfolded is_list_def]
  obtain ob where ob: "hp x = Some ob" "ostate ob = list_state l" "lprev ob = final None as" "lnext ob = first bs None"
    using l by (auto simp: state_of_def seg_append links_def)
  show ?thesis
  proof (cases as)
    case Nil
    then have "list_dead x l hp = Some (l\<lparr>model := DROP_DEAD\<rparr>, hp)" using l ob by (simp add: list_dead_def Let_def)
    then show ?thesis using Nil assms(1) by (auto simp: is_list_def relinked_def)
  next
    case (Cons a as')
    obtain hp1 hp2 where u: "upd_opt (lnext ob) (\<lambda>nb. nb\<lparr>lprev := lprev ob\<rparr>) hp = Some hp1"
      "upd_opt (lprev ob) (\<lambda>pb. pb\<lparr>lnext := lnext ob\<rparr>) hp1 = Some hp2" "seg hp2 None (as @ bs) None"
      "payload hp2 = payload hp" "state_of hp2 = state_of hp" "\<forall>y. y \<notin> set (as @ bs) \<longrightarrow> hp2 y = hp y"
      using unlink_ok [of hp as x bs ob] l ob by auto
    obtain hp3 where v: "upd a (\<lambda>hb. hb\<lparr>lprev := Some x\<rparr>) hp2 = Some hp3" "seg hp3 (Some x) (as @ bs) None"
      "payload hp3 = payload hp2" "state_of hp3 = state_of hp2" "\<forall>y. y \<notin> set (as @ bs) \<longrightarrow> hp3 y = hp2 y"
      using set_first_lprev [OF u(3), of "Some x"] l Cons by (auto simp: upd_simps)
    have x: "hp3 x = Some ob" using u(6) v(5) l ob(1) by auto
    let ?hp = "hp3(x \<mapsto> ob\<lparr>lnext := Some a, lprev := None\<rparr>)"
    define l1 where "l1 = (if l_end l = Some x then l\<lparr>model := DROP_DEAD, l_end := lprev ob\<rparr> else l\<lparr>model := DROP_DEAD\<rparr>)"
    have l1: "l_end l1 = final None (x # as @ bs)" "l_head l1 = Some a" "list_state l1 = list_state l" "model l1 = DROP_DEAD"
      using l ob Cons by (auto simp: l1_def final_def)
    have hd: "l_head l = Some a" "a \<noteq> x" using l Cons by auto
    have st: "state_of ?hp = state_of hp" using x v(4) u(5) ob(1) by (auto simp: state_of_def fun_eq_iff)
    have "seg ?hp (Some x) (as @ bs) None"
      using l by (intro seg_frame [OF _ v(2)]) auto
    then have lst: "is_list (l1\<lparr>l_head := Some x\<rparr>) ?hp (x # as @ bs)"
      using l l1 st Cons by (auto simp: is_list_def links_def)
    have "list_dead x l hp = Some (l1\<lparr>l_head := Some x\<rparr>, ?hp)"
      using ob(1,2) u(1,2) v(1) x hd is_list_checkList [OF lst]
      by (cases "l_end l = Some x") (simp_all add: list_dead_def l1_def Let_def upd_simps)
    moreover have "relinked hp ?hp (set (as @ x # bs))"
      using u(4,6) v(3,5) st x ob(1) by (auto simp: relinked_def payload_def fun_eq_iff links_def)
    ultimately show ?thesis using lst l1 st by auto
  qed
qed

section \<open>The interface the cache relies on\<close>

text \<open>
  Several lists share a heap. \<open>repr l h xs\<close>: the list \<open>l\<close> holds \<open>xs\<close>, oldest first;
  \<open>free h x\<close>: the object is in no list; \<open>frame h h' X\<close>: only objects in \<open>X\<close> were relinked.
\<close>

locale object_list =
  fixes add remove to_front :: "nat \<Rightarrow> 'l \<Rightarrow> 'h \<Rightarrow> ('l \<times> 'h) option"
    and repr :: "'l \<Rightarrow> 'h \<Rightarrow> nat list \<Rightarrow> bool"
    and free :: "'h \<Rightarrow> nat \<Rightarrow> bool"
    and frame :: "'h \<Rightarrow> 'h \<Rightarrow> nat set \<Rightarrow> bool"
    and ident :: "'l \<Rightarrow> 'i"
  assumes add_end: "repr l h xs \<Longrightarrow> free h x \<Longrightarrow>
      \<exists>l' h'. add x l h = Some (l', h') \<and> repr l' h' (xs @ [x]) \<and> ident l' = ident l \<and> frame h h' (insert x (set xs))"
    and remove_one: "repr l h (as @ x # bs) \<Longrightarrow>
      \<exists>l' h'. remove x l h = Some (l', h') \<and> repr l' h' (as @ bs) \<and> ident l' = ident l \<and> free h' x \<and>
        frame h h' (set (as @ x # bs))"
    and front: "repr l h (as @ x # bs) \<Longrightarrow>
      \<exists>l' h'. to_front x l h = Some (l', h') \<and> repr l' h' (x # as @ bs) \<and> ident l' = ident l \<and>
        frame h h' (set (as @ x # bs))"
    and repr_frame: "frame h h' X \<Longrightarrow> repr l h ys \<Longrightarrow> set ys \<inter> X = {} \<Longrightarrow> repr l h' ys"
    and frame_trans: "frame h h1 X \<Longrightarrow> frame h1 h2 Y \<Longrightarrow> frame h h2 (X \<union> Y)"
    and free_not_in: "repr l h xs \<Longrightarrow> free h x \<Longrightarrow> x \<notin> set xs"
begin

text \<open>Taking an object out and adding it again makes it the youngest of its list.\<close>

lemma touch:
  assumes "repr l h (as @ x # bs)"
  obtains l1 h1 l2 h2 where "remove x l h = Some (l1, h1)" "add x l1 h1 = Some (l2, h2)"
    "repr l2 h2 (as @ bs @ [x])" "ident l2 = ident l" "frame h h2 (set (as @ x # bs))"
proof -
  obtain l1 h1 where 1: "remove x l h = Some (l1, h1)" "repr l1 h1 (as @ bs)" "ident l1 = ident l" "free h1 x"
    "frame h h1 (set (as @ x # bs))" using remove_one [OF assms] by blast
  obtain l2 h2 where 2: "add x l1 h1 = Some (l2, h2)" "repr l2 h2 ((as @ bs) @ [x])" "ident l2 = ident l1"
    "frame h1 h2 (insert x (set (as @ bs)))" using add_end [OF 1(2,4)] by blast
  have "set (as @ x # bs) \<union> insert x (set (as @ bs)) = set (as @ x # bs)" by auto
  then have "frame h h2 (set (as @ x # bs))"
    using frame_trans [OF 1(5) 2(4)] by simp
  then show ?thesis using that [OF 1(1) 2(1)] 1(3) 2(2,3) by simp
qed

text \<open>An object goes from one list to the end of another one in the same heap.\<close>

lemma transfer:
  assumes "repr l h (as @ x # bs)" "repr k h ys" "set ys \<inter> set (as @ x # bs) = {}"
  obtains l1 h1 k2 h2 where "remove x l h = Some (l1, h1)" "add x k h1 = Some (k2, h2)"
    "repr l1 h2 (as @ bs)" "repr k2 h2 (ys @ [x])" "ident l1 = ident l" "ident k2 = ident k"
    "frame h h2 (set (as @ x # bs) \<union> set ys)"
proof -
  obtain l1 h1 where 1: "remove x l h = Some (l1, h1)" "repr l1 h1 (as @ bs)" "ident l1 = ident l" "free h1 x"
    "frame h h1 (set (as @ x # bs))" using remove_one [OF assms(1)] by blast
  have k: "repr k h1 ys" using repr_frame [OF 1(5) assms(2,3)] .
  obtain k2 h2 where 2: "add x k h1 = Some (k2, h2)" "repr k2 h2 (ys @ [x])" "ident k2 = ident k"
    "frame h1 h2 (insert x (set ys))" using add_end [OF k 1(4)] by blast
  have "repr l1 h2 (as @ bs)"
    using repr_frame [OF 2(4) 1(2)] free_not_in [OF 1(2,4)] assms(3) by auto
  moreover have "frame h h2 (set (as @ x # bs) \<union> set ys)"
    using frame_trans [OF 1(5) 2(4)] by (simp add: insert_commute Un_commute insert_absorb)
  ultimately show ?thesis using that [OF 1(1) 2(1)] 1(3) 2(2,3) by blast
qed

end

definition holds :: "olist \<Rightarrow> heap \<Rightarrow> nat list \<Rightarrow> bool" where
  "holds l hp xs \<longleftrightarrow> is_list l hp xs \<and> list_state l \<noteq> LIST_IN_NONE"

interpretation ol: object_list list_add list_remove list_dead holds
  "\<lambda>hp x. state_of hp x = Some LIST_IN_NONE" relinked list_state
proof unfold_locales
  fix l hp xs x as bs hp' hp1 hp2 X Y ys
  show 1: "x \<notin> set xs" if "holds l hp xs" "state_of hp x = Some LIST_IN_NONE"
    using that by (auto simp: holds_def is_list_def)
  show "\<exists>l' h'. list_add x l hp = Some (l', h') \<and> holds l' h' (xs @ [x]) \<and> list_state l' = list_state l \<and>
      relinked hp h' (insert x (set xs))"
    if "holds l hp xs" "state_of hp x = Some LIST_IN_NONE"
    using list_add_ok [of l hp xs x] that 1 [OF that] by (auto simp: holds_def)
  show "\<exists>l' h'. list_remove x l hp = Some (l', h') \<and> holds l' h' (as @ bs) \<and> list_state l' = list_state l \<and>
      state_of h' x = Some LIST_IN_NONE \<and> relinked hp h' (set (as @ x # bs))"
    if "holds l hp (as @ x # bs)"
    using list_remove_ok [of l hp as x bs] that by (auto simp: holds_def)
  show "\<exists>l' h'. list_dead x l hp = Some (l', h') \<and> holds l' h' (x # as @ bs) \<and> list_state l' = list_state l \<and>
      relinked hp h' (set (as @ x # bs))"
    if "holds l hp (as @ x # bs)"
    using list_dead_ok [of l hp as x bs] that by (auto simp: holds_def)
  show "holds l hp' ys" if "relinked hp hp' X" "holds l hp ys" "set ys \<inter> X = {}"
    using that seg_cong [of ys hp' hp None None] by (fastforce simp: holds_def is_list_def relinked_def)
  show "relinked hp hp2 (X \<union> Y)" if "relinked hp hp1 X" "relinked hp1 hp2 Y"
    using that by (auto simp: relinked_def)
qed

section \<open>The cache keeps its objects in least recently used order\<close>

text \<open>The memory list holds \<open>ms\<close> and the disk list \<open>ds\<close>; nothing else claims to be listed.\<close>

definition cache_ok :: "cache_lists \<Rightarrow> nat list \<Rightarrow> nat list \<Rightarrow> bool" where
  "cache_ok c ms ds \<longleftrightarrow> (\<exists>l0 l1. objList c = [l0, l1] \<and> list_state l0 = LIST_IN_MEM \<and> list_state l1 = LIST_IN_DISK \<and>
     is_list l0 (cheap c) ms \<and> is_list l1 (cheap c) ds)"

lemma cache_ok_disjoint: "cache_ok c ms ds \<Longrightarrow> set ms \<inter> set ds = {}"
  by (fastforce simp: cache_ok_def is_list_def LIST_IN_MEM_def LIST_IN_DISK_def)

lemma cache_ok_state:
  assumes "cache_ok c ms ds" "cheap c x = Some ob"
  shows "x \<in> set ms \<Longrightarrow> ostate ob = LIST_IN_MEM" "x \<in> set ds \<Longrightarrow> ostate ob = LIST_IN_DISK"
  using assms by (fastforce simp: cache_ok_def is_list_def state_of_def)+

lemma remove1_split: "distinct (as @ x # bs) \<Longrightarrow> remove1 x (as @ x # bs) = as @ bs"
  by (simp add: remove1_append)

lemma cache_rate_from_mem:
  assumes "cache_ok c ms ds" and "x \<in> set ms" and "cheap c x = Some ob" and "in_cache ob"
  shows "\<exists>c'. cache_rate x c = Some c' \<and>
    cache_ok c' (remove1 x ms @ (if FLAG_IN_MEM ob then [x] else [])) (remove1 x ds @ (if FLAG_IN_MEM ob then [] else [x])) \<and>
    payload (cheap c') = payload (cheap c)"
proof -
  obtain l0 l1 where l: "objList c = [l0, l1]" "list_state l0 = 0" "list_state l1 = 1"
    and h: "holds l0 (cheap c) ms" "holds l1 (cheap c) ds"
    using assms(1) by (auto simp: cache_ok_def holds_def list_state_defs)
  have dist: "distinct ms" "distinct ds" "set ms \<inter> set ds = {}"
    using assms(1) cache_ok_disjoint by (auto simp: cache_ok_def is_list_def)
  obtain as bs where ms: "ms = as @ x # bs" using assms(2) by (meson split_list)
  have st: "ostate ob = 0" using cache_ok_state(1) [OF assms(1,3,2)] by (simp add: list_state_defs)
  show ?thesis
  proof (cases "FLAG_IN_MEM ob")
    case mem: True
    obtain l' h1 l'' h2 where 1: "list_remove x l0 (cheap c) = Some (l', h1)" "list_add x l' h1 = Some (l'', h2)"
      "holds l'' h2 (as @ bs @ [x])" "list_state l'' = list_state l0" "relinked (cheap c) h2 (set (as @ x # bs))"
      using ol.touch h(1) [unfolded ms] by blast
    have "holds l1 h2 ds" using ol.repr_frame [OF 1(5) h(2)] dist(3) ms by blast
    then show ?thesis
      using 1 l assms(3,4) st mem ms dist
      by (intro exI [of _ "c\<lparr>objList := [l'', l1], cheap := h2\<rparr>"])
        (auto simp: cache_rate_def with_list_def cache_ok_def holds_def list_state_defs relinked_def remove1_append remove1_idem)
  next
    case disk: False
    obtain l' h1 l'' h2 where 1: "list_remove x l0 (cheap c) = Some (l', h1)" "list_add x l1 h1 = Some (l'', h2)"
      "holds l' h2 (as @ bs)" "holds l'' h2 (ds @ [x])" "list_state l' = list_state l0" "list_state l'' = list_state l1"
      "relinked (cheap c) h2 (set (as @ x # bs) \<union> set ds)"
      using ol.transfer [OF h(1) [unfolded ms] h(2)] dist(3) ms by blast
    then show ?thesis
      using l assms(3,4) st disk ms dist
      by (intro exI [of _ "c\<lparr>objList := [l', l''], cheap := h2\<rparr>"])
        (auto simp: cache_rate_def with_list_def cache_ok_def holds_def list_state_defs relinked_def remove1_append remove1_idem)
  qed
qed

lemma cache_rate_from_disk:
  assumes "cache_ok c ms ds" and "x \<in> set ds" and "cheap c x = Some ob" and "in_cache ob"
  shows "\<exists>c'. cache_rate x c = Some c' \<and>
    cache_ok c' (remove1 x ms @ (if FLAG_IN_MEM ob then [x] else [])) (remove1 x ds @ (if FLAG_IN_MEM ob then [] else [x])) \<and>
    payload (cheap c') = payload (cheap c)"
proof -
  obtain l0 l1 where l: "objList c = [l0, l1]" "list_state l0 = 0" "list_state l1 = 1"
    and h: "holds l0 (cheap c) ms" "holds l1 (cheap c) ds"
    using assms(1) by (auto simp: cache_ok_def holds_def list_state_defs)
  have dist: "distinct ms" "distinct ds" "set ms \<inter> set ds = {}"
    using assms(1) cache_ok_disjoint by (auto simp: cache_ok_def is_list_def)
  have notms: "x \<notin> set ms" using assms(2) dist(3) by blast
  obtain as bs where ds': "ds = as @ x # bs" using assms(2) by (meson split_list)
  have st: "ostate ob = 1" using cache_ok_state(2) [OF assms(1,3,2)] by (simp add: list_state_defs)
  show ?thesis
  proof (cases "FLAG_IN_MEM ob")
    case mem: False
    obtain l' h1 l'' h2 where 1: "list_remove x l1 (cheap c) = Some (l', h1)" "list_add x l' h1 = Some (l'', h2)"
      "holds l'' h2 (as @ bs @ [x])" "list_state l'' = list_state l1" "relinked (cheap c) h2 (set (as @ x # bs))"
      using ol.touch h(2) [unfolded ds'] by blast
    have "holds l0 h2 ms" using ol.repr_frame [OF 1(5) h(1)] dist(3) ds' by blast
    then show ?thesis
      using 1 l assms(3,4) st mem ds' dist notms
      by (intro exI [of _ "c\<lparr>objList := [l0, l''], cheap := h2\<rparr>"])
        (auto simp: cache_rate_def with_list_def cache_ok_def holds_def list_state_defs relinked_def remove1_append remove1_idem)
  next
    case mem: True
    obtain l' h1 l'' h2 where 1: "list_remove x l1 (cheap c) = Some (l', h1)" "list_add x l0 h1 = Some (l'', h2)"
      "holds l' h2 (as @ bs)" "holds l'' h2 (ms @ [x])" "list_state l' = list_state l1" "list_state l'' = list_state l0"
      "relinked (cheap c) h2 (set (as @ x # bs) \<union> set ms)"
      using ol.transfer [OF h(2) [unfolded ds'] h(1)] dist(3) ds' by blast
    then show ?thesis
      using l assms(3,4) st mem ds' dist notms
      by (intro exI [of _ "c\<lparr>objList := [l'', l'], cheap := h2\<rparr>"])
        (auto simp: cache_rate_def with_list_def cache_ok_def holds_def list_state_defs relinked_def remove1_append remove1_idem)
  qed
qed

text \<open>
  C18. A hit makes an object the youngest one: \<^verbatim>\<open>rate\<close> takes it out of the list it is in and
  puts it at the end of the memory list when it is in memory and of the disk list otherwise. No
  assertion fails, every other object keeps its place relative to the others, and no object is
  changed otherwise.
\<close>

theorem cache_rate_lru:
  assumes "cache_ok c ms ds" and "x \<in> set ms \<union> set ds" and "cheap c x = Some ob" and "in_cache ob"
  shows "\<exists>c'. cache_rate x c = Some c' \<and>
    cache_ok c' (remove1 x ms @ (if FLAG_IN_MEM ob then [x] else [])) (remove1 x ds @ (if FLAG_IN_MEM ob then [] else [x])) \<and>
    payload (cheap c') = payload (cheap c)"
  using cache_rate_from_mem [OF assms(1) _ assms(3,4)] cache_rate_from_disk [OF assms(1) _ assms(3,4)] assms(2) by blast

definition demo_obj :: "nat option \<Rightarrow> nat option \<Rightarrow> nat \<Rightarrow> bool \<Rightarrow> hobj" where
  "demo_obj p n st mem = \<lparr>lnext = n, lprev = p, ostate = st, refs = 1, in_cache = True, FLAG_DEAD = False, FLAG_IN_MEM = mem,
     FLAG_IN_DISK = False, FLAG_NO_DISK_CACHE = False, dc_index_update = False, head_size = 10, content_length = 20,
     memory_object = mem, ourl = ''http://a/''\<rparr>"

definition demo_cache :: cache_lists where
  "demo_cache = \<lparr>objList = [\<lparr>l_head = Some 1, l_end = Some 2, list_state = 0, model = CLEAN_CACHE\<rparr>,
       \<lparr>l_head = Some 3, l_end = Some 3, list_state = 1, model = CLEAN_CACHE\<rparr>],
     cheap = [1 \<mapsto> demo_obj None (Some 2) 0 True, 2 \<mapsto> demo_obj (Some 1) None 0 True, 3 \<mapsto> demo_obj None None 1 True],
     ccount = 3, clean_blocked = False\<rparr>"

lemma demo_cache_ok: "cache_ok demo_cache [1, 2] [3]"
  by (simp add: cache_ok_def demo_cache_def is_list_def links_def state_of_def demo_obj_def list_state_defs)

theorem cache_rate_lru_witness:
  "cache_ok demo_cache [1, 2] [3] \<and>
   (\<exists>c'. cache_rate 3 demo_cache = Some c' \<and> cache_ok c' [1, 2, 3] [] \<and> payload (cheap c') = payload (cheap demo_cache))"
proof -
  have "cheap demo_cache 3 = Some (demo_obj None None 1 True)" "in_cache (demo_obj None None 1 True)"
    by (simp_all add: demo_cache_def demo_obj_def)
  from cache_rate_lru [OF demo_cache_ok _ this] demo_cache_ok show ?thesis by (simp add: demo_obj_def)
qed

lemma Dead_simps [simp]:
  "lnext (Dead ob) = lnext ob" "lprev (Dead ob) = lprev ob" "ostate (Dead ob) = ostate ob" "in_cache (Dead ob) = in_cache ob"
  "FLAG_DEAD (Dead ob)" "refs (Dead ob) = refs ob"
  by (simp_all add: Dead_def)

text \<open>Changing objects without touching links and states keeps every list.\<close>

lemma is_list_cong: "links hp' = links hp \<Longrightarrow> state_of hp' = state_of hp \<Longrightarrow> is_list l hp' xs = is_list l hp xs"
  using seg_cong [of xs hp' hp None None] by (simp add: is_list_def)

definition kill :: "nat set \<Rightarrow> heap \<Rightarrow> heap" where
  "kill X hp = (\<lambda>y. if y \<in> X then map_option Dead (hp y) else hp y)"

lemma kill_keeps [simp]: "links (kill X hp) = links hp" "state_of (kill X hp) = state_of hp"
  by (auto simp: kill_def links_def state_of_def fun_eq_iff option.map_comp comp_def)

lemma is_list_kill [simp]: "is_list l (kill X hp) xs = is_list l hp xs"
  by (rule is_list_cong) simp_all

lemma is_list_model [simp]: "is_list (l\<lparr>model := m\<rparr>) hp xs = is_list l hp xs"
  by (simp add: is_list_def)

lemma kill_empty [simp]: "kill {} hp = hp" by (simp add: kill_def)

lemma kill_insert: "hp x = Some ob \<Longrightarrow> x \<notin> X \<Longrightarrow> kill X (hp(x \<mapsto> Dead ob)) = kill (insert x X) hp"
  by (auto simp: kill_def fun_eq_iff)

text \<open>
  An object that is killed goes to the front of its list, where the next cleaning looks first,
  is marked dead, and the list it is in knows that there are dead objects to drop; the order of all
  others is kept and no assertion fails.
\<close>

theorem cache_dead_front:
  assumes "cache_ok c ms ds" and "x \<in> set ms \<union> set ds" and "cheap c x = Some ob" and "in_cache ob"
  shows "\<exists>c'. cache_dead x c = Some c' \<and>
    cache_ok c' (if x \<in> set ms then x # remove1 x ms else ms) (if x \<in> set ds then x # remove1 x ds else ds) \<and>
    payload (cheap c') = payload (kill {x} (cheap c)) \<and> model (objList c' ! ostate ob) = DROP_DEAD"
proof -
  let ?hp = "(cheap c)(x \<mapsto> Dead ob)"
  have k: "?hp = kill {x} (cheap c)" using assms(3) by (auto simp: kill_def fun_eq_iff)
  obtain l0 l1 where l: "objList c = [l0, l1]" "list_state l0 = 0" "list_state l1 = 1"
    and h: "is_list l0 ?hp ms" "is_list l1 ?hp ds"
    using assms(1) by (auto simp: cache_ok_def list_state_defs k)
  have dist: "distinct ms" "distinct ds" "set ms \<inter> set ds = {}"
    using assms(1) cache_ok_disjoint by (auto simp: cache_ok_def is_list_def)
  have frame: "is_list k h2 ys" if "relinked ?hp h2 X" "is_list k ?hp ys" "set ys \<inter> X = {}" "list_state k < 2" for k h2 ys X
    using ol.repr_frame [OF that(1) _ that(3), of k] that(2,4) by (auto simp: holds_def list_state_defs)
  show ?thesis
  proof (cases "x \<in> set ms")
    case True
    then obtain as bs where ms: "ms = as @ x # bs" by (meson split_list)
    obtain l' h2 where 1: "list_dead x l0 ?hp = Some (l', h2)" "is_list l' h2 (x # as @ bs)" "list_state l' = list_state l0"
      "model l' = DROP_DEAD" "relinked ?hp h2 (set (as @ x # bs))"
      using list_dead_ok [OF h(1) [unfolded ms]] by blast
    have "is_list l1 h2 ds" using frame [OF 1(5) h(2)] dist(3) ms l(3) by auto
    then have ok: "cache_ok (c\<lparr>objList := [l', l1], cheap := h2\<rparr>) (x # as @ bs) ds"
      using 1(2,3) l by (auto simp: cache_ok_def list_state_defs)
    have st: "ostate ob = 0" using cache_ok_state(1) [OF assms(1,3) True] by (simp add: list_state_defs)
    have "cache_dead x c = Some (c\<lparr>objList := [l', l1], cheap := h2\<rparr>)"
      using 1(1) l(1) assms(3,4) st by (simp add: cache_dead_def with_list_def list_state_defs upd_simps)
    moreover have "payload h2 = payload (kill {x} (cheap c))" using 1(5) unfolding k [symmetric] by (simp add: relinked_def)
    ultimately show ?thesis using ok 1(4) st True ms dist
      by (intro exI [of _ "c\<lparr>objList := [l', l1], cheap := h2\<rparr>"]) (simp add: remove1_append)
  next
    case False
    with assms(2) have ds: "x \<in> set ds" by simp
    then obtain as bs where ds': "ds = as @ x # bs" by (meson split_list)
    obtain l' h2 where 1: "list_dead x l1 ?hp = Some (l', h2)" "is_list l' h2 (x # as @ bs)" "list_state l' = list_state l1"
      "model l' = DROP_DEAD" "relinked ?hp h2 (set (as @ x # bs))"
      using list_dead_ok [OF h(2) [unfolded ds']] by blast
    have "is_list l0 h2 ms" using frame [OF 1(5) h(1)] dist(3) ds' l(2) by auto
    then have ok: "cache_ok (c\<lparr>objList := [l0, l'], cheap := h2\<rparr>) ms (x # as @ bs)"
      using 1(2,3) l by (auto simp: cache_ok_def list_state_defs)
    have st: "ostate ob = 1" using cache_ok_state(2) [OF assms(1,3) ds] by (simp add: list_state_defs)
    have "cache_dead x c = Some (c\<lparr>objList := [l0, l'], cheap := h2\<rparr>)"
      using 1(1) l(1) assms(3,4) st by (simp add: cache_dead_def with_list_def list_state_defs upd_simps)
    moreover have "payload h2 = payload (kill {x} (cheap c))" using 1(5) unfolding k [symmetric] by (simp add: relinked_def)
    ultimately show ?thesis using ok 1(4) st False ds' dist
      by (intro exI [of _ "c\<lparr>objList := [l0, l'], cheap := h2\<rparr>"]) (simp add: remove1_append)
  qed
qed

theorem cache_dead_front_witness:
  "\<exists>c'. cache_dead 2 demo_cache = Some c' \<and> cache_ok c' [2, 1] [3]"
proof -
  have "cheap demo_cache 2 = Some (demo_obj (Some 1) None 0 True)" "in_cache (demo_obj (Some 1) None 0 True)"
    by (simp_all add: demo_cache_def demo_obj_def)
  from cache_dead_front [OF demo_cache_ok _ this] show ?thesis by auto
qed

section \<open>Walking a list\<close>

fun visit :: "('a \<Rightarrow> nat \<Rightarrow> hobj \<Rightarrow> 'a \<times> hobj \<times> bool) \<Rightarrow> heap \<Rightarrow> nat list \<Rightarrow> 'a \<Rightarrow> heap \<times> 'a" where
  "visit f hp [] a = (hp, a)"
| "visit f hp (x # xs) a =
     (case f a x (the (hp x)) of
        (a', ob', stop) \<Rightarrow> if stop then (hp(x \<mapsto> ob'), a') else visit f (hp(x \<mapsto> ob')) xs a')"

text \<open>On a list the walk ends, and visits its objects in order.\<close>

lemma walk_visit:
  assumes "\<And>a x ob. lnext (fst (snd (f a x ob))) = lnext ob"
  shows "seg hp p xs None \<Longrightarrow> distinct xs \<Longrightarrow> walk f hp (first xs None) a = Some (visit f hp xs a)"
proof (induction xs arbitrary: hp p a)
  case Nil
  then show ?case by (simp add: walk.simps [of f hp None])
next
  case (Cons x xs)
  obtain ob where ob: "hp x = Some ob" "lnext ob = first xs None" using Cons.prems(1) by (auto simp: links_def)
  obtain a' ob' stop where f: "f a x ob = (a', ob', stop)" by (metis prod_cases3)
  have n: "lnext ob' = first xs None" using assms [of a x ob] f ob(2) by simp
  have "seg (hp(x \<mapsto> ob')) (Some x) xs None"
    using Cons.prems by (intro seg_frame [of xs "hp(x \<mapsto> ob')" hp]) auto
  from Cons.IH [OF this, of a'] Cons.prems(2) show ?case
    by (simp add: walk.simps [of f hp "Some x"] ob(1) f n del: fun_upd_apply)
qed

lemma visit_dead_count:
  "\<forall>x \<in> set xs. hp x \<noteq> None \<Longrightarrow> distinct xs \<Longrightarrow> 0 \<le> c \<Longrightarrow>
   visit (\<lambda>c x ob. if 0 < c then (c - 1, Dead ob, False) else (c, ob, True)) hp xs c =
     (kill (set (take (nat c) xs)) hp, c - min c (int (length xs)))"
proof (induction xs arbitrary: hp c)
  case (Cons x xs)
  obtain ob where ob: "hp x = Some ob" using Cons.prems(1) by auto
  show ?case
  proof (cases "0 < c")
    case True
    then obtain n where n: "nat c = Suc n" "nat (c - 1) = n" by (cases "nat c") auto
    have "x \<notin> set (take n xs)" using Cons.prems(2) by (auto dest: in_set_takeD)
    then have "kill (set (take n xs)) (hp(x \<mapsto> Dead ob)) = kill (set (take (nat c) (x # xs))) hp"
      using kill_insert [of hp x ob] ob n by simp
    moreover have "\<forall>y \<in> set xs. (hp(x \<mapsto> Dead ob)) y \<noteq> None" using Cons.prems(1) by simp
    moreover have "c - 1 - min (c - 1) (int (length xs)) = c - min c (int (length (x # xs)))" by simp
    ultimately show ?thesis
      using Cons.IH [of "hp(x \<mapsto> Dead ob)" "c - 1"] Cons.prems(2) True ob n
      by (simp del: fun_upd_apply)
  next
    case False
    then show ?thesis using Cons.prems(3) ob by (simp add: fun_upd_idem)
  qed
qed simp

lemma is_list_present: "is_list l hp xs \<Longrightarrow> \<forall>x \<in> set xs. hp x \<noteq> None"
  by (auto simp: is_list_def state_of_def)

lemma dead_count_ok:
  assumes "is_list l hp xs" "0 \<le> c"
  shows "dead_count l c hp =
    Some (l\<lparr>model := DROP_DEAD\<rparr>, c - min c (int (length xs)), kill (set (take (nat c) xs)) hp)"
proof -
  have "l_head l = first xs None" "seg hp None xs None" "distinct xs" using assms(1) by (auto simp: is_list_def)
  then show ?thesis
    using assms(2) is_list_present [OF assms(1)]
    by (simp add: dead_count_def walk_visit visit_dead_count)
qed

lemma kill_kill: "X \<inter> Y = {} \<Longrightarrow> kill X (kill Y hp) = kill (X \<union> Y) hp"
  by (auto simp: kill_def fun_eq_iff)

text \<open>
  When the cache holds too many objects, exactly the surplus is killed: the oldest objects of
  the disk list first, then the oldest of the memory list. Links and states stay as they are, so
  both lists are intact, and both will drop dead objects at the next cleaning.
\<close>

theorem check_count_limit_kills:
  assumes "cache_ok c ms ds" and "0 \<le> maxMemSize" and "maxMemSize div 1024 \<le> INT_MAX"
    and "maxMemSize div 1024 < ccount c"
  shows "\<exists>c' k. check_count_limit maxMemSize c = Some (c', True, k) \<and> cache_ok c' ms ds \<and> \<not> clean_blocked c' \<and>
    cheap c' = kill (set (take (nat (ccount c - maxMemSize div 1024)) (ds @ ms))) (cheap c) \<and>
    k = max 0 (ccount c - maxMemSize div 1024 - int (length (ds @ ms)))"
proof -
  define k where "k = ccount c - maxMemSize div 1024"
  define r where "r = k - min k (int (length ds))"
  let ?D = "set (take (nat k) ds)"
  obtain l0 l1 where l: "objList c = [l0, l1]" "list_state l0 = 0" "list_state l1 = 1"
    and h: "is_list l0 (cheap c) ms" "is_list l1 (cheap c) ds"
    using assms(1) by (auto simp: cache_ok_def list_state_defs)
  have h0: "is_list l0 (kill ?D (cheap c)) ms" using h(1) by simp
  have m: "to_int32 (maxMemSize div 1024) = maxMemSize div 1024"
    using assms(2,3) by (intro to_int32_id) (auto simp: in_int32_def pos_imp_zdiv_nonneg_iff)
  have "0 < k" using assms(4) by (simp add: k_def)
  then have k: "0 < k" "0 \<le> r" "nat r = nat k - length ds" "r - min r (int (length ms)) = max 0 (k - int (length (ds @ ms)))"
    by (auto simp: r_def min_def max_def)
  have d0: "dead_count l0 r (kill ?D (cheap c)) =
      Some (l0\<lparr>model := DROP_DEAD\<rparr>, max 0 (k - int (length (ds @ ms))), kill (set (take (nat k) (ds @ ms))) (cheap c))"
    using dead_count_ok [OF h0 k(2)] cache_ok_disjoint [OF assms(1)] unfolding k(3,4)
    by (subst (asm) kill_kill) (auto simp: Un_commute dest!: in_set_takeD)
  have d1: "dead_count l1 k (cheap c) = Some (l1\<lparr>model := DROP_DEAD\<rparr>, r, kill ?D (cheap c))"
    using dead_count_ok [OF h(2), of k] k(1) by (simp add: r_def)
  have chk: "check_count_limit maxMemSize c =
     Some (c\<lparr>clean_blocked := False, objList := [l0\<lparr>model := DROP_DEAD\<rparr>, l1\<lparr>model := DROP_DEAD\<rparr>],
         cheap := kill (set (take (nat k) (ds @ ms))) (cheap c)\<rparr>, True, max 0 (k - int (length (ds @ ms))))"
    unfolding check_count_limit_def Let_def l(1) list_state_defs
    using assms(2,4) by (simp add: m k_def [symmetric] d0 d1 del: take_append length_append)
  have "is_list (l0\<lparr>model := DROP_DEAD\<rparr>) (kill X (cheap c)) ms" "is_list (l1\<lparr>model := DROP_DEAD\<rparr>) (kill X (cheap c)) ds" for X
    using h by simp_all
  then have ok: "cache_ok (c\<lparr>clean_blocked := False, objList := [l0\<lparr>model := DROP_DEAD\<rparr>, l1\<lparr>model := DROP_DEAD\<rparr>],
      cheap := kill X (cheap c)\<rparr>) ms ds" for X
    using l by (simp add: cache_ok_def list_state_defs)
  show ?thesis
    unfolding k_def [symmetric] by (rule exI, rule exI, rule conjI [OF chk], rule conjI [OF ok]) simp
qed

theorem check_count_limit_kills_witness:
  "\<exists>c' k. check_count_limit 1024 demo_cache = Some (c', True, k) \<and> cache_ok c' [1, 2] [3] \<and>
     cheap c' = kill {3, 1} (cheap demo_cache) \<and> k = 0"
proof -
  have "ccount demo_cache = 3" by (simp add: demo_cache_def)
  with check_count_limit_kills [OF demo_cache_ok, of 1024] show ?thesis by (auto simp: eval_nat_numeral)
qed

section \<open>Choosing what to give up\<close>

fun pick :: "bool \<Rightarrow> heap \<Rightarrow> nat list \<Rightarrow> move_acc \<Rightarrow> move_acc" where
  "pick sw hp [] acc = acc"
| "pick sw hp (x # xs) acc =
     (case move_body sw acc x (the (hp x)) of (acc', ob, stop) \<Rightarrow> if stop then acc' else pick sw hp xs acc')"

lemma move_body_object: "fst (snd (move_body sw acc x ob)) = ob"
  by (simp add: move_body_def Let_def split: prod.split)

lemma visit_pick:
  "\<forall>x \<in> set xs. hp x \<noteq> None \<Longrightarrow> visit (move_body sw) hp xs acc = (hp, pick sw hp xs acc)"
proof (induction xs arbitrary: acc)
  case (Cons x xs)
  obtain ob where ob: "hp x = Some ob" using Cons.prems by auto
  obtain acc' stop where "move_body sw acc x ob = (acc', ob, stop)"
    using move_body_object [of sw acc x ob] by (metis prod.collapse)
  then show ?case using Cons ob by (simp add: fun_upd_idem)
qed simp

text \<open>What holds of the chosen objects after the objects \<open>ps\<close> have been looked at.\<close>

definition chosen_ok :: "bool \<Rightarrow> heap \<Rightarrow> int \<Rightarrow> nat list \<Rightarrow> temp_obj list \<Rightarrow> bool" where
  "chosen_ok sw hp m ps ts \<longleftrightarrow>
     subseq (rev (map tobj ts)) ps \<and>
     (\<forall>t \<in> set ts. refs (the (hp (tobj t))) \<le> 1 \<and> decSize t = dec_size sw (the (hp (tobj t)))) \<and>
     (\<forall>us t vs. ts = us @ t # vs \<longrightarrow> \<not> FLAG_DEAD (the (hp (tobj t))) \<longrightarrow> sum_list (map decSize vs) < m)"

lemma pick_ok:
  assumes "chosen_ok sw hp m ps ts" "m' = m - sum_list (map decSize ts)"
    and "set (map tobj ts) = {x \<in> set ps. refs (the (hp x)) \<le> 1}"
    and "pick sw hp xs (m', k, ts, cm) = (m2, k2, ts2, cm2)"
  shows "chosen_ok sw hp m (ps @ xs) ts2 \<and>
    (m \<le> sum_list (map decSize ts2) \<or> set (map tobj ts2) = {x \<in> set (ps @ xs). refs (the (hp x)) \<le> 1})"
  using assms
proof (induction xs arbitrary: ps ts m' k cm)
  case Nil
  then show ?case by simp
next
  case (Cons x xs)
  let ?ob = "the (hp x)"
  have more: "chosen_ok sw hp m (ps @ [x]) ts"
    using Cons.prems(1) by (auto simp: chosen_ok_def intro: subseq_order.trans)
  show ?case
  proof (cases "1 < refs ?ob")
    case True
    then have "set (map tobj ts) = {y \<in> set (ps @ [x]). refs (the (hp y)) \<le> 1}" using Cons.prems(3) by auto
    moreover have "pick sw hp xs (m', k, ts, cm) = (m2, k2, ts2, cm2)" using Cons.prems(4) True by (simp add: move_body_def)
    ultimately show ?thesis using Cons.IH [OF more Cons.prems(2)] by simp
  next
    case free: False
    show ?thesis
    proof (cases "m' \<le> 0 \<and> (\<not> FLAG_DEAD ?ob \<or> MAX_CLEAN_DEAD_COUNT < k)")
      case True
      then have "ts2 = ts" using Cons.prems(4) free by (auto simp: move_body_def Let_def split: if_splits)
      moreover have "chosen_ok sw hp m (ps @ x # xs) ts"
        using Cons.prems(1) by (auto simp: chosen_ok_def intro: subseq_order.trans)
      ultimately show ?thesis using True Cons.prems(2) by simp
    next
      case go: False
      define t where "t = \<lparr>tobj = x, tis_dead = FLAG_DEAD ?ob \<or> (sw \<and> FLAG_NO_DISK_CACHE ?ob), decSize = dec_size sw ?ob\<rparr>"
      obtain k' where p: "pick sw hp xs (m' - decSize t, k', t # ts, cm) = (m2, k2, ts2, cm2)"
        using Cons.prems(4) free go by (auto simp: move_body_def Let_def t_def split: if_splits)
      have "chosen_ok sw hp m (ps @ [x]) (t # ts)"
        using Cons.prems(1,2) free go unfolding chosen_ok_def
        by (auto simp: t_def Cons_eq_append_conv subseq_append_iff)
      moreover have "set (map tobj (t # ts)) = {y \<in> set (ps @ [x]). refs (the (hp y)) \<le> 1}"
        using Cons.prems(3) free by (auto simp: t_def)
      ultimately show ?thesis
        using Cons.IH [OF _ _ _ p, of "ps @ [x]"] Cons.prems(2) by simp
    qed
  qed
qed

text \<open>
  What a cleaning gives up: asked for \<open>m\<close> bytes, \<^verbatim>\<open>move\<close> chooses only objects nobody else
  uses, in the order of the list (oldest first); it finds at least \<open>m\<close> bytes or has chosen every
  unused object of the list; and it takes a living object only while bytes are still missing.
\<close>

theorem move_select_frees:
  assumes "is_list l hp xs" and "0 < m"
  shows "\<exists>l' ts. move_select l hp m sw = Some (l', ts) \<and> is_list l' hp xs \<and> chosen_ok sw hp m xs ts \<and>
    (m \<le> sum_list (map decSize ts) \<or> set (map tobj ts) = {x \<in> set xs. refs (the (hp x)) \<le> 1})"
proof -
  have l: "l_head l = first xs None" "seg hp None xs None" "distinct xs" using assms(1) by (auto simp: is_list_def)
  obtain m2 k2 ts cm where p: "pick sw hp xs (m, 0, [], model l) = (m2, k2, ts, cm)" by (metis prod_cases4)
  have "walk (move_body sw) hp (first xs None) (m, 0, [], model l) = Some (hp, m2, k2, ts, cm)"
    using walk_visit [OF _ l(2,3), of "move_body sw"] visit_pick [OF is_list_present [OF assms(1)]] p
    by (simp add: move_body_object)
  then have "move_select l hp m sw = Some (l\<lparr>model := cm\<rparr>, ts)"
    using assms(2) l(1) by (simp add: move_select_def)
  moreover have "chosen_ok sw hp m [] []" by (simp add: chosen_ok_def)
  ultimately show ?thesis
    using pick_ok [of sw hp m "[]" "[]" m xs 0 "model l" m2 k2 ts cm] p assms(1) by auto
qed

theorem move_select_frees_witness:
  "\<exists>l' ts. move_select (objList demo_cache ! 0) (cheap demo_cache) 15 False = Some (l', ts) \<and>
     chosen_ok False (cheap demo_cache) 15 [1, 2] ts"
proof -
  have "is_list (objList demo_cache ! 0) (cheap demo_cache) [1, 2]"
    using demo_cache_ok by (auto simp: cache_ok_def)
  from move_select_frees [OF this, of 15 False] show ?thesis by auto
qed

end
