(* ===== verification/Upstream_Group.thy ===== *)
theory Upstream_Group
  imports Kgl_Prelude "HOL-Library.Monad_Syntax"
begin

text \<open>
  The group of upstream servers (\<^verbatim>\<open>src/KMultiAcserver.cpp\<close>, with
  \<^verbatim>\<open>src/KAcserver.cpp\<close>, \<^verbatim>\<open>include/KAcserver.h\<close> and the
  \<^verbatim>\<open>string_hash\<close> of \<^verbatim>\<open>include/KHttpRequest.h\<close>): the ring of
  server nodes, the weighted table \<open>vnodes\<close> of primaries and the list \<open>bnodes\<close> of backups
  built from it, the choice of a node for a request, the sticky cookie, and the reload of the group
  from a configuration or from a node string.

  The nodes are \<^verbatim>\<open>KSockPoolHelper\<close> objects of the kasync library, which is not
  part of the repository. Their links, reference count and weight are fields of the model's
  \<open>mnode\<close>; the rest of a helper is a value of the type parameter \<open>'h\<close> and its methods are
  the fields of \<open>sock_ops\<close>. Dereferencing an address the heap does not hold, or a failed
  \<^verbatim>\<open>assert\<close>, is the value \<open>None\<close>.
\<close>

unbundle bit_operations_syntax

section \<open>Data\<close>

datatype Proto = Proto_http | Proto_fcgi | Proto_ajp | Proto_spdy | Proto_tcp | Proto_proxy

type_synonym attrs = "string \<rightharpoonup> string"

definition attr_get :: "attrs \<Rightarrow> string \<Rightarrow> string" where
  "attr_get m k = (case m k of None \<Rightarrow> [] | Some v \<Rightarrow> v)"

record ('h, 'u) sock_ops =
  new_sock :: "int \<times> 'h"
  is_available :: "'h \<Rightarrow> bool \<times> 'h"
  is_enabled :: "'h \<Rightarrow> bool"
  enable :: "'h \<Rightarrow> 'h"
  avg_monitor_tick :: "'h \<Rightarrow> int"
  sign_of :: "'h \<Rightarrow> bool"
  set_error_try :: "int \<Rightarrow> int \<Rightarrow> 'h \<Rightarrow> 'h"
  put_error_fields :: "int \<Rightarrow> int \<Rightarrow> 'h \<Rightarrow> 'h"
  set_tcp :: "bool \<Rightarrow> 'h \<Rightarrow> 'h"
  stopMonitor :: "'h \<Rightarrow> 'h"
  sock_shutdown :: "'h \<Rightarrow> 'h"
  sock_refresh :: "int \<Rightarrow> 'h \<Rightarrow> 'h"
  sock_parse :: "attrs \<Rightarrow> int \<Rightarrow> int \<times> 'h \<Rightarrow> bool \<times> int \<times> 'h"
  sock_changed :: "'h \<Rightarrow> 'h \<Rightarrow> bool"
  setHostPort :: "string \<Rightarrow> string \<Rightarrow> 'h \<Rightarrow> 'h"
  setLifeTime :: "int \<Rightarrow> 'h \<Rightarrow> 'h"
  setIp :: "string \<Rightarrow> 'h \<Rightarrow> 'h"
  get_upstream :: "string \<Rightarrow> 'h \<Rightarrow> 'u option \<times> 'h"

record 'h mnode =
  mnext :: "nat option"
  mprev :: "nat option"
  refs :: nat
  weight :: int
  sock :: 'h

type_synonym 'h mheap = "nat \<rightharpoonup> 'h mnode"

record ('h, 'i) mserver =
  proto :: Proto
  ip_hash :: bool
  url_hash :: bool
  cookie_stick :: bool
  max_error_count :: int
  bnodes :: "nat list"
  vnodes :: "nat list"
  nodes :: "nat option"
  icp :: "'i option"
  nodesCount :: int
  errorTryTime :: int
  mheap :: "'h mheap"
  brk :: nat

record rq =
  headers :: "(string \<times> string) list"
  url_host :: string
  url_path :: string
  raw_host :: string
  client_ip :: string
  upstream_error :: bool
  proxy_raw_url :: bool
  url_rewrited :: bool
  resp_headers :: "(string \<times> string) list"
  upstream_sign :: bool

record genv =
  cookie_stick_name :: string
  is_attr :: "string \<Rightarrow> string \<Rightarrow> bool"
  rand :: u32
  MAXIPLEN :: int

section \<open>Protocols\<close>

definition buildProto :: "Proto \<Rightarrow> string" where
  "buildProto p =
     (case p of Proto_http \<Rightarrow> ''http'' | Proto_fcgi \<Rightarrow> ''fastcgi'' | Proto_ajp \<Rightarrow> ''ajp''
      | Proto_spdy \<Rightarrow> ''spdy'' | Proto_tcp \<Rightarrow> ''tcp'' | Proto_proxy \<Rightarrow> ''unknow'')"

definition parseProto :: "string \<Rightarrow> Proto" where
  "parseProto s =
     (if strcase_eq s ''fcgi'' \<or> strcase_eq s ''fastcgi'' then Proto_fcgi
      else if strcase_eq s ''ajp'' then Proto_ajp
      else if strcase_eq s ''tcp'' then Proto_tcp
      else Proto_http)"

definition default_life_time :: "Proto \<Rightarrow> int" where
  "default_life_time p = (if p = Proto_http then 60 else 0)"

definition is_upstream_tcp :: "Proto \<Rightarrow> bool" where
  "is_upstream_tcp p = (case p of Proto_http \<Rightarrow> False | _ \<Rightarrow> True)"

section \<open>The node ring\<close>

definition init :: "Proto \<Rightarrow> ('h, 'i) mserver" where
  "init p = \<lparr>proto = p, ip_hash = False, url_hash = False, cookie_stick = False, max_error_count = 5,
     bnodes = [], vnodes = [], nodes = None, icp = None, nodesCount = 0, errorTryTime = 20,
     mheap = Map.empty, brk = 0\<rparr>"

definition upd_node :: "nat \<Rightarrow> ('h mnode \<Rightarrow> 'h mnode) \<Rightarrow> 'h mheap \<Rightarrow> 'h mheap option" where
  "upd_node a f hp = do { nd \<leftarrow> hp a; Some (hp(a \<mapsto> f nd)) }"

definition upd_sock :: "('h \<Rightarrow> 'h) \<Rightarrow> nat \<Rightarrow> 'h mheap \<Rightarrow> 'h mheap option" where
  "upd_sock f a hp = upd_node a (\<lambda>nd. nd\<lparr>sock := f (sock nd)\<rparr>) hp"

definition release :: "nat \<Rightarrow> 'h mheap \<Rightarrow> 'h mheap option" where
  "release a hp = do { nd \<leftarrow> hp a;
     Some (if refs nd \<le> 1 then hp(a := None) else hp(a \<mapsto> nd\<lparr>refs := refs nd - 1\<rparr>)) }"

definition addRef :: "nat \<Rightarrow> 'h mheap \<Rightarrow> 'h mheap option" where
  "addRef a hp = upd_node a (\<lambda>nd. nd\<lparr>refs := refs nd + 1\<rparr>) hp"

text \<open>
  The loops over the ring read the successor of the current node, do their work on it and stop
  when the successor is the node they started from.
\<close>

partial_function (option) ring_walk ::
  "(nat \<Rightarrow> 'h mheap \<Rightarrow> 'a \<Rightarrow> ('h mheap \<times> 'a) option) \<Rightarrow> nat option \<Rightarrow> nat option \<Rightarrow>
   'h mheap \<Rightarrow> 'a \<Rightarrow> ('h mheap \<times> 'a) option" where
  "ring_walk body start cur hp acc =
     (case cur of
        None \<Rightarrow> Some (hp, acc)
      | Some c \<Rightarrow> do {
          nd \<leftarrow> hp c;
          (hp', acc') \<leftarrow> body c hp acc;
          if mnext nd = start then Some (hp', acc')
          else ring_walk body start (mnext nd) hp' acc' })"

definition sock_step :: "('h \<Rightarrow> 'h) \<Rightarrow> nat \<Rightarrow> 'h mheap \<Rightarrow> unit \<Rightarrow> ('h mheap \<times> unit) option" where
  "sock_step f c hp u = do { hp' \<leftarrow> upd_sock f c hp; Some (hp', ()) }"

definition ring_map :: "('h \<Rightarrow> 'h) \<Rightarrow> ('h, 'i) mserver \<Rightarrow> ('h, 'i) mserver option" where
  "ring_map f ms = do {
     (hp, _) \<leftarrow> ring_walk (sock_step f) (nodes ms) (nodes ms) (mheap ms) ();
     Some (ms\<lparr>mheap := hp\<rparr>) }"

definition remove_body :: "('h, 'u) sock_ops \<Rightarrow> nat \<Rightarrow> 'h mheap \<Rightarrow> int \<Rightarrow> ('h mheap \<times> int) option" where
  "remove_body ops c hp n = do {
     hp1 \<leftarrow> upd_sock (stopMonitor ops) c hp;
     hp2 \<leftarrow> release c hp1;
     Some (hp2, n - 1) }"

definition removeAllNode :: "('h, 'u) sock_ops \<Rightarrow> ('h, 'i) mserver \<Rightarrow> ('h, 'i) mserver option" where
  "removeAllNode ops ms = do {
     (hp, n) \<leftarrow> ring_walk (remove_body ops) (nodes ms) (nodes ms) (mheap ms) (nodesCount ms);
     if n = 0
     then Some (ms\<lparr>mheap := hp, nodes := None, bnodes := [], vnodes := [], nodesCount := 0\<rparr>)
     else None }"

definition enableAllServer :: "('h, 'u) sock_ops \<Rightarrow> ('h, 'i) mserver \<Rightarrow> ('h, 'i) mserver option" where
  "enableAllServer ops ms = ring_map (enable ops) ms"

definition group_shutdown :: "('h, 'u) sock_ops \<Rightarrow> ('h, 'i) mserver \<Rightarrow> ('h, 'i) mserver option" where
  "group_shutdown ops ms = ring_map (sock_shutdown ops) ms"

definition refresh_pool :: "('h, 'u) sock_ops \<Rightarrow> int \<Rightarrow> ('h, 'i) mserver \<Rightarrow> ('h, 'i) mserver option" where
  "refresh_pool ops now ms = ring_map (sock_refresh ops now) ms"

definition set_proto ::
  "('h, 'u) sock_ops \<Rightarrow> Proto \<Rightarrow> ('h, 'i) mserver \<Rightarrow> ('h, 'i) mserver option" where
  "set_proto ops p ms = ring_map (set_tcp ops (is_upstream_tcp p)) (ms\<lparr>proto := p\<rparr>)"

definition error_body ::
  "('h, 'u) sock_ops \<Rightarrow> int \<Rightarrow> int \<Rightarrow> nat \<Rightarrow> 'h mheap \<Rightarrow> unit \<Rightarrow> ('h mheap \<times> unit) option" where
  "error_body ops mx t c hp u = do {
     nd \<leftarrow> hp c;
     n \<leftarrow> mnext nd;
     hp1 \<leftarrow> upd_sock (set_error_try ops mx t) n hp;
     hp2 \<leftarrow> upd_sock (put_error_fields ops mx t) c hp1;
     Some (hp2, ()) }"

definition clamp_try_time :: "int \<Rightarrow> int" where
  "clamp_try_time t = (let t1 = (if t > 600 then 600 else t) in if t1 < 5 then 5 else t1)"

definition setErrorTryTime ::
  "('h, 'u) sock_ops \<Rightarrow> int \<Rightarrow> int \<Rightarrow> ('h, 'i) mserver \<Rightarrow> ('h, 'i) mserver option" where
  "setErrorTryTime ops mx t ms = (let t' = clamp_try_time t in do {
     (hp, _) \<leftarrow> ring_walk (error_body ops mx t') (nodes ms) (nodes ms) (mheap ms) ();
     Some (ms\<lparr>max_error_count := mx, errorTryTime := t', mheap := hp\<rparr>) })"

definition link_node :: "nat \<Rightarrow> ('h, 'i) mserver \<Rightarrow> ('h, 'i) mserver option" where
  "link_node a ms =
     (case nodes ms of
        None \<Rightarrow> do {
          hp \<leftarrow> upd_node a (\<lambda>nd. nd\<lparr>mnext := Some a, mprev := Some a\<rparr>) (mheap ms);
          Some (ms\<lparr>mheap := hp, nodes := Some a\<rparr>) }
      | Some f \<Rightarrow> do {
          fn \<leftarrow> mheap ms f;
          hp1 \<leftarrow> upd_node a (\<lambda>nd. nd\<lparr>mnext := Some f, mprev := mprev fn\<rparr>) (mheap ms);
          fn1 \<leftarrow> hp1 f;
          l \<leftarrow> mprev fn1;
          hp2 \<leftarrow> upd_node l (\<lambda>nd. nd\<lparr>mnext := Some a\<rparr>) hp1;
          hp3 \<leftarrow> upd_node f (\<lambda>nd. nd\<lparr>mprev := Some a\<rparr>) hp2;
          Some (ms\<lparr>mheap := hp3\<rparr>) })"

text \<open>
  \<open>addNode\<close> takes the new helper by value: the object is allocated at the address \<open>brk\<close>
  with one reference, then linked in.
\<close>

definition addNode ::
  "('h, 'u) sock_ops \<Rightarrow> int \<times> 'h \<Rightarrow> ('h, 'i) mserver \<Rightarrow> ('h, 'i) mserver option" where
  "addNode ops h ms = (let
       a = brk ms;
       s1 = set_tcp ops (is_upstream_tcp (proto ms)) (snd h);
       s2 = set_error_try ops (max_error_count ms) (errorTryTime ms) s1;
       nd = \<lparr>mnext = None, mprev = None, refs = 1, weight = fst h, sock = s2\<rparr>
     in do {
       ms' \<leftarrow> link_node a (ms\<lparr>mheap := (mheap ms)(a \<mapsto> nd), brk := a + 1\<rparr>);
       Some (ms'\<lparr>nodesCount := nodesCount ms' + 1\<rparr>) })"

definition vnode_body :: "nat \<Rightarrow> 'h mheap \<Rightarrow> nat list \<times> nat list \<Rightarrow> ('h mheap \<times> nat list \<times> nat list) option" where
  "vnode_body c hp acc = do {
     nd \<leftarrow> hp c;
     Some (hp, if weight nd = 0 then (fst acc, snd acc @ [c])
               else (fst acc @ replicate (nat (weight nd)) c, snd acc)) }"

definition buildVNode :: "('h, 'i) mserver \<Rightarrow> ('h, 'i) mserver option" where
  "buildVNode ms = do {
     (_, vb) \<leftarrow> ring_walk vnode_body (nodes ms) (nodes ms) (mheap ms) ([], []);
     Some (ms\<lparr>vnodes := fst vb, bnodes := snd vb\<rparr>) }"

partial_function (option) index_walk :: "int \<Rightarrow> nat option \<Rightarrow> 'h mheap \<Rightarrow> nat option option" where
  "index_walk index cur hp =
     (case cur of
        None \<Rightarrow> Some None
      | Some c \<Rightarrow>
          if index \<le> 0 then Some (Some c)
          else do { nd \<leftarrow> hp c; index_walk (index - 1) (mnext nd) hp })"

definition getIndexNode :: "int \<Rightarrow> ('h, 'i) mserver \<Rightarrow> nat option option" where
  "getIndexNode index ms =
     (if index \<ge> nodesCount ms then Some None else index_walk index (nodes ms) (mheap ms))"

section \<open>Choosing a node\<close>

function cookie_loop :: "string \<Rightarrow> string \<Rightarrow> int" where
  "cookie_loop name hot =
     (if hot = [] then - 1
      else (case cut_at (CHR '';'') hot of (tok, p) \<Rightarrow>
        (case cut_at (CHR ''='') (dropWhile is_space tok) of
           (k, Some v) \<Rightarrow>
             (if k = name then to_int32 (atoi v - 1)
              else (case p of None \<Rightarrow> - 1 | Some r \<Rightarrow> cookie_loop name r))
         | (k, None) \<Rightarrow> (case p of None \<Rightarrow> - 1 | Some r \<Rightarrow> cookie_loop name r))))"
  by pat_completeness auto
termination
  by (relation "measure (\<lambda>(n, h). length h)") (auto dest: cut_at_Some_length sym)

definition getCookieStick :: "string \<Rightarrow> string \<Rightarrow> int" where
  "getCookieStick attr name = cookie_loop name attr"

fun string_hash :: "string \<Rightarrow> int \<Rightarrow> u16 \<Rightarrow> u16" where
  "string_hash [] n res = res"
| "string_hash (c # cs) n res =
     (if n > 0 then string_hash cs (n - 1) (res * 3 + scast (of_char c :: u8)) else res)"

definition DEFAULT_COOKIE_STICK_NAME :: string where
  "DEFAULT_COOKIE_STICK_NAME = ''kangle_runat''"

definition stick_name :: "genv \<Rightarrow> string" where
  "stick_name env =
     (if cookie_stick_name env = [] then DEFAULT_COOKIE_STICK_NAME else cookie_stick_name env)"

text \<open>The header loop: a value of at least 0 ends it, whether or not it names a node.\<close>

fun stick_loop :: "genv \<Rightarrow> nat \<Rightarrow> (string \<times> string) list \<Rightarrow> u16 option" where
  "stick_loop env n [] = None"
| "stick_loop env n ((k, v) # av) =
     (if is_attr env k ''Cookie'' then
        (let c = getCookieStick v (stick_name env) in
         if c \<ge> 0 then (if c < to_int32 (int n) then Some (word_of_int c) else None)
         else stick_loop env n av)
      else stick_loop env n av)"

definition hash_index :: "genv \<Rightarrow> rq \<Rightarrow> ('h, 'i) mserver \<Rightarrow> u32" where
  "hash_index env r ms =
     (if url_hash ms then ucast (string_hash (url_path r) 16 (string_hash (url_host r) 8 1))
      else if ip_hash ms then ucast (string_hash (client_ip r) (MAXIPLEN env - 1) 1)
      else rand env)"

text \<open>The index of a table entry and the new value of \<^verbatim>\<open>set_cookie_stick\<close>.\<close>

definition getNodeIndex :: "genv \<Rightarrow> rq \<Rightarrow> ('h, 'i) mserver \<Rightarrow> int \<Rightarrow> u16 \<times> int" where
  "getNodeIndex env r ms set_cookie =
     (case (if cookie_stick ms then stick_loop env (length (vnodes ms)) (headers r) else None) of
        Some i \<Rightarrow> (i, set_cookie)
      | None \<Rightarrow>
          (let index = unat (hash_index env r ms) mod length (vnodes ms) in
           (word_of_nat index, if cookie_stick ms then to_int32 (int index + 1) else set_cookie)))"

text \<open>\<^verbatim>\<open>is_available\<close> may reserve the recovery probe of a disabled node, so it changes the node.\<close>

definition probe :: "('h, 'u) sock_ops \<Rightarrow> nat \<Rightarrow> 'h mheap \<Rightarrow> (bool \<times> 'h mheap) option" where
  "probe ops a hp = do {
     nd \<leftarrow> hp a;
     let (b, s) = is_available ops (sock nd);
     Some (b, hp(a \<mapsto> nd\<lparr>sock := s\<rparr>)) }"

function next_loop ::
  "('h, 'u) sock_ops \<Rightarrow> nat list \<Rightarrow> nat \<Rightarrow> u16 \<Rightarrow> nat \<Rightarrow> 'h mheap \<Rightarrow>
   ((nat \<times> u16) option \<times> 'h mheap) option" where
  "next_loop ops vs node index i hp =
     (if i < length vs then
        (let count = length vs;
             pos = (if index AND 1 \<noteq> 0 then (unat index + i) mod count
                    else (unat index + count - i) mod count);
             helper = vs ! pos in
         if helper \<noteq> node then do {
           (b, hp') \<leftarrow> probe ops helper hp;
           if b then Some (Some (helper, word_of_nat pos), hp')
           else next_loop ops vs node index (i + 1) hp' }
         else next_loop ops vs node index (i + 1) hp)
      else Some (None, hp))"
  by pat_completeness auto
termination
  by (relation "measure (\<lambda>(ops, vs, node, index, i, hp). length vs - i)") auto

definition nextActiveNode ::
  "('h, 'u) sock_ops \<Rightarrow> nat list \<Rightarrow> nat \<Rightarrow> u16 \<Rightarrow> 'h mheap \<Rightarrow>
   ((nat \<times> u16) option \<times> 'h mheap) option" where
  "nextActiveNode ops vs node index hp = next_loop ops vs node index 1 hp"

fun fast_loop :: "('h, 'u) sock_ops \<Rightarrow> 'h mheap \<Rightarrow> nat list \<Rightarrow> (nat \<times> int) option \<Rightarrow> (nat \<times> int) option option" where
  "fast_loop ops hp [] fast = Some fast"
| "fast_loop ops hp (b # bs) fast = do {
     nd \<leftarrow> hp b;
     let t = avg_monitor_tick ops (sock nd);
     if is_enabled ops (sock nd) \<and> (case fast of None \<Rightarrow> True | Some (_, ft) \<Rightarrow> t < ft)
     then fast_loop ops hp bs (Some (b, t))
     else fast_loop ops hp bs fast }"

fun recover_loop :: "('h, 'u) sock_ops \<Rightarrow> nat list \<Rightarrow> 'h mheap \<Rightarrow> (nat option \<times> 'h mheap) option" where
  "recover_loop ops [] hp = Some (None, hp)"
| "recover_loop ops (b # bs) hp = do {
     (ok, hp') \<leftarrow> probe ops b hp;
     if ok then Some (Some b, hp') else recover_loop ops bs hp' }"

datatype 'i choice = Connect nat int | UseIcp 'i | NoNode

text \<open>
  The part of \<^verbatim>\<open>GetUpstream\<close> under the lock that settles a primary: the entry the
  request hashes to, its cookie, and the node to use when there is an available one.
\<close>

definition pick_primary ::
  "('h, 'u) sock_ops \<Rightarrow> genv \<Rightarrow> rq \<Rightarrow> ('h, 'i) mserver \<Rightarrow>
   ((nat \<times> int) option \<times> (nat \<times> int) option \<times> 'h mheap) option" where
  "pick_primary ops env r ms =
     (if vnodes ms = [] then Some (None, None, mheap ms)
      else (case getNodeIndex env r ms 0 of (index, ck) \<Rightarrow>
        (let helper = vnodes ms ! unat index in do {
           (ok, hp) \<leftarrow> probe ops helper (mheap ms);
           if ok then Some (Some (helper, ck), Some (helper, ck), hp)
           else do {
             (na, hp') \<leftarrow> nextActiveNode ops (vnodes ms) helper index hp;
             Some (map_option (\<lambda>(a, i). (a, if cookie_stick ms then int (unat i) + 1 else ck)) na,
                   Some (helper, ck), hp') } })))"

definition choose_node ::
  "('h, 'u) sock_ops \<Rightarrow> genv \<Rightarrow> rq \<Rightarrow> ('h, 'i) mserver \<Rightarrow> ('i choice \<times> ('h, 'i) mserver) option" where
  "choose_node ops env r ms = do {
     (best, hashed, hp) \<leftarrow> pick_primary ops env r ms;
     case best of
       Some (a, ck) \<Rightarrow> Some (Connect a ck, ms\<lparr>mheap := hp\<rparr>)
     | None \<Rightarrow> do {
         fast \<leftarrow> fast_loop ops hp (bnodes ms) None;
         case fast of
           Some (b, _) \<Rightarrow> Some (Connect b 0, ms\<lparr>mheap := hp\<rparr>)
         | None \<Rightarrow> do {
             (rv, hp') \<leftarrow> recover_loop ops (bnodes ms) hp;
             case rv of
               Some b \<Rightarrow> Some (Connect b 0, ms\<lparr>mheap := hp'\<rparr>)
             | None \<Rightarrow>
                 (case icp ms of
                    Some i \<Rightarrow> Some (UseIcp i, ms\<lparr>mheap := hp'\<rparr>)
                  | None \<Rightarrow> do {
                      ms' \<leftarrow> enableAllServer ops (ms\<lparr>mheap := hp'\<rparr>);
                      Some ((case hashed of Some (a, ck) \<Rightarrow> Connect a ck | None \<Rightarrow> NoNode), ms') }) } } }"

definition stick_header :: "genv \<Rightarrow> int \<Rightarrow> string" where
  "stick_header env ck = stick_name env @ ''='' @ dec (nat ck) @ ''; path=/''"

definition connect_result ::
  "('h, 'u) sock_ops \<Rightarrow> genv \<Rightarrow> rq \<Rightarrow> nat \<Rightarrow> int \<Rightarrow> 'h mheap \<Rightarrow> ('u option \<times> rq \<times> 'h mheap) option" where
  "connect_result ops env r sa ck hp = do {
     nd \<leftarrow> hp sa;
     let r1 = (if ck > 0 \<and> \<not> upstream_error r
               then r\<lparr>resp_headers := resp_headers r @ [(''Set-Cookie'', stick_header env ck)]\<rparr> else r);
     let r2 = r1\<lparr>upstream_sign := sign_of ops (sock nd)\<rparr>;
     let sni = (if \<not> proxy_raw_url r \<and> url_rewrited r then url_host r else raw_host r);
     let (us, s') = get_upstream ops sni (sock nd);
     hp' \<leftarrow> release sa (hp(sa \<mapsto> nd\<lparr>sock := s'\<rparr>));
     Some (us, r2, hp') }"

definition GetUpstream ::
  "('h, 'u) sock_ops \<Rightarrow> ('i \<Rightarrow> rq \<Rightarrow> 'u option \<times> rq) \<Rightarrow> genv \<Rightarrow> rq \<Rightarrow> ('h, 'i) mserver \<Rightarrow>
   ('u option \<times> rq \<times> ('h, 'i) mserver) option" where
  "GetUpstream ops icp_get env r ms = do {
     (c, ms') \<leftarrow> choose_node ops env r ms;
     case c of
       Connect a ck \<Rightarrow> do {
         hp \<leftarrow> addRef a (mheap ms');
         (us, r', hp') \<leftarrow> connect_result ops env r a ck hp;
         Some (us, r', ms'\<lparr>mheap := hp'\<rparr>) }
     | UseIcp i \<Rightarrow> (case icp_get i r of (us, r') \<Rightarrow> Some (us, r', ms'))
     | NoNode \<Rightarrow> Some (None, r, ms') }"

section \<open>Configuration\<close>

text \<open>Each body of the node tag is parsed into a fresh helper; the ones that do not parse are dropped.\<close>

definition parse_helper :: "('h, 'u) sock_ops \<Rightarrow> Proto \<Rightarrow> attrs \<Rightarrow> (int \<times> 'h) option" where
  "parse_helper ops p attr =
     (case sock_parse ops attr (default_life_time p) (new_sock ops) of
        (True, h) \<Rightarrow> Some h | (False, _) \<Rightarrow> None)"

fun add_bodies ::
  "('h, 'u) sock_ops \<Rightarrow> attrs list \<Rightarrow> ('h, 'i) mserver \<Rightarrow> ('h, 'i) mserver option" where
  "add_bodies ops [] ms = Some ms"
| "add_bodies ops (b # bs) ms =
     (case parse_helper ops (proto ms) b of
        Some h \<Rightarrow> do { ms' \<leftarrow> addNode ops h ms; add_bodies ops bs ms' }
      | None \<Rightarrow> add_bodies ops bs ms)"

datatype config_event = EvNewSubDir | EvUpdateSubDir | EvRemove | EvOther

definition group_config_event ::
  "('h, 'u) sock_ops \<Rightarrow> string \<Rightarrow> attrs list \<Rightarrow> config_event \<Rightarrow> ('h, 'i) mserver \<Rightarrow>
   (bool \<times> ('h, 'i) mserver) option" where
  "group_config_event ops tag bodies ev ms =
     (if tag \<noteq> ''node'' then Some (False, ms)
      else (case ev of
          EvNewSubDir \<Rightarrow> do { m1 \<leftarrow> removeAllNode ops ms; m2 \<leftarrow> add_bodies ops bodies m1;
             m3 \<leftarrow> buildVNode m2; Some (True, m3) }
        | EvUpdateSubDir \<Rightarrow> do { m1 \<leftarrow> removeAllNode ops ms; m2 \<leftarrow> add_bodies ops bodies m1;
             m3 \<leftarrow> buildVNode m2; Some (True, m3) }
        | EvRemove \<Rightarrow> do { m1 \<leftarrow> removeAllNode ops ms; m2 \<leftarrow> buildVNode m1; Some (True, m2) }
        | EvOther \<Rightarrow> Some (True, ms)))"

fun in_order :: "('p \<Rightarrow> 'g \<Rightarrow> 'g option) \<Rightarrow> 'p list \<Rightarrow> 'g \<Rightarrow> 'g option" where
  "in_order add [] g = Some g"
| "in_order add (h # hs) g = do { g' \<leftarrow> add h g; in_order add hs g' }"

definition add_nodes :: "('h, 'u) sock_ops \<Rightarrow> (int \<times> 'h) list \<Rightarrow> ('h, 'i) mserver \<Rightarrow> ('h, 'i) mserver option" where
  "add_nodes ops hs ms = in_order (addNode ops) hs ms"

definition parse_node :: "('h, 'u) sock_ops \<Rightarrow> string \<Rightarrow> (int \<times> 'h) option" where
  "parse_node ops tok =
     (case (case tok of
              c # t \<Rightarrow>
                (if c = CHR ''['' then
                   (case cut_at (CHR '']'') t of
                      (h, Some r) \<Rightarrow> (h, snd (cut_at (CHR '':'') r))
                    | (h, None) \<Rightarrow> (h, None))
                 else cut_at (CHR '':'') tok)
            | [] \<Rightarrow> ([], None)) of
        (host, None) \<Rightarrow> None
      | (host, Some port) \<Rightarrow>
          (case cut_at (CHR '':'') port of (pt, life) \<Rightarrow>
            (let w0 = fst (new_sock ops); s0 = setHostPort ops host pt (snd (new_sock ops)) in
             case life of
               None \<Rightarrow> Some (w0, s0)
             | Some l \<Rightarrow>
                 (let s1 = setLifeTime ops (atoi l) s0 in
                  case cut_at (CHR '':'') l of
                    (_, None) \<Rightarrow> Some (w0, s1)
                  | (_, Some w) \<Rightarrow>
                      (case cut_at (CHR '':'') w of
                         (_, None) \<Rightarrow> Some (atoi w, s1)
                       | (_, Some ip) \<Rightarrow> Some (atoi w, setIp ops ip s1))))))"

text \<open>Each parsed helper is put in front of the chain built so far.\<close>

function parse_nodes_loop :: "('h, 'u) sock_ops \<Rightarrow> string \<Rightarrow> (int \<times> 'h) list \<Rightarrow> (int \<times> 'h) list" where
  "parse_nodes_loop ops hot acc =
     (if hot = [] then acc
      else (case cut_at (CHR '','') hot of (tok, p) \<Rightarrow>
        (let acc' = (case parse_node ops tok of None \<Rightarrow> acc | Some h \<Rightarrow> h # acc) in
         case p of None \<Rightarrow> acc' | Some r \<Rightarrow> parse_nodes_loop ops r acc')))"
  by pat_completeness auto
termination
  by (relation "measure (\<lambda>(ops, h, acc). length h)") (auto dest: cut_at_Some_length sym)

definition parse_nodes :: "('h, 'u) sock_ops \<Rightarrow> string \<Rightarrow> (int \<times> 'h) list" where
  "parse_nodes ops s = parse_nodes_loop ops s []"

definition parseNode :: "('h, 'u) sock_ops \<Rightarrow> string \<Rightarrow> ('h, 'i) mserver \<Rightarrow> ('h, 'i) mserver option" where
  "parseNode ops s ms = do {
     m1 \<leftarrow> removeAllNode ops ms; m2 \<leftarrow> add_nodes ops (parse_nodes ops s) m1; buildVNode m2 }"

definition new_multi :: "('h, 'u) sock_ops \<Rightarrow> (int \<times> 'h) list \<Rightarrow> ('h, 'i) mserver option" where
  "new_multi ops hs = do { m1 \<leftarrow> add_nodes ops hs (init Proto_http); buildVNode m1 }"

definition addNode_attr :: "('h, 'u) sock_ops \<Rightarrow> attrs \<Rightarrow> ('h, 'i) mserver \<Rightarrow> (bool \<times> ('h, 'i) mserver) option" where
  "addNode_attr ops attr ms =
     (case parse_helper ops (proto ms) attr of
        None \<Rightarrow> Some (False, ms)
      | Some h \<Rightarrow> do { m1 \<leftarrow> addNode ops h ms; m2 \<leftarrow> buildVNode m1; Some (True, m2) })"

text \<open>
  A range \<^verbatim>\<open>a-b\<close> of own addresses adds one node per address. \<open>getaddr\<close> and \<open>ip_str\<close> are
  the kasync conversions; the counter is 64 bits wide, so it does not wrap at the last address.
\<close>

function range_loop ::
  "('h, 'u) sock_ops \<Rightarrow> (u32 \<Rightarrow> string) \<Rightarrow> attrs \<Rightarrow> nat \<Rightarrow> nat \<Rightarrow> ('h, 'i) mserver \<Rightarrow> ('h, 'i) mserver option" where
  "range_loop ops ip_str attr ip mx ms =
     (if ip \<le> mx then do {
        (_, ms') \<leftarrow> addNode_attr ops (attr(''self_ip'' \<mapsto> ip_str (word_of_nat ip))) ms;
        range_loop ops ip_str (attr(''self_ip'' \<mapsto> ip_str (word_of_nat ip))) (ip + 1) mx ms' }
      else Some ms)"
  by pat_completeness auto
termination
  by (relation "measure (\<lambda>(ops, f, attr, ip, mx, ms). Suc mx - ip)") auto

definition addNode_range ::
  "('h, 'u) sock_ops \<Rightarrow> (string \<Rightarrow> u32 option) \<Rightarrow> (u32 \<Rightarrow> string) \<Rightarrow> attrs \<Rightarrow> string \<Rightarrow> ('h, 'i) mserver \<Rightarrow>
   (bool \<times> ('h, 'i) mserver) option" where
  "addNode_range ops getaddr ip_str attr self_ip ms =
     (case cut_at (CHR ''-'') self_ip of
        (_, None) \<Rightarrow> Some (False, ms)
      | (from_ip, Some to_ip) \<Rightarrow>
          (case (getaddr from_ip, getaddr to_ip) of
             (Some mn, Some mx) \<Rightarrow>
               (if mn > mx then Some (False, ms)
                else do { ms' \<leftarrow> range_loop ops ip_str attr (unat mn) (unat mx) ms; Some (True, ms') })
           | _ \<Rightarrow> Some (False, ms)))"

definition editNode ::
  "('h, 'u) sock_ops \<Rightarrow> (string \<Rightarrow> u32 option) \<Rightarrow> (u32 \<Rightarrow> string) \<Rightarrow> attrs \<Rightarrow> ('h, 'i) mserver \<Rightarrow>
   (bool \<times> ('h, 'i) mserver) option" where
  "editNode ops getaddr ip_str attr ms =
     (if attr_get attr ''action'' = ''edit'' then do {
        node \<leftarrow> getIndexNode (atoi (attr_get attr ''id'')) ms;
        case node of
          None \<Rightarrow> Some (True, ms)
        | Some a \<Rightarrow> do {
            nd \<leftarrow> mheap ms a;
            let (_, w, s) = sock_parse ops attr (default_life_time (proto ms))
                              (atoi (attr_get attr ''weight''), sock nd);
            ms' \<leftarrow> buildVNode (ms\<lparr>mheap := (mheap ms)(a \<mapsto> nd\<lparr>weight := w, sock := s\<rparr>)\<rparr>);
            Some (True, ms') } }
      else (let self_ip = attr_get attr ''self_ip'' in
        if self_ip \<noteq> [] then do {
          (ok, ms') \<leftarrow> addNode_range ops getaddr ip_str attr self_ip ms;
          if ok then Some (True, ms') else addNode_attr ops attr ms' }
        else addNode_attr ops attr ms))"

definition set_group_attrs ::
  "('h, 'u) sock_ops \<Rightarrow> (string \<Rightarrow> 'i option) \<Rightarrow> attrs \<Rightarrow> ('h, 'i) mserver \<Rightarrow> ('h, 'i) mserver option" where
  "set_group_attrs ops refsAcserver attr ms = (let
       ic = attr_get attr ''icp'';
       uh = (attr_get attr ''url_hash'' = ''1'');
       m1 = ms\<lparr>icp := (if ic = [] then None else refsAcserver ic), url_hash := uh,
               ip_hash := (\<not> uh \<and> attr_get attr ''ip_hash'' = ''1''),
               cookie_stick := (attr_get attr ''cookie_stick'' = ''1'')\<rparr>
     in do {
       m2 \<leftarrow> set_proto ops (parseProto (attr_get attr ''proto'')) m1;
       setErrorTryTime ops (atoi (attr_get attr ''max_error_count''))
         (atoi (attr_get attr ''error_try_time'')) m2 })"

text \<open>The comparison of two groups steps through both rings until the first one is back at its start.\<close>

partial_function (option) changed_walk ::
  "('h, 'u) sock_ops \<Rightarrow> 'h mheap \<Rightarrow> 'h mheap \<Rightarrow> nat option \<Rightarrow> nat option \<Rightarrow> nat option \<Rightarrow> bool option" where
  "changed_walk ops hp hp' start cur cur' =
     (case cur of
        None \<Rightarrow> Some False
      | Some c \<Rightarrow> do {
          c' \<leftarrow> cur';
          nd \<leftarrow> hp c;
          nd' \<leftarrow> hp' c';
          if sock_changed ops (sock nd) (sock nd') then Some True
          else if mnext nd = start then Some False
          else changed_walk ops hp hp' start (mnext nd) (mnext nd') })"

definition group_isChanged ::
  "('h, 'u) sock_ops \<Rightarrow> ('h, 'i) mserver \<Rightarrow> ('h, 'i) mserver \<Rightarrow> bool option" where
  "group_isChanged ops ms ma =
     (if proto ms \<noteq> proto ma \<or> nodesCount ms \<noteq> nodesCount ma \<or> ip_hash ma \<noteq> ip_hash ms \<or>
         url_hash ma \<noteq> url_hash ms \<or> cookie_stick ma \<noteq> cookie_stick ms \<or>
         errorTryTime ma \<noteq> errorTryTime ms \<or> max_error_count ma \<noteq> max_error_count ms
      then Some True
      else do {
        b \<leftarrow> changed_walk ops (mheap ms) (mheap ma) (nodes ms) (nodes ms) (nodes ma);
        Some (b \<or> icp ms \<noteq> icp ma) })"

declare cookie_loop.simps [simp del] next_loop.simps [simp del]
declare parse_nodes_loop.simps [simp del] range_loop.simps [simp del]

section \<open>The ring as a list\<close>

definition nxt :: "'h mheap \<Rightarrow> nat \<Rightarrow> nat option" where
  "nxt hp a = Option.bind (hp a) mnext"

definition prv :: "'h mheap \<Rightarrow> nat \<Rightarrow> nat option" where
  "prv hp a = Option.bind (hp a) mprev"

fun ring_chain :: "(nat \<Rightarrow> nat option) \<Rightarrow> nat list \<Rightarrow> nat \<Rightarrow> bool" where
  "ring_chain f [] e \<longleftrightarrow> True"
| "ring_chain f (x # xs) e \<longleftrightarrow> f x = Some (case xs of [] \<Rightarrow> e | y # _ \<Rightarrow> y) \<and> ring_chain f xs e"

definition is_ring :: "'h mheap \<Rightarrow> nat list \<Rightarrow> bool" where
  "is_ring hp xs \<longleftrightarrow> distinct xs \<and>
     (xs \<noteq> [] \<longrightarrow> ring_chain (nxt hp) xs (hd xs) \<and> ring_chain (prv hp) (rev xs) (last xs))"

lemma ring_chain_append:
  "ring_chain f (xs @ ys) e \<longleftrightarrow> ring_chain f xs (case ys of [] \<Rightarrow> e | y # _ \<Rightarrow> y) \<and> ring_chain f ys e"
  by (induction xs) (auto split: list.splits)

lemma ring_chain_cong: "(\<And>x. x \<in> set xs \<Longrightarrow> f x = g x) \<Longrightarrow> ring_chain f xs e = ring_chain g xs e"
  by (induction xs) auto

lemma ring_chain_mem: "ring_chain f xs e \<Longrightarrow> x \<in> set xs \<Longrightarrow> \<exists>y. f x = Some y"
  by (induction xs) auto

lemma nxt_Some: "nxt hp a = Some b \<longleftrightarrow> (\<exists>nd. hp a = Some nd \<and> mnext nd = Some b)"
  by (auto simp: nxt_def bind_eq_Some_conv)

lemma ring_dom: "is_ring hp xs \<Longrightarrow> set xs \<subseteq> dom hp"
proof
  fix a assume r: "is_ring hp xs" and a: "a \<in> set xs"
  then have "ring_chain (nxt hp) xs (hd xs)" by (auto simp: is_ring_def)
  from ring_chain_mem [OF this a] show "a \<in> dom hp" by (auto simp: nxt_Some)
qed

fun fold_opt ::
  "(nat \<Rightarrow> 'h mheap \<Rightarrow> 'a \<Rightarrow> ('h mheap \<times> 'a) option) \<Rightarrow> nat list \<Rightarrow> 'h mheap \<Rightarrow> 'a \<Rightarrow>
   ('h mheap \<times> 'a) option" where
  "fold_opt body [] hp acc = Some (hp, acc)"
| "fold_opt body (c # cs) hp acc = do { (hp', acc') \<leftarrow> body c hp acc; fold_opt body cs hp' acc' }"

definition keeps_others :: "(nat \<Rightarrow> 'h mheap \<Rightarrow> 'a \<Rightarrow> ('h mheap \<times> 'a) option) \<Rightarrow> bool" where
  "keeps_others body \<longleftrightarrow>
     (\<forall>c hp acc hp' acc' x. body c hp acc = Some (hp', acc') \<longrightarrow> x \<noteq> c \<longrightarrow> nxt hp' x = nxt hp x)"

text \<open>A walk over the ring is a fold over its nodes, whatever the body does to the current node.\<close>

lemma ring_walk_chain:
  assumes "keeps_others body"
  shows "ring_chain (nxt hp) (c # cs) s \<Longrightarrow> distinct (c # cs) \<Longrightarrow> s \<notin> set cs \<Longrightarrow>
    ring_walk body (Some s) (Some c) hp acc = fold_opt body (c # cs) hp acc"
proof (induction cs arbitrary: c hp acc)
  case Nil
  then obtain nd where "hp c = Some nd" "mnext nd = Some s" by (auto simp: nxt_Some)
  then show ?case by (subst ring_walk.simps) (auto split: option.splits bind_splits)
next
  case (Cons d ds)
  obtain nd where nd: "hp c = Some nd" "mnext nd = Some d" "d \<noteq> s"
    using Cons.prems by (auto simp: nxt_Some)
  show ?case
  proof (cases "body c hp acc")
    case None
    with nd show ?thesis by (subst ring_walk.simps) simp
  next
    case (Some p)
    obtain hp' acc' where p: "p = (hp', acc')" by (cases p)
    have "\<And>x. x \<in> set (d # ds) \<Longrightarrow> nxt hp' x = nxt hp x"
      using assms Some p Cons.prems(2) unfolding keeps_others_def by (metis distinct.simps(2))
    then have "ring_chain (nxt hp') (d # ds) s"
      using Cons.prems(1) ring_chain_cong [of "d # ds" "nxt hp'" "nxt hp" s] by simp
    then have "ring_walk body (Some s) (Some d) hp' acc' = fold_opt body (d # ds) hp' acc'"
      using Cons by auto
    with nd Some p show ?thesis by (subst ring_walk.simps) simp
  qed
qed

lemma ring_walk_fold:
  assumes "keeps_others body" and "is_ring hp xs"
    and "start = (case xs of [] \<Rightarrow> None | x # _ \<Rightarrow> Some x)"
  shows "ring_walk body start start hp acc = fold_opt body xs hp acc"
proof (cases xs)
  case Nil
  with assms(3) show ?thesis by (subst ring_walk.simps) simp
next
  case (Cons c cs)
  with assms show ?thesis
    using ring_walk_chain [of body hp c cs c acc] by (auto simp: is_ring_def)
qed

text \<open>The nodes of \<open>xs\<close> with their helpers mapped by \<open>f\<close>.\<close>

definition map_socks :: "('h \<Rightarrow> 'h) \<Rightarrow> nat set \<Rightarrow> 'h mheap \<Rightarrow> 'h mheap" where
  "map_socks f A hp = (\<lambda>a. if a \<in> A then map_option (\<lambda>nd. nd\<lparr>sock := f (sock nd)\<rparr>) (hp a) else hp a)"

lemma map_socks_empty [simp]: "map_socks f {} hp = hp"
  by (simp add: map_socks_def)

lemma links_map_socks [simp]: "nxt (map_socks f A hp) = nxt hp" "prv (map_socks f A hp) = prv hp"
  by (auto simp: nxt_def prv_def map_socks_def fun_eq_iff map_option_case split: option.splits)

lemma ring_map_socks [simp]: "is_ring (map_socks f A hp) xs = is_ring hp xs"
  by (simp add: is_ring_def)

lemma upd_sock_Some:
  "hp a = Some nd \<Longrightarrow> upd_sock f a hp = Some (map_socks f {a} hp)"
  by (auto simp: upd_sock_def upd_node_def map_socks_def fun_eq_iff)

lemma upd_sock_eq: "upd_sock f a hp = (if hp a = None then None else Some (map_socks f {a} hp))"
  by (auto simp: upd_sock_Some) (simp add: upd_sock_def upd_node_def)

lemma map_socks_join:
  "A \<inter> B = {} \<Longrightarrow> map_socks f A (map_socks f B hp) = map_socks f (A \<union> B) hp"
  by (auto simp: map_socks_def fun_eq_iff)

lemma dom_map_socks [simp]: "dom (map_socks f A hp) = dom hp"
  by (auto simp: map_socks_def split: if_splits)

lemma keeps_sock_step: "keeps_others (sock_step f)"
  by (auto simp: keeps_others_def sock_step_def upd_sock_eq bind_eq_Some_conv split: if_splits)

lemma fold_sock_step:
  "distinct xs \<Longrightarrow> set xs \<subseteq> dom hp \<Longrightarrow>
   fold_opt (sock_step f) xs hp () = Some (map_socks f (set xs) hp, ())"
proof (induction xs arbitrary: hp)
  case (Cons c cs)
  then have "upd_sock f c hp = Some (map_socks f {c} hp)" by (auto simp: upd_sock_eq)
  with Cons show ?case by (simp add: map_socks_join sock_step_def)
qed simp

definition first_node :: "nat list \<Rightarrow> nat option" where
  "first_node xs = (case xs of [] \<Rightarrow> None | x # _ \<Rightarrow> Some x)"

definition members_ok :: "('h, 'i) mserver \<Rightarrow> nat list \<Rightarrow> bool" where
  "members_ok ms xs \<longleftrightarrow> nodes ms = first_node xs \<and> is_ring (mheap ms) xs \<and>
     nodesCount ms = int (length xs) \<and> (\<forall>a \<in> dom (mheap ms). a < brk ms)"

lemma members_dom: "members_ok ms xs \<Longrightarrow> set xs \<subseteq> dom (mheap ms)"
  by (simp add: members_ok_def ring_dom)

lemma members_distinct: "members_ok ms xs \<Longrightarrow> distinct xs"
  by (simp add: members_ok_def is_ring_def)

lemma members_walk:
  "members_ok ms xs \<Longrightarrow> keeps_others body \<Longrightarrow>
   ring_walk body (nodes ms) (nodes ms) (mheap ms) acc = fold_opt body xs (mheap ms) acc"
  by (simp add: members_ok_def first_node_def ring_walk_fold)

lemma ring_map_members:
  assumes "members_ok ms xs"
  shows "ring_map f ms = Some (ms\<lparr>mheap := map_socks f (set xs) (mheap ms)\<rparr>)"
  using members_dom [OF assms] members_distinct [OF assms]
  by (simp add: ring_map_def members_walk [OF assms] keeps_sock_step fold_sock_step)

text \<open>What a node holds beside its links.\<close>

definition content :: "'h mheap \<Rightarrow> nat \<rightharpoonup> nat \<times> int \<times> 'h" where
  "content hp a = map_option (\<lambda>nd. (refs nd, weight nd, sock nd)) (hp a)"

definition wt :: "'h mheap \<Rightarrow> nat \<Rightarrow> int" where
  "wt hp a = (case hp a of None \<Rightarrow> 0 | Some nd \<Rightarrow> weight nd)"

lemma keeps_vnode_body: "keeps_others vnode_body"
  by (auto simp: keeps_others_def vnode_body_def bind_eq_Some_conv)

lemma fold_vnode_body:
  "set xs \<subseteq> dom hp \<Longrightarrow> fold_opt vnode_body xs hp (vs, bs) =
     Some (hp, vs @ concat (map (\<lambda>a. replicate (nat (wt hp a)) a) xs), bs @ filter (\<lambda>a. wt hp a = 0) xs)"
proof (induction xs arbitrary: vs bs)
  case (Cons c cs)
  then obtain nd where "hp c = Some nd" by auto
  with Cons show ?case by (auto simp: vnode_body_def wt_def)
qed simp

definition tables_ok :: "('h, 'i) mserver \<Rightarrow> nat list \<Rightarrow> bool" where
  "tables_ok ms xs \<longleftrightarrow>
     vnodes ms = concat (map (\<lambda>a. replicate (nat (wt (mheap ms) a)) a) xs) \<and>
     bnodes ms = filter (\<lambda>a. wt (mheap ms) a = 0) xs"

lemma buildVNode_members:
  assumes "members_ok ms xs"
  shows "\<exists>vs bs. buildVNode ms = Some (ms\<lparr>vnodes := vs, bnodes := bs\<rparr>) \<and>
     tables_ok (ms\<lparr>vnodes := vs, bnodes := bs\<rparr>) xs"
  using members_dom [OF assms]
  by (simp add: buildVNode_def members_walk [OF assms] keeps_vnode_body fold_vnode_body tables_ok_def)

definition drop_refs :: "('h \<Rightarrow> 'h) \<Rightarrow> nat set \<Rightarrow> 'h mheap \<Rightarrow> 'h mheap" where
  "drop_refs f A hp = (\<lambda>a. if a \<in> A then Option.bind (hp a) (\<lambda>nd. if refs nd \<le> 1 then None
      else Some (nd\<lparr>sock := f (sock nd), refs := refs nd - 1\<rparr>)) else hp a)"

lemma remove_body_eq:
  "hp c = Some nd \<Longrightarrow> remove_body ops c hp n = Some (drop_refs (stopMonitor ops) {c} hp, n - 1)"
  by (auto simp: remove_body_def upd_sock_Some release_def map_socks_def drop_refs_def fun_eq_iff)

lemma keeps_remove_body: "keeps_others (remove_body ops)"
proof -
  have "nxt hp' x = nxt hp x"
    if "remove_body ops c hp acc = Some (hp', acc')" "x \<noteq> c"
    for c hp acc hp' acc' x
  proof (cases "hp c")
    case None
    with that show ?thesis by (simp add: remove_body_def upd_sock_eq)
  next
    case (Some nd)
    with that have "hp' = drop_refs (stopMonitor ops) {c} hp" by (simp add: remove_body_eq)
    with that(2) show ?thesis by (simp add: nxt_def drop_refs_def)
  qed
  then show ?thesis unfolding keeps_others_def by blast
qed

lemma fold_remove_body:
  "distinct xs \<Longrightarrow> set xs \<subseteq> dom hp \<Longrightarrow>
   fold_opt (remove_body ops) xs hp n = Some (drop_refs (stopMonitor ops) (set xs) hp, n - int (length xs))"
proof (induction xs arbitrary: hp n)
  case Nil
  then show ?case by (simp add: drop_refs_def)
next
  case (Cons c cs)
  then obtain nd where nd: "hp c = Some nd" by auto
  have sub: "set cs \<subseteq> dom (drop_refs (stopMonitor ops) {c} hp)"
    using Cons.prems by (auto simp: drop_refs_def)
  have join: "drop_refs (stopMonitor ops) (set cs) (drop_refs (stopMonitor ops) {c} hp) =
      drop_refs (stopMonitor ops) (insert c (set cs)) hp"
    using Cons.prems(1) by (auto simp: drop_refs_def fun_eq_iff)
  show ?case using Cons.prems(1) Cons.IH [OF _ sub] by (simp add: remove_body_eq [of _ _ nd] nd join)
qed

lemma drop_refs_dom: "dom (drop_refs f A hp) \<subseteq> dom hp"
  by (auto simp: drop_refs_def bind_eq_Some_conv split: if_splits)

lemma removeAllNode_members:
  assumes "members_ok ms xs"
  shows "removeAllNode ops ms = Some (ms\<lparr>mheap := drop_refs (stopMonitor ops) (set xs) (mheap ms),
     nodes := None, bnodes := [], vnodes := [], nodesCount := 0\<rparr>)"
proof -
  have "nodesCount ms - int (length xs) = 0" using assms by (simp add: members_ok_def)
  then show ?thesis using members_dom [OF assms] members_distinct [OF assms]
    by (simp add: removeAllNode_def members_walk [OF assms] keeps_remove_body fold_remove_body)
qed

lemma removeAllNode_empty:
  assumes "members_ok ms xs"
  shows "\<exists>ms'. removeAllNode ops ms = Some ms' \<and> members_ok ms' []"
  using assms drop_refs_dom [of "stopMonitor ops" "set xs" "mheap ms"]
  by (auto simp: removeAllNode_members [OF assms] members_ok_def first_node_def is_ring_def)

lemma nxt_upd: "nxt (hp(x \<mapsto> nd)) = (nxt hp)(x := mnext nd)"
  by (simp add: nxt_def fun_eq_iff)

lemma prv_upd: "prv (hp(x \<mapsto> nd)) = (prv hp)(x := mprev nd)"
  by (simp add: prv_def fun_eq_iff)

lemma content_upd: "content (hp(x \<mapsto> nd)) = (content hp)(x \<mapsto> (refs nd, weight nd, sock nd))"
  by (simp add: content_def fun_eq_iff)

lemmas node_upds = nxt_upd prv_upd content_upd

lemma content_same: "hp x = Some nd \<Longrightarrow> (content hp)(x \<mapsto> (refs nd, weight nd, sock nd)) = content hp"
  by (simp add: content_def fun_eq_iff)

lemma link_first:
  assumes "nodes ms = None" "mheap ms a = Some nd"
  shows "\<exists>hp. link_node a ms = Some (ms\<lparr>mheap := hp, nodes := Some a\<rparr>) \<and> dom hp = dom (mheap ms) \<and>
     nxt hp = (nxt (mheap ms))(a \<mapsto> a) \<and> prv hp = (prv (mheap ms))(a \<mapsto> a) \<and>
     content hp = content (mheap ms)"
  using assms
  by (intro exI [of _ "(mheap ms)(a \<mapsto> nd\<lparr>mnext := Some a, mprev := Some a\<rparr>)"])
    (auto simp: link_node_def upd_node_def node_upds content_same)

lemma link_more:
  assumes "nodes ms = Some f" "mheap ms a = Some nd" "mheap ms f = Some fn" "mprev fn = Some l"
    and "mheap ms l = Some ln" and ne: "a \<noteq> f" "a \<noteq> l"
  shows "\<exists>hp. link_node a ms = Some (ms\<lparr>mheap := hp\<rparr>) \<and> dom hp = dom (mheap ms) \<and>
     nxt hp = (nxt (mheap ms))(a \<mapsto> f, l \<mapsto> a) \<and> prv hp = (prv (mheap ms))(a \<mapsto> l, f \<mapsto> a) \<and>
     content hp = content (mheap ms)"
proof (cases "f = l")
  case True
  then show ?thesis using assms
    by (intro exI [of _ "(mheap ms)(a \<mapsto> nd\<lparr>mnext := Some f, mprev := Some l\<rparr>,
          l \<mapsto> ln\<lparr>mnext := Some a, mprev := Some a\<rparr>)"])
      (auto simp: link_node_def upd_node_def content_def nxt_def prv_def fun_eq_iff)
next
  case False
  then show ?thesis using assms
    by (intro exI [of _ "(mheap ms)(a \<mapsto> nd\<lparr>mnext := Some f, mprev := Some l\<rparr>,
          l \<mapsto> ln\<lparr>mnext := Some a\<rparr>, f \<mapsto> fn\<lparr>mprev := Some a\<rparr>)"])
      (auto simp: link_node_def upd_node_def content_def nxt_def prv_def fun_eq_iff)
qed

lemma ring_single: "nxt hp = (n0)(a \<mapsto> a) \<Longrightarrow> prv hp = (p0)(a \<mapsto> a) \<Longrightarrow> is_ring hp [a]"
  by (simp add: is_ring_def)

lemma ring_chain_upd_out: "x \<notin> set xs \<Longrightarrow> ring_chain (f(x := v)) xs e = ring_chain f xs e"
  by (rule ring_chain_cong) auto

lemma ring_snoc:
  assumes r: "is_ring hp xs" and x: "xs = f # ys" "xs = zs @ [l]" and a: "a \<notin> set xs"
    and n: "nxt hp' = (nxt hp)(a \<mapsto> f, l \<mapsto> a)" and p: "prv hp' = (prv hp)(a \<mapsto> l, f \<mapsto> a)"
  shows "is_ring hp' (xs @ [a])"
proof -
  have d: "distinct xs" and c: "ring_chain (nxt hp) xs f" and q: "ring_chain (prv hp) (rev xs) l"
    using r x(1) arg_cong [OF x(2), of last] by (auto simp: is_ring_def)
  have z: "l \<notin> set zs" "a \<notin> set zs" "a \<noteq> l" using d a x(2) by auto
  have y: "f \<notin> set ys" "a \<notin> set ys" "a \<noteq> f" using d a x(1) by auto
  have "ring_chain (nxt hp) zs l" using c by (simp add: x(2) ring_chain_append)
  then have 1: "ring_chain (nxt hp') (zs @ [l] @ [a]) f"
    using z by (simp add: n ring_chain_append ring_chain_upd_out)
  have "rev xs = rev ys @ [f]" using x(1) by simp
  then have "ring_chain (prv hp) (rev ys) f" using q by (simp add: ring_chain_append)
  then have 2: "ring_chain (prv hp') (rev ys @ [f]) a"
    using y by (simp add: p ring_chain_append ring_chain_upd_out)
  have h: "rev xs = l # rev zs" using x(2) by simp
  have 3: "prv hp' a = Some l" using y by (simp add: p)
  have "ring_chain (nxt hp') (xs @ [a]) (hd (xs @ [a]))"
  proof -
    have "xs @ [a] = zs @ [l] @ [a]" using x(2) by simp
    moreover have "hd (xs @ [a]) = f" using x(1) by simp
    ultimately show ?thesis using 1 by (simp only:)
  qed
  moreover have "ring_chain (prv hp') (rev (xs @ [a])) (last (xs @ [a]))"
    using 2 3 h \<open>rev xs = rev ys @ [f]\<close> by simp
  ultimately show ?thesis using d a by (simp add: is_ring_def)
qed

definition prepare :: "('h, 'u) sock_ops \<Rightarrow> ('h, 'i) mserver \<Rightarrow> int \<times> 'h \<Rightarrow> int \<times> 'h" where
  "prepare ops ms h = (fst h, set_error_try ops (max_error_count ms) (errorTryTime ms)
     (set_tcp ops (is_upstream_tcp (proto ms)) (snd h)))"

lemma addNode_members:
  assumes m: "members_ok ms xs"
  shows "\<exists>hp n. addNode ops h ms =
      Some (ms\<lparr>mheap := hp, brk := brk ms + 1, nodes := n, nodesCount := nodesCount ms + 1\<rparr>) \<and>
    members_ok (ms\<lparr>mheap := hp, brk := brk ms + 1, nodes := n, nodesCount := nodesCount ms + 1\<rparr>) (xs @ [brk ms]) \<and>
    content hp = (content (mheap ms))(brk ms \<mapsto> (1, prepare ops ms h))"
proof -
  let ?a = "brk ms"
  let ?nd = "\<lparr>mnext = None, mprev = None, refs = 1, weight = fst h, sock = snd (prepare ops ms h)\<rparr>"
  let ?m = "ms\<lparr>mheap := (mheap ms)(?a \<mapsto> ?nd), brk := ?a + 1\<rparr>"
  have fresh: "?a \<notin> set xs" "?a \<notin> dom (mheap ms)"
    using m members_dom [OF m] by (auto simp: members_ok_def)
  have add: "addNode ops h ms = do { ms' \<leftarrow> link_node ?a ?m; Some (ms'\<lparr>nodesCount := nodesCount ms' + 1\<rparr>) }"
    by (simp add: addNode_def prepare_def Let_def)
  have cont: "content (mheap ?m) = (content (mheap ms))(?a \<mapsto> (1, prepare ops ms h))"
    by (simp add: content_upd prepare_def)
  have dom: "\<forall>a \<in> dom (mheap ?m). a < ?a + 1" using m by (auto simp: members_ok_def dom_def)
  show ?thesis
  proof (cases xs)
    case Nil
    then have "nodes ?m = None" using m by (simp add: members_ok_def first_node_def)
    from link_first [OF this, of ?a ?nd] obtain hp where hp:
      "link_node ?a ?m = Some (?m\<lparr>mheap := hp, nodes := Some ?a\<rparr>)" "dom hp = dom (mheap ?m)"
      "nxt hp = (nxt (mheap ?m))(?a \<mapsto> ?a)" "prv hp = (prv (mheap ?m))(?a \<mapsto> ?a)"
      "content hp = content (mheap ?m)" by auto
    have "is_ring hp [?a]" by (rule ring_single [OF hp(3,4)])
    with hp dom cont add m Nil show ?thesis
      by (intro exI [of _ hp] exI [of _ "Some ?a"]) (auto simp: members_ok_def first_node_def)
  next
    case (Cons f ys)
    obtain zs l where l: "xs = zs @ [l]" using Cons by (metis rev_exhaust list.distinct(1))
    have f: "nodes ?m = Some f" using m Cons by (simp add: members_ok_def first_node_def)
    have "ring_chain (prv (mheap ms)) (rev ys @ [f]) l"
      using m Cons arg_cong [OF l, of last] by (auto simp: members_ok_def is_ring_def)
    then have "prv (mheap ms) f = Some l" by (simp add: ring_chain_append)
    then obtain fn where fn: "mheap ms f = Some fn" "mprev fn = Some l"
      by (auto simp: prv_def bind_eq_Some_conv)
    obtain ln where ln: "mheap ms l = Some ln" using members_dom [OF m] l by auto
    have "f \<in> set xs" "l \<in> set xs" using Cons l by (simp, metis in_set_conv_decomp)
    then have ne: "?a \<noteq> f" "?a \<noteq> l" using fresh by auto
    from link_more [OF f, of ?a ?nd fn l ln] fn ln ne obtain hp where hp:
      "link_node ?a ?m = Some (?m\<lparr>mheap := hp\<rparr>)" "dom hp = dom (mheap ?m)"
      "nxt hp = (nxt (mheap ?m))(?a \<mapsto> f, l \<mapsto> ?a)" "prv hp = (prv (mheap ?m))(?a \<mapsto> l, f \<mapsto> ?a)"
      "content hp = content (mheap ?m)" by auto
    have "is_ring (mheap ms) xs" using m by (simp add: members_ok_def)
    then have "is_ring hp (xs @ [?a])"
      using hp(3,4) fresh(1) by (intro ring_snoc [OF _ Cons l]) (simp_all add: node_upds)
    with hp dom cont add m Cons f show ?thesis
      by (intro exI [of _ hp] exI [of _ "nodes ms"]) (auto simp: members_ok_def first_node_def)
  qed
qed

section \<open>Reloading a group\<close>

definition listing :: "('h, 'i) mserver \<Rightarrow> (int \<times> 'h) list \<Rightarrow> bool" where
  "listing ms hs \<longleftrightarrow> (\<exists>xs. members_ok ms xs \<and> map (content (mheap ms)) xs = map (\<lambda>h. Some (1, h)) hs)"

definition group_conf ::
  "('h, 'i) mserver \<Rightarrow> Proto \<times> int \<times> int \<times> bool \<times> bool \<times> bool \<times> 'i option" where
  "group_conf ms = (proto ms, max_error_count ms, errorTryTime ms, ip_hash ms, url_hash ms,
     cookie_stick ms, icp ms)"

definition prep_conf ::
  "('h, 'u) sock_ops \<Rightarrow> Proto \<times> int \<times> int \<times> bool \<times> bool \<times> bool \<times> 'i option \<Rightarrow> int \<times> 'h \<Rightarrow> int \<times> 'h" where
  "prep_conf ops c h = (fst h, set_error_try ops (fst (snd c)) (fst (snd (snd c)))
     (set_tcp ops (is_upstream_tcp (fst c)) (snd h)))"

lemma prep_conf_prepare: "prep_conf ops (group_conf ms) = prepare ops ms"
  by (simp add: prep_conf_def prepare_def group_conf_def fun_eq_iff)

text \<open>
  What the reload paths rely on: clearing the group empties its listing, adding a helper appends it,
  prepared with the group's settings, and neither touches the settings.
\<close>

locale node_group =
  fixes listing :: "'g \<Rightarrow> 'p list \<Rightarrow> bool"
    and conf :: "'g \<Rightarrow> 'c"
    and prep :: "'c \<Rightarrow> 'p \<Rightarrow> 'p"
    and add :: "'p \<Rightarrow> 'g \<Rightarrow> 'g option"
    and clear :: "'g \<Rightarrow> 'g option"
  assumes clear_law: "listing g hs \<Longrightarrow> \<exists>g'. clear g = Some g' \<and> listing g' [] \<and> conf g' = conf g"
    and add_law: "listing g hs \<Longrightarrow>
      \<exists>g'. add h g = Some g' \<and> listing g' (hs @ [prep (conf g) h]) \<and> conf g' = conf g"
begin

lemma in_order_listing:
  "listing g hs \<Longrightarrow>
   \<exists>g'. in_order add ps g = Some g' \<and> listing g' (hs @ map (prep (conf g)) ps) \<and> conf g' = conf g"
proof (induction ps arbitrary: g hs)
  case (Cons p ps)
  obtain g1 where g1: "add p g = Some g1" "listing g1 (hs @ [prep (conf g) p])" "conf g1 = conf g"
    using add_law [OF Cons.prems] by blast
  from Cons.IH [OF g1(2)] g1 show ?case by auto
qed auto

lemma reload:
  assumes "listing g hs"
  shows "\<exists>g1 g'. clear g = Some g1 \<and> conf g1 = conf g \<and> in_order add ps g1 = Some g' \<and>
     listing g' (map (prep (conf g)) ps) \<and> conf g' = conf g"
proof -
  obtain g1 where "clear g = Some g1" "listing g1 []" "conf g1 = conf g"
    using clear_law [OF assms] by blast
  with in_order_listing [of g1 "[]" ps] show ?thesis by auto
qed

end

lemma removeAllNode_conf: "removeAllNode ops ms = Some ms' \<Longrightarrow> group_conf ms' = group_conf ms"
  by (auto simp: removeAllNode_def group_conf_def bind_eq_Some_conv split: if_splits)

lemma addNode_listing:
  assumes "listing ms hs"
  shows "\<exists>ms'. addNode ops h ms = Some ms' \<and> listing ms' (hs @ [prepare ops ms h]) \<and>
    group_conf ms' = group_conf ms"
proof -
  obtain xs where xs: "members_ok ms xs" "map (content (mheap ms)) xs = map (\<lambda>h. Some (1, h)) hs"
    using assms by (auto simp: listing_def)
  obtain hp n where a: "addNode ops h ms =
      Some (ms\<lparr>mheap := hp, brk := brk ms + 1, nodes := n, nodesCount := nodesCount ms + 1\<rparr>)"
    "members_ok (ms\<lparr>mheap := hp, brk := brk ms + 1, nodes := n, nodesCount := nodesCount ms + 1\<rparr>) (xs @ [brk ms])"
    "content hp = (content (mheap ms))(brk ms \<mapsto> (1, prepare ops ms h))"
    using addNode_members [OF xs(1), of ops h] by auto
  have "brk ms \<notin> set xs" using members_dom [OF xs(1)] xs(1) by (auto simp: members_ok_def)
  then have "map (content hp) xs = map (content (mheap ms)) xs" using a(3) by auto
  then show ?thesis using a xs(2)
    by (auto simp: listing_def group_conf_def intro!: exI [of _ "xs @ [brk ms]"])
qed

interpretation ng: node_group listing group_conf "prep_conf ops" "addNode ops" "removeAllNode ops"
  for ops :: "('h, 'u) sock_ops"
proof
  fix ms :: "('h, 'i) mserver" and hs h
  assume l: "listing ms hs"
  then obtain xs where m: "members_ok ms xs" by (auto simp: listing_def)
  obtain ms' where ms': "removeAllNode ops ms = Some ms'" "members_ok ms' []"
    using removeAllNode_empty [OF m] by blast
  then show "\<exists>g'. removeAllNode ops ms = Some g' \<and> listing g' [] \<and> group_conf g' = group_conf ms"
    using removeAllNode_conf [OF ms'(1)] by (auto simp: listing_def)
  show "\<exists>g'. addNode ops h ms = Some g' \<and> listing g' (hs @ [prep_conf ops (group_conf ms) h]) \<and>
      group_conf g' = group_conf ms"
    using addNode_listing [OF l] by (simp add: prep_conf_prepare)
qed

lemma add_bodies_in_order:
  "listing ms hs \<Longrightarrow>
   add_bodies ops bs ms = in_order (addNode ops) (List.map_filter (parse_helper ops (proto ms)) bs) ms"
proof (induction bs arbitrary: ms hs)
  case (Cons b bs)
  show ?case
  proof (cases "parse_helper ops (proto ms) b")
    case None
    with Cons show ?thesis by (simp add: List.map_filter_simps)
  next
    case (Some h)
    obtain ms' where ms': "addNode ops h ms = Some ms'" "listing ms' (hs @ [prepare ops ms h])"
      "group_conf ms' = group_conf ms" using addNode_listing [OF Cons.prems] by blast
    from ms'(3) have "proto ms' = proto ms" by (simp add: group_conf_def)
    with Some ms' Cons.IH [OF ms'(2)] show ?thesis by (simp add: List.map_filter_simps)
  qed
qed (simp add: List.map_filter_simps)

text \<open>
  What a finished (re)load leaves behind: the nodes \<open>hs\<close> in this order, each entered as often as its
  weight says in the table of primaries, the ones of weight 0 and no others in the list of backups.
\<close>

definition loaded :: "('h, 'i) mserver \<Rightarrow> (int \<times> 'h) list \<Rightarrow> nat list \<Rightarrow> bool" where
  "loaded ms hs xs \<longleftrightarrow> members_ok ms xs \<and> map (content (mheap ms)) xs = map (\<lambda>h. Some (1, h)) hs \<and>
     set (vnodes ms) \<subseteq> set xs \<and>
     (\<forall>i < length hs. count_list (vnodes ms) (xs ! i) = nat (fst (hs ! i)) \<and>
        (xs ! i \<in> set (bnodes ms) \<longleftrightarrow> fst (hs ! i) = 0))"

lemma count_list_weights:
  "distinct xs \<Longrightarrow> count_list (concat (map (\<lambda>a. replicate (w a) a) xs)) x = (if x \<in> set xs then w x else 0)"
proof (induction xs)
  case (Cons a xs)
  have "count_list (replicate n a) x = (if x = a then n else 0)" for n by (induction n) auto
  with Cons show ?case by auto
qed simp

lemma tables_loaded:
  assumes m: "members_ok ms xs" and t: "tables_ok ms xs"
    and c: "map (content (mheap ms)) xs = map (\<lambda>h. Some (1, h)) hs"
  shows "loaded ms hs xs"
proof -
  have len: "length xs = length hs" using c by (metis length_map)
  have w: "wt (mheap ms) (xs ! i) = fst (hs ! i)" if "i < length hs" for i
  proof -
    have "content (mheap ms) (xs ! i) = Some (1, hs ! i)" using c that len by (metis nth_map)
    then show ?thesis by (cases "hs ! i") (auto simp: content_def wt_def)
  qed
  show ?thesis using m c t members_distinct [OF m] w len
    by (auto simp: loaded_def tables_ok_def count_list_weights)
qed

lemma build_loaded:
  assumes "listing ms hs"
  shows "\<exists>ms' xs. buildVNode ms = Some ms' \<and> loaded ms' hs xs \<and> group_conf ms' = group_conf ms"
proof -
  obtain xs where xs: "members_ok ms xs" "map (content (mheap ms)) xs = map (\<lambda>h. Some (1, h)) hs"
    using assms by (auto simp: listing_def)
  obtain vs bs where b: "buildVNode ms = Some (ms\<lparr>vnodes := vs, bnodes := bs\<rparr>)"
    "tables_ok (ms\<lparr>vnodes := vs, bnodes := bs\<rparr>) xs" using buildVNode_members [OF xs(1)] by blast
  have "loaded (ms\<lparr>vnodes := vs, bnodes := bs\<rparr>) hs xs"
    using xs by (intro tables_loaded [OF _ b(2)]) (simp_all add: members_ok_def)
  then show ?thesis using b by (auto simp: group_conf_def)
qed

text \<open>
  A new or updated list of nodes in the configuration replaces the nodes of the group: the
  handler returns, the nodes that parsed are there in the order of the configuration, each has as
  many entries among the primaries as its weight (none when the weight is negative), the backups are
  exactly the nodes of weight 0, and the group's own settings are as before.
\<close>

theorem group_config_reload:
  assumes "listing ms old" and "ev = EvNewSubDir \<or> ev = EvUpdateSubDir"
  shows "\<exists>ms' xs. group_config_event ops ''node'' bodies ev ms = Some (True, ms') \<and>
     loaded ms' (map (prepare ops ms) (List.map_filter (parse_helper ops (proto ms)) bodies)) xs \<and>
     group_conf ms' = group_conf ms"
proof -
  let ?ps = "List.map_filter (parse_helper ops (proto ms)) bodies"
  obtain m1 m2 where m: "removeAllNode ops ms = Some m1" "group_conf m1 = group_conf ms"
    "in_order (addNode ops) ?ps m1 = Some m2" "listing m2 (map (prepare ops ms) ?ps)"
    "group_conf m2 = group_conf ms"
    using ng.reload [OF assms(1), of ops ?ps] by (auto simp: prep_conf_prepare)
  have p: "proto m1 = proto ms" using m(2) by (simp add: group_conf_def)
  obtain l where "listing m1 l" using m(1) ng.clear_law [OF assms(1), of ops] by auto
  then have "add_bodies ops bodies m1 = Some m2" using add_bodies_in_order [of m1 l ops bodies] m(3) p by simp
  moreover obtain m3 xs where "buildVNode m2 = Some m3" "loaded m3 (map (prepare ops ms) ?ps) xs"
    "group_conf m3 = group_conf m2" using build_loaded [OF m(4)] by blast
  ultimately show ?thesis using assms(2) m(1,5)
    by (auto simp: group_config_event_def)
qed

section \<open>The choice\<close>

text \<open>
  What the code relies on of a helper: a probe that is refused changes nothing, an enabled helper is
  available, and \<^verbatim>\<open>enable\<close> enables.
\<close>

definition sock_laws :: "('h, 'u) sock_ops \<Rightarrow> bool" where
  "sock_laws ops \<longleftrightarrow> (\<forall>h. \<not> fst (is_available ops h) \<longrightarrow> snd (is_available ops h) = h) \<and>
     (\<forall>h. is_enabled ops h \<longrightarrow> fst (is_available ops h)) \<and>
     (\<forall>h. is_enabled ops (enable ops h))"

definition avail :: "('h, 'u) sock_ops \<Rightarrow> 'h mheap \<Rightarrow> nat \<Rightarrow> bool" where
  "avail ops hp a = (case hp a of None \<Rightarrow> False | Some nd \<Rightarrow> fst (is_available ops (sock nd)))"

definition enabled :: "('h, 'u) sock_ops \<Rightarrow> 'h mheap \<Rightarrow> nat \<Rightarrow> bool" where
  "enabled ops hp a = (case hp a of None \<Rightarrow> False | Some nd \<Rightarrow> is_enabled ops (sock nd))"

definition tick :: "('h, 'u) sock_ops \<Rightarrow> 'h mheap \<Rightarrow> nat \<Rightarrow> int" where
  "tick ops hp a = (case hp a of None \<Rightarrow> 0 | Some nd \<Rightarrow> avg_monitor_tick ops (sock nd))"

lemma probe_refused:
  assumes "sock_laws ops" "a \<in> dom hp" "\<not> avail ops hp a"
  shows "probe ops a hp = Some (False, hp)"
proof -
  obtain nd where nd: "hp a = Some nd" using assms(2) by auto
  then have "\<not> fst (is_available ops (sock nd))" using assms(3) by (simp add: avail_def)
  moreover from this have "snd (is_available ops (sock nd)) = sock nd"
    using assms(1) unfolding sock_laws_def by blast
  ultimately have "is_available ops (sock nd) = (False, sock nd)"
    by (cases "is_available ops (sock nd)") simp
  with nd show ?thesis by (simp add: probe_def map_upd_triv)
qed

lemma probe_granted:
  assumes "avail ops hp a"
  shows "\<exists>s. probe ops a hp = Some (True, map_socks (\<lambda>_. s) {a} hp)"
  using assms by (auto simp: probe_def avail_def map_socks_def fun_eq_iff split: option.splits prod.splits)

definition next_pos :: "nat \<Rightarrow> u16 \<Rightarrow> nat \<Rightarrow> nat" where
  "next_pos count index i =
     (if index AND 1 \<noteq> 0 then (unat index + i) mod count else (unat index + count - i) mod count)"

lemma next_loop_step:
  "next_loop ops vs node index i hp =
     (if i < length vs then
        (if vs ! next_pos (length vs) index i \<noteq> node then do {
           (b, hp') \<leftarrow> probe ops (vs ! next_pos (length vs) index i) hp;
           if b then Some (Some (vs ! next_pos (length vs) index i, word_of_nat (next_pos (length vs) index i)), hp')
           else next_loop ops vs node index (i + 1) hp' }
         else next_loop ops vs node index (i + 1) hp)
      else Some (None, hp))"
  by (subst next_loop.simps) (simp only: next_pos_def Let_def)

lemma next_pos_less: "0 < count \<Longrightarrow> next_pos count index i < count"
  by (simp add: next_pos_def)

lemma next_loop_found:
  assumes laws: "sock_laws ops" and dom: "set vs \<subseteq> dom hp" and node: "\<not> avail ops hp node"
  shows "(\<exists>p s. i \<le> length vs \<and> p < length vs \<and> avail ops hp (vs ! p) \<and>
      next_loop ops vs node index i hp =
        Some (Some (vs ! p, word_of_nat p), map_socks (\<lambda>_. s) {vs ! p} hp)) \<or>
    ((\<forall>j. i \<le> j \<longrightarrow> j < length vs \<longrightarrow> \<not> avail ops hp (vs ! next_pos (length vs) index j)) \<and>
      next_loop ops vs node index i hp = Some (None, hp))"
proof (induction "length vs - i" arbitrary: i)
  case 0
  then show ?case by (subst (2) next_loop_step) auto
next
  case (Suc n)
  let ?p = "next_pos (length vs) index i"
  have i: "i < length vs" using Suc.hyps(2) by simp
  then have p: "?p < length vs" by (intro next_pos_less) auto
  have IH: "(\<exists>p s. i + 1 \<le> length vs \<and> p < length vs \<and> avail ops hp (vs ! p) \<and>
      next_loop ops vs node index (i + 1) hp =
        Some (Some (vs ! p, word_of_nat p), map_socks (\<lambda>_. s) {vs ! p} hp)) \<or>
    ((\<forall>j. i + 1 \<le> j \<longrightarrow> j < length vs \<longrightarrow> \<not> avail ops hp (vs ! next_pos (length vs) index j)) \<and>
      next_loop ops vs node index (i + 1) hp = Some (None, hp))"
    using Suc by auto
  show ?case
  proof (cases "avail ops hp (vs ! ?p)")
    case True
    then obtain s where "probe ops (vs ! ?p) hp = Some (True, map_socks (\<lambda>_. s) {vs ! ?p} hp)"
      using probe_granted by blast
    moreover have "vs ! ?p \<noteq> node" using True node by auto
    ultimately have "next_loop ops vs node index i hp =
        Some (Some (vs ! ?p, word_of_nat ?p), map_socks (\<lambda>_. s) {vs ! ?p} hp)"
      using i by (subst next_loop_step) simp
    with True p i show ?thesis by (intro disjI1 exI [of _ ?p] exI [of _ s]) simp
  next
    case False
    have "probe ops (vs ! ?p) hp = Some (False, hp)"
      using False dom p by (intro probe_refused [OF laws]) (auto simp: subset_iff)
    then have step: "next_loop ops vs node index i hp = next_loop ops vs node index (i + 1) hp"
      using i by (subst next_loop_step) simp
    have "\<forall>j. i + 1 \<le> j \<longrightarrow> j < length vs \<longrightarrow> \<not> avail ops hp (vs ! next_pos (length vs) index j) \<Longrightarrow>
       \<forall>j. i \<le> j \<longrightarrow> j < length vs \<longrightarrow> \<not> avail ops hp (vs ! next_pos (length vs) index j)"
      using False by (metis Suc_eq_plus1 Suc_leI le_neq_implies_less)
    with IH i show ?thesis unfolding step by (meson add_leD1)
  qed
qed

text \<open>The positions visited from \<open>index\<close>, in either direction, are all the others.\<close>

lemma next_pos_covers:
  assumes "unat index < count" "q < count" "q \<noteq> unat index"
  shows "\<exists>j. 1 \<le> j \<and> j < count \<and> next_pos count index j = q"
proof (cases "index AND 1 \<noteq> 0")
  case True
  let ?j = "(q + count - unat index) mod count"
  show ?thesis
  proof (cases "unat index < q")
    case less: True
    with assms True show ?thesis by (intro exI [of _ "q - unat index"]) (auto simp: next_pos_def)
  next
    case False
    with assms True show ?thesis
      by (intro exI [of _ "q + count - unat index"]) (auto simp: next_pos_def)
  qed
next
  case even: False
  show ?thesis
  proof (cases "unat index < q")
    case True
    with assms even show ?thesis
      by (intro exI [of _ "unat index + count - q"]) (auto simp: next_pos_def)
  next
    case False
    with assms even show ?thesis
      by (intro exI [of _ "unat index - q"]) (auto simp: next_pos_def)
  qed
qed

lemma to_int32_le: "0 \<le> x \<Longrightarrow> to_int32 x \<le> x"
  using zmod_le_nonneg_dividend [of "x + 2147483648" 4294967296] by (simp add: to_int32_def)

lemma unat_word_of_int_le: "0 \<le> c \<Longrightarrow> int (unat (word_of_int c :: u16)) \<le> c"
  by (simp add: unsigned_of_int take_bit_eq_mod zmod_le_nonneg_dividend)

lemma unat_word_of_nat_le: "unat (word_of_nat n :: u16) \<le> n"
  by (simp add: unat_of_nat)

lemma stick_loop_bound: "stick_loop env n hs = Some i \<Longrightarrow> unat i < n"
proof (induction env n hs rule: stick_loop.induct)
  case (2 env n k v av)
  show ?case
  proof (cases "is_attr env k ''Cookie'' \<and> getCookieStick v (stick_name env) \<ge> 0")
    case True
    let ?c = "getCookieStick v (stick_name env)"
    have "i = word_of_int ?c" "?c < to_int32 (int n)"
      using 2(3) True by (auto simp: Let_def split: if_splits)
    then have "int (unat i) < int n"
      using unat_word_of_int_le [of ?c] to_int32_le [of "int n"] True
      by (metis of_nat_0_le_iff order_le_less_trans order_less_le_trans)
    then show ?thesis by (simp only: of_nat_less_iff)
  next
    case False
    then show ?thesis using 2 by (auto simp: Let_def split: if_splits)
  qed
qed simp

lemma getNodeIndex_bound:
  assumes "vnodes ms \<noteq> []"
  shows "unat (fst (getNodeIndex env r ms ck)) < length (vnodes ms)"
proof (cases "if cookie_stick ms then stick_loop env (length (vnodes ms)) (headers r) else None")
  case None
  let ?i = "unat (hash_index env r ms) mod length (vnodes ms)"
  have "?i < length (vnodes ms)" using assms by simp
  then have "unat (word_of_nat ?i :: u16) < length (vnodes ms)"
    using unat_word_of_nat_le [of ?i] by linarith
  then show ?thesis using None by (simp add: getNodeIndex_def Let_def split: if_splits)
next
  case (Some i)
  then show ?thesis by (auto simp: getNodeIndex_def dest: stick_loop_bound split: if_splits)
qed

lemma fast_loop_spec:
  assumes "set bs \<subseteq> dom hp" "\<And>f t. fast = Some (f, t) \<Longrightarrow> enabled ops hp f \<and> t = tick ops hp f"
  shows "\<exists>res. fast_loop ops hp bs fast = Some res \<and>
     (case res of
        None \<Rightarrow> fast = None \<and> (\<forall>b \<in> set bs. \<not> enabled ops hp b)
      | Some (b, t) \<Rightarrow> t = tick ops hp b \<and> enabled ops hp b \<and> (b \<in> set bs \<or> fast = Some (b, t)) \<and>
          (\<forall>c \<in> set bs. enabled ops hp c \<longrightarrow> t \<le> tick ops hp c) \<and>
          (\<forall>f u. fast = Some (f, u) \<longrightarrow> t \<le> u))"
  using assms
proof (induction bs arbitrary: fast)
  case Nil
  then show ?case by (auto split: option.splits)
next
  case (Cons b bs)
  then obtain nd where nd: "hp b = Some nd" by auto
  have t: "avg_monitor_tick ops (sock nd) = tick ops hp b" and e: "is_enabled ops (sock nd) = enabled ops hp b"
    using nd by (simp_all add: tick_def enabled_def)
  let ?take = "enabled ops hp b \<and> (case fast of None \<Rightarrow> True | Some (_, ft) \<Rightarrow> tick ops hp b < ft)"
  let ?fast = "if ?take then Some (b, tick ops hp b) else fast"
  have step: "fast_loop ops hp (b # bs) fast = fast_loop ops hp bs ?fast"
    using nd by (cases fast) (auto simp: t e Let_def)
  have "\<And>f u. ?fast = Some (f, u) \<Longrightarrow> enabled ops hp f \<and> u = tick ops hp f"
    using Cons.prems(2) by (auto split: if_splits)
  from Cons.IH [OF _ this] Cons.prems(1) obtain res where res:
    "fast_loop ops hp bs ?fast = Some res"
    "case res of None \<Rightarrow> ?fast = None \<and> (\<forall>b \<in> set bs. \<not> enabled ops hp b)
      | Some (b, t) \<Rightarrow> t = tick ops hp b \<and> enabled ops hp b \<and> (b \<in> set bs \<or> ?fast = Some (b, t)) \<and>
          (\<forall>c \<in> set bs. enabled ops hp c \<longrightarrow> t \<le> tick ops hp c) \<and>
          (\<forall>f u. ?fast = Some (f, u) \<longrightarrow> t \<le> u)" by auto
  show ?case
  proof (intro exI conjI)
    show "fast_loop ops hp (b # bs) fast = Some res" using step res(1) by simp
    show "case res of
        None \<Rightarrow> fast = None \<and> (\<forall>b \<in> set (b # bs). \<not> enabled ops hp b)
      | Some (x, t) \<Rightarrow> t = tick ops hp x \<and> enabled ops hp x \<and> (x \<in> set (b # bs) \<or> fast = Some (x, t)) \<and>
          (\<forall>c \<in> set (b # bs). enabled ops hp c \<longrightarrow> t \<le> tick ops hp c) \<and>
          (\<forall>f u. fast = Some (f, u) \<longrightarrow> t \<le> u)"
      using res(2) by (cases res; cases fast) (auto split: if_splits)
  qed
qed

lemma recover_loop_spec:
  assumes "sock_laws ops" "set bs \<subseteq> dom hp"
  shows "(\<exists>b s. b \<in> set bs \<and> avail ops hp b \<and>
      recover_loop ops bs hp = Some (Some b, map_socks (\<lambda>_. s) {b} hp)) \<or>
    ((\<forall>b \<in> set bs. \<not> avail ops hp b) \<and> recover_loop ops bs hp = Some (None, hp))"
  using assms(2)
proof (induction bs)
  case (Cons b bs)
  show ?case
  proof (cases "avail ops hp b")
    case True
    then show ?thesis using probe_granted [OF True] by auto
  next
    case False
    then have "probe ops b hp = Some (False, hp)" using Cons.prems by (intro probe_refused [OF assms(1)]) auto
    with Cons False show ?thesis by auto
  qed
qed simp

definition hashed :: "genv \<Rightarrow> rq \<Rightarrow> ('h, 'i) mserver \<Rightarrow> nat" where
  "hashed env r ms = vnodes ms ! unat (fst (getNodeIndex env r ms 0))"

lemma pick_primary_spec:
  assumes laws: "sock_laws ops" and dom: "set (vnodes ms) \<subseteq> dom (mheap ms)"
  defines "some_avail \<equiv> \<exists>a \<in> set (vnodes ms). avail ops (mheap ms) a"
  shows "some_avail \<Longrightarrow> \<exists>p k s hh. pick_primary ops env r ms =
       Some (Some (vnodes ms ! p, k), hh, map_socks (\<lambda>_. s) {vnodes ms ! p} (mheap ms)) \<and>
       p < length (vnodes ms) \<and> avail ops (mheap ms) (vnodes ms ! p) \<and>
       (avail ops (mheap ms) (hashed env r ms) \<longrightarrow>
          p = unat (fst (getNodeIndex env r ms 0)) \<and> k = snd (getNodeIndex env r ms 0)) \<and>
       (\<not> avail ops (mheap ms) (hashed env r ms) \<longrightarrow>
          k = (if cookie_stick ms then int (unat (word_of_nat p :: u16)) + 1 else snd (getNodeIndex env r ms 0)))"
    and "\<not> some_avail \<Longrightarrow> pick_primary ops env r ms =
       Some (None, if vnodes ms = [] then None else Some (hashed env r ms, snd (getNodeIndex env r ms 0)), mheap ms)"
proof -
  obtain index ck where ix: "getNodeIndex env r ms 0 = (index, ck)" by (cases "getNodeIndex env r ms 0")
  have h: "hashed env r ms = vnodes ms ! unat index" by (simp add: hashed_def ix)
  have bound: "unat index < length (vnodes ms)" if "vnodes ms \<noteq> []"
    using getNodeIndex_bound [OF that, of env r 0] ix by simp
  have refused: "probe ops (hashed env r ms) (mheap ms) = Some (False, mheap ms)"
    if "vnodes ms \<noteq> []" "\<not> avail ops (mheap ms) (hashed env r ms)"
    using dom bound that h by (intro probe_refused [OF laws]) (auto simp: subset_iff)
  {
    assume some: some_avail
    then have ne: "vnodes ms \<noteq> []" by (auto simp: some_avail_def)
    show "\<exists>p k s hh. pick_primary ops env r ms =
       Some (Some (vnodes ms ! p, k), hh, map_socks (\<lambda>_. s) {vnodes ms ! p} (mheap ms)) \<and>
       p < length (vnodes ms) \<and> avail ops (mheap ms) (vnodes ms ! p) \<and>
       (avail ops (mheap ms) (hashed env r ms) \<longrightarrow>
          p = unat (fst (getNodeIndex env r ms 0)) \<and> k = snd (getNodeIndex env r ms 0)) \<and>
       (\<not> avail ops (mheap ms) (hashed env r ms) \<longrightarrow>
          k = (if cookie_stick ms then int (unat (word_of_nat p :: u16)) + 1 else snd (getNodeIndex env r ms 0)))"
    proof (cases "avail ops (mheap ms) (hashed env r ms)")
      case True
      obtain s where "probe ops (hashed env r ms) (mheap ms) =
          Some (True, map_socks (\<lambda>_. s) {hashed env r ms} (mheap ms))"
        using probe_granted [OF True] by blast
      then show ?thesis using ne True bound [OF ne]
        by (intro exI [of _ "unat index"] exI [of _ ck] exI [of _ s]) (simp add: pick_primary_def ix h Let_def)
    next
      case False
      obtain q where q: "q < length (vnodes ms)" "avail ops (mheap ms) (vnodes ms ! q)"
        using some by (auto simp: some_avail_def in_set_conv_nth)
      then have "q \<noteq> unat index" using False h by auto
      with q next_pos_covers [OF bound [OF ne]] obtain j where
        "1 \<le> j" "j < length (vnodes ms)" "avail ops (mheap ms) (vnodes ms ! next_pos (length (vnodes ms)) index j)"
        by metis
      with next_loop_found [OF laws dom False, of 1 index] obtain p s where
        "p < length (vnodes ms)" "avail ops (mheap ms) (vnodes ms ! p)"
        "next_loop ops (vnodes ms) (hashed env r ms) index 1 (mheap ms) =
           Some (Some (vnodes ms ! p, word_of_nat p), map_socks (\<lambda>_. s) {vnodes ms ! p} (mheap ms))"
        by auto
      then show ?thesis using ne False refused [OF ne False]
        by (intro exI [of _ p] exI [of _ "if cookie_stick ms then int (unat (word_of_nat p :: u16)) + 1 else ck"]
            exI [of _ s]) (simp add: pick_primary_def ix h nextActiveNode_def Let_def)
    qed
  next
    assume none: "\<not> some_avail"
    show "pick_primary ops env r ms =
       Some (None, if vnodes ms = [] then None else Some (hashed env r ms, snd (getNodeIndex env r ms 0)), mheap ms)"
    proof (cases "vnodes ms = []")
      case False
      have na: "\<not> avail ops (mheap ms) (hashed env r ms)"
        using none bound [OF False] h by (auto simp: some_avail_def)
      have "next_loop ops (vnodes ms) (hashed env r ms) index 1 (mheap ms) = Some (None, mheap ms)"
        using next_loop_found [OF laws dom na, of 1 index] none by (auto simp: some_avail_def)
      then show ?thesis using False refused [OF False na]
        by (simp add: pick_primary_def ix h nextActiveNode_def Let_def)
    qed (simp add: pick_primary_def)
  }
qed

definition group_ok :: "('h, 'i) mserver \<Rightarrow> nat list \<Rightarrow> bool" where
  "group_ok ms xs \<longleftrightarrow> members_ok ms xs \<and> tables_ok ms xs"

lemma wt_map_socks [simp]: "wt (map_socks f A hp) = wt hp"
  by (auto simp: wt_def map_socks_def fun_eq_iff split: option.splits)

lemma group_ok_socks [simp]:
  "group_ok (ms\<lparr>mheap := map_socks f A (mheap ms)\<rparr>) xs = group_ok ms xs"
  by (simp add: group_ok_def members_ok_def tables_ok_def)

lemma group_tables:
  assumes "group_ok ms xs"
  shows "set (vnodes ms) \<subseteq> dom (mheap ms)" "set (bnodes ms) \<subseteq> dom (mheap ms)"
proof -
  have "set (vnodes ms) \<subseteq> set xs" "set (bnodes ms) \<subseteq> set xs" "set xs \<subseteq> dom (mheap ms)"
    using assms members_dom by (auto simp: group_ok_def tables_ok_def)
  then show "set (vnodes ms) \<subseteq> dom (mheap ms)" "set (bnodes ms) \<subseteq> dom (mheap ms)" by blast+
qed

lemma enabled_enable:
  "sock_laws ops \<Longrightarrow> a \<in> A \<Longrightarrow> a \<in> dom hp \<Longrightarrow> enabled ops (map_socks (enable ops) A hp) a"
  by (auto simp: enabled_def map_socks_def sock_laws_def)

text \<open>
  The order in which a group looks for a node: an available primary (the one the request hashes or
  sticks to if it is available), the fastest enabled backup, a backup due for a recovery probe, the
  ICP parent, and at last the hashed primary with every node of the group enabled again.
\<close>

definition choice_ok ::
  "('h, 'u) sock_ops \<Rightarrow> genv \<Rightarrow> rq \<Rightarrow> nat list \<Rightarrow> ('h, 'i) mserver \<Rightarrow> 'i choice \<Rightarrow> ('h, 'i) mserver \<Rightarrow> bool" where
  "choice_ok ops env r xs ms c ms' \<longleftrightarrow> (let hp = mheap ms in
     if \<exists>a \<in> set (vnodes ms). avail ops hp a then
       (\<exists>a k. c = Connect a k \<and> a \<in> set (vnodes ms) \<and> avail ops hp a \<and>
          (avail ops hp (hashed env r ms) \<longrightarrow> a = hashed env r ms))
     else if \<exists>b \<in> set (bnodes ms). enabled ops hp b then
       (\<exists>b. c = Connect b 0 \<and> b \<in> set (bnodes ms) \<and> enabled ops hp b \<and>
          (\<forall>d \<in> set (bnodes ms). enabled ops hp d \<longrightarrow> tick ops hp b \<le> tick ops hp d))
     else if \<exists>b \<in> set (bnodes ms). avail ops hp b then
       (\<exists>b. c = Connect b 0 \<and> b \<in> set (bnodes ms) \<and> avail ops hp b)
     else (case icp ms of
         Some i \<Rightarrow> c = UseIcp i
       | None \<Rightarrow> (\<forall>a \<in> set xs. enabled ops (mheap ms') a) \<and>
           (if vnodes ms = [] then c = NoNode else \<exists>k. c = Connect (hashed env r ms) k)))"

lemma choose_node_spec:
  assumes laws: "sock_laws ops" and ok: "group_ok ms xs"
  shows "\<exists>c ms'. choose_node ops env r ms = Some (c, ms') \<and> choice_ok ops env r xs ms c ms' \<and> group_ok ms' xs"
proof (cases "\<exists>a \<in> set (vnodes ms). avail ops (mheap ms) a")
  case True
  from pick_primary_spec(1) [OF laws group_tables(1) [OF ok] this, of env r]
  obtain p k s hh where p: "pick_primary ops env r ms =
       Some (Some (vnodes ms ! p, k), hh, map_socks (\<lambda>_. s) {vnodes ms ! p} (mheap ms))"
    "p < length (vnodes ms)" "avail ops (mheap ms) (vnodes ms ! p)"
    "avail ops (mheap ms) (hashed env r ms) \<longrightarrow> p = unat (fst (getNodeIndex env r ms 0))" by blast
  then show ?thesis using True ok by (auto simp: choose_node_def choice_ok_def Let_def hashed_def)
next
  case False
  note pick = pick_primary_spec(2) [OF laws group_tables(1) [OF ok] False, of env r]
  note dom = group_tables(2) [OF ok]
  from fast_loop_spec [OF dom, of None ops] obtain res where
    res: "fast_loop ops (mheap ms) (bnodes ms) None = Some res"
    "case res of None \<Rightarrow> (\<forall>b \<in> set (bnodes ms). \<not> enabled ops (mheap ms) b)
      | Some (b, t) \<Rightarrow> t = tick ops (mheap ms) b \<and> enabled ops (mheap ms) b \<and> b \<in> set (bnodes ms) \<and>
          (\<forall>c \<in> set (bnodes ms). enabled ops (mheap ms) c \<longrightarrow> t \<le> tick ops (mheap ms) c)"
    by (auto split: option.splits)
  show ?thesis
  proof (cases res)
    case (Some bt)
    obtain b t where "bt = (b, t)" by (cases bt)
    with Some res pick False ok show ?thesis
      by (auto simp: choose_node_def choice_ok_def Let_def intro!: exI [of _ b])
  next
    case None
    then have ne: "\<not> (\<exists>b \<in> set (bnodes ms). enabled ops (mheap ms) b)" using res(2) by auto
    show ?thesis
    proof (cases "\<exists>b \<in> set (bnodes ms). avail ops (mheap ms) b")
      case True
      with recover_loop_spec [OF laws dom] obtain b s where
        "b \<in> set (bnodes ms)" "avail ops (mheap ms) b"
        "recover_loop ops (bnodes ms) (mheap ms) = Some (Some b, map_socks (\<lambda>_. s) {b} (mheap ms))" by blast
      then show ?thesis using None res(1) pick False ne True ok
        by (auto simp: choose_node_def choice_ok_def Let_def)
    next
      case no: False
      then have "recover_loop ops (bnodes ms) (mheap ms) = Some (None, mheap ms)"
        using recover_loop_spec [OF laws dom] by blast
      note steps = pick res(1) None this
      have m: "members_ok ms xs" using ok by (simp add: group_ok_def)
      have en: "enableAllServer ops ms = Some (ms\<lparr>mheap := map_socks (enable ops) (set xs) (mheap ms)\<rparr>)"
        by (simp add: enableAllServer_def ring_map_members [OF m])
      have all: "enabled ops (map_socks (enable ops) (set xs) (mheap ms)) a" if "a \<in> set xs" for a
        using that members_dom [OF m] by (intro enabled_enable [OF laws]) auto
      show ?thesis
      proof (cases "icp ms")
        case None
        then show ?thesis using steps False ne no en all ok
          by (auto simp: choose_node_def choice_ok_def Let_def)
      next
        case (Some i)
        then show ?thesis using steps False ne no ok by (auto simp: choose_node_def choice_ok_def Let_def)
      qed
    qed
  qed
qed

text \<open>
  C23. The choice of an upstream always returns and follows the order above: as long as one primary
  is available a primary that is available is used, and the one the request is bound to is preferred;
  a request is refused only when there is no primary at all, no usable backup and no ICP parent. The
  group stays well formed.
\<close>

theorem choose_node_order:
  assumes laws: "sock_laws ops" and ok: "group_ok ms xs"
  shows "\<exists>c ms'. choose_node ops env r ms = Some (c, ms') \<and> choice_ok ops env r xs ms c ms' \<and> group_ok ms' xs"
  by (rule choose_node_spec [OF laws ok])

section \<open>Sticky cookies\<close>

definition cookie_name_ok :: "string \<Rightarrow> bool" where
  "cookie_name_ok x \<longleftrightarrow> x \<noteq> [] \<and> \<not> is_space (hd x) \<and> CHR '';'' \<notin> set x \<and> CHR ''='' \<notin> set x"

text \<open>A cookie header with other cookies in front of the last one.\<close>

fun cookie_text :: "(string \<times> string) list \<Rightarrow> string \<Rightarrow> string" where
  "cookie_text [] lst = lst"
| "cookie_text ((x, y) # cs) lst = x @ ''='' @ y @ ''; '' @ cookie_text cs lst"

lemma trim_name:
  assumes "cookie_name_ok x" "sp = [] \<or> sp = '' ''"
  shows "dropWhile is_space (sp @ x @ t) = x @ t"
  using assms by (cases x) (auto simp: cookie_name_ok_def is_space_def)

lemma cookie_loop_other:
  assumes "cookie_name_ok x" "CHR '';'' \<notin> set y" "x \<noteq> name" "sp = [] \<or> sp = '' ''"
  shows "cookie_loop name (sp @ x @ ''='' @ y @ '';'' @ rest) = cookie_loop name rest"
proof -
  have "cut_at (CHR '';'') ((sp @ x @ ''='' @ y) @ CHR '';'' # rest) = (sp @ x @ ''='' @ y, Some rest)"
    using assms by (intro cut_at_append) (auto simp: cookie_name_ok_def)
  moreover have "cut_at (CHR ''='') (x @ CHR ''='' # y) = (x, Some y)"
    using assms by (intro cut_at_append) (auto simp: cookie_name_ok_def)
  ultimately show ?thesis using assms trim_name [OF assms(1,4), of "''='' @ y"]
    by (subst cookie_loop.simps) simp
qed

lemma cookie_loop_last:
  assumes "cookie_name_ok name" "sp = [] \<or> sp = '' ''" "1 \<le> n" "n \<le> 2147483647"
  shows "cookie_loop name (sp @ name @ ''='' @ dec n) = int n - 1"
proof -
  have d: "CHR '';'' \<notin> set (dec n)" by (rule not_in_dec) (simp add: is_digit_def char_code_def)
  have "cut_at (CHR '';'') (sp @ name @ ''='' @ dec n) = (sp @ name @ ''='' @ dec n, None)"
    using assms d by (intro cut_at_None) (auto simp: cookie_name_ok_def)
  moreover have "cut_at (CHR ''='') (name @ CHR ''='' # dec n) = (name, Some (dec n))"
    using assms by (intro cut_at_append) (auto simp: cookie_name_ok_def)
  moreover have "to_int32 (int n - 1) = int n - 1" using assms by (intro to_int32_id) (simp add: in_int32_def)
  ultimately show ?thesis using assms trim_name [OF assms(1,2), of "''='' @ dec n"]
    by (subst cookie_loop.simps) (simp add: atoi_dec_Nil)
qed

lemma cookie_loop_text:
  assumes "cookie_name_ok name" "1 \<le> n" "n \<le> 2147483647"
  shows "list_all (\<lambda>(x, y). cookie_name_ok x \<and> CHR '';'' \<notin> set y \<and> x \<noteq> name) cs \<Longrightarrow>
    sp = [] \<or> sp = '' '' \<Longrightarrow>
    cookie_loop name (sp @ cookie_text cs (name @ ''='' @ dec n)) = int n - 1"
proof (induction cs arbitrary: sp)
  case Nil
  then show ?case using cookie_loop_last [OF assms(1) Nil(2) assms(2,3)] by simp
next
  case (Cons c cs)
  obtain x y where c: "c = (x, y)" by (cases c)
  have "cookie_loop name (sp @ x @ ''='' @ y @ '';'' @ ('' '' @ cookie_text cs (name @ ''='' @ dec n))) =
      cookie_loop name ('' '' @ cookie_text cs (name @ ''='' @ dec n))"
    using Cons.prems c by (intro cookie_loop_other) auto
  also have "\<dots> = int n - 1" using Cons.IH [of "'' ''"] Cons.prems by simp
  finally show ?case by (simp add: c)
qed

lemma to_int32_nat_small: "n \<le> 65536 \<Longrightarrow> to_int32 (int n) = int n"
  by (rule to_int32_id) (simp add: in_int32_def)

lemma unat_small: "n < 65536 \<Longrightarrow> unat (word_of_nat n :: u16) = n"
  by (simp add: unat_of_nat)

text \<open>The number in the cookie is the position of the chosen node in the table, counted from 1.\<close>

lemma getNodeIndex_cookie:
  assumes "vnodes ms \<noteq> []" "length (vnodes ms) \<le> 65536" "getNodeIndex env r ms 0 = (i, k)" "k > 0"
  shows "unat i < length (vnodes ms) \<and> k = int (unat i) + 1"
proof -
  let ?n = "unat (hash_index env r ms) mod length (vnodes ms)"
  have b: "?n < length (vnodes ms)" using assms(1) by simp
  have "i = word_of_nat ?n" "k = to_int32 (int ?n + 1)"
    using assms(3,4) by (auto simp: getNodeIndex_def Let_def split: option.splits if_splits)
  moreover have "to_int32 (int ?n + 1) = int ?n + 1"
    using b assms(2) by (intro to_int32_id) (simp add: in_int32_def)
  moreover have "unat (word_of_nat ?n :: u16) = ?n" using b assms(2) by (intro unat_small) simp
  ultimately show ?thesis using b by metis
qed

lemma choose_node_cookie:
  assumes laws: "sock_laws ops" and ok: "group_ok ms xs" and len: "length (vnodes ms) \<le> 65536"
    and st: "cookie_stick ms" and ch: "choose_node ops env r ms = Some (Connect a k, ms')" and k: "k > 0"
  shows "\<exists>j. j < length (vnodes ms) \<and> a = vnodes ms ! j \<and> k = int j + 1"
proof (cases "\<exists>a \<in> set (vnodes ms). avail ops (mheap ms) a")
  case True
  from pick_primary_spec(1) [OF laws group_tables(1) [OF ok] this, of env r]
  obtain p k' s hh where p: "pick_primary ops env r ms =
       Some (Some (vnodes ms ! p, k'), hh, map_socks (\<lambda>_. s) {vnodes ms ! p} (mheap ms))"
    "p < length (vnodes ms)"
    "avail ops (mheap ms) (hashed env r ms) \<longrightarrow>
       p = unat (fst (getNodeIndex env r ms 0)) \<and> k' = snd (getNodeIndex env r ms 0)"
    "\<not> avail ops (mheap ms) (hashed env r ms) \<longrightarrow> k' = int (unat (word_of_nat p :: u16)) + 1"
    using st by auto
  then have a: "a = vnodes ms ! p" "k = k'" using ch by (auto simp: choose_node_def)
  have "k = int p + 1"
  proof (cases "avail ops (mheap ms) (hashed env r ms)")
    case True
    then have "getNodeIndex env r ms 0 = (fst (getNodeIndex env r ms 0), k)" "p = unat (fst (getNodeIndex env r ms 0))"
      using p(3) a(2) by (metis prod.collapse)+
    then show ?thesis using getNodeIndex_cookie [OF _ len _ k] p(2) by (metis list.size(3) not_less_zero)
  next
    case False
    then show ?thesis using p(2,4) a(2) len unat_small [of p] by simp
  qed
  with a(1) p(2) show ?thesis by blast
next
  case False
  note pick = pick_primary_spec(2) [OF laws group_tables(1) [OF ok] False, of env r]
  have "vnodes ms \<noteq> [] \<and> a = hashed env r ms \<and> k = snd (getNodeIndex env r ms 0)"
    using ch k by (auto simp: choose_node_def pick bind_eq_Some_conv split: if_splits option.splits)
  then have "vnodes ms \<noteq> []" "a = vnodes ms ! unat (fst (getNodeIndex env r ms 0))"
    "getNodeIndex env r ms 0 = (fst (getNodeIndex env r ms 0), k)" by (auto simp: hashed_def)
  with getNodeIndex_cookie [OF this(1) len this(3) k] show ?thesis by blast
qed

lemma enableAllServer_frame:
  "enableAllServer ops ms = Some ms' \<Longrightarrow> \<exists>hp. ms' = ms\<lparr>mheap := hp\<rparr>"
  by (auto simp: enableAllServer_def ring_map_def bind_eq_Some_conv)

lemma choose_node_frame:
  assumes "choose_node ops env r ms = Some (c, ms')"
  shows "\<exists>hp. ms' = ms\<lparr>mheap := hp\<rparr>"
proof -
  obtain best hd hp where pick: "pick_primary ops env r ms = Some (best, hd, hp)"
    using assms by (auto simp: choose_node_def bind_eq_Some_conv)
  show ?thesis
  proof (cases best)
    case (Some b)
    with assms pick show ?thesis by (cases b) (auto simp: choose_node_def)
  next
    case best: None
    obtain fast where fast: "fast_loop ops hp (bnodes ms) None = Some fast"
      using assms pick best by (auto simp: choose_node_def bind_eq_Some_conv)
    show ?thesis
    proof (cases fast)
      case (Some b)
      with assms pick best fast show ?thesis by (cases b) (auto simp: choose_node_def)
    next
      case none: None
      obtain rv hp' where rv: "recover_loop ops (bnodes ms) hp = Some (rv, hp')"
        using assms pick best fast none by (auto simp: choose_node_def bind_eq_Some_conv)
      note steps = assms [unfolded choose_node_def pick best fast none rv, simplified]
      consider "ms' = ms\<lparr>mheap := hp'\<rparr>" | "enableAllServer ops (ms\<lparr>mheap := hp'\<rparr>) = Some ms'"
        using steps by (cases rv; cases "icp ms") (auto simp: fast none rv bind_eq_Some_conv)
      then show ?thesis
      proof cases
        case 2
        from enableAllServer_frame [OF this] show ?thesis by auto
      qed blast
    qed
  qed
qed

text \<open>
  A request that is given a cookie comes back to the same server. When the group chooses the
  node \<open>a\<close> and a cookie value \<open>k\<close>, a later request whose cookie header ends with that cookie, behind any
  other cookies, is sent to \<open>a\<close> again as long as \<open>a\<close> is available, and gets no new cookie.
\<close>

theorem sticky_cookie_returns:
  assumes laws: "sock_laws ops" and ok: "group_ok ms xs" and len: "length (vnodes ms) \<le> 65536"
    and st: "cookie_stick ms" and ch: "choose_node ops env r ms = Some (Connect a k, ms')" and k: "k > 0"
    and name: "cookie_name_ok (stick_name env)" and attr: "is_attr env h ''Cookie''"
    and others: "list_all (\<lambda>(x, y). cookie_name_ok x \<and> CHR '';'' \<notin> set y \<and> x \<noteq> stick_name env) cs"
    and r': "headers r' = [(h, cookie_text cs (stick_name env @ ''='' @ dec (nat k)))]"
    and av: "avail ops (mheap ms') a"
  shows "\<exists>ms''. choose_node ops env r' ms' = Some (Connect a 0, ms'')"
proof -
  obtain j where j: "j < length (vnodes ms)" "a = vnodes ms ! j" "k = int j + 1"
    using choose_node_cookie [OF laws ok len st ch k] by blast
  then have nk: "nat k = j + 1" by simp
  have fr: "vnodes ms' = vnodes ms" "cookie_stick ms' = cookie_stick ms" using choose_node_frame [OF ch] by auto
  have ok': "group_ok ms' xs" using choose_node_spec [OF laws ok, of env r] ch by auto
  have "getCookieStick (cookie_text cs (stick_name env @ ''='' @ dec (nat k))) (stick_name env) = int j"
    using cookie_loop_text [OF name _ _ others, of "nat k" "[]"] nk j(1) len by (simp add: getCookieStick_def)
  then have stick: "stick_loop env (length (vnodes ms')) (headers r') = Some (word_of_nat j)"
    using attr j(1) fr len by (simp add: r' to_int32_nat_small Let_def)
  have uj: "unat (word_of_nat j :: u16) = j" using j(1) len unat_small [of j] by simp
  have ix: "getNodeIndex env r' ms' 0 = (word_of_nat j, 0)"
    using stick fr st by (simp add: getNodeIndex_def)
  have hs: "hashed env r' ms' = a" using ix fr j uj by (simp add: hashed_def)
  have "\<exists>a \<in> set (vnodes ms'). avail ops (mheap ms') a" using av j fr by (metis nth_mem)
  from pick_primary_spec(1) [OF laws group_tables(1) [OF ok'] this, of env r'] hs av ix
  obtain s hh where "pick_primary ops env r' ms' = Some (Some (a, 0), hh, map_socks (\<lambda>_. s) {a} (mheap ms'))"
    by (auto simp: hashed_def)
  then show ?thesis by (simp add: choose_node_def)
qed

section \<open>Node strings\<close>

record node_desc =
  nd_bracket :: bool
  nd_host :: string
  nd_port :: string
  nd_life :: nat
  nd_weight :: nat

definition print_host :: "node_desc \<Rightarrow> string" where
  "print_host d = (if nd_bracket d then ''['' @ nd_host d @ '']'' else nd_host d)"

definition print_node :: "node_desc \<Rightarrow> string" where
  "print_node d = print_host d @ '':'' @ nd_port d @ '':'' @ dec (nd_life d) @ '':'' @ dec (nd_weight d)"

fun print_nodes :: "node_desc list \<Rightarrow> string" where
  "print_nodes [] = []"
| "print_nodes [d] = print_node d"
| "print_nodes (d # ds) = print_node d @ '','' @ print_nodes ds"

definition desc_ok :: "node_desc \<Rightarrow> bool" where
  "desc_ok d \<longleftrightarrow> CHR '','' \<notin> set (nd_host d) \<and> CHR '','' \<notin> set (nd_port d) \<and> CHR '':'' \<notin> set (nd_port d) \<and>
     (if nd_bracket d then CHR '']'' \<notin> set (nd_host d)
      else nd_host d \<noteq> [] \<and> CHR '':'' \<notin> set (nd_host d) \<and> hd (nd_host d) \<noteq> CHR ''['') \<and>
     nd_life d \<le> 2147483647 \<and> nd_weight d \<le> 2147483647"

definition node_of :: "('h, 'u) sock_ops \<Rightarrow> node_desc \<Rightarrow> int \<times> 'h" where
  "node_of ops d = (int (nd_weight d),
     setLifeTime ops (int (nd_life d)) (setHostPort ops (nd_host d) (nd_port d) (snd (new_sock ops))))"

lemma sep_not_in_dec: "CHR '':'' \<notin> set (dec n)" "CHR '','' \<notin> set (dec n)"
  by (rule not_in_dec, simp add: is_digit_def char_code_def)+

lemma parse_node_print:
  assumes "desc_ok d"
  shows "parse_node ops (print_node d) = Some (node_of ops d)"
proof -
  let ?l = "dec (nd_life d) @ '':'' @ dec (nd_weight d)"
  let ?r = "nd_port d @ '':'' @ ?l"
  have host: "(case print_node d of
              c # t \<Rightarrow>
                (if c = CHR ''['' then
                   (case cut_at (CHR '']'') t of
                      (h, Some r) \<Rightarrow> (h, snd (cut_at (CHR '':'') r))
                    | (h, None) \<Rightarrow> (h, None))
                 else cut_at (CHR '':'') (print_node d))
            | [] \<Rightarrow> ([], None)) = (nd_host d, Some ?r)"
  proof (cases "nd_bracket d")
    case True
    have "cut_at (CHR '']'') (nd_host d @ CHR '']'' # '':'' @ ?r) = (nd_host d, Some ('':'' @ ?r))"
      using assms True by (intro cut_at_append) (simp add: desc_ok_def)
    then show ?thesis using True by (simp add: print_node_def print_host_def)
  next
    case False
    then obtain c t where h: "nd_host d = c # t" "c \<noteq> CHR ''[''"
      using assms by (cases "nd_host d") (auto simp: desc_ok_def)
    have "cut_at (CHR '':'') (nd_host d @ CHR '':'' # ?r) = (nd_host d, Some ?r)"
      using assms False by (intro cut_at_append) (simp add: desc_ok_def)
    then show ?thesis using h False by (simp add: print_node_def print_host_def)
  qed
  have port: "cut_at (CHR '':'') (nd_port d @ CHR '':'' # ?l) = (nd_port d, Some ?l)"
    using assms by (intro cut_at_append) (simp add: desc_ok_def)
  have life: "cut_at (CHR '':'') (dec (nd_life d) @ CHR '':'' # dec (nd_weight d)) =
      (dec (nd_life d), Some (dec (nd_weight d)))"
    by (intro cut_at_append sep_not_in_dec)
  have al: "atoi (dec (nd_life d) @ CHR '':'' # dec (nd_weight d)) = int (nd_life d)"
    using assms by (intro atoi_dec) (auto simp: desc_ok_def is_digit_def char_code_def)
  have aw: "atoi (dec (nd_weight d)) = int (nd_weight d)"
    using assms by (intro atoi_dec_Nil) (simp add: desc_ok_def)
  have cw: "cut_at (CHR '':'') (dec (nd_weight d)) = (dec (nd_weight d), None)"
    by (intro cut_at_None sep_not_in_dec)
  show ?thesis using port life al aw cw
    by (simp add: parse_node_def host node_of_def Let_def)
qed

lemma print_node_not_Nil: "desc_ok d \<Longrightarrow> print_node d \<noteq> []"
  by (simp add: print_node_def)

lemma print_node_no_comma: "desc_ok d \<Longrightarrow> CHR '','' \<notin> set (print_node d)"
  by (auto simp: print_node_def print_host_def desc_ok_def sep_not_in_dec)

lemma parse_nodes_loop_print:
  "list_all desc_ok ds \<Longrightarrow> parse_nodes_loop ops (print_nodes ds) acc = rev (map (node_of ops) ds) @ acc"
proof (induction ds arbitrary: acc rule: print_nodes.induct)
  case 1
  then show ?case by (simp add: parse_nodes_loop.simps)
next
  case (2 d)
  then show ?case
    by (subst parse_nodes_loop.simps) (simp add: print_node_not_Nil cut_at_None print_node_no_comma parse_node_print)
next
  case (3 d e ds)
  have "cut_at (CHR '','') (print_node d @ CHR '','' # print_nodes (e # ds)) = (print_node d, Some (print_nodes (e # ds)))"
    using 3 by (intro cut_at_append) (simp add: print_node_no_comma)
  then have "parse_nodes_loop ops (print_nodes (d # e # ds)) acc =
      parse_nodes_loop ops (print_nodes (e # ds)) (node_of ops d # acc)"
    using 3 by (subst parse_nodes_loop.simps) (simp add: parse_node_print)
  then show ?case using 3 by simp
qed

text \<open>
  A node string replaces the nodes of a group: for a printed list of nodes, IPv6 addresses in
  brackets included, every node comes back with its host, port, life time and weight, the group holds
  them in the reverse of the order of the string, and the tables follow the weights.
\<close>

theorem parseNode_roundtrip:
  assumes "listing ms old" and "list_all desc_ok ds"
  shows "\<exists>ms' xs. parseNode ops (print_nodes ds) ms = Some ms' \<and>
     loaded ms' (map (prepare ops ms) (rev (map (node_of ops) ds))) xs \<and> group_conf ms' = group_conf ms"
proof -
  let ?ps = "rev (map (node_of ops) ds)"
  have p: "parse_nodes ops (print_nodes ds) = ?ps"
    using parse_nodes_loop_print [OF assms(2), of ops "[]"] by (simp add: parse_nodes_def)
  obtain m1 m2 where m: "removeAllNode ops ms = Some m1"
    "in_order (addNode ops) ?ps m1 = Some m2" "listing m2 (map (prepare ops ms) ?ps)"
    "group_conf m2 = group_conf ms"
    using ng.reload [OF assms(1), of ops ?ps] by (auto simp: prep_conf_prepare)
  then show ?thesis using build_loaded [OF m(3)] by (auto simp: parseNode_def p add_nodes_def)
qed

section \<open>Witnesses\<close>

text \<open>
  A helper as a triple: enabled, due for a recovery probe, monitor time. A granted probe is used up.
\<close>

definition demo_ops :: "(bool \<times> bool \<times> int, string) sock_ops" where
  "demo_ops = \<lparr>new_sock = (1, (True, False, 0)), is_available = (\<lambda>(e, p, t). (e \<or> p, (e, False, t))),
     is_enabled = fst, enable = (\<lambda>(e, p, t). (True, p, t)), avg_monitor_tick = (\<lambda>(e, p, t). t),
     sign_of = (\<lambda>_. False), set_error_try = (\<lambda>_ _ h. h), put_error_fields = (\<lambda>_ _ h. h),
     set_tcp = (\<lambda>_ h. h), stopMonitor = (\<lambda>h. h), sock_shutdown = (\<lambda>h. h), sock_refresh = (\<lambda>_ h. h),
     sock_parse = (\<lambda>m l h. (m ''host'' \<noteq> None, (atoi (attr_get m ''weight''), snd h))),
     sock_changed = (\<lambda>a b. a \<noteq> b), setHostPort = (\<lambda>_ _ h. h), setLifeTime = (\<lambda>t (e, p, _). (e, p, t)),
     setIp = (\<lambda>_ h. h), get_upstream = (\<lambda>s h. (Some s, h))\<rparr>"

lemma demo_laws: "sock_laws demo_ops"
  by (auto simp: sock_laws_def demo_ops_def)

text \<open>Three nodes: a disabled primary of weight 2, an enabled primary of weight 1 and a backup.\<close>

definition demo_group :: "(bool \<times> bool \<times> int, nat) mserver" where
  "demo_group = (init Proto_http)\<lparr>cookie_stick := True, vnodes := [0, 0, 1], bnodes := [2],
     nodes := Some 0, nodesCount := 3, brk := 3,
     mheap := [0 \<mapsto> \<lparr>mnext = Some 1, mprev = Some 2, refs = 1, weight = 2, sock = (False, False, 5)\<rparr>,
               1 \<mapsto> \<lparr>mnext = Some 2, mprev = Some 0, refs = 1, weight = 1, sock = (True, False, 7)\<rparr>,
               2 \<mapsto> \<lparr>mnext = Some 0, mprev = Some 1, refs = 1, weight = 0, sock = (True, False, 9)\<rparr>]\<rparr>"

definition demo_env :: genv where
  "demo_env = \<lparr>cookie_stick_name = [], is_attr = strcase_eq, rand = 4, MAXIPLEN = 64\<rparr>"

definition demo_rq :: rq where
  "demo_rq = \<lparr>headers = [], url_host = ''a'', url_path = ''/'', raw_host = ''a'', client_ip = ''::1'',
     upstream_error = False, proxy_raw_url = False, url_rewrited = False, resp_headers = [],
     upstream_sign = False\<rparr>"

lemma demo_members: "members_ok demo_group [0, 1, 2]"
  by (auto simp: members_ok_def demo_group_def first_node_def is_ring_def nxt_def prv_def init_def split: if_splits)

lemma demo_ok: "group_ok demo_group [0, 1, 2]"
  unfolding group_ok_def
proof
  show "tables_ok demo_group [0, 1, 2]"
    by (simp add: tables_ok_def demo_group_def wt_def init_def numeral_2_eq_2)
qed (rule demo_members)

lemma demo_listing: "listing demo_group [(2, (False, False, 5)), (1, (True, False, 7)), (0, (True, False, 9))]"
  unfolding listing_def
  by (intro exI [of _ "[0, 1, 2]"] conjI demo_members) (simp add: demo_group_def content_def init_def)

theorem group_config_reload_witness:
  "\<exists>ms' xs. group_config_event demo_ops ''node'' [[''host'' \<mapsto> ''h'', ''weight'' \<mapsto> ''2''], Map.empty]
       EvNewSubDir demo_group = Some (True, ms') \<and>
     loaded ms' [(2, (True, False, 0))] xs \<and> group_conf ms' = group_conf demo_group"
proof -
  have p: "parse_helper demo_ops (proto demo_group) [''host'' \<mapsto> ''h'', ''weight'' \<mapsto> ''2''] =
      Some (2, (True, False, 0))" "parse_helper demo_ops (proto demo_group) Map.empty = None"
    by (simp_all add: parse_helper_def demo_ops_def attr_get_def atoi_def strtol10_def is_space_def
        is_digit_def char_code_def clamp64_def to_int32_def)
  have "prepare demo_ops demo_group (2, (True, False, 0)) = (2, (True, False, 0))"
    by (simp add: prepare_def demo_ops_def)
  then show ?thesis
    using group_config_reload [OF demo_listing, of EvNewSubDir demo_ops
        "[[''host'' \<mapsto> ''h'', ''weight'' \<mapsto> ''2''], Map.empty]"] p
    by (simp add: List.map_filter_simps)
qed

theorem choose_node_order_witness:
  "\<exists>c ms'. choose_node demo_ops demo_env demo_rq demo_group = Some (c, ms') \<and>
     choice_ok demo_ops demo_env demo_rq [0, 1, 2] demo_group c ms' \<and> group_ok ms' [0, 1, 2]"
  by (rule choose_node_order [OF demo_laws demo_ok])

lemma demo_choice:
  "choose_node demo_ops demo_env demo_rq demo_group = Some (Connect 1 3, demo_group)"
proof -
  have ix: "getNodeIndex demo_env demo_rq demo_group 0 = (1, 2)"
    by (simp add: getNodeIndex_def hash_index_def demo_env_def demo_rq_def demo_group_def init_def
        to_int32_def unsigned_of_nat)
  let ?hp = "mheap demo_group"
  have at: "?hp 0 = Some \<lparr>mnext = Some 1, mprev = Some 2, refs = 1, weight = 2, sock = (False, False, 5)\<rparr>"
    "?hp 1 = Some \<lparr>mnext = Some 2, mprev = Some 0, refs = 1, weight = 1, sock = (True, False, 7)\<rparr>"
    by (simp_all add: demo_group_def init_def)
  have v: "vnodes demo_group = [0, 0, 1]" "cookie_stick demo_group" by (simp_all add: demo_group_def)
  have p0: "probe demo_ops 0 ?hp = Some (False, ?hp)"
    using at by (intro probe_refused [OF demo_laws]) (auto simp: avail_def demo_ops_def)
  have p1: "probe demo_ops 1 ?hp = Some (True, ?hp)"
    using at(2) by (simp add: probe_def demo_ops_def map_upd_triv)
  have pos: "next_pos 3 1 1 = 2" by (simp add: next_pos_def)
  have "next_loop demo_ops [0, 0, 1] 0 1 1 ?hp = Some (Some (1, 2), ?hp)"
    using p1 pos by (subst next_loop_step) (simp add: numeral_3_eq_3 numeral_2_eq_2)
  then have "pick_primary demo_ops demo_env demo_rq demo_group = Some (Some (1, 3), Some (0, 2), ?hp)"
    using p0 by (simp add: pick_primary_def ix nextActiveNode_def v)
  then show ?thesis by (simp add: choose_node_def)
qed

theorem sticky_cookie_returns_witness:
  "\<exists>ms'. choose_node demo_ops demo_env
     (demo_rq\<lparr>headers := [(''cookie'', ''x=y; kangle_runat=3'')]\<rparr>) demo_group = Some (Connect 1 0, ms')"
proof (rule sticky_cookie_returns [OF demo_laws demo_ok _ _ demo_choice, where cs = "[(''x'', ''y'')]" and h = "''cookie''"])
  show "avail demo_ops (mheap demo_group) 1"
    by (simp add: avail_def demo_ops_def demo_group_def init_def)
  have "dec 3 = ''3''" by code_simp
  then show "headers (demo_rq\<lparr>headers := [(''cookie'', ''x=y; kangle_runat=3'')]\<rparr>) =
      [(''cookie'', cookie_text [(''x'', ''y'')] (stick_name demo_env @ ''='' @ dec (nat 3)))]"
    by (simp add: demo_env_def stick_name_def DEFAULT_COOKIE_STICK_NAME_def)
  have "strcase_eq ''cookie'' ''Cookie''" by code_simp
  then show "is_attr demo_env ''cookie'' ''Cookie''" by (simp add: demo_env_def)
qed (simp_all add: demo_group_def demo_env_def stick_name_def DEFAULT_COOKIE_STICK_NAME_def cookie_name_ok_def
    is_space_def)

definition demo_descs :: "node_desc list" where
  "demo_descs = [\<lparr>nd_bracket = True, nd_host = ''::1'', nd_port = ''80'', nd_life = 10, nd_weight = 3\<rparr>,
     \<lparr>nd_bracket = False, nd_host = ''h'', nd_port = ''81'', nd_life = 0, nd_weight = 0\<rparr>]"

theorem parseNode_roundtrip_witness:
  "\<exists>ms' xs. parseNode demo_ops ''[::1]:80:10:3,h:81:0:0'' demo_group = Some ms' \<and>
     loaded ms' [(0, (True, False, 0)), (3, (True, False, 10))] xs \<and> group_conf ms' = group_conf demo_group"
proof -
  have "list_all desc_ok demo_descs" by (simp add: demo_descs_def desc_ok_def)
  moreover have "print_nodes demo_descs = ''[::1]:80:10:3,h:81:0:0''"
    by code_simp
  moreover have "map (prepare demo_ops demo_group) (rev (map (node_of demo_ops) demo_descs)) =
      [(0, (True, False, 0)), (3, (True, False, 10))]"
    by (simp add: demo_descs_def prepare_def node_of_def demo_ops_def)
  ultimately show ?thesis using parseNode_roundtrip [OF demo_listing, of demo_descs demo_ops] by simp
qed

end
