(* ===== verification/Ip_Map.thy ===== *)
theory Ip_Map
  imports Kgl_Prelude "HOL-Library.Monad_Syntax"
begin

text \<open>
  The map from address ranges to values (\<^verbatim>\<open>src/KIpMap.cpp\<close>, \<^verbatim>\<open>include/KIpMap.h\<close>),
  which the source address rules and the geo rules are built on: the arithmetic on IPv4 and IPv6
  addresses, CIDR blocks, the insertion of a range that splits and trims its neighbours, and the
  lookup.

  The ordered tree is the krbtree of the kasync library, which is not part of the repository: its
  operations are the fields of \<open>krb_ops\<close>, over the lower ends of the ranges, and \<open>krb_laws\<close>
  is what the code relies on. The range objects its nodes point to are the map \<open>ranges\<close>. The text
  form of an address is converted by the parameter \<open>get_ipaddr\<close>.
\<close>

unbundle bit_operations_syntax

section \<open>Addresses\<close>

text \<open>An address in host order; the constructor is the family.\<close>

datatype ip_addr = V4 u32 | V6 u32 u32 u32 u32

fun sin_family :: "ip_addr \<Rightarrow> int" where
  "sin_family (V4 _) = 2"
| "sin_family (V6 _ _ _ _) = 10"

fun words_cmp :: "u32 list \<Rightarrow> u32 list \<Rightarrow> int" where
  "words_cmp (x # xs) (y # ys) = (if x > y then 1 else if x < y then - 1 else words_cmp xs ys)"
| "words_cmp _ _ = 0"

fun ip_addr_cmp :: "ip_addr \<Rightarrow> ip_addr \<Rightarrow> int" where
  "ip_addr_cmp (V4 a) (V4 b) = (if a = b then 0 else if a > b then 1 else - 1)"
| "ip_addr_cmp (V6 a0 a1 a2 a3) (V6 b0 b1 b2 b3) = words_cmp [a0, a1, a2, a3] [b0, b1, b2, b3]"
| "ip_addr_cmp x y = sin_family x - sin_family y"

definition ntohl :: "u32 \<Rightarrow> u32" where
  "ntohl x = push_bit 24 x OR (push_bit 8 x AND 0xFF0000) OR (drop_bit 8 x AND 0xFF00) OR drop_bit 24 x"

fun ntoh_addr :: "ip_addr \<Rightarrow> ip_addr" where
  "ntoh_addr (V4 a) = V4 (ntohl a)"
| "ntoh_addr (V6 a b c d) = V6 (ntohl a) (ntohl b) (ntohl c) (ntohl d)"

type_synonym resolver = "string \<Rightarrow> ip_addr option"

definition get_local_addr :: "resolver \<Rightarrow> string \<Rightarrow> ip_addr option" where
  "get_local_addr get_ipaddr s = map_option ntoh_addr (get_ipaddr s)"

fun addr_add :: "ip_addr \<Rightarrow> u32 \<Rightarrow> ip_addr" where
  "addr_add (V4 a) v = V4 (a + v)"
| "addr_add (V6 a b c d) v =
     (if d + v < v then
        (if c + 1 = 0 then (if b + 1 = 0 then V6 (a + 1) (b + 1) (c + 1) (d + v)
                            else V6 a (b + 1) (c + 1) (d + v))
         else V6 a b (c + 1) (d + v))
      else V6 a b c (d + v))"

fun addr_sub :: "ip_addr \<Rightarrow> u32 \<Rightarrow> ip_addr" where
  "addr_sub (V4 a) v = V4 (a - v)"
| "addr_sub (V6 a b c d) v =
     (if d < v then
        (if c = 0 then (if b = 0 then V6 (a - 1) (b - 1) (c - 1) (d - v)
                        else V6 a (b - 1) (c - 1) (d - v))
         else V6 a b (c - 1) (d - v))
      else V6 a b c (d - v))"

definition get_ipv4_cidr_max_addr :: "u32 \<Rightarrow> int \<Rightarrow> u32 \<times> u32" where
  "get_ipv4_cidr_max_addr m prefix =
     (if prefix \<le> 0 then (0, - 1)
      else if prefix \<ge> 32 then (m, m)
      else (let mn = m AND push_bit (nat (32 - prefix)) (- 1) in (mn, mn OR drop_bit (nat prefix) (- 1))))"

text \<open>One pass over the four words of an IPv6 address: the words before, at and after the boundary.\<close>

definition cidr_word :: "nat \<Rightarrow> nat \<Rightarrow> nat \<Rightarrow> u32 \<Rightarrow> u32 \<times> u32" where
  "cidr_word a b i w =
     (if i < a then (w, w)
      else if i = a then
        (let mn = (if b > 0 then w AND push_bit (32 - b) (- 1) else 0) in (mn, mn OR drop_bit b (- 1)))
      else (0, - 1))"

fun cidr_bounds :: "ip_addr \<Rightarrow> int \<Rightarrow> (ip_addr \<times> ip_addr) option" where
  "cidr_bounds (V4 m) prefix =
     (if prefix < 0 \<or> prefix > 32 then None
      else (case get_ipv4_cidr_max_addr m prefix of (mn, mx) \<Rightarrow> Some (V4 mn, V4 mx)))"
| "cidr_bounds (V6 w0 w1 w2 w3) prefix =
     (if prefix < 0 \<or> prefix > 128 then None
      else (let a = nat prefix div 32; b = nat prefix - a * 32;
                f = (\<lambda>i w. fst (cidr_word a b i w)); g = (\<lambda>i w. snd (cidr_word a b i w)) in
            Some (V6 (f 0 w0) (f 1 w1) (f 2 w2) (f 3 w3), V6 (g 0 w0) (g 1 w1) (g 2 w2) (g 3 w3))))"

definition build_cidr_addr :: "resolver \<Rightarrow> string \<Rightarrow> int \<Rightarrow> (ip_addr \<times> ip_addr) option" where
  "build_cidr_addr get_ipaddr addr prefix = do { m \<leftarrow> get_local_addr get_ipaddr addr; cidr_bounds m prefix }"

section \<open>The map\<close>

record 't krb_ops =
  rb_create :: 't
  rb_insert :: "'t \<Rightarrow> ip_addr \<Rightarrow> 't \<times> bool"
  rb_prev :: "'t \<Rightarrow> ip_addr \<Rightarrow> ip_addr option"
  rb_next :: "'t \<Rightarrow> ip_addr \<Rightarrow> ip_addr option"
  rb_find :: "'t \<Rightarrow> (ip_addr \<Rightarrow> int) \<Rightarrow> ip_addr option"

record ('t, 'd) ipmap =
  ip_tree :: 't
  ranges :: "ip_addr \<rightharpoonup> ip_addr \<times> 'd"

definition new_ipmap :: "'t krb_ops \<Rightarrow> ('t, 'd) ipmap" where
  "new_ipmap ops = \<lparr>ip_tree = rb_create ops, ranges = Map.empty\<rparr>"

definition range_addr_find_cmp :: "('t, 'd) ipmap \<Rightarrow> ip_addr \<Rightarrow> ip_addr \<Rightarrow> int" where
  "range_addr_find_cmp m addr k =
     (if ip_addr_cmp addr k < 0 then ip_addr_cmp addr k
      else (case ranges m k of
              None \<Rightarrow> 0
            | Some (mx, _) \<Rightarrow> if ip_addr_cmp addr mx > 0 then ip_addr_cmp addr mx else 0))"

definition find_addr :: "'t krb_ops \<Rightarrow> ('t, 'd) ipmap \<Rightarrow> ip_addr \<Rightarrow> 'd option" where
  "find_addr ops m addr =
     (case rb_find ops (ip_tree m) (range_addr_find_cmp m addr) of
        None \<Rightarrow> None
      | Some k \<Rightarrow> map_option snd (ranges m k))"

definition find_ip :: "'t krb_ops \<Rightarrow> resolver \<Rightarrow> ('t, 'd) ipmap \<Rightarrow> string \<Rightarrow> 'd option" where
  "find_ip ops get_ipaddr m s = do { a \<leftarrow> get_local_addr get_ipaddr s; find_addr ops m a }"

definition set_max :: "ip_addr \<Rightarrow> ip_addr \<Rightarrow> ('t, 'd) ipmap \<Rightarrow> ('t, 'd) ipmap" where
  "set_max k mx m = m\<lparr>ranges := (ranges m)(k := map_option (\<lambda>(_, d). (mx, d)) (ranges m k))\<rparr>"

text \<open>
  \<^verbatim>\<open>add_range_addr\<close>: the range before the new one is cut at its lower end, and what stuck out behind
  the new range is inserted again; a range that starts inside the new one is kept, the new one is cut
  in front of it and the rest of it is inserted behind it.
\<close>

partial_function (option) add_range_addr ::
  "'t krb_ops \<Rightarrow> ip_addr \<Rightarrow> ip_addr \<Rightarrow> 'd \<Rightarrow> ('t, 'd) ipmap \<Rightarrow> (bool \<times> ('t, 'd) ipmap) option" where
  "add_range_addr ops mn mx d m =
     (if ip_addr_cmp mn mx > 0 then Some (False, m)
      else (case rb_insert ops (ip_tree m) mn of (t, new_flag) \<Rightarrow>
        if \<not> new_flag then Some (False, m)
        else do {
          let m1 = m\<lparr>ip_tree := t, ranges := (ranges m)(mn \<mapsto> (mx, d))\<rparr>;
          m2 \<leftarrow> (case rb_prev ops t mn of
              None \<Rightarrow> Some m1
            | Some p \<Rightarrow> do {
                (pmx, pd) \<leftarrow> ranges m1 p;
                if ip_addr_cmp pmx mx > 0 then do {
                  (_, m') \<leftarrow> add_range_addr ops (addr_add mx 1) pmx pd (set_max p (addr_sub mn 1) m1);
                  Some m' }
                else if ip_addr_cmp pmx mn \<ge> 0 then Some (set_max p (addr_sub mn 1) m1)
                else Some m1 });
          m3 \<leftarrow> (case rb_next ops (ip_tree m2) mn of
              None \<Rightarrow> Some m2
            | Some n \<Rightarrow> do {
                (nmx, nd) \<leftarrow> ranges m2 n;
                if ip_addr_cmp mx nmx > 0 then do {
                  (_, m') \<leftarrow> add_range_addr ops (addr_add nmx 1) mx d (set_max mn (addr_sub n 1) m2);
                  Some m' }
                else if ip_addr_cmp mx n \<ge> 0 then Some (set_max mn (addr_sub n 1) m2)
                else Some m2 });
          Some (True, m3) }))"

definition strip_underscore :: "string \<Rightarrow> bool \<times> string" where
  "strip_underscore s = (case s of c # t \<Rightarrow> if c = CHR ''_'' then (False, t) else (True, s) | [] \<Rightarrow> (True, s))"

definition add_min_max_addr ::
  "'t krb_ops \<Rightarrow> resolver \<Rightarrow> string \<Rightarrow> string \<Rightarrow> 'd \<Rightarrow> ('t, 'd) ipmap \<Rightarrow> (bool \<times> ('t, 'd) ipmap) option" where
  "add_min_max_addr ops get_ipaddr min_addr max_addr d m =
     (case strip_underscore min_addr of (include_min, mins) \<Rightarrow>
      case strip_underscore max_addr of (include_max, maxs) \<Rightarrow>
      case get_local_addr get_ipaddr mins of
        None \<Rightarrow> Some (False, m)
      | Some mn \<Rightarrow>
          (case get_local_addr get_ipaddr maxs of
             None \<Rightarrow> Some (False, m)
           | Some mx \<Rightarrow>
               add_range_addr ops (if include_min then mn else addr_add mn 1)
                 (if include_max then mx else addr_sub mx 1) d m))"

definition add_cidr_addr ::
  "'t krb_ops \<Rightarrow> resolver \<Rightarrow> string \<Rightarrow> int \<Rightarrow> 'd \<Rightarrow> ('t, 'd) ipmap \<Rightarrow> (bool \<times> ('t, 'd) ipmap) option" where
  "add_cidr_addr ops get_ipaddr addr prefix d m =
     (case build_cidr_addr get_ipaddr addr prefix of
        None \<Rightarrow> Some (False, m)
      | Some (mn, mx) \<Rightarrow> add_range_addr ops mn mx d m)"

definition add_addr ::
  "'t krb_ops \<Rightarrow> resolver \<Rightarrow> string \<Rightarrow> 'd \<Rightarrow> ('t, 'd) ipmap \<Rightarrow> (bool \<times> ('t, 'd) ipmap) option" where
  "add_addr ops get_ipaddr addr d m =
     (case cut_at (CHR ''/'') addr of
        (a, Some p) \<Rightarrow> add_cidr_addr ops get_ipaddr a (atoi p) d m
      | (_, None) \<Rightarrow>
          (case cut_at (CHR ''-'') addr of
             (a, Some b) \<Rightarrow> add_min_max_addr ops get_ipaddr a b d m
           | (_, None) \<Rightarrow> add_min_max_addr ops get_ipaddr addr addr d m))"

text \<open>
  Blanks at the end of an item are only dropped when the separator itself is one, and the first
  character of the item always stays.
\<close>

definition trim_item :: "char \<Rightarrow> string \<Rightarrow> string" where
  "trim_item split_char s =
     (if is_space split_char then
        (case s of [] \<Rightarrow> [] | c # t \<Rightarrow> c # rev (dropWhile is_space (rev t)))
      else s)"

function add_multi_loop ::
  "'t krb_ops \<Rightarrow> resolver \<Rightarrow> char \<Rightarrow> 'd \<Rightarrow> string \<Rightarrow> int \<Rightarrow> ('t, 'd) ipmap \<Rightarrow> (int \<times> ('t, 'd) ipmap) option" where
  "add_multi_loop ops get_ipaddr split_char d hot cnt m =
     (case cut_at split_char hot of
        (tok, None) \<Rightarrow> do {
          (ok, m') \<leftarrow> add_addr ops get_ipaddr tok d m;
          Some (if ok then cnt + 1 else cnt, m') }
      | (tok, Some rest) \<Rightarrow> do {
          (ok, m') \<leftarrow> add_addr ops get_ipaddr (trim_item split_char tok) d m;
          add_multi_loop ops get_ipaddr split_char d rest (if ok then cnt + 1 else cnt) m' })"
  by pat_completeness auto
termination
  by (relation "measure (\<lambda>(ops, g, s, d, hot, cnt, m). length hot)") (auto dest: cut_at_Some_length sym)

definition add_multi_addr ::
  "'t krb_ops \<Rightarrow> resolver \<Rightarrow> string \<Rightarrow> char \<Rightarrow> 'd \<Rightarrow> ('t, 'd) ipmap \<Rightarrow> (int \<times> ('t, 'd) ipmap) option" where
  "add_multi_addr ops get_ipaddr ips split_char d m = add_multi_loop ops get_ipaddr split_char d ips 0 m"

declare add_multi_loop.simps [simp del] add_range_addr.simps [code]

section \<open>Addresses as numbers\<close>

fun addr_val :: "ip_addr \<Rightarrow> int" where
  "addr_val (V4 a) = uint a"
| "addr_val (V6 a b c d) = ((uint a * 2 ^ 32 + uint b) * 2 ^ 32 + uint c) * 2 ^ 32 + uint d"

fun addr_bits :: "ip_addr \<Rightarrow> nat" where
  "addr_bits (V4 _) = 32"
| "addr_bits (V6 _ _ _ _) = 128"

abbreviation (input) same_family :: "ip_addr \<Rightarrow> ip_addr \<Rightarrow> bool" where
  "same_family x y \<equiv> addr_bits x = addr_bits y"

text \<open>All addresses on one line, IPv4 below IPv6.\<close>

definition addr_key :: "ip_addr \<Rightarrow> int" where
  "addr_key x = (case x of V4 _ \<Rightarrow> addr_val x | V6 _ _ _ _ \<Rightarrow> 2 ^ 32 + addr_val x)"

lemma uint32_bounds: "0 \<le> uint (a :: u32)" "uint (a :: u32) < 4294967296"
  using unsigned_less [of a] by simp_all

lemma addr_val_bounds: "0 \<le> addr_val x \<and> addr_val x < 2 ^ addr_bits x"
proof (cases x)
  case (V4 a)
  then show ?thesis using uint32_bounds [of a] by simp
next
  case (V6 a b c d)
  then show ?thesis
    using uint32_bounds [of a] uint32_bounds [of b] uint32_bounds [of c] uint32_bounds [of d] by auto
qed

lemma uint32_eq: "uint (a :: u32) = uint b \<longleftrightarrow> a = b"
  by (simp add: word_uint_eq_iff)

lemma sgn_lex:
  assumes "0 \<le> r" "r < M" "0 \<le> s" "s < (M :: int)"
  shows "sgn ((x * M + r) - (y * M + s)) = (if x > y then 1 else if x < y then - 1 else sgn (r - s))"
proof -
  have "x * M \<ge> y * M + M" if "x > y"
    using mult_right_mono [of "y + 1" x M] assms that by (simp add: algebra_simps)
  moreover have "y * M \<ge> x * M + M" if "x < y"
    using mult_right_mono [of "x + 1" y M] assms that by (simp add: algebra_simps)
  ultimately show ?thesis using assms by (cases x y rule: linorder_cases) (auto simp: sgn_if)
qed

lemma words_cmp_sign:
  "words_cmp [a0, a1, a2, a3] [b0, b1, b2, b3] = sgn (addr_val (V6 a0 a1 a2 a3) - addr_val (V6 b0 b1 b2 b3))"
proof -
  let ?t2 = "\<lambda>y z. uint y * 2 ^ 32 + uint (z :: u32)"
  let ?t3 = "\<lambda>x y z. uint x * 2 ^ 64 + ?t2 y z"
  have t2: "0 \<le> ?t2 y z" "?t2 y z < 2 ^ 64" for y z :: u32
    using uint32_bounds [of y] uint32_bounds [of z] by auto
  have t3: "0 \<le> ?t3 x y z" "?t3 x y z < 2 ^ 96" for x y z :: u32
    using uint32_bounds [of x] uint32_bounds [of y] uint32_bounds [of z] by auto
  have v: "addr_val (V6 a b c d) = uint a * 2 ^ 96 + ?t3 b c d" for a b c d by simp
  have 1: "words_cmp [x] [y] = sgn (uint x - uint y)" for x y :: u32
    by (simp add: word_less_def sgn_if)
  have 2: "words_cmp [x, z] [y, w] = sgn (?t2 x z - ?t2 y w)" for x y z w :: u32
    using uint32_bounds [of z] uint32_bounds [of w]
    by (subst sgn_lex) (simp_all add: word_less_def sgn_if)
  have 3: "words_cmp [u, x, z] [v, y, w] = sgn (?t3 u x z - ?t3 v y w)" for u v x y z w :: u32
    using 2 [of x z y w] t2
    by (subst sgn_lex) (simp_all add: word_less_def word_uint_eq_iff del: words_cmp.simps add: words_cmp.simps(1) [of u] )
  show ?thesis unfolding v
    using 3 [of a1 a2 a3 b1 b2 b3] t3
    by (subst sgn_lex) (simp_all add: word_less_def word_uint_eq_iff del: words_cmp.simps add: words_cmp.simps(1) [of a0])
qed

lemma ip_addr_cmp_sign: "sgn (ip_addr_cmp x y) = sgn (addr_key x - addr_key y)"
proof (cases x; cases y)
  fix a b assume "x = V4 a" "y = V4 b"
  then show ?thesis by (auto simp: addr_key_def word_less_def sgn_if word_uint_eq_iff)
next
  fix a b0 b1 b2 b3 assume xy: "x = V4 a" "y = V6 b0 b1 b2 b3"
  have "uint a < 4294967296" "0 \<le> addr_val y" using uint32_bounds(2) addr_val_bounds by auto
  then have "addr_key x < addr_key y" using xy by (simp add: addr_key_def del: addr_val.simps(2))
  then show ?thesis using xy by (simp add: sgn_if)
next
  fix b a0 a1 a2 a3 assume xy: "x = V6 a0 a1 a2 a3" "y = V4 b"
  have "uint b < 4294967296" "0 \<le> addr_val x" using uint32_bounds(2) addr_val_bounds by auto
  then have "addr_key y < addr_key x" using xy by (simp add: addr_key_def del: addr_val.simps(2))
  then show ?thesis using xy by (simp add: sgn_if)
next
  fix a0 a1 a2 a3 b0 b1 b2 b3 assume "x = V6 a0 a1 a2 a3" "y = V6 b0 b1 b2 b3"
  then show ?thesis by (simp add: addr_key_def words_cmp_sign del: addr_val.simps words_cmp.simps)
qed

lemma cmp_simps [simp]:
  "ip_addr_cmp x y > 0 \<longleftrightarrow> addr_key x > addr_key y"
  "ip_addr_cmp x y < 0 \<longleftrightarrow> addr_key x < addr_key y"
  "ip_addr_cmp x y \<ge> 0 \<longleftrightarrow> addr_key x \<ge> addr_key y"
  "ip_addr_cmp x y = 0 \<longleftrightarrow> addr_key x = addr_key y"
  using ip_addr_cmp_sign [of x y] by (auto simp: sgn_if split: if_splits)

lemma V6_inj: "addr_val (V6 a0 a1 a2 a3) = addr_val (V6 b0 b1 b2 b3) \<longleftrightarrow> V6 a0 a1 a2 a3 = V6 b0 b1 b2 b3"
proof
  assume "addr_val (V6 a0 a1 a2 a3) = addr_val (V6 b0 b1 b2 b3)"
  then have "words_cmp [a0, a1, a2, a3] [b0, b1, b2, b3] = 0" by (simp add: words_cmp_sign del: words_cmp.simps)
  then show "V6 a0 a1 a2 a3 = V6 b0 b1 b2 b3"
    by (auto simp: word_less_def word_uint_eq_iff split: if_splits)
qed simp

lemma addr_key_eq: "addr_key x = addr_key y \<longleftrightarrow> x = y"
proof
  assume e: "addr_key x = addr_key y"
  have b: "uint a \<noteq> 4294967296 + addr_val (V6 b0 b1 b2 b3)" for a :: u32 and b0 b1 b2 b3
    using uint32_bounds(2) [of a] addr_val_bounds [of "V6 b0 b1 b2 b3"] by linarith
  from e show "x = y"
    by (cases x; cases y) (auto simp: addr_key_def V6_inj b b [symmetric] uint32_eq simp del: addr_val.simps(2))
qed simp

instantiation ip_addr :: linorder
begin

definition less_eq_ip_addr :: "ip_addr \<Rightarrow> ip_addr \<Rightarrow> bool" where
  "less_eq_ip_addr x y \<longleftrightarrow> ip_addr_cmp x y \<le> 0"

definition less_ip_addr :: "ip_addr \<Rightarrow> ip_addr \<Rightarrow> bool" where
  "less_ip_addr x y \<longleftrightarrow> ip_addr_cmp x y < 0"

instance
proof
  fix x y z :: ip_addr
  show "x < y \<longleftrightarrow> x \<le> y \<and> \<not> y \<le> x"
    unfolding less_eq_ip_addr_def less_ip_addr_def by (auto simp: linorder_not_less [symmetric])
  show "x \<le> x" unfolding less_eq_ip_addr_def by (simp add: linorder_not_less [symmetric])
  show "x \<le> y \<Longrightarrow> y \<le> z \<Longrightarrow> x \<le> z"
    unfolding less_eq_ip_addr_def by (simp add: linorder_not_less [symmetric])
  show "x \<le> y \<Longrightarrow> y \<le> x \<Longrightarrow> x = y"
    unfolding less_eq_ip_addr_def by (simp add: linorder_not_less [symmetric] addr_key_eq [symmetric])
  show "x \<le> y \<or> y \<le> x"
    unfolding less_eq_ip_addr_def by (auto simp: linorder_not_less [symmetric])
qed

end

lemma le_key: "x \<le> y \<longleftrightarrow> addr_key x \<le> addr_key y" and less_key: "x < y \<longleftrightarrow> addr_key x < addr_key y"
  unfolding less_eq_ip_addr_def less_ip_addr_def by (simp_all add: linorder_not_less [symmetric])

lemma mod_once:
  fixes r M :: int
  assumes "0 \<le> r \<and> r < M" "s = r \<or> s = r + M \<or> s = r - M"
  shows "r = s mod M"
  using assms by auto

lemma addr_add_val:
  "addr_bits (addr_add x v) = addr_bits x \<and> addr_val (addr_add x v) = (addr_val x + uint v) mod 2 ^ addr_bits x"
proof (cases x)
  case (V4 a)
  then show ?thesis by (simp add: uint_word_ariths)
next
  case (V6 a b c d)
  note bd = uint32_bounds [of a] uint32_bounds [of b] uint32_bounds [of c] uint32_bounds [of d] uint32_bounds [of v]
  have inc: "uint (w + 1) = (if uint w = 4294967295 then 0 else uint w + 1)" for w :: u32
    using uint32_bounds [of w] by (auto simp: uint_word_ariths)
  have z: "w + 1 = 0 \<longleftrightarrow> uint w = 4294967295" for w :: u32
  proof -
    have "uint (w + 1) = 0 \<longleftrightarrow> uint w = 4294967295"
      using inc [of w] uint32_bounds(1) [of w] by presburger
    then show ?thesis using uint32_eq [of "w + 1" 0] by simp
  qed
  have dv: "uint (d + v) = (if uint d + uint v < 4294967296 then uint d + uint v else uint d + uint v - 4294967296)"
  proof (cases "uint d + uint v < 4294967296")
    case True
    then show ?thesis using bd by (simp add: uint_word_ariths)
  next
    case False
    then have "(uint d + uint v - 4294967296) mod 4294967296 = uint d + uint v - 4294967296"
      using bd by (intro mod_pos_pos_trivial) auto
    then show ?thesis using False by (simp add: uint_word_ariths)
  qed
  have lt: "d + v < v \<longleftrightarrow> uint d + uint v \<ge> 4294967296"
    using bd by (auto simp: word_less_def dv)
  have fam: "addr_bits (addr_add x v) = addr_bits x" using V6 by simp
  have "addr_val x + uint v = addr_val (addr_add x v) \<or>
      addr_val x + uint v = addr_val (addr_add x v) + 2 ^ 128"
    using V6 bd by (auto simp: inc z dv lt)
  then show ?thesis
    using addr_val_bounds [of "addr_add x v"] fam V6
    by (intro conjI mod_once) (auto simp del: addr_val.simps addr_add.simps)
qed

lemma addr_sub_val:
  "addr_bits (addr_sub x v) = addr_bits x \<and> addr_val (addr_sub x v) = (addr_val x - uint v) mod 2 ^ addr_bits x"
proof (cases x)
  case (V4 a)
  then show ?thesis by (simp add: uint_word_ariths)
next
  case (V6 a b c d)
  note bd = uint32_bounds [of a] uint32_bounds [of b] uint32_bounds [of c] uint32_bounds [of d] uint32_bounds [of v]
  have dvu: "uint (w - u) = (if uint w < uint u then uint w - uint u + 4294967296 else uint w - uint u)"
    for w u :: u32
  proof (cases "uint w < uint u")
    case True
    then have "(uint w - uint u + 4294967296) mod 4294967296 = uint w - uint u + 4294967296"
      using uint32_bounds [of u] uint32_bounds(1) [of w] by (intro mod_pos_pos_trivial) linarith+
    then show ?thesis using True by (simp add: uint_word_ariths)
  next
    case False
    then have "(uint w - uint u) mod 4294967296 = uint w - uint u"
      using uint32_bounds [of w] uint32_bounds(1) [of u] by (intro mod_pos_pos_trivial) linarith+
    then show ?thesis using False by (simp add: uint_word_ariths)
  qed
  have z: "w = 0 \<longleftrightarrow> uint w = 0" for w :: u32 using uint32_eq [of w 0] by simp
  have lt: "d < v \<longleftrightarrow> uint d < uint v" by (simp add: word_less_def)
  have lt1: "uint w < 1 \<longleftrightarrow> uint w = 0" for w :: u32 using uint32_bounds(1) [of w] by linarith
  have fam: "addr_bits (addr_sub x v) = addr_bits x" using V6 by simp
  have "addr_val x - uint v = addr_val (addr_sub x v) \<or>
      addr_val x - uint v = addr_val (addr_sub x v) - 2 ^ 128"
    using V6 bd lt1 by (auto simp: z lt dvu)
  then show ?thesis
    using addr_val_bounds [of "addr_sub x v"] fam V6
    by (intro conjI mod_once) (auto simp del: addr_val.simps addr_sub.simps)
qed

text \<open>
  Stepping an address by a 32 bit amount is arithmetic modulo the size of its family, with the
  carry and the borrow passed through all four words of an IPv6 address, and the two steps undo each
  other.
\<close>

theorem addr_step_modular:
  "addr_val (addr_add x v) = (addr_val x + uint v) mod 2 ^ addr_bits x \<and>
   addr_val (addr_sub x v) = (addr_val x - uint v) mod 2 ^ addr_bits x \<and>
   addr_sub (addr_add x v) v = x \<and> addr_add (addr_sub x v) v = x"
proof -
  have inj: "y = z" if "addr_bits y = addr_bits z" "addr_val y = addr_val z" for y z
    using that by (cases y; cases z) (auto simp: V6_inj uint32_eq simp del: addr_val.simps(2))
  have "addr_val (addr_sub (addr_add x v) v) = addr_val x" "addr_val (addr_add (addr_sub x v) v) = addr_val x"
    using addr_val_bounds [of x]
    by (simp_all add: addr_add_val addr_sub_val mod_simps)
  moreover have "addr_bits (addr_sub (addr_add x v) v) = addr_bits x" "addr_bits (addr_add (addr_sub x v) v) = addr_bits x"
    by (simp_all add: addr_add_val addr_sub_val)
  ultimately show ?thesis using inj addr_add_val addr_sub_val by blast
qed

section \<open>CIDR blocks\<close>

lemma uint_clear_low:
  fixes w :: u32
  assumes "j \<le> 32"
  shows "uint (w AND push_bit j (- 1)) = (uint w div 2 ^ j) * 2 ^ j"
proof -
  have "w AND push_bit j (- 1) = push_bit j (drop_bit j w)"
    by (rule bit_word_eqI) (auto simp: bit_simps)
  moreover have "uint (push_bit j (drop_bit j w)) = take_bit 32 (push_bit j (drop_bit j (uint w)))"
    using take_bit_int_eq_self [of "uint w" 32] uint32_bounds [of w]
    by (simp add: unsigned_push_bit_eq unsigned_drop_bit_eq)
  moreover have "push_bit j (drop_bit j (uint w)) = (uint w div 2 ^ j) * 2 ^ j"
    by (simp add: push_bit_eq_mult drop_bit_eq_div)
  moreover have "0 \<le> (uint w div 2 ^ j) * 2 ^ j" "(uint w div 2 ^ j) * 2 ^ j \<le> uint w"
  proof -
    have "0 \<le> uint w mod 2 ^ j" by simp
    then show "(uint w div 2 ^ j) * 2 ^ j \<le> uint w" using div_mult_mod_eq [of "uint w" "2 ^ j"] by linarith
    show "0 \<le> (uint w div 2 ^ j) * 2 ^ j" by (simp add: pos_imp_zdiv_nonneg_iff)
  qed
  ultimately show ?thesis using uint32_bounds [of w] by (simp add: take_bit_eq_mod)
qed

lemma uint_set_low:
  fixes w :: u32
  assumes "b \<le> 32" and m: "m = w AND push_bit (32 - b) (- 1)"
  shows "uint (m OR drop_bit b (- 1)) = uint m + 2 ^ (32 - b) - 1"
proof -
  let ?j = "32 - b"
  have d: "drop_bit b (- 1 :: u32) = mask ?j" by (rule bit_word_eqI) (auto simp: bit_simps)
  have or: "m OR mask ?j = m + mask ?j"
    unfolding m by (rule disjunctive_add [symmetric]) (auto simp: bit_simps)
  have um: "uint (mask ?j :: u32) = 2 ^ ?j - 1" 
  proof -
    have "uint (word_of_int (mask ?j) :: u32) = take_bit 32 (mask ?j)" by (simp only: unsigned_of_int) simp
    then have "uint (mask ?j :: u32) = mask ?j" by (simp add: of_int_mask_eq)
    then show ?thesis by (simp only: mask_eq_exp_minus_1 [where 'a = int])
  qed
  have q: "uint m = (uint w div 2 ^ ?j) * 2 ^ ?j" unfolding m by (rule uint_clear_low) simp
  have "uint w div 2 ^ ?j \<le> 2 ^ b - 1"
  proof -
    have "uint w < 2 ^ b * 2 ^ ?j" using uint32_bounds [of w] assms(1) by (simp flip: power_add)
    moreover have "uint w div 2 ^ ?j * 2 ^ ?j \<le> uint w"
    proof -
      have "0 \<le> uint w mod 2 ^ ?j" by simp
      then show ?thesis using div_mult_mod_eq [of "uint w" "2 ^ ?j"] by linarith
    qed
    ultimately have "uint w div 2 ^ ?j * 2 ^ ?j < 2 ^ b * 2 ^ ?j" by linarith
    then have "uint w div 2 ^ ?j < 2 ^ b" by (rule mult_right_less_imp_less) simp
    then show ?thesis by simp
  qed
  then have "uint m \<le> (2 ^ b - 1) * 2 ^ ?j" unfolding q by (rule mult_right_mono) simp
  moreover have "(2 ^ b - 1) * 2 ^ ?j = (4294967296 :: int) - 2 ^ ?j"
    using assms(1) by (simp add: left_diff_distrib flip: power_add)
  ultimately have "uint m + (2 ^ ?j - 1) < 4294967296" by linarith
  then show ?thesis unfolding d or using um uint32_bounds(1) [of m]
    by (simp add: uint_word_ariths)
qed

lemma prefix_block:
  fixes T w R :: int
  assumes "0 \<le> R" "R < 2 ^ m" "j \<le> 32"
  shows "((T * 2 ^ 32 + w) * 2 ^ m + R) div 2 ^ (j + m) * 2 ^ (j + m) = (T * 2 ^ 32 + w div 2 ^ j * 2 ^ j) * 2 ^ m"
proof -
  have "((T * 2 ^ 32 + w) * 2 ^ m + R) div 2 ^ m = T * 2 ^ 32 + w"
    using assms by (simp add: div_pos_pos_trivial)
  then have "((T * 2 ^ 32 + w) * 2 ^ m + R) div 2 ^ (j + m) = (T * 2 ^ 32 + w) div 2 ^ j"
    by (simp add: power_add mult.commute [of "2 ^ j"] zdiv_zmult2_eq)
  also have "\<dots> = T * 2 ^ (32 - j) + w div 2 ^ j"
  proof -
    have "T * 2 ^ 32 = T * 2 ^ (32 - j) * (2 ^ j :: int)" using assms(3) by (simp flip: power_add)
    then have "T * 2 ^ 32 + w = w + T * 2 ^ (32 - j) * 2 ^ j" by linarith
    then show ?thesis by (simp only: div_mult_self1 power_not_zero zero_neq_numeral not_False_eq_True)
  qed
  finally have "((T * 2 ^ 32 + w) * 2 ^ m + R) div 2 ^ (j + m) * 2 ^ (j + m) =
      (T * (2 ^ (32 - j) * 2 ^ j) + w div 2 ^ j * 2 ^ j) * 2 ^ m"
    by (simp add: power_add algebra_simps)
  then show ?thesis using assms(3) by (simp flip: power_add)
qed

text \<open>The bounds of a block: the address with its last bits cleared, and set.\<close>

lemma cidr_word_at:
  assumes "b < 32"
  shows "uint (fst (cidr_word a b a w)) = uint w div 2 ^ (32 - b) * 2 ^ (32 - b)"
    and "uint (snd (cidr_word a b a w)) = uint w div 2 ^ (32 - b) * 2 ^ (32 - b) + 2 ^ (32 - b) - 1"
proof -
  have z: "w AND push_bit 32 (- 1) = 0" by (rule bit_word_eqI) (auto simp: bit_simps)
  have mn: "fst (cidr_word a b a w) = w AND push_bit (32 - b) (- 1)"
    using z by (cases "b = 0") (simp_all add: cidr_word_def Let_def)
  have mx: "snd (cidr_word a b a w) = (w AND push_bit (32 - b) (- 1)) OR drop_bit b (- 1)"
    using mn by (simp add: cidr_word_def Let_def)
  show 1: "uint (fst (cidr_word a b a w)) = uint w div 2 ^ (32 - b) * 2 ^ (32 - b)"
    unfolding mn by (rule uint_clear_low) simp
  show "uint (snd (cidr_word a b a w)) = uint w div 2 ^ (32 - b) * 2 ^ (32 - b) + 2 ^ (32 - b) - 1"
    using uint_set_low [OF _ refl, of b w] assms 1 by (simp add: mx mn)
qed

lemma uint_max32 [simp]: "uint (- 1 :: u32) = 4294967295"
  by (simp add: unsigned_minus_1_eq_mask mask_eq_exp_minus_1)

lemma cidr_bounds_V4:
  assumes "cidr_bounds (V4 m) p = Some (mn, mx)"
  shows "addr_bits mn = 32 \<and> addr_bits mx = 32 \<and>
    addr_val mn = uint m div 2 ^ (32 - nat p) * 2 ^ (32 - nat p) \<and>
    addr_val mx = addr_val mn + 2 ^ (32 - nat p) - 1"
proof -
  have p: "0 \<le> p" "p \<le> 32" using assms by (auto split: if_splits)
  consider "p = 0" | "p = 32" | "0 < p" "p < 32" using p by linarith
  then show ?thesis
  proof cases
    case 1
    then show ?thesis using assms uint32_bounds [of m] by (auto simp: get_ipv4_cidr_max_addr_def)
  next
    case 2
    then show ?thesis using assms by (auto simp: get_ipv4_cidr_max_addr_def)
  next
    case 3
    have e: "nat (32 - p) = 32 - nat p" and le: "nat p \<le> 32" using 3 by simp_all
    define m1 where "m1 = m AND push_bit (32 - nat p) (- 1)"
    have m: "mn = V4 m1" "mx = V4 (m1 OR drop_bit (nat p) (- 1))"
      using assms 3 e by (simp_all add: get_ipv4_cidr_max_addr_def Let_def m1_def)
    have "uint m1 = uint m div 2 ^ (32 - nat p) * 2 ^ (32 - nat p)"
      unfolding m1_def by (rule uint_clear_low) simp
    then show ?thesis using uint_set_low [OF le m1_def] by (simp only: m addr_val.simps addr_bits.simps)
  qed
qed

lemma prefix_block_V6:
  fixes T :: int
  assumes "0 \<le> R" "R < 2 ^ m" "b < 32"
  shows "((T * 2 ^ 32 + uint w) * 2 ^ m + R) div 2 ^ ((32 - b) + m) * 2 ^ ((32 - b) + m) =
      (T * 2 ^ 32 + uint (fst (cidr_word a b a w))) * 2 ^ m"
    and "(T * 2 ^ 32 + uint (snd (cidr_word a b a w))) * 2 ^ m + (2 ^ m - 1) =
      (T * 2 ^ 32 + uint (fst (cidr_word a b a w))) * 2 ^ m + 2 ^ ((32 - b) + m) - 1"
proof -
  show "((T * 2 ^ 32 + uint w) * 2 ^ m + R) div 2 ^ ((32 - b) + m) * 2 ^ ((32 - b) + m) =
      (T * 2 ^ 32 + uint (fst (cidr_word a b a w))) * 2 ^ m"
    using prefix_block [OF assms(1,2), of "32 - b" T "uint w"] cidr_word_at(1) [OF assms(3)] by simp
  show "(T * 2 ^ 32 + uint (snd (cidr_word a b a w))) * 2 ^ m + (2 ^ m - 1) =
      (T * 2 ^ 32 + uint (fst (cidr_word a b a w))) * 2 ^ m + 2 ^ ((32 - b) + m) - 1"
    unfolding cidr_word_at [OF assms(3)] by (simp add: algebra_simps power_add)
qed

lemma prefix_bounds:
  fixes T :: int
  assumes b: "b < 32" and k: "k = (32 - b) + m" and R: "0 \<le> R" "R < 2 ^ m"
    and "v = (T * 2 ^ 32 + uint w) * 2 ^ m + R"
    and "vmn = (T * 2 ^ 32 + uint (fst (cidr_word a b a w))) * 2 ^ m"
    and "vmx = (T * 2 ^ 32 + uint (snd (cidr_word a b a w))) * 2 ^ m + (2 ^ m - 1)"
  shows "vmn = v div 2 ^ k * 2 ^ k \<and> vmx = vmn + 2 ^ k - 1"
  using prefix_block_V6 [OF R b] assms by (simp only:)

lemma cidr_bounds_V6:
  assumes c: "cidr_bounds (V6 w0 w1 w2 w3) p = Some (mn, mx)"
  shows "addr_bits mn = 128 \<and> addr_bits mx = 128 \<and>
    addr_val mn = addr_val (V6 w0 w1 w2 w3) div 2 ^ (128 - nat p) * 2 ^ (128 - nat p) \<and>
    addr_val mx = addr_val mn + 2 ^ (128 - nat p) - 1"
proof -
  define a where "a = nat p div 32"
  define b where "b = nat p - a * 32"
  note u = uint32_bounds [of w0] uint32_bounds [of w1] uint32_bounds [of w2] uint32_bounds [of w3]
  have b: "b < 32" "nat p = a * 32 + b" by (simp_all add: a_def b_def minus_div_mult_eq_mod)
  have p: "nat p \<le> 128" using c by (auto split: if_splits)
  let ?f = "\<lambda>i w. fst (cidr_word a b i w)" and ?g = "\<lambda>i w. snd (cidr_word a b i w)"
  have m: "mn = V6 (?f 0 w0) (?f 1 w1) (?f 2 w2) (?f 3 w3)" "mx = V6 (?g 0 w0) (?g 1 w1) (?g 2 w2) (?g 3 w3)"
    using c unfolding cidr_bounds.simps Let_def a_def b_def by (auto split: if_splits)
  have hi: "cidr_word j b i w = (w, w)" if "i < j" for i j w using that by (simp add: cidr_word_def)
  have lo: "cidr_word j b i w = (0, - 1)" if "i > j" for i j w using that by (simp add: cidr_word_def)
  have bits: "addr_bits mn = 128 \<and> addr_bits mx = 128" by (simp add: m)
  consider "a = 0" | "a = 1" | "a = 2" | "a = 3" | "nat p = 128" "a = 4" using p b by linarith
  then have "addr_val mn = addr_val (V6 w0 w1 w2 w3) div 2 ^ (128 - nat p) * 2 ^ (128 - nat p) \<and>
      addr_val mx = addr_val mn + 2 ^ (128 - nat p) - 1"
  proof cases
    case 1
    show ?thesis
      by (rule prefix_bounds [where R = "uint w1 * 2 ^ 64 + uint w2 * 2 ^ 32 + uint w3" and m = 96 and b = b
            and T = 0 and w = w0 and a = a])
        (use 1 u b in \<open>simp_all add: m lo\<close>)
  next
    case 2
    show ?thesis
      by (rule prefix_bounds [where R = "uint w2 * 2 ^ 32 + uint w3" and m = 64 and b = b
            and T = "uint w0" and w = w1 and a = a])
        (use 2 u b in \<open>simp_all add: m lo hi\<close>)
  next
    case 3
    show ?thesis
      by (rule prefix_bounds [where R = "uint w3" and m = 32 and b = b
            and T = "uint w0 * 2 ^ 32 + uint w1" and w = w2 and a = a])
        (use 3 u b in \<open>simp_all add: m lo hi\<close>)
  next
    case 4
    show ?thesis
      by (rule prefix_bounds [where R = 0 and m = 0 and b = b
            and T = "(uint w0 * 2 ^ 32 + uint w1) * 2 ^ 32 + uint w2" and w = w3 and a = a])
        (use 4 u b in \<open>simp_all add: m hi\<close>)
  next
    case 5
    then show ?thesis by (simp add: m hi)
  qed
  with bits show ?thesis by blast
qed

lemma cidr_bounds_val:
  assumes "cidr_bounds ip p = Some (mn, mx)"
  shows "addr_bits mn = addr_bits ip \<and> addr_bits mx = addr_bits ip \<and>
    addr_val mn = addr_val ip div 2 ^ (addr_bits ip - nat p) * 2 ^ (addr_bits ip - nat p) \<and>
    addr_val mx = addr_val mn + 2 ^ (addr_bits ip - nat p) - 1"
proof (cases ip)
  case (V4 m)
  then show ?thesis using cidr_bounds_V4 [of m p mn mx] assms by simp
next
  case (V6 a b c d)
  then show ?thesis using cidr_bounds_V6 [of a b c d p mn mx] assms by (simp only: addr_bits.simps)
qed

lemma block_member:
  fixes x q K :: int
  assumes "0 < K"
  shows "q * K \<le> x \<and> x \<le> q * K + K - 1 \<longleftrightarrow> x div K = q"
proof
  assume "q * K \<le> x \<and> x \<le> q * K + K - 1"
  then have "x = K * q + (x - q * K)" "0 \<le> x - q * K" "x - q * K < K" by (auto simp: mult.commute)
  then show "x div K = q" by (rule int_div_pos_eq)
next
  assume q: "x div K = q"
  have "0 \<le> x mod K" "x mod K < K" using assms by simp_all
  then show "q * K \<le> x \<and> x \<le> q * K + K - 1" using div_mult_mod_eq [of x K] unfolding q by linarith
qed

lemma same_family_order:
  assumes "addr_bits x = addr_bits y"
  shows "x \<le> y \<longleftrightarrow> addr_val x \<le> addr_val y"
  using assms by (cases x; cases y) (auto simp: le_key addr_key_def simp del: addr_val.simps)

text \<open>
  C25. The bounds computed for a CIDR block enclose exactly the addresses of the same family that
  share the first \<open>p\<close> bits with the given one, for IPv4 and IPv6 and every prefix length the code
  accepts, the lengths 0 and the full width included; the code accepts all lengths from 0 to the width.
\<close>

theorem cidr_block_exact:
  assumes ip: "get_local_addr res s = Some ip"
  shows "((\<exists>mn mx. build_cidr_addr res s p = Some (mn, mx)) \<longleftrightarrow> 0 \<le> p \<and> p \<le> int (addr_bits ip)) \<and>
    (\<forall>mn mx x. build_cidr_addr res s p = Some (mn, mx) \<longrightarrow> addr_bits x = addr_bits ip \<longrightarrow>
      (mn \<le> x \<and> x \<le> mx \<longleftrightarrow>
       addr_val x div 2 ^ (addr_bits ip - nat p) = addr_val ip div 2 ^ (addr_bits ip - nat p)))"
proof (intro conjI allI impI)
  show "(\<exists>mn mx. build_cidr_addr res s p = Some (mn, mx)) \<longleftrightarrow> 0 \<le> p \<and> p \<le> int (addr_bits ip)"
    using ip by (cases ip) (auto simp: build_cidr_addr_def Let_def split: prod.splits if_splits)
next
  fix mn mx x
  assume b: "build_cidr_addr res s p = Some (mn, mx)" and x: "addr_bits x = addr_bits ip"
  then have "cidr_bounds ip p = Some (mn, mx)" using ip by (simp add: build_cidr_addr_def)
  note v = cidr_bounds_val [OF this]
  show "mn \<le> x \<and> x \<le> mx \<longleftrightarrow>
      addr_val x div 2 ^ (addr_bits ip - nat p) = addr_val ip div 2 ^ (addr_bits ip - nat p)"
    using v x block_member [of "2 ^ (addr_bits ip - nat p)" _ "addr_val x"] by (simp add: same_family_order)
qed

section \<open>Neighbours\<close>

lemma bits_cases: "addr_bits x = 32 \<or> addr_bits x = 128"
  by (cases x) auto

lemma key_family: "addr_bits x = addr_bits y \<Longrightarrow> addr_key x - addr_val x = addr_key y - addr_val y"
  by (cases x; cases y) (auto simp: addr_key_def)

lemma family_between: "x \<le> y \<Longrightarrow> y \<le> z \<Longrightarrow> addr_bits x = addr_bits z \<Longrightarrow> addr_bits y = addr_bits x"
proof -
  assume a: "x \<le> y" "y \<le> z" "addr_bits x = addr_bits z"
  have lt: "V4 u < V6 b c d e" for u b c d e
    by (simp add: less_ip_addr_def del: cmp_simps)
  have "\<not> V6 b c d e \<le> V4 u" for u b c d e using lt [of u b c d e] by simp
  with a show ?thesis by (cases x; cases y; cases z) auto
qed

lemma key_add:
  assumes "x < y" "addr_bits x = addr_bits y"
  shows "addr_key (addr_add x 1) = addr_key x + 1" "addr_bits (addr_add x 1) = addr_bits x"
proof -
  have "addr_val x < addr_val y" using assms key_family [OF assms(2)] by (simp add: less_key)
  then have "addr_val (addr_add x 1) = addr_val x + 1"
    using addr_add_val [of x 1] addr_val_bounds [of x] addr_val_bounds [of y] assms(2) by simp
  moreover show f: "addr_bits (addr_add x 1) = addr_bits x" using addr_add_val [of x 1] by simp
  ultimately show "addr_key (addr_add x 1) = addr_key x + 1" using key_family [OF f] by simp
qed

lemma key_sub:
  assumes "x < y" "addr_bits x = addr_bits y"
  shows "addr_key (addr_sub y 1) = addr_key y - 1" "addr_bits (addr_sub y 1) = addr_bits y"
proof -
  have "addr_val x < addr_val y" using assms key_family [OF assms(2)] by (simp add: less_key)
  then have "addr_val (addr_sub y 1) = addr_val y - 1"
    using addr_sub_val [of y 1] addr_val_bounds [of x] addr_val_bounds [of y] assms(2) by simp
  moreover show f: "addr_bits (addr_sub y 1) = addr_bits y" using addr_sub_val [of y 1] by simp
  ultimately show "addr_key (addr_sub y 1) = addr_key y - 1" using key_family [OF f] by simp
qed

text \<open>Inside a family the successor and the predecessor leave no address out.\<close>

lemma less_succ: "x < y \<Longrightarrow> addr_bits x = addr_bits y \<Longrightarrow> z < addr_add x 1 \<longleftrightarrow> z \<le> x"
  by (simp add: less_key le_key key_add zless_add1_eq order_le_less)

lemma succ_le: "x < y \<Longrightarrow> addr_bits x = addr_bits y \<Longrightarrow> addr_add x 1 \<le> z \<longleftrightarrow> x < z"
  by (metis less_succ linorder_not_less)

lemma le_pred: "x < y \<Longrightarrow> addr_bits x = addr_bits y \<Longrightarrow> z \<le> addr_sub y 1 \<longleftrightarrow> z < y"
  by (simp add: less_key le_key key_sub)

lemma pred_less: "x < y \<Longrightarrow> addr_bits x = addr_bits y \<Longrightarrow> addr_sub y 1 < z \<longleftrightarrow> y \<le> z"
  by (metis le_pred linorder_not_less)

section \<open>The tree and the lookup\<close>

text \<open>
  What the code relies on of the tree: it holds a finite set of keys, insertion adds a key and tells
  whether it is new, the neighbours of a key are the next smaller and the next greater one, and the
  search with a comparison that is consistent with the order finds a key that compares equal.
\<close>

definition find_consistent :: "ip_addr set \<Rightarrow> (ip_addr \<Rightarrow> int) \<Rightarrow> bool" where
  "find_consistent K c \<longleftrightarrow>
     (\<forall>x \<in> K. \<forall>y \<in> K. x < y \<longrightarrow> (c x < 0 \<longrightarrow> c y < 0) \<and> (c y > 0 \<longrightarrow> c x > 0))"

definition krb_laws :: "'t krb_ops \<Rightarrow> ('t \<Rightarrow> ip_addr set) \<Rightarrow> bool" where
  "krb_laws ops keys \<longleftrightarrow> keys (rb_create ops) = {} \<and>
     (\<forall>t. finite (keys t)) \<and>
     (\<forall>t k. snd (rb_insert ops t k) = (k \<notin> keys t) \<and> keys (fst (rb_insert ops t k)) = insert k (keys t)) \<and>
     (\<forall>t k. case rb_prev ops t k of
        None \<Rightarrow> \<forall>x \<in> keys t. \<not> x < k
      | Some p \<Rightarrow> p \<in> keys t \<and> p < k \<and> (\<forall>x \<in> keys t. x < k \<longrightarrow> x \<le> p)) \<and>
     (\<forall>t k. case rb_next ops t k of
        None \<Rightarrow> \<forall>x \<in> keys t. \<not> k < x
      | Some n \<Rightarrow> n \<in> keys t \<and> k < n \<and> (\<forall>x \<in> keys t. k < x \<longrightarrow> n \<le> x)) \<and>
     (\<forall>t c. find_consistent (keys t) c \<longrightarrow>
        (case rb_find ops t c of None \<Rightarrow> \<forall>k \<in> keys t. c k \<noteq> 0 | Some k \<Rightarrow> k \<in> keys t \<and> c k = 0))"

text \<open>A range covers an address; the ranges of a well formed map are disjoint and each in one family.\<close>

definition covers :: "('t, 'd) ipmap \<Rightarrow> ip_addr \<Rightarrow> ip_addr \<Rightarrow> 'd \<Rightarrow> bool" where
  "covers m k x d \<longleftrightarrow> (\<exists>mx. ranges m k = Some (mx, d) \<and> k \<le> x \<and> x \<le> mx)"

definition map_wf :: "('t \<Rightarrow> ip_addr set) \<Rightarrow> ('t, 'd) ipmap \<Rightarrow> bool" where
  "map_wf keys m \<longleftrightarrow> dom (ranges m) = keys (ip_tree m) \<and>
     (\<forall>k mx d. ranges m k = Some (mx, d) \<longrightarrow> k \<le> mx \<and> addr_bits k = addr_bits mx \<and>
        (\<forall>k'. k' \<in> dom (ranges m) \<longrightarrow> k < k' \<longrightarrow> mx < k'))"

lemma map_wfD:
  assumes "map_wf keys m" "ranges m k = Some (mx, d)"
  shows "k \<le> mx" "addr_bits k = addr_bits mx" "k' \<in> dom (ranges m) \<Longrightarrow> k < k' \<Longrightarrow> mx < k'" "k \<in> keys (ip_tree m)"
  using assms unfolding map_wf_def by (metis, metis, metis, blast)

lemma map_wf_disjoint:
  assumes "map_wf keys m" "ranges m k = Some (mx, d)" "ranges m k' = Some r'" "k < k'"
  shows "mx < k'"
  using map_wfD(3) [OF assms(1,2)] assms(3,4) by blast

lemma covers_unique:
  assumes "map_wf keys m" "covers m k x d" "covers m k' x d'"
  shows "k = k'"
proof (rule ccontr)
  assume "k \<noteq> k'"
  then consider "k < k'" | "k' < k" by fastforce
  then show False
    using assms map_wfD(3) [OF assms(1)] unfolding covers_def
    by cases (meson domI leD order_trans)+
qed

lemma find_addr_covers:
  assumes laws: "krb_laws ops keys" and wf: "map_wf keys m"
  shows "find_addr ops m x = Some d \<longleftrightarrow> (\<exists>k. covers m k x d)"
proof -
  let ?K = "keys (ip_tree m)" and ?c = "range_addr_find_cmp m x"
  have c: "(?c k < 0 \<longleftrightarrow> x < k) \<and> (?c k > 0 \<longleftrightarrow> mx < x) \<and> (?c k = 0 \<longleftrightarrow> k \<le> x \<and> x \<le> mx)"
    if "ranges m k = Some (mx, e)" for k mx e
    using map_wfD(1) [OF wf that] that
    by (auto simp: range_addr_find_cmp_def less_key le_key)
  have dom: "\<exists>mx e. ranges m k = Some (mx, e)" if "k \<in> ?K" for k
  proof -
    have "k \<in> dom (ranges m)" using wf that by (simp add: map_wf_def)
    then show ?thesis by auto
  qed
  have cons: "find_consistent ?K ?c"
    unfolding find_consistent_def
  proof (intro ballI impI)
    fix a b assume a: "a \<in> ?K" and b: "b \<in> ?K" and ab: "a < b"
    obtain amx ad bmx bd where r: "ranges m a = Some (amx, ad)" "ranges m b = Some (bmx, bd)"
      using dom [OF a] dom [OF b] by auto
    have "amx < b" using map_wfD(3) [OF wf r(1)] r(2) ab by blast
    then show "(?c a < 0 \<longrightarrow> ?c b < 0) \<and> (?c b > 0 \<longrightarrow> ?c a > 0)"
      using c [OF r(1)] c [OF r(2)] ab map_wfD(1) [OF wf r(2)] by (meson order_less_trans order_le_less_trans)
  qed
  have law: "case rb_find ops (ip_tree m) ?c of None \<Rightarrow> \<forall>k \<in> ?K. ?c k \<noteq> 0 | Some k \<Rightarrow> k \<in> ?K \<and> ?c k = 0"
    using laws cons unfolding krb_laws_def by blast
  show ?thesis
  proof (cases "rb_find ops (ip_tree m) ?c")
    case None
    have "\<not> covers m k x d" for k
    proof
      assume "covers m k x d"
      then obtain mx where r: "ranges m k = Some (mx, d)" "k \<le> x" "x \<le> mx" by (auto simp: covers_def)
      then have "?c k = 0" using c by blast
      moreover have "k \<in> ?K" by (rule map_wfD(4) [OF wf r(1)])
      ultimately show False using law None by simp
    qed
    then show ?thesis using None by (simp add: find_addr_def)
  next
    case (Some k)
    with law have k: "k \<in> ?K" "?c k = 0" by simp_all
    obtain mx e where r: "ranges m k = Some (mx, e)" using dom [OF k(1)] by blast
    have cv: "covers m k x e" using c [OF r] k(2) r by (auto simp: covers_def)
    have "(\<exists>k'. covers m k' x d) \<longleftrightarrow> d = e"
    proof
      assume "\<exists>k'. covers m k' x d"
      then obtain k' where k': "covers m k' x d" by blast
      with covers_unique [OF wf cv] have "k' = k" by blast
      with k' r show "d = e" by (auto simp: covers_def)
    qed (use cv in blast)
    then show ?thesis using Some r by (auto simp: find_addr_def)
  qed
qed

section \<open>Adding a range\<close>

lemma krb_insert:
  assumes "krb_laws ops keys"
  shows "snd (rb_insert ops t k) = (k \<notin> keys t)" "keys (fst (rb_insert ops t k)) = insert k (keys t)"
  using assms unfolding krb_laws_def by blast+

lemma krb_prev:
  assumes "krb_laws ops keys"
  shows "rb_prev ops t k = Some p \<Longrightarrow> p \<in> keys t \<and> p < k \<and> (\<forall>x \<in> keys t. x < k \<longrightarrow> x \<le> p)"
    and "rb_prev ops t k = None \<Longrightarrow> \<forall>x \<in> keys t. \<not> x < k"
proof -
  have "case rb_prev ops t k of None \<Rightarrow> \<forall>x \<in> keys t. \<not> x < k
      | Some p \<Rightarrow> p \<in> keys t \<and> p < k \<and> (\<forall>x \<in> keys t. x < k \<longrightarrow> x \<le> p)"
    using assms unfolding krb_laws_def by blast
  then show "rb_prev ops t k = Some p \<Longrightarrow> p \<in> keys t \<and> p < k \<and> (\<forall>x \<in> keys t. x < k \<longrightarrow> x \<le> p)"
    and "rb_prev ops t k = None \<Longrightarrow> \<forall>x \<in> keys t. \<not> x < k" by simp_all
qed

lemma krb_next:
  assumes "krb_laws ops keys"
  shows "rb_next ops t k = Some n \<Longrightarrow> n \<in> keys t \<and> k < n \<and> (\<forall>x \<in> keys t. k < x \<longrightarrow> n \<le> x)"
    and "rb_next ops t k = None \<Longrightarrow> \<forall>x \<in> keys t. \<not> k < x"
proof -
  have "case rb_next ops t k of None \<Rightarrow> \<forall>x \<in> keys t. \<not> k < x
      | Some n \<Rightarrow> n \<in> keys t \<and> k < n \<and> (\<forall>x \<in> keys t. k < x \<longrightarrow> n \<le> x)"
    using assms unfolding krb_laws_def by blast
  then show "rb_next ops t k = Some n \<Longrightarrow> n \<in> keys t \<and> k < n \<and> (\<forall>x \<in> keys t. k < x \<longrightarrow> n \<le> x)"
    and "rb_next ops t k = None \<Longrightarrow> \<forall>x \<in> keys t. \<not> k < x" by simp_all
qed

text \<open>The two stages of an insertion after the node is in the tree.\<close>

definition put :: "'t krb_ops \<Rightarrow> ip_addr \<Rightarrow> ip_addr \<Rightarrow> 'd \<Rightarrow> ('t, 'd) ipmap \<Rightarrow> ('t, 'd) ipmap" where
  "put ops mn mx d m = m\<lparr>ip_tree := fst (rb_insert ops (ip_tree m) mn), ranges := (ranges m)(mn \<mapsto> (mx, d))\<rparr>"

definition cut_prev ::
  "'t krb_ops \<Rightarrow> ip_addr \<Rightarrow> ip_addr \<Rightarrow> ('t, 'd) ipmap \<Rightarrow> ('t, 'd) ipmap option" where
  "cut_prev ops mn mx m1 =
     (case rb_prev ops (ip_tree m1) mn of
        None \<Rightarrow> Some m1
      | Some p \<Rightarrow> do {
          (pmx, pd) \<leftarrow> ranges m1 p;
          if mx < pmx then do {
            (_, m') \<leftarrow> add_range_addr ops (addr_add mx 1) pmx pd (set_max p (addr_sub mn 1) m1);
            Some m' }
          else if mn \<le> pmx then Some (set_max p (addr_sub mn 1) m1)
          else Some m1 })"

definition cut_next ::
  "'t krb_ops \<Rightarrow> ip_addr \<Rightarrow> ip_addr \<Rightarrow> 'd \<Rightarrow> ('t, 'd) ipmap \<Rightarrow> ('t, 'd) ipmap option" where
  "cut_next ops mn mx d m2 =
     (case rb_next ops (ip_tree m2) mn of
        None \<Rightarrow> Some m2
      | Some n \<Rightarrow> do {
          (nmx, nd) \<leftarrow> ranges m2 n;
          if nmx < mx then do {
            (_, m') \<leftarrow> add_range_addr ops (addr_add nmx 1) mx d (set_max mn (addr_sub n 1) m2);
            Some m' }
          else if n \<le> mx then Some (set_max mn (addr_sub n 1) m2)
          else Some m2 })"

lemma add_range_refused:
  assumes "krb_laws ops keys" "mx < mn \<or> mn \<in> keys (ip_tree m)"
  shows "add_range_addr ops mn mx d m = Some (False, m)"
  using assms krb_insert [OF assms(1), of "ip_tree m" mn]
  by (subst add_range_addr.simps) (auto simp: less_key split: prod.splits)

lemma add_range_stages:
  assumes "krb_laws ops keys" "mn \<le> mx" "mn \<notin> keys (ip_tree m)"
  shows "add_range_addr ops mn mx d m =
    do { m2 \<leftarrow> cut_prev ops mn mx (put ops mn mx d m); m3 \<leftarrow> cut_next ops mn mx d m2; Some (True, m3) }"
proof -
  obtain t where t: "rb_insert ops (ip_tree m) mn = (t, True)"
    using krb_insert [OF assms(1), of "ip_tree m" mn] assms(3) by (cases "rb_insert ops (ip_tree m) mn") auto
  have p: "put ops mn mx d m = m\<lparr>ip_tree := t, ranges := (ranges m)(mn \<mapsto> (mx, d))\<rparr>"
    by (simp add: put_def t)
  have cmp: "ip_addr_cmp x y > 0 \<longleftrightarrow> y < x" "ip_addr_cmp x y \<ge> 0 \<longleftrightarrow> y \<le> x" for x y
    by (simp_all add: less_key le_key)
  note step = add_range_addr.simps [of ops mn mx d m, unfolded cmp t prod.case Let_def]
  have "\<not> mx < mn" using assms(2) by simp
  then show ?thesis using step unfolding cut_prev_def cut_next_def p by simp
qed

lemma put_sel:
  assumes "krb_laws ops keys"
  shows "keys (ip_tree (put ops mn mx d m)) = insert mn (keys (ip_tree m))"
    and "ranges (put ops mn mx d m) = (ranges m)(mn \<mapsto> (mx, d))"
  by (simp_all add: put_def krb_insert [OF assms])

lemma set_max_sel [simp]:
  "ip_tree (set_max k mx m) = ip_tree m"
  "ranges m k = Some (old, d) \<Longrightarrow> ranges (set_max k mx m) = (ranges m)(k \<mapsto> (mx, d))"
  by (simp_all add: set_max_def)

text \<open>The map after a range that overlaps no other has been put in.\<close>

lemma map_wf_put:
  assumes laws: "krb_laws ops keys" and wf: "map_wf keys m" and r: "mn \<le> mx" "addr_bits mn = addr_bits mx"
    and new: "mn \<notin> keys (ip_tree m)"
    and before: "\<And>k kmx kd. ranges m k = Some (kmx, kd) \<Longrightarrow> k < mn \<Longrightarrow> kmx < mn"
    and after: "\<And>k. k \<in> keys (ip_tree m) \<Longrightarrow> mn < k \<Longrightarrow> mx < k"
  shows "map_wf keys (put ops mn mx d m)"
  unfolding map_wf_def put_sel [OF laws]
proof (intro conjI allI impI)
  have dom: "dom (ranges m) = keys (ip_tree m)" using wf by (simp add: map_wf_def)
  then show "dom ((ranges m)(mn \<mapsto> (mx, d))) = insert mn (keys (ip_tree m))" by simp
  fix k kmx kd
  assume k: "((ranges m)(mn \<mapsto> (mx, d))) k = Some (kmx, kd)"
  show "k \<le> kmx" "addr_bits k = addr_bits kmx"
    using k r map_wfD [OF wf] by (auto split: if_splits)
  fix k' assume k': "k' \<in> dom ((ranges m)(mn \<mapsto> (mx, d)))" "k < k'"
  show "kmx < k'"
  proof (cases "k = mn")
    case True
    then show ?thesis using k k' after dom by auto
  next
    case False
    then have "ranges m k = Some (kmx, kd)" using k by simp
    then show ?thesis using k' before map_wfD(3) [OF wf] by (cases "k' = mn") auto
  qed
qed

lemma covers_put:
  assumes "krb_laws ops keys" "map_wf keys m" "mn \<notin> keys (ip_tree m)"
  shows "covers (put ops mn mx d m) k x e \<longleftrightarrow> (if k = mn then e = d \<and> mn \<le> x \<and> x \<le> mx else covers m k x e)"
  by (auto simp: covers_def put_sel [OF assms(1)])

text \<open>Cutting a range at its upper end.\<close>

lemma map_wf_set_max:
  assumes "map_wf keys m" "ranges m k = Some (old, d)" "k \<le> mx" "mx \<le> old" "addr_bits k = addr_bits mx"
  shows "map_wf keys (set_max k mx m)"
  unfolding map_wf_def set_max_sel(1) set_max_sel(2) [OF assms(2)]
proof (intro conjI allI impI)
  show "dom ((ranges m)(k \<mapsto> (mx, d))) = keys (ip_tree m)"
    using assms(1,2) by (auto simp: map_wf_def)
  fix j jmx jd assume j: "((ranges m)(k \<mapsto> (mx, d))) j = Some (jmx, jd)"
  show "j \<le> jmx" "addr_bits j = addr_bits jmx" using j assms map_wfD [OF assms(1)] by (auto split: if_splits)
  fix k' assume "k' \<in> dom ((ranges m)(k \<mapsto> (mx, d)))" "j < k'"
  then have "k' \<in> dom (ranges m)" using assms(2) by auto
  then show "jmx < k'"
    using j assms(2,4) \<open>j < k'\<close> map_wfD(3) [OF assms(1), of j _ _ k']
    by (cases "j = k") (auto intro: order_le_less_trans)
qed

lemma covers_set_max:
  assumes "ranges m k = Some (old, d)"
  shows "covers (set_max k mx m) j x e \<longleftrightarrow> (if j = k then e = d \<and> k \<le> x \<and> x \<le> mx else covers m j x e)"
  by (auto simp: covers_def set_max_sel(2) [OF assms])

text \<open>
  What adding \<open>mn..mx\<close> with value \<open>d\<close> to a map that covers nothing at \<open>mn\<close> does: the map is as before
  outside the range and where it had a value inside; the gaps in the range are filled with \<open>d\<close>, all of
  them unless two ranges inside it touch.
\<close>

definition touching :: "('t \<Rightarrow> ip_addr set) \<Rightarrow> ip_addr \<Rightarrow> ip_addr \<Rightarrow> ('t, 'd) ipmap \<Rightarrow> bool" where
  "touching keys mn mx m \<longleftrightarrow>
     (\<exists>k kmx kd. ranges m k = Some (kmx, kd) \<and> mn < k \<and> kmx < mx \<and> addr_add kmx 1 \<in> keys (ip_tree m))"

definition look :: "('t, 'd) ipmap \<Rightarrow> ip_addr \<Rightarrow> 'd \<Rightarrow> bool" where
  "look m x e \<longleftrightarrow> (\<exists>k. covers m k x e)"

definition covered :: "('t, 'd) ipmap \<Rightarrow> ip_addr \<Rightarrow> bool" where
  "covered m x \<longleftrightarrow> (\<exists>e. look m x e)"

definition filled ::
  "('t \<Rightarrow> ip_addr set) \<Rightarrow> ip_addr \<Rightarrow> ip_addr \<Rightarrow> 'd \<Rightarrow> ('t, 'd) ipmap \<Rightarrow> ('t, 'd) ipmap \<Rightarrow> bool" where
  "filled keys mn mx d m m' \<longleftrightarrow> map_wf keys m' \<and>
     (\<forall>x e. covered m x \<or> \<not> (mn \<le> x \<and> x \<le> mx) \<longrightarrow> look m' x e = look m x e) \<and>
     (\<forall>x e. \<not> covered m x \<longrightarrow> mn \<le> x \<longrightarrow> x \<le> mx \<longrightarrow> look m' x e \<longrightarrow> e = d) \<and>
     (\<not> touching keys mn mx m \<longrightarrow> (\<forall>x. \<not> covered m x \<longrightarrow> mn \<le> x \<longrightarrow> x \<le> mx \<longrightarrow> look m' x d))"

lemma look_put:
  assumes "krb_laws ops keys" "map_wf keys m" "mn \<notin> keys (ip_tree m)" and wf: "map_wf keys (put ops mn mx d m)"
  shows "look (put ops mn mx d m) x e = (if mn \<le> x \<and> x \<le> mx then e = d else look m x e)"
proof -
  have nk: "\<not> covers m mn y f" for y f
    using assms(2,3) by (auto simp: covers_def map_wf_def)
  show ?thesis
  proof (cases "mn \<le> x \<and> x \<le> mx")
    case True
    then have c: "covers (put ops mn mx d m) mn x d" by (simp add: covers_put [OF assms(1-3)])
    then show ?thesis
      using True covers_unique [OF wf c] covers_put [OF assms(1-3)] unfolding look_def by metis
  next
    case False
    then show ?thesis using nk unfolding look_def covers_put [OF assms(1-3)] by metis
  qed
qed

lemma look_put_free:
  assumes "krb_laws ops keys" "map_wf keys m" "mn \<notin> keys (ip_tree m)" "map_wf keys (put ops mn mx d m)"
    and "mn \<le> x" "x \<le> mx"
  shows "\<not> covered m x"
proof
  assume "covered m x"
  then obtain k e where k: "covers m k x e" by (auto simp: covered_def look_def)
  then have ne: "k \<noteq> mn" using assms(2,3) by (auto simp: covers_def map_wf_def)
  have "covers (put ops mn mx d m) mn x d" "covers (put ops mn mx d m) k x e"
    using k ne assms(5,6) by (simp_all add: covers_put [OF assms(1-3)])
  from covers_unique [OF assms(4) this] ne show False by simp
qed

lemma set_max_put: "set_max mn q (put ops mn mx d m) = put ops mn q d m"
  by (simp add: set_max_def put_def)

lemma cut_prev_none:
  assumes laws: "krb_laws ops keys" and wf: "map_wf keys m" and r: "mn \<le> mx"
    and before: "\<And>k kmx kd. ranges m k = Some (kmx, kd) \<Longrightarrow> k < mn \<Longrightarrow> kmx < mn"
  shows "cut_prev ops mn mx (put ops mn mx d m) = Some (put ops mn mx d m)"
proof (cases "rb_prev ops (ip_tree (put ops mn mx d m)) mn")
  case None
  then show ?thesis by (simp add: cut_prev_def)
next
  case (Some p)
  from krb_prev(1) [OF laws this] have p: "p \<in> keys (ip_tree m)" "p < mn" by (auto simp: put_sel [OF laws])
  then obtain pmx pd where pr: "ranges m p = Some (pmx, pd)"
    using wf by (metis domD map_wf_def surj_pair)
  then have "pmx < mn" using before p by blast
  then have "\<not> mx < pmx" "\<not> mn \<le> pmx" using r by auto
  then show ?thesis using Some pr p by (simp add: cut_prev_def put_sel [OF laws])
qed

lemma card_gap_less:
  assumes "krb_laws ops keys" "n \<in> K" "mn < n" "n \<le> mx" "K' \<subseteq> insert mn K" "n \<le> mn'" "K = keys t"
  shows "card {k \<in> K'. mn' < k \<and> k \<le> mx} < card {k \<in> K. mn < k \<and> k \<le> mx}"
proof (rule psubset_card_mono)
  show "finite {k \<in> K. mn < k \<and> k \<le> mx}" using assms(1,7) by (simp add: krb_laws_def)
  have "{k \<in> K'. mn' < k \<and> k \<le> mx} \<subseteq> {k \<in> K. mn < k \<and> k \<le> mx}"
    using assms by auto
  moreover have "n \<in> {k \<in> K. mn < k \<and> k \<le> mx}" "n \<notin> {k \<in> K'. mn' < k \<and> k \<le> mx}"
    using assms by auto
  ultimately show "{k \<in> K'. mn' < k \<and> k \<le> mx} \<subset> {k \<in> K. mn < k \<and> k \<le> mx}" by blast
qed

lemma filled_put:
  assumes "krb_laws ops keys" "map_wf keys m" "mn \<notin> keys (ip_tree m)" and wf: "map_wf keys (put ops mn q d m)"
    and "\<And>x. q < x \<Longrightarrow> x \<le> mx \<Longrightarrow> \<not> covered m x \<Longrightarrow> touching keys mn mx m" "q \<le> mx"
  shows "filled keys mn mx d m (put ops mn q d m)"
  unfolding filled_def look_put [OF assms(1-4)]
proof (intro conjI allI impI)
  fix x e
  assume "covered m x \<or> \<not> (mn \<le> x \<and> x \<le> mx)"
  then have "\<not> (mn \<le> x \<and> x \<le> q)" using look_put_free [OF assms(1-4)] assms(6) by (meson order_trans)
  then show "(if mn \<le> x \<and> x \<le> q then e = d else look m x e) = look m x e" by auto
next
  fix x e
  assume "\<not> covered m x" "if mn \<le> x \<and> x \<le> q then e = d else look m x e"
  then show "e = d" by (auto simp: covered_def split: if_splits)
next
  fix x
  assume "\<not> touching keys mn mx m" "\<not> covered m x" "mn \<le> x" "x \<le> mx"
  then show "if mn \<le> x \<and> x \<le> q then d = d else look m x d" using assms(5) [of x] by fastforce
qed (rule wf)

text \<open>What the rest of a range, inserted behind a kept one, does to the whole.\<close>

lemma filled_rest:
  assumes laws: "krb_laws ops keys" and wf: "map_wf keys m" and new: "mn \<notin> keys (ip_tree m)"
    and wf2: "map_wf keys (put ops mn q d m)"
    and n: "ranges m n = Some (nmx, nd)" "mn < n" "nmx < mx"
    and fam: "addr_bits mn = addr_bits mx"
    and q: "\<And>z. z \<le> q \<longleftrightarrow> z < n" and mn': "\<And>z. z < mn' \<longleftrightarrow> z \<le> nmx"
    and f: "filled keys mn' mx d (put ops mn q d m) m'"
  shows "filled keys mn mx d m m'"
proof -
  note lk = look_put [OF laws wf new wf2]
  have nn: "n \<le> nmx" by (rule map_wfD(1) [OF wf n(1)])
  have "n < mn'" using mn' nn by blast
  then have le: "n \<le> mn'" "mn < mn'" using n(2) by auto
  have cov2: "covered (put ops mn q d m) x \<longleftrightarrow> mn \<le> x \<and> x < n \<or> covered m x" for x
    using q by (auto simp: covered_def lk)
  have free: "\<not> covered m x" if "mn \<le> x" "x < n" for x
    using look_put_free [OF laws wf new wf2] q that by blast
  have mid: "covered m x" if "n \<le> x" "x \<le> nmx" for x
    using n(1) that by (auto simp: covered_def look_def covers_def)
  have F: "look m' x e = look (put ops mn q d m) x e"
    if "covered (put ops mn q d m) x \<or> \<not> (mn' \<le> x \<and> x \<le> mx)" for x e
    using f that unfolding filled_def by blast
  show ?thesis
    unfolding filled_def
  proof (intro conjI allI impI)
    show "map_wf keys m'" using f by (simp add: filled_def)
  next
    fix x e assume x: "covered m x \<or> \<not> (mn \<le> x \<and> x \<le> mx)"
    then have "\<not> (mn \<le> x \<and> x < n)" using free n(3) nn by (meson order_less_imp_le order_less_le_trans order_trans)
    then have l: "look (put ops mn q d m) x e = look m x e" using q lk by auto
    have "covered (put ops mn q d m) x \<or> \<not> (mn' \<le> x \<and> x \<le> mx)"
      using x cov2 le by (meson order_less_imp_le order_trans)
    then show "look m' x e = look m x e" using F l by simp
  next
    fix x e assume x: "\<not> covered m x" "mn \<le> x" "x \<le> mx" "look m' x e"
    show "e = d"
    proof (cases "x < n")
      case True
      then have "look (put ops mn q d m) x e" using F x cov2 by blast
      then show ?thesis using True q x(2) lk by auto
    next
      case False
      then have "mn' \<le> x" using mid x(1) mn' by (meson leI)
      then show ?thesis using f x cov2 False unfolding filled_def by blast
    qed
  next
    fix x assume t: "\<not> touching keys mn mx m" and x: "\<not> covered m x" "mn \<le> x" "x \<le> mx"
    show "look m' x d"
    proof (cases "x < n")
      case True
      then have "look (put ops mn q d m) x d" using q x(2) lk by auto
      then show ?thesis using F cov2 True x(2) by blast
    next
      case False
      then have "mn' \<le> x" using mid x(1) mn' by (meson leI)
      moreover have "\<not> touching keys mn' mx (put ops mn q d m)"
      proof
        assume "touching keys mn' mx (put ops mn q d m)"
        then obtain k kmx kd where k: "((ranges m)(mn \<mapsto> (q, d))) k = Some (kmx, kd)" "mn' < k" "kmx < mx"
          "addr_add kmx 1 \<in> insert mn (keys (ip_tree m))"
          unfolding touching_def put_sel [OF laws] by blast
        then have kr: "ranges m k = Some (kmx, kd)" "mn < k" using le by (auto split: if_splits)
        have km: "k \<le> kmx" "addr_bits k = addr_bits kmx" using map_wfD [OF wf kr(1)] by auto
        have "addr_add kmx 1 \<noteq> mn"
        proof
          assume e: "addr_add kmx 1 = mn"
          have "addr_bits kmx = addr_bits mx"
            using family_between [of mn kmx mx] fam kr(2) km(1) k(3) by auto
          from less_succ [OF k(3) this, of mn] e have "kmx < mn" by auto
          with km kr show False by auto
        qed
        then show False using t k kr unfolding touching_def by blast
      qed
      ultimately show ?thesis using f x cov2 False unfolding filled_def by blast
    qed
  qed
qed

lemma cut_next_none:
  assumes laws: "krb_laws ops keys" and wf: "map_wf keys m"
    and after: "\<And>k. k \<in> keys (ip_tree m) \<Longrightarrow> mn < k \<Longrightarrow> mx < k"
  shows "cut_next ops mn mx d m = Some m"
proof (cases "rb_next ops (ip_tree m) mn")
  case (Some n)
  from krb_next(1) [OF laws this] have n: "n \<in> keys (ip_tree m)" "mn < n" by auto
  then obtain nmx nd where r: "ranges m n = Some (nmx, nd)" using wf by (metis domD map_wf_def surj_pair)
  have "mx < n" "n \<le> nmx" using after n map_wfD(1) [OF wf r] by auto
  then have "\<not> nmx < mx" "\<not> n \<le> mx" by auto
  then show ?thesis using Some r n by (simp add: cut_next_def)
qed (simp add: cut_next_def)

lemma add_range_free:
  assumes laws: "krb_laws ops keys" and wf: "map_wf keys m" and le: "mn \<le> mx" and new: "mn \<notin> keys (ip_tree m)"
    and before: "\<And>k kmx kd. ranges m k = Some (kmx, kd) \<Longrightarrow> k < mn \<Longrightarrow> kmx < mn"
    and after: "\<And>k. k \<in> keys (ip_tree m) \<Longrightarrow> mn < k \<Longrightarrow> mx < k"
    and fam: "addr_bits mn = addr_bits mx"
  shows "add_range_addr ops mn mx d m = Some (True, put ops mn mx d m)"
proof -
  have "map_wf keys (put ops mn mx d m)" by (rule map_wf_put [OF laws wf le fam new before after])
  then have "cut_next ops mn mx d (put ops mn mx d m) = Some (put ops mn mx d m)"
    using after by (intro cut_next_none [OF laws]) (auto simp: put_sel [OF laws])
  then show ?thesis
    using add_range_stages [OF laws le new] cut_prev_none [OF laws wf le before] by simp
qed

lemma add_range_fills:
  assumes laws: "krb_laws ops keys"
  shows "map_wf keys m \<Longrightarrow> mn \<le> mx \<Longrightarrow> addr_bits mn = addr_bits mx \<Longrightarrow> mn \<notin> keys (ip_tree m) \<Longrightarrow>
    (\<And>k kmx kd. ranges m k = Some (kmx, kd) \<Longrightarrow> k < mn \<Longrightarrow> kmx < mn) \<Longrightarrow>
    \<exists>m'. add_range_addr ops mn mx d m = Some (True, m') \<and> filled keys mn mx d m m'"
proof (induction "card {k \<in> keys (ip_tree m). mn < k \<and> k \<le> mx}" arbitrary: m mn rule: less_induct)
  case less
  note wf = less.prems(1) and le = less.prems(2) and fam = less.prems(3) and new = less.prems(4)
    and before = less.prems(5)
  let ?K = "keys (ip_tree m)" and ?m1 = "put ops mn mx d m"
  have dom: "\<exists>kmx kd. ranges m k = Some (kmx, kd)" if "k \<in> ?K" for k
    using wf that by (metis domD map_wf_def surj_pair)
  have stages: "add_range_addr ops mn mx d m =
      do { m3 \<leftarrow> cut_next ops mn mx d ?m1; Some (True, m3) }"
    unfolding add_range_stages [OF laws le new]
    using cut_prev_none [OF laws wf le before] by simp
  have wf_cut: "map_wf keys (put ops mn q d m)"
    if "mn \<le> q" "addr_bits mn = addr_bits q" "\<And>k. k \<in> ?K \<Longrightarrow> mn < k \<Longrightarrow> q < k" for q
    using map_wf_put [OF laws wf that(1,2) new before that(3)] .
  show ?case
  proof (cases "\<exists>k \<in> ?K. mn < k \<and> k \<le> mx")
    case False
    then have after: "k \<in> ?K \<Longrightarrow> mn < k \<Longrightarrow> mx < k" for k by auto
    have "add_range_addr ops mn mx d m = Some (True, ?m1)"
      by (rule add_range_free [OF laws wf le new before after fam])
    moreover have "filled keys mn mx d m ?m1"
      using wf_cut [OF le fam after] by (intro filled_put [OF laws wf new]) auto
    ultimately show ?thesis by simp
  next
    case True
    then obtain k0 where k0: "k0 \<in> ?K" "mn < k0" "k0 \<le> mx" by blast
    obtain n where nx: "rb_next ops (ip_tree ?m1) mn = Some n"
      using krb_next(2) [OF laws, of "ip_tree ?m1" mn] k0 by (cases "rb_next ops (ip_tree ?m1) mn") (auto simp: put_sel [OF laws])
    from krb_next(1) [OF laws this] have n: "n \<in> ?K" "mn < n" "\<And>k. k \<in> ?K \<Longrightarrow> mn < k \<Longrightarrow> n \<le> k"
      by (auto simp: put_sel [OF laws])
    have nmx': "n \<le> mx" using n(3) [OF k0(1,2)] k0(3) by simp
    obtain nmx nd where r: "ranges m n = Some (nmx, nd)" using dom [OF n(1)] by blast
    have r1: "ranges ?m1 n = Some (nmx, nd)" using r n(2) by (auto simp: put_sel [OF laws])
    have nf: "addr_bits mn = addr_bits n" using family_between [of mn n mx] n(2) nmx' fam by simp
    let ?q = "addr_sub n 1"
    have q: "z \<le> ?q \<longleftrightarrow> z < n" for z by (rule le_pred [OF n(2) nf])
    have wfq: "map_wf keys (put ops mn ?q d m)"
      using q n key_sub(2) [OF n(2) nf] nf by (intro wf_cut) (auto simp: pred_less [OF n(2) nf])
    show ?thesis
    proof (cases "nmx < mx")
      case False
      then have "cut_next ops mn mx d ?m1 = Some (put ops mn ?q d m)"
        using nx r1 nmx' by (simp add: cut_next_def set_max_put)
      moreover have "filled keys mn mx d m (put ops mn ?q d m)"
      proof (rule filled_put [OF laws wf new wfq])
        fix x assume "?q < x" "x \<le> mx" "\<not> covered m x"
        moreover have "n \<le> x" using \<open>?q < x\<close> q by (meson leI leD)
        ultimately show "touching keys mn mx m"
          using r False unfolding covered_def look_def covers_def by (meson leI order_trans)
      qed (use q nmx' in \<open>meson leD leI order_trans order_less_imp_le\<close>)
      ultimately show ?thesis using stages by simp
    next
      case nlt: True
      let ?mn = "addr_add nmx 1" and ?m2 = "put ops mn ?q d m"
      have nn: "n \<le> nmx" by (rule map_wfD(1) [OF wf r])
      have nmf: "addr_bits nmx = addr_bits mx" using map_wfD(2) [OF wf r] nf fam by simp
      have sl: "z < ?mn \<longleftrightarrow> z \<le> nmx" for z by (rule less_succ [OF nlt nmf])
      have K2: "keys (ip_tree ?m2) = insert mn ?K" by (rule put_sel [OF laws])
      have nq: "cut_next ops mn mx d ?m1 = map_option snd (add_range_addr ops ?mn mx d ?m2)"
        using nx r1 nlt by (auto simp: cut_next_def set_max_put map_option_case split: option.splits)
      show ?thesis
      proof (cases "?mn \<in> insert mn ?K")
        case True
        have "mn < ?mn" using sl n(2) nn by (meson order_less_imp_le order_less_le_trans)
        then have t: "touching keys mn mx m" using True r n(2) nlt unfolding touching_def by blast
        have "add_range_addr ops ?mn mx d ?m2 = Some (False, ?m2)"
          using True K2 by (intro add_range_refused [OF laws]) auto
        moreover have "filled keys mn mx d m ?m2"
          using t q nmx' by (intro filled_put [OF laws wf new wfq]) (auto intro: order_trans order_less_imp_le)
        ultimately show ?thesis using stages nq by simp
      next
        case False
        have "\<exists>m'. add_range_addr ops ?mn mx d ?m2 = Some (True, m') \<and> filled keys ?mn mx d ?m2 m'"
        proof (rule less.hyps [OF _ wfq])
          show "card {k \<in> keys (ip_tree ?m2). ?mn < k \<and> k \<le> mx} < card {k \<in> ?K. mn < k \<and> k \<le> mx}"
            using sl [of n] nn K2 n nmx' by (intro card_gap_less [OF laws, of n _ mn mx _ ?mn "ip_tree m"]) auto
          show "?mn \<le> mx" using succ_le [OF nlt nmf] nlt by simp
          show "addr_bits ?mn = addr_bits mx" using key_add(2) [OF nlt nmf] nmf by simp
          show "?mn \<notin> keys (ip_tree ?m2)" using False K2 by simp
          fix k kmx kd assume k: "ranges ?m2 k = Some (kmx, kd)" "k < ?mn"
          show "kmx < ?mn"
          proof (cases "k = mn")
            case True
            then have "kmx = ?q" using k(1) by (simp add: put_sel [OF laws])
            then show ?thesis using q sl nn by (metis order_less_imp_le order_less_le_trans order_refl)
          next
            case False
            then have kr: "ranges m k = Some (kmx, kd)" using k(1) by (simp add: put_sel [OF laws])
            have "k \<le> n" using map_wfD(3) [OF wf r] kr k(2) sl by (meson domI leI leD)
            then have "kmx \<le> nmx"
            proof (cases "k = n")
              case True
              then show ?thesis using r kr by simp
            next
              case False
              then have "kmx < n" using map_wf_disjoint [OF wf kr r] \<open>k \<le> n\<close> by simp
              then show ?thesis using nn by simp
            qed
            then show ?thesis using sl by simp
          qed
        qed
        then obtain m' where m': "add_range_addr ops ?mn mx d ?m2 = Some (True, m')" "filled keys ?mn mx d ?m2 m'"
          by blast
        have "filled keys mn mx d m m'"
          by (rule filled_rest [OF laws wf new wfq r n(2) nlt fam q sl m'(2)])
        then show ?thesis using stages nq m'(1) by simp
      qed
    qed
  qed
qed

text \<open>
  A range that covers the lower end of the new one: it is cut in front of it, and when it sticks out
  behind, its end is inserted again.
\<close>

lemma add_range_trim:
  assumes laws: "krb_laws ops keys" and wf: "map_wf keys m" and le: "mn \<le> mx" and new: "mn \<notin> keys (ip_tree m)"
    and fam: "addr_bits mn = addr_bits mx"
    and p: "ranges m p = Some (pmx, pd)" "p < mn" "mn \<le> pmx" "pmx \<le> mx"
  shows "add_range_addr ops mn mx d m = add_range_addr ops mn mx d (set_max p (addr_sub mn 1) m)"
    and "map_wf keys (set_max p (addr_sub mn 1) m)"
    and "\<And>k kmx kd. ranges (set_max p (addr_sub mn 1) m) k = Some (kmx, kd) \<Longrightarrow> k < mn \<Longrightarrow> kmx < mn"
proof -
  let ?mt = "set_max p (addr_sub mn 1) m"
  have pf: "addr_bits p = addr_bits mn" using family_between [of p mn pmx] p map_wfD(2) [OF wf p(1)] by simp
  note pr = le_pred [OF p(2) pf] and pb = key_sub(2) [OF p(2) pf]
  have pl: "addr_sub mn 1 < mn" using pred_less [OF p(2) pf, of mn] by simp
  have pk: "p \<in> keys (ip_tree m)" by (rule map_wfD(4) [OF wf p(1)])
  have prev_p: "rb_prev ops t mn = Some p" if "keys t = insert mn (keys (ip_tree m))" for t
  proof (cases "rb_prev ops t mn")
    case None
    then show ?thesis using krb_prev(2) [OF laws None] that pk p(2) by auto
  next
    case (Some p')
    with krb_prev(1) [OF laws Some] that pk p(2) have "p' \<in> keys (ip_tree m)" "p' < mn" "p \<le> p'" by auto
    moreover have "\<not> p < p'"
    proof
      assume "p < p'"
      moreover have "p' \<in> dom (ranges m)" using \<open>p' \<in> keys (ip_tree m)\<close> wf by (simp add: map_wf_def)
      ultimately show False using map_wfD(3) [OF wf p(1)] \<open>p' < mn\<close> p(3) by fastforce
    qed
    ultimately show ?thesis using Some by simp
  qed
  have ne: "p \<noteq> mn" using p(2) by auto
  have put: "set_max p (addr_sub mn 1) (put ops mn mx d m) = put ops mn mx d ?mt"
    using ne by (simp add: set_max_def put_def fun_upd_twist)
  show wft: "map_wf keys ?mt"
    using pr p pb pf by (intro map_wf_set_max [OF wf p(1)]) (auto intro: order_less_imp_le order_less_le_trans pl)
  show before: "\<And>k kmx kd. ranges ?mt k = Some (kmx, kd) \<Longrightarrow> k < mn \<Longrightarrow> kmx < mn"
  proof -
    fix k kmx kd assume k: "ranges ?mt k = Some (kmx, kd)" "k < mn"
    show "kmx < mn"
    proof (cases "k = p")
      case True
      then show ?thesis using k(1) pl by (simp add: set_max_sel(2) [OF p(1)])
    next
      case False
      then have kr: "ranges m k = Some (kmx, kd)" using k(1) by (simp add: set_max_sel(2) [OF p(1)])
      have "k < p"
      proof (rule ccontr)
        assume "\<not> k < p"
        then have "p < k" using False by auto
        then show False using map_wf_disjoint [OF wf p(1) kr] k(2) p(3) by fastforce
      qed
      then show ?thesis using map_wf_disjoint [OF wf kr p(1)] p(2) by auto
    qed
  qed
  have "cut_prev ops mn mx (put ops mn mx d m) = Some (put ops mn mx d ?mt)"
    using prev_p p ne by (simp add: cut_prev_def put_sel [OF laws] put [symmetric] leD)
  moreover have "cut_prev ops mn mx (put ops mn mx d ?mt) = Some (put ops mn mx d ?mt)"
    by (rule cut_prev_none [OF laws wft le before])
  ultimately show "add_range_addr ops mn mx d m = add_range_addr ops mn mx d ?mt"
    using add_range_stages [OF laws le new] add_range_stages [OF laws le, of ?mt] new by simp
qed

lemma look_trim:
  assumes wf: "map_wf keys m" and p: "ranges m p = Some (pmx, pd)" "p < mn" "mn \<le> pmx"
  shows "look (set_max p (addr_sub mn 1) m) x e \<longleftrightarrow> look m x e \<and> \<not> (mn \<le> x \<and> x \<le> pmx)"
proof -
  have pf: "addr_bits p = addr_bits mn" using family_between [of p mn pmx] p map_wfD(2) [OF wf p(1)] by simp
  note pr = le_pred [OF p(2) pf]
  have c: "covers (set_max p (addr_sub mn 1) m) k x e \<longleftrightarrow>
      (if k = p then e = pd \<and> p \<le> x \<and> x < mn else covers m k x e)" for k
    by (simp add: covers_set_max [OF p(1)] pr)
  have cp: "covers m p x f \<longleftrightarrow> f = pd \<and> p \<le> x \<and> x \<le> pmx" for f
    using p(1) by (auto simp: covers_def)
  show ?thesis
  proof
    assume "look (set_max p (addr_sub mn 1) m) x e"
    then obtain k where k: "if k = p then e = pd \<and> p \<le> x \<and> x < mn else covers m k x e"
      by (auto simp: look_def c)
    show "look m x e \<and> \<not> (mn \<le> x \<and> x \<le> pmx)"
    proof (cases "k = p")
      case True
      with k p(3) show ?thesis by (auto simp: look_def intro!: exI [of _ p] simp: cp)
    next
      case False
      with k have ck: "covers m k x e" by simp
      moreover have "\<not> (mn \<le> x \<and> x \<le> pmx)"
        using covers_unique [OF wf ck, of p pd] False p(2) cp by (auto dest: order_less_imp_le order_trans)
      ultimately show ?thesis by (auto simp: look_def)
    qed
  next
    assume a: "look m x e \<and> \<not> (mn \<le> x \<and> x \<le> pmx)"
    then obtain k where k: "covers m k x e" by (auto simp: look_def)
    have "k = p \<longrightarrow> x < mn" using a k cp by auto
    with k show "look (set_max p (addr_sub mn 1) m) x e"
      unfolding look_def c by (intro exI [of _ k]) (auto simp: cp)
  qed
qed

lemma add_range_inside:
  assumes laws: "krb_laws ops keys" and wf: "map_wf keys m" and le: "mn \<le> mx" and new: "mn \<notin> keys (ip_tree m)"
    and fam: "addr_bits mn = addr_bits mx"
    and p: "ranges m p = Some (pmx, pd)" "p < mn" "mx < pmx"
  shows "\<exists>m'. add_range_addr ops mn mx d m = Some (True, m') \<and> map_wf keys m' \<and>
    (\<forall>x e. look m' x e = (if mn \<le> x \<and> x \<le> mx then e = d else look m x e))"
proof -
  let ?mt = "set_max p (addr_sub mn 1) m" and ?s = "addr_add mx 1"
  let ?m1 = "put ops mn mx d ?mt"
  let ?m2 = "put ops ?s pmx pd ?m1"
  have p3: "mn \<le> pmx" using le p(3) by simp
  have pf: "addr_bits p = addr_bits mn" using family_between [of p mn pmx] p p3 map_wfD(2) [OF wf p(1)] by simp
  have mf: "addr_bits mx = addr_bits pmx" using pf fam map_wfD(2) [OF wf p(1)] by simp
  have pl: "addr_sub mn 1 < mn" using pred_less [OF p(2) pf, of mn] by simp
  note sl = less_succ [OF p(3) mf] and sle = succ_le [OF p(3) mf]
  have far: "pmx < k" if "k \<in> keys (ip_tree m)" "p < k" for k
    using wf that map_wfD(3) [OF wf p(1), of k] by (simp add: map_wf_def)
  have wft: "map_wf keys ?mt"
    using le_pred [OF p(2) pf] p pf key_sub(2) [OF p(2) pf] p3
    by (intro map_wf_set_max [OF wf p(1)]) (auto intro: order_less_imp_le order_less_le_trans pl)
  have beforet: "kmx < mn" if k: "ranges ?mt k = Some (kmx, kd)" "k < mn" for k kmx kd
  proof (cases "k = p")
    case True
    then show ?thesis using k(1) pl by (simp add: set_max_sel(2) [OF p(1)])
  next
    case False
    then have kr: "ranges m k = Some (kmx, kd)" using k(1) by (simp add: set_max_sel(2) [OF p(1)])
    have "k < p" using far [of k] map_wfD(4) [OF wf kr] False k(2) p3 by (meson leD linorder_cases order_trans order_less_imp_le)
    then show ?thesis using map_wf_disjoint [OF wf kr p(1)] p(2) by auto
  qed
  have newt: "mn \<notin> keys (ip_tree ?mt)" using new by simp
  have aftert: "mx < k" if "k \<in> keys (ip_tree ?mt)" "mn < k" for k
  proof -
    have "p < k" using p(2) that(2) by (rule order_less_trans)
    then have "pmx < k" using far that(1) by simp
    with p(3) show ?thesis by (rule order_less_trans)
  qed
  have wf1: "map_wf keys ?m1" by (rule map_wf_put [OF laws wft le fam newt beforet aftert])
  have K1: "keys (ip_tree ?m1) = insert mn (keys (ip_tree m))" by (simp add: put_sel [OF laws])
  have sle': "?s \<le> pmx" "mx < ?s" "mn < ?s" using sle [of pmx] sl [of mx] sl [of mn] p(3) le by auto
  have ps: "p < ?s" using p(2) sle'(3) by (rule order_less_trans)
  have new1: "?s \<notin> keys (ip_tree ?m1)" using far [OF _ ps] sle' K1 by auto
  have before1: "kmx < ?s" if "ranges ?m1 k = Some (kmx, kd)" "k < ?s" for k kmx kd
  proof (cases "k = mn")
    case True
    then show ?thesis using that(1) sle'(2) by (simp add: put_sel [OF laws])
  next
    case False
    then have kr: "ranges ?mt k = Some (kmx, kd)" using that(1) by (simp add: put_sel [OF laws])
    have "k < mn"
    proof (rule ccontr)
      assume "\<not> k < mn"
      then have "mx < k" using aftert [of k] map_wfD(4) [OF wft kr] False by simp
      then show False using that(2) sl [of k] by simp
    qed
    then have "kmx < mn" using beforet kr by blast
    then show ?thesis using sle'(3) by (rule order_less_trans)
  qed
  have after1: "pmx < k" if "k \<in> keys (ip_tree ?m1)" "?s < k" for k
    using that K1 far [of k] order_less_trans [OF ps that(2)] sle'(3) by auto
  have sf: "addr_bits ?s = addr_bits pmx" using key_add(2) [OF p(3) mf] mf by simp
  have rest: "add_range_addr ops ?s pmx pd ?m1 = Some (True, ?m2)"
    by (rule add_range_free [OF laws wf1 sle'(1) new1 before1 after1 sf])
  have wf2: "map_wf keys ?m2" by (rule map_wf_put [OF laws wf1 sle'(1) sf new1 before1 after1])
  have prev_p: "rb_prev ops (ip_tree (put ops mn mx d m)) mn = Some p"
  proof (cases "rb_prev ops (ip_tree (put ops mn mx d m)) mn")
    case None
    then show ?thesis using krb_prev(2) [OF laws None] p map_wfD(4) [OF wf p(1)] by (auto simp: put_sel [OF laws])
  next
    case (Some q)
    with krb_prev(1) [OF laws Some] map_wfD(4) [OF wf p(1)] p(2)
    have "q \<in> keys (ip_tree m)" "q < mn" "p \<le> q" by (auto simp: put_sel [OF laws])
    moreover have "\<not> p < q" using far [of q] calculation p3 by fastforce
    ultimately show ?thesis using Some by simp
  qed
  have ne: "p \<noteq> mn" using p(2) by auto
  have put: "set_max p (addr_sub mn 1) (put ops mn mx d m) = ?m1"
    using ne by (simp add: set_max_def put_def fun_upd_twist)
  have "cut_prev ops mn mx (put ops mn mx d m) = Some ?m2"
    using prev_p p ne rest put by (simp add: cut_prev_def put_sel [OF laws])
  moreover have "cut_next ops mn mx d ?m2 = Some ?m2"
    using aftert sle' K1 by (intro cut_next_none [OF laws wf2]) (auto simp: put_sel [OF laws])
  ultimately have "add_range_addr ops mn mx d m = Some (True, ?m2)"
    using add_range_stages [OF laws le new] by simp
  moreover have "look ?m2 x e = (if mn \<le> x \<and> x \<le> mx then e = d else look m x e)" for x e
  proof -
    have "look m x e \<longleftrightarrow> e = pd" if "mn \<le> x" "x \<le> pmx"
    proof -
      have "covers m p x pd" using p that by (auto simp: covers_def)
      then show ?thesis using covers_unique [OF wf] p(1) unfolding look_def covers_def by (metis option.inject prod.inject)
    qed
    then show ?thesis
      using look_put [OF laws wf1 new1 wf2] look_put [OF laws wft newt wf1] look_trim [OF wf p(1,2) p3]
        sle [of x] le p(3) by (auto simp: not_le)
  qed
  ultimately show ?thesis using wf2 by blast
qed

text \<open>The new range keeps clear of the ranges that start inside it.\<close>

definition kept :: "ip_addr \<Rightarrow> ('t, 'd) ipmap \<Rightarrow> ip_addr \<Rightarrow> bool" where
  "kept mn m x \<longleftrightarrow> (\<exists>k e. mn < k \<and> covers m k x e)"

definition added ::
  "('t \<Rightarrow> ip_addr set) \<Rightarrow> ip_addr \<Rightarrow> ip_addr \<Rightarrow> 'd \<Rightarrow> ('t, 'd) ipmap \<Rightarrow> ('t, 'd) ipmap \<Rightarrow> bool" where
  "added keys mn mx d m m' \<longleftrightarrow> map_wf keys m' \<and>
     (\<forall>x e. kept mn m x \<or> \<not> (mn \<le> x \<and> x \<le> mx) \<longrightarrow> look m' x e = look m x e) \<and>
     (\<not> touching keys mn mx m \<longrightarrow>
        (\<forall>x e. \<not> kept mn m x \<longrightarrow> mn \<le> x \<longrightarrow> x \<le> mx \<longrightarrow> look m' x e = (e = d)))"

lemma look_kept:
  assumes "map_wf keys m" "\<And>k kmx kd. ranges m k = Some (kmx, kd) \<Longrightarrow> k < mn \<Longrightarrow> kmx < mn"
    and "mn \<notin> keys (ip_tree m)" "mn \<le> x"
  shows "covered m x = kept mn m x"
proof
  assume "covered m x"
  then obtain k e mx where k: "covers m k x e" "ranges m k = Some (mx, e)" "x \<le> mx"
    by (auto simp: covered_def look_def covers_def)
  have "k \<noteq> mn" using map_wfD(4) [OF assms(1) k(2)] assms(3) by auto
  moreover have "\<not> k < mn" using assms(2) [OF k(2)] k(3) assms(4) by (auto dest: order_less_le_trans)
  ultimately show "kept mn m x" using k(1) unfolding kept_def by (meson linorder_less_linear)
qed (auto simp: kept_def covered_def look_def)

lemma add_range_added:
  assumes laws: "krb_laws ops keys" and wf: "map_wf keys m" and le: "mn \<le> mx"
    and fam: "addr_bits mn = addr_bits mx" and new: "mn \<notin> keys (ip_tree m)"
  shows "\<exists>m'. add_range_addr ops mn mx d m = Some (True, m') \<and> added keys mn mx d m m'"
proof (cases "\<exists>p pmx pd. ranges m p = Some (pmx, pd) \<and> p < mn \<and> mn \<le> pmx")
  case False
  then have before: "kmx < mn" if "ranges m k = Some (kmx, kd)" "k < mn" for k kmx kd using that by force
  obtain m' where m': "add_range_addr ops mn mx d m = Some (True, m')" "filled keys mn mx d m m'"
    using add_range_fills [OF laws wf le fam new, of d] before by blast
  have ck: "covered m x = kept mn m x" if "mn \<le> x" for x
    by (rule look_kept [OF wf _ new that]) (rule before)
  have "added keys mn mx d m m'"
    unfolding added_def
  proof (intro conjI allI impI)
    show "map_wf keys m'" using m'(2) by (simp add: filled_def)
    fix x e
    {
      assume "kept mn m x \<or> \<not> (mn \<le> x \<and> x \<le> mx)"
      then show "look m' x e = look m x e" using m'(2) ck unfolding filled_def by blast
    next
      assume "\<not> touching keys mn mx m" "\<not> kept mn m x" "mn \<le> x" "x \<le> mx"
      then show "look m' x e = (e = d)" using m'(2) ck unfolding filled_def by blast
    }
  qed
  with m'(1) show ?thesis by blast
next
  case True
  then obtain p pmx pd where p: "ranges m p = Some (pmx, pd)" "p < mn" "mn \<le> pmx" by blast
  show ?thesis
  proof (cases "mx < pmx")
    case True
    obtain m' where m': "add_range_addr ops mn mx d m = Some (True, m')" "map_wf keys m'"
      "\<And>x e. look m' x e = (if mn \<le> x \<and> x \<le> mx then e = d else look m x e)"
      using add_range_inside [OF laws wf le new fam p(1,2) True] by blast
    have "\<not> (mn \<le> x \<and> x \<le> mx)" if "kept mn m x" for x
    proof
      assume x: "mn \<le> x \<and> x \<le> mx"
      from that obtain k e where k: "mn < k" "covers m k x e" by (auto simp: kept_def)
      moreover have "covers m p x pd" using p x True by (auto simp: covers_def)
      ultimately show False using covers_unique [OF wf, of k x e p pd] p(2) by auto
    qed
    then have "added keys mn mx d m m'" using m'(2,3) by (auto simp: added_def)
    with m'(1) show ?thesis by blast
  next
    case False
    then have le': "pmx \<le> mx" by simp
    let ?mt = "set_max p (addr_sub mn 1) m"
    note trim = add_range_trim [OF laws wf le new fam p le']
    have newt: "mn \<notin> keys (ip_tree ?mt)" using new by simp
    obtain m' where m': "add_range_addr ops mn mx d ?mt = Some (True, m')" "filled keys mn mx d ?mt m'"
      using add_range_fills [OF laws trim(2) le fam newt, of d] trim(3) by blast
    have lt: "look ?mt x e \<longleftrightarrow> look m x e \<and> \<not> (mn \<le> x \<and> x \<le> pmx)" for x e
      by (rule look_trim [OF wf p])
    have ne: "p \<noteq> k" if "mn < k" for k using that p(2) by auto
    have kept: "kept mn ?mt x = kept mn m x" for x
      unfolding kept_def covers_set_max [OF p(1)] using ne by metis
    have ck: "covered ?mt x = kept mn m x" if "mn \<le> x" for x
      using look_kept [OF trim(2) _ newt that] trim(3) kept by blast
    have touch: "touching keys mn mx ?mt = touching keys mn mx m"
      unfolding touching_def set_max_sel(1) set_max_sel(2) [OF p(1)] using ne by (metis fun_upd_other)
    have km: "look ?mt x e = look m x e" if kx: "kept mn m x" for x e
    proof -
      have "\<not> (mn \<le> x \<and> x \<le> pmx)"
      proof
        assume "mn \<le> x \<and> x \<le> pmx"
        then have "covers m p x pd" using p by (auto simp: covers_def)
        moreover obtain k f where "mn < k" "covers m k x f" using kx by (auto simp: kept_def)
        ultimately show False using covers_unique [OF wf, of k x f p pd] p(2) by auto
      qed
      then show ?thesis using lt by simp
    qed
    have "added keys mn mx d m m'"
      unfolding added_def
    proof (intro conjI allI impI)
      show "map_wf keys m'" using m'(2) by (simp add: filled_def)
      fix x e
      {
        assume a: "kept mn m x \<or> \<not> (mn \<le> x \<and> x \<le> mx)"
        have "covered ?mt x \<or> \<not> (mn \<le> x \<and> x \<le> mx)" using a ck by blast
        then have "look m' x e = look ?mt x e" using m'(2) unfolding filled_def by blast
        also have "\<dots> = look m x e"
        proof (cases "kept mn m x")
          case False
          then have "\<not> (mn \<le> x \<and> x \<le> pmx)" using a le' by (meson order_trans)
          then show ?thesis using lt by simp
        qed (rule km)
        finally show "look m' x e = look m x e" .
      next
        assume "\<not> touching keys mn mx m" "\<not> kept mn m x" "mn \<le> x" "x \<le> mx"
        then show "look m' x e = (e = d)" using m'(2) ck touch unfolding filled_def by blast
      }
    qed
    with m'(1) trim(1) show ?thesis by auto
  qed
qed

lemma find_addr_look:
  assumes "krb_laws ops keys" "map_wf keys m"
  shows "find_addr ops m x = Some d \<longleftrightarrow> look m x d"
  by (simp add: look_def find_addr_covers [OF assms])

lemma find_addr_eqI:
  assumes "\<And>d. find_addr ops m x = Some d \<longleftrightarrow> find_addr ops' m' x' = Some d"
  shows "find_addr ops m x = find_addr ops' m' x'"
  using assms by (metis not_Some_eq)

text \<open>
  Adding a range always returns and keeps the map well formed. It is refused, with the map
  unchanged, exactly when its bounds are in the wrong order or a range with the same lower end is
  there already; when it is taken, no address outside it and no address of a range that starts
  inside it changes its value.
\<close>

theorem add_range_safe:
  assumes laws: "krb_laws ops keys" and wf: "map_wf keys m" and fam: "addr_bits mn = addr_bits mx"
  shows "\<exists>ok m'. add_range_addr ops mn mx d m = Some (ok, m') \<and> map_wf keys m' \<and>
    (ok \<longleftrightarrow> mn \<le> mx \<and> mn \<notin> keys (ip_tree m)) \<and> (\<not> ok \<longrightarrow> m' = m) \<and>
    (\<forall>x. kept mn m x \<or> \<not> (mn \<le> x \<and> x \<le> mx) \<longrightarrow> find_addr ops m' x = find_addr ops m x)"
proof (cases "mn \<le> mx \<and> mn \<notin> keys (ip_tree m)")
  case True
  then obtain m' where m': "add_range_addr ops mn mx d m = Some (True, m')" "added keys mn mx d m m'"
    using add_range_added [OF laws wf _ fam] by blast
  have wf': "map_wf keys m'" using m'(2) by (simp add: added_def)
  have "find_addr ops m' x = find_addr ops m x" if "kept mn m x \<or> \<not> (mn \<le> x \<and> x \<le> mx)" for x
    using m'(2) that
    by (intro find_addr_eqI) (simp add: find_addr_look [OF laws wf] find_addr_look [OF laws wf'] added_def)
  with True m'(1) wf' show ?thesis by blast
next
  case False
  then have "add_range_addr ops mn mx d m = Some (False, m)" by (intro add_range_refused [OF laws]) auto
  with False wf show ?thesis by blast
qed

text \<open>
  C24. When no two ranges inside the new one touch, the lookup after the insertion is exact: every
  address of the new range gets the new value, also where an older range that started before it
  covered the address, except the addresses of ranges that start inside the new one; every other
  address keeps its value.
\<close>

theorem add_range_exact:
  assumes laws: "krb_laws ops keys" and wf: "map_wf keys m" and le: "mn \<le> mx"
    and fam: "addr_bits mn = addr_bits mx" and new: "mn \<notin> keys (ip_tree m)" and nt: "\<not> touching keys mn mx m"
  shows "\<exists>m'. add_range_addr ops mn mx d m = Some (True, m') \<and> map_wf keys m' \<and>
    (\<forall>x. find_addr ops m' x =
       (if mn \<le> x \<and> x \<le> mx \<and> \<not> kept mn m x then Some d else find_addr ops m x))"
proof -
  obtain m' where m': "add_range_addr ops mn mx d m = Some (True, m')" "added keys mn mx d m m'"
    using add_range_added [OF laws wf le fam new] by blast
  have wf': "map_wf keys m'" using m'(2) by (simp add: added_def)
  have "find_addr ops m' x = (if mn \<le> x \<and> x \<le> mx \<and> \<not> kept mn m x then Some d else find_addr ops m x)" for x
  proof (cases "mn \<le> x \<and> x \<le> mx \<and> \<not> kept mn m x")
    case True
    then have "look m' x d" using m'(2) nt by (simp add: added_def)
    then show ?thesis using True find_addr_look [OF laws wf'] by simp
  next
    case False
    then have "look m' x e = look m x e" for e using m'(2) unfolding added_def by blast
    then have "find_addr ops m' x = find_addr ops m x"
      by (intro find_addr_eqI) (simp add: find_addr_look [OF laws wf] find_addr_look [OF laws wf'])
    then show ?thesis using False by auto
  qed
  with m'(1) wf' show ?thesis by blast
qed

section \<open>Witnesses\<close>

text \<open>The tree as a plain list of keys.\<close>

definition list_krb :: "ip_addr list krb_ops" where
  "list_krb = \<lparr>rb_create = [],
     rb_insert = (\<lambda>t k. if k \<in> set t then (t, False) else (k # t, True)),
     rb_prev = (\<lambda>t k. let xs = filter (\<lambda>x. x < k) t in if xs = [] then None else Some (foldr max (tl xs) (hd xs))),
     rb_next = (\<lambda>t k. let xs = filter (\<lambda>x. k < x) t in if xs = [] then None else Some (foldr min (tl xs) (hd xs))),
     rb_find = (\<lambda>t c. find (\<lambda>k. c k = 0) t)\<rparr>"

lemma foldr_max: "foldr max xs (y :: 'a :: linorder) \<in> set (y # xs) \<and> (\<forall>x \<in> set (y # xs). x \<le> foldr max xs y)"
  by (induction xs) (auto simp: max_def)

lemma foldr_min: "foldr min xs (y :: 'a :: linorder) \<in> set (y # xs) \<and> (\<forall>x \<in> set (y # xs). foldr min xs y \<le> x)"
  by (induction xs) (auto simp: min_def)

lemma list_krb_laws: "krb_laws list_krb set"
  unfolding krb_laws_def
proof (intro conjI allI impI)
  fix t k
  show "case rb_prev list_krb t k of None \<Rightarrow> \<forall>x \<in> set t. \<not> x < k
      | Some p \<Rightarrow> p \<in> set t \<and> p < k \<and> (\<forall>x \<in> set t. x < k \<longrightarrow> x \<le> p)"
  proof (cases "filter (\<lambda>x. x < k) t")
    case Nil
    then show ?thesis by (auto simp: list_krb_def filter_empty_conv)
  next
    case (Cons y ys)
    have "set (y # ys) = {x \<in> set t. x < k}" by (simp add: Cons [symmetric])
    then show ?thesis using foldr_max [of ys y] Cons by (auto simp: list_krb_def)
  qed
  show "case rb_next list_krb t k of None \<Rightarrow> \<forall>x \<in> set t. \<not> k < x
      | Some n \<Rightarrow> n \<in> set t \<and> k < n \<and> (\<forall>x \<in> set t. k < x \<longrightarrow> n \<le> x)"
  proof (cases "filter (\<lambda>x. k < x) t")
    case Nil
    then show ?thesis by (auto simp: list_krb_def filter_empty_conv)
  next
    case (Cons y ys)
    have "set (y # ys) = {x \<in> set t. k < x}" by (simp add: Cons [symmetric])
    then show ?thesis using foldr_min [of ys y] Cons by (auto simp: list_krb_def)
  qed
next
  fix t and c :: "ip_addr \<Rightarrow> int"
  show "case rb_find list_krb t c of None \<Rightarrow> \<forall>k \<in> set t. c k \<noteq> 0 | Some k \<Rightarrow> k \<in> set t \<and> c k = 0"
    by (auto simp: list_krb_def find_None_iff find_Some_iff split: option.splits)
qed (auto simp: list_krb_def)

definition demo_resolver :: resolver where
  "demo_resolver s = (if s = ''192.168.1.10'' then Some (V4 0x0A01A8C0) else None)"

theorem cidr_block_exact_witness:
  "\<exists>mn mx. build_cidr_addr demo_resolver ''192.168.1.10'' 24 = Some (mn, mx) \<and>
     mn \<le> V4 0xC0A80142 \<and> V4 0xC0A80142 \<le> mx \<and> \<not> (mn \<le> V4 0xC0A80242 \<and> V4 0xC0A80242 \<le> mx)"
proof -
  have "get_local_addr demo_resolver ''192.168.1.10'' = Some (V4 0xC0A8010A)" by code_simp
  note c = cidr_block_exact [OF this, of 24]
  from c obtain mn mx where b: "build_cidr_addr demo_resolver ''192.168.1.10'' 24 = Some (mn, mx)" by auto
  have "mn \<le> V4 0xC0A80142 \<and> V4 0xC0A80142 \<le> mx" "\<not> (mn \<le> V4 0xC0A80242 \<and> V4 0xC0A80242 \<le> mx)"
    using c b by simp_all
  with b show ?thesis by blast
qed

text \<open>Two single addresses that touch, 5 and 6, and one apart, 20.\<close>

definition demo_map :: "(ip_addr list, string) ipmap" where
  "demo_map = \<lparr>ip_tree = [V4 5, V4 6, V4 20],
     ranges = [V4 5 \<mapsto> (V4 5, ''a''), V4 6 \<mapsto> (V4 6, ''b''), V4 20 \<mapsto> (V4 20, ''c'')]\<rparr>"

lemma V4_order [simp]: "V4 a \<le> V4 b \<longleftrightarrow> a \<le> b" "V4 a < V4 b \<longleftrightarrow> a < b"
  by (simp_all add: le_key less_key addr_key_def word_le_def word_less_def)

lemma demo_map_wf: "map_wf set demo_map"
  unfolding map_wf_def demo_map_def by (auto split: if_splits)

theorem add_range_safe_witness:
  "\<exists>ok m'. add_range_addr list_krb (V4 1) (V4 10) ''z'' demo_map = Some (ok, m') \<and> map_wf set m' \<and> ok \<and>
     find_addr list_krb m' (V4 5) = find_addr list_krb demo_map (V4 5)"
proof -
  have "kept (V4 1) demo_map (V4 5)"
    unfolding kept_def covers_def demo_map_def by (intro exI [of _ "V4 5"] exI [of _ "''a''"]) simp
  moreover have "V4 1 \<notin> set (ip_tree demo_map)" by (simp add: demo_map_def)
  ultimately show ?thesis
    using add_range_safe [OF list_krb_laws demo_map_wf, of "V4 1" "V4 10" "''z''"] by auto
qed

theorem add_range_exact_witness:
  "\<exists>m'. add_range_addr list_krb (V4 10) (V4 30) ''z'' demo_map = Some (True, m') \<and>
     find_addr list_krb m' (V4 12) = Some ''z'' \<and> find_addr list_krb m' (V4 25) = Some ''z'' \<and>
     find_addr list_krb m' (V4 20) = find_addr list_krb demo_map (V4 20)"
proof -
  have nt: "\<not> touching set (V4 10) (V4 30) demo_map"
    unfolding touching_def demo_map_def by (auto split: if_splits)
  have k: "\<not> kept (V4 10) demo_map (V4 12)" "\<not> kept (V4 10) demo_map (V4 25)" "kept (V4 10) demo_map (V4 20)"
    by (auto simp: kept_def covers_def demo_map_def split: if_splits intro!: exI [of _ "V4 20"])
  have "V4 10 \<notin> set (ip_tree demo_map)" by (simp add: demo_map_def)
  then obtain m' where m': "add_range_addr list_krb (V4 10) (V4 30) ''z'' demo_map = Some (True, m')"
    "\<And>x. find_addr list_krb m' x = (if V4 10 \<le> x \<and> x \<le> V4 30 \<and> \<not> kept (V4 10) demo_map x
       then Some ''z'' else find_addr list_krb demo_map x)"
    using add_range_exact [OF list_krb_laws demo_map_wf _ _ _ nt, of "''z''"] by auto
  then show ?thesis using k by simp
qed


end
