(* ===== verification/Domain_Container.thy ===== *)
theory Domain_Container
  imports Kgl_Prelude "HOL-Library.Multiset"
begin

text \<open>
  The container that maps the host name of a request to a virtual host:
  \<^verbatim>\<open>include/KVirtualHostContainer.h\<close> and \<^verbatim>\<open>src/KVirtualHostContainer.cpp\<close>.

  A host name is turned into a \<open>domain_t\<close>: its labels, last one first, each behind a byte that holds
  its length, and a NUL at the end. \<open>dmap\<close> is the trie \<^verbatim>\<open>KDomainMap\<close> over these labels.

  The tree of the children of a node is the krbtree of the kasync library, which is not part of the
  repository: its operations are the fields of \<open>label_tree\<close>, over the labels with their length byte,
  and \<open>label_tree_laws\<close> says what the code relies on. The data pointer of a tree node is the
  function \<open>kids\<close>. \<^verbatim>\<open>kgl_tolower\<close> comes from the same library and is a parameter too.

  A result \<open>None\<close> of an operation stands for what C++ leaves undefined (a store behind a buffer, a
  read behind the end of a name) and for a failed \<^verbatim>\<open>assert\<close>.
\<close>

section \<open>Host names and domains\<close>

text \<open>The first loop of \<^verbatim>\<open>revert_hostname\<close>: the labels of the name on a stack of 256 places.\<close>

function label_loop :: "string \<Rightarrow> string list \<Rightarrow> string list option option" where
  "label_loop src stack =
     (if src = [] then Some (Some stack)
      else if 256 \<le> length stack then None
      else (case cut_at (CHR ''.'') src of (hot, rest) \<Rightarrow>
        (if 63 < length hot \<or> 250 < length stack then Some None
         else label_loop (case rest of None \<Rightarrow> [] | Some src' \<Rightarrow> src')
                (if hot = [] then stack else hot # stack))))"
  by auto
termination
  by (relation "measure (length \<circ> fst)")
    (auto split: option.splits dest: cut_at_Some_length [OF sym])

declare label_loop.simps [simp del]

definition NUL :: char where
  "NUL = CHR 0x00"

text \<open>
  The second loop: \<open>out\<close> is what \<^verbatim>\<open>dst\<close> holds so far, \<open>cap\<close> the size of the buffer behind it.
\<close>

definition put_nul :: "nat \<Rightarrow> bool \<Rightarrow> string \<Rightarrow> (bool \<times> string) option" where
  "put_nul cap res out = (if length out < cap then Some (res, out @ [NUL]) else None)"

fun out_loop ::
  "(char \<Rightarrow> char) \<Rightarrow> nat \<Rightarrow> int \<Rightarrow> string list \<Rightarrow> string \<Rightarrow> (bool \<times> string) option" where
  "out_loop kgl_tolower cap dst_len [] out = put_nul cap True out"
| "out_loop kgl_tolower cap dst_len (hot # stack) out =
     (let dst_len = dst_len - int (length hot + 1) in
      if dst_len \<le> 0 then put_nul cap False out
      else if cap < length out + length hot + 1 then None
      else out_loop kgl_tolower cap dst_len stack
             (out @ char_of (length hot) # map kgl_tolower hot))"

definition revert_hostname ::
  "(char \<Rightarrow> char) \<Rightarrow> string \<Rightarrow> nat \<Rightarrow> (bool \<times> string) option" where
  "revert_hostname kgl_tolower src dst_len =
     (case label_loop src [] of
        None \<Rightarrow> None
      | Some None \<Rightarrow> put_nul dst_len False []
      | Some (Some stack) \<Rightarrow> out_loop kgl_tolower dst_len (int dst_len) stack [])"

definition convert :: "(char \<Rightarrow> char) \<Rightarrow> string \<Rightarrow> nat \<Rightarrow> (bool \<times> bool \<times> string) option" where
  "convert kgl_tolower domain buf_size =
     (let wide = (domain \<noteq> [] \<and> hd domain = CHR ''*'');
          domain = (if wide then tl domain else domain) in
      map_option (\<lambda>(ok, buf). (ok, wide, buf)) (revert_hostname kgl_tolower domain buf_size))"

text \<open>
  \<^verbatim>\<open>build_domain_name\<close> reads the labels back. \<open>src\<close> holds exactly \<^verbatim>\<open>len\<close> bytes. The inner
  \<open>None\<close> is the NULL the code returns for a label that runs over the end.
\<close>

function build_loop :: "string \<Rightarrow> string list \<Rightarrow> string list option option" where
  "build_loop [] stack = Some (Some stack)"
| "build_loop (c # cs) stack =
     (let lable_len = of_char c in
      if lable_len = 0 then Some (Some stack)
      else if length cs < lable_len then Some None
      else if 256 \<le> length stack then None
      else build_loop (drop lable_len cs) (take lable_len cs # stack))"
  by pat_completeness auto
termination
  by (relation "measure (length \<circ> fst)") auto

fun join_lables :: "string list \<Rightarrow> string \<Rightarrow> string" where
  "join_lables [] dst = dst"
| "join_lables (lable # stack) dst =
     join_lables stack ((if dst \<noteq> [] then dst @ ''.'' else dst) @ lable)"

definition build_domain_name :: "string \<Rightarrow> bool \<Rightarrow> string option option" where
  "build_domain_name src wide =
     map_option (map_option (\<lambda>stack. join_lables stack (if wide then ''*'' else [])))
       (build_loop src [])"

section \<open>The trie of domains\<close>

datatype kgl_bind_level = kgl_bind_high | kgl_bind_low | kgl_bind_unique

datatype kgl_del_result = kgl_del_success | kgl_del_failed | kgl_del_empty

record 't label_tree =
  lt_empty :: 't
  lt_find :: "'t \<Rightarrow> string \<Rightarrow> string option"
  lt_insert :: "'t \<Rightarrow> string \<Rightarrow> 't \<times> string \<times> bool"
  lt_remove :: "'t \<Rightarrow> string \<Rightarrow> 't"
  lt_is_empty :: "'t \<Rightarrow> bool"
  lt_items :: "'t \<Rightarrow> string list"

datatype ('t, 'v) dmap =
  DMap (dname: string) (tree: 't) (kids: "string \<Rightarrow> ('t, 'v) dmap option") (wide_list: "'v list") (host_list: "'v list")

definition new_dmap :: "'t label_tree \<Rightarrow> string \<Rightarrow> ('t, 'v) dmap" where
  "new_dmap ops nm = DMap nm (lt_empty ops) (\<lambda>k. None) [] []"

definition is_empty :: "'t label_tree \<Rightarrow> ('t, 'v) dmap \<Rightarrow> bool" where
  "is_empty ops m \<longleftrightarrow> wide_list m = [] \<and> host_list m = [] \<and> lt_is_empty ops (tree m)"

definition first_vh :: "'v list \<Rightarrow> 'v option" where
  "first_vh l = (case l of [] \<Rightarrow> None | svh # next \<Rightarrow> Some svh)"

function dm_find :: "'t label_tree \<Rightarrow> ('t, 'v) dmap \<Rightarrow> string \<Rightarrow> bool \<Rightarrow> 'v option option" where
  "dm_find ops m [] wide = None"
| "dm_find ops m (c # cs) wide =
     (let n = of_char c in
      if n = 0 then Some (if wide then first_vh (wide_list m) else first_vh (host_list m))
      else if length cs < n then None
      else (case lt_find ops (tree m) (c # take n cs) of
              None \<Rightarrow> Some (first_vh (wide_list m))
            | Some node \<Rightarrow>
                (case kids m node of
                   None \<Rightarrow> None
                 | Some rn \<Rightarrow>
                     (case dm_find ops rn (drop n cs) wide of
                        None \<Rightarrow> None
                      | Some (Some ret) \<Rightarrow> Some (Some ret)
                      | Some None \<Rightarrow> Some (first_vh (wide_list m))))))"
  by pat_completeness auto
termination
  by (relation "measure (\<lambda>(ops, m, name, wide). length name)") auto

definition set_binds :: "bool \<Rightarrow> 'v list \<Rightarrow> ('t, 'v) dmap \<Rightarrow> ('t, 'v) dmap" where
  "set_binds wide l m =
     DMap (dname m) (tree m) (kids m) (if wide then l else wide_list m) (if wide then host_list m else l)"

definition add_here ::
  "bool \<Rightarrow> kgl_bind_level \<Rightarrow> 'v \<Rightarrow> ('t, 'v) dmap \<Rightarrow> (bool \<times> ('t, 'v) dmap) option" where
  "add_here wide level svh m =
     (let l = (if wide then wide_list m else host_list m) in
      if level = kgl_bind_high then Some (True, set_binds wide (svh # l) m)
      else if level = kgl_bind_unique \<and> l \<noteq> [] then Some (False, m)
      else if svh \<in> set l then None
      else Some (True, set_binds wide (l @ [svh]) m))"

function dm_add ::
  "'t label_tree \<Rightarrow> bool \<Rightarrow> kgl_bind_level \<Rightarrow> 'v \<Rightarrow> ('t, 'v) dmap \<Rightarrow> string \<Rightarrow> (bool \<times> ('t, 'v) dmap) option" where
  "dm_add ops wide level svh m [] = None"
| "dm_add ops wide level svh m (c # cs) =
     (let n = of_char c in
      if n = 0 then add_here wide level svh m
      else if length cs < n then None
      else (case lt_insert ops (tree m) (c # take n cs) of (t, node, new_flag) \<Rightarrow>
        (case (if new_flag then Some (new_dmap ops (c # take n cs)) else kids m node) of
           None \<Rightarrow> None
         | Some rn \<Rightarrow>
             map_option (\<lambda>(ret, rn). (ret, DMap (dname m) t ((kids m)(node \<mapsto> rn)) (wide_list m) (host_list m)))
               (dm_add ops wide level svh rn (drop n cs)))))"
  by pat_completeness auto
termination
  by (relation "measure (\<lambda>(ops, wide, level, svh, m, name). length name)") auto

text \<open>\<^verbatim>\<open>delete rn; rbtree_remove (&tree, node)\<close>.\<close>

definition drop_child :: "'t label_tree \<Rightarrow> string \<Rightarrow> ('t, 'v) dmap \<Rightarrow> ('t, 'v) dmap" where
  "drop_child ops node m =
     DMap (dname m) (lt_remove ops (tree m) node) ((kids m)(node := None)) (wide_list m) (host_list m)"

definition set_child :: "string \<Rightarrow> ('t, 'v) dmap \<Rightarrow> ('t, 'v) dmap \<Rightarrow> ('t, 'v) dmap" where
  "set_child node rn m = DMap (dname m) (tree m) ((kids m)(node \<mapsto> rn)) (wide_list m) (host_list m)"

text \<open>\<^verbatim>\<open>void* del (domain_t name, bool wide)\<close>: the first host bound to the name.\<close>

function dm_del ::
  "'t label_tree \<Rightarrow> bool \<Rightarrow> ('t, 'v) dmap \<Rightarrow> string \<Rightarrow> ('v option \<times> ('t, 'v) dmap) option" where
  "dm_del ops wide m [] = None"
| "dm_del ops wide m (c # cs) =
     (let n = of_char c in
      if n = 0 then
        (case (if wide then wide_list m else host_list m) of
           [] \<Rightarrow> Some (None, m)
         | svh # next \<Rightarrow> Some (Some svh, set_binds wide next m))
      else if length cs < n then None
      else (case lt_find ops (tree m) (c # take n cs) of
              None \<Rightarrow> Some (None, m)
            | Some node \<Rightarrow>
                (case kids m node of
                   None \<Rightarrow> None
                 | Some rn \<Rightarrow>
                     map_option (\<lambda>(ret, rn).
                         (ret, if is_empty ops rn then drop_child ops node m else set_child node rn m))
                       (dm_del ops wide rn (drop n cs)))))"
  by pat_completeness auto
termination
  by (relation "measure (\<lambda>(ops, wide, m, name). length name)") auto

text \<open>\<^verbatim>\<open>kgl_del_result del (domain_t name, bool wide, void* svh)\<close>: this host.\<close>

function dm_del_vh ::
  "'t label_tree \<Rightarrow> bool \<Rightarrow> 'v \<Rightarrow> ('t, 'v) dmap \<Rightarrow> string \<Rightarrow> (kgl_del_result \<times> ('t, 'v) dmap) option" where
  "dm_del_vh ops wide svh m [] = None"
| "dm_del_vh ops wide svh m (c # cs) =
     (let n = of_char c in
      if n = 0 then
        (let l = (if wide then wide_list m else host_list m) in
         if svh \<in> set l then
           (let m' = set_binds wide (remove1 svh l) m in
            Some (if is_empty ops m' then kgl_del_empty else kgl_del_success, m'))
         else Some (kgl_del_failed, m))
      else if length cs < n then None
      else (case lt_find ops (tree m) (c # take n cs) of
              None \<Rightarrow> Some (kgl_del_failed, m)
            | Some node \<Rightarrow>
                (case kids m node of
                   None \<Rightarrow> None
                 | Some rn \<Rightarrow>
                     (case dm_del_vh ops wide svh rn (drop n cs) of
                        None \<Rightarrow> None
                      | Some (ret, rn) \<Rightarrow>
                          (if ret = kgl_del_empty then
                             (let m' = drop_child ops node m in
                              Some (if is_empty ops m' then kgl_del_empty else kgl_del_success, m'))
                           else Some (ret, set_child node rn m))))))"
  by pat_completeness auto
termination
  by (relation "measure (\<lambda>(ops, wide, svh, m, name). length name)") auto

text \<open>The same operations on host names, with a buffer of 256 bytes.\<close>

definition dm_bind ::
  "(char \<Rightarrow> char) \<Rightarrow> 't label_tree \<Rightarrow> string \<Rightarrow> 'v \<Rightarrow> kgl_bind_level \<Rightarrow> ('t, 'v) dmap \<Rightarrow> (bool \<times> ('t, 'v) dmap) option" where
  "dm_bind kgl_tolower ops domain vh level m =
     (case convert kgl_tolower domain 256 of
        None \<Rightarrow> None
      | Some (ok, wide, hostname) \<Rightarrow>
          (if \<not> ok then Some (False, m) else dm_add ops wide level vh m hostname))"

definition dm_unbind ::
  "(char \<Rightarrow> char) \<Rightarrow> 't label_tree \<Rightarrow> string \<Rightarrow> ('t, 'v) dmap \<Rightarrow> ('v option \<times> ('t, 'v) dmap) option" where
  "dm_unbind kgl_tolower ops domain m =
     (case convert kgl_tolower domain 256 of
        None \<Rightarrow> None
      | Some (ok, wide, hostname) \<Rightarrow>
          (if \<not> ok then Some (None, m) else dm_del ops wide m hostname))"

definition dm_unbind_vh ::
  "(char \<Rightarrow> char) \<Rightarrow> 't label_tree \<Rightarrow> string \<Rightarrow> 'v \<Rightarrow> ('t, 'v) dmap \<Rightarrow> (kgl_del_result \<times> ('t, 'v) dmap) option" where
  "dm_unbind_vh kgl_tolower ops domain vh m =
     (case convert kgl_tolower domain 256 of
        None \<Rightarrow> None
      | Some (ok, wide, hostname) \<Rightarrow>
          (if \<not> ok then Some (kgl_del_failed, m) else dm_del_vh ops wide vh m hostname))"

definition dm_find_domain ::
  "(char \<Rightarrow> char) \<Rightarrow> 't label_tree \<Rightarrow> ('t, 'v) dmap \<Rightarrow> string \<Rightarrow> 'v option option" where
  "dm_find_domain kgl_tolower ops m domain =
     (case convert kgl_tolower domain 256 of
        None \<Rightarrow> None
      | Some (ok, wide, hostname) \<Rightarrow> (if \<not> ok then Some None else dm_find ops m hostname wide))"

text \<open>
  \<^verbatim>\<open>KDomainMap::iterator\<close>: the calls of the callback in their order, each with the name it is
  given and the host. \<open>domain\<close> holds the \<^verbatim>\<open>domain_len\<close> bytes of the labels above the node.
\<close>

primrec dm_iterator ::
  "'t label_tree \<Rightarrow> ('t, 'v) dmap \<Rightarrow> string \<Rightarrow> (string option option \<times> 'v) list" where
  "dm_iterator ops (DMap nm t ks w l) = (\<lambda>domain.
     (let domain = domain @ nm in
      map (Pair (build_domain_name domain False)) l @
      map (Pair (build_domain_name domain True)) w @
      concat (map (\<lambda>k. case map_option (dm_iterator ops) (ks k) of None \<Rightarrow> [] | Some it \<Rightarrow> it domain) (lt_items ops t))))"

text \<open>\<^verbatim>\<open>KDomainMap::clear\<close>: the calls of the handler, and the node that is left.\<close>

primrec clear_calls :: "'t label_tree \<Rightarrow> ('t, 'v) dmap \<Rightarrow> 'v list" where
  "clear_calls ops (DMap nm t ks w l) =
     l @ w @ concat (map (\<lambda>k. case map_option (clear_calls ops) (ks k) of None \<Rightarrow> [] | Some vs \<Rightarrow> vs) (lt_items ops t))"

definition dm_clear :: "'t label_tree \<Rightarrow> ('t, 'v) dmap \<Rightarrow> 'v list \<times> ('t, 'v) dmap" where
  "dm_clear ops m =
     (clear_calls ops m, DMap (dname m) (foldl (lt_remove ops) (tree m) (lt_items ops (tree m))) (\<lambda>k. None) [] [])"

section \<open>The container\<close>

text \<open>A sub virtual host, as far as the container reads it: its domain, and whether it is a wildcard.\<close>

record 'v bound_host =
  bind_host :: string
  wide_host :: bool
  svh_id :: 'v

record ('t, 'v) container =
  vhc_count :: int
  vhc_total_count :: int
  vhc_root :: "('t, 'v) dmap"

fun bind_vh ::
  "'t label_tree \<Rightarrow> bool \<Rightarrow> 'v bound_host list \<Rightarrow> ('t, 'v) container \<Rightarrow> ('t, 'v) container option" where
  "bind_vh ops high [] c = Some c"
| "bind_vh ops high (h # hs) c =
     (case dm_add ops (wide_host h) (if high then kgl_bind_high else kgl_bind_low) (svh_id h) (vhc_root c) (bind_host h) of
        None \<Rightarrow> None
      | Some (ok, root) \<Rightarrow>
          bind_vh ops high hs
            (if ok then c\<lparr>vhc_root := root, vhc_count := vhc_count c + 1, vhc_total_count := vhc_total_count c + 1\<rparr>
             else c\<lparr>vhc_root := root\<rparr>))"

fun unbind_vh ::
  "'t label_tree \<Rightarrow> 'v bound_host list \<Rightarrow> ('t, 'v) container \<Rightarrow> ('t, 'v) container option" where
  "unbind_vh ops [] c = Some c"
| "unbind_vh ops (h # hs) c =
     (case dm_del_vh ops (wide_host h) (svh_id h) (vhc_root c) (bind_host h) of
        None \<Rightarrow> None
      | Some (ret, root) \<Rightarrow>
          unbind_vh ops hs
            (if ret \<noteq> kgl_del_failed then c\<lparr>vhc_root := root, vhc_count := vhc_count c - 1\<rparr>
             else c\<lparr>vhc_root := root\<rparr>))"

section \<open>Labels of a host name\<close>

definition labels :: "string \<Rightarrow> string list" where
  "labels host = filter (\<lambda>l. l \<noteq> []) (split_on (CHR ''.'') host)"

definition enc_label :: "string \<Rightarrow> string" where
  "enc_label l = char_of (length l) # l"

definition enc_domain :: "string list \<Rightarrow> string" where
  "enc_domain ls = concat (map enc_label ls)"

lemma enc_domain_simps [simp]:
  "enc_domain [] = []"
  "enc_domain (l # ls) = char_of (length l) # l @ enc_domain ls"
  by (simp_all add: enc_domain_def enc_label_def)

lemma length_enc_domain_map [simp]:
  "length (enc_domain (map (map f) ls)) = length (enc_domain ls)"
  by (induction ls) auto

lemma length_enc_domain_append [simp]:
  "length (enc_domain (as @ bs)) = length (enc_domain as) + length (enc_domain bs)"
  by (induction as) auto

lemma length_enc_domain_rev [simp]: "length (enc_domain (rev ls)) = length (enc_domain ls)"
  by (induction ls) auto

lemma length_enc_domain_ge: "[] \<notin> set ls \<Longrightarrow> 2 * length ls \<le> length (enc_domain ls)"
proof (induction ls)
  case (Cons l ls)
  then have "1 \<le> length l" by (cases l) auto
  with Cons show ?case by simp
qed simp

lemma labels_Nil [simp]: "labels [] = []"
  by (simp add: labels_def)

lemma Nil_notin_labels [simp]: "[] \<notin> set (labels host)"
  by (simp add: labels_def)

lemma labels_cut_at:
  "labels host = (case cut_at (CHR ''.'') host of
     (a, r) \<Rightarrow> (if a = [] then [] else [a]) @ labels (case r of None \<Rightarrow> [] | Some b \<Rightarrow> b))"
  by (subst labels_def, subst split_on_cut_at) (auto simp: labels_def split: prod.splits option.splits)

text \<open>The stack never overflows, and holds the labels, the last one on top.\<close>

lemma label_loop_safe:
  "length stack \<le> 251 \<Longrightarrow>
   \<exists>r. label_loop src stack = Some r \<and>
     (\<forall>st. r = Some st \<longrightarrow> st = rev (labels src) @ stack \<and> (\<forall>l\<in>set (labels src). length l \<le> 63))"
proof (induction src stack rule: label_loop.induct)
  case (1 src stack)
  obtain a r where cut: "cut_at (CHR ''.'') src = (a, r)" by fastforce
  let ?rest = "case r of None \<Rightarrow> [] | Some src' \<Rightarrow> src'"
  let ?stack = "if a = [] then stack else a # stack"
  have labs: "labels src = (if a = [] then [] else [a]) @ labels ?rest"
    by (subst labels_cut_at) (simp add: cut)
  show ?case
  proof (cases "src = [] \<or> 63 < length a \<or> 250 < length stack")
    case True
    with 1(2) show ?thesis by (subst label_loop.simps) (auto simp: cut)
  next
    case False
    then have ok: "src \<noteq> []" "\<not> (63 < length a \<or> 250 < length stack)" "\<not> 256 \<le> length stack" by auto
    then have "length ?stack \<le> 251" by simp
    from 1(1) [OF ok(1) ok(3) cut [symmetric] ok(2) this] obtain q where
      q: "label_loop ?rest ?stack = Some q"
      "\<And>st. q = Some st \<Longrightarrow> st = rev (labels ?rest) @ ?stack \<and> (\<forall>l\<in>set (labels ?rest). length l \<le> 63)"
      by blast
    have step: "label_loop src stack = Some q"
      using ok q(1) by (subst label_loop.simps) (simp add: cut)
    have "st = rev (labels src) @ stack \<and> (\<forall>l\<in>set (labels src). length l \<le> 63)" if "q = Some st" for st
      using q(2) [OF that] ok unfolding labs by auto
    with step show ?thesis by blast
  qed
qed

lemma label_loop_accepts:
  "\<forall>l\<in>set (labels src). length l \<le> 63 \<Longrightarrow> length stack + length (labels src) \<le> 250 \<Longrightarrow>
   label_loop src stack = Some (Some (rev (labels src) @ stack))"
proof (induction src stack rule: label_loop.induct)
  case (1 src stack)
  obtain a r where cut: "cut_at (CHR ''.'') src = (a, r)" by fastforce
  let ?rest = "case r of None \<Rightarrow> [] | Some src' \<Rightarrow> src'"
  have labs: "labels src = (if a = [] then [] else [a]) @ labels ?rest"
    by (subst labels_cut_at) (simp add: cut)
  show ?case
  proof (cases "src = []")
    case True
    then show ?thesis by (subst label_loop.simps) simp
  next
    case False
    have ok: "\<not> (63 < length a \<or> 250 < length stack)" "\<not> 256 \<le> length stack"
      using 1(2,3) unfolding labs by (auto split: if_splits)
    have "label_loop ?rest (if a = [] then stack else a # stack)
        = Some (Some (rev (labels ?rest) @ (if a = [] then stack else a # stack)))"
      using 1(1) [OF False ok(2) cut [symmetric] ok(1)] 1(2,3) unfolding labs by auto
    with False ok show ?thesis
      unfolding labs by (subst label_loop.simps) (auto simp: cut)
  qed
qed

lemma out_loop_result:
  "length out < cap \<Longrightarrow>
   \<exists>buf. out_loop lower cap (int cap - int (length out)) stack out
       = Some (length out + length (enc_domain stack) < cap, buf @ [NUL]) \<and>
     length buf < cap \<and>
     (length out + length (enc_domain stack) < cap \<longrightarrow> buf = out @ enc_domain (map (map lower) stack))"
proof (induction stack arbitrary: out)
  case Nil
  then show ?case by (simp add: put_nul_def)
next
  case (Cons hot stack)
  let ?out = "out @ char_of (length hot) # map lower hot"
  show ?case
  proof (cases "length out + length hot + 1 < cap")
    case True
    then have "length ?out < cap" by simp
    from Cons.IH [OF this] show ?thesis
      using True by (simp add: Let_def algebra_simps)
  next
    case False
    then show ?thesis using Cons.prems by (simp add: put_nul_def Let_def)
  qed
qed

lemma length_labels_le: "2 * length (labels src) \<le> length (enc_domain (labels src))"
  by (rule length_enc_domain_ge) simp

lemma revert_hostname_result:
  assumes "0 < dst_len"
  obtains ok buf where "revert_hostname lower src dst_len = Some (ok, buf @ [NUL])" "length buf < dst_len"
    "ok \<Longrightarrow> buf = enc_domain (map (map lower) (rev (labels src)))"
    "ok \<Longrightarrow> \<forall>l\<in>set (labels src). length l \<le> 63"
    "ok \<Longrightarrow> length (enc_domain (labels src)) < dst_len"
proof -
  from label_loop_safe [of "[]" src] obtain r where r: "label_loop src [] = Some r"
    "\<And>st. r = Some st \<Longrightarrow> st = rev (labels src) \<and> (\<forall>l\<in>set (labels src). length l \<le> 63)"
    by auto
  show ?thesis
  proof (cases r)
    case None
    with r(1) assms show ?thesis
      by (intro that [of False "[]"]) (simp_all add: revert_hostname_def put_nul_def)
  next
    case (Some st)
    note st = r(2) [OF Some]
    from out_loop_result [of "[]" dst_len lower st] assms obtain buf where
      "out_loop lower dst_len (int dst_len) st [] = Some (length (enc_domain st) < dst_len, buf @ [NUL])"
      "length buf < dst_len" "length (enc_domain st) < dst_len \<longrightarrow> buf = enc_domain (map (map lower) st)"
      by auto
    with r(1) Some st show ?thesis
      by (intro that [of "length (enc_domain st) < dst_len" buf]) (simp_all add: revert_hostname_def)
  qed
qed

lemma revert_hostname_accepts:
  assumes "\<forall>l\<in>set (labels src). length l \<le> 63" "length (enc_domain (labels src)) < dst_len"
    "length (labels src) \<le> 250"
  shows "revert_hostname lower src dst_len = Some (True, enc_domain (map (map lower) (rev (labels src))) @ [NUL])"
proof -
  have "label_loop src [] = Some (Some (rev (labels src)))"
    using label_loop_accepts [of src "[]"] assms by simp
  with out_loop_result [of "[]" dst_len lower "rev (labels src)"] assms(2) show ?thesis
    by (auto simp: revert_hostname_def)
qed

text \<open>
  \<^verbatim>\<open>revert_hostname\<close> stays inside its buffers: with a destination of at least one byte it never
  stores past the 256 places of its stack or past \<^verbatim>\<open>dst_len\<close> bytes, whatever the name is, and what it
  leaves ends with a NUL. When it returns true the destination holds the labels of the name, the last
  one first, in lower case, each behind its length and none longer than 63 bytes. For the buffers of at
  most 256 bytes it returns true exactly when the labels are short enough and fit.
\<close>

theorem revert_hostname_bounds:
  assumes "0 < dst_len"
  shows "\<exists>ok buf. revert_hostname kgl_tolower src dst_len = Some (ok, buf) \<and>
    length buf \<le> dst_len \<and> last buf = NUL \<and>
    (ok \<longrightarrow> buf = enc_domain (map (map kgl_tolower) (rev (labels src))) @ [NUL]) \<and>
    (dst_len \<le> 256 \<longrightarrow>
       ok = ((\<forall>l\<in>set (labels src). length l \<le> 63) \<and> length (enc_domain (labels src)) < dst_len))"
proof -
  from revert_hostname_result [OF assms, of kgl_tolower src] obtain ok buf where
    r: "revert_hostname kgl_tolower src dst_len = Some (ok, buf @ [NUL])" "length buf < dst_len"
    "ok \<Longrightarrow> buf = enc_domain (map (map kgl_tolower) (rev (labels src)))"
    "ok \<Longrightarrow> \<forall>l\<in>set (labels src). length l \<le> 63"
    "ok \<Longrightarrow> length (enc_domain (labels src)) < dst_len"
    by blast
  have "ok" if "dst_len \<le> 256" "\<forall>l\<in>set (labels src). length l \<le> 63" "length (enc_domain (labels src)) < dst_len"
    using revert_hostname_accepts [of src dst_len kgl_tolower] that length_labels_le [of src] r(1) by auto
  with r show ?thesis by (intro exI [of _ ok] exI [of _ "buf @ [NUL]"]) auto
qed

theorem revert_hostname_bounds_witness:
  "\<exists>ok buf. revert_hostname id ''www.example.com'' 17 = Some (ok, buf) \<and> length buf \<le> 17 \<and> ok"
  using revert_hostname_bounds [of 17 id "''www.example.com''"]
  by (auto simp: labels_def)

section \<open>Names read back\<close>

definition wf_label :: "string \<Rightarrow> bool" where
  "wf_label l \<longleftrightarrow> l \<noteq> [] \<and> length l \<le> 63 \<and> CHR ''.'' \<notin> set l"

definition dotted :: "string list \<Rightarrow> string" where
  "dotted ls = concat (map (\<lambda>l. CHR ''.'' # l) ls)"

lemma split_on_dotted:
  "CHR ''.'' \<notin> set a \<Longrightarrow> \<forall>l\<in>set ls. CHR ''.'' \<notin> set l \<Longrightarrow> split_on (CHR ''.'') (a @ dotted ls) = a # ls"
proof (induction ls arbitrary: a)
  case Nil
  then show ?case by (subst split_on_cut_at) (simp add: dotted_def cut_at_None)
next
  case (Cons l ls)
  then show ?case by (simp add: dotted_def split_on_append_sep)
qed

lemma filter_wf_label: "\<forall>l\<in>set ls. wf_label l \<Longrightarrow> filter (\<lambda>l. l \<noteq> []) ls = ls"
  by (induction ls) (auto simp: wf_label_def)

lemma labels_dotted:
  "CHR ''.'' \<notin> set a \<Longrightarrow> \<forall>l\<in>set ls. wf_label l \<Longrightarrow> labels (a @ dotted ls) = (if a = [] then ls else a # ls)"
  by (simp add: labels_def split_on_dotted wf_label_def filter_wf_label)

lemma join_lables_dotted: "dst \<noteq> [] \<Longrightarrow> join_lables ls dst = dst @ dotted ls"
  by (induction ls arbitrary: dst) (auto simp: dotted_def)

lemma of_char_length [simp]: "n < 256 \<Longrightarrow> (of_char (char_of n :: char) :: nat) = n"
  by simp

lemma build_loop_enc:
  "\<forall>l\<in>set ls. wf_label l \<Longrightarrow> length ls + length stack \<le> 256 \<Longrightarrow>
   build_loop (enc_domain ls) stack = Some (Some (rev ls @ stack))"
  by (induction ls arbitrary: stack) (auto simp: wf_label_def)

lemma convert_plain:
  "(\<And>c cs. s = c # cs \<Longrightarrow> c \<noteq> CHR ''*'') \<Longrightarrow> revert_hostname lower s n = Some (ok, buf) \<Longrightarrow>
   convert lower s n = Some (ok, False, buf)"
  by (cases s) (auto simp: convert_def)

lemma convert_star:
  "revert_hostname lower s n = Some (ok, buf) \<Longrightarrow> convert lower (CHR ''*'' # s) n = Some (ok, True, buf)"
  by (simp add: convert_def)

text \<open>
  A domain printed by \<^verbatim>\<open>build_domain_name\<close> and read again by \<^verbatim>\<open>convert\<close> is the same domain
  with the same wildcard flag, so a listing of the container can be bound again. The domain has to
  be one that \<^verbatim>\<open>convert\<close> can produce: labels of 1 to 63 lower case bytes without a dot that fit in
  256 bytes, and the leftmost label of a plain name does not start with a star, which the text form
  gives to wildcards.
\<close>

theorem build_domain_name_roundtrip:
  assumes "\<forall>l\<in>set ls. wf_label l \<and> map kgl_tolower l = l" "length (enc_domain ls) < 256"
    "wide \<or> ls = [] \<or> hd (last ls) \<noteq> CHR ''*''"
  shows "\<exists>host. build_domain_name (enc_domain ls) wide = Some (Some host) \<and>
    convert kgl_tolower host 256 = Some (True, wide, enc_domain ls @ [NUL])"
proof -
  have wf: "\<forall>l\<in>set ls. wf_label l" using assms(1) by blast
  then have len: "2 * length ls \<le> length (enc_domain ls)"
    by (intro length_enc_domain_ge) (auto simp: wf_label_def)
  let ?host = "join_lables (rev ls) (if wide then ''*'' else [])"
  have build: "build_domain_name (enc_domain ls) wide = Some (Some ?host)"
    using build_loop_enc [OF wf, of "[]"] len assms(2) by (simp add: build_domain_name_def)
  have read: "revert_hostname kgl_tolower s 256 = Some (True, enc_domain ls @ [NUL])" if "labels s = rev ls" for s
  proof -
    have "map (map kgl_tolower) ls = ls" using assms(1) by (simp add: map_idI)
    moreover have "\<forall>l\<in>set (labels s). length l \<le> 63" using that wf by (simp add: wf_label_def)
    ultimately show ?thesis
      using revert_hostname_accepts [of s 256 kgl_tolower] that len assms(2) by (simp flip: rev_map)
  qed
  show ?thesis
  proof (cases wide)
    case True
    then have "?host = CHR ''*'' # dotted (rev ls)" by (simp add: join_lables_dotted)
    moreover have "labels (dotted (rev ls)) = rev ls" using labels_dotted [of "[]" "rev ls"] wf by simp
    ultimately have "convert kgl_tolower ?host 256 = Some (True, wide, enc_domain ls @ [NUL])"
      using convert_star [OF read] True by simp
    with build show ?thesis by blast
  next
    case False
    have host: "labels ?host = rev ls \<and> (\<forall>c cs. ?host = c # cs \<longrightarrow> c \<noteq> CHR ''*'')"
    proof (cases ls rule: rev_cases)
      case Nil
      then show ?thesis using False by simp
    next
      case (snoc ls' l)
      then have l: "wf_label l" "\<forall>l\<in>set (rev ls'). wf_label l" "l \<noteq> []" "hd l \<noteq> CHR ''*''"
        using wf assms(3) False by (auto simp: wf_label_def)
      with snoc False have "?host = l @ dotted (rev ls')" by (simp add: join_lables_dotted)
      with l snoc show ?thesis
        using labels_dotted [of l "rev ls'"] by (cases l) (auto simp: wf_label_def)
    qed
    then have "convert kgl_tolower ?host 256 = Some (True, wide, enc_domain ls @ [NUL])"
      using convert_plain [OF _ read, of ?host] False by auto
    with build show ?thesis by blast
  qed
qed

theorem build_domain_name_roundtrip_witness:
  "\<exists>host. build_domain_name (enc_domain [''com'', ''example'']) True = Some (Some host) \<and>
    convert id host 256 = Some (True, True, enc_domain [''com'', ''example''] @ [NUL])"
  using build_domain_name_roundtrip [of "[''com'', ''example'']" id True] by (simp add: wf_label_def)

section \<open>What the trie binds\<close>

text \<open>What the code relies on of the tree of labels, with \<open>keys\<close> the labels it holds.\<close>

definition label_tree_laws :: "'t label_tree \<Rightarrow> ('t \<Rightarrow> string set) \<Rightarrow> bool" where
  "label_tree_laws ops keys \<longleftrightarrow>
     keys (lt_empty ops) = {} \<and>
     (\<forall>t k. lt_find ops t k = (if k \<in> keys t then Some k else None)) \<and>
     (\<forall>t k. \<exists>t'. lt_insert ops t k = (t', k, k \<notin> keys t) \<and> keys t' = insert k (keys t)) \<and>
     (\<forall>t k. keys (lt_remove ops t k) = keys t - {k}) \<and>
     (\<forall>t. lt_is_empty ops t = (keys t = {})) \<and>
     (\<forall>t. set (lt_items ops t) = keys t \<and> distinct (lt_items ops t))"

lemma label_tree_lawsD:
  assumes "label_tree_laws ops keys"
  shows "lt_find ops t k = (if k \<in> keys t then Some k else None)"
    and "\<exists>t'. lt_insert ops t k = (t', k, k \<notin> keys t) \<and> keys t' = insert k (keys t)"
    and "keys (lt_remove ops t k) = keys t - {k}"
    and "lt_is_empty ops t = (keys t = {})"
    and "set (lt_items ops t) = keys t" and "distinct (lt_items ops t)"
  using assms unfolding label_tree_laws_def by simp_all

text \<open>The hosts bound to the domain with the labels \<open>ls\<close>, as a plain name or as a wildcard.\<close>

fun binds :: "('t, 'v) dmap \<Rightarrow> string list \<Rightarrow> bool \<Rightarrow> 'v list" where
  "binds m [] wide = (if wide then wide_list m else host_list m)"
| "binds m (l # ls) wide = (case kids m (enc_label l) of None \<Rightarrow> [] | Some rn \<Rightarrow> binds rn ls wide)"

definition tree_label :: "string \<Rightarrow> bool" where
  "tree_label l \<longleftrightarrow> l \<noteq> [] \<and> length l < 256"

text \<open>The tree of every node holds the labels of its children, and no child is empty.\<close>

inductive dm_ok :: "'t label_tree \<Rightarrow> ('t \<Rightarrow> string set) \<Rightarrow> ('t, 'v) dmap \<Rightarrow> bool" for ops keys where
  "keys t = dom ks \<Longrightarrow> (\<And>k rn. ks k = Some rn \<Longrightarrow> dm_ok ops keys rn) \<Longrightarrow>
   (\<And>k rn. ks k = Some rn \<Longrightarrow> \<not> is_empty ops rn \<and> dname rn = k) \<Longrightarrow>
   (\<And>k. k \<in> dom ks \<Longrightarrow> \<exists>l. k = enc_label l \<and> tree_label l) \<Longrightarrow>
   dm_ok ops keys (DMap nm t ks w l)"

inductive_simps dm_ok_DMap: "dm_ok ops keys (DMap nm t ks w l)"

lemma enc_label_inj: "enc_label a = enc_label b \<longleftrightarrow> a = b"
  by (auto simp: enc_label_def)

lemma tree_label_code: "tree_label l \<Longrightarrow> (of_char (char_of (length l) :: char) :: nat) = length l \<and> length l \<noteq> 0"
  by (simp add: tree_label_def)

lemma dm_okD:
  assumes "dm_ok ops keys m"
  shows "keys (tree m) = dom (kids m)"
    and "\<And>k rn. kids m k = Some rn \<Longrightarrow> dm_ok ops keys rn \<and> \<not> is_empty ops rn \<and> dname rn = k"
    and "\<And>k rn. kids m k = Some rn \<Longrightarrow> \<exists>l. k = enc_label l \<and> tree_label l"
  using assms by (cases m; fastforce simp: dm_ok_DMap dom_def)+

lemma dm_okI:
  assumes "keys (tree m) = dom (kids m)"
    and "\<And>k rn. kids m k = Some rn \<Longrightarrow> dm_ok ops keys rn \<and> \<not> is_empty ops rn \<and> dname rn = k"
    and "\<And>k rn. kids m k = Some rn \<Longrightarrow> \<exists>l. k = enc_label l \<and> tree_label l"
  shows "dm_ok ops keys m"
  using assms by (cases m) (auto simp: dm_ok_DMap)

lemma dm_ok_new: "label_tree_laws ops keys \<Longrightarrow> dm_ok ops keys (new_dmap ops nm)"
  by (intro dm_okI) (auto simp: new_dmap_def label_tree_laws_def)

lemma binds_new [simp]: "binds (new_dmap ops nm) ls wide = []"
  by (cases ls) (auto simp: new_dmap_def)

lemma is_empty_kids:
  "label_tree_laws ops keys \<Longrightarrow> dm_ok ops keys m \<Longrightarrow>
   is_empty ops m \<longleftrightarrow> wide_list m = [] \<and> host_list m = [] \<and> (\<forall>k. kids m k = None)"
  using dm_okD(1) [of ops keys m] by (auto simp: is_empty_def label_tree_laws_def)

text \<open>A node that is not empty has a host below it.\<close>

lemma binds_below:
  assumes laws: "label_tree_laws ops keys"
  shows "dm_ok ops keys m \<Longrightarrow> \<not> is_empty ops m \<Longrightarrow> \<exists>ls wide. (\<forall>l\<in>set ls. tree_label l) \<and> binds m ls wide \<noteq> []"
proof (induction m)
  case (DMap nm t ks w l)
  consider "w \<noteq> []" | "l \<noteq> []" | k rn where "ks k = Some rn"
    using is_empty_kids [OF laws DMap.prems(1)] DMap.prems(2) by fastforce
  then show ?case
  proof cases
    case 1
    then show ?thesis by (intro exI [of _ "[]"] exI [of _ True]) simp
  next
    case 2
    then show ?thesis by (intro exI [of _ "[]"] exI [of _ False]) simp
  next
    case (3 k rn)
    then have rn: "dm_ok ops keys rn" "\<not> is_empty ops rn"
      using dm_okD(2) [OF DMap.prems(1), of k rn] by auto
    have "rn \<in> set_option (ks k)" "ks k \<in> range ks" by (simp add: 3) (rule rangeI)
    from DMap.IH [OF this(2) this(1) rn] obtain ls wide where
      ls: "\<forall>l\<in>set ls. tree_label l" "binds rn ls wide \<noteq> []" by blast
    obtain lab where "k = enc_label lab" "tree_label lab"
      using dm_okD(3) [OF DMap.prems(1), of k rn] 3 by auto
    with 3 ls show ?thesis by (intro exI [of _ "lab # ls"] exI [of _ wide]) simp
  qed
qed

text \<open>One label of the name at each operation.\<close>

lemma tree_step:
  assumes "label_tree_laws ops keys" "dm_ok ops keys m"
  shows "lt_find ops (tree m) k = (case kids m k of None \<Rightarrow> None | Some rn \<Rightarrow> Some k)"
  using assms(1) dm_okD(1) [OF assms(2)]
  by (auto simp: label_tree_laws_def split: option.splits)

lemma of_char_NUL [simp]: "(of_char NUL :: nat) = 0"
  by (simp add: NUL_def)

lemma dm_find_NUL [simp]:
  "dm_find ops m [NUL] wide = Some (first_vh (binds m [] wide))"
  by simp

lemma dm_find_label:
  assumes "label_tree_laws ops keys" "dm_ok ops keys m" "tree_label l"
  shows "dm_find ops m (enc_domain (l # ls) @ [NUL]) wide =
    (case kids m (enc_label l) of
       None \<Rightarrow> Some (first_vh (wide_list m))
     | Some rn \<Rightarrow>
         (case dm_find ops rn (enc_domain ls @ [NUL]) wide of
            None \<Rightarrow> None
          | Some (Some ret) \<Rightarrow> Some (Some ret)
          | Some None \<Rightarrow> Some (first_vh (wide_list m))))"
  using tree_label_code [OF assms(3)] tree_step [OF assms(1,2)]
  unfolding enc_label_def by (simp add: Let_def split: option.splits)

lemma dm_del_label:
  assumes "label_tree_laws ops keys" "dm_ok ops keys m" "tree_label l"
  shows "dm_del ops wide m (enc_domain (l # ls) @ [NUL]) =
    (case kids m (enc_label l) of
       None \<Rightarrow> Some (None, m)
     | Some rn \<Rightarrow>
         map_option (\<lambda>(ret, rn).
             (ret, if is_empty ops rn then drop_child ops (enc_label l) m else set_child (enc_label l) rn m))
           (dm_del ops wide rn (enc_domain ls @ [NUL])))"
  using tree_label_code [OF assms(3)] tree_step [OF assms(1,2)]
  unfolding enc_label_def by (simp add: Let_def split: option.splits)

lemma dm_del_vh_label:
  assumes "label_tree_laws ops keys" "dm_ok ops keys m" "tree_label l"
  shows "dm_del_vh ops wide svh m (enc_domain (l # ls) @ [NUL]) =
    (case kids m (enc_label l) of
       None \<Rightarrow> Some (kgl_del_failed, m)
     | Some rn \<Rightarrow>
         (case dm_del_vh ops wide svh rn (enc_domain ls @ [NUL]) of
            None \<Rightarrow> None
          | Some (ret, rn) \<Rightarrow>
              (if ret = kgl_del_empty then
                 Some (if is_empty ops (drop_child ops (enc_label l) m) then kgl_del_empty else kgl_del_success,
                   drop_child ops (enc_label l) m)
               else Some (ret, set_child (enc_label l) rn m))))"
  using tree_label_code [OF assms(3)] tree_step [OF assms(1,2)]
  unfolding enc_label_def by (simp add: Let_def split: option.splits)

lemma dm_add_label:
  assumes "label_tree_laws ops keys" "dm_ok ops keys m" "tree_label l"
  obtains t where "keys t = insert (enc_label l) (dom (kids m))"
    "\<And>wide level svh ls. dm_add ops wide level svh m (enc_domain (l # ls) @ [NUL]) =
       map_option (\<lambda>(ret, rn). (ret, DMap (dname m) t ((kids m)(enc_label l \<mapsto> rn)) (wide_list m) (host_list m)))
         (dm_add ops wide level svh
            (case kids m (enc_label l) of None \<Rightarrow> new_dmap ops (enc_label l) | Some rn \<Rightarrow> rn)
            (enc_domain ls @ [NUL]))"
proof -
  let ?new = "kids m (enc_label l) = None"
  from label_tree_lawsD(2) [OF assms(1), of "tree m" "enc_label l"]
  have "\<exists>t. lt_insert ops (tree m) (enc_label l) = (t, enc_label l, ?new) \<and> keys t = insert (enc_label l) (dom (kids m))"
    unfolding dm_okD(1) [OF assms(2)] by (simp add: domIff)
  then obtain t where t: "lt_insert ops (tree m) (enc_label l) = (t, enc_label l, ?new)"
    "keys t = insert (enc_label l) (dom (kids m))"
    by blast
  show ?thesis
  proof (rule that [OF t(2)], goal_cases)
    case (1 wide level svh ls)
    show ?case
      using tree_label_code [OF assms(3)] t(1)
      unfolding enc_label_def by (simp add: Let_def split: option.splits)
  qed
qed

section \<open>Lookup\<close>

text \<open>
  The host a request for the domain \<open>ls\<close> goes to, from the bindings alone: the first host bound to
  exactly this name, else the first wildcard of the longest domain above it that has one.
\<close>

definition best_match :: "(string list \<Rightarrow> bool \<Rightarrow> 'v list) \<Rightarrow> string list \<Rightarrow> bool \<Rightarrow> 'v option" where
  "best_match bs ls wide =
     (case bs ls wide of
        svh # _ \<Rightarrow> Some svh
      | [] \<Rightarrow>
          (case filter (\<lambda>n. bs (take n ls) True \<noteq> []) (rev [0..<length ls]) of
             [] \<Rightarrow> None
           | n # _ \<Rightarrow> Some (hd (bs (take n ls) True))))"

lemma rev_upt_Suc: "rev [0..<Suc n] = map Suc (rev [0..<n]) @ [0]"
  by (simp only: upt_conv_Cons [OF zero_less_Suc] map_Suc_upt [symmetric] rev.simps rev_map)

lemma first_vh_hd: "first_vh l = (if l = [] then None else Some (hd l))"
  by (cases l) (auto simp: first_vh_def)

lemma best_match_Cons:
  "best_match bs (l # ls) wide =
     (case best_match (\<lambda>ls. bs (l # ls)) ls wide of
        Some svh \<Rightarrow> Some svh
      | None \<Rightarrow> first_vh (bs [] True))"
  by (auto simp: best_match_def rev_upt_Suc filter_map o_def first_vh_hd simp del: upt_Suc split: list.splits)

lemma best_match_empty: "best_match (\<lambda>ls wide. []) ls wide = None"
  by (simp add: best_match_def)

lemma dm_find_best:
  assumes "label_tree_laws ops keys"
  shows "dm_ok ops keys m \<Longrightarrow> \<forall>l\<in>set ls. tree_label l \<Longrightarrow>
    dm_find ops m (enc_domain ls @ [NUL]) wide = Some (best_match (binds m) ls wide)"
proof (induction ls arbitrary: m)
  case Nil
  then show ?case by (simp add: best_match_def first_vh_def NUL_def split: list.splits)
next
  case (Cons l ls)
  then have l: "tree_label l" by simp
  show ?case
  proof (cases "kids m (enc_label l)")
    case None
    then have "(\<lambda>ls. binds m (l # ls)) = (\<lambda>ls wide. [])" by (auto simp: fun_eq_iff)
    with None show ?thesis
      by (simp only: dm_find_label [OF assms Cons.prems(1) l] best_match_Cons best_match_empty option.case binds.simps if_True)
  next
    case (Some rn)
    then have "(\<lambda>ls. binds m (l # ls)) = binds rn" by (auto simp: fun_eq_iff)
    moreover have "dm_find ops rn (enc_domain ls @ [NUL]) wide = Some (best_match (binds rn) ls wide)"
      using Cons.IH [of rn] dm_okD(2) [OF Cons.prems(1) Some] Cons.prems(2) by simp
    ultimately show ?thesis
      using Some by (simp only: dm_find_label [OF assms Cons.prems(1) l] best_match_Cons) (auto split: option.splits)
  qed
qed

section \<open>Binding and unbinding\<close>

text \<open>What an operation does to the list of hosts of one name.\<close>

definition bind_list :: "kgl_bind_level \<Rightarrow> 'v \<Rightarrow> 'v list \<Rightarrow> (bool \<times> 'v list) option" where
  "bind_list level svh l =
     (if level = kgl_bind_high then Some (True, svh # l)
      else if level = kgl_bind_unique \<and> l \<noteq> [] then Some (False, l)
      else if svh \<in> set l then None
      else Some (True, l @ [svh]))"

definition upd_binds ::
  "('a \<Rightarrow> 'b \<Rightarrow> 'c) \<Rightarrow> 'a \<Rightarrow> 'b \<Rightarrow> 'c \<Rightarrow> 'a \<Rightarrow> 'b \<Rightarrow> 'c" where
  "upd_binds bs ls wide l = (\<lambda>ls' wide'. if ls' = ls \<and> wide' = wide then l else bs ls' wide')"

text \<open>All hosts of a trie, each as often as it is bound.\<close>

definition hosts :: "'t label_tree \<Rightarrow> ('t, 'v) dmap \<Rightarrow> 'v multiset" where
  "hosts ops m = mset (clear_calls ops m)"

definition child_hosts :: "'t label_tree \<Rightarrow> ('t, 'v) dmap option \<Rightarrow> 'v multiset" where
  "child_hosts ops c = (case c of None \<Rightarrow> {#} | Some rn \<Rightarrow> hosts ops rn)"

lemma hosts_sum:
  assumes "label_tree_laws ops keys"
  shows "hosts ops m = mset (host_list m) + mset (wide_list m) + (\<Sum>k\<in>keys (tree m). child_hosts ops (kids m k))"
proof (cases m)
  case (DMap nm t ks w l)
  have "mset (case map_option (clear_calls ops) (ks k) of None \<Rightarrow> [] | Some vs \<Rightarrow> vs) = child_hosts ops (ks k)" for k
    by (simp add: child_hosts_def hosts_def split: option.split)
  then show ?thesis
    using label_tree_lawsD(5,6) [OF assms, of t] DMap
    by (simp add: hosts_def mset_concat o_def sum_list_distinct_conv_sum_set)
qed

lemma keys_finite: "label_tree_laws ops keys \<Longrightarrow> finite (keys t)"
  by (metis label_tree_lawsD(5) List.finite_set)

lemma child_hosts_sum:
  assumes "finite K" "k \<notin> K"
  shows "(\<Sum>j\<in>(if c = None then K else insert k K). child_hosts ops ((f(k := c)) j))
    = (\<Sum>j\<in>K. child_hosts ops (f j)) + child_hosts ops c"
proof -
  have "(\<Sum>j\<in>K. child_hosts ops ((f(k := c)) j)) = (\<Sum>j\<in>K. child_hosts ops (f j))"
    using assms(2) by (intro sum.cong) auto
  then show ?thesis using assms by (cases c) (simp_all add: child_hosts_def add.commute)
qed

text \<open>Replacing one child, which may be a new one or none.\<close>

lemma hosts_upd:
  assumes laws: "label_tree_laws ops keys" and "dm_ok ops keys m"
    and "keys t = dom ((kids m)(k := c))"
  shows "hosts ops (DMap (dname m) t ((kids m)(k := c)) (wide_list m) (host_list m)) + child_hosts ops (kids m k)
    = hosts ops m + child_hosts ops c"
proof -
  let ?K = "dom (kids m) - {k}"
  have fin: "finite ?K" "k \<notin> ?K" using keys_finite [OF laws] dm_okD(1) [OF assms(2)] by (simp_all flip: dm_okD(1) [OF assms(2)])
  have "dom ((kids m)(k := c)) = (if c = None then ?K else insert k ?K)"
    and "dom (kids m) = (if kids m k = None then ?K else insert k ?K)" by auto
  with child_hosts_sum [OF fin, of ops "kids m" c] child_hosts_sum [OF fin, of ops "kids m" "kids m k"]
  show ?thesis
    using assms(3) dm_okD(1) [OF assms(2)] by (simp add: hosts_sum [OF laws] del: dom_fun_upd fun_upd_apply)
qed

lemma dm_ok_upd:
  assumes "dm_ok ops keys m" "keys t = dom ((kids m)(enc_label l := c))" "tree_label l"
    and "\<And>rn. c = Some rn \<Longrightarrow> dm_ok ops keys rn \<and> \<not> is_empty ops rn \<and> dname rn = enc_label l"
  shows "dm_ok ops keys (DMap (dname m) t ((kids m)(enc_label l := c)) (wide_list m) (host_list m))"
  using assms dm_okD(2,3) [OF assms(1)] by (intro dm_okI) (auto split: if_splits)

lemma binds_upd:
  "binds (DMap nm t ((kids m)(enc_label l := c)) (wide_list m) (host_list m)) ls' wide =
    (case ls' of
       [] \<Rightarrow> binds m [] wide
     | l' # r \<Rightarrow> if l' = l then (case c of None \<Rightarrow> [] | Some rn \<Rightarrow> binds rn r wide) else binds m ls' wide)"
  by (cases ls') (auto simp: enc_label_inj)

lemma upd_binds_Cons:
  assumes "\<And>ls' w. (case c of None \<Rightarrow> [] | Some rn \<Rightarrow> binds rn ls' w) = upd_binds (\<lambda>r. binds m (l # r)) ls wide new ls' w"
  shows "binds (DMap nm t ((kids m)(enc_label l := c)) (wide_list m) (host_list m)) = upd_binds (binds m) (l # ls) wide new"
  using assms by (auto simp: fun_eq_iff binds_upd upd_binds_def split: list.split)

lemma set_binds_sel [simp]:
  "dname (set_binds wide l m) = dname m" "tree (set_binds wide l m) = tree m" "kids (set_binds wide l m) = kids m"
  "wide_list (set_binds wide l m) = (if wide then l else wide_list m)"
  "host_list (set_binds wide l m) = (if wide then host_list m else l)"
  by (simp_all add: set_binds_def)

lemma dm_ok_set_binds: "dm_ok ops keys m \<Longrightarrow> dm_ok ops keys (set_binds wide l m)"
  by (intro dm_okI) (use dm_okD [of ops keys m] in simp_all)

lemma binds_set_binds: "binds (set_binds wide l m) = upd_binds (binds m) [] wide l"
proof (intro ext)
  fix ls w
  show "binds (set_binds wide l m) ls w = upd_binds (binds m) [] wide l ls w"
    by (cases ls) (auto simp: upd_binds_def)
qed

lemma hosts_set_binds:
  "label_tree_laws ops keys \<Longrightarrow>
   hosts ops (set_binds wide l m) + mset (binds m [] wide) = hosts ops m + mset l"
  by (simp add: hosts_sum)

lemma add_here_list:
  "add_here wide level svh m =
     map_option (\<lambda>(ok, l). (ok, set_binds wide l m)) (bind_list level svh (binds m [] wide))"
  by (cases m) (auto simp: add_here_def bind_list_def set_binds_def)

lemma bind_list_Some:
  "bind_list level svh l = Some (ok, new) \<Longrightarrow> new \<noteq> [] \<and> mset new = mset l + (if ok then {#svh#} else {#})"
  by (auto simp: bind_list_def split: if_splits)

lemma not_empty_list: "binds m [] wide \<noteq> [] \<Longrightarrow> \<not> is_empty ops m"
  by (auto simp: is_empty_def split: if_splits)

definition updates ::
  "'t label_tree \<Rightarrow> ('t \<Rightarrow> string set) \<Rightarrow> ('t, 'v) dmap \<Rightarrow> string list \<Rightarrow> bool \<Rightarrow> 'v list \<Rightarrow> ('t, 'v) dmap \<Rightarrow> bool" where
  "updates ops keys m ls wide new m' \<longleftrightarrow>
     dm_ok ops keys m' \<and> dname m' = dname m \<and> binds m' = upd_binds (binds m) ls wide new \<and>
     hosts ops m' + mset (binds m ls wide) = hosts ops m + mset new"

lemma updates_here:
  assumes "label_tree_laws ops keys" "dm_ok ops keys m"
  shows "updates ops keys m [] wide new (set_binds wide new m)"
  using assms hosts_set_binds [OF assms(1), of wide new m]
  by (simp add: updates_def dm_ok_set_binds binds_set_binds)

text \<open>An update of a child is an update of the node.\<close>

lemma updates_child:
  assumes laws: "label_tree_laws ops keys" and ok: "dm_ok ops keys m" and l: "tree_label l"
    and rn: "case kids m (enc_label l) of None \<Rightarrow> rn = new_dmap ops (enc_label l) | Some c \<Rightarrow> rn = c"
    and upd: "updates ops keys rn ls wide new rn'"
    and c: "c = None \<and> (\<forall>ls' w. binds rn' ls' w = []) \<and> hosts ops rn' = {#} \<or> c = Some rn' \<and> \<not> is_empty ops rn'"
    and t: "keys t = dom ((kids m)(enc_label l := c))"
  shows "updates ops keys m (l # ls) wide new (DMap (dname m) t ((kids m)(enc_label l := c)) (wide_list m) (host_list m))"
proof -
  let ?m = "DMap (dname m) t ((kids m)(enc_label l := c)) (wide_list m) (host_list m)"
  have name: "dname rn = enc_label l"
    using rn dm_okD(2) [OF ok, of "enc_label l"] by (auto simp: new_dmap_def split: option.splits)
  have below: "binds m (l # r) w = binds rn r w" for r w
    using rn by (auto split: option.splits)
  have hrn: "child_hosts ops (kids m (enc_label l)) = hosts ops rn"
    using rn laws by (auto simp: child_hosts_def hosts_sum [OF laws] new_dmap_def label_tree_laws_def split: option.splits)
  have "dm_ok ops keys ?m"
    using dm_ok_upd [OF ok t l] upd c name by (auto simp: updates_def)
  moreover have "binds ?m = upd_binds (binds m) (l # ls) wide new"
  proof (rule upd_binds_Cons)
    fix ls' w
    show "(case c of None \<Rightarrow> [] | Some rn \<Rightarrow> binds rn ls' w) = upd_binds (\<lambda>r. binds m (l # r)) ls wide new ls' w"
    proof -
      have "(case c of None \<Rightarrow> [] | Some rn \<Rightarrow> binds rn ls' w) = binds rn' ls' w" using c by auto
      also have "\<dots> = upd_binds (binds rn) ls wide new ls' w" using upd by (simp add: updates_def)
      finally show ?thesis by (simp only: upd_binds_def below)
    qed
  qed
  moreover have "hosts ops ?m + mset (binds m (l # ls) wide) = hosts ops m + mset new"
  proof -
    have "child_hosts ops c = hosts ops rn'" using c by (auto simp: child_hosts_def)
    then have "hosts ops ?m + hosts ops rn = hosts ops m + hosts ops rn'"
      using hosts_upd [OF laws ok t] hrn by simp
    moreover have "hosts ops rn' + mset (binds rn ls wide) = hosts ops rn + mset new"
      using upd by (simp add: updates_def)
    ultimately have "hosts ops ?m + mset (binds rn ls wide) + hosts ops rn = hosts ops m + mset new + hosts ops rn"
      by (metis add.assoc add.commute)
    then show ?thesis unfolding below by simp
  qed
  ultimately show ?thesis by (simp add: updates_def)
qed

lemma dm_add_updates:
  assumes laws: "label_tree_laws ops keys"
  shows "dm_ok ops keys m \<Longrightarrow> \<forall>l\<in>set ls. tree_label l \<Longrightarrow>
    bind_list level svh (binds m ls wide) = Some (ok, new) \<Longrightarrow>
    \<exists>m'. dm_add ops wide level svh m (enc_domain ls @ [NUL]) = Some (ok, m') \<and> updates ops keys m ls wide new m' \<and> \<not> is_empty ops m'"
proof (induction ls arbitrary: m)
  case Nil
  have "new \<noteq> []" using bind_list_Some [OF Nil.prems(3)] by simp
  then have "\<not> is_empty ops (set_binds wide new m)" by (cases wide) (simp_all add: is_empty_def)
  then show ?case
    using Nil.prems updates_here [OF laws Nil.prems(1)] by (simp add: add_here_list)
next
  case (Cons l ls)
  let ?rn = "case kids m (enc_label l) of None \<Rightarrow> new_dmap ops (enc_label l) | Some rn \<Rightarrow> rn"
  have l: "tree_label l" using Cons.prems(2) by simp
  have rn: "dm_ok ops keys ?rn" "binds m (l # ls) wide = binds ?rn ls wide"
    using dm_ok_new [OF laws] dm_okD(2) [OF Cons.prems(1)] by (auto split: option.splits)
  then obtain rn' where rn': "dm_add ops wide level svh ?rn (enc_domain ls @ [NUL]) = Some (ok, rn')"
    "updates ops keys ?rn ls wide new rn'" "\<not> is_empty ops rn'"
    using Cons.IH [OF rn(1)] Cons.prems(2,3) by auto
  obtain t where t: "keys t = insert (enc_label l) (dom (kids m))"
    "dm_add ops wide level svh m (enc_domain (l # ls) @ [NUL]) =
       map_option (\<lambda>(ret, rn). (ret, DMap (dname m) t ((kids m)(enc_label l \<mapsto> rn)) (wide_list m) (host_list m)))
         (dm_add ops wide level svh ?rn (enc_domain ls @ [NUL]))"
    using dm_add_label [OF laws Cons.prems(1) l] by metis
  let ?m = "DMap (dname m) t ((kids m)(enc_label l \<mapsto> rn')) (wide_list m) (host_list m)"
  have "updates ops keys m (l # ls) wide new ?m"
    by (rule updates_child [OF laws Cons.prems(1) l _ rn'(2)]) (use rn'(3) t(1) in \<open>auto split: option.splits\<close>)
  moreover have "\<not> is_empty ops ?m"
    using t(1) by (simp add: is_empty_def label_tree_lawsD(4) [OF laws])
  ultimately show ?case using t(2) rn'(1) by simp
qed

text \<open>A node without hosts below it is empty.\<close>

lemma empty_binds:
  assumes "label_tree_laws ops keys" "dm_ok ops keys m" "is_empty ops m"
  shows "(\<forall>ls w. binds m ls w = []) \<and> hosts ops m = {#}"
proof (intro conjI allI)
  fix ls w
  show "binds m ls w = []"
    using is_empty_kids [OF assms(1,2)] assms(3) by (cases ls) auto
next
  show "hosts ops m = {#}"
    using is_empty_kids [OF assms(1,2)] assms(3) dm_okD(1) [OF assms(2)]
    by (simp add: hosts_sum [OF assms(1)] child_hosts_def)
qed

text \<open>Putting the child back, or dropping it when nothing is left in it.\<close>

definition put_back :: "'t label_tree \<Rightarrow> string \<Rightarrow> ('t, 'v) dmap \<Rightarrow> ('t, 'v) dmap \<Rightarrow> ('t, 'v) dmap" where
  "put_back ops node rn m = (if is_empty ops rn then drop_child ops node m else set_child node rn m)"

lemma updates_put_back:
  assumes laws: "label_tree_laws ops keys" and ok: "dm_ok ops keys m" and l: "tree_label l"
    and rn: "kids m (enc_label l) = Some rn" and upd: "updates ops keys rn ls wide new rn'"
  shows "updates ops keys m (l # ls) wide new (put_back ops (enc_label l) rn' m)"
proof -
  have ok': "dm_ok ops keys rn'" using upd by (simp add: updates_def)
  note child = updates_child [OF laws ok l _ upd]
  show ?thesis
  proof (cases "is_empty ops rn'")
    case True
    have "keys (lt_remove ops (tree m) (enc_label l)) = dom ((kids m)(enc_label l := None))"
      by (simp add: label_tree_lawsD(3) [OF laws] dm_okD(1) [OF ok])
    from child [OF _ _ this] show ?thesis
      using empty_binds [OF laws ok' True] rn True by (simp add: put_back_def drop_child_def)
  next
    case False
    have "keys (tree m) = dom ((kids m)(enc_label l \<mapsto> rn'))"
      using rn dm_okD(1) [OF ok] by (auto simp: dom_def)
    from child [OF _ _ this] show ?thesis
      using rn False by (simp add: put_back_def set_child_def)
  qed
qed

lemma set_child_same [simp]: "kids m k = Some rn \<Longrightarrow> set_child k rn m = m"
  by (cases m) (auto simp: set_child_def fun_upd_idem)

lemma put_back_same:
  "dm_ok ops keys m \<Longrightarrow> kids m k = Some rn \<Longrightarrow> put_back ops k rn m = m"
  using dm_okD(2) [of ops keys m k rn] by (simp add: put_back_def)

lemma dm_del_updates:
  assumes laws: "label_tree_laws ops keys"
  shows "dm_ok ops keys m \<Longrightarrow> \<forall>l\<in>set ls. tree_label l \<Longrightarrow>
    \<exists>m'. dm_del ops wide m (enc_domain ls @ [NUL]) = Some (first_vh (binds m ls wide), m') \<and>
      (if binds m ls wide = [] then m' = m else updates ops keys m ls wide (tl (binds m ls wide)) m')"
proof (induction ls arbitrary: m)
  case Nil
  then show ?case
    using updates_here [OF laws Nil.prems(1), of wide]
    by (auto simp: first_vh_def split: list.splits)
next
  case (Cons l ls)
  have l: "tree_label l" using Cons.prems(2) by simp
  note step = dm_del_label [OF laws Cons.prems(1) l, folded put_back_def]
  show ?case
  proof (cases "kids m (enc_label l)")
    case None
    with step show ?thesis by (simp add: first_vh_def)
  next
    case (Some rn)
    have below: "binds m (l # ls) wide = binds rn ls wide" using Some by simp
    obtain rn' where rn': "dm_del ops wide rn (enc_domain ls @ [NUL]) = Some (first_vh (binds rn ls wide), rn')"
      "if binds rn ls wide = [] then rn' = rn else updates ops keys rn ls wide (tl (binds rn ls wide)) rn'"
      using Cons.IH [of rn] dm_okD(2) [OF Cons.prems(1) Some] Cons.prems(2) by auto
    have "dm_del ops wide m (enc_domain (l # ls) @ [NUL]) = Some (first_vh (binds rn ls wide), put_back ops (enc_label l) rn' m)"
      using step [of wide ls] Some rn'(1) by simp
    then show ?thesis
      using rn'(2) put_back_same [OF Cons.prems(1) Some] updates_put_back [OF laws Cons.prems(1) l Some]
      unfolding below by (auto split: if_splits)
  qed
qed

lemma dm_del_vh_updates:
  assumes laws: "label_tree_laws ops keys"
  shows "dm_ok ops keys m \<Longrightarrow> \<forall>l\<in>set ls. tree_label l \<Longrightarrow>
    (if svh \<in> set (binds m ls wide) then
       \<exists>m'. dm_del_vh ops wide svh m (enc_domain ls @ [NUL]) =
           Some (if is_empty ops m' then kgl_del_empty else kgl_del_success, m') \<and>
         updates ops keys m ls wide (remove1 svh (binds m ls wide)) m'
     else dm_del_vh ops wide svh m (enc_domain ls @ [NUL]) = Some (kgl_del_failed, m))"
proof (induction ls arbitrary: m)
  case Nil
  then show ?case
    using updates_here [OF laws Nil.prems(1), of wide] by (simp add: Let_def)
next
  case (Cons l ls)
  have l: "tree_label l" using Cons.prems(2) by simp
  note step = dm_del_vh_label [OF laws Cons.prems(1) l]
  show ?case
  proof (cases "kids m (enc_label l)")
    case None
    with step show ?thesis by simp
  next
    case (Some rn)
    have below: "binds m (l # ls) wide = binds rn ls wide" using Some by simp
    note IH = Cons.IH [of rn]
    have rn: "dm_ok ops keys rn" using dm_okD(2) [OF Cons.prems(1) Some] by simp
    show ?thesis
    proof (cases "svh \<in> set (binds rn ls wide)")
      case False
      then show ?thesis
        using IH [OF rn] Cons.prems(2) step [of wide svh ls] Some unfolding below by simp
    next
      case True
      then obtain rn' where rn': "dm_del_vh ops wide svh rn (enc_domain ls @ [NUL]) =
           Some (if is_empty ops rn' then kgl_del_empty else kgl_del_success, rn')"
        "updates ops keys rn ls wide (remove1 svh (binds rn ls wide)) rn'"
        using IH [OF rn] Cons.prems(2) by auto
      let ?m = "put_back ops (enc_label l) rn' m"
      have "\<not> is_empty ops (set_child (enc_label l) rn' m)"
        using Some dm_okD(1) [OF Cons.prems(1)]
        by (auto simp: is_empty_def set_child_def label_tree_lawsD(4) [OF laws])
      then have "dm_del_vh ops wide svh m (enc_domain (l # ls) @ [NUL]) =
          Some (if is_empty ops ?m then kgl_del_empty else kgl_del_success, ?m)"
        using step [of wide svh ls] Some rn'(1) by (simp add: put_back_def)
      then show ?thesis
        using True updates_put_back [OF laws Cons.prems(1) l Some rn'(2)] unfolding below by auto
    qed
  qed
qed

section \<open>The trie as a table of bindings\<close>

text \<open>The operations on host names, and the same operations on the table of bindings alone.\<close>

datatype 'v dom_op = Bind string 'v kgl_bind_level | Unbind string | Unbind_vh string 'v

fun run_op ::
  "(char \<Rightarrow> char) \<Rightarrow> 't label_tree \<Rightarrow> 'v dom_op \<Rightarrow> ('t, 'v) dmap \<Rightarrow> ('t, 'v) dmap option" where
  "run_op lower ops (Bind domain svh level) m = map_option snd (dm_bind lower ops domain svh level m)"
| "run_op lower ops (Unbind domain) m = map_option snd (dm_unbind lower ops domain m)"
| "run_op lower ops (Unbind_vh domain svh) m = map_option snd (dm_unbind_vh lower ops domain svh m)"

fun run_ops ::
  "(char \<Rightarrow> char) \<Rightarrow> 't label_tree \<Rightarrow> 'v dom_op list \<Rightarrow> ('t, 'v) dmap \<Rightarrow> ('t, 'v) dmap option" where
  "run_ops lower ops [] m = Some m"
| "run_ops lower ops (a # as) m =
     (case run_op lower ops a m of None \<Rightarrow> None | Some m \<Rightarrow> run_ops lower ops as m)"

definition parse_domain :: "(char \<Rightarrow> char) \<Rightarrow> string \<Rightarrow> (bool \<times> string list) option" where
  "parse_domain lower domain =
     (let wide = (domain \<noteq> [] \<and> hd domain = CHR ''*'');
          ls = labels (if wide then tl domain else domain) in
      if (\<forall>l\<in>set ls. length l \<le> 63) \<and> length (enc_domain ls) < 256
      then Some (wide, map (map lower) (rev ls)) else None)"

definition op_domain :: "'v dom_op \<Rightarrow> string" where
  "op_domain a = (case a of Bind domain _ _ \<Rightarrow> domain | Unbind domain \<Rightarrow> domain | Unbind_vh domain _ \<Rightarrow> domain)"

definition spec_list :: "'v dom_op \<Rightarrow> 'v list \<Rightarrow> 'v list option" where
  "spec_list a l =
     (case a of
        Bind _ svh level \<Rightarrow> map_option snd (bind_list level svh l)
      | Unbind _ \<Rightarrow> Some (tl l)
      | Unbind_vh _ svh \<Rightarrow> Some (remove1 svh l))"

definition spec_op ::
  "(char \<Rightarrow> char) \<Rightarrow> 'v dom_op \<Rightarrow> (string list \<Rightarrow> bool \<Rightarrow> 'v list) \<Rightarrow> (string list \<Rightarrow> bool \<Rightarrow> 'v list) option" where
  "spec_op lower a bs =
     (case parse_domain lower (op_domain a) of
        None \<Rightarrow> Some bs
      | Some (wide, ls) \<Rightarrow> map_option (upd_binds bs ls wide) (spec_list a (bs ls wide)))"

fun spec_ops ::
  "(char \<Rightarrow> char) \<Rightarrow> 'v dom_op list \<Rightarrow> (string list \<Rightarrow> bool \<Rightarrow> 'v list) \<Rightarrow> (string list \<Rightarrow> bool \<Rightarrow> 'v list) option" where
  "spec_ops lower [] bs = Some bs"
| "spec_ops lower (a # as) bs =
     (case spec_op lower a bs of None \<Rightarrow> None | Some bs \<Rightarrow> spec_ops lower as bs)"

lemma parse_domain_labels: "parse_domain lower domain = Some (wide, ls) \<Longrightarrow> \<forall>l\<in>set ls. tree_label l"
proof -
  assume p: "parse_domain lower domain = Some (wide, ls)"
  then obtain src where src: "ls = map (map lower) (rev (labels src))" "\<forall>l\<in>set (labels src). length l \<le> 63"
    unfolding parse_domain_def Let_def by (auto split: if_splits)
  show ?thesis
  proof
    fix l
    assume "l \<in> set ls"
    then obtain l' where "l' \<in> set (labels src)" "l = map lower l'" unfolding src(1) by auto
    then show "tree_label l" using src(2) Nil_notin_labels [of src] by (auto simp: tree_label_def)
  qed
qed

lemma convert_parse:
  "case parse_domain lower domain of
     Some (wide, ls) \<Rightarrow> convert lower domain 256 = Some (True, wide, enc_domain ls @ [NUL])
   | None \<Rightarrow> \<exists>wide buf. convert lower domain 256 = Some (False, wide, buf)"
proof -
  define wide where "wide = (domain \<noteq> [] \<and> hd domain = CHR ''*'')"
  define src where "src = (if wide then tl domain else domain)"
  have conv: "convert lower domain 256 = map_option (\<lambda>(ok, buf). (ok, wide, buf)) (revert_hostname lower src 256)"
    by (simp add: convert_def wide_def src_def Let_def)
  show ?thesis
  proof (cases "(\<forall>l\<in>set (labels src). length l \<le> 63) \<and> length (enc_domain (labels src)) < 256")
    case True
    then have "revert_hostname lower src 256 = Some (True, enc_domain (map (map lower) (rev (labels src))) @ [NUL])"
      using length_labels_le [of src] by (intro revert_hostname_accepts) auto
    with True conv show ?thesis by (simp add: parse_domain_def wide_def src_def Let_def)
  next
    case False
    obtain ok buf where r: "revert_hostname lower src 256 = Some (ok, buf @ [NUL])"
      "ok \<Longrightarrow> \<forall>l\<in>set (labels src). length l \<le> 63" "ok \<Longrightarrow> length (enc_domain (labels src)) < 256"
      by (rule revert_hostname_result [of 256 lower src]) auto
    with False have "\<not> ok" by blast
    moreover have "parse_domain lower domain = None"
      using False by (auto simp: parse_domain_def Let_def wide_def [symmetric] src_def [symmetric])
    ultimately show ?thesis using conv r(1) by simp
  qed
qed

lemma run_op_refines:
  assumes laws: "label_tree_laws ops keys" and ok: "dm_ok ops keys m"
    and spec: "spec_op lower a (binds m) = Some bs"
  shows "\<exists>m'. run_op lower ops a m = Some m' \<and> dm_ok ops keys m' \<and> binds m' = bs"
proof (cases "parse_domain lower (op_domain a)")
  case None
  with convert_parse [of lower "op_domain a"] spec ok show ?thesis
    by (cases a) (auto simp: op_domain_def spec_op_def dm_bind_def dm_unbind_def dm_unbind_vh_def)
next
  case (Some p)
  obtain wide ls where p: "p = (wide, ls)" by fastforce
  note conv = convert_parse [of lower "op_domain a", unfolded Some p option.case prod.case]
  note labs = parse_domain_labels [OF Some [unfolded p]]
  from spec obtain l where l: "spec_list a (binds m ls wide) = Some l" "bs = upd_binds (binds m) ls wide l"
    by (auto simp: spec_op_def Some p)
  have same: "bs = binds m" if "l = binds m ls wide"
    using l(2) that by (auto simp: upd_binds_def fun_eq_iff)
  show ?thesis
  proof (cases a)
    case (Bind domain svh level)
    with l(1) obtain res where "bind_list level svh (binds m ls wide) = Some (res, l)"
      by (auto simp: spec_list_def)
    from dm_add_updates [OF laws ok labs this] Bind conv l(2) show ?thesis
      by (auto simp: op_domain_def dm_bind_def updates_def)
  next
    case (Unbind domain)
    with l(1) have "l = tl (binds m ls wide)" by (simp add: spec_list_def)
    with dm_del_updates [OF laws ok labs, of wide] Unbind conv l(2) ok same show ?thesis
      by (auto simp: op_domain_def dm_unbind_def updates_def split: if_splits)
  next
    case (Unbind_vh domain svh)
    with l(1) have "l = remove1 svh (binds m ls wide)" by (simp add: spec_list_def)
    with dm_del_vh_updates [OF laws ok labs, of svh wide] Unbind_vh conv l(2) ok same show ?thesis
      by (auto simp: op_domain_def dm_unbind_vh_def updates_def remove1_idem split: if_splits)
  qed
qed

lemma run_ops_refines:
  assumes laws: "label_tree_laws ops keys"
  shows "dm_ok ops keys m \<Longrightarrow> spec_ops lower as (binds m) = Some bs \<Longrightarrow>
    \<exists>m'. run_ops lower ops as m = Some m' \<and> dm_ok ops keys m' \<and> binds m' = bs"
proof (induction as arbitrary: m)
  case (Cons a as)
  then obtain bs1 where bs1: "spec_op lower a (binds m) = Some bs1" "spec_ops lower as bs1 = Some bs"
    by (auto split: option.splits)
  from run_op_refines [OF laws Cons.prems(1) bs1(1)] obtain m1 where
    "run_op lower ops a m = Some m1" "dm_ok ops keys m1" "binds m1 = bs1" by blast
  with Cons.IH [of m1] bs1(2) show ?case by simp
qed simp

text \<open>A tree of labels that keeps the laws: a list.\<close>

definition list_tree :: "string list label_tree" where
  "list_tree = \<lparr>lt_empty = [], lt_find = (\<lambda>t k. if k \<in> set t then Some k else None),
     lt_insert = (\<lambda>t k. (if k \<in> set t then t else k # t, k, k \<notin> set t)),
     lt_remove = (\<lambda>t k. removeAll k t), lt_is_empty = (\<lambda>t. t = []), lt_items = remdups\<rparr>"

lemma list_tree_laws: "label_tree_laws list_tree set"
  by (auto simp: label_tree_laws_def list_tree_def)

text \<open>
  C6. The trie is a table of bindings. Run any sequence of \<^verbatim>\<open>bind\<close>, \<^verbatim>\<open>unbind\<close> of a name and
  \<^verbatim>\<open>unbind\<close> of one host from an empty map, as long as no host is bound twice behind the
  other hosts of a name (which the code asserts). Then every operation returns, and every lookup
  answers what the table that results says: the first host of exactly this name, else the first
  wildcard of the longest domain above it that has one, else no host; a name that does not
  parse finds nothing.
\<close>

theorem domain_find_longest:
  fixes bs :: "string list \<Rightarrow> bool \<Rightarrow> 'v list"
  assumes "label_tree_laws ops keys" "spec_ops kgl_tolower as (\<lambda>ls wide. []) = Some bs"
  shows "\<exists>m. run_ops kgl_tolower ops as (new_dmap ops []) = Some m \<and>
    dm_find_domain kgl_tolower ops m domain =
      Some (case parse_domain kgl_tolower domain of None \<Rightarrow> None | Some (wide, ls) \<Rightarrow> best_match bs ls wide)"
proof -
  have "binds (new_dmap ops []) = (\<lambda>ls wide. ([] :: 'v list))" by (simp add: fun_eq_iff)
  with run_ops_refines [OF assms(1) dm_ok_new [OF assms(1)], of kgl_tolower as "[]"] assms(2)
  obtain m where m: "run_ops kgl_tolower ops as (new_dmap ops []) = Some m" "dm_ok ops keys m" "binds m = bs"
    by auto
  have "dm_find_domain kgl_tolower ops m domain =
      Some (case parse_domain kgl_tolower domain of None \<Rightarrow> None | Some (wide, ls) \<Rightarrow> best_match bs ls wide)"
    using convert_parse [of kgl_tolower domain] dm_find_best [OF assms(1) m(2)] parse_domain_labels [of kgl_tolower domain] m(3)
    by (auto simp: dm_find_domain_def split: option.splits)
  with m(1) show ?thesis by blast
qed

theorem domain_find_longest_witness:
  "\<exists>m. run_ops id list_tree [Bind ''*.a.com'' (1::nat) kgl_bind_low, Bind ''www.a.com'' 2 kgl_bind_low, Bind ''*'' 3 kgl_bind_low,
        Unbind ''*''] (new_dmap list_tree []) = Some m \<and>
     dm_find_domain id list_tree m ''img.a.com'' = Some (Some 1)"
proof -
  let ?as = "[Bind ''*.a.com'' (1::nat) kgl_bind_low, Bind ''www.a.com'' 2 kgl_bind_low, Bind ''*'' 3 kgl_bind_low, Unbind ''*'']"
  have parse: "parse_domain id ''*.a.com'' = Some (True, [''com'', ''a''])" "parse_domain id ''www.a.com'' = Some (False, [''com'', ''a'', ''www''])"
    "parse_domain id ''*'' = Some (True, [])" "parse_domain id ''img.a.com'' = Some (False, [''com'', ''a'', ''img''])"
    by code_simp+
  then have "\<exists>bs. spec_ops id ?as (\<lambda>ls wide. []) = Some bs \<and> best_match bs [''com'', ''a'', ''img''] False = Some 1"
    by (simp add: spec_op_def op_domain_def spec_list_def bind_list_def upd_binds_def best_match_def upt_rec)
  then obtain bs where bs: "spec_ops id ?as (\<lambda>ls wide. []) = Some bs" "best_match bs [''com'', ''a'', ''img''] False = Some 1"
    by blast
  with domain_find_longest [OF list_tree_laws bs(1), of "''img.a.com''"] parse show ?thesis by simp
qed

section \<open>The counts of the container\<close>

definition container_ok :: "'t label_tree \<Rightarrow> ('t \<Rightarrow> string set) \<Rightarrow> ('t, 'v) container \<Rightarrow> bool" where
  "container_ok ops keys c \<longleftrightarrow> dm_ok ops keys (vhc_root c) \<and> vhc_count c = int (size (hosts ops (vhc_root c)))"

text \<open>A sub host of the labels \<open>ls\<close>; \<^verbatim>\<open>KSubVirtualHost::setHost\<close> builds its domain.\<close>

fun host_of :: "string list \<times> bool \<times> 'v \<Rightarrow> 'v bound_host" where
  "host_of (ls, wide, svh) = \<lparr>bind_host = enc_domain ls @ [NUL], wide_host = wide, svh_id = svh\<rparr>"

fun abs_bind ::
  "kgl_bind_level \<Rightarrow> (string list \<times> bool \<times> 'v) list \<Rightarrow> (string list \<Rightarrow> bool \<Rightarrow> 'v list) \<Rightarrow> (string list \<Rightarrow> bool \<Rightarrow> 'v list) option" where
  "abs_bind level [] bs = Some bs"
| "abs_bind level ((ls, wide, svh) # hs) bs =
     (case bind_list level svh (bs ls wide) of
        None \<Rightarrow> None
      | Some (ok, l) \<Rightarrow> abs_bind level hs (upd_binds bs ls wide l))"

fun abs_unbind :: "string list \<times> bool \<times> 'v \<Rightarrow> (string list \<Rightarrow> bool \<Rightarrow> 'v list) \<Rightarrow> string list \<Rightarrow> bool \<Rightarrow> 'v list" where
  "abs_unbind (ls, wide, svh) bs = upd_binds bs ls wide (remove1 svh (bs ls wide))"

definition bind_level :: "bool \<Rightarrow> kgl_bind_level" where
  "bind_level high = (if high then kgl_bind_high else kgl_bind_low)"

lemma bind_list_level:
  "bind_list (bind_level high) svh l =
     (if high then Some (True, svh # l) else if svh \<in> set l then None else Some (True, l @ [svh]))"
  by (simp add: bind_list_def bind_level_def)

lemma bind_list_remove:
  "bind_list (bind_level high) svh l = Some (ok, new) \<Longrightarrow> remove1 svh new = l"
  by (auto simp: bind_list_level remove1_append split: if_splits)

lemma bind_list_commute:
  "bind_list (bind_level high) svh l = Some (ok, new) \<Longrightarrow> v \<noteq> svh \<Longrightarrow>
   bind_list (bind_level high) svh (remove1 v l) = Some (ok, remove1 v new)"
  by (auto simp: bind_list_level remove1_append remove1_idem split: if_splits)

lemma upd_binds_same [simp]: "upd_binds bs ls wide l ls wide = l"
  by (simp add: upd_binds_def)

lemma upd_binds_twice [simp]: "upd_binds (upd_binds bs ls wide l) ls wide l' = upd_binds bs ls wide l'"
  by (auto simp: upd_binds_def fun_eq_iff)

lemma upd_binds_idem [simp]: "upd_binds bs ls wide (bs ls wide) = bs"
  by (auto simp: upd_binds_def fun_eq_iff)

lemma upd_binds_commute:
  fixes bs :: "'a \<Rightarrow> 'b \<Rightarrow> 'c"
  assumes "(ls, wide) \<noteq> (ls', wide')"
  shows "upd_binds (upd_binds bs ls wide l) ls' wide' l' = upd_binds (upd_binds bs ls' wide' l') ls wide l"
    and "upd_binds bs ls' wide' l' ls wide = bs ls wide" "upd_binds bs ls wide l ls' wide' = bs ls' wide'"
  using assms by (auto simp: upd_binds_def fun_eq_iff)

lemma abs_unbind_other:
  assumes "(ls, wide) \<noteq> (ls', wide')"
  shows "abs_unbind (ls', wide', v) (upd_binds bs ls wide l) = upd_binds (abs_unbind (ls', wide', v) bs) ls wide l"
    and "abs_unbind (ls', wide', v) bs ls wide = bs ls wide"
  by (simp_all only: abs_unbind.simps upd_binds_commute(2,3) [OF assms] upd_binds_commute(1) [OF assms])

lemma abs_unbind_same:
  "abs_unbind (ls, wide, v) (upd_binds bs ls wide l) = upd_binds bs ls wide (remove1 v l)"
  "upd_binds (abs_unbind (ls, wide, v) bs) ls wide l = upd_binds bs ls wide l"
  "abs_unbind (ls, wide, v) bs ls wide = remove1 v (bs ls wide)"
  by simp_all

lemma abs_bind_commute:
  "abs_bind (bind_level high) hs bs = Some bs' \<Longrightarrow> v \<notin> (snd \<circ> snd) ` set hs \<Longrightarrow>
   abs_bind (bind_level high) hs (abs_unbind (ls, wide, v) bs) = Some (abs_unbind (ls, wide, v) bs')"
proof (induction hs arbitrary: bs)
  case (Cons h hs)
  obtain ls1 w1 v1 where h: "h = (ls1, w1, v1)" by (metis prod_cases3)
  with Cons.prems obtain ok l where l: "bind_list (bind_level high) v1 (bs ls1 w1) = Some (ok, l)"
    "abs_bind (bind_level high) hs (upd_binds bs ls1 w1 l) = Some bs'" and v: "v \<noteq> v1" "v \<notin> (snd \<circ> snd) ` set hs"
    by (auto split: option.splits)
  note IH = Cons.IH [OF l(2) v(2)]
  show ?case
  proof (cases "(ls1, w1) = (ls, wide)")
    case True
    then show ?thesis
      using IH bind_list_commute [OF l(1) v(1)] by (simp add: h abs_unbind_same del: abs_unbind.simps)
  next
    case False
    then show ?thesis
      using IH l(1) by (simp add: h abs_unbind_other [OF False] del: abs_unbind.simps)
  qed
qed simp

lemma abs_unbind_all:
  "abs_bind (bind_level high) hs bs = Some bs' \<Longrightarrow> distinct (map (snd \<circ> snd) hs) \<Longrightarrow> fold abs_unbind hs bs' = bs"
proof (induction hs arbitrary: bs bs')
  case (Cons h hs)
  obtain ls w v where h: "h = (ls, w, v)" by (metis prod_cases3)
  with Cons.prems obtain ok l where l: "bind_list (bind_level high) v (bs ls w) = Some (ok, l)"
    "abs_bind (bind_level high) hs (upd_binds bs ls w l) = Some bs'" and v: "v \<notin> (snd \<circ> snd) ` set hs"
    by (auto split: option.splits)
  have "abs_unbind (ls, w, v) (upd_binds bs ls w l) = bs"
    using bind_list_remove [OF l(1)] by simp
  with abs_bind_commute [OF l(2) v, of ls w]
  have "abs_bind (bind_level high) hs bs = Some (abs_unbind (ls, w, v) bs')" by simp
  with Cons.IH Cons.prems(2) show ?case by (simp add: h)
qed simp

lemma bind_vh_refines:
  assumes laws: "label_tree_laws ops keys"
  shows "container_ok ops keys c \<Longrightarrow> \<forall>h\<in>set hs. \<forall>l\<in>set (fst h). tree_label l \<Longrightarrow>
    abs_bind (bind_level high) hs (binds (vhc_root c)) = Some bs \<Longrightarrow>
    \<exists>c'. bind_vh ops high (map host_of hs) c = Some c' \<and> container_ok ops keys c' \<and> binds (vhc_root c') = bs \<and>
      vhc_count c' = vhc_count c + int (length hs) \<and> vhc_total_count c' = vhc_total_count c + int (length hs)"
proof (induction hs arbitrary: c)
  case (Cons h hs)
  obtain ls w v where h: "h = (ls, w, v)" by (metis prod_cases3)
  with Cons.prems obtain ok l where l: "bind_list (bind_level high) v (binds (vhc_root c) ls w) = Some (ok, l)"
    "abs_bind (bind_level high) hs (upd_binds (binds (vhc_root c)) ls w l) = Some bs"
    by (auto split: option.splits)
  then have ok: "ok" by (auto simp: bind_list_level split: if_splits)
  have root: "dm_ok ops keys (vhc_root c)" "\<forall>l\<in>set ls. tree_label l"
    using Cons.prems(1,2) by (auto simp: container_ok_def h)
  from dm_add_updates [OF laws root l(1)] obtain m where
    m: "dm_add ops w (bind_level high) v (vhc_root c) (enc_domain ls @ [NUL]) = Some (ok, m)"
    "updates ops keys (vhc_root c) ls w l m" by blast
  let ?c = "c\<lparr>vhc_root := m, vhc_count := vhc_count c + 1, vhc_total_count := vhc_total_count c + 1\<rparr>"
  have "size (hosts ops m) + size (binds (vhc_root c) ls w) = size (hosts ops (vhc_root c)) + length l"
    using m(2) by (metis updates_def size_union size_mset)
  moreover have "length l = Suc (size (binds (vhc_root c) ls w))"
    using l(1) by (auto simp: bind_list_level split: if_splits)
  ultimately have "container_ok ops keys ?c"
    using m(2) Cons.prems(1) by (simp add: container_ok_def updates_def)
  with Cons.IH [of ?c] m l(2) Cons.prems(2) show ?case
    by (auto simp: h ok bind_level_def updates_def)
qed auto

lemma unbind_vh_refines:
  assumes laws: "label_tree_laws ops keys"
  shows "container_ok ops keys c \<Longrightarrow> \<forall>h\<in>set hs. \<forall>l\<in>set (fst h). tree_label l \<Longrightarrow>
    \<exists>c'. unbind_vh ops (map host_of hs) c = Some c' \<and> container_ok ops keys c' \<and>
      binds (vhc_root c') = fold abs_unbind hs (binds (vhc_root c)) \<and> vhc_total_count c' = vhc_total_count c"
proof (induction hs arbitrary: c)
  case (Cons h hs)
  obtain ls w v where h: "h = (ls, w, v)" by (metis prod_cases3)
  have root: "dm_ok ops keys (vhc_root c)" "\<forall>l\<in>set ls. tree_label l"
    using Cons.prems(1,2) by (auto simp: container_ok_def h)
  let ?l = "binds (vhc_root c) ls w"
  note del = dm_del_vh_updates [OF laws root, of v w]
  show ?case
  proof (cases "v \<in> set ?l")
    case False
    then have "abs_unbind h (binds (vhc_root c)) = binds (vhc_root c)" by (simp add: h remove1_idem)
    moreover have "dm_del_vh ops w v (vhc_root c) (enc_domain ls @ [NUL]) = Some (kgl_del_failed, vhc_root c)"
      using del False by simp
    ultimately show ?thesis
      using Cons.IH [of c] Cons.prems by (simp add: h)
  next
    case True
    then obtain m where m: "dm_del_vh ops w v (vhc_root c) (enc_domain ls @ [NUL]) =
        Some (if is_empty ops m then kgl_del_empty else kgl_del_success, m)"
      "updates ops keys (vhc_root c) ls w (remove1 v ?l) m"
      using del by auto
    let ?c = "c\<lparr>vhc_root := m, vhc_count := vhc_count c - 1\<rparr>"
    have "size (hosts ops m) + length ?l = size (hosts ops (vhc_root c)) + length (remove1 v ?l)"
      using m(2) by (metis updates_def size_union size_mset)
    moreover have "length ?l = Suc (length (remove1 v ?l))"
      using True length_pos_if_in_set [OF True] by (simp add: length_remove1)
    ultimately have "container_ok ops keys ?c"
      using m(2) Cons.prems(1) by (simp add: container_ok_def updates_def)
    moreover have "binds m = abs_unbind h (binds (vhc_root c))" using m(2) by (simp add: h updates_def)
    ultimately show ?thesis
      using Cons.IH [of ?c] m(1) Cons.prems(2) by (simp add: h)
  qed
qed auto

text \<open>Binding fails only for a host that is bound already.\<close>

lemma abs_bind_defined:
  "distinct (map (snd \<circ> snd) hs) \<Longrightarrow> \<forall>(ls, wide, svh)\<in>set hs. svh \<notin> set (bs ls wide) \<Longrightarrow>
   \<exists>bs'. abs_bind (bind_level high) hs bs = Some bs'"
proof (induction hs arbitrary: bs)
  case (Cons h hs)
  obtain ls w v where h: "h = (ls, w, v)" by (metis prod_cases3)
  with Cons.prems obtain l where l: "bind_list (bind_level high) v (bs ls w) = Some (True, l)" "set l = insert v (set (bs ls w))"
    by (cases high) (auto simp: bind_list_level)
  have "v' \<notin> set (upd_binds bs ls w l ls' w')" if "(ls', w', v') \<in> set hs" for ls' w' v'
  proof -
    have "v' \<noteq> v" using that Cons.prems(1) by (force simp: h)
    moreover have "v' \<notin> set (bs ls' w')" using that Cons.prems(2) by auto
    ultimately show ?thesis
      using l(2) upd_binds_commute(3) [of ls w ls' w' bs l] by (cases "(ls, w) = (ls', w')") auto
  qed
  then obtain bs' where "abs_bind (bind_level high) hs (upd_binds bs ls w l) = Some bs'"
    using Cons.IH [of "upd_binds bs ls w l"] Cons.prems(1) by auto
  then show ?case using l(1) by (simp add: h)
qed simp

text \<open>The hosts of a trie follow from its bindings.\<close>

lemma kids_binds:
  assumes "label_tree_laws ops keys" "dm_ok ops keys m" "binds m = binds m'" "kids m k = Some rn"
  obtains rn' where "kids m' k = Some rn'" "binds rn = binds rn'"
proof -
  from dm_okD(2,3) [OF assms(2,4)] obtain l where l: "k = enc_label l" and rn: "dm_ok ops keys rn" "\<not> is_empty ops rn"
    by auto
  have below: "binds rn ls w = binds m' (l # ls) w" for ls w
    using assms(4) l unfolding assms(3) [symmetric] by simp
  obtain ls w where "binds rn ls w \<noteq> []" using binds_below [OF assms(1) rn] by blast
  then obtain rn' where rn': "kids m' k = Some rn'" unfolding below by (auto simp: l split: option.splits)
  then have "binds rn = binds rn'" using below by (simp add: fun_eq_iff l)
  with rn' show ?thesis by (rule that)
qed

lemma hosts_binds:
  assumes laws: "label_tree_laws ops keys"
  shows "dm_ok ops keys m \<Longrightarrow> dm_ok ops keys m' \<Longrightarrow> binds m = binds m' \<Longrightarrow> hosts ops m = hosts ops m'"
proof (induction m arbitrary: m')
  case (DMap nm t ks w l)
  let ?m = "DMap nm t ks w l"
  have kid: "child_hosts ops (ks k) = child_hosts ops (kids m' k) \<and> (ks k = None \<longleftrightarrow> kids m' k = None)" for k
  proof (cases "ks k")
    case None
    have "kids m' k = None"
    proof (rule ccontr)
      assume "kids m' k \<noteq> None"
      then obtain rn' where "kids m' k = Some rn'" by blast
      from kids_binds [OF laws DMap.prems(2) DMap.prems(3) [symmetric] this] None show False by auto
    qed
    with None show ?thesis by (simp add: child_hosts_def)
  next
    case (Some rn)
    then obtain rn' where rn': "kids m' k = Some rn'" "binds rn = binds rn'"
      using kids_binds [OF laws DMap.prems(1) DMap.prems(3)] by auto
    have "rn \<in> set_option (ks k)" "ks k \<in> range ks" by (simp add: Some) (rule rangeI)
    from DMap.IH [OF this(2,1)] have "hosts ops rn = hosts ops rn'"
      using dm_okD(2) [OF DMap.prems(1), of k rn] dm_okD(2) [OF DMap.prems(2) rn'(1)] rn'(2) Some by simp
    with Some rn' show ?thesis by (simp add: child_hosts_def)
  qed
  then have "keys t = keys (tree m')"
    using dm_okD(1) [OF DMap.prems(1)] dm_okD(1) [OF DMap.prems(2)] by (auto simp: dom_def)
  moreover have "w = wide_list m'" "l = host_list m'"
    using fun_cong [OF fun_cong [OF DMap.prems(3), of "[]"], of True] fun_cong [OF fun_cong [OF DMap.prems(3), of "[]"], of False]
    by simp_all
  ultimately show ?case using kid by (simp add: hosts_sum [OF laws])
qed

text \<open>
  \<^verbatim>\<open>unbind_vh\<close> undoes \<^verbatim>\<open>bind_vh\<close>. Bind the sub hosts of a virtual host, at either level, and
  unbind them again: both calls return, every name has the hosts it had before in the same order,
  and \<^verbatim>\<open>count\<close> is the number of hosts in the trie at each stage, while \<^verbatim>\<open>total_count\<close> keeps counting.
  The tree keeps no empty node on the way (\<open>dm_ok\<close>).
\<close>

theorem bind_unbind_restores:
  assumes "label_tree_laws ops keys" "container_ok ops keys c"
    and "\<forall>h\<in>set hs. \<forall>l\<in>set (fst h). tree_label l" "distinct (map (snd \<circ> snd) hs)"
    and "\<forall>(ls, wide, svh)\<in>set hs. svh \<notin> set (binds (vhc_root c) ls wide)"
  shows "\<exists>c1 c2. bind_vh ops high (map host_of hs) c = Some c1 \<and> unbind_vh ops (map host_of hs) c1 = Some c2 \<and>
    container_ok ops keys c1 \<and> container_ok ops keys c2 \<and> binds (vhc_root c2) = binds (vhc_root c) \<and>
    vhc_count c1 = vhc_count c + int (length hs) \<and> vhc_count c2 = vhc_count c \<and>
    vhc_total_count c2 = vhc_total_count c + int (length hs)"
proof -
  obtain bs where bs: "abs_bind (bind_level high) hs (binds (vhc_root c)) = Some bs"
    using abs_bind_defined assms(4,5) by blast
  from bind_vh_refines [OF assms(1-3) this] obtain c1 where
    c1: "bind_vh ops high (map host_of hs) c = Some c1" "container_ok ops keys c1" "binds (vhc_root c1) = bs"
      "vhc_count c1 = vhc_count c + int (length hs)" "vhc_total_count c1 = vhc_total_count c + int (length hs)"
    by blast
  from unbind_vh_refines [OF assms(1) c1(2) assms(3)] obtain c2 where
    c2: "unbind_vh ops (map host_of hs) c1 = Some c2" "container_ok ops keys c2"
      "binds (vhc_root c2) = fold abs_unbind hs bs" "vhc_total_count c2 = vhc_total_count c1"
    unfolding c1(3) by blast
  have "binds (vhc_root c2) = binds (vhc_root c)"
    unfolding c2(3) by (rule abs_unbind_all [OF bs assms(4)])
  moreover from this have "hosts ops (vhc_root c2) = hosts ops (vhc_root c)"
    using hosts_binds [OF assms(1)] c2(2) assms(2) unfolding container_ok_def by metis
  ultimately show ?thesis using c1 c2 assms(2) unfolding container_ok_def by auto
qed

theorem bind_unbind_restores_witness:
  "\<exists>c1 c2. bind_vh list_tree False (map host_of [([''com'', ''a''], False, 1), ([''com''], True, 2::nat)])
        \<lparr>vhc_count = 0, vhc_total_count = 0, vhc_root = new_dmap list_tree []\<rparr> = Some c1 \<and>
     unbind_vh list_tree (map host_of [([''com'', ''a''], False, 1), ([''com''], True, 2)]) c1 = Some c2 \<and>
     vhc_count c1 = 2 \<and> vhc_count c2 = 0 \<and> vhc_total_count c2 = 2"
proof -
  let ?c = "\<lparr>vhc_count = 0, vhc_total_count = 0, vhc_root = new_dmap list_tree [] :: (string list, nat) dmap\<rparr>"
  have "container_ok list_tree set ?c"
    using dm_ok_new [OF list_tree_laws] by (simp add: container_ok_def hosts_def new_dmap_def list_tree_def)
  note restores = bind_unbind_restores [OF list_tree_laws this, of "[([''com'', ''a''], False, 1), ([''com''], True, 2)]" False]
  have "\<forall>h\<in>set [([''com'', ''a''], False, 1::nat), ([''com''], True, 2)]. \<forall>l\<in>set (fst h). tree_label l"
    "distinct (map (snd \<circ> snd) [([''com'', ''a''], False, 1::nat), ([''com''], True, 2)])"
    "\<forall>(ls, wide, svh)\<in>set [([''com'', ''a''], False, 1::nat), ([''com''], True, 2)]. svh \<notin> set (binds (vhc_root ?c) ls wide)"
    by (simp_all add: tree_label_def del: binds.simps)
  from restores [OF this] show ?thesis by auto
qed

text \<open>
  A \<^verbatim>\<open>del\<close> cleans up behind itself: whenever one of the two \<^verbatim>\<open>del\<close> functions has run, no
  node below the root is empty, so \<^verbatim>\<open>is_empty\<close> of the root is the same as that no name has a host;
  \<^verbatim>\<open>kgl_del_empty\<close> is returned exactly then, \<^verbatim>\<open>kgl_del_failed\<close> exactly when the host was not
  bound to the name, and a failed call changes nothing.
\<close>

lemma del_result_exact:
  assumes "label_tree_laws ops keys" "dm_ok ops keys m" "\<forall>l\<in>set ls. tree_label l"
  shows "\<exists>ret m'. dm_del_vh ops wide svh m (enc_domain ls @ [NUL]) = Some (ret, m') \<and> dm_ok ops keys m' \<and>
    binds m' = upd_binds (binds m) ls wide (remove1 svh (binds m ls wide)) \<and>
    (ret = kgl_del_failed \<longleftrightarrow> svh \<notin> set (binds m ls wide)) \<and> (ret = kgl_del_failed \<longrightarrow> m' = m) \<and>
    (ret = kgl_del_empty \<longleftrightarrow> svh \<in> set (binds m ls wide) \<and> (\<forall>ls w. (\<forall>l\<in>set ls. tree_label l) \<longrightarrow> binds m' ls w = []))"
proof (cases "svh \<in> set (binds m ls wide)")
  case False
  with dm_del_vh_updates [OF assms, of svh wide] assms(2) show ?thesis
    by (intro exI [of _ kgl_del_failed] exI [of _ m]) (simp add: remove1_idem)
next
  case True
  with dm_del_vh_updates [OF assms, of svh wide] obtain m' where
    m': "dm_del_vh ops wide svh m (enc_domain ls @ [NUL]) = Some (if is_empty ops m' then kgl_del_empty else kgl_del_success, m')"
    "updates ops keys m ls wide (remove1 svh (binds m ls wide)) m'" by auto
  then have ok: "dm_ok ops keys m'" by (simp add: updates_def)
  have "is_empty ops m' \<longleftrightarrow> (\<forall>ls w. (\<forall>l\<in>set ls. tree_label l) \<longrightarrow> binds m' ls w = [])"
    using empty_binds [OF assms(1) ok] binds_below [OF assms(1) ok] by blast
  with True m' ok show ?thesis
    by (intro exI [of _ "if is_empty ops m' then kgl_del_empty else kgl_del_success"] exI [of _ m'])
      (simp add: updates_def)
qed

end
