(* ===== verification/Black_List.thy ===== *)
theory Black_List
  imports Ordered_Map "HOL-Library.Monad_Syntax" "HOL-Library.List_Lexorder" "HOL-Library.Char_ord"
begin

text \<open>
  The list of blocked and allowed client addresses of a virtual host: \<^verbatim>\<open>include/KIpList.h\<close> and
  \<^verbatim>\<open>src/KIpList.cpp\<close>. An address is either static, which an administrator entered as allowed or
  denied, or dynamic, which the server blocked by itself and drops again after a while.

  Items live in a heap of addresses. Every item of the map \<^verbatim>\<open>wls\<close> is found by its address text;
  the dynamic ones are also linked into a queue, oldest first, and a static one points to itself.
  A dynamic item that leaves the map early stays in the queue with \<^verbatim>\<open>last_time\<close> 0 until its turn.
  \<open>None\<close> is the use of an item that has been freed, or a failed \<^verbatim>\<open>assert\<close>. A new item gets an
  address that was not used before. The two members of the union of \<^verbatim>\<open>KIpListItem\<close> are two fields;
  \<open>bl_inv\<close> implies that none is read through the other. The worker that runs firewall commands is
  outside of the model: the calls are recorded in their order.
\<close>

section \<open>Items\<close>

record ip_item =
  it_ip :: string
  last_time :: int
  it_flags :: nat
  it_next :: "nat option"

record ip_list =
  run_fw :: bool
  report_ip :: bool
  wls :: "(string \<times> nat) list"
  q_head :: "nat option"
  q_end :: "nat option"
  items :: "nat \<Rightarrow> ip_item option"
  next_item :: nat
  total_request :: int
  total_error_upstream :: int
  total_upstream :: int

definition new_ip_list :: ip_list where
  "new_ip_list = \<lparr>run_fw = False, report_ip = False, wls = [], q_head = None, q_end = None,
     items = (\<lambda>a. None), next_item = 0, total_request = 0, total_error_upstream = 0, total_upstream = 0\<rparr>"

definition IsStatic :: "nat \<Rightarrow> ip_item \<Rightarrow> bool" where
  "IsStatic a it \<longleftrightarrow> it_next it = Some a"

definition SetWhite :: "bool \<Rightarrow> ip_item \<Rightarrow> ip_item" where
  "SetWhite white it = (if white then it\<lparr>it_flags := 1\<rparr> else it\<lparr>it_flags := 0\<rparr>)"

definition IsWhite :: "nat \<Rightarrow> ip_item \<Rightarrow> bool" where
  "IsWhite a it \<longleftrightarrow> IsStatic a it \<and> it_flags it = 1"

definition ConvertToStatic :: "ip_item \<Rightarrow> ip_item" where
  "ConvertToStatic it = it\<lparr>last_time := 0\<rparr>"

definition IsConvertToStatic :: "ip_item \<Rightarrow> bool" where
  "IsConvertToStatic it \<longleftrightarrow> last_time it = 0"

definition new_dynamic :: "int \<Rightarrow> string \<Rightarrow> ip_item" where
  "new_dynamic kgl_current_sec ip = \<lparr>it_ip = ip, last_time = kgl_current_sec, it_flags = 0, it_next = None\<rparr>"

definition new_static :: "nat \<Rightarrow> string \<Rightarrow> bool \<Rightarrow> ip_item" where
  "new_static a ip white = SetWhite white \<lparr>it_ip = ip, last_time = 0, it_flags = 0, it_next = Some a\<rparr>"

text \<open>Stores into the heap of a list, and \<^verbatim>\<open>delete\<close>.\<close>

definition set_item :: "nat \<Rightarrow> ip_item \<Rightarrow> ip_list \<Rightarrow> ip_list" where
  "set_item a it s = s\<lparr>items := (items s)(a \<mapsto> it)\<rparr>"

definition del_item :: "nat \<Rightarrow> ip_list \<Rightarrow> ip_list" where
  "del_item a s = s\<lparr>items := (items s)(a := None)\<rparr>"

definition upd_item :: "nat \<Rightarrow> (ip_item \<Rightarrow> ip_item) \<Rightarrow> ip_list \<Rightarrow> ip_list option" where
  "upd_item a f s = do { it \<leftarrow> items s a; Some (set_item a (f it) s) }"

section \<open>Operations\<close>

datatype fw_call = Report_ip string | Block_ip string | Unblock_ip string

record fw_conf =
  block_ip_cmd :: string
  unblock_ip_cmd :: string

definition Remove :: "string \<Rightarrow> ip_list \<Rightarrow> (bool \<times> ip_list) option" where
  "Remove ip s =
     (case om_find (wls s) ip of
        None \<Rightarrow> Some (False, s)
      | Some a \<Rightarrow> do {
          it \<leftarrow> items s a;
          let s1 = s\<lparr>wls := om_erase ip (wls s)\<rparr>;
          if IsStatic a it then Some (True, del_item a s1)
          else Some (True, set_item a (ConvertToStatic it) s1) })"

definition insert_static :: "string \<Rightarrow> bool \<Rightarrow> ip_list \<Rightarrow> ip_list" where
  "insert_static ip white s =
     (let a = next_item s in
      set_item a (new_static a ip white) (s\<lparr>next_item := a + 1, wls := om_insert ip a (wls s)\<rparr>))"

definition AddStatic :: "string \<Rightarrow> bool \<Rightarrow> ip_list \<Rightarrow> ip_list option" where
  "AddStatic ip white s =
     (case om_find (wls s) ip of
        None \<Rightarrow> Some (insert_static ip white s)
      | Some a \<Rightarrow> do {
          it \<leftarrow> items s a;
          if IsStatic a it then Some (set_item a (SetWhite white it) s)
          else Some (insert_static ip white (set_item a (ConvertToStatic it) (s\<lparr>wls := om_erase ip (wls s)\<rparr>))) })"

definition addItem :: "nat \<Rightarrow> ip_list \<Rightarrow> ip_list option" where
  "addItem a s = do {
     it \<leftarrow> items s a;
     if it_next it \<noteq> None then None else do {
       s1 \<leftarrow> (case q_end s of
                None \<Rightarrow> Some (s\<lparr>q_head := Some a\<rparr>)
              | Some e \<Rightarrow> upd_item e (\<lambda>it. it\<lparr>it_next := Some a\<rparr>) s);
       Some (s1\<lparr>q_end := Some a\<rparr>) } }"

definition AddDynamic ::
  "fw_conf \<Rightarrow> nat \<Rightarrow> int \<Rightarrow> string \<Rightarrow> bool \<Rightarrow> ip_list \<Rightarrow> (ip_list \<times> fw_call list) option" where
  "AddDynamic conf worker_queue kgl_current_sec ip skip_report_ip s =
     (case om_find (wls s) ip of
        Some a \<Rightarrow> Some (s, [])
      | None \<Rightarrow> do {
          let a = next_item s;
          let s1 = set_item a (new_dynamic kgl_current_sec ip) (s\<lparr>next_item := a + 1, wls := om_insert ip a (wls s)\<rparr>);
          s2 \<leftarrow> addItem a s1;
          let rep = (if \<not> skip_report_ip \<and> report_ip s2 then [Report_ip ip] else []);
          if run_fw s2 \<and> worker_queue < 32 then
            (if block_ip_cmd conf = [] then None else Some (s2, rep @ [Block_ip ip]))
          else Some (s2, rep) })"

partial_function (option) flush_loop ::
  "int \<Rightarrow> int \<Rightarrow> nat option \<Rightarrow> ip_list \<Rightarrow> (nat option \<times> ip_list) option" where
  "flush_loop kgl_current_sec time_out del_list s =
     (case q_head s of
        None \<Rightarrow> Some (del_list, s)
      | Some a \<Rightarrow>
          (case items s a of
             None \<Rightarrow> None
           | Some it \<Rightarrow>
               (if kgl_current_sec - last_time it > time_out then
                  (if IsStatic a it then None
                   else flush_loop kgl_current_sec time_out (Some a)
                     (let s1 = (if IsConvertToStatic it then s else s\<lparr>wls := om_erase (it_ip it) (wls s)\<rparr>) in
                      (set_item a (it\<lparr>it_next := del_list\<rparr>) s1)\<lparr>q_head := it_next it\<rparr>))
                else Some (del_list, s))))"

text \<open>Walk a list of items to its end, free each one and run a command for those the test picks.\<close>

partial_function (option) free_loop ::
  "(ip_item \<Rightarrow> bool) \<Rightarrow> nat option \<Rightarrow> ip_list \<Rightarrow> fw_call list \<Rightarrow> (ip_list \<times> fw_call list) option" where
  "free_loop unblock p s calls =
     (case p of
        None \<Rightarrow> Some (s, calls)
      | Some a \<Rightarrow>
          (case items s a of
             None \<Rightarrow> None
           | Some it \<Rightarrow>
               free_loop unblock (it_next it) (del_item a s)
                 (if unblock it then calls @ [Unblock_ip (it_ip it)] else calls)))"

definition ip_flush :: "fw_conf \<Rightarrow> int \<Rightarrow> int \<Rightarrow> ip_list \<Rightarrow> (ip_list \<times> fw_call list) option" where
  "ip_flush conf kgl_current_sec time_out s = do {
     (del_list, s1) \<leftarrow> flush_loop kgl_current_sec time_out None s;
     let s2 = (if q_head s1 = None then s1\<lparr>q_end := None\<rparr> else s1);
     free_loop (\<lambda>it. run_fw s2 \<and> unblock_ip_cmd conf \<noteq> []) del_list s2 [] }"

definition ip_find ::
  "fw_conf \<Rightarrow> int \<Rightarrow> string \<Rightarrow> int \<Rightarrow> bool \<Rightarrow> ip_list \<Rightarrow> (bool \<times> ip_list \<times> fw_call list) option" where
  "ip_find conf kgl_current_sec ip time_out flush s = do {
     (s1, calls) \<leftarrow> (if flush then ip_flush conf kgl_current_sec time_out s else Some (s, []));
     (case om_find (wls s1) ip of
        None \<Rightarrow> Some (False, s1, calls)
      | Some a \<Rightarrow> do { it \<leftarrow> items s1 a; Some (\<not> IsWhite a it, s1, calls) }) }"

definition getDynamicCount :: "ip_list \<Rightarrow> nat option" where
  "getDynamicCount s =
     foldl (\<lambda>n (ip, a). do { n \<leftarrow> n; it \<leftarrow> items s a; Some (if IsStatic a it then n else n + 1) }) (Some 0) (wls s)"

partial_function (option) clear_loop :: "nat option \<Rightarrow> nat \<Rightarrow> ip_list \<Rightarrow> (nat \<times> ip_list) option" where
  "clear_loop p count s =
     (case p of
        None \<Rightarrow> Some (count, s)
      | Some a \<Rightarrow>
          (case items s a of
             None \<Rightarrow> None
           | Some it \<Rightarrow>
               (if IsConvertToStatic it then clear_loop (it_next it) count s
                else clear_loop (it_next it) (count + 1) (s\<lparr>wls := om_erase (it_ip it) (wls s)\<rparr>))))"

definition clearDynamic :: "fw_conf \<Rightarrow> ip_list \<Rightarrow> (nat \<times> ip_list \<times> fw_call list) option" where
  "clearDynamic conf s = do {
     let removed = q_head s;
     let unblock = (run_fw s \<and> unblock_ip_cmd conf \<noteq> []);
     (count, s1) \<leftarrow> clear_loop removed 0 (s\<lparr>q_head := None, q_end := None\<rparr>);
     (s2, calls) \<leftarrow> free_loop (\<lambda>it. unblock \<and> \<not> IsConvertToStatic it) removed s1 [];
     Some (count, s2, calls) }"

fun clear_static_loop :: "(string \<times> nat) list \<Rightarrow> ip_list \<Rightarrow> ip_list option" where
  "clear_static_loop [] s = Some s"
| "clear_static_loop ((ip, a) # es) s = do {
     it \<leftarrow> items s a;
     clear_static_loop es (if IsStatic a it then del_item a s else s) }"

definition clearStatic :: "ip_list \<Rightarrow> ip_list option" where
  "clearStatic s = do { s1 \<leftarrow> clear_static_loop (wls s) s; Some (s1\<lparr>wls := []\<rparr>) }"

definition clearBlackList :: "ip_list \<Rightarrow> ip_list option" where
  "clearBlackList s = do {
     s1 \<leftarrow> clearStatic s;
     (s2, calls) \<leftarrow> free_loop (\<lambda>it. False) (q_head s1) s1 [];
     Some (s2\<lparr>q_head := None, q_end := None\<rparr>) }"

partial_function (option) list_loop :: "nat option \<Rightarrow> ip_list \<Rightarrow> string list \<Rightarrow> string list option" where
  "list_loop p s ips =
     (case p of
        None \<Rightarrow> Some ips
      | Some a \<Rightarrow> (case items s a of None \<Rightarrow> None | Some it \<Rightarrow> list_loop (it_next it) s (ips @ [it_ip it])))"

definition getBlackList :: "ip_list \<Rightarrow> string list option" where
  "getBlackList s = list_loop (q_head s) s []"

definition addStat :: "bool \<Rightarrow> bool \<Rightarrow> ip_list \<Rightarrow> ip_list" where
  "addStat RQ_UPSTREAM RQ_UPSTREAM_ERROR s =
     (let s1 = s\<lparr>total_request := total_request s + 1\<rparr> in
      if RQ_UPSTREAM then
        (let s2 = s1\<lparr>total_upstream := total_upstream s1 + 1\<rparr> in
         if RQ_UPSTREAM_ERROR then s2\<lparr>total_error_upstream := total_error_upstream s2 + 1\<rparr> else s2)
      else s1)"

definition getStat :: "bool \<Rightarrow> ip_list \<Rightarrow> (int \<times> int \<times> int) \<times> ip_list" where
  "getStat reset s =
     ((total_request s, total_error_upstream s, total_upstream s),
      if reset then s\<lparr>total_request := 0, total_error_upstream := 0, total_upstream := 0\<rparr> else s)"

declare flush_loop.simps [code] free_loop.simps [code] clear_loop.simps [code] list_loop.simps [code]

section \<open>The queue and the map agree\<close>

fun lseg :: "(nat \<Rightarrow> ip_item option) \<Rightarrow> nat option \<Rightarrow> nat list \<Rightarrow> bool" where
  "lseg h p [] \<longleftrightarrow> p = None"
| "lseg h p (a # xs) \<longleftrightarrow> p = Some a \<and> (\<exists>it. h a = Some it \<and> lseg h (it_next it) xs)"

definition stamp :: "(nat \<Rightarrow> ip_item option) \<Rightarrow> nat \<Rightarrow> int" where
  "stamp h a = (case h a of None \<Rightarrow> 0 | Some it \<Rightarrow> last_time it)"

definition live :: "(nat \<Rightarrow> ip_item option) \<Rightarrow> nat list \<Rightarrow> nat list" where
  "live h xs = filter (\<lambda>a. stamp h a \<noteq> 0) xs"

text \<open>
  \<open>xs\<close> is the queue and \<open>D\<close> the items that have left queue and map but are not freed yet: the map
  leads to static items and to live items of the queue, every item that is not waiting to be
  freed is in the map or a leftover of the queue, and the queue is ordered by time.
\<close>

definition core :: "int \<Rightarrow> ip_list \<Rightarrow> nat list \<Rightarrow> nat set \<Rightarrow> bool" where
  "core now s xs D \<longleftrightarrow>
     lseg (items s) (q_head s) xs \<and> distinct xs \<and> set xs \<inter> D = {} \<and> om_wf (wls s) \<and>
     (\<forall>a it. items s a = Some it \<longrightarrow> a < next_item s) \<and>
     (\<forall>ip a. om_find (wls s) ip = Some a \<longrightarrow> a \<notin> D \<and>
        (\<exists>it. items s a = Some it \<and> it_ip it = ip \<and>
          (if a \<in> set xs then last_time it \<noteq> 0 else IsStatic a it))) \<and>
     (\<forall>a it. items s a = Some it \<longrightarrow>
        a \<in> D \<or> a \<in> set xs \<and> last_time it = 0 \<or> om_find (wls s) (it_ip it) = Some a) \<and>
     (\<forall>a\<in>set xs. 0 \<le> stamp (items s) a \<and> stamp (items s) a \<le> now) \<and>
     sorted (map (stamp (items s)) (live (items s) xs))"

definition bl_inv :: "int \<Rightarrow> ip_list \<Rightarrow> nat list \<Rightarrow> bool" where
  "bl_inv now s xs \<longleftrightarrow> core now s xs {} \<and> q_end s = (if xs = [] then None else Some (last xs))"

lemma coreI:
  assumes "lseg (items s) (q_head s) xs" "distinct xs" "set xs \<inter> D = {}" "om_wf (wls s)"
    and "\<And>a it. items s a = Some it \<Longrightarrow> a < next_item s"
    and "\<And>ip a. om_find (wls s) ip = Some a \<Longrightarrow> a \<notin> D \<and>
        (\<exists>it. items s a = Some it \<and> it_ip it = ip \<and> (if a \<in> set xs then last_time it \<noteq> 0 else IsStatic a it))"
    and "\<And>a it. items s a = Some it \<Longrightarrow>
        a \<in> D \<or> a \<in> set xs \<and> last_time it = 0 \<or> om_find (wls s) (it_ip it) = Some a"
    and "\<And>a. a \<in> set xs \<Longrightarrow> 0 \<le> stamp (items s) a \<and> stamp (items s) a \<le> now"
    and "sorted (map (stamp (items s)) (live (items s) xs))"
  shows "core now s xs D"
  using assms unfolding core_def by blast

lemma coreD:
  assumes "core now s xs D"
  shows "lseg (items s) (q_head s) xs" "distinct xs" "set xs \<inter> D = {}" "om_wf (wls s)"
    and "items s a = Some it \<Longrightarrow> a < next_item s"
    and "om_find (wls s) ip = Some a \<Longrightarrow> a \<notin> D \<and>
        (\<exists>it. items s a = Some it \<and> it_ip it = ip \<and> (if a \<in> set xs then last_time it \<noteq> 0 else IsStatic a it))"
    and "items s a = Some it \<Longrightarrow>
        a \<in> D \<or> a \<in> set xs \<and> last_time it = 0 \<or> om_find (wls s) (it_ip it) = Some a"
    and "a \<in> set xs \<Longrightarrow> 0 \<le> stamp (items s) a \<and> stamp (items s) a \<le> now"
    and "sorted (map (stamp (items s)) (live (items s) xs))"
  using assms unfolding core_def by blast+

lemma lseg_frame: "lseg h p xs \<Longrightarrow> \<forall>a\<in>set xs. h' a = h a \<Longrightarrow> lseg h' p xs"
  by (induction xs arbitrary: p) auto

lemma lseg_upd: "a \<notin> set xs \<Longrightarrow> lseg (h(a := v)) p xs \<longleftrightarrow> lseg h p xs"
  by (induction xs arbitrary: p) auto

text \<open>A store that leaves the link alone keeps the queue.\<close>

lemma lseg_same_next:
  "lseg h p xs \<Longrightarrow> h a = Some it \<Longrightarrow> it_next it' = it_next it \<Longrightarrow> lseg (h(a \<mapsto> it')) p xs"
  by (induction xs arbitrary: p) auto

lemma lseg_item: "lseg h p xs \<Longrightarrow> a \<in> set xs \<Longrightarrow> \<exists>it. h a = Some it"
  by (induction xs arbitrary: p) auto

lemma lseg_next_in: "lseg h p xs \<Longrightarrow> a \<in> set xs \<Longrightarrow> h a = Some it \<Longrightarrow> it_next it = Some b \<Longrightarrow> b \<in> set xs"
proof (induction xs arbitrary: p)
  case (Cons x xs)
  then show ?case by (cases xs) auto
qed simp

lemma lseg_not_static:
  "lseg h p xs \<Longrightarrow> distinct xs \<Longrightarrow> a \<in> set xs \<Longrightarrow> h a = Some it \<Longrightarrow> \<not> IsStatic a it"
proof (induction xs arbitrary: p)
  case (Cons x xs)
  show ?case
  proof (cases "a = x")
    case True
    with Cons.prems show ?thesis by (cases xs) (auto simp: IsStatic_def)
  next
    case False
    with Cons show ?thesis by auto
  qed
qed simp

lemma lseg_append:
  "lseg h p xs \<Longrightarrow> xs \<noteq> [] \<Longrightarrow> distinct xs \<Longrightarrow> h (last xs) = Some it \<Longrightarrow> b \<notin> set xs \<Longrightarrow> h b = Some it' \<Longrightarrow> it_next it' = None \<Longrightarrow>
   lseg (h(last xs \<mapsto> it\<lparr>it_next := Some b\<rparr>)) p (xs @ [b])"
proof (induction xs arbitrary: p)
  case (Cons x xs)
  then show ?case by (cases xs) (auto simp: lseg_upd)
qed simp

lemma om_simps:
  "om_wf m \<Longrightarrow> om_find (om_erase k m) k' = (if k' = k then None else om_find m k')"
  "om_wf m \<Longrightarrow> om_wf (om_erase k m)"
  "om_wf m \<Longrightarrow> om_wf (om_insert k v m)"
  "om_wf m \<Longrightarrow> om_find m k = None \<Longrightarrow> om_find (om_insert k v m) k' = (if k' = k then Some v else om_find m k')"
  by (simp_all add: om.map_laws)

section \<open>What a list answers\<close>

datatype entry = Static bool | Dynamic int

definition entry_of :: "nat \<Rightarrow> ip_item \<Rightarrow> entry" where
  "entry_of a it = (if IsStatic a it then Static (it_flags it = 1) else Dynamic (last_time it))"

definition view :: "ip_list \<Rightarrow> string \<Rightarrow> entry option" where
  "view s ip = (case om_find (wls s) ip of None \<Rightarrow> None | Some a \<Rightarrow> map_option (entry_of a) (items s a))"

lemma view_cases:
  assumes "core now s xs D"
  shows "om_find (wls s) ip = None \<Longrightarrow> view s ip = None"
    and "om_find (wls s) ip = Some a \<Longrightarrow> \<exists>it. items s a = Some it \<and> it_ip it = ip \<and> view s ip = Some (entry_of a it) \<and>
      (a \<in> set xs \<and> \<not> IsStatic a it \<and> last_time it \<noteq> 0 \<or> a \<notin> set xs \<and> IsStatic a it)"
  using coreD(1,2) [OF assms] coreD(6) [OF assms, of ip a] lseg_not_static [of "items s" "q_head s" xs a]
  by (auto simp: view_def split: if_splits)

lemma heap_ops [simp]:
  "items (set_item a it s) = (items s)(a \<mapsto> it)" "items (del_item a s) = (items s)(a := None)"
  "wls (set_item a it s) = wls s" "wls (del_item a s) = wls s"
  "q_head (set_item a it s) = q_head s" "q_head (del_item a s) = q_head s"
  "q_end (set_item a it s) = q_end s" "q_end (del_item a s) = q_end s"
  "next_item (set_item a it s) = next_item s" "next_item (del_item a s) = next_item s"
  "run_fw (set_item a it s) = run_fw s" "run_fw (del_item a s) = run_fw s"
  by (simp_all add: set_item_def del_item_def)

lemma stamp_cong:
  assumes "\<And>a. a \<in> set xs \<Longrightarrow> stamp h' a = stamp h a" "sorted (map (stamp h) (live h xs))"
  shows "sorted (map (stamp h') (live h' xs))"
proof -
  have "live h' xs = live h xs" using assms(1) by (auto simp: live_def intro: filter_cong)
  moreover have "map (stamp h') (live h xs) = map (stamp h) (live h xs)" using assms(1) by (auto simp: live_def)
  ultimately show ?thesis using assms(2) by (simp only:)
qed

lemma stamp_upd: "stamp (h(a := v)) b = (if b = a then (case v of None \<Rightarrow> 0 | Some it \<Rightarrow> last_time it) else stamp h b)"
  by (simp add: stamp_def)

lemma static_not_queued: "core now s xs D \<Longrightarrow> items s a = Some it \<Longrightarrow> IsStatic a it \<Longrightarrow> a \<notin> set xs"
  using coreD(1,2) lseg_not_static by blast

lemma core_drop_static:
  assumes c: "core now s xs D" and a: "om_find (wls s) ip = Some a" "items s a = Some it" "IsStatic a it"
  defines "s' \<equiv> del_item a (s\<lparr>wls := om_erase ip (wls s)\<rparr>)"
  shows "core now s' xs D \<and> view s' = (view s)(ip := None)"
proof
  note aq = static_not_queued [OF c a(2,3)] and wf = coreD(4) [OF c]
  have ip: "it_ip it = ip" using coreD(6) [OF c a(1)] a(2) by auto
  have other: "om_find (wls s) ip' = Some b \<Longrightarrow> b = a \<Longrightarrow> ip' = ip" for ip' b
    using coreD(6) [OF c, of ip' b] a(2) ip by auto
  have same: "stamp (items s') b = stamp (items s) b" if "b \<in> set xs" for b
    using that aq by (auto simp: s'_def stamp_upd)
  show "core now s' xs D"
  proof (rule coreI)
    fix ip' b
    assume b: "om_find (wls s') ip' = Some b"
    then have "ip' \<noteq> ip" "om_find (wls s) ip' = Some b" by (auto simp: s'_def om_simps [OF wf] split: if_splits)
    then show "b \<notin> D \<and> (\<exists>it. items s' b = Some it \<and> it_ip it = ip' \<and> (if b \<in> set xs then last_time it \<noteq> 0 else IsStatic b it))"
      using coreD(6) [OF c, of ip' b] other by (auto simp: s'_def)
  next
    fix b itb
    assume "items s' b = Some itb"
    then have b: "b \<noteq> a" "items s b = Some itb" by (auto simp: s'_def split: if_splits)
    show "b \<in> D \<or> b \<in> set xs \<and> last_time itb = 0 \<or> om_find (wls s') (it_ip itb) = Some b"
      using coreD(7) [OF c b(2)] a(1) b(1) by (auto simp: s'_def om_simps [OF wf])
  next
    show "sorted (map (stamp (items s')) (live (items s') xs))"
      by (rule stamp_cong [OF same coreD(9) [OF c]])
  qed (use c aq coreD(1-5,8) [OF c] same in \<open>auto simp: s'_def lseg_upd om_simps split: if_splits\<close>)
  show "view s' = (view s)(ip := None)"
    using other by (auto simp: fun_eq_iff view_def s'_def om_simps [OF wf] split: option.splits)
qed

lemma core_convert:
  assumes c: "core now s xs D" and a: "om_find (wls s) ip = Some a" "items s a = Some it" "\<not> IsStatic a it"
  defines "s' \<equiv> set_item a (ConvertToStatic it) (s\<lparr>wls := om_erase ip (wls s)\<rparr>)"
  shows "core now s' xs D \<and> view s' = (view s)(ip := None)"
proof
  note wf = coreD(4) [OF c]
  have ip: "it_ip it = ip" and aq: "a \<in> set xs" using coreD(6) [OF c a(1)] a by (auto split: if_splits)
  have other: "om_find (wls s) ip' = Some b \<Longrightarrow> b = a \<Longrightarrow> ip' = ip" for ip' b
    using coreD(6) [OF c, of ip' b] a(2) ip by auto
  have same: "stamp (items s') b = (if b = a then 0 else stamp (items s) b)" for b
    by (auto simp: s'_def stamp_upd ConvertToStatic_def)
  then have lv: "live (items s') xs = filter (\<lambda>b. b \<noteq> a) (live (items s) xs)"
    by (auto simp: live_def intro: filter_cong)
  then have map: "map (stamp (items s')) (live (items s') xs) = map (stamp (items s)) (filter (\<lambda>b. b \<noteq> a) (live (items s) xs))"
    by (auto simp: same)
  show "core now s' xs D"
  proof (rule coreI)
    show "lseg (items s') (q_head s') xs"
      using lseg_same_next [OF coreD(1) [OF c] a(2), of "ConvertToStatic it"] by (simp add: s'_def ConvertToStatic_def)
  next
    fix ip' b
    assume b: "om_find (wls s') ip' = Some b"
    then have "ip' \<noteq> ip" "om_find (wls s) ip' = Some b" by (auto simp: s'_def om_simps [OF wf] split: if_splits)
    then show "b \<notin> D \<and> (\<exists>it. items s' b = Some it \<and> it_ip it = ip' \<and> (if b \<in> set xs then last_time it \<noteq> 0 else IsStatic b it))"
      using coreD(6) [OF c, of ip' b] other by (auto simp: s'_def)
  next
    fix b itb
    assume b: "items s' b = Some itb"
    show "b \<in> D \<or> b \<in> set xs \<and> last_time itb = 0 \<or> om_find (wls s') (it_ip itb) = Some b"
    proof (cases "b = a")
      case True
      then show ?thesis using b aq by (auto simp: s'_def ConvertToStatic_def)
    next
      case False
      with b have b': "items s b = Some itb" by (simp add: s'_def)
      show ?thesis using coreD(7) [OF c b'] False a(1) by (auto simp: s'_def om_simps [OF wf])
    qed
  next
    show "sorted (map (stamp (items s')) (live (items s') xs))"
      unfolding map using coreD(9) [OF c] by (rule sorted_filter)
  next
    fix b itb
    assume "items s' b = Some itb"
    then show "b < next_item s'" using coreD(5) [OF c, of b] coreD(5) [OF c a(2)] by (auto simp: s'_def split: if_splits)
  next
    fix b
    assume b: "b \<in> set xs"
    show "0 \<le> stamp (items s') b \<and> stamp (items s') b \<le> now"
      using coreD(8) [OF c b] by (simp add: same)
  qed (use coreD(2-4) [OF c] in \<open>auto simp: s'_def om_simps\<close>)
  show "view s' = (view s)(ip := None)"
    using other by (auto simp: fun_eq_iff view_def s'_def om_simps [OF wf] split: option.splits)
qed

lemma core_insert_static:
  assumes c: "core now s xs D" and fresh: "next_item s \<notin> D" and new: "om_find (wls s) ip = None"
  shows "core now (insert_static ip white s) xs D \<and> view (insert_static ip white s) = (view s)(ip \<mapsto> Static white)"
proof
  define a where "a = next_item s"
  define s' where "s' = insert_static ip white s"
  note wf = coreD(4) [OF c]
  have a: "items s a = None" using coreD(5) [OF c, of a] by (cases "items s a") (auto simp: a_def)
  then have aq: "a \<notin> set xs" using lseg_item [OF coreD(1) [OF c]] by fastforce
  have s': "items s' = (items s)(a \<mapsto> new_static a ip white)" "wls s' = om_insert ip a (wls s)"
    "q_head s' = q_head s" "next_item s' = a + 1"
    by (simp_all add: s'_def insert_static_def a_def Let_def)
  have st: "it_ip (new_static a ip white) = ip" "IsStatic a (new_static a ip white)"
    "entry_of a (new_static a ip white) = Static white"
    by (auto simp: new_static_def SetWhite_def IsStatic_def entry_of_def)
  have same: "stamp (items s') b = stamp (items s) b" if "b \<in> set xs" for b
    using that aq by (auto simp: s' stamp_upd)
  have notD: "a \<notin> D" using fresh by (simp add: a_def)
  show "core now s' xs D"
  proof (rule coreI)
    fix ip' b
    assume b: "om_find (wls s') ip' = Some b"
    show "b \<notin> D \<and> (\<exists>it. items s' b = Some it \<and> it_ip it = ip' \<and> (if b \<in> set xs then last_time it \<noteq> 0 else IsStatic b it))"
      using b coreD(6) [OF c, of ip' b] a notD aq st by (auto simp: s' om_simps [OF wf] new split: if_splits)
  next
    fix b itb
    assume b: "items s' b = Some itb"
    show "b \<in> D \<or> b \<in> set xs \<and> last_time itb = 0 \<or> om_find (wls s') (it_ip itb) = Some b"
      using b coreD(7) [OF c, of b itb] st(1) new by (auto simp: s' om_simps [OF wf] split: if_splits)
  next
    show "sorted (map (stamp (items s')) (live (items s') xs))"
      by (rule stamp_cong [OF same coreD(9) [OF c]])
  next
    fix b itb
    assume "items s' b = Some itb"
    then show "b < next_item s'" using coreD(5) [OF c, of b itb] by (auto simp: s' a_def split: if_splits)
  qed (use c aq coreD(1-4,8) [OF c] same in \<open>auto simp: s' lseg_upd om_simps\<close>)
  show "view s' = (view s)(ip \<mapsto> Static white)"
  proof
    fix ip'
    show "view s' ip' = ((view s)(ip \<mapsto> Static white)) ip'"
      using coreD(6) [OF c, of ip'] a st(3) by (auto simp: view_def s' om_simps [OF wf] new split: option.splits)
  qed
qed

lemma core_set_white:
  fixes white :: bool
  assumes c: "core now s xs D" and a: "om_find (wls s) ip = Some a" "items s a = Some it" "IsStatic a it"
  defines "s' \<equiv> set_item a (SetWhite white it) s"
  shows "core now s' xs D \<and> view s' = (view s)(ip \<mapsto> Static white)"
proof
  note aq = static_not_queued [OF c a(2,3)] and wf = coreD(4) [OF c]
  have ip: "it_ip it = ip" using coreD(6) [OF c a(1)] a(2) by auto
  have st: "it_ip (SetWhite white it) = it_ip it" "IsStatic a (SetWhite white it)"
    "entry_of a (SetWhite white it) = Static white"
    using a(3) by (auto simp: SetWhite_def IsStatic_def entry_of_def)
  have same: "stamp (items s') b = stamp (items s) b" if "b \<in> set xs" for b
    using that aq by (auto simp: s'_def stamp_upd)
  show "core now s' xs D"
  proof (rule coreI)
    fix ip' b
    assume b: "om_find (wls s') ip' = Some b"
    show "b \<notin> D \<and> (\<exists>it. items s' b = Some it \<and> it_ip it = ip' \<and> (if b \<in> set xs then last_time it \<noteq> 0 else IsStatic b it))"
      using b coreD(6) [OF c, of ip' b] a aq st by (auto simp: s'_def)
  next
    fix b itb
    assume b: "items s' b = Some itb"
    show "b \<in> D \<or> b \<in> set xs \<and> last_time itb = 0 \<or> om_find (wls s') (it_ip itb) = Some b"
      using b coreD(7) [OF c, of b] a ip st(1) by (auto simp: s'_def split: if_splits)
  next
    show "sorted (map (stamp (items s')) (live (items s') xs))"
      by (rule stamp_cong [OF same coreD(9) [OF c]])
  next
    fix b itb
    assume "items s' b = Some itb"
    then show "b < next_item s'" using coreD(5) [OF c, of b] a(2) by (auto simp: s'_def split: if_splits)
  qed (use c aq coreD(1-4,8) [OF c] same in \<open>auto simp: s'_def lseg_upd\<close>)
  show "view s' = (view s)(ip \<mapsto> Static white)"
  proof
    fix ip'
    show "view s' ip' = ((view s)(ip \<mapsto> Static white)) ip'"
      using coreD(6) [OF c, of ip'] a st(3) ip by (auto simp: view_def s'_def split: option.splits)
  qed
qed

text \<open>A new dynamic item at the end of the queue.\<close>

lemma addItem_result:
  assumes inv: "bl_inv now s xs" and new: "om_find (wls s) ip = None"
  defines "a \<equiv> next_item s"
  defines "link \<equiv> (\<lambda>b (it :: ip_item). if xs \<noteq> [] \<and> b = last xs then it\<lparr>it_next := Some a\<rparr> else it)"
  shows "\<exists>s'. addItem a (set_item a (new_dynamic now ip) (s\<lparr>next_item := a + 1, wls := om_insert ip a (wls s)\<rparr>)) = Some s' \<and>
    items s' = (\<lambda>b. if b = a then Some (new_dynamic now ip) else map_option (link b) (items s b)) \<and>
    lseg (items s') (q_head s') (xs @ [a]) \<and> a \<notin> set xs \<and> items s a = None \<and>
    q_end s' = Some a \<and> wls s' = om_insert ip a (wls s) \<and> next_item s' = a + 1 \<and> run_fw s' = run_fw s"
proof -
  let ?n = "new_dynamic now ip"
  let ?s = "set_item a ?n (s\<lparr>next_item := a + 1, wls := om_insert ip a (wls s)\<rparr>)"
  have c: "core now s xs {}" and e: "q_end s = (if xs = [] then None else Some (last xs))"
    using inv by (auto simp: bl_inv_def)
  have a: "items s a = None" using coreD(5) [OF c, of a] by (cases "items s a") (auto simp: a_def)
  then have aq: "a \<notin> set xs" using lseg_item [OF coreD(1) [OF c]] by fastforce
  have nx: "it_next ?n = None" by (simp add: new_dynamic_def)
  show ?thesis
  proof (cases "xs = []")
    case True
    with e a nx show ?thesis
      by (intro exI [of _ "?s\<lparr>q_head := Some a, q_end := Some a\<rparr>"]) (auto simp: addItem_def link_def fun_eq_iff option.map_ident)
  next
    case False
    then have last: "last xs \<in> set xs" "last xs \<noteq> a" using aq by auto
    then obtain it where it: "items s (last xs) = Some it" using lseg_item [OF coreD(1) [OF c]] by blast
    let ?s' = "(set_item (last xs) (it\<lparr>it_next := Some a\<rparr>) ?s)\<lparr>q_end := Some a\<rparr>"
    have "lseg (items ?s) (q_head s) xs" using lseg_upd [OF aq] coreD(1) [OF c] by simp
    from lseg_append [OF this False coreD(2) [OF c], of it a ?n] it last aq nx
    have "lseg (items ?s') (q_head ?s') (xs @ [a])" by simp
    moreover have "addItem a ?s = Some ?s'"
      using False e it last nx by (simp add: addItem_def upd_item_def)
    moreover have "items ?s' = (\<lambda>b. if b = a then Some ?n else map_option (link b) (items s b))"
      using it last False by (auto simp: fun_eq_iff link_def option.map_ident)
    ultimately show ?thesis using a aq by (intro exI [of _ ?s']) simp
  qed
qed

lemma live_append: "live h (xs @ ys) = live h xs @ live h ys"
  by (simp add: live_def)

lemma core_add_dynamic:
  assumes inv: "bl_inv now s xs" and pos: "0 < now" and new: "om_find (wls s) ip = None"
  defines "a \<equiv> next_item s"
  shows "\<exists>s'. addItem a (set_item a (new_dynamic now ip) (s\<lparr>next_item := a + 1, wls := om_insert ip a (wls s)\<rparr>)) = Some s' \<and>
    bl_inv now s' (xs @ [a]) \<and> view s' = (view s)(ip \<mapsto> Dynamic now) \<and> run_fw s' = run_fw s"
proof -
  let ?n = "new_dynamic now ip"
  define link where "link = (\<lambda>b (it :: ip_item). if xs \<noteq> [] \<and> b = last xs then it\<lparr>it_next := Some a\<rparr> else it)"
  from addItem_result [OF inv new, folded a_def] obtain s' where
    s': "addItem a (set_item a ?n (s\<lparr>next_item := a + 1, wls := om_insert ip a (wls s)\<rparr>)) = Some s'"
    and h: "items s' = (\<lambda>b. if b = a then Some ?n else map_option (link b) (items s b))"
    and q: "lseg (items s') (q_head s') (xs @ [a])" "a \<notin> set xs" "items s a = None"
    and f: "q_end s' = Some a" "wls s' = om_insert ip a (wls s)" "next_item s' = a + 1" "run_fw s' = run_fw s"
    unfolding link_def by blast
  have c: "core now s xs {}" using inv by (simp add: bl_inv_def)
  note wf = coreD(4) [OF c]
  have n: "it_ip ?n = ip" "last_time ?n = now" "\<not> IsStatic a ?n" by (auto simp: new_dynamic_def IsStatic_def)
  have link: "it_ip (link b it) = it_ip it" "last_time (link b it) = last_time it" "it_flags (link b it) = it_flags it"
    "b \<notin> set xs \<Longrightarrow> link b it = it" for b it
    by (auto simp: link_def)
  have same: "stamp (items s') b = stamp (items s) b" if "b \<in> set xs" for b
    using that q(2) by (auto simp: h stamp_def link split: option.splits)
  have sa: "stamp (items s') a = now" by (simp add: h stamp_def n)
  have "core now s' (xs @ [a]) {}"
  proof (rule coreI)
    fix ip' b
    assume b: "om_find (wls s') ip' = Some b"
    show "b \<notin> {} \<and> (\<exists>it. items s' b = Some it \<and> it_ip it = ip' \<and> (if b \<in> set (xs @ [a]) then last_time it \<noteq> 0 else IsStatic b it))"
    proof (cases "ip' = ip")
      case True
      then show ?thesis using b pos n by (auto simp: f om_simps [OF wf] new h)
    next
      case False
      then obtain it where it: "items s b = Some it" "it_ip it = ip'" "if b \<in> set xs then last_time it \<noteq> 0 else IsStatic b it"
        using b coreD(6) [OF c, of ip' b] by (auto simp: f om_simps [OF wf] new)
      then have "b \<noteq> a" using q(3) by auto
      with it show ?thesis by (auto simp: h link)
    qed
  next
    fix b itb
    assume b: "items s' b = Some itb"
    show "b \<in> {} \<or> b \<in> set (xs @ [a]) \<and> last_time itb = 0 \<or> om_find (wls s') (it_ip itb) = Some b"
    proof (cases "b = a")
      case True
      then show ?thesis using b n by (simp add: h f om_simps [OF wf] new)
    next
      case False
      then obtain it where "items s b = Some it" "itb = link b it" using b by (auto simp: h)
      then show ?thesis using coreD(7) [OF c, of b it] new by (auto simp: f om_simps [OF wf] link)
    qed
  next
    fix b itb
    assume "items s' b = Some itb"
    then show "b < next_item s'" using coreD(5) [OF c, of b] by (fastforce simp: h f a_def split: if_splits)
  next
    fix b
    assume "b \<in> set (xs @ [a])"
    then show "0 \<le> stamp (items s') b \<and> stamp (items s') b \<le> now"
      using coreD(8) [OF c, of b] same sa pos by auto
  next
    have "sorted (map (stamp (items s')) (live (items s') xs))"
      by (rule stamp_cong [OF same coreD(9) [OF c]])
    moreover have "stamp (items s') b \<le> now" if "b \<in> set (live (items s') xs)" for b
      using that coreD(8) [OF c, of b] same [of b] by (auto simp: live_def)
    ultimately show "sorted (map (stamp (items s')) (live (items s') (xs @ [a])))"
      using pos by (auto simp: live_append sorted_append live_def [of _ "[a]"] sa)
  qed (use q coreD(2,4) [OF c] in \<open>auto simp: f om_simps\<close>)
  then have "bl_inv now s' (xs @ [a])" by (simp add: bl_inv_def f)
  moreover have "view s' = (view s)(ip \<mapsto> Dynamic now)"
  proof
    fix ip'
    show "view s' ip' = ((view s)(ip \<mapsto> Dynamic now)) ip'"
    proof (cases "ip' = ip")
      case True
      then show ?thesis using n by (simp add: view_def f om_simps [OF wf] new h entry_of_def)
    next
      case False
      then have om: "om_find (wls s') ip' = om_find (wls s) ip'" by (simp add: f om_simps [OF wf] new)
      show ?thesis
      proof (cases "om_find (wls s) ip'")
        case None
        with om False show ?thesis by (simp add: view_def)
      next
        case (Some b)
        then obtain it where it: "items s b = Some it" "b \<in> set xs \<and> \<not> IsStatic b it \<or> b \<notin> set xs"
          using view_cases(2) [OF c Some] by blast
        have "\<not> IsStatic b (link b it)" if "b \<in> set xs"
        proof -
          have "items s' b = Some (link b it)" using it q(3) by (auto simp: h)
          from lseg_not_static [OF q(1) _ _ this] that q(2) coreD(2) [OF c] show ?thesis by simp
        qed
        then have "entry_of b (link b it) = entry_of b it"
          using it(2) link by (cases "b \<in> set xs") (auto simp: entry_of_def)
        then show ?thesis using Some om False it q(3) by (auto simp: view_def h)
      qed
    qed
  qed
  ultimately show ?thesis using s' f(4) by blast
qed

section \<open>The loops\<close>

lemma free_loop_result:
  "lseg (items s) p ds \<Longrightarrow> distinct ds \<Longrightarrow>
   free_loop unblock p s calls = Some (s\<lparr>items := items s |` (- set ds)\<rparr>,
     calls @ map (\<lambda>a. Unblock_ip (it_ip (the (items s a)))) (filter (\<lambda>a. unblock (the (items s a))) ds))"
proof (induction ds arbitrary: p s calls)
  case Nil
  then show ?case by (subst free_loop.simps) (simp add: restrict_map_def)
next
  case (Cons a ds)
  then obtain it where it: "p = Some a" "items s a = Some it" "lseg (items s) (it_next it) ds" by auto
  have "lseg (items (del_item a s)) (it_next it) ds" using it(3) Cons.prems(2) by (simp add: lseg_upd)
  note IH = Cons.IH [OF this]
  have heap: "items (del_item a s) |` (- set ds) = items s |` (- set (a # ds))"
    by (auto simp: restrict_map_def)
  have same: "map (\<lambda>b. Unblock_ip (it_ip (the (items (del_item a s) b)))) (filter (\<lambda>b. unblock (the (items (del_item a s) b))) ds)
      = map (\<lambda>b. Unblock_ip (it_ip (the (items s b)))) (filter (\<lambda>b. unblock (the (items s b))) ds)"
    using Cons.prems(2) by (intro map_cong filter_cong) auto
  show ?case
    using it Cons.prems(2) by (subst free_loop.simps) (simp add: IH [unfolded heap same], simp add: del_item_def)
qed

text \<open>What \<^verbatim>\<open>flush\<close> leaves.\<close>

definition expired :: "int \<Rightarrow> int \<Rightarrow> entry \<Rightarrow> bool" where
  "expired now time_out e = (case e of Static white \<Rightarrow> False | Dynamic t \<Rightarrow> now - t > time_out)"

definition flushed :: "int \<Rightarrow> int \<Rightarrow> (string \<Rightarrow> entry option) \<Rightarrow> string \<Rightarrow> entry option" where
  "flushed now time_out v = (\<lambda>ip.
     case v ip of None \<Rightarrow> None | Some e \<Rightarrow> if expired now time_out e then None else Some e)"

lemma core_pop:
  assumes c: "core now s (a # xs) D" and a: "items s a = Some it" "del_list \<noteq> Some a"
  defines "s' \<equiv> (set_item a (it\<lparr>it_next := del_list\<rparr>)
      (if IsConvertToStatic it then s else s\<lparr>wls := om_erase (it_ip it) (wls s)\<rparr>))\<lparr>q_head := it_next it\<rparr>"
  shows "core now s' xs (insert a D) \<and> view s' = (if IsConvertToStatic it then view s else (view s)(it_ip it := None)) \<and>
    (\<not> IsConvertToStatic it \<longrightarrow> view s (it_ip it) = Some (Dynamic (last_time it)))"
proof (intro conjI impI)
  note wf = coreD(4) [OF c]
  have aq: "a \<notin> set xs" "\<not> IsStatic a it" "a \<notin> D"
    using coreD(2,3) [OF c] lseg_not_static [OF coreD(1,2) [OF c], of a it] a(1) by auto
  have dyn: "om_find (wls s) (it_ip it) = Some a" if "\<not> IsConvertToStatic it"
    using coreD(7) [OF c a(1)] aq(3) that by (auto simp: IsConvertToStatic_def)
  have uniq: "ip = it_ip it \<and> \<not> IsConvertToStatic it" if "om_find (wls s) ip = Some a" for ip
    using coreD(6) [OF c that] a(1) by (auto simp: IsConvertToStatic_def)
  have find: "om_find (wls s') ip = (if om_find (wls s) ip = Some a then None else om_find (wls s) ip)" for ip
    using uniq dyn by (auto simp: s'_def om_simps [OF wf])
  have same: "stamp (items s') b = stamp (items s) b" for b
    using a(1) by (auto simp: s'_def stamp_def)
  show "core now s' xs (insert a D)"
  proof (rule coreI)
    show "lseg (items s') (q_head s') xs"
      using coreD(1) [OF c] a(1) aq(1) by (auto simp: s'_def lseg_upd)
  next
    fix ip b
    assume "om_find (wls s') ip = Some b"
    then have "om_find (wls s) ip = Some b" "b \<noteq> a" by (auto simp: find split: if_splits)
    then show "b \<notin> insert a D \<and> (\<exists>it. items s' b = Some it \<and> it_ip it = ip \<and> (if b \<in> set xs then last_time it \<noteq> 0 else IsStatic b it))"
      using coreD(6) [OF c, of ip b] by (auto simp: s'_def)
  next
    fix b itb
    assume b: "items s' b = Some itb"
    show "b \<in> insert a D \<or> b \<in> set xs \<and> last_time itb = 0 \<or> om_find (wls s') (it_ip itb) = Some b"
    proof (cases "b = a")
      case False
      then have "items s b = Some itb" using b by (auto simp: s'_def split: if_splits)
      from coreD(7) [OF c this] False show ?thesis by (auto simp: find)
    qed simp
  next
    fix b itb
    assume "items s' b = Some itb"
    then show "b < next_item s'" using coreD(5) [OF c, of b] a(1) by (auto simp: s'_def split: if_splits)
  next
    have "sorted (map (stamp (items s)) (live (items s) xs))"
      using coreD(9) [OF c] by (auto simp: live_def split: if_splits)
    then show "sorted (map (stamp (items s')) (live (items s') xs))" by (rule stamp_cong [OF same])
  next
    fix b
    assume "b \<in> set xs"
    then show "0 \<le> stamp (items s') b \<and> stamp (items s') b \<le> now" using coreD(8) [OF c, of b] same by simp
  qed (use coreD(2-4) [OF c] in \<open>auto simp: s'_def om_simps\<close>)
  show "view s' = (if IsConvertToStatic it then view s else (view s)(it_ip it := None))"
  proof
    fix ip
    show "view s' ip = (if IsConvertToStatic it then view s else (view s)(it_ip it := None)) ip"
    proof (cases "om_find (wls s) ip = Some a")
      case True
      then show ?thesis using uniq [OF True] find [of ip] by (simp add: view_def)
    next
      case False
      then have "IsConvertToStatic it \<or> ip \<noteq> it_ip it" using dyn by auto
      moreover have "view s' ip = view s ip"
        using False find [of ip] by (auto simp: view_def s'_def split: option.splits)
      ultimately show ?thesis by auto
    qed
  qed
  assume "\<not> IsConvertToStatic it"
  from dyn [OF this] a(1) aq(2) show "view s (it_ip it) = Some (Dynamic (last_time it))"
    by (simp add: view_def entry_of_def)
qed

text \<open>Behind an item that is too young, nothing has expired.\<close>

lemma queue_young:
  assumes c: "core now s (a # xs) D" and a: "items s a = Some it" and young: "\<not> now - last_time it > time_out"
  shows "flushed now time_out (view s) = view s"
proof
  fix ip
  have "now - t \<le> time_out" if v: "view s ip = Some (Dynamic t)" for t
  proof -
    from v view_cases [OF c] obtain b itb where b: "items s b = Some itb" "t = last_time itb" "b \<in> set (a # xs)" "last_time itb \<noteq> 0"
      by (cases "om_find (wls s) ip") (fastforce simp: entry_of_def split: if_splits)+
    have st: "stamp (items s) b = t" "stamp (items s) a = last_time it" using b a by (auto simp: stamp_def)
    show ?thesis
    proof (cases "last_time it = 0 \<or> b = a")
      case True
      then show ?thesis using young coreD(8) [OF c b(3)] st b(1,2) a by auto
    next
      case False
      then have "b \<in> set (live (items s) xs)" using b st by (auto simp: live_def)
      moreover have "live (items s) (a # xs) = a # live (items s) xs" using False st by (simp add: live_def)
      ultimately have "stamp (items s) a \<le> stamp (items s) b"
        using coreD(9) [OF c] by auto
      then show ?thesis using young st by simp
    qed
  qed
  then show "flushed now time_out (view s) ip = view s ip"
    by (auto simp: flushed_def expired_def split: option.splits entry.splits)
qed

lemma flush_loop_result:
  "core now s xs (set ds) \<Longrightarrow> lseg (items s) del_list ds \<Longrightarrow> distinct ds \<Longrightarrow>
   \<exists>del_list' s' ys ds'. flush_loop now time_out del_list s = Some (del_list', s') \<and>
     core now s' ys (set ds') \<and> lseg (items s') del_list' ds' \<and> distinct ds' \<and>
     view s' = flushed now time_out (view s) \<and> q_end s' = q_end s \<and> (ys \<noteq> [] \<longrightarrow> last ys = last xs) \<and> run_fw s' = run_fw s \<and>
     (xs = [] \<longrightarrow> ys = [])"
proof (induction xs arbitrary: s del_list ds)
  case Nil
  then have "q_head s = None" using coreD(1) by fastforce
  moreover have "flushed now time_out (view s) = view s"
  proof
    fix ip
    show "flushed now time_out (view s) ip = view s ip"
      using view_cases [OF Nil.prems(1), of ip]
      by (cases "om_find (wls s) ip") (auto simp: flushed_def expired_def entry_of_def split: option.splits entry.splits)
  qed
  ultimately show ?case
    using Nil.prems by (intro exI [of _ del_list] exI [of _ s] exI [of _ "[]"] exI [of _ ds]) (simp add: flush_loop.simps)
next
  case (Cons a xs)
  note c = Cons.prems(1)
  obtain it where it: "q_head s = Some a" "items s a = Some it" using coreD(1) [OF c] by auto
  show ?case
  proof (cases "now - last_time it > time_out")
    case False
    have "flush_loop now time_out del_list s = Some (del_list, s)"
      using it False by (subst flush_loop.simps) simp
    then show ?thesis
      using queue_young [OF c it(2) False] Cons.prems
      by (intro exI [of _ del_list] exI [of _ s] exI [of _ "a # xs"] exI [of _ ds]) simp
  next
    case True
    have ads: "a \<notin> set ds" using coreD(3) [OF c] by auto
    then have "del_list \<noteq> Some a" using Cons.prems(2) by (cases ds) auto
    define s1 where "s1 = (set_item a (it\<lparr>it_next := del_list\<rparr>)
        (if IsConvertToStatic it then s else s\<lparr>wls := om_erase (it_ip it) (wls s)\<rparr>))\<lparr>q_head := it_next it\<rparr>"
    from core_pop [OF c it(2) \<open>del_list \<noteq> Some a\<close>, folded s1_def]
    have s1: "core now s1 xs (set (a # ds))"
      and v: "view s1 = (if IsConvertToStatic it then view s else (view s)(it_ip it := None))"
      and d: "\<not> IsConvertToStatic it \<Longrightarrow> view s (it_ip it) = Some (Dynamic (last_time it))"
      by simp_all
    have fl: "flushed now time_out (view s1) = flushed now time_out (view s)"
    proof
      fix ip
      show "flushed now time_out (view s1) ip = flushed now time_out (view s) ip"
        using d True unfolding v by (cases "ip = it_ip it") (auto simp: flushed_def expired_def)
    qed
    have seg: "lseg (items s1) (Some a) (a # ds)"
      using Cons.prems(2) ads by (auto simp: s1_def lseg_upd)
    have keep: "q_end s1 = q_end s" "run_fw s1 = run_fw s" by (simp_all add: s1_def)
    have "\<not> IsStatic a it" using lseg_not_static [OF coreD(1,2) [OF c]] it(2) by simp
    then have step: "flush_loop now time_out del_list s = flush_loop now time_out (Some a) s1"
      using it True by (subst flush_loop.simps) (simp add: s1_def Let_def)
    have "distinct (a # ds)" using ads Cons.prems(3) by simp
    from Cons.IH [OF s1 seg this, unfolded fl keep] obtain del_list' s' ys ds' where
      r: "flush_loop now time_out (Some a) s1 = Some (del_list', s')" "core now s' ys (set ds')"
      "lseg (items s') del_list' ds'" "distinct ds'" "view s' = flushed now time_out (view s)" "q_end s' = q_end s"
      "ys \<noteq> [] \<longrightarrow> last ys = last xs" "run_fw s' = run_fw s" "xs = [] \<longrightarrow> ys = []"
      by blast
    then have "ys \<noteq> [] \<longrightarrow> last ys = last (a # xs)" by auto
    with r step show ?thesis
      by (intro exI [of _ del_list'] exI [of _ s'] exI [of _ ys] exI [of _ ds']) simp
  qed
qed

lemma core_free:
  assumes c: "core now s xs D"
  defines "s' \<equiv> s\<lparr>items := items s |` (- D)\<rparr>"
  shows "core now s' xs {} \<and> view s' = view s"
proof
  have keep: "items s' b = items s b" if "b \<notin> D" for b using that by (simp add: s'_def)
  have xs: "b \<notin> D" if "b \<in> set xs" for b using that coreD(3) [OF c] by auto
  have same: "stamp (items s') b = stamp (items s) b" if "b \<in> set xs" for b
    using keep [OF xs [OF that]] by (simp add: stamp_def)
  have fields: "q_head s' = q_head s" "wls s' = wls s" "next_item s' = next_item s" by (simp_all add: s'_def)
  have some: "items s' b = Some it \<Longrightarrow> b \<notin> D \<and> items s b = Some it" for b it
    by (auto simp: s'_def restrict_map_def split: if_splits)
  show "core now s' xs {}"
  proof (rule coreI)
    show "lseg (items s') (q_head s') xs"
      using lseg_frame [OF coreD(1) [OF c]] keep xs fields by simp
  next
    fix ip b
    assume "om_find (wls s') ip = Some b"
    with coreD(6) [OF c, of ip b] keep show "b \<notin> {} \<and> (\<exists>it. items s' b = Some it \<and> it_ip it = ip \<and> (if b \<in> set xs then last_time it \<noteq> 0 else IsStatic b it))"
      by (simp add: fields)
  next
    show "sorted (map (stamp (items s')) (live (items s') xs))" by (rule stamp_cong [OF same coreD(9) [OF c]])
  next
    fix b itb
    assume "items s' b = Some itb"
    with coreD(7) [OF c, of b itb] some show "b \<in> {} \<or> b \<in> set xs \<and> last_time itb = 0 \<or> om_find (wls s') (it_ip itb) = Some b"
      by (auto simp: fields)
  qed (use coreD(2,4,5,8) [OF c] some same in \<open>auto simp: fields\<close>)
  show "view s' = view s"
  proof
    fix ip
    show "view s' ip = view s ip"
      using coreD(6) [OF c, of ip] keep by (auto simp: view_def fields split: option.splits)
  qed
qed

lemma core_q_end [simp]: "core now (s\<lparr>q_end := e\<rparr>) xs D = core now s xs D"
  by (simp add: core_def)

lemma view_q [simp]: "view (s\<lparr>q_end := e\<rparr>) = view s" "view (s\<lparr>q_head := e\<rparr>) = view s"
  by (auto simp: view_def fun_eq_iff split: option.splits)

lemma ip_flush_result:
  assumes "bl_inv now s xs"
  shows "\<exists>s' ys calls. ip_flush conf now time_out s = Some (s', calls) \<and> bl_inv now s' ys \<and>
    view s' = flushed now time_out (view s) \<and> run_fw s' = run_fw s"
proof -
  have c: "core now s xs (set [])" and e: "q_end s = (if xs = [] then None else Some (last xs))"
    using assms by (auto simp: bl_inv_def)
  from flush_loop_result [OF c, of None time_out] obtain del_list s1 ys ds where
    r: "flush_loop now time_out None s = Some (del_list, s1)" "core now s1 ys (set ds)" "lseg (items s1) del_list ds" "distinct ds"
      "view s1 = flushed now time_out (view s)" "q_end s1 = q_end s" "ys \<noteq> [] \<longrightarrow> last ys = last xs" "run_fw s1 = run_fw s" "xs = [] \<longrightarrow> ys = []"
    by auto
  define s2 where "s2 = (if q_head s1 = None then s1\<lparr>q_end := None\<rparr> else s1)"
  have hd: "q_head s1 = None \<longleftrightarrow> ys = []" using coreD(1) [OF r(2)] by (cases ys) auto
  have s2: "core now s2 ys (set ds)" "items s2 = items s1" "view s2 = view s1" "run_fw s2 = run_fw s"
    "q_end s2 = (if ys = [] then None else Some (last ys))"
    using r(2,6,7,8,9) e hd by (auto simp: s2_def)
  let ?u = "\<lambda>it :: ip_item. run_fw s2 \<and> unblock_ip_cmd conf \<noteq> []"
  obtain calls where "free_loop ?u del_list s2 [] = Some (s2\<lparr>items := items s2 |` (- set ds)\<rparr>, calls)"
    using free_loop_result [of s2 del_list ds ?u "[]"] r(3,4) s2(2) by simp
  then have "ip_flush conf now time_out s = Some (s2\<lparr>items := items s2 |` (- set ds)\<rparr>, calls)"
    using r(1) by (simp add: ip_flush_def s2_def Let_def)
  then show ?thesis
    using core_free [OF s2(1)] s2 r(5) by (auto simp: bl_inv_def)
qed

text \<open>The dynamic addresses are those of the live items of the queue.\<close>

definition dyn_ips :: "(string \<Rightarrow> entry option) \<Rightarrow> string set" where
  "dyn_ips v = {ip. \<exists>t. v ip = Some (Dynamic t)}"

definition item_ip :: "ip_list \<Rightarrow> nat \<Rightarrow> string" where
  "item_ip s a = it_ip (the (items s a))"

lemma live_item:
  assumes c: "core now s xs {}" and a: "a \<in> set (live (items s) xs)"
  shows "om_find (wls s) (item_ip s a) = Some a"
proof -
  have "a \<in> set xs" "stamp (items s) a \<noteq> 0" using a by (auto simp: live_def)
  with coreD(7) [OF c, of a] lseg_item [OF coreD(1) [OF c]] show ?thesis
    by (fastforce simp: stamp_def item_ip_def)
qed

lemma dyn_ips_live:
  assumes c: "core now s xs {}"
  shows "dyn_ips (view s) = item_ip s ` set (live (items s) xs)" "distinct (map (item_ip s) (live (items s) xs))"
proof -
  show "dyn_ips (view s) = item_ip s ` set (live (items s) xs)"
  proof (rule set_eqI)
    fix ip
    have "ip \<in> dyn_ips (view s) \<longleftrightarrow> (\<exists>a\<in>set (live (items s) xs). ip = item_ip s a)"
    proof (cases "om_find (wls s) ip")
      case None
      with view_cases(1) [OF c None] live_item [OF c] show ?thesis by (auto simp: dyn_ips_def)
    next
      case (Some a)
      from view_cases(2) [OF c Some] obtain it where it: "items s a = Some it" "it_ip it = ip" "view s ip = Some (entry_of a it)"
        "a \<in> set xs \<and> \<not> IsStatic a it \<and> last_time it \<noteq> 0 \<or> a \<notin> set xs \<and> IsStatic a it" by blast
      have "ip \<in> dyn_ips (view s) \<longleftrightarrow> a \<in> set (live (items s) xs)"
        using it by (auto simp: dyn_ips_def entry_of_def live_def stamp_def)
      moreover have "(\<exists>b\<in>set (live (items s) xs). ip = item_ip s b) \<longleftrightarrow> a \<in> set (live (items s) xs)"
      proof
        assume "\<exists>b\<in>set (live (items s) xs). ip = item_ip s b"
        then obtain b where b: "b \<in> set (live (items s) xs)" "ip = item_ip s b" by blast
        from live_item [OF c b(1)] b(2) Some have "b = a" by simp
        with b(1) show "a \<in> set (live (items s) xs)" by simp
      next
        assume "a \<in> set (live (items s) xs)"
        moreover have "ip = item_ip s a" using it by (simp add: item_ip_def)
        ultimately show "\<exists>b\<in>set (live (items s) xs). ip = item_ip s b" by blast
      qed
      ultimately show ?thesis by simp
    qed
    then show "ip \<in> dyn_ips (view s) \<longleftrightarrow> ip \<in> item_ip s ` set (live (items s) xs)"
      by (simp only: image_iff)
  qed
  have "inj_on (item_ip s) (set (live (items s) xs))"
  proof (rule inj_onI)
    fix a b
    assume ab: "a \<in> set (live (items s) xs)" "b \<in> set (live (items s) xs)" "item_ip s a = item_ip s b"
    have "Some a = Some b"
      using trans [OF live_item [OF c ab(1), unfolded ab(3), symmetric] live_item [OF c ab(2)]] .
    then show "a = b" by simp
  qed
  then show "distinct (map (item_ip s) (live (items s) xs))"
    using coreD(2) [OF c] by (simp add: distinct_map live_def)
qed

lemma dyn_card: "core now s xs {} \<Longrightarrow> card (dyn_ips (view s)) = length (live (items s) xs)"
  using dyn_ips_live [of now s xs] by (metis distinct_card length_map list.set_map)

lemma clear_loop_result:
  "lseg (items s) p xs \<Longrightarrow>
   clear_loop p count s = Some (count + length (live (items s) xs),
     s\<lparr>wls := fold (\<lambda>a. om_erase (item_ip s a)) (live (items s) xs) (wls s)\<rparr>)"
proof (induction xs arbitrary: p count s)
  case Nil
  then show ?case by (subst clear_loop.simps) (simp add: live_def)
next
  case (Cons a xs)
  then obtain it where it: "p = Some a" "items s a = Some it" "lseg (items s) (it_next it) xs" by auto
  have lv: "live (items s) (a # xs) = (if IsConvertToStatic it then live (items s) xs else a # live (items s) xs)"
    using it(2) by (simp add: live_def stamp_def IsConvertToStatic_def)
  let ?s = "s\<lparr>wls := om_erase (it_ip it) (wls s)\<rparr>"
  have ip: "item_ip ?s = item_ip s" "item_ip s a = it_ip it" using it(2) by (auto simp: item_ip_def fun_eq_iff)
  have "lseg (items ?s) (it_next it) xs" using it(3) by simp
  from Cons.IH [OF it(3)] Cons.IH [OF this] show ?case
    using it(1,2) unfolding lv by (subst clear_loop.simps) (simp add: ip)
qed

lemma om_erase_all:
  "om_wf m \<Longrightarrow> om_wf (fold (\<lambda>a. om_erase (f a)) as m) \<and>
   om_find (fold (\<lambda>a. om_erase (f a)) as m) k = (if k \<in> f ` set as then None else om_find m k)"
  by (induction as arbitrary: m) (auto simp: om_simps)

lemma clearDynamic_result:
  assumes "bl_inv now s xs"
  shows "\<exists>s' calls. clearDynamic conf s = Some (card (dyn_ips (view s)), s', calls) \<and> bl_inv now s' [] \<and>
    view s' = (\<lambda>ip. if ip \<in> dyn_ips (view s) then None else view s ip) \<and> run_fw s' = run_fw s"
proof -
  have c: "core now s xs {}" using assms by (simp add: bl_inv_def)
  let ?w = "fold (\<lambda>a. om_erase (item_ip s a)) (live (items s) xs) (wls s)"
  let ?s = "s\<lparr>q_head := None, q_end := None\<rparr>"
  let ?s1 = "?s\<lparr>wls := ?w\<rparr>"
  have find: "om_wf ?w" "om_find ?w ip = (if ip \<in> dyn_ips (view s) then None else om_find (wls s) ip)" for ip
    using om_erase_all [OF coreD(4) [OF c], of "item_ip s"] by (auto simp: dyn_ips_live(1) [OF c])
  have walk: "clear_loop (q_head s) 0 ?s = Some (card (dyn_ips (view s)), ?s1)"
    using clear_loop_result [of ?s "q_head s" xs 0] coreD(1) [OF c]
    by (simp add: dyn_card [OF c] item_ip_def [abs_def])
  have static: "a \<notin> set xs \<and> (\<exists>it. items s a = Some it \<and> it_ip it = ip \<and> IsStatic a it)"
    if "om_find ?w ip = Some a" for ip a
    using that view_cases(2) [OF c, of ip a] by (auto simp: find dyn_ips_def entry_of_def split: if_splits)
  have c1: "core now ?s1 [] (set xs)"
  proof (rule coreI)
    fix ip a
    assume "om_find (wls ?s1) ip = Some a"
    then show "a \<notin> set xs \<and> (\<exists>it. items ?s1 a = Some it \<and> it_ip it = ip \<and> (if a \<in> set [] then last_time it \<noteq> 0 else IsStatic a it))"
      using static [of ip a] by simp
  next
    fix a it
    assume a: "items ?s1 a = Some it"
    show "a \<in> set xs \<or> a \<in> set [] \<and> last_time it = 0 \<or> om_find (wls ?s1) (it_ip it) = Some a"
    proof (cases "a \<in> set xs")
      case False
      then have f: "om_find (wls s) (it_ip it) = Some a" using coreD(7) [OF c, of a it] a by auto
      then have "view s (it_ip it) = Some (entry_of a it)" "IsStatic a it"
        using view_cases(2) [OF c f] a False by auto
      then show ?thesis using f by (simp add: find dyn_ips_def entry_of_def)
    qed simp
  qed (use coreD(5) [OF c] find in \<open>auto simp: live_def\<close>)
  let ?u = "\<lambda>it. (run_fw s \<and> unblock_ip_cmd conf \<noteq> []) \<and> \<not> IsConvertToStatic it"
  obtain calls where "free_loop ?u (q_head s) ?s1 [] = Some (?s1\<lparr>items := items ?s1 |` (- set xs)\<rparr>, calls)"
    using free_loop_result [of ?s1 "q_head s" xs ?u "[]"] coreD(1,2) [OF c] by simp
  with walk have "clearDynamic conf s = Some (card (dyn_ips (view s)), ?s1\<lparr>items := items ?s1 |` (- set xs)\<rparr>, calls)"
    by (simp add: clearDynamic_def Let_def)
  moreover have "view ?s1 = (\<lambda>ip. if ip \<in> dyn_ips (view s) then None else view s ip)"
    by (auto simp: view_def find fun_eq_iff split: option.splits)
  ultimately show ?thesis using core_free [OF c1] by (auto simp: bl_inv_def)
qed

lemma clear_static_result:
  "\<forall>(ip, a)\<in>set es. items s a \<noteq> None \<Longrightarrow> distinct (map snd es) \<Longrightarrow>
   clear_static_loop es s = Some (s\<lparr>items := (\<lambda>a. case items s a of None \<Rightarrow> None
     | Some it \<Rightarrow> if a \<in> snd ` set es \<and> IsStatic a it then None else Some it)\<rparr>)"
proof (induction es arbitrary: s)
  case Nil
  have "(\<lambda>a. case items s a of None \<Rightarrow> None | Some it \<Rightarrow> if a \<in> snd ` set ([] :: (string \<times> nat) list) \<and> IsStatic a it then None else Some it) = items s"
    by (auto simp: fun_eq_iff split: option.splits)
  then have "s\<lparr>items := (\<lambda>a. case items s a of None \<Rightarrow> None | Some it \<Rightarrow> if a \<in> snd ` set ([] :: (string \<times> nat) list) \<and> IsStatic a it then None else Some it)\<rparr>
      = s\<lparr>items := items s\<rparr>"
    by (rule arg_cong)
  then show ?case by simp
next
  case (Cons e es)
  obtain ip a where e: "e = (ip, a)" by fastforce
  with Cons.prems obtain it where it: "items s a = Some it" by auto
  let ?s = "if IsStatic a it then del_item a s else s"
  have rest: "\<forall>(ip, b)\<in>set es. items ?s b \<noteq> None" "distinct (map snd es)" "a \<notin> snd ` set es"
    using Cons.prems e by (auto simp: image_iff)
  have "(\<lambda>b. case items ?s b of None \<Rightarrow> None | Some it \<Rightarrow> if b \<in> snd ` set es \<and> IsStatic b it then None else Some it)
      = (\<lambda>b. case items s b of None \<Rightarrow> None | Some it \<Rightarrow> if b \<in> snd ` set (e # es) \<and> IsStatic b it then None else Some it)"
    using it rest(3) by (auto simp: fun_eq_iff e split: option.splits)
  with Cons.IH [OF rest(1,2)] it show ?case by (simp add: e del_item_def)
qed

lemma wls_addrs:
  assumes c: "core now s xs {}"
  shows "\<forall>(ip, a)\<in>set (wls s). items s a \<noteq> None" "distinct (map snd (wls s))"
proof -
  have mem: "om_find (wls s) ip = Some a" if "(ip, a) \<in> set (wls s)" for ip a
    using om_find_mem [OF coreD(4) [OF c] that] .
  show "\<forall>(ip, a)\<in>set (wls s). items s a \<noteq> None" using mem coreD(6) [OF c] by fastforce
  have "inj_on snd (set (wls s))"
  proof (rule inj_onI)
    fix p q
    assume pq: "p \<in> set (wls s)" "q \<in> set (wls s)" "snd p = snd q"
    have "\<exists>it. items s (snd p) = Some it \<and> it_ip it = fst p" "\<exists>it. items s (snd q) = Some it \<and> it_ip it = fst q"
      using coreD(6) [OF c mem] pq(1,2) by (metis prod.collapse)+
    with pq(3) show "p = q" by (auto simp: prod_eq_iff)
  qed
  then show "distinct (map snd (wls s))"
    using om_wf_distinct [OF coreD(4) [OF c]] by (simp add: distinct_map)
qed

lemma clearBlackList_result:
  assumes "bl_inv now s xs"
  shows "\<exists>s'. clearBlackList s = Some s' \<and> bl_inv now' s' [] \<and> view s' = (\<lambda>ip. None) \<and> items s' = (\<lambda>a. None) \<and>
    run_fw s' = run_fw s"
proof -
  have c: "core now s xs {}" using assms by (simp add: bl_inv_def)
  define h where "h = (\<lambda>a. case items s a of None \<Rightarrow> None
     | Some it \<Rightarrow> if a \<in> snd ` set (wls s) \<and> IsStatic a it then None else Some it)"
  have static: "clearStatic s = Some (s\<lparr>items := h, wls := []\<rparr>)"
    using clear_static_result [OF wls_addrs [OF c]] by (simp add: clearStatic_def h_def)
  have q: "h a = items s a" if "a \<in> set xs" for a
    using that lseg_not_static [OF coreD(1,2) [OF c] that] by (auto simp: h_def split: option.splits)
  have none: "h a = None" if "a \<notin> set xs" for a
  proof (cases "items s a")
    case (Some it)
    then have f: "om_find (wls s) (it_ip it) = Some a" using coreD(7) [OF c Some] that by auto
    then have "a \<in> snd ` set (wls s)" "IsStatic a it"
      using om_find_Some_mem [OF f] coreD(6) [OF c f] Some that by force+
    with Some show ?thesis by (simp add: h_def)
  qed (simp add: h_def)
  have "lseg h (q_head s) xs" using lseg_frame [OF coreD(1) [OF c]] q by blast
  then have "free_loop (\<lambda>it. False) (q_head s) (s\<lparr>items := h, wls := []\<rparr>) [] = Some (s\<lparr>items := h |` (- set xs), wls := []\<rparr>, [])"
    using free_loop_result [of "s\<lparr>items := h, wls := []\<rparr>" "q_head s" xs "\<lambda>it. False" "[]"] coreD(2) [OF c] by simp
  moreover have "h |` (- set xs) = (\<lambda>a. None)" using none by (auto simp: restrict_map_def)
  ultimately have "clearBlackList s = Some (s\<lparr>items := (\<lambda>a. None), wls := [], q_head := None, q_end := None\<rparr>)"
    using static by (simp add: clearBlackList_def)
  then show ?thesis
    by (auto simp: bl_inv_def core_def view_def live_def fun_eq_iff)
qed

lemma count_loop:
  "\<forall>(ip, a)\<in>set es. items s a \<noteq> None \<Longrightarrow>
   foldl (\<lambda>n (ip, a). do { n \<leftarrow> n; it \<leftarrow> items s a; Some (if IsStatic a it then n else n + 1) }) (Some n) es
   = Some (n + length (filter (\<lambda>(ip, a). \<not> IsStatic a (the (items s a))) es))"
  by (induction es arbitrary: n) auto

lemma getDynamicCount_result:
  assumes "bl_inv now s xs"
  shows "getDynamicCount s = Some (card (dyn_ips (view s)))"
proof -
  have c: "core now s xs {}" using assms by (simp add: bl_inv_def)
  let ?d = "filter (\<lambda>(ip, a). \<not> IsStatic a (the (items s a))) (wls s)"
  have "ip \<in> dyn_ips (view s) \<longleftrightarrow> ip \<in> fst ` set ?d" for ip
  proof (cases "om_find (wls s) ip")
    case None
    then show ?thesis using om_find_None_iff [of "wls s" ip] by (auto simp: dyn_ips_def view_def)
  next
    case (Some a)
    then have "(ip, b) \<in> set (wls s) \<longleftrightarrow> b = a" for b
      using om_find_Some_mem [OF Some] om_find_mem [OF coreD(4) [OF c], of ip b] by auto
    moreover obtain it where "items s a = Some it" using coreD(6) [OF c Some] by auto
    ultimately show ?thesis using Some by (auto simp: dyn_ips_def view_def entry_of_def image_iff)
  qed
  then have "dyn_ips (view s) = set (map fst ?d)" by auto
  moreover have "distinct (map fst ?d)"
    using om_wf_distinct [OF coreD(4) [OF c]] by (simp add: distinct_map_filter)
  ultimately have "card (dyn_ips (view s)) = length ?d" by (metis distinct_card length_map)
  then show ?thesis
    unfolding getDynamicCount_def count_loop [OF wls_addrs(1) [OF c]] by simp
qed

section \<open>Any sequence of calls\<close>

datatype bl_op =
    Op_Remove string
  | Op_AddStatic string bool
  | Op_AddDynamic string bool nat
  | Op_flush int
  | Op_find string int bool
  | Op_clearDynamic
  | Op_clearBlackList
  | Op_getDynamicCount
  | Op_setRunFwCmd bool

datatype bl_res = R_unit | R_bool bool | R_nat nat

text \<open>One call at the time \<open>now\<close>; the number in \<open>Op_AddDynamic\<close> is the length of the worker's queue.\<close>

fun bl_step :: "fw_conf \<Rightarrow> int \<Rightarrow> bl_op \<Rightarrow> ip_list \<Rightarrow> (bl_res \<times> ip_list) option" where
  "bl_step conf now (Op_Remove ip) s = map_option (\<lambda>(r, s). (R_bool r, s)) (Remove ip s)"
| "bl_step conf now (Op_AddStatic ip white) s = map_option (\<lambda>s. (R_unit, s)) (AddStatic ip white s)"
| "bl_step conf now (Op_AddDynamic ip skip queue) s =
     map_option (\<lambda>(s, calls). (R_unit, s)) (AddDynamic conf queue now ip skip s)"
| "bl_step conf now (Op_flush time_out) s = map_option (\<lambda>(s, calls). (R_unit, s)) (ip_flush conf now time_out s)"
| "bl_step conf now (Op_find ip time_out flush) s =
     map_option (\<lambda>(r, s, calls). (R_bool r, s)) (ip_find conf now ip time_out flush s)"
| "bl_step conf now Op_clearDynamic s = map_option (\<lambda>(n, s, calls). (R_nat n, s)) (clearDynamic conf s)"
| "bl_step conf now Op_clearBlackList s = map_option (\<lambda>s. (R_unit, s)) (clearBlackList s)"
| "bl_step conf now Op_getDynamicCount s = map_option (\<lambda>n. (R_nat n, s)) (getDynamicCount s)"
| "bl_step conf now (Op_setRunFwCmd b) s = Some (R_unit, s\<lparr>run_fw := b\<rparr>)"

text \<open>The same call on the table of addresses.\<close>

definition blocked :: "entry option \<Rightarrow> bool" where
  "blocked e \<longleftrightarrow> e \<noteq> None \<and> e \<noteq> Some (Static True)"

fun table_step :: "int \<Rightarrow> bl_op \<Rightarrow> (string \<Rightarrow> entry option) \<Rightarrow> bl_res \<times> (string \<Rightarrow> entry option)" where
  "table_step now (Op_Remove ip) v = (R_bool (v ip \<noteq> None), v(ip := None))"
| "table_step now (Op_AddStatic ip white) v = (R_unit, v(ip \<mapsto> Static white))"
| "table_step now (Op_AddDynamic ip skip queue) v = (R_unit, if v ip = None then v(ip \<mapsto> Dynamic now) else v)"
| "table_step now (Op_flush time_out) v = (R_unit, flushed now time_out v)"
| "table_step now (Op_find ip time_out flush) v =
     (let v = (if flush then flushed now time_out v else v) in (R_bool (blocked (v ip)), v))"
| "table_step now Op_clearDynamic v = (R_nat (card (dyn_ips v)), \<lambda>ip. if ip \<in> dyn_ips v then None else v ip)"
| "table_step now Op_clearBlackList v = (R_unit, \<lambda>ip. None)"
| "table_step now Op_getDynamicCount v = (R_nat (card (dyn_ips v)), v)"
| "table_step now (Op_setRunFwCmd b) v = (R_unit, v)"

fun bl_run :: "fw_conf \<Rightarrow> (int \<times> bl_op) list \<Rightarrow> ip_list \<Rightarrow> (bl_res list \<times> ip_list) option" where
  "bl_run conf [] s = Some ([], s)"
| "bl_run conf ((now, op) # ops) s = do {
     (r, s) \<leftarrow> bl_step conf now op s;
     (rs, s) \<leftarrow> bl_run conf ops s;
     Some (r # rs, s) }"

fun table_run :: "(int \<times> bl_op) list \<Rightarrow> (string \<Rightarrow> entry option) \<Rightarrow> bl_res list \<times> (string \<Rightarrow> entry option)" where
  "table_run [] v = ([], v)"
| "table_run ((now, op) # ops) v =
     (case table_step now op v of (r, v) \<Rightarrow> (case table_run ops v of (rs, v) \<Rightarrow> (r # rs, v)))"

lemma bl_inv_later: "bl_inv now s xs \<Longrightarrow> now \<le> now' \<Longrightarrow> bl_inv now' s xs"
  unfolding bl_inv_def core_def by fastforce

lemma bl_inv_run_fw [simp]: "bl_inv now (s\<lparr>run_fw := b\<rparr>) xs = bl_inv now s xs"
  by (simp add: bl_inv_def core_def)

lemma view_run_fw [simp]: "view (s\<lparr>run_fw := b\<rparr>) = view s"
  by (auto simp: view_def fun_eq_iff split: option.splits)

lemma Remove_result:
  assumes "bl_inv now s xs"
  shows "\<exists>s'. Remove ip s = Some (view s ip \<noteq> None, s') \<and> bl_inv now s' xs \<and> view s' = (view s)(ip := None)"
proof (cases "om_find (wls s) ip")
  case None
  then show ?thesis using assms by (auto simp: Remove_def view_def fun_eq_iff)
next
  case (Some a)
  have c: "core now s xs {}" and e: "q_end s = (if xs = [] then None else Some (last xs))"
    using assms by (auto simp: bl_inv_def)
  from view_cases(2) [OF c Some] obtain it where it: "items s a = Some it" "view s ip \<noteq> None" by auto
  show ?thesis
    using core_drop_static [OF c Some it(1)] core_convert [OF c Some it(1)] Some it e
    by (cases "IsStatic a it") (auto simp: Remove_def bl_inv_def Let_def)
qed

lemma insert_static_sel [simp]:
  "q_end (insert_static ip white s) = q_end s" "run_fw (insert_static ip white s) = run_fw s"
  by (simp_all add: insert_static_def Let_def)

lemma AddStatic_result:
  assumes "bl_inv now s xs"
  shows "\<exists>s'. AddStatic ip white s = Some s' \<and> bl_inv now s' xs \<and> view s' = (view s)(ip \<mapsto> Static white)"
proof -
  have c: "core now s xs {}" and e: "q_end s = (if xs = [] then None else Some (last xs))"
    using assms by (auto simp: bl_inv_def)
  show ?thesis
  proof (cases "om_find (wls s) ip")
    case None
    then show ?thesis using core_insert_static [OF c _ None] e by (simp add: AddStatic_def bl_inv_def)
  next
    case (Some a)
    then obtain it where it: "items s a = Some it" using coreD(6) [OF c Some] by auto
    show ?thesis
    proof (cases "IsStatic a it")
      case True
      then show ?thesis using core_set_white [OF c Some it True, of white] Some it e by (simp add: AddStatic_def bl_inv_def)
    next
      case False
      let ?s = "set_item a (ConvertToStatic it) (s\<lparr>wls := om_erase ip (wls s)\<rparr>)"
      have s: "core now ?s xs {}" "view ?s = (view s)(ip := None)" using core_convert [OF c Some it False] by auto
      have "om_find (wls ?s) ip = None" by (simp add: om_simps [OF coreD(4) [OF c]])
      from core_insert_static [OF s(1) _ this, of white] s(2) False Some it e show ?thesis
        by (simp add: AddStatic_def bl_inv_def)
    qed
  qed
qed

lemma AddDynamic_result:
  assumes inv: "bl_inv now s xs" and pos: "0 < now" and cmd: "block_ip_cmd conf \<noteq> []"
  shows "\<exists>s' calls ys. AddDynamic conf queue now ip skip s = Some (s', calls) \<and> bl_inv now s' ys \<and>
    view s' = (if view s ip = None then (view s)(ip \<mapsto> Dynamic now) else view s)"
proof (cases "om_find (wls s) ip")
  case None
  then have v: "view s ip = None" by (simp add: view_def)
  from core_add_dynamic [OF inv pos None] None v cmd show ?thesis
    by (auto simp: AddDynamic_def Let_def)
next
  case (Some a)
  then have "view s ip \<noteq> None" using view_cases(2) [of now s xs "{}" ip a] inv by (auto simp: bl_inv_def)
  then show ?thesis using Some inv by (auto simp: AddDynamic_def)
qed

lemma ip_find_result:
  assumes "bl_inv now s xs"
  shows "\<exists>s' calls ys. ip_find conf now ip time_out flush s = Some (blocked (view s' ip), s', calls) \<and> bl_inv now s' ys \<and>
    view s' = (if flush then flushed now time_out (view s) else view s)"
proof -
  from ip_flush_result [OF assms, of conf time_out] assms obtain s' ys calls where
    s': "(if flush then ip_flush conf now time_out s else Some (s, [])) = Some (s', calls)" "bl_inv now s' ys"
      "view s' = (if flush then flushed now time_out (view s) else view s)"
    by (cases flush) auto
  have c: "core now s' ys {}" using s'(2) by (simp add: bl_inv_def)
  have "ip_find conf now ip time_out flush s = Some (blocked (view s' ip), s', calls)"
    using s'(1) view_cases [OF c, of ip]
    by (cases "om_find (wls s') ip") (auto simp: ip_find_def blocked_def IsWhite_def entry_of_def)
  with s' show ?thesis by blast
qed

lemma bl_step_refines:
  assumes "bl_inv now s xs" "0 < now" "block_ip_cmd conf \<noteq> []"
  shows "\<exists>r s' ys. bl_step conf now op s = Some (r, s') \<and> bl_inv now s' ys \<and> (r, view s') = table_step now op (view s)"
proof (cases op)
  case (Op_Remove ip)
  then show ?thesis using Remove_result [OF assms(1), of ip] by auto
next
  case (Op_AddStatic ip white)
  then show ?thesis using AddStatic_result [OF assms(1), of ip white] by auto
next
  case (Op_AddDynamic ip skip queue)
  then show ?thesis using AddDynamic_result [OF assms, of queue ip skip] by auto
next
  case (Op_flush time_out)
  then show ?thesis using ip_flush_result [OF assms(1), of conf time_out] by auto
next
  case (Op_find ip time_out flush)
  then show ?thesis using ip_find_result [OF assms(1), of conf ip time_out flush] by (auto simp: Let_def)
next
  case Op_clearDynamic
  then show ?thesis using clearDynamic_result [OF assms(1), of conf] by auto
next
  case Op_clearBlackList
  then show ?thesis using clearBlackList_result [OF assms(1), of now] by auto
next
  case Op_getDynamicCount
  then show ?thesis using getDynamicCount_result [OF assms(1)] assms(1) by auto
next
  case (Op_setRunFwCmd b)
  then show ?thesis using assms(1) by auto
qed

lemma bl_run_refines:
  "bl_inv now s xs \<Longrightarrow> sorted (now # map fst ops) \<Longrightarrow> \<forall>(t, op)\<in>set ops. 0 < t \<Longrightarrow> block_ip_cmd conf \<noteq> [] \<Longrightarrow>
   \<exists>rs s' ys. bl_run conf ops s = Some (rs, s') \<and> bl_inv (last (now # map fst ops)) s' ys \<and> (rs, view s') = table_run ops (view s)"
proof (induction ops arbitrary: now s xs)
  case Nil
  then show ?case by auto
next
  case (Cons p ops)
  obtain t op where p: "p = (t, op)" by fastforce
  have t: "now \<le> t" "0 < t" using Cons.prems(2,3) by (auto simp: p)
  from bl_step_refines [OF bl_inv_later [OF Cons.prems(1) t(1)] t(2) Cons.prems(4), of op] obtain r s1 ys where
    s1: "bl_step conf t op s = Some (r, s1)" "bl_inv t s1 ys" "table_step t op (view s) = (r, view s1)"
    by metis
  have "sorted (t # map fst ops)" "\<forall>(t, op)\<in>set ops. 0 < t" using Cons.prems(2,3) by (auto simp: p)
  from Cons.IH [OF s1(2) this Cons.prems(4)] obtain rs s' zs where
    "bl_run conf ops s1 = Some (rs, s')" "bl_inv (last (t # map fst ops)) s' zs" "(rs, view s') = table_run ops (view s1)"
    by blast
  with s1 show ?case by (auto simp: p split: prod.splits)
qed

lemma bl_inv_new: "bl_inv now new_ip_list []"
  by (auto simp: bl_inv_def core_def new_ip_list_def live_def om_wf_def om_find_def)

text \<open>
  C7. The list refines a table of addresses. Whatever calls are made, as long as the clock does not
  go back and a command is configured for blocking, every call returns: no item is used after it was
  freed and no assertion fails. Every answer is the one of the table, in which \<^verbatim>\<open>flush\<close> removes
  exactly the dynamic addresses older than the time-out although it looks at the head of the queue
  only, a static entry is never dropped by \<^verbatim>\<open>flush\<close> or \<^verbatim>\<open>clearDynamic\<close>, and the counts are the
  numbers of dynamic addresses. Nothing leaks: each item that is still in the heap is in the queue or
  found through the map.
\<close>

theorem black_list_refines:
  assumes "sorted (map fst ops)" "\<forall>(now, op)\<in>set ops. 0 < now" "block_ip_cmd conf \<noteq> []"
  shows "\<exists>s xs. bl_run conf ops new_ip_list = Some (fst (table_run ops (\<lambda>ip. None)), s) \<and>
    view s = snd (table_run ops (\<lambda>ip. None)) \<and> lseg (items s) (q_head s) xs \<and>
    (\<forall>a it. items s a = Some it \<longrightarrow> a \<in> set xs \<or> om_find (wls s) (it_ip it) = Some a)"
proof -
  have v: "view new_ip_list = (\<lambda>ip. None)" by (simp add: view_def new_ip_list_def om_find_def fun_eq_iff)
  have "sorted (0 # map fst ops)" using assms(1,2) by fastforce
  from bl_run_refines [OF bl_inv_new this assms(2,3)] obtain rs s xs where
    r: "bl_run conf ops new_ip_list = Some (rs, s)" "(rs, view s) = table_run ops (\<lambda>ip. None)" "core (last (0 # map fst ops)) s xs {}"
    unfolding v bl_inv_def by blast
  then show ?thesis using coreD(1,7) [OF r(3)] by (intro exI [of _ s] exI [of _ xs]) (auto simp flip: r(2))
qed

theorem black_list_refines_witness:
  "\<exists>s xs. bl_run \<lparr>block_ip_cmd = ''b'', unblock_ip_cmd = ''u''\<rparr>
      [(10, Op_AddDynamic ''1.1.1.1'' False 0), (12, Op_AddStatic ''2.2.2.2'' False), (15, Op_find ''1.1.1.1'' 4 True), (15, Op_find ''2.2.2.2'' 4 True)]
      new_ip_list = Some ([R_unit, R_unit, R_bool False, R_bool True], s) \<and> lseg (items s) (q_head s) xs"
proof -
  let ?ops = "[(10, Op_AddDynamic ''1.1.1.1'' False 0), (12, Op_AddStatic ''2.2.2.2'' False), (15, Op_find ''1.1.1.1'' 4 True), (15, Op_find ''2.2.2.2'' 4 True)]"
  have "fst (table_run ?ops (\<lambda>ip. None)) = [R_unit, R_unit, R_bool False, R_bool True]"
    by (simp add: flushed_def expired_def blocked_def Let_def)
  with black_list_refines [of ?ops "\<lparr>block_ip_cmd = ''b'', unblock_ip_cmd = ''u''\<rparr>"] show ?thesis by auto
qed


end
