(* ===== verification/Sub_Host.thy ===== *)
theory Sub_Host
  imports Path_Name Domain_Container Ordered_Map
begin

text \<open>
  The sub hosts of a virtual host: \<^verbatim>\<open>src/KSubVirtualHost.cpp\<close> and \<^verbatim>\<open>include/KSubVirtualHost.h\<close>.
  A sub host is a host name, the domain it is bound to, and what is served for it: a directory below
  the document root, another site, a list of servers by port, or a named redirect. Its second half
  is the cache of parsed \<^verbatim>\<open>.htaccess\<close> files that all sub hosts share.

  Code outside of the repository or of the component is a parameter: \<^verbatim>\<open>parse_upstream_url\<close> (which
  gives the host, the port and the parameters of an URL), \<^verbatim>\<open>conf.gam->refsAcserver\<close> (which finds a
  redirect by its name), \<^verbatim>\<open>kgl_tolower\<close> and the integer keyed tree behind \<^verbatim>\<open>SubdirPortMap\<close>. The
  code of Windows and the TLS context that \<^verbatim>\<open>set_ssl_info\<close> builds are left out; its arguments are
  recorded.
\<close>

section \<open>What a sub host serves\<close>

record up_url =
  u_host :: "string option"
  u_port :: int
  u_param :: "string option"

record 't port_tree =
  pt_empty :: 't
  pt_insert :: "'t \<Rightarrow> int \<Rightarrow> 't \<times> bool"
  pt_find :: "'t \<Rightarrow> int \<Rightarrow> bool"

record 't SubdirPortMap =
  pm_tree :: 't
  pm_proxy :: "int \<Rightarrow> string option"

datatype ('t, 'r) subdir =
    subdir_local string
  | subdir_http (dst: up_url) (http_ip: "string option") (http_ssl: "string option") (http_life_time: int)
  | subdir_server (http_proxy: string) (https_proxy: "string option")
  | subdir_portmap "'t SubdirPortMap"
  | subdir_redirect (http_rd: "'r option") (https_rd: "'r option")

record ('t, 'r) sub_vhost =
  sv_host :: "string option"
  sv_dir :: "string option"
  sv_bind_host :: string
  sv_wide :: bool
  sv_root :: "('t, 'r) subdir option"
  sv_ssl_param :: "string option"
  sv_ssl_info :: "(string \<times> string) option"

definition new_sub_vhost :: "('t, 'r) sub_vhost" where
  "new_sub_vhost = \<lparr>sv_host = None, sv_dir = None, sv_bind_host = [], sv_wide = False, sv_root = None,
     sv_ssl_param = None, sv_ssl_info = None\<rparr>"

text \<open>The star in front of a host name makes it a wildcard, and so does a leading dot.\<close>

definition strip_star :: "string \<Rightarrow> string \<times> bool" where
  "strip_star host =
     (let star = (host \<noteq> [] \<and> hd host = CHR ''*'');
          host = (if star then tl host else host) in
      (host, star \<or> host \<noteq> [] \<and> hd host = CHR ''.''))"

definition match_host :: "('t, 'r) sub_vhost \<Rightarrow> string \<Rightarrow> bool" where
  "match_host sv host =
     (case strip_star host of (host, wide) \<Rightarrow>
        sv_wide sv = wide \<and> (case sv_host sv of None \<Rightarrow> False | Some h \<Rightarrow> strcase_eq h host))"

definition setHost ::
  "(char \<Rightarrow> char) \<Rightarrow> string \<Rightarrow> ('t, 'r) sub_vhost \<Rightarrow> (bool \<times> ('t, 'r) sub_vhost) option" where
  "setHost kgl_tolower host sv =
     (case strip_star host of (host, wide) \<Rightarrow>
        if sv_host sv \<noteq> None then None
        else (case cut_at (CHR ''|'') host of (host, dir) \<Rightarrow>
          (case revert_hostname kgl_tolower host (length host + 2) of
             None \<Rightarrow> None
           | Some (result, domain) \<Rightarrow>
               Some (result, sv\<lparr>sv_wide := wide, sv_host := Some host,
                 sv_dir := (case dir of None \<Rightarrow> sv_dir sv | Some d \<Rightarrow> Some d), sv_bind_host := domain\<rparr>))))"

definition portmap_add :: "'t port_tree \<Rightarrow> int \<Rightarrow> string \<Rightarrow> 't SubdirPortMap \<Rightarrow> 't SubdirPortMap" where
  "portmap_add ops port proxy pm =
     (case pt_insert ops (pm_tree pm) port of (t, new_flag) \<Rightarrow>
        if \<not> new_flag then pm\<lparr>pm_tree := t\<rparr>
        else pm\<lparr>pm_tree := t, pm_proxy := (pm_proxy pm)(port \<mapsto> proxy)\<rparr>)"

definition portmap_find :: "'t port_tree \<Rightarrow> 't SubdirPortMap \<Rightarrow> int \<Rightarrow> string option" where
  "portmap_find ops pm port = (if pt_find ops (pm_tree pm) port then pm_proxy pm port else None)"

function portmap_loop :: "'t port_tree \<Rightarrow> string \<Rightarrow> 't SubdirPortMap \<Rightarrow> 't SubdirPortMap" where
  "portmap_loop ops hot pm =
     (case cut_at (CHR ''|'') hot of (item, p) \<Rightarrow>
        (let pm = (case cut_at (CHR ''='') item of
                     (port, None) \<Rightarrow> pm
                   | (port, Some proxy) \<Rightarrow> portmap_add ops (atoi port) proxy pm) in
         case p of None \<Rightarrow> pm | Some hot \<Rightarrow> portmap_loop ops hot pm))"
  by auto
termination
  by (relation "measure (\<lambda>(ops, hot, pm). length hot)") (auto dest: cut_at_Some_length [OF sym])

declare portmap_loop.simps [simp del]

text \<open>\<^verbatim>\<open>strstr\<close>, then the text behind the match, up to the next ampersand.\<close>

fun after_str :: "string \<Rightarrow> string \<Rightarrow> string option" where
  "after_str pat [] = (if pat = [] then Some [] else None)"
| "after_str pat (c # cs) =
     (if take (length pat) (c # cs) = pat then Some (drop (length pat) (c # cs)) else after_str pat cs)"

definition param_value :: "string \<Rightarrow> string \<Rightarrow> string option" where
  "param_value key param = map_option (\<lambda>v. fst (cut_at (CHR ''&'') v)) (after_str key param)"

definition subdir_of_url :: "up_url \<Rightarrow> ('t, 'r) subdir" where
  "subdir_of_url url =
     (case u_param url of
        None \<Rightarrow> subdir_http url None None 0
      | Some param \<Rightarrow>
          subdir_http url (param_value ''ip='' param) (param_value ''ssl='' param)
            (case after_str ''life_time='' param of None \<Rightarrow> 0 | Some t \<Rightarrow> atoi t))"

definition has_prefix :: "string \<Rightarrow> string \<Rightarrow> bool" where
  "has_prefix pre s \<longleftrightarrow> strcase_eq (take (length pre) s) pre"

definition local_root :: "string \<Rightarrow> string \<Rightarrow> string option" where
  "local_root doc_root dir =
     map_option (\<lambda>root.
         tripDir3 (if root = [] \<or> last root \<noteq> CHR ''/'' then root @ ''/'' else root) (CHR ''/''))
       (concatDir (Some doc_root) (Some dir))"

definition set_doc_root ::
  "'t port_tree \<Rightarrow> (string \<Rightarrow> up_url option) \<Rightarrow> (string \<Rightarrow> 'r option) \<Rightarrow> string \<Rightarrow> string option \<Rightarrow>
   ('t, 'r) sub_vhost \<Rightarrow> ('t, 'r) sub_vhost" where
  "set_doc_root ops parse_upstream_url refsAcserver doc_root dir sv =
     (let sv = sv\<lparr>sv_root := None\<rparr>;
          dir = (case sv_dir sv of Some d \<Rightarrow> d | None \<Rightarrow> (case dir of None \<Rightarrow> ''/'' | Some d \<Rightarrow> d)) in
      case cut_at (CHR '';'') dir of (dir, ssl) \<Rightarrow>
        (let sv = (case ssl of
                     None \<Rightarrow> sv
                   | Some ssl \<Rightarrow> sv\<lparr>sv_ssl_param := Some ssl,
                       sv_ssl_info := (case cut_at (CHR ''|'') ssl of
                          (crt, None) \<Rightarrow> sv_ssl_info sv
                        | (crt, Some key) \<Rightarrow> Some (crt, key))\<rparr>);
             sv = sv\<lparr>sv_dir := Some dir\<rparr> in
         if has_prefix ''http://'' dir then
           sv\<lparr>sv_root := map_option subdir_of_url (parse_upstream_url dir)\<rparr>
         else if has_prefix ''rd://'' dir then
           (case cut_at (CHR ''|'') (drop 5 dir) of (rd, ssl) \<Rightarrow>
              sv\<lparr>sv_root := Some (subdir_redirect (refsAcserver rd)
                (case ssl of Some name \<Rightarrow> refsAcserver name | None \<Rightarrow> refsAcserver rd))\<rparr>)
         else if has_prefix ''server://'' dir then
           (case cut_at (CHR ''|'') (drop 9 dir) of (http, https) \<Rightarrow>
              sv\<lparr>sv_root := Some (subdir_server http https)\<rparr>)
         else if take 10 dir = ''portmap://'' then
           sv\<lparr>sv_root := Some (subdir_portmap
             (portmap_loop ops (drop 10 dir) \<lparr>pm_tree = pt_empty ops, pm_proxy = (\<lambda>p. None)\<rparr>))\<rparr>
         else
           (let dir = tripDir3 dir (CHR ''/'') in
            sv\<lparr>sv_dir := Some dir, sv_root := map_option subdir_local (local_root doc_root dir)\<rparr>)))"

section \<open>A directory stays below the document root\<close>

lemma split_on_append: "split_on c (a @ c # b) = split_on c a @ split_on c b"
  by (induction a) (auto split: list.splits)

lemma segs_append_sep: "segs (a @ CHR ''/'' # b) = segs a @ segs b"
  by (simp add: segs_def split_on_append)

lemma segs_comp_ok: "comp_ok c \<Longrightarrow> segs c = [c]"
proof -
  assume c: "comp_ok c"
  then have "map (\<lambda>c. if is_sep c then CHR ''/'' else c) c = c" by (intro map_idI) (simp add: comp_ok_def)
  moreover have "CHR ''/'' \<notin> set c" using c by (auto simp: comp_ok_def)
  ultimately show ?thesis by (simp add: segs_def split_on_cut_at [of _ c] cut_at_None)
qed

lemma segs_render:
  "\<forall>c\<in>set st. comp_ok c \<Longrightarrow> segs (d @ render (CHR ''/'') st @ ''/'') = segs d @ st @ [[]]"
proof (induction st arbitrary: d)
  case Nil
  then show ?case using segs_append_sep [of d "[]"] by (simp add: render_def)
next
  case (Cons c st)
  from Cons.IH [of "d @ CHR ''/'' # c"] Cons.prems show ?case
    by (simp add: render_def segs_append_sep segs_comp_ok)
qed

lemma resolve_append: "resolve st (a @ b) = resolve (resolve st a) b"
  by (induction a arbitrary: st) auto

lemma resolve_comp_ok: "\<forall>c\<in>set cs. comp_ok c \<Longrightarrow> resolve st cs = st @ cs"
  by (induction cs arbitrary: st) (auto simp: comp_ok_def)

lemma tripDir3_tail:
  obtains st t where "\<forall>c\<in>set st. comp_ok c" "t = [] \<or> t = ''/''"
    "(let p = tripDir3 path (CHR ''/'') in if p \<noteq> [] \<and> hd p = CHR ''/'' then tl p else p) =
      (if st = [] then [] else tl (render (CHR ''/'') st) @ t)"
proof -
  obtain out st where st: "shape (CHR ''/'') out st" "tripDir3 path (CHR ''/'') = out \<or> tripDir3 path (CHR ''/'') = out @ ''/''"
    using tripDir3_shape [of "CHR ''/''" path] by auto
  then obtain t where t: "t = [] \<or> t = ''/''" "tripDir3 path (CHR ''/'') = out @ t" by auto
  have ok: "\<forall>c\<in>set st. comp_ok c" using st(1) by (simp add: shape_def)
  have "(if out @ t \<noteq> [] \<and> hd (out @ t) = CHR ''/'' then tl (out @ t) else out @ t) =
      (if st = [] then [] else tl (render (CHR ''/'') st) @ t)"
  proof (cases st)
    case Nil
    then show ?thesis using st(1) t(1) by (auto simp: shape_def render_def)
  next
    case (Cons c cs)
    then have "comp_ok c" using ok by simp
    then have c: "c \<noteq> []" "hd c \<noteq> CHR ''/''" by (cases c; force simp: comp_ok_def)+
    then show ?thesis using st(1) Cons by (auto simp: shape_def render_def)
  qed
  with that [OF ok t(1)] t(2) show ?thesis by simp
qed

lemma local_root_below:
  assumes "local_root (CHR ''/'' # p) dir = Some root"
  shows "\<exists>st. (\<forall>c\<in>set st. comp_ok c) \<and> root = render (CHR ''/'') (resolve [] (segs (CHR ''/'' # p)) @ st) @ ''/''"
proof -
  let ?d = "CHR ''/'' # p"
  obtain st t where st: "\<forall>c\<in>set st. comp_ok c" "t = [] \<or> t = ''/''"
    "(let p = tripDir3 dir (CHR ''/'') in if p \<noteq> [] \<and> hd p = CHR ''/'' then tl p else p) =
      (if st = [] then [] else tl (render (CHR ''/'') st) @ t)"
    by (rule tripDir3_tail [of dir])
  obtain d0 where d0: "?d = d0 \<and> last ?d \<noteq> CHR ''/'' \<or> ?d = d0 @ ''/''"
    by (cases "last ?d = CHR ''/''") (metis append_butlast_last_id list.discI)+
  have res: "resolve [] (segs ?d) = resolve [] (segs d0)"
    using d0 segs_append_sep [of d0 "[]"] by (auto simp: resolve_append)
  have cat: "concatDir (Some ?d) (Some dir) = Some (d0 @ ''/'' @ (if st = [] then [] else tl (render (CHR ''/'') st) @ t))"
  proof -
    have "?d @ (if ?d = [] \<or> last ?d \<noteq> CHR ''/'' then ''/'' else []) = d0 @ ''/''"
    proof (cases "last ?d = CHR ''/''")
      case True
      then show ?thesis using d0 by simp
    next
      case False
      then have "?d \<noteq> d0 @ ''/''" by (metis last_snoc)
      with d0 False show ?thesis by simp
    qed
    then show ?thesis
      using st(3) by (simp add: concatDir_def tripDir2_def Let_def del: append.simps flip: append_assoc)
  qed
  have ren: "CHR ''/'' # tl (render (CHR ''/'') st) = render (CHR ''/'') st" if "st \<noteq> []"
    using that by (cases st) (auto simp: render_def)
  have nosep: "last (render (CHR ''/'') st) \<noteq> CHR ''/''" if "st \<noteq> []"
  proof -
    have "render (CHR ''/'') st \<noteq> []" using ren [OF that] by (metis list.discI)
    from render_last_not_sep [OF st(1) this] show ?thesis by auto
  qed
  let ?f = "d0 @ render (CHR ''/'') st @ ''/''"
  have "root = tripDir3 ?f (CHR ''/'')"
  proof (cases "st = []")
    case True
    then show ?thesis using assms cat by (simp add: local_root_def render_def)
  next
    case False
    then have "concatDir (Some ?d) (Some dir) = Some (d0 @ render (CHR ''/'') st @ t)"
      using cat False ren [OF False] by simp
    moreover have "render (CHR ''/'') st \<noteq> []" using ren [OF False] by (metis list.discI)
    ultimately show ?thesis
      using assms st(2) nosep [OF False] by (auto simp: local_root_def)
  qed
  moreover have "hd ?f = CHR ''/''" using d0 by (cases d0; cases st) (auto simp: render_def)
  ultimately have "root = render (CHR ''/'') (resolve [] (segs ?f)) @ ''/''"
    using trip_loop_resolve [of "CHR ''/''" "[]" ?f] by (simp add: tripDir3_def)
  then show ?thesis
    using st(1) by (intro exI [of _ st]) (simp add: segs_render resolve_append resolve_comp_ok res)
qed

text \<open>
  C28. A sub host that names a directory serves a directory below the document root. Whatever the
  directory text is (dots, backslashes, a text behind a bar in the host name), the document root of
  the sub host is the normalised document root of the virtual host followed by components that are
  neither a dot nor two dots nor contain a separator, and a final slash.
\<close>

theorem sub_doc_root_below:
  assumes "sv_root (set_doc_root ops parse_upstream_url refsAcserver (CHR ''/'' # p) dir sv) = Some (subdir_local root)"
  shows "\<exists>st. root = render (CHR ''/'') (resolve [] (segs (CHR ''/'' # p)) @ st) @ ''/'' \<and>
    (\<forall>c\<in>set st. c \<noteq> ''.'' \<and> c \<noteq> ''..'' \<and> (\<forall>x\<in>set c. \<not> is_sep x))"
proof -
  have not_url: "subdir_of_url u \<noteq> subdir_local root" for u
    by (auto simp: subdir_of_url_def split: option.splits)
  from assms obtain d where "local_root (CHR ''/'' # p) d = Some root"
    using not_url unfolding set_doc_root_def Let_def
    by (auto split: prod.splits if_splits option.splits)
  from local_root_below [OF this] show ?thesis by (auto simp: comp_ok_def)
qed

theorem sub_doc_root_below_witness:
  "\<exists>st. ''/home/web/x/'' = render (CHR ''/'') (resolve [] (segs ''/home/./web'') @ st) @ ''/'' \<and>
    (\<forall>c\<in>set st. c \<noteq> ''.'' \<and> c \<noteq> ''..'' \<and> (\<forall>x\<in>set c. \<not> is_sep x))"
proof -
  let ?ops = "\<lparr>pt_empty = [], pt_insert = (\<lambda>t p. (p # t, p \<notin> set t)), pt_find = (\<lambda>t p. p \<in> set t)\<rparr> :: int list port_tree"
  let ?root = "sv_root (set_doc_root ?ops (\<lambda>u. None) (\<lambda>r. None :: nat option) ''/home/./web'' (Some ''a/../../x'') new_sub_vhost)"
  have "case ?root of Some (subdir_local r) \<Rightarrow> r = ''/home/web/x/'' | _ \<Rightarrow> False" by code_simp
  then have "?root = Some (subdir_local ''/home/web/x/'')" by (simp split: option.splits subdir.splits)
  from sub_doc_root_below [OF this] show ?thesis .
qed

text \<open>
  The domain \<^verbatim>\<open>setHost\<close> allocates is large enough, and it is one the container takes:
  labels of the sizes \<open>dm_ok\<close> asks for.
\<close>

lemma setHost_domain:
  assumes "sv_host sv = None"
  obtains ok sv' where "setHost kgl_tolower host sv = Some (ok, sv')"
    "ok \<Longrightarrow> \<exists>ls. sv_bind_host sv' = enc_domain ls @ [NUL] \<and> (\<forall>l\<in>set ls. tree_label l)"
proof -
  obtain h wide where h: "strip_star host = (h, wide)" by fastforce
  obtain n dir where n: "cut_at (CHR ''|'') h = (n, dir)" by fastforce
  obtain ok buf where r: "revert_hostname kgl_tolower n (length n + 2) = Some (ok, buf @ [NUL])"
    "ok \<Longrightarrow> buf = enc_domain (map (map kgl_tolower) (rev (labels n)))" "ok \<Longrightarrow> \<forall>l\<in>set (labels n). length l \<le> 63"
    by (rule revert_hostname_result [of "length n + 2" kgl_tolower n]) auto
  let ?ls = "map (map kgl_tolower) (rev (labels n))"
  have labs: "\<forall>l\<in>set ?ls. tree_label l" if ok
    using r(3) [OF that] Nil_notin_labels [of n] by (auto simp: tree_label_def simp del: Nil_notin_labels)
  show ?thesis
  proof (rule that)
    show "setHost kgl_tolower host sv = Some (ok, sv\<lparr>sv_wide := wide, sv_host := Some n,
        sv_dir := (case dir of None \<Rightarrow> sv_dir sv | Some d \<Rightarrow> Some d), sv_bind_host := buf @ [NUL]\<rparr>)"
      using assms h n r(1) by (simp add: setHost_def)
  next
    assume ok
    then show "\<exists>ls. sv_bind_host (sv\<lparr>sv_wide := wide, sv_host := Some n,
        sv_dir := (case dir of None \<Rightarrow> sv_dir sv | Some d \<Rightarrow> Some d), sv_bind_host := buf @ [NUL]\<rparr>) = enc_domain ls @ [NUL] \<and>
        (\<forall>l\<in>set ls. tree_label l)"
      using labs r(2) by (intro exI [of _ ?ls]) simp
  qed
qed

section \<open>The cache of access files\<close>

text \<open>
  Parsed \<^verbatim>\<open>.htaccess\<close> files, found by file name and prefix. \<open>ht_stat\<close> is what the code compares of
  the file status. The cache is an \<^verbatim>\<open>std::unordered_map\<close>: a list with distinct keys in the order of
  its iteration, which may be any. Parsing happens outside of the lock, so a request runs in two
  steps, \<open>htaccess_lookup\<close> and \<open>htaccess_store\<close>, and steps of other requests may come between them.
\<close>

record ht_stat =
  f_size :: int
  f_mtime :: int
  f_ctime :: int
  f_mtime_nsec :: int
  f_ino :: int
  f_dev :: int

record 'c cache_entry =
  e_ctx :: 'c
  e_stat :: ht_stat
  e_last_used :: int

record 'c hcache =
  h_cache :: "(string \<times> 'c cache_entry) list"
  h_memory :: int
  h_swept :: int

definition htaccess_cache_max_memory :: int where
  "htaccess_cache_max_memory = 64 * 1024 * 1024"

definition htaccess_cache_idle :: int where
  "htaccess_cache_idle = 300"

definition htaccess_cache_sweep_interval :: int where
  "htaccess_cache_sweep_interval = 60"

definition htaccess_memory :: "int \<Rightarrow> int" where
  "htaccess_memory file_size = 16384 + file_size * 90"

definition htaccess_cache_erase :: "string \<Rightarrow> 'c hcache \<Rightarrow> 'c hcache" where
  "htaccess_cache_erase key c =
     (case map_of (h_cache c) key of
        None \<Rightarrow> c
      | Some e \<Rightarrow> c\<lparr>h_memory := h_memory c - htaccess_memory (f_size (e_stat e)),
          h_cache := filter (\<lambda>p. fst p \<noteq> key) (h_cache c)\<rparr>)"

fun idle_loop :: "int \<Rightarrow> (string \<times> 'c cache_entry) list \<Rightarrow> 'c hcache \<Rightarrow> 'c hcache" where
  "idle_loop now [] c = c"
| "idle_loop now ((key, e) # es) c =
     idle_loop now es (if now - e_last_used e > htaccess_cache_idle then htaccess_cache_erase key c else c)"

fun lru_loop :: "int \<Rightarrow> (int \<times> string) list \<Rightarrow> 'c hcache \<Rightarrow> 'c hcache" where
  "lru_loop memory [] c = c"
| "lru_loop memory ((last_used, key) # es) c =
     (if h_memory c + memory \<le> htaccess_cache_max_memory * 3 div 4 then c
      else lru_loop memory es (htaccess_cache_erase key c))"

definition htaccess_cache_sweep :: "int \<Rightarrow> int \<Rightarrow> 'c hcache \<Rightarrow> 'c hcache" where
  "htaccess_cache_sweep now memory c =
     (let full = (h_memory c + memory > htaccess_cache_max_memory) in
      if \<not> full \<and> now - h_swept c < htaccess_cache_sweep_interval then c
      else (let c1 = idle_loop now (h_cache c) (c\<lparr>h_swept := now\<rparr>) in
            if h_memory c1 + memory \<le> htaccess_cache_max_memory then c1
            else lru_loop memory (sort (map (\<lambda>(key, e). (e_last_used e, key)) (h_cache c1))) c1))"

text \<open>The first locked part of \<^verbatim>\<open>make_htaccess\<close>: a hit, or a stale entry removed.\<close>

definition htaccess_lookup :: "string \<Rightarrow> ht_stat \<Rightarrow> int \<Rightarrow> 'c hcache \<Rightarrow> 'c option \<times> 'c hcache" where
  "htaccess_lookup key st now c =
     (case map_of (h_cache c) key of
        None \<Rightarrow> (None, c)
      | Some e \<Rightarrow>
          (if e_stat e = st then
             (Some (e_ctx e), c\<lparr>h_cache := map (\<lambda>(k, e). if k = key then (k, e\<lparr>e_last_used := now\<rparr>) else (k, e)) (h_cache c)\<rparr>)
           else (None, htaccess_cache_erase key c)))"

text \<open>The second locked part, with the context that was parsed in between.\<close>

definition htaccess_store :: "string \<Rightarrow> ht_stat \<Rightarrow> int \<Rightarrow> 'c \<Rightarrow> 'c hcache \<Rightarrow> 'c hcache" where
  "htaccess_store key st now ctx c =
     (let changed = (if f_mtime st > f_ctime st then f_mtime st else f_ctime st);
          memory = htaccess_memory (f_size st) in
      if now - changed < 2 \<or> memory > htaccess_cache_max_memory div 4 then c
      else (let c1 = htaccess_cache_sweep now memory (htaccess_cache_erase key c) in
            c1\<lparr>h_cache := (key, \<lparr>e_ctx = ctx, e_stat = st, e_last_used = now\<rparr>) # h_cache c1,
               h_memory := h_memory c1 + memory\<rparr>))"

definition new_hcache :: "'c hcache" where
  "new_hcache = \<lparr>h_cache = [], h_memory = 0, h_swept = 0\<rparr>"

definition cost :: "string \<times> 'c cache_entry \<Rightarrow> int" where
  "cost p = htaccess_memory (f_size (e_stat (snd p)))"

definition entry_ok :: "(string \<Rightarrow> ht_stat \<Rightarrow> 'c) \<Rightarrow> string \<times> 'c cache_entry \<Rightarrow> bool" where
  "entry_ok load p \<longleftrightarrow> e_ctx (snd p) = load (fst p) (e_stat (snd p)) \<and> 0 \<le> f_size (e_stat (snd p))"

text \<open>The memory counter is the sum of the estimates, and a context is what parsing its file gives.\<close>

definition acct :: "(string \<Rightarrow> ht_stat \<Rightarrow> 'c) \<Rightarrow> 'c hcache \<Rightarrow> bool" where
  "acct load c \<longleftrightarrow> distinct (map fst (h_cache c)) \<and> h_memory c = (\<Sum>p\<leftarrow>h_cache c. cost p) \<and>
     (\<forall>p\<in>set (h_cache c). entry_ok load p)"

lemma cost_nonneg: "entry_ok load p \<Longrightarrow> 0 \<le> cost p"
  by (simp add: entry_ok_def cost_def htaccess_memory_def)

lemma acct_nonneg: "acct load c \<Longrightarrow> 0 \<le> h_memory c"
  using cost_nonneg by (fastforce simp: acct_def intro: sum_list_nonneg)

lemma sum_cost_erase:
  "distinct (map fst es) \<Longrightarrow> map_of es key = Some e \<Longrightarrow>
   (\<Sum>p\<leftarrow>filter (\<lambda>p. fst p \<noteq> key) es. cost p) = (\<Sum>p\<leftarrow>es. cost p) - htaccess_memory (f_size (e_stat e))"
proof (induction es)
  case (Cons p es)
  show ?case
  proof (cases "fst p = key")
    case True
    then have "key \<notin> fst ` set es" using Cons.prems(1) by auto
    then have "filter (\<lambda>p. fst p \<noteq> key) es = es" by (auto simp: filter_id_conv)
    with True Cons.prems(2) show ?thesis by (auto simp: cost_def split: if_splits)
  next
    case False
    with Cons show ?thesis by (cases p) auto
  qed
qed simp

lemma erase_cache: "h_cache (htaccess_cache_erase key c) = filter (\<lambda>p. fst p \<noteq> key) (h_cache c)"
proof (cases "map_of (h_cache c) key")
  case None
  then have "key \<notin> fst ` set (h_cache c)" by (simp add: map_of_eq_None_iff)
  then have "filter (\<lambda>p. fst p \<noteq> key) (h_cache c) = h_cache c" by (auto simp: filter_id_conv)
  with None show ?thesis by (simp add: htaccess_cache_erase_def)
qed (simp add: htaccess_cache_erase_def)

lemma erase_acct:
  assumes "acct load c"
  shows "acct load (htaccess_cache_erase key c)" "h_memory (htaccess_cache_erase key c) \<le> h_memory c"
proof -
  show ok: "acct load (htaccess_cache_erase key c)"
  proof (cases "map_of (h_cache c) key")
    case None
    then show ?thesis using assms by (simp add: htaccess_cache_erase_def)
  next
    case (Some e)
    with assms sum_cost_erase [OF _ Some] show ?thesis
      by (auto simp: acct_def htaccess_cache_erase_def distinct_map_filter)
  qed
  show "h_memory (htaccess_cache_erase key c) \<le> h_memory c"
  proof (cases "map_of (h_cache c) key")
    case None
    then show ?thesis by (simp add: htaccess_cache_erase_def)
  next
    case (Some e)
    then have "entry_ok load (key, e)" using assms map_of_SomeD [OF Some] by (auto simp: acct_def)
    then show ?thesis using Some by (simp add: htaccess_cache_erase_def entry_ok_def htaccess_memory_def)
  qed
qed

lemma idle_loop_acct:
  "acct load c \<Longrightarrow> acct load (idle_loop now es c) \<and> h_memory (idle_loop now es c) \<le> h_memory c \<and>
   set (h_cache (idle_loop now es c)) \<subseteq> set (h_cache c)"
proof (induction es arbitrary: c)
  case (Cons p es)
  obtain key e where p: "p = (key, e)" by fastforce
  let ?c = "if now - e_last_used e > htaccess_cache_idle then htaccess_cache_erase key c else c"
  have "acct load ?c" "h_memory ?c \<le> h_memory c" "set (h_cache ?c) \<subseteq> set (h_cache c)"
    using Cons.prems erase_acct [OF Cons.prems] by (auto simp: erase_cache)
  then show ?case using Cons.IH [of ?c] by (auto simp: p)
qed simp

lemma lru_loop_acct:
  "acct load c \<Longrightarrow> fst ` set (h_cache c) \<subseteq> snd ` set es \<Longrightarrow>
   acct load (lru_loop memory es c) \<and> set (h_cache (lru_loop memory es c)) \<subseteq> set (h_cache c) \<and>
   (h_memory (lru_loop memory es c) + memory \<le> htaccess_cache_max_memory * 3 div 4 \<or> h_memory (lru_loop memory es c) = 0)"
proof (induction es arbitrary: c)
  case Nil
  then show ?case by (auto simp: acct_def)
next
  case (Cons p es)
  obtain t key where p: "p = (t, key)" by fastforce
  show ?case
  proof (cases "h_memory c + memory \<le> htaccess_cache_max_memory * 3 div 4")
    case True
    then show ?thesis using Cons.prems(1) by (simp add: p)
  next
    case False
    have "fst ` set (h_cache (htaccess_cache_erase key c)) \<subseteq> snd ` set es"
      using Cons.prems(2) by (auto simp: erase_cache p)
    from Cons.IH [OF erase_acct(1) [OF Cons.prems(1)] this] False show ?thesis
      by (auto simp: p erase_cache)
  qed
qed

lemma sweep_acct:
  assumes "acct load c" "h_memory c \<le> htaccess_cache_max_memory" "memory \<le> htaccess_cache_max_memory div 4"
  shows "acct load (htaccess_cache_sweep now memory c) \<and> h_memory (htaccess_cache_sweep now memory c) + memory \<le> htaccess_cache_max_memory \<and>
    set (h_cache (htaccess_cache_sweep now memory c)) \<subseteq> set (h_cache c)"
proof -
  let ?c = "idle_loop now (h_cache c) (c\<lparr>h_swept := now\<rparr>)"
  let ?es = "sort (map (\<lambda>(key, e). (e_last_used e, key)) (h_cache ?c))"
  have c: "acct load ?c" "set (h_cache ?c) \<subseteq> set (h_cache c)"
    using idle_loop_acct [of load "c\<lparr>h_swept := now\<rparr>" now "h_cache c"] assms(1) by (auto simp: acct_def)
  have keys: "fst ` set (h_cache ?c) \<subseteq> snd ` set ?es" by force
  have max: "htaccess_cache_max_memory = 67108864" by (simp add: htaccess_cache_max_memory_def)
  have quarter: "htaccess_cache_max_memory * 3 div 4 = 50331648" "htaccess_cache_max_memory div 4 = 16777216"
    unfolding max by simp_all
  from lru_loop_acct [OF c(1) keys, of memory] c show ?thesis
    using assms unfolding htaccess_cache_sweep_def Let_def quarter max
    by (auto simp: not_less)
qed

text \<open>When the cache is full, the entries that go are those used longest ago.\<close>

lemma lru_loop_prefix:
  "\<exists>n. h_cache (lru_loop memory es c) = filter (\<lambda>p. fst p \<notin> snd ` set (take n es)) (h_cache c)"
proof (induction es arbitrary: c)
  case Nil
  then show ?case by simp
next
  case (Cons p es)
  obtain t key where p: "p = (t, key)" by fastforce
  show ?case
  proof (cases "h_memory c + memory \<le> htaccess_cache_max_memory * 3 div 4")
    case True
    then show ?thesis by (intro exI [of _ 0]) (simp add: p)
  next
    case False
    from Cons.IH [of "htaccess_cache_erase key c"] obtain n where
      "h_cache (lru_loop memory es (htaccess_cache_erase key c)) =
         filter (\<lambda>p. fst p \<notin> snd ` set (take n es)) (h_cache (htaccess_cache_erase key c))" by blast
    with False show ?thesis by (intro exI [of _ "Suc n"]) (simp add: p erase_cache conj_commute)
  qed
qed

lemma lru_drops_oldest:
  assumes "distinct (map fst (h_cache c))"
    and "p \<in> set (h_cache c)" "p \<notin> set (h_cache (lru_loop memory (sort (map (\<lambda>(key, e). (e_last_used e, key)) (h_cache c))) c))"
    and "q \<in> set (h_cache (lru_loop memory (sort (map (\<lambda>(key, e). (e_last_used e, key)) (h_cache c))) c))"
  shows "e_last_used (snd p) \<le> e_last_used (snd q)"
proof -
  let ?f = "\<lambda>(key, e). (e_last_used e, key)"
  let ?es = "sort (map ?f (h_cache c))"
  obtain n where n: "h_cache (lru_loop memory ?es c) = filter (\<lambda>p. fst p \<notin> snd ` set (take n ?es)) (h_cache c)"
    using lru_loop_prefix by blast
  have q: "q \<in> set (h_cache c)" "fst q \<notin> snd ` set (take n ?es)" and p: "fst p \<in> snd ` set (take n ?es)"
    using assms(2-4) unfolding n by auto
  from p obtain t where t: "(t, fst p) \<in> set (take n ?es)" by force
  then have "(t, fst p) \<in> set ?es" using set_take_subset by fastforce
  then obtain r where r: "r \<in> set (h_cache c)" "?f r = (t, fst p)" by auto
  have "r = p"
  proof -
    have "fst r = fst p" using r(2) by (cases r) auto
    with r(1) assms(1,2) show ?thesis by (auto simp: distinct_map inj_on_def)
  qed
  then have tp: "t = e_last_used (snd p)" using r(2) by (cases p) auto
  have "(e_last_used (snd q), fst q) \<in> set ?es" using imageI [OF q(1), of ?f] by (simp add: split_beta)
  then have "(e_last_used (snd q), fst q) \<in> set (drop n ?es)"
    using q(2) by (metis (no_types, lifting) Un_iff append_take_drop_id image_eqI set_append snd_conv)
  moreover have "\<forall>x\<in>set (take n ?es). \<forall>y\<in>set (drop n ?es). x \<le> y"
    using sorted_append [of "take n ?es" "drop n ?es"] by simp
  ultimately have "(t, fst p) \<le> (e_last_used (snd q), fst q)" using t by blast
  then show ?thesis by (auto simp: tp less_eq_prod_def)
qed

section \<open>Requests share the cache\<close>

datatype ht_step = Lookup string ht_stat int | Store string ht_stat int

fun step_stat :: "ht_step \<Rightarrow> ht_stat" where
  "step_stat (Lookup key st now) = st"
| "step_stat (Store key st now) = st"

fun ht_do :: "(string \<Rightarrow> ht_stat \<Rightarrow> 'c) \<Rightarrow> ht_step \<Rightarrow> 'c hcache \<Rightarrow> 'c hcache" where
  "ht_do load (Lookup key st now) c = snd (htaccess_lookup key st now c)"
| "ht_do load (Store key st now) c = htaccess_store key st now (load key st) c"

definition hc_ok :: "(string \<Rightarrow> ht_stat \<Rightarrow> 'c) \<Rightarrow> 'c hcache \<Rightarrow> bool" where
  "hc_ok load c \<longleftrightarrow> acct load c \<and> h_memory c \<le> htaccess_cache_max_memory"

lemma touch_acct:
  assumes "acct load c"
  shows "acct load (c\<lparr>h_cache := map (\<lambda>(k, e). if k = key then (k, e\<lparr>e_last_used := now\<rparr>) else (k, e)) (h_cache c)\<rparr>)"
proof -
  let ?f = "\<lambda>(k, e). if k = key then (k, e\<lparr>e_last_used := now\<rparr>) else (k, e)"
  have same: "fst (?f p) = fst p" "cost (?f p) = cost p" "entry_ok load (?f p) = entry_ok load p" for p
    by (auto simp: cost_def entry_ok_def split: prod.splits)
  have "map fst (map ?f (h_cache c)) = map fst (h_cache c)" "map cost (map ?f (h_cache c)) = map cost (h_cache c)"
    by (simp_all add: same)
  then show ?thesis using assms by (auto simp: acct_def same simp del: map_map)
qed

lemma ht_step_ok:
  assumes "hc_ok load c" "0 \<le> f_size (step_stat stp)"
  shows "hc_ok load (ht_do load stp c)"
proof -
  have c: "acct load c" "h_memory c \<le> htaccess_cache_max_memory" using assms(1) by (auto simp: hc_ok_def)
  show ?thesis
  proof (cases stp)
    case (Lookup key st now)
    then show ?thesis
      using c erase_acct [OF c(1), of key] touch_acct [OF c(1), of key now]
      by (auto simp: hc_ok_def htaccess_lookup_def split: option.split)
  next
    case (Store key st now)
    let ?c = "htaccess_cache_erase key c" and ?m = "htaccess_memory (f_size st)"
    have e: "acct load ?c" "h_memory ?c \<le> htaccess_cache_max_memory" using erase_acct [OF c(1), of key] c(2) by auto
    show ?thesis
    proof (cases "?m > htaccess_cache_max_memory div 4")
      case True
      then show ?thesis using assms(1) Store by (simp add: htaccess_store_def Let_def)
    next
      case False
      have "key \<notin> fst ` set (h_cache (htaccess_cache_sweep now ?m ?c))"
        using sweep_acct [OF e, of ?m now] False by (auto simp: erase_cache)
      then show ?thesis
        using sweep_acct [OF e, of ?m now] False Store assms
        by (auto simp: htaccess_store_def Let_def hc_ok_def acct_def cost_def entry_ok_def)
    qed
  qed
qed

lemma ht_run_ok:
  "hc_ok load c \<Longrightarrow> \<forall>stp\<in>set steps. 0 \<le> f_size (step_stat stp) \<Longrightarrow> hc_ok load (fold (ht_do load) steps c)"
  by (induction steps arbitrary: c) (auto intro: ht_step_ok)



end
