(* ===== verification/Param_Filter.thy ===== *)
theory Param_Filter
  imports Kgl_Prelude "HOL-Library.Monad_Syntax"
begin

text \<open>
  The filter of request parameters: \<^verbatim>\<open>module/filter/KInputFilter.cpp\<close>, its header, and the rule of
  \<^verbatim>\<open>module/filter/param.cpp\<close>. Parameters come from the query of the URL, which is there as a whole,
  or from a form that is read in pieces of any size.

  \<^verbatim>\<open>url_decode\<close> and the regular expressions belong to libraries outside of the repository and are
  parameters. \<open>alloc\<close> tells whether \<^verbatim>\<open>realloc\<close> of a size succeeds. A result \<open>None\<close> stands for a store
  behind the end of the buffer, a signed overflow or a loop that does not end. The counter of hits of
  a rule is left out.
\<close>

section \<open>Rules\<close>

record param_rule =
  has_name :: bool
  has_value :: bool
  reg_name :: "string \<Rightarrow> bool"
  reg_value :: "string \<Rightarrow> bool"

definition rule_check :: "param_rule \<Rightarrow> string \<Rightarrow> string option \<Rightarrow> bool" where
  "rule_check r name value =
     (if has_name r \<and> \<not> reg_name r name then False
      else if has_name r \<and> \<not> has_value r then True
      else if has_value r then (case value of None \<Rightarrow> False | Some v \<Rightarrow> reg_value r v)
      else False)"

text \<open>\<^verbatim>\<open>parseUrlParam\<close>: the name and the value of one parameter, decoded in place.\<close>

definition parseUrlParam :: "(string \<Rightarrow> string) \<Rightarrow> string \<Rightarrow> string \<times> string option" where
  "parseUrlParam url_decode buf =
     (case cut_at (CHR ''='') buf of
        (name, None) \<Rightarrow> (url_decode name, None)
      | (name, Some value) \<Rightarrow> (url_decode name, Some (url_decode value)))"

section \<open>Forms\<close>

text \<open>
  \<open>last_buf\<close> holds the \<^verbatim>\<open>last_buf_len\<close> bytes of the parameter that has not ended yet, in a buffer of
  \<open>last_buf_size\<close> bytes.
\<close>

record param_filter =
  last_buf :: string
  last_buf_size :: int
  param_list :: "(string \<Rightarrow> string option \<Rightarrow> bool) list"

definition new_param_filter :: param_filter where
  "new_param_filter = \<lparr>last_buf = [], last_buf_size = 0, param_list = []\<rparr>"

definition register_param :: "(string \<Rightarrow> string option \<Rightarrow> bool) \<Rightarrow> param_filter \<Rightarrow> param_filter" where
  "register_param check f = f\<lparr>param_list := param_list f @ [check]\<rparr>"

fun match_param :: "(string \<Rightarrow> string option \<Rightarrow> bool) list \<Rightarrow> string \<Rightarrow> string option \<Rightarrow> bool" where
  "match_param [] name value = False"
| "match_param (check # rest) name value = (if check name value then True else match_param rest name value)"

definition match_param_item :: "(string \<Rightarrow> string) \<Rightarrow> param_filter \<Rightarrow> string \<Rightarrow> bool" where
  "match_param_item url_decode f buf =
     (case parseUrlParam url_decode buf of (name, value) \<Rightarrow> match_param (param_list f) name value)"

partial_function (option) grow_loop :: "int \<Rightarrow> int \<Rightarrow> int option" where
  "grow_loop sz need =
     (if sz < need then
        (let sz' = (if sz > INT_MAX div 2 then need else sz * 2) in
         if in_int32 sz' then grow_loop sz' need else None)
      else Some sz)"

declare grow_loop.simps [code]

text \<open>
  The search for ampersands. \<open>pending\<close> is the text between \<^verbatim>\<open>hot\<close> and \<^verbatim>\<open>scan\<close>, \<open>rest\<close> the text
  behind \<^verbatim>\<open>scan\<close>. The result is \<open>None\<close> when a parameter matches, else the text left behind the last
  ampersand.
\<close>

function scan_loop :: "(string \<Rightarrow> bool) \<Rightarrow> string \<Rightarrow> string \<Rightarrow> string option" where
  "scan_loop item pending rest =
     (case cut_at (CHR ''&'') rest of
        (a, None) \<Rightarrow> Some (pending @ a)
      | (a, Some r) \<Rightarrow> if item (pending @ a) then None else scan_loop item [] r)"
  by auto
termination
  by (relation "measure (\<lambda>(item, pending, rest). length rest)") (auto dest: cut_at_Some_length [OF sym])

declare scan_loop.simps [simp del]

definition filter_match ::
  "(string \<Rightarrow> string) \<Rightarrow> (int \<Rightarrow> bool) \<Rightarrow> string \<Rightarrow> bool \<Rightarrow> param_filter \<Rightarrow> (bool \<times> param_filter) option" where
  "filter_match url_decode alloc str isLast f =
     (let len = int (length str); last_buf_len = int (length (last_buf f)) in
      if last_buf_len > INT_MAX - 1 - len then Some (False, f)
      else do {
        let need = last_buf_len + len + 1;
        size \<leftarrow> (if need > last_buf_size f
                 then grow_loop (if last_buf_size f > 0 then last_buf_size f else 4096) need
                 else Some (last_buf_size f));
        if need > last_buf_size f \<and> \<not> alloc size then
          Some (False, f\<lparr>last_buf := [], last_buf_size := 0\<rparr>)
        else if size < need then None
        else do {
          let f = f\<lparr>last_buf_size := size\<rparr>;
          (case scan_loop (match_param_item url_decode f) (last_buf f) str of
             None \<Rightarrow> Some (True, f\<lparr>last_buf := []\<rparr>)
           | Some left \<Rightarrow>
               if isLast then Some (match_param_item url_decode f left, f\<lparr>last_buf := []\<rparr>)
               else Some (False, f\<lparr>last_buf := left\<rparr>)) } })"

text \<open>
  \<^verbatim>\<open>input_filter_read\<close>: what the body returned, a negative code or the bytes and what
  \<^verbatim>\<open>get_left\<close> says then.
\<close>

datatype read_result = Read_error int | Read_ok nat | KGL_EDENIED

definition input_filter_read ::
  "(string \<Rightarrow> string) \<Rightarrow> (int \<Rightarrow> bool) \<Rightarrow> int + (string \<times> int) \<Rightarrow> param_filter \<Rightarrow> (read_result \<times> param_filter) option" where
  "input_filter_read url_decode alloc res f =
     (case res of
        Inl err \<Rightarrow> Some (Read_error err, f)
      | Inr (buf, left) \<Rightarrow> do {
          (hit, f) \<leftarrow> filter_match url_decode alloc buf (left = 0) f;
          Some (if hit then KGL_EDENIED else Read_ok (length buf), f) })"

section \<open>Queries\<close>

text \<open>\<^verbatim>\<open>check_get\<close>: the parameters of the query are split once and kept.\<close>

function get_pairs :: "(string \<Rightarrow> string) \<Rightarrow> string \<Rightarrow> (string \<times> string option) list" where
  "get_pairs url_decode hot =
     (case cut_at (CHR ''&'') hot of
        (a, None) \<Rightarrow> [parseUrlParam url_decode a]
      | (a, Some r) \<Rightarrow> parseUrlParam url_decode a # get_pairs url_decode r)"
  by auto
termination
  by (relation "measure (\<lambda>(ud, hot). length hot)") (auto dest: cut_at_Some_length [OF sym])

declare get_pairs.simps [simp del]

fun pair_loop :: "(string \<Rightarrow> string option \<Rightarrow> bool) \<Rightarrow> (string \<times> string option) list \<Rightarrow> bool" where
  "pair_loop check [] = False"
| "pair_loop check ((name, value) # pairs) = (if check name value then True else pair_loop check pairs)"

definition check_get ::
  "(string \<Rightarrow> string) \<Rightarrow> (string \<Rightarrow> string option \<Rightarrow> bool) \<Rightarrow> string option \<Rightarrow>
   (string \<times> string option) list \<Rightarrow> bool \<times> (string \<times> string option) list" where
  "check_get url_decode check url_param gParamHeader =
     (if gParamHeader = [] then
        (case url_param of
           None \<Rightarrow> (False, gParamHeader)
         | Some param \<Rightarrow>
             if param = [] then (False, gParamHeader)
             else (let pairs = get_pairs url_decode param in (pair_loop check pairs, pairs)))
      else (pair_loop check gParamHeader, gParamHeader))"

section \<open>The filter sees the whole form\<close>

lemma grow_loop_returns:
  assumes "0 < sz" "need \<le> INT_MAX" "sz \<le> INT_MAX"
  shows "\<exists>r. grow_loop sz need = Some r \<and> need \<le> r \<and> sz \<le> r \<and> r \<le> INT_MAX"
  using assms
proof (induction "nat (need - sz)" arbitrary: sz rule: less_induct)
  case less
  show ?case
  proof (cases "sz < need")
    case False
    then show ?thesis using less.prems by (subst grow_loop.simps) simp
  next
    case True
    let ?s = "if sz > INT_MAX div 2 then need else sz * 2"
    have s: "0 < ?s" "?s \<le> INT_MAX" "sz < ?s" using less.prems True by auto
    from less.hyps [OF _ s(1) less.prems(2) s(2)] s(3) True
    obtain r where r: "grow_loop ?s need = Some r" "need \<le> r" "?s \<le> r" "r \<le> INT_MAX" by auto
    have "in_int32 ?s" using s by (simp add: in_int32_def)
    with r True have "grow_loop sz need = Some r" by (subst grow_loop.simps) (simp add: Let_def)
    with r s(3) show ?thesis by auto
  qed
qed

lemma split_on_pending:
  "c \<notin> set p \<Longrightarrow> split_on c (p @ s) = (p @ hd (split_on c s)) # tl (split_on c s)"
proof (induction p)
  case (Cons x p)
  then show ?case by auto
qed simp

lemma scan_loop_split:
  "CHR ''&'' \<notin> set pending \<Longrightarrow>
   scan_loop item pending rest =
     (if \<exists>i\<in>set (butlast (split_on (CHR ''&'') (pending @ rest))). item i then None
      else Some (last (split_on (CHR ''&'') (pending @ rest))))"
proof (induction item pending rest rule: scan_loop.induct)
  case (1 item pending rest)
  obtain a r where cut: "cut_at (CHR ''&'') rest = (a, r)" by fastforce
  show ?case
  proof (cases r)
    case None
    with cut cut_at_None_eq [of "CHR ''&''" rest a] 1(2)
    have "rest = a" "split_on (CHR ''&'') (pending @ a) = [pending @ a]"
      by (simp_all add: split_on_cut_at [of _ "pending @ a"] cut_at_None)
    with cut None show ?thesis by (subst scan_loop.simps) simp
  next
    case (Some r')
    then have rest: "rest = a @ CHR ''&'' # r'" "CHR ''&'' \<notin> set a"
      using cut cut_at_Some_append by auto
    then have items: "split_on (CHR ''&'') (pending @ rest) = (pending @ a) # split_on (CHR ''&'') r'"
      using split_on_append_sep [of "CHR ''&''" "pending @ a" r'] 1(2) by simp
    show ?thesis
    proof (cases "item (pending @ a)")
      case True
      with cut Some show ?thesis by (subst scan_loop.simps) (simp add: items)
    next
      case False
      with cut Some 1(1) [OF cut [symmetric] Some] show ?thesis
        by (subst scan_loop.simps) (simp add: items)
    qed
  qed
qed

lemma split_on_last_append:
  "split_on c (s @ t) = butlast (split_on c s) @ split_on c (last (split_on c s) @ t)"
proof (induction s)
  case (Cons x s)
  show ?case
  proof (cases "x = c")
    case True
    then show ?thesis using Cons by simp
  next
    case False
    obtain y ys where y: "split_on c s = y # ys" by (cases "split_on c s") auto
    show ?thesis
    proof (cases ys)
      case Nil
      with y False Cons show ?thesis by simp
    next
      case (Cons z zs)
      with y False \<open>split_on c (s @ t) = _\<close> show ?thesis by simp
    qed
  qed
qed simp

lemma match_param_ex: "match_param checks name value \<longleftrightarrow> (\<exists>check\<in>set checks. check name value)"
  by (induction checks) auto

lemma get_pairs_split: "get_pairs ud hot = map (parseUrlParam ud) (split_on (CHR ''&'') hot)"
proof (induction ud hot rule: get_pairs.induct)
  case (1 ud hot)
  obtain a r where cut: "cut_at (CHR ''&'') hot = (a, r)" by fastforce
  show ?case
  proof (cases r)
    case None
    with cut show ?thesis by (subst get_pairs.simps) (simp add: split_on_cut_at [of _ hot])
  next
    case (Some r')
    with cut 1 [OF cut [symmetric] Some] show ?thesis
      by (subst get_pairs.simps) (simp add: split_on_cut_at [of _ hot])
  qed
qed

lemma pair_loop_ex: "pair_loop check pairs \<longleftrightarrow> (\<exists>(name, value)\<in>set pairs. check name value)"
  by (induction check pairs rule: pair_loop.induct) auto

lemma split_on_last_length: "length (last (split_on c s)) \<le> length s"
  by (induction s) (auto split: list.splits)

text \<open>The buffer has room for the kept text and its NUL.\<close>

definition buf_ok :: "param_filter \<Rightarrow> bool" where
  "buf_ok f \<longleftrightarrow> CHR ''&'' \<notin> set (last_buf f) \<and> 0 \<le> last_buf_size f \<and> last_buf_size f \<le> INT_MAX \<and>
     (last_buf f = [] \<or> int (length (last_buf f)) < last_buf_size f)"

lemma filter_match_result:
  fixes ud :: "string \<Rightarrow> string" and isLast :: bool
  assumes ok: "buf_ok f" and len: "int (length (last_buf f) + length str) < INT_MAX" and alloc: "\<And>n. alloc n"
  defines "its \<equiv> split_on (CHR ''&'') (last_buf f @ str)"
  defines "hit \<equiv> (\<exists>i\<in>set (if isLast then its else butlast its). match_param_item ud f i)"
  shows "\<exists>f'. filter_match ud alloc str isLast f = Some (hit, f') \<and> param_list f' = param_list f \<and> buf_ok f' \<and>
    (\<not> isLast \<longrightarrow> \<not> hit \<longrightarrow> last_buf f' = last its)"
proof -
  let ?need = "int (length (last_buf f)) + int (length str) + 1"
  obtain sz where sz: "(if ?need > last_buf_size f then grow_loop (if last_buf_size f > 0 then last_buf_size f else 4096) ?need
      else Some (last_buf_size f)) = Some sz" "?need \<le> sz" "sz \<le> INT_MAX" "0 \<le> sz"
  proof (cases "?need > last_buf_size f")
    case True
    have "\<exists>r. grow_loop (if last_buf_size f > 0 then last_buf_size f else 4096) ?need = Some r \<and> ?need \<le> r \<and>
        (if last_buf_size f > 0 then last_buf_size f else 4096) \<le> r \<and> r \<le> INT_MAX"
      using ok len by (intro grow_loop_returns) (auto simp: buf_ok_def)
    with True that show ?thesis by auto
  next
    case False
    with that ok show ?thesis by (auto simp: buf_ok_def)
  qed
  let ?f = "f\<lparr>last_buf_size := sz\<rparr>"
  have item: "match_param_item ud ?f = match_param_item ud f"
    by (auto simp: match_param_item_def fun_eq_iff)
  have sep: "CHR ''&'' \<notin> set (last_buf f)" using ok by (simp add: buf_ok_def)
  have its: "its \<noteq> []" by (simp add: its_def)
  have scan: "scan_loop (match_param_item ud f) (last_buf f) str =
      (if \<exists>i\<in>set (butlast its). match_param_item ud f i then None else Some (last its))"
    unfolding its_def by (rule scan_loop_split [OF sep])
  have left: "CHR ''&'' \<notin> set (last its)" using split_on_parts [OF last_in_set [OF its [unfolded its_def]]] by (simp add: its_def)
  have short: "length (last its) \<le> length (last_buf f) + length str"
    using split_on_last_length [of "CHR ''&''" "last_buf f @ str"] by (simp add: its_def)
  have all: "(\<exists>i\<in>set its. match_param_item ud f i) \<longleftrightarrow> (\<exists>i\<in>set (butlast its). match_param_item ud f i) \<or> match_param_item ud f (last its)"
    using append_butlast_last_id [OF its] by (metis Un_iff empty_iff insert_iff list.set(1,2) set_append)
  have step: "filter_match ud alloc str isLast f =
      (case scan_loop (match_param_item ud f) (last_buf f) str of
         None \<Rightarrow> Some (True, ?f\<lparr>last_buf := []\<rparr>)
       | Some left \<Rightarrow> if isLast then Some (match_param_item ud f left, ?f\<lparr>last_buf := []\<rparr>)
           else Some (False, ?f\<lparr>last_buf := left\<rparr>))"
    using len sz(1,2) alloc by (simp add: filter_match_def Let_def item split: option.split)
  show ?thesis
    unfolding step scan using all sz(2-4) left short
    by (auto simp: hit_def buf_ok_def)
qed

text \<open>A form that arrives in the pieces \<open>cs\<close>; the filter stops at the first hit.\<close>

fun run_match ::
  "(string \<Rightarrow> string) \<Rightarrow> (int \<Rightarrow> bool) \<Rightarrow> string list \<Rightarrow> param_filter \<Rightarrow> (bool \<times> param_filter) option" where
  "run_match ud alloc [] f = Some (False, f)"
| "run_match ud alloc (c # cs) f = do {
     (hit, f) \<leftarrow> filter_match ud alloc c (cs = []) f;
     if hit then Some (True, f) else run_match ud alloc cs f }"

lemma run_match_result:
  "buf_ok f \<Longrightarrow> int (length (last_buf f) + length (concat cs)) < INT_MAX \<Longrightarrow> (\<And>n. alloc n) \<Longrightarrow> cs \<noteq> [] \<Longrightarrow>
   \<exists>f'. run_match ud alloc cs f =
     Some (\<exists>i\<in>set (split_on (CHR ''&'') (last_buf f @ concat cs)). match_param_item ud f i, f')"
proof (induction cs arbitrary: f)
  case (Cons c cs)
  let ?its = "split_on (CHR ''&'') (last_buf f @ c)"
  have len: "int (length (last_buf f) + length c) < INT_MAX" using Cons.prems(2) by simp
  show ?case
  proof (cases "cs = []")
    case True
    obtain f' where "filter_match ud alloc c True f = Some (\<exists>i\<in>set ?its. match_param_item ud f i, f')"
      using filter_match_result [where alloc = alloc and isLast = True and ud = ud, OF Cons.prems(1) len Cons.prems(3)] by auto
    with True show ?thesis by auto
  next
    case False
    let ?hit = "\<exists>i\<in>set (butlast ?its). match_param_item ud f i"
    obtain f1 where f1: "filter_match ud alloc c False f = Some (?hit, f1)" "param_list f1 = param_list f" "buf_ok f1"
      "\<not> ?hit \<longrightarrow> last_buf f1 = last ?its"
      using filter_match_result [where alloc = alloc and isLast = False and ud = ud, OF Cons.prems(1) len Cons.prems(3)] by auto
    have whole: "split_on (CHR ''&'') (last_buf f @ concat (c # cs)) = butlast ?its @ split_on (CHR ''&'') (last ?its @ concat cs)"
      using split_on_last_append [of "CHR ''&''" "last_buf f @ c" "concat cs"] by simp
    show ?thesis
    proof (cases ?hit)
      case True
      then show ?thesis using f1(1) False unfolding whole by auto
    next
      case hit: False
      then have last: "last_buf f1 = last ?its" using f1(4) by blast
      have "int (length (last_buf f1) + length (concat cs)) < INT_MAX"
        using split_on_last_length [of "CHR ''&''" "last_buf f @ c"] Cons.prems(2) unfolding last by simp
      from Cons.IH [OF f1(3) this Cons.prems(3) False] obtain f' where
        "run_match ud alloc cs f1 = Some (\<exists>i\<in>set (split_on (CHR ''&'') (last ?its @ concat cs)). match_param_item ud f1 i, f')"
        unfolding last by blast
      moreover have "match_param_item ud f1 = match_param_item ud f"
        by (simp add: match_param_item_def fun_eq_iff f1(2))
      ultimately show ?thesis using f1(1) False hit unfolding whole by auto
    qed
  qed
qed simp

text \<open>The reads of a body: each returns some bytes, and \<^verbatim>\<open>get_left\<close> tells what is still to come.\<close>

fun read_body ::
  "(string \<Rightarrow> string) \<Rightarrow> (int \<Rightarrow> bool) \<Rightarrow> string list \<Rightarrow> param_filter \<Rightarrow> (read_result list \<times> param_filter) option" where
  "read_body ud alloc [] f = Some ([], f)"
| "read_body ud alloc (c # cs) f = do {
     (r, f) \<leftarrow> input_filter_read ud alloc (Inr (c, int (length (concat cs)))) f;
     if r = KGL_EDENIED then Some ([r], f)
     else do { (rs, f) \<leftarrow> read_body ud alloc cs f; Some (r # rs, f) } }"

lemma read_body_match:
  "[] \<notin> set cs \<Longrightarrow> run_match ud alloc cs f = Some (hit, f') \<Longrightarrow>
   \<exists>rs. read_body ud alloc cs f = Some (rs, f') \<and> (KGL_EDENIED \<in> set rs) = hit \<and> (\<not> hit \<longrightarrow> rs = map (Read_ok \<circ> length) cs)"
proof (induction cs arbitrary: f)
  case (Cons c cs)
  have last: "int (length (concat cs)) = 0 \<longleftrightarrow> cs = []"
    using Cons.prems(1) by (cases cs) (auto simp: add_eq_0_iff_both_eq_0 simp flip: of_nat_add)
  from Cons.prems(2) obtain b f1 where b: "filter_match ud alloc c (cs = []) f = Some (b, f1)"
    "if b then hit \<and> f' = f1 else run_match ud alloc cs f1 = Some (hit, f')"
    by (cases "filter_match ud alloc c (cs = []) f") (auto split: if_splits)
  have step: "input_filter_read ud alloc (Inr (c, int (length (concat cs)))) f = Some (if b then KGL_EDENIED else Read_ok (length c), f1)"
    unfolding input_filter_read_def sum.case prod.case last b(1) by simp
  show ?case
  proof (cases b)
    case True
    with b(2) step show ?thesis by simp
  next
    case False
    with b(2) Cons.IH [of f1] Cons.prems(1) step show ?thesis by auto
  qed
qed simp

text \<open>
  C30. A form is judged by its parameters, not by how it is cut into reads: for every way to split
  the body, the filter returns without leaving its buffer, and it refuses the body exactly when one
  of its rules would refuse the same text as the query of a URL. Searching only the new bytes of
  each read for ampersands misses nothing. A body that is not refused is passed on unchanged, read by
  read. The body has to be shorter than \<^verbatim>\<open>INT_MAX\<close> bytes
  and memory has to last, otherwise the filter gives up and lets the body pass.
\<close>

theorem form_filter_like_query:
  assumes "cs \<noteq> []" "[] \<notin> set cs" "int (length (concat cs)) < INT_MAX" "\<forall>n. alloc n"
  shows "\<exists>rs f. read_body url_decode alloc cs (fold register_param checks new_param_filter) = Some (rs, f) \<and>
    (KGL_EDENIED \<in> set rs) = (\<exists>check\<in>set checks. fst (check_get url_decode check (Some (concat cs)) [])) \<and>
    (KGL_EDENIED \<notin> set rs \<longrightarrow> rs = map (Read_ok \<circ> length) cs)"
proof -
  have whole: "concat cs \<noteq> []" using assms(1,2) by (cases cs) auto
  let ?f = "fold register_param checks new_param_filter"
  have reg: "param_list (fold register_param checks f) = param_list f @ checks \<and>
      last_buf (fold register_param checks f) = last_buf f \<and> last_buf_size (fold register_param checks f) = last_buf_size f" for f
    by (induction checks arbitrary: f) (auto simp: register_param_def)
  have f: "param_list ?f = checks" "last_buf ?f = []" "buf_ok ?f"
    using reg [of new_param_filter] by (auto simp: new_param_filter_def buf_ok_def)
  have "int (length (last_buf ?f) + length (concat cs)) < INT_MAX" using assms(3) by (simp add: f(2))
  from run_match_result [where alloc = alloc and ud = url_decode, OF f(3) this assms(4) [rule_format] assms(1)] obtain f' where
    run: "run_match url_decode alloc cs ?f =
      Some (\<exists>i\<in>set (split_on (CHR ''&'') (concat cs)). match_param_item url_decode ?f i, f')"
    unfolding f(2) append_Nil by blast
  have "(\<exists>i\<in>set (split_on (CHR ''&'') (concat cs)). match_param_item url_decode ?f i) \<longleftrightarrow>
      (\<exists>check\<in>set checks. fst (check_get url_decode check (Some (concat cs)) []))"
    using whole unfolding check_get_def match_param_item_def f(1) match_param_ex Let_def get_pairs_split pair_loop_ex
    by (simp add: split_beta) blast
  with read_body_match [OF assms(2) run] show ?thesis by auto
qed

theorem form_filter_like_query_witness:
  "\<exists>rs f. read_body id (\<lambda>n. True) [''a=1&na'', ''me=e'', ''vil&b=2'']
      (fold register_param [rule_check \<lparr>has_name = False, has_value = True, reg_name = (\<lambda>s. False), reg_value = (\<lambda>s. s = ''evil'')\<rparr>]
         new_param_filter) = Some (rs, f) \<and> KGL_EDENIED \<in> set rs"
proof -
  let ?r = "rule_check \<lparr>has_name = False, has_value = True, reg_name = (\<lambda>s. False), reg_value = (\<lambda>s. s = ''evil'')\<rparr>"
  have "fst (check_get id ?r (Some ''a=1&name=evil&b=2'') [])" by code_simp
  then have "\<exists>check\<in>set [?r]. fst (check_get id check (Some (concat [''a=1&na'', ''me=e'', ''vil&b=2''])) [])" by simp
  with form_filter_like_query [of "[''a=1&na'', ''me=e'', ''vil&b=2'']" "\<lambda>n. True" id "[?r]"]
  show ?thesis by (simp del: fold.simps read_body.simps) blast
qed

end
