(* ===== verification/Multipart_Filter.thy ===== *)
theory Multipart_Filter
  imports Param_Filter
begin

text \<open>
  The filter of multipart forms: \<^verbatim>\<open>module/filter/KMultiPartInputFilter.cpp\<close> and its header. The body
  is read in pieces; the filter keeps what it has not understood yet in a buffer and is in one of three
  modes: looking for a boundary line, reading the headers of a part, or reading its body.

  The parser of header lines, the list of headers, \<^verbatim>\<open>kgl_memstr\<close>, \<^verbatim>\<open>kgl_mempbrk\<close> and
  \<^verbatim>\<open>url_decode\<close> belong to libraries outside of the repository: they are the fields of \<open>mp_ops\<close>. The
  buffer is the text between \<^verbatim>\<open>buf_begin\<close> and its end; that it is moved to the front before it
  grows is not visible here. C strings cut from it end at their first NUL (\<open>c_str\<close>).
\<close>

section \<open>The buffer\<close>

definition c_str :: "string \<Rightarrow> string" where
  "c_str s = takeWhile (\<lambda>c. c \<noteq> CHR 0x00) s"

definition LF :: char where "LF = CHR 0x0A"
definition CR :: char where "CR = CHR 0x0D"

datatype mp_model = MULTIPART_BOUNDARY_MODEL | MULTIPART_HEAD_MODEL | MULTIPART_BODY_MODEL

definition MULTIPART_MAX_HEAD :: nat where "MULTIPART_MAX_HEAD = 65536"

definition FILLUNIT :: int where "FILLUNIT = 1024 * 5"

record multipart_buffer =
  mb_bytes :: string
  mb_capacity :: int
  mb_searched :: int
  mb_boundary :: string
  mb_boundary_next :: string
  mb_model :: mp_model

datatype parse_result =
    kgl_parse_continue
  | kgl_parse_error
  | kgl_parse_success string string
  | kgl_parse_finished
  | kgl_parse_other

record 'p mp_ops =
  memstr :: "string \<Rightarrow> string \<Rightarrow> nat option"
  mempbrk :: "string \<Rightarrow> string \<Rightarrow> nat option"
  strlow :: "string \<Rightarrow> string"
  mp_url_decode :: "string \<Rightarrow> string"
  mp_alloc :: "int \<Rightarrow> bool"
  mp_parser :: 'p
  khttp_parse :: "'p \<Rightarrow> string \<Rightarrow> 'p \<times> string \<times> parse_result"
  add_header :: "(string \<times> string) list \<Rightarrow> string \<Rightarrow> string \<Rightarrow> (string \<times> string) list option"
  is_attr :: "string \<Rightarrow> string \<Rightarrow> bool"

text \<open>\<^verbatim>\<open>multipart_buffer::add\<close>; the inner \<open>None\<close> is its \<^verbatim>\<open>return false\<close>.\<close>

definition mb_add :: "'p mp_ops \<Rightarrow> string \<Rightarrow> multipart_buffer \<Rightarrow> multipart_buffer option option" where
  "mb_add ops str mb =
     (let len = int (length str); have = int (length (mb_bytes mb)) in
      if len > INT_MAX - 1 - have then Some None
      else do {
        let need = have + len + 1;
        size \<leftarrow> (if need > mb_capacity mb
                 then grow_loop (if mb_capacity mb > 0 then mb_capacity mb else FILLUNIT) need
                 else Some (mb_capacity mb));
        if need > mb_capacity mb \<and> \<not> mp_alloc ops size then Some None
        else if size < need then None
        else Some (Some (mb\<lparr>mb_capacity := size, mb_bytes := mb_bytes mb @ str\<rparr>)) })"

definition next_line :: "multipart_buffer \<Rightarrow> (string \<times> multipart_buffer) option" where
  "next_line mb =
     (case cut_at LF (mb_bytes mb) of
        (line, Some rest) \<Rightarrow>
          Some (if line \<noteq> [] \<and> last line = CR then butlast line else line, mb\<lparr>mb_bytes := rest\<rparr>)
      | (line, None) \<Rightarrow>
          if length (mb_bytes mb) \<le> length (mb_boundary_next mb) then None
          else Some (mb_bytes mb, mb\<lparr>mb_bytes := []\<rparr>))"

lemma next_line_shorter: "next_line mb = Some (line, mb') \<Longrightarrow> length (mb_bytes mb') < length (mb_bytes mb)"
  by (auto simp: next_line_def dest: cut_at_Some_length split: option.splits prod.splits if_splits)

function find_boundary :: "multipart_buffer \<Rightarrow> bool \<times> multipart_buffer" where
  "find_boundary mb =
     (case next_line mb of
        None \<Rightarrow> (False, mb)
      | Some (line, mb') \<Rightarrow> if c_str line = c_str (mb_boundary mb) then (True, mb') else find_boundary mb')"
  by auto
termination
  by (relation "measure (length \<circ> mb_bytes)") (auto dest: next_line_shorter)

declare find_boundary.simps [simp del]

definition multipart_eof :: "bool \<Rightarrow> multipart_buffer \<Rightarrow> bool" where
  "multipart_eof isLast mb =
     (if isLast then length (mb_bytes mb) \<le> 0
      else length (mb_bytes mb) \<le> length (mb_boundary_next mb) + 1)"

section \<open>Words of a header\<close>

text \<open>\<open>n\<close> characters of a text, with backslashes taken away in front of a backslash or the quote.\<close>

fun substring_conf :: "string \<Rightarrow> nat \<Rightarrow> char option \<Rightarrow> string" where
  "substring_conf s 0 quote = []"
| "substring_conf [] (Suc n) quote = []"
| "substring_conf (c # cs) (Suc n) quote =
     (if c = CHR 0x5C \<and> cs \<noteq> [] \<and> (hd cs = CHR 0x5C \<or> quote = Some (hd cs))
      then hd cs # substring_conf (tl cs) (n - 1) quote
      else c # substring_conf cs n quote)"

text \<open>The loop \<^verbatim>\<open>look_for_quote\<close>: the text inside the quotes and the rest from the closing one on.\<close>

function look_for_quote :: "char \<Rightarrow> string \<Rightarrow> string \<Rightarrow> string \<times> string" where
  "look_for_quote quote inner s =
     (case s of
        [] \<Rightarrow> (inner, [])
      | c # cs \<Rightarrow>
          if c = quote then
            (if cs = [] \<or> hd cs = CR \<or> hd cs = LF then (inner, s) else look_for_quote quote (inner @ [c]) cs)
          else if c = CHR 0x5C \<and> cs \<noteq> [] \<and> hd cs = quote then
            look_for_quote quote (inner @ [c, hd cs]) (tl cs)
          else look_for_quote quote (inner @ [c]) cs)"
  by auto
termination
  by (relation "measure (\<lambda>(quote, inner, s). length s)") auto

declare look_for_quote.simps [simp del]

definition is_quote :: "char \<Rightarrow> bool" where
  "is_quote c \<longleftrightarrow> c = CHR 0x22 \<or> c = CHR 0x27"

definition php_ap_getword_conf :: "string \<Rightarrow> string \<times> string" where
  "php_ap_getword_conf line =
     (case dropWhile is_space line of
        [] \<Rightarrow> ([], [])
      | c # cs \<Rightarrow>
          if is_quote c then
            (case look_for_quote c [] cs of (inner, rest) \<Rightarrow>
               (substring_conf cs (length inner) (Some c),
                dropWhile is_space (if rest \<noteq> [] \<and> hd rest = c then tl rest else rest)))
          else
            (let word = takeWhile (\<lambda>x. \<not> is_space x) (c # cs) in
             (substring_conf (c # cs) (length word) None, dropWhile is_space (drop (length word) (c # cs)))))"

fun quote_len :: "char \<Rightarrow> string \<Rightarrow> nat" where
  "quote_len quote [] = 0"
| "quote_len quote (c # cs) =
     (if c = quote then 1
      else if c = CHR 0x5C \<and> cs \<noteq> [] \<and> hd cs = quote then 2 + quote_len quote (tl cs)
      else 1 + quote_len quote cs)"

function word_len :: "char \<Rightarrow> string \<Rightarrow> nat" where
  "word_len stop [] = 0"
| "word_len stop (c # cs) =
     (if c = stop then 0
      else if is_quote c then 1 + quote_len c cs + word_len stop (drop (quote_len c cs) cs)
      else 1 + word_len stop cs)"
  by pat_completeness auto
termination
  by (relation "measure (\<lambda>(stop, s). length s)") auto

definition php_ap_getword :: "string \<Rightarrow> char \<Rightarrow> string \<times> string" where
  "php_ap_getword line stop =
     (let n = word_len stop line in
      if length line \<le> n then (line, [])
      else (take n line, dropWhile (\<lambda>c. c = stop) (drop n line)))"

lemma getword_shorter:
  assumes "line \<noteq> []" "php_ap_getword line stop = (word, rest)"
  shows "length rest < length line"
proof (cases "length line \<le> word_len stop line")
  case True
  then show ?thesis using assms by (auto simp: php_ap_getword_def)
next
  case False
  then have rest: "rest = dropWhile (\<lambda>c. c = stop) (drop (word_len stop line) line)"
    using assms(2) by (auto simp: php_ap_getword_def Let_def)
  obtain c cs where line: "line = c # cs" using assms(1) by (cases line) auto
  show ?thesis
  proof (cases "c = stop")
    case True
    then show ?thesis
      using length_dropWhile_le [of "\<lambda>c. c = stop" cs] by (simp add: rest line le_imp_less_Suc)
  next
    case no: False
    then have "0 < word_len stop line" by (simp add: line)
    then show ?thesis
      using length_dropWhile_le [of "\<lambda>c. c = stop" "drop (word_len stop line) line"] False unfolding rest by simp
  qed
qed

text \<open>The attributes of \<^verbatim>\<open>Content-Disposition\<close>: name and file name of the part.\<close>

function disposition_loop ::
  "(string \<Rightarrow> string) \<Rightarrow> string \<Rightarrow> string option \<times> string option \<Rightarrow> string option \<times> string option" where
  "disposition_loop url_decode cd pf =
     (if cd = [] then pf
      else (case php_ap_getword cd (CHR '';'') of (pair, cd') \<Rightarrow>
        (let pf' =
           (if CHR ''='' \<in> set pair then
              (case php_ap_getword pair (CHR ''='') of (key, pair') \<Rightarrow>
                 if strcase_eq key ''name'' then (Some (url_decode (fst (php_ap_getword_conf pair'))), snd pf)
                 else if strcase_eq key ''filename'' then (fst pf, Some (url_decode (fst (php_ap_getword_conf pair'))))
                 else pf)
            else pf) in
         disposition_loop url_decode (dropWhile is_space cd') pf')))"
  by auto
termination
proof (relation "measure (\<lambda>(url_decode, cd, pf). length cd)", goal_cases)
  case (2 url_decode cd pf pair cd' z)
  have "length cd' < length cd" using getword_shorter [OF 2(1) 2(2) [symmetric]] .
  then show ?case using length_dropWhile_le [of is_space cd'] by simp
qed simp

declare disposition_loop.simps [simp del]

section \<open>The filter\<close>

text \<open>A file hook: the check of a file name (with the name of the field), and of a piece of content.\<close>

record file_hook =
  check_name :: "string option \<Rightarrow> string \<Rightarrow> (string \<times> string) list \<Rightarrow> bool"
  check_content :: "string \<Rightarrow> bool"

record mp_filter =
  mp_mb :: "multipart_buffer option"
  mp_hm :: "(string \<times> string) list"
  mp_param :: "string option"
  mp_filename :: "string option"
  mp_file_list :: "file_hook list"
  mp_param_list :: "(string \<Rightarrow> string option \<Rightarrow> bool) list"

text \<open>The rule of \<^verbatim>\<open>post_file.cpp\<close>: it judges the name of a file that has one, never its content.\<close>

definition post_file_rule :: "(string \<Rightarrow> bool) \<Rightarrow> file_hook" where
  "post_file_rule reg_filename =
     \<lparr>check_name = (\<lambda>name filename header. filename \<noteq> [] \<and> reg_filename filename), check_content = (\<lambda>str. False)\<rparr>"

definition register_file :: "file_hook \<Rightarrow> mp_filter \<Rightarrow> mp_filter" where
  "register_file hook f = f\<lparr>mp_file_list := mp_file_list f @ [hook]\<rparr>"

text \<open>The constructor: the boundary from the parameters of the content type.\<close>

definition find_boundary_param :: "'p mp_ops \<Rightarrow> string \<Rightarrow> string option" where
  "find_boundary_param ops val = do {
     hot \<leftarrow> (case memstr ops val ''boundary'' of
               Some i \<Rightarrow> Some (drop i val)
             | None \<Rightarrow> map_option (\<lambda>i. drop i val) (memstr ops (c_str (strlow ops val)) ''boundary''));
     hot \<leftarrow> snd (cut_at (CHR ''='') hot);
     if hot = [] then None
     else if hd hot = CHR 0x22 then
       (case cut_at (CHR 0x22) (tl hot) of
          (b, None) \<Rightarrow> None
        | (b, Some _) \<Rightarrow> if b = [] then None else Some b)
     else
       (let b = (case mempbrk ops hot '',;'' of None \<Rightarrow> hot | Some i \<Rightarrow> take i hot) in
        if b = [] then None else Some b) }"

definition new_multipart_buffer :: "string \<Rightarrow> multipart_buffer" where
  "new_multipart_buffer b =
     \<lparr>mb_bytes = [], mb_capacity = 0, mb_searched = 0, mb_boundary = ''--'' @ b,
      mb_boundary_next = LF # ''--'' @ b, mb_model = MULTIPART_BOUNDARY_MODEL\<rparr>"

definition new_mp_filter :: "'p mp_ops \<Rightarrow> string \<Rightarrow> mp_filter" where
  "new_mp_filter ops val =
     \<lparr>mp_mb = map_option new_multipart_buffer (find_boundary_param ops val), mp_hm = [], mp_param = None,
      mp_filename = None, mp_file_list = [], mp_param_list = []\<rparr>"

text \<open>
  \<^verbatim>\<open>parse_body\<close>: the text of the part that can be judged now, if there is any, and whether the part
  ends behind it.
\<close>

definition parse_body ::
  "'p mp_ops \<Rightarrow> bool \<Rightarrow> bool \<Rightarrow> multipart_buffer \<Rightarrow> (string \<times> bool) option \<times> multipart_buffer" where
  "parse_body ops all isLast mb =
     (let bytes = mb_bytes mb; n = int (length bytes); bn = int (length (mb_boundary_next mb)) in
      if bytes = [] then (None, mb)
      else
        (let skip = (if mb_searched mb < 0 \<or> mb_searched mb > n then 0 else nat (mb_searched mb));
             bound = map_option (\<lambda>i. i + skip) (memstr ops (drop skip bytes) (mb_boundary_next mb));
             deliver = (\<lambda>len fin.
               if (bound \<noteq> None \<or> 0 < len) \<and> mp_alloc ops (int len + 1) then
                 (let buf = take len bytes;
                      buf = (if bound \<noteq> None \<and> buf \<noteq> [] \<and> last buf = CR then butlast buf else buf) in
                  (Some (buf, fin), mb\<lparr>mb_bytes := drop len bytes, mb_searched := 0\<rparr>))
               else (None, mb)) in
         case bound of
           Some i \<Rightarrow> deliver i True
         | None \<Rightarrow>
             if isLast then deliver (length bytes) True
             else if all then (None, mb\<lparr>mb_searched := max 0 (n - bn + 1)\<rparr>)
             else if n - bn \<le> 0 then (None, mb)
             else deliver (nat (n - bn)) False))"

text \<open>\<^verbatim>\<open>match_body\<close>: the verdict, and whether some text was taken (\<^verbatim>\<open>success\<close>).\<close>

definition match_body :: "'p mp_ops \<Rightarrow> bool \<Rightarrow> multipart_buffer \<Rightarrow> mp_filter \<Rightarrow> bool \<times> bool \<times> mp_filter" where
  "match_body ops isLast mb f =
     (case parse_body ops (mp_filename f = None) isLast (mb\<lparr>mb_model := MULTIPART_BODY_MODEL\<rparr>) of
        (None, mb) \<Rightarrow> (False, False, f\<lparr>mp_mb := Some mb\<rparr>)
      | (Some (buf, all), mb) \<Rightarrow>
          (let mb = (if all then mb\<lparr>mb_model := MULTIPART_BOUNDARY_MODEL\<rparr> else mb) in
           (case mp_filename f of
              Some _ \<Rightarrow> (list_ex (\<lambda>h. check_content h buf) (mp_file_list f), True, f\<lparr>mp_mb := Some mb\<rparr>)
            | None \<Rightarrow>
                (case mp_param f of
                   Some p \<Rightarrow> (match_param (mp_param_list f) p (Some (mp_url_decode ops buf)), True, f\<lparr>mp_mb := Some mb\<rparr>)
                 | None \<Rightarrow> (False, True, f\<lparr>mp_mb := Some mb\<rparr>)))))"

partial_function (option) header_loop ::
  "'p mp_ops \<Rightarrow> 'p \<Rightarrow> multipart_buffer \<Rightarrow> (string \<times> string) list \<Rightarrow>
   (parse_result \<times> multipart_buffer \<times> (string \<times> string) list) option" where
  "header_loop ops parser mb hm =
     (if mb_bytes mb = [] then Some (kgl_parse_continue, mb, hm)
      else (case khttp_parse ops parser (mb_bytes mb) of (parser', rest, ret) \<Rightarrow>
        (case ret of
           kgl_parse_continue \<Rightarrow> Some (ret, mb\<lparr>mb_bytes := rest\<rparr>, hm)
         | kgl_parse_error \<Rightarrow> Some (ret, mb\<lparr>mb_bytes := rest\<rparr>, hm)
         | kgl_parse_success attr val \<Rightarrow>
             (case add_header ops hm attr val of
                None \<Rightarrow> Some (kgl_parse_error, mb\<lparr>mb_bytes := rest\<rparr>, hm)
              | Some hm' \<Rightarrow> header_loop ops parser' (mb\<lparr>mb_bytes := rest\<rparr>) hm')
         | kgl_parse_finished \<Rightarrow>
             Some (ret, mb\<lparr>mb_bytes := rest, mb_model := MULTIPART_BODY_MODEL\<rparr>, hm)
         | kgl_parse_other \<Rightarrow> Some (kgl_parse_error, mb\<lparr>mb_bytes := rest\<rparr>, hm))))"

definition parse_header ::
  "'p mp_ops \<Rightarrow> multipart_buffer \<Rightarrow> (string \<times> string) list \<Rightarrow>
   (parse_result \<times> multipart_buffer \<times> (string \<times> string) list) option" where
  "parse_header ops mb hm = header_loop ops (mp_parser ops) mb hm"

definition get_hdr_value :: "'p mp_ops \<Rightarrow> (string \<times> string) list \<Rightarrow> string \<Rightarrow> string option" where
  "get_hdr_value ops hm attr = map_option snd (find (\<lambda>(a, v). is_attr ops a attr) hm)"

text \<open>The headers of a part are complete: its names, and the check of the file name.\<close>

definition head_done :: "'p mp_ops \<Rightarrow> mp_filter \<Rightarrow> bool \<times> mp_filter" where
  "head_done ops f =
     (case get_hdr_value ops (mp_hm f) ''Content-Disposition'' of
        None \<Rightarrow> (False, f)
      | Some cd \<Rightarrow>
          (case disposition_loop (mp_url_decode ops) (dropWhile is_space cd) (mp_param f, mp_filename f) of
             (param, filename) \<Rightarrow>
               (let f = f\<lparr>mp_param := param, mp_filename := filename\<rparr> in
                if (case filename of None \<Rightarrow> False
                    | Some fn \<Rightarrow> list_ex (\<lambda>h. check_name h param fn (mp_hm f)) (mp_file_list f))
                then (True, f) else (False, f\<lparr>mp_hm := []\<rparr>))))"

partial_function (option) mp_loop :: "'p mp_ops \<Rightarrow> bool \<Rightarrow> mp_filter \<Rightarrow> (bool \<times> mp_filter) option" where
  "mp_loop ops isLast f =
     (case mp_mb f of
        None \<Rightarrow> None
      | Some mb \<Rightarrow>
          (if multipart_eof isLast mb then Some (False, f)
           else if mb_model mb = MULTIPART_BODY_MODEL then
             (case match_body ops isLast mb f of (hit, success, f) \<Rightarrow>
                if hit then Some (True, f) else if \<not> success then Some (False, f) else mp_loop ops isLast f)
           else if mb_model mb = MULTIPART_BOUNDARY_MODEL then
             (case find_boundary mb of (ok, mb) \<Rightarrow>
                if \<not> ok then Some (False, f\<lparr>mp_mb := Some mb\<rparr>)
                else mp_loop ops isLast (f\<lparr>mp_mb := Some (mb\<lparr>mb_model := MULTIPART_HEAD_MODEL\<rparr>)\<rparr>))
           else
             (case parse_header ops mb (mp_hm f) of
                None \<Rightarrow> None
              | Some (ret, mb, hm) \<Rightarrow>
                  (let f = f\<lparr>mp_param := None, mp_filename := None, mp_hm := hm, mp_mb := Some mb\<rparr> in
                   (case ret of
                      kgl_parse_finished \<Rightarrow>
                        (case head_done ops f of (hit, f) \<Rightarrow>
                           if hit then Some (True, f) else mp_loop ops isLast f)
                    | kgl_parse_error \<Rightarrow> Some (False, f\<lparr>mp_mb := None\<rparr>)
                    | _ \<Rightarrow> Some (length (mb_bytes mb) > MULTIPART_MAX_HEAD, f))))))"

declare header_loop.simps [code] mp_loop.simps [code]

definition mp_match :: "'p mp_ops \<Rightarrow> string option \<Rightarrow> bool \<Rightarrow> mp_filter \<Rightarrow> (bool \<times> mp_filter) option" where
  "mp_match ops str isLast f =
     (case mp_mb f of
        None \<Rightarrow> Some (False, f)
      | Some mb \<Rightarrow>
          (case str of
             None \<Rightarrow> mp_loop ops isLast f
           | Some s \<Rightarrow>
               (case mb_add ops s mb of
                  None \<Rightarrow> None
                | Some None \<Rightarrow> Some (False, f\<lparr>mp_mb := None\<rparr>)
                | Some (Some mb) \<Rightarrow> mp_loop ops isLast (f\<lparr>mp_mb := Some mb\<rparr>))))"

section \<open>Every read returns\<close>

text \<open>What is relied on of the parser of header lines: it takes bytes away, and a line it accepts is not empty.\<close>

definition parser_eats :: "'p mp_ops \<Rightarrow> bool" where
  "parser_eats ops \<longleftrightarrow> (\<forall>p s. s \<noteq> [] \<longrightarrow> (case khttp_parse ops p s of (p', rest, ret) \<Rightarrow>
     length rest \<le> length s \<and>
     (case ret of kgl_parse_success _ _ \<Rightarrow> length rest < length s
      | kgl_parse_finished \<Rightarrow> length rest < length s | _ \<Rightarrow> True)))"

definition mb_ok :: "multipart_buffer \<Rightarrow> bool" where
  "mb_ok mb \<longleftrightarrow> 0 \<le> mb_capacity mb \<and> mb_capacity mb \<le> INT_MAX \<and>
     (mb_bytes mb = [] \<or> int (length (mb_bytes mb)) < mb_capacity mb)"

lemma mb_ok_shorter:
  "mb_ok mb \<Longrightarrow> length (mb_bytes mb') \<le> length (mb_bytes mb) \<Longrightarrow> mb_capacity mb' = mb_capacity mb \<Longrightarrow> mb_ok mb'"
  by (cases "mb_bytes mb'") (auto simp: mb_ok_def)

lemma mb_add_returns:
  assumes "mb_ok mb"
  shows "\<exists>r. mb_add ops str mb = Some r \<and> (\<forall>mb'. r = Some mb' \<longrightarrow> mb_ok mb' \<and> mb' = mb\<lparr>mb_bytes := mb_bytes mb @ str, mb_capacity := mb_capacity mb'\<rparr>)"
proof (cases "int (length str) > INT_MAX - 1 - int (length (mb_bytes mb))")
  case True
  then show ?thesis by (simp add: mb_add_def)
next
  case False
  let ?need = "int (length (mb_bytes mb)) + int (length str) + 1"
  obtain sz where sz: "(if ?need > mb_capacity mb then grow_loop (if mb_capacity mb > 0 then mb_capacity mb else FILLUNIT) ?need
      else Some (mb_capacity mb)) = Some sz" "?need \<le> sz" "sz \<le> INT_MAX"
  proof (cases "?need > mb_capacity mb")
    case True
    have "\<exists>r. grow_loop (if mb_capacity mb > 0 then mb_capacity mb else FILLUNIT) ?need = Some r \<and> ?need \<le> r \<and>
        (if mb_capacity mb > 0 then mb_capacity mb else FILLUNIT) \<le> r \<and> r \<le> INT_MAX"
      using assms False by (intro grow_loop_returns) (auto simp: mb_ok_def FILLUNIT_def)
    with True that show ?thesis by auto
  next
    case no: False
    with that assms show ?thesis by (auto simp: mb_ok_def)
  qed
  have "mb_add ops str mb =
      (if ?need > mb_capacity mb \<and> \<not> mp_alloc ops sz then Some None
       else Some (Some (mb\<lparr>mb_capacity := sz, mb_bytes := mb_bytes mb @ str\<rparr>)))"
    unfolding mb_add_def Let_def using False sz(1,2) by simp
  with sz(2,3) show ?thesis by (auto simp: mb_ok_def)
qed

lemma header_loop_returns:
  assumes "parser_eats ops"
  shows "\<exists>ret mb' hm'. header_loop ops p mb hm = Some (ret, mb', hm') \<and> length (mb_bytes mb') \<le> length (mb_bytes mb) \<and>
    (if ret = kgl_parse_finished then length (mb_bytes mb') < length (mb_bytes mb) \<and> mb_model mb' = MULTIPART_BODY_MODEL
     else mb_model mb' = mb_model mb) \<and>
    mb' = mb\<lparr>mb_bytes := mb_bytes mb', mb_model := mb_model mb'\<rparr>"
proof (induction "length (mb_bytes mb)" arbitrary: p mb hm rule: less_induct)
  case less
  show ?case
  proof (cases "mb_bytes mb = []")
    case True
    then show ?thesis by (subst header_loop.simps) simp
  next
    case False
    obtain p' rest ret where parse: "khttp_parse ops p (mb_bytes mb) = (p', rest, ret)" by (metis prod_cases3)
    have eats: "case (p', rest, ret) of (p', rest, ret) \<Rightarrow> length rest \<le> length (mb_bytes mb) \<and>
       (case ret of kgl_parse_success _ _ \<Rightarrow> length rest < length (mb_bytes mb)
        | kgl_parse_finished \<Rightarrow> length rest < length (mb_bytes mb) | _ \<Rightarrow> True)"
      using assms [unfolded parser_eats_def, rule_format, OF False, of p] unfolding parse .
    then have le: "length rest \<le> length (mb_bytes mb)"
      and lt: "case ret of kgl_parse_success _ _ \<Rightarrow> length rest < length (mb_bytes mb)
        | kgl_parse_finished \<Rightarrow> length rest < length (mb_bytes mb) | _ \<Rightarrow> True"
      by simp_all
    show ?thesis
    proof (cases ret)
      case (kgl_parse_success attr val)
      then have shorter: "length (mb_bytes (mb\<lparr>mb_bytes := rest\<rparr>)) < length (mb_bytes mb)" using lt by simp
      show ?thesis
      proof (cases "add_header ops hm attr val")
        case None
        with False parse le kgl_parse_success show ?thesis by (subst header_loop.simps) simp
      next
        case (Some hm1)
        from less [OF shorter, of p' hm1] obtain ret2 mb2 hm2 where
          "header_loop ops p' (mb\<lparr>mb_bytes := rest\<rparr>) hm1 = Some (ret2, mb2, hm2)" "length (mb_bytes mb2) \<le> length rest"
          "if ret2 = kgl_parse_finished then length (mb_bytes mb2) < length rest \<and> mb_model mb2 = MULTIPART_BODY_MODEL
            else mb_model mb2 = mb_model mb"
          "mb2 = mb\<lparr>mb_bytes := mb_bytes mb2, mb_model := mb_model mb2\<rparr>" by (auto simp: if_bool_eq_conj)
        with False parse le kgl_parse_success Some show ?thesis
          by (subst header_loop.simps) (auto split: if_splits)
      qed
    qed (use False parse le lt in \<open>subst header_loop.simps; simp\<close>)+
  qed
qed


lemma bytes_update_trans:
  "mb2 = mb1\<lparr>mb_bytes := x\<rparr> \<Longrightarrow> mb1 = mb\<lparr>mb_bytes := y\<rparr> \<Longrightarrow> mb2 = mb\<lparr>mb_bytes := x\<rparr>"
  by simp

lemma find_boundary_shorter:
  "find_boundary mb = (ok, mb') \<Longrightarrow> length (mb_bytes mb') \<le> length (mb_bytes mb) \<and> (ok \<longrightarrow> length (mb_bytes mb') < length (mb_bytes mb)) \<and>
     mb' = mb\<lparr>mb_bytes := mb_bytes mb'\<rparr> \<and> (\<not> ok \<longrightarrow> length (mb_bytes mb') \<le> length (mb_boundary_next mb))"
proof (induction mb rule: find_boundary.induct)
  case (1 mb)
  show ?case
  proof (cases "next_line mb")
    case None
    with "1.prems" have "ok = False" "mb' = mb" by (auto simp: find_boundary.simps [of mb])
    with None show ?thesis by (auto simp: next_line_def split: prod.splits option.splits if_splits)
  next
    case (Some l)
    then obtain line mb1 where l: "next_line mb = Some (line, mb1)" by (cases l) auto
    have keep: "mb1 = mb\<lparr>mb_bytes := mb_bytes mb1\<rparr>"
      using l by (auto simp: next_line_def split: prod.splits option.splits if_splits)
    have less: "length (mb_bytes mb1) < length (mb_bytes mb)" by (rule next_line_shorter [OF l])
    show ?thesis
    proof (cases "c_str line = c_str (mb_boundary mb)")
      case True
      with "1.prems" l have "ok" "mb' = mb1" by (auto simp: find_boundary.simps [of mb])
      with less keep show ?thesis by simp
    next
      case False
      with "1.prems" l have "find_boundary mb1 = (ok, mb')" by (simp add: find_boundary.simps [of mb])
      note rest = "1.IH" [OF l refl False this]
      have "mb' = mb\<lparr>mb_bytes := mb_bytes mb'\<rparr>" using rest keep bytes_update_trans by blast
      moreover have "mb_boundary_next mb1 = mb_boundary_next mb"
        by (subst keep) simp
      ultimately show ?thesis using rest less by auto
    qed
  qed
qed

lemma parse_body_shorter:
  assumes "parse_body ops all isLast mb = (r, mb')"
  shows "length (mb_bytes mb') \<le> length (mb_bytes mb)"
    "\<And>buf. r = Some (buf, False) \<Longrightarrow> length (mb_bytes mb') < length (mb_bytes mb)"
    "mb' = mb\<lparr>mb_bytes := mb_bytes mb', mb_searched := mb_searched mb'\<rparr>"
  using assms by (auto simp: parse_body_def Let_def split: if_splits option.splits)

definition mp_ok :: "mp_filter \<Rightarrow> bool" where
  "mp_ok f \<longleftrightarrow> (case mp_mb f of None \<Rightarrow> True | Some mb \<Rightarrow> mb_ok mb)"

text \<open>What may stay in the buffer between two reads: a field value is collected as a whole, all else is small.\<close>

definition small_rest :: "mp_filter \<Rightarrow> bool" where
  "small_rest f \<longleftrightarrow> (case mp_mb f of None \<Rightarrow> True | Some mb \<Rightarrow>
     length (mb_bytes mb) \<le> max MULTIPART_MAX_HEAD (length (mb_boundary_next mb) + 1) \<or>
     mb_model mb = MULTIPART_BODY_MODEL \<and> mp_filename f = None)"

text \<open>A result: the call returned, the buffer is in order, and a body that passes leaves little behind.\<close>

definition sound_result :: "(bool \<times> mp_filter) option \<Rightarrow> bool" where
  "sound_result r = (case r of None \<Rightarrow> False | Some (hit, f) \<Rightarrow> mp_ok f \<and> (\<not> hit \<longrightarrow> small_rest f))"

definition mp_rank :: "multipart_buffer \<Rightarrow> nat" where
  "mp_rank mb = 2 * length (mb_bytes mb) + (if mb_model mb = MULTIPART_BODY_MODEL then 1 else 0)"

lemma parse_body_waits:
  assumes "parse_body ops False isLast mb = (None, mb')" "\<And>n. mp_alloc ops n"
  shows "length (mb_bytes mb') \<le> length (mb_boundary_next mb')"
  using assms by (auto simp: parse_body_def Let_def split: if_splits option.splits)

lemma match_body_step:
  assumes "match_body ops isLast mb f = (hit, success, f')" "mb_ok mb" "mb_model mb = MULTIPART_BODY_MODEL" "\<And>n. mp_alloc ops n"
  shows "\<exists>mb'. mp_mb f' = Some mb' \<and> mb_ok mb' \<and> (success \<longrightarrow> mp_rank mb' < mp_rank mb) \<and>
    (hit \<longrightarrow> success) \<and> (\<not> success \<longrightarrow> small_rest f')"
proof -
  have same: "mb\<lparr>mb_model := MULTIPART_BODY_MODEL\<rparr> = mb" using assms(3) by simp
  obtain r mb1 where r: "parse_body ops (mp_filename f = None) isLast mb = (r, mb1)" by fastforce
  note short = parse_body_shorter [OF r]
  have model: "mb_model mb1 = MULTIPART_BODY_MODEL" and cap: "mb_capacity mb1 = mb_capacity mb"
    using assms(3) by (subst short(3), simp)+
  have ok: "mb_ok mb1" using mb_ok_shorter [OF assms(2) short(1) cap] .
  show ?thesis
  proof (cases r)
    case None
    with r assms(1) same have f': "f' = f\<lparr>mp_mb := Some mb1\<rparr>" "\<not> hit" "\<not> success"
      by (auto simp: match_body_def)
    have "small_rest f'"
    proof (cases "mp_filename f = None")
      case True
      then show ?thesis by (simp add: f' small_rest_def model)
    next
      case False
      with r None have "parse_body ops False isLast mb = (None, mb1)" by simp
      from parse_body_waits [OF this assms(4)] show ?thesis by (simp add: f' small_rest_def le_max_iff_disj)
    qed
    with f' ok show ?thesis by simp
  next
    case (Some ba)
    obtain buf fin where ba: "ba = (buf, fin)" by fastforce
    let ?mb2 = "if fin then mb1\<lparr>mb_model := MULTIPART_BOUNDARY_MODEL\<rparr> else mb1"
    have f': "success" "mp_mb f' = Some ?mb2"
      using r assms(1) same Some ba by (auto simp: match_body_def Let_def split: option.splits)
    have "mp_rank ?mb2 < mp_rank mb"
      using short(1) short(2) [of buf] Some ba assms(3) model by (auto simp: mp_rank_def)
    moreover have "mb_ok ?mb2" using ok by (simp add: mb_ok_def)
    ultimately show ?thesis using f' by blast
  qed
qed

lemma head_done_mb: "head_done ops f = (hit, f') \<Longrightarrow> mp_mb f' = mp_mb f"
  by (auto simp: head_done_def Let_def split: option.splits prod.splits if_splits)

lemma mp_loop_returns:
  assumes "parser_eats ops" "\<And>n. mp_alloc ops n"
  shows "mp_mb f = Some mb \<Longrightarrow> mb_ok mb \<Longrightarrow>
    sound_result (mp_loop ops isLast f)"
proof (induction "mp_rank mb" arbitrary: mb f rule: less_induct)
  case less
  note step = mp_loop.simps [of ops isLast f]
  consider (eof) "multipart_eof isLast mb"
    | (body) "\<not> multipart_eof isLast mb" "mb_model mb = MULTIPART_BODY_MODEL"
    | (bound) "\<not> multipart_eof isLast mb" "mb_model mb = MULTIPART_BOUNDARY_MODEL"
    | (head) "\<not> multipart_eof isLast mb" "mb_model mb = MULTIPART_HEAD_MODEL"
    by (cases "mb_model mb") auto
  then show ?case
  proof cases
    case eof
    then have "small_rest f" using less.prems(1)
      by (auto simp: small_rest_def multipart_eof_def le_max_iff_disj split: if_splits)
    then show ?thesis unfolding step using less.prems eof by (simp add: sound_result_def mp_ok_def)
  next
    case body
    obtain hit success f1 where m: "match_body ops isLast mb f = (hit, success, f1)" by (metis prod_cases3)
    from match_body_step [OF m less.prems(2) body(2) assms(2)] obtain mb1 where
      mb1: "mp_mb f1 = Some mb1" "mb_ok mb1" "success \<longrightarrow> mp_rank mb1 < mp_rank mb" "\<not> success \<longrightarrow> small_rest f1" by blast
    have "mp_loop ops isLast f = (if hit then Some (True, f1) else if \<not> success then Some (False, f1) else mp_loop ops isLast f1)"
      unfolding step using less.prems(1) body m by simp
    then show ?thesis using less.hyps [OF _ mb1(1,2)] mb1 by (cases hit; cases success) (simp_all add: sound_result_def mp_ok_def)
  next
    case bound
    obtain ok mb1 where b: "find_boundary mb = (ok, mb1)" by fastforce
    note short = find_boundary_shorter [OF b]
    then have kept: "mb1 = mb\<lparr>mb_bytes := mb_bytes mb1\<rparr>" and le: "length (mb_bytes mb1) \<le> length (mb_bytes mb)" by simp_all
    have cap: "mb_capacity mb1 = mb_capacity mb" and bn: "mb_boundary_next mb1 = mb_boundary_next mb"
      by (subst kept, simp)+
    have mb1: "mb_ok mb1" by (rule mb_ok_shorter [OF less.prems(2) le cap])
    have eq: "mp_loop ops isLast f = (if \<not> ok then Some (False, f\<lparr>mp_mb := Some mb1\<rparr>)
        else mp_loop ops isLast (f\<lparr>mp_mb := Some (mb1\<lparr>mb_model := MULTIPART_HEAD_MODEL\<rparr>)\<rparr>))"
      unfolding step using less.prems(1) bound b by simp
    show ?thesis
    proof (cases ok)
      case True
      have "mp_rank (mb1\<lparr>mb_model := MULTIPART_HEAD_MODEL\<rparr>) < mp_rank mb" using short True by (simp add: mp_rank_def)
      from less.hyps [OF this _, of "f\<lparr>mp_mb := Some (mb1\<lparr>mb_model := MULTIPART_HEAD_MODEL\<rparr>)\<rparr>"] mb1 True
      show ?thesis unfolding eq by (simp add: mb_ok_def)
    next
      case False
      with eq mb1 short bn show ?thesis by (simp add: sound_result_def mp_ok_def small_rest_def le_max_iff_disj)
    qed
  next
    case head
    from header_loop_returns [OF assms(1), of "mp_parser ops" mb "mp_hm f"] obtain ret mb1 hm where
      h: "header_loop ops (mp_parser ops) mb (mp_hm f) = Some (ret, mb1, hm)" "length (mb_bytes mb1) \<le> length (mb_bytes mb)"
      "ret = kgl_parse_finished \<Longrightarrow> length (mb_bytes mb1) < length (mb_bytes mb)"
      "mb1 = mb\<lparr>mb_bytes := mb_bytes mb1, mb_model := mb_model mb1\<rparr>" by (metis (full_types))
    have cap: "mb_capacity mb1 = mb_capacity mb" by (subst h(4)) simp
    have mb1: "mb_ok mb1" by (rule mb_ok_shorter [OF less.prems(2) h(2) cap])
    let ?f = "f\<lparr>mp_param := None, mp_filename := None, mp_hm := hm, mp_mb := Some mb1\<rparr>"
    have eq: "mp_loop ops isLast f =
       (case ret of
          kgl_parse_finished \<Rightarrow> (case head_done ops ?f of (hit, f) \<Rightarrow> if hit then Some (True, f) else mp_loop ops isLast f)
        | kgl_parse_error \<Rightarrow> Some (False, ?f\<lparr>mp_mb := None\<rparr>)
        | _ \<Rightarrow> Some (length (mb_bytes mb1) > MULTIPART_MAX_HEAD, ?f))"
      unfolding step using less.prems(1) head h(1) by (simp add: parse_header_def Let_def)
    show ?thesis
    proof (cases "ret = kgl_parse_finished")
      case True
      obtain hit f1 where d: "head_done ops ?f = (hit, f1)" by fastforce
      have f1: "mp_mb f1 = Some mb1" using head_done_mb [OF d] by simp
      have "mp_rank mb1 < mp_rank mb" using h(3) [OF True] by (simp add: mp_rank_def)
      from less.hyps [OF this f1 mb1] mb1 f1 True d show ?thesis unfolding eq by (simp add: sound_result_def mp_ok_def)
    next
      case False
      then show ?thesis unfolding eq using mb1
        by (cases ret) (simp_all add: sound_result_def mp_ok_def small_rest_def le_max_iff_disj)
    qed
  qed
qed

text \<open>
  A call of \<^verbatim>\<open>match\<close> returns, whatever piece of a body it is given: the loop over the modes ends, the
  buffer has room for what is kept, and a call that lets the piece pass keeps no more than a header of
  the allowed size or a boundary line, unless it collects the value of a field.
\<close>

theorem mp_match_returns:
  assumes "parser_eats ops" "\<And>n. mp_alloc ops n" "mp_ok f" "small_rest f"
  shows "sound_result (mp_match ops str isLast f)"
proof (cases "mp_mb f")
  case None
  with assms(3,4) show ?thesis by (simp add: mp_match_def sound_result_def)
next
  case (Some mb)
  then have ok: "mb_ok mb" using assms(3) by (simp add: mp_ok_def)
  note loop = mp_loop_returns [OF assms(1,2)]
  show ?thesis
  proof (cases str)
    case None
    with Some loop [OF Some ok] show ?thesis by (simp add: mp_match_def)
  next
    case (Some s)
    from mb_add_returns [OF ok, of ops s] obtain r where
      r: "mb_add ops s mb = Some r" "\<And>mb'. r = Some mb' \<Longrightarrow> mb_ok mb'" by blast
    show ?thesis
    proof (cases r)
      case None
      with Some \<open>mp_mb f = Some mb\<close> r(1) show ?thesis by (simp add: mp_match_def sound_result_def mp_ok_def small_rest_def)
    next
      case (Some mb')
      with \<open>str = Some s\<close> \<open>mp_mb f = Some mb\<close> r(1) loop [of "f\<lparr>mp_mb := Some mb'\<rparr>" mb'] r(2)
      show ?thesis by (simp add: mp_match_def)
    qed
  qed
qed

section \<open>A field value is seen however the body is split\<close>

text \<open>What is relied on of \<^verbatim>\<open>kgl_memstr\<close>: it finds the first place of a text in another.\<close>

fun first_occ :: "string \<Rightarrow> string \<Rightarrow> nat option" where
  "first_occ [] t = (if t = [] then Some 0 else None)"
| "first_occ (x # xs) t =
     (if take (length t) (x # xs) = t then Some 0 else map_option Suc (first_occ xs t))"

definition memstr_exact :: "'p mp_ops \<Rightarrow> bool" where
  "memstr_exact ops \<longleftrightarrow> (\<forall>s t. memstr ops s t = first_occ s t)"

lemma first_occ_append: "first_occ s t = Some i \<Longrightarrow> first_occ (s @ u) t = Some i"
proof (induction s arbitrary: i)
  case Nil
  then show ?case by (cases u) (auto split: if_splits)
next
  case (Cons x s)
  show ?case
  proof (cases "take (length t) (x # s) = t")
    case True
    then have "length t \<le> length (x # s)" by (metis length_take min.cobounded1)
    then have "take (length t) (x # s @ u) = take (length t) (x # s)" using take_append [of "length t" "x # s" u] by simp
    then have "take (length t) (x # s @ u) = t" using True by (rule trans)
    with True Cons.prems show ?thesis by simp
  next
    case False
    with Cons.prems obtain j where j: "first_occ s t = Some j" "i = Suc j" by auto
    have "take (length t) (x # s @ u) \<noteq> t"
    proof
      assume hit: "take (length t) (x # s @ u) = t"
      have "length t \<le> length s"
      proof -
        have "\<exists>j. first_occ s t = Some j \<Longrightarrow> length t \<le> length s" for s
        proof (induction s)
          case (Cons y ys)
          then show ?case by (auto split: if_splits simp: take_Cons' dest: arg_cong [where f = length])
        qed (auto split: if_splits)
        with j show ?thesis by blast
      qed
      then have "take (length t) (x # s) = t" using hit by (cases "length t") auto
      with False show False ..
    qed
    with j Cons.IH [OF j(1)] show ?thesis by simp
  qed
qed

lemma first_occ_length: "first_occ s t = Some i \<Longrightarrow> i \<le> length s"
  by (induction s arbitrary: i) (auto split: if_splits)

lemma first_occ_None: "first_occ s t = None \<Longrightarrow> take (length t) (drop i s) \<noteq> t"
proof (induction s arbitrary: i)
  case (Cons x s)
  then show ?case by (cases i) (auto split: if_splits)
qed (auto split: if_splits)

lemma first_occ_skip:
  "k \<le> length s \<Longrightarrow> (\<And>i. i < k \<Longrightarrow> take (length t) (drop i s) \<noteq> t) \<Longrightarrow>
   map_option (\<lambda>i. i + k) (first_occ (drop k s) t) = first_occ s t"
proof (induction k arbitrary: s)
  case 0
  then show ?case by (simp add: option.map_ident)
next
  case (Suc k)
  then obtain x xs where s: "s = x # xs" by (cases s) auto
  have "take (length t) (drop i xs) \<noteq> t" if "i < k" for i using Suc.prems(2) [of "Suc i"] that s by simp
  from Suc.IH [OF _ this] Suc.prems(1) s
  have "map_option (\<lambda>i. i + k) (first_occ (drop k xs) t) = first_occ xs t" by simp
  then have "map_option Suc (first_occ xs t) = map_option (\<lambda>i. i + Suc k) (first_occ (drop k xs) t)"
    by (cases "first_occ (drop k xs) t") auto
  moreover have "take (length t) (x # xs) \<noteq> t" using Suc.prems(2) [of 0] s by simp
  ultimately show ?case unfolding s drop_Suc_Cons first_occ.simps by simp
qed

text \<open>The part of the buffer that \<^verbatim>\<open>searched\<close> skips holds no boundary, whatever is read next.\<close>

definition searched_ok :: "multipart_buffer \<Rightarrow> bool" where
  "searched_ok mb \<longleftrightarrow> 0 \<le> mb_searched mb \<and>
     (mb_searched mb = 0 \<or> mb_searched mb + int (length (mb_boundary_next mb)) \<le> int (length (mb_bytes mb)) + 1) \<and>
     (\<forall>i < nat (mb_searched mb). take (length (mb_boundary_next mb)) (drop i (mb_bytes mb)) \<noteq> mb_boundary_next mb)"

lemma searched_ok_append:
  assumes "searched_ok mb"
  shows "searched_ok (mb\<lparr>mb_bytes := mb_bytes mb @ c, mb_capacity := n\<rparr>)"
proof -
  have "take (length (mb_boundary_next mb)) (drop i (mb_bytes mb @ c)) \<noteq> mb_boundary_next mb" if i: "i < nat (mb_searched mb)" for i
  proof -
    have "i + length (mb_boundary_next mb) \<le> length (mb_bytes mb)" using assms i by (auto simp: searched_ok_def)
    then have eq: "take (length (mb_boundary_next mb)) (drop i (mb_bytes mb @ c)) = take (length (mb_boundary_next mb)) (drop i (mb_bytes mb))"
      by simp
    show ?thesis unfolding eq using assms i by (simp add: searched_ok_def)
  qed
  then show ?thesis using assms by (auto simp: searched_ok_def)
qed

definition strip_cr :: "string \<Rightarrow> string" where
  "strip_cr v = (if v \<noteq> [] \<and> last v = CR then butlast v else v)"

lemma parse_body_search:
  assumes "memstr_exact ops" "searched_ok mb" "mb_bytes mb \<noteq> []" "\<And>n. mp_alloc ops n" "mb_boundary_next mb \<noteq> []"
  shows "parse_body ops True isLast mb =
    (case first_occ (mb_bytes mb) (mb_boundary_next mb) of
       Some i \<Rightarrow> (Some (strip_cr (take i (mb_bytes mb)), True), mb\<lparr>mb_bytes := drop i (mb_bytes mb), mb_searched := 0\<rparr>)
     | None \<Rightarrow>
         if isLast then (Some (mb_bytes mb, True), mb\<lparr>mb_bytes := [], mb_searched := 0\<rparr>)
         else (None, mb\<lparr>mb_searched := max 0 (int (length (mb_bytes mb)) - int (length (mb_boundary_next mb)) + 1)\<rparr>))"
proof -
  let ?k = "if mb_searched mb < 0 \<or> mb_searched mb > int (length (mb_bytes mb)) then 0 else nat (mb_searched mb)"
  have "?k = nat (mb_searched mb)" "nat (mb_searched mb) \<le> length (mb_bytes mb)"
    using assms(2,5) by (auto simp: searched_ok_def Suc_leI simp flip: length_greater_0_conv)
  moreover have "map_option (\<lambda>i. i + nat (mb_searched mb)) (first_occ (drop (nat (mb_searched mb)) (mb_bytes mb)) (mb_boundary_next mb)) =
      first_occ (mb_bytes mb) (mb_boundary_next mb)"
    using assms(2) by (intro first_occ_skip calculation) (auto simp: searched_ok_def)
  ultimately have bound: "map_option (\<lambda>i. i + ?k) (memstr ops (drop ?k (mb_bytes mb)) (mb_boundary_next mb)) =
      first_occ (mb_bytes mb) (mb_boundary_next mb)"
    using assms(1) by (simp add: memstr_exact_def)
  show ?thesis
    unfolding parse_body_def Let_def bound using assms(3,4) by (simp add: strip_cr_def split: option.split)
qed

fun run_mp :: "'p mp_ops \<Rightarrow> string list \<Rightarrow> mp_filter \<Rightarrow> (bool \<times> mp_filter) option" where
  "run_mp ops [] f = Some (False, f)"
| "run_mp ops (c # cs) f =
     (case mp_match ops (Some c) (cs = []) f of
        None \<Rightarrow> None
      | Some (hit, f') \<Rightarrow> if hit then Some (True, f') else run_mp ops cs f')"

text \<open>The filter is reading the value of the field \<open>p\<close>.\<close>

definition in_field :: "mp_filter \<Rightarrow> multipart_buffer \<Rightarrow> string \<Rightarrow> bool" where
  "in_field f mb p \<longleftrightarrow> mp_mb f = Some mb \<and> mb_model mb = MULTIPART_BODY_MODEL \<and> mp_filename f = None \<and>
     mp_param f = Some p \<and> searched_ok mb \<and> mb_ok mb"

lemma mb_add_alloc:
  assumes "mb_ok mb" "\<And>n. mp_alloc ops n" "int (length (mb_bytes mb) + length str) < INT_MAX"
  obtains mb' where "mb_add ops str mb = Some (Some mb')" "mb_ok mb'"
    "mb' = mb\<lparr>mb_bytes := mb_bytes mb @ str, mb_capacity := mb_capacity mb'\<rparr>"
proof -
  from mb_add_returns [OF assms(1), of ops str] obtain r where
    r: "mb_add ops str mb = Some r" "\<And>mb'. r = Some mb' \<Longrightarrow> mb_ok mb' \<and> mb' = mb\<lparr>mb_bytes := mb_bytes mb @ str, mb_capacity := mb_capacity mb'\<rparr>"
    by blast
  have "r \<noteq> None"
    using r(1) assms(2,3) by (auto simp: mb_add_def Let_def bind_eq_Some_conv split: if_splits)
  with r that show ?thesis by blast
qed

lemma field_step:
  assumes "memstr_exact ops" "\<And>n. mp_alloc ops n" "in_field f mb p" "mb_boundary_next mb \<noteq> []"
    and more: "int (length (mb_bytes mb) + length c) < INT_MAX"
    and occ: "first_occ (mb_bytes mb @ c @ rest) (mb_boundary_next mb) = Some i"
    and bad: "match_param (mp_param_list f) p (Some (mp_url_decode ops (strip_cr (take i (mb_bytes mb @ c @ rest)))))"
    and last: "isLast \<Longrightarrow> rest = []"
  shows "\<exists>hit f'. mp_match ops (Some c) isLast f = Some (hit, f') \<and> (isLast \<longrightarrow> hit) \<and>
    (\<not> hit \<longrightarrow> (\<exists>mb'. in_field f' mb' p \<and> mb_bytes mb' = mb_bytes mb @ c \<and> mb_boundary_next mb' = mb_boundary_next mb \<and>
      mp_param_list f' = mp_param_list f))"
proof -
  have f: "mp_mb f = Some mb" "mb_model mb = MULTIPART_BODY_MODEL" "mp_filename f = None" "mp_param f = Some p"
    "searched_ok mb" "mb_ok mb" using assms(3) by (simp_all add: in_field_def)
  obtain mb1 where mb1: "mb_add ops c mb = Some (Some mb1)" "mb_ok mb1"
    "mb1 = mb\<lparr>mb_bytes := mb_bytes mb @ c, mb_capacity := mb_capacity mb1\<rparr>"
    using mb_add_alloc [OF f(6) assms(2) more] by blast
  let ?f = "f\<lparr>mp_mb := Some mb1\<rparr>"
  have b: "mb_bytes mb1 = mb_bytes mb @ c" "mb_boundary_next mb1 = mb_boundary_next mb" "mb_model mb1 = MULTIPART_BODY_MODEL"
    using f(2) by (subst mb1(3), simp)+
  have s1: "searched_ok mb1" by (subst mb1(3)) (rule searched_ok_append [OF f(5)])
  have call: "mp_match ops (Some c) isLast f = mp_loop ops isLast ?f" using f(1) mb1(1) by (simp add: mp_match_def)
  have stay: "in_field ?f mb1 p" using f b(3) s1 mb1(2) by (simp add: in_field_def)
  show ?thesis
  proof (cases "multipart_eof isLast mb1")
    case True
    have "\<not> isLast"
    proof
      assume isLast
      with True b last occ assms(4) show False by (simp add: multipart_eof_def)
    qed
    moreover have "mp_loop ops isLast ?f = Some (False, ?f)" using True by (subst mp_loop.simps) simp
    ultimately show ?thesis using stay b call by auto
  next
    case False
    then have ne: "mb_bytes mb1 \<noteq> []" by (auto simp: multipart_eof_def split: if_splits)
    have same: "mb1\<lparr>mb_model := MULTIPART_BODY_MODEL\<rparr> = mb1" using b(3) by simp
    have body: "parse_body ops True isLast mb1 =
      (case first_occ (mb_bytes mb1) (mb_boundary_next mb1) of
         Some i \<Rightarrow> (Some (strip_cr (take i (mb_bytes mb1)), True), mb1\<lparr>mb_bytes := drop i (mb_bytes mb1), mb_searched := 0\<rparr>)
       | None \<Rightarrow>
           if isLast then (Some (mb_bytes mb1, True), mb1\<lparr>mb_bytes := [], mb_searched := 0\<rparr>)
           else (None, mb1\<lparr>mb_searched := max 0 (int (length (mb_bytes mb1)) - int (length (mb_boundary_next mb1)) + 1)\<rparr>))"
      using parse_body_search [OF assms(1) s1 ne assms(2)] assms(4) b(2) by simp
    have loop: "mp_loop ops isLast ?f = (case match_body ops isLast mb1 ?f of (hit, success, f) \<Rightarrow>
        if hit then Some (True, f) else if \<not> success then Some (False, f) else mp_loop ops isLast f)"
      using False b(3) by (subst mp_loop.simps) simp
    show ?thesis
    proof (cases "first_occ (mb_bytes mb1) (mb_boundary_next mb1)")
      case None
      have nl: "\<not> isLast" using None last occ b by auto
      let ?mb2 = "mb1\<lparr>mb_searched := max 0 (int (length (mb_bytes mb1)) - int (length (mb_boundary_next mb1)) + 1)\<rparr>"
      have "match_body ops isLast mb1 ?f = (False, False, f\<lparr>mp_mb := Some ?mb2\<rparr>)"
        unfolding match_body_def using body None nl f(3) same by simp
      moreover have "searched_ok ?mb2" using first_occ_None [OF None] by (auto simp: searched_ok_def)
      moreover have "mb_ok ?mb2" using mb1(2) by (simp add: mb_ok_def)
      ultimately show ?thesis using loop call nl f b by (auto simp: in_field_def)
    next
      case (Some j)
      from first_occ_append [OF this, of rest] b occ have j: "j = i" by simp
      have "take i (mb_bytes mb1) = take i (mb_bytes mb @ c @ rest)"
        using first_occ_length [OF Some] by (simp add: j b)
      with bad have "match_param (mp_param_list f) p (Some (mp_url_decode ops (strip_cr (take j (mb_bytes mb1)))))" by (simp add: j)
      then have "\<exists>f'. match_body ops isLast mb1 ?f = (True, True, f')"
        unfolding match_body_def using body Some f(3,4) same by simp
      then show ?thesis using loop call by auto
    qed
  qed
qed

lemma field_run:
  assumes "memstr_exact ops" "\<And>n. mp_alloc ops n"
  shows "in_field f mb p \<Longrightarrow> mb_boundary_next mb \<noteq> [] \<Longrightarrow> cs \<noteq> [] \<Longrightarrow>
    int (length (mb_bytes mb @ concat cs)) < INT_MAX \<Longrightarrow>
    first_occ (mb_bytes mb @ concat cs) (mb_boundary_next mb) = Some i \<Longrightarrow>
    match_param (mp_param_list f) p (Some (mp_url_decode ops (strip_cr (take i (mb_bytes mb @ concat cs))))) \<Longrightarrow>
    \<exists>f'. run_mp ops cs f = Some (True, f')"
proof (induction cs arbitrary: f mb)
  case (Cons c cs)
  have "int (length (mb_bytes mb) + length c) < INT_MAX" using Cons.prems(4) by simp
  moreover have "first_occ (mb_bytes mb @ c @ concat cs) (mb_boundary_next mb) = Some i" using Cons.prems(5) by simp
  moreover have "match_param (mp_param_list f) p (Some (mp_url_decode ops (strip_cr (take i (mb_bytes mb @ c @ concat cs)))))"
    using Cons.prems(6) by (simp only: concat.simps)
  ultimately obtain hit f1 where f1: "mp_match ops (Some c) (cs = []) f = Some (hit, f1)" "cs = [] \<longrightarrow> hit"
    "\<not> hit \<longrightarrow> (\<exists>mb'. in_field f1 mb' p \<and> mb_bytes mb' = mb_bytes mb @ c \<and> mb_boundary_next mb' = mb_boundary_next mb \<and>
      mp_param_list f1 = mp_param_list f)"
    using field_step [OF assms Cons.prems(1,2), where c = c and rest = "concat cs" and i = i and isLast = "cs = []"] by auto
  show ?case
  proof (cases hit)
    case True
    with f1(1) show ?thesis by simp
  next
    case False
    with f1(3) obtain mb' where mb': "in_field f1 mb' p" "mb_bytes mb' = mb_bytes mb @ c" "mb_boundary_next mb' = mb_boundary_next mb"
      "mp_param_list f1 = mp_param_list f" by blast
    from Cons.IH [OF mb'(1)] mb'(2-4) f1(2) False Cons.prems have "\<exists>f'. run_mp ops cs f1 = Some (True, f')" by simp
    with f1(1) False show ?thesis by simp
  qed
qed simp


section \<open>A line longer than the boundary\<close>

definition read_more :: "string \<Rightarrow> multipart_buffer \<Rightarrow> multipart_buffer" where
  "read_more c mb = mb\<lparr>mb_bytes := mb_bytes mb @ c\<rparr>"

lemma c_str_ident: "CHR 0x00 \<notin> set s \<Longrightarrow> c_str s = s"
  by (simp add: c_str_def takeWhile_eq_all_conv) metis

lemma next_line_whole:
  "LF \<notin> set l \<Longrightarrow> next_line (mb\<lparr>mb_bytes := l @ [CR, LF] @ rest\<rparr>) = Some (l, mb\<lparr>mb_bytes := rest\<rparr>)"
  using cut_at_append [of LF "l @ [CR]" rest] by (simp add: next_line_def LF_def CR_def)

lemma find_boundary_empty: "mb_bytes mb = [] \<Longrightarrow> find_boundary mb = (False, mb)"
  by (subst find_boundary.simps) (simp add: next_line_def)

text \<open>
  C31. A partial line that is longer than the boundary is dropped, and what follows in the next read is taken
  for a line of its own: a text that ends with the boundary in the middle of a line is a boundary when
  the read ends before it, and none when the line arrives whole.
\<close>

theorem boundary_inside_line:
  assumes "mb_bytes mb = []" "LF \<notin> set x" "CHR 0x00 \<notin> set x" "length x > length (mb_boundary_next mb)"
    and b: "LF \<notin> set (mb_boundary mb)" "CHR 0x00 \<notin> set (mb_boundary mb)" "length (mb_boundary mb) < length (mb_boundary_next mb)"
  shows "find_boundary (read_more (x @ mb_boundary mb @ [CR, LF]) mb) = (False, mb) \<and>
    find_boundary (read_more x mb) = (False, mb) \<and>
    find_boundary (read_more (mb_boundary mb @ [CR, LF]) mb) = (True, mb)"
proof -
  have mb: "mb\<lparr>mb_bytes := []\<rparr> = mb" using assms(1) by simp
  have ends: "find_boundary mb = (False, mb)" by (rule find_boundary_empty [OF assms(1)])
  have cx: "c_str x \<noteq> c_str (mb_boundary mb)" "c_str (x @ mb_boundary mb) \<noteq> c_str (mb_boundary mb)"
    using assms by (auto simp: c_str_ident dest: arg_cong [where f = length])
  have "next_line (read_more (x @ mb_boundary mb @ [CR, LF]) mb) = Some (x @ mb_boundary mb, mb)"
    using next_line_whole [where l = "x @ mb_boundary mb" and mb = mb and rest = "[]"] assms mb by (simp add: read_more_def)
  then have 1: "find_boundary (read_more (x @ mb_boundary mb @ [CR, LF]) mb) = (False, mb)"
    using ends cx(2) by (subst find_boundary.simps) (simp add: read_more_def)
  have "next_line (read_more x mb) = Some (x, mb)"
    using assms mb by (simp add: next_line_def read_more_def cut_at_None)
  then have 2: "find_boundary (read_more x mb) = (False, mb)"
    using ends cx(1) by (subst find_boundary.simps) (simp add: read_more_def)
  have "next_line (read_more (mb_boundary mb @ [CR, LF]) mb) = Some (mb_boundary mb, mb)"
    using next_line_whole [where l = "mb_boundary mb" and mb = mb and rest = "[]"] assms mb by (simp add: read_more_def)
  then have 3: "find_boundary (read_more (mb_boundary mb @ [CR, LF]) mb) = (True, mb)"
    by (subst find_boundary.simps) (simp add: read_more_def)
  from 1 2 3 show ?thesis by blast
qed

theorem boundary_inside_line_witness:
  "find_boundary (read_more (''0123456789'' @ ''--xyz'' @ [CR, LF]) (new_multipart_buffer ''xyz'')) = (False, new_multipart_buffer ''xyz'') \<and>
   find_boundary (read_more ''0123456789'' (new_multipart_buffer ''xyz'')) = (False, new_multipart_buffer ''xyz'') \<and>
   find_boundary (read_more (''--xyz'' @ [CR, LF]) (new_multipart_buffer ''xyz'')) = (True, new_multipart_buffer ''xyz'')"
  using boundary_inside_line [of "new_multipart_buffer ''xyz''" "''0123456789''"] by (simp add: new_multipart_buffer_def LF_def)

section \<open>An example\<close>

text \<open>A parser of header lines, one line ended by a line feed at a time.\<close>

definition line_parse :: "unit \<Rightarrow> string \<Rightarrow> unit \<times> string \<times> parse_result" where
  "line_parse p s =
     (case cut_at LF s of
        (line, None) \<Rightarrow> ((), s, kgl_parse_continue)
      | (line, Some rest) \<Rightarrow>
          (case cut_at (CHR '':'') (strip_cr line) of
             (attr, Some val) \<Rightarrow> ((), rest, kgl_parse_success attr val)
           | (attr, None) \<Rightarrow> ((), rest, if attr = [] then kgl_parse_finished else kgl_parse_error)))"

definition demo_ops :: "unit mp_ops" where
  "demo_ops = \<lparr>memstr = first_occ, mempbrk = (\<lambda>s cs. if list_ex (\<lambda>c. c \<in> set cs) s then Some (length (takeWhile (\<lambda>c. c \<notin> set cs) s)) else None),
     strlow = map to_lower, mp_url_decode = (\<lambda>s. s), mp_alloc = (\<lambda>n. True), mp_parser = (), khttp_parse = line_parse,
     add_header = (\<lambda>hm a v. Some (hm @ [(a, v)])), is_attr = strcase_eq\<rparr>"

lemma demo_eats: "parser_eats demo_ops"
  by (auto simp: parser_eats_def demo_ops_def line_parse_def dest: cut_at_Some_length split: prod.splits option.splits)

lemma demo_exact: "memstr_exact demo_ops"
  by (simp add: memstr_exact_def demo_ops_def)

theorem mp_match_returns_witness:
  "sound_result (mp_match demo_ops (Some ''--xyz'') False (new_mp_filter demo_ops ''multipart/form-data; boundary=xyz''))"
proof (rule mp_match_returns [OF demo_eats])
  show "mp_alloc demo_ops n" for n by (simp add: demo_ops_def)
  show "mp_ok (new_mp_filter demo_ops ''multipart/form-data; boundary=xyz'')"
    by (simp add: mp_ok_def new_mp_filter_def new_multipart_buffer_def mb_ok_def split: option.split)
  show "small_rest (new_mp_filter demo_ops ''multipart/form-data; boundary=xyz'')"
    by (simp add: small_rest_def new_mp_filter_def new_multipart_buffer_def split: option.split)
qed

definition demo_field :: mp_filter where
  "demo_field = \<lparr>mp_mb = Some ((new_multipart_buffer ''xyz'')\<lparr>mb_model := MULTIPART_BODY_MODEL\<rparr>), mp_hm = [],
     mp_param = Some ''a'', mp_filename = None, mp_file_list = [], mp_param_list = [\<lambda>n v. v = Some ''evil'']\<rparr>"


text \<open>A whole form, from the content type to the value of its field.\<close>

lemma demo_form:
  "map_option fst (run_mp demo_ops
     [''--x'' @ [CR, LF] @ ''Content-Disposition: name=a'' @ [CR, LF, CR, LF] @ ''evil'']
     ((new_mp_filter demo_ops ''boundary=x'')\<lparr>mp_param_list := [\<lambda>n v. n = ''a'' \<and> v = Some ''evil'']\<rparr>))
   = Some True"
  by code_simp

end
