(* ===== verification/Big_Object.thy ===== *)
theory Big_Object
  imports Kgl_Prelude "HOL-Library.Tree" "HOL-Library.Monad_Syntax"
begin

text \<open>
  Big objects that are cached while they are downloaded: \<^verbatim>\<open>src/KSharedBigObject.cpp\<close> and its header.
  Several fibers fetch parts of one object and write them into one cache file; what is there is a tree
  of blocks \<open>[from, to)\<close>. A reader that has come to the end of a block waits for the writer of the block.

  The tree is walked by the code itself and is a \<open>tree\<close> of the lower ends, which never change;
  \<open>blk\<close> holds the rest of a block. Balancing, removal and the neighbour of a node belong to the krbtree
  library outside of the repository: they are the fields of \<open>rb_ops\<close>, and \<open>rb_laws\<close> says what is relied on.
  Every operation runs under the mutex of the object from its first access to its last one, so an
  operation is a function; waking a fiber is a result. What the file system answers is an argument.
  \<open>None\<close> is an assertion that fails (or the null pointer behind it). Offsets are 64 bit integers in the
  code; they are \<open>int\<close> here, for objects of less than \<open>2 ^ 63\<close> bytes.
\<close>

section \<open>Blocks\<close>

type_synonym fiber = nat

text \<open>A reader that waits: \<open>w_addr\<close> is the address of its queue entry.\<close>

record waiter =
  w_addr :: nat
  w_rq :: fiber
  w_from :: int
  w_length :: int

record bblock =
  b_to :: int
  read_point :: int
  wait_queue :: "waiter list"
  net_fiber :: "fiber option"
  merged_net_fibers :: "fiber list"

definition new_bblock :: "int \<Rightarrow> bblock" where
  "new_bblock from = \<lparr>b_to = from, read_point = 0, wait_queue = [], net_fiber = None, merged_net_fibers = []\<rparr>"

record sbo =
  blocks :: "int tree"
  blk :: "int \<rightharpoonup> bblock"
  body_complete :: bool
  read_refs :: int
  write_refs :: int
  fp :: bool
  disk :: "int \<Rightarrow> char"

definition new_sbo :: "(int \<Rightarrow> char) \<Rightarrow> sbo" where
  "new_sbo d = \<lparr>blocks = Leaf, blk = Map.empty, body_complete = False, read_refs = 0, write_refs = 0, fp = False, disk = d\<rparr>"

text \<open>What the operations use of the cached object itself.\<close>

record sobj =
  o_content_length :: int
  o_content_range_length :: int
  o_has_content_range :: bool
  o_in_disk :: bool
  o_progress :: bool
  o_dead :: bool
  o_in_cache :: bool

record rb_ops =
  insert_color :: "int \<Rightarrow> int tree \<Rightarrow> int tree"
  rb_erase :: "int \<Rightarrow> int tree \<Rightarrow> int tree"
  rb_succ :: "int tree \<Rightarrow> int \<Rightarrow> int option"
  rb_first :: "int tree \<Rightarrow> int option"

fun find_next_block_node :: "(int \<rightharpoonup> bblock) \<Rightarrow> int tree \<Rightarrow> int \<Rightarrow> int option \<Rightarrow> int option" where
  "find_next_block_node m Leaf from lst = lst"
| "find_next_block_node m (Node l k r) from lst =
     (if from < k then find_next_block_node m l from (Some k)
      else (case m k of
              None \<Rightarrow> lst
            | Some data \<Rightarrow> if from > b_to data then find_next_block_node m r from lst else lst))"

fun find_block_node :: "(int \<rightharpoonup> bblock) \<Rightarrow> int tree \<Rightarrow> int \<Rightarrow> int option" where
  "find_block_node m Leaf from = None"
| "find_block_node m (Node l k r) from =
     (if from < k then find_block_node m l from
      else (case m k of
              None \<Rightarrow> None
            | Some data \<Rightarrow> if from > b_to data then find_block_node m r from else Some k))"

text \<open>The descent of \<^verbatim>\<open>insert\<close>, down to the empty place it links the new node to.\<close>

fun link_block :: "(int \<rightharpoonup> bblock) \<Rightarrow> int tree \<Rightarrow> int \<Rightarrow> int tree" where
  "link_block m Leaf from = Node Leaf from Leaf"
| "link_block m (Node l k r) from =
     (if from < k then Node (link_block m l from) k r
      else (case m k of
              None \<Rightarrow> Node l k r
            | Some data \<Rightarrow> if from > b_to data then Node l k (link_block m r from) else Node l k r))"

definition sbo_insert :: "rb_ops \<Rightarrow> int \<Rightarrow> sbo \<Rightarrow> int \<times> bool \<times> sbo" where
  "sbo_insert ops from s =
     (case find_block_node (blk s) (blocks s) from of
        Some k \<Rightarrow> (k, False, s)
      | None \<Rightarrow> (from, True, s\<lparr>blocks := insert_color ops from (link_block (blk s) (blocks s) from),
                             blk := (blk s)(from \<mapsto> new_bblock from)\<rparr>))"

definition set_block :: "int \<Rightarrow> bblock \<Rightarrow> sbo \<Rightarrow> sbo" where
  "set_block k b s = s\<lparr>blk := (blk s)(k \<mapsto> b)\<rparr>"

section \<open>Ranges\<close>

datatype satisfy = kgl_satisfy_none | kgl_satisfy_part | kgl_satisfy_all

type_synonym brange = "int \<times> int"

definition fix_if_range_to :: "brange \<Rightarrow> int \<Rightarrow> satisfy \<times> brange" where
  "fix_if_range_to rg nxt =
     (if snd rg = -1 \<or> nxt \<le> snd rg then (kgl_satisfy_part, (fst rg, nxt - 1)) else (kgl_satisfy_none, rg))"

definition create_if_range :: "rb_ops \<Rightarrow> sbo \<Rightarrow> brange \<Rightarrow> int option \<Rightarrow> (satisfy \<times> brange) option" where
  "create_if_range ops s rg from_node =
     (case from_node of
        Some k \<Rightarrow> do {
          b \<leftarrow> blk s k;
          let rg = (b_to b, snd rg);
          Some (kgl_satisfy_part,
                (case rb_succ ops (blocks s) k of None \<Rightarrow> rg | Some n \<Rightarrow> snd (fix_if_range_to rg n))) }
      | None \<Rightarrow>
          Some (case find_next_block_node (blk s) (blocks s) (fst rg) None of
                  Some n \<Rightarrow> fix_if_range_to rg n
                | None \<Rightarrow> (kgl_satisfy_none, rg)))"

definition can_satisfy :: "rb_ops \<Rightarrow> brange option \<Rightarrow> sobj \<Rightarrow> sbo \<Rightarrow> (satisfy \<times> brange option) option" where
  "can_satisfy ops rg obj s =
     (if body_complete s then Some (kgl_satisfy_all, rg)
      else (case rg of
              None \<Rightarrow> Some (kgl_satisfy_part, None)
            | Some r \<Rightarrow>
                (case find_block_node (blk s) (blocks s) (fst r) of
                   None \<Rightarrow> do { (st, r') \<leftarrow> create_if_range ops s r None; Some (st, Some r') }
                 | Some k \<Rightarrow> do {
                     b \<leftarrow> blk s k;
                     if b_to b = fst r then do { (st, r') \<leftarrow> create_if_range ops s r (Some k); Some (st, Some r') }
                     else if b_to b \<ge> o_content_length obj then Some (kgl_satisfy_all, rg)
                     else if snd r \<ge> 0 \<and> b_to b > snd r then Some (kgl_satisfy_all, rg)
                     else do { (st, r') \<leftarrow> create_if_range ops s r (Some k); Some (st, Some r') } })))"

section \<open>Opening and closing\<close>

definition open_file_handle :: "bool \<Rightarrow> sbo \<Rightarrow> sbo" where
  "open_file_handle opens s = s\<lparr>fp := (fp s \<or> opens)\<rparr>"

definition open_read :: "bool \<Rightarrow> sbo \<Rightarrow> sbo" where
  "open_read opens s = open_file_handle opens (s\<lparr>read_refs := read_refs s + 1\<rparr>)"

definition open_write :: "rb_ops \<Rightarrow> fiber \<Rightarrow> bool \<Rightarrow> int \<Rightarrow> sbo \<Rightarrow> (int \<times> sbo) option" where
  "open_write ops self opens from s =
     (if from < 0 then None
      else (case sbo_insert ops from (open_file_handle opens s) of (k, new_obj, s) \<Rightarrow> do {
        block \<leftarrow> blk s k;
        if net_fiber block = Some self then None
        else Some (from, set_block k (block\<lparr>net_fiber := Some self\<rparr>) (s\<lparr>write_refs := write_refs s + 1\<rparr>)) }))"

text \<open>\<^verbatim>\<open>save_progress\<close>: the pairs it writes, from the first block on.\<close>

partial_function (option) progress_walk :: "rb_ops \<Rightarrow> sbo \<Rightarrow> int option \<Rightarrow> (int \<times> int) list option" where
  "progress_walk ops s node =
     (case node of
        None \<Rightarrow> Some []
      | Some k \<Rightarrow> do {
          b \<leftarrow> blk s k;
          rest \<leftarrow> progress_walk ops s (rb_succ ops (blocks s) k);
          Some ((k, b_to b) # rest) })"

declare progress_walk.simps [code]

definition save_progress :: "rb_ops \<Rightarrow> sbo \<Rightarrow> (int \<times> int) list option" where
  "save_progress ops s = progress_walk ops s (rb_first ops (blocks s))"

text \<open>\<^verbatim>\<open>close\<close>: the file is closed with the last reader and writer; the progress is saved then.\<close>

definition sbo_close :: "rb_ops \<Rightarrow> sobj \<Rightarrow> sbo \<Rightarrow> ((int \<times> int) list option \<times> sbo) option" where
  "sbo_close ops obj s =
     (if read_refs s = 0 \<and> write_refs s = 0 \<and> fp s then
        (if o_in_disk obj then do { saved \<leftarrow> save_progress ops s; Some (Some saved, s\<lparr>fp := False\<rparr>) }
         else Some (None, s\<lparr>fp := False\<rparr>))
      else Some (None, s))"

definition close_read :: "rb_ops \<Rightarrow> sobj \<Rightarrow> sbo \<Rightarrow> ((int \<times> int) list option \<times> sbo) option" where
  "close_read ops obj s =
     (if \<not> o_progress obj \<or> read_refs s - 1 < 0 then None
      else sbo_close ops obj (s\<lparr>read_refs := read_refs s - 1\<rparr>))"

text \<open>\<^verbatim>\<open>restore\<close>: \<open>data\<close> are the whole pairs of the buffer, \<open>odd\<close> the bytes behind them.\<close>

fun restore_loop :: "rb_ops \<Rightarrow> (int \<times> int) list \<Rightarrow> nat \<Rightarrow> sbo \<Rightarrow> bool \<times> sbo" where
  "restore_loop ops [] odd_bytes s = (odd_bytes = 0, s)"
| "restore_loop ops ((from, to) # rest) odd_bytes s =
     (if from < 0 \<or> to < from then (False, s)
      else (case sbo_insert ops from s of (k, new_obj, s) \<Rightarrow>
        if \<not> new_obj then (odd_bytes = 0 \<and> rest = [], s)
        else restore_loop ops rest odd_bytes (set_block from ((new_bblock from)\<lparr>b_to := to\<rparr>) s)))"

definition create :: "bool \<Rightarrow> sobj \<Rightarrow> sbo \<Rightarrow> (bool \<times> sobj \<times> sbo) option" where
  "create opens obj s =
     (if fp s then None
      else if \<not> opens then Some (False, obj, s)
      else
        (let obj = (if o_has_content_range obj
                    then obj\<lparr>o_has_content_range := False, o_content_length := o_content_range_length obj\<rparr> else obj) in
         Some (True, obj\<lparr>o_in_disk := True, o_progress := True\<rparr>, s\<lparr>fp := True\<rparr>)))"

section \<open>Reading and writing\<close>

text \<open>
  What \<^verbatim>\<open>read\<close> returns: -1, -2 without and with the order to fetch a range, the bytes or the error of
  the file, or a later answer.
\<close>

datatype read_ret =
    Closed
  | No_data
  | Fetch brange
  | Bytes string
  | File_error int
  | Wait

definition file_bytes :: "(int \<Rightarrow> char) \<Rightarrow> int \<Rightarrow> int \<Rightarrow> string" where
  "file_bytes d from n = map (\<lambda>i. d (from + int i)) [0..<nat n]"

text \<open>
  The part behind the search: the reader is at \<open>offset\<close> in the block \<open>k\<close>. \<open>got\<close> is what
  \<^verbatim>\<open>kfiber_file_safe_read\<close> returns, never more than it is asked for.
\<close>

definition read_block ::
  "rb_ops \<Rightarrow> fiber \<Rightarrow> nat \<Rightarrow> int \<Rightarrow> int \<Rightarrow> int \<Rightarrow> bool \<Rightarrow> int \<Rightarrow> bblock \<Rightarrow> sbo \<Rightarrow> (read_ret \<times> sbo) option" where
  "read_block ops self addr got offset len net k block s =
     (if offset < k \<or> offset > b_to block then None
      else if offset < b_to block then
        (let n = min got (min len (b_to block - offset)) in
         Some (if got < 0 then File_error got else Bytes (file_bytes (disk s) offset n), s))
      else if net_fiber block = None then
        (if \<not> net then Some (No_data, s)
         else
           (let s' = set_block k (block\<lparr>net_fiber := Some self\<rparr>) (s\<lparr>write_refs := write_refs s + 1\<rparr>) in
            case rb_succ ops (blocks s) k of
              None \<Rightarrow> Some (Fetch (offset, -1), s')
            | Some n \<Rightarrow> if n - 1 < offset then None else Some (Fetch (offset, n - 1), s')))
      else Some (Wait, set_block k
             (block\<lparr>wait_queue := wait_queue block @ [\<lparr>w_addr = addr, w_rq = self, w_from = offset, w_length = len\<rparr>]\<rparr>) s))"

definition sbo_read ::
  "rb_ops \<Rightarrow> fiber \<Rightarrow> nat \<Rightarrow> int \<Rightarrow> int \<Rightarrow> int \<Rightarrow> bool \<Rightarrow> sbo \<Rightarrow> (read_ret \<times> sbo) option" where
  "sbo_read ops self addr got offset len net s =
     (if \<not> fp s then Some (Closed, s)
      else (case (if net then (case sbo_insert ops offset s of (k, new_obj, s) \<Rightarrow> (Some k, s))
                  else (find_block_node (blk s) (blocks s) offset, s)) of
        (None, s) \<Rightarrow> Some (No_data, s)
      | (Some k, s) \<Rightarrow> do {
          block \<leftarrow> blk s k;
          let block = (if read_point block < offset then block\<lparr>read_point := offset\<rparr> else block);
          read_block ops self addr got offset len net k block (set_block k block s) }))"

datatype kgl_result = KGL_OK | KGL_END | KGL_EIO | KGL_ESYSCALL | Fiber_result int

datatype wakeup = READ_RETRY | Got string

text \<open>\<^verbatim>\<open>std::list::merge\<close> on the queue entries, which are pointers.\<close>

fun addr_merge :: "waiter list \<Rightarrow> waiter list \<Rightarrow> waiter list" where
  "addr_merge xs [] = xs"
| "addr_merge [] ys = ys"
| "addr_merge (x # xs) (y # ys) =
     (if w_addr y < w_addr x then y # addr_merge (x # xs) ys else x # addr_merge xs (y # ys))"

text \<open>The block \<open>k\<close> has grown to \<open>b_to b\<close>: a neighbour that it reaches is merged into it.\<close>

definition merge_next :: "rb_ops \<Rightarrow> int \<Rightarrow> bblock \<Rightarrow> sbo \<Rightarrow> (kgl_result \<times> bblock \<times> sbo) option" where
  "merge_next ops k b s =
     (case rb_succ ops (blocks s) k of
        None \<Rightarrow> Some (KGL_OK, b, s)
      | Some n \<Rightarrow> do {
          nb \<leftarrow> blk s n;
          if b_to b \<ge> n then
            (if net_fiber nb = None \<and> wait_queue nb \<noteq> [] then None
             else
               (let take_over = net_fiber nb \<noteq> None \<and> net_fiber nb \<noteq> net_fiber b in
                Some (KGL_END,
                  b\<lparr>b_to := b_to nb,
                    wait_queue := addr_merge (wait_queue b) (wait_queue nb),
                    net_fiber := (if take_over \<and> net_fiber b = None then net_fiber nb else net_fiber b),
                    merged_net_fibers :=
                      (if take_over \<and> net_fiber b \<noteq> None then merged_net_fibers b @ [the (net_fiber nb)]
                       else merged_net_fibers b) @ merged_net_fibers nb\<rparr>,
                  s\<lparr>blocks := rb_erase ops n (blocks s), blk := (blk s)(n := None)\<rparr>)))
          else Some (KGL_OK, b, s) })"

text \<open>The answer to a reader that is woken by a write of \<open>buf\<close> at \<open>offset\<close>.\<close>

definition serve :: "int \<Rightarrow> string \<Rightarrow> waiter \<Rightarrow> wakeup" where
  "serve offset buf w =
     (let buf_start = w_from w - offset; block_length = int (length buf) - buf_start in
      if buf_start < 0 \<or> buf_start \<ge> int (length buf) \<or> block_length \<le> 0 then READ_RETRY
      else
        (let block_length = min (w_length w) block_length in
         if block_length \<le> 0 then READ_RETRY
         else Got (take (nat block_length) (drop (nat buf_start) buf))))"

definition UPSTREAM_AUTO_DELAY_BUFFER_SIZE :: int where
  "UPSTREAM_AUTO_DELAY_BUFFER_SIZE = 4194304"

definition write_delay :: "kgl_result \<Rightarrow> int \<Rightarrow> int \<Rightarrow> int" where
  "write_delay result preloaded_length len =
     (if result = KGL_OK \<and> preloaded_length > UPSTREAM_AUTO_DELAY_BUFFER_SIZE then
        min (to_int32 ((preloaded_length - UPSTREAM_AUTO_DELAY_BUFFER_SIZE) div 2000)) (len div 8)
      else 0)"

definition put_bytes :: "int \<Rightarrow> string \<Rightarrow> (int \<Rightarrow> char) \<Rightarrow> int \<Rightarrow> char" where
  "put_bytes offset buf d i =
     (if offset \<le> i \<and> i < offset + int (length buf) then buf ! nat (i - offset) else d i)"

text \<open>\<open>seeks\<close> and \<open>wrote\<close> are what seeking and writing in the file achieve.\<close>

definition sbo_write ::
  "rb_ops \<Rightarrow> bool \<Rightarrow> nat \<Rightarrow> int \<Rightarrow> string \<Rightarrow> sbo \<Rightarrow> (kgl_result \<times> (waiter \<times> wakeup) list \<times> int \<times> sbo) option" where
  "sbo_write ops seeks wrote offset buf s =
     (if \<not> fp s \<or> \<not> seeks then Some (KGL_EIO, [], 0, s)
      else
        (let s = s\<lparr>disk := put_bytes offset (take wrote buf) (disk s)\<rparr> in
         if wrote < length buf then Some (KGL_EIO, [], 0, s)
         else do {
           k \<leftarrow> find_block_node (blk s) (blocks s) offset;
           block \<leftarrow> blk s k;
           let len = offset + int (length buf) - b_to block;
           if len \<le> 0 then Some (KGL_OK, [], 0, s)
           else do {
             let block = block\<lparr>b_to := b_to block + len\<rparr>;
             let preloaded_length = b_to block - read_point block;
             if preloaded_length < 0 then None
             else do {
               (result, block, s) \<leftarrow> merge_next ops k block s;
               let ready = (\<lambda>w. w_from w < b_to block \<or> net_fiber block = None);
               if wait_queue block \<noteq> [] \<and> read_refs s \<le> 0 then None
               else Some (result, map (\<lambda>w. (w, serve offset buf w)) (filter ready (wait_queue block)),
                      write_delay result preloaded_length (int (length buf)),
                      set_block k (block\<lparr>wait_queue := filter (\<lambda>w. \<not> ready w) (wait_queue block)\<rparr>) s) } } }))"

text \<open>\<^verbatim>\<open>close_write\<close>: whose writer is gone, and the readers that are told to look again.\<close>

definition drop_writer :: "fiber \<Rightarrow> bblock \<Rightarrow> bool \<times> bblock" where
  "drop_writer self b =
     (if net_fiber b = Some self then
        (True, (case merged_net_fibers b of
                  [] \<Rightarrow> b\<lparr>net_fiber := None\<rparr>
                | g # gs \<Rightarrow> b\<lparr>net_fiber := Some g, merged_net_fibers := gs\<rparr>))
      else if self \<in> set (merged_net_fibers b) then
        (True, b\<lparr>merged_net_fibers := remove1 self (merged_net_fibers b)\<rparr>)
      else (False, b))"

text \<open>With the last writer of a block its readers must look again.\<close>

definition stop_writer :: "fiber \<Rightarrow> int \<Rightarrow> bblock \<Rightarrow> waiter list \<times> bblock" where
  "stop_writer self k block =
     (case drop_writer self block of (writer_removed, block) \<Rightarrow>
        if writer_removed \<and> net_fiber block = None
        then (wait_queue block, block\<lparr>read_point := k, wait_queue := []\<rparr>) else ([], block))"

text \<open>
  \<open>adds\<close> is whether the cache takes the completed object. The result has the object, whether a completed
  one was made, the readers to wake and the saved progress.
\<close>

definition close_write ::
  "rb_ops \<Rightarrow> fiber \<Rightarrow> bool \<Rightarrow> sobj \<Rightarrow> int \<Rightarrow> sbo \<Rightarrow>
   (sobj \<times> bool \<times> waiter list \<times> (int \<times> int) list option \<times> sbo) option" where
  "close_write ops self adds obj write_from s =
     (if write_from < 0 then None
      else do {
        k \<leftarrow> find_block_node (blk s) (blocks s) write_from;
        block \<leftarrow> blk s k;
        let (notice, block) = stop_writer self k block;
        let full = (k = 0 \<and> b_to block \<ge> o_content_length obj);
        let change = (full \<and> \<not> body_complete s);
        if write_refs s \<le> 0 then None
        else do {
          let s = set_block k block (s\<lparr>body_complete := (body_complete s \<or> full), write_refs := write_refs s - 1\<rparr>);
          let obj = (if change \<and> o_in_cache obj then obj\<lparr>o_in_disk := \<not> adds, o_dead := True\<rparr> else obj);
          (saved, s) \<leftarrow> sbo_close ops obj s;
          Some (obj, change \<and> o_in_cache obj \<and> adds, notice, saved, s) } })"

section \<open>The stream of a writer\<close>

text \<open>
  \<^verbatim>\<open>bo_write\<close> of \<^verbatim>\<open>src/KBigObjectStream.cpp\<close>: \<open>starts\<close> is whether the fiber that sends can be started,
  \<open>exited\<close> what it returned when it has ended.
\<close>

record bo_stream =
  bo_offset :: int
  read_fiber_error :: bool
  send_fiber :: bool

definition bo_write ::
  "rb_ops \<Rightarrow> bool \<Rightarrow> nat \<Rightarrow> bool \<Rightarrow> int option \<Rightarrow> string \<Rightarrow> bo_stream \<Rightarrow> sbo \<Rightarrow>
   (kgl_result \<times> (waiter \<times> wakeup) list \<times> bo_stream \<times> sbo) option" where
  "bo_write ops seeks wrote starts exited buf st s =
     (if read_fiber_error st then Some (KGL_EIO, [], st, s)
      else do {
        (result, wake, delay, s) \<leftarrow> sbo_write ops seeks wrote (bo_offset st) buf s;
        let result = (if result = KGL_END then KGL_OK else result);
        let st = (if result \<noteq> KGL_OK then st\<lparr>read_fiber_error := True\<rparr> else st);
        let st = st\<lparr>bo_offset := bo_offset st + int (length buf)\<rparr>;
        if \<not> send_fiber st then
          (if \<not> starts then Some (KGL_ESYSCALL, wake, st, s) else Some (result, wake, st\<lparr>send_fiber := True\<rparr>, s))
        else (case exited of
                None \<Rightarrow> Some (result, wake, st, s)
              | Some ret \<Rightarrow>
                  Some (if result = KGL_OK then Fiber_result ret else result, wake,
                        st\<lparr>send_fiber := False, read_fiber_error := True\<rparr>, s)) })"

section \<open>The tree\<close>

definition rb_laws :: "rb_ops \<Rightarrow> bool" where
  "rb_laws ops \<longleftrightarrow>
     (\<forall>k t. inorder (insert_color ops k t) = inorder t) \<and>
     (\<forall>k t. bst t \<longrightarrow> k \<in> set_tree t \<longrightarrow> inorder (rb_erase ops k t) = remove1 k (inorder t)) \<and>
     (\<forall>k t. bst t \<longrightarrow> k \<in> set_tree t \<longrightarrow> rb_succ ops t k = find (\<lambda>n. k < n) (inorder t)) \<and>
     (\<forall>t. bst t \<longrightarrow> rb_first ops t = find (\<lambda>n. True) (inorder t))"

text \<open>Blocks do not overlap and do not touch.\<close>

definition apart :: "(int \<rightharpoonup> bblock) \<Rightarrow> bool" where
  "apart m \<longleftrightarrow> (\<forall>k b. m k = Some b \<longrightarrow> 0 \<le> k \<and> k \<le> b_to b) \<and>
     (\<forall>k b k' b'. m k = Some b \<longrightarrow> m k' = Some b' \<longrightarrow> k < k' \<longrightarrow> b_to b < k')"

definition tree_ok :: "sbo \<Rightarrow> bool" where
  "tree_ok s \<longleftrightarrow> bst (blocks s) \<and> set_tree (blocks s) = dom (blk s) \<and> apart (blk s)"

lemma apartD:
  assumes "apart m" "m k = Some b"
  shows "0 \<le> k" "k \<le> b_to b" "\<And>k' b'. m k' = Some b' \<Longrightarrow> k < k' \<Longrightarrow> b_to b < k'"
  using assms unfolding apart_def by blast+

lemma apart_unique:
  "apart m \<Longrightarrow> m k = Some b \<Longrightarrow> m k' = Some b' \<Longrightarrow> k \<le> x \<Longrightarrow> x \<le> b_to b \<Longrightarrow> k' \<le> x \<Longrightarrow> x \<le> b_to b' \<Longrightarrow> k = k'"
  by (meson apartD(3) le_less_trans less_le_trans linorder_neqE not_less)

lemma find_block_node_sound:
  "find_block_node m t x = Some k \<Longrightarrow> k \<in> set_tree t \<and> (\<exists>b. m k = Some b \<and> k \<le> x \<and> x \<le> b_to b)"
  by (induction t) (auto split: if_splits option.splits)

lemma find_block_node_complete:
  assumes "apart m"
  shows "bst t \<Longrightarrow> set_tree t \<subseteq> dom m \<Longrightarrow> k \<in> set_tree t \<Longrightarrow> m k = Some b \<Longrightarrow> k \<le> x \<Longrightarrow> x \<le> b_to b \<Longrightarrow>
    find_block_node m t x = Some k"
proof (induction t)
  case (Node l c r)
  from Node.prems(2) obtain d where d: "m c = Some d" by auto
  consider "k = c" | "k \<in> set_tree l" | "k \<in> set_tree r" using Node.prems(3) by auto
  then show ?case
  proof cases
    case 1
    with Node.prems d show ?thesis by simp
  next
    case 2
    then have "k < c" using Node.prems(1) by auto
    then have "x < c" using apartD(3) [OF assms Node.prems(4) d] Node.prems(6) by simp
    then show ?thesis using Node.IH(1) 2 Node.prems by auto
  next
    case 3
    then have "c < k" using Node.prems(1) by auto
    then have "b_to d < x" using apartD(3) [OF assms d Node.prems(4)] Node.prems(5) by simp
    then have "\<not> x < c" using apartD(2) [OF assms d] by simp
    then show ?thesis using Node.IH(2) 3 Node.prems d \<open>b_to d < x\<close> by auto
  qed
qed simp

lemma find_block_node_iff:
  assumes "tree_ok s"
  shows "find_block_node (blk s) (blocks s) x = Some k \<longleftrightarrow> (\<exists>b. blk s k = Some b \<and> k \<le> x \<and> x \<le> b_to b)"
  using assms find_block_node_sound [of "blk s" "blocks s" x k] find_block_node_complete [of "blk s" "blocks s" k _ x]
  unfolding tree_ok_def by blast

lemma find_block_node_None:
  assumes "tree_ok s"
  shows "find_block_node (blk s) (blocks s) x = None \<longleftrightarrow> (\<forall>k b. blk s k = Some b \<longrightarrow> \<not> (k \<le> x \<and> x \<le> b_to b))"
  using find_block_node_iff [OF assms, of x] by (metis option.exhaust option.distinct(1))

lemma link_block_inorder:
  assumes "apart m"
  shows "bst t \<Longrightarrow> set_tree t \<subseteq> dom m \<Longrightarrow> find_block_node m t x = None \<Longrightarrow>
    bst (link_block m t x) \<and> set_tree (link_block m t x) = insert x (set_tree t)"
proof (induction t)
  case (Node l c r)
  from Node.prems(2) obtain d where d: "m c = Some d" by auto
  then show ?case
    using Node apartD(2) [OF assms d] by (auto split: if_splits)
qed simp

lemma find_append: "find P (xs @ ys) = (case find P xs of None \<Rightarrow> find P ys | Some x \<Rightarrow> Some x)"
  by (induction xs) auto

lemma find_next_inorder:
  "bst t \<Longrightarrow> set_tree t \<subseteq> dom m \<Longrightarrow> find_block_node m t x = None \<Longrightarrow>
    find_next_block_node m t x lst = (case find (\<lambda>k. x < k) (inorder t) of None \<Rightarrow> lst | Some n \<Rightarrow> Some n)"
proof (induction t arbitrary: lst)
  case (Node l c r)
  from Node.prems(2) obtain d where d: "m c = Some d" by auto
  show ?case
  proof (cases "x < c")
    case True
    then show ?thesis using Node.IH(1) [of "Some c"] Node.prems by (auto simp: find_append split: option.split)
  next
    case False
    then have "x > b_to d" using Node.prems(3) d by (simp split: if_splits)
    moreover have "find (\<lambda>k. x < k) (inorder l) = None" using False Node.prems(1) by (fastforce simp: find_None_iff)
    ultimately show ?thesis using False Node.IH(2) [of lst] Node.prems d by (auto simp: find_append)
  qed
qed simp

text \<open>In a sorted list, the first element above \<open>x\<close> is the smallest one above it.\<close>

lemma find_above:
  "sorted_wrt (<) xs \<Longrightarrow> find (\<lambda>k. (x :: int) < k) xs = Some n \<longleftrightarrow> n \<in> set xs \<and> x < n \<and> (\<forall>k\<in>set xs. x < k \<longrightarrow> n \<le> k)"
proof (induction xs)
  case (Cons a xs)
  then show ?case by (cases "x < a") (auto intro: less_imp_le antisym)
qed simp

lemma bst_sorted: "bst t \<Longrightarrow> sorted_wrt (<) (inorder t)"
  by (simp add: bst_iff_sorted_wrt_less)

definition next_of :: "(int \<rightharpoonup> bblock) \<Rightarrow> int \<Rightarrow> int option \<Rightarrow> bool" where
  "next_of m x r \<longleftrightarrow> (case r of None \<Rightarrow> \<forall>k\<in>dom m. \<not> x < k | Some n \<Rightarrow> n \<in> dom m \<and> x < n \<and> (\<forall>k\<in>dom m. x < k \<longrightarrow> n \<le> k))"

lemma find_above_next:
  assumes "bst t" "set_tree t = dom m"
  shows "next_of m x (find (\<lambda>k. x < k) (inorder t))"
  using find_above [OF bst_sorted [OF assms(1)], of x] assms(2)
  by (auto simp: next_of_def find_None_iff split: option.split)

lemma rb_succ_next:
  assumes "rb_laws ops" "tree_ok s" "blk s k = Some b"
  shows "next_of (blk s) k (rb_succ ops (blocks s) k)"
proof -
  have "rb_succ ops (blocks s) k = find (\<lambda>n. k < n) (inorder (blocks s))"
    using assms unfolding rb_laws_def tree_ok_def by blast
  with find_above_next assms(2) show ?thesis unfolding tree_ok_def by metis
qed

lemma find_next_next:
  assumes "tree_ok s" "find_block_node (blk s) (blocks s) x = None"
  shows "next_of (blk s) x (find_next_block_node (blk s) (blocks s) x None)"
proof -
  have "find_next_block_node (blk s) (blocks s) x None = find (\<lambda>k. x < k) (inorder (blocks s))"
    using find_next_inorder [of "blocks s" "blk s" x None] assms unfolding tree_ok_def by (simp split: option.split)
  with find_above_next assms(1) show ?thesis unfolding tree_ok_def by metis
qed

lemma apart_insert:
  assumes "apart m" "0 \<le> x" "\<And>k b. m k = Some b \<Longrightarrow> k \<le> x \<Longrightarrow> b_to b < x"
  shows "apart (m(x \<mapsto> new_bblock x))"
proof -
  have "b_to b < k'" if "(m(x \<mapsto> new_bblock x)) k = Some b" "(m(x \<mapsto> new_bblock x)) k' = Some b'" "k < k'" for k b k' b'
    using that apartD(3) [OF assms(1), of k b k' b'] assms(3) [of k b]
    by (cases "k = x"; cases "k' = x") (auto simp: new_bblock_def)
  moreover have "0 \<le> k \<and> k \<le> b_to b" if "(m(x \<mapsto> new_bblock x)) k = Some b" for k b
    using that apartD(1,2) [OF assms(1), of k b] assms(2) by (cases "k = x") (auto simp: new_bblock_def)
  ultimately show ?thesis unfolding apart_def by blast
qed

lemma insert_tree_ok:
  assumes "rb_laws ops" "tree_ok s" "0 \<le> x" "sbo_insert ops x s = (k, new_obj, s')"
  shows "tree_ok s'" "\<exists>b. blk s' k = Some b \<and> k \<le> x \<and> x \<le> b_to b"
    "new_obj \<Longrightarrow> k = x \<and> blk s x = None \<and> s' = s\<lparr>blocks := blocks s', blk := (blk s)(x \<mapsto> new_bblock x)\<rparr>"
    "\<not> new_obj \<Longrightarrow> s' = s"
proof -
  note ok = assms(2) [unfolded tree_ok_def]
  have "tree_ok s' \<and> (\<exists>b. blk s' k = Some b \<and> k \<le> x \<and> x \<le> b_to b) \<and>
    (new_obj \<longrightarrow> k = x \<and> blk s x = None \<and> s' = s\<lparr>blocks := blocks s', blk := (blk s)(x \<mapsto> new_bblock x)\<rparr>) \<and> (\<not> new_obj \<longrightarrow> s' = s)"
  proof (cases "find_block_node (blk s) (blocks s) x")
    case None
    let ?t = "insert_color ops x (link_block (blk s) (blocks s) x)"
    have s': "k = x" "new_obj" "s' = s\<lparr>blocks := ?t, blk := (blk s)(x \<mapsto> new_bblock x)\<rparr>"
      using assms(4) None by (auto simp: sbo_insert_def)
    have out: "\<not> (k \<le> x \<and> x \<le> b_to b)" if "blk s k = Some b" for k b
      using that None find_block_node_None [OF assms(2)] by blast
    have link: "bst (link_block (blk s) (blocks s) x)" "set_tree (link_block (blk s) (blocks s) x) = insert x (dom (blk s))"
      using link_block_inorder [of "blk s" "blocks s" x] ok None by auto
    have in_eq: "inorder ?t = inorder (link_block (blk s) (blocks s) x)" using assms(1) by (simp add: rb_laws_def)
    then have "bst ?t" "set_tree ?t = insert x (dom (blk s))"
      using link by (simp add: bst_iff_sorted_wrt_less, metis set_inorder)
    moreover have "apart ((blk s)(x \<mapsto> new_bblock x))"
      using ok assms(3) out by (intro apart_insert) (blast, blast, meson not_le)
    moreover have "blk s x = None" using out [of x] apartD(2) [of "blk s" x] ok by fastforce
    ultimately show ?thesis using s' by (simp add: tree_ok_def new_bblock_def)
  next
    case (Some k')
    with assms(4) have "k = k'" "\<not> new_obj" "s' = s" by (auto simp: sbo_insert_def)
    with Some find_block_node_iff [OF assms(2)] assms(2) show ?thesis by auto
  qed
  then show "tree_ok s'" "\<exists>b. blk s' k = Some b \<and> k \<le> x \<and> x \<le> b_to b"
    "new_obj \<Longrightarrow> k = x \<and> blk s x = None \<and> s' = s\<lparr>blocks := blocks s', blk := (blk s)(x \<mapsto> new_bblock x)\<rparr>"
    "\<not> new_obj \<Longrightarrow> s' = s" by blast+
qed

end
