(* ===== verification/Big_Object_Run.thy ===== *)
theory Big_Object_Run
  imports Big_Object
begin

text \<open>
  Big objects under concurrent use: the invariant of the blocks, that every operation of \<open>Big_Object\<close> keeps
  it, and what follows for any sequence of operations of any number of readers and writers. The
  mutex of the object makes the operations atomic, so their interleavings are the runs of \<open>bo_run\<close>.
\<close>

section \<open>The invariant\<close>

text \<open>
  \<open>C\<close> is the content of the object, \<open>R\<close> are the fibers that have opened it to read, and \<open>W\<close> those that
  have opened it to write, with the offset they will close with.
\<close>

definition writers_of :: "bblock \<Rightarrow> fiber list" where
  "writers_of b = (case net_fiber b of None \<Rightarrow> [] | Some f \<Rightarrow> [f]) @ merged_net_fibers b"

definition block_ok ::
  "(int \<Rightarrow> char) \<Rightarrow> (int \<Rightarrow> char) \<Rightarrow> fiber set \<Rightarrow> (fiber \<rightharpoonup> int) \<Rightarrow> int \<Rightarrow> bblock \<Rightarrow> bool" where
  "block_ok d C R W k b \<longleftrightarrow>
     (\<forall>i. k \<le> i \<longrightarrow> i < b_to b \<longrightarrow> d i = C i) \<and> read_point b \<le> b_to b \<and>
     (\<forall>w\<in>set (wait_queue b). w_from w = b_to b \<and> w_rq w \<in> R) \<and>
     (net_fiber b = None \<longrightarrow> wait_queue b = [] \<and> merged_net_fibers b = []) \<and>
     distinct (writers_of b) \<and> (\<forall>f\<in>set (writers_of b). \<exists>w. W f = Some w \<and> k \<le> w \<and> w \<le> b_to b)"

definition covered :: "sbo \<Rightarrow> int \<Rightarrow> bool" where
  "covered s x \<longleftrightarrow> (\<exists>k b. blk s k = Some b \<and> k \<le> x \<and> x \<le> b_to b)"

definition blocks_ok :: "(int \<Rightarrow> char) \<Rightarrow> int \<Rightarrow> sbo \<Rightarrow> fiber set \<Rightarrow> (fiber \<rightharpoonup> int) \<Rightarrow> bool" where
  "blocks_ok C CL s R W \<longleftrightarrow> tree_ok s \<and> (\<forall>k b. blk s k = Some b \<longrightarrow> block_ok (disk s) C R W k b) \<and>
     (\<forall>f w. W f = Some w \<longrightarrow> 0 \<le> w \<and> covered s w) \<and> (body_complete s \<longrightarrow> (\<exists>b. blk s 0 = Some b \<and> CL \<le> b_to b))"

definition refs_ok :: "sbo \<Rightarrow> fiber set \<Rightarrow> (fiber \<rightharpoonup> int) \<Rightarrow> bool" where
  "refs_ok s R W \<longleftrightarrow> finite R \<and> finite (dom W) \<and> read_refs s = int (card R) \<and> write_refs s = int (card (dom W))"

lemma blocks_okD:
  assumes "blocks_ok C CL s R W"
  shows "tree_ok s" "apart (blk s)" "\<And>k b. blk s k = Some b \<Longrightarrow> block_ok (disk s) C R W k b"
    "\<And>f w. W f = Some w \<Longrightarrow> 0 \<le> w \<and> covered s w"
  using assms unfolding blocks_ok_def tree_ok_def by blast+

lemma block_okD:
  assumes "block_ok d C R W k b"
  shows "\<And>i. k \<le> i \<Longrightarrow> i < b_to b \<Longrightarrow> d i = C i" "read_point b \<le> b_to b"
    "\<And>w. w \<in> set (wait_queue b) \<Longrightarrow> w_from w = b_to b \<and> w_rq w \<in> R"
    "net_fiber b = None \<Longrightarrow> wait_queue b = [] \<and> merged_net_fibers b = []"
    "distinct (writers_of b)" "\<And>f. f \<in> set (writers_of b) \<Longrightarrow> \<exists>w. W f = Some w \<and> k \<le> w \<and> w \<le> b_to b"
  using assms unfolding block_ok_def by blast+

lemma block_ok_mono:
  assumes "block_ok d C R W k b" "R \<subseteq> R'" "W \<subseteq>\<^sub>m W'"
  shows "block_ok d C R' W' k b"
proof -
  have "\<exists>w. W' f = Some w \<and> k \<le> w \<and> w \<le> b_to b" if "f \<in> set (writers_of b)" for f
    using block_okD(6) [OF assms(1) that] assms(3) unfolding map_le_def by (metis domI)
  with assms(1,2) show ?thesis unfolding block_ok_def by blast
qed

text \<open>One block is replaced by a block with the same end.\<close>

lemma tree_ok_same_end:
  assumes "tree_ok s" "blk s k = Some b" "b_to b' = b_to b"
  shows "tree_ok (set_block k b' s)"
proof -
  have *: "\<exists>c. blk s j = Some c \<and> b_to c = b_to d" if "((blk s)(k \<mapsto> b')) j = Some d" for j d
    using that assms(2,3) by (auto split: if_splits)
  have "apart ((blk s)(k \<mapsto> b'))"
    unfolding apart_def using assms(1) * unfolding tree_ok_def apart_def by metis
  with assms(1,2) show ?thesis by (auto simp: tree_ok_def set_block_def)
qed

lemma blocks_ok_update:
  assumes ok: "blocks_ok C CL s R W" and k: "blk s k = Some b" "b_to b' = b_to b"
    and b': "block_ok (disk s) C R' W' k b'" and RW: "R \<subseteq> R'" "W \<subseteq>\<^sub>m W'"
    and fresh: "\<And>f w. W' f = Some w \<Longrightarrow> W f \<noteq> Some w \<Longrightarrow> 0 \<le> w \<and> k \<le> w \<and> w \<le> b_to b"
  shows "blocks_ok C CL (set_block k b' s) R' W'"
proof -
  have cov: "covered (set_block k b' s) x" if x: "covered s x" for x
  proof -
    from x obtain j c where j: "blk s j = Some c" "j \<le> x" "x \<le> b_to c" unfolding covered_def by blast
    show ?thesis
    proof (cases "j = k")
      case True
      with j k show ?thesis unfolding covered_def set_block_def by (intro exI [of _ k] exI [of _ b']) simp
    next
      case False
      with j show ?thesis unfolding covered_def set_block_def by (intro exI [of _ j] exI [of _ c]) simp
    qed
  qed
  have "0 \<le> w \<and> covered (set_block k b' s) w" if "W' f = Some w" for f w
  proof (cases "W f = Some w")
    case True
    with blocks_okD(4) [OF ok] cov show ?thesis by blast
  next
    case False
    with fresh [OF that] k(2) show ?thesis unfolding covered_def set_block_def by (intro conjI exI [of _ k] exI [of _ b']) simp_all
  qed
  moreover have "block_ok (disk s) C R' W' j c" if "blk (set_block k b' s) j = Some c" for j c
    using that b' block_ok_mono [OF blocks_okD(3) [OF ok] RW] by (auto simp: set_block_def split: if_splits)
  moreover have "body_complete s \<Longrightarrow> \<exists>c. blk (set_block k b' s) 0 = Some c \<and> CL \<le> b_to c"
    using ok k by (auto simp: blocks_ok_def set_block_def)
  ultimately show ?thesis
    using tree_ok_same_end [OF blocks_okD(1) [OF ok] k] by (simp add: blocks_ok_def set_block_def)
qed

lemma blocks_ok_insert:
  assumes laws: "rb_laws ops" and ok: "blocks_ok C CL s R W" and x: "0 \<le> x" and ins: "sbo_insert ops x s = (k, new_obj, s')"
  shows "blocks_ok C CL s' R W \<and> disk s' = disk s \<and> read_refs s' = read_refs s \<and> write_refs s' = write_refs s \<and>
    body_complete s' = body_complete s \<and> fp s' = fp s \<and> (\<exists>b. blk s' k = Some b \<and> k \<le> x \<and> x \<le> b_to b)"
proof (cases new_obj)
  case False
  with insert_tree_ok [OF laws blocks_okD(1) [OF ok] x ins] ok show ?thesis by simp
next
  case True
  note ins' = insert_tree_ok [OF laws blocks_okD(1) [OF ok] x ins]
  from ins'(3) [OF True] have k: "k = x" "blk s x = None"
    and s': "s' = s\<lparr>blocks := blocks s', blk := (blk s)(x \<mapsto> new_bblock x)\<rparr>" by blast+
  have m: "blk s' = (blk s)(x \<mapsto> new_bblock x)" "disk s' = disk s" "body_complete s' = body_complete s"
    "read_refs s' = read_refs s" "write_refs s' = write_refs s" "fp s' = fp s"
    by (subst s', simp)+
  have "block_ok (disk s) C R W x (new_bblock x)" using x by (simp add: block_ok_def new_bblock_def writers_of_def)
  then have "\<forall>j c. blk s' j = Some c \<longrightarrow> block_ok (disk s) C R W j c" using blocks_okD(3) [OF ok] m(1) by simp
  moreover have "covered s' w" if "covered s w" for w
    using that k(2) m(1) unfolding covered_def by (metis fun_upd_other option.distinct(1))
  moreover have "body_complete s \<Longrightarrow> \<exists>c. blk s' 0 = Some c \<and> CL \<le> b_to c"
    using ok k(2) m(1) by (auto simp: blocks_ok_def)
  ultimately have "blocks_ok C CL s' R W"
    using ok ins'(1) m by (auto simp: blocks_ok_def)
  with m ins'(2) show ?thesis by simp
qed


section \<open>Operations keep the invariant\<close>

lemma open_file_handle_ok [simp]:
  "blocks_ok C CL (open_file_handle opens s) R W = blocks_ok C CL s R W"
  "refs_ok (open_file_handle opens s) R W = refs_ok s R W"
  by (simp_all add: blocks_ok_def refs_ok_def open_file_handle_def tree_ok_def covered_def)

lemma blocks_ok_fields [simp]:
  "blocks_ok C CL (s\<lparr>read_refs := n\<rparr>) R W = blocks_ok C CL s R W"
  "blocks_ok C CL (s\<lparr>write_refs := n\<rparr>) R W = blocks_ok C CL s R W"
  "blocks_ok C CL (s\<lparr>fp := h\<rparr>) R W = blocks_ok C CL s R W"
  by (simp_all add: blocks_ok_def tree_ok_def covered_def)

lemma refs_ok_fields [simp]:
  "refs_ok (set_block k b s) R W = refs_ok s R W" "refs_ok (s\<lparr>fp := h\<rparr>) R W = refs_ok s R W"
  by (simp_all add: refs_ok_def set_block_def)

lemma block_ok_no_writer:
  "block_ok d C R W k b \<Longrightarrow> W f = None \<Longrightarrow> f \<notin> set (writers_of b)"
  by (metis block_okD(6) option.distinct(1))

lemma open_write_ok:
  assumes "rb_laws ops" "blocks_ok C CL s R W" "refs_ok s R W" "W f = None" "0 \<le> from"
  shows "\<exists>s'. open_write ops f opens from s = Some (from, s') \<and> blocks_ok C CL s' R (W(f \<mapsto> from)) \<and> refs_ok s' R (W(f \<mapsto> from))"
proof -
  obtain k new_obj s1 where ins: "sbo_insert ops from (open_file_handle opens s) = (k, new_obj, s1)" by (metis prod_cases3)
  from blocks_ok_insert [OF assms(1) _ assms(5) ins, of C CL R W] assms(2) obtain b where
    s1: "blocks_ok C CL s1 R W" "read_refs s1 = read_refs s" "write_refs s1 = write_refs s"
    and b: "blk s1 k = Some b" "k \<le> from" "from \<le> b_to b" by (auto simp: open_file_handle_def)
  note bok = blocks_okD(3) [OF s1(1) b(1)]
  have nf: "f \<notin> set (writers_of b)" by (rule block_ok_no_writer [OF bok assms(4)])
  have le: "W \<subseteq>\<^sub>m W(f \<mapsto> from)" using assms(4) by (auto simp: map_le_def)
  have "block_ok (disk s1) C R (W(f \<mapsto> from)) k (b\<lparr>net_fiber := Some f\<rparr>)"
    using block_ok_mono [OF bok order_refl le] nf b
    by (auto simp: block_ok_def writers_of_def split: option.splits)
  then have "blocks_ok C CL (set_block k (b\<lparr>net_fiber := Some f\<rparr>) s1) R (W(f \<mapsto> from))"
    using b(2,3) assms(5) by (intro blocks_ok_update [OF s1(1) b(1) _ _ order_refl le]) (auto split: if_splits)
  then have "blocks_ok C CL (set_block k (b\<lparr>net_fiber := Some f\<rparr>) (s1\<lparr>write_refs := write_refs s1 + 1\<rparr>)) R (W(f \<mapsto> from))"
    by (simp add: blocks_ok_def set_block_def tree_ok_def covered_def)
  moreover have "refs_ok (set_block k (b\<lparr>net_fiber := Some f\<rparr>) (s1\<lparr>write_refs := write_refs s1 + 1\<rparr>)) R (W(f \<mapsto> from))"
    using assms(3,4) s1(2,3) by (simp add: refs_ok_def set_block_def domIff)
  moreover have "net_fiber b \<noteq> Some f" using nf by (auto simp: writers_of_def)
  ultimately show ?thesis using assms(5) ins b(1) by (simp add: open_write_def)
qed

text \<open>What a read hands out, and the writer it may make of the reader.\<close>

definition read_writers :: "fiber \<Rightarrow> int \<Rightarrow> read_ret \<Rightarrow> (fiber \<rightharpoonup> int) \<Rightarrow> fiber \<rightharpoonup> int" where
  "read_writers f offset ret W = (case ret of Fetch _ \<Rightarrow> W(f \<mapsto> offset) | _ \<Rightarrow> W)"

definition read_right :: "(int \<Rightarrow> char) \<Rightarrow> int \<Rightarrow> int \<Rightarrow> string \<Rightarrow> bool" where
  "read_right C from len data \<longleftrightarrow> data = file_bytes C from (int (length data)) \<and> int (length data) \<le> len"

lemma file_bytes_cong: "(\<And>i. from \<le> i \<Longrightarrow> i < from + n \<Longrightarrow> d i = C i) \<Longrightarrow> file_bytes d from n = file_bytes C from n"
  by (simp add: file_bytes_def)

lemma length_file_bytes [simp]: "length (file_bytes d from n) = nat n"
  by (simp add: file_bytes_def)

lemma touch_block_ok:
  "block_ok d C R W k b \<Longrightarrow> x \<le> b_to b \<Longrightarrow> block_ok d C R W k (if read_point b < x then b\<lparr>read_point := x\<rparr> else b)"
  by (auto simp: block_ok_def writers_of_def)

lemma read_block_ok:
  assumes laws: "rb_laws ops" and ok: "blocks_ok C CL s R W" "refs_ok s R W" and f: "f \<in> R" "net \<longrightarrow> W f = None"
    and b: "blk s k = Some b" "k \<le> x" "x \<le> b_to b" and x: "0 \<le> x" "0 \<le> len"
  shows "\<exists>ret s'. read_block ops f addr got x len net k b s = Some (ret, s') \<and> blocks_ok C CL s' R (read_writers f x ret W) \<and>
    refs_ok s' R (read_writers f x ret W) \<and> (\<forall>data. ret = Bytes data \<longrightarrow> read_right C x len data)"
proof -
  note bok = blocks_okD(3) [OF ok(1) b(1)]
  consider (data) "x < b_to b" | (none) "x = b_to b" "net_fiber b = None" "\<not> net"
    | (fetch) "x = b_to b" "net_fiber b = None" net | (wait) "x = b_to b" "net_fiber b \<noteq> None"
    using b(3) by fastforce
  then show ?thesis
  proof cases
    case data
    let ?n = "min got (min len (b_to b - x))"
    have "file_bytes (disk s) x ?n = file_bytes C x ?n"
      using b(2) by (intro file_bytes_cong block_okD(1) [OF bok]) auto
    then have "read_right C x len (file_bytes (disk s) x ?n)" if "0 \<le> got"
      using that x data by (simp add: read_right_def)
    with data b ok show ?thesis by (simp add: read_block_def Let_def read_writers_def not_less)
  next
    case none
    with b ok show ?thesis by (simp add: read_block_def read_writers_def)
  next
    case fetch
    then have W: "W f = None" using f(2) by simp
    then have le: "W \<subseteq>\<^sub>m W(f \<mapsto> x)" by (auto simp: map_le_def)
    let ?s = "set_block k (b\<lparr>net_fiber := Some f\<rparr>) (s\<lparr>write_refs := write_refs s + 1\<rparr>)"
    have "merged_net_fibers b = []" using block_okD(4) [OF bok fetch(2)] by simp
    then have "block_ok (disk s) C R (W(f \<mapsto> x)) k (b\<lparr>net_fiber := Some f\<rparr>)"
      using block_ok_mono [OF bok order_refl le] b by (auto simp: block_ok_def writers_of_def)
    then have "blocks_ok C CL (set_block k (b\<lparr>net_fiber := Some f\<rparr>) s) R (W(f \<mapsto> x))"
      using b x by (intro blocks_ok_update [OF ok(1) b(1) _ _ order_refl le]) (auto split: if_splits)
    then have ok': "blocks_ok C CL ?s R (W(f \<mapsto> x))" "refs_ok ?s R (W(f \<mapsto> x))"
      using ok(2) W by (simp_all add: blocks_ok_def set_block_def tree_ok_def covered_def refs_ok_def domIff)
    have "n - 1 \<ge> x" if "rb_succ ops (blocks s) k = Some n" for n
    proof -
      have "n \<in> dom (blk s)" "k < n" using rb_succ_next [OF laws blocks_okD(1) [OF ok(1)] b(1)] that by (simp_all add: next_of_def)
      then show ?thesis using apartD(3) [OF blocks_okD(2) [OF ok(1)] b(1)] fetch(1) by fastforce
    qed
    with fetch b ok' show ?thesis
      by (cases "rb_succ ops (blocks s) k") (simp_all add: read_block_def Let_def read_writers_def not_less)
  next
    case wait
    let ?b = "b\<lparr>wait_queue := wait_queue b @ [\<lparr>w_addr = addr, w_rq = f, w_from = x, w_length = len\<rparr>]\<rparr>"
    have "block_ok (disk s) C R W k ?b" using bok wait f(1) by (auto simp: block_ok_def writers_of_def)
    then have "blocks_ok C CL (set_block k ?b s) R W"
      by (intro blocks_ok_update [OF ok(1) b(1)]) auto
    with wait b ok show ?thesis by (auto simp: read_block_def read_writers_def)
  qed
qed

lemma sbo_read_ok:
  assumes laws: "rb_laws ops" and ok: "blocks_ok C CL s R W" "refs_ok s R W" and f: "f \<in> R" "net \<longrightarrow> W f = None" and x: "0 \<le> x" "0 \<le> len"
  shows "\<exists>ret s'. sbo_read ops f addr got x len net s = Some (ret, s') \<and> blocks_ok C CL s' R (read_writers f x ret W) \<and>
    refs_ok s' R (read_writers f x ret W) \<and> (\<forall>data. ret = Bytes data \<longrightarrow> read_right C x len data)"
proof (cases "fp s")
  case False
  with ok show ?thesis by (simp add: sbo_read_def read_writers_def)
next
  case True
  obtain nd s1 where nd: "(if net then (case sbo_insert ops x s of (k, new_obj, s) \<Rightarrow> (Some k, s))
      else (find_block_node (blk s) (blocks s) x, s)) = (nd, s1)" by fastforce
  have s1: "blocks_ok C CL s1 R W \<and> refs_ok s1 R W \<and> (\<forall>k. nd = Some k \<longrightarrow> (\<exists>b. blk s1 k = Some b \<and> k \<le> x \<and> x \<le> b_to b))"
  proof (cases net)
    case True
    obtain k new_obj s2 where ins: "sbo_insert ops x s = (k, new_obj, s2)" by (metis prod_cases3)
    with blocks_ok_insert [OF laws ok(1) x(1) ins] True nd ok(2) show ?thesis by (auto simp: refs_ok_def)
  next
    case False
    with nd ok find_block_node_iff [OF blocks_okD(1) [OF ok(1)]] show ?thesis by auto
  qed
  show ?thesis
  proof (cases nd)
    case None
    with True nd s1 show ?thesis by (simp add: sbo_read_def read_writers_def)
  next
    case (Some k)
    then obtain b0 where b0: "blk s1 k = Some b0" "k \<le> x" "x \<le> b_to b0" using s1 by blast
    let ?b = "if read_point b0 < x then b0\<lparr>read_point := x\<rparr> else b0"
    have ok1: "blocks_ok C CL s1 R W" "refs_ok s1 R W" using s1 by blast+
    have "block_ok (disk s1) C R W k ?b" using touch_block_ok [OF blocks_okD(3) [OF ok1(1) b0(1)] b0(3)] .
    then have s2: "blocks_ok C CL (set_block k ?b s1) R W" by (intro blocks_ok_update [OF ok1(1) b0(1)]) auto
    have step: "sbo_read ops f addr got x len net s = read_block ops f addr got x len net k ?b (set_block k ?b s1)"
      unfolding sbo_read_def nd using True Some b0 by (simp add: Let_def)
    show ?thesis unfolding step
      using s2 ok1(2) f x b0 by (intro read_block_ok [OF laws]) (simp_all add: set_block_def refs_ok_def)
  qed
qed

lemma set_addr_merge [simp]: "set (addr_merge xs ys) = set xs \<union> set ys"
  by (induction xs ys rule: addr_merge.induct) auto

lemma put_bytes_ok:
  assumes "blocks_ok C CL s R W" "buf = file_bytes C offset (int (length buf))"
  shows "blocks_ok C CL (s\<lparr>disk := put_bytes offset (take n buf) (disk s)\<rparr>) R W"
proof -
  have byte: "buf ! i = C (offset + int i)" if "i < length buf" for i
    using that by (subst assms(2)) (simp add: file_bytes_def)
  have "put_bytes offset (take n buf) (disk s) i = C i" if "disk s i = C i" for i
    using that byte [of "nat (i - offset)"] by (auto simp: put_bytes_def)
  then show ?thesis using assms(1) by (simp add: blocks_ok_def block_ok_def tree_ok_def covered_def)
qed

text \<open>The block \<open>k\<close> gets a new end, and the blocks it has swallowed are gone.\<close>

lemma blocks_ok_grow:
  assumes ok: "blocks_ok C CL s R W" and k: "blk s k = Some b" "b_to b \<le> b_to b'"
    and m: "blk s' = (blk s |` (- D))(k \<mapsto> b')" "disk s' = disk s" "body_complete s' = body_complete s"
    and t: "bst (blocks s')" "set_tree (blocks s') = dom (blk s')"
    and D: "\<And>j c. j \<in> D \<Longrightarrow> blk s j = Some c \<Longrightarrow> k < j \<and> b_to c \<le> b_to b'"
    and above: "\<And>j. j \<in> dom (blk s) \<Longrightarrow> j \<notin> D \<Longrightarrow> k < j \<Longrightarrow> b_to b' < j"
    and b': "block_ok (disk s) C R W k b'"
  shows "blocks_ok C CL s' R W"
proof -
  have old: "blk s j = Some c \<and> j \<notin> D" if "blk s' j = Some c" "j \<noteq> k" for j c
    using that by (auto simp: m(1) restrict_map_def split: if_splits)
  have k': "blk s' k = Some b'" by (simp add: m(1))
  have ap: "apart (blk s)" by (rule blocks_okD(2) [OF ok])
  have "b_to c < j'" if "blk s' j = Some c" "blk s' j' = Some c'" "j < j'" for j c j' c'
  proof (cases "j = k")
    case True
    with that k' old [of j' c'] above [of j'] show ?thesis by auto
  next
    case False
    have "\<exists>c''. blk s j' = Some c''" using that(2) old [of j' c'] k by (cases "j' = k") auto
    with False old [OF that(1)] apartD(3) [OF ap, of j c j'] that(3) show ?thesis by auto
  qed
  moreover have "0 \<le> j \<and> j \<le> b_to c" if "blk s' j = Some c" for j c
    using that old [of j c] k k' apartD(1,2) [OF ap, of j] by (cases "j = k") fastforce+
  ultimately have "tree_ok s'" using t unfolding tree_ok_def apart_def by blast
  moreover have "block_ok (disk s') C R W j c" if "blk s' j = Some c" for j c
    using that old [of j c] k' b' blocks_okD(3) [OF ok, of j c] m(2) by (cases "j = k") auto
  moreover have "covered s' x" if "covered s x" for x
  proof -
    from that obtain j c where j: "blk s j = Some c" "j \<le> x" "x \<le> b_to c" unfolding covered_def by blast
    show ?thesis
    proof (cases "j = k \<or> j \<in> D")
      case True
      with j k D [of j c] have "k \<le> x" "x \<le> b_to b'" by auto
      with k' show ?thesis unfolding covered_def by blast
    next
      case False
      with j have "blk s' j = Some c" by (simp add: m(1) restrict_map_def)
      with j show ?thesis unfolding covered_def by blast
    qed
  qed
  moreover have "\<exists>c. blk s' 0 = Some c \<and> CL \<le> b_to c" if "body_complete s'"
  proof -
    from that ok m(3) obtain c where c: "blk s 0 = Some c" "CL \<le> b_to c" by (auto simp: blocks_ok_def)
    have "0 \<notin> D" using D [of 0 c] c(1) apartD(1) [OF ap k(1)] by fastforce
    with c k show ?thesis by (cases "k = 0") (auto simp: m(1) restrict_map_def)
  qed
  ultimately show ?thesis using blocks_okD(4) [OF ok] unfolding blocks_ok_def by blast
qed

lemma blocks_ok_erased:
  assumes "rb_laws ops" "tree_ok s" "n \<in> dom (blk s)"
  shows "bst (rb_erase ops n (blocks s))" "set_tree (rb_erase ops n (blocks s)) = dom (blk s) - {n}"
proof -
  have bst: "bst (blocks s)" "set_tree (blocks s) = dom (blk s)" using assms(2) by (simp_all add: tree_ok_def)
  then have e: "inorder (rb_erase ops n (blocks s)) = remove1 n (inorder (blocks s))"
    using assms(1,3) unfolding rb_laws_def by blast
  have srt: "sorted_wrt (<) (inorder (blocks s))" by (rule bst_sorted [OF bst(1)])
  then have dist: "distinct (inorder (blocks s))" by (simp add: strict_sorted_iff)
  show "set_tree (rb_erase ops n (blocks s)) = dom (blk s) - {n}"
    using e bst(2) dist by (metis set_inorder set_remove1_eq)
  show "bst (rb_erase ops n (blocks s))"
    unfolding bst_iff_sorted_wrt_less e using srt dist
    by (simp add: strict_sorted_iff sorted_remove1 distinct_remove1)
qed

lemma restrict_UNIV: "m |` UNIV = m"
  by (simp add: restrict_map_def)

text \<open>What the merged block is: the blocks \<open>D\<close> are gone, its readers wait at its old end or at its new one.\<close>

definition merged_ok ::
  "(int \<Rightarrow> char) \<Rightarrow> fiber set \<Rightarrow> (fiber \<rightharpoonup> int) \<Rightarrow> sbo \<Rightarrow> int \<Rightarrow> bblock \<Rightarrow> int set \<Rightarrow> bblock \<Rightarrow> sbo \<Rightarrow> bool" where
  "merged_ok C R W s k b D b2 s2 \<longleftrightarrow>
     s2 = s\<lparr>blocks := blocks s2, blk := blk s |` (- D)\<rparr> \<and> bst (blocks s2) \<and> set_tree (blocks s2) = dom (blk s) - D \<and>
     b_to b < b_to b2 \<and> k \<notin> D \<and> (\<forall>j c. j \<in> D \<longrightarrow> blk s j = Some c \<longrightarrow> k < j \<and> b_to c \<le> b_to b2) \<and>
     (\<forall>j\<in>dom (blk s). j \<notin> D \<longrightarrow> k < j \<longrightarrow> b_to b2 < j) \<and>
     (\<forall>w\<in>set (wait_queue b2). (w_from w = b_to b \<or> w_from w = b_to b2) \<and> w_rq w \<in> R) \<and>
     block_ok (disk s) C R W k (b2\<lparr>wait_queue := []\<rparr>)"

lemma merge_next_ok:
  assumes laws: "rb_laws ops" and ok: "blocks_ok C CL s R W" and b: "blk s k = Some b" and e: "b_to b < e"
    and data: "\<And>i. k \<le> i \<Longrightarrow> i < e \<Longrightarrow> disk s i = C i"
  shows "\<exists>res D b2 s2. merge_next ops k (b\<lparr>b_to := e\<rparr>) s = Some (res, b2, s2) \<and> merged_ok C R W s k b D b2 s2 \<and>
    (res = KGL_OK \<longrightarrow> b_to b2 = e)"
proof -
  note bok = blocks_okD(3) [OF ok b] and tok = blocks_okD(1) [OF ok] and ap = blocks_okD(2) [OF ok]
  note nxt = rb_succ_next [OF laws tok b]
  have grown: "block_ok (disk s) C R W k (b\<lparr>b_to := e, wait_queue := []\<rparr>)"
  proof -
    have "\<exists>w. W f = Some w \<and> k \<le> w \<and> w \<le> e" if "f \<in> set (writers_of b)" for f
      using block_okD(6) [OF bok that] e by fastforce
    then show ?thesis using bok e data by (auto simp: block_ok_def writers_of_def)
  qed
  have plain: "merged_ok C R W s k b {} (b\<lparr>b_to := e\<rparr>) s" if "\<And>j. j \<in> dom (blk s) \<Longrightarrow> k < j \<Longrightarrow> e < j"
    using that tok e block_okD(3) [OF bok] grown by (auto simp: merged_ok_def tree_ok_def restrict_UNIV)
  show ?thesis
  proof (cases "rb_succ ops (blocks s) k")
    case None
    with nxt have "\<And>j. j \<in> dom (blk s) \<Longrightarrow> k < j \<Longrightarrow> e < j" by (auto simp: next_of_def)
    with None plain show ?thesis by (auto simp: merge_next_def)
  next
    case (Some n)
    with nxt have n: "n \<in> dom (blk s)" "k < n" "\<And>j. j \<in> dom (blk s) \<Longrightarrow> k < j \<Longrightarrow> n \<le> j" by (auto simp: next_of_def)
    then obtain nb where nb: "blk s n = Some nb" by blast
    show ?thesis
    proof (cases "n \<le> e")
      case False
      then have "\<And>j. j \<in> dom (blk s) \<Longrightarrow> k < j \<Longrightarrow> e < j" using n(3) by fastforce
      with Some nb False plain show ?thesis by (auto simp: merge_next_def)
    next
      case True
      note nbok = blocks_okD(3) [OF ok nb]
      have bn: "b_to b < n" using apartD(3) [OF ap b nb n(2)] .
      have nt: "n \<le> b_to nb" using apartD(2) [OF ap nb] .
      have disj: "set (writers_of b) \<inter> set (writers_of nb) = {}"
        using block_okD(6) [OF bok] block_okD(6) [OF nbok] bn by fastforce
      let ?take = "net_fiber nb \<noteq> None \<and> net_fiber nb \<noteq> net_fiber b"
      define b2 where "b2 = b\<lparr>b_to := b_to nb, wait_queue := addr_merge (wait_queue b) (wait_queue nb),
          net_fiber := (if ?take \<and> net_fiber b = None then net_fiber nb else net_fiber b),
          merged_net_fibers := (if ?take \<and> net_fiber b \<noteq> None then merged_net_fibers b @ [the (net_fiber nb)]
            else merged_net_fibers b) @ merged_net_fibers nb\<rparr>"
      let ?s2 = "s\<lparr>blocks := rb_erase ops n (blocks s), blk := (blk s)(n := None)\<rparr>"
      have step: "merge_next ops k (b\<lparr>b_to := e\<rparr>) s = Some (KGL_END, b2, ?s2)"
        using Some nb True block_okD(4) [OF nbok] by (auto simp: merge_next_def b2_def Let_def)
      have wr: "writers_of b2 = writers_of b @ writers_of nb"
        using disj block_okD(4) [OF bok] block_okD(4) [OF nbok] unfolding writers_of_def b2_def
        by (cases "net_fiber b"; cases "net_fiber nb") auto
      have none: "net_fiber b2 = None \<longleftrightarrow> net_fiber b = None \<and> net_fiber nb = None"
        by (auto simp: b2_def)
      have "disk s i = C i" if "k \<le> i" "i < b_to nb" for i
        using data [of i] block_okD(1) [OF nbok, of i] that True by (cases "i < e") auto
      moreover have "\<exists>w. W f = Some w \<and> k \<le> w \<and> w \<le> b_to nb" if "f \<in> set (writers_of b) \<union> set (writers_of nb)" for f
        using that block_okD(6) [OF bok, of f] block_okD(6) [OF nbok, of f] bn nt n(2) by fastforce
      moreover have "read_point b \<le> b_to nb" using block_okD(2) [OF bok] bn nt by simp
      moreover have "net_fiber b2 = None \<longrightarrow> merged_net_fibers b2 = []"
        unfolding none using block_okD(4) [OF bok] block_okD(4) [OF nbok] by (auto simp: b2_def)
      moreover have fields: "b_to b2 = b_to nb" "read_point b2 = read_point b" by (simp_all add: b2_def)
      moreover have "writers_of (b2\<lparr>wait_queue := []\<rparr>) = writers_of b @ writers_of nb" using wr by (simp add: writers_of_def)
      ultimately have "block_ok (disk s) C R W k (b2\<lparr>wait_queue := []\<rparr>)"
        using disj block_okD(5) [OF bok] block_okD(5) [OF nbok] by (simp add: block_ok_def)
      moreover have "\<forall>w\<in>set (wait_queue b2). (w_from w = b_to b \<or> w_from w = b_to b2) \<and> w_rq w \<in> R"
        using block_okD(3) [OF bok] block_okD(3) [OF nbok] by (auto simp: b2_def)
      moreover have "b_to nb < j" if "j \<in> dom (blk s)" "j \<noteq> n" "k < j" for j
        using n(3) [OF that(1,3)] that(1,2) apartD(3) [OF ap nb, of j] by fastforce
      moreover have "(blk s)(n := None) = blk s |` (- {n})" by (auto simp: restrict_map_def)
      ultimately have "merged_ok C R W s k b {n} b2 ?s2"
        using blocks_ok_erased [OF laws tok n(1)] bn nt n(2) nb fields by (simp add: merged_ok_def)
      with step show ?thesis by blast
    qed
  qed
qed

lemma file_bytes_at:
  assumes "buf = file_bytes C offset (int (length buf))" "offset \<le> i" "i < offset + int (length buf)"
  shows "buf ! nat (i - offset) = C i"
proof -
  have "file_bytes C offset (int (length buf)) ! nat (i - offset) = C (offset + int (nat (i - offset)))"
    unfolding file_bytes_def using assms(2,3) by (subst nth_map) simp_all
  with assms(1,2) show ?thesis by simp
qed

lemma serve_right:
  assumes "buf = file_bytes C offset (int (length buf))" "serve offset buf w = Got data"
  shows "read_right C (w_from w) (w_length w) data \<and> data \<noteq> []"
proof -
  let ?st = "w_from w - offset"
  let ?n = "min (w_length w) (int (length buf) - ?st)"
  have st: "0 \<le> ?st" "?st < int (length buf)" "0 < ?n" and data: "data = take (nat ?n) (drop (nat ?st) buf)"
    using assms(2) by (auto simp: serve_def Let_def split: if_splits)
  have len: "length data = nat ?n" using st by (simp add: data)
  have "data ! i = C (w_from w + int i)" if "i < length data" for i
  proof -
    have "nat ?st + i < length buf" using that st by (simp add: data)
    then have "buf ! (nat ?st + i) = C (offset + int (nat ?st + i))"
      by (subst assms(1)) (simp add: file_bytes_def)
    then show ?thesis using that st(1) by (simp add: data)
  qed
  then have "data = file_bytes C (w_from w) (int (length data))"
    by (intro nth_equalityI) (simp_all add: file_bytes_def)
  moreover have "int (length data) \<le> w_length w" "data \<noteq> []" using len st(3) by auto
  ultimately show ?thesis by (simp add: read_right_def)
qed

lemma sbo_write_ok:
  assumes laws: "rb_laws ops" and ok: "blocks_ok C CL s R W" "refs_ok s R W"
    and buf: "buf = file_bytes C offset (int (length buf))" and cov: "covered s offset"
  shows "\<exists>res wake delay s'. sbo_write ops seeks wrote offset buf s = Some (res, wake, delay, s') \<and>
    blocks_ok C CL s' R W \<and> refs_ok s' R W \<and> (\<forall>(w, a)\<in>set wake. \<forall>data. a = Got data \<longrightarrow> read_right C (w_from w) (w_length w) data) \<and>
    (res = KGL_OK \<longrightarrow> covered s' (offset + int (length buf)))"
proof (cases "fp s \<and> seeks")
  case False
  then have "sbo_write ops seeks wrote offset buf s = Some (KGL_EIO, [], 0, s)" by (auto simp: sbo_write_def)
  with ok show ?thesis by simp
next
  case True
  let ?s = "s\<lparr>disk := put_bytes offset (take wrote buf) (disk s)\<rparr>"
  have ok1: "blocks_ok C CL ?s R W" "refs_ok ?s R W" using put_bytes_ok [OF ok(1) buf] ok(2) by (simp_all add: refs_ok_def)
  show ?thesis
  proof (cases "wrote < length buf")
    case short: True
    then have "sbo_write ops seeks wrote offset buf s = Some (KGL_EIO, [], 0, ?s)" using True by (simp add: sbo_write_def Let_def)
    with ok1 show ?thesis by simp
  next
    case full: False
    from cov obtain k b where b: "blk s k = Some b" "k \<le> offset" "offset \<le> b_to b" unfolding covered_def by blast
    have found: "find_block_node (blk s) (blocks s) offset = Some k"
      using find_block_node_iff [OF blocks_okD(1) [OF ok(1)]] b by blast
    have bk: "blk ?s k = Some b" using b(1) by simp
    let ?e = "offset + int (length buf)"
    show ?thesis
    proof (cases "?e \<le> b_to b")
      case True
      then have "sbo_write ops seeks wrote offset buf s = Some (KGL_OK, [], 0, ?s)"
        using \<open>fp s \<and> seeks\<close> full found b(1) by (simp add: sbo_write_def Let_def)
      moreover have "covered ?s ?e" using True b unfolding covered_def by (intro exI [of _ k] exI [of _ b]) simp
      ultimately show ?thesis using ok1 by simp
    next
      case grow: False
      note bok = blocks_okD(3) [OF ok1(1) bk]
      have byte: "disk ?s i = C i" if "k \<le> i" "i < ?e" for i
      proof (cases "i < offset")
        case True
        then show ?thesis using block_okD(1) [OF bok that(1)] b(3) by simp
      next
        case False
        then have "buf ! nat (i - offset) = C i" using that by (intro file_bytes_at [OF buf]) simp_all
        with False that full show ?thesis by (simp add: put_bytes_def)
      qed
      have "b_to b < ?e" using grow by simp
      from merge_next_ok [OF laws ok1(1) bk this byte] obtain res D b2 s2 where
        mg: "merge_next ops k (b\<lparr>b_to := ?e\<rparr>) ?s = Some (res, b2, s2)" "merged_ok C R W ?s k b D b2 s2"
        "res = KGL_OK \<longrightarrow> b_to b2 = ?e" by blast
      note m = mg(2) [unfolded merged_ok_def]
      have s2: "blk s2 = blk s |` (- D)" "disk s2 = disk ?s" "body_complete s2 = body_complete s" "read_refs s2 = read_refs s"
        "write_refs s2 = write_refs s"
        by (subst conjunct1 [OF m], simp)+
      let ?ready = "\<lambda>w. w_from w < b_to b2 \<or> net_fiber b2 = None"
      let ?b3 = "b2\<lparr>wait_queue := filter (\<lambda>w. \<not> ?ready w) (wait_queue b2)\<rparr>"
      have "w_from w = b_to b2 \<and> w_rq w \<in> R" if "w \<in> set (wait_queue ?b3)" for w using that m by fastforce
      then have b3: "block_ok (disk ?s) C R W k ?b3"
        using m by (auto simp: block_ok_def writers_of_def filter_empty_conv)
      have blk3: "blk (set_block k ?b3 s2) = (blk ?s |` (- D))(k \<mapsto> ?b3)" by (simp add: set_block_def s2(1))
      have "blocks_ok C CL (set_block k ?b3 s2) R W"
      proof (rule blocks_ok_grow [OF ok1(1) bk _ blk3 _ _ _ _ _ _ b3])
        show "set_tree (blocks (set_block k ?b3 s2)) = dom (blk (set_block k ?b3 s2))"
          using m bk by (auto simp: set_block_def s2(1))
      qed (use m in \<open>auto simp: set_block_def s2\<close>)
      moreover have "refs_ok (set_block k ?b3 s2) R W" using ok(2) s2 by (simp add: refs_ok_def set_block_def)
      moreover have "\<not> (wait_queue b2 \<noteq> [] \<and> read_refs s2 \<le> 0)"
      proof
        assume a: "wait_queue b2 \<noteq> [] \<and> read_refs s2 \<le> 0"
        then have "w_rq (hd (wait_queue b2)) \<in> R" using m by auto
        with a ok(2) s2(4) show False by (auto simp: refs_ok_def card_eq_0_iff)
      qed
      moreover have "\<not> ?e - read_point b < 0" using block_okD(2) [OF bok] grow by simp
      ultimately have "\<exists>delay. sbo_write ops seeks wrote offset buf s =
          Some (res, map (\<lambda>w. (w, serve offset buf w)) (filter ?ready (wait_queue b2)), delay, set_block k ?b3 s2)"
        using \<open>fp s \<and> seeks\<close> full found b(1) grow mg(1) by (simp add: sbo_write_def Let_def)
      moreover have "covered (set_block k ?b3 s2) ?e" if "res = KGL_OK"
        using that mg(3) b grow unfolding covered_def set_block_def by (intro exI [of _ k] exI [of _ ?b3]) simp
      ultimately show ?thesis
        using \<open>blocks_ok C CL (set_block k ?b3 s2) R W\<close> \<open>refs_ok (set_block k ?b3 s2) R W\<close> serve_right [OF buf] by auto
    qed
  qed
qed

section \<open>Closing\<close>

definition block_list :: "sbo \<Rightarrow> (int \<times> int) list" where
  "block_list s = map (\<lambda>k. (k, b_to (the (blk s k)))) (inorder (blocks s))"

lemma find_sorted_next:
  "sorted_wrt (<) (xs @ y # ys) \<Longrightarrow> find (\<lambda>n. (y :: int) < n) (xs @ y # ys) = find (\<lambda>n. True) ys"
proof -
  assume srt: "sorted_wrt (<) (xs @ y # ys)"
  then have "find (\<lambda>n. y < n) xs = None" by (auto simp: find_None_iff sorted_wrt_append)
  moreover from srt have "find (\<lambda>n. y < n) ys = find (\<lambda>n. True) ys" by (cases ys) (auto simp: sorted_wrt_append)
  ultimately show ?thesis by (simp add: find_append)
qed

lemma progress_walk_list:
  assumes laws: "rb_laws ops" and tok: "tree_ok s"
  shows "inorder (blocks s) = xs @ ys \<Longrightarrow>
    progress_walk ops s (find (\<lambda>n. True) ys) = Some (map (\<lambda>k. (k, b_to (the (blk s k)))) ys)"
proof (induction ys arbitrary: xs)
  case Nil
  then show ?case by (subst progress_walk.simps) simp
next
  case (Cons y ys)
  have bst: "bst (blocks s)" "set_tree (blocks s) = dom (blk s)" using tok by (simp_all add: tree_ok_def)
  have y: "y \<in> set_tree (blocks s)" using Cons.prems by (metis in_set_conv_decomp set_inorder)
  then obtain b where b: "blk s y = Some b" using bst(2) by auto
  have "rb_succ ops (blocks s) y = find (\<lambda>n. y < n) (inorder (blocks s))" using laws bst(1) y unfolding rb_laws_def by blast
  then have "rb_succ ops (blocks s) y = find (\<lambda>n. True) ys"
    using find_sorted_next [of xs y ys] bst_sorted [OF bst(1)] Cons.prems by simp
  moreover have "progress_walk ops s (find (\<lambda>n. True) ys) = Some (map (\<lambda>k. (k, b_to (the (blk s k)))) ys)"
    using Cons.IH [of "xs @ [y]"] Cons.prems by simp
  ultimately show ?case using b by (subst progress_walk.simps) simp
qed

lemma save_progress_list:
  assumes "rb_laws ops" "tree_ok s"
  shows "save_progress ops s = Some (block_list s)"
proof -
  have "rb_first ops (blocks s) = find (\<lambda>n. True) (inorder (blocks s))"
    using assms unfolding rb_laws_def tree_ok_def by blast
  with progress_walk_list [OF assms, of "[]"] show ?thesis by (simp add: save_progress_def block_list_def)
qed

lemma sbo_close_ok:
  assumes "rb_laws ops" "tree_ok s"
  shows "\<exists>saved h. sbo_close ops obj s = Some (saved, s\<lparr>fp := h\<rparr>) \<and> (saved = None \<or> saved = Some (block_list s))"
  using save_progress_list [OF assms] by (auto simp: sbo_close_def intro: exI [of _ "fp s"])

lemma block_ok_less_readers:
  assumes "block_ok d C R W k b" "\<And>w. w \<in> set (wait_queue b) \<Longrightarrow> w_rq w \<noteq> f"
  shows "block_ok d C (R - {f}) W k b"
  using assms unfolding block_ok_def by blast

lemma close_read_ok:
  assumes laws: "rb_laws ops" and ok: "blocks_ok C CL s R W" "refs_ok s R W" and f: "f \<in> R" "o_progress obj"
    and idle: "\<And>k b w. blk s k = Some b \<Longrightarrow> w \<in> set (wait_queue b) \<Longrightarrow> w_rq w \<noteq> f"
  shows "\<exists>saved s'. close_read ops obj s = Some (saved, s') \<and> blocks_ok C CL s' (R - {f}) W \<and> refs_ok s' (R - {f}) W"
proof -
  let ?s = "s\<lparr>read_refs := read_refs s - 1\<rparr>"
  have card: "0 < card R" using f ok(2) by (auto simp: refs_ok_def card_gt_0_iff)
  have "blocks_ok C CL s (R - {f}) W"
    using ok(1) block_ok_less_readers idle unfolding blocks_ok_def by blast
  moreover have "refs_ok ?s (R - {f}) W" using ok(2) f(1) card by (auto simp: refs_ok_def card_Diff_singleton)
  moreover obtain saved h where "sbo_close ops obj ?s = Some (saved, ?s\<lparr>fp := h\<rparr>)"
    using sbo_close_ok [OF laws, of ?s obj] blocks_okD(1) [OF ok(1)] by (auto simp: tree_ok_def)
  moreover have "\<not> read_refs s - 1 < 0" using card ok(2) by (auto simp: refs_ok_def)
  ultimately show ?thesis using f(2) by (simp add: close_read_def del: sbo.simps)
qed

lemma drop_writer_ok:
  assumes bok: "block_ok d C R W k b" and drop: "drop_writer f b = (removed, b')"
  shows "set (writers_of b') = set (writers_of b) - {f}" "distinct (writers_of b')" "removed \<longleftrightarrow> f \<in> set (writers_of b)"
    "b' = b\<lparr>net_fiber := net_fiber b', merged_net_fibers := merged_net_fibers b'\<rparr>"
    "net_fiber b' = None \<longrightarrow> merged_net_fibers b' = []"
  using block_okD(4,5) [OF bok] drop
  by (auto simp: drop_writer_def writers_of_def split: option.splits list.splits if_splits)

lemma block_ok_less_writers:
  assumes "block_ok d C R W k b" "f \<notin> set (writers_of b)"
  shows "block_ok d C R (W(f := None)) k b"
  using assms unfolding block_ok_def by (metis fun_upd_other)

lemma blocks_ok_drop:
  assumes ok: "blocks_ok C CL s R W" and b: "blk s k = Some b" "b_to b' = b_to b"
    and b': "block_ok (disk s) C R (W(f := None)) k b'"
    and others: "\<And>j c. blk s j = Some c \<Longrightarrow> j \<noteq> k \<Longrightarrow> f \<notin> set (writers_of c)"
  shows "blocks_ok C CL (set_block k b' s) R (W(f := None))"
proof -
  have "covered (set_block k b' s) x" if "covered s x" for x
    using that b unfolding covered_def set_block_def by (auto split: if_splits)
  moreover have "block_ok (disk s) C R (W(f := None)) j c" if "blk (set_block k b' s) j = Some c" for j c
    using that b' block_ok_less_writers [OF blocks_okD(3) [OF ok, of j c] others] by (cases "j = k") (auto simp: set_block_def)
  ultimately show ?thesis
    using ok b tree_ok_same_end [OF blocks_okD(1) [OF ok] b] unfolding blocks_ok_def
    by (auto simp: set_block_def split: if_splits)
qed

lemma close_write_ok:
  assumes laws: "rb_laws ops" and ok: "blocks_ok C CL s R W" "refs_ok s R W" and f: "W f = Some w" and CL: "CL = o_content_length obj"
  shows "\<exists>obj' change notice saved s'. close_write ops f adds obj w s = Some (obj', change, notice, saved, s') \<and>
    blocks_ok C CL s' R (W(f := None)) \<and> refs_ok s' R (W(f := None)) \<and> o_content_length obj' = CL \<and> o_progress obj' = o_progress obj \<and>
    (\<forall>k b. blk s k = Some b \<longrightarrow> k \<le> w \<longrightarrow> w \<le> b_to b \<longrightarrow> notice = fst (stop_writer f k b))"
proof -
  from blocks_okD(4) [OF ok(1) f] obtain k b where w: "0 \<le> w" and b: "blk s k = Some b" "k \<le> w" "w \<le> b_to b"
    unfolding covered_def by blast
  have found: "find_block_node (blk s) (blocks s) w = Some k" using find_block_node_iff [OF blocks_okD(1) [OF ok(1)]] b by blast
  note bok = blocks_okD(3) [OF ok(1) b(1)]
  have others: "f \<notin> set (writers_of c)" if c: "blk s j = Some c" "j \<noteq> k" for j c
    using block_okD(6) [OF blocks_okD(3) [OF ok(1) c(1)], of f] f c apart_unique [OF blocks_okD(2) [OF ok(1)] c(1) b(1), of w] b(2,3)
    by auto
  obtain removed b1 where drop: "drop_writer f b = (removed, b1)" by fastforce
  note d = drop_writer_ok [OF bok drop]
  define stop where "stop = (removed \<and> net_fiber b1 = None)"
  define b2 where "b2 = (if stop then b1\<lparr>read_point := k, wait_queue := []\<rparr> else b1)"
  have b1: "b_to b1 = b_to b" "wait_queue b1 = wait_queue b" "read_point b1 = read_point b" by (subst d(4), simp)+
  have same: "net_fiber b1 = net_fiber b" if "\<not> removed" using drop that by (auto simp: drop_writer_def split: if_splits)
  have "block_ok (disk s) C R (W(f := None)) k b2"
  proof -
    have "writers_of b2 = writers_of b1" by (simp add: b2_def writers_of_def)
    moreover have "b_to b2 = b_to b" using b1 by (simp add: b2_def)
    moreover have "read_point b2 \<le> b_to b" using block_okD(2) [OF bok] b1 b by (simp add: b2_def)
    moreover have "wait_queue b2 = [] \<or> wait_queue b2 = wait_queue b" using b1 by (simp add: b2_def)
    moreover have "net_fiber b2 = None \<longrightarrow> wait_queue b2 = [] \<and> merged_net_fibers b2 = []"
      using d(5) same block_okD(4) [OF bok] b1 by (cases removed) (auto simp: b2_def stop_def)
    moreover have "\<exists>v. (W(f := None)) g = Some v \<and> k \<le> v \<and> v \<le> b_to b" if "g \<in> set (writers_of b1)" for g
      using that block_okD(6) [OF bok, of g] d(1) by auto
    ultimately show ?thesis using block_okD(1,3) [OF bok] d(2) unfolding block_ok_def by auto
  qed
  then have main: "blocks_ok C CL (set_block k b2 s) R (W(f := None))"
    using b1 by (intro blocks_ok_drop [OF ok(1) b(1)] others) (simp_all add: b2_def)
  have gone: "stop_writer f k b = (if stop then wait_queue b1 else [], b2)"
    by (simp add: stop_writer_def drop stop_def b2_def)
  let ?full = "k = 0 \<and> b_to b2 \<ge> o_content_length obj"
  let ?s = "set_block k b2 (s\<lparr>body_complete := (body_complete s \<or> ?full), write_refs := write_refs s - 1\<rparr>)"
  have s': "blocks_ok C CL ?s R (W(f := None))"
    using main b1 CL unfolding blocks_ok_def tree_ok_def covered_def set_block_def by auto
  have card: "0 < card (dom W)" using f ok(2) by (auto simp: refs_ok_def card_gt_0_iff)
  have refs: "refs_ok ?s R (W(f := None))" using ok(2) domI [of W f, OF f] card by (auto simp: refs_ok_def set_block_def card_Diff_singleton)
  let ?o = "if (?full \<and> \<not> body_complete s) \<and> o_in_cache obj then obj\<lparr>o_in_disk := \<not> adds, o_dead := True\<rparr> else obj"
  obtain saved h where close: "sbo_close ops ?o ?s = Some (saved, ?s\<lparr>fp := h\<rparr>)"
    using sbo_close_ok [OF laws blocks_okD(1) [OF s'], of ?o] by blast
  have "\<not> write_refs s \<le> 0" using card ok(2) by (auto simp: refs_ok_def)
  then have "close_write ops f adds obj w s =
      Some (?o, (?full \<and> \<not> body_complete s) \<and> o_in_cache ?o \<and> adds, if stop then wait_queue b1 else [], saved, ?s\<lparr>fp := h\<rparr>)"
    unfolding close_write_def Let_def using iffD2 [OF not_less w]
    by (simp only: found b(1) gone close bind.bind_lunit prod.case if_False simp_thms)
  moreover have "fst (stop_writer f k' b') = (if stop then wait_queue b1 else [])"
    if "blk s k' = Some b'" "k' \<le> w" "w \<le> b_to b'" for k' b'
    using apart_unique [OF blocks_okD(2) [OF ok(1)] that(1) b(1) that(2,3) b(2,3)] that(1) b(1) gone by simp
  ultimately show ?thesis using s' refs CL by simp
qed

section \<open>Runs\<close>

record bsys =
  sys_sbo :: sbo
  sys_obj :: sobj
  readers :: "fiber set"
  writers :: "fiber \<rightharpoonup> int"

definition idle :: "fiber \<Rightarrow> sbo \<Rightarrow> bool" where
  "idle f s \<longleftrightarrow> (\<forall>k b. blk s k = Some b \<longrightarrow> (\<forall>w\<in>set (wait_queue b). w_rq w \<noteq> f))"

type_synonym delivery = "fiber \<times> int \<times> int \<times> string"

definition read_delivers :: "fiber \<Rightarrow> int \<Rightarrow> int \<Rightarrow> read_ret \<Rightarrow> delivery list" where
  "read_delivers f offset len ret = (case ret of Bytes d \<Rightarrow> [(f, offset, len, d)] | _ \<Rightarrow> [])"

definition wake_delivers :: "(waiter \<times> wakeup) list \<Rightarrow> delivery list" where
  "wake_delivers wake = [(w_rq w, w_from w, w_length w, d). (w, Got d) \<leftarrow> wake]"

text \<open>
  One operation of one fiber. A fiber reads only when it does not wait, has at most one open writer, closes
  with the offset it opened with, and writes the content of the object.
\<close>

inductive bo_step :: "rb_ops \<Rightarrow> (int \<Rightarrow> char) \<Rightarrow> bsys \<Rightarrow> delivery list \<Rightarrow> bsys \<Rightarrow> bool" for ops C where
  open_read: "f \<notin> readers c \<Longrightarrow>
    bo_step ops C c [] (c\<lparr>sys_sbo := open_read opens (sys_sbo c), readers := insert f (readers c)\<rparr>)"
| close_read: "f \<in> readers c \<Longrightarrow> idle f (sys_sbo c) \<Longrightarrow> close_read ops (sys_obj c) (sys_sbo c) = Some (saved, s) \<Longrightarrow>
    bo_step ops C c [] (c\<lparr>sys_sbo := s, readers := readers c - {f}\<rparr>)"
| read: "f \<in> readers c \<Longrightarrow> idle f (sys_sbo c) \<Longrightarrow> net \<longrightarrow> writers c f = None \<Longrightarrow> 0 \<le> offset \<Longrightarrow> 0 \<le> len \<Longrightarrow>
    sbo_read ops f addr got offset len net (sys_sbo c) = Some (ret, s) \<Longrightarrow>
    bo_step ops C c (read_delivers f offset len ret) (c\<lparr>sys_sbo := s, writers := read_writers f offset ret (writers c)\<rparr>)"
| open_write: "writers c f = None \<Longrightarrow> open_write ops f opens from (sys_sbo c) = Some (from, s) \<Longrightarrow>
    bo_step ops C c [] (c\<lparr>sys_sbo := s, writers := (writers c)(f \<mapsto> from)\<rparr>)"
| sbo_write: "writers c f = Some w \<Longrightarrow> buf = file_bytes C offset (int (length buf)) \<Longrightarrow>
    sbo_write ops seeks wrote offset buf (sys_sbo c) = Some (res, wake, delay, s) \<Longrightarrow>
    bo_step ops C c (wake_delivers wake) (c\<lparr>sys_sbo := s\<rparr>)"
| close_write: "writers c f = Some w \<Longrightarrow>
    close_write ops f adds (sys_obj c) w (sys_sbo c) = Some (obj, change, notice, saved, s) \<Longrightarrow>
    bo_step ops C c [] (c\<lparr>sys_sbo := s, sys_obj := obj, writers := (writers c)(f := None)\<rparr>)"

inductive bo_run :: "rb_ops \<Rightarrow> (int \<Rightarrow> char) \<Rightarrow> bsys \<Rightarrow> delivery list \<Rightarrow> bsys \<Rightarrow> bool" for ops C where
  start: "bo_run ops C c [] c"
| step: "bo_run ops C c ds c1 \<Longrightarrow> bo_step ops C c1 ds' c2 \<Longrightarrow> bo_run ops C c (ds @ ds') c2"

definition start_sys :: "(int \<Rightarrow> char) \<Rightarrow> sobj \<Rightarrow> bsys" where
  "start_sys d obj = \<lparr>sys_sbo = (new_sbo d)\<lparr>fp := True\<rparr>, sys_obj = obj, readers = {}, writers = Map.empty\<rparr>"

definition sys_ok :: "(int \<Rightarrow> char) \<Rightarrow> bsys \<Rightarrow> bool" where
  "sys_ok C c \<longleftrightarrow> blocks_ok C (o_content_length (sys_obj c)) (sys_sbo c) (readers c) (writers c) \<and>
     refs_ok (sys_sbo c) (readers c) (writers c) \<and> o_progress (sys_obj c)"

lemma start_ok: "o_progress obj \<Longrightarrow> sys_ok C (start_sys d obj)"
  by (simp add: sys_ok_def start_sys_def new_sbo_def blocks_ok_def refs_ok_def tree_ok_def apart_def)

lemma open_read_ok:
  assumes "blocks_ok C CL s R W" "refs_ok s R W" "f \<notin> R"
  shows "blocks_ok C CL (open_read opens s) (insert f R) W" "refs_ok (open_read opens s) (insert f R) W"
proof -
  have "block_ok (disk s) C (insert f R) W k b" if "blk s k = Some b" for k b
    by (rule block_ok_mono [OF blocks_okD(3) [OF assms(1) that]]) auto
  then have "blocks_ok C CL s (insert f R) W" using assms(1) unfolding blocks_ok_def by blast
  then show "blocks_ok C CL (open_read opens s) (insert f R) W" by (simp add: open_read_def)
  show "refs_ok (open_read opens s) (insert f R) W"
    using assms(2,3) by (simp add: open_read_def) (simp add: refs_ok_def)
qed

lemma sbo_write_uncovered:
  assumes "blocks_ok C CL s R W" "\<not> covered s offset"
  shows "sbo_write ops seeks wrote offset buf s =
    (if \<not> fp s \<or> \<not> seeks then Some (KGL_EIO, [], 0, s)
     else if wrote < length buf then Some (KGL_EIO, [], 0, s\<lparr>disk := put_bytes offset (take wrote buf) (disk s)\<rparr>)
     else None)"
proof -
  have "find_block_node (blk s) (blocks s) offset = None"
    using assms(2) find_block_node_None [OF blocks_okD(1) [OF assms(1)]] by (auto simp: covered_def)
  then show ?thesis by (simp add: sbo_write_def Let_def)
qed

lemma sbo_write_keeps:
  assumes laws: "rb_laws ops" and ok: "blocks_ok C CL s R W" "refs_ok s R W" and buf: "buf = file_bytes C offset (int (length buf))"
    and w: "sbo_write ops seeks wrote offset buf s = Some (res, wake, delay, s')"
  shows "blocks_ok C CL s' R W \<and> refs_ok s' R W \<and> (\<forall>(w, a)\<in>set wake. \<forall>data. a = Got data \<longrightarrow> read_right C (w_from w) (w_length w) data)"
proof (cases "covered s offset")
  case True
  with sbo_write_ok [OF laws ok buf True, of seeks wrote] w show ?thesis by auto
next
  case False
  with sbo_write_uncovered [OF ok(1) False, of ops seeks wrote buf] w put_bytes_ok [OF ok(1) buf] ok show ?thesis
    by (auto simp: refs_ok_def split: if_splits)
qed

lemma bo_step_ok:
  assumes laws: "rb_laws ops" and step: "bo_step ops C c ds c'" and ok: "sys_ok C c"
  shows "sys_ok C c' \<and> (\<forall>(f, from, len, data)\<in>set ds. read_right C from len data)"
  using step
proof cases
  case (open_read f opens)
  with ok show ?thesis by (auto simp: sys_ok_def intro: open_read_ok)
next
  case (close_read f saved s)
  with ok close_read_ok [OF laws, of C "o_content_length (sys_obj c)" "sys_sbo c" "readers c" "writers c" f "sys_obj c"]
  show ?thesis by (auto simp: sys_ok_def idle_def)
next
  case (read f net offset len addr got ret s)
  with ok sbo_read_ok [OF laws, of C "o_content_length (sys_obj c)" "sys_sbo c" "readers c" "writers c" f net offset len addr got]
  show ?thesis by (auto simp: sys_ok_def read_delivers_def split: read_ret.splits)
next
  case (open_write f opens x s)
  then have "0 \<le> x" by (auto simp: open_write_def split: if_splits)
  with open_write ok open_write_ok [OF laws, of C "o_content_length (sys_obj c)" "sys_sbo c" "readers c" "writers c" f x opens]
  show ?thesis by (auto simp: sys_ok_def)
next
  case (sbo_write f w buf offset seeks wrote res wake delay s)
  with ok sbo_write_keeps [OF laws _ _ sbo_write(4,5), of "o_content_length (sys_obj c)" "readers c" "writers c"]
  show ?thesis by (fastforce simp: sys_ok_def wake_delivers_def)
next
  case (close_write f w adds obj change notice saved s)
  with ok close_write_ok [OF laws, of C "o_content_length (sys_obj c)" "sys_sbo c" "readers c" "writers c" f w "sys_obj c" adds]
  show ?thesis by (auto simp: sys_ok_def)
qed

lemma bo_run_ok:
  assumes "rb_laws ops"
  shows "bo_run ops C c ds c' \<Longrightarrow> sys_ok C c \<Longrightarrow> sys_ok C c' \<and> (\<forall>(f, from, len, data)\<in>set ds. read_right C from len data)"
proof (induction rule: bo_run.induct)
  case (step c ds c1 ds' c2)
  with bo_step_ok [OF assms step(2)] show ?case by auto
qed simp

text \<open>
  C1. Whatever readers and writers do with a big object at the same time, a reader gets the bytes of the
  object: each piece handed out by a read, or by the write that wakes a reader, is the content of the
  object at the offset that was asked for, and not longer than asked for.
\<close>

theorem big_object_reads_right:
  assumes "rb_laws ops" "o_progress obj" "bo_run ops C (start_sys d obj) ds c"
  shows "\<forall>(f, from, len, data)\<in>set ds. data = file_bytes C from (int (length data)) \<and> int (length data) \<le> len"
  using bo_run_ok [OF assms(1,3) start_ok [OF assms(2)]] by (simp add: read_right_def)

text \<open>
  C11. No reader is forgotten: a reader that waits is in the queue of a block that has a writer, this writer
  has the object open, and when the last writer of the block closes it, the reader is woken.
\<close>

theorem big_object_reader_woken:
  assumes "rb_laws ops" "o_progress obj" "bo_run ops C (start_sys d obj) ds c"
    and "blk (sys_sbo c) k = Some b" "w \<in> set (wait_queue b)"
  shows "\<exists>f x. net_fiber b = Some f \<and> writers c f = Some x \<and>
    (\<forall>adds. merged_net_fibers b = [] \<longrightarrow> (\<exists>obj' change notice saved s'.
       close_write ops f adds (sys_obj c) x (sys_sbo c) = Some (obj', change, notice, saved, s') \<and> w \<in> set notice))"
proof -
  have ok: "sys_ok C c" using bo_run_ok [OF assms(1,3) start_ok [OF assms(2)]] by blast
  then have blocks: "blocks_ok C (o_content_length (sys_obj c)) (sys_sbo c) (readers c) (writers c)"
    and refs: "refs_ok (sys_sbo c) (readers c) (writers c)" by (simp_all add: sys_ok_def)
  note bok = blocks_okD(3) [OF blocks assms(4)]
  from block_okD(4) [OF bok] assms(5) obtain f where f: "net_fiber b = Some f" by fastforce
  then have "f \<in> set (writers_of b)" by (simp add: writers_of_def)
  then obtain x where x: "writers c f = Some x" "k \<le> x" "x \<le> b_to b" using block_okD(6) [OF bok] by blast
  have "\<exists>obj' change notice saved s'. close_write ops f adds (sys_obj c) x (sys_sbo c) = Some (obj', change, notice, saved, s') \<and> w \<in> set notice"
    if "merged_net_fibers b = []" for adds
  proof -
    have "fst (stop_writer f k b) = wait_queue b" using f that by (simp add: stop_writer_def drop_writer_def)
    with close_write_ok [OF assms(1) blocks refs x(1) refl, of adds] assms(4,5) x(2,3) show ?thesis by fastforce
  qed
  with f x(1) show ?thesis by blast
qed

text \<open>
  C32. The assertions of the operations hold in every state that can arise: opening, reading and closing
  return, and so does a write at an offset that lies in a block or at its end.
\<close>

theorem big_object_asserts:
  assumes "rb_laws ops" "o_progress obj" "bo_run ops C (start_sys d obj) ds c"
  shows "(\<forall>f opens from. writers c f = None \<longrightarrow> 0 \<le> from \<longrightarrow> open_write ops f opens from (sys_sbo c) \<noteq> None) \<and>
    (\<forall>f addr got x len net. f \<in> readers c \<longrightarrow> (net \<longrightarrow> writers c f = None) \<longrightarrow> 0 \<le> x \<longrightarrow> 0 \<le> len \<longrightarrow>
       sbo_read ops f addr got x len net (sys_sbo c) \<noteq> None) \<and>
    (\<forall>f. f \<in> readers c \<longrightarrow> idle f (sys_sbo c) \<longrightarrow> close_read ops (sys_obj c) (sys_sbo c) \<noteq> None) \<and>
    (\<forall>f x adds. writers c f = Some x \<longrightarrow> close_write ops f adds (sys_obj c) x (sys_sbo c) \<noteq> None) \<and>
    (\<forall>seeks wrote x n. covered (sys_sbo c) x \<longrightarrow> sbo_write ops seeks wrote x (file_bytes C x (int n)) (sys_sbo c) \<noteq> None)"
proof -
  have ok: "sys_ok C c" using bo_run_ok [OF assms(1,3) start_ok [OF assms(2)]] by blast
  then have blocks: "blocks_ok C (o_content_length (sys_obj c)) (sys_sbo c) (readers c) (writers c)"
    and refs: "refs_ok (sys_sbo c) (readers c) (writers c)" and prog: "o_progress (sys_obj c)" by (simp_all add: sys_ok_def)
  have "open_write ops f opens from (sys_sbo c) \<noteq> None" if "writers c f = None" "0 \<le> from" for f opens "from"
    using open_write_ok [OF assms(1) blocks refs that, of opens] by auto
  moreover have "sbo_read ops f addr got x len net (sys_sbo c) \<noteq> None"
    if "f \<in> readers c" "net \<longrightarrow> writers c f = None" "0 \<le> x" "0 \<le> len" for f addr got x len net
    using sbo_read_ok [OF assms(1) blocks refs that, of addr got] by auto
  moreover have "close_read ops (sys_obj c) (sys_sbo c) \<noteq> None" if "f \<in> readers c" "idle f (sys_sbo c)" for f
    using close_read_ok [OF assms(1) blocks refs that(1) prog] that(2) by (auto simp: idle_def)
  moreover have "close_write ops f adds (sys_obj c) x (sys_sbo c) \<noteq> None" if "writers c f = Some x" for f x adds
    using close_write_ok [OF assms(1) blocks refs that refl, of adds] by auto
  moreover have "sbo_write ops seeks wrote x (file_bytes C x (int n)) (sys_sbo c) \<noteq> None" if "covered (sys_sbo c) x" for seeks wrote x n
    using sbo_write_ok [OF assms(1) blocks refs _ that, of "file_bytes C x (int n)" seeks wrote] by auto
  ultimately show ?thesis by blast
qed

section \<open>A writer that runs past the next block\<close>

text \<open>
  C33. When a writer reaches the next block in the middle of a piece and the piece is longer than that block,
  the merged block ends where the next block ended, although the piece was written further. The stream
  takes the result \<^verbatim>\<open>KGL_END\<close> for success and goes on behind the piece, where there is no block: the
  next write fails an assertion (and uses a null pointer where assertions are off).
\<close>

theorem writer_past_next_block:
  assumes laws: "rb_laws ops" and ok: "blocks_ok C CL s R W" "refs_ok s R W" "fp s" and st: "\<not> read_fiber_error st"
    and b: "blk s k = Some b" "bo_offset st = b_to b" and nb: "rb_succ ops (blocks s) k = Some n" "blk s n = Some nb"
    and buf: "buf = file_bytes C (b_to b) (int (length buf))"
    and past: "n \<le> b_to b + int (length buf)" "b_to nb < b_to b + int (length buf)" "\<not> covered s (b_to b + int (length buf))"
  shows "\<exists>wake st' s'. bo_write ops True (length buf) True None buf st s = Some (KGL_OK, wake, st', s') \<and>
    (\<forall>buf'. bo_write ops True (length buf') True None buf' st' s' = None)"
proof -
  let ?e = "b_to b + int (length buf)"
  note tok = blocks_okD(1) [OF ok(1)] and ap = blocks_okD(2) [OF ok(1)]
  have kn: "k < n" using rb_succ_next [OF laws tok b(1)] nb(1) by (simp add: next_of_def)
  have bn: "b_to b < n" by (rule apartD(3) [OF ap b(1) nb(2) kn])
  have kb: "k \<le> b_to b" by (rule apartD(2) [OF ap b(1)])
  have found: "find_block_node (blk s) (blocks s) (b_to b) = Some k" using find_block_node_iff [OF tok] b(1) kb by blast
  have cov: "covered s (b_to b)" unfolding covered_def using b(1) kb by blast
  from sbo_write_ok [OF laws ok(1,2) buf cov, of True "length buf"] obtain res wake delay s' where
    w: "sbo_write ops True (length buf) (b_to b) buf s = Some (res, wake, delay, s')" "blocks_ok C CL s' R W" by blast
  have s': "res = KGL_END" "fp s'" "\<And>j c. j \<noteq> k \<Longrightarrow> blk s' j = Some c \<Longrightarrow> blk s j = Some c" "\<And>c. blk s' k = Some c \<Longrightarrow> b_to c = b_to nb"
    using w(1) ok(3) found b(1) nb bn past(1)
    by (auto simp: sbo_write_def merge_next_def Let_def set_block_def bind_eq_Some_conv split: if_splits)
  have unc: "\<not> covered s' ?e"
  proof
    assume "covered s' ?e"
    then obtain j c where j: "blk s' j = Some c" "j \<le> ?e" "?e \<le> b_to c" unfolding covered_def by blast
    show False
    proof (cases "j = k")
      case True
      with j s'(4) [of c] past(2) show False by simp
    next
      case False
      with j s'(3) past(3) show False unfolding covered_def by blast
    qed
  qed
  let ?st = "st\<lparr>bo_offset := ?e, send_fiber := True\<rparr>"
  have "bo_write ops True (length buf) True None buf st s = Some (KGL_OK, wake, ?st, s')"
    using st w(1) s'(1) b(2) by (cases st) (simp add: bo_write_def Let_def)
  moreover have "bo_write ops True (length buf') True None buf' ?st s' = None" for buf'
    using st s'(2) sbo_write_uncovered [OF w(2) unc] by (simp add: bo_write_def Let_def)
  ultimately show ?thesis by blast
qed

section \<open>Ranges and progress\<close>

text \<open>A range that begins behind the cached bytes and ends before the next block touches no cached byte.\<close>

definition range_free :: "sbo \<Rightarrow> brange \<Rightarrow> bool" where
  "range_free s r \<longleftrightarrow> (snd r = -1 \<or> fst r \<le> snd r) \<and>
     (\<forall>k b i. blk s k = Some b \<longrightarrow> k \<le> i \<longrightarrow> i < b_to b \<longrightarrow> fst r \<le> i \<longrightarrow> snd r \<noteq> -1 \<and> snd r < i)"

lemma range_free_next:
  assumes "next_of (blk s) j nxt" "\<And>k b. blk s k = Some b \<Longrightarrow> k \<le> j \<Longrightarrow> b_to b \<le> x" "y = -1 \<or> x \<le> y" "0 \<le> x"
    "\<And>n. nxt = Some n \<Longrightarrow> x < n"
  shows "range_free s (case nxt of None \<Rightarrow> (x, y) | Some n \<Rightarrow> snd (fix_if_range_to (x, y) n))"
proof -
  have j: "j < k" if "blk s k = Some b" "k \<le> i" "i < b_to b" "x \<le> i" for k b i
    using assms(2) [OF that(1)] that by fastforce
  show ?thesis
  proof (cases nxt)
    case None
    then show ?thesis using assms(1,3) j by (fastforce simp: range_free_def next_of_def)
  next
    case (Some n)
    have "n \<le> k" if "blk s k = Some b" "k \<le> i" "i < b_to b" "x \<le> i" for k b i
      using assms(1) Some j [OF that] that(1) by (auto simp: next_of_def)
    then show ?thesis using assms(3-5) Some by (fastforce simp: range_free_def fix_if_range_to_def)
  qed
qed

lemma create_if_range_gap:
  assumes tok: "tree_ok s" and None: "find_block_node (blk s) (blocks s) x = None" and r: "0 \<le> x" "y = -1 \<or> x \<le> y"
  shows "\<exists>st r'. create_if_range ops s (x, y) None = Some (st, r') \<and> st \<noteq> kgl_satisfy_all \<and> fst r' = x \<and> range_free s r'"
proof -
  let ?n = "find_next_block_node (blk s) (blocks s) x None"
  note out = None [unfolded find_block_node_None [OF tok]] and nxt = find_next_next [OF tok None]
  have "b_to b \<le> x" if "blk s k = Some b" "k \<le> x" for k b using out that by fastforce
  moreover have "x < n" if "?n = Some n" for n using nxt that by (simp add: next_of_def)
  ultimately have "range_free s (case ?n of None \<Rightarrow> (x, y) | Some n \<Rightarrow> snd (fix_if_range_to (x, y) n))"
    using range_free_next [OF nxt _ r(2,1)] by blast
  then show ?thesis by (auto simp: create_if_range_def fix_if_range_to_def split: option.splits)
qed

lemma create_if_range_block:
  assumes laws: "rb_laws ops" and tok: "tree_ok s" and b: "blk s k = Some b" and r: "y = -1 \<or> b_to b \<le> y"
  shows "\<exists>r'. create_if_range ops s (x, y) (Some k) = Some (kgl_satisfy_part, r') \<and> fst r' = b_to b \<and> range_free s r'"
proof -
  let ?n = "rb_succ ops (blocks s) k"
  have ap: "apart (blk s)" using tok by (simp add: tree_ok_def)
  note nxt = rb_succ_next [OF laws tok b]
  have "b_to c \<le> b_to b" if "blk s j = Some c" "j \<le> k" for j c
    using that b apartD(3) [OF ap that(1) b] apartD(2) [OF ap b] by (cases "j = k") auto
  moreover have "b_to b < n" if "?n = Some n" for n using nxt that apartD(3) [OF ap b] by (auto simp: next_of_def)
  ultimately have "range_free s (case ?n of None \<Rightarrow> (b_to b, y) | Some n \<Rightarrow> snd (fix_if_range_to (b_to b, y) n))"
    using range_free_next [OF nxt _ r] apartD(1,2) [OF ap b] by fastforce
  then show ?thesis using b by (auto simp: create_if_range_def fix_if_range_to_def Let_def split: option.splits)
qed

text \<open>
  \<^verbatim>\<open>can_satisfy\<close> is right: when it says that a range is cached, every byte of the range is in the file;
  otherwise the bytes before the range it asks for are in the file, and the range it asks for touches no
  cached byte.
\<close>

theorem can_satisfy_right:
  assumes laws: "rb_laws ops" and ok: "blocks_ok C (o_content_length obj) s R W" and r: "0 \<le> x" "y = -1 \<or> x \<le> y"
  shows "\<exists>st r'. can_satisfy ops (Some (x, y)) obj s = Some (st, Some r') \<and>
    (if st = kgl_satisfy_all then \<forall>i. x \<le> i \<and> i < o_content_length obj \<and> (y = -1 \<or> i \<le> y) \<longrightarrow> disk s i = C i
     else x \<le> fst r' \<and> (\<forall>i. x \<le> i \<and> i < fst r' \<longrightarrow> disk s i = C i) \<and> range_free s r')"
proof -
  note tok = blocks_okD(1) [OF ok]
  consider (complete) "body_complete s"
    | (gap) "\<not> body_complete s" "find_block_node (blk s) (blocks s) x = None"
    | (block) k where "\<not> body_complete s" "find_block_node (blk s) (blocks s) x = Some k" by fastforce
  then show ?thesis
  proof cases
    case complete
    then obtain b where "blk s 0 = Some b" "o_content_length obj \<le> b_to b" using ok by (auto simp: blocks_ok_def)
    with complete r block_okD(1) [OF blocks_okD(3) [OF ok]] show ?thesis by (fastforce simp: can_satisfy_def)
  next
    case gap
    with create_if_range_gap [OF tok gap(2) r, of ops] show ?thesis by (fastforce simp: can_satisfy_def)
  next
    case block
    then obtain b where b: "blk s k = Some b" "k \<le> x" "x \<le> b_to b" using find_block_node_iff [OF tok] by blast
    have data: "disk s i = C i" if "x \<le> i" "i < b_to b" for i
      using block_okD(1) [OF blocks_okD(3) [OF ok b(1)]] that b(2) by simp
    show ?thesis
    proof (cases "b_to b \<noteq> x \<and> (b_to b \<ge> o_content_length obj \<or> y \<ge> 0 \<and> b_to b > y)")
      case True
      then have "can_satisfy ops (Some (x, y)) obj s = Some (kgl_satisfy_all, Some (x, y))"
        using block b by (auto simp: can_satisfy_def)
      then show ?thesis using True data r by auto
    next
      case False
      then have "can_satisfy ops (Some (x, y)) obj s = do { (st, r') \<leftarrow> create_if_range ops s (x, y) (Some k); Some (st, Some r') }"
        using block b by (auto simp: can_satisfy_def)
      moreover have "y = -1 \<or> b_to b \<le> y" using False r b by auto
      ultimately show ?thesis using create_if_range_block [OF laws tok b(1), of y x] data b(3) by auto
    qed
  qed
qed

lemma strict_sorted_snoc:
  "sorted_wrt (<) xs \<Longrightarrow> sorted_wrt (<) ys \<Longrightarrow> set ys = insert (a :: int) (set xs) \<Longrightarrow> \<forall>x\<in>set xs. x < a \<Longrightarrow> ys = xs @ [a]"
  by (rule strict_sorted_equal) (auto simp: sorted_wrt_append)

lemma restore_step:
  assumes laws: "rb_laws ops" and tok: "tree_ok s" and r: "0 \<le> a" "a \<le> e" and new: "\<forall>k b. blk s k = Some b \<longrightarrow> b_to b < a"
  shows "\<exists>s1. sbo_insert ops a s = (a, True, s1) \<and> tree_ok (set_block a ((new_bblock a)\<lparr>b_to := e\<rparr>) s1) \<and>
    block_list (set_block a ((new_bblock a)\<lparr>b_to := e\<rparr>) s1) = block_list s @ [(a, e)] \<and>
    blk (set_block a ((new_bblock a)\<lparr>b_to := e\<rparr>) s1) = (blk s)(a \<mapsto> (new_bblock a)\<lparr>b_to := e\<rparr>)"
proof -
  let ?b = "(new_bblock a)\<lparr>b_to := e\<rparr>"
  have ap: "apart (blk s)" using tok by (simp add: tree_ok_def)
  have "find_block_node (blk s) (blocks s) a = None" unfolding find_block_node_None [OF tok] using new by fastforce
  then obtain s1 where ins: "sbo_insert ops a s = (a, True, s1)" by (simp add: sbo_insert_def)
  note i = insert_tree_ok [OF laws tok r(1) ins]
  have s1: "blk s1 = (blk s)(a \<mapsto> new_bblock a)" by (subst conjunct2 [OF conjunct2 [OF i(3)]]) simp_all
  have m: "blk (set_block a ?b s1) = (blk s)(a \<mapsto> ?b)" by (simp add: set_block_def s1)
  have below: "k < a" if "blk s k = Some b" for k b using new that apartD(2) [OF ap that] by fastforce
  have "apart ((blk s)(a \<mapsto> ?b))"
    unfolding apart_def using ap new below r by (auto simp: apart_def split: if_splits) (metis less_asym below)+
  then have ok: "tree_ok (set_block a ?b s1)" using i(1) m by (auto simp: tree_ok_def set_block_def s1)
  have srt: "sorted_wrt (<) (inorder (blocks s))" "sorted_wrt (<) (inorder (blocks s1))"
    using tok i(1) by (simp_all add: tree_ok_def bst_iff_sorted_wrt_less)
  have "set (inorder (blocks s)) = dom (blk s)" "set (inorder (blocks s1)) = insert a (dom (blk s))"
    using tok i(1) s1 by (simp_all add: tree_ok_def)
  then have "inorder (blocks s1) = inorder (blocks s) @ [a]" using strict_sorted_snoc [OF srt, of a] below by auto
  moreover have "a \<notin> set (inorder (blocks s))" using \<open>set (inorder (blocks s)) = dom (blk s)\<close> below by fastforce
  ultimately have "block_list (set_block a ?b s1) = block_list s @ [(a, e)]"
    by (auto simp: block_list_def set_block_def s1 new_bblock_def)
  with ins ok m show ?thesis by blast
qed

lemma restore_list:
  assumes laws: "rb_laws ops"
  shows "tree_ok s \<Longrightarrow> sorted_wrt (\<lambda>p q. snd p < fst q) ps \<Longrightarrow> \<forall>(a, e)\<in>set ps. 0 \<le> a \<and> a \<le> e \<Longrightarrow>
    (\<And>k b. blk s k = Some b \<Longrightarrow> \<forall>(a, e)\<in>set ps. b_to b < a) \<Longrightarrow>
    \<exists>s'. restore_loop ops ps 0 s = (True, s') \<and> tree_ok s' \<and> block_list s' = block_list s @ ps"
proof (induction ps arbitrary: s)
  case (Cons p ps)
  obtain a e where p: "p = (a, e)" by fastforce
  have r: "0 \<le> a" "a \<le> e" and new: "\<forall>k b. blk s k = Some b \<longrightarrow> b_to b < a" using Cons.prems(3,4) p by auto
  let ?b = "(new_bblock a)\<lparr>b_to := e\<rparr>"
  from restore_step [OF laws Cons.prems(1) r new] obtain s1 where
    s1: "sbo_insert ops a s = (a, True, s1)" "tree_ok (set_block a ?b s1)"
    "block_list (set_block a ?b s1) = block_list s @ [(a, e)]" "blk (set_block a ?b s1) = (blk s)(a \<mapsto> ?b)" by blast
  have "\<forall>(a', e')\<in>set ps. b_to c < a'" if "blk (set_block a ?b s1) k = Some c" for k c
  proof (cases "k = a")
    case True
    with that have "b_to c = e" by (auto simp: s1(4))
    with Cons.prems(2) p show ?thesis by auto
  next
    case False
    with that Cons.prems(4) [of k c] show ?thesis by (simp add: s1(4))
  qed
  with Cons.IH [OF s1(2)] Cons.prems(2,3) obtain s' where
    "restore_loop ops ps 0 (set_block a ?b s1) = (True, s')" "tree_ok s'" "block_list s' = block_list (set_block a ?b s1) @ ps"
    by auto
  with s1 r p show ?case by (auto simp: not_less)
qed simp

text \<open>
  The progress of an interrupted download survives: what is saved when the last user closes the object is
  read back as the same blocks.
\<close>

theorem progress_roundtrip:
  assumes "rb_laws ops" "o_progress obj" "bo_run ops C (start_sys d obj) ds c"
  shows "\<exists>saved s'. save_progress ops (sys_sbo c) = Some saved \<and> restore_loop ops saved 0 (new_sbo d') = (True, s') \<and>
    block_list s' = block_list (sys_sbo c) \<and> tree_ok s'"
proof -
  have "blocks_ok C (o_content_length (sys_obj c)) (sys_sbo c) (readers c) (writers c)"
    using bo_run_ok [OF assms(1,3) start_ok [OF assms(2)]] by (simp add: sys_ok_def)
  then have tok: "tree_ok (sys_sbo c)" and ap: "apart (blk (sys_sbo c))" by (rule blocks_okD)+
  have srt: "sorted_wrt (<) (inorder (blocks (sys_sbo c)))" and keys: "set (inorder (blocks (sys_sbo c))) = dom (blk (sys_sbo c))"
    using tok by (simp_all add: tree_ok_def bst_iff_sorted_wrt_less)
  have "sorted_wrt (\<lambda>p q. snd p < fst q) (block_list (sys_sbo c))"
    unfolding block_list_def sorted_wrt_map
    by (rule sorted_wrt_mono_rel [OF _ srt]) (use keys apartD(3) [OF ap] in fastforce)
  moreover have "\<forall>(a, e)\<in>set (block_list (sys_sbo c)). 0 \<le> a \<and> a \<le> e"
    using keys apartD(1,2) [OF ap] by (fastforce simp: block_list_def)
  moreover have "tree_ok (new_sbo d')" "block_list (new_sbo d') = []"
    by (simp_all add: tree_ok_def new_sbo_def apart_def block_list_def)
  ultimately obtain s' where "restore_loop ops (block_list (sys_sbo c)) 0 (new_sbo d') = (True, s')"
    "tree_ok s'" "block_list s' = block_list (sys_sbo c)"
    using restore_list [OF assms(1), of "new_sbo d'" "block_list (sys_sbo c)"] by (auto simp: new_sbo_def)
  with save_progress_list [OF assms(1) tok] show ?thesis by blast
qed

section \<open>An example\<close>

text \<open>A tree that is a list, and an object of equal bytes.\<close>

fun chain_tree :: "int list \<Rightarrow> int tree" where
  "chain_tree [] = Leaf"
| "chain_tree (k # ks) = Node Leaf k (chain_tree ks)"

definition chain_rb :: rb_ops where
  "chain_rb = \<lparr>insert_color = (\<lambda>k t. t), rb_erase = (\<lambda>k t. chain_tree (remove1 k (inorder t))),
     rb_succ = (\<lambda>t k. find (\<lambda>n. k < n) (inorder t)), rb_first = (\<lambda>t. find (\<lambda>n. True) (inorder t))\<rparr>"

lemma inorder_chain_tree [simp]: "inorder (chain_tree ks) = ks"
  by (induction ks) auto

lemma chain_rb_laws: "rb_laws chain_rb"
  by (simp add: rb_laws_def chain_rb_def)

definition demo_obj :: sobj where
  "demo_obj = \<lparr>o_content_length = 10, o_content_range_length = 10, o_has_content_range = False, o_in_disk = True,
     o_progress = True, o_dead = False, o_in_cache = True\<rparr>"

definition demo_content :: "int \<Rightarrow> char" where
  "demo_content i = (if i mod 2 = 0 then CHR ''a'' else CHR ''b'')"

definition demo_start :: bsys where
  "demo_start = start_sys (\<lambda>i. CHR '' '') demo_obj"

text \<open>Fiber 1 reads and waits for fiber 2, which has opened the object to write.\<close>

definition demo_waiting :: bsys where
  "demo_waiting = \<lparr>sys_sbo = \<lparr>blocks = Node Leaf 0 Leaf,
       blk = [0 \<mapsto> \<lparr>b_to = 0, read_point = 0, wait_queue = [\<lparr>w_addr = 7, w_rq = 1, w_from = 0, w_length = 4\<rparr>],
                   net_fiber = Some 2, merged_net_fibers = []\<rparr>],
       body_complete = False, read_refs = 1, write_refs = 1, fp = True, disk = (\<lambda>i. CHR '' '')\<rparr>,
     sys_obj = demo_obj, readers = {1}, writers = [2 \<mapsto> 0]\<rparr>"

lemma demo_run_waiting: "bo_run chain_rb demo_content demo_start [] demo_waiting"
proof -
  let ?c1 = "demo_start\<lparr>sys_sbo := open_read False (sys_sbo demo_start), readers := insert 1 (readers demo_start)\<rparr>"
  have 1: "bo_step chain_rb demo_content demo_start [] ?c1"
    by (rule bo_step.open_read) (simp add: demo_start_def start_sys_def)
  let ?s2 = "(sys_sbo ?c1)\<lparr>blocks := Node Leaf 0 Leaf, blk := [0 \<mapsto> (new_bblock 0)\<lparr>net_fiber := Some 2\<rparr>], write_refs := 1\<rparr>"
  let ?c2 = "?c1\<lparr>sys_sbo := ?s2, writers := (writers ?c1)(2 \<mapsto> 0)\<rparr>"
  have 2: "bo_step chain_rb demo_content ?c1 [] ?c2"
    by (rule bo_step.open_write [where opens = False])
      (simp_all add: demo_start_def start_sys_def open_write_def sbo_insert_def new_sbo_def open_read_def open_file_handle_def
        set_block_def new_bblock_def chain_rb_def)
  have read: "sbo_read chain_rb 1 7 0 0 4 False (sys_sbo ?c2) = Some (Wait, sys_sbo demo_waiting)"
    by (simp add: sbo_read_def read_block_def demo_start_def start_sys_def new_sbo_def open_read_def open_file_handle_def
        set_block_def new_bblock_def demo_waiting_def Let_def)
  have "bo_step chain_rb demo_content ?c2 (read_delivers 1 0 4 Wait)
      (?c2\<lparr>sys_sbo := sys_sbo demo_waiting, writers := read_writers 1 0 Wait (writers ?c2)\<rparr>)"
    by (rule bo_step.read [OF _ _ _ _ _ read])
      (simp_all add: idle_def demo_start_def start_sys_def new_bblock_def)
  moreover have "?c2\<lparr>sys_sbo := sys_sbo demo_waiting, writers := read_writers 1 0 Wait (writers ?c2)\<rparr> = demo_waiting"
    by (simp add: demo_waiting_def demo_start_def start_sys_def read_writers_def)
  ultimately have 3: "bo_step chain_rb demo_content ?c2 [] demo_waiting" by (simp add: read_delivers_def)
  show ?thesis
    using bo_run.step [OF bo_run.step [OF bo_run.step [OF bo_run.start 1] 2] 3] by simp
qed

text \<open>The write wakes the reader.\<close>

lemma demo_run_woken: "\<exists>c. bo_run chain_rb demo_content demo_start [(1, 0, 4, ''aba'')] c"
proof -
  have w: "\<exists>delay s. sbo_write chain_rb True 3 0 ''aba'' (sys_sbo demo_waiting) =
      Some (KGL_OK, [(\<lparr>w_addr = 7, w_rq = 1, w_from = 0, w_length = 4\<rparr>, Got ''aba'')], delay, s)"
    by (simp add: sbo_write_def merge_next_def demo_waiting_def chain_rb_def serve_def Let_def eval_nat_numeral)
  have "''aba'' = file_bytes demo_content 0 (int (length ''aba''))"
    by (simp add: file_bytes_def demo_content_def eval_nat_numeral upt_rec)
  from bo_step.sbo_write [where c = demo_waiting and f = 2 and w = 0, OF _ this] w
  obtain c where "bo_step chain_rb demo_content demo_waiting (wake_delivers [(\<lparr>w_addr = 7, w_rq = 1, w_from = 0, w_length = 4\<rparr>, Got ''aba'')]) c"
    by (fastforce simp: demo_waiting_def)
  from bo_run.step [OF demo_run_waiting this] show ?thesis by (auto simp: wake_delivers_def)
qed

theorem big_object_reads_right_witness:
  "\<exists>ds. (1, 0, 4, ''aba'') \<in> set ds \<and>
     (\<forall>(f, from, len, data)\<in>set ds. data = file_bytes demo_content from (int (length data)) \<and> int (length data) \<le> len)"
proof -
  obtain c where "bo_run chain_rb demo_content demo_start [(1, 0, 4, ''aba'')] c" using demo_run_woken by blast
  from big_object_reads_right [OF chain_rb_laws _ this [unfolded demo_start_def]]
  show ?thesis by (intro exI [of _ "[(1, 0, 4, ''aba'')]"]) (simp add: demo_obj_def)
qed

theorem big_object_reader_woken_witness:
  "\<exists>f x. writers demo_waiting f = Some x \<and>
    (\<exists>obj' change notice saved s'. close_write chain_rb f True (sys_obj demo_waiting) x (sys_sbo demo_waiting) =
       Some (obj', change, notice, saved, s') \<and> \<lparr>w_addr = 7, w_rq = 1, w_from = 0, w_length = 4\<rparr> \<in> set notice)"
proof -
  have prog: "o_progress demo_obj" by (simp add: demo_obj_def)
  have b: "blk (sys_sbo demo_waiting) 0 = Some (the (blk (sys_sbo demo_waiting) 0))"
    "\<lparr>w_addr = 7, w_rq = 1, w_from = 0, w_length = 4\<rparr> \<in> set (wait_queue (the (blk (sys_sbo demo_waiting) 0)))"
    "merged_net_fibers (the (blk (sys_sbo demo_waiting) 0)) = []"
    by (simp_all add: demo_waiting_def)
  from big_object_reader_woken [OF chain_rb_laws prog demo_run_waiting [unfolded demo_start_def] b(1,2)] b(3)
  show ?thesis by blast
qed

theorem big_object_asserts_witness:
  "open_write chain_rb 3 True 5 (sys_sbo demo_waiting) \<noteq> None \<and> close_write chain_rb 2 True (sys_obj demo_waiting) 0 (sys_sbo demo_waiting) \<noteq> None"
proof -
  have prog: "o_progress demo_obj" by (simp add: demo_obj_def)
  have w: "writers demo_waiting 3 = None" "writers demo_waiting 2 = Some 0" by (simp_all add: demo_waiting_def)
  from big_object_asserts [OF chain_rb_laws prog demo_run_waiting [unfolded demo_start_def]] w
  show ?thesis by auto
qed

theorem progress_roundtrip_witness:
  "\<exists>saved s'. save_progress chain_rb (sys_sbo demo_waiting) = Some saved \<and>
     restore_loop chain_rb saved 0 (new_sbo demo_content) = (True, s') \<and> block_list s' = [(0, 0)] \<and> tree_ok s'"
proof -
  have prog: "o_progress demo_obj" by (simp add: demo_obj_def)
  have "block_list (sys_sbo demo_waiting) = [(0, 0)]" by (simp add: block_list_def demo_waiting_def)
  with progress_roundtrip [OF chain_rb_laws prog demo_run_waiting [unfolded demo_start_def]] show ?thesis by simp
qed

text \<open>Two blocks: \<open>[0, 2)\<close> with a writer, and \<open>[3, 4)\<close> that a request for a small range has left.\<close>

definition demo_two :: sbo where
  "demo_two = \<lparr>blocks = Node Leaf 0 (Node Leaf 3 Leaf),
     blk = [0 \<mapsto> \<lparr>b_to = 2, read_point = 0, wait_queue = [], net_fiber = Some 2, merged_net_fibers = []\<rparr>,
            3 \<mapsto> \<lparr>b_to = 4, read_point = 3, wait_queue = [], net_fiber = None, merged_net_fibers = []\<rparr>],
     body_complete = False, read_refs = 0, write_refs = 1, fp = True, disk = demo_content\<rparr>"

lemma demo_two_ok: "blocks_ok demo_content 10 demo_two {} [2 \<mapsto> 0] \<and> refs_ok demo_two {} [2 \<mapsto> 0]"
proof -
  have "apart (blk demo_two)" by (auto simp: apart_def demo_two_def split: if_splits)
  moreover have "block_ok demo_content demo_content {} [2 \<mapsto> 0] k b" if "blk demo_two k = Some b" for k b
    using that by (auto simp: demo_two_def block_ok_def writers_of_def split: if_splits)
  moreover have "covered demo_two 0" unfolding covered_def demo_two_def by (intro exI [of _ 0] exI [of _ "\<lparr>b_to = 2, read_point = 0, wait_queue = [], net_fiber = Some 2, merged_net_fibers = []\<rparr>"]) simp
  ultimately show ?thesis
    by (auto simp: blocks_ok_def refs_ok_def tree_ok_def) (auto simp: demo_two_def split: if_splits)
qed

theorem writer_past_next_block_witness:
  "\<exists>wake st' s'. bo_write chain_rb True 5 True None ''ababa'' \<lparr>bo_offset = 2, read_fiber_error = False, send_fiber = True\<rparr> demo_two =
      Some (KGL_OK, wake, st', s') \<and> bo_write chain_rb True 1 True None ''b'' st' s' = None"
proof -
  have buf: "''ababa'' = file_bytes demo_content 2 (int (length ''ababa''))"
    by (simp add: file_bytes_def demo_content_def eval_nat_numeral upt_rec)
  have "\<not> covered demo_two 7" by (auto simp: covered_def demo_two_def split: if_splits)
  then have "\<exists>wake st' s'. bo_write chain_rb True (length ''ababa'') True None ''ababa''
        \<lparr>bo_offset = 2, read_fiber_error = False, send_fiber = True\<rparr> demo_two = Some (KGL_OK, wake, st', s') \<and>
      (\<forall>buf'. bo_write chain_rb True (length buf') True None buf' st' s' = None)"
    using demo_two_ok buf
    by (intro writer_past_next_block [OF chain_rb_laws, where C = demo_content and CL = 10 and R = "{}" and W = "[2 \<mapsto> 0]" and k = 0 and n = 3
          and b = "\<lparr>b_to = 2, read_point = 0, wait_queue = [], net_fiber = Some 2, merged_net_fibers = []\<rparr>"
          and nb = "\<lparr>b_to = 4, read_point = 3, wait_queue = [], net_fiber = None, merged_net_fibers = []\<rparr>"])
      (simp_all add: demo_two_def chain_rb_def)
  then obtain wake st' s' where w: "bo_write chain_rb True (length ''ababa'') True None ''ababa''
        \<lparr>bo_offset = 2, read_fiber_error = False, send_fiber = True\<rparr> demo_two = Some (KGL_OK, wake, st', s')"
      "\<And>buf'. bo_write chain_rb True (length buf') True None buf' st' s' = None" by blast
  from w(1) w(2) [of "''b''"] show ?thesis by (simp add: eval_nat_numeral)
qed

theorem can_satisfy_right_witness:
  "\<exists>st r'. can_satisfy chain_rb (Some (1, 8)) demo_obj demo_two = Some (st, Some r') \<and>
    (if st = kgl_satisfy_all then \<forall>i. 1 \<le> i \<and> i < o_content_length demo_obj \<and> ((8 :: int) = -1 \<or> i \<le> 8) \<longrightarrow> disk demo_two i = demo_content i
     else 1 \<le> fst r' \<and> (\<forall>i. 1 \<le> i \<and> i < fst r' \<longrightarrow> disk demo_two i = demo_content i) \<and> range_free demo_two r')"
proof (rule can_satisfy_right [OF chain_rb_laws])
  show "blocks_ok demo_content (o_content_length demo_obj) demo_two {} [2 \<mapsto> 0]"
    using demo_two_ok by (simp add: demo_obj_def)
qed simp_all

end
