(* ===== verification/Content_Filter.thy ===== *)
theory Content_Filter
  imports Access_Chain
begin

unbundle bit_operations_syntax

text \<open>
  The filters of response bodies: \<^verbatim>\<open>src/KContentFilterMarks.cpp\<close>. A body is written through a filter in
  pieces of any size; a filter keeps what it cannot judge yet and passes the rest down. One filter denies
  a body that matches an expression, one replaces what an expression matches, one rewrites addresses in
  the tags of a page, one puts a text in front.

  Regular expressions are those of the PCRE library: a match is an argument (\<open>rx\<close>), and \<open>rx_laws\<close> says what
  is relied on. The next body and the text that replaces a match are arguments as well. Messages to the log
  are left out.
\<close>

section \<open>Passing data down\<close>

datatype body_result = BR_OK | BR_EDENIED | BR_ENO_MEMORY | BR_EDATA_FORMAT | BR_OTHER int

text \<open>\<^verbatim>\<open>result >= KGL_OK\<close>: \<open>BR_OTHER\<close> has the number of any other result; the three errors are negative.\<close>

definition not_error :: "body_result \<Rightarrow> bool" where
  "not_error r = (case r of BR_OK \<Rightarrow> True | BR_OTHER n \<Rightarrow> n \<ge> 0 | _ \<Rightarrow> False)"

type_synonym 'd down = "'d \<Rightarrow> string \<Rightarrow> body_result \<times> 'd"

function write_down :: "'d down \<Rightarrow> 'd \<Rightarrow> string \<Rightarrow> body_result \<times> 'd" where
  "write_down dw d data =
     (if data = [] then (BR_OK, d)
      else (case dw d (take (nat INT_MAX) data) of (r, d') \<Rightarrow>
        if r \<noteq> BR_OK then (r, d') else write_down dw d' (drop (nat INT_MAX) data)))"
  by auto
termination
  by (relation "measure (\<lambda>(dw, d, data). length data)") auto

declare write_down.simps [simp del]

text \<open>Data that fits one call; evaluation then does not count to \<^verbatim>\<open>INT_MAX\<close>.\<close>

lemma write_down_code [code]:
  "write_down dw d data =
     (if data = [] then (BR_OK, d)
      else if int (length data) \<le> INT_MAX then dw d data
      else (case dw d (take (nat INT_MAX) data) of (r, d') \<Rightarrow>
        if r \<noteq> BR_OK then (r, d') else write_down dw d' (drop (nat INT_MAX) data)))"
proof (cases "int (length data) \<le> INT_MAX")
  case True
  then have "take (nat INT_MAX) data = data" "drop (nat INT_MAX) data = []" by (simp_all add: nat_le_iff le_nat_iff)
  moreover have "write_down dw e [] = (BR_OK, e)" for e by (simp add: write_down.simps [of _ _ "[]"])
  ultimately show ?thesis using True by (subst write_down.simps) (simp split: prod.split)
qed (subst write_down.simps, simp)

text \<open>\<^verbatim>\<open>filter_writev\<close>: a list of buffers; \<open>len\<close> may end inside of one, or behind the last.\<close>

fun filter_writev :: "('s \<Rightarrow> string \<Rightarrow> body_result \<times> 's) \<Rightarrow> string list \<Rightarrow> nat \<Rightarrow> 's \<Rightarrow> body_result \<times> 's" where
  "filter_writev wr bufs 0 s = (BR_OK, s)"
| "filter_writev wr [] (Suc n) s = (BR_EDATA_FORMAT, s)"
| "filter_writev wr (b # bufs) (Suc n) s =
     (let got = min (Suc n) (length b) in
      case wr s (take got b) of (r, s') \<Rightarrow>
        if r \<noteq> BR_OK then (r, s') else filter_writev wr bufs (Suc n - got) s')"

definition kDefaultFilterBuffer :: int where "kDefaultFilterBuffer = 1024 * 1024"
definition kMaxFilterBuffer :: int where "kMaxFilterBuffer = 16 * 1024 * 1024"
definition kMaxHtmlTag :: nat where "kMaxHtmlTag = 64 * 1024"

text \<open>\<open>parsed\<close> is the value of \<^verbatim>\<open>get_size\<close>.\<close>

definition parse_filter_buffer :: "int \<Rightarrow> int" where
  "parse_filter_buffer parsed = (if parsed \<le> 0 then kDefaultFilterBuffer else min parsed kMaxFilterBuffer)"

section \<open>Expressions\<close>

text \<open>A match has its ends and its groups; a partial match may report where it begins.\<close>

datatype rx_result = Rx_match nat nat "string list" | Rx_partial "nat option" | Rx_none

definition partial_start :: "nat option \<Rightarrow> nat \<Rightarrow> nat" where
  "partial_start st sz = (case st of None \<Rightarrow> 0 | Some i \<Rightarrow> if i > sz then 0 else i)"

section \<open>Denying\<close>

text \<open>\<open>rg_rx\<close> gets whether a partial match may be reported.\<close>

record reg_filter =
  rg_rx :: "bool \<Rightarrow> string \<Rightarrow> rx_result"
  rg_action :: jump_type
  rg_buffer :: int
  rg_pending :: string
  rg_disabled :: bool

definition rg_process :: "bool \<Rightarrow> 'd down \<Rightarrow> reg_filter \<times> 'd \<Rightarrow> body_result \<times> reg_filter \<times> 'd" where
  "rg_process final dw s =
     (case s of (f, d) \<Rightarrow>
      let flush = (\<lambda>f d. case write_down dw d (rg_pending f) of (r, d') \<Rightarrow> (r, f\<lparr>rg_pending := []\<rparr>, d')) in
      if rg_pending f = [] then (BR_OK, f, d)
      else (case rg_rx f (\<not> final) (rg_pending f) of
        Rx_match a b groups \<Rightarrow>
          if rg_action f \<noteq> JUMP_ALLOW \<and> rg_action f \<noteq> JUMP_CONTINUE then (BR_EDENIED, f\<lparr>rg_pending := []\<rparr>, d)
          else flush (if rg_action f = JUMP_ALLOW then f\<lparr>rg_disabled := True\<rparr> else f) d
      | Rx_partial st \<Rightarrow>
          if final then flush f d
          else
            (let start = partial_start st (length (rg_pending f)) in
             case (if start > 0 then write_down dw d (take start (rg_pending f)) else (BR_OK, d)) of (r, d) \<Rightarrow>
               if r \<noteq> BR_OK then (r, f, d)
               else
                 (let f = f\<lparr>rg_pending := drop start (rg_pending f)\<rparr> in
                  if int (length (rg_pending f)) \<le> rg_buffer f then (BR_OK, f, d) else flush f d))
      | Rx_none \<Rightarrow> flush f d))"

definition rg_write :: "'d down \<Rightarrow> string \<Rightarrow> reg_filter \<times> 'd \<Rightarrow> body_result \<times> reg_filter \<times> 'd" where
  "rg_write dw data s =
     (case s of (f, d) \<Rightarrow>
      if rg_disabled f then (case write_down dw d data of (r, d') \<Rightarrow> (r, f, d'))
      else rg_process False dw (f\<lparr>rg_pending := rg_pending f @ data\<rparr>, d))"

definition rg_flush_pending :: "'d down \<Rightarrow> reg_filter \<times> 'd \<Rightarrow> body_result \<times> reg_filter \<times> 'd" where
  "rg_flush_pending dw s = rg_process True dw s"

text \<open>\<^verbatim>\<open>select_reg\<close>: which of the two expressions of a mark is used for a response.\<close>

definition select_reg ::
  "'r option \<Rightarrow> 'r option \<Rightarrow> string option \<Rightarrow> 'r option" where
  "select_reg utf8_reg local_reg response_charset =
     (if local_reg \<noteq> None \<and> (case response_charset of None \<Rightarrow> True | Some c \<Rightarrow> \<not> strcase_eq c ''utf-8'') then local_reg
      else utf8_reg)"

section \<open>Replacing\<close>

text \<open>
  \<open>rp_rx\<close> always may report a partial match. \<open>rp_make\<close> is \<^verbatim>\<open>make_replacement\<close>; \<open>rp_mark\<close> is the mark of the
  request that \<^verbatim>\<open>update_mark\<close> sets.
\<close>

record replace_filter =
  rp_rx :: "string \<Rightarrow> rx_result"
  rp_make :: "string list \<Rightarrow> string option"
  rp_mark_acl :: int
  rp_mark_mark :: int
  rp_replaced_stop :: bool
  rp_buffer :: int
  rp_pending :: string
  rp_stopped :: bool
  rp_disabled :: bool
  rp_mark :: u32

definition should_process :: "replace_filter \<Rightarrow> bool" where
  "should_process f =
     (if rp_mark_acl f > 0 then to_int32 (uint (rp_mark f)) = rp_mark_acl f
      else if rp_mark_acl f < 0 then rp_mark f AND word_of_int (- rp_mark_acl f) \<noteq> 0
      else True)"

definition update_mark :: "replace_filter \<Rightarrow> replace_filter" where
  "update_mark f =
     (if rp_mark_mark f > 0 then f\<lparr>rp_mark := word_of_int (rp_mark_mark f)\<rparr>
      else if rp_mark_mark f < 0 then f\<lparr>rp_mark := rp_mark f OR word_of_int (- rp_mark_mark f)\<rparr>
      else f)"

text \<open>
  The loop of \<^verbatim>\<open>process\<close>: \<open>rest\<close> is the text of \<^verbatim>\<open>pending\<close> from \<^verbatim>\<open>pos\<close> on, \<open>out\<close> what was collected. The
  result is what is written down, and the filter, or the early error.
\<close>

function rp_loop :: "bool \<Rightarrow> string \<Rightarrow> string \<Rightarrow> replace_filter \<Rightarrow> body_result + (string \<times> replace_filter)" where
  "rp_loop final out rest f =
     (if rest = [] then Inr (out, f\<lparr>rp_pending := []\<rparr>)
      else (case rp_rx f rest of
        Rx_match a b groups \<Rightarrow>
          if b \<le> a then Inr (out @ rest, f\<lparr>rp_pending := [], rp_disabled := True\<rparr>)
          else (case rp_make f groups of
            None \<Rightarrow> Inl BR_ENO_MEMORY
          | Some text \<Rightarrow>
              (let f = update_mark f in
               if rp_replaced_stop f then Inr (out @ text, f\<lparr>rp_pending := [], rp_stopped := True\<rparr>)
               else rp_loop final (out @ take a rest @ text) (drop b rest) f))
      | Rx_partial st \<Rightarrow>
          if \<not> final then
            (let start = partial_start st (length rest) in
             if int (length rest - start) \<le> rp_buffer f then Inr (out @ take start rest, f\<lparr>rp_pending := drop start rest\<rparr>)
             else Inr (out @ rest, f\<lparr>rp_pending := [], rp_disabled := True\<rparr>))
          else Inr (out @ rest, f\<lparr>rp_pending := []\<rparr>)
      | Rx_none \<Rightarrow>
          if \<not> final \<and> rp_replaced_stop f \<and> int (length rest) \<le> rp_buffer f then Inr (out, f\<lparr>rp_pending := rest\<rparr>)
          else Inr (out @ rest, f\<lparr>rp_pending := []\<rparr>)))"
  by auto
termination
  by (relation "measure (\<lambda>(final, out, rest, f). length rest)") auto

declare rp_loop.simps [simp del]

text \<open>On the early error \<^verbatim>\<open>pending\<close> is left as it was.\<close>

definition rp_process :: "bool \<Rightarrow> 'd down \<Rightarrow> replace_filter \<times> 'd \<Rightarrow> body_result \<times> replace_filter \<times> 'd" where
  "rp_process final dw s =
     (case s of (f, d) \<Rightarrow>
      (case rp_loop final [] (rp_pending f) f of
         Inl e \<Rightarrow> (e, f, d)
       | Inr (out, f') \<Rightarrow> (case write_down dw d out of (r, d') \<Rightarrow> (r, f', d'))))"

definition rp_write :: "'d down \<Rightarrow> string \<Rightarrow> replace_filter \<times> 'd \<Rightarrow> body_result \<times> replace_filter \<times> 'd" where
  "rp_write dw data s =
     (case s of (f, d) \<Rightarrow>
      if rp_stopped f then (BR_OK, f, d)
      else if rp_disabled f then (case write_down dw d data of (r, d') \<Rightarrow> (r, f, d'))
      else rp_process False dw (f\<lparr>rp_pending := rp_pending f @ data\<rparr>, d))"

definition rp_flush_pending :: "'d down \<Rightarrow> replace_filter \<times> 'd \<Rightarrow> body_result \<times> replace_filter \<times> 'd" where
  "rp_flush_pending dw s = (if rp_stopped (fst s) then (BR_OK, s) else rp_process True dw s)"

section \<open>Addresses in tags\<close>

definition ascii_equal :: "string \<Rightarrow> nat \<Rightarrow> nat \<Rightarrow> string \<Rightarrow> bool" where
  "ascii_equal text offset len expected = strcase_eq (take len (drop offset text)) expected"

definition url_attributes :: "(string \<times> string) list" where
  "url_attributes =
     [(''a'', ''href''), (''form'', ''action''), (''area'', ''href''), (''frame'', ''src''), (''input'', ''src''),
      (''img'', ''src''), (''javascript'', ''src''), (''base'', ''href''), (''script'', ''src''), (''link'', ''href''),
      (''iframe'', ''src'')]"

definition url_attribute :: "string \<Rightarrow> nat \<Rightarrow> nat \<Rightarrow> string option" where
  "url_attribute tag offset len = map_option snd (find (\<lambda>(t, a). ascii_equal tag offset len t) url_attributes)"

text \<open>\<^verbatim>\<open>while (pos < lim && p (tag[pos])) ++pos\<close>\<close>

definition skip_while :: "(char \<Rightarrow> bool) \<Rightarrow> string \<Rightarrow> nat \<Rightarrow> nat \<Rightarrow> nat" where
  "skip_while p tag lim pos = pos + length (takeWhile p (take (lim - pos) (drop pos tag)))"

lemma skip_while_ge: "pos \<le> skip_while p tag lim pos"
  by (simp add: skip_while_def)

lemma skip_while_le: "pos \<le> lim \<Longrightarrow> skip_while p tag lim pos \<le> lim"
proof -
  assume "pos \<le> lim"
  moreover have "length (takeWhile p (take (lim - pos) (drop pos tag))) \<le> lim - pos"
    by (rule order_trans [OF length_takeWhile_le]) simp
  ultimately show ?thesis by (simp add: skip_while_def)
qed

lemma skip_while_more: "pos < lim \<Longrightarrow> pos < length tag \<Longrightarrow> p (tag ! pos) \<Longrightarrow> pos < skip_while p tag lim pos"
proof -
  assume a: "pos < lim" "pos < length tag" "p (tag ! pos)"
  obtain n where "lim - pos = Suc n" using a(1) by (cases "lim - pos") auto
  with a show ?thesis by (simp add: skip_while_def Cons_nth_drop_Suc [symmetric])
qed

text \<open>One attribute: its place and length, where its value is, and where the next one begins.\<close>

definition attr_name :: "string \<Rightarrow> nat \<Rightarrow> nat" where
  "attr_name tag pos =
     skip_while (\<lambda>c. \<not> is_space c \<and> c \<noteq> CHR ''='' \<and> c \<noteq> CHR ''>'' \<and> c \<noteq> CHR ''/'') tag (length tag - 1) pos"

definition attr_value :: "string \<Rightarrow> nat \<Rightarrow> bool \<times> nat \<times> nat" where
  "attr_value tag pos =
     (let lim = length tag - 1; pos = skip_while is_space tag lim pos; q = tag ! pos in
      if q = CHR 0x27 \<or> q = CHR 0x22 then (True, pos + 1, skip_while (\<lambda>c. c \<noteq> q) tag lim (pos + 1))
      else (False, pos, skip_while (\<lambda>c. \<not> is_space c \<and> c \<noteq> CHR ''>'') tag lim pos))"

lemma attr_value_ge: "attr_value tag pos = (quote, vs, ve) \<Longrightarrow> pos \<le> vs \<and> vs \<le> ve"
  using skip_while_ge [of pos is_space tag "length tag - 1"]
  by (auto simp: attr_value_def Let_def skip_while_ge split: if_splits intro: le_SucI)

lemma attr_progress:
  fixes tag :: string and pos :: nat
  defines "lim \<equiv> length tag - 1"
  defines "xa \<equiv> skip_while is_space tag lim pos"
  defines "xc \<equiv> skip_while is_space tag lim (attr_name tag xa)"
  assumes "pos < lim" "\<not> (tag ! xa = CHR ''/'' \<or> tag ! xa = CHR ''>'')" "lim \<le> xc \<or> tag ! xc \<noteq> CHR ''=''"
  shows "pos < xc"
proof (rule ccontr)
  assume "\<not> pos < xc"
  moreover have "pos \<le> xa" "xa \<le> attr_name tag xa" "attr_name tag xa \<le> xc"
    by (simp_all add: xa_def xc_def attr_name_def skip_while_ge)
  ultimately have eq: "xa = pos" "attr_name tag xa = pos" "xc = pos" by simp_all
  have pl: "pos < length tag" using assms(4) unfolding lim_def by linarith
  then have "\<not> is_space (tag ! pos)"
    using skip_while_more [of pos lim tag is_space] eq(1) assms(4) by (auto simp: xa_def)
  moreover have "tag ! pos \<noteq> CHR ''=''" using assms(4,6) eq(3) by auto
  ultimately have "pos < attr_name tag pos"
    using assms(4,5) eq(1) pl unfolding attr_name_def lim_def by (intro skip_while_more) auto
  with eq(1,2) show False by simp
qed

text \<open>The loop over the attributes; \<open>replace\<close> is the new address, if there is one.\<close>

function attr_loop :: "(string \<Rightarrow> string option) \<Rightarrow> string \<Rightarrow> string \<Rightarrow> nat \<Rightarrow> string" where
  "attr_loop replace tag wanted pos =
     (let lim = length tag - 1 in
      if pos < lim then
        (let attr_start = skip_while is_space tag lim pos in
         if tag ! attr_start = CHR ''/'' \<or> tag ! attr_start = CHR ''>'' then tag
         else
           (let attr_end = attr_name tag attr_start;
                eq = skip_while is_space tag lim attr_end in
            if eq \<ge> lim \<or> tag ! eq \<noteq> CHR ''='' then
              attr_loop replace tag wanted eq
            else
              (case attr_value tag (eq + 1) of (quote, value_start, value_end) \<Rightarrow>
                 if \<not> ascii_equal tag attr_start (attr_end - attr_start) wanted then
                   attr_loop replace tag wanted (if quote \<and> value_end < lim then value_end + 1 else value_end)
                 else
                   (case replace (take (value_end - value_start) (drop value_start tag)) of
                      None \<Rightarrow> tag
                    | Some new \<Rightarrow> take value_start tag @ new @ drop value_end tag))))
      else tag)"
  by auto
termination
proof (relation "measure (\<lambda>(replace, tag, wanted, pos). length tag - pos)", goal_cases)
  case (2 replace tag wanted pos x xa xb xc)
  then have "pos < xc" using attr_progress [of pos tag] by auto
  moreover have "pos < length tag" using 2(1,2) by linarith
  ultimately show ?case by (simp add: diff_less_mono2)
next
  case (3 replace tag wanted pos x xa xb xc xd y xca ya)
  have "pos \<le> xa" "xa \<le> xb" "xb \<le> xc" using 3 by (simp_all add: skip_while_ge attr_name_def)
  moreover have "xc < ya" using attr_value_ge [of tag "xc + 1" xd xca ya] 3 by simp
  moreover have "pos < length tag" using 3(1,2) by linarith
  ultimately show ?case by (auto intro: diff_less_mono2)
qed simp

declare attr_loop.simps [simp del]

definition rewrite_html_tag :: "(string \<Rightarrow> string option) \<Rightarrow> string \<Rightarrow> string" where
  "rewrite_html_tag replace tag =
     (if length tag < 3 \<or> hd tag \<noteq> CHR ''<'' \<or> last tag \<noteq> CHR ''>'' then tag
      else
        (let name_start = skip_while is_space tag (length tag) 1 in
         if name_start \<ge> length tag \<or> tag ! name_start \<in> set ''/!?'' then tag
         else
           (let pos = skip_while (\<lambda>c. \<not> is_space c \<and> c \<noteq> CHR ''/'' \<and> c \<noteq> CHR ''>'') tag (length tag) name_start in
            case url_attribute tag name_start (pos - name_start) of
              None \<Rightarrow> tag
            | Some wanted \<Rightarrow> attr_loop replace tag wanted pos)))"

text \<open>
  \<open>rest\<close> is the text of \<^verbatim>\<open>pending\<close> from \<^verbatim>\<open>consumed\<close> on; \<^verbatim>\<open>pending\<close> keeps its value when a write fails.
\<close>

record url_filter =
  ur_replace :: "string \<Rightarrow> string option"
  ur_pending :: string

function ur_loop :: "bool \<Rightarrow> 'd down \<Rightarrow> string \<Rightarrow> url_filter \<times> 'd \<Rightarrow> body_result \<times> url_filter \<times> 'd" where
  "ur_loop final dw rest s =
     (case s of (f, d) \<Rightarrow>
      (case cut_at (CHR ''<'') rest of
         (a, None) \<Rightarrow> (case write_down dw d rest of (r, d') \<Rightarrow> (r, f\<lparr>ur_pending := []\<rparr>, d'))
       | (a, Some b) \<Rightarrow>
           (case write_down dw d a of (r, d) \<Rightarrow>
            if r \<noteq> BR_OK then (r, f, d)
            else
              (case cut_at (CHR ''>'') b of
                 (t, None) \<Rightarrow>
                   if \<not> final \<and> length (CHR ''<'' # b) \<le> kMaxHtmlTag then (BR_OK, f\<lparr>ur_pending := CHR ''<'' # b\<rparr>, d)
                   else (case write_down dw d (CHR ''<'' # b) of (r, d') \<Rightarrow> (r, f\<lparr>ur_pending := []\<rparr>, d'))
               | (t, Some b') \<Rightarrow>
                   (case write_down dw d (rewrite_html_tag (ur_replace f) (''<'' @ t @ ''>'')) of (r, d) \<Rightarrow>
                    if r \<noteq> BR_OK then (r, f, d) else ur_loop final dw b' (f, d))))))"
  by auto
termination
  by (relation "measure (\<lambda>(final, dw, rest, s). length rest)")
     (auto dest!: cut_at_Some_length [OF sym])

declare ur_loop.simps [simp del]

definition ur_write :: "'d down \<Rightarrow> string \<Rightarrow> url_filter \<times> 'd \<Rightarrow> body_result \<times> url_filter \<times> 'd" where
  "ur_write dw data s =
     (case s of (f, d) \<Rightarrow> ur_loop False dw (ur_pending f @ data) (f\<lparr>ur_pending := ur_pending f @ data\<rparr>, d))"

definition ur_flush_pending :: "'d down \<Rightarrow> url_filter \<times> 'd \<Rightarrow> body_result \<times> url_filter \<times> 'd" where
  "ur_flush_pending dw s = (case s of (f, d) \<Rightarrow> ur_loop True dw (ur_pending f) (f, d))"

section \<open>A text in front\<close>

record fix_filter =
  fx_header :: string
  fx_written :: bool

definition fx_write_header :: "'d down \<Rightarrow> fix_filter \<times> 'd \<Rightarrow> body_result \<times> fix_filter \<times> 'd" where
  "fx_write_header dw s =
     (case s of (f, d) \<Rightarrow>
      if fx_written f then (BR_OK, f, d)
      else (case write_down dw d (fx_header f) of (r, d') \<Rightarrow> (r, f\<lparr>fx_written := True\<rparr>, d')))"

definition fx_write :: "'d down \<Rightarrow> string \<Rightarrow> fix_filter \<times> 'd \<Rightarrow> body_result \<times> fix_filter \<times> 'd" where
  "fx_write dw data s =
     (case fx_write_header dw s of (r, f, d) \<Rightarrow>
      if r = BR_OK then (case write_down dw d data of (r, d') \<Rightarrow> (r, f, d')) else (r, f, d))"

section \<open>Flushing and closing\<close>

text \<open>The operations that all filters share; \<open>pend\<close> is \<^verbatim>\<open>flush_pending\<close> and \<open>abort\<close> is \<^verbatim>\<open>abort_pending\<close>.\<close>

definition filter_flush ::
  "('f \<times> 'd \<Rightarrow> body_result \<times> 'f \<times> 'd) \<Rightarrow> ('d \<Rightarrow> body_result \<times> 'd) \<Rightarrow> 'f \<times> 'd \<Rightarrow> body_result \<times> 'f \<times> 'd" where
  "filter_flush pend down_flush s =
     (case pend s of (r, f, d) \<Rightarrow>
      if r \<noteq> BR_OK then (r, f, d) else (case down_flush d of (r, d) \<Rightarrow> (r, f, d)))"

definition filter_close ::
  "('f \<times> 'd \<Rightarrow> body_result \<times> 'f \<times> 'd) \<Rightarrow> ('d \<Rightarrow> body_result \<Rightarrow> body_result \<times> 'd) \<Rightarrow>
   body_result \<Rightarrow> 'f \<times> 'd \<Rightarrow> body_result \<times> 'd" where
  "filter_close pend down_close result s =
     (if not_error result then (case pend s of (r, f, d) \<Rightarrow> down_close d (if r \<noteq> BR_OK then r else result))
      else down_close (snd s) result)"

section \<open>The marks\<close>

text \<open>
  What a mark does to a response when the access chains reach it: \<open>None\<close> is \<^verbatim>\<open>KF_STATUS_REQ_FALSE\<close>, otherwise the
  filter that is registered. \<open>is_location\<close> is \<^verbatim>\<open>kgl_is_attr\<close> for the name of the header.
\<close>

definition UINT16_MAX :: nat where "UINT16_MAX = 65535"

record http_header =
  h_buf :: string
  h_val_offset :: nat
  h_val_len :: nat

definition header_value :: "http_header \<Rightarrow> string" where
  "header_value h = take (h_val_len h) (drop (h_val_offset h) (h_buf h))"

definition replace_header_value :: "http_header \<Rightarrow> string \<Rightarrow> http_header" where
  "replace_header_value h value =
     (if h_val_offset h + length value > UINT16_MAX then h
      else h\<lparr>h_buf := take (h_val_offset h) (h_buf h) @ value @ [CHR 0x00], h_val_len := length value\<rparr>)"

fun replace_location :: "(http_header \<Rightarrow> bool) \<Rightarrow> (string \<Rightarrow> string option) \<Rightarrow> http_header list \<Rightarrow> http_header list" where
  "replace_location is_location replace [] = []"
| "replace_location is_location replace (h # hs) =
     (if \<not> is_location h then h # replace_location is_location replace hs
      else (case replace (header_value h) of None \<Rightarrow> h | Some value \<Rightarrow> replace_header_value h value) # hs)"

definition replace_url_process ::
  "(http_header \<Rightarrow> bool) \<Rightarrow> (string \<Rightarrow> string option) option \<Rightarrow> bool \<Rightarrow> (nat \<times> http_header list) option \<Rightarrow>
   ((nat \<times> http_header list) option \<times> url_filter) option" where
  "replace_url_process is_location state location obj =
     (case state of
        None \<Rightarrow> None
      | Some replace \<Rightarrow>
          Some (map_option (\<lambda>(status, hs). (status,
                  if location \<and> 300 \<le> status \<and> status < 400 then replace_location is_location replace hs else hs)) obj,
                \<lparr>ur_replace = replace, ur_pending = []\<rparr>))"

definition replace_content_process :: "replace_filter option \<Rightarrow> replace_filter option" where
  "replace_content_process state =
     (case state of None \<Rightarrow> None
      | Some f \<Rightarrow> if should_process f then Some (f\<lparr>rp_pending := [], rp_stopped := False, rp_disabled := False\<rparr>) else None)"

definition process_with_chain ::
  "(bool \<Rightarrow> string \<Rightarrow> rx_result) option \<Rightarrow> (bool \<Rightarrow> string \<Rightarrow> rx_result) option \<Rightarrow> int \<Rightarrow> string option \<Rightarrow> jump_type \<Rightarrow> reg_filter option" where
  "process_with_chain utf8_reg local_reg buffer response_charset action =
     map_option (\<lambda>reg. \<lparr>rg_rx = reg, rg_action = action, rg_buffer = buffer, rg_pending = [], rg_disabled = False\<rparr>)
       (select_reg utf8_reg local_reg response_charset)"

text \<open>\<open>from_byte\<close> is the first byte of the range that was asked for, if there is one.\<close>

definition fix_header_process :: "string \<Rightarrow> int option \<Rightarrow> fix_filter option" where
  "fix_header_process header from_byte =
     (case from_byte of None \<Rightarrow> None
      | Some b \<Rightarrow> if b \<le> 0 \<or> header = [] then None else Some \<lparr>fx_header = header, fx_written = False\<rparr>)"

text \<open>A header that is replaced still fits its 16 bit lengths, and its value is what was asked for.\<close>

lemma replace_header_value_fits:
  assumes "h_val_offset h \<le> length (h_buf h)" "h_val_offset h + h_val_len h \<le> UINT16_MAX"
  shows "h_val_offset (replace_header_value h v) + h_val_len (replace_header_value h v) \<le> UINT16_MAX"
    "h_val_offset h + length v \<le> UINT16_MAX \<Longrightarrow> header_value (replace_header_value h v) = v"
  using assms by (auto simp: replace_header_value_def header_value_def)

section \<open>A body in pieces\<close>

text \<open>A body that is written in the pieces \<open>cs\<close> and then closed; an error ends it.\<close>

fun run_writes :: "(string \<Rightarrow> 's \<Rightarrow> body_result \<times> 's) \<Rightarrow> string list \<Rightarrow> 's \<Rightarrow> body_result \<times> 's" where
  "run_writes wr [] s = (BR_OK, s)"
| "run_writes wr (c # cs) s = (case wr c s of (r, s') \<Rightarrow> if r \<noteq> BR_OK then (r, s') else run_writes wr cs s')"

definition run_body ::
  "(string \<Rightarrow> 's \<Rightarrow> body_result \<times> 's) \<Rightarrow> ('s \<Rightarrow> body_result \<times> 's) \<Rightarrow> string list \<Rightarrow> 's \<Rightarrow> body_result \<times> 's" where
  "run_body wr pend cs s = (case run_writes wr cs s of (r, s') \<Rightarrow> if r \<noteq> BR_OK then (r, s') else pend s')"

text \<open>The body below takes everything; \<open>out\<close> is what it has got.\<close>

definition sink_ok :: "'d down \<Rightarrow> ('d \<Rightarrow> string) \<Rightarrow> bool" where
  "sink_ok dw out \<longleftrightarrow> (\<forall>d x. \<exists>d'. dw d x = (BR_OK, d') \<and> out d' = out d @ x)"

lemma write_down_ok:
  assumes "sink_ok dw out"
  shows "\<exists>d'. write_down dw d data = (BR_OK, d') \<and> out d' = out d @ data"
proof (induction "length data" arbitrary: d data rule: less_induct)
  case less
  show ?case
  proof (cases "data = []")
    case True
    then show ?thesis by (simp add: write_down.simps)
  next
    case False
    let ?n = "nat INT_MAX"
    obtain d1 where d1: "dw d (take ?n data) = (BR_OK, d1)" "out d1 = out d @ take ?n data"
      using assms unfolding sink_ok_def by blast
    have "length (drop ?n data) < length data" using False by simp
    from less [OF this, of d1] obtain d' where
      d': "write_down dw d1 (drop ?n data) = (BR_OK, d')" "out d' = out d1 @ drop ?n data" by blast
    have "write_down dw d data = (BR_OK, d')" using False d1(1) d'(1) by (subst write_down.simps) simp
    moreover have "out d' = out d @ data" using d1(2) d'(2) by simp
    ultimately show ?thesis by blast
  qed
qed

text \<open>
  What a filter that lets a body through promises: \<open>spec\<close> is what it makes of a whole body, \<open>keeps\<close> the text it
  holds back, and \<open>ok f t\<close> that it can go on when \<open>t\<close> is still to come. Then the pieces do not matter.
\<close>

locale piecewise_filter =
  fixes wr :: "string \<Rightarrow> 'f \<times> 'd \<Rightarrow> body_result \<times> 'f \<times> 'd"
    and pend :: "'f \<times> 'd \<Rightarrow> body_result \<times> 'f \<times> 'd"
    and out :: "'d \<Rightarrow> string"
    and keeps :: "'f \<Rightarrow> string"
    and ok :: "'f \<Rightarrow> string \<Rightarrow> bool"
    and spec :: "string \<Rightarrow> string"
  assumes piece: "ok f (c @ t) \<Longrightarrow>
      \<exists>f' d' res. wr c (f, d) = (BR_OK, f', d') \<and> out d' = out d @ res \<and> ok f' t \<and> spec (keeps f @ c @ t) = res @ spec (keeps f' @ t)"
    and pending: "ok f [] \<Longrightarrow> \<exists>f' d'. pend (f, d) = (BR_OK, f', d') \<and> out d' = out d @ spec (keeps f)"
begin

lemma writes:
  "ok f (concat cs @ t) \<Longrightarrow> \<exists>f' d' res. run_writes wr cs (f, d) = (BR_OK, f', d') \<and> out d' = out d @ res \<and> ok f' t \<and>
     spec (keeps f @ concat cs @ t) = res @ spec (keeps f' @ t)"
proof (induction cs arbitrary: f d)
  case Nil
  then show ?case by (intro exI [of _ f] exI [of _ d] exI [where x = "[]"]) simp
next
  case (Cons c cs)
  from piece [of f c "concat cs @ t" d] Cons.prems obtain f1 d1 res where
    w: "wr c (f, d) = (BR_OK, f1, d1)" "out d1 = out d @ res" "ok f1 (concat cs @ t)"
    "spec (keeps f @ c @ concat cs @ t) = res @ spec (keeps f1 @ concat cs @ t)" by auto
  from Cons.IH [OF w(3), of d1] w(1,2,4) show ?case by fastforce
qed

lemma any_split:
  assumes "ok f (concat cs)"
  shows "\<exists>f' d'. run_body wr pend cs (f, d) = (BR_OK, f', d') \<and> out d' = out d @ spec (keeps f @ concat cs)"
proof -
  from writes [of f cs "[]" d] assms obtain f1 d1 res where
    w: "run_writes wr cs (f, d) = (BR_OK, f1, d1)" "out d1 = out d @ res" "ok f1 []" "spec (keeps f @ concat cs) = res @ spec (keeps f1)"
    by auto
  from pending [OF w(3), of d1] w show ?thesis by (auto simp: run_body_def)
qed

end

text \<open>The filter that puts a text in front: it holds the text back until the first piece.\<close>

interpretation fx: piecewise_filter "fx_write dw" "fx_write_header dw" out "\<lambda>f. if fx_written f then [] else fx_header f"
  "\<lambda>f t. sink_ok dw out" "\<lambda>s. s" for dw out
proof -
  have hd: "\<exists>f' d'. fx_write_header dw (f, d) = (BR_OK, f', d') \<and> fx_written f' \<and> out d' = out d @ (if fx_written f then [] else fx_header f)"
    if "sink_ok dw out" for f d
    using write_down_ok [OF that, of d "fx_header f"] by (auto simp: fx_write_header_def)
  show "piecewise_filter (fx_write dw) (fx_write_header dw) out (\<lambda>f. if fx_written f then [] else fx_header f) (\<lambda>f t. sink_ok dw out) (\<lambda>s. s)"
  proof (unfold_locales, goal_cases)
    case (1 f c t d)
    from hd [OF 1, of f d] obtain f' d1 where h: "fx_write_header dw (f, d) = (BR_OK, f', d1)" "fx_written f'"
      "out d1 = out d @ (if fx_written f then [] else fx_header f)" by blast
    from write_down_ok [OF 1, of d1 c] h 1 show ?case by (auto simp: fx_write_def)
  next
    case (2 f d)
    from hd [OF 2, of f d] show ?case by blast
  qed
qed

section \<open>Rewriting a page\<close>

text \<open>What the filter of addresses makes of a whole page.\<close>

function rewrite_page :: "(string \<Rightarrow> string option) \<Rightarrow> string \<Rightarrow> string" where
  "rewrite_page replace s =
     (case cut_at (CHR ''<'') s of
        (a, None) \<Rightarrow> s
      | (a, Some b) \<Rightarrow>
          (case cut_at (CHR ''>'') b of
             (t, None) \<Rightarrow> s
           | (t, Some b') \<Rightarrow> a @ rewrite_html_tag replace (''<'' @ t @ ''>'') @ rewrite_page replace b'))"
  by auto
termination
  by (relation "measure (\<lambda>(replace, s). length s)") (auto dest!: cut_at_Some_length [OF sym])

declare rewrite_page.simps [simp del]

definition short_tags :: "string \<Rightarrow> bool" where
  "short_tags s \<longleftrightarrow> (\<forall>a b. s = a @ CHR ''<'' # b \<longrightarrow> length (takeWhile (\<lambda>c. c \<noteq> CHR ''>'') b) < kMaxHtmlTag)"

lemma short_tags_suffix: "short_tags (x @ y) \<Longrightarrow> short_tags y"
  unfolding short_tags_def by (metis append_assoc)

lemma takeWhile_length_append: "length (takeWhile P b) \<le> length (takeWhile P (b @ y))"
  by (induction b) auto

lemma short_tags_prefix: "short_tags (x @ y) \<Longrightarrow> short_tags x"
  unfolding short_tags_def by (metis append.assoc append_Cons le_less_trans takeWhile_length_append)

lemma cut_at_cases:
  obtains "c \<notin> set s" "cut_at c s = (s, None)" | a b where "s = a @ c # b" "c \<notin> set a" "cut_at c s = (a, Some b)"
  by (metis cut_at_None cut_at_append split_list_first)

lemma rewrite_page_tag:
  "CHR ''<'' \<notin> set a \<Longrightarrow> CHR ''>'' \<notin> set t \<Longrightarrow>
   rewrite_page r (a @ ''<'' @ t @ CHR ''>'' # b) = a @ rewrite_html_tag r (''<'' @ t @ ''>'') @ rewrite_page r b"
  by (subst rewrite_page.simps) (simp add: cut_at_append)

lemma rewrite_page_plain: "CHR ''<'' \<notin> set a \<Longrightarrow> rewrite_page r (a @ s) = a @ rewrite_page r s"
proof (rule cut_at_cases [of "CHR ''<''" s])
  assume a: "CHR ''<'' \<notin> set a" and s: "CHR ''<'' \<notin> set s"
  then show ?thesis by (subst (1 2) rewrite_page.simps) (simp add: cut_at_None)
next
  fix x b assume a: "CHR ''<'' \<notin> set a" and s: "s = x @ CHR ''<'' # b" "CHR ''<'' \<notin> set x"
  then have cut: "cut_at (CHR ''<'') (a @ s) = (a @ x, Some b)" "cut_at (CHR ''<'') s = (x, Some b)"
    using cut_at_append [of "CHR ''<''" "a @ x" b] cut_at_append [of "CHR ''<''" x b] by simp_all
  show ?thesis
    by (subst (1 2) rewrite_page.simps) (simp only: cut prod.case option.case, simp split: prod.split option.split)
qed

text \<open>One call of the loop: what it passes down and what it keeps.\<close>

lemma ur_loop_ok:
  assumes sink: "sink_ok dw out"
  shows "final \<or> short_tags rest \<Longrightarrow>
    \<exists>p d' res. ur_loop final dw rest (f, d) = (BR_OK, f\<lparr>ur_pending := p\<rparr>, d') \<and> out d' = out d @ res \<and> (final \<longrightarrow> p = []) \<and>
      (\<forall>t. (final \<longrightarrow> t = []) \<longrightarrow> rewrite_page (ur_replace f) (rest @ t) = res @ rewrite_page (ur_replace f) (p @ t))"
proof (induction "length rest" arbitrary: rest d rule: less_induct)
  case less
  note w = write_down_ok [OF sink]
  have nil: "rewrite_page r [] = []" for r by (subst rewrite_page.simps) simp
  show ?case
  proof (rule cut_at_cases [of "CHR ''<''" rest])
    assume n: "CHR ''<'' \<notin> set rest" "cut_at (CHR ''<'') rest = (rest, None)"
    obtain d' where "write_down dw d rest = (BR_OK, d')" "out d' = out d @ rest" using w by blast
    with n rewrite_page_plain [OF n(1)] show ?thesis
      by (intro exI [of _ "[]"] exI [of _ d'] exI [of _ rest]) (subst ur_loop.simps, simp)
  next
    fix a b assume s: "rest = a @ CHR ''<'' # b" "CHR ''<'' \<notin> set a" "cut_at (CHR ''<'') rest = (a, Some b)"
    obtain d1 where d1: "write_down dw d a = (BR_OK, d1)" "out d1 = out d @ a" using w by blast
    show ?thesis
    proof (rule cut_at_cases [of "CHR ''>''" b])
      assume b: "CHR ''>'' \<notin> set b" "cut_at (CHR ''>'') b = (b, None)"
      then have all: "takeWhile (\<lambda>c. c \<noteq> CHR ''>'') b = b" by (auto simp: takeWhile_eq_all_conv)
      show ?thesis
      proof (cases final)
        case True
        obtain d2 where "write_down dw d1 (CHR ''<'' # b) = (BR_OK, d2)" "out d2 = out d1 @ CHR ''<'' # b" using w by blast
        moreover have "rewrite_page (ur_replace f) rest = rest" using s(3) b(2) by (subst rewrite_page.simps) simp
        ultimately show ?thesis using True s d1 b nil
          by (intro exI [of _ "[]"] exI [of _ d2] exI [of _ rest]) (subst ur_loop.simps, simp)
      next
        case False
        with less.prems have "length (CHR ''<'' # b) \<le> kMaxHtmlTag"
          using s(1) all unfolding short_tags_def by (metis Suc_leI length_Cons)
        with False s d1 b rewrite_page_plain [OF s(2)] show ?thesis
          by (intro exI [of _ "CHR ''<'' # b"] exI [of _ d1] exI [of _ a]) (subst ur_loop.simps, simp)
      qed
    next
      fix t b' assume b: "b = t @ CHR ''>'' # b'" "CHR ''>'' \<notin> set t" "cut_at (CHR ''>'') b = (t, Some b')"
      let ?tag = "rewrite_html_tag (ur_replace f) (''<'' @ t @ ''>'')"
      obtain d2 where d2: "write_down dw d1 ?tag = (BR_OK, d2)" "out d2 = out d1 @ ?tag" using w by blast
      have "length b' < length rest" using s(1) b(1) by simp
      moreover have "final \<or> short_tags b'"
        using less.prems s(1) b(1) short_tags_suffix [of "a @ ''<'' @ t @ ''>''" b'] by auto
      ultimately obtain p d' res where
        r: "ur_loop final dw b' (f, d2) = (BR_OK, f\<lparr>ur_pending := p\<rparr>, d')" "out d' = out d2 @ res" "final \<longrightarrow> p = []"
        "\<forall>u. (final \<longrightarrow> u = []) \<longrightarrow> rewrite_page (ur_replace f) (b' @ u) = res @ rewrite_page (ur_replace f) (p @ u)"
        using less.hyps [of b' d2] by blast
      have "ur_loop final dw rest (f, d) = (BR_OK, f\<lparr>ur_pending := p\<rparr>, d')"
        using s(3) d1(1) b(3) d2(1) r(1) by (subst ur_loop.simps) simp
      moreover have "out d' = out d @ a @ ?tag @ res" using d1(2) d2(2) r(2) by simp
      moreover have "\<forall>u. (final \<longrightarrow> u = []) \<longrightarrow>
          rewrite_page (ur_replace f) (rest @ u) = (a @ ?tag @ res) @ rewrite_page (ur_replace f) (p @ u)"
        using rewrite_page_tag [OF s(2) b(2)] r(4) s(1) b(1) by simp
      ultimately show ?thesis using r(3) by blast
    qed
  qed
qed

text \<open>What the loop keeps is the end of what it was given.\<close>

lemma ur_loop_keeps_suffix:
  "fst (ur_loop final dw rest (f, d)) = BR_OK \<Longrightarrow>
   \<exists>x. rest = x @ ur_pending (fst (snd (ur_loop final dw rest (f, d))))"
proof (induction "length rest" arbitrary: rest d rule: less_induct)
  case less
  show ?case
  proof (rule cut_at_cases [of "CHR ''<''" rest])
    assume "CHR ''<'' \<notin> set rest" "cut_at (CHR ''<'') rest = (rest, None)"
    then show ?thesis by (subst ur_loop.simps) (simp split: prod.split)
  next
    fix a b assume s: "rest = a @ CHR ''<'' # b" "cut_at (CHR ''<'') rest = (a, Some b)"
    obtain r1 d1 where d1: "write_down dw d a = (r1, d1)" by fastforce
    have r1: "r1 = BR_OK" using less.prems s(2) d1 by (subst (asm) ur_loop.simps) (auto split: if_splits)
    show ?thesis
    proof (rule cut_at_cases [of "CHR ''>''" b])
      assume "CHR ''>'' \<notin> set b" "cut_at (CHR ''>'') b = (b, None)"
      with s d1 r1 show ?thesis by (subst ur_loop.simps) (auto split: prod.split)
    next
      fix t b' assume b: "b = t @ CHR ''>'' # b'" "cut_at (CHR ''>'') b = (t, Some b')"
      obtain r2 d2 where d2: "write_down dw d1 (rewrite_html_tag (ur_replace f) (''<'' @ t @ ''>'')) = (r2, d2)" by fastforce
      have step: "ur_loop final dw rest (f, d) = (if r2 \<noteq> BR_OK then (r2, f, d2) else ur_loop final dw b' (f, d2))"
        using s(2) d1 r1 b(2) d2 by (subst ur_loop.simps) simp
      with less.prems have r2: "r2 = BR_OK" by (auto split: if_splits)
      have "length b' < length rest" using s(1) b(1) by simp
      from less.hyps [OF this, of d2] less.prems step r2 obtain x where
        "b' = x @ ur_pending (fst (snd (ur_loop final dw b' (f, d2))))" by auto
      then have "rest = (a @ ''<'' @ t @ ''>'' @ x) @ ur_pending (fst (snd (ur_loop final dw b' (f, d2))))"
        using s(1) b(1) by simp
      then show ?thesis unfolding step using r2 by simp
    qed
  qed
qed

interpretation ur: piecewise_filter "ur_write dw" "ur_flush_pending dw" out ur_pending
  "\<lambda>f t. sink_ok dw out \<and> short_tags (ur_pending f @ t) \<and> ur_replace f = replace" "rewrite_page replace" for dw out replace
proof (unfold_locales, goal_cases)
  case (1 f c t d)
  then have sink: "sink_ok dw out" and short: "short_tags (ur_pending f @ c @ t)" and rep: "ur_replace f = replace" by simp_all
  let ?f = "f\<lparr>ur_pending := ur_pending f @ c\<rparr>"
  have "short_tags (ur_pending f @ c)" using short short_tags_prefix [of "ur_pending f @ c" t] by simp
  from ur_loop_ok [OF sink, of False _ ?f d, OF disjI2, OF this] obtain p d1 res where
    l: "ur_loop False dw (ur_pending f @ c) (?f, d) = (BR_OK, ?f\<lparr>ur_pending := p\<rparr>, d1)" "out d1 = out d @ res"
    "rewrite_page replace ((ur_pending f @ c) @ t) = res @ rewrite_page replace (p @ t)" using rep by auto
  obtain x where "ur_pending f @ c = x @ p"
    using ur_loop_keeps_suffix [of False dw "ur_pending f @ c" ?f d] l(1) by force
  then have "short_tags (p @ t)" using short short_tags_suffix [of x "p @ t"] by (metis append.assoc)
  then show ?case using l sink rep
    by (intro exI [of _ "f\<lparr>ur_pending := p\<rparr>"] exI [of _ d1] exI [of _ res]) (simp add: ur_write_def)
next
  case (2 f d)
  then have sink: "sink_ok dw out" and rep: "ur_replace f = replace" by simp_all
  from ur_loop_ok [OF sink, of True "ur_pending f" f d] obtain d' res where
    "ur_loop True dw (ur_pending f) (f, d) = (BR_OK, f\<lparr>ur_pending := []\<rparr>, d')" "out d' = out d @ res"
    "rewrite_page replace (ur_pending f) = res @ rewrite_page replace []" using rep by auto
  moreover have "rewrite_page replace [] = []" by (subst rewrite_page.simps) simp
  ultimately show ?case by (auto simp: ur_flush_pending_def)
qed

text \<open>
  The filter of addresses does not depend on how a page is cut into pieces: when no tag is longer than the
  buffer for one, the body below gets the page with its tags rewritten, as if it had come in one piece.
\<close>

theorem url_filter_any_split:
  assumes "sink_ok dw out" "short_tags (concat cs)"
  shows "\<exists>f' d'. run_body (ur_write dw) (ur_flush_pending dw) cs (\<lparr>ur_replace = replace, ur_pending = []\<rparr>, d) = (BR_OK, f', d') \<and>
    out d' = out d @ rewrite_page replace (concat cs)"
  using ur.any_split [of dw out "\<lparr>ur_replace = replace, ur_pending = []\<rparr>" cs replace d] assms by simp

section \<open>What is relied on of expressions\<close>

text \<open>
  An expression without assertions stands for the set \<open>L\<close> of the texts it matches. \<open>occurs L s i j\<close>: such a
  text is in \<open>s\<close> from \<open>i\<close> to \<open>j\<close>. \<open>begun L s i\<close>: from \<open>i\<close> on \<open>s\<close> is the beginning of such a text.
\<close>

definition occurs :: "string set \<Rightarrow> string \<Rightarrow> nat \<Rightarrow> nat \<Rightarrow> bool" where
  "occurs L s i j \<longleftrightarrow> i < j \<and> j \<le> length s \<and> take (j - i) (drop i s) \<in> L"

definition begun :: "string set \<Rightarrow> string \<Rightarrow> nat \<Rightarrow> bool" where
  "begun L s i \<longleftrightarrow> i < length s \<and> (\<exists>ext. ext \<noteq> [] \<and> drop i s @ ext \<in> L)"

text \<open>
  A search finds the first text there is; only when there is none, and when it is asked for, it reports
  the first one that has begun. The groups depend on the text that was matched.
\<close>

definition rx_laws :: "string set \<Rightarrow> (string \<Rightarrow> string list) \<Rightarrow> bool \<Rightarrow> (string \<Rightarrow> rx_result) \<Rightarrow> bool" where
  "rx_laws L groups partial rx \<longleftrightarrow> (\<forall>s.
     (case rx s of
        Rx_match a b g \<Rightarrow> occurs L s a b \<and> (\<forall>i j. occurs L s i j \<longrightarrow> a \<le> i) \<and> g = groups (take (b - a) (drop a s))
      | Rx_partial st \<Rightarrow> partial \<and> (\<forall>i j. \<not> occurs L s i j) \<and> (\<exists>i. st = Some i \<and> begun L s i \<and> (\<forall>k. begun L s k \<longrightarrow> i \<le> k))
      | Rx_none \<Rightarrow> (\<forall>i j. \<not> occurs L s i j) \<and> (partial \<longrightarrow> (\<forall>i. \<not> begun L s i))))"

lemma rx_lawsD:
  assumes "rx_laws L groups partial rx"
  shows "\<And>a b g. rx s = Rx_match a b g \<Longrightarrow>
      occurs L s a b \<and> (\<forall>i j. occurs L s i j \<longrightarrow> a \<le> i) \<and> g = groups (take (b - a) (drop a s))"
    "\<And>st. rx s = Rx_partial st \<Longrightarrow>
      partial \<and> (\<forall>i j. \<not> occurs L s i j) \<and> (\<exists>i. st = Some i \<and> begun L s i \<and> (\<forall>k. begun L s k \<longrightarrow> i \<le> k))"
    "rx s = Rx_none \<Longrightarrow> (\<forall>i j. \<not> occurs L s i j) \<and> (partial \<longrightarrow> (\<forall>i. \<not> begun L s i))"
  using assms [unfolded rx_laws_def, THEN spec, of s] by simp_all

lemma occurs_drop: "k \<le> i \<Longrightarrow> occurs L (x @ s) i j \<Longrightarrow> length x = k \<Longrightarrow> occurs L s (i - k) (j - k)"
  by (auto simp: occurs_def drop_append)

lemma occurs_append: "occurs L s i j \<Longrightarrow> occurs L (s @ t) i j"
  by (auto simp: occurs_def)

lemma occurs_prepend: "occurs L s i j \<Longrightarrow> occurs L (x @ s) (length x + i) (length x + j)"
  by (simp add: occurs_def)

text \<open>A text that is in \<open>s @ t\<close> and begins in \<open>s\<close> is in \<open>s\<close>, or has begun there.\<close>

lemma occurs_split:
  assumes "occurs L (s @ t) i j" "i < length s"
  shows "occurs L s i j \<or> begun L s i"
proof (cases "j \<le> length s")
  case True
  with assms show ?thesis by (auto simp: occurs_def)
next
  case False
  have "take (j - i) (drop i (s @ t)) = drop i s @ take (j - length s) t" using False assms(2) by simp
  moreover have "take (j - length s) t \<noteq> []" using False assms(1) by (auto simp: occurs_def)
  ultimately show ?thesis using assms unfolding occurs_def begun_def by metis
qed

lemma partial_start_eq: "i \<le> n \<Longrightarrow> partial_start (Some i) n = i"
  by (simp add: partial_start_def)

lemma begun_short:
  assumes "begun L s i" "\<forall>w\<in>L. int (length w) \<le> B + 1"
  shows "int (length (drop i s)) \<le> B"
proof -
  from assms(1) obtain ext where "ext \<noteq> []" "drop i s @ ext \<in> L" unfolding begun_def by blast
  moreover from this(2) assms(2) have "int (length (drop i s @ ext)) \<le> B + 1" by blast
  ultimately show ?thesis by (cases ext) auto
qed

section \<open>A refused text does not pass\<close>

definition denies :: "reg_filter \<Rightarrow> bool" where
  "denies f \<longleftrightarrow> rg_action f \<noteq> JUMP_ALLOW \<and> rg_action f \<noteq> JUMP_CONTINUE \<and> \<not> rg_disabled f"

text \<open>
  One call: it denies, or everything below what is kept was passed down, and no refused text of the body
  begins there, whatever comes next.
\<close>

lemma rg_process_step:
  assumes sink: "sink_ok dw out" and rx: "rx_laws L groups True (rg_rx f True)" "rx_laws L groups False (rg_rx f False)"
    and small: "\<forall>w\<in>L. int (length w) \<le> rg_buffer f + 1" and f: "denies f"
  obtains (denied) "rg_process final dw (f, d) = (BR_EDENIED, f\<lparr>rg_pending := []\<rparr>, d)" "\<exists>i j. occurs L (rg_pending f) i j"
    | (passed) x p d' where "rg_process final dw (f, d) = (BR_OK, f\<lparr>rg_pending := p\<rparr>, d')" "rg_pending f = x @ p" "out d' = out d @ x"
      "\<And>i j. \<not> occurs L (rg_pending f) i j" "\<And>t i j. \<not> final \<Longrightarrow> occurs L (rg_pending f @ t) i j \<Longrightarrow> length x \<le> i"
      "final \<Longrightarrow> p = []"
proof -
  let ?s = "rg_pending f"
  obtain d1 where flush: "write_down dw d ?s = (BR_OK, d1)" "out d1 = out d @ ?s" using write_down_ok [OF sink] by blast
  have all: "\<not> final \<Longrightarrow> occurs L (?s @ t) i j \<Longrightarrow> (\<And>i j. \<not> occurs L ?s i j) \<Longrightarrow> (\<And>i. \<not> begun L ?s i) \<Longrightarrow> length ?s \<le> i" for t i j
    using occurs_split [of L ?s t i j] by (meson not_le)
  have law: "rx_laws L groups (\<not> final) (rg_rx f (\<not> final))" using rx by (cases final) simp_all
  show ?thesis
  proof (cases "?s = []")
    case True
    then have "\<And>i j. \<not> occurs L ?s i j" by (simp add: occurs_def)
    with True passed [where x = "[]" and p = "[]" and d' = d] show ?thesis by (simp add: rg_process_def)
  next
    case ne: False
    show ?thesis
    proof (cases "rg_rx f (\<not> final) ?s")
      case (Rx_match a b g)
      with ne f rx_lawsD(1) [OF law Rx_match] denied show ?thesis by (auto simp: rg_process_def denies_def)
    next
      case (Rx_partial st)
      from rx_lawsD(2) [OF law this] obtain i where st: "st = Some i" "begun L ?s i" "\<And>k. begun L ?s k \<Longrightarrow> i \<le> k"
        and no: "\<And>i j. \<not> occurs L ?s i j" and nf: "\<not> final" by blast
      have i: "i < length ?s" using st(2) by (simp add: begun_def)
      obtain d2 where d2: "(if i > 0 then write_down dw d (take i ?s) else (BR_OK, d)) = (BR_OK, d2)" "out d2 = out d @ take i ?s"
        using write_down_ok [OF sink, of d "take i ?s"] by (cases "i > 0") auto
      have "rg_process final dw (f, d) = (BR_OK, f\<lparr>rg_pending := drop i ?s\<rparr>, d2)"
        using ne Rx_partial nf st(1) i d2(1) begun_short [OF st(2) small]
        by (simp add: rg_process_def partial_start_eq Let_def del: if_split)
      moreover have "i \<le> k" if "occurs L (?s @ t) k j" for t k j
        using occurs_split [OF that] no st(3) i by (cases "k < length ?s") auto
      ultimately show ?thesis using passed [where x = "take i ?s" and p = "drop i ?s" and d' = d2] d2(2) no i nf by simp
    next
      case Rx_none
      from rx_lawsD(3) [OF law this] have no: "\<And>i j. \<not> occurs L ?s i j" and nb: "\<not> final \<Longrightarrow> \<not> begun L ?s i" for i by auto
      have "rg_process final dw (f, d) = (BR_OK, f\<lparr>rg_pending := []\<rparr>, d1)"
        using ne Rx_none flush(1) by (simp add: rg_process_def)
      with passed [where x = ?s and p = "[]" and d' = d1] flush(2) no nb all show ?thesis by simp
    qed
  qed
qed

lemma rg_writes_ok:
  assumes sink: "sink_ok dw out" and laws: "rx_laws L groups True (rg_rx f True)" "rx_laws L groups False (rg_rx f False)"
    and small: "\<forall>w\<in>L. int (length w) \<le> rg_buffer f + 1" and f: "denies f"
  shows "\<exists>r q d' x. run_writes (rg_write dw) cs (f\<lparr>rg_pending := p\<rparr>, d) = (r, f\<lparr>rg_pending := q\<rparr>, d') \<and> out d' = out d @ x \<and>
    (\<forall>i j. occurs L (p @ concat cs) i j \<longrightarrow> length x \<le> i) \<and>
    (r = BR_EDENIED \<and> (\<exists>i j. occurs L (p @ concat cs) i j) \<and> (\<exists>y. p @ concat cs = x @ y) \<or> r = BR_OK \<and> p @ concat cs = x @ q)"
proof (induction cs arbitrary: p d)
  case Nil
  show ?case by (intro exI [of _ BR_OK] exI [of _ p] exI [of _ d] exI [of _ "[]"]) simp
next
  case (Cons c cs)
  let ?f = "f\<lparr>rg_pending := p @ c\<rparr>"
  have hyps: "rx_laws L groups True (rg_rx ?f True)" "rx_laws L groups False (rg_rx ?f False)" "\<forall>w\<in>L. int (length w) \<le> rg_buffer ?f + 1"
    "denies ?f" using laws small f by (simp_all add: denies_def)
  have wr: "rg_write dw c (f\<lparr>rg_pending := p\<rparr>, d) = rg_process False dw (?f, d)" using f by (simp add: rg_write_def denies_def)
  show ?case
  proof (rule rg_process_step [OF sink hyps, of False d])
    assume den: "rg_process False dw (?f, d) = (BR_EDENIED, ?f\<lparr>rg_pending := []\<rparr>, d)" "\<exists>i j. occurs L (rg_pending ?f) i j"
    from den(2) have "\<exists>i j. occurs L (p @ concat (c # cs)) i j" using occurs_append [of L "p @ c" _ _ "concat cs"] by auto
    with den(1) wr show ?case by (intro exI [of _ BR_EDENIED] exI [of _ "[]"] exI [of _ d]) simp
  next
    fix x q d1 assume ps: "rg_process False dw (?f, d) = (BR_OK, ?f\<lparr>rg_pending := q\<rparr>, d1)" "rg_pending ?f = x @ q" "out d1 = out d @ x"
      and later: "\<And>t i j. \<not> False \<Longrightarrow> occurs L (rg_pending ?f @ t) i j \<Longrightarrow> length x \<le> i"
    from Cons.IH [of q d1] obtain r q' d' x' where
      ih: "run_writes (rg_write dw) cs (f\<lparr>rg_pending := q\<rparr>, d1) = (r, f\<lparr>rg_pending := q'\<rparr>, d')" "out d' = out d1 @ x'"
      "\<And>i j. occurs L (q @ concat cs) i j \<Longrightarrow> length x' \<le> i"
      "r = BR_EDENIED \<and> (\<exists>i j. occurs L (q @ concat cs) i j) \<and> (\<exists>y. q @ concat cs = x' @ y) \<or> r = BR_OK \<and> q @ concat cs = x' @ q'"
      by blast
    have T: "p @ concat (c # cs) = x @ q @ concat cs" using ps(2) by simp
    have run: "run_writes (rg_write dw) (c # cs) (f\<lparr>rg_pending := p\<rparr>, d) = (r, f\<lparr>rg_pending := q'\<rparr>, d')"
      using wr ps(1) ih(1) by simp
    have "length (x @ x') \<le> i" if oc: "occurs L (p @ concat (c # cs)) i j" for i j
    proof -
      have "length x \<le> i" using later [of "concat cs" i j] oc by simp
      moreover from this have "length x' \<le> i - length x"
        using ih(3) occurs_drop [of "length x" i L x "q @ concat cs" j] oc [unfolded T] by blast
      ultimately show ?thesis by simp
    qed
    moreover have "r = BR_EDENIED \<and> (\<exists>i j. occurs L (p @ concat (c # cs)) i j) \<and> (\<exists>y. p @ concat (c # cs) = (x @ x') @ y) \<or>
        r = BR_OK \<and> p @ concat (c # cs) = (x @ x') @ q'"
      using ih(4) occurs_prepend [of L "q @ concat cs" _ _ x] T by (metis append.assoc)
    moreover have "out d' = out d @ x @ x'" using ps(3) ih(2) by simp
    ultimately show ?case using run by blast
  qed
qed


section \<open>Replacing in a whole body\<close>

function replace_text :: "(string \<Rightarrow> rx_result) \<Rightarrow> (string list \<Rightarrow> string) \<Rightarrow> string \<Rightarrow> string" where
  "replace_text rx mk s =
     (if s = [] then []
      else (case rx s of
        Rx_match a b g \<Rightarrow> if b \<le> a then s else take a s @ mk g @ replace_text rx mk (drop b s)
      | _ \<Rightarrow> s))"
  by auto
termination
  by (relation "measure (\<lambda>(rx, mk, s). length s)") auto

declare replace_text.simps [simp del]

text \<open>No text of the expression is a part of another one; a keyword is such an expression.\<close>

definition infix_free :: "string set \<Rightarrow> bool" where
  "infix_free L \<longleftrightarrow> (\<forall>x w y. w \<in> L \<longrightarrow> x @ w @ y \<in> L \<longrightarrow> x = [] \<and> y = [])"

lemma take_slice: "a \<le> b \<Longrightarrow> take (b - a) (drop a s) = drop a (take b s)"
  by (simp add: drop_take)

lemma infix_free_occurs:
  assumes "infix_free L" "occurs L s i j" "occurs L s a b" "i \<le> a" "b \<le> j"
  shows "i = a \<and> b = j"
proof -
  let ?w = "drop a (take b s)" and ?x = "drop i (take a s)" and ?y = "drop b (take j s)"
  have ij: "a < b" "j \<le> length s" "i < j" using assms(2,3) by (auto simp: occurs_def)
  have "drop i (take j s) = ?x @ ?w @ ?y"
  proof -
    have "take j s = take a s @ ?w @ ?y"
      using assms(5) ij by (metis append_assoc append_take_drop_id less_imp_le min.absorb1 take_take)
    then have "drop i (take j s) = drop i (take a s @ ?w @ ?y)" by (rule arg_cong)
    also have "\<dots> = ?x @ ?w @ ?y" using assms(4,5) ij by simp
    finally show ?thesis .
  qed
  then have "?x @ ?w @ ?y \<in> L" using assms(2) take_slice [OF less_imp_le [OF ij(3)], of s] by (simp add: occurs_def)
  moreover have "?w \<in> L" using assms(3) take_slice [OF less_imp_le [OF ij(1)], of s] by (simp add: occurs_def)
  ultimately have "?x = []" "?y = []" using assms(1) unfolding infix_free_def by blast+
  then show ?thesis using assms(4,5) ij by auto
qed

lemma occurs_same_start: "infix_free L \<Longrightarrow> occurs L s a b \<Longrightarrow> occurs L s a b' \<Longrightarrow> b = b'"
  using infix_free_occurs [of L s a b a b'] infix_free_occurs [of L s a b' a b] by (cases "b \<le> b'") auto

text \<open>The first text of a body is found in every piece of it that holds the text, and behind any text before it.\<close>

lemma rx_finds:
  assumes laws: "rx_laws L groups partial rx" and oc: "occurs L s i j"
  shows "\<exists>a b g. rx s = Rx_match a b g"
proof (cases "rx s")
  case (Rx_partial st)
  from rx_lawsD(2) [OF laws this] oc show ?thesis by blast
next
  case Rx_none
  from rx_lawsD(3) [OF laws this] oc show ?thesis by blast
qed simp

lemma rx_same_match:
  assumes laws: "rx_laws L groups True rx" and inf: "infix_free L" and oc: "occurs L s a b" "\<And>i j. occurs L s i j \<Longrightarrow> a \<le> i"
  shows "rx s = Rx_match a b (groups (take (b - a) (drop a s)))"
proof -
  obtain a' b' g where m': "rx s = Rx_match a' b' g" using rx_finds [OF laws oc(1)] by blast
  note m = rx_lawsD(1) [OF laws this]
  then have "a' = a" using oc by (meson antisym)
  moreover from this have "b' = b" using occurs_same_start [OF inf _ oc(1)] m by blast
  ultimately show ?thesis using m' m by simp
qed

lemma rx_match_append:
  assumes laws: "rx_laws L groups True rx" and inf: "infix_free L" and m: "rx s = Rx_match a b g"
  shows "rx (s @ t) = Rx_match a b g"
proof -
  note l = rx_lawsD(1) [OF laws m]
  have ab: "a < b" "b \<le> length s" using l by (auto simp: occurs_def)
  have "a \<le> i" if oc: "occurs L (s @ t) i j" for i j
  proof (rule ccontr)
    assume "\<not> a \<le> i"
    then have "\<not> occurs L s i j" using l by auto
    then have "\<not> j \<le> length s" using oc by (auto simp: occurs_def)
    then have "b \<le> j" using ab by simp
    then show False using infix_free_occurs [OF inf oc, of a b] occurs_append [of L s a b t] l \<open>\<not> a \<le> i\<close> by auto
  qed
  then have "rx (s @ t) = Rx_match a b (groups (take (b - a) (drop a (s @ t))))"
    using rx_same_match [OF laws inf occurs_append] l by blast
  then show ?thesis using l ab by simp
qed

lemma replace_text_skip:
  assumes laws: "rx_laws L groups True rx" and inf: "infix_free L" and k: "\<And>i j. occurs L (x @ s) i j \<Longrightarrow> length x \<le> i"
  shows "replace_text rx mk (x @ s) = x @ replace_text rx mk s"
proof (cases "\<exists>i j. occurs L (x @ s) i j")
  case False
  then have no: "\<not> occurs L s i j" for i j using occurs_prepend [of L s i j x] by blast
  have "replace_text rx mk (x @ s) = x @ s" using rx_lawsD(1) [OF laws, of "x @ s"] False
    by (subst replace_text.simps) (auto split: rx_result.split)
  moreover have "replace_text rx mk s = s" using rx_lawsD(1) [OF laws, of s] no
    by (subst replace_text.simps) (auto split: rx_result.split)
  ultimately show ?thesis by simp
next
  case True
  then obtain i j where ij: "occurs L (x @ s) i j" by blast
  obtain a b g where m: "rx (x @ s) = Rx_match a b g" using rx_finds [OF laws ij] by blast
  from rx_lawsD(1) [OF laws m] have l: "occurs L (x @ s) a b" "\<And>i j. occurs L (x @ s) i j \<Longrightarrow> a \<le> i"
    "g = groups (take (b - a) (drop a (x @ s)))" by blast+
  have a: "length x \<le> a" "a < b" "b \<le> length (x @ s)" using k [OF l(1)] l(1) unfolding occurs_def by blast+
  have oc: "occurs L s (a - length x) (b - length x)" using occurs_drop [OF a(1) l(1) refl] .
  moreover have "a - length x \<le> i" if "occurs L s i j" for i j using l(2) [OF occurs_prepend [OF that, of x]] by simp
  ultimately have "rx s = Rx_match (a - length x) (b - length x) (groups (take (b - length x - (a - length x)) (drop (a - length x) s)))"
    by (rule rx_same_match [OF laws inf])
  then have m': "rx s = Rx_match (a - length x) (b - length x) g" using l(3) a by (simp add: drop_append)
  have "s \<noteq> []" using a by auto
  then have "replace_text rx mk s = take (a - length x) s @ mk g @ replace_text rx mk (drop (b - length x) s)"
    using m' diff_less_mono [OF a(2,1)] by (subst replace_text.simps) simp
  moreover have "replace_text rx mk (x @ s) = x @ take (a - length x) s @ mk g @ replace_text rx mk (drop (b - length x) s)"
    using m a \<open>s \<noteq> []\<close> by (subst replace_text.simps) simp
  ultimately show ?thesis by simp
qed

text \<open>The filter when every match is replaced and the body goes on behind it.\<close>

definition replaces :: "string set \<Rightarrow> (string \<Rightarrow> string list) \<Rightarrow> (string list \<Rightarrow> string) \<Rightarrow> replace_filter \<Rightarrow> bool" where
  "replaces L groups mk f \<longleftrightarrow> rx_laws L groups True (rp_rx f) \<and> infix_free L \<and> (\<forall>w\<in>L. int (length w) \<le> rp_buffer f + 1) \<and>
     (\<forall>g. rp_make f g = Some (mk g)) \<and> \<not> rp_replaced_stop f \<and> \<not> rp_stopped f \<and> \<not> rp_disabled f"

lemma update_mark_eq: "\<exists>m. update_mark f = f\<lparr>rp_mark := m\<rparr>"
  unfolding update_mark_def by (cases f) auto

lemma rp_loop_ok:
  assumes "replaces L groups mk f"
  shows "\<exists>res p m. rp_loop final out rest (f\<lparr>rp_mark := m0\<rparr>) = Inr (out @ res, f\<lparr>rp_pending := p, rp_mark := m\<rparr>) \<and> (final \<longrightarrow> p = []) \<and>
    (\<forall>t. (final \<longrightarrow> t = []) \<longrightarrow> replace_text (rp_rx f) mk (rest @ t) = res @ replace_text (rp_rx f) mk (p @ t))"
proof (induction "length rest" arbitrary: rest out m0 rule: less_induct)
  case less
  let ?R = "replace_text (rp_rx f) mk"
  have laws: "rx_laws L groups True (rp_rx f)" and inf: "infix_free L" and small: "\<forall>w\<in>L. int (length w) \<le> rp_buffer f + 1"
    and mk: "rp_make f g = Some (mk g)" and go: "\<not> rp_replaced_stop f" for g using assms by (simp_all add: replaces_def)
  have nil: "?R [] = []" by (subst replace_text.simps) simp
  show ?case
  proof (cases "rest = []")
    case True
    then have "rp_loop final out rest (f\<lparr>rp_mark := m0\<rparr>) = Inr (out, f\<lparr>rp_pending := [], rp_mark := m0\<rparr>)"
      by (subst rp_loop.simps) simp
    with True show ?thesis by (intro exI [where x = "[]"] exI [of _ m0]) simp
  next
    case ne: False
    show ?thesis
    proof (cases "rp_rx f rest")
      case (Rx_match a b g)
      have ab: "a < b" "b \<le> length rest" using rx_lawsD(1) [OF laws Rx_match] by (auto simp: occurs_def)
      obtain m1 where m1: "update_mark (f\<lparr>rp_mark := m0\<rparr>) = f\<lparr>rp_mark := m1\<rparr>" using update_mark_eq [of "f\<lparr>rp_mark := m0\<rparr>"] by auto
      have "length (drop b rest) < length rest" using ab ne by simp
      from less [OF this, of "out @ take a rest @ mk g" m1] obtain res p m where
        ih: "rp_loop final (out @ take a rest @ mk g) (drop b rest) (f\<lparr>rp_mark := m1\<rparr>) =
            Inr ((out @ take a rest @ mk g) @ res, f\<lparr>rp_pending := p, rp_mark := m\<rparr>)" "final \<longrightarrow> p = []"
        "\<forall>t. (final \<longrightarrow> t = []) \<longrightarrow> ?R (drop b rest @ t) = res @ ?R (p @ t)" by blast
      have "rp_loop final out rest (f\<lparr>rp_mark := m0\<rparr>) = Inr (out @ take a rest @ mk g @ res, f\<lparr>rp_pending := p, rp_mark := m\<rparr>)"
        using ne Rx_match ab mk go m1 ih(1) by (subst rp_loop.simps) (simp add: Let_def)
      moreover have "?R (rest @ t) = take a rest @ mk g @ ?R (drop b rest @ t)" for t
        using rx_match_append [OF laws inf Rx_match, of t] ne ab by (subst replace_text.simps) simp
      ultimately show ?thesis using ih(2,3) by (intro exI [of _ "take a rest @ mk g @ res"] exI [of _ p] exI [of _ m]) simp
    next
      case (Rx_partial st)
      from rx_lawsD(2) [OF laws this] obtain i where st: "st = Some i" "begun L rest i" "\<And>k. begun L rest k \<Longrightarrow> i \<le> k"
        and no: "\<And>i j. \<not> occurs L rest i j" by blast
      have i: "i < length rest" using st(2) by (simp add: begun_def)
      show ?thesis
      proof (cases final)
        case True
        moreover have "?R rest = rest" using ne Rx_partial by (subst replace_text.simps) simp
        moreover have "rp_loop final out rest (f\<lparr>rp_mark := m0\<rparr>) = Inr (out @ rest, f\<lparr>rp_pending := [], rp_mark := m0\<rparr>)"
          using ne Rx_partial True by (subst rp_loop.simps) simp
        ultimately show ?thesis using nil by (intro exI [of _ rest] exI [of _ "[]"] exI [of _ m0]) simp
      next
        case False
        have "i \<le> k" if "occurs L (rest @ t) k j" for t k j
          using occurs_split [OF that] no st(3) i by (cases "k < length rest") auto
        then have "length (take i rest) \<le> k" if "occurs L (take i rest @ drop i rest @ t) k j" for t k j
          using that i by (metis append.assoc append_take_drop_id length_take less_imp_le min.absorb2)
        then have "?R (rest @ t) = take i rest @ ?R (drop i rest @ t)" for t
          using replace_text_skip [OF laws inf, of "take i rest" "drop i rest @ t" mk] append.assoc [of "take i rest" "drop i rest" t]
          by (metis append_take_drop_id)
        moreover have "rp_loop final out rest (f\<lparr>rp_mark := m0\<rparr>) = Inr (out @ take i rest, f\<lparr>rp_pending := drop i rest, rp_mark := m0\<rparr>)"
          using ne Rx_partial False st(1) i begun_short [OF st(2) small]
          by (subst rp_loop.simps) (simp add: partial_start_eq Let_def)
        ultimately show ?thesis using False by (intro exI [of _ "take i rest"] exI [of _ "drop i rest"] exI [of _ m0]) simp
      qed
    next
      case Rx_none
      note none = rx_lawsD(3) [OF laws this]
      have "length rest \<le> k" if "occurs L (rest @ t) k j" for t k j
        using occurs_split [OF that] none by (meson not_le)
      then have "?R (rest @ t) = rest @ ?R t" for t using replace_text_skip [OF laws inf, of rest t mk] by blast
      moreover have "rp_loop final out rest (f\<lparr>rp_mark := m0\<rparr>) = Inr (out @ rest, f\<lparr>rp_pending := [], rp_mark := m0\<rparr>)"
        using ne Rx_none go by (subst rp_loop.simps) simp
      ultimately show ?thesis by (intro exI [of _ rest] exI [of _ "[]"] exI [of _ m0]) simp
    qed
  qed
qed

lemma rp_process_ok:
  assumes "replaces L groups mk f" "sink_ok dw out"
  shows "\<exists>p m d' res. rp_process final dw (f, d) = (BR_OK, f\<lparr>rp_pending := p, rp_mark := m\<rparr>, d') \<and> out d' = out d @ res \<and>
    (final \<longrightarrow> p = []) \<and> (\<forall>t. (final \<longrightarrow> t = []) \<longrightarrow>
      replace_text (rp_rx f) mk (rp_pending f @ t) = res @ replace_text (rp_rx f) mk (p @ t))"
proof -
  from rp_loop_ok [OF assms(1), of final "[]" "rp_pending f" "rp_mark f"] obtain res p m where
    l: "rp_loop final [] (rp_pending f) f = Inr (res, f\<lparr>rp_pending := p, rp_mark := m\<rparr>)" "final \<longrightarrow> p = []"
      "\<forall>t. (final \<longrightarrow> t = []) \<longrightarrow> replace_text (rp_rx f) mk (rp_pending f @ t) = res @ replace_text (rp_rx f) mk (p @ t)" by auto
  obtain d' where d': "write_down dw d res = (BR_OK, d')" "out d' = out d @ res" using write_down_ok [OF assms(2)] by blast
  have "rp_process final dw (f, d) = (BR_OK, f\<lparr>rp_pending := p, rp_mark := m\<rparr>, d')" using l(1) d'(1) by (simp add: rp_process_def)
  with l(2,3) d'(2) show ?thesis by blast
qed

interpretation rp: piecewise_filter "rp_write dw" "rp_flush_pending dw" out rp_pending
  "\<lambda>f t. sink_ok dw out \<and> replaces L groups mk f \<and> rp_rx f = rx" "replace_text rx mk" for dw out L groups mk rx
proof (unfold_locales, goal_cases)
  case (1 f c t d)
  then have sink: "sink_ok dw out" and rep: "replaces L groups mk f" and rx: "rp_rx f = rx" by simp_all
  let ?f = "f\<lparr>rp_pending := rp_pending f @ c\<rparr>"
  have rf: "replaces L groups mk ?f" and go: "\<not> rp_stopped f" "\<not> rp_disabled f" using rep by (simp_all add: replaces_def)
  from rp_process_ok [OF rf sink, of False d] obtain p m d1 res where
    w: "rp_process False dw (?f, d) = (BR_OK, ?f\<lparr>rp_pending := p, rp_mark := m\<rparr>, d1)" "out d1 = out d @ res"
    "replace_text rx mk ((rp_pending f @ c) @ t) = res @ replace_text rx mk (p @ t)" using rx by auto
  have "replaces L groups mk (f\<lparr>rp_pending := p, rp_mark := m\<rparr>)" using rep by (simp add: replaces_def)
  then show ?case using w sink rx go
    by (intro exI [of _ "f\<lparr>rp_pending := p, rp_mark := m\<rparr>"] exI [of _ d1] exI [of _ res]) (simp add: rp_write_def)
next
  case (2 f d)
  then have sink: "sink_ok dw out" and rep: "replaces L groups mk f" and rx: "rp_rx f = rx" by simp_all
  from rp_process_ok [OF rep sink, of True d] obtain m d' res where
    "rp_process True dw (f, d) = (BR_OK, f\<lparr>rp_pending := [], rp_mark := m\<rparr>, d')" "out d' = out d @ res"
    "replace_text rx mk (rp_pending f) = res @ replace_text rx mk []" using rx by auto
  moreover have "replace_text rx mk [] = []" by (subst replace_text.simps) simp
  moreover have "\<not> rp_stopped f" using rep by (simp add: replaces_def)
  ultimately show ?case by (auto simp: rp_flush_pending_def)
qed


section \<open>A keyword as the expression\<close>

text \<open>The search for one keyword is such an expression.\<close>

definition keyword_at :: "string \<Rightarrow> string \<Rightarrow> nat \<Rightarrow> bool" where
  "keyword_at w s i \<longleftrightarrow> take (length w) (drop i s) = w"

definition keyword_begun :: "string \<Rightarrow> string \<Rightarrow> nat \<Rightarrow> bool" where
  "keyword_begun w s i \<longleftrightarrow> length s - i < length w \<and> take (length s - i) w = drop i s"

definition keyword_rx :: "string \<Rightarrow> bool \<Rightarrow> string \<Rightarrow> rx_result" where
  "keyword_rx w partial s =
     (case find (keyword_at w s) [0..<length s] of
        Some i \<Rightarrow> Rx_match i (i + length w) [w]
      | None \<Rightarrow>
          if partial then (case find (keyword_begun w s) [0..<length s] of Some i \<Rightarrow> Rx_partial (Some i) | None \<Rightarrow> Rx_none)
          else Rx_none)"

lemma find_first:
  "find P [0..<n] = Some i \<Longrightarrow> i < n \<and> P i \<and> (\<forall>k<i. \<not> P k)"
  "find P [0..<n] = None \<Longrightarrow> i < n \<Longrightarrow> \<not> P i"
  by (auto simp: find_Some_iff find_None_iff)

lemma occurs_keyword:
  assumes "w \<noteq> []"
  shows "occurs {w} s i j \<longleftrightarrow> i < length s \<and> keyword_at w s i \<and> j = i + length w"
proof
  assume oc: "occurs {w} s i j"
  then have "take (j - i) (drop i s) = w" "i < j" "j \<le> length s" by (simp_all add: occurs_def)
  moreover from this have "length w = j - i" by auto
  ultimately show "i < length s \<and> keyword_at w s i \<and> j = i + length w" by (auto simp: keyword_at_def)
next
  assume k: "i < length s \<and> keyword_at w s i \<and> j = i + length w"
  then have "length (take (length w) (drop i s)) = length w" by (simp add: keyword_at_def)
  then have "i + length w \<le> length s" using k by auto
  with k assms show "occurs {w} s i j" by (simp add: occurs_def keyword_at_def)
qed

lemma begun_keyword: "begun {w} s i \<longleftrightarrow> i < length s \<and> keyword_begun w s i"
proof
  assume "begun {w} s i"
  then obtain ext where "i < length s" "ext \<noteq> []" "w = drop i s @ ext" by (auto simp: begun_def)
  then show "i < length s \<and> keyword_begun w s i" by (cases ext) (auto simp: keyword_begun_def)
next
  assume k: "i < length s \<and> keyword_begun w s i"
  then have "drop i s @ drop (length s - i) w = w" by (metis append_take_drop_id keyword_begun_def)
  moreover have "drop (length s - i) w \<noteq> []" using k by (simp add: keyword_begun_def)
  ultimately show "begun {w} s i" using k unfolding begun_def by (metis singletonI)
qed

lemma keyword_rx_laws:
  assumes "w \<noteq> []"
  shows "rx_laws {w} (\<lambda>x. [x]) partial (keyword_rx w partial)"
  unfolding rx_laws_def
proof
  fix s
  show "case keyword_rx w partial s of
      Rx_match a b g \<Rightarrow> occurs {w} s a b \<and> (\<forall>i j. occurs {w} s i j \<longrightarrow> a \<le> i) \<and> g = [take (b - a) (drop a s)]
    | Rx_partial st \<Rightarrow> partial \<and> (\<forall>i j. \<not> occurs {w} s i j) \<and> (\<exists>i. st = Some i \<and> begun {w} s i \<and> (\<forall>k. begun {w} s k \<longrightarrow> i \<le> k))
    | Rx_none \<Rightarrow> (\<forall>i j. \<not> occurs {w} s i j) \<and> (partial \<longrightarrow> (\<forall>i. \<not> begun {w} s i))"
  proof (cases "find (keyword_at w s) [0..<length s]")
    case (Some a)
    from find_first(1) [OF this] have a: "a < length s" "keyword_at w s a" "\<And>i. keyword_at w s i \<Longrightarrow> a \<le> i" by (auto simp: not_less [symmetric])
    with Some show ?thesis by (simp add: keyword_rx_def occurs_keyword [OF assms]) (simp add: keyword_at_def)
  next
    case None
    then have no: "\<not> occurs {w} s i j" for i j using find_first(2) [OF None] by (auto simp: occurs_keyword [OF assms])
    show ?thesis
    proof (cases "find (keyword_begun w s) [0..<length s]")
      case (Some b)
      from find_first(1) [OF this] have "b < length s" "keyword_begun w s b" "\<And>i. keyword_begun w s i \<Longrightarrow> b \<le> i" by (auto simp: not_less [symmetric])
      with None Some no show ?thesis by (simp add: keyword_rx_def begun_keyword)
    next
      case none: None
      with None no find_first(2) [OF none] show ?thesis by (auto simp: keyword_rx_def begun_keyword)
    qed
  qed
qed

lemma infix_free_keyword: "infix_free {w}"
proof -
  have "length x + length y = 0" if "x @ w @ y = w" for x y using arg_cong [OF that, of length] by simp
  then show ?thesis unfolding infix_free_def by simp
qed

lemma short_page: "length s \<le> kMaxHtmlTag \<Longrightarrow> short_tags s"
proof -
  assume s: "length s \<le> kMaxHtmlTag"
  have "length (takeWhile (\<lambda>c. c \<noteq> CHR ''>'') b) < kMaxHtmlTag" if "s = a @ CHR ''<'' # b" for a b
    using s that length_takeWhile_le [of "\<lambda>c. c \<noteq> CHR ''>''" b] by simp
  then show ?thesis by (simp add: short_tags_def)
qed

definition collect :: "string down" where
  "collect d x = (BR_OK, d @ x)"

lemma collect_ok: "sink_ok collect (\<lambda>d. d)"
  by (simp add: sink_ok_def collect_def)

theorem url_filter_any_split_witness:
  "\<exists>f' d'. run_body (ur_write collect) (ur_flush_pending collect) [''x<a hr'', ''ef=b'', ''>y<''] (\<lparr>ur_replace = \<lambda>u. Some ''c'', ur_pending = []\<rparr>, []) = (BR_OK, f', d') \<and>
    d' = ''x<a href=c>y<''"
proof -
  have "short_tags (concat [''x<a hr'', ''ef=b'', ''>y<''])" by (rule short_page) (simp add: kMaxHtmlTag_def)
  moreover have "rewrite_page (\<lambda>u. Some ''c'') (concat [''x<a hr'', ''ef=b'', ''>y<'']) = ''x<a href=c>y<''" by code_simp
  ultimately show ?thesis using url_filter_any_split [OF collect_ok, of "[''x<a hr'', ''ef=b'', ''>y<'']" "\<lambda>u. Some ''c''" "[]"] by simp
qed



text \<open>
  A replacement that ends the body stands for all of it only when no piece ends inside of a match: the text
  before a match that has begun is passed down at once, the text before one that has not is held back.
\<close>

definition stop_at_cat :: replace_filter where
  "stop_at_cat = \<lparr>rp_rx = keyword_rx ''cat'' True, rp_make = \<lambda>g. Some ''dog'', rp_mark_acl = 0, rp_mark_mark = 0, rp_replaced_stop = True,
     rp_buffer = 100, rp_pending = [], rp_stopped = False, rp_disabled = False, rp_mark = 0\<rparr>"

lemma replaced_stop_depends_on_pieces:
  "snd (snd (run_body (rp_write collect) (rp_flush_pending collect) [''a '', ''cat sat''] (stop_at_cat, []))) = ''dog''"
  "snd (snd (run_body (rp_write collect) (rp_flush_pending collect) [''a ca'', ''t sat''] (stop_at_cat, []))) = ''a dog''"
  by code_simp+

end
