(* ===== verification/Md5.thy ===== *)
theory Md5
  imports Kgl_Prelude
begin

unbundle bit_operations_syntax

text \<open>
  The message digest of the program: \<^verbatim>\<open>src/kmd5.cpp\<close>, with which passwords, digest responses and sticky
  cookies are hashed. A context takes a message in pieces; the digest is that of the whole message. The
  reference is the algorithm of RFC 1321 with its table of constants, without unrolling and without a
  buffer: \<open>md5_compress\<close>, \<open>md5_pad\<close> and \<open>md5\<close>.

  A piece is shorter than \<open>2 ^ 32 - 64\<close> bytes, where \<^verbatim>\<open>i + 63\<close> does not wrap; the counters do wrap.
\<close>

section \<open>The code\<close>

type_synonym md5_words = "u32 \<times> u32 \<times> u32 \<times> u32"

record md5_ctx =
  md5_state :: md5_words
  md5_count0 :: u32
  md5_count1 :: u32
  md5_buffer :: "u8 list"

definition S11 :: nat where "S11 = 7"
definition S12 :: nat where "S12 = 12"
definition S13 :: nat where "S13 = 17"
definition S14 :: nat where "S14 = 22"
definition S21 :: nat where "S21 = 5"
definition S22 :: nat where "S22 = 9"
definition S23 :: nat where "S23 = 14"
definition S24 :: nat where "S24 = 20"
definition S31 :: nat where "S31 = 4"
definition S32 :: nat where "S32 = 11"
definition S33 :: nat where "S33 = 16"
definition S34 :: nat where "S34 = 23"
definition S41 :: nat where "S41 = 6"
definition S42 :: nat where "S42 = 10"
definition S43 :: nat where "S43 = 15"
definition S44 :: nat where "S44 = 21"

definition md5_F :: "u32 \<Rightarrow> u32 \<Rightarrow> u32 \<Rightarrow> u32" where "md5_F x y z = (x AND y) OR (NOT x AND z)"
definition md5_G :: "u32 \<Rightarrow> u32 \<Rightarrow> u32 \<Rightarrow> u32" where "md5_G x y z = (x AND z) OR (y AND NOT z)"
definition md5_H :: "u32 \<Rightarrow> u32 \<Rightarrow> u32 \<Rightarrow> u32" where "md5_H x y z = x XOR y XOR z"
definition md5_I :: "u32 \<Rightarrow> u32 \<Rightarrow> u32 \<Rightarrow> u32" where "md5_I x y z = y XOR (x OR NOT z)"

definition ROTATE_LEFT :: "u32 \<Rightarrow> nat \<Rightarrow> u32" where
  "ROTATE_LEFT x n = push_bit n x OR drop_bit (32 - n) x"

definition md5_FF :: "u32 \<Rightarrow> u32 \<Rightarrow> u32 \<Rightarrow> u32 \<Rightarrow> u32 \<Rightarrow> nat \<Rightarrow> u32 \<Rightarrow> u32" where
  "md5_FF a b c d x s ac = ROTATE_LEFT (a + (md5_F b c d + x + ac)) s + b"

definition md5_GG :: "u32 \<Rightarrow> u32 \<Rightarrow> u32 \<Rightarrow> u32 \<Rightarrow> u32 \<Rightarrow> nat \<Rightarrow> u32 \<Rightarrow> u32" where
  "md5_GG a b c d x s ac = ROTATE_LEFT (a + (md5_G b c d + x + ac)) s + b"

definition md5_HH :: "u32 \<Rightarrow> u32 \<Rightarrow> u32 \<Rightarrow> u32 \<Rightarrow> u32 \<Rightarrow> nat \<Rightarrow> u32 \<Rightarrow> u32" where
  "md5_HH a b c d x s ac = ROTATE_LEFT (a + (md5_H b c d + x + ac)) s + b"

definition md5_II :: "u32 \<Rightarrow> u32 \<Rightarrow> u32 \<Rightarrow> u32 \<Rightarrow> u32 \<Rightarrow> nat \<Rightarrow> u32 \<Rightarrow> u32" where
  "md5_II a b c d x s ac = ROTATE_LEFT (a + (md5_I b c d + x + ac)) s + b"

text \<open>\<^verbatim>\<open>Encode\<close> and \<^verbatim>\<open>Decode\<close>: words and their bytes, the lowest byte first.\<close>

definition encode_word :: "u32 \<Rightarrow> u8 list" where
  "encode_word w = [ucast (w AND 0xff), ucast (drop_bit 8 w AND 0xff), ucast (drop_bit 16 w AND 0xff), ucast (drop_bit 24 w AND 0xff)]"

definition Encode :: "u32 list \<Rightarrow> u8 list" where
  "Encode ws = concat (map encode_word ws)"

fun Decode :: "u8 list \<Rightarrow> u32 list" where
  "Decode (a # b # c # d # r) =
     (ucast a OR push_bit 8 (ucast b) OR push_bit 16 (ucast c) OR push_bit 24 (ucast d)) # Decode r"
| "Decode r = []"

definition KMD5Transform :: "md5_words \<Rightarrow> u8 list \<Rightarrow> md5_words" where
  "KMD5Transform state block =
     (case state of (s0, s1, s2, s3) \<Rightarrow>
      let a = s0; b = s1; c = s2; d = s3;
          x = Decode block;
          a = md5_FF a b c d (x ! 0) S11 0xd76aa478;
          d = md5_FF d a b c (x ! 1) S12 0xe8c7b756;
          c = md5_FF c d a b (x ! 2) S13 0x242070db;
          b = md5_FF b c d a (x ! 3) S14 0xc1bdceee;
          a = md5_FF a b c d (x ! 4) S11 0xf57c0faf;
          d = md5_FF d a b c (x ! 5) S12 0x4787c62a;
          c = md5_FF c d a b (x ! 6) S13 0xa8304613;
          b = md5_FF b c d a (x ! 7) S14 0xfd469501;
          a = md5_FF a b c d (x ! 8) S11 0x698098d8;
          d = md5_FF d a b c (x ! 9) S12 0x8b44f7af;
          c = md5_FF c d a b (x ! 10) S13 0xffff5bb1;
          b = md5_FF b c d a (x ! 11) S14 0x895cd7be;
          a = md5_FF a b c d (x ! 12) S11 0x6b901122;
          d = md5_FF d a b c (x ! 13) S12 0xfd987193;
          c = md5_FF c d a b (x ! 14) S13 0xa679438e;
          b = md5_FF b c d a (x ! 15) S14 0x49b40821;
          a = md5_GG a b c d (x ! 1) S21 0xf61e2562;
          d = md5_GG d a b c (x ! 6) S22 0xc040b340;
          c = md5_GG c d a b (x ! 11) S23 0x265e5a51;
          b = md5_GG b c d a (x ! 0) S24 0xe9b6c7aa;
          a = md5_GG a b c d (x ! 5) S21 0xd62f105d;
          d = md5_GG d a b c (x ! 10) S22 0x2441453;
          c = md5_GG c d a b (x ! 15) S23 0xd8a1e681;
          b = md5_GG b c d a (x ! 4) S24 0xe7d3fbc8;
          a = md5_GG a b c d (x ! 9) S21 0x21e1cde6;
          d = md5_GG d a b c (x ! 14) S22 0xc33707d6;
          c = md5_GG c d a b (x ! 3) S23 0xf4d50d87;
          b = md5_GG b c d a (x ! 8) S24 0x455a14ed;
          a = md5_GG a b c d (x ! 13) S21 0xa9e3e905;
          d = md5_GG d a b c (x ! 2) S22 0xfcefa3f8;
          c = md5_GG c d a b (x ! 7) S23 0x676f02d9;
          b = md5_GG b c d a (x ! 12) S24 0x8d2a4c8a;
          a = md5_HH a b c d (x ! 5) S31 0xfffa3942;
          d = md5_HH d a b c (x ! 8) S32 0x8771f681;
          c = md5_HH c d a b (x ! 11) S33 0x6d9d6122;
          b = md5_HH b c d a (x ! 14) S34 0xfde5380c;
          a = md5_HH a b c d (x ! 1) S31 0xa4beea44;
          d = md5_HH d a b c (x ! 4) S32 0x4bdecfa9;
          c = md5_HH c d a b (x ! 7) S33 0xf6bb4b60;
          b = md5_HH b c d a (x ! 10) S34 0xbebfbc70;
          a = md5_HH a b c d (x ! 13) S31 0x289b7ec6;
          d = md5_HH d a b c (x ! 0) S32 0xeaa127fa;
          c = md5_HH c d a b (x ! 3) S33 0xd4ef3085;
          b = md5_HH b c d a (x ! 6) S34 0x4881d05;
          a = md5_HH a b c d (x ! 9) S31 0xd9d4d039;
          d = md5_HH d a b c (x ! 12) S32 0xe6db99e5;
          c = md5_HH c d a b (x ! 15) S33 0x1fa27cf8;
          b = md5_HH b c d a (x ! 2) S34 0xc4ac5665;
          a = md5_II a b c d (x ! 0) S41 0xf4292244;
          d = md5_II d a b c (x ! 7) S42 0x432aff97;
          c = md5_II c d a b (x ! 14) S43 0xab9423a7;
          b = md5_II b c d a (x ! 5) S44 0xfc93a039;
          a = md5_II a b c d (x ! 12) S41 0x655b59c3;
          d = md5_II d a b c (x ! 3) S42 0x8f0ccc92;
          c = md5_II c d a b (x ! 10) S43 0xffeff47d;
          b = md5_II b c d a (x ! 1) S44 0x85845dd1;
          a = md5_II a b c d (x ! 8) S41 0x6fa87e4f;
          d = md5_II d a b c (x ! 15) S42 0xfe2ce6e0;
          c = md5_II c d a b (x ! 6) S43 0xa3014314;
          b = md5_II b c d a (x ! 13) S44 0x4e0811a1;
          a = md5_II a b c d (x ! 4) S41 0xf7537e82;
          d = md5_II d a b c (x ! 11) S42 0xbd3af235;
          c = md5_II c d a b (x ! 2) S43 0x2ad7d2bb;
          b = md5_II b c d a (x ! 9) S44 0xeb86d391
      in (s0 + a, s1 + b, s2 + c, s3 + d))"

definition KMD5Init :: md5_ctx where
  "KMD5Init =
     \<lparr>md5_state = (0x67452301, 0xefcdab89, 0x98badcfe, 0x10325476), md5_count0 = 0, md5_count1 = 0,
      md5_buffer = replicate 64 0\<rparr>"

text \<open>\<open>memcpy_at\<close> copies into a buffer; a copy that does not fit makes it longer than it was.\<close>

definition memcpy_at :: "'a list \<Rightarrow> nat \<Rightarrow> 'a list \<Rightarrow> 'a list" where
  "memcpy_at buf i bs = take i buf @ bs @ drop (i + length bs) buf"

text \<open>The loop of \<^verbatim>\<open>KMD5Update\<close>: \<open>rest\<close> is the input from \<^verbatim>\<open>i\<close> on.\<close>

function md5_blocks :: "(md5_words \<Rightarrow> u8 list \<Rightarrow> md5_words) \<Rightarrow> md5_words \<Rightarrow> u8 list \<Rightarrow> md5_words \<times> u8 list" where
  "md5_blocks tr st rest =
     (if 63 < length rest then md5_blocks tr (tr st (take 64 rest)) (drop 64 rest) else (st, rest))"
  by auto
termination
  by (relation "measure (\<lambda>(tr, st, rest). length rest)") auto

declare md5_blocks.simps [simp del]

definition count_index :: "md5_ctx \<Rightarrow> nat" where
  "count_index ctx = unat (drop_bit 3 (md5_count0 ctx) AND 0x3F)"

definition add_count :: "nat \<Rightarrow> md5_ctx \<Rightarrow> md5_ctx" where
  "add_count inputLen ctx =
     (let bits = push_bit 3 (of_nat inputLen); c0 = md5_count0 ctx + bits in
      ctx\<lparr>md5_count0 := c0,
          md5_count1 := (if c0 < bits then md5_count1 ctx + 1 else md5_count1 ctx) + drop_bit 29 (of_nat inputLen)\<rparr>)"

definition KMD5Update :: "md5_ctx \<Rightarrow> u8 list \<Rightarrow> md5_ctx" where
  "KMD5Update context input =
     (let index = count_index context;
          ctx = add_count (length input) context;
          partLen = 64 - index in
      if length input \<ge> partLen then
        (let buf = memcpy_at (md5_buffer ctx) index (take partLen input);
             st = KMD5Transform (md5_state ctx) buf in
         case md5_blocks KMD5Transform st (drop partLen input) of (st, rest) \<Rightarrow>
           ctx\<lparr>md5_state := st, md5_buffer := memcpy_at buf 0 rest\<rparr>)
      else ctx\<lparr>md5_buffer := memcpy_at (md5_buffer ctx) index input\<rparr>)"

definition PADDING :: "u8 list" where
  "PADDING = 0x80 # replicate 63 0"

fun state_list :: "md5_words \<Rightarrow> u32 list" where
  "state_list (a, b, c, d) = [a, b, c, d]"

text \<open>The digest, and the context with its bytes zeroed.\<close>

definition KMD5Final :: "md5_ctx \<Rightarrow> u8 list \<times> md5_ctx" where
  "KMD5Final context =
     (let bits = Encode [md5_count0 context, md5_count1 context];
          index = count_index context;
          padLen = (if index < 56 then 56 - index else 120 - index);
          ctx = KMD5Update (KMD5Update context (take padLen PADDING)) bits in
      (Encode (state_list (md5_state ctx)),
       \<lparr>md5_state = (0, 0, 0, 0), md5_count0 = 0, md5_count1 = 0, md5_buffer = replicate 64 0\<rparr>))"

text \<open>Strings of the program are lists of characters.\<close>

definition bytes_of :: "string \<Rightarrow> u8 list" where
  "bytes_of s = map of_char s"

definition hex_digit :: "u8 \<Rightarrow> char" where
  "hex_digit w = ''0123456789abcdef'' ! unat w"

definition make_digest :: "u8 list \<Rightarrow> string" where
  "make_digest digest = concat (map (\<lambda>b. [hex_digit (drop_bit 4 b), hex_digit (b AND 0xf)]) (take 16 digest))"

definition KMD5BIN :: "string \<Rightarrow> u8 list" where
  "KMD5BIN buf = fst (KMD5Final (KMD5Update KMD5Init (bytes_of buf)))"

definition KMD5 :: "string \<Rightarrow> string" where
  "KMD5 buf = make_digest (fst (KMD5Final (KMD5Update KMD5Init (bytes_of buf))))"

section \<open>The algorithm\<close>

definition md5_K :: "u32 list" where
  "md5_K =
     [0xd76aa478, 0xe8c7b756, 0x242070db, 0xc1bdceee, 0xf57c0faf, 0x4787c62a, 0xa8304613, 0xfd469501,
      0x698098d8, 0x8b44f7af, 0xffff5bb1, 0x895cd7be, 0x6b901122, 0xfd987193, 0xa679438e, 0x49b40821,
      0xf61e2562, 0xc040b340, 0x265e5a51, 0xe9b6c7aa, 0xd62f105d, 0x2441453, 0xd8a1e681, 0xe7d3fbc8,
      0x21e1cde6, 0xc33707d6, 0xf4d50d87, 0x455a14ed, 0xa9e3e905, 0xfcefa3f8, 0x676f02d9, 0x8d2a4c8a,
      0xfffa3942, 0x8771f681, 0x6d9d6122, 0xfde5380c, 0xa4beea44, 0x4bdecfa9, 0xf6bb4b60, 0xbebfbc70,
      0x289b7ec6, 0xeaa127fa, 0xd4ef3085, 0x4881d05, 0xd9d4d039, 0xe6db99e5, 0x1fa27cf8, 0xc4ac5665,
      0xf4292244, 0x432aff97, 0xab9423a7, 0xfc93a039, 0x655b59c3, 0x8f0ccc92, 0xffeff47d, 0x85845dd1,
      0x6fa87e4f, 0xfe2ce6e0, 0xa3014314, 0x4e0811a1, 0xf7537e82, 0xbd3af235, 0x2ad7d2bb, 0xeb86d391]"

definition md5_shift :: "nat \<Rightarrow> nat" where
  "md5_shift i = [[7, 12, 17, 22], [5, 9, 14, 20], [4, 11, 16, 23], [6, 10, 15, 21]] ! (i div 16) ! (i mod 4)"

definition md5_index :: "nat \<Rightarrow> nat" where
  "md5_index i = [i, 5 * i + 1, 3 * i + 5, 7 * i] ! (i div 16) mod 16"

definition md5_fun :: "nat \<Rightarrow> u32 \<Rightarrow> u32 \<Rightarrow> u32 \<Rightarrow> u32" where
  "md5_fun i = [md5_F, md5_G, md5_H, md5_I] ! (i div 16)"

text \<open>One operation, with the registers renamed so that the next one works on the same places.\<close>

fun md5_step :: "u32 list \<Rightarrow> md5_words \<Rightarrow> nat \<Rightarrow> md5_words" where
  "md5_step x (a, b, c, d) i =
     (d, b + word_rotl (md5_shift i) (a + md5_fun i b c d + x ! md5_index i + md5_K ! i), b, c)"

definition md5_compress :: "md5_words \<Rightarrow> u8 list \<Rightarrow> md5_words" where
  "md5_compress st block =
     (case (st, foldl (md5_step (Decode block)) st [0..<64]) of
        ((a, b, c, d), (a', b', c', d')) \<Rightarrow> (a + a', b + b', c + c', d + d'))"

definition md5_pad :: "u8 list \<Rightarrow> u8 list" where
  "md5_pad m = m @ [0x80] @ replicate ((119 - length m mod 64) mod 64) 0 @
     Encode [of_nat (8 * length m), of_nat (8 * length m div 2 ^ 32)]"

definition md5 :: "u8 list \<Rightarrow> u8 list" where
  "md5 m = Encode (state_list (fst (md5_blocks md5_compress (md5_state KMD5Init) (md5_pad m))))"

section \<open>The unrolled transformation\<close>

lemma ROTATE_LEFT_rotl:
  assumes "0 < n" "n < 32"
  shows "ROTATE_LEFT x n = word_rotl n x"
  unfolding ROTATE_LEFT_def
proof (rule bit_word_eqI)
  fix i assume "i < LENGTH(32)"
  then have i: "i < 32" by simp
  show "bit (push_bit n x OR drop_bit (32 - n) x) i \<longleftrightarrow> bit (word_rotl n x) i"
  proof (cases "n \<le> i")
    case True
    have "(i + 32 - n) mod 32 = ((i - n) + 32) mod 32" using True by simp
    also have "\<dots> = i - n" using i by (simp only: mod_add_self2 mod_less less_imp_diff_less)
    finally have "(i + 32 - n) mod 32 = i - n" .
    moreover have "\<not> bit x (32 - n + i)" using True assms by (intro notI) (auto dest: bit_imp_le_length)
    ultimately show ?thesis using True i by (simp add: bit_simps)
  next
    case False
    then have "(i + 32 - n mod 32) mod 32 = 32 - n + i" using assms by simp
    then show ?thesis using False i by (simp add: bit_simps)
  qed
qed

text \<open>The value one operation computes; for each of the 64 it is a macro call of the code.\<close>

definition md5_op :: "u32 list \<Rightarrow> nat \<Rightarrow> u32 \<Rightarrow> u32 \<Rightarrow> u32 \<Rightarrow> u32 \<Rightarrow> u32" where
  "md5_op x i a b c d = b + word_rotl (md5_shift i) (a + md5_fun i b c d + x ! md5_index i + md5_K ! i)"

lemmas md5_op_defs = md5_op_def md5_shift_def md5_fun_def md5_index_def md5_K_def ROTATE_LEFT_rotl ac_simps

lemma md5_round1:
  "md5_op x 0 a b c d = md5_FF a b c d (x ! 0) S11 0xd76aa478"
  "md5_op x 1 a b c d = md5_FF a b c d (x ! 1) S12 0xe8c7b756"
  "md5_op x 2 a b c d = md5_FF a b c d (x ! 2) S13 0x242070db"
  "md5_op x 3 a b c d = md5_FF a b c d (x ! 3) S14 0xc1bdceee"
  "md5_op x 4 a b c d = md5_FF a b c d (x ! 4) S11 0xf57c0faf"
  "md5_op x 5 a b c d = md5_FF a b c d (x ! 5) S12 0x4787c62a"
  "md5_op x 6 a b c d = md5_FF a b c d (x ! 6) S13 0xa8304613"
  "md5_op x 7 a b c d = md5_FF a b c d (x ! 7) S14 0xfd469501"
  "md5_op x 8 a b c d = md5_FF a b c d (x ! 8) S11 0x698098d8"
  "md5_op x 9 a b c d = md5_FF a b c d (x ! 9) S12 0x8b44f7af"
  "md5_op x 10 a b c d = md5_FF a b c d (x ! 10) S13 0xffff5bb1"
  "md5_op x 11 a b c d = md5_FF a b c d (x ! 11) S14 0x895cd7be"
  "md5_op x 12 a b c d = md5_FF a b c d (x ! 12) S11 0x6b901122"
  "md5_op x 13 a b c d = md5_FF a b c d (x ! 13) S12 0xfd987193"
  "md5_op x 14 a b c d = md5_FF a b c d (x ! 14) S13 0xa679438e"
  "md5_op x 15 a b c d = md5_FF a b c d (x ! 15) S14 0x49b40821"
  by (simp_all add: md5_op_defs md5_FF_def S11_def S12_def S13_def S14_def, (simp add: numeral_eq_Suc)+)

lemma md5_round2:
  "md5_op x 16 a b c d = md5_GG a b c d (x ! 1) S21 0xf61e2562"
  "md5_op x 17 a b c d = md5_GG a b c d (x ! 6) S22 0xc040b340"
  "md5_op x 18 a b c d = md5_GG a b c d (x ! 11) S23 0x265e5a51"
  "md5_op x 19 a b c d = md5_GG a b c d (x ! 0) S24 0xe9b6c7aa"
  "md5_op x 20 a b c d = md5_GG a b c d (x ! 5) S21 0xd62f105d"
  "md5_op x 21 a b c d = md5_GG a b c d (x ! 10) S22 0x2441453"
  "md5_op x 22 a b c d = md5_GG a b c d (x ! 15) S23 0xd8a1e681"
  "md5_op x 23 a b c d = md5_GG a b c d (x ! 4) S24 0xe7d3fbc8"
  "md5_op x 24 a b c d = md5_GG a b c d (x ! 9) S21 0x21e1cde6"
  "md5_op x 25 a b c d = md5_GG a b c d (x ! 14) S22 0xc33707d6"
  "md5_op x 26 a b c d = md5_GG a b c d (x ! 3) S23 0xf4d50d87"
  "md5_op x 27 a b c d = md5_GG a b c d (x ! 8) S24 0x455a14ed"
  "md5_op x 28 a b c d = md5_GG a b c d (x ! 13) S21 0xa9e3e905"
  "md5_op x 29 a b c d = md5_GG a b c d (x ! 2) S22 0xfcefa3f8"
  "md5_op x 30 a b c d = md5_GG a b c d (x ! 7) S23 0x676f02d9"
  "md5_op x 31 a b c d = md5_GG a b c d (x ! 12) S24 0x8d2a4c8a"
  by (simp_all add: md5_op_defs md5_GG_def S21_def S22_def S23_def S24_def, (simp add: numeral_eq_Suc)+)

lemma md5_round3:
  "md5_op x 32 a b c d = md5_HH a b c d (x ! 5) S31 0xfffa3942"
  "md5_op x 33 a b c d = md5_HH a b c d (x ! 8) S32 0x8771f681"
  "md5_op x 34 a b c d = md5_HH a b c d (x ! 11) S33 0x6d9d6122"
  "md5_op x 35 a b c d = md5_HH a b c d (x ! 14) S34 0xfde5380c"
  "md5_op x 36 a b c d = md5_HH a b c d (x ! 1) S31 0xa4beea44"
  "md5_op x 37 a b c d = md5_HH a b c d (x ! 4) S32 0x4bdecfa9"
  "md5_op x 38 a b c d = md5_HH a b c d (x ! 7) S33 0xf6bb4b60"
  "md5_op x 39 a b c d = md5_HH a b c d (x ! 10) S34 0xbebfbc70"
  "md5_op x 40 a b c d = md5_HH a b c d (x ! 13) S31 0x289b7ec6"
  "md5_op x 41 a b c d = md5_HH a b c d (x ! 0) S32 0xeaa127fa"
  "md5_op x 42 a b c d = md5_HH a b c d (x ! 3) S33 0xd4ef3085"
  "md5_op x 43 a b c d = md5_HH a b c d (x ! 6) S34 0x4881d05"
  "md5_op x 44 a b c d = md5_HH a b c d (x ! 9) S31 0xd9d4d039"
  "md5_op x 45 a b c d = md5_HH a b c d (x ! 12) S32 0xe6db99e5"
  "md5_op x 46 a b c d = md5_HH a b c d (x ! 15) S33 0x1fa27cf8"
  "md5_op x 47 a b c d = md5_HH a b c d (x ! 2) S34 0xc4ac5665"
  by (simp_all add: md5_op_defs md5_HH_def S31_def S32_def S33_def S34_def, (simp add: numeral_eq_Suc)+)

lemma md5_round4:
  "md5_op x 48 a b c d = md5_II a b c d (x ! 0) S41 0xf4292244"
  "md5_op x 49 a b c d = md5_II a b c d (x ! 7) S42 0x432aff97"
  "md5_op x 50 a b c d = md5_II a b c d (x ! 14) S43 0xab9423a7"
  "md5_op x 51 a b c d = md5_II a b c d (x ! 5) S44 0xfc93a039"
  "md5_op x 52 a b c d = md5_II a b c d (x ! 12) S41 0x655b59c3"
  "md5_op x 53 a b c d = md5_II a b c d (x ! 3) S42 0x8f0ccc92"
  "md5_op x 54 a b c d = md5_II a b c d (x ! 10) S43 0xffeff47d"
  "md5_op x 55 a b c d = md5_II a b c d (x ! 1) S44 0x85845dd1"
  "md5_op x 56 a b c d = md5_II a b c d (x ! 8) S41 0x6fa87e4f"
  "md5_op x 57 a b c d = md5_II a b c d (x ! 15) S42 0xfe2ce6e0"
  "md5_op x 58 a b c d = md5_II a b c d (x ! 6) S43 0xa3014314"
  "md5_op x 59 a b c d = md5_II a b c d (x ! 13) S44 0x4e0811a1"
  "md5_op x 60 a b c d = md5_II a b c d (x ! 4) S41 0xf7537e82"
  "md5_op x 61 a b c d = md5_II a b c d (x ! 11) S42 0xbd3af235"
  "md5_op x 62 a b c d = md5_II a b c d (x ! 2) S43 0x2ad7d2bb"
  "md5_op x 63 a b c d = md5_II a b c d (x ! 9) S44 0xeb86d391"
  by (simp_all add: md5_op_defs md5_II_def S41_def S42_def S43_def S44_def, (simp add: numeral_eq_Suc)+)

definition md5_finish :: "md5_words \<Rightarrow> md5_words \<Rightarrow> md5_words" where
  "md5_finish st q = (case (st, q) of ((a, b, c, d), (a', b', c', d')) \<Rightarrow> (a + a', b + b', c + c', d + d'))"

lemma md5_finish_step:
  "md5_finish st (foldl (md5_step x) (a, b, c, d) (i # is)) =
     (let v = md5_op x i a b c d in md5_finish st (foldl (md5_step x) (d, v, b, c) is))"
  by (simp add: md5_op_def Let_def)

lemma md5_finish_end:
  "md5_finish (s0, s1, s2, s3) (foldl (md5_step x) (a, b, c, d) []) = (s0 + a, s1 + b, s2 + c, s3 + d)"
  by (simp add: md5_finish_def)

lemma upt_64: "[0..<64] = [0, 1, 2, 3, 4, 5, 6, 7, 8, 9, 10, 11, 12, 13, 14, 15, 16, 17, 18, 19, 20, 21, 22, 23, 24, 25, 26, 27, 28, 29, 30, 31, 32, 33, 34, 35, 36, 37, 38, 39, 40, 41, 42, 43, 44, 45, 46, 47, 48, 49, 50, 51, 52, 53, 54, 55, 56, 57, 58, 59, 60, 61, 62, 63]"
  by (simp add: upt_rec)

lemma let_same: "(let a = t in f a) = f t"
  by (simp add: Let_def)

lemma KMD5Transform_compress: "KMD5Transform st block = md5_compress st block"
proof -
  obtain s0 s1 s2 s3 where st: "st = (s0, s1, s2, s3)" by (cases st)
  have "md5_compress st block = md5_finish st (foldl (md5_step (Decode block)) (s0, s1, s2, s3) [0..<64])"
    by (simp only: md5_compress_def md5_finish_def st)
  also have "\<dots> = KMD5Transform (s0, s1, s2, s3) block"
    by (simp only: st upt_64 md5_finish_step md5_finish_end md5_round1 md5_round2 md5_round3 md5_round4 KMD5Transform_def
      prod.case let_same [of s0] let_same [of s1] let_same [of s2] let_same [of s3] let_same [of "Decode block"])
  finally show ?thesis by (simp only: st)
qed

section \<open>Pieces of a message\<close>

lemma md5_blocks_short: "length m < 64 \<Longrightarrow> md5_blocks tr st m = (st, m)"
  by (subst md5_blocks.simps) simp

lemma md5_blocks_append:
  "md5_blocks tr st (m @ c) = (case md5_blocks tr st m of (st', r) \<Rightarrow> md5_blocks tr st' (r @ c))"
proof (induction "length m" arbitrary: st m rule: less_induct)
  case less
  show ?case
  proof (cases "63 < length m")
    case True
    then have "md5_blocks tr st (m @ c) = md5_blocks tr (tr st (take 64 m)) (drop 64 m @ c)" by (subst md5_blocks.simps) simp
    also have "\<dots> = (case md5_blocks tr (tr st (take 64 m)) (drop 64 m) of (st', r) \<Rightarrow> md5_blocks tr st' (r @ c))"
      using True by (intro less) simp
    finally show ?thesis using True by (simp add: md5_blocks.simps [of tr st m])
  qed (simp add: md5_blocks_short)
qed

lemma md5_blocks_rest: "length (snd (md5_blocks tr st m)) = length m mod 64"
proof (induction "length m" arbitrary: st m rule: less_induct)
  case less
  show ?case
  proof (cases "63 < length m")
    case True
    then have "length (snd (md5_blocks tr (tr st (take 64 m)) (drop 64 m))) = length (drop 64 m) mod 64" by (intro less) simp
    with True show ?thesis by (simp add: md5_blocks.simps [of tr st m] le_mod_geq)
  qed (simp add: md5_blocks_short)
qed

lemma transform_eq: "KMD5Transform = md5_compress"
  by (intro ext) (rule KMD5Transform_compress)

text \<open>A context that has taken the message \<open>m\<close>.\<close>

definition absorbed :: "md5_ctx \<Rightarrow> u8 list \<Rightarrow> bool" where
  "absorbed ctx m \<longleftrightarrow> length (md5_buffer ctx) = 64 \<and>
     md5_blocks md5_compress (md5_state KMD5Init) m = (md5_state ctx, take (length m mod 64) (md5_buffer ctx)) \<and>
     md5_count0 ctx = of_nat (8 * length m) \<and> md5_count1 ctx = of_nat (8 * length m div 2 ^ 32)"

lemma two_digits:
  fixes a b M :: nat
  assumes "a < M" "b < M"
  shows "(a + b) div M = (if a + b \<ge> M then 1 else 0)" "(a + b) mod M < b \<longleftrightarrow> a + b \<ge> M"
proof -
  have "(a + b) mod M = a + b - M" "(a + b) div M = 1" if "a + b \<ge> M"
    using that assms by (simp_all add: le_mod_geq le_div_geq)
  then show "(a + b) div M = (if a + b \<ge> M then 1 else 0)" "(a + b) mod M < b \<longleftrightarrow> a + b \<ge> M"
    using assms by (cases "a + b \<ge> M"; simp add: not_le)+
qed

lemma div_carry: "0 < M \<Longrightarrow> (x + y :: nat) div M = x div M + y div M + (if x mod M + y mod M \<ge> M then 1 else 0)"
  using two_digits(1) [of "x mod M" M "y mod M"] by (simp only: div_add1_eq [of x y] mod_less_divisor)

lemma carry_iff: "0 < M \<Longrightarrow> (x + y :: nat) mod M < y mod M \<longleftrightarrow> x mod M + y mod M \<ge> M"
  using two_digits(2) [of "x mod M" M "y mod M"] by (simp only: mod_add_eq mod_less_divisor)

lemma unat_drop_bit: "unat (drop_bit n w) = unat (w :: u32) div 2 ^ n"
  by (simp only: unat_drop_bit_eq) (simp only: drop_bit_eq_div)

lemma unat_and_63: "unat (w AND 0x3F :: u32) = unat w mod 64"
proof -
  have "(0x3F :: u32) = mask 6" by (simp add: mask_eq_exp_minus_1)
  then have "w AND 0x3F = take_bit 6 w" by (simp add: take_bit_eq_mask)
  moreover have "unat (take_bit 6 w) = take_bit 6 (unat w)" by transfer (simp add: take_bit_take_bit flip: nat_take_bit_eq)
  ultimately show ?thesis by (simp add: take_bit_eq_mod)
qed

lemma count_index_absorbed:
  assumes "absorbed ctx m"
  shows "count_index ctx = length m mod 64"
proof -
  have "unat (md5_count0 ctx) = 8 * length m mod 2 ^ 32" using assms by (simp only: absorbed_def unat_of_nat) simp
  also have "\<dots> = 8 * (length m mod 2 ^ 29)" using mult_mod_right [of 8 "length m" "2 ^ 29"] by simp
  finally show ?thesis by (simp add: count_index_def unat_and_63 unat_drop_bit mod_mod_cancel)
qed

text \<open>The counter of bits is kept in two words, with the carry.\<close>

lemma add_count_absorbed:
  assumes "absorbed ctx m" "n < 2 ^ 32"
  shows "md5_count0 (add_count n ctx) = of_nat (8 * (length m + n))" "md5_count1 (add_count n ctx) = of_nat (8 * (length m + n) div 2 ^ 32)"
proof -
  let ?x = "8 * length m" and ?y = "8 * n"
  have c: "md5_count0 ctx = of_nat ?x" "md5_count1 ctx = of_nat (?x div 2 ^ 32)" using assms(1) by (simp_all add: absorbed_def)
  have push: "push_bit 3 (of_nat n) = (of_nat ?y :: u32)" by (simp add: push_bit_eq_mult)
  have sum: "md5_count0 ctx + push_bit 3 (of_nat n) = of_nat (?x + ?y)" unfolding c push by simp
  show "md5_count0 (add_count n ctx) = of_nat (8 * (length m + n))"
    unfolding add_count_def Let_def sum by (simp add: distrib_left)
  have high: "drop_bit 29 (of_nat n) = (of_nat (?y div 2 ^ 32) :: u32)"
  proof -
    have "unat (drop_bit 29 (of_nat n) :: u32) = n div 2 ^ 29" using assms(2) by (simp add: unat_drop_bit unat_of_nat)
    moreover have "?y div 2 ^ 32 = n div 2 ^ 29" using div_mult_mult1 [of 8 n "2 ^ 29"] by simp
    moreover have "unat (of_nat (n div 2 ^ 29) :: u32) = n div 2 ^ 29" using assms(2) by (simp only: unat_of_nat) simp
    ultimately show ?thesis by (simp add: word_unat_eq_iff)
  qed
  have carry: "md5_count0 ctx + push_bit 3 (of_nat n) < push_bit 3 (of_nat n) \<longleftrightarrow> ?x mod 2 ^ 32 + ?y mod 2 ^ 32 \<ge> 2 ^ 32"
  proof -
    have "md5_count0 ctx + push_bit 3 (of_nat n) < push_bit 3 (of_nat n) \<longleftrightarrow> (?x + ?y) mod 2 ^ 32 < ?y mod 2 ^ 32"
      unfolding sum word_less_nat_alt unfolding push unat_of_nat by simp
    also have "\<dots> \<longleftrightarrow> ?x mod 2 ^ 32 + ?y mod 2 ^ 32 \<ge> 2 ^ 32"
      by (rule carry_iff) simp
    finally show ?thesis .
  qed
  have "(?x + ?y) div 2 ^ 32 = ?x div 2 ^ 32 + ?y div 2 ^ 32 + (if ?x mod 2 ^ 32 + ?y mod 2 ^ 32 \<ge> 2 ^ 32 then 1 else 0)"
    by (rule div_carry) simp
  then show "md5_count1 (add_count n ctx) = of_nat (8 * (length m + n) div 2 ^ 32)"
    by (simp only: add_count_def Let_def carry high c(2) distrib_left) simp
qed

lemma take_memcpy_at: "i \<le> length buf \<Longrightarrow> take (i + length bs) (memcpy_at buf i bs) = take i buf @ bs"
  by (simp add: memcpy_at_def)

lemma length_memcpy_at: "i + length bs \<le> length buf \<Longrightarrow> length (memcpy_at buf i bs) = length buf"
  by (simp add: memcpy_at_def)

lemma mod_64_add:
  fixes a n :: nat
  assumes "n < 64 - a mod 64"
  shows "(a + n) mod 64 = a mod 64 + n"
proof -
  have "a mod 64 + n < 64" using assms by linarith
  then show ?thesis by (metis mod_add_left_eq mod_less)
qed

lemma KMD5Update_absorbed:
  assumes ab: "absorbed ctx m" and n: "length c < 2 ^ 32"
  shows "absorbed (KMD5Update ctx c) (m @ c)"
proof -
  let ?ctx = "add_count (length c) ctx" and ?i = "length m mod 64" and ?init = "md5_state KMD5Init"
  note count = add_count_absorbed [OF ab n]
  have keep: "md5_state ?ctx = md5_state ctx" "md5_buffer ?ctx = md5_buffer ctx" by (simp_all add: add_count_def Let_def)
  have buf: "length (md5_buffer ctx) = 64" and
    bl: "md5_blocks md5_compress ?init m = (md5_state ctx, take ?i (md5_buffer ctx))" using ab by (simp_all add: absorbed_def)
  have i: "?i < 64" by simp
  show ?thesis
  proof (cases "64 - ?i \<le> length c")
    case True
    let ?part = "take (64 - ?i) c" and ?r = "drop (64 - ?i) c"
    let ?buf = "memcpy_at (md5_buffer ctx) ?i ?part"
    have len: "?i + length ?part = 64" using True i by simp
    then have b: "?buf = take ?i (md5_buffer ctx) @ ?part" using buf by (simp add: memcpy_at_def)
    have l64: "length ?buf = 64" using length_memcpy_at [of ?i ?part "md5_buffer ctx"] len buf by (simp del: length_take)
    obtain st rest where r: "md5_blocks md5_compress (md5_compress (md5_state ctx) ?buf) ?r = (st, rest)" by fastforce
    have up: "KMD5Update ctx c = ?ctx\<lparr>md5_state := st, md5_buffer := memcpy_at ?buf 0 rest\<rparr>"
      using True r by (simp add: KMD5Update_def Let_def count_index_absorbed [OF ab] keep transform_eq)
    have "md5_blocks md5_compress ?init (m @ c) = md5_blocks md5_compress (md5_state ctx) (take ?i (md5_buffer ctx) @ c)"
      by (simp only: md5_blocks_append [of _ _ m c] bl prod.case)
    also have "\<dots> = md5_blocks md5_compress (md5_state ctx) (?buf @ ?r)" unfolding b by simp
    also have "\<dots> = md5_blocks md5_compress (md5_compress (md5_state ctx) ?buf) ?r"
      using l64 by (subst md5_blocks.simps) (simp del: length_drop)
    also have "\<dots> = (st, rest)" by (rule r)
    finally have blocks: "md5_blocks md5_compress ?init (m @ c) = (st, rest)" .
    have rest: "length rest = length (m @ c) mod 64" using md5_blocks_rest [of md5_compress ?init "m @ c"] blocks by simp
    have "length rest \<le> 64" using rest by (simp add: less_imp_le)
    with l64 have "length (memcpy_at ?buf 0 rest) = 64" "take (length rest) (memcpy_at ?buf 0 rest) = rest"
      using length_memcpy_at [of 0 rest ?buf] take_memcpy_at [of 0 ?buf rest] by simp_all
    then show ?thesis using blocks rest count unfolding absorbed_def up by simp
  next
    case False
    then have fit: "?i + length c < 64" by linarith
    have up: "KMD5Update ctx c = ?ctx\<lparr>md5_buffer := memcpy_at (md5_buffer ctx) ?i c\<rparr>"
      using False by (simp add: KMD5Update_def Let_def count_index_absorbed [OF ab] keep)
    have "md5_blocks md5_compress ?init (m @ c) = (md5_state ctx, take ?i (md5_buffer ctx) @ c)"
      using fit buf by (simp add: md5_blocks_append [of _ _ m c] bl md5_blocks_short)
    moreover have "length (m @ c) mod 64 = ?i + length c" using fit mod_64_add [of "length c" "length m"] by simp
    moreover have "take (?i + length c) (memcpy_at (md5_buffer ctx) ?i c) = take ?i (md5_buffer ctx) @ c"
      using i buf by (intro take_memcpy_at) simp
    moreover have "length (memcpy_at (md5_buffer ctx) ?i c) = 64" using fit buf length_memcpy_at [of ?i c "md5_buffer ctx"] by simp
    ultimately show ?thesis using count keep unfolding absorbed_def up by simp
  qed
qed

lemma absorbed_init: "absorbed KMD5Init []"
  by (simp add: absorbed_def KMD5Init_def md5_blocks_short)

lemma absorbed_pieces:
  "absorbed ctx m \<Longrightarrow> \<forall>c\<in>set cs. length c < 2 ^ 32 - 64 \<Longrightarrow> absorbed (foldl KMD5Update ctx cs) (m @ concat cs)"
proof (induction cs arbitrary: ctx m)
  case (Cons c cs)
  then have "absorbed (KMD5Update ctx c) (m @ c)" by (intro KMD5Update_absorbed) auto
  from Cons.IH [OF this] Cons.prems(2) show ?case by simp
qed simp

lemma Encode_length: "length (Encode ws) = 4 * length ws"
  by (induction ws) (simp_all add: Encode_def encode_word_def)

lemma KMD5Final_absorbed:
  assumes "absorbed ctx m"
  shows "fst (KMD5Final ctx) = md5 m"
proof -
  let ?i = "length m mod 64"
  let ?n = "if ?i < 56 then 56 - ?i else 120 - ?i" and ?bits = "Encode [md5_count0 ctx, md5_count1 ctx]"
  have i: "?i < 64" by simp
  have n: "0 < ?n" "?n \<le> 64" "?n - 1 = (119 - ?i) mod 64" using i by (auto simp: le_mod_geq)
  have "take ?n PADDING = 0x80 # replicate (?n - 1) 0"
    using n(1,2) by (cases ?n) (simp_all add: PADDING_def)
  moreover have "?bits = Encode [of_nat (8 * length m), of_nat (8 * length m div 2 ^ 32)]" using assms by (simp add: absorbed_def)
  ultimately have pad: "md5_pad m = (m @ take ?n PADDING) @ ?bits" unfolding md5_pad_def n(3) by simp
  have "absorbed (KMD5Update (KMD5Update ctx (take ?n PADDING)) ?bits) (md5_pad m)"
    unfolding pad using assms n(2) by (intro KMD5Update_absorbed) (simp_all add: PADDING_def Encode_length)
  then have "fst (md5_blocks md5_compress (md5_state KMD5Init) (md5_pad m)) = md5_state (KMD5Update (KMD5Update ctx (take ?n PADDING)) ?bits)"
    unfolding absorbed_def by (metis fst_conv)
  then show ?thesis by (simp add: KMD5Final_def md5_def Let_def count_index_absorbed [OF assms])
qed

text \<open>
  C36. The digest of a message that is fed in pieces of any size is the MD5 of the whole message, with its
  length modulo \<open>2 ^ 64\<close> bits, and the unrolled transformation is the one of RFC 1321.
\<close>

theorem md5_any_split:
  assumes "\<forall>c\<in>set cs. length c < 2 ^ 32 - 64"
  shows "fst (KMD5Final (foldl KMD5Update KMD5Init cs)) = md5 (concat cs)"
  using KMD5Final_absorbed [OF absorbed_pieces [OF absorbed_init assms]] by simp

theorem md5_any_split_witness:
  "fst (KMD5Final (KMD5Update (KMD5Update KMD5Init (bytes_of ''ab'')) (bytes_of ''c''))) = md5 (bytes_of ''abc'')"
  using md5_any_split [of "[bytes_of ''ab'', bytes_of ''c'']"] by (simp add: bytes_of_def)

text \<open>
  C37. The text of a digest has 32 characters, all of them lower case hexadecimal digits, so that it fits the buffers of 33
  bytes of its callers and can be put into a header or a cookie as it is.
\<close>

theorem md5_text_type: "length (KMD5 s) = 32 \<and> set (KMD5 s) \<subseteq> set ''0123456789abcdef''"
proof -
  have "length (fst (KMD5Final ctx)) = 16" for ctx
    by (cases "md5_state (KMD5Update (KMD5Update ctx (take (if count_index ctx < 56 then 56 - count_index ctx else 120 - count_index ctx) PADDING))
        (Encode [md5_count0 ctx, md5_count1 ctx]))") (simp add: KMD5Final_def Let_def Encode_length)
  moreover have "hex_digit w \<in> set ''0123456789abcdef''" if "unat w < 16" for w
    unfolding hex_digit_def using that by (intro nth_mem) simp
  moreover have "unat (drop_bit 4 b) < 16" "unat (b AND 0xf) < 16" for b :: u8
  proof -
    have "unat (drop_bit 4 b) = unat b div 16" by (simp only: unat_drop_bit_eq) (simp add: drop_bit_eq_div)
    moreover have "unat b < 2 ^ LENGTH(8)" by (rule unsigned_less)
    ultimately show "unat (drop_bit 4 b) < 16" by simp
    have "b AND 0xf \<le> 0xf" by (rule word_and_le1)
    then show "unat (b AND 0xf) < 16" by (simp add: word_le_nat_alt)
  qed
  moreover have "length (make_digest ds) = 32" if "length ds = 16" for ds
    using that by (simp add: make_digest_def length_concat comp_def sum_list_triv)
  ultimately show ?thesis unfolding KMD5_def make_digest_def by fastforce
qed

end
