(* ===== verification/Digest_Auth.thy ===== *)
theory Digest_Auth
  imports Md5 Ordered_Map
begin

text \<open>
  Digest authentication: \<^verbatim>\<open>include/KHttpField.h\<close>, \<^verbatim>\<open>src/KHttpField.cpp\<close> (the fields of a header) and
  \<^verbatim>\<open>src/KHttpDigestAuth.cpp\<close> (challenges, the table of sessions, and the check of a response).

  Every challenge makes a session, which belongs to the address it was sent to. The table is an ordered map
  and a list of its keys, the least recently used first; \<^verbatim>\<open>KHttpDigestSession::lru\<close> is an iterator of the
  list, so that erasing or splicing it is removing or moving the key. The clock, the random number and the
  comparison of addresses are arguments; \<open>parse_url\<close> is the parser of khttpd. An operation that would read
  the front of an empty list is \<open>None\<close>.
\<close>

section \<open>Fields of a header\<close>

record http_field =
  hf_attr :: string
  hf_val :: "string option"

text \<open>What follows the name: whether a value does, and where the parser goes on.\<close>

definition after_name :: "char \<Rightarrow> string \<Rightarrow> bool \<times> string" where
  "after_name split s =
     (case s of
        [] \<Rightarrow> (False, [])
      | c # r \<Rightarrow>
          if c = CHR ''='' then (True, r)
          else if c = split then (False, r)
          else
            (let r = dropWhile is_space r in
             case r of
               [] \<Rightarrow> (False, [])
             | c # t \<Rightarrow> if c = CHR ''='' then (True, t) else if c = split then (False, t) else (False, r)))"

text \<open>The last loop: the rest behind the next comma.\<close>

definition after_value :: "string \<Rightarrow> string" where
  "after_value s = (case snd (cut_at (CHR '','') s) of None \<Rightarrow> [] | Some r \<Rightarrow> r)"

text \<open>One field, and the rest; the rest is \<open>None\<close> when a quoted value does not end.\<close>

definition field_parse :: "char \<Rightarrow> string \<Rightarrow> http_field \<times> string option" where
  "field_parse split s =
     (let s = dropWhile is_space s;
          stop = (\<lambda>c. c = CHR ''='' \<or> c = split \<or> is_space c);
          attr = takeWhile (\<lambda>c. \<not> stop c) s in
      case after_name split (dropWhile (\<lambda>c. \<not> stop c) s) of
        (False, hot) \<Rightarrow> (\<lparr>hf_attr = attr, hf_val = None\<rparr>, Some hot)
      | (True, hot) \<Rightarrow>
          (let hot = dropWhile is_space hot in
           if hot \<noteq> [] \<and> hd hot = CHR 0x22 then
             (case cut_at (CHR 0x22) (tl hot) of
                (v, None) \<Rightarrow> (\<lparr>hf_attr = attr, hf_val = None\<rparr>, None)
              | (v, Some r) \<Rightarrow> (\<lparr>hf_attr = attr, hf_val = Some v\<rparr>, Some (after_value r)))
           else
             (\<lparr>hf_attr = attr, hf_val = Some (takeWhile (\<lambda>c. c \<noteq> CHR '','' \<and> \<not> is_space c) hot)\<rparr>,
              Some (after_value hot))))"

lemma after_name_le: "length (snd (after_name split s)) \<le> length s - 1"
proof (cases s)
  case (Cons c r)
  have "length (dropWhile is_space r) \<le> length r" by (rule length_dropWhile_le)
  then show ?thesis using Cons by (auto simp: after_name_def Let_def split: list.split)
qed (simp add: after_name_def)

lemma after_value_le: "length (after_value s) \<le> length s"
  by (cases "cut_at (CHR '','') s") (auto simp: after_value_def split: option.split dest: cut_at_Some_length)

lemma field_parse_less:
  assumes "s \<noteq> []" "snd (field_parse split s) = Some r"
  shows "length r < length s"
proof -
  let ?s = "dropWhile is_space s" and ?stop = "\<lambda>c. c = CHR ''='' \<or> c = split \<or> is_space c"
  obtain b hot where an: "after_name split (dropWhile (\<lambda>c. \<not> ?stop c) ?s) = (b, hot)" by fastforce
  let ?hot = "dropWhile is_space hot"
  have "length hot \<le> length (dropWhile (\<lambda>c. \<not> ?stop c) ?s) - 1" using after_name_le [of split "dropWhile (\<lambda>c. \<not> ?stop c) ?s"] an by simp
  moreover have "length (dropWhile (\<lambda>c. \<not> ?stop c) ?s) \<le> length s" by (rule order_trans [OF length_dropWhile_le length_dropWhile_le])
  ultimately have hot: "length hot < length s" using assms(1) by (cases s) auto
  have h: "length ?hot \<le> length hot" by (rule length_dropWhile_le)
  show ?thesis
  proof (cases b)
    case False
    with assms(2) an hot show ?thesis by (simp add: field_parse_def Let_def)
  next
    case True
    show ?thesis
    proof (cases "?hot \<noteq> [] \<and> hd ?hot = CHR 0x22")
      case q: True
      then obtain v r' where c: "cut_at (CHR 0x22) (tl ?hot) = (v, Some r')" "r = after_value r'"
        using assms(2) an True by (auto simp: field_parse_def Let_def split: prod.splits option.splits)
      have "length r' < length (tl ?hot)" using cut_at_Some_length c(1) by blast
      then have "length r' < length ?hot" by simp
      then show ?thesis using after_value_le [of r'] c(2) h hot by simp
    next
      case False
      then have "r = after_value ?hot" using assms(2) an True by (auto simp: field_parse_def Let_def split: if_splits)
      then show ?thesis using after_value_le [of ?hot] h hot by simp
    qed
  qed
qed

text \<open>\<^verbatim>\<open>KHttpField::parse\<close>: each field is put in front of the list.\<close>

function field_loop :: "char \<Rightarrow> string \<Rightarrow> http_field list \<Rightarrow> http_field list" where
  "field_loop split s header =
     (if s = [] then header
      else (case field_parse split s of (f, None) \<Rightarrow> f # header | (f, Some r) \<Rightarrow> field_loop split r (f # header)))"
  by auto
termination
proof (relation "measure (\<lambda>(split, s, header). length s)", goal_cases)
  case (2 split s header x f y)
  then show ?case using field_parse_less [of s split y] by (simp flip: 2(2))
qed simp

declare field_loop.simps [simp del]

section \<open>The credentials of a request\<close>

definition CRYPT_TYPE_PLAIN :: nat where "CRYPT_TYPE_PLAIN = 0"

record digest_fields =
  df_user :: "string option"
  df_realm :: "string option"
  df_nonce :: "string option"
  df_uri :: "string option"
  df_response :: "string option"
  df_qop :: "string option"
  df_nc :: "string option"
  df_cnonce :: "string option"

definition no_fields :: digest_fields where
  "no_fields = \<lparr>df_user = None, df_realm = None, df_nonce = None, df_uri = None, df_response = None, df_qop = None,
     df_nc = None, df_cnonce = None\<rparr>"

fun digest_loop :: "http_field list \<Rightarrow> digest_fields \<Rightarrow> digest_fields option" where
  "digest_loop [] d = Some d"
| "digest_loop (f # header) d =
     (let is = strcase_eq (hf_attr f); val = hf_val f in
      if is ''username'' \<and> (df_user d \<noteq> None \<or> val = None) then None
      else digest_loop header
        \<lparr>df_user = (if is ''username'' then val else df_user d),
         df_realm = (if is ''realm'' then val else df_realm d),
         df_nonce = (if is ''nonce'' then val else df_nonce d),
         df_uri = (if is ''uri'' then val else df_uri d),
         df_response = (if is ''response'' then val else df_response d),
         df_qop = (if is ''qop'' then val else df_qop d),
         df_nc = (if is ''nc'' then val else df_nc d),
         df_cnonce = (if is ''cnonce'' then val else df_cnonce d)\<rparr>)"

definition is_xdigit :: "char \<Rightarrow> bool" where
  "is_xdigit c \<longleftrightarrow> is_digit c \<or> (65 \<le> char_code c \<and> char_code c \<le> 70) \<or> (97 \<le> char_code c \<and> char_code c \<le> 102)"

text \<open>
  Credentials whose \<^verbatim>\<open>parse\<close> returned true; \<^verbatim>\<open>handle_http_header\<close> deletes any other ones. All members are
  set then.
\<close>

record digest_auth =
  da_user :: string
  da_realm :: string
  da_nonce :: string
  da_uri :: string
  da_response :: string
  da_qop :: string
  da_nc :: string
  da_cnonce :: string

definition digest_check :: "digest_fields \<Rightarrow> digest_auth option" where
  "digest_check d =
     (case (df_user d, df_realm d, df_nonce d, df_uri d, df_response d, df_nc d, df_cnonce d, df_qop d) of
        (Some user, Some realm, Some nonce, Some uri, Some response, Some nc, Some cnonce, Some qop) \<Rightarrow>
          if length response \<noteq> 32 \<or> length nc \<noteq> 8 \<or> cnonce = [] \<or> \<not> strcase_eq qop ''auth'' then None
          else if \<not> list_all is_xdigit response \<or> \<not> list_all is_xdigit nc then None
          else Some \<lparr>da_user = user, da_realm = realm, da_nonce = nonce, da_uri = uri, da_response = response, da_qop = qop,
                     da_nc = nc, da_cnonce = cnonce\<rparr>
      | _ \<Rightarrow> None)"

definition digest_parse :: "string option \<Rightarrow> digest_auth option" where
  "digest_parse str =
     (case str of None \<Rightarrow> None
      | Some s \<Rightarrow> (case digest_loop (field_loop (CHR '','') s []) no_fields of None \<Rightarrow> None | Some d \<Rightarrow> digest_check d))"

definition digest_verify :: "string \<Rightarrow> digest_auth \<Rightarrow> string \<Rightarrow> nat \<Rightarrow> bool" where
  "digest_verify method a password passwordType =
     (let ha1 = (if passwordType = CRYPT_TYPE_PLAIN then KMD5 (da_user a @ '':'' @ da_realm a @ '':'' @ password) else take 32 password);
          ha2 = KMD5 (method @ '':'' @ da_uri a);
          hresponse = KMD5 (ha1 @ '':'' @ da_nonce a @ '':'' @ da_nc a @ '':'' @ da_cnonce a @ '':'' @ da_qop a @ '':'' @ ha2) in
      strcase_eq (da_response a) hresponse)"

section \<open>The table of sessions\<close>

definition MAX_SESSION_LIFETIME :: int where "MAX_SESSION_LIFETIME = 300"
definition MAX_DIGEST_SESSION :: nat where "MAX_DIGEST_SESSION = 65536"

record 'a digest_session =
  ds_realm :: string
  ds_lastActive :: int
  ds_addr :: 'a

record 'a digest_table =
  sessions :: "(string \<times> 'a digest_session) list"
  dlru :: "string list"

definition new_digest_table :: "'a digest_table" where
  "new_digest_table = \<lparr>sessions = [], dlru = []\<rparr>"

definition remove_session :: "string \<Rightarrow> 'a digest_table \<Rightarrow> 'a digest_table" where
  "remove_session key t = t\<lparr>sessions := om_erase key (sessions t), dlru := remove1 key (dlru t)\<rparr>"

function flushSession :: "int \<Rightarrow> 'a digest_table \<Rightarrow> 'a digest_table" where
  "flushSession nowTime t =
     (case dlru t of
        [] \<Rightarrow> t
      | k # ks \<Rightarrow>
          (case om_find (sessions t) k of
             None \<Rightarrow> flushSession nowTime (t\<lparr>dlru := ks\<rparr>)
           | Some s \<Rightarrow>
               if nowTime \<le> ds_lastActive s + MAX_SESSION_LIFETIME then t
               else flushSession nowTime (remove_session k t)))"
  by auto
termination
  by (relation "measure (\<lambda>(now, t). length (dlru t))") (auto simp: remove_session_def)

declare flushSession.simps [simp del]

function evict :: "'a digest_table \<Rightarrow> 'a digest_table option" where
  "evict t =
     (if length (sessions t) > MAX_DIGEST_SESSION then
        (case dlru t of
           [] \<Rightarrow> None
         | k # ks \<Rightarrow>
             (case om_find (sessions t) k of
                None \<Rightarrow> evict (t\<lparr>dlru := ks\<rparr>)
              | Some s \<Rightarrow> evict (remove_session k t)))
      else Some t)"
  by auto
termination
  by (relation "measure (\<lambda>t. length (dlru t))") (auto simp: remove_session_def)

declare evict.simps [simp del]

text \<open>\<^verbatim>\<open>%x\<close>\<close>

fun hex_nat :: "nat \<Rightarrow> string" where
  "hex_nat n = (if n < 16 then [''0123456789abcdef'' ! n] else hex_nat (n div 16) @ [''0123456789abcdef'' ! (n mod 16)])"

declare hex_nat.simps [simp del]

definition make_nonce :: "int \<Rightarrow> u32 \<Rightarrow> string" where
  "make_nonce now rand = hex_nat (unat (word_of_int now :: u32)) @ hex_nat (unat rand)"

definition digest_init :: "int \<Rightarrow> u32 \<Rightarrow> string \<Rightarrow> 'a \<Rightarrow> 'a digest_table \<Rightarrow> (string \<times> 'a digest_table) option" where
  "digest_init now rand realm peer t =
     (let nonce = make_nonce now rand in
      if om_find (sessions t) nonce \<noteq> None then Some (nonce, t)
      else map_option (Pair nonce)
        (evict (t\<lparr>sessions := om_insert nonce \<lparr>ds_realm = realm, ds_lastActive = now, ds_addr = peer\<rparr> (sessions t),
                  dlru := dlru t @ [nonce]\<rparr>)))"

text \<open>The challenge: the value of the header.\<close>

definition challenge_text :: "string \<Rightarrow> string \<Rightarrow> bool \<Rightarrow> string" where
  "challenge_text realm nonce stale =
     ''Digest realm='' @ [CHR 0x22] @ realm @ [CHR 0x22] @ '', qop='' @ [CHR 0x22] @ ''auth'' @ [CHR 0x22] @
     '', nonce='' @ [CHR 0x22] @ nonce @ [CHR 0x22] @ (if stale then '', stale=true'' else [])"

section \<open>The session of a request\<close>

record 'a auth_rq =
  rq_host :: "string option"
  rq_path :: "string option"
  rq_param :: "string option"
  rq_method :: string
  rq_peer :: 'a

type_synonym url_parser = "string \<Rightarrow> (string option \<times> string option \<times> string option) option"

definition same_url :: "url_parser \<Rightarrow> 'a auth_rq \<Rightarrow> string \<Rightarrow> bool" where
  "same_url parse_url rq uri =
     (case (rq_path rq, rq_host rq) of
        (Some path, Some host) \<Rightarrow>
          (case parse_url uri of
             None \<Rightarrow> False
           | Some (host2, path2, param2) \<Rightarrow>
               \<not> ((case host2 of None \<Rightarrow> False | Some h \<Rightarrow> \<not> strcase_eq h host) \<or> path2 \<noteq> Some path \<or> param2 \<noteq> rq_param rq))
      | _ \<Rightarrow> False)"

definition verify_rq :: "('a \<Rightarrow> 'a \<Rightarrow> int) \<Rightarrow> int \<Rightarrow> 'a auth_rq \<Rightarrow> 'a digest_session \<Rightarrow> bool \<times> 'a digest_session" where
  "verify_rq addr_compare now rq s =
     (if addr_compare (rq_peer rq) (ds_addr s) = 0 then (True, s\<lparr>ds_lastActive := now\<rparr>) else (False, s))"

definition verifySession ::
  "url_parser \<Rightarrow> ('a \<Rightarrow> 'a \<Rightarrow> int) \<Rightarrow> int \<Rightarrow> 'a auth_rq \<Rightarrow> digest_auth \<Rightarrow> 'a digest_table \<Rightarrow> bool \<times> 'a digest_table" where
  "verifySession parse_url addr_compare now rq a t =
     (if \<not> same_url parse_url rq (da_uri a) then (False, t)
      else
        (case om_find (sessions t) (da_nonce a) of
           None \<Rightarrow> (False, t)
         | Some s \<Rightarrow>
             if da_realm a \<noteq> ds_realm s then (False, t)
             else
               (case verify_rq addr_compare now rq s of (ok, s') \<Rightarrow>
                  (ok, t\<lparr>sessions := om_assign (da_nonce a) s' (sessions t),
                         dlru := (if ok then remove1 (da_nonce a) (dlru t) @ [da_nonce a] else dlru t)\<rparr>))))"

section \<open>A header is read as it is written\<close>

text \<open>A field as a client writes it, with or without quotes.\<close>

definition show_field :: "string \<times> bool \<times> string \<Rightarrow> string" where
  "show_field f = (case f of (attr, quoted, val) \<Rightarrow> attr @ ''='' @ (if quoted then [CHR 0x22] @ val @ [CHR 0x22] else val))"

fun show_fields :: "(string \<times> bool \<times> string) list \<Rightarrow> string" where
  "show_fields [] = []"
| "show_fields [f] = show_field f"
| "show_fields (f # fs) = show_field f @ '', '' @ show_fields fs"

definition good_field :: "string \<times> bool \<times> string \<Rightarrow> bool" where
  "good_field f = (case f of (attr, quoted, val) \<Rightarrow>
     attr \<noteq> [] \<and> list_all (\<lambda>c. c \<noteq> CHR ''='' \<and> c \<noteq> CHR '','' \<and> \<not> is_space c) attr \<and>
     (if quoted then CHR 0x22 \<notin> set val else list_all (\<lambda>c. c \<noteq> CHR '','' \<and> \<not> is_space c \<and> c \<noteq> CHR 0x22) val))"

definition read_field :: "string \<times> bool \<times> string \<Rightarrow> http_field" where
  "read_field f = (case f of (attr, quoted, val) \<Rightarrow> \<lparr>hf_attr = attr, hf_val = Some val\<rparr>)"

lemma takeWhile_dropWhile_stop:
  "list_all P a \<Longrightarrow> \<not> P c \<Longrightarrow> takeWhile P (a @ c # r) = a \<and> dropWhile P (a @ c # r) = c # r"
  by (induction a) auto

lemma dropWhile_first: "s = [] \<or> \<not> P (hd s) \<Longrightarrow> dropWhile P s = s"
  by (cases s) auto

lemma comma_rest: "after_value (CHR '','' # r) = r" "after_value [] = []"
  by (simp_all add: after_value_def)

lemma after_value_skip: "CHR '','' \<notin> set a \<Longrightarrow> after_value (a @ r) = after_value r"
  by (induction a) (auto simp: after_value_def split: prod.split)

lemma field_parse_show:
  assumes "good_field f" "list_all is_space w" "r = [] \<or> (\<exists>r'. r = CHR '','' # r')"
  shows "field_parse (CHR '','') (w @ show_field f @ r) = (read_field f, Some (after_value r))"
proof -
  obtain attr quoted val where f: "f = (attr, quoted, val)" by (cases f)
  let ?p = "\<lambda>c. \<not> (c = CHR ''='' \<or> c = CHR '','' \<or> is_space c)"
  let ?v = "(if quoted then [CHR 0x22] @ val @ [CHR 0x22] else val) @ r"
  have attr: "attr \<noteq> []" "list_all ?p attr" using assms(1) by (auto simp: good_field_def f)
  then have hd: "\<not> is_space (hd attr)" by (cases attr) auto
  have "dropWhile is_space (w @ attr @ CHR ''='' # ?v) = attr @ CHR ''='' # ?v"
    using assms(2) attr(1) hd by (induction w) (auto intro: dropWhile_first)
  moreover have "takeWhile ?p (attr @ CHR ''='' # ?v) = attr \<and> dropWhile ?p (attr @ CHR ''='' # ?v) = CHR ''='' # ?v"
    using attr(2) by (intro takeWhile_dropWhile_stop) auto
  moreover have "after_name (CHR '','') (CHR ''='' # ?v) = (True, ?v)" by (simp add: after_name_def)
  ultimately have *: "field_parse (CHR '','') (w @ show_field f @ r) =
      (let hot = dropWhile is_space ?v in
       if hot \<noteq> [] \<and> hd hot = CHR 0x22 then
         (case cut_at (CHR 0x22) (tl hot) of
            (v, None) \<Rightarrow> (\<lparr>hf_attr = attr, hf_val = None\<rparr>, None)
          | (v, Some r) \<Rightarrow> (\<lparr>hf_attr = attr, hf_val = Some v\<rparr>, Some (after_value r)))
       else (\<lparr>hf_attr = attr, hf_val = Some (takeWhile (\<lambda>c. c \<noteq> CHR '','' \<and> \<not> is_space c) hot)\<rparr>, Some (after_value hot)))"
    unfolding field_parse_def Let_def by (simp add: f show_field_def)
  show ?thesis
  proof (cases quoted)
    case True
    then have q: "CHR 0x22 \<notin> set val" using assms(1) by (simp add: good_field_def f)
    have "\<not> is_space (CHR 0x22)" by (simp add: is_space_def)
    then have "dropWhile is_space ?v = CHR 0x22 # val @ CHR 0x22 # r" using True by simp
    then show ?thesis unfolding * using cut_at_append [OF q] by (simp add: read_field_def f)
  next
    case False
    let ?q = "\<lambda>c. c \<noteq> CHR '','' \<and> \<not> is_space c"
    have v: "list_all ?q val" "CHR 0x22 \<notin> set val" "CHR '','' \<notin> set val" using assms(1) False by (auto simp: good_field_def f list_all_iff)
    have "\<not> is_space (CHR '','')" by (simp add: is_space_def)
    then have "dropWhile is_space (val @ r) = val @ r" using v(1) assms(3) by (intro dropWhile_first) (cases val; auto)
    moreover have "\<not> (val @ r \<noteq> [] \<and> hd (val @ r) = CHR 0x22)" using v(2) assms(3) by (cases val) auto
    moreover have "takeWhile ?q (val @ r) = val"
    proof (cases "r = []")
      case True
      with v(1) show ?thesis by (simp add: list_all_iff takeWhile_eq_all_conv)
    next
      case False
      then obtain r' where "r = CHR '','' # r'" using assms(3) by blast
      with takeWhile_dropWhile_stop [OF v(1), of "CHR '',''" r'] show ?thesis by simp
    qed
    ultimately show ?thesis unfolding * using False after_value_skip [OF v(3), of r] by (auto simp: read_field_def f Let_def)
  qed
qed

lemma field_loop_show:
  "list_all good_field fs \<Longrightarrow> list_all is_space w \<Longrightarrow> fs \<noteq> [] \<Longrightarrow>
   field_loop (CHR '','') (w @ show_fields fs) hs = rev (map read_field fs) @ hs"
proof (induction fs arbitrary: w hs rule: show_fields.induct)
  case (2 f)
  have "w @ show_field f \<noteq> []" by (auto simp: show_field_def split: prod.split)
  with 2 field_parse_show [of f w "[]"] show ?case
    by (subst field_loop.simps) (simp add: comma_rest field_loop.simps [of _ "[]"])
next
  case (3 f g fs)
  have ne: "w @ show_field f @ '', '' @ show_fields (g # fs) \<noteq> []" by (auto simp: show_field_def split: prod.split)
  have p: "field_parse (CHR '','') (w @ show_field f @ '', '' @ show_fields (g # fs)) = (read_field f, Some ('' '' @ show_fields (g # fs)))"
    using 3(2,3) field_parse_show [of f w "'', '' @ show_fields (g # fs)"] by (simp add: comma_rest)
  have "field_loop (CHR '','') (w @ show_fields (f # g # fs)) hs = field_loop (CHR '','') ('' '' @ show_fields (g # fs)) (read_field f # hs)"
    using ne p by (subst field_loop.simps) simp
  also have "\<dots> = rev (map read_field (g # fs)) @ read_field f # hs"
    using 3(2) by (intro 3(1)) (simp_all add: is_space_def)
  finally show ?case by simp
qed simp

text \<open>The header of a client that answers a challenge, in the order of the comment in the source.\<close>

definition client_fields :: "digest_auth \<Rightarrow> (string \<times> bool \<times> string) list" where
  "client_fields a =
     [(''username'', True, da_user a), (''realm'', True, da_realm a), (''nonce'', True, da_nonce a), (''uri'', True, da_uri a),
      (''response'', True, da_response a), (''qop'', False, da_qop a), (''nc'', False, da_nc a), (''cnonce'', True, da_cnonce a)]"

definition good_auth :: "digest_auth \<Rightarrow> bool" where
  "good_auth a \<longleftrightarrow> CHR 0x22 \<notin> set (da_user a @ da_realm a @ da_nonce a @ da_uri a @ da_cnonce a) \<and> da_cnonce a \<noteq> [] \<and> da_qop a = ''auth'' \<and>
     length (da_response a) = 32 \<and> list_all is_xdigit (da_response a) \<and> length (da_nc a) = 8 \<and> list_all is_xdigit (da_nc a)"

lemma is_xdigit_plain: "is_xdigit c \<Longrightarrow> c \<noteq> CHR '','' \<and> \<not> is_space c \<and> c \<noteq> CHR 0x22"
  by (auto simp: is_xdigit_def is_digit_def char_code_def is_space_def)

lemma good_client_fields:
  assumes "good_auth a"
  shows "list_all good_field (client_fields a)"
proof -
  have x: "list_all is_xdigit (da_response a)" "list_all is_xdigit (da_nc a)" using assms by (simp_all add: good_auth_def)
  have "list_all (\<lambda>c. c \<noteq> CHR '','' \<and> \<not> is_space c \<and> c \<noteq> CHR 0x22) (da_nc a)" using x(2) is_xdigit_plain by (rule list.pred_mono_strong)
  moreover have "CHR 0x22 \<notin> set (da_response a)" using x(1) is_xdigit_plain unfolding list_all_iff by blast
  ultimately show ?thesis using assms by (simp add: good_auth_def client_fields_def good_field_def is_space_def)
qed

text \<open>
  The credentials a client writes in answer to a challenge are read back unchanged, and the challenge
  the server writes gives the client its realm and its nonce.
\<close>

theorem digest_header_roundtrip:
  assumes "good_auth a" "CHR 0x22 \<notin> set realm" "CHR 0x22 \<notin> set nonce"
  shows "digest_parse (Some (show_fields (client_fields a))) = Some a \<and>
    map_option (\<lambda>d. (df_realm d, df_nonce d, df_qop d))
      (digest_loop (field_loop (CHR '','') (drop 7 (challenge_text realm nonce stale)) []) no_fields) = Some (Some realm, Some nonce, Some ''auth'')"
proof
  have "field_loop (CHR '','') (show_fields (client_fields a)) [] = rev (map read_field (client_fields a))"
    using field_loop_show [OF good_client_fields [OF assms(1)], of "[]" "[]"] by (simp add: client_fields_def)
  moreover have "digest_loop (rev (map read_field (client_fields a))) no_fields =
      Some \<lparr>df_user = Some (da_user a), df_realm = Some (da_realm a), df_nonce = Some (da_nonce a), df_uri = Some (da_uri a),
        df_response = Some (da_response a), df_qop = Some (da_qop a), df_nc = Some (da_nc a), df_cnonce = Some (da_cnonce a)\<rparr>"
    by (simp add: client_fields_def read_field_def no_fields_def strcase_eq_def to_lower_def char_code_def)
  ultimately show "digest_parse (Some (show_fields (client_fields a))) = Some a"
    using assms(1) by (simp add: digest_parse_def digest_check_def good_auth_def strcase_eq_def)
next
  let ?fs = "[(''realm'', True, realm), (''qop'', True, ''auth''), (''nonce'', True, nonce)] @ (if stale then [(''stale'', False, ''true'')] else [])"
  have "drop 7 (challenge_text realm nonce stale) = show_fields ?fs" by (simp add: challenge_text_def show_field_def)
  moreover have "list_all good_field ?fs" using assms(2,3) by (simp add: good_field_def is_space_def)
  ultimately have "field_loop (CHR '','') (drop 7 (challenge_text realm nonce stale)) [] = rev (map read_field ?fs)"
    using field_loop_show [of ?fs "[]" "[]"] by simp
  then show "map_option (\<lambda>d. (df_realm d, df_nonce d, df_qop d))
      (digest_loop (field_loop (CHR '','') (drop 7 (challenge_text realm nonce stale)) []) no_fields) = Some (Some realm, Some nonce, Some ''auth'')"
    by (simp add: read_field_def no_fields_def strcase_eq_def to_lower_def char_code_def)
qed

section \<open>The map and the list belong together\<close>

definition digest_linked :: "'a digest_table \<Rightarrow> bool" where
  "digest_linked t \<longleftrightarrow> om_wf (sessions t) \<and> distinct (dlru t) \<and> (\<forall>k. k \<in> set (dlru t) \<longleftrightarrow> om_find (sessions t) k \<noteq> None)"

lemma om_length: "om_wf m \<Longrightarrow> length m = card {k. om_find m k \<noteq> None}"
proof -
  assume wf: "om_wf m"
  have "{k. om_find m k \<noteq> None} = set (map fst m)" by (simp add: om_find_None_iff)
  then show ?thesis using distinct_card [OF om_wf_distinct [OF wf]] by simp
qed

lemma linked_length: "digest_linked t \<Longrightarrow> length (sessions t) = length (dlru t)"
proof -
  assume t: "digest_linked t"
  then have "{k. om_find (sessions t) k \<noteq> None} = set (dlru t)" unfolding digest_linked_def by blast
  with t om_length [of "sessions t"] distinct_card [of "dlru t"] show ?thesis by (simp add: digest_linked_def)
qed

lemma linked_new: "digest_linked new_digest_table"
  by (simp add: digest_linked_def new_digest_table_def)

lemma find_remove_session:
  "digest_linked t \<Longrightarrow> om_find (sessions (remove_session k t)) k' = (if k' = k then None else om_find (sessions t) k')"
  by (simp add: digest_linked_def remove_session_def om.find_erase)

lemma linked_remove: "digest_linked t \<Longrightarrow> digest_linked (remove_session k t)"
  using find_remove_session [of t k] by (simp add: digest_linked_def remove_session_def om.wf_erase)

lemma linked_front:
  assumes "digest_linked t" "dlru t = k # ks"
  obtains s where "om_find (sessions t) k = Some s" "dlru (remove_session k t) = ks" "k \<notin> set ks"
  using assms by (auto simp: digest_linked_def remove_session_def)

text \<open>Flushing keeps a part of the list, and exactly its sessions.\<close>

lemma flushSession_linked:
  "digest_linked t \<Longrightarrow> digest_linked (flushSession now t) \<and> (\<exists>x. dlru t = x @ dlru (flushSession now t)) \<and>
     (\<forall>k. om_find (sessions (flushSession now t)) k = (if k \<in> set (dlru (flushSession now t)) then om_find (sessions t) k else None))"
proof (induction now t rule: flushSession.induct)
  case (1 now t)
  show ?case
  proof (cases "dlru t")
    case Nil
    then show ?thesis using 1(3) by (auto simp: flushSession.simps [of now t] digest_linked_def)
  next
    case (Cons k ks)
    obtain s where s: "om_find (sessions t) k = Some s" "dlru (remove_session k t) = ks" "k \<notin> set ks" using linked_front [OF 1(3) Cons] .
    show ?thesis
    proof (cases "now \<le> ds_lastActive s + MAX_SESSION_LIFETIME")
      case True
      then have "flushSession now t = t" using Cons s(1) by (subst flushSession.simps) simp
      then show ?thesis using 1(3) by (auto simp: digest_linked_def)
    next
      case False
      then have f: "flushSession now t = flushSession now (remove_session k t)" using Cons s(1) by (subst flushSession.simps) simp
      from 1(2) [OF Cons s(1) False linked_remove [OF 1(3)]] obtain x where ih: "digest_linked (flushSession now (remove_session k t))"
        "dlru (remove_session k t) = x @ dlru (flushSession now (remove_session k t))"
        "\<And>k'. om_find (sessions (flushSession now (remove_session k t))) k' =
          (if k' \<in> set (dlru (flushSession now (remove_session k t))) then om_find (sessions (remove_session k t)) k' else None)" by blast
      have "dlru t = (k # x) @ dlru (flushSession now t)" using Cons s(2) ih(2) f by simp
      moreover have "k \<notin> set (dlru (flushSession now t))" using s(2,3) ih(2) f by auto
      ultimately show ?thesis using ih(1,3) f find_remove_session [OF 1(3), of k] by auto
    qed
  qed
qed

lemma evict_linked:
  "digest_linked t \<Longrightarrow> \<exists>t'. evict t = Some t' \<and> digest_linked t' \<and> dlru t' = drop (length (dlru t) - MAX_DIGEST_SESSION) (dlru t) \<and>
     (\<forall>k. om_find (sessions t') k = (if k \<in> set (dlru t') then om_find (sessions t) k else None))"
proof (induction t rule: evict.induct)
  case (1 t)
  note len = linked_length [OF 1(3)]
  show ?case
  proof (cases "length (sessions t) > MAX_DIGEST_SESSION")
    case False
    then show ?thesis using 1(3) len by (auto simp: evict.simps [of t] digest_linked_def)
  next
    case True
    then obtain k ks where Cons: "dlru t = k # ks" using len by (cases "dlru t") auto
    obtain s where s: "om_find (sessions t) k = Some s" "dlru (remove_session k t) = ks" "k \<notin> set ks" using linked_front [OF 1(3) Cons] .
    have e: "evict t = evict (remove_session k t)" using True Cons s(1) by (subst evict.simps) simp
    from 1(2) [OF True Cons s(1) linked_remove [OF 1(3)]] obtain t' where t': "evict (remove_session k t) = Some t'" "digest_linked t'"
      "dlru t' = drop (length ks - MAX_DIGEST_SESSION) ks"
      "\<And>k'. om_find (sessions t') k' = (if k' \<in> set (dlru t') then om_find (sessions (remove_session k t)) k' else None)" unfolding s(2) by blast
    have "dlru t' = drop (length (dlru t) - MAX_DIGEST_SESSION) (dlru t)" using t'(3) True len Cons by (simp add: Suc_diff_le)
    moreover have "k \<notin> set (dlru t')" using t'(3) s(3) by (auto dest: in_set_dropD)
    ultimately show ?thesis using e t'(1,2,4) find_remove_session [OF 1(3), of k] by (intro exI [of _ t']) auto
  qed
qed

lemma digest_init_ok:
  assumes "digest_linked t" "length (sessions t) \<le> MAX_DIGEST_SESSION"
  shows "\<exists>t'. digest_init now rand realm peer t = Some (make_nonce now rand, t') \<and> digest_linked t' \<and> length (sessions t') \<le> MAX_DIGEST_SESSION \<and>
    (\<exists>x. (if om_find (sessions t) (make_nonce now rand) = None then dlru t @ [make_nonce now rand] else dlru t) = x @ dlru t') \<and>
    (\<forall>k s. om_find (sessions t') k = Some s \<longrightarrow> om_find (sessions t) k = Some s \<or>
       om_find (sessions t) k = None \<and> k = make_nonce now rand \<and> s = \<lparr>ds_realm = realm, ds_lastActive = now, ds_addr = peer\<rparr>)"
proof (cases "om_find (sessions t) (make_nonce now rand)")
  case (Some s)
  then show ?thesis using assms by (intro exI [of _ t]) (simp add: digest_init_def Let_def)
next
  case None
  let ?n = "make_nonce now rand" and ?s = "\<lparr>ds_realm = realm, ds_lastActive = now, ds_addr = peer\<rparr>"
  let ?t = "t\<lparr>sessions := om_insert ?n ?s (sessions t), dlru := dlru t @ [?n]\<rparr>"
  have wf: "om_wf (sessions t)" using assms(1) by (simp add: digest_linked_def)
  note find = om.emplace_new [OF wf None, of ?s]
  have "digest_linked ?t" using assms(1) None unfolding digest_linked_def by (auto simp: find om.wf_emplace)
  from evict_linked [OF this] obtain t' where t': "evict ?t = Some t'" "digest_linked t'" "dlru t' = drop (length (dlru ?t) - MAX_DIGEST_SESSION) (dlru ?t)"
    "\<And>k. om_find (sessions t') k = (if k \<in> set (dlru t') then om_find (sessions ?t) k else None)" by blast
  have "length (sessions t') \<le> MAX_DIGEST_SESSION" using linked_length [OF t'(2)] t'(3) by simp
  moreover have "\<exists>x. dlru t @ [?n] = x @ dlru t'"
  proof -
    have "dlru ?t = take (length (dlru ?t) - MAX_DIGEST_SESSION) (dlru ?t) @ dlru t'" unfolding t'(3) by (rule append_take_drop_id [symmetric])
    then show ?thesis by auto
  qed
  ultimately show ?thesis using None t'(1,2,4) by (intro exI [of _ t']) (auto simp: digest_init_def Let_def find split: if_splits)
qed

text \<open>A check changes nothing but the time and the place of the session that was used.\<close>

lemma verifySession_cases:
  assumes "digest_linked t" "verifySession parse_url cmp now rq a t = (ok, t')"
  obtains (refused) "\<not> ok" "digest_linked t'" "om_find (sessions t') = om_find (sessions t)" "dlru t' = dlru t"
    | (accepted) s where ok "same_url parse_url rq (da_uri a)" "om_find (sessions t) (da_nonce a) = Some s" "ds_realm s = da_realm a"
      "cmp (rq_peer rq) (ds_addr s) = 0" "digest_linked t'" "om_find (sessions t') = (om_find (sessions t))(da_nonce a \<mapsto> s\<lparr>ds_lastActive := now\<rparr>)"
      "dlru t' = remove1 (da_nonce a) (dlru t) @ [da_nonce a]"
proof (cases "same_url parse_url rq (da_uri a) \<and> (\<exists>s. om_find (sessions t) (da_nonce a) = Some s \<and> ds_realm s = da_realm a)")
  case False
  then have "ok = False \<and> t' = t" using assms(2) by (auto simp: verifySession_def split: if_splits option.splits)
  with refused assms(1) show ?thesis by blast
next
  case True
  let ?k = "da_nonce a"
  from True obtain s where s: "om_find (sessions t) ?k = Some s" "ds_realm s = da_realm a" by blast
  have wf: "om_wf (sessions t)" and k: "?k \<in> set (dlru t)" and di: "distinct (dlru t)" using assms(1) s(1) by (simp_all add: digest_linked_def)
  have fa: "om_find (om_assign ?k s' (sessions t)) = (om_find (sessions t))(?k \<mapsto> s')" for s'
    using s(1) by (auto simp: om.find_assign [OF wf])
  show ?thesis
  proof (cases "cmp (rq_peer rq) (ds_addr s) = 0")
    case eq: True
    then have r: "ok" "t' = t\<lparr>sessions := om_assign ?k (s\<lparr>ds_lastActive := now\<rparr>) (sessions t), dlru := remove1 ?k (dlru t) @ [?k]\<rparr>"
      using assms(2) True s by (simp_all add: verifySession_def verify_rq_def)
    have "digest_linked t'" using assms(1) k di unfolding digest_linked_def r by (auto simp: fa om.wf_assign)
    with accepted [of s] True s eq r fa show ?thesis by simp
  next
    case False
    then have r: "\<not> ok" "t' = t\<lparr>sessions := om_assign ?k s (sessions t)\<rparr>" using assms(2) True s by (simp_all add: verifySession_def verify_rq_def)
    have "om_find (sessions t') = om_find (sessions t)" using s(1) by (auto simp: r fa)
    moreover from this have "digest_linked t'" using assms(1) unfolding digest_linked_def by (simp add: r om.wf_assign)
    ultimately show ?thesis using refused r by simp
  qed
qed

section \<open>Runs\<close>

datatype 'a digest_event =
    Challenged int string string 'a
  | Checked int "'a auth_rq" digest_auth bool
  | Flushed int

inductive digest_run :: "url_parser \<Rightarrow> ('a \<Rightarrow> 'a \<Rightarrow> int) \<Rightarrow> 'a digest_event list \<Rightarrow> 'a digest_table \<Rightarrow> bool"
  for parse_url :: url_parser and addr_compare :: "'a \<Rightarrow> 'a \<Rightarrow> int" where
  start: "digest_run parse_url addr_compare [] new_digest_table"
| challenge: "digest_run parse_url addr_compare evs t \<Longrightarrow> digest_init now rand realm peer t = Some (nonce, t') \<Longrightarrow>
    digest_run parse_url addr_compare (Challenged now nonce realm peer # evs) t'"
| check: "digest_run parse_url addr_compare evs t \<Longrightarrow> verifySession parse_url addr_compare now rq a t = (ok, t') \<Longrightarrow>
    digest_run parse_url addr_compare (Checked now rq a ok # evs) t'"
| flush: "digest_run parse_url addr_compare evs t \<Longrightarrow> digest_run parse_url addr_compare (Flushed now # evs) (flushSession now t)"

lemma digest_run_ok:
  "digest_run parse_url cmp evs t \<Longrightarrow> digest_linked t \<and> length (sessions t) \<le> MAX_DIGEST_SESSION \<and>
     (\<forall>k s. om_find (sessions t) k = Some s \<longrightarrow> (\<exists>now. Challenged now k (ds_realm s) (ds_addr s) \<in> set evs))"
proof (induction rule: digest_run.induct)
  case start
  show ?case by (simp add: linked_new) (simp add: new_digest_table_def)
next
  case (challenge evs t now rand realm peer nonce t')
  from digest_init_ok [of t now rand realm peer] challenge.IH challenge.hyps(2) have t': "nonce = make_nonce now rand" "digest_linked t'"
    "length (sessions t') \<le> MAX_DIGEST_SESSION"
    "\<And>k s. om_find (sessions t') k = Some s \<Longrightarrow> om_find (sessions t) k = Some s \<or>
       k = make_nonce now rand \<and> s = \<lparr>ds_realm = realm, ds_lastActive = now, ds_addr = peer\<rparr>" by auto
  have "\<exists>now'. Challenged now' k (ds_realm s) (ds_addr s) \<in> set (Challenged now nonce realm peer # evs)"
    if "om_find (sessions t') k = Some s" for k s using t'(4) [OF that] t'(1) challenge.IH by auto
  with t'(2,3) show ?case by blast
next
  case (check evs t now rq a ok t')
  from check.IH have t: "digest_linked t" "length (sessions t) \<le> MAX_DIGEST_SESSION"
    "\<And>k s. om_find (sessions t) k = Some s \<Longrightarrow> \<exists>now. Challenged now k (ds_realm s) (ds_addr s) \<in> set evs" by blast+
  show ?case
  proof (rule verifySession_cases [OF t(1) check.hyps(2)])
    assume r: "\<not> ok" "digest_linked t'" "om_find (sessions t') = om_find (sessions t)" "dlru t' = dlru t"
    then have "length (sessions t') \<le> MAX_DIGEST_SESSION" using linked_length [OF t(1)] linked_length [OF r(2)] t(2) by simp
    with r t(3) show ?thesis by auto
  next
    fix s assume s: "om_find (sessions t) (da_nonce a) = Some s" and r: "digest_linked t'"
      "om_find (sessions t') = (om_find (sessions t))(da_nonce a \<mapsto> s\<lparr>ds_lastActive := now\<rparr>)" "dlru t' = remove1 (da_nonce a) (dlru t) @ [da_nonce a]"
    have "da_nonce a \<in> set (dlru t)" using t(1) s by (simp add: digest_linked_def)
    then have "length (dlru t') = length (dlru t)" using r(3) length_pos_if_in_set [of "da_nonce a" "dlru t"] by (simp add: length_remove1)
    then have "length (sessions t') \<le> MAX_DIGEST_SESSION" using linked_length [OF t(1)] linked_length [OF r(1)] t(2) by simp
    with r t(3) s show ?thesis by auto
  qed
next
  case (flush evs t now)
  from flush.IH flushSession_linked [of t now] obtain x where r: "digest_linked (flushSession now t)" "dlru t = x @ dlru (flushSession now t)"
    "\<And>k. om_find (sessions (flushSession now t)) k = (if k \<in> set (dlru (flushSession now t)) then om_find (sessions t) k else None)" by blast
  have "length (sessions (flushSession now t)) \<le> MAX_DIGEST_SESSION"
    using linked_length [OF r(1)] linked_length [of t] flush.IH r(2) by simp
  with r(1,3) flush.IH show ?case by auto
qed

text \<open>
  C35. Whatever challenges, checks and flushes have happened: every session is listed exactly once, there are never
  more than \<open>MAX_DIGEST_SESSION\<close> of them, and a further challenge can be made.
\<close>

theorem digest_table_bounded:
  assumes "digest_run parse_url addr_compare evs t"
  shows "distinct (dlru t) \<and> set (dlru t) = fst ` set (sessions t) \<and> length (sessions t) \<le> MAX_DIGEST_SESSION \<and>
    (\<exists>t'. digest_init now rand realm peer t = Some (make_nonce now rand, t'))"
proof -
  have t: "digest_linked t" "length (sessions t) \<le> MAX_DIGEST_SESSION" using digest_run_ok [OF assms] by blast+
  then have "set (dlru t) = fst ` set (sessions t)" by (auto simp: digest_linked_def om_find_None_iff)
  with t digest_init_ok [OF t, of now rand realm peer] show ?thesis by (auto simp: digest_linked_def)
qed

lemma accepted_was_challenged:
  assumes "digest_run parse_url addr_compare evs t" "verifySession parse_url addr_compare now rq a t = (True, t')"
  shows "same_url parse_url rq (da_uri a) \<and>
    (\<exists>at peer. Challenged at (da_nonce a) (da_realm a) peer \<in> set evs \<and> addr_compare (rq_peer rq) peer = 0)"
proof -
  from digest_run_ok [OF assms(1)] have t: "digest_linked t"
    "\<And>k s. om_find (sessions t) k = Some s \<Longrightarrow> \<exists>now. Challenged now k (ds_realm s) (ds_addr s) \<in> set evs" by blast+
  show ?thesis
  proof (rule verifySession_cases [OF t(1) assms(2)])
    fix s assume "same_url parse_url rq (da_uri a)" "om_find (sessions t) (da_nonce a) = Some s" "ds_realm s = da_realm a"
      "addr_compare (rq_peer rq) (ds_addr s) = 0"
    with t(2) [of "da_nonce a" s] show ?thesis by auto
  qed simp
qed

section \<open>The list is ordered by activity\<close>

fun event_time :: "'a digest_event \<Rightarrow> int option" where
  "event_time (Challenged now nonce realm peer) = Some now"
| "event_time (Checked now rq a ok) = Some now"
| "event_time (Flushed now) = None"

definition times :: "'a digest_event list \<Rightarrow> int list" where
  "times evs = List.map_filter event_time evs"

text \<open>The clock did not go backwards; the last event is the first of the list.\<close>

definition clock_ok :: "'a digest_event list \<Rightarrow> bool" where
  "clock_ok evs \<longleftrightarrow> sorted_wrt (\<ge>) (times evs)"

definition last_active :: "'a digest_table \<Rightarrow> string \<Rightarrow> int" where
  "last_active t k = (case om_find (sessions t) k of Some s \<Rightarrow> ds_lastActive s | None \<Rightarrow> 0)"

lemma times_simps [simp]: "times [] = []" "times (Challenged now n r p # evs) = now # times evs"
  "times (Checked now rq a ok # evs) = now # times evs" "times (Flushed now # evs) = times evs"
  by (simp_all add: times_def map_filter_simps)

lemma sorted_append_last: "sorted (map f xs) \<Longrightarrow> (\<And>x. x \<in> set xs \<Longrightarrow> f x \<le> (v :: int)) \<Longrightarrow> f y = v \<Longrightarrow> sorted (map f (xs @ [y]))"
  by (simp add: sorted_append)

lemma sorted_map_same: "sorted (map f xs) \<Longrightarrow> (\<And>x. x \<in> set xs \<Longrightarrow> g x = f x) \<Longrightarrow> sorted (map g xs)"
  by (metis (no_types, lifting) map_eq_conv)

lemma sorted_map_suffix: "sorted (map f (x @ y)) \<Longrightarrow> sorted (map f y)"
  by (simp add: sorted_append)

lemma digest_run_sorted:
  "digest_run parse_url cmp evs t \<Longrightarrow> clock_ok evs \<Longrightarrow> sorted (map (last_active t) (dlru t)) \<and> (\<forall>k\<in>set (dlru t). last_active t k \<in> set (times evs))"
proof (induction rule: digest_run.induct)
  case start
  show ?case by (simp add: new_digest_table_def)
next
  case (challenge evs t now rand realm peer nonce t')
  have old: "sorted (map (last_active t) (dlru t))" "\<And>k. k \<in> set (dlru t) \<Longrightarrow> last_active t k \<in> set (times evs)"
    and clock: "\<And>x. x \<in> set (times evs) \<Longrightarrow> x \<le> now" using challenge by (auto simp: clock_ok_def)
  have t: "digest_linked t" "length (sessions t) \<le> MAX_DIGEST_SESSION" using digest_run_ok [OF challenge.hyps(1)] by blast+
  let ?n = "make_nonce now rand"
  from digest_init_ok [OF t, of now rand realm peer] challenge.hyps(2) obtain x where t': "digest_linked t'"
    "(if om_find (sessions t) ?n = None then dlru t @ [?n] else dlru t) = x @ dlru t'"
    "\<And>k s. om_find (sessions t') k = Some s \<Longrightarrow> om_find (sessions t) k = Some s \<or>
       om_find (sessions t) k = None \<and> k = ?n \<and> s = \<lparr>ds_realm = realm, ds_lastActive = now, ds_addr = peer\<rparr>" by auto
  define g where "g k = (if om_find (sessions t) k = None then now else last_active t k)" for k
  have gold: "g k = last_active t k" if "k \<in> set (dlru t)" for k using that t(1) by (auto simp: g_def digest_linked_def)
  have gs: "sorted (map g (dlru t))" using old(1) gold by (rule sorted_map_same)
  moreover have "sorted (map g (dlru t @ [?n]))" if "om_find (sessions t) ?n = None"
    using gs that old(2) clock gold by (intro sorted_append_last [where v = now]) (auto simp: g_def [of ?n])
  ultimately have "sorted (map g (x @ dlru t'))" unfolding t'(2) [symmetric] by simp
  then have "sorted (map g (dlru t'))" by (rule sorted_map_suffix)
  moreover have g: "last_active t' k = g k" if k: "k \<in> set (dlru t')" for k
  proof -
    from k t'(1) obtain s where s: "om_find (sessions t') k = Some s" by (auto simp: digest_linked_def)
    with t'(3) [OF s] show ?thesis by (auto simp: g_def last_active_def)
  qed
  moreover have "g k \<in> set (times (Challenged now nonce realm peer # evs))" if "k \<in> set (dlru t')" for k
    using old(2) [of k] t(1) by (auto simp: g_def digest_linked_def)
  ultimately show ?case by (simp add: sorted_map_same)
next
  case (check evs t now rq a ok t')
  have old: "sorted (map (last_active t) (dlru t))" "\<And>k. k \<in> set (dlru t) \<Longrightarrow> last_active t k \<in> set (times evs)"
    and clock: "\<And>x. x \<in> set (times evs) \<Longrightarrow> x \<le> now" using check by (auto simp: clock_ok_def)
  have t: "digest_linked t" using digest_run_ok [OF check.hyps(1)] by blast
  show ?case
  proof (rule verifySession_cases [OF t check.hyps(2)])
    assume "om_find (sessions t') = om_find (sessions t)" "dlru t' = dlru t"
    moreover from this have "last_active t' = last_active t" by (simp add: last_active_def fun_eq_iff)
    ultimately show ?thesis using old by simp
  next
    fix s assume r: "om_find (sessions t') = (om_find (sessions t))(da_nonce a \<mapsto> s\<lparr>ds_lastActive := now\<rparr>)"
      "dlru t' = remove1 (da_nonce a) (dlru t) @ [da_nonce a]"
    have la: "last_active t' k = (if k = da_nonce a then now else last_active t k)" for k by (simp add: last_active_def r)
    have mem: "k \<in> set (dlru t) \<and> k \<noteq> da_nonce a" if "k \<in> set (remove1 (da_nonce a) (dlru t))" for k
      using that t by (simp add: digest_linked_def)
    have "sorted (map (last_active t) (remove1 (da_nonce a) (dlru t)))" using old(1) by (rule sorted_map_remove1)
    moreover have same: "last_active t' k = last_active t k" if "k \<in> set (remove1 (da_nonce a) (dlru t))" for k using mem [OF that] la by simp
    ultimately have sr: "sorted (map (last_active t') (remove1 (da_nonce a) (dlru t)))" by (rule sorted_map_same)
    have le: "last_active t' k \<le> now" if "k \<in> set (remove1 (da_nonce a) (dlru t))" for k
      unfolding same [OF that] using mem [OF that] old(2) clock by blast
    have "sorted (map (last_active t') (dlru t'))" unfolding r(2) using sr le la [of "da_nonce a", simplified]
      by (rule sorted_append_last)
    moreover have "last_active t' k \<in> set (now # times evs)" if "k \<in> set (dlru t')" for k
      using that old(2) la by (auto simp: r(2) dest: notin_set_remove1)
    ultimately show ?thesis by simp
  qed
next
  case (flush evs t now)
  have t: "digest_linked t" using digest_run_ok [OF flush.hyps] by blast
  from flush have old: "sorted (map (last_active t) (dlru t))" "\<forall>k\<in>set (dlru t). last_active t k \<in> set (times evs)" by (auto simp: clock_ok_def)
  from flushSession_linked [OF t, of now] obtain x where r: "dlru t = x @ dlru (flushSession now t)"
    "\<And>k. om_find (sessions (flushSession now t)) k = (if k \<in> set (dlru (flushSession now t)) then om_find (sessions t) k else None)" by blast
  have "last_active (flushSession now t) k = last_active t k" if "k \<in> set (dlru (flushSession now t))" for k using that by (simp add: last_active_def r(2))
  with old r(1) sorted_map_suffix [of "last_active t" x "dlru (flushSession now t)"] show ?case by (auto intro: sorted_map_same)
qed

lemma flushSession_exact:
  "digest_linked t \<Longrightarrow> sorted (map (last_active t) (dlru t)) \<Longrightarrow> om_find (sessions (flushSession now t)) k =
     (case om_find (sessions t) k of None \<Rightarrow> None | Some s \<Rightarrow> if now \<le> ds_lastActive s + MAX_SESSION_LIFETIME then Some s else None)"
proof (induction now t rule: flushSession.induct)
  case (1 now t)
  show ?case
  proof (cases "dlru t")
    case Nil
    then show ?thesis using 1(3) by (auto simp: flushSession.simps [of now t] digest_linked_def)
  next
    case (Cons f fs)
    obtain s where s: "om_find (sessions t) f = Some s" "dlru (remove_session f t) = fs" "f \<notin> set fs" using linked_front [OF 1(3) Cons] .
    show ?thesis
    proof (cases "now \<le> ds_lastActive s + MAX_SESSION_LIFETIME")
      case True
      have "ds_lastActive s \<le> ds_lastActive s'" if s': "om_find (sessions t) k = Some s'" for s'
      proof -
        have "k \<in> set (dlru t)" using 1(3) s' by (simp add: digest_linked_def)
        then have "last_active t f \<le> last_active t k" using 1(4) Cons by auto
        then show ?thesis by (simp add: last_active_def s(1) s')
      qed
      moreover have "flushSession now t = t" using True Cons s(1) by (subst flushSession.simps) simp
      ultimately show ?thesis using True by (fastforce split: option.split)
    next
      case False
      have la: "last_active (remove_session f t) k = last_active t k" if "k \<in> set fs" for k
        using that s(3) find_remove_session [OF 1(3), of f] by (auto simp: last_active_def)
      have "sorted (map (last_active t) fs)" using 1(4) Cons by simp
      then have "sorted (map (last_active (remove_session f t)) (dlru (remove_session f t)))" unfolding s(2) using la by (rule sorted_map_same)
      from 1(2) [OF Cons s(1) False linked_remove [OF 1(3)] this] False Cons s(1)
      show ?thesis by (subst flushSession.simps) (auto simp: find_remove_session [OF 1(3)])
    qed
  qed
qed

text \<open>
  As long as the clock does not go backwards, a flush removes exactly the sessions that were not used for
  more than \<open>MAX_SESSION_LIFETIME\<close> seconds, although it stops at the first one that is alive.
\<close>

theorem digest_flush_exact:
  assumes "digest_run parse_url addr_compare evs t" "clock_ok evs"
  shows "om_find (sessions (flushSession now t)) k =
    (case om_find (sessions t) k of None \<Rightarrow> None | Some s \<Rightarrow> if now \<le> ds_lastActive s + MAX_SESSION_LIFETIME then Some s else None)"
  using flushSession_exact digest_run_ok [OF assms(1)] digest_run_sorted [OF assms] by blast

section \<open>An example\<close>

definition example_cmp :: "nat \<Rightarrow> nat \<Rightarrow> int" where
  "example_cmp a b = (if a = b then 0 else 1)"

definition example_auth :: digest_auth where
  "example_auth = \<lparr>da_user = ''test'', da_realm = ''kangle'', da_nonce = ''3e87'', da_uri = ''/'',
     da_response = ''28d20212e5252a21193cf0177510a6b2'', da_qop = ''auth'', da_nc = ''00000001'', da_cnonce = ''3a8b''\<rparr>"

definition example_table :: "nat digest_table" where
  "example_table = \<lparr>sessions = [(''3e87'', \<lparr>ds_realm = ''kangle'', ds_lastActive = 1000, ds_addr = 1\<rparr>)], dlru = [''3e87'']\<rparr>"

lemma example_nonce: "make_nonce 1000 7 = ''3e87''"
  by (simp add: make_nonce_def hex_nat.simps)

lemma example_run: "digest_run parse_url example_cmp [Challenged 1000 ''3e87'' ''kangle'' 1] example_table"
proof -
  have "digest_init 1000 7 ''kangle'' 1 new_digest_table = Some (''3e87'', example_table)"
    by (simp add: digest_init_def Let_def example_nonce new_digest_table_def evict.simps MAX_DIGEST_SESSION_def example_table_def)
  from digest_run.challenge [OF digest_run.start this] show ?thesis .
qed

theorem digest_header_roundtrip_witness:
  "digest_parse (Some (show_fields (client_fields example_auth))) = Some example_auth \<and>
   map_option (\<lambda>d. (df_realm d, df_nonce d, df_qop d))
     (digest_loop (field_loop (CHR '','') (drop 7 (challenge_text ''kangle'' ''3e87'' True)) []) no_fields) =
     Some (Some ''kangle'', Some ''3e87'', Some ''auth'')"
  by (rule digest_header_roundtrip)
     (simp_all add: good_auth_def example_auth_def is_xdigit_def is_digit_def char_code_def)

theorem digest_table_bounded_witness:
  "distinct (dlru example_table) \<and> set (dlru example_table) = fst ` set (sessions example_table) \<and>
   length (sessions example_table) \<le> MAX_DIGEST_SESSION \<and>
   (\<exists>t'. digest_init 1001 8 ''kangle'' 2 example_table = Some (make_nonce 1001 8, t'))"
  by (rule digest_table_bounded [OF example_run])

theorem digest_flush_exact_witness:
  "om_find (sessions (flushSession 1301 example_table)) ''3e87'' = None \<and>
   om_find (sessions (flushSession 1300 example_table)) ''3e87'' \<noteq> None"
proof -
  have "clock_ok [Challenged 1000 ''3e87'' ''kangle'' (1 :: nat)]" by (simp add: clock_ok_def)
  note flush = digest_flush_exact [OF example_run this]
  show ?thesis unfolding flush by (simp add: example_table_def MAX_SESSION_LIFETIME_def)
qed

end
