(* ===== verification/Login.thy ===== *)
theory Login
  imports Digest_Auth
begin

text \<open>
  Who may log in: \<^verbatim>\<open>src/KHttpBasicAuth.cpp\<close> and the passwords of \<^verbatim>\<open>src/KAuthMark.cpp\<close>, the files of users
  (\<^verbatim>\<open>KAuthMark\<close>, \<^verbatim>\<open>src/KLineFile.cpp\<close>), and the login to the management console (\<^verbatim>\<open>checkManageLogin\<close> of
  \<^verbatim>\<open>src/KHttpManage.cpp\<close>, the refusal of requests from other sites in \<^verbatim>\<open>src/work.cpp\<close>).

  Credentials are a sum of the two kinds a header may carry. The file system (\<open>lstat\<close>, \<open>contents\<close>), the base 64
  decoder, \<open>string2int\<close>, \<open>IS_SPACE\<close> and the expression of the required users are code outside of the tree and
  arguments. Strings of C end at their first NUL.
\<close>

section \<open>Passwords\<close>

definition CRYPT_TYPE_KMD5 :: nat where "CRYPT_TYPE_KMD5 = 1"
definition CRYPT_TYPE_SALT_MD5 :: nat where "CRYPT_TYPE_SALT_MD5 = 2"
definition CRYPT_TYPE_SIGN :: nat where "CRYPT_TYPE_SIGN = 3"

definition parseCryptType :: "string \<Rightarrow> nat" where
  "parseCryptType type =
     (if strcase_eq type ''md5'' then CRYPT_TYPE_KMD5
      else if strcase_eq type ''smd5'' then CRYPT_TYPE_SALT_MD5
      else if strcase_eq type ''sign'' then CRYPT_TYPE_SIGN
      else CRYPT_TYPE_PLAIN)"

definition buildCryptType :: "nat \<Rightarrow> string" where
  "buildCryptType type =
     (if type = CRYPT_TYPE_PLAIN then ''plain''
      else if type = CRYPT_TYPE_KMD5 then ''md5''
      else if type = CRYPT_TYPE_SALT_MD5 then ''smd5''
      else if type = CRYPT_TYPE_SIGN then ''sign''
      else ''unknow'')"

text \<open>\<^verbatim>\<open>strncasecmp (a, b, 32) == 0\<close>\<close>

definition strncase_eq :: "nat \<Rightarrow> string \<Rightarrow> string \<Rightarrow> bool" where
  "strncase_eq n a b = strcase_eq (take n a) (take n b)"

text \<open>The digest of two pieces, as it is written out.\<close>

definition md5_two :: "string \<Rightarrow> string \<Rightarrow> string" where
  "md5_two a b = make_digest (fst (KMD5Final (KMD5Update (KMD5Update KMD5Init (bytes_of a)) (bytes_of b))))"

definition checkSaltMd5 :: "string \<Rightarrow> string \<Rightarrow> bool" where
  "checkSaltMd5 toCheck password =
     (if length password < 32 then False else strncase_eq 32 (md5_two toCheck (drop 32 password)) password)"

definition check_sign :: "(string \<Rightarrow> int) \<Rightarrow> int \<Rightarrow> string \<Rightarrow> string \<Rightarrow> bool" where
  "check_sign string2int now toCheck password =
     (let time_diff = now - string2int toCheck in
      if time_diff < - 86400 then False
      else if time_diff > string2int password then False
      else
        (case (cut_at (CHR ''-'') toCheck, cut_at (CHR ''-'') password) of
           ((create_time, Some user_sign), (_, Some skey)) \<Rightarrow> strncase_eq 32 (md5_two create_time skey) user_sign
         | _ \<Rightarrow> False))"

definition checkPassword :: "(string \<Rightarrow> int) \<Rightarrow> int \<Rightarrow> string \<Rightarrow> string \<Rightarrow> nat \<Rightarrow> bool" where
  "checkPassword string2int now toCheck password cryptType =
     (if cryptType = CRYPT_TYPE_KMD5 then strcase_eq (KMD5 toCheck) password
      else if cryptType = CRYPT_TYPE_PLAIN then toCheck = password
      else if cryptType = CRYPT_TYPE_SALT_MD5 then checkSaltMd5 toCheck password
      else if cryptType = CRYPT_TYPE_SIGN then
        (if password \<noteq> [] \<and> hd password = CHR ''$'' then toCheck = tl password
         else if password \<noteq> [] \<and> hd password = CHR 0x23 then checkSaltMd5 toCheck (tl password)
         else check_sign string2int now toCheck password)
      else False)"

section \<open>Credentials\<close>

record basic_auth =
  ba_user :: string
  ba_password :: string

datatype http_auth = Basic basic_auth | Digest digest_auth

definition c_string :: "string \<Rightarrow> string" where
  "c_string s = takeWhile (\<lambda>c. c \<noteq> CHR 0x00) s"

definition basic_parse :: "(string \<Rightarrow> string option) \<Rightarrow> string option \<Rightarrow> basic_auth option" where
  "basic_parse b64decode str =
     (case str of None \<Rightarrow> None
      | Some s \<Rightarrow>
          if length s < 2 then None
          else (case b64decode s of None \<Rightarrow> None
           | Some u \<Rightarrow>
               (case cut_at (CHR '':'') (c_string u) of
                  (user, None) \<Rightarrow> None
                | (user, Some password) \<Rightarrow> Some \<lparr>ba_user = user, ba_password = password\<rparr>)))"

definition getUser :: "http_auth \<Rightarrow> string" where
  "getUser a = (case a of Basic b \<Rightarrow> ba_user b | Digest d \<Rightarrow> da_user d)"

definition AUTH_BASIC :: nat where "AUTH_BASIC = 0"
definition AUTH_DIGEST :: nat where "AUTH_DIGEST = 1"

definition authType :: "http_auth \<Rightarrow> nat" where
  "authType a = (case a of Basic b \<Rightarrow> AUTH_BASIC | Digest d \<Rightarrow> AUTH_DIGEST)"

definition parseType :: "string \<Rightarrow> nat" where
  "parseType type = (if strcase_eq type ''Basic'' then AUTH_BASIC else if strcase_eq type ''Digest'' then AUTH_DIGEST else 0)"

text \<open>\<^verbatim>\<open>handle_http_header\<close>: the value of the header becomes the credentials of the request, if it can be read.\<close>

definition handle_auth_header :: "(char \<Rightarrow> bool) \<Rightarrow> (string \<Rightarrow> string option) \<Rightarrow> string \<Rightarrow> http_auth option" where
  "handle_auth_header IS_SPACE b64decode val =
     (let scheme = takeWhile (\<lambda>c. \<not> IS_SPACE c) val;
          p2 = dropWhile IS_SPACE (drop (length scheme) val) in
      if strcase_eq scheme ''basic'' then map_option Basic (basic_parse b64decode (Some p2))
      else if strcase_eq scheme ''digest'' then map_option Digest (digest_parse (Some p2))
      else None)"

definition auth_verify :: "(string \<Rightarrow> int) \<Rightarrow> int \<Rightarrow> string \<Rightarrow> http_auth \<Rightarrow> string \<Rightarrow> nat \<Rightarrow> bool" where
  "auth_verify string2int now method a password passwordType =
     (case a of
        Basic b \<Rightarrow> checkPassword string2int now (ba_password b) password passwordType
      | Digest d \<Rightarrow> digest_verify method d password passwordType)"

definition auth_session ::
  "url_parser \<Rightarrow> ('a \<Rightarrow> 'a \<Rightarrow> int) \<Rightarrow> int \<Rightarrow> 'a auth_rq \<Rightarrow> http_auth \<Rightarrow> 'a digest_table \<Rightarrow> bool \<times> 'a digest_table" where
  "auth_session parse_url addr_compare now rq a t =
     (case a of Basic b \<Rightarrow> (True, t) | Digest d \<Rightarrow> verifySession parse_url addr_compare now rq d t)"

section \<open>Files of users\<close>

datatype open_state = OPEN_NOT_MODIFIED | OPEN_FAILED | OPEN_SUCCESS | OPEN_UNKNOW

definition MAX_OPEN_FILE_SIZE :: int where "MAX_OPEN_FILE_SIZE = 4 * 1024 * 1024"

text \<open>\<open>lstat\<close>: a regular file's time and size; \<open>contents\<close>: what reading that many bytes gives.\<close>

definition line_file_open ::
  "(string \<Rightarrow> (bool \<times> int \<times> int) option) \<Rightarrow> (string \<Rightarrow> int \<Rightarrow> string option) \<Rightarrow> string \<Rightarrow> int \<Rightarrow>
   open_state \<times> string option \<times> int" where
  "line_file_open lstat contents file lastModified =
     (case lstat file of
        None \<Rightarrow> (OPEN_FAILED, None, lastModified)
      | Some (reg, mtime, sz) \<Rightarrow>
          if \<not> reg then (OPEN_FAILED, None, lastModified)
          else if mtime = lastModified then (OPEN_NOT_MODIFIED, None, lastModified)
          else (case contents file (min sz MAX_OPEN_FILE_SIZE) of
             None \<Rightarrow> (OPEN_FAILED, None, lastModified)
           | Some buf \<Rightarrow> (OPEN_SUCCESS, Some (c_string buf), mtime)))"

definition trim_end :: "(char \<Rightarrow> bool) \<Rightarrow> string \<Rightarrow> string" where
  "trim_end P s = rev (dropWhile P (rev s))"

definition readLine :: "(char \<Rightarrow> bool) \<Rightarrow> string \<Rightarrow> (string \<times> string) option" where
  "readLine IS_SPACE hot =
     (case dropWhile IS_SPACE hot of
        [] \<Rightarrow> None
      | c # s \<Rightarrow>
          (let (seg, r) = (case cut_at (CHR 0x0A) (c # s) of
               (line, None) \<Rightarrow> (line, []) | (line, Some r) \<Rightarrow> (line @ [CHR 0x0A], r)) in
           Some (hd seg # trim_end IS_SPACE (tl seg), r)))"

lemma readLine_less: "readLine IS_SPACE hot = Some (line, r) \<Longrightarrow> length r < length hot"
proof -
  assume r: "readLine IS_SPACE hot = Some (line, r)"
  then obtain c s where cs: "dropWhile IS_SPACE hot = c # s" by (auto simp: readLine_def split: list.splits)
  have "length (c # s) \<le> length hot" using length_dropWhile_le [of IS_SPACE hot] cs by simp
  moreover have "r = [] \<or> (\<exists>l. cut_at (CHR 0x0A) (c # s) = (l, Some r))"
    using r unfolding readLine_def cs by (auto simp del: cut_at.simps simp: Let_def split: prod.splits option.splits)
  moreover have "cut_at (CHR 0x0A) (c # s) = (l, Some r) \<Longrightarrow> length r < length (c # s)" for l using cut_at_Some_length by blast
  ultimately show ?thesis by auto
qed

definition AUTH_FILE_SIGN :: string where "AUTH_FILE_SIGN = ''--AUTH_FILE_SIGN--''"

record auth_mark =
  am_file :: string
  am_lastModified :: int
  am_cryptType :: nat
  am_auth_type :: nat
  am_realm :: "string option"
  am_users :: "(string \<times> string) list"
  am_required :: "string list"
  am_reg_user :: "(string \<Rightarrow> bool) option"
  am_revert :: bool
  am_all :: bool
  am_file_sign :: bool
  am_lastLoad :: int
  am_lastState :: open_state

definition new_auth_mark :: auth_mark where
  "new_auth_mark = \<lparr>am_file = [], am_lastModified = 0, am_cryptType = CRYPT_TYPE_PLAIN, am_auth_type = AUTH_BASIC, am_realm = None,
     am_users = [], am_required = [], am_reg_user = None, am_revert = False, am_all = True, am_file_sign = False,
     am_lastLoad = 0, am_lastState = OPEN_UNKNOW\<rparr>"

definition user_wanted :: "auth_mark \<Rightarrow> string \<Rightarrow> bool" where
  "user_wanted m user =
     (if \<not> am_all m then
        (case am_reg_user m of
           Some reg \<Rightarrow> reg user \<noteq> am_revert m
         | None \<Rightarrow> user \<in> set (am_required m))
      else True)"

text \<open>The loop over the lines: the users, and whether the signature was seen.\<close>

function users_loop :: "(char \<Rightarrow> bool) \<Rightarrow> auth_mark \<Rightarrow> string \<Rightarrow> (string \<times> string) list \<Rightarrow> (string \<times> string) list \<times> bool" where
  "users_loop IS_SPACE m hot users =
     (case readLine IS_SPACE hot of
        None \<Rightarrow> (users, False)
      | Some (line, r) \<Rightarrow>
          if line = AUTH_FILE_SIGN then (users, True)
          else (case cut_at (CHR '':'') line of
             (user, None) \<Rightarrow> users_loop IS_SPACE m r users
           | (user, Some passwd) \<Rightarrow> users_loop IS_SPACE m r (if user_wanted m user then om_insert user passwd users else users)))"
  by pat_completeness auto
termination
  by (relation "measure (\<lambda>(P, m, hot, users). length hot)") (auto intro: readLine_less dest: sym)

declare users_loop.simps [simp del]

definition load_path :: "(string \<Rightarrow> bool) \<Rightarrow> string \<Rightarrow> string \<Rightarrow> string" where
  "load_path is_absolute path file = (if \<not> is_absolute file then path @ ''/'' @ file else file)"

record fs_ops =
  fs_lstat :: "string \<Rightarrow> (bool \<times> int \<times> int) option"
  fs_contents :: "string \<Rightarrow> int \<Rightarrow> string option"
  fs_absolute :: "string \<Rightarrow> bool"
  fs_space :: "char \<Rightarrow> bool"

definition loadAuthFile :: "fs_ops \<Rightarrow> int \<Rightarrow> string \<Rightarrow> auth_mark \<Rightarrow> bool \<times> auth_mark" where
  "loadAuthFile fs now path m =
     (let diffTime = now - am_lastLoad m in
      if diffTime > - 10 \<and> diffTime < 10 then (am_lastState m \<noteq> OPEN_FAILED, m)
      else
        (case line_file_open (fs_lstat fs) (fs_contents fs) (load_path (fs_absolute fs) path (am_file m)) (am_lastModified m) of
           (st, buf, mtime) \<Rightarrow>
             (let m = m\<lparr>am_lastLoad := now, am_lastState := st, am_lastModified := mtime\<rparr> in
              case buf of
                None \<Rightarrow> (st = OPEN_NOT_MODIFIED, m)
              | Some hot \<Rightarrow>
                  (case users_loop (fs_space fs) m hot [] of (users, file_signed) \<Rightarrow>
                     (True, if \<not> am_file_sign m \<or> file_signed then m\<lparr>am_users := users\<rparr> else m)))))"

text \<open>
  \<^verbatim>\<open>checkLogin\<close>: the result, the value of \<^verbatim>\<open>stale_nonce\<close> of credentials that were not checked before, and the table
  of digest sessions.
\<close>

record 'a auth_env =
  ae_parse_url :: url_parser
  ae_compare :: "'a \<Rightarrow> 'a \<Rightarrow> int"
  ae_string2int :: "string \<Rightarrow> int"

definition password_of :: "auth_mark \<Rightarrow> string \<Rightarrow> string option" where
  "password_of m user =
     (case om_find (am_users m) user of None \<Rightarrow> om_find (am_users m) ''*'' | Some p \<Rightarrow> Some p)"

definition checkLogin ::
  "'a auth_env \<Rightarrow> int \<Rightarrow> 'a auth_rq \<Rightarrow> http_auth option \<Rightarrow> auth_mark \<Rightarrow> 'a digest_table \<Rightarrow> bool \<times> bool \<times> 'a digest_table" where
  "checkLogin env now rq auth m t =
     (case auth of
        None \<Rightarrow> (False, False, t)
      | Some a \<Rightarrow>
          if authType a \<noteq> am_auth_type m then (False, False, t)
          else
            (case auth_session (ae_parse_url env) (ae_compare env) now rq a t of (session_ok, t) \<Rightarrow>
             let result = (case password_of m (getUser a) of
                 None \<Rightarrow> False
               | Some p \<Rightarrow> p \<noteq> [] \<and> auth_verify (ae_string2int env) now (rq_method rq) a p (am_cryptType m)) in
             if \<not> session_ok then (False, result, t) else (result, False, t)))"

datatype mark_result = Mark_true | Mark_server_error | Mark_challenge string "string option" bool

definition PROGRAM_NAME :: string where "PROGRAM_NAME = ''kangle''"

text \<open>
  \<^verbatim>\<open>KAuthMark::process\<close>: the request goes on, the file could not be read, or a challenge is sent; for Digest
  it has a new nonce. \<open>path\<close> is the document root of the virtual host, or the one of the program.
\<close>

definition auth_mark_process ::
  "fs_ops \<Rightarrow> 'a auth_env \<Rightarrow> int \<Rightarrow> u32 \<Rightarrow> string \<Rightarrow> 'a auth_rq \<Rightarrow> http_auth option \<Rightarrow> auth_mark \<Rightarrow> 'a digest_table \<Rightarrow>
   (mark_result \<times> auth_mark \<times> 'a digest_table) option" where
  "auth_mark_process fs env now rand path rq auth m t =
     (case loadAuthFile fs now path m of (loaded, m) \<Rightarrow>
      if \<not> loaded then Some (Mark_server_error, m, t)
      else
        (case checkLogin env now rq auth m t of (ok, stale, t) \<Rightarrow>
         let realm = (case am_realm m of None \<Rightarrow> PROGRAM_NAME | Some r \<Rightarrow> r) in
         if ok then Some (Mark_true, m, t)
         else if am_auth_type m = AUTH_BASIC then Some (Mark_challenge realm None False, m, t)
         else map_option (\<lambda>(nonce, t). (Mark_challenge realm (Some nonce) stale, m, t)) (digest_init now rand realm (rq_peer rq) t)))"

section \<open>The management console\<close>

record manage_conf =
  mc_admin_ips :: "string list"
  mc_admin_user :: string
  mc_admin_passwd :: string
  mc_passwd_crypt :: nat
  mc_auth_type :: nat

text \<open>\<open>mr_header\<close> is \<^verbatim>\<open>get_http_value\<close>; \<open>mr_url_path\<close> is the path after rewriting, which a request always has.\<close>

record 'a manage_rq = "'a auth_rq" +
  mr_header :: "string \<Rightarrow> string option"
  mr_unix :: bool
  mr_ips :: string
  mr_url_path :: string

fun matchManageIP :: "string \<Rightarrow> string list \<Rightarrow> string option" where
  "matchManageIP ip [] = None"
| "matchManageIP ip (x # ips) =
     (if x \<noteq> [] \<and> hd x = CHR 0x7E then (if strcase_eq (tl x) ip then Some x else matchManageIP ip ips)
      else if x = ''*'' \<or> strcase_eq x ip then Some x
      else matchManageIP ip ips)"

record manage_result =
  mg_ok :: bool
  mg_stale :: bool
  mg_shutdown :: bool

definition refuse :: manage_result where
  "refuse = \<lparr>mg_ok = False, mg_stale = False, mg_shutdown = False\<rparr>"

text \<open>The part behind the addresses: the credentials.\<close>

definition manage_auth ::
  "'a auth_env \<Rightarrow> int \<Rightarrow> manage_conf \<Rightarrow> 'a manage_rq \<Rightarrow> http_auth option \<Rightarrow> 'a digest_table \<Rightarrow> manage_result \<times> 'a digest_table" where
  "manage_auth env now conf rq auth t =
     (case auth of
        None \<Rightarrow> (refuse, t)
      | Some a \<Rightarrow>
          if authType a \<noteq> mc_auth_type conf then (refuse, t)
          else if mc_admin_user conf = getUser a \<and>
              auth_verify (ae_string2int env) now (rq_method rq) a (mc_admin_passwd conf) (mc_passwd_crypt conf) then
            (case auth_session (ae_parse_url env) (ae_compare env) now (auth_rq.truncate rq) a t of (ok, t) \<Rightarrow>
               if ok then (refuse\<lparr>mg_ok := True\<rparr>, t) else (refuse\<lparr>mg_stale := True\<rparr>, t))
          else (refuse, t))"

text \<open>\<open>sec_file\<close>: the file \<^verbatim>\<open>manage.sec\<close> exists.\<close>

definition checkManageLogin ::
  "'a auth_env \<Rightarrow> int \<Rightarrow> bool \<Rightarrow> manage_conf \<Rightarrow> 'a manage_rq \<Rightarrow> http_auth option \<Rightarrow> 'a digest_table \<Rightarrow> manage_result \<times> 'a digest_table" where
  "checkManageLogin env now sec_file conf rq auth t =
     (if mr_header rq ''X-Real-IP'' \<noteq> None then (refuse\<lparr>mg_shutdown := True\<rparr>, t)
      else if mr_unix rq then (refuse\<lparr>mg_ok := True\<rparr>, t)
      else if mr_ips rq \<noteq> ''127.0.0.1'' \<and> sec_file then (refuse\<lparr>mg_shutdown := True\<rparr>, t)
      else if mc_admin_ips conf \<noteq> [] then
        (case matchManageIP (mr_ips rq) (mc_admin_ips conf) of
           None \<Rightarrow> (refuse, t)
         | Some matched_ip \<Rightarrow>
             if matched_ip \<noteq> [] \<and> hd matched_ip = CHR 0x7E then (refuse\<lparr>mg_ok := True\<rparr>, t) else manage_auth env now conf rq auth t)
      else manage_auth env now conf rq auth t)"

definition is_prefix :: "string \<Rightarrow> string \<Rightarrow> bool" where
  "is_prefix p s \<longleftrightarrow> take (length p) s = p"

text \<open>The host of an origin or of a referring page; an origin has no path, which the parser expects.\<close>

definition origin_host :: "url_parser \<Rightarrow> string \<Rightarrow> string option" where
  "origin_host parse_url text =
     (if \<not> is_prefix ''http://'' text \<and> \<not> is_prefix ''https://'' text then None
      else
        (let rest = drop (if is_prefix ''http://'' text then 7 else 8) text;
             text = (if CHR ''/'' \<in> set rest then text else text @ ''/'') in
         case parse_url text of None \<Rightarrow> None | Some (h, p, q) \<Rightarrow> h))"

definition is_cross_site_manage_request :: "url_parser \<Rightarrow> 'a manage_rq \<Rightarrow> bool" where
  "is_cross_site_manage_request parse_url rq =
     (if rq_method rq = ''GET'' \<and> mr_url_path rq = ''/'' then False
      else (case mr_header rq ''Sec-Fetch-Site'' of
        Some value \<Rightarrow> strcase_eq value ''cross-site''
      | None \<Rightarrow>
          (case (case mr_header rq ''Origin'' of None \<Rightarrow> mr_header rq ''Referer'' | Some v \<Rightarrow> Some v) of
             None \<Rightarrow> False
           | Some text \<Rightarrow>
               (case (rq_host rq, origin_host parse_url text) of
                  (Some host, Some from_host) \<Rightarrow> \<not> strcase_eq from_host host
                | _ \<Rightarrow> True))))"

datatype manage_stage = Stage_login bool | Stage_forbidden | Stage_static | Stage_manage

definition static_ext :: "string \<Rightarrow> bool" where
  "static_ext path =
     (CHR ''.'' \<in> set path \<and>
      (CHR ''.'' # rev (takeWhile (\<lambda>c. c \<noteq> CHR ''.'') (rev path))) \<in> set [''.whm'', ''.html'', ''.js'', ''.gif'', ''.css''])"

text \<open>\<^verbatim>\<open>stageHttpManage\<close>: what becomes of a request to the management port. \<open>index_file\<close>: there is a file for the homepage.\<close>

definition stageHttpManage ::
  "'a auth_env \<Rightarrow> int \<Rightarrow> bool \<Rightarrow> bool \<Rightarrow> manage_conf \<Rightarrow> 'a manage_rq \<Rightarrow> http_auth option \<Rightarrow> 'a digest_table \<Rightarrow> manage_stage \<times> 'a digest_table" where
  "stageHttpManage env now sec_file index_file conf rq auth t =
     (case checkManageLogin env now sec_file conf rq auth t of (r, t) \<Rightarrow>
      if \<not> mg_ok r then (Stage_login (mg_stale r), t)
      else if is_cross_site_manage_request (ae_parse_url env) rq then (Stage_forbidden, t)
      else (if mr_url_path rq = ''/'' \<and> index_file \<or> static_ext (mr_url_path rq) then Stage_static else Stage_manage, t))"

section \<open>Who gets in\<close>

text \<open>What a Digest response must be for a password.\<close>

definition digest_answer :: "string \<Rightarrow> digest_auth \<Rightarrow> string \<Rightarrow> string" where
  "digest_answer method d ha1 =
     KMD5 (ha1 @ '':'' @ da_nonce d @ '':'' @ da_nc d @ '':'' @ da_cnonce d @ '':'' @ da_qop d @ '':'' @ KMD5 (method @ '':'' @ da_uri d))"

definition digest_ha1 :: "digest_auth \<Rightarrow> string \<Rightarrow> nat \<Rightarrow> string" where
  "digest_ha1 d password type =
     (if type = CRYPT_TYPE_PLAIN then KMD5 (da_user d @ '':'' @ da_realm d @ '':'' @ password) else take 32 password)"

text \<open>
  Credentials that prove a password: a Basic password that checks, or the answer to a challenge the server has
  sent to this address, for this realm, and for the address that is asked for.
\<close>

definition proves ::
  "'a auth_env \<Rightarrow> int \<Rightarrow> 'a digest_event list \<Rightarrow> 'a auth_rq \<Rightarrow> http_auth \<Rightarrow> string \<Rightarrow> nat \<Rightarrow> bool" where
  "proves env now evs rq a password type \<longleftrightarrow>
     (case a of
        Basic b \<Rightarrow> checkPassword (ae_string2int env) now (ba_password b) password type
      | Digest d \<Rightarrow> strcase_eq (da_response d) (digest_answer (rq_method rq) d (digest_ha1 d password type)) \<and>
          same_url (ae_parse_url env) rq (da_uri d) \<and>
          (\<exists>at peer. Challenged at (da_nonce d) (da_realm d) peer \<in> set evs \<and> ae_compare env (rq_peer rq) peer = 0))"

lemma verified_proves:
  assumes "digest_run (ae_parse_url env) (ae_compare env) evs t" "auth_verify (ae_string2int env) now (rq_method rq) a password type"
    "auth_session (ae_parse_url env) (ae_compare env) now rq a t = (True, t')"
  shows "proves env now evs rq a password type"
proof (cases a)
  case (Basic b)
  with assms(2) show ?thesis by (simp add: proves_def auth_verify_def)
next
  case (Digest d)
  with assms(3) have "verifySession (ae_parse_url env) (ae_compare env) now rq d t = (True, t')" by (simp add: auth_session_def)
  from accepted_was_challenged [OF assms(1) this] assms(2) Digest show ?thesis
    by (simp add: proves_def auth_verify_def digest_verify_def digest_answer_def digest_ha1_def Let_def)
qed

lemma digest_run_session:
  "digest_run (ae_parse_url env) (ae_compare env) evs t \<Longrightarrow> auth_session (ae_parse_url env) (ae_compare env) now rq a t = (ok, t') \<Longrightarrow>
   \<exists>evs'. digest_run (ae_parse_url env) (ae_compare env) evs' t'"
  by (cases a) (auto simp: auth_session_def intro: digest_run.check)

lemma manage_auth_proves:
  assumes "digest_run (ae_parse_url env) (ae_compare env) evs t" "mg_ok (fst (manage_auth env now conf rq auth t))"
  shows "\<exists>a. auth = Some a \<and> authType a = mc_auth_type conf \<and> getUser a = mc_admin_user conf \<and>
    proves env now evs (auth_rq.truncate rq) a (mc_admin_passwd conf) (mc_passwd_crypt conf)"
proof -
  from assms(2) obtain a t' where a: "auth = Some a" "authType a = mc_auth_type conf" "mc_admin_user conf = getUser a"
    "auth_verify (ae_string2int env) now (rq_method rq) a (mc_admin_passwd conf) (mc_passwd_crypt conf)"
    "auth_session (ae_parse_url env) (ae_compare env) now (auth_rq.truncate rq) a t = (True, t')"
    by (auto simp: manage_auth_def refuse_def split: option.splits if_splits prod.splits)
  have "rq_method (auth_rq.truncate rq) = rq_method rq" by (simp add: auth_rq.defs)
  with a verified_proves [OF assms(1) _ a(5)] show ?thesis by simp
qed


text \<open>
  A request that passes the authentication of an access chain carries credentials of the configured kind whose
  user, or the user \<open>*\<close>, is in the file with a password that is not empty and that the credentials prove. A chain
  never ends without an answer.
\<close>

theorem auth_mark_lets_in:
  assumes "digest_run (ae_parse_url env) (ae_compare env) evs t"
  shows "\<exists>r m' t'. auth_mark_process fs env now rand path rq auth m t = Some (r, m', t') \<and>
    (r = Mark_true \<longrightarrow> (\<exists>a p. auth = Some a \<and> authType a = am_auth_type m \<and> p \<noteq> [] \<and>
      (om_find (am_users m') (getUser a) = Some p \<or> om_find (am_users m') (getUser a) = None \<and> om_find (am_users m') ''*'' = Some p) \<and>
      proves env now evs rq a p (am_cryptType m)))"
proof -
  obtain loaded m1 where l: "loadAuthFile fs now path m = (loaded, m1)" by fastforce
  obtain ok stale t1 where c: "checkLogin env now rq auth m1 t = (ok, stale, t1)" by (cases "checkLogin env now rq auth m1 t")
  have same: "am_auth_type m1 = am_auth_type m" "am_cryptType m1 = am_cryptType m"
    using l by (auto simp: loadAuthFile_def Let_def split: if_splits prod.splits option.splits)
  have run: "\<exists>evs'. digest_run (ae_parse_url env) (ae_compare env) evs' t1"
    using assms c digest_run_session [OF assms] by (auto simp: checkLogin_def Let_def split: option.splits if_splits prod.splits)
  show ?thesis
  proof (cases "loaded \<and> ok")
    case True
    then obtain a p t2 where a: "auth = Some a" "authType a = am_auth_type m1" "password_of m1 (getUser a) = Some p" "p \<noteq> []"
      "auth_verify (ae_string2int env) now (rq_method rq) a p (am_cryptType m1)"
      "auth_session (ae_parse_url env) (ae_compare env) now rq a t = (True, t2)"
      using c by (auto simp: checkLogin_def Let_def split: option.splits if_splits prod.splits)
    from verified_proves [OF assms a(5,6)] a same True l c show ?thesis
      by (auto simp: auth_mark_process_def password_of_def split: option.splits)
  next
    case False
    from run obtain evs' where "digest_run (ae_parse_url env) (ae_compare env) evs' t1" by blast
    from digest_run_ok [OF this] have t1: "digest_linked t1" "length (sessions t1) \<le> MAX_DIGEST_SESSION" by blast+
    let ?realm = "case am_realm m1 of None \<Rightarrow> PROGRAM_NAME | Some r \<Rightarrow> r"
    from digest_init_ok [OF t1, of now rand ?realm "rq_peer rq"] obtain t2 where
      "digest_init now rand ?realm (rq_peer rq) t1 = Some (make_nonce now rand, t2)" by blast
    then have "auth_mark_process fs env now rand path rq auth m t =
        Some (if \<not> loaded then (Mark_server_error, m1, t)
          else if am_auth_type m1 = AUTH_BASIC then (Mark_challenge ?realm None False, m1, t1)
          else (Mark_challenge ?realm (Some (make_nonce now rand)) stale, m1, t2))"
      using False l c by (simp add: auth_mark_process_def Let_def)
    then show ?thesis by (auto split: if_splits)
  qed
qed

section \<open>What a file of users says\<close>

function file_lines :: "(char \<Rightarrow> bool) \<Rightarrow> string \<Rightarrow> string list" where
  "file_lines P hot = (case readLine P hot of None \<Rightarrow> [] | Some (line, r) \<Rightarrow> line # file_lines P r)"
  by pat_completeness auto
termination
  by (relation "measure (\<lambda>(P, hot). length hot)") (auto intro: readLine_less dest: sym)

declare file_lines.simps [simp del]

text \<open>The entries before the signature, in the order of the file.\<close>

definition file_entries :: "string list \<Rightarrow> (string \<times> string) list" where
  "file_entries ls =
     List.map_filter (\<lambda>l. case cut_at (CHR '':'') l of (user, Some passwd) \<Rightarrow> Some (user, passwd) | _ \<Rightarrow> None)
       (takeWhile (\<lambda>l. l \<noteq> AUTH_FILE_SIGN) ls)"

lemma file_entries_simps:
  "file_entries [] = []"
  "file_entries (l # ls) =
     (if l = AUTH_FILE_SIGN then []
      else (case cut_at (CHR '':'') l of (user, Some passwd) \<Rightarrow> [(user, passwd)] | _ \<Rightarrow> []) @ file_entries ls)"
  by (auto simp: file_entries_def map_filter_simps split: prod.split option.split)

lemma users_loop_entries:
  "om_wf users \<Longrightarrow> users_loop P m hot users = (us, file_signed) \<Longrightarrow>
     om_wf us \<and> file_signed = (AUTH_FILE_SIGN \<in> set (file_lines P hot)) \<and>
     (\<forall>u. om_find us u = (case om_find users u of Some p \<Rightarrow> Some p
        | None \<Rightarrow> if user_wanted m u then map_of (file_entries (file_lines P hot)) u else None))"
proof (induction P m hot users arbitrary: us file_signed rule: users_loop.induct)
  case (1 P m hot users)
  show ?case
  proof (cases "readLine P hot")
    case None
    then show ?thesis using 1(3,4) by (auto simp: users_loop.simps [of P m hot] file_lines.simps [of P hot] file_entries_simps split: option.split)
  next
    case (Some lr)
    obtain line r where lr: "lr = (line, r)" by (cases lr)
    have fl: "file_lines P hot = line # file_lines P r" using Some lr by (subst file_lines.simps) simp
    show ?thesis
    proof (cases "line = AUTH_FILE_SIGN")
      case True
      then show ?thesis using 1(3,4) Some lr fl by (auto simp: users_loop.simps [of P m hot] file_entries_simps split: option.split)
    next
      case sign: False
      obtain user rest where c: "cut_at (CHR '':'') line = (user, rest)" by fastforce
      show ?thesis
      proof (cases rest)
        case None
        then have "users_loop P m r users = (us, file_signed)" using 1(4) Some lr sign c by (simp add: users_loop.simps [of P m hot])
        moreover have "file_entries (file_lines P hot) = file_entries (file_lines P r)" using fl sign c None by (simp add: file_entries_simps)
        ultimately show ?thesis using 1(1) [OF Some lr [symmetric] sign c [symmetric] None 1(3)] fl sign by (auto split: option.split)
      next
        case (Some passwd)
        let ?users = "if user_wanted m user then om_insert user passwd users else users"
        have loop: "users_loop P m r ?users = (us, file_signed)" using 1(4) \<open>readLine P hot = Some lr\<close> lr sign c Some
          by (simp add: users_loop.simps [of P m hot])
        have wf: "om_wf ?users" using 1(3) by (simp add: om.wf_emplace)
        have "file_entries (file_lines P hot) = (user, passwd) # file_entries (file_lines P r)"
          using fl sign c Some by (simp add: file_entries_simps)
        moreover note 1(2) [OF \<open>readLine P hot = Some lr\<close> lr [symmetric] sign c [symmetric] Some wf loop]
        ultimately show ?thesis using fl sign 1(3) by (auto simp: om.find_emplace split: option.splits if_splits)
      qed
    qed
  qed
qed

text \<open>
  When a file of users has changed, its users are those of its lines: of the entries before the signature the
  first one for each user that is wanted. When a signature is demanded and missing, as in a file that is being
  written, the users stay as they were.
\<close>

theorem auth_file_users:
  assumes "10 \<le> abs (now - am_lastLoad m)"
    and "fs_lstat fs (load_path (fs_absolute fs) path (am_file m)) = Some (True, mtime, sz)" "mtime \<noteq> am_lastModified m"
    and "fs_contents fs (load_path (fs_absolute fs) path (am_file m)) (min sz MAX_OPEN_FILE_SIZE) = Some buf"
  shows "\<exists>m'. loadAuthFile fs now path m = (True, m') \<and> (let ls = file_lines (fs_space fs) (c_string buf) in
    if am_file_sign m \<and> AUTH_FILE_SIGN \<notin> set ls then am_users m' = am_users m
    else (\<forall>u. om_find (am_users m') u = (if user_wanted m u then map_of (file_entries ls) u else None)))"
proof -
  let ?m = "m\<lparr>am_lastLoad := now, am_lastState := OPEN_SUCCESS, am_lastModified := mtime\<rparr>" and ?hot = "c_string buf"
  obtain us file_signed where l: "users_loop (fs_space fs) ?m ?hot [] = (us, file_signed)" by fastforce
  have "\<not> (now - am_lastLoad m > - 10 \<and> now - am_lastLoad m < 10)" using assms(1) by linarith
  note late = if_not_P [OF this]
  have "loadAuthFile fs now path m = (True, if \<not> am_file_sign m \<or> file_signed then ?m\<lparr>am_users := us\<rparr> else ?m)"
    unfolding loadAuthFile_def Let_def late using assms(2-4) l by (simp add: line_file_open_def)
  moreover have "user_wanted ?m = user_wanted m" by (auto simp: user_wanted_def fun_eq_iff split: option.split)
  ultimately show ?thesis using users_loop_entries [OF _ l] by (auto simp: Let_def)
qed

section \<open>Examples\<close>

definition example_env :: "nat auth_env" where
  "example_env = \<lparr>ae_parse_url = \<lambda>s. Some (None, Some s, None), ae_compare = example_cmp, ae_string2int = atoi\<rparr>"

definition example_conf :: manage_conf where
  "example_conf = \<lparr>mc_admin_ips = [''*''], mc_admin_user = ''admin'', mc_admin_passwd = ''kangle'', mc_passwd_crypt = CRYPT_TYPE_PLAIN,
     mc_auth_type = AUTH_BASIC\<rparr>"

definition example_rq :: "nat manage_rq" where
  "example_rq = \<lparr>rq_host = Some ''h'', rq_path = Some ''/config'', rq_param = None, rq_method = ''GET'', rq_peer = 1,
     mr_header = \<lambda>_. None, mr_unix = False, mr_ips = ''10.0.0.1'', mr_url_path = ''/config''\<rparr>"

definition example_admin :: http_auth where
  "example_admin = Basic \<lparr>ba_user = ''admin'', ba_password = ''kangle''\<rparr>"


definition example_mark :: auth_mark where
  "example_mark = new_auth_mark\<lparr>am_file := ''users'', am_file_sign := True\<rparr>"

definition example_fs :: fs_ops where
  "example_fs = \<lparr>fs_lstat = \<lambda>f. Some (True, 77, 100), fs_contents = \<lambda>f n. Some (''joe:pw'' @ [CHR 0x0A] @ AUTH_FILE_SIGN), fs_absolute = \<lambda>f. False,
     fs_space = is_space\<rparr>"

theorem auth_file_users_witness:
  "\<exists>m'. loadAuthFile example_fs 1000 ''/www'' example_mark = (True, m') \<and> om_find (am_users m') ''joe'' = Some ''pw''"
proof -
  have "file_lines is_space (c_string (''joe:pw'' @ [CHR 0x0A] @ AUTH_FILE_SIGN)) = [''joe:pw'', AUTH_FILE_SIGN]" by code_simp
  moreover have "file_entries [''joe:pw'', AUTH_FILE_SIGN] = [(''joe'', ''pw'')]" by code_simp
  ultimately show ?thesis
    using auth_file_users [of 1000 example_mark example_fs "''/www''" 77 100 "''joe:pw'' @ [CHR 0x0A] @ AUTH_FILE_SIGN"]
    by (auto simp: example_mark_def new_auth_mark_def example_fs_def user_wanted_def)
qed

theorem auth_mark_lets_in_witness:
  "\<exists>r m' t'. auth_mark_process example_fs example_env 1000 7 ''/www'' (auth_rq.truncate example_rq)
      (Some (Basic \<lparr>ba_user = ''joe'', ba_password = ''pw''\<rparr>)) example_mark example_table = Some (r, m', t') \<and> r = Mark_true \<and>
    proves example_env 1000 [Challenged 1000 ''3e87'' ''kangle'' 1] (auth_rq.truncate example_rq) (Basic \<lparr>ba_user = ''joe'', ba_password = ''pw''\<rparr>)
      ''pw'' CRYPT_TYPE_PLAIN"
proof -
  have run: "digest_run (ae_parse_url example_env) (ae_compare example_env) [Challenged 1000 ''3e87'' ''kangle'' 1] example_table"
    using example_run by (simp add: example_env_def)
  let ?P = "auth_mark_process example_fs example_env 1000 7 ''/www'' (auth_rq.truncate example_rq)
      (Some (Basic \<lparr>ba_user = ''joe'', ba_password = ''pw''\<rparr>)) example_mark example_table"
  have p: "map_option (\<lambda>(r, m, t). (r, am_users m)) ?P = Some (Mark_true, [(''joe'', ''pw'')])" by code_simp
  from auth_mark_lets_in [OF run, of example_fs 1000 7 "''/www''" "auth_rq.truncate example_rq"
      "Some (Basic \<lparr>ba_user = ''joe'', ba_password = ''pw''\<rparr>)" example_mark] p show ?thesis
    by (fastforce simp: getUser_def example_mark_def new_auth_mark_def)
qed

end
