(* ===== verification/Object_Hash.thy ===== *)
theory Object_Hash
  imports Digest_Auth
begin

text \<open>
  The index of the cache: \<^verbatim>\<open>include/KHttpObjectHash.h\<close>, \<^verbatim>\<open>src/KVary.cpp\<close> and what \<^verbatim>\<open>include/KHttpObject.h\<close> counts. Objects
  are found by their address and, when the response says that it varies, by the values of request headers. A node of
  the search tree holds the chain of the objects with one key; a lookup first finds the topmost node of the address,
  takes the names of the headers from it, and searches on below it.

  Objects live in a heap indexed by natural numbers, a node of the tree is named by its position in order, as long as
  the tree is not changed. The order of addresses (\<^verbatim>\<open>KUrl::cmp\<close>, \<^verbatim>\<open>KUrl::cmpn\<close>) and the balancing of the tree (krbtree)
  are code of other libraries: \<open>url_cmp\<close>, \<open>url_cmpn\<close> and \<open>rb_ops\<close>, with \<open>url_order\<close>, \<open>prefix_order\<close> and \<open>rb_laws\<close> what is relied on.
  A failed assertion and the use of a null pointer are \<open>None\<close>. Every operation runs under the lock of the index.
\<close>

section \<open>Keys\<close>

record vary =
  vy_key :: "string option"
  vy_val :: "string option"

record 'u url_key =
  uk_url :: 'u
  uk_vary :: "vary option"

definition strcmp :: "string \<Rightarrow> string \<Rightarrow> int" where
  "strcmp a b = (if a < b then - 1 else if a = b then 0 else 1)"

definition strcasecmp :: "string \<Rightarrow> string \<Rightarrow> int" where
  "strcasecmp a b = strcmp (map to_lower a) (map to_lower b)"

text \<open>A null pointer is behind everything else.\<close>

definition cmp_null :: "(string \<Rightarrow> string \<Rightarrow> int) \<Rightarrow> string option \<Rightarrow> string option \<Rightarrow> int" where
  "cmp_null c a b =
     (case (a, b) of (None, None) \<Rightarrow> 0 | (None, Some y) \<Rightarrow> 1 | (Some x, None) \<Rightarrow> - 1 | (Some x, Some y) \<Rightarrow> c x y)"

definition cmp_vary_key :: "vary option \<Rightarrow> vary option \<Rightarrow> int" where
  "cmp_vary_key a b = cmp_null strcasecmp (Option.bind a vy_key) (Option.bind b vy_key)"

definition cmp_vary :: "vary option \<Rightarrow> vary option \<Rightarrow> int" where
  "cmp_vary a b = cmp_null strcmp (Option.bind a vy_val) (Option.bind b vy_val)"

text \<open>The result, and whether the addresses are equal.\<close>

definition cmp_url_key :: "('u \<Rightarrow> 'u \<Rightarrow> int) \<Rightarrow> 'u url_key \<Rightarrow> 'u url_key \<Rightarrow> int \<times> bool" where
  "cmp_url_key url_cmp a b =
     (let ret = url_cmp (uk_url a) (uk_url b) in
      if ret \<noteq> 0 then (ret, False) else (cmp_vary (uk_vary a) (uk_vary b), True))"

definition update_url_vary_key :: "string option \<Rightarrow> vary option \<Rightarrow> vary option option" where
  "update_url_vary_key key v =
     (case key of
        None \<Rightarrow> (case v of None \<Rightarrow> None | Some y \<Rightarrow> Some (Some (y\<lparr>vy_key := None\<rparr>)))
      | Some k \<Rightarrow> Some (Some (case v of None \<Rightarrow> \<lparr>vy_key = Some k, vy_val = None\<rparr> | Some y \<Rightarrow> y\<lparr>vy_key := Some k\<rparr>)))"

section \<open>Objects\<close>

record 'u hash_obj =
  ho_uk :: "'u url_key"
  ho_dead :: bool
  ho_in_mem :: bool
  ho_in_disk :: bool
  ho_internal :: bool
  ho_memory_object :: bool
  ho_last_verified :: int
  ho_encoding :: nat
  ho_head_size :: int
  ho_content_length :: int
  ho_refs :: nat
  ho_in_cache :: bool

type_synonym 'u oheap = "nat \<Rightarrow> 'u hash_obj"

definition obj_Dead :: "'u hash_obj \<Rightarrow> 'u hash_obj" where
  "obj_Dead ob = ob\<lparr>ho_dead := True\<rparr>"

definition GetMemorySize :: "'u hash_obj \<Rightarrow> int" where
  "GetMemorySize ob = ho_head_size ob + (if ho_memory_object ob then ho_content_length ob else 0)"

definition GetDiskSize :: "'u hash_obj \<Rightarrow> int" where
  "GetDiskSize ob = ho_head_size ob + ho_content_length ob"

fun update_obj_vary_key :: "string option \<Rightarrow> nat list \<Rightarrow> 'u oheap \<Rightarrow> 'u oheap option" where
  "update_obj_vary_key key [] H = Some H"
| "update_obj_vary_key key (i # chain) H =
     (case update_url_vary_key key (uk_vary (ho_uk (H i))) of
        None \<Rightarrow> None
      | Some v \<Rightarrow> update_obj_vary_key key chain (H(i := (obj_Dead (H i))\<lparr>ho_uk := (ho_uk (H i))\<lparr>uk_vary := v\<rparr>\<rparr>)))"

section \<open>The tree\<close>

datatype otree = OLeaf | ONode otree "nat list" otree

fun inorder :: "otree \<Rightarrow> nat list list" where
  "inorder OLeaf = []"
| "inorder (ONode l d r) = inorder l @ d # inorder r"

definition osize :: "otree \<Rightarrow> nat" where
  "osize t = length (inorder t)"

record rb_ops =
  rb_insert_color :: "otree \<Rightarrow> otree"
  rb_erase :: "nat \<Rightarrow> otree \<Rightarrow> otree"

record ohash =
  nodes :: otree
  mem_size :: int
  disk_size :: int
  mem_count :: int
  disk_count :: int

definition new_ohash :: ohash where
  "new_ohash = \<lparr>nodes = OLeaf, mem_size = 0, disk_size = 0, mem_count = 0, disk_count = 0\<rparr>"

text \<open>\<^verbatim>\<open>find\<close>: the node of the key, and the topmost node of the address with what is below it. \<open>off\<close> is the position of the leftmost node.\<close>

fun find_node ::
  "('u \<Rightarrow> 'u \<Rightarrow> int) \<Rightarrow> 'u oheap \<Rightarrow> 'u url_key \<Rightarrow> otree \<Rightarrow> nat \<Rightarrow> (nat \<times> otree) option \<Rightarrow>
   (nat \<times> nat list) option \<times> (nat \<times> otree) option" where
  "find_node url_cmp H uk OLeaf off m = (None, m)"
| "find_node url_cmp H uk (ONode l d r) off m =
     (case cmp_url_key url_cmp uk (ho_uk (H (hd d))) of (result, match_url) \<Rightarrow>
      let pos = off + osize l;
          m = (if match_url \<and> m = None then Some (pos, ONode l d r) else m) in
      if result < 0 then find_node url_cmp H uk l off m
      else if result > 0 then find_node url_cmp H uk r (pos + 1) m
      else (Some (pos, d), m))"

text \<open>\<open>file_of\<close> is \<^verbatim>\<open>get_filename\<close>, the file of an object in the disk cache.\<close>

definition FindByFilename :: "('u \<Rightarrow> 'u \<Rightarrow> int) \<Rightarrow> ('u hash_obj \<Rightarrow> string option) \<Rightarrow> 'u url_key \<Rightarrow> string \<Rightarrow> ohash \<Rightarrow> 'u oheap \<Rightarrow> bool" where
  "FindByFilename url_cmp file_of uk filename h H =
     (case fst (find_node url_cmp H uk (nodes h) 0 None) of
        None \<Rightarrow> False
      | Some (p, chain) \<Rightarrow> list_ex (\<lambda>i. ho_in_disk (H i) \<and> file_of (H i) = Some filename) chain)"

text \<open>Linking an object: into the chain of its key, or as a new node where the search ends.\<close>

fun link_object :: "('u \<Rightarrow> 'u \<Rightarrow> int) \<Rightarrow> 'u oheap \<Rightarrow> nat \<Rightarrow> otree \<Rightarrow> otree" where
  "link_object url_cmp H i OLeaf = ONode OLeaf [i] OLeaf"
| "link_object url_cmp H i (ONode l d r) =
     (case cmp_url_key url_cmp (ho_uk (H i)) (ho_uk (H (hd d))) of (result, match_url) \<Rightarrow>
      if result < 0 then ONode (link_object url_cmp H i l) d r
      else if result > 0 then ONode l d (link_object url_cmp H i r)
      else ONode l (i # d) r)"

text \<open>\<^verbatim>\<open>node->data = chain\<close> for the node at a position.\<close>

fun set_chain :: "nat \<Rightarrow> nat list \<Rightarrow> otree \<Rightarrow> otree" where
  "set_chain p c OLeaf = OLeaf"
| "set_chain p c (ONode l d r) =
     (if p < osize l then ONode (set_chain p c l) d r
      else if p = osize l then ONode l c r
      else ONode l d (set_chain (p - osize l - 1) c r))"

section \<open>Changing what an address varies by\<close>

text \<open>The chains behind a node, in either direction, as long as they have the address.\<close>

fun update_url_vary :: "('u \<Rightarrow> 'u \<Rightarrow> int) \<Rightarrow> 'u \<Rightarrow> vary option \<Rightarrow> nat list list \<Rightarrow> 'u oheap \<Rightarrow> 'u oheap option" where
  "update_url_vary url_cmp url v [] H = Some H"
| "update_url_vary url_cmp url v (c # cs) H =
     (if url_cmp (uk_url (ho_uk (H (hd c)))) url \<noteq> 0 then Some H
      else (case (if cmp_vary_key (uk_vary (ho_uk (H (hd c)))) v \<noteq> 0 then update_obj_vary_key (Option.bind v vy_key) c H else Some H) of
         None \<Rightarrow> None
       | Some H \<Rightarrow> update_url_vary url_cmp url v cs H))"

definition InternalUpdateVary :: "('u \<Rightarrow> 'u \<Rightarrow> int) \<Rightarrow> otree \<Rightarrow> nat \<Rightarrow> vary option \<Rightarrow> 'u oheap \<Rightarrow> 'u oheap option" where
  "InternalUpdateVary url_cmp t p v H =
     (let cs = inorder t; c = cs ! p; url = uk_url (ho_uk (H (hd c))) in
      case update_obj_vary_key (Option.bind v vy_key) c H of
        None \<Rightarrow> None
      | Some H \<Rightarrow>
          (case update_url_vary url_cmp url v (drop (Suc p) cs) H of
             None \<Rightarrow> None
           | Some H \<Rightarrow> update_url_vary url_cmp url v (rev (take p cs)) H))"

definition UpdateVary :: "('u \<Rightarrow> 'u \<Rightarrow> int) \<Rightarrow> nat \<Rightarrow> vary option \<Rightarrow> ohash \<Rightarrow> 'u oheap \<Rightarrow> 'u oheap option" where
  "UpdateVary url_cmp i v h H =
     (case find_node url_cmp H (ho_uk (H i)) (nodes h) 0 None of
        (Some node, Some (p, sub)) \<Rightarrow> InternalUpdateVary url_cmp (nodes h) p v H
      | _ \<Rightarrow> None)"

section \<open>Inserting and removing\<close>

definition hash_insert :: "('u \<Rightarrow> 'u \<Rightarrow> int) \<Rightarrow> rb_ops \<Rightarrow> nat \<Rightarrow> otree \<Rightarrow> 'u oheap \<Rightarrow> (otree \<times> 'u oheap) option" where
  "hash_insert url_cmp rb i t H =
     (case find_node url_cmp H (ho_uk (H i)) t 0 None of (found, m) \<Rightarrow>
      let t' = link_object url_cmp H i t;
          H' = (case m of
             None \<Rightarrow> Some H
           | Some (p, sub) \<Rightarrow>
               if cmp_vary_key (uk_vary (ho_uk (H (hd (inorder t ! p))))) (uk_vary (ho_uk (H i))) \<noteq> 0
               then InternalUpdateVary url_cmp t p (uk_vary (ho_uk (H i))) H else Some H) in
      map_option (Pair (if found \<noteq> None then t' else rb_insert_color rb t')) H')"

definition CountSize :: "'u hash_obj \<Rightarrow> ohash \<Rightarrow> ohash" where
  "CountSize ob h =
     (let h = (if ho_in_mem ob then h\<lparr>mem_count := mem_count h + 1, mem_size := mem_size h + GetMemorySize ob\<rparr> else h) in
      if ho_in_disk ob then h\<lparr>disk_count := disk_count h + 1, disk_size := disk_size h + GetDiskSize ob\<rparr> else h)"

definition hash_put :: "('u \<Rightarrow> 'u \<Rightarrow> int) \<Rightarrow> rb_ops \<Rightarrow> nat \<Rightarrow> ohash \<Rightarrow> 'u oheap \<Rightarrow> (ohash \<times> 'u oheap) option" where
  "hash_put url_cmp rb i h H =
     (if ho_refs (H i) \<noteq> 1 then None
      else
        (case hash_insert url_cmp rb i (nodes h) (H(i := (H i)\<lparr>ho_refs := 2\<rparr>)) of
           None \<Rightarrow> None
         | Some (t, H) \<Rightarrow> Some (CountSize (H i) (h\<lparr>nodes := t\<rparr>), H)))"

definition IncMemObjectSize :: "'u hash_obj \<Rightarrow> ohash \<Rightarrow> ohash" where
  "IncMemObjectSize ob h = h\<lparr>mem_size := mem_size h + GetMemorySize ob, mem_count := mem_count h + 1\<rparr>"

definition DecMemObjectSize :: "'u hash_obj \<Rightarrow> ohash \<Rightarrow> ohash option" where
  "DecMemObjectSize ob h =
     (let h = h\<lparr>mem_size := mem_size h - GetMemorySize ob, mem_count := mem_count h - 1\<rparr> in
      if mem_size h > 0 \<or> (mem_size h = 0 \<and> mem_count h = 0) then Some h else None)"

definition IncDiskObjectSize :: "'u hash_obj \<Rightarrow> ohash \<Rightarrow> ohash" where
  "IncDiskObjectSize ob h = h\<lparr>disk_size := disk_size h + GetDiskSize ob, disk_count := disk_count h + 1\<rparr>"

definition DecDiskObjectSize :: "'u hash_obj \<Rightarrow> ohash \<Rightarrow> ohash option" where
  "DecDiskObjectSize ob h =
     (let h = h\<lparr>disk_size := disk_size h - GetDiskSize ob, disk_count := disk_count h - 1\<rparr> in
      if disk_size h > 0 \<or> (disk_size h = 0 \<and> disk_count h = 0) then Some h else None)"

definition MemObjectSizeChange :: "nat \<Rightarrow> int \<Rightarrow> ohash \<Rightarrow> 'u oheap \<Rightarrow> (ohash \<times> 'u oheap) option" where
  "MemObjectSizeChange i new_size h H =
     (if \<not> ho_in_mem (H i) then None
      else Some (h\<lparr>mem_size := mem_size h + new_size - ho_content_length (H i)\<rparr>, H(i := (H i)\<lparr>ho_content_length := new_size\<rparr>)))"

definition hash_getSize :: "ohash \<Rightarrow> int \<times> int \<times> int \<times> int \<Rightarrow> int \<times> int \<times> int \<times> int" where
  "hash_getSize h = (\<lambda>(cacheSize, diskSize, mc, dc). (cacheSize + mem_size h, diskSize + disk_size h, mc + mem_count h, dc + disk_count h))"

definition hash_remove :: "('u \<Rightarrow> 'u \<Rightarrow> int) \<Rightarrow> rb_ops \<Rightarrow> nat \<Rightarrow> ohash \<Rightarrow> 'u oheap \<Rightarrow> ohash option" where
  "hash_remove url_cmp rb i h H =
     (case find_node url_cmp H (ho_uk (H i)) (nodes h) 0 None of
        (None, m) \<Rightarrow> None
      | (Some (p, chain), m) \<Rightarrow>
          if i \<notin> set chain then None
          else
            (let rest = remove1 i chain;
                 h = h\<lparr>nodes := (if rest = [] then rb_erase rb p (nodes h) else set_chain p rest (nodes h))\<rparr> in
             case (if ho_in_mem (H i) then DecMemObjectSize (H i) h else Some h) of
               None \<Rightarrow> None
             | Some h \<Rightarrow> (if ho_in_disk (H i) then DecDiskObjectSize (H i) h else Some h)))"

text \<open>
  An object that was written to disk: \<^verbatim>\<open>KHttpObject::swapout\<close> counts it when it was not there, \<^verbatim>\<open>KObjectList::swapout_result\<close>
  sets the flag and, when nobody else uses the object, takes it out of memory. A body that was read again is what
  \<^verbatim>\<open>KHttpObjectSwaping::notice\<close> reports, \<open>ok\<close> or not (\<open>busy\<close> leaves the object alone).
\<close>

definition swapped_out :: "nat \<Rightarrow> bool \<Rightarrow> ohash \<Rightarrow> 'u oheap \<Rightarrow> (ohash \<times> 'u oheap) option" where
  "swapped_out i leave h H =
     (let h = (if ho_in_disk (H i) then h else IncDiskObjectSize (H i) h);
          ob = (H i)\<lparr>ho_in_disk := True\<rparr> in
      if leave then
        map_option (\<lambda>h. (h, H(i := ob\<lparr>ho_in_mem := False, ho_memory_object := False\<rparr>))) (DecMemObjectSize (ob\<lparr>ho_in_mem := False\<rparr>) h)
      else Some (h, H(i := ob)))"

definition swapped_in :: "nat \<Rightarrow> bool \<Rightarrow> bool \<Rightarrow> ohash \<Rightarrow> 'u oheap \<Rightarrow> ohash \<times> 'u oheap" where
  "swapped_in i ok busy h H =
     (if ok then
        (let ob = (H i)\<lparr>ho_memory_object := True, ho_in_mem := True\<rparr> in (IncMemObjectSize ob h, H(i := ob)))
      else if \<not> busy then (h, H(i := (H i)\<lparr>ho_dead := True, ho_memory_object := False\<rparr>))
      else (h, H(i := (H i)\<lparr>ho_memory_object := False\<rparr>)))"

section \<open>Looking up\<close>

text \<open>
  Extensions of vary are registered by modules under a name; \<open>build\<close> is what the callback of the module writes for a value.
\<close>

type_synonym vary_exts = "(string \<times> (string option \<Rightarrow> string)) list"

fun find_ext :: "string \<Rightarrow> vary_exts \<Rightarrow> (string option \<Rightarrow> string) option" where
  "find_ext name [] = None"
| "find_ext name ((n, build) # varys) = (if strcase_eq n name then Some build else find_ext name varys)"

definition register_vary_extend :: "string \<Rightarrow> (string option \<Rightarrow> string) \<Rightarrow> vary_exts \<Rightarrow> bool \<times> vary_exts" where
  "register_vary_extend name build varys =
     (if find_ext name varys \<noteq> None then (False, varys) else (True, (name, build) # varys))"

definition build_vary_extend :: "vary_exts \<Rightarrow> string \<Rightarrow> string option \<Rightarrow> string option" where
  "build_vary_extend varys name v = map_option (\<lambda>build. build v) (find_ext name varys)"

definition KGL_VARY_EXTEND_CHAR :: char where "KGL_VARY_EXTEND_CHAR = CHR ''|''"

text \<open>
  \<^verbatim>\<open>KHttpRequest::build_vary\<close>: the values of the headers, a line each, and whether the request must not be cached.
  \<open>header\<close> is the lookup of a header of the request in khttpd.
\<close>

fun build_vary_loop :: "vary_exts \<Rightarrow> (string \<Rightarrow> string option) \<Rightarrow> http_field list \<Rightarrow> string \<Rightarrow> bool \<times> string option" where
  "build_vary_loop varys header [] s = (False, if s = [] then None else Some s)"
| "build_vary_loop varys header (f # fs) s =
     (if strcase_eq (hf_attr f) ''Accept-Encoding'' then build_vary_loop varys header fs s
      else if hf_attr f \<noteq> [] \<and> hd (hf_attr f) = KGL_VARY_EXTEND_CHAR then
        (case cut_at (CHR ''='') (tl (hf_attr f)) of (name, v) \<Rightarrow>
         case build_vary_extend varys name v of
           None \<Rightarrow> (True, None)
         | Some w \<Rightarrow> build_vary_loop varys header fs (s @ w @ [CHR 0x0A]))
      else build_vary_loop varys header fs (s @ (case header (hf_attr f) of None \<Rightarrow> [] | Some w \<Rightarrow> w) @ [CHR 0x0A]))"

definition build_vary :: "vary_exts \<Rightarrow> (string \<Rightarrow> string option) \<Rightarrow> string \<Rightarrow> bool \<times> string option" where
  "build_vary varys header vary = build_vary_loop varys header (field_loop (CHR '','') vary []) []"

text \<open>\<open>gr_accepts\<close> is \<^verbatim>\<open>match_accept_encoding\<close> for the encodings the client accepts, \<open>gr_no_cache\<close> the flag \<^verbatim>\<open>RF_NO_CACHE\<close>.\<close>

record 'u get_rq =
  gr_url :: 'u
  gr_header :: "string \<Rightarrow> string option"
  gr_min_verified :: int
  gr_internal :: bool
  gr_accepts :: "'u \<Rightarrow> bool"
  gr_no_disk :: bool
  gr_no_cache :: bool

definition rq_build_vary :: "vary_exts \<Rightarrow> 'u get_rq \<Rightarrow> string \<Rightarrow> string option \<times> 'u get_rq" where
  "rq_build_vary varys rq vary =
     (case build_vary varys (gr_header rq) vary of (no_cache, v) \<Rightarrow> (v, rq\<lparr>gr_no_cache := gr_no_cache rq \<or> no_cache\<rparr>))"

definition AddVary :: "vary_exts \<Rightarrow> 'u get_rq \<Rightarrow> string \<Rightarrow> 'u hash_obj \<Rightarrow> bool \<times> 'u hash_obj \<times> 'u get_rq" where
  "AddVary varys rq val ob =
     (if uk_vary (ho_uk ob) = None then
        (case rq_build_vary varys rq val of
           (None, rq) \<Rightarrow> (False, ob, rq)
         | (Some v, rq) \<Rightarrow> (True, ob\<lparr>ho_uk := (ho_uk ob)\<lparr>uk_vary := Some \<lparr>vy_key = Some val, vy_val = Some v\<rparr>\<rparr>\<rparr>, rq))
      else (False, ob, rq))"

definition BuildVary :: "vary_exts \<Rightarrow> 'u get_rq \<Rightarrow> 'u hash_obj \<Rightarrow> string option \<times> 'u get_rq" where
  "BuildVary varys rq ob =
     (case uk_vary (ho_uk ob) of
        None \<Rightarrow> (None, rq)
      | Some v \<Rightarrow> (case vy_key v of None \<Rightarrow> (None, rq) | Some k \<Rightarrow> rq_build_vary varys rq k))"

text \<open>One object of the chain: the object as it is left, and whether it can be used.\<close>

definition get_object :: "'u get_rq \<Rightarrow> 'u hash_obj \<Rightarrow> 'u hash_obj \<times> bool" where
  "get_object rq ob =
     (if ho_dead ob then (ob, False)
      else
        (let old = gr_min_verified rq > 0 \<and> ho_last_verified ob < gr_min_verified rq in
         if old \<and> odd (gr_min_verified rq) then (obj_Dead ob, False)
         else
           (let ob = (if old then ob\<lparr>ho_last_verified := 0\<rparr> else ob) in
            (ob, gr_internal rq = ho_internal ob \<and> gr_accepts rq (uk_url (ho_uk ob)) \<and> (\<not> gr_no_disk rq \<or> ho_memory_object ob)))))"

fun get_loop :: "'u get_rq \<Rightarrow> nat list \<Rightarrow> nat option \<Rightarrow> 'u oheap \<Rightarrow> nat option \<times> 'u oheap" where
  "get_loop rq [] hit H = (hit, H)"
| "get_loop rq (i # chain) hit H =
     (case get_object rq (H i) of (ob, usable) \<Rightarrow>
      let H = H(i := ob);
          hit = (if usable \<and> (case hit of None \<Rightarrow> True | Some j \<Rightarrow> ho_encoding (H j) < ho_encoding ob) then Some i else hit) in
      get_loop rq chain hit H)"

definition hash_get ::
  "('u \<Rightarrow> 'u \<Rightarrow> int) \<Rightarrow> vary_exts \<Rightarrow> 'u get_rq \<Rightarrow> ohash \<Rightarrow> 'u oheap \<Rightarrow> (nat option \<times> 'u get_rq \<times> 'u oheap) option" where
  "hash_get url_cmp varys rq h H =
     (case find_node url_cmp H \<lparr>uk_url = gr_url rq, uk_vary = None\<rparr> (nodes h) 0 None of
        (node, None) \<Rightarrow> Some (None, rq, H)
      | (node, Some (p, sub)) \<Rightarrow>
          (case BuildVary varys rq (H (hd (inorder (nodes h) ! p))) of (v, rq) \<Rightarrow>
           let node = (case v of
                  None \<Rightarrow> node
                | Some x \<Rightarrow> fst (find_node url_cmp H \<lparr>uk_url = gr_url rq, uk_vary = Some \<lparr>vy_key = None, vy_val = Some x\<rparr>\<rparr> sub 0 None)) in
           case node of
             None \<Rightarrow> Some (None, rq, H)
           | Some (q, chain) \<Rightarrow>
               (case get_loop rq chain None H of
                  (None, H) \<Rightarrow> Some (None, rq, H)
                | (Some i, H) \<Rightarrow>
                    if ho_in_cache (H i) then Some (Some i, rq, H(i := (H i)\<lparr>ho_refs := ho_refs (H i) + 1\<rparr>)) else None)))"

definition UpdateCache :: "('u \<Rightarrow> 'u \<Rightarrow> int) \<Rightarrow> nat \<Rightarrow> 'u hash_obj \<Rightarrow> ohash \<Rightarrow> 'u oheap \<Rightarrow> 'u oheap option" where
  "UpdateCache url_cmp i ob h H =
     (if ho_in_cache ob \<or> \<not> ho_in_cache (H i) then None
      else if cmp_vary_key (uk_vary (ho_uk (H i))) (uk_vary (ho_uk ob)) \<noteq> 0
        then UpdateVary url_cmp i (uk_vary (ho_uk ob)) h H
      else Some H)"

section \<open>Purging\<close>

text \<open>\<open>handle\<close> is what is done to an object that is not dead; the number of these objects is returned.\<close>

fun purgeObject :: "(nat \<Rightarrow> 'u oheap \<Rightarrow> 'u oheap) \<Rightarrow> nat list \<Rightarrow> 'u oheap \<Rightarrow> nat \<times> 'u oheap" where
  "purgeObject handle [] H = (0, H)"
| "purgeObject handle (i # chain) H =
     (if \<not> ho_dead (H i) then (case purgeObject handle chain (handle i H) of (n, H) \<Rightarrow> (Suc n, H))
      else purgeObject handle chain H)"

fun purge_nodes :: "(nat \<Rightarrow> 'u oheap \<Rightarrow> 'u oheap) \<Rightarrow> nat list list \<Rightarrow> 'u oheap \<Rightarrow> nat \<times> 'u oheap" where
  "purge_nodes handle [] H = (0, H)"
| "purge_nodes handle (c # cs) H =
     (case purgeObject handle c H of (n, H) \<Rightarrow> case purge_nodes handle cs H of (m, H) \<Rightarrow> (n + m, H))"

text \<open>The nodes from one position on, backwards and then forwards, as long as they belong to what is purged.\<close>

definition run_of :: "('u url_key \<Rightarrow> bool) \<Rightarrow> 'u oheap \<Rightarrow> nat list list \<Rightarrow> nat \<Rightarrow> nat list list" where
  "run_of same H cs p =
     (let same_node = (\<lambda>c. same (ho_uk (H (hd c)))) in
      rev (takeWhile same_node (rev (take p cs))) @ cs ! p # takeWhile same_node (drop (Suc p) cs))"

fun findn :: "('u \<Rightarrow> 'u \<Rightarrow> int) \<Rightarrow> 'u oheap \<Rightarrow> 'u \<Rightarrow> otree \<Rightarrow> nat \<Rightarrow> nat option" where
  "findn url_cmpn H url OLeaf off = None"
| "findn url_cmpn H url (ONode l d r) off =
     (let result = url_cmpn url (uk_url (ho_uk (H (hd d)))); pos = off + osize l in
      if result < 0 then findn url_cmpn H url l off
      else if result > 0 then findn url_cmpn H url r (pos + 1)
      else Some pos)"

definition hash_purge ::
  "('u \<Rightarrow> 'u \<Rightarrow> int) \<Rightarrow> ('u \<Rightarrow> 'u \<Rightarrow> int) \<Rightarrow> 'u \<Rightarrow> bool \<Rightarrow> (nat \<Rightarrow> 'u oheap \<Rightarrow> 'u oheap) \<Rightarrow> ohash \<Rightarrow> 'u oheap \<Rightarrow> nat \<times> 'u oheap" where
  "hash_purge url_cmp url_cmpn url wide handle h H =
     (let cs = inorder (nodes h) in
      if wide then
        (case findn url_cmpn H url (nodes h) 0 of
           None \<Rightarrow> (0, H)
         | Some p \<Rightarrow> purge_nodes handle (run_of (\<lambda>uk. url_cmpn url (uk_url uk) = 0) H cs p) H)
      else
        (case snd (find_node url_cmp H \<lparr>uk_url = url, uk_vary = None\<rparr> (nodes h) 0 None) of
           None \<Rightarrow> (0, H)
         | Some (p, sub) \<Rightarrow> purge_nodes handle (run_of (\<lambda>uk. url_cmp (uk_url uk) url = 0) H cs p) H))"

definition handle_purge_object :: "nat \<Rightarrow> 'u oheap \<Rightarrow> 'u oheap" where
  "handle_purge_object i H = H(i := obj_Dead (H i))"

end
