(* ===== verification/Object_Hash_Ok.thy ===== *)
theory Object_Hash_Ok
  imports Object_Hash "HOL-Library.Multiset"
begin

text \<open>
  The index of the cache is a search tree whose nodes hold the objects of one key each; all objects of one address vary
  by the same headers. Insertion, removal and a change of what an address varies by keep this, lookups find the best
  object there is, and purging meets exactly the objects of an address.
\<close>

section \<open>The order of keys\<close>

definition url_order :: "('u \<Rightarrow> 'u \<Rightarrow> int) \<Rightarrow> ('u \<Rightarrow> 'k::linorder) \<Rightarrow> bool" where
  "url_order url_cmp key \<longleftrightarrow> (\<forall>a b. (url_cmp a b < 0 \<longleftrightarrow> key a < key b) \<and> (url_cmp a b = 0 \<longleftrightarrow> key a = key b))"

definition val_key :: "string option \<Rightarrow> bool \<times> string" where
  "val_key v = (case v of None \<Rightarrow> (True, []) | Some s \<Rightarrow> (False, s))"

definition vary_val :: "'u url_key \<Rightarrow> string option" where
  "vary_val uk = Option.bind (uk_vary uk) vy_val"

definition vary_by :: "vary option \<Rightarrow> string option" where
  "vary_by v = map_option (map to_lower) (Option.bind v vy_key)"

definition okey :: "('u \<Rightarrow> 'k) \<Rightarrow> 'u url_key \<Rightarrow> 'k \<times> bool \<times> string" where
  "okey key uk = (key (uk_url uk), val_key (vary_val uk))"

lemma val_key_inj: "val_key a = val_key b \<longleftrightarrow> a = b"
  by (auto simp: val_key_def split: option.splits)

lemma strcmp_sign: "(strcmp a b < 0 \<longleftrightarrow> a < b) \<and> (strcmp a b = 0 \<longleftrightarrow> a = b)"
  by (auto simp: strcmp_def)

lemma cmp_vary_sign:
  "(cmp_vary a b < 0 \<longleftrightarrow> val_key (Option.bind a vy_val) < val_key (Option.bind b vy_val)) \<and>
   (cmp_vary a b = 0 \<longleftrightarrow> Option.bind a vy_val = Option.bind b vy_val)"
  using strcmp_sign by (auto simp: cmp_vary_def cmp_null_def val_key_def split: option.splits)

lemma cmp_vary_key_zero: "cmp_vary_key a b = 0 \<longleftrightarrow> vary_by a = vary_by b"
  using strcmp_sign by (auto simp: cmp_vary_key_def cmp_null_def vary_by_def strcasecmp_def split: option.splits)

lemma cmp_url_key_sign:
  assumes "url_order url_cmp key" "cmp_url_key url_cmp a b = (r, m)"
  shows "(r < 0 \<longleftrightarrow> okey key a < okey key b) \<and> (r = 0 \<longleftrightarrow> okey key a = okey key b) \<and> (m \<longleftrightarrow> key (uk_url a) = key (uk_url b))"
proof -
  have u: "(url_cmp (uk_url a) (uk_url b) < 0 \<longleftrightarrow> key (uk_url a) < key (uk_url b))"
    "(url_cmp (uk_url a) (uk_url b) = 0 \<longleftrightarrow> key (uk_url a) = key (uk_url b))" using assms(1) unfolding url_order_def by blast+
  show ?thesis
  proof (cases "url_cmp (uk_url a) (uk_url b) = 0")
    case True
    then have "r = cmp_vary (uk_vary a) (uk_vary b)" "m" using assms(2) by (simp_all add: cmp_url_key_def Let_def)
    with True u cmp_vary_sign [of "uk_vary a" "uk_vary b"] show ?thesis
      by (simp add: okey_def vary_val_def val_key_inj)
  next
    case False
    then have "r = url_cmp (uk_url a) (uk_url b)" "\<not> m" using assms(2) by (auto simp: cmp_url_key_def Let_def)
    with False u show ?thesis by (auto simp: okey_def)
  qed
qed

section \<open>The search\<close>

definition ckey :: "('u \<Rightarrow> 'k) \<Rightarrow> 'u oheap \<Rightarrow> nat list \<Rightarrow> 'k \<times> bool \<times> string" where
  "ckey key H c = okey key (ho_uk (H (hd c)))"

definition chains_sorted :: "('u \<Rightarrow> 'k::linorder) \<Rightarrow> 'u oheap \<Rightarrow> nat list list \<Rightarrow> bool" where
  "chains_sorted key H cs \<longleftrightarrow> sorted_wrt (\<lambda>a b. ckey key H a < ckey key H b) cs"

lemma fst_ckey: "fst (ckey key H c) = key (uk_url (ho_uk (H (hd c))))"
  by (simp add: ckey_def okey_def)

lemma sorted_parts:
  assumes "chains_sorted key H (inorder (ONode l d r))"
  shows "chains_sorted key H (inorder l)" "chains_sorted key H (inorder r)"
    "\<And>a. a \<in> set (inorder l) \<Longrightarrow> ckey key H a < ckey key H d" "\<And>b. b \<in> set (inorder r) \<Longrightarrow> ckey key H d < ckey key H b"
  using assms by (auto simp: chains_sorted_def sorted_wrt_append)

lemma find_node_Some:
  assumes "url_order url_cmp key"
  shows "find_node url_cmp H uk t off m = (Some (p, c), m') \<Longrightarrow>
    \<exists>xs ys. inorder t = xs @ c # ys \<and> p = off + length xs \<and> ckey key H c = okey key uk"
proof (induction t arbitrary: off m)
  case (ONode l d r)
  obtain res mt where c: "cmp_url_key url_cmp uk (ho_uk (H (hd d))) = (res, mt)" by fastforce
  note s = cmp_url_key_sign [OF assms c, folded ckey_def]
  let ?m = "if mt \<and> m = None then Some (off + osize l, ONode l d r) else m"
  consider "res < 0" | "res > 0" | "res = 0" by linarith
  then show ?case
  proof cases
    case 1
    then have "find_node url_cmp H uk l off ?m = (Some (p, c), m')" using ONode.prems c by (simp add: Let_def)
    from ONode.IH(1) [OF this] obtain xs ys where "inorder l = xs @ c # ys" "p = off + length xs" "ckey key H c = okey key uk" by blast
    then show ?thesis by (intro exI [of _ xs] exI [of _ "ys @ d # inorder r"]) simp
  next
    case 2
    then have "find_node url_cmp H uk r (off + osize l + 1) ?m = (Some (p, c), m')" using ONode.prems c by (simp add: Let_def)
    from ONode.IH(2) [OF this] obtain xs ys where "inorder r = xs @ c # ys" "p = off + osize l + 1 + length xs" "ckey key H c = okey key uk"
      by blast
    then show ?thesis by (intro exI [of _ "inorder l @ d # xs"] exI [of _ ys]) (simp add: osize_def)
  next
    case 3
    then have "p = off + osize l" "c = d" using ONode.prems c by (simp_all add: Let_def)
    then show ?thesis using s 3 by (intro exI [of _ "inorder l"] exI [of _ "inorder r"]) (simp add: osize_def)
  qed
qed simp

lemma find_node_None:
  assumes "url_order url_cmp key"
  shows "chains_sorted key H (inorder t) \<Longrightarrow> fst (find_node url_cmp H uk t off m) = None \<Longrightarrow> c \<in> set (inorder t) \<Longrightarrow> ckey key H c \<noteq> okey key uk"
proof (induction t arbitrary: off m)
  case (ONode l d r)
  obtain res mt where c: "cmp_url_key url_cmp uk (ho_uk (H (hd d))) = (res, mt)" by fastforce
  note s = cmp_url_key_sign [OF assms c, folded ckey_def] and sp = sorted_parts [OF ONode.prems(1)]
  let ?m = "if mt \<and> m = None then Some (off + osize l, ONode l d r) else m"
  consider "c \<in> set (inorder l)" | "c = d" | "c \<in> set (inorder r)" using ONode.prems(3) by auto
  note where_c = this
  have "res \<noteq> 0" using ONode.prems(2) c by (auto simp: Let_def)
  then consider "res < 0" | "res > 0" by linarith
  then show ?case
  proof cases
    case 1
    then have "fst (find_node url_cmp H uk l off ?m) = None" using ONode.prems(2) c by (simp add: Let_def)
    note IH = ONode.IH(1) [OF sp(1) this]
    have "okey key uk < ckey key H d" using s 1 by blast
    with where_c IH sp(4) show ?thesis by (metis order.asym)
  next
    case 2
    then have "fst (find_node url_cmp H uk r (off + osize l + 1) ?m) = None" using ONode.prems(2) c by (simp add: Let_def)
    note IH = ONode.IH(2) [OF sp(2) this]
    have "ckey key H d < okey key uk" using s 2 by force
    with where_c IH sp(3) show ?thesis by (metis order.asym)
  qed
qed simp

definition same_url_key :: "('u \<Rightarrow> 'k) \<Rightarrow> 'u oheap \<Rightarrow> 'k \<Rightarrow> nat list \<Rightarrow> bool" where
  "same_url_key key H k c \<longleftrightarrow> key (uk_url (ho_uk (H (hd c)))) = k"

lemma find_node_keeps: "m \<noteq> None \<Longrightarrow> snd (find_node url_cmp H uk t off m) = m"
  by (induction t arbitrary: off m) (auto simp: Let_def split: prod.split)

lemma find_node_match:
  assumes "url_order url_cmp key"
  shows "chains_sorted key H (inorder t) \<Longrightarrow>
    (case snd (find_node url_cmp H uk t off None) of
       None \<Rightarrow> \<forall>c\<in>set (inorder t). \<not> same_url_key key H (key (uk_url uk)) c
     | Some (p, sub) \<Rightarrow> \<exists>xs l d r ys. sub = ONode l d r \<and> inorder t = xs @ inorder sub @ ys \<and> p = off + length xs + osize l \<and>
         same_url_key key H (key (uk_url uk)) d \<and> (\<forall>c\<in>set xs \<union> set ys. \<not> same_url_key key H (key (uk_url uk)) c))"
proof (induction t arbitrary: off)
  case OLeaf
  then show ?case by simp
next
  case (ONode l d r)
  let ?k = "key (uk_url uk)"
  obtain res mt where c: "cmp_url_key url_cmp uk (ho_uk (H (hd d))) = (res, mt)" by fastforce
  note s = cmp_url_key_sign [OF assms c]
  have sl: "chains_sorted key H (inorder l)" "chains_sorted key H (inorder r)"
    and lt: "\<And>a. a \<in> set (inorder l) \<Longrightarrow> ckey key H a < ckey key H d" "\<And>b. b \<in> set (inorder r) \<Longrightarrow> ckey key H d < ckey key H b"
    using ONode.prems by (auto simp: chains_sorted_def sorted_wrt_append)
  show ?case
  proof (cases mt)
    case True
    then have "snd (find_node url_cmp H uk (ONode l d r) off None) = Some (off + osize l, ONode l d r)"
      using c by (auto simp: Let_def find_node_keeps)
    moreover have "same_url_key key H ?k d" using s True by (simp add: same_url_key_def)
    ultimately show ?thesis by (auto intro!: exI [where x = "[]"])
  next
    case nm: False
    have kd: "?k \<noteq> key (uk_url (ho_uk (H (hd d))))" using s nm by blast
    show ?thesis
    proof (cases "res < 0")
      case True
      have f: "find_node url_cmp H uk (ONode l d r) off None = find_node url_cmp H uk l off None" using True c nm by (simp add: Let_def)
      have "?k < fst (ckey key H d)" using s True kd by (auto simp: fst_ckey okey_def)
      then have no: "\<not> same_url_key key H ?k b" if "b \<in> set (d # inorder r)" for b
        using that lt(2) [of b] kd by (auto simp: same_url_key_def less_prod_def fst_ckey [symmetric])
      show ?thesis
      proof (cases "snd (find_node url_cmp H uk l off None)")
        case None
        then show ?thesis using ONode.IH(1) [OF sl(1), of off] no unfolding f by auto
      next
        case (Some ps)
        obtain p sub where ps: "ps = (p, sub)" by (cases ps)
        from ONode.IH(1) [OF sl(1), of off] Some ps obtain xs l' d' r' ys where
          x: "sub = ONode l' d' r'" "inorder l = xs @ inorder sub @ ys" "p = off + length xs + osize l'" "same_url_key key H ?k d'"
          "\<forall>c\<in>set xs \<union> set ys. \<not> same_url_key key H ?k c" by auto
        have "inorder (ONode l d r) = xs @ inorder sub @ (ys @ d # inorder r)" using x(2) by simp
        moreover have "\<forall>c\<in>set xs \<union> set (ys @ d # inorder r). \<not> same_url_key key H ?k c" using x(5) no by auto
        ultimately show ?thesis unfolding f Some ps option.case prod.case using x(1,3,4) by blast
      qed
    next
      case False
      then have gt: "res > 0" using s kd nm by (cases "res = 0") (auto simp: okey_def)
      have f: "find_node url_cmp H uk (ONode l d r) off None = find_node url_cmp H uk r (off + osize l + 1) None"
        using gt c nm by (simp add: Let_def)
      have "fst (ckey key H d) < ?k" using s gt kd False by (auto simp: fst_ckey okey_def less_prod_def not_less)
      then have no: "\<not> same_url_key key H ?k b" if "b \<in> set (inorder l @ [d])" for b
        using that lt(1) [of b] kd by (auto simp: same_url_key_def less_prod_def fst_ckey [symmetric])
      show ?thesis
      proof (cases "snd (find_node url_cmp H uk r (off + osize l + 1) None)")
        case None
        then show ?thesis using ONode.IH(2) [OF sl(2), of "off + osize l + 1"] no unfolding f by auto
      next
        case (Some ps)
        obtain p sub where ps: "ps = (p, sub)" by (cases ps)
        from ONode.IH(2) [OF sl(2), of "off + osize l + 1"] Some ps obtain xs l' d' r' ys where
          x: "sub = ONode l' d' r'" "inorder r = xs @ inorder sub @ ys" "p = off + osize l + 1 + length xs + osize l'" "same_url_key key H ?k d'"
          "\<forall>c\<in>set xs \<union> set ys. \<not> same_url_key key H ?k c" by auto
        have "inorder (ONode l d r) = (inorder l @ d # xs) @ inorder sub @ ys" using x(2) by simp
        moreover have "\<forall>c\<in>set (inorder l @ d # xs) \<union> set ys. \<not> same_url_key key H ?k c" using x(5) no by auto
        moreover have "p = off + length (inorder l @ d # xs) + osize l'" using x(3) by (simp add: osize_def)
        ultimately show ?thesis unfolding f Some ps option.case prod.case using x(1,4) by blast
      qed
    qed
  qed
qed

section \<open>Runs of one address\<close>

lemma takeWhile_run: "sorted_wrt (\<lambda>a b. P b \<longrightarrow> P a) xs \<Longrightarrow> takeWhile P xs = filter P xs"
  by (induction xs) (auto simp: filter_empty_conv)

text \<open>What an iteration to both sides of a node meets is all there is.\<close>

lemma run_both_sides:
  assumes "sorted_wrt (\<lambda>a b. f a \<le> (f b :: 'b::linorder)) (xs @ c # ys)" "f c = k"
  shows "takeWhile (\<lambda>x. f x = k) ys = filter (\<lambda>x. f x = k) ys"
    "takeWhile (\<lambda>x. f x = k) (rev xs) = filter (\<lambda>x. f x = k) (rev xs)"
proof -
  have s: "sorted_wrt (\<lambda>a b. f a \<le> f b) ys" "\<forall>x\<in>set ys. k \<le> f x" "sorted_wrt (\<lambda>a b. f a \<le> f b) xs" "\<forall>x\<in>set xs. f x \<le> k"
    using assms by (auto simp: sorted_wrt_append)
  have "sorted_wrt (\<lambda>a b. f b = k \<longrightarrow> f a = k) ys"
    using s(2) by (intro sorted_wrt_mono_rel [OF _ s(1)]) (auto intro: order.antisym)
  then show "takeWhile (\<lambda>x. f x = k) ys = filter (\<lambda>x. f x = k) ys" by (rule takeWhile_run)
  have "sorted_wrt (\<lambda>a b. f a = k \<longrightarrow> f b = k) xs"
    using s(4) by (intro sorted_wrt_mono_rel [OF _ s(3)]) (auto intro: order.antisym)
  then show "takeWhile (\<lambda>x. f x = k) (rev xs) = filter (\<lambda>x. f x = k) (rev xs)" by (intro takeWhile_run) (simp add: sorted_wrt_rev)
qed

section \<open>Changing the headers an address varies by\<close>

definition new_vary_key :: "string option \<Rightarrow> 'u hash_obj \<Rightarrow> 'u hash_obj" where
  "new_vary_key k ob =
     (obj_Dead ob)\<lparr>ho_uk := (ho_uk ob)\<lparr>uk_vary := Some \<lparr>vy_key = k, vy_val = vary_val (ho_uk ob)\<rparr>\<rparr>\<rparr>"

definition upd_set :: "nat set \<Rightarrow> string option \<Rightarrow> 'u oheap \<Rightarrow> 'u oheap" where
  "upd_set S k H = (\<lambda>j. if j \<in> S then new_vary_key k (H j) else H j)"

lemma update_url_vary_key_ok:
  "k \<noteq> None \<or> v \<noteq> None \<Longrightarrow> update_url_vary_key k v = Some (Some \<lparr>vy_key = k, vy_val = Option.bind v vy_val\<rparr>)"
  by (auto simp: update_url_vary_key_def split: option.split)

lemma new_vary_key_okey [simp]: "okey key (ho_uk (new_vary_key k ob)) = okey key (ho_uk ob)"
  by (simp add: new_vary_key_def okey_def vary_val_def)

lemma new_vary_key_url [simp]: "uk_url (ho_uk (new_vary_key k ob)) = uk_url (ho_uk ob)"
  by (simp add: new_vary_key_def)

lemma new_vary_key_by [simp]: "vary_by (uk_vary (ho_uk (new_vary_key k ob))) = map_option (map to_lower) k"
  by (simp add: new_vary_key_def vary_by_def)

lemma upd_set_okey [simp]: "okey key (ho_uk (upd_set S k H j)) = okey key (ho_uk (H j))"
  by (simp add: upd_set_def)

lemma upd_set_url [simp]: "uk_url (ho_uk (upd_set S k H j)) = uk_url (ho_uk (H j))"
  by (simp add: upd_set_def)

lemma upd_set_ckey [simp]: "ckey key (upd_set S k H) = ckey key H"
  by (rule ext) (simp add: ckey_def)

lemma upd_set_empty [simp]: "upd_set {} k H = H"
  by (simp add: upd_set_def)

lemma upd_set_twice: "A \<inter> B = {} \<Longrightarrow> upd_set B k (upd_set A k H) = upd_set (A \<union> B) k H"
  by (rule ext) (auto simp: upd_set_def)

lemma update_obj_vary_key_ok:
  "distinct c \<Longrightarrow> \<forall>j\<in>set c. k \<noteq> None \<or> uk_vary (ho_uk (H j)) \<noteq> None \<Longrightarrow> update_obj_vary_key k c H = Some (upd_set (set c) k H)"
proof (induction c arbitrary: H)
  case (Cons i c)
  let ?H = "H(i := new_vary_key k (H i))"
  have "update_url_vary_key k (uk_vary (ho_uk (H i))) = Some (Some \<lparr>vy_key = k, vy_val = vary_val (ho_uk (H i))\<rparr>)"
    using Cons.prems(2) by (subst update_url_vary_key_ok) (auto simp: vary_val_def)
  then have "update_obj_vary_key k (i # c) H = update_obj_vary_key k c ?H" by (simp add: new_vary_key_def)
  also have "\<dots> = Some (upd_set (set c) k ?H)" using Cons.prems by (intro Cons.IH) auto
  also have "upd_set (set c) k ?H = upd_set (set (i # c)) k H" using Cons.prems(1) by (auto simp: upd_set_def)
  finally show ?case .
qed simp

text \<open>A vary that names other headers can always be written: it is not a missing vary meeting a missing vary.\<close>

lemma other_headers_ok: "vary_by w \<noteq> vary_by v \<Longrightarrow> Option.bind v vy_key \<noteq> None \<or> w \<noteq> None"
  by (cases w) (auto simp: vary_by_def)

lemma update_url_vary_ok:
  assumes "url_order url_cmp key"
  shows "distinct (concat cs) \<Longrightarrow> \<forall>c\<in>set cs. c \<noteq> [] \<Longrightarrow>
    \<forall>c\<in>set (takeWhile (same_url_key key H (key url)) cs). \<forall>j\<in>set c. vary_by (uk_vary (ho_uk (H j))) \<noteq> vary_by v \<Longrightarrow>
    update_url_vary url_cmp url v cs H =
      Some (upd_set (set (concat (takeWhile (same_url_key key H (key url)) cs))) (Option.bind v vy_key) H)"
proof (induction cs arbitrary: H)
  case (Cons c cs)
  let ?k = "Option.bind v vy_key" and ?same = "same_url_key key H (key url)"
  let ?H = "upd_set (set c) ?k H" and ?run = "takeWhile ?same cs"
  have z: "url_cmp (uk_url (ho_uk (H (hd c)))) url = 0 \<longleftrightarrow> ?same c" using assms by (simp add: url_order_def same_url_key_def)
  show ?case
  proof (cases "?same c")
    case False
    then show ?thesis using z by simp
  next
    case True
    have ne: "\<forall>j\<in>set c. vary_by (uk_vary (ho_uk (H j))) \<noteq> vary_by v" using Cons.prems(3) True by simp
    then have "vary_by (uk_vary (ho_uk (H (hd c)))) \<noteq> vary_by v" using Cons.prems(2) by simp
    moreover have "update_obj_vary_key ?k c H = Some ?H"
      using ne Cons.prems(1) by (intro update_obj_vary_key_ok ballI other_headers_ok) auto
    ultimately have "update_url_vary url_cmp url v (c # cs) H = update_url_vary url_cmp url v cs ?H"
      using True z by (simp add: cmp_vary_key_zero)
    also have same: "same_url_key key ?H (key url) = ?same" by (rule ext) (simp add: same_url_key_def)
    have "update_url_vary url_cmp url v cs ?H = Some (upd_set (set (concat ?run)) ?k ?H)"
    proof (subst Cons.IH, goal_cases)
      case 3
      show ?case unfolding same
      proof (intro ballI)
        fix d j assume dj: "d \<in> set ?run" "j \<in> set d"
        then have "j \<notin> set c" using Cons.prems(1) set_takeWhileD by fastforce
        then show "vary_by (uk_vary (ho_uk (?H j))) \<noteq> vary_by v" using Cons.prems(3) True dj by (simp add: upd_set_def)
      qed
    qed (use Cons.prems(1,2) same in auto)
    also have "upd_set (set (concat ?run)) ?k ?H = upd_set (set c \<union> set (concat ?run)) ?k H"
      using Cons.prems(1) by (intro upd_set_twice) (auto dest: set_takeWhileD)
    finally show ?thesis using True by simp
  qed
qed simp

section \<open>The state of the index\<close>

definition chain_ok :: "('u \<Rightarrow> 'k) \<Rightarrow> 'u oheap \<Rightarrow> nat list \<Rightarrow> bool" where
  "chain_ok key H c \<longleftrightarrow> c \<noteq> [] \<and> (\<forall>j\<in>set c. okey key (ho_uk (H j)) = ckey key H c)"

definition one_vary :: "('u \<Rightarrow> 'k) \<Rightarrow> 'u oheap \<Rightarrow> nat set \<Rightarrow> bool" where
  "one_vary key H S \<longleftrightarrow>
     (\<forall>i\<in>S. \<forall>j\<in>S. key (uk_url (ho_uk (H i))) = key (uk_url (ho_uk (H j))) \<longrightarrow> vary_by (uk_vary (ho_uk (H i))) = vary_by (uk_vary (ho_uk (H j))))"

definition index_ok :: "('u \<Rightarrow> 'k::linorder) \<Rightarrow> 'u oheap \<Rightarrow> nat list list \<Rightarrow> bool" where
  "index_ok key H cs \<longleftrightarrow>
     chains_sorted key H cs \<and> (\<forall>c\<in>set cs. chain_ok key H c) \<and> distinct (concat cs) \<and> one_vary key H (set (concat cs))"

definition of_url :: "('u \<Rightarrow> 'k) \<Rightarrow> 'u oheap \<Rightarrow> 'k \<Rightarrow> nat list list \<Rightarrow> nat set" where
  "of_url key H k cs = {j \<in> set (concat cs). key (uk_url (ho_uk (H j))) = k}"

lemma one_varyD:
  "one_vary key H S \<Longrightarrow> a \<in> S \<Longrightarrow> b \<in> S \<Longrightarrow> key (uk_url (ho_uk (H a))) = key (uk_url (ho_uk (H b))) \<Longrightarrow>
   vary_by (uk_vary (ho_uk (H a))) = vary_by (uk_vary (ho_uk (H b)))"
  unfolding one_vary_def by blast

lemma one_vary_subset: "one_vary key H S \<Longrightarrow> T \<subseteq> S \<Longrightarrow> one_vary key H T"
  unfolding one_vary_def by blast

lemma of_url_vary:
  assumes "index_ok key H cs" "a \<in> of_url key H k cs" "b \<in> of_url key H k cs"
  shows "vary_by (uk_vary (ho_uk (H a))) = vary_by (uk_vary (ho_uk (H b)))"
  using assms unfolding index_ok_def of_url_def by (intro one_varyD [where S = "set (concat cs)" and key = key]) simp_all

lemma chain_ok_url: "chain_ok key H c \<Longrightarrow> j \<in> set c \<Longrightarrow> key (uk_url (ho_uk (H j))) = key (uk_url (ho_uk (H (hd c))))"
  unfolding chain_ok_def ckey_def okey_def prod.inject by blast

lemma same_url_key_upd [simp]: "same_url_key key (upd_set S k H) = same_url_key key H"
  by (intro ext) (simp add: same_url_key_def)

lemma of_url_filter:
  "\<forall>c\<in>set cs. chain_ok key H c \<Longrightarrow> set (concat (filter (same_url_key key H k) cs)) = of_url key H k cs"
  using chain_ok_url [of key H] by (fastforce simp: of_url_def same_url_key_def)

lemma sorted_by_url:
  assumes "chains_sorted key H cs"
  shows "sorted_wrt (\<lambda>a b. key (uk_url (ho_uk (H (hd a)))) \<le> key (uk_url (ho_uk (H (hd b))))) cs"
  using assms unfolding chains_sorted_def
  by (rule sorted_wrt_mono_rel [rotated]) (auto simp: ckey_def okey_def less_prod_def)

lemma same_url_runs:
  assumes "chains_sorted key H (xs @ c # ys)" "same_url_key key H k c"
  shows "takeWhile (same_url_key key H k) ys = filter (same_url_key key H k) ys"
    "takeWhile (same_url_key key H k) (rev xs) = filter (same_url_key key H k) (rev xs)"
  using run_both_sides [OF sorted_by_url [OF assms(1)], of k] assms(2) by (auto simp: same_url_key_def [abs_def])

lemma InternalUpdateVary_ok:
  assumes "url_order url_cmp key" "index_ok key H (inorder t)" "inorder t = xs @ c # ys"
    "vary_by (uk_vary (ho_uk (H (hd c)))) \<noteq> vary_by v"
  shows "InternalUpdateVary url_cmp t (length xs) v H =
    Some (upd_set (of_url key H (key (uk_url (ho_uk (H (hd c))))) (inorder t)) (Option.bind v vy_key) H)"
proof -
  let ?url = "uk_url (ho_uk (H (hd c)))" and ?k = "Option.bind v vy_key"
  let ?same = "same_url_key key H (key ?url)"
  let ?Y = "set (concat (filter ?same ys))" and ?X = "set (concat (filter ?same (rev xs)))"
  let ?H1 = "upd_set (set c) ?k H"
  let ?H2 = "upd_set ?Y ?k ?H1"
  have so: "chains_sorted key H (xs @ c # ys)" and ch: "\<forall>d\<in>set (xs @ c # ys). chain_ok key H d" and d: "distinct (concat (xs @ c # ys))"
    and ov: "one_vary key H (set (concat (xs @ c # ys)))" using assms(2,3) by (simp_all add: index_ok_def)
  have sc: "?same c" by (simp add: same_url_key_def)
  note runs = same_url_runs [OF so sc]
  have hc: "hd c \<in> set c" using ch by (simp add: chain_ok_def)
  have other: "vary_by (uk_vary (ho_uk (H j))) \<noteq> vary_by v" if "d \<in> set (xs @ c # ys)" "?same d" "j \<in> set d" for d j
  proof -
    have "chain_ok key H d" using that(1) ch by blast
    then have "key (uk_url (ho_uk (H j))) = key ?url" using that(2,3) chain_ok_url [of key H d j] by (simp add: same_url_key_def)
    then show ?thesis using assms(4) ov that hc unfolding one_vary_def by fastforce
  qed
  have 1: "update_obj_vary_key ?k c H = Some ?H1"
    using d other [of c] sc by (intro update_obj_vary_key_ok ballI other_headers_ok) auto
  have 2: "update_url_vary url_cmp ?url v ys ?H1 = Some ?H2"
  proof (subst update_url_vary_ok [OF assms(1)])
    show "\<forall>d\<in>set (takeWhile (same_url_key key ?H1 (key ?url)) ys). \<forall>j\<in>set d. vary_by (uk_vary (ho_uk (?H1 j))) \<noteq> vary_by v"
    proof (intro ballI)
      fix e j assume ej: "e \<in> set (takeWhile (same_url_key key ?H1 (key ?url)) ys)" "j \<in> set e"
      then have "e \<in> set ys" "?same e" by (auto simp: runs)
      then show "vary_by (uk_vary (ho_uk (?H1 j))) \<noteq> vary_by v" using d other [of e j] ej(2) by (auto simp: upd_set_def)
    qed
  qed (use d ch in \<open>auto simp: runs chain_ok_def\<close>)
  have 3: "update_url_vary url_cmp ?url v (rev xs) ?H2 = Some (upd_set ?X ?k ?H2)"
  proof (subst update_url_vary_ok [OF assms(1)])
    show "\<forall>d\<in>set (takeWhile (same_url_key key ?H2 (key ?url)) (rev xs)). \<forall>j\<in>set d. vary_by (uk_vary (ho_uk (?H2 j))) \<noteq> vary_by v"
    proof (intro ballI)
      fix e j assume ej: "e \<in> set (takeWhile (same_url_key key ?H2 (key ?url)) (rev xs))" "j \<in> set e"
      then have "e \<in> set xs" "?same e" by (auto simp: runs)
      then show "vary_by (uk_vary (ho_uk (?H2 j))) \<noteq> vary_by v" using d other [of e j] ej(2) by (auto simp: upd_set_def)
    qed
  qed (use d ch in \<open>auto simp: runs chain_ok_def rev_concat [symmetric]\<close>)
  have dj: "set c \<inter> ?Y = {}" "(set c \<union> ?Y) \<inter> ?X = {}" using d by auto
  have "upd_set ?X ?k ?H2 = upd_set (set c \<union> ?Y \<union> ?X) ?k H"
    unfolding upd_set_twice [OF dj(1)] upd_set_twice [OF dj(2)] by (rule refl)
  also have "set c \<union> ?Y \<union> ?X = of_url key H (key ?url) (inorder t)"
    unfolding of_url_filter [OF ch, symmetric] assms(3) using sc by auto
  finally show ?thesis using 1 2 3 assms(3) by (simp add: InternalUpdateVary_def Let_def)
qed

lemma index_ok_upd:
  assumes "index_ok key H cs"
  shows "index_ok key (upd_set (of_url key H k0 cs) k H) cs"
proof -
  let ?S = "of_url key H k0 cs"
  have "one_vary key (upd_set ?S k H) (set (concat cs))"
    unfolding one_vary_def
  proof (intro ballI impI)
    fix a b assume ab: "a \<in> set (concat cs)" "b \<in> set (concat cs)"
      "key (uk_url (ho_uk (upd_set ?S k H a))) = key (uk_url (ho_uk (upd_set ?S k H b)))"
    then have "a \<in> ?S \<longleftrightarrow> b \<in> ?S" by (auto simp: of_url_def)
    moreover have "vary_by (uk_vary (ho_uk (H a))) = vary_by (uk_vary (ho_uk (H b)))"
      using assms ab unfolding index_ok_def one_vary_def upd_set_url by blast
    ultimately show "vary_by (uk_vary (ho_uk (upd_set ?S k H a))) = vary_by (uk_vary (ho_uk (upd_set ?S k H b)))"
      by (auto simp: upd_set_def)
  qed
  then show ?thesis using assms by (simp add: index_ok_def chains_sorted_def chain_ok_def)
qed

section \<open>Linking\<close>

lemma link_object_found:
  assumes "url_order url_cmp key"
  shows "find_node url_cmp H (ho_uk (H i)) t off m = (Some (p, c), m') \<Longrightarrow>
    \<exists>xs ys. inorder t = xs @ c # ys \<and> ckey key H c = okey key (ho_uk (H i)) \<and> inorder (link_object url_cmp H i t) = xs @ (i # c) # ys"
proof (induction t arbitrary: off m)
  case (ONode l d r)
  obtain res mt where c: "cmp_url_key url_cmp (ho_uk (H i)) (ho_uk (H (hd d))) = (res, mt)" by fastforce
  note s = cmp_url_key_sign [OF assms c, folded ckey_def]
  let ?m = "if mt \<and> m = None then Some (off + osize l, ONode l d r) else m"
  consider "res < 0" | "res > 0" | "res = 0" by linarith
  then show ?case
  proof cases
    case 1
    then have "find_node url_cmp H (ho_uk (H i)) l off ?m = (Some (p, c), m')" using ONode.prems c by (simp add: Let_def)
    from ONode.IH(1) [OF this] obtain xs ys where
      "inorder l = xs @ c # ys" "ckey key H c = okey key (ho_uk (H i))" "inorder (link_object url_cmp H i l) = xs @ (i # c) # ys" by blast
    then show ?thesis using c 1 by (intro exI [of _ xs] exI [of _ "ys @ d # inorder r"]) simp
  next
    case 2
    then have "find_node url_cmp H (ho_uk (H i)) r (off + osize l + 1) ?m = (Some (p, c), m')" using ONode.prems c by (simp add: Let_def)
    from ONode.IH(2) [OF this] obtain xs ys where
      "inorder r = xs @ c # ys" "ckey key H c = okey key (ho_uk (H i))" "inorder (link_object url_cmp H i r) = xs @ (i # c) # ys" by blast
    then show ?thesis using c 2 by (intro exI [of _ "inorder l @ d # xs"] exI [of _ ys]) simp
  next
    case 3
    then have "c = d" using ONode.prems c by (simp add: Let_def)
    then show ?thesis using s c 3 by (intro exI [of _ "inorder l"] exI [of _ "inorder r"]) simp
  qed
qed simp

lemma link_object_new:
  assumes "url_order url_cmp key"
  shows "chains_sorted key H (inorder t) \<Longrightarrow> fst (find_node url_cmp H (ho_uk (H i)) t off m) = None \<Longrightarrow>
    \<exists>xs ys. inorder t = xs @ ys \<and> inorder (link_object url_cmp H i t) = xs @ [i] # ys \<and>
      (\<forall>x\<in>set xs. ckey key H x < okey key (ho_uk (H i))) \<and> (\<forall>y\<in>set ys. okey key (ho_uk (H i)) < ckey key H y)"
proof (induction t arbitrary: off m)
  case (ONode l d r)
  let ?k = "okey key (ho_uk (H i))"
  obtain res mt where c: "cmp_url_key url_cmp (ho_uk (H i)) (ho_uk (H (hd d))) = (res, mt)" by fastforce
  note s = cmp_url_key_sign [OF assms c, folded ckey_def] and sp = sorted_parts [OF ONode.prems(1)]
  let ?m = "if mt \<and> m = None then Some (off + osize l, ONode l d r) else m"
  have "res \<noteq> 0" using ONode.prems(2) c by (auto simp: Let_def)
  then consider "res < 0" | "res > 0" by linarith
  then show ?case
  proof cases
    case 1
    then have "fst (find_node url_cmp H (ho_uk (H i)) l off ?m) = None" using ONode.prems(2) c by (simp add: Let_def)
    from ONode.IH(1) [OF sp(1) this] obtain xs ys where x: "inorder l = xs @ ys" "inorder (link_object url_cmp H i l) = xs @ [i] # ys"
      "\<forall>x\<in>set xs. ckey key H x < ?k" "\<forall>y\<in>set ys. ?k < ckey key H y" by blast
    have "?k < ckey key H d" using s 1 by blast
    then have "\<forall>y\<in>set (ys @ d # inorder r). ?k < ckey key H y" using x(4) sp(4) by (auto intro: order.strict_trans)
    then show ?thesis using x c 1 by (intro exI [of _ xs] exI [of _ "ys @ d # inorder r"]) simp
  next
    case 2
    then have "fst (find_node url_cmp H (ho_uk (H i)) r (off + osize l + 1) ?m) = None" using ONode.prems(2) c by (simp add: Let_def)
    from ONode.IH(2) [OF sp(2) this] obtain xs ys where x: "inorder r = xs @ ys" "inorder (link_object url_cmp H i r) = xs @ [i] # ys"
      "\<forall>x\<in>set xs. ckey key H x < ?k" "\<forall>y\<in>set ys. ?k < ckey key H y" by blast
    have "ckey key H d < ?k" using s 2 by force
    then have "\<forall>y\<in>set (inorder l @ d # xs). ckey key H y < ?k" using x(3) sp(3) by (auto intro: order.strict_trans)
    then show ?thesis using x c 2 by (intro exI [of _ "inorder l @ d # xs"] exI [of _ ys]) simp
  qed
qed simp

definition agrees :: "('u \<Rightarrow> 'k) \<Rightarrow> 'u oheap \<Rightarrow> nat \<Rightarrow> nat list list \<Rightarrow> bool" where
  "agrees key H i cs \<longleftrightarrow>
     (\<forall>j\<in>of_url key H (key (uk_url (ho_uk (H i)))) cs. vary_by (uk_vary (ho_uk (H j))) = vary_by (uk_vary (ho_uk (H i))))"

lemma one_vary_insert:
  assumes "one_vary key H (set (concat cs))" "agrees key H i cs"
  shows "one_vary key H (insert i (set (concat cs)))"
proof -
  let ?S = "set (concat cs)"
  have ag: "vary_by (uk_vary (ho_uk (H j))) = vary_by (uk_vary (ho_uk (H i)))"
    if "j \<in> ?S" "key (uk_url (ho_uk (H j))) = key (uk_url (ho_uk (H i)))" for j
    using assms(2) that unfolding agrees_def of_url_def by blast
  show ?thesis unfolding one_vary_def
  proof (intro ballI impI)
    fix a b assume ab: "a \<in> insert i ?S" "b \<in> insert i ?S" "key (uk_url (ho_uk (H a))) = key (uk_url (ho_uk (H b)))"
    show "vary_by (uk_vary (ho_uk (H a))) = vary_by (uk_vary (ho_uk (H b)))"
    proof (cases "a \<in> ?S \<and> b \<in> ?S")
      case True
      then show ?thesis using assms(1) ab(3) unfolding one_vary_def by blast
    next
      case False
      then consider "a = i" "b = i" | "a = i" "b \<in> ?S" | "a \<in> ?S" "b = i" using ab(1,2) by blast
      then show ?thesis using ab(3) ag [of a] ag [of b] by cases metis+
    qed
  qed
qed

lemma index_ok_join:
  assumes "index_ok key H (xs @ c # ys)" "ckey key H c = okey key (ho_uk (H i))" "i \<notin> set (concat (xs @ c # ys))" "agrees key H i (xs @ c # ys)"
  shows "index_ok key H (xs @ (i # c) # ys)"
proof -
  have k: "ckey key H (i # c) = ckey key H c" using assms(2) by (simp add: ckey_def)
  have "set (concat (xs @ (i # c) # ys)) = insert i (set (concat (xs @ c # ys)))" by auto
  then have "one_vary key H (set (concat (xs @ (i # c) # ys)))" using one_vary_insert [OF _ assms(4)] assms(1) by (simp add: index_ok_def)
  moreover have "chains_sorted key H (xs @ (i # c) # ys)" using assms(1) k by (simp add: index_ok_def chains_sorted_def sorted_wrt_append)
  moreover have "chain_ok key H (i # c)" using assms(1,2) k by (auto simp: index_ok_def chain_ok_def)
  ultimately show ?thesis using assms(1,3) by (auto simp: index_ok_def)
qed

lemma index_ok_new:
  assumes "index_ok key H (xs @ ys)" "\<forall>x\<in>set xs. ckey key H x < okey key (ho_uk (H i))" "\<forall>y\<in>set ys. okey key (ho_uk (H i)) < ckey key H y"
    "i \<notin> set (concat (xs @ ys))" "agrees key H i (xs @ ys)"
  shows "index_ok key H (xs @ [i] # ys)"
proof -
  have k: "ckey key H [i] = okey key (ho_uk (H i))" by (simp add: ckey_def)
  have "set (concat (xs @ [i] # ys)) = insert i (set (concat (xs @ ys)))" by auto
  then have "one_vary key H (set (concat (xs @ [i] # ys)))" using one_vary_insert [OF _ assms(5)] assms(1) by (simp add: index_ok_def)
  moreover have "chains_sorted key H (xs @ [i] # ys)" using assms(1-3) k by (auto simp: index_ok_def chains_sorted_def sorted_wrt_append)
  moreover have "chain_ok key H [i]" by (simp add: chain_ok_def ckey_def)
  ultimately show ?thesis using assms(1,4) by (auto simp: index_ok_def)
qed

section \<open>Insertion\<close>

text \<open>Balancing keeps the order of the nodes, and erasing takes one out of it.\<close>

definition rb_laws :: "rb_ops \<Rightarrow> bool" where
  "rb_laws rb \<longleftrightarrow>
     (\<forall>t. inorder (rb_insert_color rb t) = inorder t) \<and>
     (\<forall>t p. p < osize t \<longrightarrow> inorder (rb_erase rb p t) = take p (inorder t) @ drop (Suc p) (inorder t))"

definition stale :: "('u \<Rightarrow> 'k) \<Rightarrow> 'u oheap \<Rightarrow> nat \<Rightarrow> vary option \<Rightarrow> nat list list \<Rightarrow> nat set" where
  "stale key H i v cs = {j \<in> of_url key H (key (uk_url (ho_uk (H i)))) cs. vary_by (uk_vary (ho_uk (H j))) \<noteq> vary_by v}"

lemma find_url:
  assumes "url_order url_cmp key" "index_ok key H (inorder t)" "find_node url_cmp H uk t 0 None = (found, m)"
  shows "(m = None \<and> of_url key H (key (uk_url uk)) (inorder t) = {}) \<or>
    (\<exists>xs c ys l r ls rs. m = Some (length xs, ONode l c r) \<and> inorder t = xs @ c # ys \<and> key (uk_url (ho_uk (H (hd c)))) = key (uk_url uk) \<and>
      inorder t = ls @ inorder (ONode l c r) @ rs \<and> (\<forall>c\<in>set ls \<union> set rs. \<not> same_url_key key H (key (uk_url uk)) c))"
proof -
  have so: "chains_sorted key H (inorder t)" and ch: "\<forall>c\<in>set (inorder t). chain_ok key H c" using assms(2) by (simp_all add: index_ok_def)
  note f = find_node_match [OF assms(1) so, of uk 0, unfolded assms(3) snd_conv]
  show ?thesis
  proof (cases m)
    case None
    then have "filter (same_url_key key H (key (uk_url uk))) (inorder t) = []" using f by (simp add: filter_empty_conv)
    then show ?thesis using None of_url_filter [OF ch, of "key (uk_url uk)"] by simp
  next
    case (Some ps)
    obtain p sub where ps: "ps = (p, sub)" by (cases ps)
    from f Some ps obtain ls l c r rs where x: "sub = ONode l c r" "inorder t = ls @ inorder sub @ rs" "p = 0 + length ls + osize l"
      "same_url_key key H (key (uk_url uk)) c" "\<forall>c\<in>set ls \<union> set rs. \<not> same_url_key key H (key (uk_url uk)) c" by auto
    have "inorder t = (ls @ inorder l) @ c # (inorder r @ rs)" using x(1,2) by simp
    moreover have "m = Some (length (ls @ inorder l), ONode l c r)" using Some ps x(1,3) by (simp add: osize_def)
    ultimately show ?thesis using x(1,2,4,5) unfolding same_url_key_def by blast
  qed
qed

lemma stale_all:
  assumes "index_ok key H (xs @ c # ys)" "key (uk_url (ho_uk (H (hd c)))) = key (uk_url (ho_uk (H i)))"
  shows "stale key H i v (xs @ c # ys) =
    (if vary_by (uk_vary (ho_uk (H (hd c)))) \<noteq> vary_by v then of_url key H (key (uk_url (ho_uk (H i)))) (xs @ c # ys) else {})"
proof -
  let ?S = "set (concat (xs @ c # ys))"
  have "hd c \<in> ?S" using assms(1) by (simp add: index_ok_def chain_ok_def)
  then have "hd c \<in> of_url key H (key (uk_url (ho_uk (H i)))) (xs @ c # ys)" using assms(2) by (simp add: of_url_def)
  from of_url_vary [OF assms(1) _ this]
  have "vary_by (uk_vary (ho_uk (H j))) = vary_by (uk_vary (ho_uk (H (hd c))))"
    if "j \<in> of_url key H (key (uk_url (ho_uk (H i)))) (xs @ c # ys)" for j using that .
  then show ?thesis by (auto simp: stale_def)
qed

text \<open>Objects of the address that vary by other headers are renamed and dead, all others are as they were.\<close>

lemma insert_heap:
  assumes "url_order url_cmp key" "index_ok key H (inorder t)" "find_node url_cmp H (ho_uk (H i)) t 0 None = (found, m)"
  shows "(case m of
             None \<Rightarrow> Some H
           | Some (p, sub) \<Rightarrow>
               if cmp_vary_key (uk_vary (ho_uk (H (hd (inorder t ! p))))) v \<noteq> 0
               then InternalUpdateVary url_cmp t p v H else Some H) = Some (upd_set (stale key H i v (inorder t)) (Option.bind v vy_key) H)"
  using find_url [OF assms]
proof (elim disjE conjE exE)
  assume "m = None" "of_url key H (key (uk_url (ho_uk (H i)))) (inorder t) = {}"
  then show ?thesis by (simp add: stale_def)
next
  fix xs c ys l r
  assume m: "m = Some (length xs, ONode l c r)" and t: "inorder t = xs @ c # ys" and k: "key (uk_url (ho_uk (H (hd c)))) = key (uk_url (ho_uk (H i)))"
  have st: "stale key H i v (inorder t) =
    (if vary_by (uk_vary (ho_uk (H (hd c)))) \<noteq> vary_by v then of_url key H (key (uk_url (ho_uk (H i)))) (inorder t) else {})"
    unfolding t using assms(2) k by (intro stale_all) (simp_all add: t)
  show ?thesis
  proof (cases "vary_by (uk_vary (ho_uk (H (hd c)))) = vary_by v")
    case True
    then show ?thesis using m t st by (simp add: cmp_vary_key_zero)
  next
    case False
    then show ?thesis using m st InternalUpdateVary_ok [OF assms(1,2) t False] k by (simp add: t cmp_vary_key_zero)
  qed
qed

lemma upd_stale_index:
  assumes "index_ok key H cs"
  shows "index_ok key (upd_set (stale key H i v cs) k H) cs"
proof (cases "stale key H i v cs = {}")
  case False
  let ?u = "key (uk_url (ho_uk (H i)))"
  obtain a where a: "a \<in> of_url key H ?u cs" "vary_by (uk_vary (ho_uk (H a))) \<noteq> vary_by v" using False by (auto simp: stale_def)
  have "vary_by (uk_vary (ho_uk (H j))) = vary_by (uk_vary (ho_uk (H a)))" if "j \<in> of_url key H ?u cs" for j
    by (rule of_url_vary [OF assms(1) that a(1)])
  then have "stale key H i v cs = of_url key H ?u cs" using a(2) by (auto simp: stale_def)
  then show ?thesis using index_ok_upd [OF assms(1)] by simp
qed (use assms in simp)

lemma upd_stale_ok:
  assumes "index_ok key H cs" "i \<notin> set (concat cs)"
  defines "H' \<equiv> upd_set (stale key H i (uk_vary (ho_uk (H i))) cs) (Option.bind (uk_vary (ho_uk (H i))) vy_key) H"
  shows "index_ok key H' cs" "agrees key H' i cs" "H' i = H i"
proof -
  let ?v = "uk_vary (ho_uk (H i))" and ?u = "key (uk_url (ho_uk (H i)))"
  have i: "i \<notin> stale key H i ?v cs" using assms(2) by (simp add: stale_def of_url_def)
  then show H: "H' i = H i" by (simp add: H'_def upd_set_def)
  show "index_ok key H' cs" unfolding H'_def by (rule upd_stale_index [OF assms(1)])
  have "of_url key H' ?u cs = of_url key H ?u cs" by (simp add: of_url_def H'_def)
  moreover have "vary_by (uk_vary (ho_uk (H' j))) = vary_by ?v" if "j \<in> of_url key H ?u cs" for j
    using that by (cases "j \<in> stale key H i ?v cs") (simp_all add: H'_def upd_set_def stale_def, simp add: vary_by_def)
  ultimately show "agrees key H' i cs" by (simp add: agrees_def H)
qed

lemma hash_insert_ok:
  assumes "url_order url_cmp key" "rb_laws rb" "index_ok key H (inorder t)" "i \<notin> set (concat (inorder t))"
  defines "H' \<equiv> upd_set (stale key H i (uk_vary (ho_uk (H i))) (inorder t)) (Option.bind (uk_vary (ho_uk (H i))) vy_key) H"
  shows "\<exists>t'. hash_insert url_cmp rb i t H = Some (t', H') \<and> index_ok key H' (inorder t') \<and>
    mset (concat (inorder t')) = add_mset i (mset (concat (inorder t)))"
proof -
  obtain found m where f: "find_node url_cmp H (ho_uk (H i)) t 0 None = (found, m)" by fastforce
  let ?l = "link_object url_cmp H i t"
  let ?t = "if found \<noteq> None then ?l else rb_insert_color rb ?l"
  note heap = insert_heap [OF assms(1,3) f, of "uk_vary (ho_uk (H i))"]
  have ins: "hash_insert url_cmp rb i t H = Some (?t, H')" unfolding hash_insert_def f prod.case Let_def heap by (simp add: H'_def)
  have io: "inorder ?t = inorder ?l" using assms(2) by (simp add: rb_laws_def)
  note up = upd_stale_ok [OF assms(3,4), folded H'_def]
  have k: "ckey key H' = ckey key H" by (simp add: H'_def)
  have "index_ok key H' (inorder ?l) \<and> mset (concat (inorder ?l)) = add_mset i (mset (concat (inorder t)))"
  proof (cases found)
    case None
    have "chains_sorted key H (inorder t)" using assms(3) by (simp add: index_ok_def)
    from link_object_new [OF assms(1) this, of i 0 None] f None obtain xs ys where x: "inorder t = xs @ ys" "inorder ?l = xs @ [i] # ys"
      "\<forall>x\<in>set xs. ckey key H x < okey key (ho_uk (H i))" "\<forall>y\<in>set ys. okey key (ho_uk (H i)) < ckey key H y" by auto
    have "index_ok key H' (xs @ [i] # ys)" using up x assms(4) by (intro index_ok_new) (simp_all add: k)
    then show ?thesis using x(1,2) by simp
  next
    case (Some pc)
    obtain p c where "pc = (p, c)" by (cases pc)
    then obtain xs ys where x: "inorder t = xs @ c # ys" "ckey key H c = okey key (ho_uk (H i))" "inorder ?l = xs @ (i # c) # ys"
      using link_object_found [OF assms(1)] f Some by blast
    have "index_ok key H' (xs @ (i # c) # ys)" using up x assms(4) by (intro index_ok_join) (simp_all add: k)
    then show ?thesis using x(1,3) by simp
  qed
  then show ?thesis using ins io by auto
qed

section \<open>Removal\<close>

lemma inorder_set_chain: "inorder (set_chain p c t) = (inorder t)[p := c]"
proof (induction t arbitrary: p)
  case (ONode l d r)
  consider "p < osize l" | "p = osize l" | "p > osize l" by linarith
  then show ?case
  proof cases
    case 3
    then have "p = osize l + Suc (p - osize l - 1)" by simp
    then obtain q where "p = osize l + Suc q" ..
    then show ?thesis using ONode by (simp add: list_update_append osize_def)
  qed (use ONode in \<open>simp_all add: list_update_append osize_def\<close>)
qed simp

lemma index_ok_shrink:
  assumes "index_ok key H (xs @ c # ys)" "c' \<noteq> []" "set c' \<subseteq> set c" "distinct c'"
  shows "index_ok key H (xs @ c' # ys)"
proof -
  have c: "chain_ok key H c" using assms(1) by (simp add: index_ok_def)
  have k: "ckey key H c' = ckey key H c" using c assms(2,3) hd_in_set [of c'] unfolding chain_ok_def ckey_def [of _ _ c'] by blast
  then have "chain_ok key H c'" using c assms(2,3) by (auto simp: chain_ok_def)
  moreover have "one_vary key H (set (concat (xs @ c' # ys)))"
    using assms(1,3) unfolding index_ok_def by (elim conjE one_vary_subset) auto
  moreover have "distinct (concat (xs @ c' # ys))" using assms(1,3,4) by (auto simp: index_ok_def)
  ultimately show ?thesis using assms(1) k by (auto simp: index_ok_def chains_sorted_def sorted_wrt_append)
qed

lemma index_ok_drop:
  assumes "index_ok key H (xs @ c # ys)"
  shows "index_ok key H (xs @ ys)"
proof -
  have "one_vary key H (set (concat (xs @ ys)))" using assms unfolding index_ok_def by (elim conjE one_vary_subset) auto
  then show ?thesis using assms by (auto simp: index_ok_def chains_sorted_def sorted_wrt_append)
qed

text \<open>A key has one chain.\<close>

lemma chain_unique:
  assumes "chains_sorted key H cs" "c \<in> set cs" "d \<in> set cs" "ckey key H c = ckey key H d"
  shows "c = d"
proof -
  have "distinct (map (ckey key H) cs)"
    using assms(1) strict_sorted_iff [of "map (ckey key H) cs"] by (simp add: chains_sorted_def sorted_wrt_map)
  then show ?thesis using assms(2-4) by (auto simp: distinct_map inj_on_def)
qed

lemma find_member:
  assumes "url_order url_cmp key" "index_ok key H (inorder t)" "i \<in> set (concat (inorder t))"
  shows "\<exists>xs c ys m. find_node url_cmp H (ho_uk (H i)) t 0 None = (Some (length xs, c), m) \<and> inorder t = xs @ c # ys \<and> i \<in> set c"
proof -
  have so: "chains_sorted key H (inorder t)" using assms(2) by (simp add: index_ok_def)
  obtain d where d: "d \<in> set (inorder t)" "i \<in> set d" using assms(3) by auto
  then have kd: "ckey key H d = okey key (ho_uk (H i))" using assms(2) by (simp add: index_ok_def chain_ok_def)
  obtain found m where f: "find_node url_cmp H (ho_uk (H i)) t 0 None = (found, m)" by fastforce
  have "found \<noteq> None" using find_node_None [OF assms(1) so _ d(1), of "ho_uk (H i)" 0 None] f kd by (intro notI) simp
  then obtain p c where "found = Some (p, c)" by (metis option.exhaust surj_pair)
  with f find_node_Some [OF assms(1)] obtain xs ys where x: "inorder t = xs @ c # ys" "p = 0 + length xs" "ckey key H c = okey key (ho_uk (H i))"
    by blast
  have "c = d" using chain_unique [OF so _ d(1), of c] x kd by simp
  then show ?thesis using d(2) f x \<open>found = Some (p, c)\<close> by auto
qed

lemma remove_tree:
  assumes "rb_laws rb" "index_ok key H (inorder t)" "inorder t = xs @ c # ys" "i \<in> set c"
  defines "t' \<equiv> if remove1 i c = [] then rb_erase rb (length xs) t else set_chain (length xs) (remove1 i c) t"
  shows "index_ok key H (inorder t') \<and> set (concat (inorder t')) = set (concat (inorder t)) - {i}"
proof -
  have d: "distinct (concat (xs @ c # ys))" using assms(2,3) by (simp add: index_ok_def)
  have ni: "i \<notin> set (concat (xs @ ys))" using d assms(4) by auto
  have rc: "set (remove1 i c) = set c - {i}" using d by (simp add: set_remove1_eq)
  show ?thesis
  proof (cases "remove1 i c = []")
    case True
    have "inorder t' = xs @ ys" using True assms(1,3) by (simp add: t'_def rb_laws_def osize_def)
    moreover have "set c = {i}" using rc True assms(4) by auto
    ultimately show ?thesis using index_ok_drop assms(2,3) ni by auto
  next
    case False
    have t': "inorder t' = xs @ remove1 i c # ys" using False assms(3) by (simp add: t'_def inorder_set_chain)
    have "distinct (remove1 i c)" using d by simp
    then have "index_ok key H (xs @ remove1 i c # ys)"
      using assms(2) unfolding assms(3) by (intro index_ok_shrink [where c = c, OF _ False]) (simp_all add: set_remove1_subset)
    then show ?thesis using t' rc ni assms(3) by auto
  qed
qed

end
