(* ===== verification/Object_Hash_Get.thy ===== *)
theory Object_Hash_Get
  imports Object_Hash_Ok
begin

text \<open>
  What lookups in the index of the cache return and what a purge visits. The names of headers are compared without case,
  so that all objects of an address give the same vary of a request.
\<close>

section \<open>The names of headers have no case\<close>

abbreviation low :: "string \<Rightarrow> string" where "low \<equiv> map to_lower"

definition low_field :: "http_field \<Rightarrow> http_field" where
  "low_field f = \<lparr>hf_attr = low (hf_attr f), hf_val = map_option low (hf_val f)\<rparr>"

lemma char_code_inj: "c = d \<longleftrightarrow> char_code c = char_code d"
  by (simp add: char_code_def)

lemma char_code_lower: "char_code (to_lower c) = (if 65 \<le> char_code c \<and> char_code c \<le> 90 then char_code c + 32 else char_code c)"
proof (cases "65 \<le> char_code c \<and> char_code c \<le> 90")
  case True
  then have "of_char c + 32 < (256 :: nat)" by (simp add: char_code_def)
  then show ?thesis using True by (simp add: to_lower_def char_code_def of_char_of)
qed (auto simp: to_lower_def)

lemma code_of_sign [simp]:
  "char_code (CHR ''='') = 61" "char_code (CHR '','') = 44" "char_code (CHR 0x22) = 34" "char_code (CHR ''|'') = 124"
  by (simp_all add: char_code_def)

lemma to_lower_sign [simp]:
  "to_lower c = CHR ''='' \<longleftrightarrow> c = CHR ''=''" "to_lower c = CHR '','' \<longleftrightarrow> c = CHR '',''"
  "to_lower c = CHR 0x22 \<longleftrightarrow> c = CHR 0x22" "to_lower c = CHR ''|'' \<longleftrightarrow> c = CHR ''|''"
  unfolding char_code_inj char_code_lower code_of_sign by auto

lemma to_lower_twice [simp]: "to_lower (to_lower c) = to_lower c"
  unfolding char_code_inj [of "to_lower (to_lower c)"] char_code_lower by auto

lemma to_lower_space [simp]: "is_space (to_lower c) = is_space c"
proof -
  have "is_space d \<longleftrightarrow> char_code d \<in> {32, 9, 10, 11, 12, 13}" for d
    by (simp add: is_space_def char_code_inj) (simp add: char_code_def)
  then show ?thesis by (auto simp: char_code_lower)
qed

lemma low_space [simp]: "dropWhile is_space (low s) = low (dropWhile is_space s)"
  by (simp add: dropWhile_map comp_def)

lemma cut_at_low:
  assumes "\<And>x. to_lower x = c \<longleftrightarrow> x = c"
  shows "cut_at c (low s) = map_prod low (map_option low) (cut_at c s)"
  using assms by (induction s) (auto split: prod.split)

lemma after_name_low: "after_name (CHR '','') (low s) = map_prod id low (after_name (CHR '','') s)"
proof (cases s)
  case (Cons c r)
  then show ?thesis by (cases "dropWhile is_space r") (simp_all add: after_name_def Let_def del: dropWhile_eq_Nil_conv)
qed (simp add: after_name_def)

lemma after_value_low: "after_value (low s) = low (after_value s)"
  by (simp add: after_value_def cut_at_low split: option.split)

lemma field_parse_low: "field_parse (CHR '','') (low s) = map_prod low_field (map_option low) (field_parse (CHR '','') s)"
proof -
  let ?s = "dropWhile is_space s" and ?go = "\<lambda>c. \<not> (c = CHR ''='' \<or> c = CHR '','' \<or> is_space c)"
  have tw: "takeWhile ?go (low ?s) = low (takeWhile ?go ?s)" "dropWhile ?go (low ?s) = low (dropWhile ?go ?s)"
    by (simp_all add: takeWhile_map dropWhile_map comp_def)
  obtain b hot where an: "after_name (CHR '','') (dropWhile ?go ?s) = (b, hot)" by fastforce
  then have anl: "after_name (CHR '','') (low (dropWhile ?go ?s)) = (b, low hot)" by (simp add: after_name_low)
  have val: "takeWhile (\<lambda>c. c \<noteq> CHR '','' \<and> \<not> is_space c) (low x) = low (takeWhile (\<lambda>c. c \<noteq> CHR '','' \<and> \<not> is_space c) x)" for x
    by (simp add: takeWhile_map comp_def)
  let ?hot = "dropWhile is_space hot"
  have q: "low ?hot \<noteq> [] \<and> hd (low ?hot) = CHR 0x22 \<longleftrightarrow> ?hot \<noteq> [] \<and> hd ?hot = CHR 0x22" by (cases ?hot) auto
  have c: "cut_at (CHR 0x22) (tl (low ?hot)) = map_prod low (map_option low) (cut_at (CHR 0x22) (tl ?hot))"
    by (simp add: cut_at_low map_tl [symmetric])
  show ?thesis unfolding field_parse_def Let_def low_space tw an anl prod.case q c val after_value_low
    by (auto simp: low_field_def after_value_low split: bool.split prod.split option.split)
qed

lemma field_loop_low: "field_loop (CHR '','') (low s) (map low_field hs) = map low_field (field_loop (CHR '','') s hs)"
proof (induction "length s" arbitrary: s hs rule: less_induct)
  case less
  show ?case
  proof (cases "s = []")
    case True
    then show ?thesis by (simp add: field_loop.simps [of _ "[]"])
  next
    case False
    obtain f r where p: "field_parse (CHR '','') s = (f, r)" by fastforce
    show ?thesis
    proof (cases r)
      case None
      then show ?thesis using False p by (subst (1 2) field_loop.simps) (simp add: field_parse_low)
    next
      case (Some t)
      have "length t < length s" using field_parse_less [OF False, of "CHR '',''" t] p Some by simp
      from less [OF this, of "f # hs"] show ?thesis using False p Some
        by (subst (1 2) field_loop.simps) (simp add: field_parse_low)
    qed
  qed
qed

text \<open>A name that the parser has read does not hold an equals sign.\<close>

lemma field_name_no_eq: "CHR ''='' \<notin> set (hf_attr (fst (field_parse split s)))"
  by (auto simp: field_parse_def Let_def split: prod.split bool.split option.split dest: set_takeWhileD)

lemma field_loop_no_eq:
  "\<forall>f\<in>set hs. CHR ''='' \<notin> set (hf_attr f) \<Longrightarrow> f \<in> set (field_loop split s hs) \<Longrightarrow> CHR ''='' \<notin> set (hf_attr f)"
proof (induction "length s" arbitrary: s hs rule: less_induct)
  case less
  show ?case
  proof (cases "s = []")
    case True
    then show ?thesis using less.prems by (simp add: field_loop.simps [of _ "[]"])
  next
    case False
    obtain g r where p: "field_parse split s = (g, r)" by fastforce
    have g: "CHR ''='' \<notin> set (hf_attr g)" using field_name_no_eq [of split s] p by simp
    have u: "field_loop split s hs = (case r of None \<Rightarrow> g # hs | Some t \<Rightarrow> field_loop split t (g # hs))"
      using False p by (subst field_loop.simps) simp
    show ?thesis
    proof (cases r)
      case None
      then show ?thesis using less.prems u g by auto
    next
      case (Some t)
      have "length t < length s" using field_parse_less [OF False, of split t] p Some by simp
      from less.hyps [OF this, of "g # hs"] show ?thesis using less.prems u g Some by simp
    qed
  qed
qed

definition no_case :: "(string \<Rightarrow> string option) \<Rightarrow> bool" where
  "no_case header \<longleftrightarrow> (\<forall>a b. strcase_eq a b \<longrightarrow> header a = header b)"

lemma low_low [simp]: "low (low s) = low s"
  by (simp add: comp_def)

lemma strcase_eq_low: "strcase_eq (low a) b = strcase_eq a b" "strcase_eq a (low b) = strcase_eq a b"
  by (simp_all add: strcase_eq_def comp_def)

lemma low_field_attr [simp]: "hf_attr (low_field f) = low (hf_attr f)"
  by (simp add: low_field_def)

lemma find_ext_low: "find_ext (low name) varys = find_ext name varys"
  by (induction varys) (auto simp: strcase_eq_low)

lemma build_vary_loop_low:
  assumes "no_case header"
  shows "\<forall>f\<in>set fs. CHR ''='' \<notin> set (hf_attr f) \<Longrightarrow> build_vary_loop varys header (map low_field fs) s = build_vary_loop varys header fs s"
proof (induction fs arbitrary: s)
  case (Cons f fs)
  let ?a = "hf_attr f"
  have "strcase_eq (low ?a) ?a" by (simp only: strcase_eq_def low_low)
  then have h: "header (low ?a) = header ?a" using assms unfolding no_case_def by blast
  have b: "low ?a \<noteq> [] \<and> hd (low ?a) = CHR ''|'' \<longleftrightarrow> ?a \<noteq> [] \<and> hd ?a = CHR ''|''" by (cases ?a) auto
  have "CHR ''='' \<notin> set (tl ?a)" using Cons.prems by (cases ?a) simp_all
  then have "cut_at (CHR ''='') (tl ?a) = (tl ?a, None)" "cut_at (CHR ''='') (tl (low ?a)) = (low (tl ?a), None)"
    using cut_at_None by (auto simp: cut_at_low map_tl [symmetric])
  moreover have "\<And>s. build_vary_loop varys header (map low_field fs) s = build_vary_loop varys header fs s" using Cons by simp
  ultimately show ?case using h b
    by (simp add: strcase_eq_low KGL_VARY_EXTEND_CHAR_def build_vary_extend_def find_ext_low split: option.split)
qed simp

lemma build_vary_no_case:
  assumes "no_case header" "strcase_eq a b"
  shows "build_vary varys header a = build_vary varys header b"
proof -
  have l: "build_vary varys header (low c) = build_vary varys header c" for c
    using field_loop_low [of c "[]"] build_vary_loop_low [OF assms(1), of "field_loop (CHR '','') c []"] field_loop_no_eq [of "[]"]
    by (simp add: build_vary_def)
  show ?thesis using l [of a] l [of b] assms(2) by (simp add: strcase_eq_def)
qed

text \<open>
  The value of an extension is never passed on: the parser of fields has cut the name at the equals sign, so that
  \<^verbatim>\<open>build_vary\<close> does not find one, and every extension is built as without a value.
\<close>

definition without_value :: "vary_exts \<Rightarrow> vary_exts" where
  "without_value varys = map (\<lambda>(n, build). (n, \<lambda>_. build None)) varys"

lemma find_ext_without: "find_ext name (without_value varys) = map_option (\<lambda>build _. build None) (find_ext name varys)"
  by (induction varys) (auto simp: without_value_def)

lemma build_vary_loop_without:
  "\<forall>f\<in>set fs. CHR ''='' \<notin> set (hf_attr f) \<Longrightarrow> build_vary_loop (without_value varys) header fs s = build_vary_loop varys header fs s"
proof (induction fs arbitrary: s)
  case (Cons f fs)
  let ?a = "hf_attr f"
  have "CHR ''='' \<notin> set (tl ?a)" using Cons.prems by (cases ?a) simp_all
  then have "cut_at (CHR ''='') (tl ?a) = (tl ?a, None)" by (rule cut_at_None)
  moreover have "\<And>s. build_vary_loop (without_value varys) header fs s = build_vary_loop varys header fs s" using Cons by simp
  ultimately show ?case by (cases "find_ext (tl ?a) varys") (simp_all add: build_vary_extend_def find_ext_without)
qed simp

lemma vary_value_lost: "build_vary (without_value varys) header vary = build_vary varys header vary"
proof -
  have "\<forall>f\<in>set (field_loop (CHR '','') vary []). CHR ''='' \<notin> set (hf_attr f)" using field_loop_no_eq [of "[]"] by simp
  then show ?thesis unfolding build_vary_def by (rule build_vary_loop_without)
qed

section \<open>Lookups\<close>

definition usable :: "'u get_rq \<Rightarrow> 'u hash_obj \<Rightarrow> bool" where
  "usable rq ob \<longleftrightarrow>
     \<not> ho_dead ob \<and> \<not> (gr_min_verified rq > 0 \<and> ho_last_verified ob < gr_min_verified rq \<and> odd (gr_min_verified rq)) \<and>
     gr_internal rq = ho_internal ob \<and> gr_accepts rq (uk_url (ho_uk ob)) \<and> (gr_no_disk rq \<longrightarrow> ho_memory_object ob)"

lemma get_object_usable: "snd (get_object rq ob) = usable rq ob"
  by (simp add: get_object_def usable_def Let_def obj_Dead_def)

lemma get_object_same:
  "ho_encoding (fst (get_object rq ob)) = ho_encoding ob" "ho_uk (fst (get_object rq ob)) = ho_uk ob"
  "ho_in_cache (fst (get_object rq ob)) = ho_in_cache ob"
  by (simp_all add: get_object_def Let_def obj_Dead_def)

definition visited :: "'u get_rq \<Rightarrow> nat list \<Rightarrow> 'u oheap \<Rightarrow> 'u oheap" where
  "visited rq c H = (\<lambda>j. if j \<in> set c then fst (get_object rq (H j)) else H j)"

lemma get_loop_result:
  "distinct c \<Longrightarrow> (\<forall>a. hit = Some a \<longrightarrow> a \<notin> set c) \<Longrightarrow>
   \<exists>hit'. get_loop rq c hit H = (hit', visited rq c H) \<and>
     (hit' = None \<longrightarrow> hit = None \<and> (\<forall>j\<in>set c. \<not> usable rq (H j))) \<and>
     (\<forall>a. hit' = Some a \<longrightarrow>
        (hit = Some a \<or> a \<in> set c \<and> usable rq (H a)) \<and> (\<forall>j\<in>set c. usable rq (H j) \<longrightarrow> ho_encoding (H j) \<le> ho_encoding (H a)) \<and>
        (\<forall>b. hit = Some b \<longrightarrow> ho_encoding (H b) \<le> ho_encoding (H a)))"
proof (induction c arbitrary: hit H)
  case Nil
  then show ?case by (auto simp: visited_def)
next
  case (Cons i c)
  obtain ob us where go: "get_object rq (H i) = (ob, us)" by fastforce
  have us': "us = usable rq (H i)" and ob: "ob = fst (get_object rq (H i))" using go get_object_usable [of rq "H i"] by simp_all
  have eob: "ho_encoding ob = ho_encoding (H i)" by (simp add: ob get_object_same)
  let ?H = "H(i := ob)"
  let ?hit = "if usable rq (H i) \<and> (case hit of None \<Rightarrow> True | Some j \<Rightarrow> ho_encoding (H j) < ho_encoding (H i)) then Some i else hit"
  have enc: "ho_encoding (?H j) = ho_encoding (H j)" for j by (simp add: eob)
  have u: "get_loop rq (i # c) hit H = get_loop rq c ?hit ?H"
    unfolding get_loop.simps go prod.case Let_def us' by (simp only: enc eob)
  have dc: "distinct c" "\<forall>a. ?hit = Some a \<longrightarrow> a \<notin> set c" using Cons.prems by (auto split: if_splits)
  have vis: "visited rq c ?H = visited rq (i # c) H" using Cons.prems(1) by (auto simp: visited_def ob)
  have us: "usable rq (?H j) = usable rq (H j)" if "j \<in> set c" for j using that Cons.prems(1) by auto
  from Cons.IH [OF dc, of ?H, unfolded vis enc] obtain hit' where h: "get_loop rq c ?hit ?H = (hit', visited rq (i # c) H)"
    "hit' = None \<longrightarrow> ?hit = None \<and> (\<forall>j\<in>set c. \<not> usable rq (?H j))"
    "\<forall>a. hit' = Some a \<longrightarrow>
        (?hit = Some a \<or> a \<in> set c \<and> usable rq (?H a)) \<and> (\<forall>j\<in>set c. usable rq (?H j) \<longrightarrow> ho_encoding (H j) \<le> ho_encoding (H a)) \<and>
        (\<forall>b. ?hit = Some b \<longrightarrow> ho_encoding (H b) \<le> ho_encoding (H a))" by blast
  have h2: "?hit = None" "\<And>j. j \<in> set c \<Longrightarrow> \<not> usable rq (H j)" if "hit' = None" using h(2) that us by blast+
  have h3: "?hit = Some a \<or> a \<in> set c \<and> usable rq (H a)" "\<And>j. j \<in> set c \<Longrightarrow> usable rq (H j) \<Longrightarrow> ho_encoding (H j) \<le> ho_encoding (H a)"
    "\<And>b. ?hit = Some b \<Longrightarrow> ho_encoding (H b) \<le> ho_encoding (H a)" if "hit' = Some a" for a using h(3) that us by blast+
  have none: "hit' = None \<longrightarrow> hit = None \<and> (\<forall>j\<in>set (i # c). \<not> usable rq (H j))"
    using h2 by (auto split: if_splits option.splits)
  have some: "(hit = Some a \<or> a \<in> set (i # c) \<and> usable rq (H a)) \<and> (\<forall>j\<in>set (i # c). usable rq (H j) \<longrightarrow> ho_encoding (H j) \<le> ho_encoding (H a)) \<and>
        (\<forall>b. hit = Some b \<longrightarrow> ho_encoding (H b) \<le> ho_encoding (H a))" if "hit' = Some a" for a
  proof (cases "?hit = Some i")
    case True
    note h3 = h3 [OF that, unfolded True]
    have "usable rq (H i)" "\<And>b. hit = Some b \<Longrightarrow> ho_encoding (H b) \<le> ho_encoding (H i)"
      using True Cons.prems(2) by (auto split: if_splits option.splits)
    then show ?thesis using h3(1,2) h3(3) [of i] by (auto intro: order_trans)
  next
    case False
    then have hh: "?hit = hit" "usable rq (H i) \<Longrightarrow> \<exists>b. hit = Some b \<and> ho_encoding (H i) \<le> ho_encoding (H b)"
      by (auto split: if_splits option.splits)
    note h3 = h3 [OF that, unfolded hh(1)]
    show ?thesis using h3 hh(2) by (auto intro: order_trans)
  qed
  show ?case using u h(1) none some by auto
qed

definition matching :: "vary_exts \<Rightarrow> ('u \<Rightarrow> 'k) \<Rightarrow> 'u get_rq \<Rightarrow> 'u oheap \<Rightarrow> nat list list \<Rightarrow> nat set" where
  "matching varys key rq H cs = {j \<in> of_url key H (key (gr_url rq)) cs. vary_val (ho_uk (H j)) = fst (BuildVary varys rq (H j))}"

text \<open>All objects of an address give the same vary of a request.\<close>

lemma BuildVary_by:
  assumes "no_case (gr_header rq)" "vary_by (uk_vary (ho_uk a)) = vary_by (uk_vary (ho_uk b))"
  shows "BuildVary varys rq a = BuildVary varys rq b"
proof -
  have "Option.bind (uk_vary (ho_uk a)) vy_key = None \<and> Option.bind (uk_vary (ho_uk b)) vy_key = None \<or>
    (\<exists>k l. Option.bind (uk_vary (ho_uk a)) vy_key = Some k \<and> Option.bind (uk_vary (ho_uk b)) vy_key = Some l \<and> strcase_eq k l)"
    using assms(2) by (auto simp: vary_by_def strcase_eq_def map_option_case split: option.splits)
  then show ?thesis using build_vary_no_case [OF assms(1)]
    by (auto simp: BuildVary_def rq_build_vary_def bind_eq_None_conv bind_eq_Some_conv split: option.splits)
qed

definition vary_uk :: "'u \<Rightarrow> string option \<Rightarrow> 'u url_key" where
  "vary_uk u v = \<lparr>uk_url = u, uk_vary = map_option (\<lambda>x. \<lparr>vy_key = None, vy_val = Some x\<rparr>) v\<rparr>"

lemma okey_vary_uk: "okey key (vary_uk u v) = (key u, val_key v)"
  by (cases v) (simp_all add: okey_def vary_uk_def vary_val_def)

text \<open>The objects of a key are the chain of the key.\<close>

lemma chain_of_key:
  assumes "index_ok key H cs" "c \<in> set cs" "ckey key H c = okey key (vary_uk u v)"
  shows "set c = {j \<in> of_url key H (key u) cs. vary_val (ho_uk (H j)) = v}"
proof -
  have so: "chains_sorted key H cs" and ch: "\<And>d. d \<in> set cs \<Longrightarrow> chain_ok key H d" using assms(1) by (simp_all add: index_ok_def)
  have ok: "okey key (ho_uk (H j)) = (key u, val_key v) \<longleftrightarrow> key (uk_url (ho_uk (H j))) = key u \<and> vary_val (ho_uk (H j)) = v" for j
    by (auto simp: okey_def val_key_inj)
  have "j \<in> set c \<longleftrightarrow> j \<in> set (concat cs) \<and> okey key (ho_uk (H j)) = (key u, val_key v)" for j
  proof
    assume "j \<in> set c"
    then show "j \<in> set (concat cs) \<and> okey key (ho_uk (H j)) = (key u, val_key v)"
      using assms(2,3) ch [OF assms(2)] by (auto simp: chain_ok_def okey_vary_uk)
  next
    assume j: "j \<in> set (concat cs) \<and> okey key (ho_uk (H j)) = (key u, val_key v)"
    then obtain d where d: "d \<in> set cs" "j \<in> set d" by auto
    then have "ckey key H d = ckey key H c" using ch [OF d(1)] j assms(3) by (simp add: chain_ok_def okey_vary_uk)
    then show "j \<in> set c" using chain_unique [OF so d(1) assms(2)] d(2) by simp
  qed
  then show ?thesis unfolding of_url_def ok by blast
qed

lemma no_chain_of_key:
  assumes "index_ok key H cs" "\<And>c. c \<in> set cs \<Longrightarrow> ckey key H c \<noteq> okey key (vary_uk u v)"
  shows "{j \<in> of_url key H (key u) cs. vary_val (ho_uk (H j)) = v} = {}"
proof -
  have False if j: "j \<in> set (concat cs)" "key (uk_url (ho_uk (H j))) = key u" "vary_val (ho_uk (H j)) = v" for j
  proof -
    obtain d where d: "d \<in> set cs" "j \<in> set d" using j(1) by auto
    then have "ckey key H d = okey key (ho_uk (H j))" using assms(1) by (simp add: index_ok_def chain_ok_def)
    moreover have "okey key (ho_uk (H j)) = (key u, val_key v)" using j(2,3) by (simp add: okey_def)
    ultimately show False using assms(2) [OF d(1)] by (simp add: okey_vary_uk)
  qed
  then show ?thesis by (auto simp: of_url_def)
qed

text \<open>The second search, from the topmost node of the address, finds what a search of the whole tree finds.\<close>

lemma find_below:
  assumes "url_order url_cmp key" "index_ok key H (inorder t)" "inorder t = ls @ inorder sub @ rs"
    "\<forall>c\<in>set ls \<union> set rs. \<not> same_url_key key H (key u) c"
  shows "case fst (find_node url_cmp H (vary_uk u v) sub off m) of
     None \<Rightarrow> {j \<in> of_url key H (key u) (inorder t). vary_val (ho_uk (H j)) = v} = {}
   | Some (q, c) \<Rightarrow> c \<in> set (inorder t) \<and> set c = {j \<in> of_url key H (key u) (inorder t). vary_val (ho_uk (H j)) = v}"
proof -
  have so: "chains_sorted key H (inorder sub)" using assms(2,3) by (auto simp: index_ok_def chains_sorted_def sorted_wrt_append)
  obtain node m' where f: "find_node url_cmp H (vary_uk u v) sub off m = (node, m')" by fastforce
  show ?thesis
  proof (cases node)
    case None
    have "ckey key H c \<noteq> okey key (vary_uk u v)" if "c \<in> set (inorder t)" for c
    proof (cases "c \<in> set (inorder sub)")
      case True
      then show ?thesis using find_node_None [OF assms(1) so _ True] f None by (metis fst_conv)
    next
      case False
      then have "\<not> same_url_key key H (key u) c" using that assms(3,4) by auto
      then show ?thesis using fst_ckey [of key H c] by (auto simp: same_url_key_def okey_vary_uk)
    qed
    then have "{j \<in> of_url key H (key u) (inorder t). vary_val (ho_uk (H j)) = v} = {}" by (rule no_chain_of_key [OF assms(2)])
    then show ?thesis using f None by simp
  next
    case (Some qc)
    obtain q c where qc: "qc = (q, c)" by (cases qc)
    from find_node_Some [OF assms(1)] f Some qc obtain xs ys where "inorder sub = xs @ c # ys" "ckey key H c = okey key (vary_uk u v)" by blast
    then show ?thesis using chain_of_key [OF assms(2), of c u v] assms(3) f Some qc by simp
  qed
qed

definition same_place :: "'u hash_obj \<Rightarrow> 'u hash_obj \<Rightarrow> bool" where
  "same_place a b \<longleftrightarrow>
     ho_uk b = ho_uk a \<and> ho_in_mem b = ho_in_mem a \<and> ho_in_disk b = ho_in_disk a \<and> ho_memory_object b = ho_memory_object a \<and>
     ho_head_size b = ho_head_size a \<and> ho_content_length b = ho_content_length a \<and> ho_in_cache b = ho_in_cache a"

lemma same_place_refl [simp]: "same_place a a"
  by (simp add: same_place_def)

lemma visited_same_place: "same_place (H j) (visited rq c H j)"
  by (simp add: visited_def same_place_def get_object_def Let_def obj_Dead_def)

lemma visited_refs: "ho_refs (visited rq c H j) = ho_refs (H j)"
  by (simp add: visited_def get_object_def Let_def obj_Dead_def)

lemma usable_no_cache [simp]: "usable (rq\<lparr>gr_no_cache := b\<rparr>) = usable rq"
  by (rule ext) (simp add: usable_def)

lemma BuildVary_rq: "\<exists>b. snd (BuildVary varys rq ob) = rq\<lparr>gr_no_cache := b\<rparr>"
proof -
  have "\<exists>b. rq = rq\<lparr>gr_no_cache := b\<rparr>" by (rule exI [of _ "gr_no_cache rq"]) simp
  then show ?thesis by (auto simp: BuildVary_def rq_build_vary_def split: option.split prod.split)
qed

definition get_result :: "'u get_rq \<Rightarrow> 'u oheap \<Rightarrow> nat set \<Rightarrow> nat option \<Rightarrow> bool" where
  "get_result rq H S hit \<longleftrightarrow>
     (case hit of
        None \<Rightarrow> \<forall>j\<in>S. \<not> usable rq (H j)
      | Some i \<Rightarrow> i \<in> S \<and> usable rq (H i) \<and> (\<forall>j\<in>S. usable rq (H j) \<longrightarrow> ho_encoding (H j) \<le> ho_encoding (H i)))"

lemma get_chain_ok:
  assumes "distinct c" "\<forall>j\<in>set c. ho_in_cache (H j)"
  shows "\<exists>hit H'. (case get_loop rq c None H of
       (None, H) \<Rightarrow> Some (None, rq, H)
     | (Some i, H) \<Rightarrow> if ho_in_cache (H i) then Some (Some i, rq, H(i := (H i)\<lparr>ho_refs := ho_refs (H i) + 1\<rparr>)) else None) = Some (hit, rq, H') \<and>
     get_result rq H (set c) hit \<and> (\<forall>j. same_place (H j) (H' j)) \<and> (\<forall>j. ho_refs (H' j) = ho_refs (H j) + (if hit = Some j then 1 else 0))"
proof -
  obtain hit where g: "get_loop rq c None H = (hit, visited rq c H)" and r: "get_result rq H (set c) hit"
    using get_loop_result [OF assms(1), of None rq H] by (fastforce simp: get_result_def split: option.split)
  show ?thesis
  proof (cases hit)
    case None
    then show ?thesis using g r visited_same_place [of H] visited_refs [of rq c H] by auto
  next
    case (Some i)
    then have "ho_in_cache (H i)" using r assms(2) by (simp add: get_result_def)
    then have ic: "ho_in_cache (visited rq c H i)" using visited_same_place [of H i rq c] by (simp add: same_place_def)
    let ?H = "(visited rq c H)(i := (visited rq c H i)\<lparr>ho_refs := ho_refs (visited rq c H i) + 1\<rparr>)"
    have "\<forall>j. same_place (H j) (?H j)" using visited_same_place [of H _ rq c] by (simp add: same_place_def)
    moreover have "\<forall>j. ho_refs (?H j) = ho_refs (H j) + (if hit = Some j then 1 else 0)" using Some by (simp add: visited_refs)
    ultimately show ?thesis using g r Some ic by auto
  qed
qed

lemma hash_get_ok:
  assumes "url_order url_cmp key" "index_ok key H (inorder (nodes h))" "no_case (gr_header rq)"
    "\<forall>j\<in>set (concat (inorder (nodes h))). ho_in_cache (H j)"
  shows "\<exists>hit rq' H'. hash_get url_cmp varys rq h H = Some (hit, rq', H') \<and>
    get_result rq H (matching varys key rq H (inorder (nodes h))) hit \<and> (\<forall>j. same_place (H j) (H' j)) \<and>
    (\<forall>j. ho_refs (H' j) = ho_refs (H j) + (if hit = Some j then 1 else 0))"
proof -
  let ?t = "nodes h" and ?u = "gr_url rq"
  let ?uk = "\<lparr>uk_url = ?u, uk_vary = None\<rparr>"
  obtain node m where f: "find_node url_cmp H ?uk ?t 0 None = (node, m)" by fastforce
  have uk: "?uk = vary_uk ?u None" by (simp add: vary_uk_def)
  show ?thesis using find_url [OF assms(1,2) f, simplified]
  proof (elim disjE conjE exE)
    assume "m = None" "of_url key H (key ?u) (inorder ?t) = {}"
    then have "get_result rq H (matching varys key rq H (inorder ?t)) None" "hash_get url_cmp varys rq h H = Some (None, rq, H)"
      using f by (simp_all add: get_result_def matching_def hash_get_def)
    then show ?thesis by auto
  next
    fix xs c ys l r ls rs
    assume m: "m = Some (length xs, ONode l c r)" and t: "inorder ?t = xs @ c # ys" "inorder ?t = ls @ inorder l @ c # inorder r @ rs"
      and k: "key (uk_url (ho_uk (H (hd c)))) = key ?u" and ns: "\<forall>c\<in>set ls \<union> set rs. \<not> same_url_key key H (key ?u) c"
    obtain v rq1 where bv: "BuildVary varys rq (H (hd c)) = (v, rq1)" by fastforce
    obtain b where rq1: "rq1 = rq\<lparr>gr_no_cache := b\<rparr>" using BuildVary_rq [of varys rq "H (hd c)"] bv by auto
    have "hd c \<in> set c" using assms(2) t(1) by (simp add: index_ok_def chain_ok_def)
    then have hc: "hd c \<in> of_url key H (key ?u) (inorder ?t)" using t(1) k by (simp add: of_url_def)
    have "BuildVary varys rq (H j) = (v, rq1)" if "j \<in> of_url key H (key ?u) (inorder ?t)" for j
      using BuildVary_by [OF assms(3) of_url_vary [OF assms(2) that hc]] bv by simp
    then have mt: "matching varys key rq H (inorder ?t) = {j \<in> of_url key H (key ?u) (inorder ?t). vary_val (ho_uk (H j)) = v}"
      by (auto simp: matching_def)
    let ?node = "case v of None \<Rightarrow> node | Some x \<Rightarrow> fst (find_node url_cmp H (vary_uk ?u (Some x)) (ONode l c r) 0 None)"
    have fn: "case ?node of
       None \<Rightarrow> matching varys key rq H (inorder ?t) = {}
     | Some (q, d) \<Rightarrow> d \<in> set (inorder ?t) \<and> set d = matching varys key rq H (inorder ?t)"
    proof (cases v)
      case None
      then show ?thesis using find_below [OF assms(1,2), of "[]" ?t "[]" ?u None 0 None] f unfolding mt uk None by simp
    next
      case (Some x)
      then show ?thesis using find_below [OF assms(1,2), of ls "ONode l c r" rs ?u "Some x" 0 None] t(2) ns unfolding mt Some by simp
    qed
    have g: "hash_get url_cmp varys rq h H = (case ?node of
         None \<Rightarrow> Some (None, rq1, H)
       | Some (q, chain) \<Rightarrow> (case get_loop rq1 chain None H of
            (None, H) \<Rightarrow> Some (None, rq1, H)
          | (Some i, H) \<Rightarrow> if ho_in_cache (H i) then Some (Some i, rq1, H(i := (H i)\<lparr>ho_refs := ho_refs (H i) + 1\<rparr>)) else None))"
      unfolding hash_get_def f m prod.case option.case t(1) nth_append_length bv Let_def
      by (simp add: vary_uk_def rq1 cong: option.case_cong)
    show ?thesis
    proof (cases ?node)
      case None
      then show ?thesis using g fn by (auto simp: get_result_def)
    next
      case (Some qd)
      obtain q d where qd: "qd = (q, d)" by (cases qd)
      have d: "d \<in> set (inorder ?t)" "set d = matching varys key rq H (inorder ?t)" using fn Some qd by simp_all
      have dd: "distinct d" using assms(2) d(1) by (auto simp: index_ok_def distinct_concat_iff)
      have ic: "\<forall>j\<in>set d. ho_in_cache (H j)" using assms(4) d(1) by auto
      have same: "get_result rq1 = get_result rq" by (intro ext) (simp add: get_result_def rq1 split: option.split)
      from get_chain_ok [OF dd ic, of rq1] show ?thesis unfolding g Some qd option.case prod.case same d(2) by blast
    qed
  qed
qed

section \<open>Purging\<close>

definition prefix_order :: "('u \<Rightarrow> 'u \<Rightarrow> int) \<Rightarrow> ('u \<Rightarrow> 'k::linorder) \<Rightarrow> bool" where
  "prefix_order url_cmpn key \<longleftrightarrow> (\<forall>u a b. key a \<le> key b \<longrightarrow> sgn (url_cmpn u b) \<le> sgn (url_cmpn u a))"

lemma purgeObject_dead:
  "distinct c \<Longrightarrow> purgeObject handle_purge_object c H =
     (card {j \<in> set c. \<not> ho_dead (H j)}, \<lambda>j. if j \<in> set c \<and> \<not> ho_dead (H j) then obj_Dead (H j) else H j)"
proof (induction c arbitrary: H)
  case (Cons i c)
  let ?H = "if ho_dead (H i) then H else H(i := obj_Dead (H i))"
  have i: "i \<notin> set c" using Cons.prems by simp
  have same: "{j \<in> set c. \<not> ho_dead (?H j)} = {j \<in> set c. \<not> ho_dead (H j)}" using i by auto
  have "{j \<in> set (i # c). \<not> ho_dead (H j)} = (if ho_dead (H i) then {} else {i}) \<union> {j \<in> set c. \<not> ho_dead (H j)}" by auto
  then have "card {j \<in> set (i # c). \<not> ho_dead (H j)} = (if ho_dead (H i) then 0 else 1) + card {j \<in> set c. \<not> ho_dead (H j)}"
    using i by (simp add: card_insert_if)
  moreover have "(\<lambda>j. if j \<in> set c \<and> \<not> ho_dead (?H j) then obj_Dead (?H j) else ?H j) =
    (\<lambda>j. if j \<in> set (i # c) \<and> \<not> ho_dead (H j) then obj_Dead (H j) else H j)" using i by auto
  moreover note Cons.IH [of ?H, unfolded same] Cons.prems
  moreover have "purgeObject handle_purge_object (i # c) H =
    map_prod (\<lambda>n. if ho_dead (H i) then n else Suc n) id (purgeObject handle_purge_object c ?H)"
    by (cases "purgeObject handle_purge_object c ?H"; cases "ho_dead (H i)") (simp_all add: handle_purge_object_def [of i H])
  ultimately show ?case by simp
qed simp

lemma purge_nodes_dead:
  "distinct (concat cs) \<Longrightarrow> purge_nodes handle_purge_object cs H =
     (card {j \<in> set (concat cs). \<not> ho_dead (H j)}, \<lambda>j. if j \<in> set (concat cs) \<and> \<not> ho_dead (H j) then obj_Dead (H j) else H j)"
proof (induction cs arbitrary: H)
  case (Cons c cs)
  let ?H = "\<lambda>j. if j \<in> set c \<and> \<not> ho_dead (H j) then obj_Dead (H j) else H j"
  let ?L = "\<lambda>c. {j \<in> set c. \<not> ho_dead (H j)}"
  have dj: "set c \<inter> set (concat cs) = {}" "distinct c" "distinct (concat cs)" using Cons.prems by auto
  have same: "{j \<in> set (concat cs). \<not> ho_dead (?H j)} = ?L (concat cs)" using dj(1) by auto
  have "?L (concat (c # cs)) = ?L c \<union> ?L (concat cs)" by auto
  then have "card (?L (concat (c # cs))) = card (?L c) + card (?L (concat cs))" using dj(1) by (simp add: card_Un_disjoint disjoint_iff)
  moreover have "(\<lambda>j. if j \<in> set (concat cs) \<and> \<not> ho_dead (?H j) then obj_Dead (?H j) else ?H j) =
    (\<lambda>j. if j \<in> set (concat (c # cs)) \<and> \<not> ho_dead (H j) then obj_Dead (H j) else H j)" using dj(1) by (intro ext) auto
  moreover note purgeObject_dead [OF dj(2), of H] Cons.IH [OF dj(3), of ?H, unfolded same]
  ultimately show ?case by simp
qed simp

lemma run_of_filter:
  assumes "sorted_wrt (\<lambda>a b. f (H (hd a)) \<le> (f (H (hd b)) :: 'b::linorder)) (xs @ c # ys)" "f (H (hd c)) = k"
    "\<And>ob. same (ho_uk ob) \<longleftrightarrow> f ob = k"
  shows "run_of same H (xs @ c # ys) (length xs) = filter (\<lambda>c. f (H (hd c)) = k) (xs @ c # ys)"
  using run_both_sides [OF assms(1,2)] assms(2) by (simp add: run_of_def Let_def assms(3) rev_filter)

lemma findn_Some:
  "findn url_cmpn H u t off = Some p \<Longrightarrow> \<exists>xs c ys. inorder t = xs @ c # ys \<and> p = off + length xs \<and> url_cmpn u (uk_url (ho_uk (H (hd c)))) = 0"
proof (induction t arbitrary: off)
  case (ONode l d r)
  let ?res = "url_cmpn u (uk_url (ho_uk (H (hd d))))"
  consider "?res < 0" | "?res > 0" | "?res = 0" by linarith
  then show ?case
  proof cases
    case 1
    then have "findn url_cmpn H u l off = Some p" using ONode.prems by (simp add: Let_def)
    from ONode.IH(1) [OF this] obtain xs c ys where "inorder l = xs @ c # ys" "p = off + length xs" "url_cmpn u (uk_url (ho_uk (H (hd c)))) = 0"
      by blast
    then show ?thesis by (intro exI [of _ xs] exI [of _ c] exI [of _ "ys @ d # inorder r"]) simp
  next
    case 2
    then have "findn url_cmpn H u r (off + osize l + 1) = Some p" using ONode.prems by (simp add: Let_def)
    from ONode.IH(2) [OF this] obtain xs c ys where "inorder r = xs @ c # ys" "p = off + osize l + 1 + length xs"
      "url_cmpn u (uk_url (ho_uk (H (hd c)))) = 0" by blast
    then show ?thesis by (intro exI [of _ "inorder l @ d # xs"] exI [of _ c] exI [of _ ys]) (simp add: osize_def)
  next
    case 3
    then have "p = off + osize l" using ONode.prems by (simp add: Let_def)
    then show ?thesis using 3 by (intro exI [of _ "inorder l"] exI [of _ d] exI [of _ "inorder r"]) (simp add: osize_def)
  qed
qed simp

lemma findn_None:
  assumes "prefix_order url_cmpn key"
  shows "chains_sorted key H (inorder t) \<Longrightarrow> findn url_cmpn H u t off = None \<Longrightarrow> c \<in> set (inorder t) \<Longrightarrow>
    url_cmpn u (uk_url (ho_uk (H (hd c)))) \<noteq> 0"
proof (induction t arbitrary: off)
  case (ONode l d r)
  let ?cmp = "\<lambda>c. url_cmpn u (uk_url (ho_uk (H (hd c))))"
  note sp = sorted_parts [OF ONode.prems(1)]
  have mono: "sgn (?cmp b) \<le> sgn (?cmp a)" if "ckey key H a < ckey key H b" for a b
  proof -
    have "key (uk_url (ho_uk (H (hd a)))) \<le> key (uk_url (ho_uk (H (hd b))))" using that by (auto simp: ckey_def okey_def less_prod_def)
    then show ?thesis using assms by (simp add: prefix_order_def)
  qed
  consider "c \<in> set (inorder l)" | "c = d" | "c \<in> set (inorder r)" using ONode.prems(3) by auto
  note where_c = this
  have "?cmp d \<noteq> 0" using ONode.prems(2) by (auto simp: Let_def)
  then consider "?cmp d < 0" | "?cmp d > 0" by linarith
  then show ?case
  proof cases
    case 1
    then have "findn url_cmpn H u l off = None" using ONode.prems(2) by (simp add: Let_def)
    note IH = ONode.IH(1) [OF sp(1) this]
    show ?thesis using where_c
    proof cases
      case 3
      then show ?thesis using mono [OF sp(4)] 1 by (metis linorder_not_le sgn_0_0 sgn_less order.strict_trans1)
    qed (use IH 1 in auto)
  next
    case 2
    then have "findn url_cmpn H u r (off + osize l + 1) = None" using ONode.prems(2) by (simp add: Let_def)
    note IH = ONode.IH(2) [OF sp(2) this]
    show ?thesis using where_c
    proof cases
      case 1
      then show ?thesis using mono [OF sp(3)] 2 by (metis linorder_not_le sgn_0_0 sgn_greater order.strict_trans2)
    qed (use IH 2 in auto)
  qed
qed simp

lemma hd_in_index: "index_ok key H cs \<Longrightarrow> c \<in> set cs \<Longrightarrow> hd c \<in> set (concat cs)"
  unfolding index_ok_def chain_ok_def set_concat by (meson UN_I hd_in_set)

definition purged_by :: "('u \<Rightarrow> 'u \<Rightarrow> int) \<Rightarrow> ('u \<Rightarrow> 'u \<Rightarrow> int) \<Rightarrow> 'u \<Rightarrow> bool \<Rightarrow> 'u \<Rightarrow> bool" where
  "purged_by url_cmp url_cmpn url wide u \<longleftrightarrow> (if wide then url_cmpn url u = 0 else url_cmp u url = 0)"

lemma chain_filter_objs:
  assumes "\<forall>c\<in>set cs. chain_ok key H c" "\<And>u w. key u = key w \<Longrightarrow> P u = P w"
  shows "set (concat (filter (\<lambda>c. P (uk_url (ho_uk (H (hd c))))) cs)) = {j \<in> set (concat cs). P (uk_url (ho_uk (H j)))}"
proof -
  have "P (uk_url (ho_uk (H j))) = P (uk_url (ho_uk (H (hd c))))" if "c \<in> set cs" "j \<in> set c" for c j
    using assms(1) that by (intro assms(2) chain_ok_url) auto
  then show ?thesis by auto
qed

text \<open>The nodes a purge visits.\<close>

lemma hash_purge_run:
  assumes "url_order url_cmp key" "prefix_order url_cmpn key" "index_ok key H (inorder (nodes h))"
  shows "hash_purge url_cmp url_cmpn url wide handle h H =
    purge_nodes handle (filter (\<lambda>c. purged_by url_cmp url_cmpn url wide (uk_url (ho_uk (H (hd c))))) (inorder (nodes h))) H"
proof -
  let ?t = "nodes h"
  have so: "chains_sorted key H (inorder ?t)" using assms(3) by (simp add: index_ok_def)
  show ?thesis
  proof (cases wide)
    case True
    show ?thesis
    proof (cases "findn url_cmpn H url ?t 0")
      case None
      then have "filter (\<lambda>c. url_cmpn url (uk_url (ho_uk (H (hd c)))) = 0) (inorder ?t) = []"
        using findn_None [OF assms(2) so None] by (simp add: filter_empty_conv)
      then show ?thesis using True None by (simp add: hash_purge_def purged_by_def)
    next
      case (Some p)
      from findn_Some [OF this] obtain xs c ys where
        x: "inorder ?t = xs @ c # ys" "p = 0 + length xs" "url_cmpn url (uk_url (ho_uk (H (hd c)))) = 0" by blast
      let ?f = "\<lambda>ob. - sgn (url_cmpn url (uk_url (ho_uk ob)))"
      have "sorted_wrt (\<lambda>a b. ?f (H (hd a)) \<le> ?f (H (hd b))) (xs @ c # ys)"
        using assms(2) by (intro sorted_wrt_mono_rel [OF _ sorted_by_url [OF so, unfolded x(1)]]) (simp add: prefix_order_def)
      from run_of_filter [OF this, of 0 "\<lambda>uk. url_cmpn url (uk_url uk) = 0"] x(3)
      have "run_of (\<lambda>uk. url_cmpn url (uk_url uk) = 0) H (inorder ?t) p = filter (\<lambda>c. url_cmpn url (uk_url (ho_uk (H (hd c)))) = 0) (inorder ?t)"
        by (simp add: x(1,2) sgn_0_0)
      then show ?thesis using True Some by (simp add: hash_purge_def purged_by_def)
    qed
  next
    case False
    let ?uk = "\<lparr>uk_url = url, uk_vary = None\<rparr>"
    obtain node m where f: "find_node url_cmp H ?uk ?t 0 None = (node, m)" by fastforce
    have z: "url_cmp u url = 0 \<longleftrightarrow> key u = key url" for u using assms(1) by (simp add: url_order_def)
    show ?thesis using find_url [OF assms(1,3) f, simplified]
    proof (elim disjE conjE exE)
      assume "m = None" "of_url key H (key url) (inorder ?t) = {}"
      moreover have "filter (\<lambda>c. key (uk_url (ho_uk (H (hd c)))) = key url) (inorder ?t) = []" if "of_url key H (key url) (inorder ?t) = {}"
      proof -
        show ?thesis using hd_in_index [OF assms(3)] that by (auto simp: filter_empty_conv of_url_def simp del: set_concat)
      qed
      ultimately show ?thesis using False f by (simp add: hash_purge_def purged_by_def z)
    next
      fix xs c ys l r
      assume x: "m = Some (length xs, ONode l c r)" "inorder ?t = xs @ c # ys" "key (uk_url (ho_uk (H (hd c)))) = key url"
      have "sorted_wrt (\<lambda>a b. key (uk_url (ho_uk (H (hd a)))) \<le> key (uk_url (ho_uk (H (hd b))))) (xs @ c # ys)"
        using sorted_by_url [OF so] x(2) by simp
      from run_of_filter [OF this, of "key url" "\<lambda>uk. url_cmp (uk_url uk) url = 0"] x(3)
      have "run_of (\<lambda>uk. url_cmp (uk_url uk) url = 0) H (inorder ?t) (length xs) = filter (\<lambda>c. key (uk_url (ho_uk (H (hd c)))) = key url) (inorder ?t)"
        by (simp add: x(2) z)
      then show ?thesis using False f x(1) by (simp add: hash_purge_def purged_by_def z)
    qed
  qed
qed

lemma purged_by_key:
  assumes "url_order url_cmp key" "prefix_order url_cmpn key" "key u = key w"
  shows "purged_by url_cmp url_cmpn url wide u = purged_by url_cmp url_cmpn url wide w"
proof -
  have "sgn (url_cmpn url u) = sgn (url_cmpn url w)" using assms(2,3) unfolding prefix_order_def by (metis order.antisym order.refl)
  then have "url_cmpn url u = 0 \<longleftrightarrow> url_cmpn url w = 0" by (metis sgn_0_0)
  then show ?thesis using assms(1,3) by (simp add: purged_by_def url_order_def)
qed

lemma distinct_concat_filter: "distinct (concat cs) \<Longrightarrow> distinct (concat (filter P cs))"
  by (induction cs) auto

lemma hash_purge_dead:
  fixes url :: 'u and wide :: bool
  assumes "url_order url_cmp key" "prefix_order url_cmpn key" "index_ok key H (inorder (nodes h))"
  defines "S \<equiv> {j \<in> set (concat (inorder (nodes h))). purged_by url_cmp url_cmpn url wide (uk_url (ho_uk (H j))) \<and> \<not> ho_dead (H j)}"
  shows "hash_purge url_cmp url_cmpn url wide handle_purge_object h H = (card S, \<lambda>j. if j \<in> S then obj_Dead (H j) else H j)"
proof -
  let ?cs = "filter (\<lambda>c. purged_by url_cmp url_cmpn url wide (uk_url (ho_uk (H (hd c))))) (inorder (nodes h))"
  have ch: "\<forall>c\<in>set (inorder (nodes h)). chain_ok key H c" using assms(3) by (simp add: index_ok_def)
  have s: "set (concat ?cs) = {j \<in> set (concat (inorder (nodes h))). purged_by url_cmp url_cmpn url wide (uk_url (ho_uk (H j)))}"
    by (rule chain_filter_objs [OF ch]) (rule purged_by_key [OF assms(1,2)])
  have d: "distinct (concat ?cs)" using assms(3) by (intro distinct_concat_filter) (simp add: index_ok_def)
  show ?thesis unfolding hash_purge_run [OF assms(1-3)] purge_nodes_dead [OF d] s S_def by (simp add: conj_assoc)
qed

end
