(* ===== verification/Object_Hash_Run.thy ===== *)
theory Object_Hash_Run
  imports Object_Hash_Get
begin

text \<open>
  Runs of the operations of the index: no assertion fails, the index stays a search tree, and its counters are the
  numbers and sizes of the objects that are in it.
\<close>

section \<open>The counters\<close>

definition objs :: "ohash \<Rightarrow> nat set" where
  "objs h = set (concat (inorder (nodes h)))"

definition mem_of :: "'u hash_obj \<Rightarrow> int" where
  "mem_of ob = (if ho_in_mem ob then GetMemorySize ob else 0)"

definition disk_of :: "'u hash_obj \<Rightarrow> int" where
  "disk_of ob = (if ho_in_disk ob then GetDiskSize ob else 0)"

definition cnt :: "bool \<Rightarrow> int" where
  "cnt b = (if b then 1 else 0)"

definition sizes_ok :: "ohash \<Rightarrow> 'u oheap \<Rightarrow> bool" where
  "sizes_ok h H \<longleftrightarrow>
     mem_size h = (\<Sum>j\<in>objs h. mem_of (H j)) \<and> mem_count h = (\<Sum>j\<in>objs h. cnt (ho_in_mem (H j))) \<and>
     disk_size h = (\<Sum>j\<in>objs h. disk_of (H j)) \<and> disk_count h = (\<Sum>j\<in>objs h. cnt (ho_in_disk (H j)))"

definition good_obj :: "'u hash_obj \<Rightarrow> bool" where
  "good_obj ob \<longleftrightarrow> ho_in_cache ob \<and> 0 < ho_head_size ob \<and> 0 \<le> ho_content_length ob"

definition hash_ok :: "('u \<Rightarrow> 'k::linorder) \<Rightarrow> ohash \<Rightarrow> 'u oheap \<Rightarrow> bool" where
  "hash_ok key h H \<longleftrightarrow> index_ok key H (inorder (nodes h)) \<and> sizes_ok h H \<and> (\<forall>j\<in>objs h. good_obj (H j))"

lemma finite_objs [simp]: "finite (objs h)"
  by (simp add: objs_def)

lemma sum_one_changed:
  fixes f :: "'u hash_obj \<Rightarrow> int"
  assumes "finite S" "i \<in> S"
  shows "(\<Sum>j\<in>S. f ((H(i := ob)) j)) = (\<Sum>j\<in>S. f (H j)) - f (H i) + f ob"
proof -
  have "(\<Sum>j\<in>S - {i}. f ((H(i := ob)) j)) = (\<Sum>j\<in>S - {i}. f (H j))" by (rule sum.cong) auto
  then show ?thesis using assms by (simp add: sum.remove)
qed

text \<open>The assertion of the decrements: a size that is gone is gone with its objects.\<close>

lemma sum_gone:
  fixes f :: "'u hash_obj \<Rightarrow> int" and g :: "'u hash_obj \<Rightarrow> bool"
  assumes "finite S" "\<And>j. j \<in> S \<Longrightarrow> (if g (H j) then 0 < f (H j) else f (H j) = 0)"
  shows "(\<Sum>j\<in>S. f (H j)) > 0 \<or> (\<Sum>j\<in>S. f (H j)) = 0 \<and> (\<Sum>j\<in>S. cnt (g (H j))) = 0"
proof (cases "\<exists>j\<in>S. g (H j)")
  case True
  have "\<And>j. j \<in> S \<Longrightarrow> 0 \<le> f (H j)" using assms(2) by (metis order.strict_implies_order order.refl)
  moreover obtain i where "i \<in> S" "0 < f (H i)" using True assms(2) by metis
  ultimately show ?thesis using assms(1) by (intro disjI1 sum_pos2) auto
next
  case False
  then show ?thesis using assms by (simp add: cnt_def)
qed

lemma mem_of_sign: "good_obj ob \<Longrightarrow> (if ho_in_mem ob then 0 < mem_of ob else mem_of ob = 0)"
  by (simp add: good_obj_def mem_of_def GetMemorySize_def)

lemma disk_of_sign: "good_obj ob \<Longrightarrow> (if ho_in_disk ob then 0 < disk_of ob else disk_of ob = 0)"
  by (simp add: good_obj_def disk_of_def GetDiskSize_def)

lemma same_place_sizes:
  "same_place a b \<Longrightarrow> mem_of b = mem_of a \<and> disk_of b = disk_of a \<and> ho_in_mem b = ho_in_mem a \<and> ho_in_disk b = ho_in_disk a \<and> good_obj b = good_obj a"
  by (simp add: same_place_def mem_of_def disk_of_def GetMemorySize_def GetDiskSize_def good_obj_def)

lemma index_ok_cong:
  assumes "index_ok key H cs" "\<And>j. j \<in> set (concat cs) \<Longrightarrow> ho_uk (H' j) = ho_uk (H j)"
  shows "index_ok key H' cs"
proof -
  have ck: "ckey key H' c = ckey key H c" if "c \<in> set cs" for c using hd_in_index [OF assms(1) that] assms(2) by (simp add: ckey_def)
  have "chains_sorted key H' cs"
    using assms(1) ck unfolding index_ok_def chains_sorted_def by (auto simp: sorted_wrt_iff_nth_less)
  moreover have "chain_ok key H' c" if "c \<in> set cs" for c
  proof -
    have "okey key (ho_uk (H' j)) = okey key (ho_uk (H j))" if "j \<in> set c" for j
    proof -
      have "j \<in> set (concat cs)" using that \<open>c \<in> set cs\<close> by auto
      then show ?thesis using assms(2) by simp
    qed
    then show ?thesis using assms(1) that ck [OF that] by (simp add: index_ok_def chain_ok_def)
  qed
  moreover have "one_vary key H' (set (concat cs))"
    using assms unfolding index_ok_def one_vary_def by (metis (no_types, lifting))
  ultimately show ?thesis using assms(1) by (simp add: index_ok_def)
qed

lemma hash_ok_same_place:
  assumes "hash_ok key h H" "\<And>j. j \<in> objs h \<Longrightarrow> same_place (H j) (H' j)"
  shows "hash_ok key h H'"
proof -
  have "index_ok key H' (inorder (nodes h))"
  proof (rule index_ok_cong [of key H])
    show "index_ok key H (inorder (nodes h))" using assms(1) by (simp add: hash_ok_def)
    show "ho_uk (H' j) = ho_uk (H j)" if "j \<in> set (concat (inorder (nodes h)))" for j
      using assms(2) [of j] that by (simp add: objs_def same_place_def)
  qed
  moreover have "sizes_ok h H'"
  proof -
    have e: "mem_of (H' j) = mem_of (H j)" "disk_of (H' j) = disk_of (H j)" "ho_in_mem (H' j) = ho_in_mem (H j)"
      "ho_in_disk (H' j) = ho_in_disk (H j)" if "j \<in> objs h" for j using same_place_sizes [OF assms(2) [OF that]] by simp_all
    have "(\<Sum>j\<in>objs h. mem_of (H' j)) = (\<Sum>j\<in>objs h. mem_of (H j))" "(\<Sum>j\<in>objs h. disk_of (H' j)) = (\<Sum>j\<in>objs h. disk_of (H j))"
      "(\<Sum>j\<in>objs h. cnt (ho_in_mem (H' j))) = (\<Sum>j\<in>objs h. cnt (ho_in_mem (H j)))"
      "(\<Sum>j\<in>objs h. cnt (ho_in_disk (H' j))) = (\<Sum>j\<in>objs h. cnt (ho_in_disk (H j)))" using e by (simp_all cong: sum.cong)
    then show ?thesis using assms(1) by (simp add: hash_ok_def sizes_ok_def)
  qed
  moreover have "\<forall>j\<in>objs h. good_obj (H' j)" using assms same_place_sizes unfolding hash_ok_def by blast
  ultimately show ?thesis by (simp add: hash_ok_def)
qed

section \<open>Insertion and removal\<close>

lemma upd_set_other: "j \<notin> S \<Longrightarrow> upd_set S k H j = H j"
  by (simp add: upd_set_def)

lemma sizes_upd [simp]:
  "mem_of (upd_set S k H j) = mem_of (H j)" "disk_of (upd_set S k H j) = disk_of (H j)" "ho_in_mem (upd_set S k H j) = ho_in_mem (H j)"
  "ho_in_disk (upd_set S k H j) = ho_in_disk (H j)" "good_obj (upd_set S k H j) = good_obj (H j)"
  by (simp_all add: upd_set_def new_vary_key_def obj_Dead_def mem_of_def disk_of_def GetMemorySize_def GetDiskSize_def good_obj_def)

lemma sizes_ok_put:
  assumes "sizes_ok h H" "i \<notin> objs h" "objs (h\<lparr>nodes := t\<rparr>) = insert i (objs h)"
  shows "sizes_ok (CountSize (H i) (h\<lparr>nodes := t\<rparr>)) H"
proof -
  have "objs (CountSize (H i) (h\<lparr>nodes := t\<rparr>)) = insert i (objs h)" using assms(3) by (simp add: objs_def CountSize_def Let_def)
  then show ?thesis using assms(1,2)
    by (simp add: sizes_ok_def CountSize_def Let_def mem_of_def [of "H i"] disk_of_def [of "H i"] cnt_def [of "ho_in_mem (H i)"] cnt_def [of "ho_in_disk (H i)"])
qed

lemma hash_put_ok:
  assumes "url_order url_cmp key" "rb_laws rb" "hash_ok key h H" "i \<notin> objs h" "good_obj (H i)" "ho_refs (H i) = 1"
  defines "H0 \<equiv> H(i := (H i)\<lparr>ho_refs := 2\<rparr>)"
  defines "H' \<equiv> upd_set (stale key H0 i (uk_vary (ho_uk (H i))) (inorder (nodes h))) (Option.bind (uk_vary (ho_uk (H i))) vy_key) H0"
  shows "\<exists>h'. hash_put url_cmp rb i h H = Some (h', H') \<and> hash_ok key h' H' \<and> objs h' = insert i (objs h)"
proof -
  have same: "same_place (H j) (H0 j)" for j by (simp add: H0_def same_place_def)
  then have h0: "hash_ok key h H0" using hash_ok_same_place [OF assms(3)] by blast
  have vi: "uk_vary (ho_uk (H0 i)) = uk_vary (ho_uk (H i))" by (simp add: H0_def)
  obtain t where t: "hash_insert url_cmp rb i (nodes h) H0 = Some (t, H')" "index_ok key H' (inorder t)"
    "mset (concat (inorder t)) = add_mset i (mset (concat (inorder (nodes h))))"
    using hash_insert_ok [OF assms(1,2), of H0 "nodes h" i] h0 assms(4) unfolding vi H'_def by (auto simp: hash_ok_def objs_def)
  let ?h = "CountSize (H' i) (h\<lparr>nodes := t\<rparr>)"
  have "set (concat (inorder t)) = insert i (objs h)" using t(3) unfolding objs_def by (metis set_mset_add_mset_insert set_mset_mset)
  then have ob: "objs (h\<lparr>nodes := t\<rparr>) = insert i (objs h)" by (simp add: objs_def)
  have n: "nodes ?h = t" "objs ?h = insert i (objs h)" using ob by (simp_all add: CountSize_def Let_def objs_def)
  have "sizes_ok h H'" using h0 by (simp add: hash_ok_def sizes_ok_def H'_def)
  then have "sizes_ok ?h H'" using sizes_ok_put [OF _ assms(4) ob] by blast
  moreover have "good_obj (H' j)" if "j \<in> insert i (objs h)" for j
    using that h0 assms(5) same_place_sizes [OF same [of i]] by (auto simp: H'_def hash_ok_def)
  ultimately have "hash_ok key ?h H'" using t(2) n by (simp add: hash_ok_def)
  then show ?thesis using t(1) n(2) assms(6) by (intro exI [of _ ?h]) (simp add: hash_put_def H0_def)
qed

lemma DecMem_ok:
  assumes "finite S" "\<And>j. j \<in> S \<Longrightarrow> good_obj (H j)"
    "mem_size h = mem_of ob + (\<Sum>j\<in>S. mem_of (H j))" "mem_count h = cnt (ho_in_mem ob) + (\<Sum>j\<in>S. cnt (ho_in_mem (H j)))"
  shows "(if ho_in_mem ob then DecMemObjectSize ob h else Some h) =
    Some (h\<lparr>mem_size := (\<Sum>j\<in>S. mem_of (H j)), mem_count := (\<Sum>j\<in>S. cnt (ho_in_mem (H j)))\<rparr>)"
  using sum_gone [OF assms(1), of ho_in_mem H mem_of] mem_of_sign [OF assms(2)] assms(3,4)
  by (auto simp: DecMemObjectSize_def Let_def mem_of_def [of ob] cnt_def [of "ho_in_mem ob"])

lemma DecDisk_ok:
  assumes "finite S" "\<And>j. j \<in> S \<Longrightarrow> good_obj (H j)"
    "disk_size h = disk_of ob + (\<Sum>j\<in>S. disk_of (H j))" "disk_count h = cnt (ho_in_disk ob) + (\<Sum>j\<in>S. cnt (ho_in_disk (H j)))"
  shows "(if ho_in_disk ob then DecDiskObjectSize ob h else Some h) =
    Some (h\<lparr>disk_size := (\<Sum>j\<in>S. disk_of (H j)), disk_count := (\<Sum>j\<in>S. cnt (ho_in_disk (H j)))\<rparr>)"
  using sum_gone [OF assms(1), of ho_in_disk H disk_of] disk_of_sign [OF assms(2)] assms(3,4)
  by (auto simp: DecDiskObjectSize_def Let_def disk_of_def [of ob] cnt_def [of "ho_in_disk ob"])

lemma hash_remove_ok:
  assumes "url_order url_cmp key" "rb_laws rb" "hash_ok key h H" "i \<in> objs h"
  shows "\<exists>h'. hash_remove url_cmp rb i h H = Some h' \<and> hash_ok key h' H \<and> objs h' = objs h - {i}"
proof -
  have io: "index_ok key H (inorder (nodes h))" and so: "sizes_ok h H" and go: "\<forall>j\<in>objs h. good_obj (H j)"
    using assms(3) by (simp_all add: hash_ok_def)
  obtain xs c ys m where f: "find_node url_cmp H (ho_uk (H i)) (nodes h) 0 None = (Some (length xs, c), m)"
    and t: "inorder (nodes h) = xs @ c # ys" and c: "i \<in> set c"
    using find_member [OF assms(1) io] assms(4) unfolding objs_def by blast
  let ?t = "if remove1 i c = [] then rb_erase rb (length xs) (nodes h) else set_chain (length xs) (remove1 i c) (nodes h)"
  let ?S = "objs h - {i}"
  note rt = remove_tree [OF assms(2) io t c]
  let ?h1 = "h\<lparr>nodes := ?t\<rparr>"
  have sum: "(\<Sum>j\<in>objs h. f (H j)) = f (H i) + (\<Sum>j\<in>?S. f (H j))" for f :: "_ \<Rightarrow> int" using assms(4) by (simp add: sum.remove)
  let ?h2 = "?h1\<lparr>mem_size := (\<Sum>j\<in>?S. mem_of (H j)), mem_count := (\<Sum>j\<in>?S. cnt (ho_in_mem (H j)))\<rparr>"
  have d1: "(if ho_in_mem (H i) then DecMemObjectSize (H i) ?h1 else Some ?h1) = Some ?h2"
    using so go sum [of mem_of] sum [of "\<lambda>ob. cnt (ho_in_mem ob)"] by (intro DecMem_ok) (auto simp: sizes_ok_def)
  let ?h3 = "?h2\<lparr>disk_size := (\<Sum>j\<in>?S. disk_of (H j)), disk_count := (\<Sum>j\<in>?S. cnt (ho_in_disk (H j)))\<rparr>"
  have d2: "(if ho_in_disk (H i) then DecDiskObjectSize (H i) ?h2 else Some ?h2) = Some ?h3"
    using so go sum [of disk_of] sum [of "\<lambda>ob. cnt (ho_in_disk ob)"] by (intro DecDisk_ok) (auto simp: sizes_ok_def)
  have "hash_remove url_cmp rb i h H = Some ?h3"
    unfolding hash_remove_def f prod.case option.case Let_def using c d1 d2 by simp
  moreover have ob: "objs ?h3 = ?S" using rt by (simp add: objs_def)
  moreover have "hash_ok key ?h3 H" using rt go ob by (simp add: hash_ok_def sizes_ok_def)
  ultimately show ?thesis by blast
qed

section \<open>Changes of objects\<close>

lemma hash_ok_upd:
  assumes "hash_ok key h H"
  shows "hash_ok key h (upd_set (stale key H i v (inorder (nodes h))) k H)"
  using assms upd_stale_index [of key H "inorder (nodes h)"] by (simp add: hash_ok_def sizes_ok_def)

lemma UpdateCache_ok:
  assumes "url_order url_cmp key" "hash_ok key h H" "i \<in> objs h" "\<not> ho_in_cache ob"
  defines "v \<equiv> uk_vary (ho_uk ob)"
  shows "UpdateCache url_cmp i ob h H = Some (upd_set (stale key H i v (inorder (nodes h))) (Option.bind v vy_key) H)"
proof -
  let ?t = "nodes h"
  have io: "index_ok key H (inorder ?t)" and ic: "ho_in_cache (H i)" using assms(2,3) by (auto simp: hash_ok_def good_obj_def)
  have mem: "i \<in> set (concat (inorder ?t))" using assms(3) by (simp add: objs_def)
  then have iu: "i \<in> of_url key H (key (uk_url (ho_uk (H i)))) (inorder ?t)" by (simp add: of_url_def)
  show ?thesis
  proof (cases "vary_by (uk_vary (ho_uk (H i))) = vary_by v")
    case True
    have "vary_by (uk_vary (ho_uk (H j))) = vary_by v" if "j \<in> of_url key H (key (uk_url (ho_uk (H i)))) (inorder ?t)" for j
      using of_url_vary [OF io that iu] True by simp
    then have "stale key H i v (inorder ?t) = {}" by (auto simp: stale_def)
    then show ?thesis using True assms(4) ic by (simp add: UpdateCache_def cmp_vary_key_zero flip: v_def)
  next
    case False
    obtain node m where f: "find_node url_cmp H (ho_uk (H i)) ?t 0 None = (Some node, m)" using find_member [OF assms(1) io mem] by auto
    obtain xs c ys l r where m: "m = Some (length xs, ONode l c r)" and t: "inorder ?t = xs @ c # ys"
      and k: "key (uk_url (ho_uk (H (hd c)))) = key (uk_url (ho_uk (H i)))" using find_url [OF assms(1) io f] iu by blast
    have "hd c \<in> of_url key H (key (uk_url (ho_uk (H i)))) (inorder ?t)"
      using k hd_in_index [OF io, of c] t by (simp add: of_url_def)
    then have hc: "vary_by (uk_vary (ho_uk (H (hd c)))) \<noteq> vary_by v" using of_url_vary [OF io _ iu] False by metis
    have "InternalUpdateVary url_cmp ?t (length xs) v H = Some (upd_set (stale key H i v (inorder ?t)) (Option.bind v vy_key) H)"
      using insert_heap [OF assms(1) io f, of v] m t hc by (simp add: cmp_vary_key_zero)
    then show ?thesis using False assms(4) ic f m by (simp add: UpdateCache_def UpdateVary_def cmp_vary_key_zero flip: v_def)
  qed
qed

text \<open>One object is replaced by another of its key.\<close>

lemma hash_ok_one:
  assumes "hash_ok key h H" "i \<in> objs h" "ho_uk ob = ho_uk (H i)" "good_obj ob" "nodes h' = nodes h"
    "mem_size h' = mem_size h - mem_of (H i) + mem_of ob" "mem_count h' = mem_count h - cnt (ho_in_mem (H i)) + cnt (ho_in_mem ob)"
    "disk_size h' = disk_size h - disk_of (H i) + disk_of ob" "disk_count h' = disk_count h - cnt (ho_in_disk (H i)) + cnt (ho_in_disk ob)"
  shows "hash_ok key h' (H(i := ob))"
proof -
  have "index_ok key (H(i := ob)) (inorder (nodes h'))"
    using assms(1) unfolding assms(5) hash_ok_def by (elim conjE index_ok_cong) (simp add: assms(3))
  moreover have ob: "objs h' = objs h" using assms(5) by (simp add: objs_def)
  moreover have "sizes_ok h' (H(i := ob))"
    using assms(1) assms(6-9) sum_one_changed [OF finite_objs assms(2), of mem_of H ob] sum_one_changed [OF finite_objs assms(2), of disk_of H ob]
      sum_one_changed [OF finite_objs assms(2), of "\<lambda>ob. cnt (ho_in_mem ob)" H ob]
      sum_one_changed [OF finite_objs assms(2), of "\<lambda>ob. cnt (ho_in_disk ob)" H ob]
    by (simp add: hash_ok_def sizes_ok_def ob)
  ultimately show ?thesis using assms(1,4) by (simp add: hash_ok_def)
qed

lemma swapped_in_ok:
  assumes "hash_ok key h H" "i \<in> objs h" "\<not> ho_in_mem (H i)" "swapped_in i good busy h H = (h', H')"
  shows "hash_ok key h' H'"
proof -
  let ?ob = "if good then (H i)\<lparr>ho_memory_object := True, ho_in_mem := True\<rparr>
    else if \<not> busy then (H i)\<lparr>ho_dead := True, ho_memory_object := False\<rparr> else (H i)\<lparr>ho_memory_object := False\<rparr>"
  have g: "good_obj (H i)" using assms(1,2) by (simp add: hash_ok_def)
  have h: "h' = (if good then IncMemObjectSize ?ob h else h)" "H' = H(i := ?ob)"
    using assms(4) by (auto simp: swapped_in_def Let_def split: if_splits)
  show ?thesis unfolding h(2)
    by (rule hash_ok_one [OF assms(1,2)])
      (use g assms(3) in \<open>simp_all add: h(1) good_obj_def IncMemObjectSize_def mem_of_def disk_of_def cnt_def GetDiskSize_def\<close>)
qed

lemma set_size_ok:
  assumes "hash_ok key h H" "i \<in> objs h" "ho_in_mem (H i)" "ho_memory_object (H i)" "\<not> ho_in_disk (H i)" "0 \<le> n"
  shows "\<exists>h' H'. MemObjectSizeChange i n h H = Some (h', H') \<and> hash_ok key h' H' \<and> objs h' = objs h"
proof -
  let ?h = "h\<lparr>mem_size := mem_size h + n - ho_content_length (H i)\<rparr>" and ?ob = "(H i)\<lparr>ho_content_length := n\<rparr>"
  have g: "good_obj (H i)" using assms(1,2) by (simp add: hash_ok_def)
  have "hash_ok key ?h (H(i := ?ob))"
    by (rule hash_ok_one [OF assms(1,2)])
      (use g assms(3-6) in \<open>simp_all add: good_obj_def mem_of_def disk_of_def cnt_def GetMemorySize_def\<close>)
  moreover have "objs ?h = objs h" by (simp add: objs_def)
  ultimately show ?thesis using assms(3) by (auto simp: MemObjectSizeChange_def)
qed

lemma swapped_out_ok:
  assumes "hash_ok key h H" "i \<in> objs h" "ho_in_mem (H i)"
  shows "\<exists>h' H'. swapped_out i leave h H = Some (h', H') \<and> hash_ok key h' H' \<and> objs h' = objs h"
proof -
  let ?h = "if ho_in_disk (H i) then h else IncDiskObjectSize (H i) h" and ?ob = "(H i)\<lparr>ho_in_disk := True\<rparr>"
  let ?H = "H(i := ?ob)"
  have g: "good_obj (H i)" using assms(1,2) by (simp add: hash_ok_def)
  have ok: "hash_ok key ?h ?H"
    by (rule hash_ok_one [OF assms(1,2)])
      (use g in \<open>simp_all add: good_obj_def IncDiskObjectSize_def mem_of_def disk_of_def cnt_def GetMemorySize_def GetDiskSize_def\<close>)
  have ob: "objs ?h = objs h" by (simp add: objs_def IncDiskObjectSize_def)
  show ?thesis
  proof (cases leave)
    case False
    then show ?thesis using ok ob by (auto simp: swapped_out_def Let_def)
  next
    case True
    let ?S = "objs h - {i}" and ?gone = "?ob\<lparr>ho_in_mem := False\<rparr>"
    have so: "sizes_ok ?h ?H" using ok by (simp add: hash_ok_def)
    have sum: "(\<Sum>j\<in>objs h. f (?H j)) = f ?ob + (\<Sum>j\<in>?S. f (?H j))" for f :: "_ \<Rightarrow> int" using assms(2) by (simp add: sum.remove)
    have gd: "good_obj (?H j)" if "j \<in> ?S" for j using ok that unfolding hash_ok_def ob by blast
    have d: "DecMemObjectSize ?ob ?h = Some (?h\<lparr>mem_size := (\<Sum>j\<in>?S. mem_of (?H j)), mem_count := (\<Sum>j\<in>?S. cnt (ho_in_mem (?H j)))\<rparr>)"
      (is "_ = Some ?h2")
      using DecMem_ok [of ?S ?H ?h ?ob, OF _ gd] so assms(3) sum [of mem_of] sum [of "\<lambda>ob. cnt (ho_in_mem ob)"]
      by (simp add: sizes_ok_def ob)
    have dg: "DecMemObjectSize ?gone ?h = DecMemObjectSize ?ob ?h" by (simp add: DecMemObjectSize_def GetMemorySize_def)
    let ?ob2 = "?gone\<lparr>ho_memory_object := False\<rparr>"
    have "hash_ok key ?h2 (?H(i := ?ob2))"
      by (rule hash_ok_one [OF ok])
        (use assms(2,3) ob g so sum [of mem_of] sum [of "\<lambda>ob. cnt (ho_in_mem ob)"] in
          \<open>simp_all add: sizes_ok_def good_obj_def mem_of_def [of "?ob2"] disk_of_def GetDiskSize_def cnt_def [of False] cnt_def [of True]\<close>)
    moreover have "objs ?h2 = objs h" using ob by (simp add: objs_def)
    moreover have "swapped_out i leave h H = Some (?h2, ?H(i := ?ob2))" using True dg d by (simp add: swapped_out_def Let_def)
    ultimately show ?thesis by blast
  qed
qed

section \<open>Runs\<close>

datatype 'u hash_event =
    Put nat "'u hash_obj"
  | Remove nat
  | Update nat "'u hash_obj"
  | Get "'u get_rq"
  | Purge 'u bool
  | SwapOut nat bool
  | SwapIn nat bool bool
  | SetSize nat int

fun hash_do ::
  "('u \<Rightarrow> 'u \<Rightarrow> int) \<Rightarrow> ('u \<Rightarrow> 'u \<Rightarrow> int) \<Rightarrow> rb_ops \<Rightarrow> vary_exts \<Rightarrow> 'u hash_event \<Rightarrow> ohash \<times> 'u oheap \<Rightarrow> (ohash \<times> 'u oheap) option" where
  "hash_do url_cmp url_cmpn rb varys (Put i ob) (h, H) = hash_put url_cmp rb i h (H(i := ob))"
| "hash_do url_cmp url_cmpn rb varys (Remove i) (h, H) = map_option (\<lambda>h. (h, H)) (hash_remove url_cmp rb i h H)"
| "hash_do url_cmp url_cmpn rb varys (Update i ob) (h, H) = map_option (Pair h) (UpdateCache url_cmp i ob h H)"
| "hash_do url_cmp url_cmpn rb varys (Get rq) (h, H) = map_option (\<lambda>(hit, rq, H). (h, H)) (hash_get url_cmp varys rq h H)"
| "hash_do url_cmp url_cmpn rb varys (Purge url wide) (h, H) = Some (h, snd (hash_purge url_cmp url_cmpn url wide handle_purge_object h H))"
| "hash_do url_cmp url_cmpn rb varys (SwapOut i leave) (h, H) = swapped_out i leave h H"
| "hash_do url_cmp url_cmpn rb varys (SwapIn i good busy) (h, H) = Some (swapped_in i good busy h H)"
| "hash_do url_cmp url_cmpn rb varys (SetSize i n) (h, H) = MemObjectSizeChange i n h H"

text \<open>
  What the callers keep to: a new object is put once, with the reference of its request; only objects of the index are
  removed, updated and swapped; what is written out is in memory, what is read in is not; the length of a body changes
  while it is only in memory; and khttpd finds headers without regard to case.
\<close>

fun event_ok :: "'u hash_event \<Rightarrow> ohash \<times> 'u oheap \<Rightarrow> bool" where
  "event_ok (Put i ob) (h, H) = (i \<notin> objs h \<and> good_obj ob \<and> ho_refs ob = 1)"
| "event_ok (Remove i) (h, H) = (i \<in> objs h)"
| "event_ok (Update i ob) (h, H) = (i \<in> objs h \<and> \<not> ho_in_cache ob)"
| "event_ok (Get rq) (h, H) = no_case (gr_header rq)"
| "event_ok (Purge url wide) (h, H) = True"
| "event_ok (SwapOut i leave) (h, H) = (i \<in> objs h \<and> ho_in_mem (H i))"
| "event_ok (SwapIn i good busy) (h, H) = (i \<in> objs h \<and> \<not> ho_in_mem (H i))"
| "event_ok (SetSize i n) (h, H) = (i \<in> objs h \<and> ho_in_mem (H i) \<and> ho_memory_object (H i) \<and> \<not> ho_in_disk (H i) \<and> 0 \<le> n)"

fun hash_run where
  "hash_run url_cmp url_cmpn rb varys [] s = Some s"
| "hash_run url_cmp url_cmpn rb varys (e # es) s = Option.bind (hash_do url_cmp url_cmpn rb varys e s) (hash_run url_cmp url_cmpn rb varys es)"

text \<open>Each event is one its caller may make in the state it is made in.\<close>

fun run_allowed where
  "run_allowed url_cmp url_cmpn rb varys [] s = True"
| "run_allowed url_cmp url_cmpn rb varys (e # es) s =
     (event_ok e s \<and> (case hash_do url_cmp url_cmpn rb varys e s of None \<Rightarrow> True | Some s' \<Rightarrow> run_allowed url_cmp url_cmpn rb varys es s'))"

lemma purge_same_place:
  assumes "url_order url_cmp key" "prefix_order url_cmpn key" "index_ok key H (inorder (nodes h))"
  shows "same_place (H j) (snd (hash_purge url_cmp url_cmpn url wide handle_purge_object h H) j)"
proof -
  have e: "same_place (H j) (if b then obj_Dead (H j) else H j)" for b by (simp add: same_place_def obj_Dead_def)
  show ?thesis unfolding hash_purge_dead [OF assms] snd_conv by (rule e)
qed

lemma event_kept:
  assumes "url_order url_cmp key" "prefix_order url_cmpn key" "rb_laws rb" "hash_ok key h H" "event_ok e (h, H)"
  shows "\<exists>h' H'. hash_do url_cmp url_cmpn rb varys e (h, H) = Some (h', H') \<and> hash_ok key h' H'"
proof -
  have io: "index_ok key H (inorder (nodes h))" and go: "\<forall>j\<in>objs h. good_obj (H j)" using assms(4) by (simp_all add: hash_ok_def)
  show ?thesis
  proof (cases e)
    case (Put i ob)
    have ni: "i \<notin> objs h" using Put assms(5) by simp
    have "hash_ok key h (H(i := ob))"
    proof (rule hash_ok_same_place [OF assms(4)])
      show "same_place (H j) ((H(i := ob)) j)" if "j \<in> objs h" for j using ni that by (cases "j = i") simp_all
    qed
    from hash_put_ok [OF assms(1,3) this, of i] Put assms(5) show ?thesis by auto
  next
    case (Remove i)
    then show ?thesis using hash_remove_ok [OF assms(1,3,4), of i] assms(5) by auto
  next
    case (Update i ob)
    then show ?thesis using UpdateCache_ok [OF assms(1,4), of i ob] hash_ok_upd [OF assms(4)] assms(5) by auto
  next
    case (Get rq)
    have "\<forall>j\<in>set (concat (inorder (nodes h))). ho_in_cache (H j)" using go by (simp add: good_obj_def objs_def)
    from hash_get_ok [OF assms(1) io _ this, of rq varys] Get assms(5) obtain hit rq' H' where
      "hash_get url_cmp varys rq h H = Some (hit, rq', H')" "\<And>j. same_place (H j) (H' j)" by auto
    then show ?thesis using hash_ok_same_place [OF assms(4), of H'] Get by simp
  next
    case (Purge url wide)
    then show ?thesis using hash_ok_same_place [OF assms(4) purge_same_place [OF assms(1,2) io]] by simp
  next
    case (SwapOut i leave)
    then show ?thesis using swapped_out_ok [OF assms(4), of i leave] assms(5) by auto
  next
    case (SwapIn i good busy)
    then show ?thesis using swapped_in_ok [OF assms(4), of i good busy] assms(5) by (cases "swapped_in i good busy h H") auto
  next
    case (SetSize i n)
    then show ?thesis using set_size_ok [OF assms(4), of i n] assms(5) by auto
  qed
qed

lemma run_kept:
  assumes "url_order url_cmp key" "prefix_order url_cmpn key" "rb_laws rb"
  shows "hash_ok key h H \<Longrightarrow> run_allowed url_cmp url_cmpn rb varys es (h, H) \<Longrightarrow>
    \<exists>h' H'. hash_run url_cmp url_cmpn rb varys es (h, H) = Some (h', H') \<and> hash_ok key h' H'"
proof (induction es arbitrary: h H)
  case (Cons e es)
  then obtain h' H' where "hash_do url_cmp url_cmpn rb varys e (h, H) = Some (h', H')" "hash_ok key h' H'"
    using event_kept [OF assms] by (metis run_allowed.simps(2))
  then show ?case using Cons.IH [of h' H'] Cons.prems(2) by simp
qed simp

lemma new_hash_ok: "hash_ok key new_ohash H"
  by (simp add: hash_ok_def new_ohash_def index_ok_def chains_sorted_def one_vary_def sizes_ok_def objs_def)

lemma AddVary_own:
  "AddVary varys rq val ob = (True, ob', rq0) \<Longrightarrow>
   \<exists>v. uk_vary (ho_uk ob') = Some \<lparr>vy_key = Some val, vy_val = Some v\<rparr> \<and> fst (rq_build_vary varys rq val) = Some v"
  by (auto simp: AddVary_def split: if_splits prod.splits option.splits)

lemma hash_ok_in_cache: "hash_ok key h H \<Longrightarrow> \<forall>j\<in>set (concat (inorder (nodes h))). ho_in_cache (H j)"
  by (simp add: hash_ok_def good_obj_def objs_def)

section \<open>An example\<close>

text \<open>Addresses are strings, compared as strings; a node is erased by building the tree anew.\<close>

definition example_cmpn :: "string \<Rightarrow> string \<Rightarrow> int" where
  "example_cmpn u b = strcmp u (take (length u) b)"

definition example_rb :: rb_ops where
  "example_rb = \<lparr>rb_insert_color = \<lambda>t. t,
     rb_erase = \<lambda>p t. foldr (\<lambda>c t. ONode OLeaf c t) (take p (inorder t) @ drop (Suc p) (inorder t)) OLeaf\<rparr>"

definition example_rq :: "string get_rq" where
  "example_rq = \<lparr>gr_url = ''/a'', gr_header = \<lambda>n. if strcase_eq n ''lang'' then Some ''en'' else None, gr_min_verified = 0,
     gr_internal = False, gr_accepts = \<lambda>u. True, gr_no_disk = False, gr_no_cache = False\<rparr>"

definition example_obj :: "string \<Rightarrow> vary option \<Rightarrow> nat \<Rightarrow> string hash_obj" where
  "example_obj u v enc = \<lparr>ho_uk = \<lparr>uk_url = u, uk_vary = v\<rparr>, ho_dead = False, ho_in_mem = True, ho_in_disk = False, ho_internal = False,
     ho_memory_object = True, ho_last_verified = 0, ho_encoding = enc, ho_head_size = 10, ho_content_length = 5, ho_refs = 1, ho_in_cache = True\<rparr>"

definition example_heap :: "string oheap" where
  "example_heap = (\<lambda>j. if j = 0 then example_obj ''/a'' None 1 else if j = 1 then example_obj ''/a'' None 2
     else if j = 2 then example_obj ''/a'' (Some \<lparr>vy_key = Some ''Lang'', vy_val = Some (''en'' @ [CHR 0x0A])\<rparr>) 0
     else example_obj ''/ab'' None 0)"

definition example_hash :: ohash where
  "example_hash = \<lparr>nodes = ONode OLeaf [0, 1] OLeaf, mem_size = 30, disk_size = 0, mem_count = 2, disk_count = 0\<rparr>"

lemma example_order: "url_order strcmp (\<lambda>u :: string. u)"
  using strcmp_sign by (auto simp: url_order_def)

lemma take_mono: "a \<le> b \<Longrightarrow> take n a \<le> take n (b :: string)"
proof (induction a arbitrary: b n)
  case (Cons x a)
  then show ?case by (cases b; cases n) auto
qed simp

lemma strcmp_antitone:
  assumes "x \<le> y"
  shows "sgn (strcmp u y) \<le> sgn (strcmp u x)"
proof -
  consider "u < x" "u < y" | "u = x" "u \<le> y" | "x < u" using assms by (metis linorder_less_linear order.strict_trans2)
  then show ?thesis by cases (auto simp: strcmp_def)
qed

lemma example_prefix: "prefix_order example_cmpn (\<lambda>u :: string. u)"
  unfolding prefix_order_def example_cmpn_def by (intro allI impI strcmp_antitone take_mono)

lemma inorder_foldr: "inorder (foldr (\<lambda>c t. ONode OLeaf c t) cs OLeaf) = cs"
  by (induction cs) simp_all

lemma example_rb_laws: "rb_laws example_rb"
  by (simp add: rb_laws_def example_rb_def inorder_foldr del: foldr_append)

lemma example_no_case: "no_case (gr_header example_rq)"
  by (simp add: no_case_def example_rq_def strcase_eq_def)

lemma example_field: "field_loop (CHR '','') ''Lang'' [] = [\<lparr>hf_attr = ''Lang'', hf_val = None\<rparr>]"
  by (subst field_loop.simps) (simp add: field_loop.simps [of _ "[]"] field_parse_def after_name_def Let_def is_space_def)

lemma example_case: "strcase_eq ''Lang'' ''lang''" "\<not> strcase_eq ''Lang'' ''Accept-Encoding''"
  by code_simp+

lemma example_hash_ok: "hash_ok (\<lambda>u :: string. u) example_hash example_heap"
  by (simp add: hash_ok_def index_ok_def chains_sorted_def chain_ok_def one_vary_def sizes_ok_def objs_def good_obj_def example_hash_def
      example_heap_def example_obj_def mem_of_def disk_of_def cnt_def GetMemorySize_def ckey_def okey_def)

section \<open>What the index promises\<close>

text \<open>C2.
  In every run of the index that starts empty and in which each caller does what it may do, no assertion fails and no null
  pointer is followed: objects are found where they were put, also when an address has changed the headers it varies by in
  between. Afterwards the nodes are sorted by address and values of headers, no object is linked twice, all objects of an
  address vary by the same headers, and the counters are the numbers and sizes of the objects in memory and on disk.
\<close>

theorem cache_index_run:
  assumes "url_order url_cmp key" "prefix_order url_cmpn key" "rb_laws rb" "run_allowed url_cmp url_cmpn rb varys es (new_ohash, H)"
  shows "\<exists>h' H'. hash_run url_cmp url_cmpn rb varys es (new_ohash, H) = Some (h', H') \<and>
    chains_sorted key H' (inorder (nodes h')) \<and> distinct (concat (inorder (nodes h'))) \<and> one_vary key H' (objs h') \<and> sizes_ok h' H'"
  using run_kept [OF assms(1-3) new_hash_ok assms(4)] unfolding hash_ok_def index_ok_def objs_def by blast

definition example_events :: "string hash_event list" where
  "example_events = [Put 0 (example_heap 0), Put 2 (example_heap 2), Get example_rq, SwapOut 2 True, Remove 0, Purge ''/'' True]"

theorem cache_index_run_witness:
  "run_allowed strcmp example_cmpn example_rb [] example_events (new_ohash, example_heap) \<and>
   (\<exists>h' H'. hash_run strcmp example_cmpn example_rb [] example_events (new_ohash, example_heap) = Some (h', H') \<and>
      chains_sorted (\<lambda>u. u) H' (inorder (nodes h')) \<and> distinct (concat (inorder (nodes h'))) \<and> one_vary (\<lambda>u. u) H' (objs h') \<and> sizes_ok h' H')"
proof -
  have a: "run_allowed strcmp example_cmpn example_rb [] example_events (new_ohash, example_heap)"
    using example_no_case example_case
    by (simp add: example_events_def hash_get_def BuildVary_def rq_build_vary_def build_vary_def example_field example_rq_def KGL_VARY_EXTEND_CHAR_def
        get_object_def hash_remove_def swapped_out_def IncDiskObjectSize_def DecMemObjectSize_def GetMemorySize_def GetDiskSize_def objs_def new_ohash_def good_obj_def hash_put_def hash_insert_def example_heap_def example_obj_def
        cmp_url_key_def cmp_vary_def cmp_vary_key_def cmp_null_def strcmp_def example_rb_def CountSize_def Let_def InternalUpdateVary_def
        update_url_vary_key_def obj_Dead_def osize_def)
  show ?thesis using a cache_index_run [OF example_order example_prefix example_rb_laws a] by blast
qed

text \<open>C10.
  A lookup returns the best object there is: one with the address of the request, whose stored values are those the request
  has for the headers the object varies by, which is alive, young enough, of the right kind and of an encoding the client
  takes, and no other such object has a better encoding. It returns nothing only when there is no such object.
\<close>

theorem cache_get_best:
  assumes "url_order url_cmp key" "hash_ok key h H" "no_case (gr_header rq)"
  shows "\<exists>hit rq' H'. hash_get url_cmp varys rq h H = Some (hit, rq', H') \<and>
    (let found = {j \<in> objs h. key (uk_url (ho_uk (H j))) = key (gr_url rq) \<and>
                    vary_val (ho_uk (H j)) = fst (BuildVary varys rq (H j)) \<and> usable rq (H j)} in
     (case hit of
        None \<Rightarrow> found = {}
      | Some i \<Rightarrow> i \<in> found \<and> (\<forall>j\<in>found. ho_encoding (H j) \<le> ho_encoding (H i)) \<and> ho_refs (H' i) = ho_refs (H i) + 1))"
proof -
  have io: "index_ok key H (inorder (nodes h))" using assms(2) by (simp add: hash_ok_def)
  obtain hit rq' H' where g: "hash_get url_cmp varys rq h H = Some (hit, rq', H')"
    "get_result rq H (matching varys key rq H (inorder (nodes h))) hit"
    "\<And>j. ho_refs (H' j) = ho_refs (H j) + (if hit = Some j then 1 else 0)"
    using hash_get_ok [OF assms(1) io assms(3) hash_ok_in_cache [OF assms(2)]] by blast
  show ?thesis
    by (rule exI [of _ hit], rule exI [of _ rq'], rule exI [of _ H'])
      (use g in \<open>auto simp: get_result_def matching_def of_url_def objs_def Let_def split: option.splits\<close>)
qed

theorem cache_get_best_witness:
  "\<exists>rq' H'. hash_get strcmp [] example_rq example_hash example_heap = Some (Some 1, rq', H') \<and> ho_refs (H' 1) = 2"
proof -
  obtain hit rq' H' where g: "hash_get strcmp [] example_rq example_hash example_heap = Some (hit, rq', H')" and
    r: "let found = {j \<in> objs example_hash. uk_url (ho_uk (example_heap j)) = gr_url example_rq \<and>
          vary_val (ho_uk (example_heap j)) = fst (BuildVary [] example_rq (example_heap j)) \<and> usable example_rq (example_heap j)} in
     (case hit of
        None \<Rightarrow> found = {}
      | Some i \<Rightarrow> i \<in> found \<and> (\<forall>j\<in>found. ho_encoding (example_heap j) \<le> ho_encoding (example_heap i)) \<and>
          ho_refs (H' i) = ho_refs (example_heap i) + 1)"
    using cache_get_best [OF example_order example_hash_ok example_no_case, of "[]"] by blast
  have "{j \<in> objs example_hash. uk_url (ho_uk (example_heap j)) = gr_url example_rq \<and>
          vary_val (ho_uk (example_heap j)) = fst (BuildVary [] example_rq (example_heap j)) \<and> usable example_rq (example_heap j)} = {0, 1}"
    by (auto simp: objs_def example_hash_def example_heap_def example_obj_def example_rq_def vary_val_def BuildVary_def usable_def)
  note r = r [unfolded this Let_def]
  have e: "ho_encoding (example_heap 0) = 1" "ho_encoding (example_heap 1) = 2" "ho_refs (example_heap 1) = 1"
    by (simp_all add: example_heap_def example_obj_def)
  have "hit = Some 1 \<and> ho_refs (H' 1) = 2"
  proof (cases hit)
    case (Some i)
    then have "i = 0 \<or> i = 1" "ho_encoding (example_heap 1) \<le> ho_encoding (example_heap i)" "ho_refs (H' i) = ho_refs (example_heap i) + 1"
      using r by simp_all
    then show ?thesis using Some e by auto
  qed (use r in simp)
  then show ?thesis using g by blast
qed

text \<open>C38.
  What was put is found: after an object was put that does not vary, or that varies by what the request had when it was
  made, a lookup of its address with the same headers returns an object, of an encoding at least as good, unless the
  object is not one the request can use. This holds also when the address varied by other headers before.
\<close>

theorem cache_put_get:
  assumes "url_order url_cmp key" "rb_laws rb" "hash_ok key h H" "i \<notin> objs h" "good_obj (H i)" "ho_refs (H i) = 1"
    "uk_url (ho_uk (H i)) = gr_url rq" "uk_vary (ho_uk (H i)) = None \<or> (\<exists>val ob rq0. AddVary varys rq val ob = (True, H i, rq0))"
    "usable rq (H i)" "no_case (gr_header rq)"
  shows "\<exists>h' H' j rq' H''. hash_put url_cmp rb i h H = Some (h', H') \<and> hash_get url_cmp varys rq h' H' = Some (Some j, rq', H'') \<and>
    usable rq (H' j) \<and> key (uk_url (ho_uk (H' j))) = key (gr_url rq) \<and> vary_val (ho_uk (H' j)) = vary_val (ho_uk (H i)) \<and>
    ho_encoding (H i) \<le> ho_encoding (H' j)"
proof -
  let ?G = "H(i := (H i)\<lparr>ho_refs := 2\<rparr>)"
  let ?H = "upd_set (stale key ?G i (uk_vary (ho_uk (H i))) (inorder (nodes h))) (Option.bind (uk_vary (ho_uk (H i))) vy_key) ?G"
  obtain h' where p: "hash_put url_cmp rb i h H = Some (h', ?H)" "hash_ok key h' ?H" "objs h' = insert i (objs h)"
    using hash_put_ok [OF assms(1-6)] by blast
  have "i \<notin> stale key ?G i (uk_vary (ho_uk (H i))) (inorder (nodes h))" using assms(4) by (simp add: stale_def of_url_def objs_def)
  then have Hi: "?H i = (H i)\<lparr>ho_refs := 2\<rparr>" by (simp add: upd_set_other)
  have io: "index_ok key ?H (inorder (nodes h'))" using p(2) by (simp add: hash_ok_def)
  have own: "vary_val (ho_uk (?H i)) = fst (BuildVary varys rq (?H i))" unfolding Hi
    using assms(8) AddVary_own [of varys rq] by (fastforce simp: vary_val_def BuildVary_def)
  have iu: "i \<in> of_url key ?H (key (gr_url rq)) (inorder (nodes h'))"
    using p(3) assms(7) Hi by (auto simp: of_url_def objs_def)
  then have im: "i \<in> matching varys key rq ?H (inorder (nodes h'))" using own by (simp add: matching_def)
  have us: "usable rq (?H i)" using assms(9) by (simp add: Hi usable_def)
  obtain hit rq' H'' where g: "hash_get url_cmp varys rq h' ?H = Some (hit, rq', H'')"
    "get_result rq ?H (matching varys key rq ?H (inorder (nodes h'))) hit"
    using hash_get_ok [OF assms(1) io assms(10) hash_ok_in_cache [OF p(2)]] by blast
  then obtain j where j: "hit = Some j" "j \<in> matching varys key rq ?H (inorder (nodes h'))" "usable rq (?H j)"
    "ho_encoding (?H i) \<le> ho_encoding (?H j)" using im us by (cases hit) (auto simp: get_result_def)
  then have ju: "j \<in> of_url key ?H (key (gr_url rq)) (inorder (nodes h'))" and jv: "vary_val (ho_uk (?H j)) = fst (BuildVary varys rq (?H j))"
    by (simp_all add: matching_def)
  have "BuildVary varys rq (?H j) = BuildVary varys rq (?H i)" by (rule BuildVary_by [OF assms(10) of_url_vary [OF io ju iu]])
  then have "vary_val (ho_uk (?H j)) = vary_val (ho_uk (H i))" using jv own Hi by simp
  moreover have "key (uk_url (ho_uk (?H j))) = key (gr_url rq)" using ju by (simp add: of_url_def)
  moreover have "ho_encoding (H i) \<le> ho_encoding (?H j)" using j(4) Hi by simp
  ultimately show ?thesis using p(1) g(1) j(1,3) by blast
qed

theorem cache_put_get_witness:
  "\<exists>h' H' j rq' H''. hash_put strcmp example_rb 2 example_hash example_heap = Some (h', H') \<and>
     hash_get strcmp [] example_rq h' H' = Some (Some j, rq', H'') \<and> vary_val (ho_uk (H' j)) = Some (''en'' @ [CHR 0x0A])"
proof -
  have add: "AddVary [] example_rq ''Lang'' (example_obj ''/a'' None 0) = (True, example_heap 2, example_rq)"
    using example_case by (simp add: AddVary_def rq_build_vary_def build_vary_def example_field example_rq_def example_heap_def example_obj_def KGL_VARY_EXTEND_CHAR_def)
  have "2 \<notin> objs example_hash" "good_obj (example_heap 2)" "ho_refs (example_heap 2) = 1" "uk_url (ho_uk (example_heap 2)) = gr_url example_rq"
    "usable example_rq (example_heap 2)" "vary_val (ho_uk (example_heap 2)) = Some (''en'' @ [CHR 0x0A])"
    by (simp_all add: objs_def example_hash_def example_heap_def example_obj_def example_rq_def good_obj_def usable_def vary_val_def)
  then show ?thesis
    using cache_put_get [OF example_order example_rb_laws example_hash_ok, of 2 example_rq "[]"] add example_no_case by metis
qed

text \<open>C39.
  A purge of an address kills exactly the objects of the address, whatever they vary by, and a wide purge exactly the
  objects whose addresses begin with it; it returns how many of them were alive, and leaves every other object as it was.
\<close>

theorem cache_purge_exact:
  assumes "url_order url_cmp key" "prefix_order url_cmpn key" "hash_ok key h H"
  shows "let S = {j \<in> objs h. (if wide then url_cmpn url (uk_url (ho_uk (H j))) = 0 else key (uk_url (ho_uk (H j))) = key url)};
    (n, H') = hash_purge url_cmp url_cmpn url wide handle_purge_object h H in
    n = card {j \<in> S. \<not> ho_dead (H j)} \<and> (\<forall>j\<in>S. ho_dead (H' j)) \<and> (\<forall>j. j \<notin> S \<or> ho_dead (H j) \<longrightarrow> H' j = H j)"
proof -
  have io: "index_ok key H (inorder (nodes h))" using assms(3) by (simp add: hash_ok_def)
  have "url_cmp u url = 0 \<longleftrightarrow> key u = key url" for u using assms(1) by (simp add: url_order_def)
  then have S: "{j \<in> set (concat (inorder (nodes h))). purged_by url_cmp url_cmpn url wide (uk_url (ho_uk (H j))) \<and> \<not> ho_dead (H j)} =
    {j \<in> {j \<in> objs h. (if wide then url_cmpn url (uk_url (ho_uk (H j))) = 0 else key (uk_url (ho_uk (H j))) = key url)}. \<not> ho_dead (H j)}"
    by (auto simp: objs_def purged_by_def)
  show ?thesis unfolding hash_purge_dead [OF assms(1,2) io] S by (auto simp: obj_Dead_def)
qed

theorem cache_purge_exact_witness:
  "fst (hash_purge strcmp example_cmpn ''/a'' False handle_purge_object example_hash example_heap) = 2"
proof -
  have "{j \<in> objs example_hash. uk_url (ho_uk (example_heap j)) = ''/a'' \<and> \<not> ho_dead (example_heap j)} = {0, 1}"
    by (auto simp: objs_def example_hash_def example_heap_def example_obj_def)
  then show ?thesis
    using cache_purge_exact [OF example_order example_prefix example_hash_ok, of False "''/a''"] by (simp add: Let_def split: prod.splits)
qed

end
