(* ===== verification/Disk_Object.thy ===== *)
theory Disk_Object
  imports Byte_Stream
begin

text \<open>
  Files of the disk cache: \<^verbatim>\<open>src/KDiskCache.cpp\<close>, and what \<^verbatim>\<open>src/KHttpObject.cpp\<close> and \<^verbatim>\<open>src/KHttpObjectSwaping.cpp\<close> do
  to write the head of an object, to read it back with the body, and to find the objects again after a restart.

  A file begins with a packed structure, followed by the address, the headers and the validator of the object, each
  text behind its length, and zeros up to the alignment of direct I/O. A pointer into a buffer is the bytes from there
  to the end of the buffer, with the counter \<^verbatim>\<open>hotlen\<close> beside it as in the code: reading behind the end is \<open>None\<close>.
  The attribute word of a header and the alignment belong to khttpd and kasync: \<open>attr_ops\<close> and \<open>align\<close>.
\<close>

unbundle bit_operations_syntax

section \<open>Bytes of numbers\<close>

definition le16 :: "u16 \<Rightarrow> u8 list" where
  "le16 w = [ucast w, ucast (drop_bit 8 w)]"

definition le32 :: "u32 \<Rightarrow> u8 list" where
  "le32 w = rev (be32 w)"

type_synonym u64 = "64 word"

definition le64 :: "u64 \<Rightarrow> u8 list" where
  "le64 w = le32 (ucast w) @ le32 (ucast (drop_bit 32 w))"

definition of_le32 :: "u8 list \<Rightarrow> u32" where
  "of_le32 bs = of_be32 (bs ! 3) (bs ! 2) (bs ! 1) (bs ! 0)"

definition of_le64 :: "u8 list \<Rightarrow> u64" where
  "of_le64 bs = ucast (of_le32 (take 4 bs)) OR push_bit 32 (ucast (of_le32 (drop 4 bs)))"

type_synonym cursor = "u8 list \<times> int"

definition mem_take :: "nat \<Rightarrow> u8 list \<Rightarrow> (u8 list \<times> u8 list) option" where
  "mem_take n hot = (if n \<le> length hot then Some (take n hot, drop n hot) else None)"

section \<open>Strings behind their length\<close>

definition dc_write_string :: "u8 list \<Rightarrow> u8 list" where
  "dc_write_string str = le32 (of_nat (length str)) @ str"

definition dc_skip_string :: "cursor \<Rightarrow> (bool \<times> cursor) option" where
  "dc_skip_string = (\<lambda>(hot, hotlen).
     if hotlen < 4 then Some (False, hot, hotlen)
     else
       (case mem_take 4 hot of
          None \<Rightarrow> None
        | Some (bs, hot) \<Rightarrow>
            let len = sint (of_le32 bs); hotlen = hotlen - 4 in
            if len < 0 \<or> len > 131072 \<or> hotlen < len then Some (False, hot, hotlen)
            else (case mem_take (nat len) hot of None \<Rightarrow> None | Some (_, hot) \<Rightarrow> Some (True, hot, hotlen - len))))"

text \<open>The string, or a null pointer, and the length, \<open>- 1\<close> for an error.\<close>

definition dc_read_string :: "cursor \<Rightarrow> ((u8 list option \<times> int) \<times> cursor) option" where
  "dc_read_string = (\<lambda>(hot, hotlen).
     if hotlen < 4 then Some ((None, - 1), hot, hotlen)
     else
       (case mem_take 4 hot of
          None \<Rightarrow> None
        | Some (bs, hot) \<Rightarrow>
            let len = sint (of_le32 bs); hotlen = hotlen - 4 in
            if len < 0 \<or> len > 131072 then Some ((None, - 1), hot, hotlen)
            else if hotlen < len then Some ((None, - 1), hot, hotlen)
            else if len = 0 then Some ((None, 0), hot, hotlen)
            else (case mem_take (nat len) hot of None \<Rightarrow> None | Some (buf, hot) \<Rightarrow> Some ((Some buf, len), hot, hotlen - len))))"

section \<open>The structure at the front\<close>

record dc_index =
  dx_head_size :: u32
  dx_flags :: u32
  dx_content_length :: u64
  dx_last_verified :: u64

text \<open>\<open>bd_bits\<close> holds \<^verbatim>\<open>has_condition\<close> and \<^verbatim>\<open>condition_is_time\<close>, the two lowest bits, and six reserved ones.\<close>

record body_data =
  bd_max_age :: u32
  bd_status_code :: u16
  bd_bits :: u8
  bd_type :: u8

definition has_condition :: "body_data \<Rightarrow> bool" where
  "has_condition b = bit (bd_bits b) 0"

definition condition_is_time :: "body_data \<Rightarrow> bool" where
  "condition_is_time b = bit (bd_bits b) 1"

record file_header =
  fh_fix_str :: "u8 list"
  fh_version :: u8
  fh_body_complete :: u8
  fh_url_flag_encoding :: u32
  fh_index :: dc_index
  fh_body :: body_data

definition CACHE_FIX_STR :: "u8 list" where "CACHE_FIX_STR = [0x48, 0x58, 0x4A, 0x57]"
definition CACHE_DISK_VERSION :: u8 where "CACHE_DISK_VERSION = 5"

definition sizeof_file_header :: nat where "sizeof_file_header = 44"

definition file_header_bytes :: "file_header \<Rightarrow> u8 list" where
  "file_header_bytes f =
     fh_fix_str f @ [fh_version f, fh_body_complete f, 0, 0] @ le32 (fh_url_flag_encoding f) @
     le32 (dx_head_size (fh_index f)) @ le32 (dx_flags (fh_index f)) @ le64 (dx_content_length (fh_index f)) @ le64 (dx_last_verified (fh_index f)) @
     le32 (bd_max_age (fh_body f)) @ le16 (bd_status_code (fh_body f)) @ [bd_bits (fh_body f), bd_type (fh_body f)]"

text \<open>Reading the structure through a pointer to the buffer.\<close>

definition cast_file_header :: "u8 list \<Rightarrow> file_header option" where
  "cast_file_header buf =
     (if length buf < sizeof_file_header then None
      else Some
        \<lparr>fh_fix_str = take 4 buf, fh_version = buf ! 4, fh_body_complete = buf ! 5, fh_url_flag_encoding = of_le32 (drop 8 buf),
         fh_index = \<lparr>dx_head_size = of_le32 (drop 12 buf), dx_flags = of_le32 (drop 16 buf),
           dx_content_length = of_le64 (take 8 (drop 20 buf)), dx_last_verified = of_le64 (take 8 (drop 28 buf))\<rparr>,
         fh_body = \<lparr>bd_max_age = of_le32 (drop 36 buf), bd_status_code = of_be16 (buf ! 41) (buf ! 40), bd_bits = buf ! 42, bd_type = buf ! 43\<rparr>\<rparr>)"

definition is_valide_dc_head_size :: "u32 \<Rightarrow> bool" where
  "is_valide_dc_head_size s \<longleftrightarrow> sizeof_file_header \<le> unat s \<and> unat s < 4048576"

definition is_valide_dc_sign :: "file_header \<Rightarrow> bool" where
  "is_valide_dc_sign f \<longleftrightarrow> fh_fix_str f = CACHE_FIX_STR \<and> fh_version f = CACHE_DISK_VERSION"

definition kgl_safe_copy_body_data :: "body_data \<Rightarrow> body_data \<Rightarrow> body_data" where
  "kgl_safe_copy_body_data d s = s\<lparr>bd_type := bd_type d\<rparr>"

section \<open>Objects\<close>

record attr_ops =
  name_is_know :: "u32 \<Rightarrow> bool"
  know_header :: "u32 \<Rightarrow> nat"
  name_len :: "u32 \<Rightarrow> nat"
  kgl_header_unknow :: nat
  MAX_HEADER_ATTR_VAL_SIZE :: nat

record kheader =
  kh_buf :: "u8 list"
  kh_name_attribute :: u32
  kh_val_offset :: nat
  kh_val_len :: nat

text \<open>The union of an entity tag and a time of modification; \<^verbatim>\<open>condition_is_time\<close> says which it is.\<close>

datatype validator = CTime u64 | CEtag "u8 list option"

fun has_validator :: "validator \<Rightarrow> bool" where
  "has_validator (CTime t) = (t \<noteq> 0)"
| "has_validator (CEtag e) = (e \<noteq> None)"

record obj_body =
  ob_i :: body_data
  ob_headers :: "kheader list"
  ob_validator :: validator

definition new_obj_body :: obj_body where
  "new_obj_body = \<lparr>ob_i = \<lparr>bd_max_age = 0, bd_status_code = 0, bd_bits = 0, bd_type = 0\<rparr>, ob_headers = [], ob_validator = CEtag None\<rparr>"

record disk_obj =
  do_index :: dc_index
  do_flag_encoding :: u32
  do_data :: obj_body

definition set_bits :: "(u8 \<Rightarrow> u8) \<Rightarrow> obj_body \<Rightarrow> obj_body" where
  "set_bits f b = b\<lparr>ob_i := (ob_i b)\<lparr>bd_bits := f (bd_bits (ob_i b))\<rparr>\<rparr>"

definition set_last_modified :: "u64 \<Rightarrow> obj_body \<Rightarrow> obj_body" where
  "set_last_modified t b =
     (if sint t \<le> 0 \<or> has_validator (ob_validator b) then b else (set_bits (set_bit 1) b)\<lparr>ob_validator := CTime t\<rparr>)"

definition set_etag :: "u8 list \<Rightarrow> obj_body \<Rightarrow> obj_body" where
  "set_etag v b =
     (if \<not> condition_is_time (ob_i b) \<and> has_validator (ob_validator b) then b
      else (set_bits (unset_bit 1) b)\<lparr>ob_validator := CEtag (Some v)\<rparr>)"

section \<open>Writing the head\<close>

definition header_out :: "kheader \<Rightarrow> u8 list" where
  "header_out h = dc_write_string (kh_buf h) @ le32 (kh_name_attribute h)"

definition validator_out :: "validator \<Rightarrow> u8 list" where
  "validator_out v = (case v of CTime t \<Rightarrow> if t \<noteq> 0 then le64 t else [] | CEtag None \<Rightarrow> [] | CEtag (Some e) \<Rightarrow> dc_write_string e)"

definition validator_size :: "obj_body \<Rightarrow> nat" where
  "validator_size b = (if condition_is_time (ob_i b) then 8 else 4 + (case ob_validator b of CEtag (Some e) \<Rightarrow> length e | _ \<Rightarrow> 0))"

text \<open>The size of the head is computed once; this is also where \<^verbatim>\<open>has_condition\<close> is set.\<close>

definition GetHeaderSize :: "(nat \<Rightarrow> nat) \<Rightarrow> nat \<Rightarrow> disk_obj \<Rightarrow> nat \<times> disk_obj" where
  "GetHeaderSize align url_len ob =
     (if dx_head_size (do_index ob) \<noteq> 0 then (unat (dx_head_size (do_index ob)), ob)
      else
        (let len = sizeof_file_header + url_len + 4 + (\<Sum>h\<leftarrow>ob_headers (do_data ob). 4 + kh_val_len h + kh_val_offset h + 4) + 4;
             v = ob_validator (do_data ob);
             len = (if has_validator v then len + validator_size (do_data ob) else len);
             data = set_bits (if has_validator v then set_bit 0 else unset_bit 0) (do_data ob);
             size = align len in
         (size, ob\<lparr>do_data := data, do_index := (do_index ob)\<lparr>dx_head_size := of_nat size\<rparr>\<rparr>)))"

definition write_file_header :: "bool \<Rightarrow> disk_obj \<Rightarrow> file_header" where
  "write_file_header big_object_progress ob =
     \<lparr>fh_fix_str = CACHE_FIX_STR, fh_version = CACHE_DISK_VERSION, fh_body_complete = (if big_object_progress then 0 else 1),
      fh_url_flag_encoding = do_flag_encoding ob, fh_index = do_index ob,
      fh_body = kgl_safe_copy_body_data \<lparr>bd_max_age = 0, bd_status_code = 0, bd_bits = 0, bd_type = 0\<rparr> (ob_i (do_data ob))\<rparr>"

text \<open>What is in the buffer of the size of the head afterwards; a head that does not fit is a failed assertion.\<close>

definition build_header :: "bool \<Rightarrow> u8 list \<Rightarrow> disk_obj \<Rightarrow> u8 list option" where
  "build_header big_object_progress url ob =
     (let out = file_header_bytes (write_file_header big_object_progress ob) @ dc_write_string url @
            concat (map header_out (ob_headers (do_data ob))) @ dc_write_string [] @ validator_out (ob_validator (do_data ob));
          size = unat (dx_head_size (do_index ob)) in
      if length out \<le> size then Some (out @ replicate (size - length out) 0) else None)"

section \<open>Reading the head\<close>

definition make_header :: "attr_ops \<Rightarrow> u32 \<Rightarrow> u8 list \<Rightarrow> kheader option" where
  "make_header ops a buf =
     (let buf_len = length buf in
      if \<not> name_is_know ops a then
        (if name_len ops a = 0 \<or> name_len ops a > MAX_HEADER_ATTR_VAL_SIZE ops \<or> buf_len \<le> name_len ops a \<or>
            buf_len - name_len ops a - 1 > MAX_HEADER_ATTR_VAL_SIZE ops then None
         else Some \<lparr>kh_buf = buf, kh_name_attribute = a, kh_val_offset = name_len ops a + 1, kh_val_len = buf_len - name_len ops a - 1\<rparr>)
      else if know_header ops a \<ge> kgl_header_unknow ops \<or> buf_len > MAX_HEADER_ATTR_VAL_SIZE ops then None
      else Some \<lparr>kh_buf = buf, kh_name_attribute = a, kh_val_offset = 0, kh_val_len = buf_len\<rparr>)"

text \<open>Behind the last header: the validator, and nothing but zeros of the alignment.\<close>

definition read_validator :: "obj_body \<Rightarrow> cursor \<Rightarrow> (bool \<times> obj_body \<times> cursor) option" where
  "read_validator b = (\<lambda>(hot, hotlen).
     if \<not> has_condition (ob_i b) then Some (True, b, hot, hotlen)
     else if condition_is_time (ob_i b) then
       (if hotlen < 8 then Some (False, b, hot, hotlen)
        else (case mem_take 8 hot of None \<Rightarrow> None | Some (t, hot) \<Rightarrow> Some (True, b\<lparr>ob_validator := CTime (of_le64 t)\<rparr>, hot, hotlen - 8)))
     else
       (case dc_read_string (hot, hotlen) of
          None \<Rightarrow> None
        | Some ((None, len), c) \<Rightarrow> Some (False, b, c)
        | Some ((Some e, len), c) \<Rightarrow> if len \<le> 0 then Some (False, b, c) else Some (True, set_etag e b, c)))"

definition read_padding :: "int \<Rightarrow> cursor \<Rightarrow> bool option" where
  "read_padding align_size = (\<lambda>(hot, hotlen).
     if hotlen \<ge> align_size then Some False
     else (case mem_take (nat hotlen) hot of None \<Rightarrow> None | Some (p, _) \<Rightarrow> Some (\<forall>x\<in>set p. x = 0)))"

lemma dc_read_string_less:
  assumes "dc_read_string (hot, hotlen) = Some ((Some buf, len), hot', hotlen')"
  shows "length hot' < length hot"
  using assms by (auto simp: dc_read_string_def mem_take_def Let_def split: if_splits)

function read_obj_head :: "attr_ops \<Rightarrow> int \<Rightarrow> obj_body \<Rightarrow> u8 list \<Rightarrow> int \<Rightarrow> (bool \<times> obj_body) option" where
  "read_obj_head ops align_size b hot hotlen =
     (case dc_read_string (hot, hotlen) of
        None \<Rightarrow> None
      | Some ((buf, buf_len), hot, hotlen) \<Rightarrow>
          if buf_len = - 1 then Some (False, b)
          else
            (case buf of
               None \<Rightarrow>
                 (case read_validator b (hot, hotlen) of
                    None \<Rightarrow> None
                  | Some (False, b, c) \<Rightarrow> Some (False, b)
                  | Some (True, b, c) \<Rightarrow> map_option (\<lambda>r. (r, b)) (read_padding align_size c))
             | Some str \<Rightarrow>
                 if hotlen < 4 then Some (False, b)
                 else
                   (case mem_take 4 hot of
                      None \<Rightarrow> None
                    | Some (a, hot) \<Rightarrow>
                        (case make_header ops (of_le32 a) str of
                           None \<Rightarrow> Some (False, b)
                         | Some h \<Rightarrow> read_obj_head ops align_size (b\<lparr>ob_headers := ob_headers b @ [h]\<rparr>) hot (hotlen - 4)))))"
  by pat_completeness auto
termination
proof (relation "measure (\<lambda>(ops, align_size, b, hot, hotlen). length hot)", goal_cases)
  case (2 ops align_size b hot hotlen)
  then show ?case using dc_read_string_less [of hot hotlen] by (fastforce simp: mem_take_def split: if_splits)
qed simp

declare read_obj_head.simps [simp del]

definition STATUS_OK :: u16 where "STATUS_OK = 200"

definition restore_header :: "attr_ops \<Rightarrow> int \<Rightarrow> u8 list \<Rightarrow> nat \<Rightarrow> obj_body \<Rightarrow> (bool \<times> obj_body) option" where
  "restore_header ops align_size buffer len b =
     (case cast_file_header buffer of
        None \<Rightarrow> None
      | Some f \<Rightarrow>
          if \<not> is_valide_dc_sign f then Some (False, b)
          else if len \<noteq> unat (dx_head_size (fh_index f)) then Some (False, b)
          else
            (case dc_skip_string (drop sizeof_file_header buffer, int len - int sizeof_file_header) of
               None \<Rightarrow> None
             | Some (False, c) \<Rightarrow> Some (False, b)
             | Some (True, hot, hotlen) \<Rightarrow>
                 let i = kgl_safe_copy_body_data (ob_i b) (fh_body f);
                     i = (if bd_status_code i = 0 then i\<lparr>bd_status_code := STATUS_OK\<rparr> else i) in
                 read_obj_head ops align_size (b\<lparr>ob_i := i\<rparr>) hot hotlen))"

section \<open>Numbers and strings come back\<close>

lemma length_le [simp]: "length (le16 w) = 2" "length (le32 v) = 4" "length (le64 u) = 8"
  by (simp_all add: le16_def le32_def le64_def)

lemma of_le32_le32 [simp]: "of_le32 (le32 w @ r) = w" "of_le32 (le32 w) = w"
  using of_be32_be32 [of w] by (simp_all add: of_le32_def le32_def be32_def)

lemma of_le64_le64 [simp]: "of_le64 (le64 w) = w"
proof -
  have "ucast (ucast w :: u32) OR push_bit 32 (ucast (ucast (drop_bit 32 w) :: u32)) = w"
    by (rule bit_word_eqI) (auto simp: bit_simps)
  then show ?thesis by (simp add: of_le64_def le64_def)
qed

lemma sint_of_length: "n < 2 ^ 31 \<Longrightarrow> sint (of_nat n :: u32) = int n"
  by (simp add: signed_of_nat signed_take_bit_int_eq_self)

lemma mem_take_append [simp]: "mem_take (length a) (a @ b) = Some (a, b)"
  by (simp add: mem_take_def)

lemma mem_take_le [simp]: "mem_take 4 (le32 w @ b) = Some (le32 w, b)" "mem_take 8 (le64 v @ b) = Some (le64 v, b)"
  by (simp_all add: mem_take_def)

lemma dc_read_write:
  assumes "length str \<le> 131072" "hotlen = int (length (dc_write_string str @ r))"
  shows "dc_read_string (dc_write_string str @ r, hotlen) = Some ((if str = [] then None else Some str, int (length str)), r, int (length r))"
proof -
  have "sint (of_nat (length str) :: u32) = int (length str)" using assms(1) by (intro sint_of_length) simp
  then show ?thesis using assms by (auto simp: dc_read_string_def dc_write_string_def Let_def)
qed

lemma dc_skip_write:
  assumes "length str \<le> 131072" "hotlen = int (length (dc_write_string str @ r))"
  shows "dc_skip_string (dc_write_string str @ r, hotlen) = Some (True, r, int (length r))"
proof -
  have "sint (of_nat (length str) :: u32) = int (length str)" using assms(1) by (intro sint_of_length) simp
  then show ?thesis using assms by (auto simp: dc_skip_string_def dc_write_string_def Let_def)
qed

lemma length_file_header: "length (fh_fix_str f) = 4 \<Longrightarrow> length (file_header_bytes f) = sizeof_file_header"
  by (simp add: file_header_bytes_def sizeof_file_header_def)

lemma cast_file_header_bytes:
  assumes "length (fh_fix_str f) = 4"
  shows "cast_file_header (file_header_bytes f @ r) = Some f"
proof -
  obtain a b c d where fx: "fh_fix_str f = [a, b, c, d]" using assms by (auto simp: numeral_eq_Suc length_Suc_conv)
  have w: "of_be16 (ucast (drop_bit 8 (bd_status_code (fh_body f)))) (ucast (bd_status_code (fh_body f))) = bd_status_code (fh_body f)"
    by (rule of_be16_be16)
  show ?thesis
    by (simp add: cast_file_header_def file_header_bytes_def sizeof_file_header_def fx nth_append le16_def w)
qed

section \<open>A head comes back\<close>

text \<open>A header as khttpd makes it, of a size that can be stored. An empty value of a known header is left out: see below.\<close>

definition good_header :: "attr_ops \<Rightarrow> kheader \<Rightarrow> bool" where
  "good_header ops h \<longleftrightarrow>
     kh_buf h \<noteq> [] \<and> length (kh_buf h) \<le> 131072 \<and> length (kh_buf h) = kh_val_len h + kh_val_offset h \<and>
     kh_val_len h \<le> MAX_HEADER_ATTR_VAL_SIZE ops \<and>
     (if name_is_know ops (kh_name_attribute h) then kh_val_offset h = 0 \<and> know_header ops (kh_name_attribute h) < kgl_header_unknow ops
      else 0 < name_len ops (kh_name_attribute h) \<and> name_len ops (kh_name_attribute h) \<le> MAX_HEADER_ATTR_VAL_SIZE ops \<and>
        kh_val_offset h = name_len ops (kh_name_attribute h) + 1)"

definition validator_ok :: "obj_body \<Rightarrow> bool" where
  "validator_ok b \<longleftrightarrow>
     (case ob_validator b of
        CTime t \<Rightarrow> condition_is_time (ob_i b)
      | CEtag e \<Rightarrow> \<not> condition_is_time (ob_i b) \<and> (\<forall>x. e = Some x \<longrightarrow> x \<noteq> [] \<and> length x \<le> 131072))"

definition align_ok :: "(nat \<Rightarrow> nat) \<Rightarrow> int \<Rightarrow> bool" where
  "align_ok align align_size \<longleftrightarrow> (\<forall>n. n \<le> align n \<and> int (align n) < int n + align_size)"

lemma make_header_good: "good_header ops h \<Longrightarrow> make_header ops (kh_name_attribute h) (kh_buf h) = Some h"
  by (cases h) (auto simp: good_header_def make_header_def Let_def split: if_splits)

lemma read_header_step:
  assumes "good_header ops h" "hotlen = int (length (header_out h @ r))"
  shows "read_obj_head ops align_size b (header_out h @ r) hotlen =
    read_obj_head ops align_size (b\<lparr>ob_headers := ob_headers b @ [h]\<rparr>) r (int (length r))"
proof -
  have l: "length (kh_buf h) \<le> 131072" "kh_buf h \<noteq> []" using assms(1) by (simp_all add: good_header_def)
  have "dc_read_string (dc_write_string (kh_buf h) @ (le32 (kh_name_attribute h) @ r), hotlen) =
    Some ((Some (kh_buf h), int (length (kh_buf h))), le32 (kh_name_attribute h) @ r, int (length (le32 (kh_name_attribute h) @ r)))"
    using l assms(2) by (subst dc_read_write) (simp_all add: header_out_def)
  then show ?thesis using make_header_good [OF assms(1)] by (subst read_obj_head.simps) (simp add: header_out_def)
qed

lemma read_headers:
  "\<forall>h\<in>set hs. good_header ops h \<Longrightarrow>
   read_obj_head ops align_size b (concat (map header_out hs) @ r) (int (length (concat (map header_out hs) @ r))) =
   read_obj_head ops align_size (b\<lparr>ob_headers := ob_headers b @ hs\<rparr>) r (int (length r))"
proof (induction hs arbitrary: b)
  case (Cons h hs)
  then show ?case using read_header_step [of ops h _ "concat (map header_out hs) @ r" align_size b] by simp
qed simp

lemma read_validator_back:
  assumes "ob_validator b = CEtag None" "has_condition (ob_i b) \<longleftrightarrow> has_validator v"
    "case v of CTime t \<Rightarrow> condition_is_time (ob_i b) | CEtag e \<Rightarrow> \<not> condition_is_time (ob_i b) \<and> (\<forall>x. e = Some x \<longrightarrow> x \<noteq> [] \<and> length x \<le> 131072)"
  shows "\<exists>b'. read_validator b (validator_out v @ r, int (length (validator_out v @ r))) = Some (True, b', r, int (length r)) \<and>
    ob_headers b' = ob_headers b \<and> (has_validator v \<longrightarrow> ob_validator b' = v) \<and> (\<not> has_validator v \<longrightarrow> \<not> has_validator (ob_validator b')) \<and>
    bd_max_age (ob_i b') = bd_max_age (ob_i b) \<and> bd_status_code (ob_i b') = bd_status_code (ob_i b) \<and>
    has_condition (ob_i b') = has_condition (ob_i b) \<and> condition_is_time (ob_i b') = condition_is_time (ob_i b)"
proof (cases v)
  case (CTime t)
  then show ?thesis using assms by (auto simp: read_validator_def validator_out_def)
next
  case (CEtag e)
  show ?thesis
  proof (cases e)
    case None
    then show ?thesis using CEtag assms by (auto simp: read_validator_def validator_out_def)
  next
    case (Some x)
    then have x: "x \<noteq> []" "length x \<le> 131072" "\<not> condition_is_time (ob_i b)" "has_condition (ob_i b)" using CEtag assms by auto
    have "set_etag x b = (set_bits (unset_bit 1) b)\<lparr>ob_validator := CEtag (Some x)\<rparr>" using assms(1) by (simp add: set_etag_def)
    moreover have "dc_read_string (dc_write_string x @ r, int (length (dc_write_string x @ r))) = Some ((Some x, int (length x)), r, int (length r))"
      using x(1,2) by (subst dc_read_write) simp_all
    ultimately show ?thesis using CEtag Some x
      by (auto simp: read_validator_def validator_out_def set_bits_def has_condition_def condition_is_time_def bit_simps)
  qed
qed

lemma read_tail:
  assumes "ob_validator b = CEtag None" "has_condition (ob_i b) \<longleftrightarrow> has_validator v" "int n < align_size"
    "case v of CTime t \<Rightarrow> condition_is_time (ob_i b) | CEtag e \<Rightarrow> \<not> condition_is_time (ob_i b) \<and> (\<forall>x. e = Some x \<longrightarrow> x \<noteq> [] \<and> length x \<le> 131072)"
  defines "r \<equiv> dc_write_string [] @ validator_out v @ replicate n 0"
  shows "\<exists>b'. read_obj_head ops align_size b r (int (length r)) = Some (True, b') \<and>
    ob_headers b' = ob_headers b \<and> (has_validator v \<longrightarrow> ob_validator b' = v) \<and> (\<not> has_validator v \<longrightarrow> \<not> has_validator (ob_validator b')) \<and>
    bd_max_age (ob_i b') = bd_max_age (ob_i b) \<and> bd_status_code (ob_i b') = bd_status_code (ob_i b) \<and>
    has_condition (ob_i b') = has_condition (ob_i b) \<and> condition_is_time (ob_i b') = condition_is_time (ob_i b)"
proof -
  let ?t = "validator_out v @ replicate n 0"
  have d: "dc_read_string (r, int (length r)) = Some ((None, 0), ?t, int (length ?t))"
    unfolding r_def by (subst dc_read_write) simp_all
  obtain b' where b': "read_validator b (?t, int (length ?t)) = Some (True, b', replicate n 0, int n)"
    "ob_headers b' = ob_headers b" "has_validator v \<longrightarrow> ob_validator b' = v" "\<not> has_validator v \<longrightarrow> \<not> has_validator (ob_validator b')"
    "bd_max_age (ob_i b') = bd_max_age (ob_i b)" "bd_status_code (ob_i b') = bd_status_code (ob_i b)"
    "has_condition (ob_i b') = has_condition (ob_i b)" "condition_is_time (ob_i b') = condition_is_time (ob_i b)"
    using read_validator_back [OF assms(1,2,4), of "replicate n 0"] by auto
  have "read_padding align_size (replicate n 0, int n) = Some True" using assms(3) by (auto simp: read_padding_def mem_take_def)
  then show ?thesis using b' d by (subst read_obj_head.simps) simp
qed

definition head_out :: "bool \<Rightarrow> u8 list \<Rightarrow> disk_obj \<Rightarrow> u8 list" where
  "head_out prog url ob = file_header_bytes (write_file_header prog ob) @ dc_write_string url @
     concat (map header_out (ob_headers (do_data ob))) @ dc_write_string [] @ validator_out (ob_validator (do_data ob))"

definition head_len :: "u8 list \<Rightarrow> obj_body \<Rightarrow> nat" where
  "head_len url b = sizeof_file_header + length url + 4 + (\<Sum>h\<leftarrow>ob_headers b. 4 + kh_val_len h + kh_val_offset h + 4) + 4 +
     (if has_validator (ob_validator b) then validator_size b else 0)"

lemma length_headers_out:
  "\<forall>h\<in>set hs. length (kh_buf h) = kh_val_len h + kh_val_offset h \<Longrightarrow> length (concat (map header_out hs)) = (\<Sum>h\<leftarrow>hs. 4 + kh_val_len h + kh_val_offset h + 4)"
proof (induction hs)
  case (Cons h hs)
  then show ?case by (simp add: header_out_def dc_write_string_def)
qed simp

lemma length_validator_out: "validator_ok b \<Longrightarrow> length (validator_out (ob_validator b)) = (if has_validator (ob_validator b) then validator_size b else 0)"
  by (auto simp: validator_ok_def validator_out_def validator_size_def dc_write_string_def split: validator.splits option.splits)

lemma length_head_out:
  assumes "\<forall>h\<in>set (ob_headers (do_data ob)). length (kh_buf h) = kh_val_len h + kh_val_offset h" "validator_ok (do_data ob)"
  shows "length (head_out prog url ob) = head_len url (do_data ob)"
  using length_headers_out [OF assms(1)] length_validator_out [OF assms(2)]
  by (simp add: head_out_def head_len_def length_file_header write_file_header_def CACHE_FIX_STR_def dc_write_string_def)

lemma GetHeaderSize_new:
  assumes "dx_head_size (do_index ob) = 0" "GetHeaderSize align (length url) ob = (sz, ob')"
  shows "sz = align (head_len url (do_data ob))" "dx_head_size (do_index ob') = of_nat sz"
    "do_data ob' = set_bits (if has_validator (ob_validator (do_data ob)) then set_bit 0 else unset_bit 0) (do_data ob)"
  using assms by (auto simp: GetHeaderSize_def Let_def head_len_def)

lemma set_bits_0 [simp]:
  "ob_headers (set_bits f b) = ob_headers b" "ob_validator (set_bits f b) = ob_validator b"
  "bd_max_age (ob_i (set_bits f b)) = bd_max_age (ob_i b)" "bd_status_code (ob_i (set_bits f b)) = bd_status_code (ob_i b)"
  "condition_is_time (ob_i (set_bits (set_bit 0) b)) = condition_is_time (ob_i b)"
  "condition_is_time (ob_i (set_bits (unset_bit 0) b)) = condition_is_time (ob_i b)"
  "has_condition (ob_i (set_bits (set_bit 0) b))" "\<not> has_condition (ob_i (set_bits (unset_bit 0) b))"
  by (simp_all add: set_bits_def condition_is_time_def has_condition_def bit_simps)

text \<open>What is written, and where the reader is when it comes to the headers.\<close>

lemma restore_built:
  assumes "align_ok align align_size" "dx_head_size (do_index ob) = 0" "GetHeaderSize align (length url) ob = (sz, ob')" "sz < 2 ^ 32"
    "length url \<le> 131072" "\<forall>h\<in>set (ob_headers (do_data ob)). length (kh_buf h) = kh_val_len h + kh_val_offset h" "validator_ok (do_data ob)"
    "bd_status_code (ob_i (do_data ob)) \<noteq> 0"
  shows "\<exists>buf n i. build_header prog url ob' = Some buf \<and> length buf = sz \<and> int n < align_size \<and>
    restore_header ops align_size buf sz b =
      (let r = concat (map header_out (ob_headers (do_data ob))) @ dc_write_string [] @ validator_out (ob_validator (do_data ob)) @ replicate n 0 in
       read_obj_head ops align_size (b\<lparr>ob_i := i\<rparr>) r (int (length r))) \<and>
    bd_status_code i = bd_status_code (ob_i (do_data ob)) \<and> bd_max_age i = bd_max_age (ob_i (do_data ob)) \<and>
    condition_is_time i = condition_is_time (ob_i (do_data ob)) \<and> has_condition i = has_validator (ob_validator (do_data ob))"
proof -
  let ?d = "do_data ob" and ?d' = "do_data ob'" and ?f = "write_file_header prog ob'"
  note g = GetHeaderSize_new [OF assms(2,3)]
  have d': "ob_headers ?d' = ob_headers ?d" "ob_validator ?d' = ob_validator ?d" "bd_status_code (ob_i ?d') = bd_status_code (ob_i ?d)"
    "bd_max_age (ob_i ?d') = bd_max_age (ob_i ?d)" "condition_is_time (ob_i ?d') = condition_is_time (ob_i ?d)"
    "has_condition (ob_i ?d') = has_validator (ob_validator ?d)" by (simp_all add: g(3))
  have vok: "validator_ok ?d'" using assms(7) by (cases "ob_validator ?d") (simp_all add: validator_ok_def d')
  have hl: "head_len url ?d' = head_len url ?d" by (simp add: head_len_def d' validator_size_def)
  let ?out = "head_out prog url ob'"
  let ?n = "sz - length ?out"
  have len: "length ?out = head_len url ?d" using length_head_out [of ob' prog url] assms(6) vok d'(1) hl by simp
  have szu: "unat (dx_head_size (do_index ob')) = sz" using assms(4) g(2) by (simp add: take_bit_nat_eq_self unsigned_of_nat)
  have al: "head_len url ?d \<le> sz" "int sz < int (head_len url ?d) + align_size" using assms(1) g(1) by (simp_all add: align_ok_def)
  let ?r = "concat (map header_out (ob_headers ?d)) @ dc_write_string [] @ validator_out (ob_validator ?d) @ replicate ?n 0"
  let ?buf = "?out @ replicate ?n 0"
  have buf: "?buf = file_header_bytes ?f @ dc_write_string url @ ?r" by (simp add: head_out_def d')
  have bh: "build_header prog url ob' = Some ?buf" using al len by (simp add: build_header_def Let_def szu flip: head_out_def)
  have lb: "length ?buf = sz" using al len by simp
  have fx: "length (fh_fix_str ?f) = 4" by (simp add: write_file_header_def CACHE_FIX_STR_def)
  have cast: "cast_file_header ?buf = Some ?f" unfolding buf by (rule cast_file_header_bytes [OF fx])
  have sign: "is_valide_dc_sign ?f" "unat (dx_head_size (fh_index ?f)) = sz"
    by (simp_all add: is_valide_dc_sign_def write_file_header_def szu)
  have tl: "drop sizeof_file_header ?buf = dc_write_string url @ ?r" unfolding buf by (simp add: length_file_header [OF fx])
  then have "int sz - int sizeof_file_header = int (length (dc_write_string url @ ?r))"
    using lb length_file_header [OF fx] unfolding buf by simp
  then have skip: "dc_skip_string (drop sizeof_file_header ?buf, int sz - int sizeof_file_header) = Some (True, ?r, int (length ?r))"
    unfolding tl using assms(5) by (intro dc_skip_write) simp_all
  let ?i = "kgl_safe_copy_body_data (ob_i b) (fh_body ?f)"
  have i: "bd_status_code ?i = bd_status_code (ob_i ?d)" "bd_max_age ?i = bd_max_age (ob_i ?d)" "condition_is_time ?i = condition_is_time (ob_i ?d)"
    "has_condition ?i = has_validator (ob_validator ?d)"
    using d' by (simp_all add: kgl_safe_copy_body_data_def write_file_header_def condition_is_time_def has_condition_def)
  have rs: "restore_header ops align_size ?buf sz b = read_obj_head ops align_size (b\<lparr>ob_i := ?i\<rparr>) ?r (int (length ?r))"
    using cast sign skip assms(8) i(1) by (simp add: restore_header_def Let_def)
  have "int ?n < align_size" using al len by simp
  then show ?thesis using bh lb rs i unfolding Let_def by blast
qed

lemma disk_head_back:
  assumes "align_ok align align_size" "dx_head_size (do_index ob) = 0" "GetHeaderSize align (length url) ob = (sz, ob')" "sz < 2 ^ 32"
    "length url \<le> 131072" "\<forall>h\<in>set (ob_headers (do_data ob)). good_header ops h" "validator_ok (do_data ob)" "bd_status_code (ob_i (do_data ob)) \<noteq> 0"
    "ob_headers b = []" "ob_validator b = CEtag None"
  shows "\<exists>buf b'. build_header prog url ob' = Some buf \<and> length buf = sz \<and> restore_header ops align_size buf sz b = Some (True, b') \<and>
    bd_status_code (ob_i b') = bd_status_code (ob_i (do_data ob)) \<and> bd_max_age (ob_i b') = bd_max_age (ob_i (do_data ob)) \<and>
    ob_headers b' = ob_headers (do_data ob) \<and>
    (if has_validator (ob_validator (do_data ob)) then ob_validator b' = ob_validator (do_data ob) else \<not> has_validator (ob_validator b'))"
proof -
  let ?d = "do_data ob"
  have hs: "\<forall>h\<in>set (ob_headers ?d). length (kh_buf h) = kh_val_len h + kh_val_offset h" using assms(6) by (simp add: good_header_def)
  from restore_built [OF assms(1-5) hs assms(7,8), of prog ops b] obtain buf n i where
    r: "build_header prog url ob' = Some buf" "length buf = sz" "int n < align_size"
    "restore_header ops align_size buf sz b =
      (let r = concat (map header_out (ob_headers ?d)) @ dc_write_string [] @ validator_out (ob_validator ?d) @ replicate n 0 in
       read_obj_head ops align_size (b\<lparr>ob_i := i\<rparr>) r (int (length r)))"
    "bd_status_code i = bd_status_code (ob_i ?d)" "bd_max_age i = bd_max_age (ob_i ?d)"
    "condition_is_time i = condition_is_time (ob_i ?d)" "has_condition i = has_validator (ob_validator ?d)" by blast
  let ?r = "dc_write_string [] @ validator_out (ob_validator ?d) @ replicate n 0"
  let ?b = "b\<lparr>ob_i := i, ob_headers := ob_headers ?d\<rparr>"
  have rs: "restore_header ops align_size buf sz b = read_obj_head ops align_size ?b ?r (int (length ?r))"
    using r(4) read_headers [OF assms(6), of align_size "b\<lparr>ob_i := i\<rparr>" ?r] assms(9) by (simp add: Let_def)
  have "case ob_validator ?d of CTime t \<Rightarrow> condition_is_time (ob_i ?b)
    | CEtag e \<Rightarrow> \<not> condition_is_time (ob_i ?b) \<and> (\<forall>x. e = Some x \<longrightarrow> x \<noteq> [] \<and> length x \<le> 131072)"
    using assms(7) r(7) by (cases "ob_validator ?d") (simp_all add: validator_ok_def)
  with r(3) obtain b' where x: "read_obj_head ops align_size ?b ?r (int (length ?r)) = Some (True, b')"
    "ob_headers b' = ob_headers ?d" "has_validator (ob_validator ?d) \<longrightarrow> ob_validator b' = ob_validator ?d"
    "\<not> has_validator (ob_validator ?d) \<longrightarrow> \<not> has_validator (ob_validator b')"
    "bd_max_age (ob_i b') = bd_max_age i" "bd_status_code (ob_i b') = bd_status_code i"
    using read_tail [of ?b "ob_validator ?d" n align_size ops] assms(10) r(8) by auto
  have "restore_header ops align_size buf sz b = Some (True, b')" using rs x(1) by (rule trans)
  moreover have "bd_status_code (ob_i b') = bd_status_code (ob_i ?d)" "bd_max_age (ob_i b') = bd_max_age (ob_i ?d)" using x(5,6) r(5,6) by simp_all
  ultimately show ?thesis using r(1,2) x(2-4) by (intro exI [of _ buf] exI [of _ b']) presburger
qed

section \<open>An example\<close>

definition example_ops :: attr_ops where
  "example_ops = \<lparr>name_is_know = \<lambda>a. bit a 31, know_header = \<lambda>a. unat (a AND 0xFF), name_len = \<lambda>a. unat (a AND 0xFFFF),
     kgl_header_unknow = 60, MAX_HEADER_ATTR_VAL_SIZE = 65535\<rparr>"

definition example_align :: "nat \<Rightarrow> nat" where
  "example_align n = (n + 7) div 8 * 8"

definition example_disk_obj :: disk_obj where
  "example_disk_obj =
     \<lparr>do_index = \<lparr>dx_head_size = 0, dx_flags = 3, dx_content_length = 3, dx_last_verified = 9\<rparr>, do_flag_encoding = 1,
      do_data = \<lparr>ob_i = \<lparr>bd_max_age = 60, bd_status_code = 200, bd_bits = 0, bd_type = 0\<rparr>,
        ob_headers = [\<lparr>kh_buf = [0x61], kh_name_attribute = 0x80000001, kh_val_offset = 0, kh_val_len = 1\<rparr>,
          \<lparr>kh_buf = [0x58, 0, 0x76], kh_name_attribute = 1, kh_val_offset = 2, kh_val_len = 1\<rparr>],
        ob_validator = CEtag (Some [0x22, 0x61, 0x22])\<rparr>\<rparr>"

lemma example_align_ok: "align_ok example_align 8"
proof -
  have "n \<le> (n + 7) div 8 * 8 \<and> (n + 7) div 8 * 8 < n + 8" for n :: nat by linarith
  then show ?thesis unfolding align_ok_def example_align_def by (metis of_nat_add of_nat_less_iff of_nat_numeral)
qed

lemma example_disk_obj_ok:
  "dx_head_size (do_index example_disk_obj) = 0" "\<forall>h\<in>set (ob_headers (do_data example_disk_obj)). good_header example_ops h"
  "validator_ok (do_data example_disk_obj)" "bd_status_code (ob_i (do_data example_disk_obj)) \<noteq> 0"
  "ob_validator (do_data example_disk_obj) = CEtag (Some [0x22, 0x61, 0x22])"
  by (simp_all add: example_disk_obj_def good_header_def example_ops_def validator_ok_def condition_is_time_def)

lemma new_obj_body_empty: "ob_headers new_obj_body = []" "ob_validator new_obj_body = CEtag None"
  by (simp_all add: new_obj_body_def)

definition example_empty_header :: disk_obj where
  "example_empty_header = example_disk_obj\<lparr>do_data := (do_data example_disk_obj)
     \<lparr>ob_headers := [\<lparr>kh_buf = [], kh_name_attribute = 0x80000001, kh_val_offset = 0, kh_val_len = 0\<rparr>], ob_validator := CEtag None\<rparr>\<rparr>"

lemma example_size: "fst (GetHeaderSize example_align (length [0x68 :: u8]) example_disk_obj) = 80"
  by code_simp

section \<open>What the files promise\<close>



text \<open>C40.
  A known header with an empty value is written as an empty string, which is also how the list of headers ends. An object
  with such a header, when it has no validator, cannot be read back from its file.
\<close>

theorem empty_known_header_lost:
  assumes "align_ok align align_size" "dx_head_size (do_index ob) = 0" "GetHeaderSize align (length url) ob = (sz, ob')" "sz < 2 ^ 32"
    "length url \<le> 131072" "ob_headers (do_data ob) = hs @ h # hs'" "\<forall>x\<in>set hs. good_header ops x" "kh_buf h = []" "kh_name_attribute h \<noteq> 0"
    "\<forall>x\<in>set (h # hs'). length (kh_buf x) = kh_val_len x + kh_val_offset x"
    "validator_ok (do_data ob)" "\<not> has_validator (ob_validator (do_data ob))" "bd_status_code (ob_i (do_data ob)) \<noteq> 0" "ob_headers b = []"
  shows "\<exists>buf b'. build_header prog url ob' = Some buf \<and> restore_header ops align_size buf sz b = Some (False, b')"
proof -
  let ?d = "do_data ob"
  have hs: "\<forall>x\<in>set (ob_headers ?d). length (kh_buf x) = kh_val_len x + kh_val_offset x"
    using assms(6,7,10) by (auto simp: good_header_def)
  from restore_built [OF assms(1-5) hs assms(11,13), of prog ops b] obtain buf n i where
    r: "build_header prog url ob' = Some buf" "restore_header ops align_size buf sz b =
      (let r = concat (map header_out (ob_headers ?d)) @ dc_write_string [] @ validator_out (ob_validator ?d) @ replicate n 0 in
       read_obj_head ops align_size (b\<lparr>ob_i := i\<rparr>) r (int (length r)))" "has_condition i = has_validator (ob_validator ?d)" by blast
  let ?t = "le32 (kh_name_attribute h) @ concat (map header_out hs') @ dc_write_string [] @ validator_out (ob_validator ?d) @ replicate n 0"
  let ?b = "b\<lparr>ob_i := i, ob_headers := hs\<rparr>"
  have e: "concat (map header_out (ob_headers ?d)) @ dc_write_string [] @ validator_out (ob_validator ?d) @ replicate n 0 =
    concat (map header_out hs) @ dc_write_string [] @ ?t" by (simp add: assms(6,8) header_out_def)
  have "restore_header ops align_size buf sz b = read_obj_head ops align_size ?b (dc_write_string [] @ ?t) (int (length (dc_write_string [] @ ?t)))"
    using r(2) read_headers [OF assms(7), of align_size "b\<lparr>ob_i := i\<rparr>" "dc_write_string [] @ ?t"] assms(14) unfolding e Let_def by simp
  moreover have "dc_read_string (dc_write_string [] @ ?t, int (length (dc_write_string [] @ ?t))) = Some ((None, 0), ?t, int (length ?t))"
    by (subst dc_read_write) simp_all
  moreover have "read_validator ?b (?t, int (length ?t)) = Some (True, ?b, ?t, int (length ?t))" using r(3) assms(12) by (simp add: read_validator_def)
  moreover have "read_padding align_size (?t, int (length ?t)) = Some False"
  proof -
    have "of_le32 (le32 (kh_name_attribute h)) \<noteq> 0" using assms(9) by simp
    then have "\<exists>x\<in>set (le32 (kh_name_attribute h)). x \<noteq> 0" by (auto simp: le32_def be32_def of_le32_def of_be32_def)
    then show ?thesis by (auto simp: read_padding_def mem_take_def)
  qed
  ultimately have "restore_header ops align_size buf sz b = Some (False, ?b)" by (subst (asm) read_obj_head.simps) simp
  then show ?thesis using r(1) by blast
qed

theorem empty_known_header_lost_witness:
  "\<exists>buf b'. build_header False [0x68] (snd (GetHeaderSize example_align (length [0x68 :: u8]) example_empty_header)) = Some buf \<and>
    restore_header example_ops 8 buf 64 new_obj_body = Some (False, b')"
proof -
  let ?g = "GetHeaderSize example_align (length [0x68 :: u8]) example_empty_header"
  have "fst ?g = 64" by code_simp
  then have g: "?g = (64, snd ?g)" by (metis prod.collapse)
  let ?h = "\<lparr>kh_buf = [], kh_name_attribute = 0x80000001, kh_val_offset = 0, kh_val_len = 0\<rparr> :: kheader"
  have "dx_head_size (do_index example_empty_header) = 0" "(64 :: nat) < 2 ^ 32" "length [0x68 :: u8] \<le> 131072" "ob_headers (do_data example_empty_header) = [] @ ?h # []"
    "validator_ok (do_data example_empty_header)" "\<not> has_validator (ob_validator (do_data example_empty_header))"
    "bd_status_code (ob_i (do_data example_empty_header)) \<noteq> 0"
    by (simp_all add: example_empty_header_def example_disk_obj_def validator_ok_def condition_is_time_def)
  from empty_known_header_lost [OF example_align_ok this(1) g this(2-4) _ _ _ _ this(5-7) new_obj_body_empty(1), of example_ops False]
  show ?thesis by simp
qed

section \<open>Any file can be read\<close>

lemma dc_read_string_safe:
  assumes "hotlen = int (length hot)"
  shows "\<exists>buf len hot'. dc_read_string (hot, hotlen) = Some ((buf, len), hot', int (length hot')) \<and> (len \<noteq> - 1 \<longrightarrow> length hot' < length hot)"
  using assms by (auto simp: dc_read_string_def mem_take_def Let_def)

lemma dc_skip_string_safe:
  assumes "hotlen = int (length hot)"
  shows "\<exists>r hot'. dc_skip_string (hot, hotlen) = Some (r, hot', int (length hot'))"
  using assms by (auto simp: dc_skip_string_def mem_take_def Let_def)

lemma read_validator_safe:
  assumes "hotlen = int (length hot)"
  shows "\<exists>r b' hot'. read_validator b (hot, hotlen) = Some (r, b', hot', int (length hot')) \<and> ob_headers b' = ob_headers b \<and>
    bd_status_code (ob_i b') = bd_status_code (ob_i b)"
proof -
  obtain buf len hot' where d: "dc_read_string (hot, hotlen) = Some ((buf, len), hot', int (length hot'))" using dc_read_string_safe [OF assms] by blast
  have e: "ob_headers (set_etag x b) = ob_headers b" "bd_status_code (ob_i (set_etag x b)) = bd_status_code (ob_i b)" for x
    by (simp_all add: set_etag_def set_bits_def)
  show ?thesis
  proof (cases "has_condition (ob_i b) \<and> \<not> condition_is_time (ob_i b)")
    case True
    then show ?thesis using d by (cases buf) (auto simp: read_validator_def e)
  next
    case False
    then show ?thesis using assms by (auto simp: read_validator_def mem_take_def)
  qed
qed

lemma read_padding_safe: "\<exists>r. read_padding align_size (hot, int (length hot)) = Some r"
  by (cases "align_size \<le> int (length hot)") (auto simp: read_padding_def mem_take_def intro: exI [of _ False])

definition header_fits :: "attr_ops \<Rightarrow> kheader \<Rightarrow> bool" where
  "header_fits ops h \<longleftrightarrow> kh_val_offset h + kh_val_len h = length (kh_buf h) \<and> kh_val_len h \<le> MAX_HEADER_ATTR_VAL_SIZE ops \<and>
     (\<not> name_is_know ops (kh_name_attribute h) \<longrightarrow> name_len ops (kh_name_attribute h) < kh_val_offset h)"

lemma make_header_fits: "make_header ops a buf = Some h \<Longrightarrow> header_fits ops h"
  by (auto simp: make_header_def header_fits_def Let_def split: if_splits)

lemma read_obj_head_safe:
  "\<exists>r b'. read_obj_head ops align_size b hot (int (length hot)) = Some (r, b') \<and> bd_status_code (ob_i b') = bd_status_code (ob_i b) \<and>
     (\<forall>h\<in>set (ob_headers b'). h \<in> set (ob_headers b) \<or> header_fits ops h)"
proof (induction "length hot" arbitrary: hot b rule: less_induct)
  case less
  obtain buf len hot1 where d: "dc_read_string (hot, int (length hot)) = Some ((buf, len), hot1, int (length hot1))"
    and le: "len \<noteq> - 1 \<longrightarrow> length hot1 < length hot" using dc_read_string_safe [OF refl] by blast
  note u = read_obj_head.simps [of ops align_size b hot "int (length hot)", unfolded d option.case prod.case]
  consider "len = - 1" | "len \<noteq> - 1" "buf = None" | str where "len \<noteq> - 1" "buf = Some str" by (cases buf) auto
  then show ?case
  proof cases
    case 1
    then show ?thesis using u by auto
  next
    case 2
    obtain r b1 hot2 where v: "read_validator b (hot1, int (length hot1)) = Some (r, b1, hot2, int (length hot2))"
      "ob_headers b1 = ob_headers b" "bd_status_code (ob_i b1) = bd_status_code (ob_i b)" using read_validator_safe [OF refl] by blast
    obtain q where "read_padding align_size (hot2, int (length hot2)) = Some q" using read_padding_safe by blast
    then show ?thesis using u 2 v by (cases r) auto
  next
    case 3
    show ?thesis
    proof (cases "length hot1 < 4")
      case True
      then show ?thesis using u 3 by auto
    next
      case False
      then have m: "mem_take 4 hot1 = Some (take 4 hot1, drop 4 hot1)" by (simp add: mem_take_def)
      have l: "int (length hot1) - 4 = int (length (drop 4 hot1))" using False by simp
      show ?thesis
      proof (cases "make_header ops (of_le32 (take 4 hot1)) str")
        case None
        then show ?thesis using u 3 m by auto
      next
        case (Some h)
        have "length (drop 4 hot1) < length hot" using le 3 by simp
        from less [OF this, of "b\<lparr>ob_headers := ob_headers b @ [h]\<rparr>"] show ?thesis
          using u 3 m Some False make_header_fits [OF Some] unfolding l by fastforce
      qed
    qed
  qed
qed

text \<open>C15.
  Reading the head of a file never reads behind the buffer, whatever the file holds, and always returns. Every header it
  delivers has its name and its value inside of its own buffer and within the limits of the program, and the status is not zero.
\<close>

theorem disk_head_safe:
  assumes "sizeof_file_header \<le> length buf" "ob_headers b = []"
  shows "\<exists>r b'. restore_header ops align_size buf (length buf) b = Some (r, b') \<and>
    (r \<longrightarrow> bd_status_code (ob_i b') \<noteq> 0 \<and> (\<forall>h\<in>set (ob_headers b'). header_fits ops h))"
proof -
  obtain f where f: "cast_file_header buf = Some f" using assms(1) by (simp add: cast_file_header_def)
  have l: "int (length buf) - int sizeof_file_header = int (length (drop sizeof_file_header buf))" using assms(1) by simp
  obtain r hot where s: "dc_skip_string (drop sizeof_file_header buf, int (length buf) - int sizeof_file_header) = Some (r, hot, int (length hot))"
    using dc_skip_string_safe [OF l] by blast
  let ?i = "let i = kgl_safe_copy_body_data (ob_i b) (fh_body f) in if bd_status_code i = 0 then i\<lparr>bd_status_code := STATUS_OK\<rparr> else i"
  have "bd_status_code ?i \<noteq> 0" by (simp add: Let_def STATUS_OK_def)
  moreover obtain r' b' where "read_obj_head ops align_size (b\<lparr>ob_i := ?i\<rparr>) hot (int (length hot)) = Some (r', b')"
    "bd_status_code (ob_i b') = bd_status_code ?i" "\<forall>h\<in>set (ob_headers b'). header_fits ops h"
    using read_obj_head_safe [of ops align_size "b\<lparr>ob_i := ?i\<rparr>" hot] assms(2) by auto
  ultimately show ?thesis using f s by (cases r) (auto simp: restore_header_def Let_def)
qed

theorem disk_head_safe_witness:
  "\<exists>r b'. restore_header example_ops 8 (replicate 50 0) (length (replicate 50 (0 :: u8))) new_obj_body = Some (r, b')"
  using disk_head_safe [of "replicate 50 0" new_obj_body example_ops 8] by (auto simp: sizeof_file_header_def new_obj_body_def)

end
