(* ===== verification/Disk_Swap.thy ===== *)
theory Disk_Swap
  imports Disk_Object
begin

text \<open>
  Reading an object back from its file (\<^verbatim>\<open>KHttpObjectSwaping::swapin\<close>), the text under which an object is stored with what
  it varies by (\<^verbatim>\<open>get_obj_url_key\<close>, \<^verbatim>\<open>create_http_object2\<close>), and the scan of the directories of the cache, which stops
  outside of its hours and goes on later (\<^verbatim>\<open>recreate_index\<close>).

  A read delivers some of the bytes that were asked for: \<open>chunk\<close> says how many at most at each place of the file. The
  buffer that \<^verbatim>\<open>restore_header\<close> may look at ends where the head does, which is stricter than the code needs. The file is
  taken to be open and memory to be there.
\<close>

section \<open>The code\<close>

datatype swap_in_result =
    swap_in_success | swap_in_busy | swap_in_failed_open | swap_in_failed_read | swap_in_failed_format | swap_in_failed_parse
  | swap_in_failed_clean_blocked | swap_in_failed_other

definition file_read :: "(nat \<Rightarrow> nat) \<Rightarrow> u8 list \<Rightarrow> nat \<Rightarrow> nat \<Rightarrow> u8 list" where
  "file_read chunk fl pos n = take (min (chunk pos) n) (drop pos fl)"

definition swapin_body_result :: "u8 list \<Rightarrow> u8 list list \<Rightarrow> u8 list list" where
  "swapin_body_result buf bodys = (if buf = [] then bodys else bodys @ [buf])"

function swapin_loop ::
  "attr_ops \<Rightarrow> int \<Rightarrow> (nat \<Rightarrow> nat) \<Rightarrow> u8 list \<Rightarrow> nat \<Rightarrow> nat \<Rightarrow> nat \<Rightarrow> nat \<Rightarrow> u8 list \<Rightarrow> obj_body \<Rightarrow> u8 list list \<Rightarrow>
   (swap_in_result \<times> obj_body \<times> u8 list list) option" where
  "swapin_loop ops align_size chunk fl head_size alloc_size pos left_read buf data bodys =
     (if left_read = 0 then Some (swap_in_success, data, bodys)
      else
        (let got = file_read chunk fl pos (min left_read (alloc_size - length buf));
             buf = buf @ got; pos' = pos + length got; left = left_read - length got in
         if got = [] then Some (swap_in_failed_read, data, bodys)
         else if bd_status_code (ob_i data) = 0 then
           (if length buf < head_size then swapin_loop ops align_size chunk fl head_size alloc_size pos' left buf data bodys
            else
              (case restore_header ops align_size (take head_size buf) head_size data of
                 None \<Rightarrow> None
               | Some (False, data) \<Rightarrow> Some (swap_in_failed_parse, data, bodys)
               | Some (True, data) \<Rightarrow>
                   swapin_loop ops align_size chunk fl head_size alloc_size pos' left [] data (swapin_body_result (drop head_size buf) bodys)))
         else swapin_loop ops align_size chunk fl head_size alloc_size pos' left [] data (swapin_body_result buf bodys)))"
  by pat_completeness auto
termination
  by (relation "measure (\<lambda>(ops, align_size, chunk, fl, head_size, alloc_size, pos, left_read, buf, data, bodys). left_read)")
    (simp_all add: diff_less)

declare swapin_loop.simps [simp del]

text \<open>\<open>content_length\<close> is the signed number of the index; the sum with the size of the head is in range.\<close>

definition swapin_head_body ::
  "attr_ops \<Rightarrow> (nat \<Rightarrow> nat) \<Rightarrow> int \<Rightarrow> nat \<Rightarrow> (nat \<Rightarrow> nat) \<Rightarrow> u8 list \<Rightarrow> dc_index \<Rightarrow> obj_body \<Rightarrow> (swap_in_result \<times> obj_body \<times> u8 list list) option" where
  "swapin_head_body ops align align_size io_buffer chunk fl index data =
     (let cl = sint (dx_content_length index); head_size = unat (dx_head_size index) in
      if cl < 0 \<or> cl > 2 ^ 63 - 1 - int head_size then Some (swap_in_failed_format, data, [])
      else
        (let left_read = nat cl + head_size;
             alloc_size = align (max (min io_buffer left_read) head_size) in
         swapin_loop ops align_size chunk fl head_size alloc_size 0 left_read [] data []))"

text \<open>The head alone.\<close>

function swapin_head_loop :: "(nat \<Rightarrow> nat) \<Rightarrow> u8 list \<Rightarrow> nat \<Rightarrow> nat \<Rightarrow> u8 list \<Rightarrow> u8 list option" where
  "swapin_head_loop chunk fl pos left_read buf =
     (if left_read = 0 then Some buf
      else
        (let got = file_read chunk fl pos left_read in
         if got = [] then None else swapin_head_loop chunk fl (pos + length got) (left_read - length got) (buf @ got)))"
  by pat_completeness auto
termination
  by (relation "measure (\<lambda>(chunk, fl, pos, left_read, buf). left_read)") (simp_all add: diff_less)

declare swapin_head_loop.simps [simp del]

definition MEMORY_OBJECT :: u8 where "MEMORY_OBJECT = 0"
definition BIG_OBJECT :: u8 where "BIG_OBJECT = 1"
definition BIG_OBJECT_PROGRESS :: u8 where "BIG_OBJECT_PROGRESS = 2"

definition swapin_head ::
  "attr_ops \<Rightarrow> int \<Rightarrow> (nat \<Rightarrow> nat) \<Rightarrow> u8 list \<Rightarrow> swap_in_result \<Rightarrow> dc_index \<Rightarrow> obj_body \<Rightarrow> (swap_in_result \<times> obj_body \<times> u8 list list) option" where
  "swapin_head ops align_size chunk fl progress index data =
     (case swapin_head_loop chunk fl 0 (unat (dx_head_size index)) [] of
        None \<Rightarrow> Some (swap_in_failed_read, data, [])
      | Some buf \<Rightarrow>
          (case restore_header ops align_size buf (unat (dx_head_size index)) data of
             None \<Rightarrow> None
           | Some (False, data) \<Rightarrow> Some (swap_in_failed_parse, data, [])
           | Some (True, data) \<Rightarrow> Some (if bd_type (ob_i data) = BIG_OBJECT_PROGRESS then progress else swap_in_success, data, [])))"

text \<open>
  The type of an object from its index: \<open>in_progress\<close> is the test of \<^verbatim>\<open>FLAG_BIG_OBJECT_PROGRESS\<close>. The progress of such an
  object is another file, whose result is an argument; theory \<^verbatim>\<open>Big_Object\<close> models what it holds.
\<close>

definition create_type :: "int \<Rightarrow> bool \<Rightarrow> dc_index \<Rightarrow> obj_body \<Rightarrow> obj_body" where
  "create_type max_cache_size in_progress index b =
     b\<lparr>ob_i := (ob_i b)\<lparr>bd_type :=
         (if in_progress then BIG_OBJECT_PROGRESS else if sint (dx_content_length index) \<ge> max_cache_size then BIG_OBJECT else MEMORY_OBJECT)\<rparr>\<rparr>"

definition swapin ::
  "attr_ops \<Rightarrow> (nat \<Rightarrow> nat) \<Rightarrow> int \<Rightarrow> nat \<Rightarrow> int \<Rightarrow> (nat \<Rightarrow> nat) \<Rightarrow> u8 list \<Rightarrow> bool \<Rightarrow> swap_in_result \<Rightarrow> dc_index \<Rightarrow>
   (swap_in_result \<times> obj_body \<times> u8 list list) option" where
  "swapin ops align align_size io_buffer max_cache_size chunk fl in_progress progress index =
     (if \<not> is_valide_dc_head_size (dx_head_size index) then Some (swap_in_failed_format, new_obj_body, [])
      else
        (let data = create_type max_cache_size in_progress index new_obj_body in
         if bd_type (ob_i data) \<noteq> MEMORY_OBJECT then swapin_head ops align_size chunk fl progress index data
         else swapin_head_body ops align align_size io_buffer chunk fl index data))"

text \<open>The text an object is stored under, and how it is taken apart again.\<close>

definition get_obj_url_key :: "string \<Rightarrow> (string option \<times> string option) option \<Rightarrow> string" where
  "get_obj_url_key url vary =
     (case vary of Some (Some k, Some v) \<Rightarrow> url @ [CHR 0x0A] @ k @ [CHR 0x0A] @ v | _ \<Rightarrow> url)"

definition split_url_key :: "string \<Rightarrow> string \<times> (string option \<times> string option) option" where
  "split_url_key s =
     (case cut_at (CHR 0x0A) s of
        (url, None) \<Rightarrow> (url, None)
      | (url, Some vary) \<Rightarrow> (case cut_at (CHR 0x0A) vary of (k, None) \<Rightarrow> (url, None) | (k, Some v) \<Rightarrow> (url, Some (Some k, Some v))))"

text \<open>
  The scan of all directories, from the place that was saved. The clock may say no before each directory. The result, the
  place to go on, and the directories that were scanned.
\<close>

definition CACHE_DIR_MASK1 :: nat where "CACHE_DIR_MASK1 = 127"
definition CACHE_DIR_MASK2 :: nat where "CACHE_DIR_MASK2 = 127"

function recreate_index :: "(nat \<Rightarrow> bool) \<Rightarrow> nat \<Rightarrow> nat \<Rightarrow> nat \<Rightarrow> bool \<times> nat \<times> nat \<times> (nat \<times> nat) list" where
  "recreate_index check n first second =
     (if first > CACHE_DIR_MASK1 then (True, first, second, [])
      else if second > CACHE_DIR_MASK2 then recreate_index check n (first + 1) 0
      else if \<not> check n then (False, first, second, [])
      else (case recreate_index check (n + 1) first (second + 1) of (r, f, s, dirs) \<Rightarrow> (r, f, s, (first, second) # dirs)))"
  by pat_completeness auto
termination
  by (relation "measures [\<lambda>(check, n, first, second). CACHE_DIR_MASK1 + 1 - first, \<lambda>(check, n, first, second). CACHE_DIR_MASK2 + 1 - second]")
    (simp_all add: CACHE_DIR_MASK1_def CACHE_DIR_MASK2_def)

declare recreate_index.simps [simp del]

section \<open>What was stored comes back\<close>

lemma url_key_back:
  assumes "CHR 0x0A \<notin> set url" "case vary of None \<Rightarrow> True | Some (k, v) \<Rightarrow> (\<exists>x y. k = Some x \<and> v = Some y \<and> CHR 0x0A \<notin> set x)"
  shows "split_url_key (get_obj_url_key url vary) = (url, vary)"
proof -
  have c: "cut_at (CHR 0x0A) (a @ CHR 0x0A # b) = (a, Some b)" if "CHR 0x0A \<notin> set a" for a b using that by (induction a) auto
  show ?thesis using assms c by (cases vary) (auto simp: split_url_key_def get_obj_url_key_def cut_at_None)
qed

lemma file_read_some:
  assumes "\<forall>p. 0 < chunk p" "0 < n" "pos + n \<le> length fl"
  shows "\<exists>k. file_read chunk fl pos n = take k (drop pos fl) \<and> 0 < k \<and> k \<le> n \<and> length (take k (drop pos fl)) = k"
  using assms by (intro exI [of _ "min (chunk pos) n"]) (auto simp: file_read_def)

lemma concat_body_result: "concat (swapin_body_result buf bodys) = concat bodys @ buf"
  by (simp add: swapin_body_result_def)

lemma take_drop_step: "k \<le> m \<Longrightarrow> take k xs @ take (m - k) (drop k xs) = take m xs"
  by (metis le_add_diff_inverse take_add)

lemma swapin_loop_body:
  assumes "\<forall>p. 0 < chunk p" "0 < alloc_size"
  shows "bd_status_code (ob_i d) \<noteq> 0 \<Longrightarrow> pos + left_read \<le> length fl \<Longrightarrow>
    \<exists>bodys'. swapin_loop ops align_size chunk fl head_size alloc_size pos left_read [] d bodys = Some (swap_in_success, d, bodys') \<and>
      concat bodys' = concat bodys @ take left_read (drop pos fl)"
proof (induction left_read arbitrary: pos bodys rule: less_induct)
  case (less left_read)
  show ?case
  proof (cases "left_read = 0")
    case True
    then show ?thesis by (subst swapin_loop.simps) simp
  next
    case False
    have "0 < min left_read alloc_size" "pos + min left_read alloc_size \<le> length fl" using assms(2) False less.prems(2) by simp_all
    from file_read_some [OF assms(1) this] obtain k where k: "file_read chunk fl pos (min left_read alloc_size) = take k (drop pos fl)" "0 < k"
      "k \<le> min left_read alloc_size" "length (take k (drop pos fl)) = k" by blast
    let ?got = "take k (drop pos fl)"
    have ne: "?got \<noteq> []" using k(2,4) by fastforce
    have u: "swapin_loop ops align_size chunk fl head_size alloc_size pos left_read [] d bodys =
      swapin_loop ops align_size chunk fl head_size alloc_size (pos + k) (left_read - k) [] d (swapin_body_result ?got bodys)"
      using False less.prems(1) k(1,4) ne by (subst swapin_loop.simps) (simp add: Let_def)
    have "left_read - k < left_read" "pos + k + (left_read - k) \<le> length fl" using k(2,3) False less.prems(2) by simp_all
    from less.IH [OF this(1) less.prems(1) this(2), of "swapin_body_result ?got bodys"] obtain bodys' where
      b: "swapin_loop ops align_size chunk fl head_size alloc_size (pos + k) (left_read - k) [] d (swapin_body_result ?got bodys) = Some (swap_in_success, d, bodys')"
      "concat bodys' = (concat bodys @ ?got) @ take (left_read - k) (drop (pos + k) fl)" by (auto simp: concat_body_result)
    have "?got @ take (left_read - k) (drop (pos + k) fl) = take left_read (drop pos fl)"
      using take_drop_step [of k left_read "drop pos fl"] k(3) by (simp add: add.commute)
    then show ?thesis using u b by simp
  qed
qed

lemma swapin_loop_head:
  assumes "\<forall>p. 0 < chunk p" "head_size \<le> alloc_size" "0 < head_size" "bd_status_code (ob_i d) = 0" "head_size + n \<le> length fl"
    "restore_header ops align_size (take head_size fl) head_size d = Some (True, d')" "bd_status_code (ob_i d') \<noteq> 0"
  shows "pos < head_size \<Longrightarrow>
    \<exists>bodys'. swapin_loop ops align_size chunk fl head_size alloc_size pos (head_size + n - pos) (take pos fl) d [] = Some (swap_in_success, d', bodys') \<and>
      concat bodys' = take n (drop head_size fl)"
proof (induction "head_size - pos" arbitrary: pos rule: less_induct)
  case less
  let ?left = "head_size + n - pos"
  let ?n = "min ?left (alloc_size - length (take pos fl))"
  have lp: "length (take pos fl) = pos" using less.prems assms(5) by simp
  have "0 < ?n" "pos + ?n \<le> length fl" using assms(2,5) less.prems lp by simp_all
  from file_read_some [OF assms(1) this] obtain k where k: "file_read chunk fl pos ?n = take k (drop pos fl)" "0 < k" "k \<le> ?n"
    "length (take k (drop pos fl)) = k" by blast
  let ?got = "take k (drop pos fl)"
  have ne: "?got \<noteq> []" using k(2,4) by fastforce
  have buf: "take pos fl @ ?got = take (pos + k) fl" by (simp add: take_add)
  have kl: "k \<le> ?left" using k(3) by simp
  then have pk: "pos + k \<le> length fl" using assms(5) less.prems by linarith
  then have lb: "length (take (pos + k) fl) = pos + k" by simp
  have nz: "?left \<noteq> 0" using less.prems by simp
  have left: "?left - k = head_size + n - (pos + k)" by simp
  show ?case
  proof (cases "pos + k < head_size")
    case True
    then have "swapin_loop ops align_size chunk fl head_size alloc_size pos ?left (take pos fl) d [] =
      swapin_loop ops align_size chunk fl head_size alloc_size (pos + k) (head_size + n - (pos + k)) (take (pos + k) fl) d []"
      using nz k(1,4) ne assms(4) lb by (subst swapin_loop.simps) (simp add: Let_def buf left)
    moreover have "head_size - (pos + k) < head_size - pos" using True k(2) by simp
    ultimately show ?thesis using less.hyps [OF _ True] by simp
  next
    case False
    have tk: "take head_size (take (pos + k) fl) = take head_size fl" using False by (simp add: min_def)
    let ?b = "swapin_body_result (drop head_size (take (pos + k) fl)) []"
    have u: "swapin_loop ops align_size chunk fl head_size alloc_size pos ?left (take pos fl) d [] =
      swapin_loop ops align_size chunk fl head_size alloc_size (pos + k) (?left - k) [] d' ?b"
      using False nz k(1,4) ne assms(4) lb by (subst swapin_loop.simps) (simp add: Let_def buf tk assms(6))
    have "0 < alloc_size" using assms(2,3) by simp
    have "pos + k + (?left - k) \<le> length fl" using assms(5) less.prems kl by linarith
    note this = \<open>0 < alloc_size\<close> this
    from swapin_loop_body [OF assms(1) this(1) assms(7) this(2), of ops align_size head_size ?b]
    obtain bodys' where b: "swapin_loop ops align_size chunk fl head_size alloc_size (pos + k) (?left - k) [] d' ?b = Some (swap_in_success, d', bodys')"
      "concat bodys' = drop head_size (take (pos + k) fl) @ take (?left - k) (drop (pos + k) fl)" by (auto simp: concat_body_result)
    have "drop head_size (take (pos + k) fl) @ take (?left - k) (drop (pos + k) fl) = take n (drop head_size fl)"
    proof -
      have "pos + k - head_size \<le> n" using kl less.prems by linarith
      from take_drop_step [OF this, of "drop head_size fl"] False show ?thesis by (simp add: drop_take add.commute)
    qed
    then show ?thesis using u b by simp
  qed
qed

definition example_head :: "u8 list" where
  "example_head = the (build_header False [0x68] (snd (GetHeaderSize example_align 1 example_disk_obj)))"

definition example_index :: dc_index where
  "example_index = do_index (snd (GetHeaderSize example_align 1 example_disk_obj))"



section \<open>The scan of the cache\<close>

definition all_dirs :: "nat \<Rightarrow> nat \<Rightarrow> (nat \<times> nat) list" where
  "all_dirs first second =
     map (Pair first) (if first \<le> CACHE_DIR_MASK1 then [second..<CACHE_DIR_MASK2 + 1] else []) @
     concat (map (\<lambda>f. map (Pair f) [0..<CACHE_DIR_MASK2 + 1]) [first + 1..<CACHE_DIR_MASK1 + 1])"

lemma all_dirs_next:
  "first \<le> CACHE_DIR_MASK1 \<Longrightarrow> CACHE_DIR_MASK2 < second \<Longrightarrow> all_dirs first second = all_dirs (first + 1) 0"
  by (cases "first < CACHE_DIR_MASK1") (simp_all add: all_dirs_def upt_conv_Cons)

lemma all_dirs_step:
  "first \<le> CACHE_DIR_MASK1 \<Longrightarrow> second \<le> CACHE_DIR_MASK2 \<Longrightarrow> all_dirs first second = (first, second) # all_dirs first (second + 1)"
  by (simp add: all_dirs_def upt_conv_Cons del: upt_Suc)

lemma recreate_index_rest:
  "recreate_index check n first second = (r, f, s, dirs) \<Longrightarrow> all_dirs first second = dirs @ all_dirs f s \<and> (r \<longrightarrow> all_dirs f s = [])"
proof (induction check n first second arbitrary: r f s dirs rule: recreate_index.induct)
  case (1 check n first second)
  consider "first > CACHE_DIR_MASK1" | "first \<le> CACHE_DIR_MASK1" "second > CACHE_DIR_MASK2"
    | "first \<le> CACHE_DIR_MASK1" "second \<le> CACHE_DIR_MASK2" "\<not> check n" | "first \<le> CACHE_DIR_MASK1" "second \<le> CACHE_DIR_MASK2" "check n" by linarith
  then show ?case
  proof cases
    case 1
    then show ?thesis using "1.prems" by (subst (asm) recreate_index.simps) (auto simp: all_dirs_def)
  next
    case 2
    then have "recreate_index check n (first + 1) 0 = (r, f, s, dirs)" using "1.prems" by (subst (asm) recreate_index.simps) simp
    then show ?thesis using "1.IH"(1) [of r f s dirs] 2 all_dirs_next [OF 2] by simp
  next
    case 3
    then show ?thesis using "1.prems" by (subst (asm) recreate_index.simps) auto
  next
    case 4
    obtain r' f' s' ds where d: "recreate_index check (n + 1) first (second + 1) = (r', f', s', ds)" by (metis prod_cases4)
    then have "r = r'" "f = f'" "s = s'" "dirs = (first, second) # ds" using "1.prems" 4 by (subst (asm) (2) recreate_index.simps, simp)+
    then show ?thesis using "1.IH"(2) [of r' f' s' ds] d 4 all_dirs_step [OF 4(1,2)] by simp
  qed
qed

end
