(* ===== verification/Response_Cache.thy ===== *)
theory Response_Cache
  imports Disk_Object
begin

text \<open>
  What may be cached, and for how long: \<^verbatim>\<open>src/KHttpResponseParser.cpp\<close> (the headers of a response), \<^verbatim>\<open>objCanCache\<close> of
  \<^verbatim>\<open>include/cache.h\<close>, \<^verbatim>\<open>check_object_expiration\<close> of \<^verbatim>\<open>include/http.h\<close>, \<^verbatim>\<open>include/KGuestCacheMark.h\<close>, and the parts of
  \<^verbatim>\<open>include/KHttpObject.h\<close> they use.

  Values of headers are taken apart by khttpd: \<open>hv_ops\<close> holds its parsers of times and numbers, the fields of a value and the
  tests of a field, the values a module hands over as a 64 bit number (\<open>hv_binary\<close>), and the limit on what a response may hold
  (\<open>hv_room\<close>). The validator of an object is that of theory
  \<^verbatim>\<open>Disk_Object\<close>. Times are seconds; \<^verbatim>\<open>last_verified\<close> and \<^verbatim>\<open>content_range_length\<close> share one field, as in the code. What
  \<^verbatim>\<open>AddVary\<close> does is in theory \<^verbatim>\<open>Object_Hash\<close>; here its answer is an argument. The flag
  \<^verbatim>\<open>RF_NO_BUFFER\<close> of the request is kept with the parser; what khttpd's \<^verbatim>\<open>parse_connection\<close> does to the connection is left out.
\<close>

section \<open>Objects and parsers\<close>

definition UINT_MAX32 :: int where "UINT_MAX32 = 4294967295"

datatype hdr =
    H_etag | H_content_range | H_content_length | H_date | H_last_modified | H_set_cookie | H_pragma | H_cache_control
  | H_vary | H_age | H_connection | H_content_encoding | H_expires | H_other nat | H_unknown string

datatype encoding = ENC_none | ENC_gzip | ENC_deflate | ENC_compress | ENC_br | ENC_zstd | ENC_any | ENC_unknow

record resp_obj =
  ro_no_cache :: bool
  ro_has_max_age :: bool
  ro_has_expires :: bool
  ro_must_revalidate :: bool
  ro_static :: bool
  ro_dead :: bool
  ro_guest :: bool
  ro_has_content_length :: bool
  ro_has_content_range :: bool
  ro_xsendfile :: bool
  ro_need_compress :: bool
  ro_max_age :: int
  ro_last_verified :: int
  ro_content_length :: int
  ro_encoding :: encoding
  ro_data :: obj_body
  ro_headers :: "(hdr \<times> string) list"

definition new_resp_obj :: "int \<Rightarrow> resp_obj" where
  "new_resp_obj now =
     \<lparr>ro_no_cache = False, ro_has_max_age = False, ro_has_expires = False, ro_must_revalidate = False, ro_static = False, ro_dead = False,
      ro_guest = False, ro_has_content_length = False, ro_has_content_range = False, ro_xsendfile = False, ro_need_compress = False,
      ro_max_age = 0, ro_last_verified = now, ro_content_length = 0, ro_encoding = ENC_none, ro_data = new_obj_body, ro_headers = []\<rparr>"

record resp_parser =
  rp_headers :: "(hdr \<times> string) list"
  rp_serverDate :: int
  rp_expireDate :: int
  rp_age :: int
  rp_has_s_maxage :: bool
  rp_cc_no_cache :: bool
  rp_no_buffer :: bool

definition new_resp_parser :: resp_parser where
  "new_resp_parser = \<lparr>rp_headers = [], rp_serverDate = 0, rp_expireDate = 0, rp_age = 0, rp_has_s_maxage = False, rp_cc_no_cache = False,
      rp_no_buffer = False\<rparr>"

record hv_ops =
  hv_time :: "string \<Rightarrow> int option"
  hv_int64 :: "string \<Rightarrow> int option"
  hv_atoi :: "string \<Rightarrow> int"
  hv_atol :: "string \<Rightarrow> int"
  hv_http_time :: "int \<Rightarrow> string"
  hv_fields :: "string \<Rightarrow> string list"
  hv_is :: "string \<Rightarrow> string \<Rightarrow> bool"
  hv_is_int :: "string \<Rightarrow> string \<Rightarrow> int option"
  hv_binary :: "string \<Rightarrow> int option"
  hv_room :: "(hdr \<times> string) list \<Rightarrow> hdr \<Rightarrow> string \<Rightarrow> bool"

type_synonym parse_state = "resp_parser \<times> resp_obj"

definition add_header :: "hv_ops \<Rightarrow> hdr \<Rightarrow> string \<Rightarrow> parse_state \<Rightarrow> bool \<times> parse_state" where
  "add_header ops a v = (\<lambda>(p, ob). if hv_room ops (rp_headers p) a v then (True, p\<lparr>rp_headers := rp_headers p @ [(a, v)]\<rparr>, ob) else (False, p, ob))"

definition force_cache :: "int \<Rightarrow> bool \<Rightarrow> resp_obj \<Rightarrow> bool \<times> resp_obj" where
  "force_cache now static_flag ob =
     (if ro_dead ob then (False, ob)
      else
        (let ob = ob\<lparr>ro_no_cache := False\<rparr> in
         (True, if static_flag
                then ob\<lparr>ro_must_revalidate := False, ro_data := set_last_modified (of_int now) (ro_data ob), ro_static := True\<rparr> else ob)))"

section \<open>The headers of a response\<close>

text \<open>One field of \<^verbatim>\<open>Cache-Control\<close>.\<close>

definition cache_control_field :: "hv_ops \<Rightarrow> int \<Rightarrow> string \<Rightarrow> parse_state \<Rightarrow> parse_state" where
  "cache_control_field ops now f = (\<lambda>(p, ob).
     let stop = \<not> ro_static ob \<and> (hv_is ops f ''no-store'' \<or> hv_is ops f ''no-cache'' \<or> hv_is ops f ''private'');
         p = (if stop then p\<lparr>rp_cc_no_cache := True\<rparr> else p);
         ob = (if stop then ob\<lparr>ro_no_cache := True\<rparr> else ob) in
     if hv_is ops f ''static'' then (p, snd (force_cache now True ob))
     else if hv_is ops f ''public'' then (p, if \<not> rp_cc_no_cache p then ob\<lparr>ro_no_cache := False\<rparr> else ob)
     else
       (case hv_is_int ops f ''max-age='' of
          Some n \<Rightarrow> (p, if \<not> rp_has_s_maxage p then ob\<lparr>ro_max_age := max n 0, ro_has_max_age := True\<rparr> else ob)
        | None \<Rightarrow>
            (case hv_is_int ops f ''s-maxage='' of
               Some n \<Rightarrow> (p\<lparr>rp_has_s_maxage := True\<rparr>, ob\<lparr>ro_max_age := max n 0, ro_has_max_age := True\<rparr>)
             | None \<Rightarrow> (p, if hv_is ops f ''must-revalidate'' then ob\<lparr>ro_must_revalidate := True\<rparr> else ob))))"

definition cache_control_value :: "hv_ops \<Rightarrow> int \<Rightarrow> string \<Rightarrow> parse_state \<Rightarrow> parse_state" where
  "cache_control_value ops now v s = fold (cache_control_field ops now) (hv_fields ops v) s"

definition content_encoding :: "string \<Rightarrow> resp_obj \<Rightarrow> resp_obj" where
  "content_encoding v ob =
     (if strcase_eq v ''gzip'' then ob\<lparr>ro_encoding := ENC_gzip\<rparr>
      else if strcase_eq v ''deflate'' then ob\<lparr>ro_encoding := ENC_deflate\<rparr>
      else if strcase_eq v ''compress'' then ob\<lparr>ro_encoding := ENC_compress\<rparr>
      else if strcase_eq v ''br'' then ob\<lparr>ro_encoding := ENC_br\<rparr>
      else if strcase_eq v ''zstd'' then ob\<lparr>ro_encoding := ENC_zstd\<rparr>
      else if strcase_eq v ''identity'' then ob\<lparr>ro_encoding := ENC_any\<rparr>
      else if v \<noteq> [] then ob\<lparr>ro_dead := True, ro_encoding := ENC_unknow\<rparr>
      else ob)"

definition value_bytes :: "string \<Rightarrow> u8 list" where
  "value_bytes v = map of_char v"

definition parse_response_header :: "hv_ops \<Rightarrow> int \<Rightarrow> (string \<Rightarrow> bool) \<Rightarrow> hdr \<Rightarrow> string \<Rightarrow> parse_state \<Rightarrow> bool \<times> parse_state" where
  "parse_response_header ops now add_vary a v = (\<lambda>(p, ob).
     case a of
       H_etag \<Rightarrow>
         (case (case ob_validator (ro_data ob) of
                  CTime t \<Rightarrow> if t \<noteq> 0 \<and> condition_is_time (ob_i (ro_data ob))
                             then add_header ops H_last_modified (hv_http_time ops (sint t)) (p, ob) else (True, p, ob)
                | CEtag e \<Rightarrow> (True, p, ob)) of
            (False, s) \<Rightarrow> (False, s)
          | (True, p, ob) \<Rightarrow> (True, p, ob\<lparr>ro_data := set_etag (value_bytes v) (ro_data ob)\<rparr>))
     | H_content_range \<Rightarrow>
         (case hv_binary ops v of
            Some n \<Rightarrow> (True, p, ob\<lparr>ro_last_verified := n, ro_has_content_range := True\<rparr>)
          | None \<Rightarrow>
              (case cut_at (CHR ''/'') v of
                 (_, Some r) \<Rightarrow>
                   add_header ops a v (p, if r \<noteq> [] then ob\<lparr>ro_last_verified := hv_atol ops r, ro_has_content_range := True\<rparr> else ob)
               | (_, None) \<Rightarrow> add_header ops a v (p, ob)))
     | H_content_length \<Rightarrow>
         (case hv_int64 ops v of None \<Rightarrow> (False, p, ob) | Some n \<Rightarrow> (True, p, ob\<lparr>ro_content_length := n, ro_has_content_length := True\<rparr>))
     | H_date \<Rightarrow> add_header ops a v (case hv_time ops v of None \<Rightarrow> p | Some t \<Rightarrow> p\<lparr>rp_serverDate := t\<rparr>, ob)
     | H_last_modified \<Rightarrow>
         (case hv_time ops v of
            None \<Rightarrow> (True, p, ob)
          | Some t \<Rightarrow>
              if has_validator (ob_validator (ro_data ob)) \<and> \<not> condition_is_time (ob_i (ro_data ob)) then add_header ops a v (p, ob)
              else (True, p, ob\<lparr>ro_data := set_last_modified (of_int t) (ro_data ob)\<rparr>))
     | H_set_cookie \<Rightarrow> add_header ops a v (p, if \<not> ro_static ob then ob\<lparr>ro_no_cache := True\<rparr> else ob)
     | H_pragma \<Rightarrow> add_header ops a v (p, if \<exists>f\<in>set (hv_fields ops v). hv_is ops f ''no-cache'' then ob\<lparr>ro_no_cache := True\<rparr> else ob)
     | H_cache_control \<Rightarrow>
         (case cache_control_value ops now v (p, ob) of (p, ob) \<Rightarrow>
          if ro_static ob then (True, p, ob) else add_header ops a v (p, ob))
     | H_vary \<Rightarrow> if add_vary v then (True, p, ob) else add_header ops a v (p, ob)
     | H_age \<Rightarrow> (True, p\<lparr>rp_age := hv_atoi ops v mod (UINT_MAX32 + 1)\<rparr>, ob)
     | H_connection \<Rightarrow> (True, p, ob)
     | H_content_encoding \<Rightarrow>
         if strcase_eq v ''none'' then (True, p, ob) else add_header ops a v (p, content_encoding v ob)
     | H_expires \<Rightarrow>
         add_header ops a v
           (if \<not> ro_has_expires ob
            then (p\<lparr>rp_expireDate := (case hv_time ops v of None \<Rightarrow> 0 | Some t \<Rightarrow> t)\<rparr>, ob\<lparr>ro_has_expires := True\<rparr>) else (p, ob))
     | H_other n \<Rightarrow> add_header ops a v (p, ob)
     | H_unknown name \<Rightarrow> (True, p, ob))"

definition parse_unknow_header :: "hv_ops \<Rightarrow> bool \<Rightarrow> string \<Rightarrow> string \<Rightarrow> parse_state \<Rightarrow> bool \<times> parse_state" where
  "parse_unknow_header ops no_x_sendfile attr v = (\<lambda>(p, ob).
     let x = attr \<noteq> [] \<and> hd attr \<in> {CHR ''x'', CHR ''X''} in
     if x \<and> \<not> no_x_sendfile \<and> (strcase_eq attr ''X-Accel-Redirect'' \<or> strcase_eq attr ''X-Proxy-Redirect'') then
       add_header ops (H_unknown attr) v (p, ob\<lparr>ro_xsendfile := True\<rparr>)
     else if x \<and> strcase_eq attr ''X-Gzip'' then (True, p, ob\<lparr>ro_need_compress := True\<rparr>)
     else if x \<and> strcase_eq attr ''X-No-Buffer'' then (True, p\<lparr>rp_no_buffer := True\<rparr>, ob)
     else add_header ops (H_unknown attr) v (p, if strcase_eq attr ''Trailer'' then ob\<lparr>ro_dead := True\<rparr> else ob))"

text \<open>The headers of a response, in the order they come: the first one that is refused ends the response.\<close>

definition st_write_header :: "hv_ops \<Rightarrow> int \<Rightarrow> (string \<Rightarrow> bool) \<Rightarrow> bool \<Rightarrow> hdr \<times> string \<Rightarrow> parse_state \<Rightarrow> bool \<times> parse_state" where
  "st_write_header ops now add_vary no_x_sendfile = (\<lambda>(a, v).
     case a of H_unknown n \<Rightarrow> parse_unknow_header ops no_x_sendfile n v | _ \<Rightarrow> parse_response_header ops now add_vary a v)"

fun st_write_headers :: "hv_ops \<Rightarrow> int \<Rightarrow> (string \<Rightarrow> bool) \<Rightarrow> bool \<Rightarrow> (hdr \<times> string) list \<Rightarrow> parse_state \<Rightarrow> bool \<times> parse_state" where
  "st_write_headers ops now av nx [] s = (True, s)"
| "st_write_headers ops now av nx (h # hs) s =
     (case st_write_header ops now av nx h s of (True, s) \<Rightarrow> st_write_headers ops now av nx hs s | (False, s) \<Rightarrow> (False, s))"

section \<open>The end of the headers\<close>

definition response_age :: "int \<Rightarrow> int \<Rightarrow> resp_parser \<Rightarrow> int" where
  "response_age now request_time p =
     (let apparent_age = (if now > rp_serverDate p then (now - rp_serverDate p) mod (UINT_MAX32 + 1) else 0);
          corrected_received_age = max apparent_age (rp_age p);
          response_delay = (if now > request_time then now - request_time else 0) in
      min (corrected_received_age + response_delay) UINT_MAX32)"

definition commit_headers :: "parse_state \<Rightarrow> parse_state" where
  "commit_headers = (\<lambda>(p, ob). (p\<lparr>rp_headers := []\<rparr>, ob\<lparr>ro_headers := rp_headers p @ ro_headers ob\<rparr>))"

definition end_parse :: "int \<Rightarrow> int \<Rightarrow> int \<Rightarrow> parse_state \<Rightarrow> parse_state" where
  "end_parse now request_time body_size = (\<lambda>(p, ob).
     let ob = (if body_size \<ge> 0 then ob\<lparr>ro_has_content_length := True, ro_content_length := body_size\<rparr> else ob);
         ob = (if \<not> has_validator (ob_validator (ro_data ob)) \<and> \<not> ro_has_max_age ob \<and> \<not> ro_has_expires ob then ob\<lparr>ro_no_cache := True\<rparr> else ob) in
     commit_headers
       (if ro_no_cache ob then (p, ob)
        else
          (let p = (if rp_serverDate p = 0 then p\<lparr>rp_serverDate := now\<rparr> else p);
               p = p\<lparr>rp_age := response_age now request_time p\<rparr>;
               ob = (if \<not> ro_has_max_age ob \<and> ro_has_expires ob
                     then ob\<lparr>ro_max_age := min (if rp_expireDate p > rp_serverDate p then rp_expireDate p - rp_serverDate p else 0) UINT_MAX32\<rparr> else ob);
               ob = (if rp_age p > 0 \<and> \<not> ro_has_content_range ob
                     then ob\<lparr>ro_last_verified := (if rp_age p \<ge> now then 0 else now - rp_age p)\<rparr> else ob) in
           (p, ob))))"

section \<open>Storing and using objects\<close>

definition objCanCache :: "bool \<Rightarrow> bool \<Rightarrow> resp_obj \<Rightarrow> bool \<times> resp_obj" where
  "objCanCache default_cache has_authorization ob =
     (if \<not> default_cache then (False, ob)
      else (let ob = (if has_authorization then ob\<lparr>ro_must_revalidate := True\<rparr> else ob) in (\<not> ro_dead ob \<and> \<not> ro_no_cache ob, ob)))"

definition get_current_age :: "int \<Rightarrow> resp_obj \<Rightarrow> int" where
  "get_current_age now ob = (if now \<le> ro_last_verified ob then 0 else min (now - ro_last_verified ob) UINT_MAX32)"

record age_rq =
  ar_guest :: bool
  ar_no_cache :: bool
  ar_double_expire :: bool

text \<open>The answer, and the request, whose flag \<^verbatim>\<open>RQ_HAS_NO_CACHE\<close> may be cleared.\<close>

definition check_object_expiration :: "int \<Rightarrow> int \<Rightarrow> age_rq \<Rightarrow> resp_obj \<Rightarrow> bool \<times> age_rq" where
  "check_object_expiration refresh_time now rq ob =
     (if ro_guest ob \<and> \<not> ar_guest rq then (True, rq)
      else if ro_must_revalidate ob then (True, rq)
      else if ar_no_cache rq then (True, rq)
      else if ro_last_verified ob = 0 then (True, rq)
      else
        (let freshness_lifetime = (if ro_has_max_age ob \<or> ro_has_expires ob then ro_max_age ob else refresh_time);
             freshness_lifetime = (if ar_double_expire rq
                then (if freshness_lifetime > UINT_MAX32 div 2 then UINT_MAX32 else freshness_lifetime * 2) else freshness_lifetime);
             rq = (if ar_double_expire rq then rq\<lparr>ar_no_cache := False\<rparr> else rq) in
         (get_current_age now ob \<ge> freshness_lifetime, rq)))"

record guest_mark =
  gm_max_age :: int
  gm_last_modified :: bool
  gm_soft :: bool
  gm_must_revalidate :: bool
  gm_skip_set_cookie :: bool

definition is_cookie :: "hdr \<Rightarrow> bool" where
  "is_cookie a = (case a of H_set_cookie \<Rightarrow> True | H_unknown n \<Rightarrow> strcase_eq n ''Set-Cookie'' \<or> strcase_eq n ''Set-Cookie2'' | _ \<Rightarrow> False)"

definition guest_process :: "int \<Rightarrow> bool \<Rightarrow> guest_mark \<Rightarrow> resp_obj \<Rightarrow> bool \<times> resp_obj" where
  "guest_process now rf_guest m ob =
     (if \<not> rf_guest \<or> \<not> ro_no_cache ob then (False, ob)
      else if \<not> gm_skip_set_cookie m \<and> (\<exists>h\<in>set (ro_headers ob). is_cookie (fst h)) then (False, ob)
      else
        (case force_cache now (gm_last_modified m) ob of
           (False, ob) \<Rightarrow> (False, ob)
         | (True, ob) \<Rightarrow>
             let ob = (if gm_skip_set_cookie m then ob\<lparr>ro_headers := filter (\<lambda>h. \<not> is_cookie (fst h)) (ro_headers ob)\<rparr> else ob);
                 ob = (if gm_max_age m > 0 then
                         (if gm_soft m then ob\<lparr>ro_max_age := gm_max_age m, ro_has_expires := True\<rparr>
                          else ob\<lparr>ro_max_age := gm_max_age m, ro_has_max_age := True\<rparr>) else ob);
                 ob = (if gm_must_revalidate m then ob\<lparr>ro_must_revalidate := True\<rparr> else ob) in
             (True, ob\<lparr>ro_guest := True\<rparr>)))"

section \<open>Invariants of the parser\<close>

lemma add_header_keeps:
  assumes "add_header ops a v (p, ob) = (b, p', ob')"
  shows "ob' = ob \<and> rp_cc_no_cache p' = rp_cc_no_cache p \<and> rp_has_s_maxage p' = rp_has_s_maxage p \<and> rp_serverDate p' = rp_serverDate p
    \<and> rp_expireDate p' = rp_expireDate p \<and> rp_age p' = rp_age p"
  using assms by (auto simp: add_header_def split: if_splits)

text \<open>A property of the state that every field of \<^verbatim>\<open>Cache-Control\<close> keeps, and one that a field establishes.\<close>

lemma fold_keeps:
  assumes "\<And>f s. f \<in> set fs \<Longrightarrow> P s \<Longrightarrow> P (g f s)" "P s"
  shows "P (fold g fs s)"
  using assms by (induction fs arbitrary: s) auto

lemma fold_establishes:
  assumes "\<And>f s. f \<in> set fs \<Longrightarrow> Q s \<Longrightarrow> Q (g f s)" "\<And>f s. f \<in> set fs \<Longrightarrow> P s \<Longrightarrow> P (g f s)"
    and "f \<in> set fs" "\<And>s. P s \<Longrightarrow> Q (g f s)" "P s"
  shows "Q (fold g fs s)"
proof -
  obtain xs ys where fs: "fs = xs @ f # ys" using assms(3) by (meson split_list)
  have "P (fold g xs s)" by (rule fold_keeps [where g = g]) (use assms(2,5) fs in auto)
  then have "Q (g f (fold g xs s))" by (rule assms(4))
  then have "Q (fold g ys (g f (fold g xs s)))" by (rule fold_keeps [where g = g, rotated]) (use assms(1) fs in auto)
  then show ?thesis by (simp add: fs)
qed

lemma headers_keep:
  assumes "\<And>h s b s'. h \<in> set hs \<Longrightarrow> P s \<Longrightarrow> st_write_header ops now av nx h s = (b, s') \<Longrightarrow> P s'" "P s"
    and "st_write_headers ops now av nx hs s = (b, s')"
  shows "P s'"
  using assms
proof (induction hs arbitrary: s)
  case Nil
  then show ?case by simp
next
  case (Cons h hs)
  obtain c t where e: "st_write_header ops now av nx h s = (c, t)" by (cases "st_write_header ops now av nx h s") auto
  have t: "P t" using Cons.prems(1,2) e by (metis list.set_intros(1))
  show ?case
  proof (cases c)
    case True
    then show ?thesis using Cons.prems(3) e by (intro Cons.IH [OF _ t]) (auto intro: Cons.prems(1))
  next
    case False
    then show ?thesis using Cons.prems(3) t e by simp
  qed
qed

lemma headers_append:
  "st_write_headers ops now av nx (xs @ ys) s =
     (case st_write_headers ops now av nx xs s of (True, s) \<Rightarrow> st_write_headers ops now av nx ys s | (False, s) \<Rightarrow> (False, s))"
  by (induction xs arbitrary: s) (auto split: prod.splits bool.splits)

lemma headers_establish:
  assumes "\<And>h s b s'. h \<in> set hs \<Longrightarrow> Q s \<Longrightarrow> st_write_header ops now av nx h s = (b, s') \<Longrightarrow> Q s'"
    and "\<And>h s b s'. h \<in> set hs \<Longrightarrow> P s \<Longrightarrow> st_write_header ops now av nx h s = (b, s') \<Longrightarrow> P s'"
    and "h \<in> set hs" "\<And>s b s'. P s \<Longrightarrow> st_write_header ops now av nx h s = (b, s') \<Longrightarrow> Q s'" "P s"
    and "st_write_headers ops now av nx hs s = (True, s')"
  shows "Q s'"
proof -
  obtain xs ys where hs: "hs = xs @ h # ys" using assms(3) by (meson split_list)
  obtain t where t: "st_write_headers ops now av nx xs s = (True, t)" "st_write_headers ops now av nx (h # ys) t = (True, s')"
    using assms(6) by (auto simp: hs headers_append split: prod.splits bool.splits)
  obtain u where u: "st_write_header ops now av nx h t = (True, u)" "st_write_headers ops now av nx ys u = (True, s')"
    using t(2) by (auto split: prod.splits bool.splits)
  have sub: "set xs \<subseteq> set hs" "set ys \<subseteq> set hs" by (auto simp: hs)
  have "P t" by (rule headers_keep [where P = P, OF _ assms(5) t(1)]) (use assms(2) sub in blast)
  then have "Q u" using assms(4) u(1) by blast
  then show ?thesis by (rule headers_keep [where P = Q, OF _ _ u(2), rotated]) (use assms(1) sub in blast)
qed

section \<open>What is never stored\<close>

text \<open>
  A field that forbids storing the response, one that asks for it by force, and a header that makes the object dead: an
  encoding the server does not know, and the announcement of trailers.
\<close>

definition stop_field :: "hv_ops \<Rightarrow> string \<Rightarrow> bool" where
  "stop_field ops f \<longleftrightarrow> hv_is ops f ''no-store'' \<or> hv_is ops f ''no-cache'' \<or> hv_is ops f ''private''"

definition static_header :: "hv_ops \<Rightarrow> hdr \<times> string \<Rightarrow> bool" where
  "static_header ops h \<longleftrightarrow> fst h = H_cache_control \<and> (\<exists>f\<in>set (hv_fields ops (snd h)). hv_is ops f ''static'')"

definition stop_header :: "hv_ops \<Rightarrow> hdr \<times> string \<Rightarrow> bool" where
  "stop_header ops h \<longleftrightarrow> fst h = H_cache_control \<and> (\<exists>f\<in>set (hv_fields ops (snd h)). stop_field ops f)"

definition known_encoding :: "string \<Rightarrow> bool" where
  "known_encoding v \<longleftrightarrow> v = [] \<or> (\<exists>e\<in>{''none'', ''gzip'', ''deflate'', ''compress'', ''br'', ''zstd'', ''identity''}. strcase_eq v e)"

definition dead_header :: "hdr \<times> string \<Rightarrow> bool" where
  "dead_header h \<longleftrightarrow> (case fst h of
     H_content_encoding \<Rightarrow> \<not> known_encoding (snd h) | H_unknown n \<Rightarrow> strcase_eq n ''Trailer'' | _ \<Rightarrow> False)"

definition not_static :: "parse_state \<Rightarrow> bool" where
  "not_static s \<longleftrightarrow> \<not> ro_static (snd s)"

definition stopped :: "parse_state \<Rightarrow> bool" where
  "stopped s \<longleftrightarrow> \<not> ro_static (snd s) \<and> ro_no_cache (snd s) \<and> rp_cc_no_cache (fst s)"

definition dead :: "parse_state \<Rightarrow> bool" where
  "dead s \<longleftrightarrow> ro_dead (snd s)"

lemmas state_defs = not_static_def stopped_def dead_def

lemma field_keeps:
  "\<not> hv_is ops f ''static'' \<Longrightarrow> not_static s \<Longrightarrow> not_static (cache_control_field ops now f s)"
  "\<not> hv_is ops f ''static'' \<Longrightarrow> stopped s \<Longrightarrow> stopped (cache_control_field ops now f s)"
  "dead s \<Longrightarrow> dead (cache_control_field ops now f s)"
  by (cases s; simp add: state_defs cache_control_field_def force_cache_def Let_def split: option.split)+

lemma field_stops:
  "stop_field ops f \<Longrightarrow> \<not> hv_is ops f ''static'' \<Longrightarrow> not_static s \<Longrightarrow> stopped (cache_control_field ops now f s)"
  by (cases s; simp add: state_defs stop_field_def cache_control_field_def Let_def split: option.split)

lemma value_keeps:
  "\<forall>f\<in>set (hv_fields ops v). \<not> hv_is ops f ''static'' \<Longrightarrow> not_static s \<Longrightarrow> not_static (cache_control_value ops now v s)"
  "\<forall>f\<in>set (hv_fields ops v). \<not> hv_is ops f ''static'' \<Longrightarrow> stopped s \<Longrightarrow> stopped (cache_control_value ops now v s)"
  "dead s \<Longrightarrow> dead (cache_control_value ops now v s)"
  unfolding cache_control_value_def by (rule fold_keeps; simp add: field_keeps)+

lemma value_stops:
  assumes "\<forall>f\<in>set (hv_fields ops v). \<not> hv_is ops f ''static''" "f \<in> set (hv_fields ops v)" "stop_field ops f" "not_static s"
  shows "stopped (cache_control_value ops now v s)"
  unfolding cache_control_value_def
  by (rule fold_establishes [where P = not_static, OF _ _ assms(2)]) (use assms in \<open>simp_all add: field_keeps field_stops\<close>)

text \<open>Every header but \<^verbatim>\<open>Cache-Control\<close> leaves the three alone, apart from \<^verbatim>\<open>Set-Cookie\<close> and \<^verbatim>\<open>Pragma\<close>, which may forbid storing too.\<close>

definition leaves :: "parse_state \<Rightarrow> parse_state \<Rightarrow> bool" where
  "leaves = (\<lambda>(p, ob) (p', ob').
     ro_static ob' = ro_static ob \<and> (ro_no_cache ob \<longrightarrow> ro_no_cache ob') \<and> (ro_dead ob \<longrightarrow> ro_dead ob')
     \<and> rp_cc_no_cache p' = rp_cc_no_cache p \<and> rp_has_s_maxage p' = rp_has_s_maxage p
     \<and> ro_max_age ob' = ro_max_age ob \<and> ro_has_max_age ob' = ro_has_max_age ob)"

lemma leaves_pair:
  "leaves (p, ob) (p', ob') \<longleftrightarrow>
     ro_static ob' = ro_static ob \<and> (ro_no_cache ob \<longrightarrow> ro_no_cache ob') \<and> (ro_dead ob \<longrightarrow> ro_dead ob')
     \<and> rp_cc_no_cache p' = rp_cc_no_cache p \<and> rp_has_s_maxage p' = rp_has_s_maxage p
     \<and> ro_max_age ob' = ro_max_age ob \<and> ro_has_max_age ob' = ro_has_max_age ob"
  by (simp add: leaves_def)

lemma leaves_add: "leaves s t \<Longrightarrow> leaves s (snd (add_header ops a v t))"
  by (cases s; cases t) (simp add: leaves_def add_header_def)

lemma leaves_encoding: "leaves (p, ob) (p, content_encoding v ob)"
  by (simp add: leaves_def content_encoding_def)

lemma leaves_known:
  assumes "a \<noteq> H_cache_control"
  shows "leaves (p, ob) (snd (parse_response_header ops now av a v (p, ob)))"
proof (cases a)
  case H_etag
  show ?thesis
    by (auto simp: H_etag parse_response_header_def leaves_def add_header_def split: validator.split)
next
  case H_content_encoding
  then show ?thesis by (auto simp: parse_response_header_def leaves_pair intro!: leaves_add leaves_encoding)
qed (use assms in \<open>auto simp: parse_response_header_def leaves_pair split: option.split prod.split intro!: leaves_add\<close>)

lemma leaves_unknown: "leaves (p, ob) (snd (parse_unknow_header ops nx n v (p, ob)))"
  by (auto simp: parse_unknow_header_def leaves_pair Let_def intro!: leaves_add)

lemma header_leaves:
  assumes "a \<noteq> H_cache_control"
  shows "leaves s (snd (st_write_header ops now av nx (a, v) s))"
  using assms leaves_known [of a] leaves_unknown by (cases s; cases a) (simp_all add: st_write_header_def)

text \<open>And what a \<^verbatim>\<open>Cache-Control\<close> header does is what its value does.\<close>

lemma header_cache_control:
  "\<exists>b q hs. st_write_header ops now av nx (H_cache_control, v) s = (b, q)
     \<and> q = ((fst (cache_control_value ops now v s))\<lparr>rp_headers := hs\<rparr>, snd (cache_control_value ops now v s))"
proof -
  obtain p ob where c: "cache_control_value ops now v s = (p, ob)" by (cases "cache_control_value ops now v s") auto
  have "\<exists>hs. p = p\<lparr>rp_headers := hs\<rparr>" by (rule exI [of _ "rp_headers p"]) simp
  moreover have "st_write_header ops now av nx (H_cache_control, v) s = (if ro_static ob then (True, p, ob) else add_header ops H_cache_control v (p, ob))"
    using c by (cases s) (simp add: st_write_header_def parse_response_header_def)
  ultimately show ?thesis by (auto simp: c add_header_def)
qed

lemma header_state:
  assumes "st_write_header ops now av nx h s = (b, s')"
  obtains (leaves) "fst h \<noteq> H_cache_control" "leaves s s'"
  | (cc) hs where "fst h = H_cache_control" "s' = ((fst (cache_control_value ops now (snd h) s))\<lparr>rp_headers := hs\<rparr>, snd (cache_control_value ops now (snd h) s))"
  using assms header_leaves [of "fst h" s ops now av nx "snd h"] header_cache_control [of ops now av nx "snd h" s]
  by (cases "fst h = H_cache_control"; cases h) auto

lemma state_headers [simp]:
  "not_static (p\<lparr>rp_headers := hs\<rparr>, ob) = not_static (p, ob)" "stopped (p\<lparr>rp_headers := hs\<rparr>, ob) = stopped (p, ob)"
  "dead (p\<lparr>rp_headers := hs\<rparr>, ob) = dead (p, ob)"
  by (simp_all add: state_defs)

lemma header_keeps:
  assumes "st_write_header ops now av nx h s = (b, s')"
  shows "\<not> static_header ops h \<Longrightarrow> not_static s \<Longrightarrow> not_static s'"
    and "\<not> static_header ops h \<Longrightarrow> stopped s \<Longrightarrow> stopped s'"
    and "dead s \<Longrightarrow> dead s'"
  using assms
  by (cases rule: header_state; (cases s; cases s'; simp add: state_defs leaves_pair; fail)?; simp add: value_keeps static_header_def)+

lemma header_stops:
  assumes "st_write_header ops now av nx h s = (b, s')" "stop_header ops h" "\<not> static_header ops h" "not_static s"
  shows "stopped s'"
  using assms(1)
proof (cases rule: header_state)
  case (cc hs)
  obtain f where "f \<in> set (hv_fields ops (snd h))" "stop_field ops f" using assms(2) by (auto simp: stop_header_def)
  then have "stopped (cache_control_value ops now (snd h) s)"
    using assms(3,4) cc(1) by (intro value_stops) (auto simp: static_header_def)
  then show ?thesis by (simp add: cc(2))
qed (use assms in \<open>simp add: stop_header_def\<close>)

lemma header_dies:
  assumes "st_write_header ops now av nx h s = (b, s')" "dead_header h"
  shows "dead s'"
proof (cases h)
  case (Pair a v)
  then show ?thesis
    using assms
    by (cases s; cases a; cases "strcase_eq v ''none''")
      (auto simp: dead_header_def known_encoding_def dead_def st_write_header_def parse_response_header_def parse_unknow_header_def content_encoding_def
        add_header_def Let_def strcase_eq_def split: if_splits)
qed

lemma end_parse_keeps:
  "ro_no_cache (snd s) \<Longrightarrow> ro_no_cache (snd (end_parse now rt n s))" "ro_dead (snd (end_parse now rt n s)) = ro_dead (snd s)"
  by (cases s; simp add: end_parse_def commit_headers_def Let_def split: prod.split)+

text \<open>
  C3. A response that must not be shared is not put in the cache, whatever the order of its headers: when one of them is a
  \<^verbatim>\<open>Cache-Control\<close> with \<^verbatim>\<open>no-store\<close>, \<^verbatim>\<open>no-cache\<close> or \<^verbatim>\<open>private\<close> and none forces the cache with \<^verbatim>\<open>static\<close> (a later \<^verbatim>\<open>public\<close> does not undo
  it), or when one has an encoding the server does not know or announces trailers (even with \<^verbatim>\<open>static\<close>), the object fails
  \<^verbatim>\<open>objCanCache\<close> once the headers have been read.
\<close>

theorem no_store_never_cached:
  assumes "st_write_headers ops now av nx hs (p, ob) = (True, s)"
    and "(\<exists>h\<in>set hs. dead_header h)
      \<or> \<not> ro_static ob \<and> (\<forall>h\<in>set hs. \<not> static_header ops h) \<and> (\<exists>h\<in>set hs. stop_header ops h)"
  shows "\<not> fst (objCanCache default_cache auth (snd (end_parse end_time rt n s)))"
proof -
  have "dead s \<or> stopped s"
    using assms(2)
  proof (elim disjE conjE bexE)
    fix h assume h: "h \<in> set hs" "dead_header h"
    have "dead s"
      by (rule headers_establish [where P = "\<lambda>_. True", OF _ _ h(1) _ _ assms(1)]) (use h(2) header_keeps(3) header_dies in \<open>blast+\<close>)
    then show ?thesis ..
  next
    fix h assume h: "\<not> ro_static ob" "\<forall>h\<in>set hs. \<not> static_header ops h" "h \<in> set hs" "stop_header ops h"
    have "stopped s"
      by (rule headers_establish [where P = not_static, OF _ _ h(3) _ _ assms(1)])
        (use h header_keeps header_stops in \<open>(blast | simp add: not_static_def)+\<close>)
    then show ?thesis ..
  qed
  then show ?thesis by (auto simp: objCanCache_def Let_def dead_def stopped_def end_parse_keeps)
qed

section \<open>How long an object is fresh\<close>

text \<open>
  The age of the response when its headers have been read (the clock and the \<^verbatim>\<open>Date\<close> and \<^verbatim>\<open>Age\<close> headers), and the time it stays
  fresh from the moment the back end made it.
\<close>

definition start_age :: "int \<Rightarrow> int \<Rightarrow> resp_parser \<Rightarrow> int" where
  "start_age now rt p =
     (let date = (if rp_serverDate p = 0 then now else rp_serverDate p) in
      min (max (max 0 (now - date)) (rp_age p) + max 0 (now - rt)) UINT_MAX32)"

definition fresh_for :: "int \<Rightarrow> int \<Rightarrow> bool \<Rightarrow> parse_state \<Rightarrow> int" where
  "fresh_for refresh_time now double = (\<lambda>(p, ob).
     let date = (if rp_serverDate p = 0 then now else rp_serverDate p);
         t = (if ro_has_max_age ob then ro_max_age ob
              else if ro_has_expires ob then min (max 0 (rp_expireDate p - date)) UINT_MAX32 else refresh_time) in
     if double then min UINT_MAX32 (2 * t) else t)"

lemma start_age_bounds: "0 \<le> rp_age p \<Longrightarrow> 0 \<le> start_age now rt p" "start_age now rt p \<le> UINT_MAX32"
  by (auto simp: start_age_def Let_def UINT_MAX32_def)

lemma response_age_start:
  assumes "now - rp_serverDate p \<le> UINT_MAX32 \<or> rp_serverDate p = 0" "0 \<le> rp_age p"
  shows "response_age now rt (if rp_serverDate p = 0 then p\<lparr>rp_serverDate := now\<rparr> else p) = start_age now rt p"
proof -
  have "rp_serverDate p \<noteq> 0 \<Longrightarrow> rp_serverDate p < now \<Longrightarrow> (now - rp_serverDate p) mod (UINT_MAX32 + 1) = now - rp_serverDate p"
    using assms(1) by (intro mod_pos_pos_trivial) auto
  then show ?thesis using assms(2) by (auto simp: response_age_def start_age_def Let_def)
qed

lemma end_parse_object:
  assumes "\<not> ro_no_cache (snd (end_parse now rt n (p, ob)))" "\<not> ro_has_content_range ob" "ro_last_verified ob = now" "0 \<le> rp_age p"
    and "now - rp_serverDate p \<le> UINT_MAX32 \<or> rp_serverDate p = 0"
  shows "ro_last_verified (snd (end_parse now rt n (p, ob))) = (if start_age now rt p \<ge> now \<and> 0 < start_age now rt p then 0 else now - start_age now rt p)"
    and "ro_has_max_age (snd (end_parse now rt n (p, ob))) = ro_has_max_age ob"
    and "ro_has_expires (snd (end_parse now rt n (p, ob))) = ro_has_expires ob"
    and "ro_must_revalidate (snd (end_parse now rt n (p, ob))) = ro_must_revalidate ob"
    and "ro_guest (snd (end_parse now rt n (p, ob))) = ro_guest ob"
    and "(if ro_has_max_age ob \<or> ro_has_expires ob then ro_max_age (snd (end_parse now rt n (p, ob))) else refresh_time)
      = fresh_for refresh_time now False (p, ob)"
  using assms start_age_bounds(1) [OF assms(4), of now rt] response_age_start [OF assms(5,4), of rt]
  by (auto simp: end_parse_def commit_headers_def Let_def fresh_for_def UINT_MAX32_def split: if_splits)


text \<open>The lifetime of shared caches.\<close>

definition shared_age :: "int \<Rightarrow> parse_state \<Rightarrow> bool" where
  "shared_age n s \<longleftrightarrow> rp_has_s_maxage (fst s) \<and> ro_has_max_age (snd s) \<and> ro_max_age (snd s) = max n 0"

lemma field_shared_keeps:
  assumes "hv_is_int ops f ''s-maxage='' \<in> {None, Some n}" "shared_age n s"
  shows "shared_age n (cache_control_field ops now f s)"
  using assms by (cases s) (auto simp: shared_age_def cache_control_field_def force_cache_def Let_def split: option.split)

lemma field_shared:
  assumes "hv_is_int ops f ''s-maxage='' = Some n" "hv_is_int ops f ''max-age='' = None" "\<not> hv_is ops f ''static''" "\<not> hv_is ops f ''public''"
  shows "shared_age n (cache_control_field ops now f s)"
  using assms by (cases s) (simp add: shared_age_def cache_control_field_def Let_def)

definition only_shared :: "hv_ops \<Rightarrow> int \<Rightarrow> hdr \<times> string \<Rightarrow> bool" where
  "only_shared ops n h \<longleftrightarrow> (fst h = H_cache_control \<longrightarrow> (\<forall>f\<in>set (hv_fields ops (snd h)). hv_is_int ops f ''s-maxage='' \<in> {None, Some n}))"

lemma header_shared_keeps:
  assumes "st_write_header ops now av nx h s = (b, s')" "only_shared ops n h" "shared_age n s"
  shows "shared_age n s'"
  using assms(1)
proof (cases rule: header_state)
  case leaves
  then show ?thesis using assms(3) by (cases s; cases s') (simp add: shared_age_def leaves_pair)
next
  case (cc hs)
  have "shared_age n (cache_control_value ops now (snd h) s)"
    unfolding cache_control_value_def
    by (rule fold_keeps) (use assms(2,3) cc(1) in \<open>auto simp: only_shared_def field_shared_keeps\<close>)
  then show ?thesis by (simp add: cc(2) shared_age_def)
qed

lemma header_shared:
  assumes "st_write_header ops now av nx (H_cache_control, v) s = (b, s')" "only_shared ops n (H_cache_control, v)"
    and "f \<in> set (hv_fields ops v)" "hv_is_int ops f ''s-maxage='' = Some n" "hv_is_int ops f ''max-age='' = None"
    and "\<not> hv_is ops f ''static''" "\<not> hv_is ops f ''public''"
  shows "shared_age n s'"
  using assms(1)
proof (cases rule: header_state)
  case (cc hs)
  have "shared_age n (cache_control_value ops now v s)"
    unfolding cache_control_value_def
    by (rule fold_establishes [where P = "\<lambda>_. True", OF _ _ assms(3)])
      (use assms(2,4-7) in \<open>auto simp: only_shared_def field_shared_keeps field_shared\<close>)
  then show ?thesis using cc(2) by (simp add: shared_age_def)
qed simp

text \<open>
  The lifetime for shared caches wins: when the headers of a response say \<^verbatim>\<open>s-maxage\<close> once (or several times alike), the object
  keeps that lifetime, whatever \<^verbatim>\<open>max-age\<close> fields and \<^verbatim>\<open>Expires\<close> headers stand before or after it.
\<close>

theorem s_maxage_wins:
  assumes "st_write_headers ops now av nx hs s = (True, s')" "\<forall>h\<in>set hs. only_shared ops n h"
    and "(H_cache_control, v) \<in> set hs" "f \<in> set (hv_fields ops v)" "hv_is_int ops f ''s-maxage='' = Some n"
    and "hv_is_int ops f ''max-age='' = None" "\<not> hv_is ops f ''static''" "\<not> hv_is ops f ''public''"
  shows "ro_has_max_age (snd (end_parse end_time rt m s')) \<and> ro_max_age (snd (end_parse end_time rt m s')) = max n 0"
proof -
  have "shared_age n s'"
    by (rule headers_establish [where P = "\<lambda>_. True", OF _ _ assms(3) _ _ assms(1)])
      (use assms header_shared_keeps header_shared in \<open>blast+\<close>)
  then show ?thesis by (cases s') (auto simp: shared_age_def end_parse_def commit_headers_def Let_def)
qed

section \<open>Guests\<close>

lemma guest_object:
  assumes "guest_process now rf_guest m ob = (True, ob')"
  shows "rf_guest" "\<not> ro_dead ob" "gm_skip_set_cookie m \<or> (\<forall>h\<in>set (ro_headers ob). \<not> is_cookie (fst h))"
    and "ro_headers ob' = (if gm_skip_set_cookie m then filter (\<lambda>h. \<not> is_cookie (fst h)) (ro_headers ob) else ro_headers ob)"
    and "ro_guest ob'" "\<not> ro_no_cache ob'" "\<not> ro_dead ob'"
proof -
  note d = guest_process_def force_cache_def Let_def
  show g: "rf_guest" using assms by (cases rf_guest) (simp_all add: d)
  show n: "\<not> ro_dead ob" using assms by (cases "ro_dead ob") (simp_all add: guest_process_def force_cache_def split: if_split_asm)
  have c: "ro_no_cache ob" using assms by (cases "ro_no_cache ob") (simp_all add: d)
  show s: "gm_skip_set_cookie m \<or> (\<forall>h\<in>set (ro_headers ob). \<not> is_cookie (fst h))"
    using assms g c by (cases "\<not> gm_skip_set_cookie m \<and> (\<exists>h\<in>set (ro_headers ob). is_cookie (fst h))") (simp add: d, auto)
  obtain ob1 where f: "force_cache now (gm_last_modified m) ob = (True, ob1)" "ro_headers ob1 = ro_headers ob" "\<not> ro_no_cache ob1" "\<not> ro_dead ob1"
    using n by (simp add: force_cache_def Let_def)
  have e: "\<not> (\<not> gm_skip_set_cookie m \<and> (\<exists>h\<in>set (ro_headers ob). is_cookie (fst h)))" using s by auto
  have o': "snd (guest_process now rf_guest m ob) = ob'" using assms by simp
  note e' = guest_process_def if_not_P [OF e] f(1) Let_def
  show "ro_headers ob' = (if gm_skip_set_cookie m then filter (\<lambda>h. \<not> is_cookie (fst h)) (ro_headers ob) else ro_headers ob)"
    and "ro_guest ob'" "\<not> ro_no_cache ob'" "\<not> ro_dead ob'"
    using g c f unfolding o' [symmetric] by (simp_all add: e')
qed

text \<open>
  A response the back end did not let into the cache and the guest mark forces there holds no cookie of its first visitor, and
  a visitor who is not a guest never gets it without the back end being asked.
\<close>

theorem guest_cache_safe:
  assumes "guest_process now rf_guest m ob = (True, ob')"
  shows "rf_guest \<and> (\<forall>h\<in>set (ro_headers ob'). \<not> is_cookie (fst h)) \<and> fst (objCanCache True auth ob')
    \<and> (\<forall>rq t. \<not> ar_guest rq \<longrightarrow> fst (check_object_expiration refresh_time t rq ob'))"
  using guest_object [OF assms] by (auto simp: objCanCache_def check_object_expiration_def Let_def)

section \<open>A forced refresh\<close>

text \<open>
  The request that carries \<^verbatim>\<open>no-cache\<close> is answered with True before the doubled lifetime is looked at, so the doubling never
  clears the flag.
\<close>

lemma forced_refresh_kept: "snd (check_object_expiration refresh_time t rq ob) = rq" "ar_no_cache rq \<Longrightarrow> fst (check_object_expiration refresh_time t rq ob)"
  by (cases rq; simp add: check_object_expiration_def Let_def)+

section \<open>Concrete responses\<close>

definition plain_fields :: "string \<Rightarrow> string list" where
  "plain_fields v = foldr (\<lambda>c fs. if c = CHR '','' then [] # fs else (c # hd fs) # tl fs) v [[]]"

definition plain_ops :: hv_ops where
  "plain_ops =
     \<lparr>hv_time = (\<lambda>v. None), hv_int64 = (\<lambda>v. None), hv_atoi = (\<lambda>v. int (length v)), hv_atol = (\<lambda>v. int (length v)), hv_http_time = (\<lambda>t. []),
      hv_fields = plain_fields, hv_is = strcase_eq,
      hv_is_int = (\<lambda>f k. if take (length k) f = k then Some (foldl (\<lambda>n c. n * 10 + (of_char c - 48)) 0 (drop (length k) f)) else None),
      hv_binary = (\<lambda>v. None), hv_room = (\<lambda>hs a v. True)\<rparr>"

definition kept_response :: "(hdr \<times> string) list" where
  "kept_response = [(H_cache_control, ''s-maxage=20,max-age=5''), (H_cache_control, ''max-age=7'')]"

definition secret_response :: "(hdr \<times> string) list" where
  "secret_response = [(H_cache_control, ''max-age=9,no-store''), (H_cache_control, ''public'')]"

lemma kept_runs: "fst (st_write_headers plain_ops 1000 (\<lambda>v. True) False kept_response (new_resp_parser, new_resp_obj 1000))"
  by code_simp

lemma secret_runs: "fst (st_write_headers plain_ops 1000 (\<lambda>v. True) False secret_response (new_resp_parser, new_resp_obj 1000))"
  by code_simp

lemma secret_headers: "\<forall>h\<in>set secret_response. \<not> static_header plain_ops h" "\<exists>h\<in>set secret_response. stop_header plain_ops h"
  by code_simp+

lemma kept_headers: "\<forall>h\<in>set kept_response. only_shared plain_ops 20 h" "''s-maxage=20'' \<in> set (hv_fields plain_ops ''s-maxage=20,max-age=5'')"
  "hv_is_int plain_ops ''s-maxage=20'' ''s-maxage='' = Some 20" "hv_is_int plain_ops ''s-maxage=20'' ''max-age='' = None"
  "\<not> hv_is plain_ops ''s-maxage=20'' ''static''" "\<not> hv_is plain_ops ''s-maxage=20'' ''public''"
  by code_simp+

theorem no_store_never_cached_witness:
  "\<not> fst (objCanCache True False (snd (end_parse 1000 999 10
       (snd (st_write_headers plain_ops 1000 (\<lambda>v. True) False secret_response (new_resp_parser, new_resp_obj 1000))))))"
proof -
  let ?r = "st_write_headers plain_ops 1000 (\<lambda>v. True) False secret_response (new_resp_parser, new_resp_obj 1000)"
  have "?r = (True, snd ?r)" using secret_runs by (simp add: prod_eq_iff)
  moreover have "\<not> ro_static (new_resp_obj 1000)" by (simp add: new_resp_obj_def)
  ultimately show ?thesis using secret_headers by (intro no_store_never_cached) auto
qed

theorem s_maxage_wins_witness:
  "ro_max_age (snd (end_parse 1000 999 10
       (snd (st_write_headers plain_ops 1000 (\<lambda>v. True) False kept_response (new_resp_parser, new_resp_obj 1000))))) = 20"
proof -
  let ?r = "st_write_headers plain_ops 1000 (\<lambda>v. True) False kept_response (new_resp_parser, new_resp_obj 1000)"
  have "?r = (True, snd ?r)" using kept_runs by (simp add: prod_eq_iff)
  from s_maxage_wins [OF this kept_headers(1) _ kept_headers(2-6)] show ?thesis by (simp add: kept_response_def)
qed


definition guest_response :: resp_obj where
  "guest_response = (new_resp_obj 1000)\<lparr>ro_no_cache := True, ro_headers := [(H_set_cookie, ''id=7''), (H_other 3, ''x'')]\<rparr>"

definition guest_rule :: guest_mark where
  "guest_rule = \<lparr>gm_max_age = 60, gm_last_modified = False, gm_soft = False, gm_must_revalidate = False, gm_skip_set_cookie = True\<rparr>"

theorem guest_cache_safe_witness:
  "fst (guest_process 1000 True guest_rule guest_response)
   \<and> fst (check_object_expiration 60 1001 \<lparr>ar_guest = False, ar_no_cache = False, ar_double_expire = False\<rparr>
       (snd (guest_process 1000 True guest_rule guest_response)))"
proof -
  let ?r = "guest_process 1000 True guest_rule guest_response"
  have r: "fst ?r" by (simp add: guest_process_def guest_rule_def guest_response_def new_resp_obj_def force_cache_def Let_def)
  then have "?r = (True, snd ?r)" by (simp add: prod_eq_iff)
  from guest_cache_safe [OF this] show ?thesis using r by simp
qed

end
